(* ===== verification/Prelude.thy ===== *)
theory Prelude
  imports Main "HOL-Library.Word" "HOL-Library.Monad_Syntax"
begin

unbundle bit_operations_syntax

section \<open>Prelude: machine words, checked buffers, shared lemmas\<close>

text \<open>
  The vocabulary of the development: the fixed-width integers of the C and C++ sources as
  words, byte buffers as lists with checked reads and copies (an access outside a buffer is
  \<open>None\<close>, the model's value for undefined behaviour), and the lemmas about both that the
  component theories share.
\<close>

type_synonym u8 = "8 word"
type_synonym u16 = "16 word"
type_synonym u32 = "32 word"
type_synonym bytes = "u8 list"

named_theorems buf_simps \<open>evaluation of checked buffer accesses\<close>
named_theorems field_defs \<open>definitions of small accessors that proofs unfold\<close>

subsection \<open>Checked buffer accesses\<close>

text \<open>\<open>rd\<close> is \<open>p[i]\<close>, \<open>rdn\<close> the source range of a \<open>memcpy\<close> and \<open>memcpy_at\<close> its
  destination; each is \<open>None\<close> when it leaves the buffer.\<close>

definition rd :: "'a list \<Rightarrow> nat \<Rightarrow> 'a option" where
  "rd xs i = (if i < length xs then Some (xs ! i) else None)"

definition rdn :: "'a list \<Rightarrow> nat \<Rightarrow> nat \<Rightarrow> 'a list option" where
  "rdn xs i n = (if i + n \<le> length xs then Some (take n (drop i xs)) else None)"

definition memcpy_at :: "'a list \<Rightarrow> nat \<Rightarrow> 'a list \<Rightarrow> 'a list option" where
  "memcpy_at dst off src =
     (if off + length src \<le> length dst
      then Some (take off dst @ src @ drop (off + length src) dst) else None)"

definition wr :: "'a list \<Rightarrow> nat \<Rightarrow> 'a \<Rightarrow> 'a list option" where
  "wr xs i v = (if i < length xs then Some (xs[i := v]) else None)"

lemma rd_Some [buf_simps]: "i < length xs \<Longrightarrow> rd xs i = Some (xs ! i)"
  by (simp add: rd_def)

lemma rd_Cons_0 [simp]: "rd (x # xs) 0 = Some x"
  by (simp add: rd_def)

lemma rd_eq_Some_iff: "rd xs i = Some x \<longleftrightarrow> i < length xs \<and> xs ! i = x"
  by (auto simp: rd_def)

lemma rdn_Some [buf_simps]: "i + n \<le> length xs \<Longrightarrow> rdn xs i n = Some (take n (drop i xs))"
  by (simp add: rdn_def)

lemma rdn_eq_Some_iff:
  "rdn xs i n = Some ys \<longleftrightarrow> i + n \<le> length xs \<and> ys = take n (drop i xs)"
  by (auto simp: rdn_def)

lemma rdn_length: "rdn xs i n = Some ys \<Longrightarrow> length ys = n"
  by (auto simp: rdn_def split: if_splits)

lemma memcpy_at_Some [buf_simps]:
  "off + length src \<le> length dst \<Longrightarrow>
   memcpy_at dst off src = Some (take off dst @ src @ drop (off + length src) dst)"
  by (simp add: memcpy_at_def)

lemma memcpy_at_eq_Some_iff:
  "memcpy_at dst off src = Some ys \<longleftrightarrow>
     off + length src \<le> length dst \<and> ys = take off dst @ src @ drop (off + length src) dst"
  by (auto simp: memcpy_at_def)

lemma memcpy_at_length: "memcpy_at dst off src = Some ys \<Longrightarrow> length ys = length dst"
  by (auto simp: memcpy_at_def split: if_splits)

lemma memcpy_at_take:
  "memcpy_at dst off src = Some ys \<Longrightarrow> take (off + length src) ys = take off dst @ src"
  by (auto simp: memcpy_at_def split: if_splits)

lemma wr_Some [buf_simps]: "i < length xs \<Longrightarrow> wr xs i v = Some (xs[i := v])"
  by (simp add: wr_def)

lemma wr_eq_Some_iff: "wr xs i v = Some ys \<longleftrightarrow> i < length xs \<and> ys = xs[i := v]"
  by (auto simp: wr_def)

lemma take_add_drop: "take n xs @ take m (drop n xs) = take (n + m) xs"
  by (simp add: take_add)

lemma take_4_Cons: "take (4 + n) (a # b # c # d # xs) = a # b # c # d # take n xs"
  by (simp add: numeral_eq_Suc)

lemma drop_4_Cons: "drop (4 + n) (a # b # c # d # xs) = drop n xs"
  by (simp add: numeral_eq_Suc)

lemma length_4_cases:
  assumes "length b = 4" obtains p q r s where "b = [p, q, r, s]"
  using assms by (auto simp: numeral_eq_Suc length_Suc_conv)

subsection \<open>Total correctness of partial computations\<close>

text \<open>\<open>ensures m Q\<close>: the computation \<open>m\<close> returns, and what it returns satisfies \<open>Q\<close>.\<close>

definition ensures :: "'a option \<Rightarrow> ('a \<Rightarrow> bool) \<Rightarrow> bool" where
  "ensures m Q \<longleftrightarrow> (\<exists>x. m = Some x \<and> Q x)"

lemma ensures_Some [simp]: "ensures (Some x) Q \<longleftrightarrow> Q x"
  by (simp add: ensures_def)

lemma ensures_None [simp]: "\<not> ensures None Q"
  by (simp add: ensures_def)

lemma ensures_bind_iff: "ensures (m \<bind> f) Q \<longleftrightarrow> ensures m (\<lambda>x. ensures (f x) Q)"
  by (cases m) simp_all

lemma ensures_bindI: "ensures m P \<Longrightarrow> (\<And>x. P x \<Longrightarrow> ensures (f x) Q) \<Longrightarrow> ensures (m \<bind> f) Q"
  by (cases m) simp_all

lemma ensures_mono: "ensures m P \<Longrightarrow> (\<And>x. P x \<Longrightarrow> Q x) \<Longrightarrow> ensures m Q"
  by (auto simp: ensures_def)

lemma ensures_if: "(b \<Longrightarrow> ensures m Q) \<Longrightarrow> (\<not> b \<Longrightarrow> ensures n Q) \<Longrightarrow> ensures (if b then m else n) Q"
  by simp

lemma ensuresD: "ensures m Q \<Longrightarrow> m = Some x \<Longrightarrow> Q x"
  by (simp add: ensures_def)

lemma ensures_conj: "ensures m P \<Longrightarrow> ensures m Q \<Longrightarrow> ensures m (\<lambda>x. P x \<and> Q x)"
  by (auto simp: ensures_def)

subsection \<open>Words\<close>

lemma unat_u8_less [simp]: "unat (x :: u8) < 256"
  using unsigned_less [of x, where ?'a = nat] by simp

lemma unat_u8_le [simp]: "unat (x :: u8) \<le> 255"
  using unat_u8_less [of x] by linarith

lemma unat_u16_less [simp]: "unat (x :: u16) < 65536"
  using unsigned_less [of x, where ?'a = nat] by simp

lemma unat_word_of_nat_u8: "n < 256 \<Longrightarrow> unat (word_of_nat n :: u8) = n"
  by (simp add: unat_of_nat take_bit_eq_mod)

lemma unat_word_of_nat_u16: "n < 65536 \<Longrightarrow> unat (word_of_nat n :: u16) = n"
  by (simp add: unat_of_nat take_bit_eq_mod)

lemma unat_ucast_u8_u16 [simp]: "unat (ucast (x :: u8) :: u16) = unat x"
proof -
  have "unat x < 65536"
    by (rule order.strict_trans [OF unat_u8_less]) simp
  then show ?thesis
    by (simp add: unsigned_ucast_eq take_bit_eq_mod)
qed

text \<open>Masks of low bits as \<open>take_bit\<close>, the form the bit lemmas of the library know.\<close>

lemma word_and_15: "(x :: 'a :: len word) AND 15 = take_bit 4 x"
  using take_bit_eq_mask [of 4 x] by (simp add: mask_eq_exp_minus_1)

lemma word_and_3: "(x :: 'a :: len word) AND 3 = take_bit 2 x"
  using take_bit_eq_mask [of 2 x] by (simp add: mask_eq_exp_minus_1)

lemma word_and_7: "(x :: 'a :: len word) AND 7 = take_bit 3 x"
  using take_bit_eq_mask [of 3 x] by (simp add: mask_eq_exp_minus_1)

lemma word_and_63: "(x :: 'a :: len word) AND 63 = take_bit 6 x"
  using take_bit_eq_mask [of 6 x] by (simp add: mask_eq_exp_minus_1)

lemma word_and_255: "(x :: 'a :: len word) AND 255 = take_bit 8 x"
  using take_bit_eq_mask [of 8 x] by (simp add: mask_eq_exp_minus_1)

lemmas and_masks = word_and_3 word_and_7 word_and_15 word_and_63 word_and_255


text \<open>Equality and vanishing of words bit by bit: with concrete bit numbers the simplifier
  decides identities of shifts and masks.\<close>

lemma bit_u8_beyond [simp]: "8 \<le> n \<Longrightarrow> \<not> bit (x :: u8) n"
  using bit_imp_le_length [of x n] by auto

lemma bit_u16_beyond [simp]: "16 \<le> n \<Longrightarrow> \<not> bit (x :: u16) n"
  using bit_imp_le_length [of x n] by auto

lemma all_less_8: "(\<forall>n < 8. P n) \<longleftrightarrow> P 0 \<and> P 1 \<and> P 2 \<and> P 3 \<and> P 4 \<and> P 5 \<and> P 6 \<and> P (7 :: nat)"
proof -
  have eq: "{..< 8 :: nat} = {0, 1, 2, 3, 4, 5, 6, 7}"
    by (simp add: lessThan_nat_numeral lessThan_Suc insert_commute)
  have "(\<forall>n < 8. P n) \<longleftrightarrow> (\<forall>n \<in> {..< 8 :: nat}. P n)"
    by auto
  also have "\<dots> \<longleftrightarrow> (\<forall>n \<in> {0, 1, 2, 3, 4, 5, 6, 7 :: nat}. P n)"
    by (simp only: eq)
  finally show ?thesis
    by simp
qed

lemma all_less_16:
  "(\<forall>n < 16. P n) \<longleftrightarrow> (\<forall>n < 8. P n) \<and> P 8 \<and> P 9 \<and> P 10 \<and> P 11 \<and> P 12 \<and> P 13 \<and> P 14 \<and> P (15 :: nat)"
proof -
  have eq: "{..< 16 :: nat} = {..< 8} \<union> {8, 9, 10, 11, 12, 13, 14, 15}"
    by (simp add: lessThan_nat_numeral lessThan_Suc insert_commute)
  have "(\<forall>n < 16. P n) \<longleftrightarrow> (\<forall>n \<in> {..< 16 :: nat}. P n)"
    by auto
  also have "\<dots> \<longleftrightarrow> (\<forall>n \<in> {..< 8} \<union> {8, 9, 10, 11, 12, 13, 14, 15 :: nat}. P n)"
    by (simp only: eq)
  finally show ?thesis
    by (auto simp: ball_Un)
qed

lemma u8_eq_iff: "(x :: u8) = y \<longleftrightarrow> (\<forall>n < 8. bit x n = bit y n)"
  by (auto simp: bit_eq_iff)

lemma u16_eq_iff: "(x :: u16) = y \<longleftrightarrow> (\<forall>n < 16. bit x n = bit y n)"
  by (auto simp: bit_eq_iff)

lemmas bitblast_u8 = u8_eq_iff all_less_8
lemmas bitblast_u16 = u16_eq_iff all_less_16 all_less_8

lemma bit_word_unat: "bit (w :: 'a :: len word) n \<longleftrightarrow> odd (unat w div 2 ^ n)"
  by (simp only: bit_iff_odd [symmetric] bit_unsigned_iff possible_bit_nat simp_thms)

lemma bit_7_unat: "bit (b :: u8) 7 \<longleftrightarrow> 128 \<le> unat b"
proof -
  have "unat b div 128 < 2"
    using unat_u8_less [of b] by linarith
  then have "odd (unat b div 128) \<longleftrightarrow> unat b div 128 \<noteq> 0"
    by (cases "unat b div 128") auto
  then show ?thesis
    by (simp add: bit_word_unat div_eq_0_iff not_less)
qed

lemma u8_and_128: "(b :: u8) AND 0x80 = 0 \<longleftrightarrow> \<not> bit b 7"
  by (simp add: bitblast_u8 bit_simps)

lemma unat_drop_bit_4: "unat (drop_bit 4 (b :: u8)) = unat b div 16"
  unfolding unat_drop_bit_eq by (simp add: drop_bit_eq_div)

lemma u8_and_3_cases:
  "(g :: u8) AND 3 = 0 \<or> g AND 3 = 1 \<or> g AND 3 = 2 \<or> g AND 3 = 3"
  unfolding and_masks by (simp add: bitblast_u8 bit_simps numeral_2_eq_2 numeral_3_eq_3) blast

lemma unat_add_u16: "unat (a :: u16) + unat b < 65536 \<Longrightarrow> unat (a + b) = unat a + unat b"
  by (simp add: unat_word_ariths)

lemma ucast_word_of_nat_u16: "n < 65536 \<Longrightarrow> ucast (word_of_nat n :: u16) = (word_of_nat n :: u8)"
proof -
  have "(ucast (word_of_nat n :: u16) :: u8) = word_of_nat (unat (word_of_nat n :: u16))"
    by simp
  then show "n < 65536 \<Longrightarrow> ?thesis"
    by (simp only: unat_word_of_nat_u16)
qed

lemma ucast_ucast_u8 [simp]: "ucast (ucast (x :: u8) :: u16) = x"
  by (simp add: bitblast_u8 bit_simps)

lemma ucast_word_of_nat_u8: "n < 256 \<Longrightarrow> ucast (word_of_nat n :: u8) = (word_of_nat n :: u16)"
proof -
  assume "n < 256"
  then have "unat (word_of_nat n :: u8) = n"
    by (rule unat_word_of_nat_u8)
  then show ?thesis
    by (metis of_nat_unat)
qed


lemma take_bit_word_id: "unat (x :: 'a :: len word) < 2 ^ k \<Longrightarrow> take_bit k x = x"
proof -
  assume "unat x < 2 ^ k"
  then have "take_bit k (unat x) = unat x"
    by (simp add: take_bit_eq_mod)
  then have "unat (take_bit k x) = unat x"
    by (simp only: unsigned_take_bit_eq)
  then show ?thesis
    by (simp only: word_unat_eq_iff)
qed

end
