(* ===== verification/Float32.thy ===== *)
theory Float32
  imports Prelude Complex_Main
begin

section \<open>Single precision values\<close>

text \<open>
  The C++ \<open>float\<close> of the decoders as a rational number: \<open>fl\<close> rounds a rational to the nearest
  value with a 24-bit significand, ties to the even one, which is what the compiler does with a
  literal and the machine with the result of each operation.  All values of the decoders lie far
  inside the exponent range, so overflow, subnormal numbers and NaN do not occur and are not
  modelled.  The lemmas say when rounding changes nothing.
\<close>

fun bits :: "nat \<Rightarrow> nat" where
  "bits n = (if n = 0 then 0 else Suc (bits (n div 2)))"

declare bits.simps [simp del]

definition pow2 :: "int \<Rightarrow> rat" where
  "pow2 k = (if 0 \<le> k then 2 ^ nat k else 1 / 2 ^ nat (- k))"

text \<open>The exponent of a positive rational: \<open>2 ^ expo x \<le> x < 2 ^ (expo x + 1)\<close>.\<close>

definition expo :: "rat \<Rightarrow> int" where
  "expo x =
     (let (p, q) = quotient_of x; k = int (bits (nat p)) - int (bits (nat q))
      in if pow2 k \<le> x then k else k - 1)"

definition round_even :: "rat \<Rightarrow> int" where
  "round_even x =
     (let f = \<lfloor>x\<rfloor>; r = x - of_int f
      in if r < 1 / 2 then f else if 1 / 2 < r then f + 1 else if even f then f else f + 1)"

definition fl :: "rat \<Rightarrow> rat" where
  "fl x =
     (if x = 0 then 0
      else let e = expo \<bar>x\<bar> - 23 in of_int (round_even (x / pow2 e)) * pow2 e)"

lemma pow2_pos [simp]: "0 < pow2 k"
  by (simp add: pow2_def)

lemma pow2_nonzero [simp]: "pow2 k \<noteq> 0"
  using pow2_pos [of k] by linarith

lemma pow2_powi: "pow2 k = 2 powi k"
  by (simp add: pow2_def power_int_def field_simps)

lemma pow2_add: "pow2 (a + b) = pow2 a * pow2 b"
  by (simp add: pow2_powi power_int_add)

lemma pow2_nat: "pow2 (int n) = 2 ^ n"
  by (simp add: pow2_def)

lemma pow2_mono: "a \<le> b \<Longrightarrow> pow2 a \<le> pow2 b"
  by (simp add: pow2_powi power_int_increasing)

lemma pow2_less_iff: "pow2 a < pow2 b \<longleftrightarrow> a < b"
  using pow2_mono [of b a] power_int_strict_increasing [of a b "2 :: rat"]
  by (fastforce simp: pow2_powi not_less [symmetric])

lemma bits_bounds: "0 < n \<Longrightarrow> 2 ^ (bits n - 1) \<le> n \<and> n < 2 ^ bits n \<and> 0 < bits n"
proof (induction n rule: bits.induct)
  case (1 n)
  show ?case
  proof (cases "n div 2 = 0")
    case True
    with 1(2) have "n = 1" by (simp add: div_eq_0_iff)
    then show ?thesis by (simp add: bits.simps)
  next
    case False
    have b: "bits n = Suc (bits (n div 2))" using 1(2) by (subst bits.simps) simp
    have ih: "2 ^ (bits (n div 2) - 1) \<le> n div 2" "n div 2 < 2 ^ bits (n div 2)" "0 < bits (n div 2)"
      using 1(1) [OF _ ] 1(2) False by auto
    have "2 ^ bits (n div 2) = 2 * (2 :: nat) ^ (bits (n div 2) - 1)"
      using ih(3) by (metis Suc_pred' power_Suc)
    then show ?thesis using ih unfolding b by simp linarith
  qed
qed

lemma quotient_of_pos:
  assumes "0 < x" "quotient_of x = (p, q)"
  shows "0 < p" "0 < q" "x * of_int q = of_int p"
proof -
  show q: "0 < q" using quotient_of_denom_pos [OF assms(2)] .
  have x: "x = of_int p / of_int q" using quotient_of_div [OF assms(2)] .
  then show "x * of_int q = of_int p" using q by simp
  show "0 < p" using assms(1) q unfolding x by (simp add: zero_less_divide_iff)
qed

lemma expo_bounds:
  assumes "0 < x"
  shows "pow2 (expo x) \<le> x \<and> x < pow2 (expo x + 1)"
proof -
  obtain p q where pq: "quotient_of x = (p, q)" by (rule prod.exhaust)
  note f = quotient_of_pos [OF assms pq]
  define a where "a = bits (nat p)"
  define b where "b = bits (nat q)"
  have A: "2 ^ (a - 1) \<le> nat p" "nat p < 2 ^ a" "0 < a" and B: "2 ^ (b - 1) \<le> nat q" "nat q < 2 ^ b" "0 < b"
    using bits_bounds [of "nat p"] bits_bounds [of "nat q"] f(1,2) unfolding a_def b_def by auto
  have pa: "pow2 (int a - 1) \<le> of_int p" "of_int p < pow2 (int a)"
    and qb: "pow2 (int b - 1) \<le> of_int q" "of_int q < pow2 (int b)"
  proof -
    have *: "pow2 (int c - 1) \<le> of_int z \<and> of_int z < pow2 (int c)"
      if "2 ^ (c - 1) \<le> nat z" "nat z < 2 ^ c" "0 < c" "0 < z" for c z
    proof -
      have "int (2 ^ (c - 1)) \<le> z" using that(1,4) by (metis nat_le_iff nat_eq_iff2 of_nat_le_iff order_less_imp_le int_nat_eq)
      moreover have "z < int (2 ^ c)" using that(2,4) by (metis zless_nat_eq_int_zless nat_int zless_nat_conj order_less_imp_le of_nat_less_iff int_nat_eq)
      ultimately have "2 ^ (c - 1) \<le> z" "z < 2 ^ c" by simp_all
      then have "rat_of_int (2 ^ (c - 1)) \<le> of_int z" "rat_of_int z < of_int (2 ^ c)"
        unfolding of_int_le_iff of_int_less_iff .
      moreover have "int c - 1 = int (c - 1)" using that(3) by simp
      ultimately show ?thesis unfolding \<open>int c - 1 = int (c - 1)\<close> pow2_nat of_int_power of_int_numeral by blast
    qed
    show "pow2 (int a - 1) \<le> of_int p" "of_int p < pow2 (int a)" using * [OF A f(1)] by auto
    show "pow2 (int b - 1) \<le> of_int q" "of_int q < pow2 (int b)" using * [OF B f(2)] by auto
  qed
  have lo: "pow2 (int a - int b - 1) < x"
  proof -
    have "pow2 (int a - int b - 1) * of_int q < pow2 (int a - int b - 1) * pow2 (int b)" using qb(2) by simp
    also have "\<dots> = pow2 (int a - 1)" by (simp add: pow2_add [symmetric])
    also have "\<dots> \<le> x * of_int q" using pa(1) f(3) by simp
    finally show ?thesis using f(2) by simp
  qed
  have hi: "x < pow2 (int a - int b + 1)"
  proof -
    have "x * pow2 (int b - 1) \<le> x * of_int q" using qb(1) assms by simp
    also have "\<dots> < pow2 (int a)" using pa(2) f(3) by simp
    also have "\<dots> = pow2 (int a - int b + 1) * pow2 (int b - 1)" by (simp add: pow2_add [symmetric])
    finally show ?thesis by simp
  qed
  have e: "expo x = (if pow2 (int a - int b) \<le> x then int a - int b else int a - int b - 1)"
    unfolding expo_def pq by (simp only: Let_def a_def b_def prod.case)
  show ?thesis
  proof (cases "pow2 (int a - int b) \<le> x")
    case True
    then show ?thesis using hi unfolding e by simp
  next
    case False
    then show ?thesis using lo unfolding e by simp
  qed
qed

lemma round_even_of_int [simp]: "round_even (of_int n) = n"
  by (simp add: round_even_def)

text \<open>A value with at most 24 significant bits is not rounded.\<close>

lemma fl_exact:
  assumes "\<bar>m\<bar> < 2 ^ 24"
  shows "fl (of_int m * pow2 k) = of_int m * pow2 k"
proof (cases "m = 0")
  case True
  then show ?thesis by (simp add: fl_def)
next
  case False
  let ?x = "of_int m * pow2 k"
  define e where "e = expo \<bar>?x\<bar> - 23"
  have pos: "0 < \<bar>?x\<bar>" using False by simp
  have "pow2 (expo \<bar>?x\<bar>) \<le> \<bar>?x\<bar>" using expo_bounds [OF pos] by simp
  also have "\<bar>?x\<bar> < pow2 24 * pow2 k"
  proof -
    have "rat_of_int \<bar>m\<bar> < of_int (2 ^ 24)" using assms unfolding of_int_less_iff .
    then have "rat_of_int \<bar>m\<bar> * pow2 k < 2 ^ 24 * pow2 k" by (simp del: of_int_abs)
    then show ?thesis using pow2_pos [of k] by (simp add: abs_mult abs_of_pos pow2_def [of 24])
  qed
  also have "\<dots> = pow2 (24 + k)" by (simp add: pow2_add)
  finally have "e \<le> k" by (simp add: pow2_less_iff e_def)
  then have "pow2 k = of_int (2 ^ nat (k - e)) * pow2 e"
    using pow2_add [of "k - e" e] by (simp add: pow2_def [of "k - e"])
  then have x: "?x = of_int (m * 2 ^ nat (k - e)) * pow2 e" by simp
  have "round_even (?x / pow2 e) = m * 2 ^ nat (k - e)"
    unfolding x using round_even_of_int [of "m * 2 ^ nat (k - e)"] by simp
  then have "fl ?x = of_int (m * 2 ^ nat (k - e)) * pow2 e"
    using False by (simp add: fl_def e_def [symmetric] Let_def)
  also have "\<dots> = ?x" by (rule x [symmetric])
  finally show ?thesis .
qed

lemma fl_int: "\<bar>m\<bar> < 2 ^ 24 \<Longrightarrow> fl (of_int m) = of_int m"
  using fl_exact [of m 0] by (simp add: pow2_def)

lemma fl_nat: "n < 2 ^ 24 \<Longrightarrow> fl (of_nat n) = of_nat n"
  using fl_int [of "int n"] by simp

lemma fl_half: "\<bar>m\<bar> < 2 ^ 24 \<Longrightarrow> fl (of_int m / 2) = of_int m / 2"
  using fl_exact [of m "-1"] by (simp add: pow2_def)

lemma fl_quarter: "\<bar>m\<bar> < 2 ^ 24 \<Longrightarrow> fl (of_int m / 4) = of_int m / 4"
  using fl_exact [of m "-2"] by (simp add: pow2_def)

end
