(* ===== verification/Bap.thy ===== *)
theory Bap
  imports Prelude
begin

unbundle bit_operations_syntax

section \<open>BAP: element codec, body cursors and the framing of a telegram\<close>

text \<open>
  \<open>vehicle_vwegolf/src/bap/bap.h\<close> and \<open>bap.cpp\<close>: the two-byte element header, the transport
  control byte, the MQB CAN ids, the bounds-checked body \<open>Reader\<close> and \<open>Writer\<close>, and
  \<open>sendElementFn\<close>, which splits one telegram into CAN frames handed to a sink.  A pointer
  with a length is a byte list, a null body is \<open>None\<close>, and an access outside a buffer makes
  the whole call \<open>None\<close>.
\<close>

subsection \<open>Element header\<close>

datatype opcode_name =
  OP_GET | OP_SET_GET | OP_HEARTBEAT | OP_STATUS | OP_STATUS_ACK | OP_ACK | OP_ERROR

fun opcode_val :: "opcode_name \<Rightarrow> u8" where
  "opcode_val OP_GET = 1"
| "opcode_val OP_SET_GET = 2"
| "opcode_val OP_HEARTBEAT = 3"
| "opcode_val OP_STATUS = 4"
| "opcode_val OP_STATUS_ACK = 5"
| "opcode_val OP_ACK = 6"
| "opcode_val OP_ERROR = 7"

record element =
  el_opcode :: u8
  el_lsg :: u8
  el_func :: u8
  el_bodyLen :: u16
  el_body :: "bytes option"

definition copyBody :: "element \<Rightarrow> bytes \<Rightarrow> u16 \<Rightarrow> (bytes \<times> u16) option" where
  "copyBody e out cap =
     (let n = (if el_bodyLen e < cap then el_bodyLen e else cap)
      in case el_body e of
           None \<Rightarrow> Some (out, n)
         | Some b \<Rightarrow>
             (if n = 0 then Some (out, n)
              else do { bs \<leftarrow> rdn b 0 (unat n); out' \<leftarrow> memcpy_at out 0 bs; Some (out', n) }))"

definition encodeHeader :: "u8 \<Rightarrow> u8 \<Rightarrow> u8 \<Rightarrow> u8 \<times> u8" where
  "encodeHeader opcode lsg func =
     (let func12 = (push_bit 6 (ucast (lsg AND 0x3F)) OR ucast (func AND 0x3F) :: u16)
      in (push_bit 4 (opcode AND 0x0F) OR ucast (drop_bit 8 func12 AND 0x0F),
          ucast (func12 AND 0xFF)))"

definition decodeHeader :: "u8 \<Rightarrow> u8 \<Rightarrow> u8 \<times> u8 \<times> u8" where
  "decodeHeader in0 in1 =
     (let func12 = (push_bit 8 (ucast (in0 AND 0x0F)) OR ucast in1 :: u16)
      in (drop_bit 4 in0, ucast (drop_bit 6 func12), ucast (func12 AND 0x3F)))"

text \<open>The outer \<open>None\<close> is a read past the buffer, the inner one the code's \<open>false\<close>.\<close>

definition decodeElement :: "bytes \<Rightarrow> u16 \<Rightarrow> element option option" where
  "decodeElement elem len =
     (if len < 2 then Some None
      else do {
        h0 \<leftarrow> rd elem 0;
        h1 \<leftarrow> rd elem 1;
        body \<leftarrow> rdn elem 2 (unat len - 2);
        let (opcode, lsg, func) = decodeHeader h0 h1;
        Some (Some \<lparr>el_opcode = opcode, el_lsg = lsg, el_func = func, el_bodyLen = len - 2,
                    el_body = (if len > 2 then Some body else None)\<rparr>)
      })"

subsection \<open>Transport control byte and CAN ids\<close>

definition isSegStart :: "u8 \<Rightarrow> bool" where
  "isSegStart b \<longleftrightarrow> drop_bit 4 b \<ge> 0x8 \<and> drop_bit 4 b \<le> 0xB"

definition isSegCont :: "u8 \<Rightarrow> bool" where
  "isSegCont b \<longleftrightarrow> drop_bit 4 b \<ge> 0xC"

definition isShortFrame :: "u8 \<Rightarrow> bool" where
  "isShortFrame b \<longleftrightarrow> b AND 0x80 = 0"

definition segGroup :: "u8 \<Rightarrow> u8" where
  "segGroup b = drop_bit 4 b AND 0x3"

definition segIndex :: "u8 \<Rightarrow> u8" where
  "segIndex b = b AND 0xF"

definition putLe16 :: "u16 \<Rightarrow> u8 \<times> u8" where
  "putLe16 v = (ucast (v AND 0xFF), ucast (drop_bit 8 v AND 0xFF))"

definition getLe16 :: "u8 \<Rightarrow> u8 \<Rightarrow> u16" where
  "getLe16 p0 p1 = ucast p0 OR push_bit 8 (ucast p1)"

definition kMqbBase :: u16 where
  "kMqbBase = 0x1733"

definition kSubsystemFsg :: u8 where
  "kSubsystemFsg = 0x10"

definition mqbCanId :: "u8 \<Rightarrow> u8 \<Rightarrow> u16 \<Rightarrow> u32" where
  "mqbCanId lsg subsystem base = push_bit 16 (ucast base) OR push_bit 8 (ucast lsg) OR ucast subsystem"

record can_id =
  cid_base :: u16
  cid_lsg :: u8
  cid_subsystem :: u8

definition decodeCanId :: "u32 \<Rightarrow> can_id" where
  "decodeCanId i =
     \<lparr>cid_base = ucast (drop_bit 16 i AND 0xFFFF),
      cid_lsg = ucast (drop_bit 8 i AND 0xFF),
      cid_subsystem = ucast (i AND 0xFF)\<rparr>"

definition isFromFsg :: "u32 \<Rightarrow> bool" where
  "isFromFsg i \<longleftrightarrow> i AND 0xFF = ucast kSubsystemFsg"

subsection \<open>Body reader\<close>

text \<open>The cursor arithmetic is the code's: 16-bit, with the cast before each comparison.\<close>

record reader =
  r_d :: bytes
  r_n :: u16
  r_pos :: u16
  r_ok :: bool

definition Reader :: "bytes \<Rightarrow> u16 \<Rightarrow> reader" where
  "Reader data len = \<lparr>r_d = data, r_n = len, r_pos = 0, r_ok = True\<rparr>"

definition r_remaining :: "reader \<Rightarrow> u16" where
  "r_remaining r = (if r_pos r < r_n r then r_n r - r_pos r else 0)"

definition r_u8 :: "reader \<Rightarrow> (u8 \<times> reader) option" where
  "r_u8 r =
     (if r_pos r + 1 > r_n r then Some (0, r\<lparr>r_ok := False\<rparr>)
      else do {
        v \<leftarrow> rd (r_d r) (unat (r_pos r));
        Some (v, r\<lparr>r_pos := r_pos r + 1\<rparr>)
      })"

definition r_u16le :: "reader \<Rightarrow> (u16 \<times> reader) option" where
  "r_u16le r =
     (if r_pos r + 2 > r_n r then Some (0, r\<lparr>r_ok := False\<rparr>)
      else do {
        v0 \<leftarrow> rd (r_d r) (unat (r_pos r));
        v1 \<leftarrow> rd (r_d r) (unat (r_pos r) + 1);
        Some (ucast v0 OR push_bit 8 (ucast v1), r\<lparr>r_pos := r_pos r + 2\<rparr>)
      })"

definition r_skip :: "reader \<Rightarrow> u16 \<Rightarrow> reader" where
  "r_skip r k =
     (if r_pos r + k > r_n r then r\<lparr>r_pos := r_n r, r_ok := False\<rparr>
      else r\<lparr>r_pos := r_pos r + k\<rparr>)"

text \<open>\<open>strLp(out, cap, &truncated)\<close>: the result is (copied, truncated, out, reader).\<close>

definition r_strLp :: "reader \<Rightarrow> bytes \<Rightarrow> u8 \<Rightarrow> (u8 \<times> bool \<times> bytes \<times> reader) option" where
  "r_strLp r0 out cap = do {
     (len, r) \<leftarrow> r_u8 r0;
     if \<not> r_ok r then do {
       out' \<leftarrow> (if cap \<noteq> 0 then wr out 0 0 else Some out);
       Some (0, False, out', r) }
     else if r_pos r + ucast len > r_n r then do {
       out' \<leftarrow> (if cap \<noteq> 0 then wr out 0 0 else Some out);
       Some (0, False, out', r\<lparr>r_ok := False\<rparr>) }
     else do {
       let copy = (if cap \<noteq> 0 \<and> len > cap - 1 then cap - 1 else len);
       cs \<leftarrow> rdn (r_d r) (unat (r_pos r)) (unat copy);
       out1 \<leftarrow> memcpy_at out 0 cs;
       out2 \<leftarrow> (if cap \<noteq> 0 then wr out1 (unat copy) 0 else Some out1);
       Some (copy, copy < len, out2, r\<lparr>r_pos := r_pos r + ucast len\<rparr>) }
   }"

subsection \<open>Body writer\<close>

record writer =
  w_d :: bytes
  w_cap :: nat
  w_pos :: nat
  w_ok :: bool

definition Writer :: "bytes \<Rightarrow> nat \<Rightarrow> writer" where
  "Writer out cap = \<lparr>w_d = out, w_cap = cap, w_pos = 0, w_ok = True\<rparr>"

definition w_u8 :: "u8 \<Rightarrow> writer \<Rightarrow> writer option" where
  "w_u8 v w =
     (if w_pos w + 1 > w_cap w then Some (w\<lparr>w_ok := False\<rparr>)
      else do {
        d \<leftarrow> wr (w_d w) (w_pos w) v;
        Some (w\<lparr>w_d := d, w_pos := w_pos w + 1\<rparr>)
      })"

definition w_u16le :: "u16 \<Rightarrow> writer \<Rightarrow> writer option" where
  "w_u16le v w =
     (if w_pos w + 2 > w_cap w then Some (w\<lparr>w_ok := False\<rparr>)
      else do {
        d1 \<leftarrow> wr (w_d w) (w_pos w) (ucast (v AND 0xFF));
        d2 \<leftarrow> wr d1 (w_pos w + 1) (ucast (drop_bit 8 v AND 0xFF));
        Some (w\<lparr>w_d := d2, w_pos := w_pos w + 2\<rparr>)
      })"

definition w_strLp :: "bytes \<Rightarrow> u8 \<Rightarrow> writer \<Rightarrow> writer option" where
  "w_strLp s len w0 = do {
     w \<leftarrow> w_u8 len w0;
     if w_pos w + unat len > w_cap w then Some (w\<lparr>w_ok := False\<rparr>)
     else do {
       cs \<leftarrow> rdn s 0 (unat len);
       d \<leftarrow> memcpy_at (w_d w) (w_pos w) cs;
       Some (w\<lparr>w_d := d, w_pos := w_pos w + unat len\<rparr>) }
   }"

subsection \<open>Sending\<close>

text \<open>The control bytes \<open>sendElementFn\<close> puts in front of start and continuation frames.\<close>

definition start_ctrl :: "u8 \<Rightarrow> u8" where
  "start_ctrl g = 0x80 OR push_bit 4 (g AND 0x3)"

definition cont_ctrl :: "u8 \<Rightarrow> u8 \<Rightarrow> u8" where
  "cont_ctrl g i = 0xC0 OR push_bit 4 (g AND 0x3) OR (i AND 0xF)"

datatype send_status = Ok | Refused | SinkFailedFirst | SinkFailedPartial

record send_result =
  sr_status :: send_status
  sr_framesSent :: u16

definition sr_ok :: "send_result \<Rightarrow> bool" where
  "sr_ok r \<longleftrightarrow> sr_status r = Ok"

definition expectedFrames :: "u16 \<Rightarrow> u16" where
  "expectedFrames bodyLen =
     (if bodyLen \<le> 6 then 1
      else if bodyLen > 255 then 0
      else word_of_nat (1 + ((unat bodyLen - 4) + 6) div 7))"

text \<open>
  The sink is the code's \<open>FrameSinkFn\<close>: a function of its context, the eight-byte frame
  buffer and the DLC, which says whether the frame was taken.  \<open>send_conts\<close> is the
  continuation loop; its counters stay below 256 there, so they are naturals, except the
  four-bit \<open>index\<close>.
\<close>

type_synonym 's frame_sink = "'s \<Rightarrow> bytes \<Rightarrow> u8 \<Rightarrow> bool \<times> 's"

function send_conts ::
  "'s frame_sink \<Rightarrow> 's \<Rightarrow> u8 \<Rightarrow> bytes \<Rightarrow> nat \<Rightarrow> nat \<Rightarrow> u8 \<Rightarrow> u16 \<Rightarrow> ('s \<times> send_result) option"
where
  "send_conts sink s grp body bodyLen off index frames =
     (if off < bodyLen then do {
        let chunk = (if bodyLen - off > 7 then 7 else bodyLen - off);
        bs \<leftarrow> rdn body off chunk;
        c \<leftarrow> memcpy_at ((replicate 8 0)[0 := cont_ctrl grp index]) 1 bs;
        let (taken, s') = sink s c (word_of_nat (1 + chunk));
        if \<not> taken then Some (s', \<lparr>sr_status = SinkFailedPartial, sr_framesSent = frames\<rparr>)
        else send_conts sink s' grp body bodyLen (off + chunk) ((index + 1) AND 0xF) (frames + 1)
      }
      else Some (s, \<lparr>sr_status = Ok, sr_framesSent = frames\<rparr>))"
  by pat_completeness auto
termination
  by (relation "measure (\<lambda>(sink, s, grp, body, bodyLen, off, index, frames). bodyLen - off)") auto

declare send_conts.simps [simp del]

definition sendElementFn ::
  "'s frame_sink \<Rightarrow> 's \<Rightarrow> u8 \<Rightarrow> u8 \<Rightarrow> u8 \<Rightarrow> bytes option \<Rightarrow> u16 \<Rightarrow> u8 \<Rightarrow> ('s \<times> send_result) option"
where
  "sendElementFn sink s opcode lsg func body bodyLen grp =
     (if body = None \<and> bodyLen \<noteq> 0
      then Some (s, \<lparr>sr_status = Refused, sr_framesSent = 0\<rparr>)
      else let b = (case body of None \<Rightarrow> [] | Some bs \<Rightarrow> bs);
               (hdr0, hdr1) = encodeHeader opcode lsg func in
      if bodyLen \<le> 6 then do {
        bs \<leftarrow> rdn b 0 (unat bodyLen);
        f \<leftarrow> memcpy_at ((replicate 8 0)[0 := hdr0, 1 := hdr1]) 2 bs;
        let (taken, s') = sink s f (ucast (2 + bodyLen));
        if \<not> taken then Some (s', \<lparr>sr_status = SinkFailedFirst, sr_framesSent = 0\<rparr>)
        else Some (s', \<lparr>sr_status = Ok, sr_framesSent = 1\<rparr>) }
      else if bodyLen > 255 then Some (s, \<lparr>sr_status = Refused, sr_framesSent = 0\<rparr>)
      else do {
        bs \<leftarrow> rdn b 0 4;
        f \<leftarrow> memcpy_at ((replicate 8 0)[0 := start_ctrl grp,
                                       1 := ucast bodyLen, 2 := hdr0, 3 := hdr1]) 4 bs;
        let (taken, s') = sink s f 8;
        if \<not> taken then Some (s', \<lparr>sr_status = SinkFailedFirst, sr_framesSent = 0\<rparr>)
        else send_conts sink s' grp b (unat bodyLen) 4 0 1 })"

subsection \<open>Header and control byte: round trips\<close>

lemma u8_less_8_bit: "opcode < (8 :: u8) \<Longrightarrow> \<not> bit opcode 3"
proof -
  assume "opcode < 8"
  then have "unat opcode div 2 ^ 3 = 0"
    by (simp add: word_less_nat_alt)
  then show ?thesis
    by (simp add: bit_word_unat)
qed

lemma decode_encode_masked:
  "encodeHeader opcode lsg func = (h0, h1) \<Longrightarrow>
     decodeHeader h0 h1 = (opcode AND 0xF, lsg AND 0x3F, func AND 0x3F)"
  unfolding encodeHeader_def decodeHeader_def Let_def prod.inject and_masks
  by clarify (simp add: bitblast_u8 bit_simps numeral_2_eq_2 numeral_3_eq_3, simp add: eval_nat_numeral)

lemma encode_decode_header:
  "decodeHeader h0 h1 = (opcode, lsg, func) \<Longrightarrow> encodeHeader opcode lsg func = (h0, h1)"
  unfolding encodeHeader_def decodeHeader_def Let_def prod.inject and_masks
  by clarify (simp add: bitblast_u8 bit_simps)

lemma header_is_short:
  assumes "opcode < 8" and "encodeHeader opcode lsg func = (h0, h1)"
  shows "isShortFrame h0"
  using u8_less_8_bit [OF assms(1)] assms(2)
  unfolding encodeHeader_def isShortFrame_def Let_def prod.inject and_masks
  by clarify (simp add: bitblast_u8 bit_simps)

lemma getLe16_putLe16: "putLe16 v = (a, b) \<Longrightarrow> getLe16 a b = v"
  unfolding putLe16_def getLe16_def and_masks prod.inject
  by clarify (simp add: bitblast_u16 bit_simps)

lemma decodeCanId_mqbCanId:
  "decodeCanId (mqbCanId lsg sub base) = \<lparr>cid_base = base, cid_lsg = lsg, cid_subsystem = sub\<rparr>"
  unfolding decodeCanId_def mqbCanId_def and_masks can_id.ext_inject
  by (simp add: bitblast_u8 u16_eq_iff all_less_16 bit_simps)

lemma start_ctrl_simps [simp]:
  "isSegStart (start_ctrl g)" "\<not> isShortFrame (start_ctrl g)" "segGroup (start_ctrl g) = g AND 3"
  using u8_and_3_cases [of g]
  by (elim disjE; simp add: start_ctrl_def isSegStart_def isShortFrame_def segGroup_def)+

lemma drop_cont_ctrl: "drop_bit 4 (cont_ctrl g i) = 0xC OR (g AND 3)"
  unfolding cont_ctrl_def and_masks by (simp add: bitblast_u8 bit_simps)

lemma cont_ctrl_simps [simp]:
  "isSegCont (cont_ctrl g i)" "\<not> isSegStart (cont_ctrl g i)" "\<not> isShortFrame (cont_ctrl g i)"
  "segGroup (cont_ctrl g i) = g AND 3" "segIndex (cont_ctrl g i) = i AND 0xF"
proof -
  show "isSegCont (cont_ctrl g i)" "\<not> isSegStart (cont_ctrl g i)" "segGroup (cont_ctrl g i) = g AND 3"
    using u8_and_3_cases [of g]
    unfolding isSegCont_def isSegStart_def segGroup_def drop_cont_ctrl
    by (elim disjE; simp)+
  show "segIndex (cont_ctrl g i) = i AND 0xF"
    unfolding cont_ctrl_def segIndex_def and_masks by (simp add: bitblast_u8 bit_simps)
  show "\<not> isShortFrame (cont_ctrl g i)"
    unfolding cont_ctrl_def isShortFrame_def and_masks by (simp add: bitblast_u8 bit_simps)
qed


lemma isShortFrame_iff: "isShortFrame b \<longleftrightarrow> unat b < 128"
  by (simp add: isShortFrame_def u8_and_128 bit_7_unat not_le)

lemma isSegStart_iff: "isSegStart b \<longleftrightarrow> 128 \<le> unat b \<and> unat b < 192"
  by (auto simp: isSegStart_def word_le_nat_alt unat_drop_bit_4)

lemma isSegCont_iff: "isSegCont b \<longleftrightarrow> 192 \<le> unat b"
  by (auto simp: isSegCont_def word_le_nat_alt unat_drop_bit_4)

subsection \<open>The cursors as lists\<close>

text \<open>
  What is left to read is a list; a successful read takes its front and advances the
  cursor.  What has been written is a list that a successful write extends.
\<close>

definition r_rest :: "reader \<Rightarrow> bytes" where
  "r_rest r = drop (unat (r_pos r)) (take (unat (r_n r)) (r_d r))"

definition r_inv :: "reader \<Rightarrow> bool" where
  "r_inv r \<longleftrightarrow> unat (r_n r) \<le> length (r_d r) \<and> unat (r_pos r) \<le> unat (r_n r) \<and> unat (r_n r) \<le> 0xFF00"

definition r_adv :: "reader \<Rightarrow> nat \<Rightarrow> reader" where
  "r_adv r k = r\<lparr>r_pos := r_pos r + word_of_nat k\<rparr>"

lemma r_adv_adv [simp]: "r_adv (r_adv r j) k = r_adv r (j + k)"
  by (simp add: r_adv_def add.assoc)

lemma r_adv_fields [simp]: "r_ok (r_adv r k) = r_ok r" "r_n (r_adv r k) = r_n r" "r_d (r_adv r k) = r_d r"
  by (simp_all add: r_adv_def)

lemma length_r_rest: "r_inv r \<Longrightarrow> length (r_rest r) = unat (r_n r) - unat (r_pos r)"
  by (simp add: r_inv_def r_rest_def)

lemma r_inv_length: "r_inv r \<Longrightarrow> unat (r_pos r) + length (r_rest r) \<le> 0xFF00"
  by (simp add: r_inv_def r_rest_def)

lemma unat_r_adv_pos:
  assumes "r_inv r" and "k \<le> length (r_rest r)"
  shows "unat (r_pos r + word_of_nat k) = unat (r_pos r) + k"
proof -
  have "unat (r_pos r) + k \<le> 0xFF00"
    using r_inv_length [OF assms(1)] assms(2) by linarith
  then show ?thesis
    by (subst unat_add_u16) (simp_all add: unat_word_of_nat_u16)
qed

lemma r_adv_rest:
  assumes "r_inv r" and "k \<le> length (r_rest r)"
  shows "r_rest (r_adv r k) = drop k (r_rest r)" "r_inv (r_adv r k)"
proof -
  note p = unat_r_adv_pos [OF assms]
  show "r_rest (r_adv r k) = drop k (r_rest r)"
    by (simp add: r_rest_def r_adv_def p add.commute)
  show "r_inv (r_adv r k)"
    using assms p by (auto simp: r_inv_def r_adv_def r_rest_def)
qed

lemma r_nth: "\<lbrakk>r_inv r; i < length (r_rest r)\<rbrakk> \<Longrightarrow> rd (r_d r) (unat (r_pos r) + i) = Some (r_rest r ! i)"
  by (auto simp: r_rest_def rd_def r_inv_def)

lemma r_bound:
  assumes "r_inv r" and "k \<le> 255"
  shows "r_pos r + word_of_nat k > r_n r \<longleftrightarrow> length (r_rest r) < k"
proof -
  have "unat (r_pos r) + k < 65536"
    using assms by (simp add: r_inv_def)
  then have "unat (r_pos r + word_of_nat k) = unat (r_pos r) + k"
    using assms(2) by (subst unat_add_u16) (simp_all add: unat_word_of_nat_u16)
  then show ?thesis
    using assms(1) by (auto simp: word_less_nat_alt length_r_rest) (auto simp: r_inv_def)
qed

lemma r_u8_step:
  assumes "r_inv r"
  shows "r_u8 r = (case r_rest r of [] \<Rightarrow> Some (0, r\<lparr>r_ok := False\<rparr>) | x # _ \<Rightarrow> Some (x, r_adv r 1))"
  using r_bound [OF assms, of 1] r_nth [OF assms, of 0]
  by (cases "r_rest r") (simp_all add: r_u8_def r_adv_def)

lemma r_u16le_step:
  assumes "r_inv r"
  shows "r_u16le r = (if length (r_rest r) < 2 then Some (0, r\<lparr>r_ok := False\<rparr>)
                      else Some (getLe16 (r_rest r ! 0) (r_rest r ! 1), r_adv r 2))"
proof (cases "length (r_rest r) < 2")
  case True
  then show ?thesis
    using r_bound [OF assms, of 2] by (simp add: r_u16le_def)
next
  case False
  then have "0 < length (r_rest r)" "1 < length (r_rest r)"
    by auto
  then show ?thesis
    using False r_bound [OF assms, of 2] r_nth [OF assms, of 0] r_nth [OF assms, of 1]
    by (simp add: r_u16le_def r_adv_def getLe16_def)
qed

lemma r_rdn:
  assumes "r_inv r" and "k \<le> length (r_rest r)"
  shows "rdn (r_d r) (unat (r_pos r)) k = Some (take k (r_rest r))"
proof -
  have "unat (r_pos r) + k \<le> unat (r_n r)" "unat (r_n r) \<le> length (r_d r)"
    using assms length_r_rest [OF assms(1)] by (auto simp: r_inv_def)
  then show ?thesis
    by (simp add: rdn_def r_rest_def take_drop min_def)
qed

lemma r_strLp_step:
  assumes "r_inv r" and "r_ok r" and rest: "r_rest r = len # xs" and len: "unat len \<le> length xs"
    and cap: "0 < cap" "unat cap \<le> length out"
  shows "r_strLp r out cap =
     (let copy = min (unat len) (unat cap - 1)
      in Some (word_of_nat copy, copy < unat len,
               take copy xs @ [0] @ drop (Suc copy) out, r_adv r (Suc (unat len))))"
proof -
  define copy where "copy = (if cap \<noteq> 0 \<and> len > cap - 1 then cap - 1 else len)"
  have cap1: "unat (cap - 1) = unat cap - 1"
    using cap(1) by (simp add: unat_minus_one word_neq_0_conv)
  have ucopy: "unat copy = min (unat len) (unat cap - Suc 0)"
    using cap1 cap(1) by (auto simp: copy_def word_less_nat_alt)
  have lt: "unat copy < unat cap"
    using cap(1) by (auto simp: ucopy word_less_nat_alt)
  define r1 where "r1 = r_adv r (Suc 0)"
  have u8: "r_u8 r = Some (len, r1)"
    using r_u8_step [OF assms(1)] rest by (simp add: r1_def)
  have inv: "r_inv (r1)" and rest1: "r_rest (r1) = xs"
    using r_adv_rest [OF assms(1), of "Suc 0"] rest by (simp_all add: r1_def)
  have fits: "\<not> r_pos (r1) + ucast len > r_n (r1)"
    using r_bound [OF inv, of "unat len"] len rest1 by simp
  have src: "rdn (r_d (r1)) (unat (r_pos (r1))) (unat copy) = Some (take (unat copy) xs)"
    using r_rdn [OF inv, of "unat copy"] rest1 len ucopy by simp
  have adv: "(r1)\<lparr>r_pos := r_pos (r1) + ucast len\<rparr> = r_adv r (Suc (unat len))"
    by (simp add: r1_def r_adv_def ac_simps)
  have lcopy: "length (take (unat copy) xs) = unat copy"
    using len ucopy by simp
  have cp: "memcpy_at out 0 (take (unat copy) xs) = Some (take (unat copy) xs @ drop (unat copy) out)"
    using lt cap(2) lcopy by (simp add: memcpy_at_def)
  have nul: "wr (take (unat copy) xs @ drop (unat copy) out) (unat copy) 0
    = Some (take (unat copy) xs @ [0] @ drop (Suc (unat copy)) out)"
    using lt cap(2) lcopy
    by (simp add: wr_def list_update_append Cons_nth_drop_Suc [symmetric])
  have "r_strLp r out cap = do {
      cs \<leftarrow> rdn (r_d (r1)) (unat (r_pos (r1))) (unat copy);
      out1 \<leftarrow> memcpy_at out 0 cs;
      out2 \<leftarrow> wr out1 (unat copy) 0;
      Some (copy, copy < len, out2, r_adv r (Suc (unat len))) }"
    using u8 fits adv assms(2) cap(1) r1_def
    by (auto simp: r_strLp_def copy_def word_neq_0_conv Let_def)
  then show ?thesis
    unfolding src cp nul bind.bind_lunit
    by (simp add: ucopy [symmetric] Let_def word_less_nat_alt)
qed

subsection \<open>Writing\<close>

definition w_out :: "writer \<Rightarrow> bytes" where
  "w_out w = take (w_pos w) (w_d w)"

definition w_inv :: "writer \<Rightarrow> bool" where
  "w_inv w \<longleftrightarrow> w_cap w \<le> length (w_d w) \<and> w_pos w \<le> w_cap w"

definition w_put :: "writer \<Rightarrow> bytes \<Rightarrow> writer" where
  "w_put w bs = w\<lparr>w_d := take (w_pos w) (w_d w) @ bs @ drop (w_pos w + length bs) (w_d w),
                 w_pos := w_pos w + length bs\<rparr>"

lemma w_put_fields [simp]:
  "w_pos (w_put w bs) = w_pos w + length bs" "w_cap (w_put w bs) = w_cap w" "w_ok (w_put w bs) = w_ok w"
  by (simp_all add: w_put_def)

lemma w_put_out: "\<lbrakk>w_inv w; w_pos w + length bs \<le> w_cap w\<rbrakk> \<Longrightarrow> w_out (w_put w bs) = w_out w @ bs"
  by (simp add: w_put_def w_out_def w_inv_def)

lemma w_put_inv: "\<lbrakk>w_inv w; w_pos w + length bs \<le> w_cap w\<rbrakk> \<Longrightarrow> w_inv (w_put w bs)"
  by (simp add: w_put_def w_inv_def)

lemma w_put_put:
  "\<lbrakk>w_inv w; w_pos w + length as + length bs \<le> w_cap w\<rbrakk> \<Longrightarrow> w_put (w_put w as) bs = w_put w (as @ bs)"
  by (simp add: w_put_def w_inv_def ac_simps)

lemma w_u8_step:
  assumes "w_inv w"
  shows "w_u8 v w = Some (if w_pos w + 1 \<le> w_cap w then w_put w [v] else w\<lparr>w_ok := False\<rparr>)"
  using assms by (simp add: w_u8_def w_inv_def w_put_def wr_def upd_conv_take_nth_drop)

lemma w_u16le_step:
  assumes "w_inv w" and "putLe16 v = (a, b)"
  shows "w_u16le v w = Some (if w_pos w + 2 \<le> w_cap w then w_put w [a, b] else w\<lparr>w_ok := False\<rparr>)"
proof (cases "w_pos w + 2 \<le> w_cap w")
  case True
  then have "Suc (w_pos w) < length (w_d w)"
    using assms(1) by (simp add: w_inv_def)
  then have "(w_d w)[w_pos w := a, Suc (w_pos w) := b]
    = take (w_pos w) (w_d w) @ [a, b] @ drop (w_pos w + 2) (w_d w)"
    by (simp add: upd_conv_take_nth_drop list_update_append drop_update_cancel take_Suc_conv_app_nth nth_append)
  then show ?thesis
    using True assms \<open>Suc (w_pos w) < length (w_d w)\<close>
    by (simp add: w_u16le_def w_put_def wr_def putLe16_def)
next
  case False
  then show ?thesis
    by (simp add: w_u16le_def)
qed

lemma w_strLp_step:
  assumes "w_inv w" and "w_pos w + 1 + unat len \<le> w_cap w" and "unat len \<le> length s"
  shows "w_strLp s len w = Some (w_put w (len # take (unat len) s))"
proof -
  define w1 where "w1 = w_put w [len]"
  have u8: "w_u8 len w = Some w1"
    using assms by (simp add: w_u8_step w1_def)
  have inv1: "w_inv w1" and pos1: "w_pos w1 + unat len \<le> w_cap w1"
    using assms by (simp_all add: w1_def w_put_inv)
  have "memcpy_at (w_d w1) (w_pos w1) (take (unat len) s)
      = Some (take (w_pos w1) (w_d w1) @ take (unat len) s @ drop (w_pos w1 + unat len) (w_d w1))"
    using inv1 pos1 assms(3) by (simp add: memcpy_at_def w_inv_def)
  then have "w_strLp s len w = Some (w_put w1 (take (unat len) s))"
    using u8 pos1 assms(3) by (simp add: w_strLp_def rdn_def w_put_def)
  then show ?thesis
    using assms by (simp add: w1_def w_put_put)
qed

subsection \<open>What a telegram looks like on the bus\<close>

text \<open>
  The specification of \<open>sendElementFn\<close>: the list of (buffer, DLC) pairs of a telegram, and
  \<open>offer\<close>, which hands frames to a sink until one is refused and counts the ones taken.
\<close>

function cont_frames :: "u8 \<Rightarrow> bytes \<Rightarrow> nat \<Rightarrow> u8 \<Rightarrow> (bytes \<times> u8) list" where
  "cont_frames g body off index =
     (if off < length body then
        let chunk = min 7 (length body - off)
        in (cont_ctrl g index
              # take chunk (drop off body) @ replicate (7 - chunk) 0, word_of_nat (1 + chunk))
           # cont_frames g body (off + chunk) ((index + 1) AND 0xF)
      else [])"
  by pat_completeness auto
termination
  by (relation "measure (\<lambda>(g, body, off, index). length body - off)") auto

declare cont_frames.simps [simp del]

definition telegram :: "u8 \<Rightarrow> u8 \<Rightarrow> u8 \<Rightarrow> bytes \<Rightarrow> u8 \<Rightarrow> (bytes \<times> u8) list" where
  "telegram opcode lsg func body g =
     (let (h0, h1) = encodeHeader opcode lsg func; n = length body
      in if n \<le> 6 then [(h0 # h1 # body @ replicate (6 - n) 0, word_of_nat (2 + n))]
         else (start_ctrl g # word_of_nat n # h0 # h1 # take 4 body, 8)
              # cont_frames g body 4 0)"

primrec offer :: "'s frame_sink \<Rightarrow> 's \<Rightarrow> (bytes \<times> u8) list \<Rightarrow> 's \<times> nat \<times> bool" where
  "offer sink s [] = (s, 0, True)"
| "offer sink s (f # fs) =
     (case sink s (fst f) (snd f) of (taken, s') \<Rightarrow>
        if taken then (case offer sink s' fs of (s'', n, all) \<Rightarrow> (s'', Suc n, all))
        else (s', 0, False))"

definition send_outcome :: "nat \<Rightarrow> bool \<Rightarrow> send_result" where
  "send_outcome n all =
     \<lparr>sr_status = (if all then Ok else if n = 0 then SinkFailedFirst else SinkFailedPartial),
      sr_framesSent = word_of_nat n\<rparr>"

lemma frame_buf: "(replicate 8 (0 :: u8))[0 := x] = x # replicate 7 0"
  by (simp add: numeral_eq_Suc)

lemma frame_buf2: "(replicate 8 (0 :: u8))[0 := x, Suc 0 := y] = x # y # replicate 6 0"
  by (simp add: numeral_eq_Suc)

lemma send_conts_spec:
  "\<lbrakk>n \<le> length body; 0 < m\<rbrakk> \<Longrightarrow>
   send_conts sink s g body n off index (word_of_nat m) =
     (case offer sink s (cont_frames g (take n body) off index) of
        (s', k, all) \<Rightarrow> Some (s', send_outcome (m + k) all))"
proof (induction "n - off" arbitrary: s off index m rule: less_induct)
  case less
  show ?case
  proof (cases "off < n")
    case False
    then show ?thesis
      using less by (simp add: send_conts.simps [of sink s] cont_frames.simps [of g "take n body"] send_outcome_def)
  next
    case True
    define chunk where "chunk = min 7 (n - off)"
    define f where "f = cont_ctrl g index
              # take chunk (drop off body) @ replicate (7 - chunk) (0 :: u8)"
    have chunk: "(if n - off > 7 then 7 else n - off) = chunk" "chunk \<le> 7" "off + chunk \<le> n" "0 < chunk"
      using True by (auto simp: chunk_def)
    have frames: "cont_frames g (take n body) off index =
      (f, word_of_nat (1 + chunk)) # cont_frames g (take n body) (off + chunk) ((index + 1) AND 0xF)"
      using True less(2) chunk(3) by (simp add: cont_frames.simps [of g "take n body" off] f_def chunk_def Let_def drop_take min_def)
    have bs: "rdn body off chunk = Some (take chunk (drop off body))"
      using chunk(3) less(2) by (simp add: rdn_def)
    have len: "length (take chunk (drop off body)) = chunk"
      using chunk(3) less(2) by simp
    have f: "memcpy_at ((replicate 8 0)[0 := cont_ctrl g index]) (Suc 0)
       (take chunk (drop off body)) = Some f"
      using len chunk(2) by (simp add: memcpy_at_def f_def frame_buf)
    obtain taken s' where snk: "sink s f (word_of_nat (1 + chunk)) = (taken, s')"
      by fastforce
    show ?thesis
    proof (cases taken)
      case False
      then show ?thesis
        using True less(3) snk by (simp add: send_conts.simps [of sink s] frames chunk bs f send_outcome_def Let_def)
    next
      case t: True
      have "send_conts sink s' g body n (off + chunk) ((index + 1) AND 0xF) (word_of_nat (Suc m))
        = (case offer sink s' (cont_frames g (take n body) (off + chunk) ((index + 1) AND 0xF)) of
            (s'', k, all) \<Rightarrow> Some (s'', send_outcome (Suc m + k) all))"
        using less(1) [of "off + chunk" "Suc m"] chunk less(2) True by simp
      then show ?thesis
        using True snk t
        by (simp add: send_conts.simps [of sink s] frames chunk bs f Let_def add.commute split: prod.splits)
    qed
  qed
qed

lemma ceil7_step: "0 < k \<Longrightarrow> Suc ((k - min 7 k + 6) div 7) = (k + 6) div (7 :: nat)"
proof (cases "7 \<le> k")
  case True
  then have "(k + 6) div 7 = Suc ((k + 6 - 7) div 7)"
    by (intro le_div_geq) simp_all
  moreover have "k - min 7 k + 6 = k + 6 - 7"
    using True by simp
  ultimately show ?thesis
    by simp
next
  case False
  moreover assume "0 < k"
  ultimately have "(k + 6) div 7 = 1"
    by (intro div_nat_eqI) auto
  with False show ?thesis
    by simp
qed

lemma length_cont_frames:
  "length (cont_frames g body off index) = (length body - off + 6) div 7"
proof (induction "length body - off" arbitrary: off index rule: less_induct)
  case less
  show ?case
  proof (cases "off < length body")
    case True
    then have "length (cont_frames g body (off + min 7 (length body - off)) ((index + 1) AND 0xF))
      = (length body - (off + min 7 (length body - off)) + 6) div 7"
      by (intro less) auto
    then have "length (cont_frames g body off index)
      = Suc ((length body - (off + min 7 (length body - off)) + 6) div 7)"
      using True by (simp add: cont_frames.simps [of g body off] Let_def)
    also have "\<dots> = (length body - off + 6) div 7"
      using True ceil7_step [of "length body - off"] by simp
    finally show ?thesis .
  qed (simp add: cont_frames.simps)
qed

lemma length_telegram:
  "length body \<le> 255 \<Longrightarrow> length (telegram opcode lsg func body g) = unat (expectedFrames (word_of_nat (length body)))"
proof -
  assume n: "length body \<le> 255"
  have le6: "(word_of_nat (length body) :: u16) \<le> 6 \<longleftrightarrow> length body \<le> 6"
    and le255: "(word_of_nat (length body) :: u16) > 255 \<longleftrightarrow> length body > 255"
    and un: "unat (word_of_nat (length body) :: u16) = length body"
    using n by (simp_all add: word_le_nat_alt word_less_nat_alt unat_word_of_nat_u16)
  have "unat (word_of_nat (1 + (length body - 4 + 6) div 7) :: u16) = 1 + (length body - 4 + 6) div 7"
    using n by (intro unat_word_of_nat_u16) simp
  then show ?thesis
    using n by (simp del: of_nat_Suc of_nat_add add: telegram_def expectedFrames_def le6 le255 un length_cont_frames unat_word_of_nat_u16
      Let_def split: prod.split)
qed

lemma frame_buf4: "(replicate 8 (0 :: u8))[0 := x, Suc 0 := y, 2 := z, 3 := u] = x # y # z # u # replicate 4 0"
  by (simp add: numeral_eq_Suc)

lemma ucast_short_dlc: "n \<le> 6 \<Longrightarrow> ucast (2 + word_of_nat n :: u16) = (word_of_nat (2 + n) :: u8)"
  using ucast_word_of_nat_u16 [of "2 + n"] by simp

lemma sendElementFn_spec:
  assumes n: "n \<le> length body" "n \<le> 255" and b: "b = Some body \<or> b = None \<and> n = 0 \<and> body = []"
  shows "sendElementFn sink s opcode lsg func b (word_of_nat n) g =
     (case offer sink s (telegram opcode lsg func (take n body) g) of
        (s', k, all) \<Rightarrow> Some (s', send_outcome k all))"
proof -
  obtain h0 h1 where h: "encodeHeader opcode lsg func = (h0, h1)"
    by fastforce
  have le6: "(word_of_nat n :: u16) \<le> 6 \<longleftrightarrow> n \<le> 6"
    and le255: "(word_of_nat n :: u16) > 255 \<longleftrightarrow> n > 255"
    and un: "unat (word_of_nat n :: u16) = n"
    using n by (simp_all add: word_le_nat_alt word_less_nat_alt unat_word_of_nat_u16)
  have null: "\<not> (b = None \<and> (word_of_nat n :: u16) \<noteq> 0)" and body: "(case b of None \<Rightarrow> [] | Some bs \<Rightarrow> bs) = body"
    using b by auto
  have ltake: "length (take n body) = n"
    using n by simp
  show ?thesis
  proof (cases "n \<le> 6")
    case True
    have "memcpy_at ((replicate 8 0)[0 := h0, 1 := h1]) 2 (take n body)
      = Some (h0 # h1 # take n body @ replicate (6 - n) 0)"
      using True ltake by (simp add: memcpy_at_def frame_buf2)
    moreover have "ucast (2 + word_of_nat n :: u16) = (word_of_nat (2 + n) :: u8)"
      using True by (intro ucast_short_dlc) simp
    ultimately show ?thesis
      using True ltake n null
      by (simp add: sendElementFn_def body h le6 un rdn_def telegram_def send_outcome_def Let_def split: prod.split)
  next
    case False
    have "memcpy_at ((replicate 8 0)[0 := start_ctrl g, 1 := ucast (word_of_nat n :: u16), 2 := h0, 3 := h1]) 4
        (take 4 body)
      = Some (start_ctrl g # word_of_nat n # h0 # h1 # take 4 (take n body))"
      using False n by (simp add: memcpy_at_def frame_buf4 ucast_word_of_nat_u16 min_def)
    moreover have "rdn body 0 4 = Some (take 4 body)"
      using False n by (simp add: rdn_def)
    moreover note send_conts_spec [OF n(1), of 1 sink _ g 4 0]
    ultimately show ?thesis
      using False ltake n null
      by (simp add: sendElementFn_def body h le6 le255 un telegram_def send_outcome_def Let_def split: prod.split)
        auto
  qed
qed

subsection \<open>The contract of a transport\<close>

text \<open>
  What the users of the codec rely on: a transport that is ready delivers the telegram of an
  element with a body of at most \<open>limit\<close> bytes as exactly that element, and is ready again.
\<close>

locale element_transport =
  fixes ready :: "'a \<Rightarrow> bool"
    and transfer :: "'a \<Rightarrow> u8 \<Rightarrow> u8 \<Rightarrow> u8 \<Rightarrow> bytes \<Rightarrow> (element \<times> 'a) option"
    and limit :: nat
  assumes transfer_ready:
    "\<lbrakk>ready a; opcode < 8; length body \<le> limit\<rbrakk> \<Longrightarrow>
     \<exists>a'. ready a' \<and> transfer a opcode lsg func body =
        Some (\<lparr>el_opcode = opcode AND 0xF, el_lsg = lsg AND 0x3F, el_func = func AND 0x3F,
               el_bodyLen = word_of_nat (length body), el_body = (if body = [] then None else Some body)\<rparr>, a')"
begin

primrec transfer_all :: "'a \<Rightarrow> (u8 \<times> u8 \<times> u8 \<times> bytes) list \<Rightarrow> (element list \<times> 'a) option" where
  "transfer_all a [] = Some ([], a)"
| "transfer_all a (t # ts) = (case t of (opcode, lsg, func, body) \<Rightarrow> do {
     (e, a1) \<leftarrow> transfer a opcode lsg func body;
     (es, a2) \<leftarrow> transfer_all a1 ts;
     Some (e # es, a2) })"

lemma bodies_delivered:
  assumes "ready a" "\<forall>(opcode, lsg, func, body) \<in> set ts. opcode < 8 \<and> length body \<le> limit \<and> body \<noteq> []"
  shows "\<exists>es a'. transfer_all a ts = Some (es, a') \<and> ready a' \<and>
           map el_body es = map (\<lambda>(opcode, lsg, func, body). Some body) ts"
  using assms
proof (induction ts arbitrary: a)
  case Nil
  then show ?case
    by simp
next
  case (Cons t ts)
  obtain opcode lsg func body where t: "t = (opcode, lsg, func, body)"
    by (metis prod_cases4)
  have b: "opcode < 8" "length body \<le> limit" "body \<noteq> []"
    using Cons.prems(2) t by simp_all
  obtain a1 e where e: "transfer a opcode lsg func body = Some (e, a1)" "ready a1" "el_body e = Some body"
    using transfer_ready [OF Cons.prems(1) b(1,2), of lsg func] b(3) by auto
  obtain es a' where "transfer_all a1 ts = Some (es, a')" "ready a'"
      "map el_body es = map (\<lambda>(opcode, lsg, func, body). Some body) ts"
    using Cons.IH [OF e(2)] Cons.prems(2) by auto
  then show ?case
    using e by (simp add: t)
qed

end

subsection \<open>Properties\<close>

text \<open>The element header is a bijection between header byte pairs and (opcode, lsg, func)
  triples within their 4, 6 and 6 bits; decoding after encoding masks the fields to those widths.\<close>

theorem header_bijection:
  "(case encodeHeader opcode lsg func of (h0, h1) \<Rightarrow>
      decodeHeader h0 h1 = (opcode AND 0xF, lsg AND 0x3F, func AND 0x3F)) \<and>
   (case decodeHeader b0 b1 of (opcode', lsg', func') \<Rightarrow> encodeHeader opcode' lsg' func' = (b0, b1))"
proof
  obtain h0 h1 where h: "encodeHeader opcode lsg func = (h0, h1)"
    by fastforce
  show "case encodeHeader opcode lsg func of (h0, h1) \<Rightarrow>
      decodeHeader h0 h1 = (opcode AND 0xF, lsg AND 0x3F, func AND 0x3F)"
    unfolding h prod.case by (rule decode_encode_masked [OF h])
  obtain o' l' f' where d: "decodeHeader b0 b1 = (o', l', f')"
    by (metis prod_cases3)
  show "case decodeHeader b0 b1 of (opcode', lsg', func') \<Rightarrow> encodeHeader opcode' lsg' func' = (b0, b1)"
    unfolding d prod.case by (rule encode_decode_header [OF d])
qed

text \<open>Refinement of \<open>sendElementFn\<close>: for a body of at most 255 bytes it offers the sink exactly
  the frames of the telegram, in order, stops at the first one refused, and reports how many were
  taken and whether nothing, a truncated telegram or all of it is on the bus.\<close>

theorem send_refines_telegram:
  assumes "n \<le> length body" "n \<le> 255"
  shows "sendElementFn sink s opcode lsg func (Some body) (word_of_nat n) g =
    (case offer sink s (telegram opcode lsg func (take n body) g) of
       (s', k, all) \<Rightarrow> Some (s', \<lparr>sr_status = (if all then Ok else if k = 0 then SinkFailedFirst else SinkFailedPartial),
                                sr_framesSent = word_of_nat k\<rparr>))"
  using sendElementFn_spec [OF assms, of "Some body" sink s opcode lsg func g] by (simp add: send_outcome_def)

theorem send_refines_telegram_witness:
  "sendElementFn (\<lambda>n f d. (n < 1, n + 1)) (0 :: nat) 2 0x25 0x19 (Some [1, 2, 3, 4, 5, 6, 7, 8]) 8 0
     = Some (2, \<lparr>sr_status = SinkFailedPartial, sr_framesSent = 1\<rparr>)"
proof -
  have "offer (\<lambda>n f d. (n < 1, n + 1)) (0 :: nat) (telegram 2 0x25 0x19 (take 8 [1, 2, 3, 4, 5, 6, 7, 8]) 0) = (2, 1, False)"
    by code_simp
  then show ?thesis
    using send_refines_telegram [of 8 "[1, 2, 3, 4, 5, 6, 7, 8]" "\<lambda>n f d. (n < 1, n + 1)" "0 :: nat" 2 "0x25" "0x19" 0] by simp
qed

text \<open>\<open>expectedFrames\<close> predicts the frame count of every telegram that can be sent.\<close>

theorem expectedFrames_exact:
  assumes "length body \<le> 255"
  shows "unat (expectedFrames (word_of_nat (length body))) = length (telegram opcode lsg func body g)"
  using length_telegram [OF assms] by simp

theorem expectedFrames_exact_witness:
  "unat (expectedFrames (word_of_nat (length (replicate 141 (0 :: u8))))) = length (telegram 4 0x25 0x19 (replicate 141 0) 0)"
  by (rule expectedFrames_exact) simp

end
