(* ===== verification/BapAssembler.thy ===== *)
theory BapAssembler
  imports Bap
begin

section \<open>BAP reassembly\<close>

text \<open>
  The class templates \<open>AssemblerT\<close> and \<open>AssemblerSetT\<close> of
  \<open>vehicle_vwegolf/src/bap/bap.h\<close>.  \<open>MaxBody\<close> is an argument, \<open>MaxPending\<close> and \<open>N\<close> are the
  lengths of the slot lists.  A member function that fills an \<open>Element& out\<close> exactly when it
  returns true returns an \<open>element option\<close> here; the emitted body is the buffer content at
  that moment, cut to \<open>bodyLen\<close>.  The outer option is a buffer access out of bounds.
\<close>

subsection \<open>One assembler\<close>

record pending =
  pm_active :: bool
  pm_group :: u8
  pm_nextIndex :: u8
  pm_hdr0 :: u8
  pm_hdr1 :: u8
  pm_expected :: u16
  pm_got :: u16
  pm_startedAt :: u32
  pm_buf :: bytes

record assembler =
  as_pending :: "pending list"
  as_shortBuf :: bytes
  as_seq :: u32
  as_droppedOrphans :: u32
  as_evictions :: u32
  as_overflowDrops :: u32
  as_badDlc :: u32

record stats =
  st_droppedOrphans :: u32
  st_evictions :: u32
  st_overflowDrops :: u32
  st_badDlc :: u32

definition as_reset :: "assembler \<Rightarrow> assembler" where
  "as_reset a = a\<lparr>as_pending := map (\<lambda>pm. pm\<lparr>pm_active := False\<rparr>) (as_pending a)\<rparr>"

definition as_stats :: "assembler \<Rightarrow> stats" where
  "as_stats a = \<lparr>st_droppedOrphans = as_droppedOrphans a, st_evictions = as_evictions a,
                 st_overflowDrops = as_overflowDrops a, st_badDlc = as_badDlc a\<rparr>"

text \<open>\<open>findPending\<close> searches from the last slot down, here from slot \<open>i - 1\<close>.\<close>

definition pm_matches :: "u8 \<Rightarrow> u8 \<Rightarrow> pending \<Rightarrow> bool" where
  "pm_matches grp index pm \<longleftrightarrow>
     pm_active pm \<and> pm_group pm = grp \<and> pm_nextIndex pm = index \<and> pm_got pm < pm_expected pm"

primrec find_from :: "pending list \<Rightarrow> u8 \<Rightarrow> u8 \<Rightarrow> nat \<Rightarrow> nat option" where
  "find_from ps grp index 0 = None"
| "find_from ps grp index (Suc i) =
     (if pm_matches grp index (ps ! i) then Some i else find_from ps grp index i)"

definition findPending :: "assembler \<Rightarrow> u8 \<Rightarrow> u8 \<Rightarrow> nat option" where
  "findPending a grp index = find_from (as_pending a) grp index (length (as_pending a))"

primrec first_free :: "pending list \<Rightarrow> nat option" where
  "first_free [] = None"
| "first_free (pm # ps) = (if \<not> pm_active pm then Some 0 else map_option Suc (first_free ps))"

definition oldest_slot :: "pending list \<Rightarrow> nat" where
  "oldest_slot ps =
     foldl (\<lambda>oldest i. if pm_startedAt (ps ! i) < pm_startedAt (ps ! oldest) then i else oldest)
       0 [1 ..< length ps]"

definition allocSlot :: "assembler \<Rightarrow> nat \<times> assembler" where
  "allocSlot a =
     (case first_free (as_pending a) of
        Some i \<Rightarrow> (i, a)
      | None \<Rightarrow> (oldest_slot (as_pending a), a\<lparr>as_evictions := as_evictions a + 1\<rparr>))"

definition complete :: "pending \<Rightarrow> element \<times> pending" where
  "complete pm =
     (let (opcode, lsg, func) = decodeHeader (pm_hdr0 pm) (pm_hdr1 pm)
      in (\<lparr>el_opcode = opcode, el_lsg = lsg, el_func = func, el_bodyLen = pm_got pm,
           el_body = (if pm_got pm \<noteq> 0 then Some (take (unat (pm_got pm)) (pm_buf pm)) else None)\<rparr>,
          pm\<lparr>pm_active := False\<rparr>))"

text \<open>The tail of both long-frame branches: emit when the body is complete.\<close>

definition finish :: "assembler \<Rightarrow> nat \<Rightarrow> pending \<Rightarrow> element option \<times> assembler" where
  "finish a i pm =
     (if pm_got pm \<ge> pm_expected pm
      then (let (el, pm') = complete pm
            in (Some el, a\<lparr>as_pending := (as_pending a)[i := pm']\<rparr>))
      else (None, a\<lparr>as_pending := (as_pending a)[i := pm]\<rparr>))"

definition feed_short :: "assembler \<Rightarrow> bytes \<Rightarrow> u8 \<Rightarrow> (element option \<times> assembler) option" where
  "feed_short a data dlc =
     (if dlc < 2 then Some (None, a)
      else do {
        h0 \<leftarrow> rd data 0;
        h1 \<leftarrow> rd data 1;
        let (opcode, lsg, func) = decodeHeader h0 h1;
        let bodyLen = (ucast (dlc - 2) :: u16);
        if bodyLen \<noteq> 0 then do {
          bs \<leftarrow> rdn data 2 (unat bodyLen);
          buf \<leftarrow> memcpy_at (as_shortBuf a) 0 bs;
          Some (Some \<lparr>el_opcode = opcode, el_lsg = lsg, el_func = func, el_bodyLen = bodyLen,
                      el_body = Some (take (unat bodyLen) buf)\<rparr>, a\<lparr>as_shortBuf := buf\<rparr>) }
        else Some (Some \<lparr>el_opcode = opcode, el_lsg = lsg, el_func = func, el_bodyLen = bodyLen,
                         el_body = None\<rparr>, a) })"

text \<open>\<open>(dlc > k) ? (dlc - k) : 0\<close>, and the clamp of a chunk to what the body still lacks.\<close>

definition dlc_over :: "u8 \<Rightarrow> u8 \<Rightarrow> u8" where
  "dlc_over dlc k = (if dlc > k then dlc - k else 0)"

definition clamp_chunk :: "u8 \<Rightarrow> u16 \<Rightarrow> u8" where
  "clamp_chunk chunk r = (if ucast chunk > r then ucast r else chunk)"

definition feed_start :: "u16 \<Rightarrow> assembler \<Rightarrow> bytes \<Rightarrow> u8 \<Rightarrow> u8 \<Rightarrow> (element option \<times> assembler) option" where
  "feed_start MaxBody a data dlc ctrl =
     (if dlc < 4 then Some (None, a)
      else do {
        d1 \<leftarrow> rd data 1;
        if ucast d1 > MaxBody then Some (None, a\<lparr>as_overflowDrops := as_overflowDrops a + 1\<rparr>)
        else do {
          d2 \<leftarrow> rd data 2;
          d3 \<leftarrow> rd data 3;
          let (i, a1) = allocSlot a;
          pm0 \<leftarrow> rd (as_pending a1) i;
          let pm1 = pm0\<lparr>pm_active := True, pm_group := segGroup ctrl, pm_nextIndex := 0,
                        pm_expected := ucast d1, pm_hdr0 := d2, pm_hdr1 := d3, pm_got := 0,
                        pm_startedAt := as_seq a1\<rparr>;
          let a2 = a1\<lparr>as_seq := as_seq a1 + 1\<rparr>;
          let chunk = clamp_chunk (dlc_over dlc 4) (pm_expected pm1);
          pm2 \<leftarrow> (if chunk \<noteq> 0 then do {
                     bs \<leftarrow> rdn data 4 (unat chunk);
                     buf \<leftarrow> memcpy_at (pm_buf pm1) 0 bs;
                     Some (pm1\<lparr>pm_buf := buf, pm_got := ucast chunk\<rparr>) }
                   else Some pm1);
          Some (finish a2 i pm2) }})"

definition feed_cont :: "u16 \<Rightarrow> assembler \<Rightarrow> bytes \<Rightarrow> u8 \<Rightarrow> u8 \<Rightarrow> (element option \<times> assembler) option" where
  "feed_cont MaxBody a data dlc ctrl =
     (case findPending a (segGroup ctrl) (segIndex ctrl) of
        None \<Rightarrow> Some (None, a\<lparr>as_droppedOrphans := as_droppedOrphans a + 1\<rparr>)
      | Some i \<Rightarrow> do {
          pm0 \<leftarrow> rd (as_pending a) i;
          let remaining = pm_expected pm0 - pm_got pm0;
          let chunk = clamp_chunk (dlc_over dlc 1) remaining;
          pm1 \<leftarrow> (if chunk \<noteq> 0 \<and> pm_got pm0 + ucast chunk \<le> MaxBody then do {
                     bs \<leftarrow> rdn data 1 (unat chunk);
                     buf \<leftarrow> memcpy_at (pm_buf pm0) (unat (pm_got pm0)) bs;
                     Some (pm0\<lparr>pm_buf := buf, pm_got := pm_got pm0 + ucast chunk\<rparr>) }
                   else Some pm0);
          Some (finish a i (pm1\<lparr>pm_nextIndex := (pm_nextIndex pm1 + 1) AND 0xF\<rparr>)) })"

definition as_feed :: "u16 \<Rightarrow> assembler \<Rightarrow> bytes \<Rightarrow> u8 \<Rightarrow> (element option \<times> assembler) option" where
  "as_feed MaxBody a data dlc =
     (if dlc < 1 then Some (None, a)
      else if dlc > 8 then Some (None, a\<lparr>as_badDlc := as_badDlc a + 1\<rparr>)
      else do {
        ctrl \<leftarrow> rd data 0;
        if isShortFrame ctrl then feed_short a data dlc
        else if isSegStart ctrl then feed_start MaxBody a data dlc ctrl
        else if isSegCont ctrl then feed_cont MaxBody a data dlc ctrl
        else Some (None, a) })"

subsection \<open>One assembler per CAN id\<close>

record assembler_set =
  aset_asm :: "assembler list"
  aset_id :: "u32 list"
  aset_used :: "bool list"
  aset_unknownDrops :: u32

text \<open>The first slot below \<open>n\<close> that satisfies a test, for both search loops of \<open>feed\<close>.\<close>

definition first_slot :: "nat \<Rightarrow> (nat \<Rightarrow> bool) \<Rightarrow> nat option" where
  "first_slot n P = List.find P [0 ..< n]"

definition aset_route ::
  "u16 \<Rightarrow> assembler_set \<Rightarrow> nat \<Rightarrow> bytes \<Rightarrow> u8 \<Rightarrow> (element option \<times> assembler_set) option" where
  "aset_route MaxBody s i data dlc = do {
     a \<leftarrow> rd (aset_asm s) i;
     (el, a') \<leftarrow> as_feed MaxBody a data dlc;
     Some (el, s\<lparr>aset_asm := (aset_asm s)[i := a']\<rparr>) }"

definition aset_feed ::
  "u16 \<Rightarrow> assembler_set \<Rightarrow> u32 \<Rightarrow> bytes \<Rightarrow> u8 \<Rightarrow> (element option \<times> assembler_set) option" where
  "aset_feed MaxBody s canId data dlc =
     (case first_slot (length (aset_asm s)) (\<lambda>i. aset_used s ! i \<and> aset_id s ! i = canId) of
        Some i \<Rightarrow> aset_route MaxBody s i data dlc
      | None \<Rightarrow>
          (case first_slot (length (aset_asm s)) (\<lambda>i. \<not> aset_used s ! i) of
             Some i \<Rightarrow>
               aset_route MaxBody
                 (s\<lparr>aset_used := (aset_used s)[i := True], aset_id := (aset_id s)[i := canId]\<rparr>)
                 i data dlc
           | None \<Rightarrow> Some (None, s\<lparr>aset_unknownDrops := aset_unknownDrops s + 1\<rparr>)))"

definition aset_reset :: "assembler_set \<Rightarrow> assembler_set" where
  "aset_reset s = s\<lparr>aset_used := replicate (length (aset_used s)) False,
                    aset_asm := map as_reset (aset_asm s)\<rparr>"

subsection \<open>Slot search\<close>

lemma first_free_Some: "first_free ps = Some i \<Longrightarrow> i < length ps \<and> \<not> pm_active (ps ! i)"
  by (induction ps arbitrary: i) (auto split: if_splits)

lemma first_free_None: "first_free ps = None \<longleftrightarrow> (\<forall>pm \<in> set ps. pm_active pm)"
  by (induction ps) auto

lemma oldest_fold:
  "oldest < length ps \<Longrightarrow> \<forall>i \<in> set js. i < length ps \<Longrightarrow>
   (let r = foldl (\<lambda>oldest i. if pm_startedAt (ps ! i) < pm_startedAt (ps ! oldest) then i else oldest) oldest js
    in r < length ps \<and> (\<forall>j \<in> insert oldest (set js). pm_startedAt (ps ! r) \<le> pm_startedAt (ps ! j)))"
proof (induction js arbitrary: oldest)
  case (Cons j js)
  define o' where "o' = (if pm_startedAt (ps ! j) < pm_startedAt (ps ! oldest) then j else oldest)"
  have o': "o' < length ps" "pm_startedAt (ps ! o') \<le> pm_startedAt (ps ! oldest)"
      "pm_startedAt (ps ! o') \<le> pm_startedAt (ps ! j)"
    using Cons.prems by (auto simp: o'_def)
  then show ?case
    using Cons.IH [OF o'(1)] Cons.prems by (auto simp: Let_def o'_def [symmetric] intro: order_trans)
qed simp

lemma oldest_slot:
  assumes "ps \<noteq> []"
  shows "oldest_slot ps < length ps" "j < length ps \<Longrightarrow> pm_startedAt (ps ! oldest_slot ps) \<le> pm_startedAt (ps ! j)"
proof -
  have "insert 0 (set [1 ..< length ps]) = {..< length ps}"
    using assms by (cases "length ps") auto
  then show "oldest_slot ps < length ps" "j < length ps \<Longrightarrow> pm_startedAt (ps ! oldest_slot ps) \<le> pm_startedAt (ps ! j)"
    using oldest_fold [of 0 ps "[1 ..< length ps]"] assms by (auto simp: oldest_slot_def Let_def)
qed

lemma allocSlot_slot: "\<lbrakk>as_pending a \<noteq> []; allocSlot a = (i, a1)\<rbrakk> \<Longrightarrow> i < length (as_pending a)"
  using oldest_slot(1) [of "as_pending a"]
  by (auto simp: allocSlot_def dest: first_free_Some split: option.splits)

lemma allocSlot_fields:
  "allocSlot a = (i, a1) \<Longrightarrow> as_pending a1 = as_pending a \<and> as_seq a1 = as_seq a \<and> as_shortBuf a1 = as_shortBuf a"
  by (auto simp: allocSlot_def split: option.splits)

lemma find_from_Some:
  "find_from ps g index n = Some i \<Longrightarrow>
   i < n \<and> pm_matches g index (ps ! i) \<and> (\<forall>j < n. pm_matches g index (ps ! j) \<longrightarrow> j \<le> i)"
proof (induction n)
  case (Suc n)
  show ?case
  proof (cases "pm_matches g index (ps ! n)")
    case False
    with Suc.prems have "find_from ps g index n = Some i"
      by simp
    from Suc.IH [OF this] have *: "i < n" "pm_matches g index (ps ! i)"
        "\<And>j. j < n \<Longrightarrow> pm_matches g index (ps ! j) \<Longrightarrow> j \<le> i"
      by blast+
    show ?thesis
    proof (intro conjI allI impI)
      fix j
      assume "j < Suc n" "pm_matches g index (ps ! j)"
      with False have "j < n"
        by (cases "j = n") auto
      then show "j \<le> i"
        using * \<open>pm_matches g index (ps ! j)\<close> by blast
    qed (use * in simp_all)
  qed (use Suc.prems in simp)
qed simp

lemma find_from_None: "find_from ps g index n = None \<longleftrightarrow> (\<forall>j < n. \<not> pm_matches g index (ps ! j))"
  by (induction n) (auto simp: less_Suc_eq)

lemma findPending_unique:
  assumes "i < length (as_pending a)" and "pm_matches g index (as_pending a ! i)"
    and "\<forall>j < length (as_pending a). pm_matches g index (as_pending a ! j) \<longrightarrow> j = i"
  shows "findPending a g index = Some i"
proof (cases "findPending a g index")
  case None
  then show ?thesis
    using assms(1,2) unfolding findPending_def find_from_None by blast
next
  case (Some k)
  then show ?thesis
    using assms(3) find_from_Some [of "as_pending a"] unfolding findPending_def by blast
qed

subsection \<open>Invariant\<close>

definition pm_inv :: "u16 \<Rightarrow> pending \<Rightarrow> bool" where
  "pm_inv MaxBody pm \<longleftrightarrow>
     length (pm_buf pm) = unat MaxBody \<and>
     (pm_active pm \<longrightarrow> pm_got pm < pm_expected pm \<and> pm_expected pm \<le> MaxBody \<and> unat (pm_expected pm) \<le> 255)"

definition as_inv :: "u16 \<Rightarrow> assembler \<Rightarrow> bool" where
  "as_inv MaxBody a \<longleftrightarrow>
     as_pending a \<noteq> [] \<and> (\<forall>pm \<in> set (as_pending a). pm_inv MaxBody pm) \<and> length (as_shortBuf a) = 6"

definition el_inv :: "element \<Rightarrow> bool" where
  "el_inv e \<longleftrightarrow> unat (el_bodyLen e) \<le> 255 \<and>
     (case el_body e of None \<Rightarrow> el_bodyLen e = 0
      | Some b \<Rightarrow> length b = unat (el_bodyLen e) \<and> el_bodyLen e \<noteq> 0)"

text \<open>A slot that \<open>finish\<close> is called with: buffer size and counters consistent.\<close>

definition pm_ready :: "u16 \<Rightarrow> pending \<Rightarrow> bool" where
  "pm_ready MaxBody pm \<longleftrightarrow>
     length (pm_buf pm) = unat MaxBody \<and> pm_got pm \<le> pm_expected pm \<and>
     pm_expected pm \<le> MaxBody \<and> unat (pm_expected pm) \<le> 255"

lemma as_inv_set: "\<lbrakk>as_inv M a; pm_inv M pm\<rbrakk> \<Longrightarrow> as_inv M (a\<lparr>as_pending := (as_pending a)[i := pm]\<rparr>)"
  by (auto simp: as_inv_def dest!: set_update_subset_insert [THEN subsetD])

lemma complete_el_inv: "pm_ready M pm \<Longrightarrow> el_inv (fst (complete pm))"
  by (auto simp: complete_def el_inv_def pm_ready_def word_le_nat_alt split: prod.splits)

lemma complete_pm_inv: "pm_ready M pm \<Longrightarrow> pm_inv M (snd (complete pm))"
  by (simp add: complete_def pm_inv_def pm_ready_def split: prod.splits)

lemma finish_inv:
  assumes "as_inv M a" and "pm_ready M pm"
  shows "as_inv M (snd (finish a i pm))" and "\<And>e. fst (finish a i pm) = Some e \<Longrightarrow> el_inv e"
proof -
  obtain e pm' where c: "complete pm = (e, pm')"
    by fastforce
  have "pm_inv M pm'" "el_inv e"
    using complete_pm_inv [OF assms(2)] complete_el_inv [OF assms(2)] c by simp_all
  moreover have "\<not> pm_got pm \<ge> pm_expected pm \<Longrightarrow> pm_inv M pm"
    using assms(2) by (auto simp: pm_inv_def pm_ready_def not_le)
  ultimately show "as_inv M (snd (finish a i pm))" and "\<And>e. fst (finish a i pm) = Some e \<Longrightarrow> el_inv e"
    using assms(1) c by (auto simp: finish_def as_inv_set split: if_splits)
qed

subsection \<open>The branches of \<open>feed\<close> in closed form\<close>

definition started :: "pending \<Rightarrow> u32 \<Rightarrow> u8 \<Rightarrow> bytes \<Rightarrow> u8 \<Rightarrow> pending" where
  "started pm sq ctrl data dlc =
     (let n = min (unat dlc - 4) (unat (data ! Suc 0))
      in pm\<lparr>pm_active := True, pm_group := segGroup ctrl, pm_nextIndex := 0,
            pm_expected := ucast (data ! Suc 0), pm_hdr0 := data ! 2, pm_hdr1 := data ! 3,
            pm_got := word_of_nat n, pm_startedAt := sq,
            pm_buf := take n (drop 4 data) @ drop n (pm_buf pm)\<rparr>)"

definition continued :: "pending \<Rightarrow> bytes \<Rightarrow> u8 \<Rightarrow> pending" where
  "continued pm data dlc =
     (let got = unat (pm_got pm); n = min (unat dlc - Suc 0) (unat (pm_expected pm) - got)
      in pm\<lparr>pm_got := word_of_nat (got + n), pm_nextIndex := (pm_nextIndex pm + 1) AND 0xF,
            pm_buf := take got (pm_buf pm) @ take n (drop (Suc 0) data) @ drop (got + n) (pm_buf pm)\<rparr>)"

lemma unat_dlc_over: "unat (dlc_over dlc k) = unat dlc - unat k"
  by (simp add: dlc_over_def word_less_nat_alt unat_sub word_le_nat_alt)

lemma unat_clamp_chunk: "unat (clamp_chunk c r) = min (unat c) (unat r)"
proof (cases "unat r < unat c")
  case True
  then have "unat r < 256"
    using unat_u8_less [of c] by linarith
  then have "unat (ucast r :: u8) = unat r"
    by (simp add: unsigned_ucast_eq take_bit_eq_mod)
  with True show ?thesis
    by (simp add: clamp_chunk_def word_less_nat_alt)
qed (simp add: clamp_chunk_def word_less_nat_alt)

lemma feed_start_eq:
  assumes inv: "as_inv M a" and dlc: "4 \<le> unat dlc" "unat dlc \<le> 8" "unat dlc \<le> length data"
    and fits: "unat (data ! Suc 0) \<le> unat M" and slot: "allocSlot a = (i, a1)"
  shows "feed_start M a data dlc ctrl =
    Some (finish (a1\<lparr>as_seq := as_seq a + 1\<rparr>) i (started (as_pending a ! i) (as_seq a) ctrl data dlc))"
proof -
  define d1 where "d1 = data ! Suc 0"
  define n where "n = min (unat dlc - 4) (unat d1)"
  define chunk where "chunk = clamp_chunk (dlc_over dlc 4) (ucast d1)"
  have un: "unat chunk = n"
    by (simp add: chunk_def n_def unat_clamp_chunk unat_dlc_over)
  have nle: "n \<le> unat M" "4 + n \<le> length data"
    using dlc fits by (auto simp: n_def d1_def)
  have i: "i < length (as_pending a)"
    using allocSlot_slot [OF _ slot] inv by (simp add: as_inv_def)
  then have lbuf: "length (pm_buf (as_pending a ! i)) = unat M"
    using inv nth_mem [OF i] by (auto simp: as_inv_def pm_inv_def)
  have z: "chunk = 0 \<longleftrightarrow> n = 0" and w: "(ucast chunk :: u16) = word_of_nat n"
    by (auto simp: unat_eq_0 [symmetric] un [symmetric])
  have rds: "rd data (Suc 0) = Some d1" "rd data 2 = Some (data ! 2)" "rd data 3 = Some (data ! 3)"
    using dlc by (simp_all add: rd_def d1_def)
  have mc: "rdn data 4 n = Some (take n (drop 4 data))"
    "memcpy_at (pm_buf (as_pending a ! i)) 0 (take n (drop 4 data))
       = Some (take n (drop 4 data) @ drop n (pm_buf (as_pending a ! i)))"
    using nle lbuf by (simp_all add: rdn_def memcpy_at_def)
  have ov: "\<not> ucast d1 > M" "\<not> dlc < 4"
    using fits dlc by (simp_all add: word_less_nat_alt d1_def)
  have s: "rd (as_pending a1) i = Some (as_pending a ! i)"
    using i allocSlot_fields [OF slot] by (simp add: rd_def)
  show ?thesis
    using allocSlot_fields [OF slot] ov slot rds s mc z w
    by (simp add: feed_start_def chunk_def [symmetric] un Let_def started_def d1_def [symmetric]
        n_def [symmetric])
      (intro impI arg_cong [where f = "finish _ i"] pending.equality; simp)
qed

lemma feed_cont_eq:
  assumes inv: "as_inv M a" and dlc: "1 \<le> unat dlc" "unat dlc \<le> 8" "unat dlc \<le> length data"
    and find: "findPending a (segGroup ctrl) (segIndex ctrl) = Some i"
  shows "feed_cont M a data dlc ctrl = Some (finish a i (continued (as_pending a ! i) data dlc))"
proof -
  define pm where "pm = as_pending a ! i"
  define got where "got = unat (pm_got pm)"
  define n where "n = min (unat dlc - Suc 0) (unat (pm_expected pm) - got)"
  define remaining where "remaining = pm_expected pm - pm_got pm"
  define chunk where "chunk = clamp_chunk (dlc_over dlc 1) remaining"
  have i: "i < length (as_pending a)" and m: "pm_matches (segGroup ctrl) (segIndex ctrl) pm"
    using find_from_Some [OF find [unfolded findPending_def]] by (auto simp: pm_def)
  have pinv: "pm_inv M pm"
    using inv nth_mem [OF i] by (auto simp: as_inv_def pm_def)
  have lt: "unat (pm_got pm) < unat (pm_expected pm)" and eM: "unat (pm_expected pm) \<le> unat M" "unat (pm_expected pm) \<le> 255"
    and lbuf: "length (pm_buf pm) = unat M"
    using pinv m by (auto simp: pm_inv_def pm_matches_def word_less_nat_alt word_le_nat_alt)
  have rem: "unat remaining = unat (pm_expected pm) - got"
    using lt by (simp add: remaining_def got_def unat_sub word_le_nat_alt)
  have un: "unat chunk = n"
    by (simp add: chunk_def n_def unat_clamp_chunk unat_dlc_over rem)
  have gn: "got + n \<le> unat (pm_expected pm)" "1 + n \<le> length data"
    using lt dlc by (auto simp: n_def got_def)
  have add: "unat (pm_got pm + ucast chunk) = got + n"
    using gn eM un by (subst unat_add_u16) (simp_all add: got_def)
  have le: "pm_got pm + ucast chunk \<le> M"
    using add gn eM by (simp add: word_le_nat_alt)
  have w: "pm_got pm + ucast chunk = word_of_nat (got + n)"
    using un by (simp add: got_def un [symmetric])
  have z: "chunk = 0 \<longleftrightarrow> n = 0"
    using un by (auto simp: unat_eq_0 [symmetric])
  have mc: "rdn data (Suc 0) n = Some (take n (drop (Suc 0) data))"
    "memcpy_at (pm_buf pm) got (take n (drop (Suc 0) data))
       = Some (take got (pm_buf pm) @ take n (drop (Suc 0) data) @ drop (got + n) (pm_buf pm))"
    using gn eM lbuf by (simp_all add: rdn_def memcpy_at_def)
  have s: "rd (as_pending a) i = Some pm"
    using i by (simp add: rd_def pm_def)
  show ?thesis
    using find s mc z w le
    by (simp add: feed_cont_def remaining_def [symmetric] chunk_def [symmetric] un Let_def
        continued_def pm_def [symmetric] got_def [symmetric] n_def [symmetric])
      (intro conjI impI arg_cong [where f = "finish _ i"] pending.equality; simp add: got_def)
qed

subsection \<open>Every frame: no access out of bounds, invariant kept\<close>

lemma started_ready:
  assumes "pm_inv M pm" "4 \<le> unat dlc" "unat dlc \<le> length data" "unat (data ! Suc 0) \<le> unat M"
  shows "pm_ready M (started pm sq ctrl data dlc)"
proof -
  have n: "min (unat dlc - 4) (unat (data ! Suc 0)) < 65536"
    by (rule le_less_trans [of _ 255]) (simp_all add: min.coboundedI2)
  then show ?thesis
    using assms
    by (auto simp: pm_ready_def started_def Let_def pm_inv_def word_le_nat_alt unat_word_of_nat_u16)
qed

lemma continued_ready:
  assumes "pm_inv M pm" "pm_active pm" "1 \<le> unat dlc" "unat dlc \<le> length data"
  shows "pm_ready M (continued pm data dlc)"
proof -
  have "unat (pm_got pm) + min (unat dlc - Suc 0) (unat (pm_expected pm) - unat (pm_got pm)) \<le> unat (pm_expected pm)"
    using assms by (auto simp: pm_inv_def word_less_nat_alt)
  moreover have "unat (pm_expected pm) \<le> 255" "unat (pm_expected pm) \<le> unat M"
    using assms by (auto simp: pm_inv_def word_le_nat_alt)
  ultimately show ?thesis
    using assms
    by (auto simp: pm_ready_def continued_def Let_def pm_inv_def word_le_nat_alt unat_word_of_nat_u16
        simp del: of_nat_add)
qed

lemma feed_short_inv:
  assumes "as_inv M a" "unat dlc \<le> 8" "unat dlc \<le> length data"
  shows "\<exists>el a'. feed_short a data dlc = Some (el, a') \<and> as_inv M a' \<and> (\<forall>e. el = Some e \<longrightarrow> el_inv e)"
proof (cases "dlc < 2")
  case True
  then show ?thesis
    using assms by (simp add: feed_short_def)
next
  case False
  then have "2 \<le> unat dlc"
    by (simp add: word_less_nat_alt)
  moreover obtain opc lsg func where "decodeHeader (data ! 0) (data ! Suc 0) = (opc, lsg, func)"
    by (metis prod_cases3)
  moreover have "unat (dlc - 2) = unat dlc - 2"
    using \<open>2 \<le> unat dlc\<close> by (simp add: unat_sub word_le_nat_alt)
  ultimately show ?thesis
    using False assms
    by (auto simp: feed_short_def Let_def rd_def rdn_def memcpy_at_def as_inv_def el_inv_def)
qed

lemma allocSlot_inv: "\<lbrakk>as_inv M a; allocSlot a = (i, a1)\<rbrakk> \<Longrightarrow> as_inv M (a1\<lparr>as_seq := s\<rparr>)"
  by (auto simp: allocSlot_def as_inv_def split: option.splits)

lemma feed_start_inv:
  assumes "as_inv M a" "unat dlc \<le> 8" "unat dlc \<le> length data"
  shows "\<exists>el a'. feed_start M a data dlc ctrl = Some (el, a') \<and> as_inv M a' \<and> (\<forall>e. el = Some e \<longrightarrow> el_inv e)"
proof -
  consider "dlc < 4" | "4 \<le> unat dlc" "ucast (data ! Suc 0) > M" | "4 \<le> unat dlc" "unat (data ! Suc 0) \<le> unat M"
    by (simp add: word_less_nat_alt) linarith
  then show ?thesis
  proof cases
    case 1
    then show ?thesis
      using assms by (simp add: feed_start_def)
  next
    case 2
    then have "\<not> dlc < 4" "rd data (Suc 0) = Some (data ! Suc 0)"
      using assms by (simp_all add: word_less_nat_alt rd_def)
    with 2 show ?thesis
      using assms by (simp add: feed_start_def as_inv_def)
  next
    case 3
    obtain i a1 where slot: "allocSlot a = (i, a1)"
      by fastforce
    have "i < length (as_pending a)"
      using allocSlot_slot [OF _ slot] assms(1) by (simp add: as_inv_def)
    then have "pm_inv M (as_pending a ! i)"
      using assms(1) by (simp add: as_inv_def)
    note ready = started_ready [OF this 3(1) assms(3) 3(2)]
    show ?thesis
      unfolding feed_start_eq [OF assms(1) 3(1) assms(2,3) 3(2) slot]
      using finish_inv [OF allocSlot_inv [OF assms(1) slot] ready] by (metis prod.collapse)
  qed
qed

lemma feed_cont_inv:
  assumes "as_inv M a" "1 \<le> unat dlc" "unat dlc \<le> 8" "unat dlc \<le> length data"
  shows "\<exists>el a'. feed_cont M a data dlc ctrl = Some (el, a') \<and> as_inv M a' \<and> (\<forall>e. el = Some e \<longrightarrow> el_inv e)"
proof (cases "findPending a (segGroup ctrl) (segIndex ctrl)")
  case None
  then show ?thesis
    using assms by (simp add: feed_cont_def as_inv_def)
next
  case (Some i)
  then have "i < length (as_pending a)" "pm_active (as_pending a ! i)"
    using find_from_Some [OF Some [unfolded findPending_def]] by (auto simp: pm_matches_def)
  moreover from this have "pm_inv M (as_pending a ! i)"
    using assms(1) by (simp add: as_inv_def)
  ultimately have ready: "pm_ready M (continued (as_pending a ! i) data dlc)"
    using assms by (intro continued_ready)
  show ?thesis
    unfolding feed_cont_eq [OF assms Some]
    using finish_inv [OF assms(1) ready] by (metis prod.collapse)
qed

lemma as_feed_inv:
  assumes "as_inv M a" "unat dlc \<le> 8 \<longrightarrow> unat dlc \<le> length data"
  shows "\<exists>el a'. as_feed M a data dlc = Some (el, a') \<and> as_inv M a' \<and> (\<forall>e. el = Some e \<longrightarrow> el_inv e)"
proof -
  consider "dlc < 1" | "dlc > 8" | "1 \<le> unat dlc" "unat dlc \<le> 8"
    by (simp add: word_less_nat_alt) linarith
  then show ?thesis
  proof cases
    case 3
    then have "\<not> dlc < 1" "\<not> dlc > 8" "unat dlc \<le> length data" "rd data 0 = Some (data ! 0)"
      using assms(2) by (auto simp: word_less_nat_alt rd_def)
    then show ?thesis
      using feed_short_inv [OF assms(1) 3(2), of data] feed_start_inv [OF assms(1) 3(2), of data]
        feed_cont_inv [OF assms(1) 3, of data] assms(1)
      by (simp add: as_feed_def)
  qed (use assms in \<open>auto simp: as_feed_def as_inv_def\<close>)
qed

subsection \<open>A whole telegram\<close>

primrec as_run :: "u16 \<Rightarrow> assembler \<Rightarrow> (bytes \<times> u8) list \<Rightarrow> (element option list \<times> assembler) option" where
  "as_run M a [] = Some ([], a)"
| "as_run M a (f # fs) = do {
     (el, a1) \<leftarrow> as_feed M a (fst f) (snd f);
     (els, a2) \<leftarrow> as_run M a1 fs;
     Some (el # els, a2) }"

definition only_group :: "u8 \<Rightarrow> nat \<Rightarrow> assembler \<Rightarrow> bool" where
  "only_group g i a \<longleftrightarrow>
     (\<forall>j < length (as_pending a). j \<noteq> i \<longrightarrow> pm_active (as_pending a ! j) \<longrightarrow> pm_group (as_pending a ! j) \<noteq> g)"

definition no_group :: "u8 \<Rightarrow> assembler \<Rightarrow> bool" where
  "no_group g a \<longleftrightarrow> (\<forall>pm \<in> set (as_pending a). pm_active pm \<longrightarrow> pm_group pm \<noteq> g)"

lemma no_group_update:
  assumes "only_group g i a" "\<not> pm_active pm"
  shows "no_group g (a\<lparr>as_pending := (as_pending a)[i := pm]\<rparr>)"
  unfolding no_group_def
proof (intro ballI impI)
  fix p
  assume "p \<in> set (as_pending (a\<lparr>as_pending := (as_pending a)[i := pm]\<rparr>))" and act: "pm_active p"
  then obtain k where k: "k < length (as_pending a)" "p = (as_pending a)[i := pm] ! k"
    by (auto simp: in_set_conv_nth)
  with act assms(2) have "k \<noteq> i"
    by auto
  then show "pm_group p \<noteq> g"
    using k act assms(1) by (simp add: only_group_def)
qed

definition streaming :: "pending \<Rightarrow> u8 \<Rightarrow> u8 \<Rightarrow> u8 \<Rightarrow> bytes \<Rightarrow> nat \<Rightarrow> u8 \<Rightarrow> bool" where
  "streaming pm g h0 h1 body off index \<longleftrightarrow>
     pm_active pm \<and> pm_group pm = g \<and> pm_nextIndex pm = index \<and> pm_hdr0 pm = h0 \<and> pm_hdr1 pm = h1 \<and>
     pm_expected pm = word_of_nat (length body) \<and> pm_got pm = word_of_nat off \<and>
     take off (pm_buf pm) = take off body"

definition telegram_element :: "u8 \<Rightarrow> u8 \<Rightarrow> bytes \<Rightarrow> element" where
  "telegram_element h0 h1 body =
     (let (opcode, lsg, func) = decodeHeader h0 h1
      in \<lparr>el_opcode = opcode, el_lsg = lsg, el_func = func, el_bodyLen = word_of_nat (length body),
          el_body = (if body = [] then None else Some body)\<rparr>)"

lemma finish_stream:
  assumes "pm_expected pm = word_of_nat (length body)" "pm_got pm = word_of_nat off" "take off (pm_buf pm) = take off body"
    and "pm_hdr0 pm = h0" "pm_hdr1 pm = h1" "off \<le> length body" "length body \<le> 255" "body \<noteq> []"
  shows "finish a i pm =
    (if off = length body
     then (Some (telegram_element h0 h1 body), a\<lparr>as_pending := (as_pending a)[i := pm\<lparr>pm_active := False\<rparr>]\<rparr>)
     else (None, a\<lparr>as_pending := (as_pending a)[i := pm]\<rparr>))"
proof -
  have "unat (word_of_nat off :: u16) = off" "unat (word_of_nat (length body) :: u16) = length body"
    using assms by (simp_all add: unat_word_of_nat_u16)
  moreover from this have "(word_of_nat (length body) :: u16) \<noteq> 0"
    using assms(8) by (metis length_0_conv unsigned_0)
  ultimately show ?thesis
    using assms
    by (auto simp: finish_def complete_def telegram_element_def word_le_nat_alt split: prod.splits)
qed

lemma run_cont_frames:
  assumes "as_inv M a" "i < length (as_pending a)" "only_group (g AND 3) i a"
    "streaming (as_pending a ! i) (g AND 3) h0 h1 body off index" "index AND 0xF = index"
    "off < length body" "length body \<le> 255" "length body \<le> unat M"
  shows "\<exists>a'. as_run M a (cont_frames g body off index) =
     Some (replicate (length (cont_frames g body off index) - 1) None @ [Some (telegram_element h0 h1 body)], a')
     \<and> as_inv M a' \<and> no_group (g AND 3) a'"
  using assms
proof (induction "length body - off" arbitrary: a off index rule: less_induct)
  case less
  define pm where "pm = as_pending a ! i"
  define chunk where "chunk = min 7 (length body - off)"
  define f where "f = cont_ctrl g index # take chunk (drop off body) @ replicate (7 - chunk) 0"
  define dlc where "dlc = (word_of_nat (1 + chunk) :: u8)"
  have chunk: "chunk \<le> 7" "0 < chunk" "off + chunk \<le> length body" "chunk \<le> length body - off"
    using less(7) by (auto simp: chunk_def)
  have udlc: "unat dlc = 1 + chunk"
    unfolding dlc_def by (rule unat_word_of_nat_u8) (use chunk in simp)
  have lf: "length f = 8"
    using chunk by (simp add: f_def)
  have frames: "cont_frames g body off index = (f, dlc) # cont_frames g body (off + chunk) ((index + 1) AND 0xF)"
    using less(7) by (simp add: cont_frames.simps [of g body off] f_def dlc_def chunk_def Let_def)
  have st: "streaming pm (g AND 3) h0 h1 body off index"
    using less(5) by (simp add: pm_def)
  have got: "unat (pm_got pm) = off" "unat (pm_expected pm) = length body"
    using st less(7,8) by (simp_all add: streaming_def unat_word_of_nat_u16)
  have find: "findPending a (segGroup (f ! 0)) (segIndex (f ! 0)) = Some i"
    using st less(3,4,6,7) got
    by (intro findPending_unique) (auto simp: f_def pm_matches_def streaming_def pm_def only_group_def word_less_nat_alt)
  have feed: "as_feed M a f dlc = Some (finish a i (continued pm f dlc))"
    using feed_cont_eq [OF less(2) _ _ _ find, of dlc] udlc chunk lf
    by (simp add: as_feed_def word_less_nat_alt rd_def f_def pm_def)
  have n: "min (unat dlc - Suc 0) (unat (pm_expected pm) - unat (pm_got pm)) = chunk"
    using udlc got chunk by simp
  have data: "take chunk (drop (Suc 0) f) = take chunk (drop off body)"
    using chunk by (simp add: f_def)
  have lbuf: "length body \<le> length (pm_buf pm)"
    using less(2,3,9) by (simp add: as_inv_def pm_inv_def pm_def)
  have ceq: "continued pm f dlc = pm\<lparr>pm_got := word_of_nat (off + chunk),
      pm_nextIndex := (pm_nextIndex pm + 1) AND 0xF,
      pm_buf := take off (pm_buf pm) @ take chunk (drop off body) @ drop (off + chunk) (pm_buf pm)\<rparr>"
    unfolding continued_def Let_def n unfolding got(1) data by (rule refl)
  have c: "pm_expected (continued pm f dlc) = word_of_nat (length body)"
    "pm_got (continued pm f dlc) = word_of_nat (off + chunk)"
    "take (off + chunk) (pm_buf (continued pm f dlc)) = take (off + chunk) body"
    "pm_hdr0 (continued pm f dlc) = h0" "pm_hdr1 (continued pm f dlc) = h1"
    "pm_group (continued pm f dlc) = g AND 3" "pm_active (continued pm f dlc)"
    "pm_nextIndex (continued pm f dlc) = (index + 1) AND 0xF"
    using st chunk lbuf less(7) unfolding ceq
    by (simp_all add: streaming_def take_add)
  have "body \<noteq> []"
    using less(7) by auto
  note fin = finish_stream [OF c(1-5) chunk(3) less(8) this, of a i]
  obtain el a1 where f1: "finish a i (continued pm f dlc) = (el, a1)"
    by fastforce
  have inv1: "as_inv M a1"
    using as_feed_inv [OF less(2), of dlc f] feed f1 lf by auto
  show ?case
  proof (cases "off + chunk = length body")
    case True
    then have "cont_frames g body (off + chunk) ((index + 1) AND 0xF) = []"
      by (simp add: cont_frames.simps)
    moreover have "no_group (g AND 3) (a\<lparr>as_pending := (as_pending a)[i := (continued pm f dlc)\<lparr>pm_active := False\<rparr>]\<rparr>)"
      using less(4) by (intro no_group_update) simp_all
    ultimately show ?thesis
      using inv1 f1 fin True by (simp add: frames feed)
  next
    case False
    define a2 where "a2 = a\<lparr>as_pending := (as_pending a)[i := continued pm f dlc]\<rparr>"
    have fa: "finish a i (continued pm f dlc) = (None, a2)"
      using fin False by (simp add: a2_def)
    have "streaming (as_pending a2 ! i) (g AND 3) h0 h1 body (off + chunk) ((index + 1) AND 0xF)"
      using c less(3) by (simp add: a2_def streaming_def)
    moreover have "only_group (g AND 3) i a2"
      using less(4) by (simp add: a2_def only_group_def)
    moreover have "as_inv M a2" "i < length (as_pending a2)"
      using inv1 f1 fa less(3) by (auto simp: a2_def)
    moreover have dec: "length body - (off + chunk) < length body - off" "off + chunk < length body"
      using False chunk by linarith+
    ultimately obtain a' where
      "as_run M a2 (cont_frames g body (off + chunk) ((index + 1) AND 0xF)) =
        Some (replicate (length (cont_frames g body (off + chunk) ((index + 1) AND 0xF)) - 1) None @
              [Some (telegram_element h0 h1 body)], a')"
      "as_inv M a'" "no_group (g AND 3) a'"
      using less(1) [OF dec(1), of a2 "(index + 1) AND 0xF"] less(8,9)
      by (auto simp: and.assoc)
    moreover have "0 < length (cont_frames g body (off + chunk) ((index + 1) AND 0xF))"
      using False chunk by (simp add: cont_frames.simps Let_def)
    ultimately show ?thesis
      by (auto simp: frames feed fa gr0_conv_Suc)
  qed
qed

theorem telegram_reassembled:
  assumes "as_inv M a" "no_group (g AND 3) a" "opcode < 8" "length body \<le> 255" "length body \<le> unat M"
  shows "\<exists>a'. as_run M a (telegram opcode lsg func body g) =
     Some (replicate (length (telegram opcode lsg func body g) - 1) None
           @ [Some \<lparr>el_opcode = opcode AND 0xF, el_lsg = lsg AND 0x3F, el_func = func AND 0x3F,
                     el_bodyLen = word_of_nat (length body), el_body = (if body = [] then None else Some body)\<rparr>], a')
     \<and> as_inv M a' \<and> no_group (g AND 3) a'"
proof -
  obtain h0 h1 where h: "encodeHeader opcode lsg func = (h0, h1)"
    by fastforce
  have el: "telegram_element h0 h1 body = \<lparr>el_opcode = opcode AND 0xF, el_lsg = lsg AND 0x3F, el_func = func AND 0x3F,
      el_bodyLen = word_of_nat (length body), el_body = (if body = [] then None else Some body)\<rparr>"
    by (simp add: telegram_element_def decode_encode_masked [OF h])
  show ?thesis
  proof (cases "length body \<le> 6")
    case True
    define dlc where "dlc = (word_of_nat (2 + length body) :: u8)"
    define f where "f = h0 # h1 # body @ replicate (6 - length body) 0"
    have udlc: "unat dlc = 2 + length body"
      unfolding dlc_def by (rule unat_word_of_nat_u8) (use True in simp)
    have d2: "dlc - 2 = word_of_nat (length body)"
      by (simp add: dlc_def)
    have "isShortFrame h0"
      using header_is_short [OF assms(3) h] .
    moreover have "feed_short a f dlc = Some (Some (telegram_element h0 h1 body), a\<lparr>as_shortBuf := body @ drop (length body) (as_shortBuf a)\<rparr>)"
    proof -
      have len: "ucast (word_of_nat (length body) :: u8) = (word_of_nat (length body) :: u16)"
        "unat (word_of_nat (length body) :: u16) = length body"
        using True by (simp_all add: ucast_word_of_nat_u8 unat_word_of_nat_u16)
      have "rdn f 2 (length body) = Some body"
        by (simp add: rdn_def f_def)
      moreover have "memcpy_at (as_shortBuf a) 0 body = Some (body @ drop (length body) (as_shortBuf a))"
        using assms(1) True by (simp add: memcpy_at_def as_inv_def)
      moreover have "rd f 0 = Some h0" "rd f (Suc 0) = Some h1"
        by (simp_all add: rd_def f_def)
      moreover have "\<not> dlc < 2"
        by (simp add: word_less_nat_alt udlc)
      moreover have "(word_of_nat (length body) :: u16) = 0 \<longleftrightarrow> body = []"
        by (simp only: unat_eq_0 [symmetric] len(2) length_0_conv)
      ultimately show ?thesis
        by (simp add: feed_short_def d2 len telegram_element_def Let_def split: prod.splits)
    qed
    ultimately have "as_feed M a f dlc = Some (Some (telegram_element h0 h1 body), a\<lparr>as_shortBuf := body @ drop (length body) (as_shortBuf a)\<rparr>)"
      using udlc True by (simp add: as_feed_def f_def word_less_nat_alt)
    moreover have "telegram opcode lsg func body g = [(f, dlc)]"
      using True by (simp add: telegram_def h f_def dlc_def Let_def)
    ultimately show ?thesis
      using assms True el by (simp add: as_inv_def no_group_def)
  next
    case False
    define f where "f = start_ctrl g # word_of_nat (length body) # h0 # h1 # take 4 body"
    obtain i a1 where slot: "allocSlot a = (i, a1)"
      by fastforce
    have i: "i < length (as_pending a)"
      using allocSlot_slot [OF _ slot] assms(1) by (simp add: as_inv_def)
    define pm where "pm = started (as_pending a ! i) (as_seq a) (start_ctrl g) f 8"
    define a2 where "a2 = a1\<lparr>as_seq := as_seq a + 1, as_pending := (as_pending a)[i := pm]\<rparr>"
    have ulen: "unat (word_of_nat (length body) :: u8) = length body"
      using assms(4) by (simp add: unat_word_of_nat_u8)
    have lf: "length f = 8" "f ! 0 = start_ctrl g"
      using False by (simp_all add: f_def)
    have f_fields: "f ! Suc 0 = word_of_nat (length body)" "f ! 2 = h0" "f ! 3 = h1" "drop 4 f = take 4 body"
      by (simp_all add: f_def)
    have n: "min (unat (8 :: u8) - 4) (unat (f ! Suc 0)) = 4"
      using False ulen by (simp add: f_fields)
    have pmeq: "pm = (as_pending a ! i)\<lparr>pm_active := True, pm_group := g AND 3, pm_nextIndex := 0,
        pm_expected := word_of_nat (length body), pm_hdr0 := h0, pm_hdr1 := h1, pm_got := word_of_nat 4,
        pm_startedAt := as_seq a, pm_buf := take 4 body @ drop 4 (pm_buf (as_pending a ! i))\<rparr>"
      unfolding pm_def started_def Let_def n unfolding f_fields
      using assms(4) by (simp add: ucast_word_of_nat_u8)
    have pm: "streaming pm (g AND 3) h0 h1 body 4 0"
      using False by (simp add: streaming_def pmeq)
    have "feed_start M a f 8 (start_ctrl g) = Some (finish (a1\<lparr>as_seq := as_seq a + 1\<rparr>) i pm)"
      unfolding pm_def using assms lf ulen by (intro feed_start_eq [OF assms(1) _ _ _ _ slot]) (simp_all add: f_def)
    moreover have "finish (a1\<lparr>as_seq := as_seq a + 1\<rparr>) i pm = (None, a2)"
    proof -
      have "body \<noteq> []" "4 \<le> length body"
        using False by auto
      with finish_stream [of pm body 4 h0 h1 "a1\<lparr>as_seq := as_seq a + 1\<rparr>" i] pm False assms(4)
      show ?thesis
        by (simp add: streaming_def a2_def allocSlot_fields [OF slot])
    qed
    ultimately have feed: "as_feed M a f 8 = Some (None, a2)"
      using lf by (simp add: as_feed_def rd_def)
    have inv2: "as_inv M a2"
      using as_feed_inv [OF assms(1), of 8 f] feed lf by auto
    have og: "only_group (g AND 3) i a2"
      using assms(2) by (auto simp: only_group_def no_group_def a2_def)
    have "streaming (as_pending a2 ! i) (g AND 3) h0 h1 body 4 0" "i < length (as_pending a2)"
      using pm i by (simp_all add: a2_def)
    then obtain a' where a': "as_run M a2 (cont_frames g body 4 0) =
      Some (replicate (length (cont_frames g body 4 0) - 1) None @ [Some (telegram_element h0 h1 body)], a')"
      "as_inv M a'" "no_group (g AND 3) a'"
      using run_cont_frames [OF inv2 _ og, of h0 h1 body 4 0] False assms(4,5) by auto
    have t: "telegram opcode lsg func body g = (f, 8) # cont_frames g body 4 0"
      using False by (simp add: telegram_def h f_def Let_def)
    have "0 < length (cont_frames g body 4 0)"
      using False by (simp add: cont_frames.simps Let_def)
    then show ?thesis
      using a' el by (auto simp: t feed gr0_conv_Suc)
  qed
qed

subsection \<open>A start frame is never refused a slot\<close>

lemma start_claims_slot:
  assumes "as_inv M a" "isSegStart (data ! 0)" "4 \<le> unat dlc" "unat dlc \<le> 8" "unat dlc \<le> length data"
    and "unat (data ! 1) \<le> unat M" "unat dlc - 4 < unat (data ! 1)"
  shows "\<exists>i a' pm. as_feed M a data dlc = Some (None, a') \<and> i < length (as_pending a) \<and>
     as_pending a' = (as_pending a)[i := pm] \<and> pm_active pm \<and> pm_group pm = segGroup (data ! 0) \<and>
     pm_nextIndex pm = 0 \<and> unat (pm_got pm) = unat dlc - 4 \<and>
     (\<not> pm_active (as_pending a ! i) \<and> as_evictions a' = as_evictions a \<or>
      (\<forall>j < length (as_pending a). pm_active (as_pending a ! j) \<and>
          pm_startedAt (as_pending a ! i) \<le> pm_startedAt (as_pending a ! j)) \<and>
      as_evictions a' = as_evictions a + 1)"
proof -
  obtain i a1 where slot: "allocSlot a = (i, a1)"
    by fastforce
  define pm where "pm = started (as_pending a ! i) (as_seq a) (data ! 0) data dlc"
  have ne: "as_pending a \<noteq> []"
    using assms(1) by (simp add: as_inv_def)
  have i: "i < length (as_pending a)"
    using allocSlot_slot [OF ne slot] .
  have n: "min (unat dlc - 4) (unat (data ! Suc 0)) = unat dlc - 4"
    using assms(7) by simp
  have got: "unat (pm_got pm) = unat dlc - 4"
    using assms(4) unfolding pm_def started_def Let_def n by (simp add: unat_word_of_nat_u16)
  have pmf: "pm_active pm" "pm_group pm = segGroup (data ! 0)" "pm_nextIndex pm = 0"
    "pm_expected pm = ucast (data ! Suc 0)"
    by (simp_all add: pm_def started_def Let_def)
  have "\<not> pm_got pm \<ge> pm_expected pm"
    using got pmf(4) assms(7) by (simp add: word_le_nat_alt)
  then have "finish (a1\<lparr>as_seq := as_seq a + 1\<rparr>) i pm = (None, a1\<lparr>as_seq := as_seq a + 1, as_pending := (as_pending a)[i := pm]\<rparr>)"
    by (simp add: finish_def allocSlot_fields [OF slot])
  moreover have "as_feed M a data dlc = feed_start M a data dlc (data ! 0)"
    using assms(2-5) by (auto simp: as_feed_def word_less_nat_alt rd_def isShortFrame_iff isSegStart_iff)
  moreover have "feed_start M a data dlc (data ! 0) = Some (finish (a1\<lparr>as_seq := as_seq a + 1\<rparr>) i pm)"
    unfolding pm_def using assms by (intro feed_start_eq [OF assms(1) _ _ _ _ slot]) simp_all
  moreover have "(\<not> pm_active (as_pending a ! i) \<and> as_evictions a1 = as_evictions a) \<or>
      ((\<forall>j < length (as_pending a). pm_active (as_pending a ! j) \<and>
          pm_startedAt (as_pending a ! i) \<le> pm_startedAt (as_pending a ! j)) \<and>
      as_evictions a1 = as_evictions a + 1)"
  proof (cases "first_free (as_pending a)")
    case None
    then have "\<forall>pm \<in> set (as_pending a). pm_active pm"
      by (simp add: first_free_None)
    then show ?thesis
      using slot None oldest_slot(2) [OF ne] by (auto simp: allocSlot_def)
  next
    case (Some k)
    then show ?thesis
      using slot first_free_Some [OF Some] by (simp add: allocSlot_def)
  qed
  ultimately show ?thesis
    using i pmf got by (intro exI [of _ i] exI [of _ "a1\<lparr>as_seq := as_seq a + 1, as_pending := (as_pending a)[i := pm]\<rparr>"] exI [of _ pm]) simp
qed

subsection \<open>Streams of different ids do not interfere\<close>

definition aset_inv :: "u16 \<Rightarrow> assembler_set \<Rightarrow> bool" where
  "aset_inv M s \<longleftrightarrow>
     length (aset_id s) = length (aset_asm s) \<and> length (aset_used s) = length (aset_asm s) \<and>
     (\<forall>a \<in> set (aset_asm s). as_inv M a) \<and>
     (\<forall>i < length (aset_asm s). \<forall>j < length (aset_asm s).
        aset_used s ! i \<longrightarrow> aset_used s ! j \<longrightarrow> aset_id s ! i = aset_id s ! j \<longrightarrow> i = j)"

text \<open>The abstract state: a partial map from CAN ids to assemblers.\<close>

definition aset_slot :: "assembler_set \<Rightarrow> u32 \<Rightarrow> nat option" where
  "aset_slot s c = first_slot (length (aset_asm s)) (\<lambda>i. aset_used s ! i \<and> aset_id s ! i = c)"

definition aset_abs :: "assembler_set \<Rightarrow> u32 \<Rightarrow> assembler option" where
  "aset_abs s c = map_option ((!) (aset_asm s)) (aset_slot s c)"

lemma first_slot_Some: "first_slot n P = Some i \<Longrightarrow> i < n \<and> P i"
  by (auto simp: first_slot_def find_Some_iff)

lemma first_slot_None: "first_slot n P = None \<longleftrightarrow> (\<forall>i < n. \<not> P i)"
  by (auto simp: first_slot_def find_None_iff)

lemma first_slot_unique:
  assumes "i < n" "P i" "\<And>j. \<lbrakk>j < n; P j\<rbrakk> \<Longrightarrow> j = i"
  shows "first_slot n P = Some i"
proof (cases "first_slot n P")
  case None
  then show ?thesis
    using assms(1,2) first_slot_None by blast
next
  case (Some k)
  then show ?thesis
    using assms(3) first_slot_Some [OF Some] by blast
qed

lemma aset_slot_eq:
  assumes "aset_inv M s"
  shows "aset_slot s c = Some i \<longleftrightarrow> i < length (aset_asm s) \<and> aset_used s ! i \<and> aset_id s ! i = c"
proof
  assume "aset_slot s c = Some i"
  then show "i < length (aset_asm s) \<and> aset_used s ! i \<and> aset_id s ! i = c"
    unfolding aset_slot_def by (auto dest: first_slot_Some)
next
  assume "i < length (aset_asm s) \<and> aset_used s ! i \<and> aset_id s ! i = c"
  then show "aset_slot s c = Some i"
    using assms unfolding aset_slot_def aset_inv_def by (intro first_slot_unique) auto
qed

text \<open>Routing to slot \<open>i\<close> changes what the set holds for the id of that slot only.\<close>

lemma aset_abs_Some:
  "aset_inv M s \<Longrightarrow> aset_abs s c = Some a \<longleftrightarrow> (\<exists>i. aset_slot s c = Some i \<and> aset_asm s ! i = a)"
  by (auto simp: aset_abs_def)

lemma aset_inv_put:
  assumes "aset_inv M s" "as_inv M a"
  shows "aset_inv M (s\<lparr>aset_asm := (aset_asm s)[i := a]\<rparr>)"
proof -
  have "\<forall>x \<in> set (aset_asm s). as_inv M x"
    using assms(1) by (simp add: aset_inv_def)
  then have "\<forall>x \<in> set ((aset_asm s)[i := a]). as_inv M x"
    using assms(2) set_update_subset_insert [of "aset_asm s" i a] by blast
  with assms(1) show ?thesis
    by (simp add: aset_inv_def)
qed

lemma aset_abs_put:
  assumes "aset_inv M s" "i < length (aset_asm s)" "aset_used s ! i"
  shows "aset_abs (s\<lparr>aset_asm := (aset_asm s)[i := a]\<rparr>) c = (if c = aset_id s ! i then Some a else aset_abs s c)"
proof -
  have slots: "aset_slot (s\<lparr>aset_asm := (aset_asm s)[i := a]\<rparr>) c = aset_slot s c" for c
    by (simp add: aset_slot_def)
  have own: "aset_slot s (aset_id s ! i) = Some i"
    using assms by (simp add: aset_slot_eq)
  show ?thesis
  proof (cases "c = aset_id s ! i")
    case True
    then show ?thesis
      using own assms(2) unfolding aset_abs_def slots by simp
  next
    case False
    have "map_option ((!) ((aset_asm s)[i := a])) (aset_slot s c) = map_option ((!) (aset_asm s)) (aset_slot s c)"
    proof (cases "aset_slot s c")
      case (Some k)
      then have "aset_id s ! k = c"
        using aset_slot_eq [OF assms(1)] by blast
      with False have "i \<noteq> k"
        by auto
      then show ?thesis
        using Some by simp
    qed simp
    with False show ?thesis
      unfolding aset_abs_def slots by simp
  qed
qed

definition claim :: "assembler_set \<Rightarrow> nat \<Rightarrow> u32 \<Rightarrow> assembler_set" where
  "claim s i c = s\<lparr>aset_used := (aset_used s)[i := True], aset_id := (aset_id s)[i := c]\<rparr>"

lemma claim_inv:
  assumes "aset_inv M s" "aset_slot s c = None" "i < length (aset_asm s)"
  shows "aset_inv M (claim s i c)"
proof -
  have "\<forall>j < length (aset_asm s). aset_used s ! j \<longrightarrow> aset_id s ! j \<noteq> c"
    using assms(2) unfolding aset_slot_def first_slot_None by blast
  then show ?thesis
    using assms(1,3) unfolding aset_inv_def claim_def
    by (simp add: nth_list_update) metis
qed

lemma claim_abs:
  assumes inv: "aset_inv M s" and "aset_slot s c = None" "i < length (aset_asm s)" "\<not> aset_used s ! i"
  shows "aset_abs (claim s i c) c' = (if c' = c then Some (aset_asm s ! i) else aset_abs s c')"
proof -
  note inv' = claim_inv [OF assms(1-3)]
  have l: "length (aset_used s) = length (aset_asm s)" "length (aset_id s) = length (aset_asm s)"
    using inv by (simp_all add: aset_inv_def)
  have "aset_slot (claim s i c) c = Some i"
    using aset_slot_eq [OF inv'] assms(3) l by (simp add: claim_def)
  moreover have "aset_slot (claim s i c) c' = aset_slot s c'" if "c' \<noteq> c"
  proof -
    have "aset_slot (claim s i c) c' = Some k \<longleftrightarrow> aset_slot s c' = Some k" for k
      using that assms(3,4) l aset_slot_eq [OF inv'] aset_slot_eq [OF inv]
      by (auto simp: claim_def nth_list_update)
    then show ?thesis
      by (metis not_None_eq)
  qed
  ultimately show ?thesis
    by (simp add: aset_abs_def claim_def)
qed

text \<open>What a frame on id \<open>c\<close> does to the abstract state.\<close>

lemma aset_feed_cases:
  assumes inv: "aset_inv M s" and feed: "aset_feed M s c data dlc = Some (el, s')" and len: "unat dlc \<le> 8 \<longrightarrow> unat dlc \<le> length data"
  obtains (known) a a' where "aset_abs s c = Some a" "as_feed M a data dlc = Some (el, a')"
      "aset_abs s' = (aset_abs s)(c \<mapsto> a')" "aset_inv M s'"
  | (new) i a' where "aset_abs s c = None" "i < length (aset_asm s)" "\<not> aset_used s ! i"
      "as_feed M (aset_asm s ! i) data dlc = Some (el, a')"
      "aset_abs s' = (aset_abs s)(c \<mapsto> a')" "aset_inv M s'"
  | (full) "aset_abs s c = None" "\<forall>i < length (aset_asm s). aset_used s ! i" "el = None" "aset_abs s' = aset_abs s"
      "aset_inv M s'" "aset_unknownDrops s' = aset_unknownDrops s + 1"
proof (cases "aset_slot s c")
  case (Some i)
  then have i: "i < length (aset_asm s)" "aset_used s ! i" "aset_id s ! i = c"
    using aset_slot_eq [OF inv] by blast+
  have ai: "as_inv M (aset_asm s ! i)"
    using inv i(1) by (simp add: aset_inv_def)
  have "aset_feed M s c data dlc = aset_route M s i data dlc"
    using Some by (simp add: aset_feed_def aset_slot_def)
  then obtain a' where a': "as_feed M (aset_asm s ! i) data dlc = Some (el, a')"
    and s': "s' = s\<lparr>aset_asm := (aset_asm s)[i := a']\<rparr>"
    using feed i(1) by (auto simp: aset_route_def rd_def split: option.splits bind_splits)
  have "as_inv M a'"
    using as_feed_inv [OF ai len] a' by auto
  then show ?thesis
    using a' s' i Some inv aset_inv_put [OF inv]
    by (intro known [of "aset_asm s ! i" a']) (auto simp: aset_abs_put [OF inv] fun_eq_iff, simp add: aset_abs_def)
next
  case None
  note none = None
  show ?thesis
  proof (cases "first_slot (length (aset_asm s)) (\<lambda>i. \<not> aset_used s ! i)")
    case None
    then have "s' = s\<lparr>aset_unknownDrops := aset_unknownDrops s + 1\<rparr>" "el = None"
      using feed none by (simp_all add: aset_feed_def aset_slot_def)
    then show ?thesis
      using none None inv
      by (intro full) (auto simp: aset_abs_def aset_slot_def first_slot_None aset_inv_def)
  next
    case (Some i)
    have i: "i < length (aset_asm s)" "\<not> aset_used s ! i"
      using first_slot_Some [OF Some] by auto
    note cinv = claim_inv [OF inv none i(1)]
    have ai: "as_inv M (aset_asm s ! i)"
      using inv i(1) by (simp add: aset_inv_def)
    have "aset_feed M s c data dlc = aset_route M (claim s i c) i data dlc"
      using none Some by (simp add: aset_feed_def aset_slot_def claim_def)
    then obtain a' where a': "as_feed M (aset_asm s ! i) data dlc = Some (el, a')"
      and s': "s' = (claim s i c)\<lparr>aset_asm := (aset_asm s)[i := a']\<rparr>"
      using feed i(1) by (auto simp: aset_route_def rd_def claim_def split: option.splits bind_splits)
    have ainv: "as_inv M a'"
      using as_feed_inv [OF ai len] a' by auto
    have l: "aset_asm (claim s i c) = aset_asm s" "aset_used (claim s i c) ! i" "aset_id (claim s i c) ! i = c"
      using inv i(1) by (simp_all add: claim_def aset_inv_def)
    have "aset_abs s' = (aset_abs s)(c \<mapsto> a')"
      using aset_abs_put [OF cinv, of i a'] l i claim_abs [OF inv none i] by (auto simp: s' fun_eq_iff)
    moreover have "aset_inv M s'"
      using aset_inv_put [OF cinv ainv, of i] by (simp add: s' l)
    moreover have "aset_abs s c = None"
      using none by (simp add: aset_abs_def)
    ultimately show ?thesis
      using a' i by (intro new)
  qed
qed

lemma aset_feed_total:
  assumes inv: "aset_inv M s" and len: "unat dlc \<le> 8 \<longrightarrow> unat dlc \<le> length data"
  shows "\<exists>el s'. aset_feed M s c data dlc = Some (el, s') \<and> aset_inv M s' \<and> (\<forall>e. el = Some e \<longrightarrow> el_inv e)"
proof -
  have ok: "\<exists>el a'. as_feed M (aset_asm s ! i) data dlc = Some (el, a') \<and> (\<forall>e. el = Some e \<longrightarrow> el_inv e)"
    if "i < length (aset_asm s)" for i
    using as_feed_inv [of M "aset_asm s ! i", OF _ len] inv that by (auto simp: aset_inv_def)
  have "\<exists>el s'. aset_feed M s c data dlc = Some (el, s') \<and> (\<forall>e. el = Some e \<longrightarrow> el_inv e)"
  proof (cases "aset_slot s c")
    case (Some i)
    then show ?thesis
      using ok [of i] first_slot_Some [OF Some [unfolded aset_slot_def]]
      by (auto simp: aset_feed_def aset_slot_def aset_route_def rd_def)
  next
    case None
    note none = this
    show ?thesis
    proof (cases "first_slot (length (aset_asm s)) (\<lambda>i. \<not> aset_used s ! i)")
      case (Some i)
      then show ?thesis
        using none ok [of i] first_slot_Some [OF Some]
        by (auto simp: aset_feed_def aset_slot_def aset_route_def rd_def)
    qed (use none in \<open>simp add: aset_feed_def aset_slot_def\<close>)
  qed
  then obtain el s' where r: "aset_feed M s c data dlc = Some (el, s')" "\<forall>e. el = Some e \<longrightarrow> el_inv e"
    by blast
  moreover have "aset_inv M s'"
    by (rule aset_feed_cases [OF inv r(1) len])
  ultimately show ?thesis
    by blast
qed

primrec aset_run ::
  "u16 \<Rightarrow> assembler_set \<Rightarrow> (u32 \<times> bytes \<times> u8) list \<Rightarrow> ((u32 \<times> element option) list \<times> assembler_set) option"
where
  "aset_run M s [] = Some ([], s)"
| "aset_run M s (f # fs) = do {
     (el, s1) \<leftarrow> aset_feed M s (fst f) (fst (snd f)) (snd (snd f));
     (els, s2) \<leftarrow> aset_run M s1 fs;
     Some ((fst f, el) # els, s2) }"

text \<open>What arrives on one id, and what is reported for it.\<close>

definition on_id :: "u32 \<Rightarrow> (u32 \<times> 'b) list \<Rightarrow> 'b list" where
  "on_id c xs = map snd (filter (\<lambda>x. fst x = c) xs)"

definition frame_ok :: "u32 \<times> bytes \<times> u8 \<Rightarrow> bool" where
  "frame_ok f \<longleftrightarrow> (unat (snd (snd f)) \<le> 8 \<longrightarrow> unat (snd (snd f)) \<le> length (fst (snd f)))"

theorem aset_run_projects:
  assumes "aset_inv M s" "aset_abs s c = Some a" "\<forall>f \<in> set fs. frame_ok f"
  shows "\<exists>els s' a'. aset_run M s fs = Some (els, s') \<and> as_run M a (on_id c fs) = Some (on_id c els, a')
     \<and> aset_inv M s' \<and> aset_abs s' c = Some a'"
  using assms
proof (induction fs arbitrary: s a)
  case Nil
  then show ?case
    by (simp add: on_id_def)
next
  case (Cons f fs)
  obtain c1 data dlc where f: "f = (c1, data, dlc)"
    by (metis prod_cases3)
  have len: "unat dlc \<le> 8 \<longrightarrow> unat dlc \<le> length data"
    using Cons.prems(3) f by (simp add: frame_ok_def)
  obtain el s1 where feed: "aset_feed M s c1 data dlc = Some (el, s1)"
    using aset_feed_total [OF Cons.prems(1) len] by blast
  have "\<exists>a1. aset_abs s1 c = Some a1 \<and> aset_inv M s1 \<and>
          (if c1 = c then as_feed M a data dlc = Some (el, a1) else a1 = a)"
    by (rule aset_feed_cases [OF Cons.prems(1) feed len]) (use Cons.prems(2) in auto)
  then obtain a1 where a1: "aset_abs s1 c = Some a1" "aset_inv M s1"
      "if c1 = c then as_feed M a data dlc = Some (el, a1) else a1 = a"
    by blast
  from Cons.IH [OF a1(2,1)] Cons.prems(3) obtain els s' a' where
    "aset_run M s1 fs = Some (els, s')" "as_run M a1 (on_id c fs) = Some (on_id c els, a')"
    "aset_inv M s'" "aset_abs s' c = Some a'"
    by auto
  then show ?case
    using feed a1(3) by (auto simp: f on_id_def split: if_splits)
qed

subsection \<open>The assembler as a transport\<close>

definition assembled :: "u16 \<Rightarrow> u8 \<Rightarrow> assembler \<Rightarrow> u8 \<Rightarrow> u8 \<Rightarrow> u8 \<Rightarrow> bytes \<Rightarrow> (element \<times> assembler) option" where
  "assembled M g a opcode lsg func body = do {
     (els, a') \<leftarrow> as_run M a (telegram opcode lsg func body g);
     case filter (\<lambda>e. e \<noteq> None) els of
       [Some e] \<Rightarrow> Some (e, a')
     | _ \<Rightarrow> None }"

lemma assembled_ready:
  assumes "as_inv M a \<and> no_group (g AND 3) a" "opcode < 8" "length body \<le> min 255 (unat M)"
  shows "\<exists>a'. (as_inv M a' \<and> no_group (g AND 3) a') \<and> assembled M g a opcode lsg func body =
    Some (\<lparr>el_opcode = opcode AND 0xF, el_lsg = lsg AND 0x3F, el_func = func AND 0x3F,
           el_bodyLen = word_of_nat (length body), el_body = (if body = [] then None else Some body)\<rparr>, a')"
  using telegram_reassembled [of M a g opcode body lsg func] assms by (auto simp: assembled_def)

interpretation bap: element_transport "\<lambda>a. as_inv 224 a \<and> no_group (0 AND 3) a" "assembled 224 0" 224
  by unfold_locales (use assembled_ready [of 224 _ 0] in auto)

subsection \<open>Properties\<close>

text \<open>A newly constructed assembler with four slots (the buffers happen to be zero).\<close>

definition fresh_assembler :: "nat \<Rightarrow> assembler" where
  "fresh_assembler n = \<lparr>as_pending = replicate 4 \<lparr>pm_active = False, pm_group = 0, pm_nextIndex = 0, pm_hdr0 = 0,
       pm_hdr1 = 0, pm_expected = 0, pm_got = 0, pm_startedAt = 0, pm_buf = replicate n 0\<rparr>,
     as_shortBuf = replicate 6 0, as_seq = 0, as_droppedOrphans = 0, as_evictions = 0,
     as_overflowDrops = 0, as_badDlc = 0\<rparr>"

lemma fresh_assembler_inv: "n < 65536 \<Longrightarrow> as_inv (word_of_nat n) (fresh_assembler n)"
  by (auto simp: as_inv_def fresh_assembler_def pm_inv_def unat_word_of_nat_u16)

lemma fresh_no_group: "no_group g (fresh_assembler n)"
  by (simp add: no_group_def fresh_assembler_def)



text \<open>C9. Memory safety of reassembly: whatever eight bytes and DLC arrive, \<open>feed\<close> stays inside its
  buffers and keeps its invariant, and an element it emits carries exactly \<open>bodyLen\<close> body bytes
  (none: a null body), at most 255.\<close>

theorem feed_memory_safe:
  assumes "as_inv M a" "length data = 8"
  shows "\<exists>el a'. as_feed M a data dlc = Some (el, a') \<and> as_inv M a' \<and>
     (\<forall>e. el = Some e \<longrightarrow> unat (el_bodyLen e) \<le> 255 \<and>
        (case el_body e of None \<Rightarrow> el_bodyLen e = 0 | Some b \<Rightarrow> length b = unat (el_bodyLen e)))"
proof -
  obtain el a' where "as_feed M a data dlc = Some (el, a')" "as_inv M a'" "\<forall>e. el = Some e \<longrightarrow> el_inv e"
    using as_feed_inv [OF assms(1), of dlc data] assms(2) by auto
  moreover from this(3) have "\<forall>e. el = Some e \<longrightarrow> unat (el_bodyLen e) \<le> 255 \<and>
        (case el_body e of None \<Rightarrow> el_bodyLen e = 0 | Some b \<Rightarrow> length b = unat (el_bodyLen e))"
    by (auto simp: el_inv_def split: option.splits)
  ultimately show ?thesis
    by blast
qed

theorem feed_memory_safe_witness:
  "\<exists>el a'. as_feed 256 (fresh_assembler 256) [0x80, 200, 0x49, 0x59, 1, 2, 3, 4] 8 = Some (el, a') \<and> as_inv 256 a' \<and>
     (\<forall>e. el = Some e \<longrightarrow> unat (el_bodyLen e) \<le> 255 \<and>
        (case el_body e of None \<Rightarrow> el_bodyLen e = 0 | Some b \<Rightarrow> length b = unat (el_bodyLen e)))"
  using fresh_assembler_inv [of 256] by (intro feed_memory_safe) simp_all

text \<open>A start frame that announces more body than it carries always gets a slot: a free one, or
  else the slot of the message that was started longest ago, which is counted as an eviction; no
  other slot changes.\<close>

theorem start_always_accepted:
  assumes "as_inv M a" "isSegStart (data ! 0)" "4 \<le> unat dlc" "unat dlc \<le> 8" "unat dlc \<le> length data"
    and "unat (data ! 1) \<le> unat M" "unat dlc - 4 < unat (data ! 1)"
  shows "\<exists>i a' pm. as_feed M a data dlc = Some (None, a') \<and> i < length (as_pending a) \<and>
     as_pending a' = (as_pending a)[i := pm] \<and> pm_active pm \<and> pm_group pm = segGroup (data ! 0) \<and>
     pm_nextIndex pm = 0 \<and> unat (pm_got pm) = unat dlc - 4 \<and>
     (\<not> pm_active (as_pending a ! i) \<and> as_evictions a' = as_evictions a \<or>
      (\<forall>j < length (as_pending a). pm_active (as_pending a ! j) \<and>
          pm_startedAt (as_pending a ! i) \<le> pm_startedAt (as_pending a ! j)) \<and>
      as_evictions a' = as_evictions a + 1)"
  using start_claims_slot [OF assms] .

theorem start_always_accepted_witness:
  "\<exists>i a' pm. as_feed 256 (fresh_assembler 256) [0x90, 200, 0x49, 0x59, 1, 2, 3, 4] 8 = Some (None, a') \<and>
     as_pending a' = (as_pending (fresh_assembler 256))[i := pm] \<and> pm_group pm = segGroup 0x90"
  using fresh_assembler_inv [of 256] start_always_accepted [of 256 "fresh_assembler 256" "[0x90, 200, 0x49, 0x59, 1, 2, 3, 4]" 8]
  by (auto simp: isSegStart_iff)


definition two_ids :: assembler_set where
  "two_ids = \<lparr>aset_asm = [fresh_assembler 256, fresh_assembler 256], aset_id = [0x17332510, 0x17332501],
     aset_used = [True, True], aset_unknownDrops = 0\<rparr>"

lemma two_ids_inv: "aset_inv 256 two_ids"
  using fresh_assembler_inv [of 256] by (auto simp: two_ids_def aset_inv_def less_2_cases_iff less_Suc_eq)


text \<open>The slot search does not prefer the newest stream, although the comment above
  \<open>findPending\<close> says so: with two messages of one group in flight, the continuation is given to
  the one in the higher slot, here the older one (started second, while the newer, started third,
  sits in slot 0).\<close>

theorem older_stream_wins:
  "map_option (\<lambda>(els, a). (map (\<lambda>pm. (pm_active pm, pm_startedAt pm, pm_got pm)) (take 2 (as_pending a))))
     (as_run 256 (fresh_assembler 256)
       [([0x90, 5, 0x49, 0x59, 1, 1, 1, 1], 8), ([0x80, 20, 0x49, 0x59, 2, 2, 2, 2], 8),
        ([0xD0, 1, 0, 0, 0, 0, 0, 0], 2), ([0x80, 20, 0x49, 0x59, 3, 3, 3, 3], 8),
        ([0xC0, 9, 9, 9, 9, 9, 9, 9], 8)])
   = Some [(True, 2, 4), (True, 1, 11)]"
  by code_simp

end
