(* ===== verification/BatteryControl.thy ===== *)
theory BatteryControl
  imports BapAssembler
begin

section \<open>Battery control (LSG 0x25): records, arrays and commands\<close>

text \<open>
  \<open>vehicle_vwegolf/src/egolf/battery_control.h\<close> and \<open>battery_control.cpp\<close>: profile and timer
  records, the profile array, the transaction counter and the commands of the battery control
  unit, on top of the codec of \<open>Bap\<close>.  An output buffer is a byte list that is returned
  updated, next to the size the function returns.  The two \<open>float\<close> temperature conversions are
  not modelled, their integer versions are.
\<close>

definition kLsg :: u8 where "kLsg = 0x25"

definition kCanIdCommand :: u32 where "kCanIdCommand = mqbCanId kLsg 0x01 kMqbBase"

definition kCanIdStatus :: u32 where "kCanIdStatus = mqbCanId kLsg kSubsystemFsg kMqbBase"

datatype func_name =
    FUNC_BAP_GETALL | FUNC_BAP_CONFIG | FUNC_PLUG_STATE | FUNC_CHARGE_STATE | FUNC_CLIMATE_STATE
  | FUNC_TIMER_STATE | FUNC_TIMER_1 | FUNC_TIMER_2 | FUNC_TIMER_3 | FUNC_TIMER_4
  | FUNC_OPERATION_MODE | FUNC_PROFILES_ARRAY | FUNC_POWER_PROVIDER

fun func_val :: "func_name \<Rightarrow> u8" where
  "func_val FUNC_BAP_GETALL = 0x01"
| "func_val FUNC_BAP_CONFIG = 0x02"
| "func_val FUNC_PLUG_STATE = 0x10"
| "func_val FUNC_CHARGE_STATE = 0x11"
| "func_val FUNC_CLIMATE_STATE = 0x12"
| "func_val FUNC_TIMER_STATE = 0x13"
| "func_val FUNC_TIMER_1 = 0x14"
| "func_val FUNC_TIMER_2 = 0x15"
| "func_val FUNC_TIMER_3 = 0x16"
| "func_val FUNC_TIMER_4 = 0x17"
| "func_val FUNC_OPERATION_MODE = 0x18"
| "func_val FUNC_PROFILES_ARRAY = 0x19"
| "func_val FUNC_POWER_PROVIDER = 0x1A"

abbreviation (input) PO_CHARGING :: u8 where "PO_CHARGING \<equiv> 0x01"
abbreviation (input) PO_CLIMATE :: u8 where "PO_CLIMATE \<equiv> 0x02"
abbreviation (input) PO_ALLOW_BATTERY :: u8 where "PO_ALLOW_BATTERY \<equiv> 0x04"

subsection \<open>Charge current and temperature\<close>

definition kMaxCurrentHardLimit :: u8 where "kMaxCurrentHardLimit = 0x20"

definition kMaxCurrentSteps :: "u8 list" where "kMaxCurrentSteps = [5, 10, 13, 32]"

definition clampMaxCurrent :: "u16 \<Rightarrow> u8" where
  "clampMaxCurrent amps0 =
     (let amps = (if amps0 > ucast kMaxCurrentHardLimit then ucast kMaxCurrentHardLimit else amps0)
      in fst (foldl (\<lambda>(best, bestDist) v.
                       let dist = (if amps > ucast v then amps - ucast v else ucast v - amps)
                       in if dist < bestDist then (v, dist) else (best, bestDist))
                (kMaxCurrentSteps ! 0, 0xFFFF) kMaxCurrentSteps))"

definition tempToRawDeci :: "int \<Rightarrow> u8" where
  "tempToRawDeci deciDegC =
     (let r = deciDegC - 100; r1 = (if r < 0 then 0 else r); r2 = (if r1 > 255 then 255 else r1)
      in word_of_int r2)"

definition rawToDeciDegC :: "u8 \<Rightarrow> int" where
  "rawToDeciDegC raw = uint raw + 100"

subsection \<open>Departure timers and the night-rate window\<close>

abbreviation (input) WD_ONESHOT :: u8 where "WD_ONESHOT \<equiv> 0x01"

definition funcForTimerSlot :: "u8 \<Rightarrow> u8" where
  "funcForTimerSlot slot = func_val FUNC_TIMER_1 + (slot - 1)"

definition timerSlotForFunc :: "u8 \<Rightarrow> u8" where
  "timerSlotForFunc func =
     (if func \<ge> func_val FUNC_TIMER_1 \<and> func \<le> func_val FUNC_TIMER_4
      then func - func_val FUNC_TIMER_1 + 1 else 0)"

record timer =
  t_year :: u8
  t_month :: u8
  t_day :: u8
  t_hour :: u8
  t_minute :: u8
  t_weekdays :: u8
  t_refId :: u8

definition hasDate :: "timer \<Rightarrow> bool" where
  "hasDate t \<longleftrightarrow> \<not> (t_year t = 0xFF \<and> t_month t = 0xFF \<and> t_day t = 0xFF)"

definition oneShot :: "timer \<Rightarrow> bool" where
  "oneShot t \<longleftrightarrow> t_weekdays t AND WD_ONESHOT \<noteq> 0"

definition recurring :: "timer \<Rightarrow> bool" where
  "recurring t \<longleftrightarrow> \<not> oneShot t"

definition encodeTimer :: "bytes \<Rightarrow> nat \<Rightarrow> timer \<Rightarrow> (nat \<times> bytes) option" where
  "encodeTimer out cap t =
     (if cap < 8 then Some (0, out)
      else do {
        out' \<leftarrow> memcpy_at out 0 [t_year t, t_month t, t_day t, t_hour t, t_minute t, t_weekdays t, t_refId t, 0];
        Some (8, out') })"

definition decodeTimer :: "bytes \<Rightarrow> u16 \<Rightarrow> timer option option" where
  "decodeTimer rec len =
     (if len < 8 then Some None
      else do {
        b \<leftarrow> rdn rec 0 7;
        Some (Some \<lparr>t_year = b ! 0, t_month = b ! 1, t_day = b ! 2, t_hour = b ! 3, t_minute = b ! 4,
                    t_weekdays = b ! 5, t_refId = b ! 6\<rparr>) })"

definition encodeTimerState :: "bytes \<Rightarrow> nat \<Rightarrow> u8 \<Rightarrow> (nat \<times> bytes) option" where
  "encodeTimerState out cap enabledMask =
     (if cap < 2 then Some (0, out)
      else do { out' \<leftarrow> memcpy_at out 0 [enabledMask AND 0x0F, 0]; Some (2, out') })"

definition timerEnabled :: "u8 \<Rightarrow> u8 \<Rightarrow> bool" where
  "timerEnabled stateByte slot \<longleftrightarrow>
     (slot \<ge> 1 \<and> slot \<le> 4) \<and> (ucast stateByte :: u32) AND push_bit (unat slot - 1) 1 \<noteq> 0"

record power_window =
  nrStartHour :: u8
  nrStartMinute :: u8
  nrEndHour :: u8
  nrEndMinute :: u8

definition encodePowerProviderRA2 :: "bytes \<Rightarrow> nat \<Rightarrow> power_window \<Rightarrow> (nat \<times> bytes) option" where
  "encodePowerProviderRA2 out cap w =
     (if cap < 4 then Some (0, out)
      else do {
        out' \<leftarrow> memcpy_at out 0 [nrStartHour w, nrStartMinute w, nrEndHour w, nrEndMinute w];
        Some (4, out') })"

definition decodePowerProviderRA2 :: "bytes \<Rightarrow> u16 \<Rightarrow> power_window option option" where
  "decodePowerProviderRA2 rec len =
     (if len < 4 then Some None
      else do {
        b \<leftarrow> rdn rec 0 4;
        Some (Some \<lparr>nrStartHour = b ! 0, nrStartMinute = b ! 1, nrEndHour = b ! 2, nrEndMinute = b ! 3\<rparr>) })"

subsection \<open>Profile records\<close>

definition kProfileFixedLen :: nat where "kProfileFixedLen = 20"

definition kProfileMaxName :: u8 where "kProfileMaxName = 24"

record profile =
  p_operation :: u8
  p_operation2 :: u8
  p_maxCurrent :: u8
  p_minChargeLevel :: u8
  p_minRange :: u16
  p_targetChargeLevel :: u8
  p_targetChargeDuration :: u8
  p_targetChargeRange :: u16
  p_unitRange :: u8
  p_rangeCalculationSetup :: u8
  p_temperatureRaw :: u8
  p_temperatureUnit :: u8
  p_leadTime :: u8
  p_holdingTimePlug :: u8
  p_holdingTimeBattery :: u8
  p_providerDataId :: u16
  p_nameLen :: u8
  p_name :: bytes
  p_nameTruncated :: bool
  p_position :: u16

definition Profile :: profile where
  "Profile = \<lparr>p_operation = 0, p_operation2 = 0, p_maxCurrent = 0, p_minChargeLevel = 0, p_minRange = 0,
     p_targetChargeLevel = 0, p_targetChargeDuration = 0, p_targetChargeRange = 0, p_unitRange = 0,
     p_rangeCalculationSetup = 0, p_temperatureRaw = 0, p_temperatureUnit = 0, p_leadTime = 0,
     p_holdingTimePlug = 0, p_holdingTimeBattery = 0, p_providerDataId = 0, p_nameLen = 0,
     p_name = replicate 25 0, p_nameTruncated = False, p_position = 0\<rparr>"

definition readProfile :: "reader \<Rightarrow> profile \<Rightarrow> (bool \<times> profile \<times> reader) option" where
  "readProfile r0 out = do {
     (operation, r1) \<leftarrow> r_u8 r0;
     (operation2, r2) \<leftarrow> r_u8 r1;
     (maxCurrent, r3) \<leftarrow> r_u8 r2;
     (minChargeLevel, r4) \<leftarrow> r_u8 r3;
     (minRange, r5) \<leftarrow> r_u16le r4;
     (targetChargeLevel, r6) \<leftarrow> r_u8 r5;
     (targetChargeDuration, r7) \<leftarrow> r_u8 r6;
     (targetChargeRange, r8) \<leftarrow> r_u16le r7;
     (unitRange, r9) \<leftarrow> r_u8 r8;
     (rangeCalculationSetup, r10) \<leftarrow> r_u8 r9;
     (temperatureRaw, r11) \<leftarrow> r_u8 r10;
     (temperatureUnit, r12) \<leftarrow> r_u8 r11;
     (leadTime, r13) \<leftarrow> r_u8 r12;
     (holdingTimePlug, r14) \<leftarrow> r_u8 r13;
     (holdingTimeBattery, r15) \<leftarrow> r_u8 r14;
     (providerDataId, r16) \<leftarrow> r_u16le r15;
     (nameLen, truncated, name, r17) \<leftarrow> r_strLp r16 (p_name out) (kProfileMaxName + 1);
     Some (r_ok r17,
       out\<lparr>p_operation := operation, p_operation2 := operation2, p_maxCurrent := maxCurrent,
           p_minChargeLevel := minChargeLevel, p_minRange := minRange,
           p_targetChargeLevel := targetChargeLevel, p_targetChargeDuration := targetChargeDuration,
           p_targetChargeRange := targetChargeRange, p_unitRange := unitRange,
           p_rangeCalculationSetup := rangeCalculationSetup, p_temperatureRaw := temperatureRaw,
           p_temperatureUnit := temperatureUnit, p_leadTime := leadTime,
           p_holdingTimePlug := holdingTimePlug, p_holdingTimeBattery := holdingTimeBattery,
           p_providerDataId := providerDataId, p_nameLen := nameLen, p_name := name,
           p_nameTruncated := truncated\<rparr>, r17) }"

definition encodeProfile :: "bytes \<Rightarrow> nat \<Rightarrow> profile \<Rightarrow> (nat \<times> bytes) option" where
  "encodeProfile out cap p = do {
     w1 \<leftarrow> w_u8 (p_operation p) (Writer out cap);
     w2 \<leftarrow> w_u8 (p_operation2 p) w1;
     w3 \<leftarrow> w_u8 (p_maxCurrent p) w2;
     w4 \<leftarrow> w_u8 (p_minChargeLevel p) w3;
     w5 \<leftarrow> w_u16le (p_minRange p) w4;
     w6 \<leftarrow> w_u8 (p_targetChargeLevel p) w5;
     w7 \<leftarrow> w_u8 (p_targetChargeDuration p) w6;
     w8 \<leftarrow> w_u16le (p_targetChargeRange p) w7;
     w9 \<leftarrow> w_u8 (p_unitRange p) w8;
     w10 \<leftarrow> w_u8 (p_rangeCalculationSetup p) w9;
     w11 \<leftarrow> w_u8 (p_temperatureRaw p) w10;
     w12 \<leftarrow> w_u8 (p_temperatureUnit p) w11;
     w13 \<leftarrow> w_u8 (p_leadTime p) w12;
     w14 \<leftarrow> w_u8 (p_holdingTimePlug p) w13;
     w15 \<leftarrow> w_u8 (p_holdingTimeBattery p) w14;
     w16 \<leftarrow> w_u16le (p_providerDataId p) w15;
     let nameLen = (if p_nameLen p > kProfileMaxName then kProfileMaxName else p_nameLen p);
     w17 \<leftarrow> w_strLp (p_name p) nameLen w16;
     Some (if w_ok w17 then w_pos w17 else 0, w_d w17) }"

definition decodeProfile :: "bytes \<Rightarrow> u16 \<Rightarrow> (bool \<times> profile) option" where
  "decodeProfile rec len = do {
     (ok, p, r) \<leftarrow> readProfile (Reader rec len) Profile;
     Some (ok, p) }"

subsection \<open>The profile array\<close>

record array_result =
  ar_count :: u16
  ar_declared :: u16
  ar_complete :: bool
  ar_truncated :: bool
  ar_malformed :: bool

text \<open>
  The decoding loop.  \<open>left\<close> is \<open>elementCount - i\<close>; the result is the profiles written so
  far, the flags, and how many records were left when the loop stopped.
\<close>

fun decode_records ::
  "bool \<Rightarrow> bool \<Rightarrow> u8 \<Rightarrow> u16 \<Rightarrow> nat \<Rightarrow> nat \<Rightarrow> u16 \<Rightarrow> reader \<Rightarrow> profile list
     \<Rightarrow> (profile list \<times> bool \<times> bool \<times> nat) option"
where
  "decode_records largeIdx posTransmit recordAddr startIndex maxOut 0 i r ps = Some (ps, False, False, 0)"
| "decode_records largeIdx posTransmit recordAddr startIndex maxOut (Suc left) i r ps =
     (if \<not> r_ok r then Some (ps, False, False, Suc left)
      else if length ps \<ge> maxOut then Some (ps, True, False, Suc left)
      else do {
        (position, r1) \<leftarrow>
          (if posTransmit then
             (if largeIdx then r_u16le r else do { (v, r') \<leftarrow> r_u8 r; Some (ucast v, r') })
           else Some (startIndex + i, r));
        if recordAddr = 6 then
          decode_records largeIdx posTransmit recordAddr startIndex maxOut left (i + 1) (r_skip r1 4) ps
        else do {
          (ok, p, r2) \<leftarrow> readProfile r1 Profile;
          if \<not> ok then Some (ps, False, True, Suc left)
          else decode_records largeIdx posTransmit recordAddr startIndex maxOut left (i + 1) r2
                 (ps @ [p\<lparr>p_position := position\<rparr>]) }})"

definition decodeProfileArray :: "bytes \<Rightarrow> u16 \<Rightarrow> nat \<Rightarrow> (profile list \<times> array_result) option" where
  "decodeProfileArray body bodyLen maxOut = do {
     (arrayId, r1) \<leftarrow> r_u8 (Reader body bodyLen);
     (total, r2) \<leftarrow> r_u8 r1;
     (flags, r3) \<leftarrow> r_u8 r2;
     let largeIdx = (flags AND 0x80 \<noteq> 0);
     let posTransmit = (flags AND 0x40 \<noteq> 0);
     let recordAddr = flags AND 0x0F;
     (startIndex, r4) \<leftarrow> (if largeIdx then r_u16le r3 else do { (v, r') \<leftarrow> r_u8 r3; Some (ucast v, r') });
     (elementCount, r5) \<leftarrow> (if largeIdx then r_u16le r4 else do { (v, r') \<leftarrow> r_u8 r4; Some (ucast v, r') });
     if \<not> r_ok r5 then
       Some ([], \<lparr>ar_count = 0, ar_declared = elementCount, ar_complete = False, ar_truncated = False,
                  ar_malformed = True\<rparr>)
     else do {
       (ps, truncated, malformed, left) \<leftarrow>
         decode_records largeIdx posTransmit recordAddr startIndex maxOut (unat elementCount) 0 r5 [];
       Some (ps, \<lparr>ar_count = word_of_nat (length ps), ar_declared = elementCount,
                  ar_complete = (\<not> (truncated \<or> malformed) \<and> left = 0), ar_truncated = truncated,
                  ar_malformed = (malformed \<or> \<not> truncated \<and> left \<noteq> 0)\<rparr>) }
   }"

subsection \<open>Array writes\<close>

definition kAsgIdOvms :: u8 where "kAsgIdOvms = 0x3"

definition asgTxnByte :: "u8 \<Rightarrow> u8 \<Rightarrow> u8" where
  "asgTxnByte asgId txn = push_bit 4 (asgId AND 0x0F) OR (txn AND 0x0F)"

text \<open>\<open>TxnCounter::next\<close> returns the new value of \<open>last\<close>, which is the whole state.\<close>

definition txn_next :: "u8 \<Rightarrow> u8" where
  "txn_next prev = (if prev \<ge> 0x0F then 0x01 else prev + 1)"

record array_write_header =
  aw_asgId :: u8
  aw_txn :: u8
  aw_recordAddr :: u8
  aw_startIndex :: u8
  aw_count :: u8
  aw_records :: bytes
  aw_recordsLen :: u16

definition parseArrayWriteHeader :: "bytes \<Rightarrow> u16 \<Rightarrow> array_write_header option option" where
  "parseArrayWriteHeader body len =
     (if len < 4 then Some None
      else do {
        h \<leftarrow> rdn body 0 4;
        recs \<leftarrow> rdn body 4 (unat len - 4);
        Some (Some \<lparr>aw_asgId = drop_bit 4 (h ! 0), aw_txn = (h ! 0) AND 0x0F, aw_recordAddr = h ! 1,
                    aw_startIndex = h ! 2, aw_count = h ! 3, aw_records = recs, aw_recordsLen = len - 4\<rparr>) })"

definition buildArrayWriteBody ::
  "bytes \<Rightarrow> nat \<Rightarrow> u8 \<Rightarrow> u8 \<Rightarrow> u8 \<Rightarrow> u8 \<Rightarrow> bytes \<Rightarrow> nat \<Rightarrow> (nat \<times> bytes) option" where
  "buildArrayWriteBody out cap asgTxn recordAddr startIndex count records recordsLen =
     (if cap < 4 + recordsLen then Some (0, out)
      else do {
        out1 \<leftarrow> memcpy_at out 0 [asgTxn, recordAddr, startIndex, count];
        rs \<leftarrow> rdn records 0 recordsLen;
        out2 \<leftarrow> memcpy_at out1 4 rs;
        Some (4 + recordsLen, out2) })"

text \<open>The result also carries the counter, which is bumped only when the record was encoded.\<close>

definition sendProfileWrite ::
  "'s frame_sink \<Rightarrow> 's \<Rightarrow> u8 \<Rightarrow> u8 \<Rightarrow> u8 \<Rightarrow> u8 \<Rightarrow> profile \<Rightarrow> ('s \<times> send_result \<times> u8) option" where
  "sendProfileWrite sink s tc asgId recordAddr startIndex p = do {
     (rn, rec) \<leftarrow> encodeProfile (replicate 45 0) 45 p;
     let tc' = (if rn \<noteq> 0 then txn_next tc else tc);
     (bn, body) \<leftarrow>
       (if rn \<noteq> 0
        then buildArrayWriteBody (replicate 49 0) 49 (asgTxnByte asgId tc') recordAddr startIndex 1 rec rn
        else Some (0, []));
     if bn = 0 then Some (s, \<lparr>sr_status = Refused, sr_framesSent = 0\<rparr>, tc')
     else do {
       (s', res) \<leftarrow> sendElementFn sink s (opcode_val OP_SET_GET) kLsg (func_val FUNC_PROFILES_ARRAY)
                      (Some body) (word_of_nat bn) 0;
       Some (s', res, tc') } }"

subsection \<open>Climate commands\<close>

definition buildOperationModeRaw :: "u8 \<Rightarrow> u8 \<Rightarrow> bytes" where
  "buildOperationModeRaw b0 b1 = [b0, b1]"

definition buildClimateStart :: bytes where
  "buildClimateStart = buildOperationModeRaw 0x00 0x01"

definition buildClimateStop :: bytes where
  "buildClimateStop = buildOperationModeRaw 0x00 0x00"

definition buildClimateProfileSelect :: "bool \<Rightarrow> bytes" where
  "buildClimateProfileSelect start =
     (if start then 0x22 else 0x23) # [0x06, 0x00, 0x01, 0x06, 0x00, 0x20, 0x00]"

definition sendClimate :: "'s frame_sink \<Rightarrow> 's \<Rightarrow> bool \<Rightarrow> ('s \<times> send_result) option" where
  "sendClimate sink s start =
     sendElementFn sink s (opcode_val OP_SET_GET) kLsg (func_val FUNC_OPERATION_MODE)
       (Some (if start then buildClimateStart else buildClimateStop)) 2 0"

definition sendClimateSequence :: "'s frame_sink \<Rightarrow> 's \<Rightarrow> bool \<Rightarrow> ('s \<times> send_result) option" where
  "sendClimateSequence sink s start = do {
     (s', r) \<leftarrow> sendElementFn sink s (opcode_val OP_SET_GET) kLsg (func_val FUNC_PROFILES_ARRAY)
                 (Some (buildClimateProfileSelect start)) 8 0;
     if \<not> sr_ok r then Some (s', r) else sendClimate sink s' start }"

subsection \<open>Small encodings\<close>

lemma clampMaxCurrent_small:
  "n \<le> 32 \<Longrightarrow> clampMaxCurrent (word_of_nat n) = (if n < 8 then 5 else if n < 12 then 10 else if n < 23 then 13 else 32)"
proof -
  assume "n \<le> 32"
  then have "n \<in> {..32}"
    by simp
  also have "{..32 :: nat} = set [0 ..< 33]"
    by auto
  finally have "n \<in> set [0 ..< 33]" .
  moreover have "\<forall>n \<in> set [0 ..< 33]. clampMaxCurrent (word_of_nat n) = (if n < 8 then 5 else if n < 12 then 10 else if n < 23 then 13 else 32)"
    by code_simp
  ultimately show ?thesis
    by blast
qed

lemma clampMaxCurrent_steps:
  "clampMaxCurrent amps = (if unat amps < 8 then 5 else if unat amps < 12 then 10 else if unat amps < 23 then 13 else 32)"
proof (cases "unat amps \<le> 32")
  case True
  then show ?thesis
    using clampMaxCurrent_small [OF True] by simp
next
  case False
  then have "amps > ucast kMaxCurrentHardLimit"
    by (simp add: word_less_nat_alt kMaxCurrentHardLimit_def)
  then have "clampMaxCurrent amps = clampMaxCurrent (word_of_nat 32)"
    by (simp add: clampMaxCurrent_def kMaxCurrentHardLimit_def)
  with False show ?thesis
    using clampMaxCurrent_small [of 32] by simp
qed

lemma clampMaxCurrent_le: "clampMaxCurrent amps \<le> kMaxCurrentHardLimit"
  by (simp add: clampMaxCurrent_steps kMaxCurrentHardLimit_def)

lemma tempToRawDeci_raw: "tempToRawDeci (rawToDeciDegC raw) = raw"
proof -
  have "uint raw < 256" "0 \<le> uint raw"
    using uint_lt2p [of raw] by simp_all
  then show ?thesis
    by (simp add: tempToRawDeci_def rawToDeciDegC_def Let_def)
qed

lemma unat_add_u8: "unat (a :: u8) + unat b < 256 \<Longrightarrow> unat (a + b) = unat a + unat b"
  by (simp add: unat_word_ariths)

lemma txn_next_range: "1 \<le> unat (txn_next t)" "unat (txn_next t) \<le> 15"
  and txn_next_changes: "txn_next t \<noteq> t"
proof -
  consider "15 \<le> unat t" | "unat t < 15"
    by linarith
  then have "1 \<le> unat (txn_next t) \<and> unat (txn_next t) \<le> 15 \<and> txn_next t \<noteq> t"
  proof cases
    case 1
    then show ?thesis
      by (auto simp: txn_next_def word_le_nat_alt)
  next
    case 2
    then show ?thesis
      using unat_add_u8 [of t 1] by (simp add: txn_next_def word_le_nat_alt)
  qed
  then show "1 \<le> unat (txn_next t)" "unat (txn_next t) \<le> 15" "txn_next t \<noteq> t"
    by simp_all
qed

lemma asgTxnByte_fields: "drop_bit 4 (asgTxnByte a t) = a AND 0xF" "asgTxnByte a t AND 0xF = t AND 0xF"
  unfolding asgTxnByte_def and_masks by (simp_all add: bitblast_u8 bit_simps)

lemma decodeTimer_encodeTimer:
  assumes "8 \<le> cap" "cap \<le> length out" "encodeTimer out cap t = Some (n, out')"
  shows "n = 8 \<and> decodeTimer out' 8 = Some (Some t)"
  using assms by (cases t) (auto simp: encodeTimer_def decodeTimer_def memcpy_at_def rdn_def split: if_splits)

lemma timer_slots: "slot \<in> {1, 2, 3, 4} \<Longrightarrow> timerSlotForFunc (funcForTimerSlot slot) = slot"
  by (auto simp: timerSlotForFunc_def funcForTimerSlot_def)

lemma timer_state_bits:
  assumes "2 \<le> cap" "cap \<le> length out" "encodeTimerState out cap em = Some (n, out')" "slot \<in> {1, 2, 3, 4}"
  shows "n = 2 \<and> timerEnabled (out' ! 0) slot = bit em (unat slot - 1)"
proof -
  have o: "out' ! 0 = em AND 0x0F" "n = 2"
    using assms(1-3) by (auto simp: encodeTimerState_def memcpy_at_def)
  have *: "(ucast (em AND 0x0F) :: u32) AND push_bit k 1 \<noteq> 0 \<longleftrightarrow> bit em k" if "k < 4" for k
  proof -
    have "(ucast (em AND 0x0F) :: u32) AND push_bit k 1 = 0 \<longleftrightarrow> \<not> bit (ucast (em AND 0x0F) :: u32) k"
      using that by (simp add: push_bit_eq_mult and_exp_eq_0_iff_not_bit)
    then show ?thesis
      using that unfolding and_masks by (auto simp: bit_simps)
  qed
  show ?thesis
    using assms(4) *[of "unat slot - 1"] o by (auto simp: timerEnabled_def word_le_nat_alt)
qed

subsection \<open>Profile records as byte lists\<close>

definition le16_bytes :: "u16 \<Rightarrow> bytes" where
  "le16_bytes v = [fst (putLe16 v), snd (putLe16 v)]"

definition name_len :: "profile \<Rightarrow> nat" where
  "name_len p = min (unat (p_nameLen p)) 24"

definition profile_bytes :: "profile \<Rightarrow> bytes" where
  "profile_bytes p =
     [p_operation p, p_operation2 p, p_maxCurrent p, p_minChargeLevel p] @ le16_bytes (p_minRange p) @
     [p_targetChargeLevel p, p_targetChargeDuration p] @ le16_bytes (p_targetChargeRange p) @
     [p_unitRange p, p_rangeCalculationSetup p, p_temperatureRaw p, p_temperatureUnit p, p_leadTime p,
      p_holdingTimePlug p, p_holdingTimeBattery p] @ le16_bytes (p_providerDataId p) @
     word_of_nat (name_len p) # take (name_len p) (p_name p)"

lemma getLe16_le16 [simp]: "getLe16 (fst (putLe16 v)) (snd (putLe16 v)) = v"
  by (rule getLe16_putLe16) simp

lemma length_profile_bytes: "length (p_name p) = 25 \<Longrightarrow> length (profile_bytes p) = 20 + name_len p"
  by (simp add: profile_bytes_def le16_bytes_def name_len_def)

text \<open>A writer that has room takes every byte; the put operations then fuse.\<close>

lemma w_u8_put:
  "\<lbrakk>w_inv w; w_pos w + length xs + 1 \<le> w_cap w\<rbrakk> \<Longrightarrow> w_u8 v (w_put w xs) = Some (w_put w (xs @ [v]))"
  by (simp add: w_u8_step w_put_inv w_put_put)

lemma w_u16le_put:
  "\<lbrakk>w_inv w; w_pos w + length xs + 2 \<le> w_cap w\<rbrakk> \<Longrightarrow> w_u16le v (w_put w xs) = Some (w_put w (xs @ le16_bytes v))"
  using w_u16le_step [of "w_put w xs" v "fst (putLe16 v)" "snd (putLe16 v)"]
  by (simp add: w_put_inv w_put_put le16_bytes_def)

lemma w_strLp_put:
  "\<lbrakk>w_inv w; w_pos w + length xs + 1 + unat len \<le> w_cap w; unat len \<le> length s\<rbrakk> \<Longrightarrow>
   w_strLp s len (w_put w xs) = Some (w_put w (xs @ len # take (unat len) s))"
  using w_strLp_step [of "w_put w xs" len s] by (simp add: w_put_inv w_put_put)

lemma w_put_Nil: "w_inv w \<Longrightarrow> w_put w [] = w"
  by (simp add: w_put_def w_inv_def)

lemma encodeProfile_bytes:
  assumes name: "length (p_name p) = 25" and cap: "44 \<le> cap" "cap \<le> length out"
  shows "encodeProfile out cap p =
    Some (length (profile_bytes p), profile_bytes p @ drop (length (profile_bytes p)) out)"
proof -
  define w where "w = Writer out cap"
  define nl where "nl = (if p_nameLen p > kProfileMaxName then kProfileMaxName else p_nameLen p)"
  have inv: "w_inv w" "w_pos w = 0" "w_cap w = cap" "w_ok w" "w_d w = out"
    using cap(2) by (simp_all add: w_def Writer_def w_inv_def)
  have nl: "unat nl = name_len p"
    by (auto simp: nl_def name_len_def kProfileMaxName_def word_less_nat_alt)
  then have nlw: "nl = word_of_nat (name_len p)"
    by (metis of_nat_unat ucast_id)
  have le: "unat nl \<le> 24"
    by (simp add: nl name_len_def)
  have w0: "Writer out cap = w_put w []"
    using inv by (simp add: w_put_Nil w_def)
  have len: "length (le16_bytes v) = 2" for v
    by (simp add: le16_bytes_def)
  have "encodeProfile out cap p = Some (w_pos (w_put w (profile_bytes p)), w_d (w_put w (profile_bytes p)))"
    unfolding encodeProfile_def w0 nl_def [symmetric]
    using inv cap le name
    by (simp add: w_u8_put w_u16le_put w_strLp_put len profile_bytes_def nlw [symmetric] nl [symmetric])
  then show ?thesis
    using inv by (simp add: w_put_def)
qed

subsection \<open>Reading a profile back\<close>

lemma r_u8_at:
  "\<lbrakk>r_inv r; k < length (r_rest r)\<rbrakk> \<Longrightarrow> r_u8 (r_adv r k) = Some (r_rest r ! k, r_adv r (Suc k))"
  by (simp add: r_u8_step r_adv_rest Cons_nth_drop_Suc [symmetric])

lemma r_u16le_at:
  "\<lbrakk>r_inv r; Suc k < length (r_rest r)\<rbrakk> \<Longrightarrow>
   r_u16le (r_adv r k) = Some (getLe16 (r_rest r ! k) (r_rest r ! Suc k), r_adv r (Suc (Suc k)))"
proof -
  assume r: "r_inv r" "Suc k < length (r_rest r)"
  then have "\<not> length (drop k (r_rest r)) < 2"
    by simp
  with r show ?thesis
    by (simp add: r_u16le_step r_adv_rest)
qed

definition normal_profile :: "profile \<Rightarrow> bool" where
  "normal_profile p \<longleftrightarrow> unat (p_nameLen p) \<le> 24 \<and> length (p_name p) = 25 \<and>
     drop (unat (p_nameLen p)) (p_name p) = replicate (25 - unat (p_nameLen p)) 0 \<and> \<not> p_nameTruncated p"

lemma r_adv_0 [simp]: "r_adv r 0 = r"
  by (simp add: r_adv_def)

lemma readProfile_bytes:
  assumes r: "r_inv r" "r_ok r" and rest: "r_rest r = profile_bytes p @ ys" and p: "normal_profile p"
    and out: "p_name out = replicate 25 0"
  shows "readProfile r out = Some (True, p\<lparr>p_position := p_position out\<rparr>, r_adv r (length (profile_bytes p)))"
proof -
  define nl where "nl = unat (p_nameLen p)"
  have nl: "name_len p = nl" "nl \<le> 24" "unat (word_of_nat nl :: u8) = nl"
    using p by (simp_all add: normal_profile_def name_len_def nl_def unat_word_of_nat_u8)
  define xs where "xs = r_rest r"
  have xs: "xs = p_operation p # p_operation2 p # p_maxCurrent p # p_minChargeLevel p
      # fst (putLe16 (p_minRange p)) # snd (putLe16 (p_minRange p))
      # p_targetChargeLevel p # p_targetChargeDuration p
      # fst (putLe16 (p_targetChargeRange p)) # snd (putLe16 (p_targetChargeRange p))
      # p_unitRange p # p_rangeCalculationSetup p # p_temperatureRaw p # p_temperatureUnit p
      # p_leadTime p # p_holdingTimePlug p # p_holdingTimeBattery p
      # fst (putLe16 (p_providerDataId p)) # snd (putLe16 (p_providerDataId p))
      # p_nameLen p # take nl (p_name p) @ ys"
    using rest nl by (simp add: xs_def profile_bytes_def le16_bytes_def) (simp add: nl_def)
  have lname: "length (take nl (p_name p)) = nl"
    using p nl by (simp add: normal_profile_def)
  have len: "length xs = 20 + nl + length ys"
    using lname by (simp add: xs)
  have lp: "length (profile_bytes p) = 20 + nl"
    using length_profile_bytes [of p] p nl by (simp add: normal_profile_def)
  have u8: "r_u8 (r_adv r k) = Some (xs ! k, r_adv r (Suc k))" if "k < 20" for k
    using r_u8_at [OF r(1), of k] len that by (simp add: xs_def)
  have u16: "r_u16le (r_adv r k) = Some (getLe16 (xs ! k) (xs ! Suc k), r_adv r (Suc (Suc k)))" if "k < 19" for k
    using r_u16le_at [OF r(1), of k] len that by (simp add: xs_def)
  have rest19: "r_rest (r_adv r 19) = p_nameLen p # take nl (p_name p) @ ys" "r_inv (r_adv r 19)"
    using r_adv_rest [OF r(1), of 19] len by (simp_all add: xs_def [symmetric]) (simp add: xs)
  have fin: "take nl (p_name p) @ 0 # drop (Suc nl) (replicate 25 0) = p_name p"
  proof -
    have "0 # drop (Suc nl) (replicate 25 (0 :: u8)) = drop nl (p_name p)"
      using p nl(2) by (simp add: normal_profile_def nl_def [symmetric] Suc_diff_le [symmetric] replicate_Suc [symmetric] del: replicate_Suc)
    then show ?thesis
      by simp
  qed
  have str: "r_strLp (r_adv r 19) (replicate 25 0) 25 = Some (p_nameLen p, False, p_name p, r_adv r (20 + nl))"
    using r_strLp_step [OF rest19(2) _ rest19(1), of 25 "replicate 25 0"] r(2) lname nl fin
    by (simp add: nl_def [symmetric] Let_def min_def) (simp add: nl_def)
  have first: "r_u8 r = Some (xs ! 0, r_adv r (Suc 0))" "r_u8 (r_adv r (Suc 0)) = Some (xs ! Suc 0, r_adv r 2)"
    using u8 [of 0] u8 [of 1] by (simp_all add: numeral_2_eq_2)
  note u8' = u8 [of 2] u8 [of 3] u8 [of 6] u8 [of 7] u8 [of 10] u8 [of 11] u8 [of 12]
     u8 [of 13] u8 [of 14] u8 [of 15] u8 [of 16] 
  note u16' = u16 [of 4] u16 [of 8] u16 [of 17]
  have "readProfile r out = Some (True, out\<lparr>p_operation := xs ! 0, p_operation2 := xs ! 1, p_maxCurrent := xs ! 2,
      p_minChargeLevel := xs ! 3, p_minRange := getLe16 (xs ! 4) (xs ! 5), p_targetChargeLevel := xs ! 6,
      p_targetChargeDuration := xs ! 7, p_targetChargeRange := getLe16 (xs ! 8) (xs ! 9), p_unitRange := xs ! 10,
      p_rangeCalculationSetup := xs ! 11, p_temperatureRaw := xs ! 12, p_temperatureUnit := xs ! 13,
      p_leadTime := xs ! 14, p_holdingTimePlug := xs ! 15, p_holdingTimeBattery := xs ! 16,
      p_providerDataId := getLe16 (xs ! 17) (xs ! 18), p_nameLen := p_nameLen p, p_name := p_name p,
      p_nameTruncated := False\<rparr>, r_adv r (20 + nl))"
    unfolding readProfile_def
    using u8' u16' first str r(2) out
    by (simp add: kProfileMaxName_def)
  also have "\<dots> = Some (True, p\<lparr>p_position := p_position out\<rparr>, r_adv r (length (profile_bytes p)))"
    using p by (simp add: xs lp normal_profile_def)
  finally show ?thesis .
qed

lemma decodeProfile_bytes:
  assumes "normal_profile p" "p_position p = 0"
  shows "decodeProfile (profile_bytes p @ ys) (word_of_nat (length (profile_bytes p))) = Some (True, p)"
proof -
  define n where "n = length (profile_bytes p)"
  have p: "length (p_name p) = 25" "name_len p = unat (p_nameLen p)" "unat (p_nameLen p) \<le> 24"
    using assms(1) by (simp_all add: normal_profile_def name_len_def)
  have n: "n = 20 + unat (p_nameLen p)"
    using length_profile_bytes [OF p(1)] p(2) by (simp add: n_def)
  define r where "r = Reader (profile_bytes p @ ys) (word_of_nat n)"
  have un: "unat (word_of_nat n :: u16) = n"
    by (rule unat_word_of_nat_u16) (use n p(3) in linarith)
  have "r_inv r" "r_ok r" "r_rest r = profile_bytes p @ []"
    using un n p(3) by (simp_all add: r_def Reader_def r_inv_def r_rest_def n_def)
  then have "readProfile r Profile = Some (True, p\<lparr>p_position := 0\<rparr>, r_adv r n)"
    using readProfile_bytes [of r p "[]" Profile] assms(1) by (simp add: n_def Profile_def)
  moreover have "p\<lparr>p_position := 0\<rparr> = p"
    using assms(2) by simp
  ultimately show ?thesis
    by (simp add: decodeProfile_def n_def r_def)
qed

subsection \<open>Decoding arbitrary bytes\<close>

lemma r_fail_inv: "r_inv r \<Longrightarrow> r_inv (r\<lparr>r_ok := b\<rparr>)"
  by (simp add: r_inv_def)

lemma ensures_r_u8: "r_inv r \<Longrightarrow> (\<And>v r'. r_inv r' \<Longrightarrow> ensures (f v r') Q) \<Longrightarrow> ensures (r_u8 r \<bind> (\<lambda>(v, r'). f v r')) Q"
  by (cases "r_rest r") (simp_all add: r_u8_step r_fail_inv r_adv_rest)

lemma ensures_r_u16le: "r_inv r \<Longrightarrow> (\<And>v r'. r_inv r' \<Longrightarrow> ensures (f v r') Q) \<Longrightarrow> ensures (r_u16le r \<bind> (\<lambda>(v, r'). f v r')) Q"
  by (simp add: r_u16le_step r_fail_inv r_adv_rest)

lemma r_strLp_ensures:
  assumes "r_inv r" "0 < cap" "unat cap \<le> length out"
  shows "ensures (r_strLp r out cap) (\<lambda>(n, t, out', r'). r_inv r' \<and> length out' = length out)"
proof -
  have capz: "cap \<noteq> 0" and cap0: "0 < unat cap"
    using assms(2) by (auto simp: word_less_nat_alt)
  have w0: "wr out 0 0 = Some (out[0 := 0])"
    using assms(3) cap0 by (auto simp: wr_def)
  obtain len r1 where u8: "r_u8 r = Some (len, r1)" and inv1: "r_inv r1"
    using ensures_r_u8 [OF assms(1), of "\<lambda>v r'. Some (v, r')" "\<lambda>(v, r'). r_inv r'"]
    by (auto simp: ensures_def split: option.splits)
  show ?thesis
  proof (cases "r_ok r1 \<and> \<not> r_pos r1 + ucast len > r_n r1")
    case False
    then show ?thesis
      using inv1 w0 capz u8 by (auto simp: r_strLp_def r_fail_inv)
  next
    case True
    have ok0: "r_ok r"
      using True u8 r_u8_step [OF assms(1)] by (auto split: list.splits)
    have fit: "unat len \<le> length (r_rest r1)"
      using True r_bound [OF inv1, of "unat len"] by simp
    have "r_rest r \<noteq> []"
      using u8 True r_u8_step [OF assms(1)] by (auto split: list.splits)
    then obtain xs where rest: "r_rest r = len # xs" and r1: "r1 = r_adv r 1"
      using u8 r_u8_step [OF assms(1)] by (auto split: list.splits)
    have "r_rest r1 = xs"
      using rest r_adv_rest [OF assms(1), of 1] r1 by simp
    then have "unat len \<le> length xs"
      using fit by simp
    note step = r_strLp_step [OF assms(1) ok0 rest this assms(2,3)]
    have "r_inv (r_adv r (Suc (unat len)))"
      using r_adv_rest [OF assms(1), of "Suc (unat len)"] rest \<open>unat len \<le> length xs\<close> by simp
    moreover have "Suc (min (unat len) (unat cap - Suc 0)) \<le> length out"
      using assms(3) cap0 by linarith
    ultimately show ?thesis
      using \<open>unat len \<le> length xs\<close> by (simp add: step Let_def)
  qed
qed

lemma readProfile_ensures:
  assumes "r_inv r" "length (p_name out) = 25"
  shows "ensures (readProfile r out) (\<lambda>(ok, p, r'). r_inv r' \<and> ok = r_ok r' \<and> length (p_name p) = 25)"
  unfolding readProfile_def
  by (intro ensures_r_u8 ensures_r_u16le assms(1); assumption?)
    (rule ensures_bindI, rule r_strLp_ensures, use assms(2) in \<open>auto simp: kProfileMaxName_def\<close>)

lemma r_skip_step:
  assumes "r_inv r" "k \<le> 255"
  shows "r_skip r (word_of_nat k) =
    (if length (r_rest r) < k then r\<lparr>r_pos := r_n r, r_ok := False\<rparr> else r_adv r k)"
  using r_bound [OF assms] by (simp add: r_skip_def r_adv_def)

lemma r_skip_inv: "r_inv r \<Longrightarrow> k \<le> 255 \<Longrightarrow> r_inv (r_skip r (word_of_nat k))"
  by (simp add: r_skip_step r_adv_rest) (simp add: r_inv_def)

definition read_index :: "bool \<Rightarrow> reader \<Rightarrow> (u16 \<times> reader) option" where
  "read_index large r = (if large then r_u16le r else do { (v, r') \<leftarrow> r_u8 r; Some (ucast v, r') })"

lemma ensures_read_index:
  "r_inv r \<Longrightarrow> (\<And>v r'. r_inv r' \<Longrightarrow> ensures (f v r') Q) \<Longrightarrow> ensures (read_index large r \<bind> (\<lambda>(v, r'). f v r')) Q"
proof -
  assume r: "r_inv r" and f: "\<And>v r'. r_inv r' \<Longrightarrow> ensures (f v r') Q"
  have "ensures (read_index large r) (\<lambda>(v, r'). r_inv r')"
  proof (cases large)
    case True
    then show ?thesis
      using r by (simp add: read_index_def r_u16le_step r_fail_inv r_adv_rest(2))
  next
    case False
    then show ?thesis
      using r by (cases "r_rest r") (simp_all add: read_index_def r_u8_step r_fail_inv r_adv_rest(2))
  qed
  then show ?thesis
    by (rule ensures_bindI) (use f in auto)
qed

lemma decode_records_ensures:
  assumes "r_inv r" "length ps \<le> maxOut" "\<forall>p \<in> set ps. length (p_name p) = 25"
  shows "ensures (decode_records large pos addr start maxOut left i r ps)
    (\<lambda>(ps', truncated, malformed, left'). length ps' \<le> maxOut \<and> length ps' + left' \<le> length ps + left \<and>
        (\<forall>p \<in> set ps'. length (p_name p) = 25) \<and> \<not> (truncated \<and> malformed) \<and>
        (truncated \<longrightarrow> length ps' = maxOut))"
  using assms
proof (induction left arbitrary: i r ps)
  case 0
  then show ?case
    by simp
next
  case (Suc left)
  let ?Q = "\<lambda>(ps', truncated, malformed, left'). length ps' \<le> maxOut \<and> length ps' + left' \<le> length ps + Suc left \<and>
        (\<forall>p \<in> set ps'. length (p_name p) = 25) \<and> \<not> (truncated \<and> malformed) \<and>
        (truncated \<longrightarrow> length ps' = maxOut)"
  show ?case
  proof (cases "r_ok r \<and> \<not> length ps \<ge> maxOut")
    case False
    then show ?thesis
      using Suc.prems by auto
  next
    case True
    define body where "body = (\<lambda>position r1. if addr = 6 then
          decode_records large pos addr start maxOut left (i + 1) (r_skip r1 4) ps
        else do {
          (ok, p, r2) \<leftarrow> readProfile r1 Profile;
          if \<not> ok then Some (ps, False, True, Suc left)
          else decode_records large pos addr start maxOut left (i + 1) r2 (ps @ [p\<lparr>p_position := position\<rparr>]) })"
    have body: "ensures (body position r1) ?Q" if r1: "r_inv r1" for position r1
    proof (cases "addr = 6")
      case True
      then show ?thesis
        using Suc.IH [of "r_skip r1 4" ps "i + 1"] r1 r_skip_inv [of r1 4] Suc.prems
        by (simp add: body_def) (erule ensures_mono, auto)
    next
      case addr: False
      have "ensures (readProfile r1 Profile) (\<lambda>(ok, p, r'). r_inv r' \<and> ok = r_ok r' \<and> length (p_name p) = 25)"
        by (rule readProfile_ensures [OF r1]) (simp add: Profile_def)
      then obtain ok p r2 where rp: "readProfile r1 Profile = Some (ok, p, r2)" "r_inv r2" "length (p_name p) = 25"
        by (auto simp: ensures_def)
      have "ensures (decode_records large pos addr start maxOut left (i + 1) r2 (ps @ [p\<lparr>p_position := position\<rparr>])) ?Q"
        by (intro ensures_mono [OF Suc.IH]) (use rp True Suc.prems in auto)
      then show ?thesis
        using addr rp True Suc.prems by (auto simp: body_def)
    qed
    have "decode_records large pos addr start maxOut (Suc left) i r ps =
      (if pos then read_index large r \<bind> (\<lambda>(position, r1). body position r1) else body (start + i) r)"
      using True by (simp add: read_index_def body_def)
    then show ?thesis
      using Suc.prems(1) body by (auto intro!: ensures_read_index)
  qed
qed

theorem decodeProfileArray_ensures:
  assumes "unat bodyLen \<le> length body" "unat bodyLen \<le> 0xFF00"
  shows "ensures (decodeProfileArray body bodyLen maxOut)
    (\<lambda>(ps, res). length ps \<le> maxOut \<and> length ps \<le> unat (ar_declared res) \<and> unat (ar_count res) = length ps \<and>
        (\<forall>p \<in> set ps. length (p_name p) = 25) \<and>
        (ar_complete res \<longrightarrow> \<not> ar_truncated res \<and> \<not> ar_malformed res) \<and>
        (ar_truncated res \<longrightarrow> \<not> ar_malformed res \<and> length ps = maxOut) \<and>
        (ar_complete res \<or> ar_truncated res \<or> ar_malformed res))"
proof -
  have inv: "r_inv (Reader body bodyLen)"
    using assms by (simp add: Reader_def r_inv_def)
  show ?thesis
    unfolding decodeProfileArray_def Let_def read_index_def [symmetric]
  proof (intro ensures_r_u8 ensures_read_index inv; assumption?)
    fix arrayId r1 total r2 flags r3 startIndex r4 elementCount r5
    assume "r_inv r5"
    show "ensures (if \<not> r_ok r5 then Some ([], \<lparr>ar_count = 0, ar_declared = elementCount, ar_complete = False, ar_truncated = False,
                  ar_malformed = True\<rparr>)
     else do {
       (ps, truncated, malformed, left) \<leftarrow>
         decode_records (flags AND 0x80 \<noteq> 0) (flags AND 0x40 \<noteq> 0) (flags AND 0xF) startIndex maxOut (unat elementCount) 0 r5 [];
       Some (ps, \<lparr>ar_count = word_of_nat (length ps), ar_declared = elementCount,
                  ar_complete = (\<not> (truncated \<or> malformed) \<and> left = 0), ar_truncated = truncated,
                  ar_malformed = (malformed \<or> \<not> truncated \<and> left \<noteq> 0)\<rparr>) })
      (\<lambda>(ps, res). length ps \<le> maxOut \<and> length ps \<le> unat (ar_declared res) \<and> unat (ar_count res) = length ps \<and>
        (\<forall>p \<in> set ps. length (p_name p) = 25) \<and>
        (ar_complete res \<longrightarrow> \<not> ar_truncated res \<and> \<not> ar_malformed res) \<and>
        (ar_truncated res \<longrightarrow> \<not> ar_malformed res \<and> length ps = maxOut) \<and>
        (ar_complete res \<or> ar_truncated res \<or> ar_malformed res))"
    proof (cases "r_ok r5")
      case True
      have lt: "length a < 65536" if "length a + b \<le> unat elementCount" for a :: "profile list" and b
        using that unat_u16_less [of elementCount] by linarith
      then show ?thesis
        using True decode_records_ensures [OF \<open>r_inv r5\<close>, of "[]" maxOut "flags AND 0x80 \<noteq> 0" "flags AND 0x40 \<noteq> 0" "flags AND 0xF" startIndex "unat elementCount" 0]
        by (auto simp: ensures_def unat_word_of_nat_u16 dest: lt)
    qed simp
  qed
qed

subsection \<open>Decoding what was encoded\<close>

definition idx_bytes :: "bool \<Rightarrow> u16 \<Rightarrow> bytes" where
  "idx_bytes large v = (if large then le16_bytes v else [ucast v])"

definition elem_bytes :: "bool \<Rightarrow> bool \<Rightarrow> profile \<Rightarrow> bytes" where
  "elem_bytes large pos p = (if pos then idx_bytes large (p_position p) else []) @ profile_bytes p"

definition array_flags :: "bool \<Rightarrow> bool \<Rightarrow> u8" where
  "array_flags large pos = (if large then 0x80 else 0) OR (if pos then 0x40 else 0)"

definition array_bytes :: "u8 \<Rightarrow> u8 \<Rightarrow> bool \<Rightarrow> bool \<Rightarrow> u16 \<Rightarrow> profile list \<Rightarrow> bytes" where
  "array_bytes arrayId tot large pos start ps =
     [arrayId, tot, array_flags large pos] @ idx_bytes large start @ idx_bytes large (word_of_nat (length ps))
     @ concat (map (elem_bytes large pos) ps)"

definition idx_ok :: "bool \<Rightarrow> u16 \<Rightarrow> bool" where
  "idx_ok large v \<longleftrightarrow> large \<or> unat v < 256"

definition array_ok :: "bool \<Rightarrow> bool \<Rightarrow> u16 \<Rightarrow> profile list \<Rightarrow> bool" where
  "array_ok large pos start ps \<longleftrightarrow>
     idx_ok large start \<and> length ps < 65536 \<and> idx_ok large (word_of_nat (length ps)) \<and>
     (\<forall>k < length ps. normal_profile (ps ! k) \<and>
        (if pos then idx_ok large (p_position (ps ! k)) else p_position (ps ! k) = start + word_of_nat k))"

lemma length_idx_bytes: "length (idx_bytes large v) = (if large then 2 else 1)"
  by (simp add: idx_bytes_def le16_bytes_def)

lemma ucast_ucast_u16: "unat (v :: u16) < 256 \<Longrightarrow> ucast (ucast v :: u8) = v"
proof -
  assume "unat v < 256"
  then have "ucast (word_of_nat (unat v) :: u8) = (word_of_nat (unat v) :: u16)"
    by (rule ucast_word_of_nat_u8)
  then show ?thesis
    by simp
qed

lemma read_index_bytes:
  assumes "r_inv r" "r_rest r = idx_bytes large v @ ys" "idx_ok large v"
  shows "read_index large r = Some (v, r_adv r (length (idx_bytes large v)))"
proof (cases large)
  case True
  then show ?thesis
    using assms by (simp add: read_index_def r_u16le_step idx_bytes_def le16_bytes_def numeral_2_eq_2)
next
  case False
  then show ?thesis
    using assms by (simp add: read_index_def r_u8_step idx_bytes_def idx_ok_def ucast_ucast_u16)
qed

lemma decode_records_bytes:
  assumes "r_inv r" "r_ok r" "r_rest r = concat (map (elem_bytes large pos) qs) @ ys"
    and "length ps + length qs \<le> maxOut" "addr \<noteq> 6"
    and "\<And>k. k < length qs \<Longrightarrow> normal_profile (qs ! k) \<and>
        (if pos then idx_ok large (p_position (qs ! k)) else p_position (qs ! k) = start + (i + word_of_nat k))"
  shows "decode_records large pos addr start maxOut (length qs) i r ps = Some (ps @ qs, False, False, 0)"
  using assms
proof (induction qs arbitrary: r i ps)
  case Nil
  then show ?case
    by simp
next
  case (Cons q qs)
  have q: "normal_profile q" "if pos then idx_ok large (p_position q) else p_position q = start + i"
    using Cons.prems(6) [of 0] by (cases pos; simp)+
  define tl where "tl = concat (map (elem_bytes large pos) qs) @ ys"
  define k where "k = (if pos then length (idx_bytes large (p_position q)) else 0)"
  have rest: "r_rest r = (if pos then idx_bytes large (p_position q) else []) @ profile_bytes q @ tl"
    using Cons.prems(3) by (simp add: elem_bytes_def [of large pos q] tl_def)
  have klen: "k \<le> length (r_rest r)"
    by (simp add: rest k_def)
  have r1: "r_inv (r_adv r k)" "r_rest (r_adv r k) = profile_bytes q @ tl" "r_ok (r_adv r k)"
    using r_adv_rest [OF Cons.prems(1) klen] Cons.prems(2) by (simp_all add: rest k_def)
  have index: "(if pos then read_index large r else Some (start + i, r)) = Some (p_position q, r_adv r k)"
    using q(2) Cons.prems(1) rest by (auto simp: k_def intro: read_index_bytes)
  define r2 where "r2 = r_adv (r_adv r k) (length (profile_bytes q))"
  have rp: "readProfile (r_adv r k) Profile = Some (True, q\<lparr>p_position := 0\<rparr>, r2)"
    using readProfile_bytes [OF r1(1,3,2) q(1), of Profile] by (simp add: r2_def Profile_def)
  have r2: "r_inv r2" "r_rest r2 = tl" "r_ok r2"
    using r_adv_rest [OF r1(1), of "length (profile_bytes q)"] r1 by (simp_all add: r2_def del: r_adv_adv)
  have "decode_records large pos addr start maxOut (length qs) (i + 1) r2 (ps @ [q])
      = Some ((ps @ [q]) @ qs, False, False, 0)"
  proof (rule Cons.IH)
    fix k
    assume "k < length qs"
    then show "normal_profile (qs ! k) \<and> (if pos then idx_ok large (p_position (qs ! k))
        else p_position (qs ! k) = start + (i + 1 + word_of_nat k))"
      using Cons.prems(6) [of "Suc k"] by (cases pos) (simp_all add: algebra_simps)
  qed (use r2 Cons.prems in \<open>auto simp: tl_def\<close>)
  moreover have "\<not> maxOut \<le> length ps"
    using Cons.prems(4) by simp
  moreover have "q\<lparr>p_position := p_position q\<rparr> = q"
    by simp
  ultimately show ?case
    using index rp Cons.prems(2,5)
    by (cases pos) (auto simp: read_index_def [symmetric])
qed

theorem decodeProfileArray_array_bytes:
  assumes ok: "array_ok large pos start ps" and fits: "length ps \<le> maxOut"
    and len: "length (array_bytes aid tot large pos start ps) \<le> 0xFF00"
  shows "decodeProfileArray (array_bytes aid tot large pos start ps)
      (word_of_nat (length (array_bytes aid tot large pos start ps))) maxOut =
    Some (ps, \<lparr>ar_count = word_of_nat (length ps), ar_declared = word_of_nat (length ps), ar_complete = True,
               ar_truncated = False, ar_malformed = False\<rparr>)"
proof -
  define b where "b = array_bytes aid tot large pos start ps"
  define r where "r = Reader b (word_of_nat (length b))"
  define k where "k = (if large then 2 else 1 :: nat)"
  define tl where "tl = concat (map (elem_bytes large pos) ps)"
  have ul: "unat (word_of_nat (length b) :: u16) = length b"
    by (rule unat_word_of_nat_u16) (use len in \<open>simp add: b_def\<close>)
  have r: "r_inv r" "r_ok r" "r_rest r = b"
    using len ul by (simp_all add: r_def Reader_def r_inv_def r_rest_def b_def)
  have b: "b = aid # tot # array_flags large pos # idx_bytes large start
      @ idx_bytes large (word_of_nat (length ps)) @ tl"
    by (simp add: b_def array_bytes_def tl_def)
  have lb: "length b = 3 + k + k + length tl"
    by (simp add: b length_idx_bytes k_def)
  have h: "r_u8 r = Some (aid, r_adv r 1)" "r_u8 (r_adv r 1) = Some (tot, r_adv r 2)"
    "r_u8 (r_adv r 2) = Some (array_flags large pos, r_adv r 3)"
    using r_u8_at [OF r(1), of 0] r_u8_at [OF r(1), of 1] r_u8_at [OF r(1), of 2] lb r(3)
    by (simp_all add: b numeral_2_eq_2 numeral_3_eq_3)
  have s3: "r_inv (r_adv r 3)" "r_rest (r_adv r 3) = idx_bytes large start @ idx_bytes large (word_of_nat (length ps)) @ tl"
    using r_adv_rest [OF r(1), of 3] lb r(3) by (simp_all add: b)
  have i1: "read_index large (r_adv r 3) = Some (start, r_adv r (3 + k))"
    using read_index_bytes [OF s3] ok by (simp add: array_ok_def length_idx_bytes k_def)
  have s4: "r_inv (r_adv r (3 + k))" "r_rest (r_adv r (3 + k)) = idx_bytes large (word_of_nat (length ps)) @ tl"
    using r_adv_rest [OF r(1), of "3 + k"] lb r(3) by (simp_all add: b length_idx_bytes k_def)
  have i2: "read_index large (r_adv r (3 + k)) = Some (word_of_nat (length ps), r_adv r (3 + k + k))"
    using read_index_bytes [OF s4] ok by (simp add: array_ok_def length_idx_bytes k_def)
  have s5: "r_inv (r_adv r (3 + k + k))" "r_rest (r_adv r (3 + k + k)) = concat (map (elem_bytes large pos) ps) @ []"
    using r_adv_rest [OF r(1), of "3 + k + k"] lb r(3) by (simp_all add: b length_idx_bytes k_def tl_def)
  have fl: "array_flags large pos AND 0x80 \<noteq> 0 \<longleftrightarrow> large" "array_flags large pos AND 0x40 \<noteq> 0 \<longleftrightarrow> pos"
    "array_flags large pos AND 0x0F = 0"
    by (simp_all add: array_flags_def)
  have un: "unat (word_of_nat (length ps) :: u16) = length ps"
    using ok by (simp add: array_ok_def unat_word_of_nat_u16)
  have dr: "decode_records large pos 0 start maxOut (length ps) 0 (r_adv r (3 + k + k)) [] = Some ([] @ ps, False, False, 0)"
    using ok fits r(2) by (intro decode_records_bytes [OF s5(1) _ s5(2)]) (auto simp: array_ok_def)
  show ?thesis
    unfolding b_def [symmetric] decodeProfileArray_def Let_def read_index_def [symmetric] r_def [symmetric]
    by (simp add: h [simplified] fl i1 i2 un r(2) dr [simplified])
qed

subsection \<open>What the commands put on the bus\<close>

definition write_body :: "u8 \<Rightarrow> u8 \<Rightarrow> u8 \<Rightarrow> profile \<Rightarrow> bytes" where
  "write_body asgTxn recordAddr startIndex p = [asgTxn, recordAddr, startIndex, 1] @ profile_bytes p"

lemma length_profile_bytes_le: "length (p_name p) = 25 \<Longrightarrow> length (profile_bytes p) \<le> 44"
  by (simp add: length_profile_bytes name_len_def)

lemma buildArrayWriteBody_bytes:
  assumes "4 + n \<le> cap" "cap \<le> length out" "n \<le> length records"
  shows "buildArrayWriteBody out cap t ra si c records n = Some (4 + n, [t, ra, si, c] @ take n records @ drop (4 + n) out)"
proof -
  have "memcpy_at out 0 [t, ra, si, c] = Some ([t, ra, si, c] @ drop 4 out)"
    using assms by (simp add: memcpy_at_def numeral_eq_Suc)
  moreover have "memcpy_at ([t, ra, si, c] @ drop 4 out) 4 (take n records)
      = Some ([t, ra, si, c] @ take n records @ drop (4 + n) out)"
  proof -
    have "drop (4 + n) ([t, ra, si, c] @ drop 4 out) = drop (4 + n) out"
      by (simp add: drop_4_Cons add.commute [of n 4])
    then show ?thesis
      using assms by (simp add: memcpy_at_def)
  qed
  ultimately show ?thesis
    using assms by (simp add: buildArrayWriteBody_def rdn_def)
qed

lemma sendProfileWrite_spec:
  assumes "length (p_name p) = 25"
  shows "sendProfileWrite sink s tc asg ra si p =
    (case offer sink s (telegram 2 kLsg 0x19 (write_body (asgTxnByte asg (txn_next tc)) ra si p) 0) of
       (s', k, all) \<Rightarrow> Some (s', send_outcome k all, txn_next tc))"
proof -
  define n where "n = length (profile_bytes p)"
  define rec where "rec = profile_bytes p @ drop n (replicate 45 (0 :: u8))"
  define wb where "wb = write_body (asgTxnByte asg (txn_next tc)) ra si p"
  have n: "20 \<le> n" "n \<le> 44"
    using assms by (simp_all add: n_def length_profile_bytes_le) (simp add: length_profile_bytes)
  have enc: "encodeProfile (replicate 45 0) 45 p = Some (n, rec)"
    using encodeProfile_bytes [OF assms, of 45 "replicate 45 0"] by (simp add: n_def rec_def)
  have bld: "buildArrayWriteBody (replicate 49 0) 49 t ra si 1 rec n
      = Some (4 + n, [t, ra, si, 1] @ profile_bytes p @ drop (4 + n) (replicate 49 0))" for t
    using buildArrayWriteBody_bytes [of n 49 "replicate 49 0" rec] n by (simp add: rec_def n_def)
  have wb: "take (4 + n) ([asgTxnByte asg (txn_next tc), ra, si, 1] @ profile_bytes p @ drop (4 + n) (replicate 49 0)) = wb"
    by (simp add: wb_def write_body_def n_def take_4_Cons)
  have "sendElementFn sink s 2 kLsg 0x19
          (Some ([asgTxnByte asg (txn_next tc), ra, si, 1] @ profile_bytes p @ drop (4 + n) (replicate 49 0))) (word_of_nat (4 + n)) 0
      = (case offer sink s (telegram 2 kLsg 0x19 wb 0) of (s', k, all) \<Rightarrow> Some (s', send_outcome k all))"
    unfolding wb [symmetric] using n by (intro sendElementFn_spec) (simp_all add: n_def)
  then show ?thesis
    using n unfolding sendProfileWrite_def enc wb_def [symmetric]
    by (simp add: bld Let_def split: prod.splits)
qed

lemma sendClimate_spec:
  "sendClimate sink s on =
    (case offer sink s (telegram 2 kLsg 0x18 [0, if on then 1 else 0] 0) of
       (s', k, all) \<Rightarrow> Some (s', send_outcome k all))"
  using sendElementFn_spec [of 2 "[0, if on then 1 else 0]" "Some [0, if on then 1 else 0]" sink s 2 kLsg "0x18" 0]
  by (auto simp: sendClimate_def buildClimateStart_def buildClimateStop_def buildOperationModeRaw_def)

lemma send_get_spec:
  "sendElementFn sink s 1 kLsg func None 0 0 =
    (case offer sink s (telegram 1 kLsg func [] 0) of (s', k, all) \<Rightarrow> Some (s', send_outcome k all))"
  using sendElementFn_spec [of 0 "[]" None sink s 1 kLsg func 0] by simp

lemma sendClimateSequence_spec:
  "sendClimateSequence sink s on =
    (case offer sink s (telegram 2 kLsg 0x19 (buildClimateProfileSelect on) 0) of
       (s', k, all) \<Rightarrow> if all then sendClimate sink s' on else Some (s', send_outcome k all))"
  using sendElementFn_spec [of 8 "buildClimateProfileSelect on" "Some (buildClimateProfileSelect on)" sink s 2 kLsg "0x19" 0]
  by (auto simp: sendClimateSequence_def buildClimateProfileSelect_def sr_ok_def send_outcome_def split: prod.splits)

lemma parse_write_body:
  assumes "length (p_name p) = 25"
  shows "parseArrayWriteHeader (write_body t ra si p) (word_of_nat (length (write_body t ra si p))) =
    Some (Some \<lparr>aw_asgId = drop_bit 4 t, aw_txn = t AND 0x0F, aw_recordAddr = ra, aw_startIndex = si, aw_count = 1,
      aw_records = profile_bytes p, aw_recordsLen = word_of_nat (length (profile_bytes p))\<rparr>)"
proof -
  define n where "n = length (profile_bytes p)"
  have n: "n \<le> 44"
    using assms by (simp add: n_def length_profile_bytes_le)
  have len: "length (write_body t ra si p) = 4 + n"
    by (simp add: write_body_def n_def)
  have u: "unat (word_of_nat (4 + n) :: u16) = 4 + n"
    by (rule unat_word_of_nat_u16) (use n in simp)
  have "\<not> (word_of_nat (4 + n) :: u16) < 4"
    using u by (simp add: word_less_nat_alt)
  moreover have "rdn (write_body t ra si p) 0 4 = Some [t, ra, si, 1]"
    "rdn (write_body t ra si p) 4 n = Some (profile_bytes p)"
    by (simp_all add: rdn_def write_body_def n_def)
  moreover have "(word_of_nat (4 + n) :: u16) - 4 = word_of_nat n"
    by simp
  ultimately show ?thesis
    using u unfolding len n_def [symmetric] parseArrayWriteHeader_def
    by (simp del: of_nat_add)
qed

subsection \<open>Fixed-layout records\<close>

text \<open>
  The contract of the fixed-layout record codecs: decoding looks at the front of the buffer only
  and inverts encoding.  Clients get that distinct records have distinct encodings and that a
  block of records can be read back one by one.
\<close>

locale record_codec =
  fixes enc :: "'a \<Rightarrow> bytes" and dec :: "bytes \<Rightarrow> 'a option" and size_rec :: nat and ok :: "'a \<Rightarrow> bool"
  assumes enc_length: "ok x \<Longrightarrow> length (enc x) = size_rec"
    and dec_enc: "ok x \<Longrightarrow> dec (enc x @ ys) = Some x"
begin

lemma enc_inj: "\<lbrakk>ok x; ok y; enc x = enc y\<rbrakk> \<Longrightarrow> x = y"
  using dec_enc [of x "[]"] dec_enc [of y "[]"] by simp

primrec dec_block :: "nat \<Rightarrow> bytes \<Rightarrow> 'a list option" where
  "dec_block 0 bs = Some []"
| "dec_block (Suc n) bs = do { x \<leftarrow> dec bs; xs \<leftarrow> dec_block n (drop size_rec bs); Some (x # xs) }"

lemma dec_block_enc: "\<forall>x \<in> set xs. ok x \<Longrightarrow> dec_block (length xs) (concat (map enc xs) @ ys) = Some xs"
  by (induction xs) (simp_all add: dec_enc enc_length)

end

definition timer_bytes :: "timer \<Rightarrow> bytes" where
  "timer_bytes t = (case encodeTimer (replicate 8 0) 8 t of Some (n, out) \<Rightarrow> take n out | None \<Rightarrow> [])"

definition timer_of :: "bytes \<Rightarrow> timer option" where
  "timer_of bs = Option.bind (decodeTimer bs 8) id"

definition window_bytes :: "power_window \<Rightarrow> bytes" where
  "window_bytes w = (case encodePowerProviderRA2 (replicate 4 0) 4 w of Some (n, out) \<Rightarrow> take n out | None \<Rightarrow> [])"

definition window_of :: "bytes \<Rightarrow> power_window option" where
  "window_of bs = Option.bind (decodePowerProviderRA2 bs 4) id"

interpretation timers: record_codec timer_bytes timer_of 8 "\<lambda>t. True"
  by unfold_locales
    (simp_all add: timer_bytes_def timer_of_def encodeTimer_def decodeTimer_def memcpy_at_def rdn_def)

interpretation windows: record_codec window_bytes window_of 4 "\<lambda>w. True"
  by unfold_locales
    (simp_all add: window_bytes_def window_of_def encodePowerProviderRA2_def decodePowerProviderRA2_def
      memcpy_at_def rdn_def)

subsection \<open>A profile write seen from the other end of the transport\<close>

context element_transport
begin

lemma profile_write_received:
  assumes "ready a" "normal_profile p" "p_position p = 0" "48 \<le> limit"
  shows "\<exists>e a' b h. transfer a 2 kLsg 0x19 (write_body t ra si p) = Some (e, a') \<and> ready a' \<and>
     el_body e = Some b \<and> parseArrayWriteHeader b (el_bodyLen e) = Some (Some h) \<and>
     aw_asgId h = drop_bit 4 t \<and> aw_txn h = t AND 0xF \<and> aw_recordAddr h = ra \<and> aw_startIndex h = si \<and> aw_count h = 1 \<and>
     decodeProfile (aw_records h) (aw_recordsLen h) = Some (True, p)"
proof -
  define body where "body = write_body t ra si p"
  have name: "length (p_name p) = 25"
    using assms(2) by (simp add: normal_profile_def)
  have len: "length body \<le> limit" "body \<noteq> []"
    using length_profile_bytes_le [OF name] assms(4) by (simp_all add: body_def write_body_def)
  obtain a' where t: "ready a'" "transfer a 2 kLsg 0x19 body = Some (\<lparr>el_opcode = 2 AND 0xF, el_lsg = kLsg AND 0x3F,
      el_func = 0x19 AND 0x3F, el_bodyLen = word_of_nat (length body), el_body = Some body\<rparr>, a')"
    using transfer_ready [OF assms(1) _ len(1), of 2 kLsg "0x19"] len(2) by auto
  have "decodeProfile (profile_bytes p) (word_of_nat (length (profile_bytes p))) = Some (True, p)"
    using decodeProfile_bytes [OF assms(2,3), of "[]"] by simp
  then show ?thesis
    using t parse_write_body [OF name, of t ra si] unfolding body_def [symmetric] by auto
qed

end

subsection \<open>Properties\<close>

text \<open>Round trip of profile records: encoding a profile (name of at most 24 bytes, padded with
  zeros) into a buffer of 44 bytes or more writes 20 bytes and the name, and decoding what was
  written returns the profile.\<close>

theorem profile_round_trip:
  assumes "normal_profile p" "p_position p = 0" "44 \<le> cap" "cap \<le> length out"
  shows "\<exists>n out'. encodeProfile out cap p = Some (n, out') \<and> n = 20 + unat (p_nameLen p) \<and>
           drop n out' = drop n out \<and> decodeProfile out' (word_of_nat n) = Some (True, p)"
proof -
  have p: "length (p_name p) = 25" "name_len p = unat (p_nameLen p)"
    using assms(1) by (simp_all add: normal_profile_def name_len_def)
  show ?thesis
    using encodeProfile_bytes [OF p(1) assms(3,4)] length_profile_bytes [OF p(1)] p(2)
      decodeProfile_bytes [OF assms(1,2)] by simp
qed

definition sample_profile :: profile where
  "sample_profile = Profile\<lparr>p_operation := 6, p_maxCurrent := 13, p_minRange := 0x1234, p_temperatureRaw := 120,
     p_nameLen := 4, p_name := [0x48, 0x6F, 0x6D, 0x65] @ replicate 21 0\<rparr>"

lemma sample_profile_normal: "normal_profile sample_profile"
  by (simp add: normal_profile_def sample_profile_def Profile_def)

theorem profile_round_trip_witness:
  "\<exists>n out'. encodeProfile (replicate 45 0) 45 sample_profile = Some (n, out') \<and> n = 20 + unat (p_nameLen sample_profile) \<and>
           drop n out' = drop n (replicate 45 0) \<and> decodeProfile out' (word_of_nat n) = Some (True, sample_profile)"
  by (rule profile_round_trip [OF sample_profile_normal]) (simp_all add: sample_profile_def Profile_def)

text \<open>Decoding a profile array inverts its wire format, for small and large indices, with and
  without transmitted positions: the profiles come back with their positions, the flags say
  complete.\<close>

theorem array_round_trip:
  assumes "array_ok large pos start ps" "length ps \<le> maxOut"
    and "length (array_bytes aid tot large pos start ps) \<le> 0xFF00"
  shows "decodeProfileArray (array_bytes aid tot large pos start ps)
      (word_of_nat (length (array_bytes aid tot large pos start ps))) maxOut =
    Some (ps, \<lparr>ar_count = word_of_nat (length ps), ar_declared = word_of_nat (length ps), ar_complete = True,
               ar_truncated = False, ar_malformed = False\<rparr>)"
  using decodeProfileArray_array_bytes [OF assms] .

theorem array_round_trip_witness:
  "decodeProfileArray (array_bytes 0x29 2 False False 0 [sample_profile, sample_profile\<lparr>p_position := 1\<rparr>])
      (word_of_nat (length (array_bytes 0x29 2 False False 0 [sample_profile, sample_profile\<lparr>p_position := 1\<rparr>]))) 4 =
    Some ([sample_profile, sample_profile\<lparr>p_position := 1\<rparr>], \<lparr>ar_count = word_of_nat (length [sample_profile, sample_profile\<lparr>p_position := 1\<rparr>]),
      ar_declared = word_of_nat (length [sample_profile, sample_profile\<lparr>p_position := 1\<rparr>]), ar_complete = True,
               ar_truncated = False, ar_malformed = False\<rparr>)"
proof (rule array_round_trip)
  show "array_ok False False 0 [sample_profile, sample_profile\<lparr>p_position := 1\<rparr>]"
    using sample_profile_normal
    by (simp add: array_ok_def idx_ok_def less_Suc_eq All_less_Suc normal_profile_def) (simp add: sample_profile_def Profile_def)
  show "length (array_bytes 0x29 2 False False 0 [sample_profile, sample_profile\<lparr>p_position := 1\<rparr>]) \<le> 0xFF00"
    using sample_profile_normal
    by (simp add: array_bytes_def idx_bytes_def elem_bytes_def length_profile_bytes normal_profile_def name_len_def)
qed simp

text \<open>Error reporting of the array decoder on arbitrary bytes: it never leaves the body, fills at
  most \<open>maxOut\<close> and at most the declared number of profiles, and sets exactly one of the three
  outcome flags.\<close>

theorem array_decode_total:
  assumes "unat bodyLen \<le> length body" "unat bodyLen \<le> 0xFF00"
  shows "\<exists>ps res. decodeProfileArray body bodyLen maxOut = Some (ps, res) \<and> unat (ar_count res) = length ps \<and>
     length ps \<le> maxOut \<and> length ps \<le> unat (ar_declared res) \<and>
     (ar_complete res \<and> \<not> ar_truncated res \<and> \<not> ar_malformed res \<or>
      \<not> ar_complete res \<and> ar_truncated res \<and> \<not> ar_malformed res \<or>
      \<not> ar_complete res \<and> \<not> ar_truncated res \<and> ar_malformed res)"
  using decodeProfileArray_ensures [OF assms, of maxOut] by (fastforce simp: ensures_def)

theorem array_decode_total_witness:
  "\<exists>ps res. decodeProfileArray [0x29, 3, 0x40, 0, 3, 7] 6 4 = Some (ps, res) \<and> unat (ar_count res) = length ps \<and>
     length ps \<le> 4 \<and> length ps \<le> unat (ar_declared res) \<and>
     (ar_complete res \<and> \<not> ar_truncated res \<and> \<not> ar_malformed res \<or>
      \<not> ar_complete res \<and> ar_truncated res \<and> \<not> ar_malformed res \<or>
      \<not> ar_complete res \<and> \<not> ar_truncated res \<and> ar_malformed res)"
  by (rule array_decode_total) simp_all

text \<open>The decoder takes an array that ends inside its last compact record (record address 6) for
  complete: the skip runs past the body and latches the reader's error, but the loop then ends by
  its count.  The same cut in a full record is reported as malformed.\<close>

theorem truncated_compact_array_complete:
  "decodeProfileArray [0x29, 1, 0x06, 0, 1] 5 4 =
     Some ([], \<lparr>ar_count = 0, ar_declared = 1, ar_complete = True, ar_truncated = False, ar_malformed = False\<rparr>) \<and>
   map_option snd (decodeProfileArray [0x29, 1, 0x00, 0, 1] 5 4) =
     Some \<lparr>ar_count = 0, ar_declared = 1, ar_complete = False, ar_truncated = False, ar_malformed = True\<rparr>"
  by code_simp

text \<open>The requested charge current is snapped to the nearest setting the car offers (5, 10, 13 or
  32 A; the lower one on a tie), after a cap at 32 A.\<close>

theorem clamp_nearest_step:
  "clampMaxCurrent amps \<in> set kMaxCurrentSteps \<and> clampMaxCurrent amps \<le> 0x20 \<and>
   (\<forall>v \<in> set kMaxCurrentSteps.
      abs (int (min (unat amps) 32) - int (unat (clampMaxCurrent amps))) \<le> abs (int (min (unat amps) 32) - int (unat v)))"
proof -
  define n where "n = unat amps"
  show ?thesis
    unfolding clampMaxCurrent_steps n_def [symmetric] by (auto simp: kMaxCurrentSteps_def)
qed

theorem clamp_nearest_step_witness:
  "clampMaxCurrent 16 \<in> set kMaxCurrentSteps \<and>
   abs (int (min (unat (16 :: u16)) 32) - int (unat (clampMaxCurrent 16))) \<le> abs (int (min (unat (16 :: u16)) 32) - int (unat (0x20 :: u8)))"
  using clamp_nearest_step [of 16] by (simp add: kMaxCurrentSteps_def)



text \<open>Timer and night-rate records are recovered from their encoding, so no two different ones are
  sent as the same bytes.\<close>

theorem timer_window_injective:
  "timer_of (timer_bytes t @ ys) = Some t \<and> window_of (window_bytes w @ ys) = Some w \<and>
   (timer_bytes t = timer_bytes t' \<longleftrightarrow> t = t') \<and> (window_bytes w = window_bytes w' \<longleftrightarrow> w = w')"
  using timers.dec_enc windows.dec_enc timers.enc_inj windows.enc_inj by blast

text \<open>The rolling transaction id stays in 1..15 and differs from its predecessor.\<close>

theorem txn_rolls:
  "1 \<le> unat (txn_next t) \<and> unat (txn_next t) \<le> 15 \<and> txn_next t \<noteq> t \<and>
   asgTxnByte asg (txn_next t) \<noteq> asgTxnByte asg (txn_next (txn_next t))"
proof -
  have low: "x AND 0xF = x" if "unat x \<le> 15" for x :: u8
    using that by (simp add: and_masks take_bit_word_id)
  have "asgTxnByte asg (txn_next t) AND 0xF \<noteq> asgTxnByte asg (txn_next (txn_next t)) AND 0xF"
    using txn_next_range(2) [of t] txn_next_range(2) [of "txn_next t"] txn_next_changes [of "txn_next t"]
    by (simp add: asgTxnByte_fields low)
  then show ?thesis
    using txn_next_range [of t] txn_next_changes [of t] by auto
qed

end
