(* ===== verification/BatCtrl.thy ===== *)
theory BatCtrl
  imports BatteryControl
begin

section \<open>The battery controller: remote climate and charge\<close>

text \<open>
  The class \<open>VWeGolfBatteryControl\<close> of \<open>vehicle_vwegolf/src/vehicle_vwegolf_bat_ctrl.h\<close> and
  \<open>vehicle_vwegolf_bat_ctrl.cpp\<close>: a command state machine driven by the unit's replies and a
  one-second tick.  The record \<open>bctl\<close> holds the member variables under their names, the
  standard metrics the class reads and writes, the frames it has handed to the CAN driver and
  the user notifications it has raised.

  The driver (\<open>canbus::WriteExtended\<close>) is a parameter: its answer to a frame is any function of
  the frames written so far.  A metric set from a \<open>float\<close> holds the integer the float is made
  of: the charge limit in amps, the cabin setpoint in tenths of a degree.  Log output is left
  out.  \<open>None\<close> is an access outside a buffer or through a null body.
\<close>

datatype esp_err = ESP_OK | ESP_FAIL | ESP_QUEUED

type_synonym tx = "u32 \<times> u8 \<times> bytes"
type_synonym driver = "tx list \<Rightarrow> esp_err"

datatype bc_op = BC_CLIMATE | BC_CHARGE | BC_SET_CURRENT

datatype climate_phase =
  CP_IDLE | CP_WAKE | CP_HANDSHAKE | CP_PROFILE | CP_ARM_WAIT | CP_CONFIRM | CP_DONE

record bctl =
  m_bap_asm :: assembler_set
  m_profile0 :: profile
  m_txn :: u8
  m_phase :: climate_phase
  m_op :: bc_op
  m_param :: u8
  m_enable :: bool
  m_bcu_seen :: bool
  m_have_profile0 :: bool
  m_arm_skipped :: bool
  m_apply :: bool
  m_confirmed :: bool
  m_error :: bool
  m_tx_fail :: bool
  m_wake_hold :: u8
  m_phase_secs :: u8
  ms_v_env_hvac :: bool
  ms_v_charge_inprogress :: bool
  ms_v_charge_climit :: u8
  ms_v_env_cabinsetpoint :: int
  bc_tx :: "tx list"
  bc_notes :: "(string \<times> string) list"

definition VWEGOLF_NM_WAKE_NODE :: u8 where "VWEGOLF_NM_WAKE_NODE = 0x7D"
definition VWEGOLF_BATCTRL_WAKE_SECS :: u8 where "VWEGOLF_BATCTRL_WAKE_SECS = 20"
definition VWEGOLF_BATCTRL_RETRY_SECS :: u8 where "VWEGOLF_BATCTRL_RETRY_SECS = 2"

definition wake_id :: u32 where
  "wake_id = 0x1B000000 OR ucast VWEGOLF_NM_WAKE_NODE"

subsection \<open>CAN transmit\<close>

definition SendNmWake :: "bctl \<Rightarrow> bctl" where
  "SendNmWake s =
     s\<lparr>bc_tx := bc_tx s @ [(wake_id, 8, [VWEGOLF_NM_WAKE_NODE, 0x10, 0x49, 0x85, 0x14, 0x00, 0x00, 0x00])]\<rparr>"

text \<open>\<open>TxFrame\<close> as a frame sink over the list of written frames.\<close>

definition TxFrame :: "driver \<Rightarrow> tx list frame_sink" where
  "TxFrame drv log frame dlc =
     (let log' = log @ [(kCanIdCommand, dlc, frame)]; r = drv log'
      in (r = ESP_OK \<or> r = ESP_QUEUED, log'))"

definition SendHandshake :: "driver \<Rightarrow> bctl \<Rightarrow> (bool \<times> bctl) option" where
  "SendHandshake drv s = do {
     (tx1, g1) \<leftarrow> sendElementFn (TxFrame drv) (bc_tx s) (opcode_val OP_GET) kLsg (func_val FUNC_BAP_CONFIG) None 0 0;
     (tx2, g2) \<leftarrow> sendElementFn (TxFrame drv) tx1 (opcode_val OP_GET) kLsg (func_val FUNC_BAP_GETALL) None 0 0;
     if \<not> sr_ok g1 \<or> \<not> sr_ok g2 then Some (False, s\<lparr>bc_tx := tx2, m_tx_fail := True\<rparr>)
     else Some (True, s\<lparr>bc_tx := tx2\<rparr>) }"

definition SendProfileGet :: "driver \<Rightarrow> bctl \<Rightarrow> bool \<times> bctl" where
  "SendProfileGet drv s =
     (let txn = txn_next (m_txn s);
          (ok, tx') = TxFrame drv (bc_tx s) [0x80, 0x04, 0x19, 0x59, asgTxnByte kAsgIdOvms txn, 0x00, 0x00, 0x04] 8
      in if \<not> ok then (False, s\<lparr>m_txn := txn, bc_tx := tx', m_tx_fail := True\<rparr>)
         else (True, s\<lparr>m_txn := txn, bc_tx := tx'\<rparr>))"

text \<open>The record \<open>SendArm\<close> is about to write: the read-back with the command's field changed,
  then the hard clamp.\<close>

definition arm_charge_op :: "u8 \<Rightarrow> u8" where
  "arm_charge_op operation = (operation OR PO_CHARGING) AND NOT (PO_CLIMATE OR PO_ALLOW_BATTERY)"

definition arm_climate_op :: "u8 \<Rightarrow> u8" where
  "arm_climate_op operation = (operation OR PO_CLIMATE OR PO_ALLOW_BATTERY) AND NOT PO_CHARGING"

definition arm_profile :: "bctl \<Rightarrow> profile" where
  "arm_profile s =
     (let p = (case m_op s of
                 BC_CLIMATE \<Rightarrow> (m_profile0 s)\<lparr>p_operation := arm_climate_op (p_operation (m_profile0 s))\<rparr>
               | BC_CHARGE \<Rightarrow> (m_profile0 s)\<lparr>p_operation := arm_charge_op (p_operation (m_profile0 s))\<rparr>
               | BC_SET_CURRENT \<Rightarrow>
                   (let q = (m_profile0 s)\<lparr>p_maxCurrent := m_param s\<rparr>
                    in if m_apply s then q\<lparr>p_operation := arm_charge_op (p_operation q)\<rparr> else q))
      in if p_maxCurrent p > kMaxCurrentHardLimit then p\<lparr>p_maxCurrent := kMaxCurrentHardLimit\<rparr> else p)"

definition SendArm :: "driver \<Rightarrow> bctl \<Rightarrow> (bool \<times> bctl) option" where
  "SendArm drv s =
     (let p = arm_profile s
      in if m_op s \<noteq> BC_SET_CURRENT \<and> p_operation p = p_operation (m_profile0 s) \<and>
            p_maxCurrent p = p_maxCurrent (m_profile0 s)
         then Some (True, s\<lparr>m_arm_skipped := True\<rparr>)
         else do {
           (tx', r, txn) \<leftarrow> sendProfileWrite (TxFrame drv) (bc_tx s) (m_txn s) kAsgIdOvms 0 0 p;
           let s' = s\<lparr>m_arm_skipped := False, bc_tx := tx', m_txn := txn\<rparr>;
           if \<not> sr_ok r then Some (False, s'\<lparr>m_tx_fail := True\<rparr>) else Some (True, s') })"

definition SendTrigger :: "driver \<Rightarrow> bctl \<Rightarrow> bool \<Rightarrow> (bool \<times> bctl) option" where
  "SendTrigger drv s start = do {
     (tx', r) \<leftarrow> sendClimate (TxFrame drv) (bc_tx s) start;
     if \<not> sr_ok r then Some (False, s\<lparr>bc_tx := tx', m_tx_fail := True\<rparr>)
     else Some (True, s\<lparr>bc_tx := tx'\<rparr>) }"

subsection \<open>Command entry\<close>

definition Begin :: "bctl \<Rightarrow> bc_op \<Rightarrow> bool \<Rightarrow> u16 \<Rightarrow> bool \<times> bctl" where
  "Begin s op enable param =
     (True, SendNmWake (s\<lparr>m_op := op, m_param := ucast param, m_enable := enable,
        m_apply := (op = BC_SET_CURRENT \<and> ms_v_charge_inprogress s),
        m_confirmed := False, m_error := False, m_tx_fail := False, m_have_profile0 := False,
        m_arm_skipped := False, m_bcu_seen := False, m_phase := CP_WAKE, m_phase_secs := 0,
        m_wake_hold := VWEGOLF_BATCTRL_WAKE_SECS\<rparr>))"

definition Climate :: "bctl \<Rightarrow> bool \<Rightarrow> bool \<times> bctl" where
  "Climate s enable = Begin s BC_CLIMATE enable 0"

definition NotifyString :: "bctl \<Rightarrow> string \<Rightarrow> string \<Rightarrow> bctl" where
  "NotifyString s subtype msg = s\<lparr>bc_notes := bc_notes s @ [(subtype, msg)]\<rparr>"

definition Charge :: "bctl \<Rightarrow> bool \<Rightarrow> bool \<times> bctl" where
  "Charge s enable =
     (if \<not> enable \<and> ms_v_env_hvac s
      then (False, NotifyString s ''xvg.charge''
              (''Can't stop charging while climate is on '' @ [CHR 0xE2, CHR 0x80, CHR 0x94]
               @ '' stop climate first''))
      else Begin s BC_CHARGE enable 0)"

definition SetChargeCurrent :: "bctl \<Rightarrow> u16 \<Rightarrow> bool \<times> bctl" where
  "SetChargeCurrent s amps = Begin s BC_SET_CURRENT True (ucast (clampMaxCurrent amps))"

definition Abort :: "bctl \<Rightarrow> bctl" where
  "Abort s = s\<lparr>m_phase := CP_IDLE, m_wake_hold := 0\<rparr>"

definition WakeActive :: "bctl \<Rightarrow> bool" where
  "WakeActive s \<longleftrightarrow> m_wake_hold s > 0"

subsection \<open>The tick\<close>

text \<open>Where a read and armed profile leads: the same choice in the tick and on the reply.\<close>

definition after_arm :: "driver \<Rightarrow> bctl \<Rightarrow> bctl option" where
  "after_arm drv s =
     (if m_op s = BC_SET_CURRENT
      then Some (s\<lparr>m_phase := (if m_apply s then CP_ARM_WAIT else CP_CONFIRM)\<rparr>)
      else if m_arm_skipped s then do {
        (ok, s') \<leftarrow> SendTrigger drv s (m_enable s);
        Some (s'\<lparr>m_phase := CP_CONFIRM\<rparr>) }
      else Some (s\<lparr>m_phase := CP_ARM_WAIT\<rparr>))"

definition retry_step :: "driver \<Rightarrow> bctl \<Rightarrow> bctl option" where
  "retry_step drv s =
     (case m_phase s of
        CP_HANDSHAKE \<Rightarrow> do { (ok, s') \<leftarrow> SendHandshake drv s; Some s' }
      | CP_PROFILE \<Rightarrow>
          (if m_have_profile0 s then do {
             (ok, s') \<leftarrow> SendArm drv s;
             if ok then after_arm drv s' else Some s' }
           else Some (snd (SendProfileGet drv s)))
      | CP_ARM_WAIT \<Rightarrow> do { (ok, s') \<leftarrow> SendArm drv s; Some s' }
      | CP_CONFIRM \<Rightarrow>
          (if m_op s = BC_SET_CURRENT \<and> \<not> m_apply s then do { (ok, s') \<leftarrow> SendArm drv s; Some s' }
           else do { (ok, s') \<leftarrow> SendTrigger drv s (m_enable s); Some s' })
      | _ \<Rightarrow> Some s)"

definition failure_cause :: "bctl \<Rightarrow> string" where
  "failure_cause s =
     (if m_error s then ''rejected by the battery control unit''
      else if m_tx_fail s then ''CAN transmit error (try 'can can3 reset')''
      else if \<not> m_have_profile0 s then ''could not read the vehicle's profile (no response)''
      else ''no response from ECU (timeout)'')"

definition op_name :: "bc_op \<Rightarrow> string" where
  "op_name oper = (case oper of BC_CHARGE \<Rightarrow> ''Charge'' | BC_SET_CURRENT \<Rightarrow> ''SetChargeCurrent''
                            | BC_CLIMATE \<Rightarrow> ''Climate'')"

definition finish_command :: "bctl \<Rightarrow> bctl" where
  "finish_command s =
     (if m_confirmed s then s
      else NotifyString s (if m_op s = BC_CLIMATE then ''xvg.climate'' else ''xvg.charge'')
             (op_name (m_op s) @ '' command failed: '' @ failure_cause s))\<lparr>m_phase := CP_IDLE\<rparr>"

definition Ticker1 :: "driver \<Rightarrow> bctl \<Rightarrow> bool \<Rightarrow> bctl option" where
  "Ticker1 drv s0 bus_alive =
     (let s1 = (if \<not> bus_alive then s0\<lparr>ms_v_env_hvac := False\<rparr> else s0)
      in if m_phase s1 = CP_IDLE \<or> m_wake_hold s1 = 0 then Some s1
         else do {
           let s2 = SendNmWake s1;
           let s3 = s2\<lparr>m_phase_secs := m_phase_secs s2 + 1\<rparr>;
           s4 \<leftarrow> (if \<not> m_confirmed s3 \<and> m_phase_secs s3 \<ge> VWEGOLF_BATCTRL_RETRY_SECS
                  then retry_step drv (s3\<lparr>m_phase_secs := 0\<rparr>) else Some s3);
           let s5 = (if m_wake_hold s4 > 0 then s4\<lparr>m_wake_hold := m_wake_hold s4 - 1\<rparr> else s4);
           Some (if m_wake_hold s5 = 0 then finish_command s5 else s5) })"

subsection \<open>Incoming frames\<close>

definition body_byte :: "element \<Rightarrow> nat \<Rightarrow> u8 option" where
  "body_byte el i = (case el_body el of None \<Rightarrow> None | Some b \<Rightarrow> rd b i)"

definition hold_at_most :: "u8 \<Rightarrow> bctl \<Rightarrow> bctl" where
  "hold_at_most n s = (if m_wake_hold s > n then s\<lparr>m_wake_hold := n\<rparr> else s)"

text \<open>The reply to our own array write, and the reply to our own array read.\<close>

definition write_echo :: "driver \<Rightarrow> bctl \<Rightarrow> bctl option" where
  "write_echo drv s =
     (if m_op s = BC_SET_CURRENT then do {
        let s1 = s\<lparr>ms_v_charge_climit := m_param s\<rparr>;
        if m_apply s1 \<and> m_phase s1 = CP_ARM_WAIT then do {
          (ok, s2) \<leftarrow> SendTrigger drv s1 True;
          Some (s2\<lparr>m_phase := CP_CONFIRM, m_phase_secs := 0\<rparr>) }
        else if \<not> m_apply s1 \<and> m_phase s1 = CP_CONFIRM
          then Some (hold_at_most 2 (s1\<lparr>m_confirmed := True, m_phase := CP_DONE\<rparr>))
        else Some s1 }
      else if m_phase s = CP_ARM_WAIT then do {
        (ok, s1) \<leftarrow> SendTrigger drv s (m_enable s);
        Some (s1\<lparr>m_phase := CP_CONFIRM, m_phase_secs := 0\<rparr>) }
      else Some s)"

definition read_reply :: "driver \<Rightarrow> bctl \<Rightarrow> element \<Rightarrow> bctl option" where
  "read_reply drv s el =
     (if m_phase s = CP_PROFILE \<and> \<not> m_have_profile0 s \<and> el_bodyLen el \<ge> 6 then do {
        body \<leftarrow> el_body el;
        (profs, ares) \<leftarrow> decodeProfileArray body (el_bodyLen el) 4;
        case (if ar_malformed ares then None else List.find (\<lambda>p. p_position p = 0) profs) of
          None \<Rightarrow> Some s
        | Some p \<Rightarrow> do {
            let s1 = s\<lparr>m_profile0 := p, m_have_profile0 := True\<rparr>;
            let s2 = (if m_op s1 \<noteq> BC_SET_CURRENT then s1\<lparr>ms_v_charge_climit := p_maxCurrent p\<rparr> else s1);
            let s3 = (if p_temperatureRaw p \<noteq> 0xFF
                      then s2\<lparr>ms_v_env_cabinsetpoint := rawToDeciDegC (p_temperatureRaw p)\<rparr> else s2);
            (ok, s4) \<leftarrow> SendArm drv s3;
            if \<not> ok then Some s4
            else do { s5 \<leftarrow> after_arm drv s4; Some (s5\<lparr>m_phase_secs := 0\<rparr>) } } }
      else Some s)"

definition array_status :: "driver \<Rightarrow> bctl \<Rightarrow> element \<Rightarrow> bctl option" where
  "array_status drv s el =
     (if el_bodyLen el < 1 \<or> el_body el = None then Some s
      else do {
        lead \<leftarrow> body_byte el 0;
        if (drop_bit 4 lead) AND 0x07 \<noteq> kAsgIdOvms then Some s
        else if lead AND 0x80 \<noteq> 0 then write_echo drv s
        else read_reply drv s el })"

definition is_opmode :: "element \<Rightarrow> bool" where
  "is_opmode el \<longleftrightarrow> el_opcode el = opcode_val OP_STATUS \<and> el_func el = func_val FUNC_OPERATION_MODE \<and>
     el_bodyLen el \<ge> 1"

definition on_opmode :: "bctl \<Rightarrow> element \<Rightarrow> bctl option" where
  "on_opmode s el = do {
     b0 \<leftarrow> body_byte el 0;
     let s1 = (if m_phase s \<noteq> CP_DONE then s\<lparr>m_error := False\<rparr> else s);
     Some (if m_op s1 = BC_CLIMATE then s1\<lparr>ms_v_env_hvac := (b0 \<noteq> 0)\<rparr> else s1) }"

definition confirm_opmode :: "bctl \<Rightarrow> element \<Rightarrow> bctl option" where
  "confirm_opmode s el =
     (if (m_op s = BC_CLIMATE \<or> m_op s = BC_CHARGE \<or> (m_op s = BC_SET_CURRENT \<and> m_apply s)) \<and>
         m_phase s = CP_CONFIRM
      then do {
        b0 \<leftarrow> body_byte el 0;
        Some (if (b0 \<noteq> 0) = m_enable s
              then hold_at_most 2 (s\<lparr>m_confirmed := True, m_phase := CP_DONE\<rparr>) else s) }
      else Some s)"

text \<open>What a complete telegram of the unit does.\<close>

definition on_element :: "driver \<Rightarrow> bctl \<Rightarrow> element \<Rightarrow> bctl option" where
  "on_element drv s0 el = do {
     let s1 = s0\<lparr>m_tx_fail := False\<rparr>;
     s2 \<leftarrow> (if is_opmode el then on_opmode s1 el else Some s1);
     if m_phase s2 = CP_WAKE then do {
       (ok, s3) \<leftarrow> SendHandshake drv s2;
       Some (s3\<lparr>m_phase := CP_HANDSHAKE, m_phase_secs := 0\<rparr>) }
     else if m_phase s2 = CP_HANDSHAKE \<and> el_opcode el = opcode_val OP_STATUS \<and>
             (el_func el = func_val FUNC_BAP_GETALL \<or> el_func el = func_val FUNC_BAP_CONFIG)
     then Some ((snd (SendProfileGet drv s2))\<lparr>m_phase := CP_PROFILE, m_phase_secs := 0\<rparr>)
     else if el_opcode el = opcode_val OP_ERROR
     then Some (hold_at_most 1 (s2\<lparr>m_error := True, m_phase := CP_DONE\<rparr>))
     else if is_opmode el then confirm_opmode s2 el
     else if el_opcode el = opcode_val OP_STATUS \<and> el_func el = func_val FUNC_PROFILES_ARRAY
     then array_status drv s2 el
     else Some s2 }"

definition IncomingBapStatus :: "driver \<Rightarrow> bctl \<Rightarrow> u32 \<Rightarrow> u8 \<Rightarrow> bytes \<Rightarrow> bctl option" where
  "IncomingBapStatus drv s0 MsgID DLC d = do {
     let s1 = (if \<not> m_bcu_seen s0 then s0\<lparr>m_bap_asm := aset_reset (m_bap_asm s0)\<rparr> else s0);
     let s2 = s1\<lparr>m_bcu_seen := True\<rparr>;
     (fed, asms) \<leftarrow> aset_feed 224 (m_bap_asm s2) MsgID d DLC;
     let s3 = s2\<lparr>m_bap_asm := asms\<rparr>;
     case fed of
       None \<Rightarrow> Some s3
     | Some el \<Rightarrow> if el_lsg el \<noteq> kLsg then Some s3 else on_element drv s3 el }"

definition IncomingClimaEcuStatus :: "bctl \<Rightarrow> bytes \<Rightarrow> bctl option" where
  "IncomingClimaEcuStatus s d = do {
     d3 \<leftarrow> rd d 3;
     Some (s\<lparr>ms_v_env_hvac := (d3 AND 0x08 \<noteq> 0)\<rparr>) }"

subsection \<open>The frames each operation hands to the driver\<close>

definition cmd_tx :: "bytes \<times> u8 \<Rightarrow> tx" where
  "cmd_tx f = (kCanIdCommand, snd f, fst f)"

lemma offer_TxFrame:
  "offer (TxFrame drv) log fs = (log', k, all) \<Longrightarrow> \<exists>j. log' = log @ map cmd_tx (take j fs)"
proof (induction fs arbitrary: log log' k all)
  case Nil
  then show ?case
    by (intro exI [of _ 0]) simp
next
  case (Cons f fs)
  define log1 where "log1 = log @ [cmd_tx f]"
  obtain taken where t: "TxFrame drv log (fst f) (snd f) = (taken, log1)"
    by (simp add: TxFrame_def log1_def cmd_tx_def Let_def)
  show ?case
  proof (cases taken)
    case True
    obtain l2 k2 a2 where o: "offer (TxFrame drv) log1 fs = (l2, k2, a2)"
      by (metis prod_cases3)
    from Cons.IH [OF o] obtain j where "l2 = log1 @ map cmd_tx (take j fs)"
      by blast
    then show ?thesis
      using Cons.prems t True o by (intro exI [of _ "Suc j"]) (simp add: log1_def)
  next
    case False
    then show ?thesis
      using Cons.prems t by (intro exI [of _ 1]) (simp add: log1_def)
  qed
qed

definition handshake_frame :: "tx \<Rightarrow> bool" where
  "handshake_frame f \<longleftrightarrow> f \<in> cmd_tx ` (set (telegram 1 kLsg 0x02 [] 0) \<union> set (telegram 1 kLsg 0x01 [] 0))"

definition get_frame :: "tx \<Rightarrow> bool" where
  "get_frame f \<longleftrightarrow> (\<exists>t. f = cmd_tx ([0x80, 0x04, 0x19, 0x59, t, 0, 0, 4], 8))"

definition trigger_frame :: "tx \<Rightarrow> bool" where
  "trigger_frame f \<longleftrightarrow> (\<exists>b. f \<in> cmd_tx ` set (telegram 2 kLsg 0x18 [0, b] 0))"

definition write_frame :: "tx \<Rightarrow> bool" where
  "write_frame f \<longleftrightarrow>
     (\<exists>t p. p_maxCurrent p \<le> kMaxCurrentHardLimit \<and> length (p_name p) = 25 \<and>
            f \<in> cmd_tx ` set (telegram 2 kLsg 0x19 (write_body t 0 0 p) 0))"

lemma set_cmd_tx: "f \<in> set (map cmd_tx (take j fs)) \<Longrightarrow> f \<in> cmd_tx ` set fs"
  by (auto dest: in_set_takeD)

lemma ensures_SendHandshake:
  assumes "\<And>ok new tf. \<forall>f \<in> set new. handshake_frame f \<Longrightarrow>
             ensures (g ok (s\<lparr>bc_tx := bc_tx s @ new, m_tx_fail := tf\<rparr>)) Q"
  shows "ensures (SendHandshake drv s \<bind> (\<lambda>(ok, s'). g ok s')) Q"
proof -
  obtain l1 k1 a1 where o1: "offer (TxFrame drv) (bc_tx s) (telegram 1 kLsg 0x02 [] 0) = (l1, k1, a1)"
    by (metis prod_cases3)
  obtain l2 k2 a2 where o2: "offer (TxFrame drv) l1 (telegram 1 kLsg 0x01 [] 0) = (l2, k2, a2)"
    by (metis prod_cases3)
  obtain j1 j2 where "l2 = bc_tx s @ map cmd_tx (take j1 (telegram 1 kLsg 0x02 [] 0))
      @ map cmd_tx (take j2 (telegram 1 kLsg 0x01 [] 0))"
    using offer_TxFrame [OF o1] offer_TxFrame [OF o2] by auto
  moreover define new where "new = map cmd_tx (take j1 (telegram 1 kLsg 0x02 [] 0))
      @ map cmd_tx (take j2 (telegram 1 kLsg 0x01 [] 0))"
  ultimately have l2: "l2 = bc_tx s @ new"
    by simp
  have "\<forall>f \<in> set new. handshake_frame f"
    unfolding new_def handshake_frame_def by (auto dest: in_set_takeD)
  note post = assms [OF this]
  have "\<exists>ok tf. SendHandshake drv s = Some (ok, s\<lparr>bc_tx := bc_tx s @ new, m_tx_fail := tf\<rparr>)"
    by (auto simp: SendHandshake_def send_get_spec o1 o2 l2 intro: exI [of _ "m_tx_fail s"])
  then show ?thesis
    using post by auto
qed

lemma ensures_SendTrigger:
  assumes "\<And>ok new tf. \<forall>f \<in> set new. trigger_frame f \<Longrightarrow>
             ensures (g ok (s\<lparr>bc_tx := bc_tx s @ new, m_tx_fail := tf\<rparr>)) Q"
  shows "ensures (SendTrigger drv s b \<bind> (\<lambda>(ok, s'). g ok s')) Q"
proof -
  let ?t = "telegram 2 kLsg 0x18 [0, if b then 1 else 0] 0"
  obtain l1 k1 a1 where o1: "offer (TxFrame drv) (bc_tx s) ?t = (l1, k1, a1)"
    by (metis prod_cases3)
  from offer_TxFrame [OF this] obtain j where l1: "l1 = bc_tx s @ map cmd_tx (take j ?t)"
    by blast
  have "\<forall>f \<in> set (map cmd_tx (take j ?t)). trigger_frame f"
    unfolding trigger_frame_def using set_cmd_tx by blast
  note post = assms [OF this]
  have "\<exists>ok tf. SendTrigger drv s b = Some (ok, s\<lparr>bc_tx := bc_tx s @ map cmd_tx (take j ?t), m_tx_fail := tf\<rparr>)"
    by (auto simp: SendTrigger_def sendClimate_spec o1 l1 intro: exI [of _ "m_tx_fail s"])
  then show ?thesis
    using post by auto
qed

lemma arm_profile_limit: "p_maxCurrent (arm_profile s) \<le> kMaxCurrentHardLimit"
  by (simp add: arm_profile_def Let_def not_less)

lemma arm_profile_name [simp]: "p_name (arm_profile s) = p_name (m_profile0 s)"
  by (simp add: arm_profile_def Let_def split: bc_op.splits)

lemma ensures_SendArm:
  assumes name: "length (p_name (m_profile0 s)) = 25"
    and post: "\<And>ok new tf txn skipped. \<forall>f \<in> set new. write_frame f \<Longrightarrow>
      ensures (g ok (s\<lparr>bc_tx := bc_tx s @ new, m_tx_fail := tf, m_txn := txn, m_arm_skipped := skipped\<rparr>)) Q"
  shows "ensures (SendArm drv s \<bind> (\<lambda>(ok, s'). g ok s')) Q"
proof -
  let ?t = "telegram 2 kLsg 0x19 (write_body (asgTxnByte kAsgIdOvms (txn_next (m_txn s))) 0 0 (arm_profile s)) 0"
  obtain l1 k1 a1 where o1: "offer (TxFrame drv) (bc_tx s) ?t = (l1, k1, a1)"
    by (metis prod_cases3)
  from offer_TxFrame [OF this] obtain j where l1: "l1 = bc_tx s @ map cmd_tx (take j ?t)"
    by blast
  have frames: "\<forall>f \<in> set (map cmd_tx (take j ?t)). write_frame f"
    unfolding write_frame_def using set_cmd_tx arm_profile_limit name arm_profile_name by metis
  have name': "length (p_name (arm_profile s)) = 25"
    using name by simp
  have "\<exists>ok new tf txn sk. (\<forall>f \<in> set new. write_frame f) \<and> SendArm drv s =
      Some (ok, s\<lparr>bc_tx := bc_tx s @ new, m_tx_fail := tf, m_txn := txn, m_arm_skipped := sk\<rparr>)"
  proof (cases "m_op s \<noteq> BC_SET_CURRENT \<and> p_operation (arm_profile s) = p_operation (m_profile0 s) \<and>
            p_maxCurrent (arm_profile s) = p_maxCurrent (m_profile0 s)")
    case True
    then show ?thesis
      by (intro exI [of _ True] exI [of _ "[]"] exI [of _ "m_tx_fail s"] exI [of _ "m_txn s"])
        (auto simp: SendArm_def Let_def)
  next
    case False
    then show ?thesis
      using frames
      by (intro exI [of _ "sr_ok (send_outcome k1 a1)"] exI [of _ "map cmd_tx (take j ?t)"]
          exI [of _ "if sr_ok (send_outcome k1 a1) then m_tx_fail s else True"] exI [of _ "txn_next (m_txn s)"] exI [of _ False])
        (auto simp: SendArm_def Let_def sendProfileWrite_spec [OF name'] o1 l1)
  qed
  then show ?thesis
    using post by auto
qed

lemma SendProfileGet_frames:
  "\<exists>tf new. (\<forall>f \<in> set new. get_frame f) \<and>
     snd (SendProfileGet drv s) = s\<lparr>bc_tx := bc_tx s @ new, m_tx_fail := tf, m_txn := txn_next (m_txn s)\<rparr>"
  by (intro exI [of _ "if fst (SendProfileGet drv s) then m_tx_fail s else True"]
      exI [of _ "[cmd_tx ([0x80, 0x04, 0x19, 0x59, asgTxnByte kAsgIdOvms (txn_next (m_txn s)), 0, 0, 4], 8)]"])
    (auto simp: SendProfileGet_def TxFrame_def cmd_tx_def get_frame_def Let_def)

subsection \<open>The protocol automaton\<close>

text \<open>The phases a command may move between on a reply or a tick; a rejection ends it.\<close>

inductive phase_next :: "climate_phase \<Rightarrow> climate_phase \<Rightarrow> bool" where
  stay [intro!, simp]: "phase_next p p"
| heard [intro!, simp]: "phase_next CP_WAKE CP_HANDSHAKE"
| acked [intro!, simp]: "phase_next CP_HANDSHAKE CP_PROFILE"
| armed [intro!, simp]: "phase_next CP_PROFILE CP_ARM_WAIT"
| armed_now [intro!, simp]: "phase_next CP_PROFILE CP_CONFIRM"
| written [intro!, simp]: "phase_next CP_ARM_WAIT CP_CONFIRM"
| ended [intro]: "p \<noteq> CP_WAKE \<Longrightarrow> phase_next p CP_DONE"

inductive_cases phase_nextE: "phase_next p q"

inductive_simps phase_next_idle [simp]: "phase_next CP_IDLE q"
inductive_simps phase_next_done [simp]: "phase_next CP_DONE q"
inductive_simps phase_next_confirm [simp]: "phase_next CP_CONFIRM q"
inductive_simps phase_next_to_done [simp]: "phase_next p CP_DONE"

text \<open>Which frames a reply or a retry in state \<open>s\<close> may send, \<open>s'\<close> being the state it leads to.\<close>

definition cmd_frame_ok :: "bctl \<Rightarrow> bctl \<Rightarrow> tx \<Rightarrow> bool" where
  "cmd_frame_ok s s' f \<longleftrightarrow>
     handshake_frame f \<and> (m_phase s = CP_WAKE \<or> m_phase s = CP_HANDSHAKE)
   \<or> get_frame f \<and> (m_phase s = CP_HANDSHAKE \<or> m_phase s = CP_PROFILE)
   \<or> (trigger_frame f \<or> write_frame f) \<and> m_have_profile0 s' \<and>
       (m_phase s = CP_PROFILE \<or> m_phase s = CP_ARM_WAIT \<or> m_phase s = CP_CONFIRM)"

definition gate :: "bctl \<Rightarrow> bool" where
  "gate s \<longleftrightarrow> length (p_name (m_profile0 s)) = 25 \<and>
     (m_phase s = CP_ARM_WAIT \<or> m_phase s = CP_CONFIRM \<longrightarrow> m_have_profile0 s)"

definition bc_rel :: "bctl \<Rightarrow> bctl \<Rightarrow> bool" where
  "bc_rel s s' \<longleftrightarrow>
     (\<exists>new. bc_tx s' = bc_tx s @ new \<and> (\<forall>f \<in> set new. cmd_frame_ok s s' f)) \<and>
     phase_next (m_phase s) (m_phase s') \<and> gate s' \<and>
     m_bap_asm s' = m_bap_asm s \<and> m_wake_hold s' \<le> m_wake_hold s \<and> bc_notes s' = bc_notes s \<and>
     m_op s' = m_op s \<and> m_param s' = m_param s \<and> m_enable s' = m_enable s \<and> m_apply s' = m_apply s \<and>
     (m_have_profile0 s \<longrightarrow> m_have_profile0 s') \<and> (m_confirmed s \<longrightarrow> m_confirmed s')"

lemma hold_at_most_le: "m_wake_hold (hold_at_most n s) \<le> m_wake_hold s"
  by (auto simp: hold_at_most_def)

lemma hold_at_most_fields [simp]:
  "bc_tx (hold_at_most n s) = bc_tx s" "m_phase (hold_at_most n s) = m_phase s" "m_profile0 (hold_at_most n s) = m_profile0 s"
  "m_have_profile0 (hold_at_most n s) = m_have_profile0 s" "m_bap_asm (hold_at_most n s) = m_bap_asm s"
  "bc_notes (hold_at_most n s) = bc_notes s" "m_op (hold_at_most n s) = m_op s" "m_param (hold_at_most n s) = m_param s"
  "m_enable (hold_at_most n s) = m_enable s" "m_apply (hold_at_most n s) = m_apply s"
  "m_confirmed (hold_at_most n s) = m_confirmed s" "gate (hold_at_most n s) = gate s" "m_error (hold_at_most n s) = m_error s"
  by (simp_all add: hold_at_most_def gate_def)

lemmas bc_rel_simps = bc_rel_def cmd_frame_ok_def gate_def hold_at_most_def

lemma write_echo_rel:
  assumes "gate s"
  shows "ensures (write_echo drv s) (bc_rel s)"
  using assms unfolding write_echo_def Let_def
  by (auto intro!: ensures_SendTrigger simp: bc_rel_simps)

lemma ensures_after_arm:
  assumes "\<And>new tf ph. \<lbrakk>\<forall>f \<in> set new. trigger_frame f; ph = CP_ARM_WAIT \<or> ph = CP_CONFIRM\<rbrakk> \<Longrightarrow>
      ensures (g (s\<lparr>bc_tx := bc_tx s @ new, m_tx_fail := tf, m_phase := ph\<rparr>)) Q"
  shows "ensures (after_arm drv s \<bind> g) Q"
proof -
  have "ensures (after_arm drv s) (\<lambda>s'. \<exists>new tf ph. (\<forall>f \<in> set new. trigger_frame f) \<and> (ph = CP_ARM_WAIT \<or> ph = CP_CONFIRM) \<and>
      s' = s\<lparr>bc_tx := bc_tx s @ new, m_tx_fail := tf, m_phase := ph\<rparr>)"
  proof (cases "m_op s \<noteq> BC_SET_CURRENT \<and> m_arm_skipped s")
    case True
    then show ?thesis
      unfolding after_arm_def by (auto intro!: ensures_SendTrigger) blast
  next
    case False
    then show ?thesis
      unfolding after_arm_def
      by (auto intro!: exI [of _ "[]"] exI [of _ "m_tx_fail s"])
  qed
  then show ?thesis
    by (rule ensures_bindI) (use assms in auto)
qed

lemma read_reply_rel:
  assumes "gate s" "el_inv el" "el_body el \<noteq> None"
  shows "ensures (read_reply drv s el) (bc_rel s)"
proof (cases "m_phase s = CP_PROFILE \<and> \<not> m_have_profile0 s \<and> el_bodyLen el \<ge> 6")
  case False
  then show ?thesis
    using assms(1) by (auto simp: read_reply_def bc_rel_simps)
next
  case True
  obtain b where b: "el_body el = Some b" "unat (el_bodyLen el) \<le> length b" "unat (el_bodyLen el) \<le> 0xFF00"
    using assms(2,3) by (auto simp: el_inv_def)
  obtain ps res where d: "decodeProfileArray b (el_bodyLen el) 4 = Some (ps, res)" "\<forall>p \<in> set ps. length (p_name p) = 25"
    using decodeProfileArray_ensures [OF b(2,3), of 4] by (auto simp: ensures_def)
  show ?thesis
  proof (cases "if ar_malformed res then None else List.find (\<lambda>p. p_position p = 0) ps")
    case None
    then show ?thesis
      using True assms(1) b(1) d(1) by (auto simp: read_reply_def bc_rel_simps)
  next
    case (Some p)
    then have p: "p \<in> set ps"
      by (auto simp: find_Some_iff split: if_splits)
    define s3 where "s3 = (let s1 = s\<lparr>m_profile0 := p, m_have_profile0 := True\<rparr>;
        s2 = (if m_op s1 \<noteq> BC_SET_CURRENT then s1\<lparr>ms_v_charge_climit := p_maxCurrent p\<rparr> else s1)
      in if p_temperatureRaw p \<noteq> 0xFF then s2\<lparr>ms_v_env_cabinsetpoint := rawToDeciDegC (p_temperatureRaw p)\<rparr> else s2)"
    have s3: "bc_tx s3 = bc_tx s" "m_phase s3 = CP_PROFILE" "m_profile0 s3 = p" "m_have_profile0 s3" "m_bap_asm s3 = m_bap_asm s"
      "m_wake_hold s3 = m_wake_hold s" "bc_notes s3 = bc_notes s" "m_op s3 = m_op s" "m_param s3 = m_param s"
      "m_enable s3 = m_enable s" "m_apply s3 = m_apply s" "m_confirmed s3 = m_confirmed s"
      using True by (simp_all add: s3_def Let_def)
    have "ensures (SendArm drv s3 \<bind> (\<lambda>(ok, s4). if \<not> ok then Some s4
        else after_arm drv s4 \<bind> (\<lambda>s5. Some (s5\<lparr>m_phase_secs := 0\<rparr>)))) (bc_rel s)"
      using True assms(1) p d(2)
      by (intro ensures_SendArm ensures_if ensures_after_arm) (auto simp: s3 bc_rel_simps)
    then show ?thesis
      using True b(1) d(1) Some by (simp add: read_reply_def s3_def Let_def)
  qed
qed

lemma body_byte_ensures:
  assumes "el_inv el" "el_bodyLen el \<ge> 1"
  obtains b where "body_byte el 0 = Some b"
proof -
  have "el_bodyLen el \<noteq> 0"
    using assms(2) by (auto simp: word_le_nat_alt)
  then show ?thesis
    using assms that by (auto simp: el_inv_def body_byte_def rd_def word_le_nat_alt split: option.splits)
qed

lemma array_status_rel:
  assumes "gate s" "el_inv el"
  shows "ensures (array_status drv s el) (bc_rel s)"
proof (cases "el_bodyLen el < 1 \<or> el_body el = None")
  case True
  then show ?thesis
    using assms by (auto simp: array_status_def bc_rel_simps)
next
  case False
  then obtain b where "body_byte el 0 = Some b"
    using body_byte_ensures [OF assms(2)] by (auto simp: not_less word_le_nat_alt Suc_le_eq unat_gt_0)
  then show ?thesis
    using False write_echo_rel [OF assms(1)] read_reply_rel [OF assms] assms(1)
    by (auto simp: array_status_def bc_rel_simps)
qed

lemma on_opmode_eq:
  assumes "body_byte el 0 = Some b"
  shows "on_opmode s el = Some (s\<lparr>m_error := (m_error s \<and> m_phase s = CP_DONE),
            ms_v_env_hvac := (if m_op s = BC_CLIMATE then b \<noteq> 0 else ms_v_env_hvac s)\<rparr>)"
  using assms by (simp add: on_opmode_def Let_def)

lemma on_element_rel:
  assumes "gate s0" "el_inv el"
  shows "ensures (on_element drv s0 el) (bc_rel s0)"
proof -
  obtain e h where "(if is_opmode el then on_opmode (s0\<lparr>m_tx_fail := False\<rparr>) el else Some (s0\<lparr>m_tx_fail := False\<rparr>))
      = Some (s0\<lparr>m_tx_fail := False, m_error := e, ms_v_env_hvac := h\<rparr>)"
  proof (cases "is_opmode el")
    case True
    then obtain b where "body_byte el 0 = Some b"
      using body_byte_ensures [OF assms(2)] by (auto simp: is_opmode_def)
    then show ?thesis
      using True that by (simp add: on_opmode_eq)
  next
    case False
    then show ?thesis
      using that [where e = "m_error s0" and h = "ms_v_env_hvac s0"] by simp
  qed
  moreover define s2 where "s2 = s0\<lparr>m_tx_fail := False, m_error := e, ms_v_env_hvac := h\<rparr>"
  ultimately have start: "(if is_opmode el then on_opmode (s0\<lparr>m_tx_fail := False\<rparr>) el else Some (s0\<lparr>m_tx_fail := False\<rparr>)) = Some s2"
    by simp
  have s2: "bc_tx s2 = bc_tx s0" "m_phase s2 = m_phase s0" "m_profile0 s2 = m_profile0 s0" "m_have_profile0 s2 = m_have_profile0 s0"
    "m_bap_asm s2 = m_bap_asm s0" "m_wake_hold s2 = m_wake_hold s0" "bc_notes s2 = bc_notes s0" "m_op s2 = m_op s0"
    "m_param s2 = m_param s0" "m_enable s2 = m_enable s0" "m_apply s2 = m_apply s0" "m_confirmed s2 = m_confirmed s0"
    by (simp_all add: s2_def)
  have g2: "gate s2"
    using assms(1) by (simp add: gate_def s2)
  have rel: "bc_rel s2 s' \<Longrightarrow> bc_rel s0 s'" for s'
    by (simp add: bc_rel_def cmd_frame_ok_def s2)
  have conf: "ensures (confirm_opmode s2 el) (bc_rel s2)" if io: "is_opmode el"
  proof -
    obtain b where "body_byte el 0 = Some b"
      using body_byte_ensures [OF assms(2)] io by (auto simp: is_opmode_def)
    then show ?thesis
      using g2 by (auto simp: confirm_opmode_def bc_rel_simps)
  qed
  consider "m_phase s2 = CP_WAKE" | "m_phase s2 \<noteq> CP_WAKE" "m_phase s2 = CP_HANDSHAKE" "el_opcode el = opcode_val OP_STATUS"
      "el_func el = func_val FUNC_BAP_GETALL \<or> el_func el = func_val FUNC_BAP_CONFIG"
    | "m_phase s2 \<noteq> CP_WAKE" "\<not> (m_phase s2 = CP_HANDSHAKE \<and> el_opcode el = opcode_val OP_STATUS \<and>
        (el_func el = func_val FUNC_BAP_GETALL \<or> el_func el = func_val FUNC_BAP_CONFIG))"
    by blast
  then have "ensures (on_element drv s0 el) (bc_rel s2)"
  proof cases
    case 1
    then show ?thesis
      using g2 unfolding on_element_def Let_def start bind.bind_lunit
      by (auto intro!: ensures_SendHandshake simp: bc_rel_simps)
  next
    case 2
    obtain tf new where "\<forall>f \<in> set new. get_frame f"
      "snd (SendProfileGet drv s2) = s2\<lparr>bc_tx := bc_tx s2 @ new, m_tx_fail := tf, m_txn := txn_next (m_txn s2)\<rparr>"
      using SendProfileGet_frames by blast
    with 2 show ?thesis
      using g2 unfolding on_element_def Let_def start bind.bind_lunit
      by (simp add: bc_rel_simps)
  next
    case 3
    then show ?thesis
      using g2 conf array_status_rel [OF g2 assms(2), of drv] unfolding on_element_def Let_def start bind.bind_lunit
      by (auto simp: bc_rel_simps)
  qed
  then show ?thesis
    by (rule ensures_mono) (rule rel)
qed

subsection \<open>No frame asks for more than 32 A\<close>

text \<open>
  Byte 3 of the first continuation (control byte \<open>0xC0\<close>) of a profile write is the record's
  \<open>maxCurrent\<close>: the write body is four header bytes and the record, and the start frame takes
  four of them.
\<close>

definition safe_frame :: "tx \<Rightarrow> bool" where
  "safe_frame f \<longleftrightarrow>
     (case f of (i, dlc, d) \<Rightarrow> (i = wake_id \<or> i = kCanIdCommand) \<and> (d ! 0 = 0xC0 \<longrightarrow> d ! 3 \<le> kMaxCurrentHardLimit))"

lemma cont_ctrl_small: "i < 16 \<Longrightarrow> cont_ctrl 0 (word_of_nat i) = 0xC0 \<longleftrightarrow> i = 0"
proof -
  assume "i < 16"
  then have "i \<in> set [0 ..< 16]"
    by simp
  moreover have "\<forall>i \<in> set [0 ..< 16]. cont_ctrl 0 (word_of_nat i) = 0xC0 \<longleftrightarrow> i = 0"
    by code_simp
  ultimately show ?thesis
    by blast
qed

lemma and_15_small: "i < 16 \<Longrightarrow> (word_of_nat i :: u8) AND 0xF = word_of_nat i"
proof -
  assume "i < 16"
  then have "i \<in> set [0 ..< 16]"
    by simp
  moreover have "\<forall>i \<in> set [0 ..< 16]. (word_of_nat i :: u8) AND 0xF = word_of_nat i"
    by code_simp
  ultimately show ?thesis
    by blast
qed

lemma later_cont_ctrl:
  "\<lbrakk>f \<in> set (cont_frames 0 body off (word_of_nat i)); length body - off \<le> 7 * m; 0 < i; i + m \<le> 15\<rbrakk> \<Longrightarrow>
   fst f ! 0 \<noteq> 0xC0"
proof (induction m arbitrary: off i)
  case 0
  then have "cont_frames 0 body off (word_of_nat i) = []"
    by (subst cont_frames.simps) simp
  then show ?case
    using 0 by simp
next
  case (Suc m)
  show ?case
  proof (cases "off < length body")
    case True
    have inc: "((word_of_nat i :: u8) + 1) AND 0xF = word_of_nat (Suc i)"
      using and_15_small [of "Suc i"] Suc.prems(4) by (simp add: add.commute)
    define ck where "ck = min 7 (length body - off)"
    have eq: "cont_frames 0 body off (word_of_nat i) =
        (cont_ctrl 0 (word_of_nat i) # take ck (drop off body) @ replicate (7 - ck) 0, word_of_nat (1 + ck))
        # cont_frames 0 body (off + ck) (word_of_nat (Suc i))"
      using True by (simp only: cont_frames.simps [of 0 body off] Let_def if_True inc ck_def)
    from Suc.prems(1) consider "fst f ! 0 = cont_ctrl 0 (word_of_nat i)"
      | "f \<in> set (cont_frames 0 body (off + ck) (word_of_nat (Suc i)))"
      unfolding eq by auto
    then show ?thesis
    proof cases
      case 1
      then show ?thesis
        using cont_ctrl_small [of i] Suc.prems(3,4) by (cases "i < 16") simp_all
    next
      case 2
      then show ?thesis
      proof (rule Suc.IH)
        show "length body - (off + ck) \<le> 7 * m"
        proof (cases "7 \<le> length body - off")
          case True
          then have "ck = 7"
            by (simp add: ck_def)
          with Suc.prems(2) show ?thesis
            by simp
        qed (simp add: ck_def)
      qed (use Suc.prems in simp_all)
    qed
  next
    case False
    then have "cont_frames 0 body off (word_of_nat i) = []"
      by (subst cont_frames.simps) simp
    then show ?thesis
      using Suc.prems(1) by simp
  qed
qed

lemma short_telegram_ctrl:
  assumes "f \<in> set (telegram opc lsg func body g)" "opc < 8" "length body \<le> 6"
  shows "fst f ! 0 \<noteq> 0xC0"
proof -
  obtain h0 h1 where h: "encodeHeader opc lsg func = (h0, h1)"
    by fastforce
  have "isShortFrame h0"
    using header_is_short [OF assms(2) h] .
  then have "h0 \<noteq> 0xC0"
    by (auto simp: isShortFrame_iff)
  then show ?thesis
    using assms(1,3) by (simp add: telegram_def h Let_def)
qed

lemma kinds_on_command_id:
  "handshake_frame f \<or> get_frame f \<or> trigger_frame f \<or> write_frame f \<Longrightarrow> fst f = kCanIdCommand"
  by (auto simp: handshake_frame_def get_frame_def trigger_frame_def write_frame_def cmd_tx_def)

lemma write_frame_limit:
  assumes "write_frame f"
  shows "snd (snd f) ! 0 = 0xC0 \<longrightarrow> snd (snd f) ! 3 \<le> kMaxCurrentHardLimit"
proof -
  obtain t p d where p: "p_maxCurrent p \<le> kMaxCurrentHardLimit" "length (p_name p) = 25"
    and f: "f = cmd_tx d" and d: "d \<in> set (telegram 2 kLsg 0x19 (write_body t 0 0 p) 0)"
    using assms by (auto simp: write_frame_def)
  define body where "body = write_body t 0 0 p"
  obtain h0 h1 where h: "encodeHeader 2 kLsg 0x19 = (h0, h1)"
    by fastforce
  have len: "24 \<le> length body" "length body \<le> 48"
    using length_profile_bytes [OF p(2)] length_profile_bytes_le [OF p(2)] by (simp_all add: body_def write_body_def)
  have b: "drop 4 body = p_operation p # p_operation2 p # p_maxCurrent p # drop 7 body"
    by (simp add: body_def write_body_def profile_bytes_def)
  have ck: "min 7 (length body - 4) = 7"
    using len by simp
  have "fst d ! 0 = start_ctrl 0 \<or> fst d = cont_ctrl 0 0 # take 7 (drop 4 body) \<or> d \<in> set (cont_frames 0 body 11 (word_of_nat 1))"
    using d len unfolding body_def [symmetric]
    by (auto simp: telegram_def h Let_def cont_frames.simps [of 0 body 4] ck)
  moreover have "start_ctrl 0 \<noteq> 0xC0"
    by (simp add: start_ctrl_def)
  moreover have "\<not> (d \<in> set (cont_frames 0 body 11 (word_of_nat 1)) \<and> fst d ! 0 = 0xC0)"
    using later_cont_ctrl [of d body 11 1 6] len by auto
  moreover have "(cont_ctrl 0 0 # take 7 (drop 4 body)) ! 3 = p_maxCurrent p"
    unfolding b by (simp add: numeral_eq_Suc)
  ultimately show ?thesis
    using p(1) by (auto simp: f cmd_tx_def)
qed

lemma cmd_frame_safe: "handshake_frame f \<or> get_frame f \<or> trigger_frame f \<or> write_frame f \<Longrightarrow> safe_frame f"
proof -
  assume k: "handshake_frame f \<or> get_frame f \<or> trigger_frame f \<or> write_frame f"
  have "snd (snd f) ! 0 = 0xC0 \<longrightarrow> snd (snd f) ! 3 \<le> kMaxCurrentHardLimit"
    using k
  proof (elim disjE)
    assume "handshake_frame f"
    then show ?thesis
      using short_telegram_ctrl [of _ 1] by (auto simp: handshake_frame_def cmd_tx_def)
  next
    assume "trigger_frame f"
    then show ?thesis
      using short_telegram_ctrl [of _ 2] by (fastforce simp: trigger_frame_def cmd_tx_def)
  next
    assume "get_frame f"
    then show ?thesis
      by (auto simp: get_frame_def cmd_tx_def)
  qed (rule write_frame_limit)
  with kinds_on_command_id [OF k] show ?thesis
    by (simp add: safe_frame_def split_beta)
qed

subsection \<open>Ticks and frames\<close>

lemmas ensures_after_arm_only = ensures_after_arm [where g = Some, unfolded bind_runit ensures_Some]

lemma retry_step_rel:
  assumes "gate s"
  shows "ensures (retry_step drv s) (\<lambda>s'. bc_rel s s' \<and> m_wake_hold s' = m_wake_hold s \<and> m_confirmed s' = m_confirmed s
      \<and> ms_v_env_hvac s' = ms_v_env_hvac s)"
proof -
  obtain tf new where g: "\<forall>f \<in> set new. get_frame f"
    "snd (SendProfileGet drv s) = s\<lparr>bc_tx := bc_tx s @ new, m_tx_fail := tf, m_txn := txn_next (m_txn s)\<rparr>"
    using SendProfileGet_frames by blast
  have name: "length (p_name (m_profile0 s)) = 25"
    using assms by (simp add: gate_def)
  show ?thesis
  proof (cases "m_phase s")
    case CP_PROFILE
    then show ?thesis
      using assms g name unfolding retry_step_def
      by (auto intro!: ensures_SendArm ensures_if ensures_after_arm_only simp: bc_rel_simps)
  qed (use assms name in \<open>auto intro!: ensures_SendHandshake ensures_SendArm ensures_SendTrigger ensures_if simp: retry_step_def bc_rel_simps\<close>)
qed

definition in_flight :: "bctl \<Rightarrow> bool" where
  "in_flight s \<longleftrightarrow> m_phase s \<noteq> CP_IDLE \<and> m_wake_hold s \<noteq> 0"

text \<open>One tick while a command is in flight: a wake frame, at most one step repeated, the wake
  bridge one second shorter, and at its end the outcome.\<close>

definition tick_rel :: "bctl \<Rightarrow> bctl \<Rightarrow> bool" where
  "tick_rel s s' \<longleftrightarrow>
     (\<exists>w new. bc_tx s' = bc_tx s @ w # new \<and> fst w = wake_id \<and> snd (snd w) ! 0 = VWEGOLF_NM_WAKE_NODE \<and>
        (\<forall>f \<in> set new. cmd_frame_ok s s' f)) \<and>
     gate s' \<and> m_bap_asm s' = m_bap_asm s \<and> m_wake_hold s' = m_wake_hold s - 1 \<and>
     m_op s' = m_op s \<and> m_param s' = m_param s \<and> m_enable s' = m_enable s \<and> m_apply s' = m_apply s \<and>
     (m_have_profile0 s \<longrightarrow> m_have_profile0 s') \<and> m_confirmed s' = m_confirmed s \<and>
     (if m_wake_hold s' = 0
      then m_phase s' = CP_IDLE \<and> length (bc_notes s') = length (bc_notes s) + (if m_confirmed s then 0 else 1)
      else phase_next (m_phase s) (m_phase s') \<and> bc_notes s' = bc_notes s)"

lemma finish_command_fields:
  "bc_tx (finish_command s) = bc_tx s" "m_phase (finish_command s) = CP_IDLE"
  "m_profile0 (finish_command s) = m_profile0 s" "m_have_profile0 (finish_command s) = m_have_profile0 s"
  "m_bap_asm (finish_command s) = m_bap_asm s" "m_wake_hold (finish_command s) = m_wake_hold s"
  "m_op (finish_command s) = m_op s" "m_param (finish_command s) = m_param s" "m_enable (finish_command s) = m_enable s"
  "m_apply (finish_command s) = m_apply s" "m_confirmed (finish_command s) = m_confirmed s"
  "length (bc_notes (finish_command s)) = length (bc_notes s) + (if m_confirmed s then 0 else 1)"
  by (simp_all add: finish_command_def NotifyString_def)

lemma Ticker1_rest:
  "\<not> in_flight s \<Longrightarrow> Ticker1 drv s alive = Some (s\<lparr>ms_v_env_hvac := (alive \<and> ms_v_env_hvac s)\<rparr>)"
  by (auto simp: Ticker1_def in_flight_def Let_def)

lemma Ticker1_rel:
  assumes "gate s" "in_flight s"
  shows "ensures (Ticker1 drv s alive) (tick_rel s)"
proof -
  define s1 where "s1 = (if \<not> alive then s\<lparr>ms_v_env_hvac := False\<rparr> else s)"
  define s3 where "s3 = (SendNmWake s1)\<lparr>m_phase_secs := m_phase_secs (SendNmWake s1) + 1\<rparr>"
  have s1: "m_phase s1 = m_phase s" "m_wake_hold s1 = m_wake_hold s"
    by (simp_all add: s1_def)
  define w where "w = (wake_id, 8 :: u8, [VWEGOLF_NM_WAKE_NODE, 0x10, 0x49, 0x85, 0x14, 0x00, 0x00, 0x00])"
  have s3: "bc_tx s3 = bc_tx s @ [w]" "m_phase s3 = m_phase s" "m_profile0 s3 = m_profile0 s" "m_have_profile0 s3 = m_have_profile0 s"
    "m_bap_asm s3 = m_bap_asm s" "m_wake_hold s3 = m_wake_hold s" "bc_notes s3 = bc_notes s" "m_op s3 = m_op s"
    "m_param s3 = m_param s" "m_enable s3 = m_enable s" "m_apply s3 = m_apply s" "m_confirmed s3 = m_confirmed s"
    by (simp_all add: s3_def s1_def SendNmWake_def w_def)
  define c where "c \<longleftrightarrow> \<not> m_confirmed s3 \<and> m_phase_secs s3 \<ge> VWEGOLF_BATCTRL_RETRY_SECS"
  have step: "ensures (if c then retry_step drv (s3\<lparr>m_phase_secs := 0\<rparr>) else Some s3)
      (\<lambda>s4. bc_rel s3 s4 \<and> m_wake_hold s4 = m_wake_hold s3 \<and> m_confirmed s4 = m_confirmed s3)"
  proof (cases c)
    case True
    have "gate (s3\<lparr>m_phase_secs := 0\<rparr>)"
      using assms(1) by (simp add: gate_def s3)
    from retry_step_rel [OF this, of drv] show ?thesis
      using True by (simp) (erule ensures_mono, simp add: bc_rel_simps)
  next
    case False
    then show ?thesis
      using assms(1) by (simp add: bc_rel_simps s3)
  qed
  then obtain s4 where s4: "(if c then retry_step drv (s3\<lparr>m_phase_secs := 0\<rparr>) else Some s3) = Some s4"
    "bc_rel s3 s4" "m_wake_hold s4 = m_wake_hold s3" "m_confirmed s4 = m_confirmed s3"
    by (auto simp: ensures_def)
  define s5 where "s5 = s4\<lparr>m_wake_hold := m_wake_hold s4 - 1\<rparr>"
  have hold: "m_wake_hold s4 > 0"
    using assms(2) s4(3) s3 by (simp add: in_flight_def word_neq_0_conv)
  have "Ticker1 drv s alive = Some (if m_wake_hold s5 = 0 then finish_command s5 else s5)"
    unfolding Ticker1_def Let_def s1_def [symmetric] s3_def [symmetric] c_def [symmetric]
    using assms(2) s4(1) hold by (simp add: s1 in_flight_def s5_def)
  moreover have "tick_rel s (if m_wake_hold s5 = 0 then finish_command s5 else s5)"
  proof -
    obtain new where new: "bc_tx s4 = bc_tx s3 @ new" "\<forall>f \<in> set new. cmd_frame_ok s3 s4 f"
      using s4(2) by (auto simp: bc_rel_def)
    have "cmd_frame_ok s s' f" if "cmd_frame_ok s3 s4 f" "m_have_profile0 s' = m_have_profile0 s4" for s' f
      using that by (simp add: cmd_frame_ok_def s3)
    with new s4 have fr: "\<exists>w' new'. bc_tx s' = bc_tx s @ w' # new' \<and> fst w' = wake_id \<and>
        snd (snd w') ! 0 = VWEGOLF_NM_WAKE_NODE \<and> (\<forall>f \<in> set new'. cmd_frame_ok s s' f)"
      if "bc_tx s' = bc_tx s4" "m_have_profile0 s' = m_have_profile0 s4" for s'
      using that by (intro exI [of _ w] exI [of _ new]) (simp add: s3 w_def)
    show ?thesis
    proof (cases "m_wake_hold s5 = 0")
      case True
      then show ?thesis
        using s4 fr [of "finish_command s5"] unfolding tick_rel_def
        by (simp add: finish_command_fields s5_def s3 bc_rel_def gate_def)
    next
      case False
      then show ?thesis
        using s4 fr [of s5] unfolding tick_rel_def
        by (simp add: s5_def s3 bc_rel_def gate_def)
    qed
  qed
  ultimately show ?thesis
    by simp
qed

subsection \<open>Events and reachable states\<close>

datatype bc_event =
    EvClimate bool | EvCharge bool | EvSetCurrent u16 | EvTick bool | EvBap u32 u8 bytes
  | EvClima bytes | EvAbort | EvInProgress bool

fun bc_apply :: "driver \<Rightarrow> bctl \<Rightarrow> bc_event \<Rightarrow> bctl option" where
  "bc_apply drv s (EvClimate b) = Some (snd (Climate s b))"
| "bc_apply drv s (EvCharge b) = Some (snd (Charge s b))"
| "bc_apply drv s (EvSetCurrent amps) = Some (snd (SetChargeCurrent s amps))"
| "bc_apply drv s (EvTick alive) = Ticker1 drv s alive"
| "bc_apply drv s (EvBap i dlc d) = IncomingBapStatus drv s i dlc d"
| "bc_apply drv s (EvClima d) = IncomingClimaEcuStatus s d"
| "bc_apply drv s EvAbort = Some (Abort s)"
| "bc_apply drv s (EvInProgress b) = Some (s\<lparr>ms_v_charge_inprogress := b\<rparr>)"

text \<open>The driver delivers eight data bytes with every frame; a DLC above 8 is dropped unread.\<close>

fun event_ok :: "bc_event \<Rightarrow> bool" where
  "event_ok (EvBap i dlc d) \<longleftrightarrow> length d = 8"
| "event_ok (EvClima d) \<longleftrightarrow> length d = 8"
| "event_ok _ \<longleftrightarrow> True"

fun is_command :: "bc_event \<Rightarrow> bool" where
  "is_command (EvClimate b) \<longleftrightarrow> True"
| "is_command (EvCharge b) \<longleftrightarrow> True"
| "is_command (EvSetCurrent a) \<longleftrightarrow> True"
| "is_command _ \<longleftrightarrow> False"

fun is_tick :: "bc_event \<Rightarrow> bool" where
  "is_tick (EvTick b) \<longleftrightarrow> True"
| "is_tick _ \<longleftrightarrow> False"

definition bc_init :: "assembler_set \<Rightarrow> bctl" where
  "bc_init asms =
     \<lparr>m_bap_asm = asms, m_profile0 = Profile, m_txn = 0, m_phase = CP_IDLE, m_op = BC_CLIMATE, m_param = 0,
      m_enable = False, m_bcu_seen = False, m_have_profile0 = False, m_arm_skipped = False, m_apply = False,
      m_confirmed = False, m_error = False, m_tx_fail = False, m_wake_hold = 0, m_phase_secs = 0,
      ms_v_env_hvac = False, ms_v_charge_inprogress = False, ms_v_charge_climit = 0,
      ms_v_env_cabinsetpoint = 0, bc_tx = [], bc_notes = []\<rparr>"

inductive bc_reach :: "driver \<Rightarrow> bctl \<Rightarrow> bool" for drv where
  init: "aset_inv 224 asms \<Longrightarrow> bc_reach drv (bc_init asms)"
| step: "\<lbrakk>bc_reach drv s; event_ok ev; bc_apply drv s ev = Some s'\<rbrakk> \<Longrightarrow> bc_reach drv s'"

definition bc_inv :: "bctl \<Rightarrow> bool" where
  "bc_inv s \<longleftrightarrow> gate s \<and> aset_inv 224 (m_bap_asm s) \<and> unat (m_wake_hold s) \<le> 20 \<and> (\<forall>f \<in> set (bc_tx s). safe_frame f)"

lemma cmd_frame_ok_safe: "cmd_frame_ok s s' f \<Longrightarrow> safe_frame f"
  unfolding cmd_frame_ok_def using cmd_frame_safe by blast

lemma as_reset_inv: "as_inv M a \<Longrightarrow> as_inv M (as_reset a)"
  by (auto simp: as_inv_def as_reset_def pm_inv_def)

lemma aset_reset_inv: "aset_inv M s \<Longrightarrow> aset_inv M (aset_reset s)"
  by (auto simp: aset_inv_def aset_reset_def as_reset_inv)

text \<open>A status frame: reassembly, then at most one element.\<close>

definition bap_rel :: "bctl \<Rightarrow> bctl \<Rightarrow> bool" where
  "bap_rel s s' \<longleftrightarrow> (\<exists>asms. bc_rel (s\<lparr>m_bcu_seen := True, m_bap_asm := asms\<rparr>) s' \<and> aset_inv 224 asms)"

lemma IncomingBapStatus_rel:
  assumes "gate s" "aset_inv 224 (m_bap_asm s)" "length d = 8"
  shows "ensures (IncomingBapStatus drv s i dlc d) (bap_rel s)"
proof -
  define a0 where "a0 = (if \<not> m_bcu_seen s then aset_reset (m_bap_asm s) else m_bap_asm s)"
  have "aset_inv 224 a0"
    using assms(2) aset_reset_inv by (simp add: a0_def)
  then obtain fed asms where fed: "aset_feed 224 a0 i d dlc = Some (fed, asms)" "aset_inv 224 asms"
      "\<forall>e. fed = Some e \<longrightarrow> el_inv e"
    using aset_feed_total [of 224 a0 dlc d i] assms(3) by auto
  define s3 where "s3 = s\<lparr>m_bcu_seen := True, m_bap_asm := asms\<rparr>"
  have g: "gate s3"
    using assms(1) by (simp add: gate_def s3_def)
  have quiet: "bc_rel s3 s3"
    using g by (simp add: bc_rel_def)
  have eq: "IncomingBapStatus drv s i dlc d = (case fed of None \<Rightarrow> Some s3
      | Some el \<Rightarrow> if el_lsg el \<noteq> kLsg then Some s3 else on_element drv s3 el)"
    using fed(1) by (cases "m_bcu_seen s"; cases fed) (simp_all add: IncomingBapStatus_def Let_def a0_def s3_def)
  show ?thesis
  proof (cases fed)
    case None
    then show ?thesis
      using quiet fed(2) unfolding eq bap_rel_def s3_def by auto
  next
    case (Some el)
    show ?thesis
    proof (cases "el_lsg el = kLsg")
      case True
      have "ensures (on_element drv s3 el) (bc_rel s3)"
        using on_element_rel [OF g] fed(3) Some by auto
      then show ?thesis
        using True Some fed(2) unfolding eq by (auto simp: bap_rel_def s3_def elim!: ensures_mono)
    next
      case False
      then show ?thesis
        using quiet fed(2) Some unfolding eq bap_rel_def s3_def by auto
    qed
  qed
qed

lemma Begin_fields:
  "snd (Begin s op enable param) = (let s1 = s\<lparr>m_op := op, m_param := ucast param, m_enable := enable,
        m_apply := (op = BC_SET_CURRENT \<and> ms_v_charge_inprogress s),
        m_confirmed := False, m_error := False, m_tx_fail := False, m_have_profile0 := False,
        m_arm_skipped := False, m_bcu_seen := False, m_phase := CP_WAKE, m_phase_secs := 0, m_wake_hold := 20\<rparr>
    in s1\<lparr>bc_tx := bc_tx s @ [(wake_id, 8, [VWEGOLF_NM_WAKE_NODE, 0x10, 0x49, 0x85, 0x14, 0x00, 0x00, 0x00])]\<rparr>)"
  by (simp add: Begin_def SendNmWake_def VWEGOLF_BATCTRL_WAKE_SECS_def Let_def)

lemma safe_wake: "safe_frame (wake_id, 8, [VWEGOLF_NM_WAKE_NODE, 0x10, 0x49, 0x85, 0x14, 0x00, 0x00, 0x00])"
  by (simp add: safe_frame_def VWEGOLF_NM_WAKE_NODE_def)

lemma Begin_inv: "bc_inv s \<Longrightarrow> bc_inv (snd (Begin s op enable param))"
  by (auto simp: bc_inv_def gate_def Begin_fields Let_def safe_wake)

lemma bc_inv_tick:
  assumes "bc_inv s" "in_flight s" "tick_rel s s'"
  shows "bc_inv s'"
proof -
  obtain w new where new: "bc_tx s' = bc_tx s @ w # new" "fst w = wake_id" "snd (snd w) ! 0 = VWEGOLF_NM_WAKE_NODE"
      "\<forall>f \<in> set new. cmd_frame_ok s s' f"
    using assms(3) unfolding tick_rel_def by blast
  have "safe_frame w"
    using new(2,3) by (simp add: safe_frame_def split_beta VWEGOLF_NM_WAKE_NODE_def)
  moreover have "\<forall>f \<in> set new. safe_frame f"
    using new(4) cmd_frame_ok_safe by blast
  ultimately have "\<forall>f \<in> set (bc_tx s'). safe_frame f"
    using assms(1) by (simp add: new(1) bc_inv_def ball_Un)
  moreover have "unat (m_wake_hold s - 1) \<le> 20"
    using assms(1,2) by (auto simp: bc_inv_def in_flight_def unat_minus_one)
  ultimately show ?thesis
    using assms(1,3) unfolding bc_inv_def tick_rel_def by metis
qed

lemma bc_inv_bap:
  assumes "bc_inv s" "bap_rel s s'"
  shows "bc_inv s'"
proof -
  obtain asms where r: "bc_rel (s\<lparr>m_bcu_seen := True, m_bap_asm := asms\<rparr>) s'" "aset_inv 224 asms"
    using assms(2) by (auto simp: bap_rel_def)
  obtain new where new: "bc_tx s' = bc_tx s @ new" "\<forall>f \<in> set new. cmd_frame_ok (s\<lparr>m_bcu_seen := True, m_bap_asm := asms\<rparr>) s' f"
    using r(1) unfolding bc_rel_def by auto
  have "\<forall>f \<in> set new. safe_frame f"
    using new(2) cmd_frame_ok_safe by blast
  then have "\<forall>f \<in> set (bc_tx s'). safe_frame f"
    using assms(1) by (simp add: new(1) bc_inv_def ball_Un)
  then show ?thesis
    using assms(1) r by (simp add: bc_inv_def bc_rel_def word_le_nat_alt)
qed

lemma bc_apply_inv:
  assumes "bc_inv s" "event_ok ev"
  shows "ensures (bc_apply drv s ev) bc_inv"
proof (cases ev)
  case (EvTick alive)
  show ?thesis
  proof (cases "in_flight s")
    case True
    have "ensures (Ticker1 drv s alive) (tick_rel s)"
      using Ticker1_rel True assms(1) by (simp add: bc_inv_def)
    then show ?thesis
      using bc_inv_tick [OF assms(1) True] EvTick by (auto elim!: ensures_mono)
  next
    case False
    then show ?thesis
      using assms(1) EvTick by (simp add: Ticker1_rest bc_inv_def gate_def)
  qed
next
  case (EvBap i dlc d)
  then have "ensures (IncomingBapStatus drv s i dlc d) (bap_rel s)"
    using assms by (intro IncomingBapStatus_rel) (simp_all add: bc_inv_def)
  then show ?thesis
    using bc_inv_bap [OF assms(1)] EvBap by (auto elim!: ensures_mono)
next
  case (EvCharge b)
  then show ?thesis
    using assms Begin_inv [OF assms(1)] by (auto simp: Charge_def NotifyString_def bc_inv_def gate_def)
next
  case (EvClimate b)
  then show ?thesis
    using Begin_inv [OF assms(1)] by (simp add: Climate_def)
next
  case (EvSetCurrent a)
  then show ?thesis
    using Begin_inv [OF assms(1)] by (simp add: SetChargeCurrent_def)
next
  case (EvClima d)
  then show ?thesis
    using assms by (simp add: IncomingClimaEcuStatus_def rd_def bc_inv_def gate_def)
next
  case EvAbort
  then show ?thesis
    using assms by (simp add: Abort_def bc_inv_def gate_def)
next
  case (EvInProgress b)
  then show ?thesis
    using assms by (simp add: bc_inv_def gate_def)
qed

lemma bc_reach_inv: "bc_reach drv s \<Longrightarrow> bc_inv s"
proof (induction rule: bc_reach.induct)
  case (init asms)
  then show ?case
    by (simp add: bc_inv_def bc_init_def gate_def Profile_def)
next
  case (step s ev s')
  then show ?case
    using bc_apply_inv [of s ev drv] by (auto simp: ensures_def)
qed

subsection \<open>Which bytes identify which command\<close>

lemma headers:
  "encodeHeader 1 kLsg 0x02 = (0x19, 0x42)" "encodeHeader 1 kLsg 0x01 = (0x19, 0x41)"
  "encodeHeader 2 kLsg 0x18 = (0x29, 0x58)" "encodeHeader 2 kLsg 0x19 = (0x29, 0x59)"
  by code_simp+

lemma handshake_bytes: "handshake_frame f \<Longrightarrow> snd (snd f) ! 0 = 0x19"
  by (auto simp: handshake_frame_def telegram_def headers cmd_tx_def)

lemma get_bytes: "get_frame f \<Longrightarrow> snd (snd f) ! 0 = 0x80"
  by (auto simp: get_frame_def cmd_tx_def)

lemma write_bytes:
  assumes "write_frame f"
  shows "snd (snd f) ! 0 \<noteq> 0x29"
proof -
  obtain t p d where p: "length (p_name p) = 25"
    and f: "f = cmd_tx d" and d: "d \<in> set (telegram 2 kLsg 0x19 (write_body t 0 0 p) 0)"
    using assms by (auto simp: write_frame_def)
  define body where "body = write_body t 0 0 p"
  have len: "24 \<le> length body"
    using length_profile_bytes [OF p] by (simp add: body_def write_body_def)
  have c: "d \<in> set (cont_frames 0 body off i) \<Longrightarrow> \<exists>j. fst d ! 0 = cont_ctrl 0 j" for off i
  proof (induction "length body - off" arbitrary: off i rule: less_induct)
    case less
    define ck where "ck = min 7 (length body - off)"
    show ?case
    proof (cases "off < length body")
      case True
      have "cont_frames 0 body off i =
          (cont_ctrl 0 i # take ck (drop off body) @ replicate (7 - ck) 0, word_of_nat (1 + ck))
          # cont_frames 0 body (off + ck) ((i + 1) AND 0xF)"
        using True by (simp only: cont_frames.simps [of 0 body off] Let_def if_True ck_def)
      moreover have "length body - (off + ck) < length body - off"
        using True by (auto simp: ck_def)
      ultimately show ?thesis
        using less by auto
    next
      case False
      then have "cont_frames 0 body off i = []"
        by (subst cont_frames.simps) simp
      then show ?thesis
        using less by simp
    qed
  qed
  have "fst d ! 0 = start_ctrl 0 \<or> (\<exists>j. fst d ! 0 = cont_ctrl 0 j)"
    using d len c unfolding body_def [symmetric] by (auto simp: telegram_def headers Let_def)
  then have "\<not> isShortFrame (fst d ! 0)"
    by auto
  moreover have "isShortFrame 0x29"
    by (simp add: isShortFrame_iff)
  ultimately show ?thesis
    by (auto simp: f cmd_tx_def)
qed

lemma trigger_gate:
  assumes "cmd_frame_ok s s' f" "snd (snd f) ! 0 = 0x29"
  shows "m_have_profile0 s' \<and> (m_phase s = CP_PROFILE \<or> m_phase s = CP_ARM_WAIT \<or> m_phase s = CP_CONFIRM)"
  using assms handshake_bytes [of f] get_bytes [of f] write_bytes [of f] by (auto simp: cmd_frame_ok_def)

subsection \<open>What one event can send\<close>

lemma event_frames:
  assumes "bc_inv s" "event_ok ev" "bc_apply drv s ev = Some s'"
  obtains (sent) new where "bc_tx s' = bc_tx s @ new" "\<forall>f \<in> set new. fst f = wake_id \<and> snd (snd f) ! 0 = 0x7D \<or> cmd_frame_ok s s' f"
proof (cases ev)
  case (EvTick alive)
  show ?thesis
  proof (cases "in_flight s")
    case True
    have "tick_rel s s'"
      using Ticker1_rel [of s drv alive] True assms(1,3) EvTick by (simp add: bc_inv_def)
    then obtain w new where "bc_tx s' = bc_tx s @ w # new" "fst w = wake_id" "snd (snd w) ! 0 = VWEGOLF_NM_WAKE_NODE"
        "\<forall>f \<in> set new. cmd_frame_ok s s' f"
      unfolding tick_rel_def by blast
    then show ?thesis
      by (intro sent [of "w # new"]) (auto simp: VWEGOLF_NM_WAKE_NODE_def)
  next
    case False
    then show ?thesis
      using assms(3) EvTick by (intro sent [of "[]"]) (auto simp: Ticker1_rest)
  qed
next
  case (EvBap i dlc d)
  have "bap_rel s s'"
    using IncomingBapStatus_rel [of s d drv i dlc] assms EvBap by (simp add: bc_inv_def)
  then obtain asms new where "bc_tx s' = bc_tx s @ new" "\<forall>f \<in> set new. cmd_frame_ok (s\<lparr>m_bcu_seen := True, m_bap_asm := asms\<rparr>) s' f"
    unfolding bap_rel_def bc_rel_def by auto
  then show ?thesis
    by (intro sent [of new]) (auto simp: cmd_frame_ok_def)
next
  case (EvClima d)
  then show ?thesis
    using assms by (intro sent [of "[]"]) (auto simp: IncomingClimaEcuStatus_def rd_def)
next
  case (EvCharge b)
  then show ?thesis
  proof (cases "\<not> b \<and> ms_v_env_hvac s")
    case True
    then show ?thesis
      using assms(3) EvCharge by (intro sent [of "[]"]) (auto simp: Charge_def NotifyString_def)
  next
    case False
    then show ?thesis
      using assms(3) EvCharge
      by (intro sent [of "[(wake_id, 8, [VWEGOLF_NM_WAKE_NODE, 0x10, 0x49, 0x85, 0x14, 0x00, 0x00, 0x00])]"])
        (auto simp: Charge_def Begin_fields Let_def VWEGOLF_NM_WAKE_NODE_def)
  qed
next
  case (EvClimate b)
  then show ?thesis
    using assms(3)
    by (intro sent [of "[(wake_id, 8, [VWEGOLF_NM_WAKE_NODE, 0x10, 0x49, 0x85, 0x14, 0x00, 0x00, 0x00])]"])
      (auto simp: Climate_def Begin_fields Let_def VWEGOLF_NM_WAKE_NODE_def)
next
  case (EvSetCurrent a)
  then show ?thesis
    using assms(3)
    by (intro sent [of "[(wake_id, 8, [VWEGOLF_NM_WAKE_NODE, 0x10, 0x49, 0x85, 0x14, 0x00, 0x00, 0x00])]"])
      (auto simp: SetChargeCurrent_def Begin_fields Let_def VWEGOLF_NM_WAKE_NODE_def)
next
  case EvAbort
  then show ?thesis
    using assms(3) by (intro sent [of "[]"]) (auto simp: Abort_def)
next
  case (EvInProgress b)
  then show ?thesis
    using assms(3) by (intro sent [of "[]"]) auto
qed

subsection \<open>The wake bridge\<close>

definition rested :: "bctl \<Rightarrow> bool" where
  "rested s \<longleftrightarrow> (m_phase s = CP_IDLE \<longrightarrow> m_wake_hold s = 0)"

lemma event_hold:
  assumes "bc_inv s" "rested s" "event_ok ev" "\<not> is_command ev" "bc_apply drv s ev = Some s'"
  shows "rested s' \<and> unat (m_wake_hold s') \<le> unat (m_wake_hold s) - (if is_tick ev then 1 else 0) \<and>
    ((m_phase s = CP_IDLE \<or> m_phase s = CP_DONE) \<longrightarrow> m_phase s' = CP_IDLE \<or> m_phase s' = CP_DONE)"
proof (cases ev)
  case (EvTick alive)
  show ?thesis
  proof (cases "in_flight s")
    case True
    have r: "tick_rel s s'"
      using Ticker1_rel [of s drv alive] True assms(1,5) EvTick by (simp add: bc_inv_def)
    then have "m_wake_hold s' = m_wake_hold s - 1"
      "m_wake_hold s' \<noteq> 0 \<longrightarrow> phase_next (m_phase s) (m_phase s')" "m_wake_hold s' = 0 \<longrightarrow> m_phase s' = CP_IDLE"
      unfolding tick_rel_def by (auto split: if_splits)
    then show ?thesis
      using True EvTick assms(2) by (auto simp: in_flight_def rested_def unat_minus_one elim: phase_nextE)
  next
    case False
    then show ?thesis
      using assms(2,5) EvTick by (auto simp: Ticker1_rest rested_def in_flight_def)
  qed
next
  case (EvBap i dlc d)
  have "bap_rel s s'"
    using IncomingBapStatus_rel [of s d drv i dlc] assms EvBap by (simp add: bc_inv_def)
  then have "phase_next (m_phase s) (m_phase s')" "m_wake_hold s' \<le> m_wake_hold s"
    by (auto simp: bap_rel_def bc_rel_def)
  then show ?thesis
    using EvBap assms(2) by (auto simp: rested_def word_le_nat_alt unat_eq_0 elim: phase_nextE)
qed (use assms in \<open>auto simp: IncomingClimaEcuStatus_def rd_def Abort_def rested_def split: if_splits\<close>)

lemma bc_reach_rested: "bc_reach drv s \<Longrightarrow> rested s"
proof (induction rule: bc_reach.induct)
  case (init asms)
  then show ?case
    by (simp add: rested_def bc_init_def)
next
  case (step s ev s')
  show ?case
  proof (cases "is_command ev")
    case False
    then show ?thesis
      using event_hold [OF bc_reach_inv [OF step(1)] step(4,2)] step(3) by blast
  next
    case True
    then show ?thesis
      using step by (cases ev) (auto simp: rested_def Climate_def Charge_def SetChargeCurrent_def Begin_fields Let_def NotifyString_def split: if_splits)
  qed
qed

primrec bc_run :: "driver \<Rightarrow> bctl \<Rightarrow> bc_event list \<Rightarrow> bctl option" where
  "bc_run drv s [] = Some s"
| "bc_run drv s (ev # evs) = do { s' \<leftarrow> bc_apply drv s ev; bc_run drv s' evs }"

theorem events_total:
  assumes "bc_reach drv s" "\<forall>ev \<in> set evs. event_ok ev"
  shows "\<exists>s'. bc_run drv s evs = Some s' \<and> bc_reach drv s'"
  using assms
proof (induction evs arbitrary: s)
  case (Cons ev evs)
  obtain s1 where "bc_apply drv s ev = Some s1"
    using bc_apply_inv [OF bc_reach_inv [OF Cons.prems(1)], of ev drv] Cons.prems(2) by (auto simp: ensures_def)
  moreover from this have "bc_reach drv s1"
    using bc_reach.step [OF Cons.prems(1), of ev] Cons.prems(2) by simp
  ultimately show ?case
    using Cons.IH [of s1] Cons.prems(2) by simp
qed simp

lemma run_hold:
  assumes "bc_reach drv s" "\<forall>ev \<in> set evs. event_ok ev \<and> \<not> is_command ev" "bc_run drv s evs = Some s'"
  shows "unat (m_wake_hold s') \<le> unat (m_wake_hold s) - length (filter is_tick evs)"
  using assms
proof (induction evs arbitrary: s)
  case (Cons ev evs)
  obtain s1 where s1: "bc_apply drv s ev = Some s1" "bc_run drv s1 evs = Some s'"
    using Cons.prems(3) by (auto split: option.splits bind_splits)
  have ok: "event_ok ev" "\<not> is_command ev"
    using Cons.prems(2) by simp_all
  have "bc_reach drv s1"
    using bc_reach.step [OF Cons.prems(1) ok(1) s1(1)] .
  moreover have "unat (m_wake_hold s1) \<le> unat (m_wake_hold s) - (if is_tick ev then 1 else 0)"
    using event_hold [OF bc_reach_inv [OF Cons.prems(1)] bc_reach_rested [OF Cons.prems(1)] ok s1(1)] by blast
  ultimately show ?case
    using Cons.IH [of s1] Cons.prems(2) s1(2) by auto
qed simp

subsection \<open>A cooperative unit\<close>

text \<open>With a driver that takes every frame, the sending operations succeed.\<close>

lemma offer_ok: "offer (TxFrame (\<lambda>_. ESP_OK)) log fs = (log @ map cmd_tx fs, length fs, True)"
  by (induction fs arbitrary: log) (simp_all add: TxFrame_def cmd_tx_def Let_def)

lemma SendHandshake_ok:
  "SendHandshake (\<lambda>_. ESP_OK) s = Some (True, s\<lparr>bc_tx := bc_tx s @ map cmd_tx (telegram 1 kLsg 0x02 [] 0 @ telegram 1 kLsg 0x01 [] 0)\<rparr>)"
  by (simp add: SendHandshake_def send_get_spec offer_ok send_outcome_def sr_ok_def)

lemma SendTrigger_ok:
  "SendTrigger (\<lambda>_. ESP_OK) s b = Some (True, s\<lparr>bc_tx := bc_tx s @ map cmd_tx (telegram 2 kLsg 0x18 [0, if b then 1 else 0] 0)\<rparr>)"
  by (simp add: SendTrigger_def sendClimate_spec offer_ok send_outcome_def sr_ok_def)

definition arm_frames :: "bctl \<Rightarrow> (bytes \<times> u8) list" where
  "arm_frames s = telegram 2 kLsg 0x19 (write_body (asgTxnByte kAsgIdOvms (txn_next (m_txn s))) 0 0 (arm_profile s)) 0"

definition arm_needed :: "bctl \<Rightarrow> bool" where
  "arm_needed s \<longleftrightarrow> m_op s = BC_SET_CURRENT \<or> p_operation (arm_profile s) \<noteq> p_operation (m_profile0 s) \<or>
     p_maxCurrent (arm_profile s) \<noteq> p_maxCurrent (m_profile0 s)"

lemma SendArm_ok:
  assumes "length (p_name (m_profile0 s)) = 25"
  shows "SendArm (\<lambda>_. ESP_OK) s = Some (True,
    if arm_needed s then s\<lparr>m_arm_skipped := False, bc_tx := bc_tx s @ map cmd_tx (arm_frames s), m_txn := txn_next (m_txn s)\<rparr>
    else s\<lparr>m_arm_skipped := True\<rparr>)"
  using assms sendProfileWrite_spec [of "arm_profile s" "TxFrame (\<lambda>_. ESP_OK)" "bc_tx s" "m_txn s" kAsgIdOvms 0 0]
  by (auto simp: SendArm_def arm_needed_def arm_frames_def offer_ok send_outcome_def sr_ok_def Let_def)

text \<open>Profile 0 leaves the arm with the bits of the command and everything else as it was read.\<close>

lemma arm_ops: "arm_climate_op b = (b AND 0xF8) OR 0x06" "arm_charge_op b = (b AND 0xF8) OR 0x01"
  unfolding arm_climate_op_def arm_charge_op_def
  by (simp_all add: bitblast_u8 bit_simps)

lemma arm_profile_eq:
  "arm_profile s = (m_profile0 s)\<lparr>
     p_operation := (case m_op s of
        BC_CLIMATE \<Rightarrow> (p_operation (m_profile0 s) AND 0xF8) OR 0x06
      | BC_CHARGE \<Rightarrow> (p_operation (m_profile0 s) AND 0xF8) OR 0x01
      | BC_SET_CURRENT \<Rightarrow> if m_apply s then (p_operation (m_profile0 s) AND 0xF8) OR 0x01
                          else p_operation (m_profile0 s)),
     p_maxCurrent := min (if m_op s = BC_SET_CURRENT then m_param s else p_maxCurrent (m_profile0 s)) kMaxCurrentHardLimit\<rparr>"
  by (cases "m_op s") (auto simp: arm_profile_def arm_ops Let_def min_def)

subsection \<open>A command from the first reply to the confirmation\<close>

definition status :: "u8 \<Rightarrow> bytes \<Rightarrow> element" where
  "status func body = \<lparr>el_opcode = 4, el_lsg = kLsg, el_func = func, el_bodyLen = word_of_nat (length body), el_body = Some body\<rparr>"

definition step_elements :: "driver \<Rightarrow> bctl \<Rightarrow> element list \<Rightarrow> bctl option" where
  "step_elements drv s els = foldl (\<lambda>m el. m \<bind> (\<lambda>s. on_element drv s el)) (Some s) els"

lemma step_elements_simps [simp]:
  "step_elements drv s [] = Some s"
  "on_element drv s el = Some s' \<Longrightarrow> step_elements drv s (el # els) = step_elements drv s' els"
  by (simp_all add: step_elements_def)

text \<open>The part of the state that decides how a command goes on.\<close>

definition same_command :: "bctl \<Rightarrow> bctl \<Rightarrow> bool" where
  "same_command s s' \<longleftrightarrow> m_op s' = m_op s \<and> m_enable s' = m_enable s \<and> m_apply s' = m_apply s"

lemma wake_element:
  assumes "m_phase s = CP_WAKE" "el_func el \<noteq> 0x18" "\<not> m_have_profile0 s"
  shows "\<exists>s'. on_element (\<lambda>_. ESP_OK) s el = Some s' \<and> m_phase s' = CP_HANDSHAKE \<and> same_command s s' \<and> \<not> m_have_profile0 s'"
  using assms by (auto simp: on_element_def is_opmode_def SendHandshake_ok same_command_def Let_def)

lemma ack_element:
  assumes "m_phase s = CP_HANDSHAKE" "el_opcode el = 4" "el_func el = 0x01 \<or> el_func el = 0x02" "\<not> m_have_profile0 s"
  shows "\<exists>s'. on_element (\<lambda>_. ESP_OK) s el = Some s' \<and> m_phase s' = CP_PROFILE \<and> same_command s s' \<and> \<not> m_have_profile0 s'"
  using assms by (auto simp: on_element_def is_opmode_def SendProfileGet_def TxFrame_def same_command_def Let_def)

lemma reply_element:
  assumes ph: "m_phase s = CP_PROFILE" "\<not> m_have_profile0 s" "m_op s \<noteq> BC_SET_CURRENT"
    and lead: "drop_bit 4 lead AND 7 = 3" "lead AND 0x80 = 0"
    and arr: "array_ok large pos start ps" "length ps \<le> 4" "\<exists>p \<in> set ps. p_position p = 0"
    and len: "length (array_bytes lead tot large pos start ps) \<le> 255"
  shows "\<exists>s'. on_element (\<lambda>_. ESP_OK) s (status 0x19 (array_bytes lead tot large pos start ps)) = Some s' \<and>
     (m_phase s' = CP_ARM_WAIT \<or> m_phase s' = CP_CONFIRM) \<and> same_command s s'"
proof -
  define body where "body = array_bytes lead tot large pos start ps"
  define el where "el = status 0x19 body"
  have len6: "25 \<le> length body"
  proof -
    obtain p qs where ps: "ps = p # qs"
      using arr(3) by (cases ps) auto
    have "length (p_name p) = 25"
      using arr(1) ps by (auto simp: array_ok_def normal_profile_def)
    then show ?thesis
      by (simp add: body_def array_bytes_def ps elem_bytes_def length_profile_bytes length_idx_bytes)
  qed
  have ul: "unat (word_of_nat (length body) :: u16) = length body"
    using len by (simp add: body_def unat_word_of_nat_u16)
  have el: "el_opcode el = 4" "el_func el = 0x19" "el_bodyLen el = word_of_nat (length body)" "el_body el = Some body"
    "el_bodyLen el \<ge> 6" "\<not> el_bodyLen el < 1" "body_byte el 0 = Some lead"
    using len6 ul by (simp_all add: el_def status_def word_le_nat_alt word_less_nat_alt body_byte_def body_def array_bytes_def)
  obtain res where dec: "decodeProfileArray body (word_of_nat (length body)) 4 = Some (ps, res)" "\<not> ar_malformed res"
    using decodeProfileArray_array_bytes [OF arr(1,2), of lead tot] len by (simp add: body_def)
  obtain p where p: "List.find (\<lambda>p. p_position p = 0) ps = Some p" "p \<in> set ps"
    using arr(3) by (cases "List.find (\<lambda>p. p_position p = 0) ps") (auto simp: find_None_iff find_Some_iff)
  have name: "length (p_name p) = 25"
    using p(2) arr(1) by (auto simp: in_set_conv_nth array_ok_def normal_profile_def)
  define s1 where "s1 = s\<lparr>m_tx_fail := False\<rparr>"
  have "on_element (\<lambda>_. ESP_OK) s el = read_reply (\<lambda>_. ESP_OK) s1 el"
    using ph lead el by (simp add: on_element_def is_opmode_def array_status_def kAsgIdOvms_def s1_def)
  moreover have "\<exists>s'. read_reply (\<lambda>_. ESP_OK) s1 el = Some s' \<and> (m_phase s' = CP_ARM_WAIT \<or> m_phase s' = CP_CONFIRM) \<and> same_command s1 s'"
    using ph el dec p(1) name
    by (auto simp: read_reply_def s1_def SendArm_ok after_arm_def SendTrigger_ok same_command_def Let_def)
  ultimately show ?thesis
    by (auto simp: el_def body_def s1_def same_command_def)
qed

lemma echo_element:
  assumes "m_phase s = CP_ARM_WAIT \<or> m_phase s = CP_CONFIRM" "m_op s \<noteq> BC_SET_CURRENT"
    and lead: "drop_bit 4 lead AND 7 = 3" "lead AND 0x80 \<noteq> 0"
  shows "\<exists>s'. on_element (\<lambda>_. ESP_OK) s (status 0x19 [lead]) = Some s' \<and> m_phase s' = CP_CONFIRM \<and> same_command s s'"
  using assms
  by (auto simp: on_element_def status_def is_opmode_def array_status_def body_byte_def write_echo_def kAsgIdOvms_def
      SendTrigger_ok same_command_def Let_def)

lemma opmode_element:
  assumes "m_phase s = CP_CONFIRM" "m_op s \<noteq> BC_SET_CURRENT" "(flag \<noteq> 0) = m_enable s"
  shows "\<exists>s'. on_element (\<lambda>_. ESP_OK) s (status 0x18 [flag]) = Some s' \<and> m_phase s' = CP_DONE \<and> m_confirmed s'"
  using assms
  by (cases "m_op s") (auto simp: on_element_def status_def is_opmode_def on_opmode_def confirm_opmode_def body_byte_def Let_def)

theorem command_completes:
  assumes s: "m_phase s = CP_WAKE" "\<not> m_have_profile0 s" "m_op s \<noteq> BC_SET_CURRENT"
    and first: "el_func e1 \<noteq> 0x18"
    and ack: "el_opcode e2 = 4" "el_func e2 = 0x01 \<or> el_func e2 = 0x02"
    and reply: "drop_bit 4 lead AND 7 = 3" "lead AND 0x80 = 0" "array_ok large pos start ps" "length ps \<le> 4"
      "\<exists>p \<in> set ps. p_position p = 0" "length (array_bytes lead tot large pos start ps) \<le> 255"
    and echo: "drop_bit 4 lead' AND 7 = 3" "lead' AND 0x80 \<noteq> 0"
    and flag: "(flag \<noteq> 0) = m_enable s"
  shows "\<exists>s'. step_elements (\<lambda>_. ESP_OK) s
      [e1, e2, status 0x19 (array_bytes lead tot large pos start ps), status 0x19 [lead'], status 0x18 [flag]] = Some s'
    \<and> m_phase s' = CP_DONE \<and> m_confirmed s'"
proof -
  obtain s1 where 1: "on_element (\<lambda>_. ESP_OK) s e1 = Some s1" "m_phase s1 = CP_HANDSHAKE" "same_command s s1" "\<not> m_have_profile0 s1"
    using wake_element [OF s(1) first s(2)] by blast
  obtain s2 where 2: "on_element (\<lambda>_. ESP_OK) s1 e2 = Some s2" "m_phase s2 = CP_PROFILE" "same_command s1 s2" "\<not> m_have_profile0 s2"
    using ack_element [OF 1(2) ack 1(4)] by blast
  have op2: "m_op s2 \<noteq> BC_SET_CURRENT"
    using 1(3) 2(3) s(3) by (simp add: same_command_def)
  obtain s3 where 3: "on_element (\<lambda>_. ESP_OK) s2 (status 0x19 (array_bytes lead tot large pos start ps)) = Some s3"
    "m_phase s3 = CP_ARM_WAIT \<or> m_phase s3 = CP_CONFIRM" "same_command s2 s3"
    using reply_element [OF 2(2,4) op2 reply] by blast
  have op3: "m_op s3 \<noteq> BC_SET_CURRENT"
    using 3(3) op2 by (simp add: same_command_def)
  obtain s4 where 4: "on_element (\<lambda>_. ESP_OK) s3 (status 0x19 [lead']) = Some s4" "m_phase s4 = CP_CONFIRM" "same_command s3 s4"
    using echo_element [OF 3(2) op3 echo] by blast
  have op4: "m_op s4 \<noteq> BC_SET_CURRENT" "(flag \<noteq> 0) = m_enable s4"
    using 1(3) 2(3) 3(3) 4(3) op3 flag by (simp_all add: same_command_def)
  obtain s5 where "on_element (\<lambda>_. ESP_OK) s4 (status 0x18 [flag]) = Some s5" "m_phase s5 = CP_DONE" "m_confirmed s5"
    using opmode_element [OF 4(2) op4] by blast
  then show ?thesis
    using 1(1) 2(1) 3(1) 4(1) by simp
qed

subsection \<open>Properties\<close>

text \<open>C1. In every state the controller can reach, under any interleaving of commands, ticks and
  received frames and whatever the driver answers, every frame it has handed to the driver is on
  one of its two ids, and the byte that carries \<open>maxCurrent\<close> in a profile write (byte 3 of the
  continuation \<open>0xC0\<close>) is at most 32 A.\<close>

theorem max_current_on_wire:
  assumes "bc_reach drv s" and "(i, dlc, d) \<in> set (bc_tx s)"
  shows "(i = wake_id \<or> i = kCanIdCommand) \<and> (d ! 0 = 0xC0 \<longrightarrow> d ! 3 \<le> 0x20)"
  using bc_reach_inv [OF assms(1)] assms(2) by (auto simp: bc_inv_def safe_frame_def kMaxCurrentHardLimit_def)

definition fresh_set :: assembler_set where
  "fresh_set = \<lparr>aset_asm = replicate 2 (fresh_assembler 224), aset_id = [0, 0], aset_used = [False, False],
     aset_unknownDrops = 0\<rparr>"

lemma fresh_set_inv: "aset_inv 224 fresh_set"
  using fresh_assembler_inv [of 224] by (auto simp: fresh_set_def aset_inv_def less_2_cases_iff)

abbreviation ok_driver :: driver where "ok_driver \<equiv> \<lambda>_. ESP_OK"

lemma reach_fresh: "bc_reach drv (bc_init fresh_set)"
  by (rule bc_reach.init [OF fresh_set_inv])

lemma reach_climate: "bc_reach drv (snd (Climate (bc_init fresh_set) b))"
  by (rule bc_reach.step [OF reach_fresh, of "EvClimate b"]) simp_all

lemma climate_tx: "bc_tx (snd (Climate (bc_init fresh_set) b)) = [(wake_id, 8, [0x7D, 0x10, 0x49, 0x85, 0x14, 0, 0, 0])]"
  by (simp add: Climate_def Begin_fields bc_init_def VWEGOLF_NM_WAKE_NODE_def Let_def)




text \<open>C6. The wake bridge is bounded: whatever frames arrive, twenty ticks after the last command
  the bus is no longer held awake.\<close>

theorem wake_bridge_bounded:
  assumes "bc_reach drv s" "\<forall>ev \<in> set evs. event_ok ev \<and> \<not> is_command ev" "bc_run drv s evs = Some s'"
    and "20 \<le> length (filter is_tick evs)"
  shows "\<not> WakeActive s'"
proof -
  have "unat (m_wake_hold s) \<le> 20"
    using bc_reach_inv [OF assms(1)] by (simp add: bc_inv_def)
  then have "unat (m_wake_hold s') = 0"
    using run_hold [OF assms(1-3)] assms(4) by linarith
  then show ?thesis
    by (simp add: WakeActive_def word_less_nat_alt)
qed

lemma ticks_run: "bc_reach drv s \<Longrightarrow> \<exists>s'. bc_run drv s (replicate n (EvTick True)) = Some s'"
  using events_total [of drv s "replicate n (EvTick True)"] by auto

theorem wake_bridge_bounded_witness:
  "\<exists>s'. bc_run ok_driver (snd (Climate (bc_init fresh_set) True)) (replicate 20 (EvTick True)) = Some s' \<and> \<not> WakeActive s'"
proof -
  obtain s' where s': "bc_run ok_driver (snd (Climate (bc_init fresh_set) True)) (replicate 20 (EvTick True)) = Some s'"
    using ticks_run [OF reach_climate] by blast
  have "\<not> WakeActive s'"
    by (rule wake_bridge_bounded [OF reach_climate _ s']) simp_all
  with s' show ?thesis
    by blast
qed

text \<open>The tick that ends the bridge reports the outcome once: exactly one alert when the
  command was not confirmed, none when it was; no other tick raises one.\<close>

theorem outcome_reported_once:
  assumes "bc_reach drv s" "Ticker1 drv s alive = Some s'" "m_phase s \<noteq> CP_IDLE" "m_wake_hold s \<noteq> 0"
  shows "m_wake_hold s' = m_wake_hold s - 1 \<and>
    length (bc_notes s') = length (bc_notes s) + (if m_wake_hold s = 1 \<and> \<not> m_confirmed s then 1 else 0) \<and>
    (m_wake_hold s = 1 \<longrightarrow> m_phase s' = CP_IDLE)"
proof -
  have "tick_rel s s'"
    using Ticker1_rel [of s drv alive] bc_reach_inv [OF assms(1)] assms(2-4) by (simp add: bc_inv_def in_flight_def)
  then show ?thesis
    by (auto simp: tick_rel_def split: if_splits)
qed

lemma climate_fields:
  "m_phase (snd (Climate s b)) = CP_WAKE" "m_wake_hold (snd (Climate s b)) = 20" "m_op (snd (Climate s b)) = BC_CLIMATE"
  "\<not> m_have_profile0 (snd (Climate s b))" "m_enable (snd (Climate s b)) = b" "bc_notes (snd (Climate s b)) = bc_notes s"
  by (simp_all add: Climate_def Begin_fields Let_def)

theorem outcome_reported_once_witness:
  "\<exists>s'. Ticker1 ok_driver (snd (Climate (bc_init fresh_set) True)) True = Some s' \<and> length (bc_notes s') = 0"
proof -
  let ?s = "snd (Climate (bc_init fresh_set) True)"
  obtain s' where s': "Ticker1 ok_driver ?s True = Some s'"
    using ticks_run [OF reach_climate, of ok_driver True 1] by (auto split: option.splits bind_splits)
  have "length (bc_notes s') = length (bc_notes ?s) + (if m_wake_hold ?s = 1 \<and> \<not> m_confirmed ?s then 1 else 0)"
    using outcome_reported_once [OF reach_climate s'] by (simp add: climate_fields)
  with s' show ?thesis
    by (simp add: climate_fields bc_init_def)
qed

text \<open>A concrete session: the unit is heard, acknowledges the handshake, answers the read with one
  profile in a 25-byte array (start frame and three continuations) and echoes the write.\<close>

definition session :: "bc_event list" where
  "session = [EvClimate True,
     EvBap 0x17332510 2 [0x49, 0x42, 0, 0, 0, 0, 0, 0], EvBap 0x17332510 2 [0x49, 0x42, 0, 0, 0, 0, 0, 0],
     EvBap 0x17332510 8 [0x80, 25, 0x49, 0x59, 0x31, 1, 0, 0], EvBap 0x17332510 8 [0xC0, 1, 5, 0, 13, 0, 0, 0],
     EvBap 0x17332510 8 [0xC1, 0, 0, 0, 0, 0, 0, 120], EvBap 0x17332510 8 [0xC2, 0, 0, 0, 0, 0, 0, 0]]"

definition session_echo :: bc_event where
  "session_echo = EvBap 0x17332510 3 [0x49, 0x59, 0xB2, 0, 0, 0, 0, 0]"

lemma session_ok: "\<forall>ev \<in> set session. event_ok ev" "event_ok session_echo"
  by (simp_all add: session_def session_echo_def)

definition added :: "'a list \<Rightarrow> 'a list \<Rightarrow> 'a list" where
  "added xs ys = (if take (length xs) ys = xs then drop (length xs) ys else [])"

lemma added_append: "added xs ys \<noteq> [] \<Longrightarrow> ys = xs @ added xs ys"
  by (auto simp: added_def split: if_splits) (metis append_take_drop_id)

lemma session_trigger:
  "map_option (\<lambda>s. map_option (\<lambda>s'. added (bc_tx s) (bc_tx s')) (bc_apply ok_driver s session_echo))
     (bc_run ok_driver (bc_init fresh_set) session) = Some (Some [(kCanIdCommand, 4, [0x29, 0x58, 0, 1, 0, 0, 0, 0])])"
  by code_simp


text \<open>The same session with a stored profile that asks for 40 A: the arm writes 32 A.\<close>

definition session_40A :: "bc_event list" where
  "session_40A = session[4 := EvBap 0x17332510 8 [0xC0, 1, 5, 0, 40, 0, 0, 0]]"

lemma session_40A_ok: "\<forall>ev \<in> set session_40A. event_ok ev"
  by (simp add: session_40A_def session_def)

lemma session_40A_arm:
  "map_option (\<lambda>s. bc_tx s ! 5) (bc_run ok_driver (bc_init fresh_set) session_40A)
     = Some (kCanIdCommand, 8, [0xC0, 6, 0, 0x20, 0, 0, 0, 0])"
  "map_option (\<lambda>s. length (bc_tx s)) (bc_run ok_driver (bc_init fresh_set) session_40A) = Some 8"
  by code_simp+

theorem max_current_on_wire_witness:
  "\<exists>s d. bc_run ok_driver (bc_init fresh_set) session_40A = Some s \<and> (kCanIdCommand, 8, d) \<in> set (bc_tx s) \<and>
     d ! 0 = 0xC0 \<and> d ! 3 \<le> 0x20"
proof -
  obtain s where s: "bc_run ok_driver (bc_init fresh_set) session_40A = Some s" "bc_reach ok_driver s"
    using events_total [OF reach_fresh session_40A_ok] by blast
  have "bc_tx s ! 5 = (kCanIdCommand, 8, [0xC0, 6, 0, 0x20, 0, 0, 0, 0])" "length (bc_tx s) = 8"
    using session_40A_arm s(1) by simp_all
  then have mem: "(kCanIdCommand, 8, [0xC0, 6, 0, 0x20, 0, 0, 0, 0]) \<in> set (bc_tx s)"
    using nth_mem [of 5 "bc_tx s"] by simp
  show ?thesis
    using max_current_on_wire [OF s(2) mem] s(1) mem by auto
qed

text \<open>The arm is a read-modify-write: profile 0 goes back as it was read except for the operation
  bits of the command (climate 6, charge 1 in the low three bits) and the charge current, which is
  the requested or the read one capped at 32 A.\<close>

theorem arm_read_modify_write:
  "arm_profile s = (m_profile0 s)\<lparr>
     p_operation := (case m_op s of
        BC_CLIMATE \<Rightarrow> (p_operation (m_profile0 s) AND 0xF8) OR 0x06
      | BC_CHARGE \<Rightarrow> (p_operation (m_profile0 s) AND 0xF8) OR 0x01
      | BC_SET_CURRENT \<Rightarrow> if m_apply s then (p_operation (m_profile0 s) AND 0xF8) OR 0x01
                          else p_operation (m_profile0 s)),
     p_maxCurrent := min (if m_op s = BC_SET_CURRENT then m_param s else p_maxCurrent (m_profile0 s)) 0x20\<rparr>"
  using arm_profile_eq [of s] by (simp add: kMaxCurrentHardLimit_def)



text \<open>C7. No event can make the controller read or write outside a buffer or through a null body:
  from every reachable state every sequence of events runs to the end and stays reachable.\<close>

theorem controller_total:
  assumes "bc_reach drv s" "\<forall>ev \<in> set evs. event_ok ev"
  shows "\<exists>s'. bc_run drv s evs = Some s' \<and> bc_reach drv s'"
  using events_total [OF assms] .

theorem controller_total_witness:
  "\<exists>s'. bc_run ok_driver (bc_init fresh_set) session = Some s' \<and> bc_reach ok_driver s'"
  by (rule controller_total [OF reach_fresh session_ok(1)])

end
