(* ===== verification/MicrorlHistory.thy ===== *)
theory MicrorlHistory
  imports Prelude
begin

section \<open>The command history of the line editor\<close>

text \<open>
  Model of the \<open>ring_history_t\<close> part of \<open>microrl/microrl.c\<close>: lines are stored in a ring of 256
  bytes, each as one length byte followed by its characters, and the oldest lines are given up
  when a new one does not fit. \<open>char\<close> is unsigned on the target, so the length byte holds
  \<open>0..255\<close>. The loops of the C code run along the ring until they meet a zero length byte and
  need not end on an arbitrary ring, so they are partial functions whose value \<open>None\<close> stands for
  a loop that does not end or leaves a buffer. The theory proves that the ring implements a list
  of lines (\<open>history\<close> below): saving appends and drops from the front, the two search directions
  walk that list.
\<close>

subsection \<open>Ring and operations\<close>

abbreviation RING_HISTORY_LEN :: nat where "RING_HISTORY_LEN \<equiv> 256"
abbreviation COMMAND_LINE_LEN :: nat where "COMMAND_LINE_LEN \<equiv> 800"

record ring_history =
  ring_buf :: bytes
  rh_begin :: nat
  rh_end :: nat
  rh_cur :: nat

datatype hist_dir = HIST_UP | HIST_DOWN

definition ring_wrap :: "nat \<Rightarrow> nat" where
  "ring_wrap p = (if p \<ge> RING_HISTORY_LEN then p - RING_HISTORY_LEN else p)"

definition hist_erase_older :: "ring_history \<Rightarrow> ring_history option" where
  "hist_erase_older h = do {
     l \<leftarrow> rd (ring_buf h) (rh_begin h);
     Some (h\<lparr>rh_begin := ring_wrap (rh_begin h + unat l + 1)\<rparr>) }"

definition hist_is_space_for_new :: "ring_history \<Rightarrow> nat \<Rightarrow> bool option" where
  "hist_is_space_for_new h n = do {
     l \<leftarrow> rd (ring_buf h) (rh_begin h);
     Some (if l = 0 then True
           else if rh_end h \<ge> rh_begin h
             then int RING_HISTORY_LEN - int (rh_end h) + int (rh_begin h) - 1 > int n
             else int (rh_begin h) - int (rh_end h) - 1 > int n) }"

partial_function (option) hist_make_space :: "ring_history \<Rightarrow> nat \<Rightarrow> ring_history option" where
  "hist_make_space h n = do {
     sp \<leftarrow> hist_is_space_for_new h n;
     if sp then Some h
     else do { h' \<leftarrow> hist_erase_older h; hist_make_space h' n } }"

text \<open>The two \<open>memcpy\<close> branches of \<open>hist_save_line\<close>: up to the end of the ring, then from its
  start.\<close>

definition ring_store :: "bytes \<Rightarrow> nat \<Rightarrow> bytes \<Rightarrow> nat \<Rightarrow> bytes option" where
  "ring_store buf e line n =
     (if int n < int RING_HISTORY_LEN - int e - 1 then do {
        bs \<leftarrow> rdn line 0 n;
        memcpy_at buf (e + 1) bs }
      else do {
        let part_len = RING_HISTORY_LEN - e - 1;
        bs \<leftarrow> rdn line 0 part_len;
        buf1 \<leftarrow> memcpy_at buf (e + 1) bs;
        bs' \<leftarrow> rdn line part_len (n - part_len);
        memcpy_at buf1 0 bs' })"

definition hist_save_line :: "ring_history \<Rightarrow> bytes \<Rightarrow> nat \<Rightarrow> ring_history option" where
  "hist_save_line h0 line n =
     (if n > RING_HISTORY_LEN - 2 then Some h0
      else do {
        h \<leftarrow> hist_make_space h0 n;
        first \<leftarrow> rd (ring_buf h) (rh_begin h);
        buf1 \<leftarrow> (if first = 0 then wr (ring_buf h) (rh_begin h) (word_of_nat n) else Some (ring_buf h));
        buf2 \<leftarrow> ring_store buf1 (rh_end h) line n;
        buf3 \<leftarrow> wr buf2 (rh_end h) (word_of_nat n);
        let e = ring_wrap (rh_end h + n + 1);
        buf4 \<leftarrow> wr buf3 e 0;
        Some (h\<lparr>ring_buf := buf4, rh_end := e, rh_cur := 0\<rparr>) })"

text \<open>The loops of \<open>hist_restore_line\<close>: counting the records, and walking to the record where
  \<open>stop j\<close> holds.\<close>

partial_function (option) hist_count :: "bytes \<Rightarrow> nat \<Rightarrow> nat \<Rightarrow> nat option" where
  "hist_count buf header cnt = do {
     l \<leftarrow> rd buf header;
     if l \<noteq> 0 then hist_count buf (ring_wrap (header + unat l + 1)) (cnt + 1) else Some cnt }"

partial_function (option) hist_find :: "bytes \<Rightarrow> nat \<Rightarrow> (nat \<Rightarrow> bool) \<Rightarrow> nat \<Rightarrow> nat option" where
  "hist_find buf header stop j = do {
     l \<leftarrow> rd buf header;
     if l \<noteq> 0 \<and> \<not> stop j then hist_find buf (ring_wrap (header + unat l + 1)) stop (j + 1)
     else Some header }"

definition ring_fetch :: "bytes \<Rightarrow> nat \<Rightarrow> bytes \<Rightarrow> bytes option" where
  "ring_fetch buf header line = do {
     l \<leftarrow> rd buf header;
     if unat l + header < RING_HISTORY_LEN then do {
       bs \<leftarrow> rdn buf (header + 1) (unat l);
       memcpy_at line 0 bs }
     else do {
       let part0 = RING_HISTORY_LEN - header - 1;
       bs \<leftarrow> rdn buf (header + 1) part0;
       line1 \<leftarrow> memcpy_at line 0 bs;
       bs' \<leftarrow> rdn buf 0 (unat l - part0);
       memcpy_at line1 part0 bs' } }"

definition hist_restore_line :: "ring_history \<Rightarrow> bytes \<Rightarrow> hist_dir \<Rightarrow> (int \<times> ring_history \<times> bytes) option" where
  "hist_restore_line h line dir = do {
     cnt \<leftarrow> hist_count (ring_buf h) (rh_begin h) 0;
     case dir of
       HIST_UP \<Rightarrow>
         (if cnt \<ge> rh_cur h then do {
            header \<leftarrow> hist_find (ring_buf h) (rh_begin h) (\<lambda>j. int cnt - int j - 1 = int (rh_cur h)) 0;
            l \<leftarrow> rd (ring_buf h) header;
            if l \<noteq> 0 then do {
              line' \<leftarrow> ring_fetch (ring_buf h) header (replicate COMMAND_LINE_LEN 0);
              Some (int (unat l), h\<lparr>rh_cur := rh_cur h + 1\<rparr>, line') }
            else Some (-1, h, line) }
          else Some (-1, h, line))
     | HIST_DOWN \<Rightarrow>
         (if rh_cur h > 0 then do {
            let h' = h\<lparr>rh_cur := rh_cur h - 1\<rparr>;
            header \<leftarrow> hist_find (ring_buf h') (rh_begin h') (\<lambda>j. int cnt - int j = int (rh_cur h')) 0;
            l \<leftarrow> rd (ring_buf h') header;
            line' \<leftarrow> ring_fetch (ring_buf h') header line;
            Some (int (unat l), h', line') }
          else Some (0, h, line)) }"

declare hist_make_space.simps [code] hist_count.simps [code] hist_find.simps [code]

subsection \<open>Reading the ring\<close>

text \<open>\<open>ring_bytes buf p bs\<close>: the bytes \<open>bs\<close> stand in the ring from position \<open>p\<close> on, across its end.\<close>

definition ring_bytes :: "bytes \<Rightarrow> nat \<Rightarrow> bytes \<Rightarrow> bool" where
  "ring_bytes buf p bs \<longleftrightarrow> (\<forall>i < length bs. buf ! ((p + i) mod 256) = bs ! i)"

lemma ring_bytes_Nil [simp]: "ring_bytes buf p []"
  by (simp add: ring_bytes_def)

lemma ring_bytes_Cons [simp]:
  "ring_bytes buf p (b # bs) \<longleftrightarrow> buf ! (p mod 256) = b \<and> ring_bytes buf (Suc p) bs"
  by (auto simp: ring_bytes_def nth_Cons split: nat.splits)

lemma ring_bytes_append [simp]:
  "ring_bytes buf p (as @ bs) \<longleftrightarrow> ring_bytes buf p as \<and> ring_bytes buf (p + length as) bs"
  by (induction as arbitrary: p) auto

lemma ring_bytes_mod [simp]: "ring_bytes buf (p mod 256) bs = ring_bytes buf p bs"
  by (simp add: ring_bytes_def mod_simps)

lemma ring_bytes_Suc_mod [simp]: "ring_bytes buf (Suc (p mod 256)) bs = ring_bytes buf (Suc p) bs"
  using ring_bytes_mod [of buf "Suc p" bs] ring_bytes_mod [of buf "Suc (p mod 256)" bs] by (simp add: mod_Suc_eq)

lemma ring_bytes_cong:
  assumes "\<And>i. i < length bs \<Longrightarrow> buf' ! ((p + i) mod 256) = buf ! ((p + i) mod 256)"
  shows "ring_bytes buf' p bs = ring_bytes buf p bs"
  using assms by (simp add: ring_bytes_def)

lemma ring_wrap_mod: "p < 512 \<Longrightarrow> ring_wrap p = p mod 256"
  by (auto simp: ring_wrap_def mod_if)

lemma ring_wrap_less: "p < 512 \<Longrightarrow> ring_wrap p < 256"
  by (simp add: ring_wrap_mod)

text \<open>The layout of a list of lines, and the lines the ring can hold.\<close>

definition enc :: "bytes list \<Rightarrow> bytes" where
  "enc recs = concat (map (\<lambda>l. word_of_nat (length l) # l) recs)"

lemma enc_simps [simp]:
  "enc [] = []" "enc (l # recs) = word_of_nat (length l) # l @ enc recs" "enc (xs @ ys) = enc xs @ enc ys"
  by (simp_all add: enc_def)

definition line_ok :: "bytes \<Rightarrow> bool" where
  "line_ok l \<longleftrightarrow> 0 < length l \<and> length l \<le> 254"

lemma line_ok_head: "line_ok l \<Longrightarrow> (word_of_nat (length l) :: u8) \<noteq> 0 \<and> unat (word_of_nat (length l) :: u8) = length l"
proof -
  assume "line_ok l"
  then have "unat (word_of_nat (length l) :: u8) = length l" "0 < length l"
    by (simp_all add: line_ok_def unat_word_of_nat_u8)
  then show ?thesis
    by (metis less_irrefl unsigned_0)
qed

lemma ring_mod_Suc: "Suc (p mod 256 + n) mod 256 = Suc (p + n) mod 256"
  by (metis mod_Suc_eq mod_add_left_eq)

lemma next_header: "line_ok l \<Longrightarrow>
  ring_wrap (p mod 256 + unat (word_of_nat (length l) :: u8) + 1) = (p + length l + 1) mod 256"
proof -
  assume l: "line_ok l"
  have "p mod 256 < 256"
    by simp
  then have "ring_wrap (p mod 256 + length l + 1) = (p mod 256 + length l + 1) mod 256"
    using l unfolding line_ok_def by (intro ring_wrap_mod) linarith
  then show ?thesis
    using line_ok_head [OF l] by (simp add: ring_mod_Suc)
qed

lemma hist_count_records:
  assumes "length buf = 256" "ring_bytes buf p (enc recs @ [0])" "\<forall>l \<in> set recs. line_ok l"
  shows "hist_count buf (p mod 256) c = Some (c + length recs)"
  using assms
proof (induction recs arbitrary: p c)
  case Nil
  then show ?case
    by (subst hist_count.simps) (simp add: rd_def)
next
  case (Cons l recs)
  have "hist_count buf ((p + length l + 1) mod 256) (c + 1) = Some (c + 1 + length recs)"
    using Cons.prems by (intro Cons.IH) simp_all
  moreover have "ring_wrap (p mod 256 + unat (word_of_nat (length l) :: u8) + 1) = (p + length l + 1) mod 256"
    using Cons.prems by (intro next_header) simp
  ultimately show ?case
    using Cons.prems line_ok_head [of l] by (subst hist_count.simps) (simp add: rd_def)
qed

lemma hist_find_record:
  assumes "length buf = 256" "ring_bytes buf p (enc recs @ [0])" "\<forall>l \<in> set recs. line_ok l"
    and "k \<le> length recs" "\<And>i. i < k \<Longrightarrow> \<not> stop (j + i)" "k = length recs \<or> stop (j + k)"
  shows "hist_find buf (p mod 256) stop j = Some ((p + length (enc (take k recs))) mod 256)"
  using assms
proof (induction recs arbitrary: p j k)
  case Nil
  then show ?case
    by (subst hist_find.simps) (simp add: rd_def)
next
  case (Cons l recs)
  have rdl: "rd buf (p mod 256) = Some (word_of_nat (length l))"
    using Cons.prems by (simp add: rd_def)
  have step: "ring_wrap (p mod 256 + unat (word_of_nat (length l) :: u8) + 1) = (p + length l + 1) mod 256"
    using Cons.prems by (intro next_header) simp
  show ?case
  proof (cases k)
    case 0
    then show ?thesis
      using Cons.prems rdl by (subst hist_find.simps) simp
  next
    case (Suc k')
    have "hist_find buf ((p + length l + 1) mod 256) stop (j + 1)
        = Some ((p + length l + 1 + length (enc (take k' recs))) mod 256)"
    proof (rule Cons.IH)
      show "\<not> stop (j + 1 + i)" if "i < k'" for i
        using Cons.prems(5) [of "Suc i"] that Suc by simp
      show "k' = length recs \<or> stop (j + 1 + k')"
        using Cons.prems(6) Suc by simp
    qed (use Cons.prems Suc in simp_all)
    moreover have "\<not> stop j"
      using Cons.prems(5) [of 0] Suc by simp
    ultimately show ?thesis
      using Cons.prems rdl step Suc line_ok_head [of l] by (subst hist_find.simps) (simp add: add.assoc)
  qed
qed

lemma ring_bytes_take: "length buf = 256 \<Longrightarrow> ring_bytes buf p bs \<Longrightarrow> p + n \<le> 256 \<Longrightarrow> n \<le> length bs \<Longrightarrow>
  take n (drop p buf) = take n bs"
proof (rule nth_equalityI)
  fix i
  assume a: "length buf = 256" "ring_bytes buf p bs" "p + n \<le> 256" "n \<le> length bs" "i < length (take n (drop p buf))"
  then have "p + i < 256" "i < length bs"
    by simp_all
  moreover from this a(2) have "buf ! ((p + i) mod 256) = bs ! i"
    unfolding ring_bytes_def by blast
  ultimately have "buf ! (p + i) = bs ! i"
    by (simp only: mod_less)
  with a show "take n (drop p buf) ! i = take n bs ! i"
    by simp
qed simp

lemma ring_fetch_record:
  assumes "length buf = 256" "header < 256" "ring_bytes buf header (word_of_nat (length l) # l)" "length l \<le> 254"
    and "length l \<le> length line"
  shows "ring_fetch buf header line = Some (l @ drop (length l) line)"
proof -
  have ul: "unat (word_of_nat (length l) :: u8) = length l"
    using assms by (simp add: unat_word_of_nat_u8)
  have h: "rd buf header = Some (word_of_nat (length l))"
    using assms by (simp add: rd_def)
  show ?thesis
  proof (cases "length l + header < 256")
    case True
    have "take (length l) (drop (header + 1) buf) = l"
      using ring_bytes_take [of buf "header + 1" l "length l"] assms True by simp
    then show ?thesis
      using assms True h ul by (simp add: ring_fetch_def rdn_def memcpy_at_def)
  next
    case False
    define k where "k = 255 - header"
    have k: "k \<le> length l" "header + 1 + k = 256"
      using False assms by (auto simp: k_def)
    have 1: "take k (drop (header + 1) buf) = take k l"
      using ring_bytes_take [of buf "header + 1" l k] assms k by simp
    have "ring_bytes buf (Suc header) (take k l @ drop k l)"
      using assms by simp
    then have "ring_bytes buf (Suc header + length (take k l)) (drop k l)"
      unfolding ring_bytes_append by blast
    moreover have "Suc header + length (take k l) = 256"
      using k by simp
    ultimately have "ring_bytes buf 256 (drop k l)"
      by (simp only:)
    then have "ring_bytes buf 0 (drop k l)"
      using ring_bytes_mod [of buf 256 "drop k l"] k by simp
    then have 2: "take (length l - k) (drop 0 buf) = drop k l"
      using ring_bytes_take [of buf 0 "drop k l" "length l - k"] assms by simp
    have "255 - header = k"
      by (simp add: k_def)
    then show ?thesis
      using False assms h ul 1 2 k
      by (simp add: ring_fetch_def rdn_def memcpy_at_def min_def)
  qed
qed

subsection \<open>The ring as a list of lines\<close>

text \<open>\<open>hist_rel h recs\<close>: the ring holds the lines \<open>recs\<close>, oldest first, from \<open>begin\<close> up to the
  zero byte at \<open>end\<close>; at least one byte stays free.\<close>

definition hist_rel :: "ring_history \<Rightarrow> bytes list \<Rightarrow> bool" where
  "hist_rel h recs \<longleftrightarrow> length (ring_buf h) = 256 \<and> rh_begin h < 256 \<and> (\<forall>l \<in> set recs. line_ok l) \<and>
     length (enc recs) \<le> 255 \<and> rh_end h = (rh_begin h + length (enc recs)) mod 256 \<and>
     ring_bytes (ring_buf h) (rh_begin h) (enc recs @ [0]) \<and> rh_cur h \<le> length recs"

text \<open>The specification: the oldest lines are dropped until the new one fits beside the others.\<close>

fun trim :: "bytes list \<Rightarrow> nat \<Rightarrow> bytes list" where
  "trim [] n = []"
| "trim (l # recs) n = (if length (enc (l # recs)) + n + 1 \<le> 255 then l # recs else trim recs n)"

lemma trim_fits: "n \<le> 254 \<Longrightarrow> length (enc (trim recs n)) + n + 1 \<le> 255"
  by (induction recs n rule: trim.induct) auto

lemma trim_suffix: "\<exists>xs. recs = xs @ trim recs n"
proof (induction recs n rule: trim.induct)
  case (2 l recs n)
  then show ?case
    by (auto intro: exI [of _ "[]"]) (metis append_Cons)
qed simp

lemma trim_set: "set (trim recs n) \<subseteq> set recs"
  using trim_suffix [of recs n] by (metis set_append Un_upper2)

lemma space_for_new:
  assumes "hist_rel h (l # recs)"
  shows "hist_is_space_for_new h n = Some (length (enc (l # recs)) + n + 1 \<le> 255)"
proof -
  have l: "line_ok l" and used: "length (enc (l # recs)) \<le> 255" and b: "rh_begin h < 256"
    and e: "rh_end h = (rh_begin h + length (enc (l # recs))) mod 256"
    and hd: "ring_buf h ! rh_begin h = word_of_nat (length l)" "length (ring_buf h) = 256"
    using assms by (auto simp: hist_rel_def)
  define u where "u = length (enc (l # recs))"
  have "rh_end h = (if rh_begin h + u < 256 then rh_begin h + u else rh_begin h + u - 256)"
    using e b used by (auto simp: u_def mod_if)
  moreover have "0 < u"
    by (simp add: u_def)
  ultimately show ?thesis
    using line_ok_head [OF l] b hd used unfolding u_def [symmetric]
    by (auto simp: hist_is_space_for_new_def rd_def split: if_splits)
qed

lemma erase_older:
  assumes "hist_rel h (l # recs)"
  shows "\<exists>h'. hist_erase_older h = Some h' \<and> hist_rel (h'\<lparr>rh_cur := 0\<rparr>) recs \<and> ring_buf h' = ring_buf h \<and> rh_end h' = rh_end h"
proof -
  have l: "line_ok l" and b: "rh_begin h < 256"
    and hd: "ring_buf h ! rh_begin h = word_of_nat (length l)" "length (ring_buf h) = 256"
    using assms by (auto simp: hist_rel_def)
  have w: "ring_wrap (rh_begin h + unat (word_of_nat (length l) :: u8) + 1) = (rh_begin h + length l + 1) mod 256"
    using next_header [OF l, of "rh_begin h"] b by simp
  have "ring_bytes (ring_buf h) (rh_begin h + length l + 1) (enc recs @ [0])"
    using assms by (simp add: hist_rel_def add.assoc)
  then show ?thesis
    using assms b hd w unfolding hist_erase_older_def hist_rel_def
    by (simp add: rd_def mod_add_left_eq add.assoc)
qed

lemma hist_rel_cur: "hist_rel h recs \<Longrightarrow> hist_rel (h\<lparr>rh_cur := 0\<rparr>) recs"
  by (simp add: hist_rel_def)

lemma make_space:
  assumes "hist_rel (h\<lparr>rh_cur := 0\<rparr>) recs"
  shows "\<exists>h'. hist_make_space h n = Some h' \<and> hist_rel (h'\<lparr>rh_cur := 0\<rparr>) (trim recs n)"
  using assms
proof (induction recs arbitrary: h)
  case Nil
  then have "hist_is_space_for_new h n = Some True"
    by (auto simp: hist_rel_def hist_is_space_for_new_def rd_def)
  with Nil show ?case
    by (subst hist_make_space.simps) simp
next
  case (Cons l recs)
  have sp: "hist_is_space_for_new h n = Some (length (enc (l # recs)) + n + 1 \<le> 255)"
    using space_for_new [OF Cons.prems, of n] by (simp add: hist_is_space_for_new_def cong: if_cong)
  show ?case
  proof (cases "length (enc (l # recs)) + n + 1 \<le> 255")
    case True
    then show ?thesis
      using sp Cons.prems by (subst hist_make_space.simps) simp
  next
    case False
    obtain h1 where h1: "hist_erase_older (h\<lparr>rh_cur := 0\<rparr>) = Some h1" "hist_rel (h1\<lparr>rh_cur := 0\<rparr>) recs"
      using erase_older [OF Cons.prems] by blast
    obtain h2 where h2: "hist_erase_older h = Some h2" "h2\<lparr>rh_cur := 0\<rparr> = h1\<lparr>rh_cur := 0\<rparr>"
      using h1(1) by (auto simp: hist_erase_older_def bind_eq_Some_conv)
    obtain h3 where "hist_make_space h2 n = Some h3" "hist_rel (h3\<lparr>rh_cur := 0\<rparr>) (trim recs n)"
      using Cons.IH [of h2] h1(2) h2(2) by auto
    then show ?thesis
      using sp False h2(1) by (subst hist_make_space.simps) simp
  qed
qed

lemma ring_store_spec:
  assumes "length buf = 256" "e < 256" "n \<le> 254" "n \<le> length line"
  shows "\<exists>buf'. ring_store buf e line n = Some buf' \<and> length buf' = 256 \<and> ring_bytes buf' (Suc e) (take n line) \<and>
     (\<forall>k < 256. (\<forall>i < n. k \<noteq> (Suc e + i) mod 256) \<longrightarrow> buf' ! k = buf ! k)"
proof (cases "n < 255 - e")
  case True
  define buf' where "buf' = take (e + 1) buf @ take n line @ drop (e + 1 + n) buf"
  have "ring_store buf e line n = Some buf'"
    using assms True by (auto simp: ring_store_def rdn_def memcpy_at_def buf'_def)
  moreover have "length buf' = 256"
    using assms True by (simp add: buf'_def)
  moreover have "ring_bytes buf' (Suc e) (take n line)"
    using assms True by (auto simp: ring_bytes_def buf'_def nth_append)
  moreover have "buf' ! k = buf ! k" if k: "k < 256" "\<forall>i < n. k \<noteq> (Suc e + i) mod 256" for k
  proof -
    have "k \<notin> {Suc e ..< Suc e + n}"
    proof
      assume "k \<in> {Suc e ..< Suc e + n}"
      then have "k - Suc e < n" "Suc e + (k - Suc e) = k"
        by auto
      then show False
        using k(2) [rule_format, of "k - Suc e"] k(1) by simp
    qed
    then show ?thesis
      using assms True k(1) by (auto simp: buf'_def nth_append)
  qed
  ultimately show ?thesis
    by blast
next
  case False
  define p where "p = 255 - e"
  have p: "e + 1 + p = 256" "p \<le> n"
    using False assms by (auto simp: p_def)
  define buf' where "buf' = drop p (take n line) @ drop (n - p) (take (e + 1) buf) @ take p line"
  have "ring_store buf e line n = Some buf'"
    using assms False p by (auto simp: ring_store_def rdn_def memcpy_at_def buf'_def Let_def p_def [symmetric] drop_take)
  moreover have len: "length buf' = 256"
    using assms False p by (simp add: buf'_def)
  moreover have "ring_bytes buf' (Suc e) (take n line)"
    unfolding ring_bytes_def
  proof (intro allI impI)
    fix i assume i: "i < length (take n line)"
    show "buf' ! ((Suc e + i) mod 256) = take n line ! i"
    proof (cases "i < p")
      case True
      define X where "X = length (drop p (take n line)) + (length (drop (n - p) (take (e + 1) buf)) + i)"
      have "buf' ! X = take p line ! i"
        unfolding buf'_def X_def by (simp only: nth_append_length_plus)
      moreover have "X = Suc e + i"
        using assms p by (simp add: X_def)
      moreover have "Suc e + i < 256"
        using True p by simp
      ultimately have "buf' ! ((Suc e + i) mod 256) = take p line ! i"
        by (simp only: mod_less)
      also have "\<dots> = take n line ! i"
        using True p by simp
      finally show ?thesis .
    next
      case False
      then have "Suc e + i = 256 + (i - p)" "i - p < 256"
        using p i assms by auto
      then have "(Suc e + i) mod 256 = i - p"
        by (simp only: mod_add_self1 mod_less)
      moreover have "i - p < n - p" "p + (i - p) = i"
        using False i assms by auto
      ultimately show ?thesis
        using False assms p i by (simp add: buf'_def nth_append)
    qed
  qed
  moreover have "buf' ! k = buf ! k" if k: "k < 256" "\<forall>i < n. k \<noteq> (Suc e + i) mod 256" for k
  proof -
    have "\<not> k < n - p"
    proof
      assume "k < n - p"
      then have "k + p < n" "Suc e + (k + p) = 256 + k"
        using p by auto
      moreover have "(256 + k) mod 256 = k"
        using k(1) by simp
      ultimately show False
        using k(2) [rule_format, of "k + p"] by metis
    qed
    moreover have "\<not> k \<ge> e + 1"
    proof
      assume "k \<ge> e + 1"
      then have "k - Suc e < n" "Suc e + (k - Suc e) = k"
        using k(1) p by auto
      then show False
        using k(2) [rule_format, of "k - Suc e"] k(1) by simp
    qed
    moreover have "k + p - n < 256 - n" "n - p + (k + p - n) = k" if "\<not> k < n - p" "\<not> k \<ge> e + 1"
      using that p assms by auto
    ultimately show ?thesis
      using assms p by (simp add: buf'_def nth_append)
  qed
  ultimately show ?thesis
    by blast
qed

lemma ring_positions_distinct:
  assumes "i < j" "j < i + 256"
  shows "((b :: nat) + i) mod 256 \<noteq> (b + j) mod 256"
proof
  assume "(b + i) mod 256 = (b + j) mod 256"
  then have "256 dvd (b + j) - (b + i)"
    using assms mod_eq_dvd_iff_nat [of "b + i" "b + j" 256] by (metis add_le_cancel_left less_imp_le)
  then show False
    using assms by (auto dest: dvd_imp_le)
qed

theorem save_line:
  assumes rel: "hist_rel h recs" and n: "0 < n" "n \<le> 254" "n \<le> length line"
  shows "\<exists>h'. hist_save_line h line n = Some h' \<and> hist_rel h' (trim recs n @ [take n line]) \<and> rh_cur h' = 0"
proof -
  define rs where "rs = trim recs n"
  obtain h1 where h1: "hist_make_space h n = Some h1" "hist_rel (h1\<lparr>rh_cur := 0\<rparr>) rs"
    using make_space [OF hist_rel_cur [OF rel], of n] by (auto simp: rs_def)
  define b u where "b = rh_begin h1" and "u = length (enc rs)"
  have fits: "u + n + 1 \<le> 255"
    using trim_fits [OF n(2), of recs] by (simp add: u_def rs_def)
  have buf: "length (ring_buf h1) = 256" and b: "b < 256" and e: "rh_end h1 = (b + u) mod 256"
    and ok: "\<forall>l \<in> set rs. line_ok l" and bytes: "ring_bytes (ring_buf h1) b (enc rs @ [0])"
    using h1(2) by (simp_all add: hist_rel_def b_def u_def)
  have ul: "unat (word_of_nat n :: u8) = n" "(word_of_nat n :: u8) \<noteq> 0"
    using line_ok_head [of "take n line"] n by (simp_all add: line_ok_def)
  have first: "rd (ring_buf h1) b = Some (if rs = [] then 0 else word_of_nat (length (hd rs)))"
    using bytes b buf by (cases rs) (simp_all add: rd_def)
  define buf1 where "buf1 = (if rs = [] then (ring_buf h1)[b := word_of_nat n] else ring_buf h1)"
  have first0: "(if rs = [] then 0 else word_of_nat (length (hd rs)) :: u8) = 0 \<longleftrightarrow> rs = []"
    using ok line_ok_head by (cases rs) auto
  have buf1: "length buf1 = 256" "\<And>k. k \<noteq> (b + u) mod 256 \<Longrightarrow> buf1 ! k = ring_buf h1 ! k"
    using buf b by (auto simp: buf1_def u_def)
  define ee where "ee = (b + u) mod 256"
  have ee: "ee < 256"
    by (simp add: ee_def)
  obtain buf2 where buf2: "ring_store buf1 ee line n = Some buf2" "length buf2 = 256" "ring_bytes buf2 (Suc ee) (take n line)"
     and keep: "\<forall>k < 256. (\<forall>i < n. k \<noteq> (Suc ee + i) mod 256) \<longrightarrow> buf2 ! k = buf1 ! k"
    using ring_store_spec [OF buf1(1) ee n(2,3)] by blast
  define e' where "e' = (b + u + n + 1) mod 256"
  have wrap: "ring_wrap (ee + n + 1) = e'"
    using ee n ring_mod_Suc [of "b + u" n] by (simp add: ring_wrap_mod e'_def ee_def)
  define buf4 where "buf4 = buf2[ee := word_of_nat n, e' := 0]"
  define h' where "h' = h1\<lparr>ring_buf := buf4, rh_end := e', rh_cur := 0\<rparr>"
  have save: "hist_save_line h line n = Some h'"
    using n h1(1) first first0 buf b e buf2(1,2) ee wrap
    by (auto simp: hist_save_line_def wr_def b_def [symmetric] buf1_def ee_def [symmetric] Let_def h'_def buf4_def e'_def)
  have sne: "Suc ee + i = b + (u + Suc i) - (b + u - ee)" if "i \<le> n" for i
    using that by (simp add: ee_def)
  have pos: "(Suc ee + i) mod 256 = (b + (u + Suc i)) mod 256" for i
    using ring_mod_Suc [of "b + u" i] by (simp add: ee_def add.assoc)
  have old: "ring_bytes buf4 b (enc rs)"
  proof (subst ring_bytes_cong [where buf = "ring_buf h1"])
    fix i assume i: "i < length (enc rs)"
    have "(b + i) mod 256 \<noteq> (Suc ee + j) mod 256" if "j < n" for j
      using ring_positions_distinct [of i "u + Suc j" b] i that fits unfolding pos by (simp add: u_def)
    moreover have "(b + i) mod 256 \<noteq> ee" "(b + i) mod 256 \<noteq> e'"
      using ring_positions_distinct [of i u b] ring_positions_distinct [of i "u + n + 1" b] i fits
      by (simp_all add: u_def ee_def e'_def add.assoc)
    ultimately show "buf4 ! ((b + i) mod 256) = ring_buf h1 ! ((b + i) mod 256)"
      using keep buf1(2) buf2(2) by (simp add: buf4_def ee_def)
  qed (use bytes in simp)
  have head: "buf4 ! ((b + u) mod 256) = word_of_nat n"
    using ring_positions_distinct [of u "u + n + 1" b] fits buf2(2) ee
    by (simp add: buf4_def ee_def e'_def add.assoc)
  have body: "ring_bytes buf4 (Suc (b + u)) (take n line)"
  proof -
    have "ring_bytes buf4 (Suc ee) (take n line)"
    proof (subst ring_bytes_cong [where buf = buf2])
      fix i assume i: "i < length (take n line)"
      have "(Suc ee + i) mod 256 \<noteq> ee" "(Suc ee + i) mod 256 \<noteq> e'"
        using ring_positions_distinct [of u "u + Suc i" b] ring_positions_distinct [of "u + Suc i" "u + n + 1" b] i fits
        unfolding pos by (simp_all add: ee_def e'_def add.assoc)
      then show "buf4 ! ((Suc ee + i) mod 256) = buf2 ! ((Suc ee + i) mod 256)"
        by (simp add: buf4_def)
    qed (rule buf2(3))
    then show ?thesis
      unfolding ee_def by simp
  qed
  have "hist_rel h' (rs @ [take n line])"
    unfolding hist_rel_def
  proof (intro conjI)
    show "length (ring_buf h') = 256"
      by (simp add: h'_def buf4_def buf2(2))
    show "\<forall>l \<in> set (rs @ [take n line]). line_ok l"
      using ok n by (auto simp: line_ok_def)
    show "length (enc (rs @ [take n line])) \<le> 255"
      using fits n by (simp add: u_def)
    show "rh_end h' = (rh_begin h' + length (enc (rs @ [take n line]))) mod 256"
      using n by (simp add: h'_def e'_def b_def u_def add.assoc min_def)
    have "buf4 ! (Suc (b + u + n) mod 256) = 0"
      using buf2(2) ee by (simp add: buf4_def e'_def)
    then show "ring_bytes (ring_buf h') (rh_begin h') (enc (rs @ [take n line]) @ [0])"
      using old head body n by (simp add: h'_def b_def u_def min_def)
  qed (use b in \<open>simp_all add: h'_def b_def\<close>)
  with save show ?thesis
    by (auto simp: rs_def h'_def)
qed

theorem restore_up:
  assumes rel: "hist_rel h recs" and len: "length line = COMMAND_LINE_LEN"
  shows "hist_restore_line h line HIST_UP =
    (if rh_cur h < length recs
     then let l = recs ! (length recs - 1 - rh_cur h)
          in Some (int (length l), h\<lparr>rh_cur := rh_cur h + 1\<rparr>, l @ replicate (COMMAND_LINE_LEN - length l) 0)
     else Some (-1, h, line))"
proof -
  have buf: "length (ring_buf h) = 256" and b: "rh_begin h < 256" and ok: "\<forall>l \<in> set recs. line_ok l"
    and bytes: "ring_bytes (ring_buf h) (rh_begin h) (enc recs @ [0])" and cur: "rh_cur h \<le> length recs"
    using rel by (simp_all add: hist_rel_def)
  have cnt: "hist_count (ring_buf h) (rh_begin h) 0 = Some (length recs)"
    using hist_count_records [OF buf bytes ok, of 0] b by simp
  define k where "k = (if rh_cur h < length recs then length recs - 1 - rh_cur h else length recs)"
  have find: "hist_find (ring_buf h) (rh_begin h) (\<lambda>j. int (length recs) - int j - 1 = int (rh_cur h)) 0
     = Some ((rh_begin h + length (enc (take k recs))) mod 256)"
    using hist_find_record [OF buf bytes ok, of k "\<lambda>j. int (length recs) - int j - 1 = int (rh_cur h)" 0] b cur
    by (auto simp: k_def)
  show ?thesis
  proof (cases "rh_cur h < length recs")
    case False
    then show ?thesis
      using cnt find bytes buf by (simp add: hist_restore_line_def k_def rd_def)
  next
    case True
    define l where "l = recs ! k"
    have "recs = take k recs @ l # drop (Suc k) recs"
      using True by (simp add: l_def k_def id_take_nth_drop)
    then obtain ys where recs: "recs = take k recs @ l # ys"
      by blast
    have lok: "line_ok l"
      using ok recs by (metis in_set_conv_decomp)
    have "ring_bytes (ring_buf h) (rh_begin h + length (enc (take k recs))) (word_of_nat (length l) # l)"
      using bytes by (subst (asm) recs) simp
    then have rb: "ring_bytes (ring_buf h) ((rh_begin h + length (enc (take k recs))) mod 256) (word_of_nat (length l) # l)"
      by simp
    have hd: "rd (ring_buf h) ((rh_begin h + length (enc (take k recs))) mod 256) = Some (word_of_nat (length l))"
      using rb buf by (simp add: rd_def)
    have fetch: "ring_fetch (ring_buf h) ((rh_begin h + length (enc (take k recs))) mod 256) (replicate COMMAND_LINE_LEN 0)
        = Some (l @ replicate (COMMAND_LINE_LEN - length l) 0)"
      using lok by (subst ring_fetch_record [OF buf _ rb]) (simp_all add: line_ok_def)
    show ?thesis
      using True cnt find hd fetch line_ok_head [OF lok] cur
      by (simp add: hist_restore_line_def k_def l_def Let_def)
  qed
qed

theorem restore_down:
  assumes rel: "hist_rel h recs" and len: "length line = COMMAND_LINE_LEN"
  shows "hist_restore_line h line HIST_DOWN =
    (if rh_cur h > 1
     then let l = recs ! (length recs + 1 - rh_cur h)
          in Some (int (length l), h\<lparr>rh_cur := rh_cur h - 1\<rparr>, l @ drop (length l) line)
     else Some (0, h\<lparr>rh_cur := 0\<rparr>, line))"
proof (cases "rh_cur h = 0")
  case True
  have "hist_count (ring_buf h) (rh_begin h) 0 = Some (length recs)"
    using hist_count_records [of "ring_buf h" "rh_begin h" recs 0] rel by (simp add: hist_rel_def)
  with True show ?thesis
    by (simp add: hist_restore_line_def)
next
  case False
  have buf: "length (ring_buf h) = 256" and b: "rh_begin h < 256" and ok: "\<forall>l \<in> set recs. line_ok l"
    and bytes: "ring_bytes (ring_buf h) (rh_begin h) (enc recs @ [0])" and cur: "rh_cur h \<le> length recs"
    using rel by (simp_all add: hist_rel_def)
  have cnt: "hist_count (ring_buf h) (rh_begin h) 0 = Some (length recs)"
    using hist_count_records [OF buf bytes ok, of 0] b by simp
  define k where "k = length recs - (rh_cur h - 1)"
  have find: "hist_find (ring_buf h) (rh_begin h) (\<lambda>j. int (length recs) - int j = int (rh_cur h - 1)) 0
     = Some ((rh_begin h + length (enc (take k recs))) mod 256)"
    using hist_find_record [OF buf bytes ok, of k "\<lambda>j. int (length recs) - int j = int (rh_cur h - 1)" 0] b cur
    by (auto simp: k_def)
  show ?thesis
  proof (cases "rh_cur h = 1")
    case True
    define p where "p = (rh_begin h + length (enc recs)) mod 256"
    have rb: "ring_bytes (ring_buf h) p (word_of_nat (length ([] :: bytes)) # [])"
      using bytes by (simp add: p_def)
    have "ring_fetch (ring_buf h) p line = Some line"
      using ring_fetch_record [OF buf _ rb, of line] by (simp add: p_def)
    moreover have "rd (ring_buf h) p = Some 0"
      using rb buf by (simp add: rd_def p_def)
    ultimately show ?thesis
      using True cnt find by (simp add: hist_restore_line_def k_def p_def)
  next
    case gt: False
    define l where "l = recs ! k"
    have "k < length recs"
      using gt False cur by (simp add: k_def)
    then have "recs = take k recs @ l # drop (Suc k) recs"
      by (simp add: l_def id_take_nth_drop)
    then obtain ys where recs: "recs = take k recs @ l # ys"
      by blast
    have lok: "line_ok l"
      using ok recs by (metis in_set_conv_decomp)
    have "ring_bytes (ring_buf h) (rh_begin h + length (enc (take k recs))) (word_of_nat (length l) # l)"
      using bytes by (subst (asm) recs) simp
    then have rb: "ring_bytes (ring_buf h) ((rh_begin h + length (enc (take k recs))) mod 256) (word_of_nat (length l) # l)"
      by simp
    have hd: "rd (ring_buf h) ((rh_begin h + length (enc (take k recs))) mod 256) = Some (word_of_nat (length l))"
      using rb buf by (simp add: rd_def)
    have fetch: "ring_fetch (ring_buf h) ((rh_begin h + length (enc (take k recs))) mod 256) line = Some (l @ drop (length l) line)"
      using lok len by (subst ring_fetch_record [OF buf _ rb]) (simp_all add: line_ok_def)
    have k': "Suc (length recs) - rh_cur h = k"
      using False cur by (simp add: k_def)
    have ui: "uint (word_of_nat (length l) :: u8) = int (length l)"
      using line_ok_head [OF lok] by (metis uint_nat)
    show ?thesis
      using False gt cnt find hd fetch line_ok_head [OF lok]
      using ui by (simp add: hist_restore_line_def k' l_def Let_def)
  qed
qed

subsection \<open>The contract the editor relies on\<close>

text \<open>\<open>R h recs k\<close>: the history \<open>h\<close> offers the lines \<open>recs\<close>, oldest first, and the user has gone
  back \<open>k\<close> of them. \<open>fits recs l\<close> are the lines kept when \<open>l\<close> is added.\<close>

locale line_history =
  fixes R :: "'h \<Rightarrow> bytes list \<Rightarrow> nat \<Rightarrow> bool"
    and save :: "'h \<Rightarrow> bytes \<Rightarrow> 'h option"
    and up down :: "'h \<Rightarrow> bytes \<Rightarrow> (int \<times> 'h \<times> bytes) option"
    and fits :: "bytes list \<Rightarrow> bytes \<Rightarrow> bytes list"
    and good :: "bytes \<Rightarrow> bool"
  assumes save_law: "R h recs k \<Longrightarrow> good l \<Longrightarrow> \<exists>h'. save h l = Some h' \<and> R h' (fits recs l @ [l]) 0"
    and fits_law: "\<exists>xs. recs = xs @ fits recs l"
    and up_law: "R h recs k \<Longrightarrow> k < length recs \<Longrightarrow> length line = COMMAND_LINE_LEN \<Longrightarrow>
      \<exists>h' line'. up h line = Some (int (length (recs ! (length recs - 1 - k))), h', line') \<and> R h' recs (Suc k) \<and>
        length line' = COMMAND_LINE_LEN \<and> take (length (recs ! (length recs - 1 - k))) line' = recs ! (length recs - 1 - k)"
    and up_end_law: "R h recs (length recs) \<Longrightarrow> length line = COMMAND_LINE_LEN \<Longrightarrow> up h line = Some (-1, h, line)"
    and down_law: "R h recs (Suc (Suc k)) \<Longrightarrow> length line = COMMAND_LINE_LEN \<Longrightarrow>
      \<exists>h' line'. down h line = Some (int (length (recs ! (length recs - 1 - k))), h', line') \<and> R h' recs (Suc k) \<and>
        length line' = COMMAND_LINE_LEN \<and> take (length (recs ! (length recs - 1 - k))) line' = recs ! (length recs - 1 - k)"
    and down_end_law: "R h recs k \<Longrightarrow> k \<le> 1 \<Longrightarrow> length line = COMMAND_LINE_LEN \<Longrightarrow>
      \<exists>h'. down h line = Some (0, h', line) \<and> R h' recs 0"
begin

primrec save_all :: "bytes list \<Rightarrow> 'h \<Rightarrow> 'h option" where
  "save_all [] h = Some h"
| "save_all (l # ls) h = save h l \<bind> save_all ls"

primrec kept :: "bytes list \<Rightarrow> bytes list \<Rightarrow> bytes list" where
  "kept [] recs = recs"
| "kept (l # ls) recs = kept ls (fits recs l @ [l])"

text \<open>What the line buffer shows after \<open>Suc n\<close> steps back.\<close>

primrec recall :: "nat \<Rightarrow> 'h \<Rightarrow> bytes \<Rightarrow> (bytes \<times> 'h \<times> bytes) option" where
  "recall 0 h line = do { (n, h', line') \<leftarrow> up h line; Some (take (nat n) line', h', line') }"
| "recall (Suc k) h line = do {
     (l, h', line') \<leftarrow> recall k h line;
     (n, h'', line'') \<leftarrow> up h' line';
     Some (take (nat n) line'', h'', line'') }"

lemma save_all_kept: "R h recs k \<Longrightarrow> \<forall>l \<in> set ls. good l \<Longrightarrow> \<exists>h' k'. save_all ls h = Some h' \<and> R h' (kept ls recs) k' \<and> (ls \<noteq> [] \<longrightarrow> k' = 0)"
proof (induction ls arbitrary: h recs k)
  case (Cons l ls)
  obtain h1 where 1: "save h l = Some h1" "R h1 (fits recs l @ [l]) 0"
    using save_law [OF Cons.prems(1), of l] Cons.prems(2) by auto
  obtain h2 k2 where "save_all ls h1 = Some h2" "R h2 (kept ls (fits recs l @ [l])) k2" "ls \<noteq> [] \<longrightarrow> k2 = 0"
    using Cons.IH [OF 1(2)] Cons.prems(2) by auto
  with 1 show ?case
    by (cases ls) auto
qed auto

lemma kept_suffix: "\<exists>xs. recs @ ls = xs @ kept ls recs"
proof (induction ls arbitrary: recs)
  case (Cons l ls)
  obtain ys where "recs = ys @ fits recs l"
    using fits_law by blast
  moreover obtain zs where "(fits recs l @ [l]) @ ls = zs @ kept ls (fits recs l @ [l])"
    using Cons.IH by blast
  ultimately show ?case
    by (metis append.assoc append_Cons append_Nil kept.simps(2))
qed simp

lemma kept_last: "ls \<noteq> [] \<Longrightarrow> kept ls recs \<noteq> [] \<and> last (kept ls recs) = last ls"
proof (induction ls arbitrary: recs)
  case (Cons l ls)
  then show ?case
    by (cases ls) auto
qed simp

lemma recall_nth:
  assumes "R h recs 0" "k < length recs" "length line = COMMAND_LINE_LEN"
  shows "\<exists>h' line'. recall k h line = Some (recs ! (length recs - 1 - k), h', line') \<and> R h' recs (Suc k) \<and> length line' = COMMAND_LINE_LEN"
  using assms
proof (induction k)
  case 0
  then show ?case
    using up_law [of h recs 0 line] by auto
next
  case (Suc k)
  then obtain h' line' where "recall k h line = Some (recs ! (length recs - 1 - k), h', line')" "R h' recs (Suc k)" "length line' = COMMAND_LINE_LEN"
    by auto
  then show ?case
    using up_law [of h' recs "Suc k" line'] Suc.prems by auto
qed

text \<open>Going one line further back and then forward again shows the line one came from.\<close>

lemma up_down:
  assumes "R h recs (Suc k)" "Suc k < length recs" "length line = COMMAND_LINE_LEN" "up h line = Some (n, h1, line1)"
  shows "\<exists>h2 line2. down h1 line1 = Some (int (length (recs ! (length recs - 1 - k))), h2, line2) \<and> R h2 recs (Suc k) \<and>
     take (length (recs ! (length recs - 1 - k))) line2 = recs ! (length recs - 1 - k)"
  using up_law [OF assms(1-3)] assms(4) down_law [of h1 recs k line1] by auto

end

subsection \<open>The ring keeps the contract\<close>

lemma hist_rel_cur_le: "hist_rel h recs \<Longrightarrow> c \<le> length recs \<Longrightarrow> hist_rel (h\<lparr>rh_cur := c\<rparr>) recs"
  by (simp add: hist_rel_def)

lemma hist_rel_line: "hist_rel h recs \<Longrightarrow> i < length recs \<Longrightarrow> length (recs ! i) \<le> 254"
  by (auto simp: hist_rel_def line_ok_def)

interpretation ring: line_history
  "\<lambda>h recs k. hist_rel h recs \<and> rh_cur h = k" "\<lambda>h l. hist_save_line h l (length l)"
  "\<lambda>h line. hist_restore_line h line HIST_UP" "\<lambda>h line. hist_restore_line h line HIST_DOWN"
  "\<lambda>recs l. trim recs (length l)" line_ok
proof unfold_locales
  show "\<exists>h'. hist_save_line h l (length l) = Some h' \<and> hist_rel h' (trim recs (length l) @ [l]) \<and> rh_cur h' = 0"
    if "hist_rel h recs \<and> rh_cur h = k" "line_ok l" for h recs k l
    using save_line [of h recs "length l" l] that by (auto simp: line_ok_def)
  show "\<exists>xs. recs = xs @ trim recs (length l)" for recs and l :: bytes
    by (rule trim_suffix)
next
  show "\<exists>h' line'. hist_restore_line h line HIST_UP = Some (int (length (recs ! (length recs - 1 - k))), h', line') \<and>
      (hist_rel h' recs \<and> rh_cur h' = Suc k) \<and> length line' = COMMAND_LINE_LEN \<and>
      take (length (recs ! (length recs - 1 - k))) line' = recs ! (length recs - 1 - k)"
    if "hist_rel h recs \<and> rh_cur h = k" "k < length recs" "length line = COMMAND_LINE_LEN" for h recs k line
  proof -
    have "length (recs ! (length recs - 1 - k)) \<le> 254"
      using that by (intro hist_rel_line [of h]) auto
    then show ?thesis
      using that restore_up [of h recs line] hist_rel_cur_le [of h recs "Suc k"] by (auto simp: Let_def)
  qed
  show "\<exists>h' line'. hist_restore_line h line HIST_DOWN = Some (int (length (recs ! (length recs - 1 - k))), h', line') \<and>
      (hist_rel h' recs \<and> rh_cur h' = Suc k) \<and> length line' = COMMAND_LINE_LEN \<and>
      take (length (recs ! (length recs - 1 - k))) line' = recs ! (length recs - 1 - k)"
    if "hist_rel h recs \<and> rh_cur h = Suc (Suc k)" "length line = COMMAND_LINE_LEN" for h recs k line
  proof -
    have "Suc (Suc k) \<le> length recs"
      using that by (auto simp: hist_rel_def)
    moreover from this have "length (recs ! (length recs - 1 - k)) \<le> 254"
      using that by (intro hist_rel_line [of h]) auto
    ultimately show ?thesis
      using that restore_down [of h recs line] hist_rel_cur_le [of h recs "Suc k"] by (auto simp: Let_def)
  qed
  show "\<exists>h'. hist_restore_line h line HIST_DOWN = Some (0, h', line) \<and> hist_rel h' recs \<and> rh_cur h' = 0"
    if "hist_rel h recs \<and> rh_cur h = k" "k \<le> 1" "length line = COMMAND_LINE_LEN" for h recs k line
    using that restore_down [of h recs line] hist_rel_cur [of h recs] by auto
qed (auto simp: restore_up)

subsection \<open>Properties\<close>

definition hist_empty :: ring_history where
  "hist_empty = \<lparr>ring_buf = replicate RING_HISTORY_LEN 0, rh_begin = 0, rh_end = 0, rh_cur = 0\<rparr>"

lemma hist_empty_rel: "hist_rel hist_empty []"
  by (simp add: hist_empty_def hist_rel_def)

text \<open>Saving several lines, and what is shown after \<open>Suc k\<close> steps back.\<close>

primrec hist_save_lines :: "bytes list \<Rightarrow> ring_history \<Rightarrow> ring_history option" where
  "hist_save_lines [] h = Some h"
| "hist_save_lines (l # ls) h = hist_save_line h l (length l) \<bind> hist_save_lines ls"

primrec hist_recall :: "nat \<Rightarrow> ring_history \<Rightarrow> bytes \<Rightarrow> (bytes \<times> ring_history \<times> bytes) option" where
  "hist_recall 0 h line = do {
     (n, h', line') \<leftarrow> hist_restore_line h line HIST_UP; Some (take (nat n) line', h', line') }"
| "hist_recall (Suc k) h line = do {
     (l, h', line') \<leftarrow> hist_recall k h line;
     (n, h'', line'') \<leftarrow> hist_restore_line h' line' HIST_UP;
     Some (take (nat n) line'', h'', line'') }"

lemma hist_save_lines_eq: "hist_save_lines ls h = ring.save_all ls h"
proof (induction ls arbitrary: h)
  case (Cons l ls)
  have "hist_save_lines ls = ring.save_all ls"
    using Cons.IH by (rule ext)
  then show ?case
    by simp
qed simp

lemma hist_recall_eq: "hist_recall k h line = ring.recall k h line"
  by (induction k) simp_all

text \<open>C35. The history ring refines a list of lines: after any sequence of lines was saved, the ring
  holds a suffix of everything saved, always with the newest line in it, and going back \<open>k + 1\<close>
  times shows the \<open>k\<close>-th newest of them, however the lines lie across the end of the ring.\<close>

theorem history_recall:
  assumes "hist_rel h recs" and "\<forall>l \<in> set ls. line_ok l" and "ls \<noteq> []" and "length line = COMMAND_LINE_LEN"
  shows "\<exists>h' kept xs. hist_save_lines ls h = Some h' \<and> recs @ ls = xs @ kept \<and> kept \<noteq> [] \<and> last kept = last ls \<and>
     hist_rel h' kept \<and> (\<forall>k < length kept. map_option fst (hist_recall k h' line) = Some (kept ! (length kept - 1 - k)))"
proof -
  let ?kept = "ring.kept ls recs"
  obtain h' where h': "ring.save_all ls h = Some h'" "hist_rel h' ?kept" "rh_cur h' = 0"
    using ring.save_all_kept [of h recs "rh_cur h" ls] assms by auto
  have "map_option fst (hist_recall k h' line) = Some (?kept ! (length ?kept - 1 - k))" if "k < length ?kept" for k
    using ring.recall_nth [of h' ?kept k line] that h' assms(4) by (auto simp: hist_recall_eq)
  then show ?thesis
    using h' ring.kept_suffix [of recs ls] ring.kept_last [OF assms(3), of recs] by (auto simp: hist_save_lines_eq)
qed

theorem history_recall_witness:
  "\<exists>h' kept xs. hist_save_lines [[104, 105], [111, 107, 0, 49]] hist_empty = Some h' \<and>
     [] @ [[104, 105], [111, 107, 0, 49]] = xs @ kept \<and> kept \<noteq> [] \<and> last kept = [111, 107, 0, 49] \<and>
     hist_rel h' kept \<and> (\<forall>k < length kept. map_option fst (hist_recall k h' (replicate COMMAND_LINE_LEN 0)) =
        Some (kept ! (length kept - 1 - k)))"
  using history_recall [OF hist_empty_rel, of "[[104, 105], [111, 107, 0, 49]]" "replicate COMMAND_LINE_LEN 0"]
  by (simp add: line_ok_def)

end
