(* ===== verification/Microrl.thy ===== *)
theory Microrl
  imports MicrorlHistory
begin

section \<open>The command line editor\<close>

text \<open>
  Model of \<open>microrl/microrl.c\<close> in the configuration of \<open>microrl_config.h\<close>: quoting, history,
  completion, escape sequences, Ctrl-C, line end \<open>LF\<close>. The struct is a record; \<open>cmdlen\<close> and
  \<open>cursor\<close> are C ints and stay integers, because a negative \<open>memmove\<close> count is one of the things
  to rule out. Pointers into \<open>cmdline\<close> are indices. What the callbacks are told is the trace
  \<open>mr_out\<close>; what they answer (the completion candidates, the outcome of \<open>malloc\<close>, which callbacks
  are set) comes from a record of parameters, and callbacks are taken not to change the struct.
  A value \<open>None\<close> is an access outside a buffer.
\<close>

subsection \<open>State\<close>

datatype mr_event = Print bytes | ErrorPrint bytes | Execute "bytes list" | Sigint

type_synonym quoted_token = "nat option \<times> nat option"

record microrl =
  escape_seq :: u8
  mr_escape :: bool
  ring_hist :: ring_history
  prompt_str :: bytes
  cmdline :: bytes
  cmdlen :: int
  cursor :: int
  mr_quotes :: "quoted_token list"
  mr_out :: "mr_event list"

record callbacks =
  cb_malloc :: bool
  cb_execute :: bool
  cb_sigint :: bool
  cb_completion :: "(bytes list \<Rightarrow> bytes list \<times> int \<times> bool) option"

abbreviation QUOTED_TOKEN_NMB :: nat where "QUOTED_TOKEN_NMB \<equiv> 10"
abbreviation COMMAND_TOKEN_NMB :: nat where "COMMAND_TOKEN_NMB \<equiv> 128"
abbreviation PRINT_BUFFER_LEN :: nat where "PRINT_BUFFER_LEN \<equiv> 40"
abbreviation PROMPT_LEN :: int where "PROMPT_LEN \<equiv> 6"

definition emit :: "mr_event \<Rightarrow> microrl \<Rightarrow> microrl" where
  "emit ev s = s\<lparr>mr_out := mr_out s @ [ev]\<rparr>"

text \<open>Accesses with C ints: a negative index, offset or count is out of bounds.\<close>

definition rdi :: "bytes \<Rightarrow> int \<Rightarrow> u8 option" where
  "rdi buf i = (if i < 0 then None else rd buf (nat i))"

definition wri :: "bytes \<Rightarrow> int \<Rightarrow> u8 \<Rightarrow> bytes option" where
  "wri buf i v = (if i < 0 then None else wr buf (nat i) v)"

definition memmove_i :: "bytes \<Rightarrow> int \<Rightarrow> int \<Rightarrow> int \<Rightarrow> bytes option" where
  "memmove_i buf dst src n =
     (if n < 0 \<or> dst < 0 \<or> src < 0 then None
      else do { bs \<leftarrow> rdn buf (nat src) (nat n); memcpy_at buf (nat dst) bs })"

text \<open>The C string at an index.\<close>

definition cstr :: "bytes \<Rightarrow> nat \<Rightarrow> bytes option" where
  "cstr buf i = (if 0 \<in> set (drop i buf) then Some (takeWhile (\<lambda>c. c \<noteq> 0) (drop i buf)) else None)"

subsection \<open>Splitting the line into tokens\<close>

fun restore :: "bytes \<Rightarrow> quoted_token list \<Rightarrow> (bytes \<times> quoted_token list) option" where
  "restore line [] = Some (line, [])"
| "restore line ((b, None) # qs) = Some (line, (b, None) # qs)"
| "restore line ((None, Some e) # qs) = None"
| "restore line ((Some b, Some e) # qs) = do {
     c \<leftarrow> rd line b;
     line1 \<leftarrow> wr line e c;
     (line2, qs') \<leftarrow> restore line1 qs;
     Some (line2, (None, None) # qs') }"

function skip_nul :: "bytes \<Rightarrow> nat \<Rightarrow> nat \<Rightarrow> nat option" where
  "skip_nul line ind limit = do {
     c \<leftarrow> rd line ind;
     if c = 0 \<and> ind < limit then skip_nul line (ind + 1) limit else Some ind }"
  by pat_completeness auto
termination
  by (relation "measure (\<lambda>(line, ind, limit). limit - ind)") auto

datatype tok_end = Tok_limit | Tok_space | Tok_bad | Tok_quoted nat

text \<open>The inner loop, which goes to the end of a token: a quoted token takes the separators it
  meets as blanks and must be followed by a separator.\<close>

function scan_token :: "bytes \<Rightarrow> u8 \<Rightarrow> nat \<Rightarrow> nat \<Rightarrow> (bytes \<times> u8 \<times> nat \<times> tok_end) option" where
  "scan_token line quote ind limit =
     (if \<not> ind < limit then Some (line, quote, ind, Tok_limit)
      else do {
        c \<leftarrow> rd line ind;
        if c = 0 then
          (if quote = 0 then Some (line, quote, ind, Tok_space)
           else do { line' \<leftarrow> wr line ind 0x20; scan_token line' quote (ind + 1) limit })
        else if c = quote then do {
          nx \<leftarrow> rd line (ind + 1);
          if nx \<noteq> 0 then Some (line, quote, ind, Tok_bad)
          else do { line' \<leftarrow> wr line ind 0; Some (line', 0, ind + 1, Tok_quoted ind) } }
        else scan_token line quote (ind + 1) limit })"
  by pat_completeness auto
termination
  by (relation "measure (\<lambda>(line, quote, ind, limit). limit - ind)") auto

declare skip_nul.simps [simp del] scan_token.simps [simp del]

lemma skip_nul_ge: "skip_nul line ind limit = Some i \<Longrightarrow> ind \<le> i \<and> (i < limit \<longrightarrow> i < length line \<and> line ! i \<noteq> 0)"
proof (induction line ind limit rule: skip_nul.induct)
  case (1 line ind limit)
  then show ?case
    by (subst (asm) (2) skip_nul.simps) (auto simp: bind_eq_Some_conv rd_eq_Some_iff split: if_splits)
qed

lemma scan_token_ge: "scan_token line quote ind limit = Some (line', q', i, r) \<Longrightarrow> ind \<le> i"
proof (induction line quote ind limit rule: scan_token.induct)
  case (1 line quote ind limit)
  show ?case
    using "1.prems" "1.IH"
    by (subst (asm) scan_token.simps) (fastforce simp: bind_eq_Some_conv split: if_splits)
qed

lemma scan_token_step:
  "scan_token line 0 ind limit = Some (line', q', i, r) \<Longrightarrow> ind < limit \<Longrightarrow> line ! ind \<noteq> 0 \<Longrightarrow> ind < i"
  by (subst (asm) scan_token.simps) (auto simp: rd_def split: if_splits dest: scan_token_ge)

definition is_quote :: "u8 \<Rightarrow> bool" where
  "is_quote c \<longleftrightarrow> c = 0x27 \<or> c = 0x22"

text \<open>\<open>split\<close> returns the number of tokens, or \<open>-1\<close>, with the line, the quote table and the token
  pointers it leaves behind. Every failure first undoes the closing quotes.\<close>

definition split_fail :: "bytes \<Rightarrow> quoted_token list \<Rightarrow> nat list \<Rightarrow> (int \<times> bytes \<times> quoted_token list \<times> nat list) option" where
  "split_fail line qs tkn = do { (line', qs') \<leftarrow> restore line qs; Some (-1, line', qs', tkn) }"

text \<open>One round of the outer loop, from the first character of a token at \<open>ind1\<close>: either \<open>split\<close>
  returns, or it goes on behind the token.\<close>

definition split_token ::
  "bytes \<Rightarrow> quoted_token list \<Rightarrow> nat \<Rightarrow> nat list \<Rightarrow> nat \<Rightarrow> nat \<Rightarrow>
   ((int \<times> bytes \<times> quoted_token list \<times> nat list) + (bytes \<times> quoted_token list \<times> nat \<times> nat list \<times> nat)) option"
where
  "split_token line qs iq tkn ind1 limit = do {
     c \<leftarrow> rd line ind1;
     if is_quote c \<and> iq \<ge> QUOTED_TOKEN_NMB then map_option Inl (split_fail line qs tkn)
     else do {
       let qs1 = (if is_quote c then qs[iq := (Some ind1, snd (qs ! iq))] else qs);
       let ind2 = (if is_quote c then ind1 + 1 else ind1);
       let tkn1 = tkn @ [ind2];
       if length tkn1 \<ge> COMMAND_TOKEN_NMB then map_option Inl (split_fail line qs1 tkn1)
       else do {
         (line2, q, ind3, r) \<leftarrow> scan_token line (if is_quote c then c else 0) ind2 limit;
         if r = Tok_bad then map_option Inl (split_fail line2 qs1 tkn1)
         else do {
           let qs2 = (case r of Tok_quoted e \<Rightarrow> qs1[iq := (fst (qs1 ! iq), Some e)] | _ \<Rightarrow> qs1);
           let iq2 = (case r of Tok_quoted e \<Rightarrow> iq + 1 | _ \<Rightarrow> iq);
           if \<not> ind3 < limit then
             (if q \<noteq> 0 then map_option Inl (split_fail line2 qs2 tkn1)
              else Some (Inl (int (length tkn1), line2, qs2, tkn1)))
           else Some (Inr (line2, qs2, iq2, tkn1, ind3)) } } } }"

lemma split_token_step:
  assumes "split_token line qs iq tkn ind1 limit = Some (Inr (line2, qs2, iq2, tkn1, ind3))" "ind1 < limit" "line ! ind1 \<noteq> 0"
  shows "ind1 < ind3 \<and> ind3 < limit"
proof -
  define c where "c = line ! ind1"
  obtain q r where "scan_token line (if is_quote c then c else 0) (if is_quote c then ind1 + 1 else ind1) limit = Some (line2, q, ind3, r)"
    and "ind3 < limit"
    using assms(1) unfolding split_token_def
    by (auto simp: bind_eq_Some_conv rd_eq_Some_iff Let_def c_def split: if_splits)
  then show ?thesis
    using scan_token_ge [of line c "ind1 + 1" limit line2 q ind3 r] scan_token_step [of line ind1 limit line2 q ind3 r] assms(2,3)
    by (auto simp: c_def split: if_splits)
qed

function split_loop ::
  "bytes \<Rightarrow> quoted_token list \<Rightarrow> nat \<Rightarrow> nat list \<Rightarrow> nat \<Rightarrow> nat \<Rightarrow> (int \<times> bytes \<times> quoted_token list \<times> nat list) option"
where
  "split_loop line qs iq tkn ind limit = do {
     ind1 \<leftarrow> skip_nul line ind limit;
     if \<not> ind1 < limit then Some (int (length tkn), line, qs, tkn)
     else do {
       t \<leftarrow> split_token line qs iq tkn ind1 limit;
       case t of
         Inl ret \<Rightarrow> Some ret
       | Inr (line2, qs2, iq2, tkn1, ind3) \<Rightarrow> split_loop line2 qs2 iq2 tkn1 ind3 limit } }"
  by pat_completeness auto
termination
proof (relation "measure (\<lambda>(line, qs, iq, tkn, ind, limit). limit - ind)", goal_cases)
  case (2 line qs iq tkn ind limit ind1 t y line2 t1 qs2 t2 iq2 t3 tkn1 ind3)
  then have "ind \<le> ind1" "ind1 < limit" "line ! ind1 \<noteq> 0"
    using skip_nul_ge [of line ind limit ind1] by auto
  moreover have "ind1 < ind3"
    using split_token_step [of line qs iq tkn ind1 limit line2 qs2 iq2 tkn1 ind3] 2 calculation by auto
  ultimately show ?case
    by auto
qed simp

declare split_loop.simps [simp del]

definition split :: "microrl \<Rightarrow> int \<Rightarrow> (int \<times> microrl \<times> nat list) option" where
  "split s limit = do {
     (status, line, qs, tkn) \<leftarrow> split_loop (cmdline s) (replicate QUOTED_TOKEN_NMB (None, None)) 0 [] 0 (nat limit);
     Some (status, s\<lparr>cmdline := line, mr_quotes := qs\<rparr>, tkn) }"

definition argv_strings :: "microrl \<Rightarrow> nat list \<Rightarrow> bytes list option" where
  "argv_strings s tkn = those (map (cstr (cmdline s)) tkn)"

definition restore_line :: "microrl \<Rightarrow> microrl option" where
  "restore_line s = do {
     (line, qs) \<leftarrow> restore (cmdline s) (mr_quotes s);
     Some (s\<lparr>cmdline := line, mr_quotes := qs\<rparr>) }"

subsection \<open>Terminal output\<close>

definition print_prompt :: "microrl \<Rightarrow> microrl" where
  "print_prompt s = emit (Print (prompt_str s)) s"

definition terminal_backspace :: "microrl \<Rightarrow> microrl" where
  "terminal_backspace s = emit (Print [0x1B, 0x5B, 0x44, 0x20, 0x1B, 0x5B, 0x44]) s"

definition terminal_newline :: "microrl \<Rightarrow> microrl" where
  "terminal_newline s = emit (Print [0x0D, 0x0A]) s"

text \<open>The decimal digits \<open>sprintf\<close> prints for \<open>%d\<close>.\<close>

fun decimal :: "nat \<Rightarrow> bytes" where
  "decimal n = (if n < 10 then [word_of_nat (48 + n)] else decimal (n div 10) @ [word_of_nat (48 + n mod 10)])"

declare decimal.simps [simp del]

definition generate_move_cursor :: "int \<Rightarrow> bytes" where
  "generate_move_cursor offset0 =
     (let offset1 = (if offset0 > 999 then 999 else offset0);
          offset = (if offset1 < -999 then -999 else offset1)
      in if offset < 0 then [0x1B, 0x5B] @ decimal (nat (-offset)) @ [0x44]
         else if offset = 0 then []
         else [0x1B, 0x5B] @ decimal (nat offset) @ [0x43])"

definition terminal_move_cursor :: "microrl \<Rightarrow> int \<Rightarrow> microrl" where
  "terminal_move_cursor s offset = (if offset \<noteq> 0 then emit (Print (generate_move_cursor offset)) s else s)"

text \<open>The print buffer of 40 bytes: \<open>j\<close> is what stands in it, and it is flushed when full.\<close>

function print_chunks :: "bytes \<Rightarrow> int \<Rightarrow> int \<Rightarrow> bytes \<Rightarrow> mr_event list \<Rightarrow> (bytes \<times> mr_event list) option" where
  "print_chunks line i len j out =
     (if i < len then do {
        c \<leftarrow> rdi line i;
        let j1 = j @ [if c = 0 then 0x20 else c];
        if length j1 = PRINT_BUFFER_LEN - 1 then print_chunks line (i + 1) len [] (out @ [Print j1])
        else print_chunks line (i + 1) len j1 out }
      else Some (j, out))"
  by pat_completeness auto
termination
  by (relation "measure (\<lambda>(line, i, len, j, out). nat (len - i))") auto

declare print_chunks.simps [simp del]

definition terminal_print_line :: "microrl \<Rightarrow> int \<Rightarrow> bool \<Rightarrow> microrl option" where
  "terminal_print_line s pos reset = do {
     let j0 = (if reset then 0x0D # generate_move_cursor (PROMPT_LEN + pos) else []);
     (j1, out1) \<leftarrow> print_chunks (cmdline s) pos (cmdlen s) j0 (mr_out s);
     let (j2, out2) = (if length j1 + 3 + 6 + 1 > PRINT_BUFFER_LEN then ([], out1 @ [Print j1]) else (j1, out1));
     Some (s\<lparr>mr_out := out2 @ [Print (j2 @ [0x1B, 0x5B, 0x4B] @ generate_move_cursor (cursor s - cmdlen s))]\<rparr>) }"

subsection \<open>Editing\<close>

definition microrl_init :: "bytes \<Rightarrow> microrl" where
  "microrl_init prompt = \<lparr>escape_seq = 0, mr_escape = False,
     ring_hist = \<lparr>ring_buf = replicate RING_HISTORY_LEN 0, rh_begin = 0, rh_end = 0, rh_cur = 0\<rparr>,
     prompt_str = prompt, cmdline = replicate COMMAND_LINE_LEN 0, cmdlen = 0, cursor = 0,
     mr_quotes = replicate QUOTED_TOKEN_NMB (None, None), mr_out = []\<rparr>"

definition hist_search :: "microrl \<Rightarrow> hist_dir \<Rightarrow> microrl option" where
  "hist_search s dir = do {
     (len, h, line) \<leftarrow> hist_restore_line (ring_hist s) (cmdline s) dir;
     let s1 = s\<lparr>ring_hist := h, cmdline := line\<rparr>;
     if len \<ge> 0 then do {
       line' \<leftarrow> wri line len 0;
       terminal_print_line (s1\<lparr>cmdline := line', cmdlen := len, cursor := len\<rparr>) 0 True }
     else Some s1 }"

definition microrl_insert_text :: "microrl \<Rightarrow> bytes \<Rightarrow> int \<Rightarrow> (bool \<times> microrl) option" where
  "microrl_insert_text s text len =
     (if cmdlen s + len < int COMMAND_LINE_LEN then do {
        line1 \<leftarrow> memmove_i (cmdline s) (cursor s + len) (cursor s) (cmdlen s - cursor s);
        bs \<leftarrow> rdn text 0 (nat len);
        line2 \<leftarrow> (if bs = [] then Some line1
                  else if cursor s < 0 then None
                  else memcpy_at line1 (nat (cursor s)) (map (\<lambda>c. if c = 0x20 then 0 else c) bs));
        line3 \<leftarrow> wri line2 (cmdlen s + len) 0;
        Some (True, s\<lparr>cmdline := line3, cmdlen := cmdlen s + len, cursor := cursor s + len\<rparr>) }
      else Some (False, s))"

definition microrl_backspace :: "microrl \<Rightarrow> int \<Rightarrow> microrl option" where
  "microrl_backspace s len =
     (if cursor s \<ge> len then do {
        line1 \<leftarrow> memmove_i (cmdline s) (cursor s - len) (cursor s) (cmdlen s - cursor s + len);
        line2 \<leftarrow> wri line1 (cmdlen s) 0;
        Some (s\<lparr>cmdline := line2, cmdlen := cmdlen s - len, cursor := cursor s - len\<rparr>) }
      else Some s)"

definition microrl_delete :: "microrl \<Rightarrow> microrl option" where
  "microrl_delete s =
     (if cmdlen s > 0 then do {
        line1 \<leftarrow> memmove_i (cmdline s) (cursor s) (cursor s + 1) (cmdlen s - cursor s + 1);
        line2 \<leftarrow> wri line1 (cmdlen s) 0;
        Some (s\<lparr>cmdline := line2, cmdlen := cmdlen s - 1\<rparr>) }
      else Some s)"

subsection \<open>Completion\<close>

definition shortest :: "bytes list \<Rightarrow> bytes" where
  "shortest arr = foldl (\<lambda>sh t. if length t < length sh then t else sh) (hd arr) arr"

definition common_len :: "bytes list \<Rightarrow> nat" where
  "common_len arr =
     (case List.find (\<lambda>i. \<exists>t \<in> set arr. shortest arr ! i \<noteq> t ! i) [0 ..< length (shortest arr)] of
        Some i \<Rightarrow> i | None \<Rightarrow> length (shortest arr))"

text \<open>The listing of several candidates through the print buffer.\<close>

fun list_tokens :: "bytes list \<Rightarrow> bytes \<Rightarrow> mr_event list \<Rightarrow> bytes \<times> mr_event list" where
  "list_tokens [] j out = (j, out)"
| "list_tokens (t # ts) j out =
     (let (j1, out1) = (if j \<noteq> [] \<and> length j + length t + 4 > PRINT_BUFFER_LEN then ([], out @ [Print j]) else (j, out));
          (j2, out2) = (if length t + 4 > PRINT_BUFFER_LEN then (j1, out1 @ [Print t, Print [0x20]])
                        else (j1 @ t @ [0x20], out1))
      in list_tokens ts j2 out2)"

definition print_candidates :: "microrl \<Rightarrow> bytes list \<Rightarrow> microrl" where
  "print_candidates s toks =
     (let (j, out) = list_tokens toks [0x0D, 0x0A] (mr_out s)
      in print_prompt (s\<lparr>mr_out := out @ [Print (j @ [0x0D, 0x0A])]\<rparr>))"

text \<open>\<open>strlen(tkn_arr[status-1])\<close>, read after the closing quotes are back in the line.\<close>

definition last_token_len :: "microrl \<Rightarrow> nat list \<Rightarrow> bool \<Rightarrow> nat option" where
  "last_token_len s tkn blank =
     (if blank then Some 0 else if tkn = [] then None else map_option length (cstr (cmdline s) (last tkn)))"

definition insert_completion :: "microrl \<Rightarrow> bytes \<Rightarrow> nat \<Rightarrow> int \<Rightarrow> bool \<Rightarrow> microrl option" where
  "insert_completion s tok lastlen len blank_after = do {
     (ok1, s1) \<leftarrow> microrl_insert_text s (drop lastlen (tok @ [0])) (len - int lastlen);
     if blank_after then do { (ok2, s2) \<leftarrow> microrl_insert_text s1 [0x20] 1; Some s2 } else Some s1 }"

definition MALLOC_ERROR :: bytes where
  "MALLOC_ERROR = map (\<lambda>c. word_of_nat (of_char c)) ''ERROR:malloc failed'' @ [0x0A]"

definition microrl_get_complite :: "callbacks \<Rightarrow> microrl \<Rightarrow> microrl option" where
  "microrl_get_complite cb s =
     (case cb_completion cb of
        None \<Rightarrow> Some s
      | Some get \<Rightarrow>
          if \<not> cb_malloc cb then Some (emit (ErrorPrint MALLOC_ERROR) s)
          else do {
            (status, s1, tkn) \<leftarrow> split s (cursor s);
            if status < 0 then Some s1
            else do {
              prev \<leftarrow> rdi (cmdline s1) (cursor s1 - 1);
              argv0 \<leftarrow> argv_strings s1 tkn;
              let (toks, complete_len, final) = get (if prev = 0 then argv0 @ [[]] else argv0);
              s2 \<leftarrow> restore_line s1;
              case toks of
                [] \<Rightarrow> Some s2
              | t # ts \<Rightarrow> do {
                  let s3 = (if ts = [] then s2 else print_candidates s2 toks);
                  let len = (if ts = [] then int (length t)
                             else if complete_len \<ge> 0 then complete_len else int (common_len toks));
                  let pos = (if ts = [] then cursor s2 else 0);
                  s4 \<leftarrow> (if len \<noteq> 0 then do {
                            lastlen \<leftarrow> last_token_len s3 tkn (prev = 0);
                            insert_completion s3 t lastlen len (final \<and> ts = []) }
                         else Some s3);
                  terminal_print_line s4 pos False } } })"

subsection \<open>Keys\<close>

definition INVALID_QUOTING :: bytes where
  "INVALID_QUOTING = map (\<lambda>c. word_of_nat (of_char c)) ''ERROR:too many tokens or invalid quoting'' @ [0x0A]"

definition new_line_handler :: "callbacks \<Rightarrow> microrl \<Rightarrow> microrl option" where
  "new_line_handler cb s =
     (if \<not> cb_malloc cb then Some (emit (ErrorPrint MALLOC_ERROR) s)
      else do {
        let s1 = terminal_newline s;
        s2 \<leftarrow> (if cmdlen s1 > 0
               then do { h \<leftarrow> hist_save_line (ring_hist s1) (cmdline s1) (nat (cmdlen s1)); Some (s1\<lparr>ring_hist := h\<rparr>) }
               else Some s1);
        (status, s3, tkn) \<leftarrow> split s2 (cmdlen s2);
        let s4 = (if status = -1 then emit (ErrorPrint INVALID_QUOTING) s3 else s3);
        s5 \<leftarrow> (if status > 0 \<and> cb_execute cb
               then do { argv \<leftarrow> argv_strings s4 tkn; Some (emit (Execute argv) s4) } else Some s4);
        let s6 = print_prompt s5;
        Some (s6\<lparr>cmdlen := 0, cursor := 0, cmdline := replicate COMMAND_LINE_LEN 0, ring_hist := (ring_hist s6)\<lparr>rh_cur := 0\<rparr>\<rparr>) })"

text \<open>Escape sequences; the result says whether the sequence is finished.\<close>

definition escape_process :: "microrl \<Rightarrow> u8 \<Rightarrow> (bool \<times> microrl) option" where
  "escape_process s ch =
     (if ch = 0x5B then Some (False, s\<lparr>escape_seq := 1\<rparr>)
      else if escape_seq s = 1 then
        (if ch = 0x41 then do { s' \<leftarrow> hist_search s HIST_UP; Some (True, s') }
         else if ch = 0x42 then do { s' \<leftarrow> hist_search s HIST_DOWN; Some (True, s') }
         else if ch = 0x43 then
           Some (True, if cursor s < cmdlen s then (terminal_move_cursor s 1)\<lparr>cursor := cursor s + 1\<rparr> else s)
         else if ch = 0x44 then
           Some (True, if cursor s > 0 then (terminal_move_cursor s (-1))\<lparr>cursor := cursor s - 1\<rparr> else s)
         else if ch = 0x37 then Some (False, s\<lparr>escape_seq := 2\<rparr>)
         else if ch = 0x38 then Some (False, s\<lparr>escape_seq := 3\<rparr>)
         else Some (True, s))
      else if ch = 0x7E then
        (if escape_seq s = 2 then Some (True, (terminal_move_cursor s (- cursor s))\<lparr>cursor := 0\<rparr>)
         else if escape_seq s = 3 then
           Some (True, (terminal_move_cursor s (cmdlen s - cursor s))\<lparr>cursor := cmdlen s\<rparr>)
         else Some (True, s))
      else Some (True, s))"

definition key_char :: "microrl \<Rightarrow> int \<Rightarrow> microrl option" where
  "key_char s ch =
     (if ch = 0x20 \<and> cmdlen s = 0 \<or> ch \<le> 31 then Some s
      else do {
        (ok, s1) \<leftarrow> microrl_insert_text s [word_of_int ch] 1;
        if \<not> ok then Some s1
        else if cursor s1 = cmdlen s1 then Some (emit (Print [word_of_int ch]) s1)
        else terminal_print_line s1 (cursor s1 - 1) False })"

definition microrl_insert_char :: "callbacks \<Rightarrow> microrl \<Rightarrow> int \<Rightarrow> microrl option" where
  "microrl_insert_char cb s ch =
     (if mr_escape s then do {
        (fin, s') \<leftarrow> escape_process s (word_of_int ch);
        Some (if fin then s'\<lparr>mr_escape := False\<rparr> else s') }
      else if ch = 13 then Some s
      else if ch = 10 then new_line_handler cb s
      else if ch = 9 then microrl_get_complite cb s
      else if ch = 27 then Some (s\<lparr>mr_escape := True\<rparr>)
      else if ch = 21 then do {
        s1 \<leftarrow> (if cursor s > 0 then microrl_backspace s (cursor s) else Some s);
        terminal_print_line s1 0 True }
      else if ch = 11 then Some ((emit (Print [0x1B, 0x5B, 0x4B]) s)\<lparr>cmdlen := cursor s\<rparr>)
      else if ch = 5 then Some ((terminal_move_cursor s (cmdlen s - cursor s))\<lparr>cursor := cmdlen s\<rparr>)
      else if ch = 1 then Some ((terminal_move_cursor s (- cursor s))\<lparr>cursor := 0\<rparr>)
      else if ch = 6 then Some (if cursor s < cmdlen s then (terminal_move_cursor s 1)\<lparr>cursor := cursor s + 1\<rparr> else s)
      else if ch = 2 then Some (if cursor s \<noteq> 0 then (terminal_move_cursor s (-1))\<lparr>cursor := cursor s - 1\<rparr> else s)
      else if ch = 16 then hist_search s HIST_UP
      else if ch = 14 then hist_search s HIST_DOWN
      else if ch = 127 \<or> ch = 8 then
        (if cursor s > 0 then do {
           s1 \<leftarrow> microrl_backspace s 1;
           if cursor s1 = cmdlen s1 then Some (terminal_backspace s1)
           else terminal_print_line s1 (cursor s1) True }
         else Some s)
      else if ch = 4 then do { s1 \<leftarrow> microrl_delete s; terminal_print_line s1 (cursor s1) False }
      else if ch = 18 then terminal_print_line (print_prompt (terminal_newline s)) 0 False
      else if ch = 3 then Some (if cb_sigint cb then emit Sigint s else s)
      else key_char s ch)"

primrec microrl_run :: "callbacks \<Rightarrow> microrl \<Rightarrow> int list \<Rightarrow> microrl option" where
  "microrl_run cb s [] = Some s"
| "microrl_run cb s (ch # chs) = microrl_insert_char cb s ch \<bind> (\<lambda>s'. microrl_run cb s' chs)"

subsection \<open>The line as text before and after the cursor\<close>

text \<open>\<open>ed s b a\<close>: the line holds \<open>b\<close> before and \<open>a\<close> after the cursor, and a zero byte somewhere
  behind them. All editing operations are read off this relation.\<close>

definition ed :: "microrl \<Rightarrow> bytes \<Rightarrow> bytes \<Rightarrow> bool" where
  "ed s b a \<longleftrightarrow> (\<exists>rest. cmdline s = b @ a @ rest \<and> length (b @ a @ rest) = COMMAND_LINE_LEN \<and> 0 \<in> set rest \<and>
     cursor s = int (length b) \<and> cmdlen s = int (length b + length a))"

lemma edE:
  assumes "ed s b a"
  obtains rest where "cmdline s = b @ a @ rest" "length b + length a + length rest = COMMAND_LINE_LEN" "0 \<in> set rest"
    "cursor s = int (length b)" "cmdlen s = int (length b + length a)" "length b + length a < COMMAND_LINE_LEN"
  using assms by (auto simp: ed_def) (metis add.assoc length_pos_if_in_set less_add_same_cancel1)

lemma ed_len: "ed s b a \<Longrightarrow> length b + length a < COMMAND_LINE_LEN"
  by (erule edE)

lemma ed_line_len: "ed s b a \<Longrightarrow> length (cmdline s) = COMMAND_LINE_LEN"
  by (auto simp: ed_def)

text \<open>Buffer operations on a buffer given as a concatenation.\<close>

lemma memmove_down:
  assumes "length rest \<ge> n - length a" "n \<ge> length a"
  shows "memmove_i (b @ c @ a @ rest) (int (length b)) (int (length b + length c)) (int n)
     = Some (b @ take n (a @ rest) @ drop (length b + n) (b @ c @ a @ rest))"
proof -
  have "rdn (b @ c @ a @ rest) (length b + length c) n = Some (take n (a @ rest))"
    using assms by (simp add: rdn_def)
  then show ?thesis
    using assms by (simp add: memmove_i_def memcpy_at_def nat_int_add)
qed

lemma memmove_up:
  assumes "length rest \<ge> n"
  shows "memmove_i (b @ a @ rest) (int (length b) + int n) (int (length b)) (int (length a))
     = Some (b @ take n (a @ rest) @ a @ drop n rest)"
proof -
  have 1: "rdn (b @ a @ rest) (length b) (length a) = Some a"
    by (simp add: rdn_def)
  have 2: "nat (int (length b) + int n) = length b + n"
    by simp
  have "drop (length b + n + length a) (b @ a @ rest) = drop n rest"
    by (simp add: add.commute)
  then show ?thesis
    using assms 1 2 by (simp add: memmove_i_def memcpy_at_def)
qed

lemma wri_append: "wri (xs @ y # ys) (int (length xs)) v = Some (xs @ v # ys)"
  by (simp add: wri_def wr_def list_update_append)

definition blanked :: "bytes \<Rightarrow> bytes" where
  "blanked t = map (\<lambda>c. if c = 0x20 then 0 else c) t"

lemma blanked_simps [simp]: "length (blanked t) = length t" "blanked [] = []"
  "blanked (c # t) = (if c = 0x20 then 0 else c) # blanked t"
  by (simp_all add: blanked_def)

lemma insert_text_fits:
  assumes "ed s b a" "length b + length a + length t < COMMAND_LINE_LEN" "take (length t) text = t"
  shows "\<exists>line'. microrl_insert_text s text (int (length t)) = Some (True, s\<lparr>cmdline := line',
      cmdlen := cmdlen s + int (length t), cursor := cursor s + int (length t)\<rparr>) \<and>
    ed (s\<lparr>cmdline := line', cmdlen := cmdlen s + int (length t), cursor := cursor s + int (length t)\<rparr>) (b @ blanked t) a"
proof -
  obtain rest where r: "cmdline s = b @ a @ rest" "length b + length a + length rest = COMMAND_LINE_LEN" "0 \<in> set rest"
    "cursor s = int (length b)" "cmdlen s = int (length b + length a)"
    using assms(1) by (rule edE)
  let ?n = "length t"
  have n: "?n < length rest"
    using r(2) assms(2) by simp
  define mid where "mid = take ?n (a @ rest)"
  obtain x xs where rest: "drop ?n rest = x # xs"
    using n by (cases "drop ?n rest") auto
  have len: "length b + length a + ?n + 1 + length xs = COMMAND_LINE_LEN"
    using arg_cong [OF rest, of length] r(2) n by simp
  have src: "rdn text 0 ?n = Some t"
    using assms(3) by (auto simp: rdn_def) (metis length_take linorder_not_le min.absorb_iff2 min.commute)
  have 1: "memmove_i (cmdline s) (cursor s + int ?n) (cursor s) (cmdlen s - cursor s) = Some (b @ mid @ a @ x # xs)"
    using memmove_up [of ?n rest b a] n r rest by (simp add: mid_def)
  have "length mid = ?n"
    using n by (simp add: mid_def)
  then have 2: "(if t = [] then Some (b @ mid @ a @ x # xs) else if cursor s < 0 then None
      else memcpy_at (b @ mid @ a @ x # xs) (nat (cursor s)) (blanked t)) = Some (b @ blanked t @ a @ x # xs)"
    using r by (auto simp: memcpy_at_def blanked_def [symmetric])
  have "cmdlen s + int ?n = int (length (b @ blanked t @ a))"
    using r by simp
  then have 3: "wri (b @ blanked t @ a @ x # xs) (cmdlen s + int ?n) 0 = Some (b @ blanked t @ a @ 0 # xs)"
    using wri_append [of "b @ blanked t @ a" x xs 0] by (simp add: algebra_simps)
  have "microrl_insert_text s text (int ?n) = Some (True, s\<lparr>cmdline := b @ blanked t @ a @ 0 # xs,
      cmdlen := cmdlen s + int ?n, cursor := cursor s + int ?n\<rparr>)"
    using assms(2) r 1 2 3 src by (cases "t = []") (simp_all add: microrl_insert_text_def blanked_def [symmetric])
  moreover have "ed (s\<lparr>cmdline := b @ blanked t @ a @ 0 # xs, cmdlen := cmdlen s + int ?n, cursor := cursor s + int ?n\<rparr>)
     (b @ blanked t) a"
    using r len unfolding ed_def by (intro exI [of _ "0 # xs"]) simp
  ultimately show ?thesis
    by blast
qed

lemma insert_text_full:
  "ed s b a \<Longrightarrow> COMMAND_LINE_LEN \<le> length b + length a + n \<Longrightarrow> microrl_insert_text s text (int n) = Some (False, s)"
  by (erule edE) (simp add: microrl_insert_text_def)

lemma backspace_ed:
  assumes "ed s (b @ c) a" "length b + length c + length a + length c \<le> COMMAND_LINE_LEN" "c \<noteq> []"
  shows "\<exists>line'. microrl_backspace s (int (length c)) = Some (s\<lparr>cmdline := line', cmdlen := cmdlen s - int (length c),
       cursor := cursor s - int (length c)\<rparr>) \<and>
     ed (s\<lparr>cmdline := line', cmdlen := cmdlen s - int (length c), cursor := cursor s - int (length c)\<rparr>) b a"
proof -
  obtain rest where r: "cmdline s = (b @ c) @ a @ rest" "length (b @ c) + length a + length rest = COMMAND_LINE_LEN" "0 \<in> set rest"
    "cursor s = int (length (b @ c))" "cmdlen s = int (length (b @ c) + length a)"
    using assms(1) by (rule edE)
  let ?n = "length c"
  obtain x xs where rest: "rest = x # xs"
    using r(3) by (cases rest) auto
  have n: "?n \<le> length rest"
    using r(2) assms(2) by simp
  define m where "m = take ?n rest"
  have m: "m = x # take (?n - 1) xs" "length m = ?n"
    using n rest assms(3) by (cases c; simp add: m_def)+
  have 1: "memmove_i (cmdline s) (cursor s - int ?n) (cursor s) (cmdlen s - cursor s + int ?n) = Some (b @ a @ m @ rest)"
  proof -
    have "memmove_i (b @ c @ a @ rest) (int (length b)) (int (length b + ?n)) (int (length a + ?n))
       = Some (b @ take (length a + ?n) (a @ rest) @ drop (length b + (length a + ?n)) (b @ c @ a @ rest))"
      using n by (intro memmove_down) simp_all
    moreover have "drop (length b + (length a + ?n)) (b @ c @ a @ rest) = rest"
      by simp
    ultimately show ?thesis
      using r by (simp add: m_def algebra_simps)
  qed
  have 2: "cmdlen s = int (length (b @ a @ m))"
    using r m by simp
  then have 3: "wri (b @ a @ m @ rest) (cmdlen s) 0 = Some (b @ a @ m @ 0 # xs)"
    using wri_append [of "b @ a @ m" x xs 0] rest by simp
  have "microrl_backspace s (int ?n) = Some (s\<lparr>cmdline := b @ a @ m @ 0 # xs, cmdlen := cmdlen s - int ?n,
       cursor := cursor s - int ?n\<rparr>)"
    using 1 3 r by (simp add: microrl_backspace_def)
  moreover have "ed (s\<lparr>cmdline := b @ a @ m @ 0 # xs, cmdlen := cmdlen s - int ?n, cursor := cursor s - int ?n\<rparr>) b a"
    using r rest m(2) unfolding ed_def by (intro exI [of _ "m @ 0 # xs"]) simp
  ultimately show ?thesis
    by blast
qed

lemma delete_ed:
  assumes "ed s b (c # a)" "length b + length a + 2 < COMMAND_LINE_LEN"
  shows "\<exists>line'. microrl_delete s = Some (s\<lparr>cmdline := line', cmdlen := cmdlen s - 1\<rparr>) \<and>
     ed (s\<lparr>cmdline := line', cmdlen := cmdlen s - 1\<rparr>) b a"
proof -
  obtain rest where r: "cmdline s = b @ (c # a) @ rest" "length b + length (c # a) + length rest = COMMAND_LINE_LEN" "0 \<in> set rest"
    "cursor s = int (length b)" "cmdlen s = int (length b + length (c # a))"
    using assms(1) by (rule edE)
  obtain x y xs where rest: "rest = x # y # xs"
    using r(2) assms(2) by (cases rest; cases "tl rest") auto
  have 1: "memmove_i (cmdline s) (cursor s) (cursor s + 1) (cmdlen s - cursor s + 1) = Some (b @ a @ [x, y] @ y # xs)"
  proof -
    have "memmove_i (b @ [c] @ a @ rest) (int (length b)) (int (length b + length [c])) (int (length a + 2))
       = Some (b @ take (length a + 2) (a @ rest) @ drop (length b + (length a + 2)) (b @ [c] @ a @ rest))"
      using rest by (intro memmove_down) simp_all
    then show ?thesis
      using r rest by (simp add: algebra_simps)
  qed
  have "wri (b @ a @ [x, y] @ y # xs) (cmdlen s) 0 = Some (b @ a @ x # 0 # y # xs)"
    using wri_append [of "b @ a @ [x]" y "y # xs" 0] r by simp
  then have "microrl_delete s = Some (s\<lparr>cmdline := b @ a @ x # 0 # y # xs, cmdlen := cmdlen s - 1\<rparr>)"
    using 1 r by (simp add: microrl_delete_def)
  moreover have "ed (s\<lparr>cmdline := b @ a @ x # 0 # y # xs, cmdlen := cmdlen s - 1\<rparr>) b a"
    using r rest unfolding ed_def by (intro exI [of _ "x # 0 # y # xs"]) simp
  ultimately show ?thesis
    by blast
qed

lemma delete_empty: "ed s [] [] \<Longrightarrow> microrl_delete s = Some s"
  by (auto simp: ed_def microrl_delete_def)

subsection \<open>What the print buffer lets through\<close>

text \<open>The text printed so far, and a line as it is shown: a zero byte is a blank.\<close>

definition shown_text :: "mr_event list \<Rightarrow> bytes" where
  "shown_text evs = concat (map (\<lambda>ev. case ev of Print bs \<Rightarrow> bs | ErrorPrint bs \<Rightarrow> bs | _ \<Rightarrow> []) evs)"

lemma shown_text_simps [simp]:
  "shown_text [] = []" "shown_text (xs @ ys) = shown_text xs @ shown_text ys" "shown_text (Print bs # evs) = bs @ shown_text evs"
  "shown_text (ErrorPrint bs # evs) = bs @ shown_text evs" "shown_text (Execute argv # evs) = shown_text evs"
  "shown_text (Sigint # evs) = shown_text evs"
  by (simp_all add: shown_text_def)

definition vis :: "bytes \<Rightarrow> bytes" where
  "vis bs = map (\<lambda>c. if c = 0 then 0x20 else c) bs"

lemma vis_simps [simp]: "vis [] = []" "vis (xs @ ys) = vis xs @ vis ys" "length (vis bs) = length bs"
  "vis (c # cs) = (if c = 0 then 0x20 else c) # vis cs"
  by (simp_all add: vis_def)

lemma vis_drop: "vis (drop n bs) = drop n (vis bs)" and vis_take: "vis (take n bs) = take n (vis bs)"
  by (simp_all add: vis_def drop_map take_map)

lemma print_chunks_text:
  assumes "i \<le> m" "m \<le> length line" "length j < PRINT_BUFFER_LEN - 1"
  shows "\<exists>j' ps. print_chunks line (int i) (int m) j out = Some (j', out @ map Print ps) \<and> length j' < PRINT_BUFFER_LEN - 1 \<and>
     concat ps @ j' = j @ vis (drop i (take m line)) \<and> (\<forall>x \<in> set ps. length x < PRINT_BUFFER_LEN)"
  using assms
proof (induction "m - i" arbitrary: i j out)
  case 0
  then show ?case
    by (subst print_chunks.simps) simp
next
  case (Suc d)
  then have i: "i < m" "i < length line"
    by simp_all
  define c where "c = (if line ! i = 0 then 0x20 else line ! i)"
  have rd: "rdi line (int i) = Some (line ! i)"
    using i by (simp add: rdi_def rd_def)
  have split: "vis (drop i (take m line)) = c # vis (drop (Suc i) (take m line))"
    using i Suc.prems(2) by (simp add: Cons_nth_drop_Suc [symmetric] c_def)
  have step: "print_chunks line (int i) (int m) j out =
     (if length (j @ [c]) = 39 then print_chunks line (int (Suc i)) (int m) [] (out @ [Print (j @ [c])])
      else print_chunks line (int (Suc i)) (int m) (j @ [c]) out)"
    using i rd by (subst print_chunks.simps) (simp add: c_def add.commute)
  have d: "d = m - Suc i" "Suc i \<le> m" "m \<le> length line"
    using Suc.hyps(2) i Suc.prems(2) by simp_all
  show ?case
  proof (cases "length (j @ [c]) = 39")
    case True
    obtain j' ps where "print_chunks line (int (Suc i)) (int m) [] (out @ [Print (j @ [c])]) = Some (j', (out @ [Print (j @ [c])]) @ map Print ps)"
      "length j' < 39" "concat ps @ j' = [] @ vis (drop (Suc i) (take m line))" "\<forall>x \<in> set ps. length x < 40"
      using Suc.hyps(1) [OF d, of "[]" "out @ [Print (j @ [c])]"] by auto
    then show ?thesis
      using step True split by (intro exI [of _ j'] exI [of _ "(j @ [c]) # ps"]) simp
  next
    case False
    then have "length (j @ [c]) < 40 - 1"
      using Suc.prems(3) by simp
    then obtain j' ps where "print_chunks line (int (Suc i)) (int m) (j @ [c]) out = Some (j', out @ map Print ps)"
      "length j' < 39" "concat ps @ j' = (j @ [c]) @ vis (drop (Suc i) (take m line))" "\<forall>x \<in> set ps. length x < 40"
      using Suc.hyps(1) [OF d, of "j @ [c]" out] by auto
    then show ?thesis
      using step False split by (intro exI [of _ j'] exI [of _ ps]) simp
  qed
qed

lemma decimal_length: "n < 10 ^ k \<Longrightarrow> 0 < k \<Longrightarrow> length (decimal n) \<le> k"
proof (induction n arbitrary: k rule: decimal.induct)
  case (1 n)
  show ?case
  proof (cases "n < 10")
    case False
    then obtain k' where k: "k = Suc k'" "0 < k'"
      using "1.prems" by (cases k; cases "k - 1") auto
    then have "n div 10 < 10 ^ k'"
      using "1.prems" by (simp add: div_less_iff_less_mult mult.commute)
    then have "length (decimal (n div 10)) \<le> k'"
      using "1.IH" False k by blast
    then show ?thesis
      using False k by (subst decimal.simps) simp
  qed (use "1.prems" in \<open>subst decimal.simps, simp\<close>)
qed

text \<open>The cursor sequence fits the buffer parts reserved for it (7 with its terminator).\<close>

lemma move_cursor_length: "length (generate_move_cursor d) \<le> 6"
proof -
  have "length (decimal n) \<le> 3" if "n \<le> 999" for n
    using decimal_length [of n 3] that by simp
  then show ?thesis
    by (auto simp: generate_move_cursor_def Let_def)
qed

lemma print_line_text:
  assumes "ed s b a" "p \<le> length b + length a"
  shows "\<exists>ps. terminal_print_line s (int p) reset = Some (s\<lparr>mr_out := mr_out s @ map Print ps\<rparr>) \<and>
     concat ps = (if reset then 0x0D # generate_move_cursor (PROMPT_LEN + int p) else [])
       @ vis (drop p (b @ a)) @ [0x1B, 0x5B, 0x4B] @ generate_move_cursor (- int (length a)) \<and>
     (\<forall>x \<in> set ps. length x < PRINT_BUFFER_LEN)"
proof -
  obtain rest where r: "cmdline s = b @ a @ rest" "length b + length a + length rest = COMMAND_LINE_LEN" "0 \<in> set rest"
    "cursor s = int (length b)" "cmdlen s = int (length b + length a)"
    using assms(1) by (rule edE)
  define j0 where "j0 = (if reset then 0x0D # generate_move_cursor (PROMPT_LEN + int p) else [])"
  have j0: "length j0 < PRINT_BUFFER_LEN - 1"
    using move_cursor_length [of "PROMPT_LEN + int p"] by (simp add: j0_def)
  have line: "take (length b + length a) (cmdline s) = b @ a"
    using r(1) by simp
  obtain j1 ps where c: "print_chunks (cmdline s) (int p) (int (length b + length a)) j0 (mr_out s) = Some (j1, mr_out s @ map Print ps)"
    "length j1 < 39" "concat ps @ j1 = j0 @ vis (drop p (b @ a))" "\<forall>x \<in> set ps. length x < PRINT_BUFFER_LEN"
    using print_chunks_text [of p "length b + length a" "cmdline s" j0 "mr_out s"] assms(2) r j0 line by auto
  define tl where "tl = [0x1B, 0x5B, 0x4B] @ generate_move_cursor (- int (length a))"
  have tl: "length tl \<le> 9"
    using move_cursor_length [of "- int (length a)"] by (simp add: tl_def)
  have d: "cursor s - cmdlen s = - int (length a)"
    using r by simp
  show ?thesis
  proof (cases "length j1 + 3 + 6 + 1 > PRINT_BUFFER_LEN")
    case True
    then have "terminal_print_line s (int p) reset = Some (s\<lparr>mr_out := mr_out s @ map Print (ps @ [j1, tl])\<rparr>)"
      using c(1) d r(5) unfolding terminal_print_line_def j0_def [symmetric] by (simp add: tl_def)
    moreover have "concat (ps @ [j1, tl]) = j0 @ vis (drop p (b @ a)) @ tl"
      using c(3) by simp
    ultimately show ?thesis
      using c(4,2) tl unfolding j0_def tl_def by (intro exI [of _ "ps @ [j1, tl]"]) (auto simp: tl_def)
  next
    case False
    then have "terminal_print_line s (int p) reset = Some (s\<lparr>mr_out := mr_out s @ map Print (ps @ [j1 @ tl])\<rparr>)"
      using c(1) d r(5) unfolding terminal_print_line_def j0_def [symmetric] by (simp add: tl_def)
    moreover have "concat (ps @ [j1 @ tl]) = j0 @ vis (drop p (b @ a)) @ tl"
      using c(3) by simp
    ultimately show ?thesis
      using c(4) False tl unfolding j0_def tl_def by (intro exI [of _ "ps @ [j1 @ tl]"]) (auto simp: tl_def)
  qed
qed

subsection \<open>Splitting stays inside the line\<close>

definition same_tail :: "nat \<Rightarrow> bytes \<Rightarrow> bytes \<Rightarrow> bool" where
  "same_tail limit line line' \<longleftrightarrow> length line' = length line \<and> drop limit line' = drop limit line"

lemma same_tail_refl [simp]: "same_tail limit line line"
  by (simp add: same_tail_def)

lemma same_tail_trans: "same_tail limit l1 l2 \<Longrightarrow> same_tail limit l2 l3 \<Longrightarrow> same_tail limit l1 l3"
  by (simp add: same_tail_def)

lemma same_tail_update: "i < limit \<Longrightarrow> same_tail limit l1 l2 \<Longrightarrow> same_tail limit l1 (l2[i := v])"
  by (simp add: same_tail_def)

lemma same_tail_less: "same_tail limit line line' \<Longrightarrow> limit < length line \<Longrightarrow> limit < length line'"
  by (simp add: same_tail_def)

lemma skip_nul_total: "ind \<le> limit \<Longrightarrow> limit < length line \<Longrightarrow> ensures (skip_nul line ind limit) (\<lambda>i. i \<le> limit)"
proof (induction line ind limit rule: skip_nul.induct)
  case (1 line ind limit)
  then show ?case
    by (subst skip_nul.simps) (simp add: rd_def)
qed

definition scan_post :: "nat \<Rightarrow> bytes \<Rightarrow> u8 \<Rightarrow> bytes \<times> u8 \<times> nat \<times> tok_end \<Rightarrow> bool" where
  "scan_post limit line q = (\<lambda>(line', q', i, r). same_tail limit line line' \<and> i \<le> limit \<and>
     (\<forall>e. r = Tok_quoted e \<longrightarrow> e < limit \<and> q \<noteq> 0))"

lemma scan_token_total:
  "ind \<le> limit \<Longrightarrow> limit < length line \<Longrightarrow>
   ensures (scan_token line q ind limit) (scan_post limit line q)"
proof (induction line q ind limit rule: scan_token.induct)
  case (1 line q ind limit)
  show ?case
  proof (cases "ind < limit")
    case False
    then show ?thesis
      using "1.prems" by (subst scan_token.simps) (simp add: scan_post_def)
  next
    case lt: True
    have rd: "rd line ind = Some (line ! ind)" "rd line (ind + 1) = Some (line ! (ind + 1))"
      using lt "1.prems" by (simp_all add: rd_def)
    have wr: "wr line ind v = Some (line[ind := v])" for v
      using lt "1.prems" by (simp add: wr_def)
    consider (space) "line ! ind = 0" "q = 0" | (inner) "line ! ind = 0" "q \<noteq> 0"
      | (close) "line ! ind \<noteq> 0" "line ! ind = q" | (other) "line ! ind \<noteq> 0" "line ! ind \<noteq> q"
      by blast
    then show ?thesis
    proof cases
      case space
      then show ?thesis
        using lt rd "1.prems" by (subst scan_token.simps) (simp add: scan_post_def)
    next
      case inner
      have "ensures (scan_token (line[ind := 0x20]) q (ind + 1) limit)
          (scan_post limit (line[ind := 0x20]) q)"
        using inner lt rd wr "1.prems" by (intro "1.IH"(1)) simp_all
      then have "ensures (scan_token (line[ind := 0x20]) q (ind + 1) limit)
          (scan_post limit line q)"
        by (rule ensures_mono) (use lt in \<open>auto simp: same_tail_def scan_post_def\<close>)
      then show ?thesis
        using inner lt rd wr by (subst scan_token.simps) simp
    next
      case close
      then show ?thesis
        using lt rd wr "1.prems" by (subst scan_token.simps) (simp add: same_tail_update scan_post_def)
    next
      case other
      have "ensures (scan_token line q (ind + 1) limit)
          (scan_post limit line q)"
        using other lt rd "1.prems" by (intro "1.IH"(2)) simp_all
      then show ?thesis
        using other lt rd by (subst scan_token.simps) simp
    qed
  qed
qed

definition quotes_ok :: "nat \<Rightarrow> quoted_token list \<Rightarrow> bool" where
  "quotes_ok limit qs \<longleftrightarrow>
     (\<forall>(b, e) \<in> set qs. \<forall>e'. e = Some e' \<longrightarrow> e' < limit \<and> (\<exists>b'. b = Some b' \<and> b' < limit))"

lemma quotes_ok_Cons [simp]:
  "quotes_ok limit ((b, e) # qs) \<longleftrightarrow> (\<forall>e'. e = Some e' \<longrightarrow> e' < limit \<and> (\<exists>b'. b = Some b' \<and> b' < limit)) \<and> quotes_ok limit qs"
  by (simp add: quotes_ok_def)

lemma quotes_ok_update:
  "quotes_ok limit qs \<Longrightarrow> (\<And>e'. e = Some e' \<Longrightarrow> e' < limit \<and> (\<exists>b'. b = Some b' \<and> b' < limit)) \<Longrightarrow> quotes_ok limit (qs[i := (b, e)])"
proof -
  assume q: "quotes_ok limit qs" and new: "\<And>e'. e = Some e' \<Longrightarrow> e' < limit \<and> (\<exists>b'. b = Some b' \<and> b' < limit)"
  show ?thesis
    unfolding quotes_ok_def
  proof
    fix x assume "x \<in> set (qs[i := (b, e)])"
    then have "x = (b, e) \<or> x \<in> set qs"
      using set_update_subset_insert [of qs i "(b, e)"] by blast
    then show "case x of (b, e) \<Rightarrow> \<forall>e'. e = Some e' \<longrightarrow> e' < limit \<and> (\<exists>b'. b = Some b' \<and> b' < limit)"
      using q new unfolding quotes_ok_def by auto
  qed
qed

lemma quotes_ok_nth: "quotes_ok limit qs \<Longrightarrow> i < length qs \<Longrightarrow> snd (qs ! i) = Some e \<Longrightarrow> e < limit"
proof -
  assume q: "quotes_ok limit qs" "i < length qs" "snd (qs ! i) = Some e"
  obtain b where "qs ! i = (b, Some e)"
    using q(3) by (cases "qs ! i") simp
  then have "(b, Some e) \<in> set qs"
    using nth_mem [OF q(2)] by simp
  then show "e < limit"
    using q(1) unfolding quotes_ok_def by blast
qed

definition restore_post :: "nat \<Rightarrow> bytes \<Rightarrow> nat \<Rightarrow> bytes \<times> quoted_token list \<Rightarrow> bool" where
  "restore_post limit line n = (\<lambda>(line', qs'). same_tail limit line line' \<and> quotes_ok limit qs' \<and> length qs' = n)"

lemma restore_total:
  "quotes_ok limit qs \<Longrightarrow> limit < length line \<Longrightarrow> ensures (restore line qs) (restore_post limit line (length qs))"
proof (induction line qs rule: restore.induct)
  case (4 line b e qs)
  then have be: "b < limit" "e < limit" "quotes_ok limit qs"
    by (simp_all only: quotes_ok_Cons) blast+
  have rw: "rd line b = Some (line ! b)" "wr line e (line ! b) = Some (line[e := line ! b])"
    using be "4.prems"(2) by (simp_all add: rd_def wr_def)
  have "ensures (restore (line[e := line ! b]) qs) (restore_post limit (line[e := line ! b]) (length qs))"
    by (rule "4.IH" [OF rw be(3)]) (use "4.prems"(2) in simp)
  then have "ensures (restore (line[e := line ! b]) qs)
     (\<lambda>x. ensures (case x of (line2, qs') \<Rightarrow> Some (line2, (None, None) # qs')) (restore_post limit line (Suc (length qs))))"
    by (rule ensures_mono) (use be(2) in \<open>auto simp: restore_post_def same_tail_def\<close>)
  then show ?case
    using rw by (simp add: ensures_bind_iff)
qed (simp_all add: restore_post_def)

lemma split_fail_total:
  "quotes_ok limit qs \<Longrightarrow> limit < length line \<Longrightarrow> length qs = 10 \<Longrightarrow>
   ensures (split_fail line qs tkn) (\<lambda>(st, line', qs', tkn'). st = -1 \<and> same_tail limit line line' \<and> quotes_ok limit qs' \<and> length qs' = 10)"
  unfolding split_fail_def by (rule ensures_bindI [OF restore_total]) (auto simp: restore_post_def)

text \<open>What a split leaves behind: the line unchanged from \<open>limit\<close> on, token and quote pointers
  below it.\<close>

definition split_post :: "nat \<Rightarrow> bytes \<Rightarrow> int \<times> bytes \<times> quoted_token list \<times> nat list \<Rightarrow> bool" where
  "split_post limit line = (\<lambda>(st, line', qs', tkn'). same_tail limit line line' \<and> quotes_ok limit qs' \<and> length qs' = 10 \<and>
     (st = -1 \<or> st = int (length tkn') \<and> (\<forall>t \<in> set tkn'. t \<le> limit)))"

lemma split_post_fail:
  "quotes_ok limit qs \<Longrightarrow> limit < length line' \<Longrightarrow> length qs = 10 \<Longrightarrow> same_tail limit line line' \<Longrightarrow>
   ensures (split_fail line' qs tkn) (split_post limit line)"
  by (rule ensures_mono [OF split_fail_total]) (auto simp: split_post_def same_tail_def)

lemma split_token_total:
  assumes "ind1 < limit" "limit < length line" "quotes_ok limit qs" "length qs = 10" "\<forall>t \<in> set tkn. t \<le> limit"
  shows "ensures (split_token line qs iq tkn ind1 limit)
    (\<lambda>t. case t of Inl ret \<Rightarrow> split_post limit line ret
      | Inr (line2, qs2, iq2, tkn1, ind3) \<Rightarrow> same_tail limit line line2 \<and> quotes_ok limit qs2 \<and> length qs2 = 10 \<and>
          (\<forall>t \<in> set tkn1. t \<le> limit) \<and> ind3 \<le> limit)"
    (is "ensures _ ?post")
proof -
  have fail: "ensures (map_option Inl (split_fail line' qs' tkn')) ?post"
    if "quotes_ok limit qs'" "length qs' = 10" "same_tail limit line line'" for line' qs' tkn'
    using split_post_fail [OF that(1) _ that(2,3), of tkn'] that(3) assms(2)
    by (cases "split_fail line' qs' tkn'") (auto dest: same_tail_less)
  define c where "c = line ! ind1"
  have rd: "rd line ind1 = Some c"
    using assms by (simp add: rd_def c_def)
  define qs1 where "qs1 = (if is_quote c then qs[iq := (Some ind1, snd (qs ! iq))] else qs)"
  define ind2 where "ind2 = (if is_quote c then ind1 + 1 else ind1)"
  define tkn1 where "tkn1 = tkn @ [ind2]"
  have ind2: "ind2 \<le> limit" "\<forall>t \<in> set tkn1. t \<le> limit"
    using assms by (auto simp: ind2_def tkn1_def)
  show ?thesis
  proof (cases "is_quote c \<and> iq \<ge> 10")
    case True
    then show ?thesis
      using fail [OF assms(3,4) same_tail_refl] rd by (simp add: split_token_def)
  next
    case q: False
    have qs1: "quotes_ok limit qs1" "length qs1 = 10"
      using q assms quotes_ok_nth [of limit qs iq] by (auto simp: qs1_def intro!: quotes_ok_update)
    define rest :: "bytes \<times> u8 \<times> nat \<times> tok_end \<Rightarrow> _" where "rest = (\<lambda>(line2, q, ind3, r).
         if r = Tok_bad then map_option Inl (split_fail line2 qs1 tkn1)
         else do {
           let qs2 = (case r of Tok_quoted e \<Rightarrow> qs1[iq := (fst (qs1 ! iq), Some e)] | _ \<Rightarrow> qs1);
           let iq2 = (case r of Tok_quoted e \<Rightarrow> iq + 1 | _ \<Rightarrow> iq);
           if \<not> ind3 < limit then
             (if q \<noteq> 0 then map_option Inl (split_fail line2 qs2 tkn1)
              else Some (Inl (int (length tkn1), line2, qs2, tkn1)))
           else Some (Inr (line2, qs2, iq2, tkn1, ind3)) })"
    have eq: "split_token line qs iq tkn ind1 limit =
        (if length tkn1 \<ge> COMMAND_TOKEN_NMB then map_option Inl (split_fail line qs1 tkn1)
         else scan_token line (if is_quote c then c else 0) ind2 limit \<bind> rest)"
      unfolding split_token_def rd rest_def qs1_def ind2_def tkn1_def using q by (simp only: bind.bind_lunit if_False Let_def)
    have rest: "ensures (rest x) ?post" if "scan_post limit line (if is_quote c then c else 0) x" for x
    proof -
      obtain line2 q2 ind3 r where x: "x = (line2, q2, ind3, r)"
        by (cases x) auto
      have sc: "same_tail limit line line2" "ind3 \<le> limit" "\<forall>e. r = Tok_quoted e \<longrightarrow> e < limit \<and> is_quote c"
        using that by (auto simp: x scan_post_def split: if_splits)
      define qs2 where "qs2 = (case r of Tok_quoted e \<Rightarrow> qs1[iq := (fst (qs1 ! iq), Some e)] | _ \<Rightarrow> qs1)"
      have qs2: "quotes_ok limit qs2 \<and> length qs2 = 10"
      proof (cases r)
        case (Tok_quoted e)
        then have "is_quote c" "e < limit" "iq < 10"
          using sc(3) q by auto
        then have "fst (qs1 ! iq) = Some ind1"
          using assms(4) by (simp add: qs1_def)
        then show ?thesis
          using Tok_quoted qs1 assms(1) \<open>e < limit\<close> by (auto simp: qs2_def intro!: quotes_ok_update)
      qed (use qs1 in \<open>simp_all add: qs2_def\<close>)
      show ?thesis
        using fail [OF qs1 sc(1)] fail [OF _ _ sc(1), of qs2] qs2 sc ind2(2)
        by (simp add: x rest_def qs2_def [symmetric] Let_def split_post_def)
    qed
    then show ?thesis
      unfolding eq by (intro ensures_if fail [OF qs1 same_tail_refl] ensures_bindI [OF scan_token_total [OF ind2(1) assms(2)]] rest)
  qed
qed

lemma split_loop_total:
  "ind \<le> limit \<Longrightarrow> limit < length line \<Longrightarrow> quotes_ok limit qs \<Longrightarrow> length qs = 10 \<Longrightarrow> \<forall>t \<in> set tkn. t \<le> limit \<Longrightarrow>
   ensures (split_loop line qs iq tkn ind limit) (split_post limit line)"
proof (induction line qs iq tkn ind limit rule: split_loop.induct)
  case (1 line qs iq tkn ind limit)
  obtain ind1 where sk: "skip_nul line ind limit = Some ind1" "ind1 \<le> limit"
    using skip_nul_total [OF "1.prems"(1,2)] by (auto simp: ensures_def)
  show ?case
  proof (cases "ind1 < limit")
    case False
    then show ?thesis
      using sk "1.prems" by (subst split_loop.simps) (simp add: split_post_def)
  next
    case lt: True
    obtain t where t: "split_token line qs iq tkn ind1 limit = Some t"
      "case t of Inl ret \<Rightarrow> split_post limit line ret
       | Inr (line2, qs2, iq2, tkn1, ind3) \<Rightarrow> same_tail limit line line2 \<and> quotes_ok limit qs2 \<and> length qs2 = 10 \<and>
          (\<forall>t \<in> set tkn1. t \<le> limit) \<and> ind3 \<le> limit"
      using split_token_total [OF lt "1.prems"(2-5)] by (auto simp: ensures_def)
    show ?thesis
    proof (cases t)
      case (Inl ret)
      then show ?thesis
        using sk lt t by (subst split_loop.simps) simp
    next
      case (Inr n)
      obtain line2 qs2 iq2 tkn1 ind3 where n: "n = (line2, qs2, iq2, tkn1, ind3)"
        by (cases n) auto
      have post: "same_tail limit line line2" "quotes_ok limit qs2" "length qs2 = 10" "\<forall>t \<in> set tkn1. t \<le> limit" "ind3 \<le> limit"
        using t(2) by (simp_all add: Inr n)
      have "ensures (split_loop line2 qs2 iq2 tkn1 ind3 limit) (split_post limit line2)"
        by (rule "1.IH" [OF sk(1) _ t(1) Inr n [symmetric] refl refl refl post(5) same_tail_less [OF post(1) "1.prems"(2)] post(2-4)])
          (use lt in simp)
      then have "ensures (split_loop line2 qs2 iq2 tkn1 ind3 limit) (split_post limit line)"
        by (rule ensures_mono) (use post(1) in \<open>auto simp: split_post_def intro: same_tail_trans\<close>)
      then show ?thesis
        using sk lt t(1) by (subst split_loop.simps) (simp add: Inr n)
    qed
  qed
qed

subsection \<open>Quoting round trip\<close>

text \<open>Arguments as a user writes them: a plain word, or a quoted one, in which blanks (zero bytes in
  the line buffer) are kept; with the text in the line, what \<open>split\<close> makes of it, and the string
  the command gets.\<close>

datatype cmd_arg = Plain bytes | Quoted u8 bytes

fun arg_ok :: "cmd_arg \<Rightarrow> bool" where
  "arg_ok (Plain w) \<longleftrightarrow> w \<noteq> [] \<and> 0 \<notin> set w \<and> \<not> is_quote (hd w)"
| "arg_ok (Quoted q w) \<longleftrightarrow> is_quote q \<and> q \<notin> set w"

fun arg_text :: "cmd_arg \<Rightarrow> bytes" where
  "arg_text (Plain w) = w"
| "arg_text (Quoted q w) = q # w @ [q]"

fun arg_done :: "cmd_arg \<Rightarrow> bytes" where
  "arg_done (Plain w) = w"
| "arg_done (Quoted q w) = q # vis w @ [0]"

fun arg_val :: "cmd_arg \<Rightarrow> bytes" where
  "arg_val (Plain w) = w"
| "arg_val (Quoted q w) = vis w"

fun arg_off :: "cmd_arg \<Rightarrow> nat" where
  "arg_off (Plain w) = 0"
| "arg_off (Quoted q w) = 1"

definition args_line :: "cmd_arg list \<Rightarrow> bytes" where
  "args_line args = concat (map (\<lambda>a. arg_text a @ [0]) args)"

definition args_done :: "cmd_arg list \<Rightarrow> bytes" where
  "args_done args = concat (map (\<lambda>a. arg_done a @ [0]) args)"

definition n_quoted :: "cmd_arg list \<Rightarrow> nat" where
  "n_quoted args = sum_list (map arg_off args)"

primrec arg_ptrs :: "nat \<Rightarrow> cmd_arg list \<Rightarrow> nat list" where
  "arg_ptrs i [] = []"
| "arg_ptrs i (a # args) = (i + arg_off a) # arg_ptrs (i + length (arg_text a) + 1) args"

lemma arg_done_length [simp]: "length (arg_done a) = length (arg_text a)"
  by (cases a) simp_all

lemma args_simps [simp]:
  "args_line [] = []" "args_line (a # args) = arg_text a @ 0 # args_line args"
  "args_done [] = []" "args_done (a # args) = arg_done a @ 0 # args_done args"
  "n_quoted [] = 0" "n_quoted (a # args) = arg_off a + n_quoted args"
  by (simp_all add: args_line_def args_done_def n_quoted_def)

lemma args_done_length [simp]: "length (args_done args) = length (args_line args)"
  by (induction args) simp_all

lemma is_quote_nz [simp]: "is_quote q \<Longrightarrow> q \<noteq> 0"
  by (auto simp: is_quote_def)

lemma scan_plain:
  "0 \<notin> set w \<Longrightarrow> length pre + length w \<le> limit \<Longrightarrow>
   scan_token (pre @ w @ 0 # rest) 0 (length pre) limit = Some (pre @ w @ 0 # rest, 0, length pre + length w,
     if length pre + length w < limit then Tok_space else Tok_limit)"
proof (induction w arbitrary: pre)
  case Nil
  then show ?case
    by (subst scan_token.simps) (simp add: rd_def)
next
  case (Cons c w)
  have "scan_token ((pre @ [c]) @ w @ 0 # rest) 0 (length (pre @ [c])) limit = Some ((pre @ [c]) @ w @ 0 # rest, 0,
      length (pre @ [c]) + length w, if length (pre @ [c]) + length w < limit then Tok_space else Tok_limit)"
    using Cons.prems by (intro Cons.IH) simp_all
  then show ?case
    using Cons.prems by (subst scan_token.simps) (simp add: rd_def)
qed

lemma scan_quoted:
  "q \<noteq> 0 \<Longrightarrow> q \<notin> set w \<Longrightarrow> length pre + length w < limit \<Longrightarrow>
   scan_token (pre @ w @ q # 0 # rest) q (length pre) limit =
     Some (pre @ vis w @ 0 # 0 # rest, 0, length pre + length w + 1, Tok_quoted (length pre + length w))"
proof (induction w arbitrary: pre)
  case Nil
  then show ?case
    by (subst scan_token.simps) (simp add: rd_def wr_def nth_append)
next
  case (Cons c w)
  define c' where "c' = (if c = 0 then 0x20 else c)"
  have "scan_token ((pre @ [c']) @ w @ q # 0 # rest) q (length (pre @ [c'])) limit =
     Some ((pre @ [c']) @ vis w @ 0 # 0 # rest, 0, length (pre @ [c']) + length w + 1, Tok_quoted (length (pre @ [c']) + length w))"
    using Cons.prems by (intro Cons.IH) simp_all
  then show ?case
    using Cons.prems by (subst scan_token.simps) (auto simp: rd_def wr_def c'_def)
qed

lemma arg_text_first: "arg_ok a \<Longrightarrow> \<exists>c cs. arg_text a = c # cs \<and> c \<noteq> 0 \<and> is_quote c = (arg_off a = 1)"
  by (cases a) (auto simp: neq_Nil_conv)

lemma split_token_arg:
  assumes "arg_ok a" "iq + arg_off a \<le> 10" "length tkn + 1 < 128" "length pre + length (arg_text a) \<le> limit"
  shows "\<exists>qs2. split_token (pre @ arg_text a @ 0 # rest) qs iq tkn (length pre) limit = Some
    (if length pre + length (arg_text a) < limit
     then Inr (pre @ arg_done a @ 0 # rest, qs2, iq + arg_off a, tkn @ [length pre + arg_off a], length pre + length (arg_text a))
     else Inl (int (length tkn + 1), pre @ arg_done a @ 0 # rest, qs2, tkn @ [length pre + arg_off a]))"
proof (cases a)
  case (Plain w)
  obtain c cs where w: "w = c # cs" "c \<noteq> 0" "\<not> is_quote c"
    using assms(1) Plain by (cases w) auto
  have "scan_token (pre @ w @ 0 # rest) 0 (length pre) limit = Some (pre @ w @ 0 # rest, 0, length pre + length w,
     if length pre + length w < limit then Tok_space else Tok_limit)"
    using assms(1,4) Plain by (intro scan_plain) auto
  then show ?thesis
    using assms w Plain by (auto simp: split_token_def rd_def Let_def)
next
  case (Quoted q w)
  have "scan_token ((pre @ [q]) @ w @ q # 0 # rest) q (length (pre @ [q])) limit =
     Some ((pre @ [q]) @ vis w @ 0 # 0 # rest, 0, length (pre @ [q]) + length w + 1, Tok_quoted (length (pre @ [q]) + length w))"
    using assms(1,4) Quoted by (intro scan_quoted) auto
  then show ?thesis
    using assms Quoted by (auto simp: split_token_def rd_def Let_def)
qed

lemma skip_nul_here: "rd line ind = Some c \<Longrightarrow> c \<noteq> 0 \<Longrightarrow> skip_nul line ind limit = Some ind"
  by (subst skip_nul.simps) simp

lemma split_loop_args:
  assumes "args \<noteq> []" "\<forall>a \<in> set args. arg_ok a" "iq + n_quoted args \<le> 10" "length tkn + length args < 128"
    and "limit + 1 = length pre + length (args_line args)"
  shows "\<exists>qs'. split_loop (pre @ args_line args @ rest) qs iq tkn (length pre) limit =
    Some (int (length tkn + length args), pre @ args_done args @ rest, qs', tkn @ arg_ptrs (length pre) args)"
  using assms
proof (induction args arbitrary: pre qs iq tkn)
  case (Cons a args)
  define line where "line = pre @ arg_text a @ 0 # args_line args @ rest"
  obtain c cs where c: "arg_text a = c # cs" "c \<noteq> 0"
    using arg_text_first [of a] Cons.prems by auto
  have sk: "skip_nul line (length pre) limit = Some (length pre)" and lim: "length pre < limit"
    using c Cons.prems(5) by (auto simp: line_def rd_def intro: skip_nul_here)
  obtain qs2 where tok: "split_token line qs iq tkn (length pre) limit = Some
    (if length pre + length (arg_text a) < limit
     then Inr (pre @ arg_done a @ 0 # args_line args @ rest, qs2, iq + arg_off a, tkn @ [length pre + arg_off a], length pre + length (arg_text a))
     else Inl (int (length tkn + 1), pre @ arg_done a @ 0 # args_line args @ rest, qs2, tkn @ [length pre + arg_off a]))"
    using split_token_arg [of a iq tkn pre limit "args_line args @ rest" qs] Cons.prems by (auto simp: line_def)
  show ?case
  proof (cases "args = []")
    case True
    then have "\<not> length pre + length (arg_text a) < limit"
      using Cons.prems(5) by simp
    then show ?thesis
      using sk lim tok True by (subst split_loop.simps) (simp add: line_def)
  next
    case False
    then have lt: "length pre + length (arg_text a) < limit"
      using Cons.prems(5) arg_text_first [of "hd args"] Cons.prems(2) by (cases args) auto
    define pre' where "pre' = pre @ arg_done a @ [0]"
    define line' where "line' = pre' @ args_line args @ rest"
    have line': "pre @ arg_done a @ 0 # args_line args @ rest = line'"
      by (simp add: line'_def pre'_def)
    have zero: "rd line' (length pre + length (arg_text a)) = Some 0"
      by (simp add: line' [symmetric] rd_def nth_append)
    have nz: "skip_nul line' (length pre + length (arg_text a)) limit = skip_nul line' (length pre') limit"
      using lt zero by (subst skip_nul.simps) (simp add: pre'_def)
    have shift: "split_loop line' qs2 (iq + arg_off a) (tkn @ [length pre + arg_off a]) (length pre + length (arg_text a)) limit
        = split_loop line' qs2 (iq + arg_off a) (tkn @ [length pre + arg_off a]) (length pre') limit"
      by (subst (1 2) split_loop.simps) (simp only: nz)
    have "\<exists>qs'. split_loop (pre' @ args_line args @ rest) qs2 (iq + arg_off a) (tkn @ [length pre + arg_off a]) (length pre') limit =
       Some (int (length (tkn @ [length pre + arg_off a]) + length args), pre' @ args_done args @ rest, qs',
        (tkn @ [length pre + arg_off a]) @ arg_ptrs (length pre') args)"
      by (rule Cons.IH [OF False]) (use Cons.prems in \<open>simp_all add: pre'_def add.assoc\<close>)
    then obtain qs' where "split_loop (pre' @ args_line args @ rest) qs2 (iq + arg_off a) (tkn @ [length pre + arg_off a]) (length pre') limit =
       Some (int (length (tkn @ [length pre + arg_off a]) + length args), pre' @ args_done args @ rest, qs',
        (tkn @ [length pre + arg_off a]) @ arg_ptrs (length pre') args)"
      by blast
    then show ?thesis
      using sk lim tok lt shift unfolding line' line'_def [symmetric]
      by (subst split_loop.simps) (simp add: line_def pre'_def)
  qed
qed simp

lemma cstr_append: "0 \<notin> set w \<Longrightarrow> cstr (pre @ w @ 0 # rest) (length pre) = Some w"
  by (auto simp: cstr_def takeWhile_append)

lemma vis_nz [simp]: "0 \<notin> set (vis w)"
  by (auto simp: vis_def)

lemma cstr_arg: "arg_ok a \<Longrightarrow> cstr (pre @ arg_done a @ 0 # rest) (length pre + arg_off a) = Some (arg_val a)"
proof (cases a)
  case (Quoted q w)
  then show ?thesis
    using cstr_append [of "vis w" "pre @ [q]" "0 # rest"] by simp
qed (simp add: cstr_append)

lemma argv_args:
  assumes "\<forall>a \<in> set args. arg_ok a"
  shows "those (map (cstr (pre @ args_done args @ rest)) (arg_ptrs (length pre) args)) = Some (map arg_val args)"
  using assms
proof (induction args arbitrary: pre)
  case (Cons a args)
  define pre' where "pre' = pre @ arg_done a @ [0]"
  have "those (map (cstr (pre' @ args_done args @ rest)) (arg_ptrs (length pre') args)) = Some (map arg_val args)"
    using Cons by auto
  then show ?case
    using Cons.prems cstr_arg [of a pre "args_done args @ rest"] by (simp add: pre'_def)
qed simp

end
