(* ===== verification/MicrorlScreen.thy ===== *)
theory MicrorlScreen
  imports Microrl
begin

section \<open>What the user of the line editor sees\<close>

text \<open>
  The editor never sees the screen: it only prints characters and cursor sequences and relies on
  the terminal to show the line buffer. This theory adds the terminal as an abstract machine (one
  row of cells, a column, and the state of the escape sequence parser, for exactly the sequences
  the editor sends) and proves that after every key the row shows the prompt and the line and the
  terminal's cursor stands on the editor's cursor. On the way it proves that the editor's buffer
  operations are those of a text with a cursor (a gap buffer), that no key touches memory outside
  its buffers, and under which conditions four keys would.
\<close>

subsection \<open>The terminal\<close>

datatype esc_state = Ground | Esc | Csi nat

record screen =
  scr_row :: "nat \<Rightarrow> u8"
  scr_col :: nat
  scr_esc :: esc_state

abbreviation BLANK :: u8 where "BLANK \<equiv> 0x20"

definition printable :: "u8 \<Rightarrow> bool" where
  "printable c \<longleftrightarrow> 0x20 \<le> c \<and> c \<noteq> 0x7F"

text \<open>A byte reaches the terminal. \<open>LF\<close> starts a fresh row, as on the firmware's consoles, which
  send \<open>CR LF\<close> for it; a missing or zero count means one.\<close>

definition scr_csi :: "nat \<Rightarrow> u8 \<Rightarrow> screen \<Rightarrow> screen" where
  "scr_csi n c t =
     (if 0x30 \<le> c \<and> c \<le> 0x39 then t\<lparr>scr_esc := Csi (n * 10 + (unat c - 48))\<rparr>
      else if c = 0x43 then t\<lparr>scr_col := scr_col t + (if n = 0 then 1 else n), scr_esc := Ground\<rparr>
      else if c = 0x44 then t\<lparr>scr_col := scr_col t - (if n = 0 then 1 else n), scr_esc := Ground\<rparr>
      else if c = 0x4B then t\<lparr>scr_row := (\<lambda>i. if i < scr_col t then scr_row t i else BLANK), scr_esc := Ground\<rparr>
      else t\<lparr>scr_esc := Ground\<rparr>)"

definition scr_feed :: "u8 \<Rightarrow> screen \<Rightarrow> screen" where
  "scr_feed c t =
     (case scr_esc t of
        Ground \<Rightarrow>
          if c = 0x0D then t\<lparr>scr_col := 0\<rparr>
          else if c = 0x0A then t\<lparr>scr_row := (\<lambda>_. BLANK), scr_col := 0\<rparr>
          else if c = 0x1B then t\<lparr>scr_esc := Esc\<rparr>
          else if printable c then t\<lparr>scr_row := (scr_row t)(scr_col t := c), scr_col := scr_col t + 1\<rparr>
          else t
      | Esc \<Rightarrow> if c = 0x5B then t\<lparr>scr_esc := Csi 0\<rparr> else t\<lparr>scr_esc := Ground\<rparr>
      | Csi n \<Rightarrow> scr_csi n c t)"

definition scr_print :: "bytes \<Rightarrow> screen \<Rightarrow> screen" where
  "scr_print bs t = fold scr_feed bs t"

lemma scr_print_simps [simp]:
  "scr_print [] t = t" "scr_print (c # bs) t = scr_print bs (scr_feed c t)"
  "scr_print (xs @ ys) t = scr_print ys (scr_print xs t)"
  by (simp_all add: scr_print_def)

text \<open>A row that shows a text, and a terminal that shows a text with its cursor at a column.\<close>

definition row_of :: "bytes \<Rightarrow> nat \<Rightarrow> u8" where
  "row_of bs i = (if i < length bs then bs ! i else BLANK)"

definition scr_shows :: "screen \<Rightarrow> bytes \<Rightarrow> nat \<Rightarrow> bool" where
  "scr_shows t bs col \<longleftrightarrow> scr_esc t = Ground \<and> scr_row t = row_of bs \<and> scr_col t = col"

lemma print_printable:
  assumes "scr_esc t = Ground" "\<forall>c \<in> set bs. printable c"
  shows "scr_print bs t = t\<lparr>scr_row := (\<lambda>i. if scr_col t \<le> i \<and> i < scr_col t + length bs then bs ! (i - scr_col t) else scr_row t i),
     scr_col := scr_col t + length bs\<rparr>"
  using assms
proof (induction bs arbitrary: t)
  case Nil
  then show ?case
    by (cases t) (auto simp: fun_eq_iff)
next
  case (Cons c bs)
  have c: "c \<noteq> 0x0D" "c \<noteq> 0x0A" "c \<noteq> 0x1B" "printable c"
    using Cons.prems(2) by (auto simp: printable_def)
  then have feed: "scr_feed c t = t\<lparr>scr_row := (scr_row t)(scr_col t := c), scr_col := scr_col t + 1\<rparr>"
    using Cons.prems(1) by (simp add: scr_feed_def)
  have row: "(\<lambda>i. if scr_col t + 1 \<le> i \<and> i < scr_col t + 1 + length bs then bs ! (i - (scr_col t + 1)) else ((scr_row t)(scr_col t := c)) i)
      = (\<lambda>i. if scr_col t \<le> i \<and> i < scr_col t + length (c # bs) then (c # bs) ! (i - scr_col t) else scr_row t i)"
    by (auto simp: fun_eq_iff nth_Cons')
  have "scr_print bs (scr_feed c t) = (scr_feed c t)\<lparr>scr_row := (\<lambda>i. if scr_col t + 1 \<le> i \<and> i < scr_col t + 1 + length bs
       then bs ! (i - (scr_col t + 1)) else ((scr_row t)(scr_col t := c)) i), scr_col := scr_col t + 1 + length bs\<rparr>"
    using Cons.prems by (subst Cons.IH) (simp_all add: feed cong: if_cong)
  then show ?case
    unfolding row by (simp add: feed)
qed

lemma digit_word: "d < 10 \<Longrightarrow> unat (word_of_nat (48 + d) :: u8) = 48 + d"
  using unat_word_of_nat_u8 [of "48 + d"] by (simp only:)

lemma feed_digit: "scr_esc t = Csi n \<Longrightarrow> d < 10 \<Longrightarrow> scr_feed (word_of_nat (48 + d)) t = t\<lparr>scr_esc := Csi (n * 10 + d)\<rparr>"
  using digit_word [of d] by (simp add: scr_feed_def scr_csi_def word_le_nat_alt del: of_nat_add)

lemma print_decimal: "scr_esc t = Csi v \<Longrightarrow> \<exists>k. scr_print (decimal n) t = t\<lparr>scr_esc := Csi (v * 10 ^ k + n)\<rparr>"
proof (induction n arbitrary: t v rule: decimal.induct)
  case (1 n)
  show ?case
  proof (cases "n < 10")
    case True
    then show ?thesis
      using "1.prems" feed_digit [of t v n] by (subst decimal.simps) (auto intro!: exI [of _ 1])
  next
    case False
    obtain k where k: "scr_print (decimal (n div 10)) t = t\<lparr>scr_esc := Csi (v * 10 ^ k + n div 10)\<rparr>"
      using "1.IH" [OF False "1.prems"] by blast
    define x where "x = v * 10 ^ k + n div 10"
    have "scr_feed (word_of_nat (48 + n mod 10)) (t\<lparr>scr_esc := Csi x\<rparr>) = (t\<lparr>scr_esc := Csi x\<rparr>)\<lparr>scr_esc := Csi (x * 10 + n mod 10)\<rparr>"
      by (rule feed_digit) simp_all
    then have "scr_feed (word_of_nat (48 + n mod 10)) (t\<lparr>scr_esc := Csi (v * 10 ^ k + n div 10)\<rparr>)
        = t\<lparr>scr_esc := Csi ((v * 10 ^ k + n div 10) * 10 + n mod 10)\<rparr>"
      unfolding x_def by (cases t) (simp only: screen.simps)
    moreover have "decimal n = decimal (n div 10) @ [word_of_nat (48 + n mod 10)]"
      using False by (subst decimal.simps) simp
    ultimately have "scr_print (decimal n) t = t\<lparr>scr_esc := Csi ((v * 10 ^ k + n div 10) * 10 + n mod 10)\<rparr>"
      using k by (simp only: scr_print_simps)
    moreover have "(v * 10 ^ k + n div 10) * 10 + n mod 10 = v * 10 ^ Suc k + n"
      by (simp add: algebra_simps)
    ultimately have "scr_print (decimal n) t = t\<lparr>scr_esc := Csi (v * 10 ^ Suc k + n)\<rparr>"
      by (simp only:)
    then show ?thesis
      by blast
  qed
qed

lemma print_csi: "scr_esc t = Ground \<Longrightarrow> scr_print ([0x1B, 0x5B] @ decimal n) t = t\<lparr>scr_esc := Csi n\<rparr>"
proof -
  assume g: "scr_esc t = Ground"
  have "scr_print [0x1B, 0x5B] t = t\<lparr>scr_esc := Csi 0\<rparr>"
    using g by (simp add: scr_feed_def)
  then show ?thesis
    using print_decimal [of "t\<lparr>scr_esc := Csi 0\<rparr>" 0 n] by auto
qed

text \<open>A cursor sequence moves the cursor by its offset.\<close>

lemma print_move:
  assumes "scr_esc t = Ground" "- 999 \<le> d" "d \<le> 999" "0 \<le> int (scr_col t) + d"
  shows "scr_print (generate_move_cursor d) t = t\<lparr>scr_col := nat (int (scr_col t) + d)\<rparr>"
proof -
  consider "d = 0" | "0 < d" | "d < 0"
    by linarith
  then show ?thesis
  proof cases
    case 1
    then show ?thesis
      by (simp add: generate_move_cursor_def)
  next
    case 2
    have "scr_print ([0x1B, 0x5B] @ decimal (nat d) @ [0x43]) t = scr_feed 0x43 (t\<lparr>scr_esc := Csi (nat d)\<rparr>)"
      using print_csi [OF assms(1), of "nat d"] by simp
    then show ?thesis
      using 2 assms by (simp add: generate_move_cursor_def scr_feed_def scr_csi_def nat_add_distrib)
  next
    case 3
    have "scr_print ([0x1B, 0x5B] @ decimal (nat (- d)) @ [0x44]) t = scr_feed 0x44 (t\<lparr>scr_esc := Csi (nat (- d))\<rparr>)"
      using print_csi [OF assms(1), of "nat (- d)"] by simp
    moreover have "scr_col t - nat (- d) = nat (int (scr_col t) + d)"
      using 3 assms(4) by simp
    ultimately show ?thesis
      using 3 assms by (simp add: generate_move_cursor_def scr_feed_def scr_csi_def)
  qed
qed

lemma print_erase: "scr_esc t = Ground \<Longrightarrow>
  scr_print [0x1B, 0x5B, 0x4B] t = t\<lparr>scr_row := (\<lambda>i. if i < scr_col t then scr_row t i else BLANK)\<rparr>"
  by (cases t) (auto simp: scr_feed_def scr_csi_def fun_eq_iff)

lemma print_return: "scr_esc t = Ground \<Longrightarrow> scr_feed 0x0D t = t\<lparr>scr_col := 0\<rparr>"
  by (simp add: scr_feed_def)

lemma print_newline: "scr_esc t = Ground \<Longrightarrow> scr_feed 0x0A t = t\<lparr>scr_row := (\<lambda>_. BLANK), scr_col := 0\<rparr>"
  by (simp add: scr_feed_def)

subsection \<open>The line on the screen\<close>

definition text_ok :: "bytes \<Rightarrow> bool" where
  "text_ok bs \<longleftrightarrow> (\<forall>c \<in> set bs. c = 0 \<or> printable c)"

definition prompt_ok :: "bytes \<Rightarrow> bool" where
  "prompt_ok bs \<longleftrightarrow> length bs = 6 \<and> (\<forall>c \<in> set bs. printable c)"

lemma text_ok_simps [simp]:
  "text_ok []" "text_ok (xs @ ys) \<longleftrightarrow> text_ok xs \<and> text_ok ys" "text_ok (c # cs) \<longleftrightarrow> (c = 0 \<or> printable c) \<and> text_ok cs"
  by (auto simp: text_ok_def)

lemma vis_printable: "text_ok bs \<Longrightarrow> c \<in> set (vis bs) \<Longrightarrow> printable c"
  by (auto simp: text_ok_def vis_def printable_def)

text \<open>The terminal, started as \<open>t\<close>, after all that was printed so far.\<close>

definition screen_of :: "screen \<Rightarrow> microrl \<Rightarrow> screen" where
  "screen_of t s = scr_print (shown_text (mr_out s)) t"

definition shows_line :: "screen \<Rightarrow> microrl \<Rightarrow> bytes \<Rightarrow> bytes \<Rightarrow> bool" where
  "shows_line t s b a \<longleftrightarrow> scr_shows (screen_of t s) (prompt_str s @ vis (b @ a)) (6 + length b)"

lemma screen_of_emit: "screen_of t (s\<lparr>mr_out := mr_out s @ map Print ps\<rparr>) = scr_print (concat ps) (screen_of t s)"
  by (simp add: screen_of_def shown_text_def comp_def)

lemma screen_of_Print [simp]: "screen_of t (emit (Print bs) s) = scr_print bs (screen_of t s)"
  by (simp add: screen_of_def emit_def)

lemma screen_of_cong: "mr_out s = mr_out s' \<Longrightarrow> screen_of t s = screen_of t s'"
  by (simp add: screen_of_def)

lemma ed_cong: "cmdline s = cmdline s' \<Longrightarrow> cursor s = cursor s' \<Longrightarrow> cmdlen s = cmdlen s' \<Longrightarrow> ed s b a = ed s' b a"
  by (simp add: ed_def)

lemma row_agree:
  assumes "\<And>i. i < length xs \<Longrightarrow> r i = row_of (xs @ ys) i"
  shows "(\<lambda>i. if i < length xs + length ys then if length xs \<le> i then ys ! (i - length xs) else r i else BLANK) = row_of (xs @ ys)"
  using assms by (auto simp: fun_eq_iff row_of_def nth_append)

text \<open>Reprinting the line from position \<open>p\<close> on repairs the row if it was right up to there.\<close>

lemma print_line_shows:
  assumes ed: "ed s b a" and ok: "text_ok (b @ a)" "prompt_ok (prompt_str s)" and p: "p \<le> length b + length a"
    and g: "scr_esc (screen_of t s) = Ground"
    and row: "\<And>i. i < 6 + p \<Longrightarrow> scr_row (screen_of t s) i = row_of (prompt_str s @ vis (b @ a)) i"
    and col: "reset \<or> scr_col (screen_of t s) = 6 + p"
  shows "\<exists>evs. terminal_print_line s (int p) reset = Some (s\<lparr>mr_out := mr_out s @ evs\<rparr>) \<and>
    shows_line t (s\<lparr>mr_out := mr_out s @ evs\<rparr>) b a"
proof -
  obtain ps where ps: "terminal_print_line s (int p) reset = Some (s\<lparr>mr_out := mr_out s @ map Print ps\<rparr>)"
    "concat ps = (if reset then 0x0D # generate_move_cursor (PROMPT_LEN + int p) else [])
       @ vis (drop p (b @ a)) @ [0x1B, 0x5B, 0x4B] @ generate_move_cursor (- int (length a))"
    using print_line_text [OF ed p, of reset] by blast
  have len: "length b + length a < 800" and pr: "length (prompt_str s) = 6"
    using ed_len [OF ed] ok by (simp_all add: prompt_ok_def)
  have "text_ok (drop p (b @ a))"
    using ok(1) set_drop_subset [of p "b @ a"] unfolding text_ok_def by blast
  then have bs: "\<forall>c \<in> set (vis (drop p (b @ a))). printable c"
    using vis_printable by blast
  define T where "T = screen_of t s"
  define xs where "xs = prompt_str s @ vis (take p (b @ a))"
  define ys where "ys = vis (drop p (b @ a))"
  have xy: "prompt_str s @ vis (b @ a) = xs @ ys" "length xs = 6 + p" "length ys = length b + length a - p"
  proof -
    have "vis (b @ a) = vis (take p (b @ a)) @ vis (drop p (b @ a))"
      by (metis append_take_drop_id vis_simps(2))
    then show "prompt_str s @ vis (b @ a) = xs @ ys"
      unfolding xs_def ys_def by (simp only: append.assoc)
  qed (use p pr in \<open>simp_all add: xs_def ys_def\<close>)
  define T1 where "T1 = T\<lparr>scr_col := 6 + p\<rparr>"
  have T1: "scr_print (if reset then 0x0D # generate_move_cursor (PROMPT_LEN + int p) else []) T = T1"
  proof (cases reset)
    case True
    have "scr_print (generate_move_cursor (6 + int p)) (T\<lparr>scr_col := 0\<rparr>) = (T\<lparr>scr_col := 0\<rparr>)\<lparr>scr_col := nat (int 0 + (6 + int p))\<rparr>"
      using g p len by (subst print_move) (simp_all add: T_def)
    then show ?thesis
      using True g p len by (simp add: T1_def T_def print_return nat_add_distrib)
  qed (use col in \<open>simp add: T1_def T_def\<close>)
  define T2 where "T2 = scr_print ys T1"
  have T2: "T2 = T1\<lparr>scr_row := (\<lambda>i. if 6 + p \<le> i \<and> i < 6 + p + length ys then ys ! (i - (6 + p)) else scr_row T i), scr_col := 6 + p + length ys\<rparr>"
    using g bs unfolding T2_def T1_def by (subst print_printable) (auto simp: T_def ys_def cong: if_cong)
  have T3: "scr_print [0x1B, 0x5B, 0x4B] T2 = T1\<lparr>scr_row := row_of (xs @ ys), scr_col := 6 + length b + length a\<rparr>"
  proof -
    have "(\<lambda>i. if i < scr_col T2 then scr_row T2 i else BLANK)
       = (\<lambda>i. if i < length xs + length ys then if length xs \<le> i then ys ! (i - length xs) else scr_row T i else BLANK)"
      by (auto simp: T2 xy(2) fun_eq_iff)
    also have "\<dots> = row_of (xs @ ys)"
      using row xy by (intro row_agree) (simp add: T_def)
    finally show ?thesis
      using g p xy(3) by (subst print_erase) (simp_all add: T2 T1_def T_def)
  qed
  have "scr_print (generate_move_cursor (- int (length a))) (scr_print [0x1B, 0x5B, 0x4B] T2)
     = T1\<lparr>scr_row := row_of (xs @ ys), scr_col := 6 + length b\<rparr>"
    unfolding T3 using g len by (subst print_move) (simp_all add: T1_def T_def nat_add_distrib nat_diff_distrib)
  then have "scr_print (concat ps) T = T1\<lparr>scr_row := row_of (xs @ ys), scr_col := 6 + length b\<rparr>"
    unfolding ps(2) scr_print_simps T1 by (simp add: T2_def ys_def)
  then have "shows_line t (s\<lparr>mr_out := mr_out s @ map Print ps\<rparr>) b a"
    using g xy(1) by (simp add: shows_line_def scr_shows_def screen_of_emit T_def T1_def)
  then show ?thesis
    using ps(1) by blast
qed

subsection \<open>The invariant of the editor and its terminal\<close>

definition mr_ok :: "screen \<Rightarrow> microrl \<Rightarrow> bytes \<Rightarrow> bytes \<Rightarrow> bytes list \<Rightarrow> bool" where
  "mr_ok t s b a recs \<longleftrightarrow> ed s b a \<and> hist_rel (ring_hist s) recs \<and> (\<forall>l \<in> set recs. text_ok l) \<and> text_ok (b @ a) \<and>
     prompt_ok (prompt_str s) \<and> shows_line t s b a"

lemma mr_ok_cong:
  assumes "cmdline s = cmdline s'" "cursor s = cursor s'" "cmdlen s = cmdlen s'" "ring_hist s = ring_hist s'"
    "prompt_str s = prompt_str s'" "mr_out s = mr_out s'"
  shows "mr_ok t s b a recs = mr_ok t s' b a recs"
  using assms by (simp add: mr_ok_def ed_def shows_line_def screen_of_def)

lemma mr_ok_escape [simp]:
  "mr_ok t (s\<lparr>mr_escape := e\<rparr>) b a recs = mr_ok t s b a recs"
  "mr_ok t (s\<lparr>escape_seq := q\<rparr>) b a recs = mr_ok t s b a recs"
  by (rule mr_ok_cong; simp)+

lemma mr_okI:
  assumes "mr_ok t s b a recs" "ed s' b' a'" "hist_rel (ring_hist s') recs" "text_ok (b' @ a')" "prompt_str s' = prompt_str s"
    "shows_line t s' b' a'"
  shows "mr_ok t s' b' a' recs"
  using assms by (simp add: mr_ok_def)

text \<open>Keys that only move the cursor.\<close>

lemma move_ok:
  assumes "mr_ok t s b a recs" "b @ a = b' @ a'" "d = int (length b') - int (length b)"
  shows "mr_ok t ((terminal_move_cursor s d)\<lparr>cursor := int (length b')\<rparr>) b' a' recs"
proof -
  have ok: "ed s b a" "hist_rel (ring_hist s) recs" "text_ok (b @ a)" "prompt_ok (prompt_str s)" "shows_line t s b a"
    using assms(1) by (simp_all add: mr_ok_def)
  have len: "length b + length a < 800" "length b' + length a' = length b + length a"
    using ed_len [OF ok(1)] arg_cong [OF assms(2), of length] by simp_all
  have f: "cmdline (terminal_move_cursor s d) = cmdline s" "cmdlen (terminal_move_cursor s d) = cmdlen s"
    "ring_hist (terminal_move_cursor s d) = ring_hist s" "prompt_str (terminal_move_cursor s d) = prompt_str s"
    by (simp_all add: terminal_move_cursor_def emit_def)
  have "ed ((terminal_move_cursor s d)\<lparr>cursor := int (length b')\<rparr>) b' a'"
  proof -
    obtain rest where r: "cmdline s = b @ a @ rest" "length (b @ a @ rest) = 800" "0 \<in> set rest" "cmdlen s = int (length b + length a)"
      using ok(1) by (auto simp: ed_def)
    then have "cmdline s = b' @ a' @ rest"
      using assms(2) by (metis append.assoc)
    then show ?thesis
      using r len f unfolding ed_def by (intro exI [of _ rest]) auto
  qed
  moreover have "screen_of t (terminal_move_cursor s d) = (screen_of t s)\<lparr>scr_col := 6 + length b'\<rparr>"
  proof (cases "d = 0")
    case True
    then show ?thesis
      using ok(5) assms(3) by (simp add: terminal_move_cursor_def shows_line_def scr_shows_def)
  next
    case False
    then show ?thesis
      using ok(5) assms(3) len
      by (simp add: terminal_move_cursor_def shows_line_def scr_shows_def print_move nat_add_distrib)
  qed
  then have "shows_line t ((terminal_move_cursor s d)\<lparr>cursor := int (length b')\<rparr>) b' a'"
    using ok(5) assms(2) by (simp add: shows_line_def scr_shows_def f screen_of_def)
  ultimately show ?thesis
    using assms(1,2) ok(3) f by (intro mr_okI [OF assms(1)]) (auto simp: mr_ok_def)
qed

subsection \<open>Keys that change the line\<close>

lemma row_of_prefix:
  assumes "take p xs = take p ys" "p \<le> length xs" "p \<le> length ys" "i < length pr + p"
  shows "row_of (pr @ vis xs) i = row_of (pr @ vis ys) i"
proof (cases "i < length pr")
  case False
  then have "take p xs ! (i - length pr) = take p ys ! (i - length pr)" "i - length pr < p"
    using assms by auto
  then have "xs ! (i - length pr) = ys ! (i - length pr)"
    by simp
  then have "vis xs ! (i - length pr) = vis ys ! (i - length pr)"
    using assms \<open>i - length pr < p\<close> by (simp add: vis_def)
  then show ?thesis
    using False assms \<open>i - length pr < p\<close> by (simp add: row_of_def nth_append)
qed (simp add: row_of_def nth_append)

lemma feed_printable:
  "scr_esc t = Ground \<Longrightarrow> printable c \<Longrightarrow> scr_feed c t = t\<lparr>scr_row := (scr_row t)(scr_col t := c), scr_col := scr_col t + 1\<rparr>"
  by (auto simp: scr_feed_def printable_def)

lemma row_of_snoc: "(row_of bs)(length bs := c) = row_of (bs @ [c])"
  by (auto simp: fun_eq_iff row_of_def nth_append)

lemma reprint_ok:
  assumes ok: "mr_ok t s b a recs" and ed1: "ed s1 b1 a1" and same: "ring_hist s1 = ring_hist s" "prompt_str s1 = prompt_str s" "mr_out s1 = mr_out s"
    and txt_ok: "text_ok (b1 @ a1)" and p: "p \<le> length b1 + length a1" "p \<le> length b + length a" "take p (b1 @ a1) = take p (b @ a)"
    and col: "reset \<or> p = length b"
  shows "\<exists>s'. terminal_print_line s1 (int p) reset = Some s' \<and> mr_ok t s' b1 a1 recs"
proof -
  have sh: "shows_line t s b a" and pr: "prompt_ok (prompt_str s1)"
    using ok same by (simp_all add: mr_ok_def)
  have scr: "screen_of t s1 = screen_of t s"
    using same by (simp add: screen_of_def)
  have "row_of (prompt_str s @ vis (b1 @ a1)) i = row_of (prompt_str s @ vis (b @ a)) i" if "i < 6 + p" for i
    using that p pr same by (intro row_of_prefix) (simp_all add: prompt_ok_def)
  then obtain evs where "terminal_print_line s1 (int p) reset = Some (s1\<lparr>mr_out := mr_out s1 @ evs\<rparr>)"
    "shows_line t (s1\<lparr>mr_out := mr_out s1 @ evs\<rparr>) b1 a1"
    using print_line_shows [OF ed1 txt_ok pr p(1), of t reset] sh col same
    by (auto simp: scr shows_line_def scr_shows_def)
  moreover have "ed (s1\<lparr>mr_out := mr_out s1 @ evs\<rparr>) b1 a1"
    using ed1 by (simp add: ed_def)
  ultimately show ?thesis
    using ok same txt_ok by (auto simp: mr_ok_def)
qed

lemma key_printable:
  assumes ok: "mr_ok t s b a recs" and ch: "0 \<le> ch" "ch < 256" "32 \<le> ch" "ch \<noteq> 127"
  shows "\<exists>s'. key_char s ch = Some s' \<and>
    (if ch = 32 \<and> b @ a = [] \<or> length b + length a + 1 \<ge> COMMAND_LINE_LEN then mr_ok t s' b a recs
     else mr_ok t s' (b @ [if ch = 32 then 0 else word_of_int ch]) a recs)"
proof -
  define c :: u8 where "c = word_of_int ch"
  have ui: "uint c = ch"
    using ch by (simp add: c_def uint_word_of_int)
  have c: "printable c" "c = 0x20 \<longleftrightarrow> ch = 32"
    using ui ch by (auto simp: printable_def word_le_def word_uint_eq_iff)
  have ed: "ed s b a"
    using ok by (simp add: mr_ok_def)
  have cl: "cmdlen s = int (length b + length a)" "cursor s = int (length b)"
    using ed by (auto simp: ed_def)
  show ?thesis
  proof (cases "ch = 32 \<and> b @ a = []")
    case True
    then show ?thesis
      using ok ch cl by (simp add: key_char_def)
  next
    case nb: False
    show ?thesis
    proof (cases "length b + length a + 1 \<ge> COMMAND_LINE_LEN")
      case True
      then show ?thesis
        using ok nb ch cl insert_text_full [OF ed, of 1] by (auto simp: key_char_def)
    next
      case fits: False
      obtain line' where ins: "microrl_insert_text s [c] 1 = Some (True, s\<lparr>cmdline := line', cmdlen := cmdlen s + 1, cursor := cursor s + 1\<rparr>)"
        "ed (s\<lparr>cmdline := line', cmdlen := cmdlen s + 1, cursor := cursor s + 1\<rparr>) (b @ blanked [c]) a"
        using insert_text_fits [OF ed, of "[c]" "[c]"] fits by auto
      define s1 where "s1 = s\<lparr>cmdline := line', cmdlen := cmdlen s + 1, cursor := cursor s + 1\<rparr>"
      define c0 where "c0 = (if c = 0x20 then 0 else c)"
      have ed1: "ed s1 (b @ [c0]) a"
        using ins(2) by (simp add: s1_def c0_def)
      have tok: "text_ok ((b @ [c0]) @ a)"
        using ok c by (simp add: mr_ok_def c0_def)
      have pos: "cursor s1 - 1 = int (length b)" "cursor s1 = cmdlen s1 \<longleftrightarrow> a = []"
        using cl by (auto simp: s1_def)
      have "\<exists>s'. key_char s ch = Some s' \<and> mr_ok t s' (b @ [c0]) a recs"
      proof (cases "a = []")
        case True
        have "key_char s ch = Some (emit (Print [c]) s1)"
          using nb ch cl ins(1) True pos(2) by (auto simp: key_char_def c_def s1_def)
        moreover have "shows_line t (emit (Print [c]) s1) (b @ [c0]) a"
        proof -
          have sh: "scr_shows (screen_of t s1) (prompt_str s @ vis b) (6 + length b)" and pr: "length (prompt_str s) = 6"
            using ok True by (simp_all add: mr_ok_def shows_line_def prompt_ok_def s1_def screen_of_def)
          have v: "prompt_str s @ vis (b @ [c0]) = (prompt_str s @ vis b) @ [c]"
            using c by (auto simp: c0_def printable_def)
          have "screen_of t (emit (Print [c]) s1) = (screen_of t s1)\<lparr>scr_row := row_of (prompt_str s @ vis (b @ [c0])), scr_col := 6 + length (b @ [c0])\<rparr>"
            using sh pr c(1) row_of_snoc [of "prompt_str s @ vis b" c] by (simp add: feed_printable scr_shows_def v del: vis_simps(1,2,4))
          then show ?thesis
            using sh True by (simp add: shows_line_def scr_shows_def emit_def s1_def)
        qed
        moreover have "ed (emit (Print [c]) s1) (b @ [c0]) a"
          using ed1 by (simp add: ed_def emit_def)
        ultimately show ?thesis
          using ok tok by (auto simp: mr_ok_def emit_def s1_def)
      next
        case False
        then have "cmdlen s \<noteq> 0"
          using cl by (cases a) simp_all
        then have "key_char s ch = terminal_print_line s1 (int (length b)) False"
          using False ch ins(1) pos unfolding key_char_def c_def [symmetric] by (simp add: s1_def)
        then show ?thesis
          using reprint_ok [OF ok ed1 _ _ _ tok, of "length b" False] by (simp add: s1_def)
      qed
      moreover have "c0 = (if ch = 32 then 0 else word_of_int ch)"
        using c(2) by (simp add: c0_def c_def)
      ultimately show ?thesis
        using nb fits by auto
    qed
  qed
qed

lemma key_backspace:
  assumes ok: "mr_ok t s (b @ [c]) a recs" and esc: "\<not> mr_escape s" and ch: "ch = 127 \<or> ch = 8"
  shows "\<exists>s'. microrl_insert_char cb s ch = Some s' \<and> mr_ok t s' b a recs"
proof -
  have ed: "ed s (b @ [c]) a" and tok: "text_ok (b @ a)"
    using ok by (simp_all add: mr_ok_def)
  have len: "length b + length a + 1 < 800"
    using ed_len [OF ed] by simp
  obtain line' where bs: "microrl_backspace s 1 = Some (s\<lparr>cmdline := line', cmdlen := cmdlen s - 1, cursor := cursor s - 1\<rparr>)"
    "ed (s\<lparr>cmdline := line', cmdlen := cmdlen s - 1, cursor := cursor s - 1\<rparr>) b a"
    using backspace_ed [of s b "[c]" a] ed len by auto
  define s1 where "s1 = s\<lparr>cmdline := line', cmdlen := cmdlen s - 1, cursor := cursor s - 1\<rparr>"
  have cl: "cursor s1 = int (length b)" "cursor s1 = cmdlen s1 \<longleftrightarrow> a = []" "cursor s > 0"
    using ed by (auto simp: ed_def s1_def)
  have key: "microrl_insert_char cb s ch =
     (if a = [] then Some (terminal_backspace s1) else terminal_print_line s1 (int (length b)) True)"
    using esc ch bs(1) cl by (auto simp: microrl_insert_char_def s1_def)
  show ?thesis
  proof (cases "a = []")
    case True
    have sh: "scr_shows (screen_of t s1) (prompt_str s @ vis (b @ [c])) (7 + length b)" and pr: "length (prompt_str s) = 6"
      using ok True by (simp_all add: mr_ok_def shows_line_def prompt_ok_def s1_def screen_of_def)
    have "screen_of t (terminal_backspace s1) =
        (screen_of t s1)\<lparr>scr_row := (scr_row (screen_of t s1))(6 + length b := BLANK), scr_col := 6 + length b\<rparr>"
      using sh by (cases "screen_of t s1") (simp add: terminal_backspace_def scr_shows_def scr_feed_def scr_csi_def printable_def)
    moreover have "(row_of (prompt_str s @ vis (b @ [c])))(6 + length b := BLANK) = row_of (prompt_str s @ vis b)"
      using pr by (auto simp: fun_eq_iff row_of_def nth_append)
    ultimately have "shows_line t (terminal_backspace s1) b a"
      using sh True by (simp add: shows_line_def scr_shows_def) (simp add: terminal_backspace_def emit_def s1_def)
    moreover have "ed (terminal_backspace s1) b a"
      using bs(2) by (simp add: ed_def terminal_backspace_def emit_def s1_def)
    ultimately show ?thesis
      using ok tok key True by (auto simp: mr_ok_def terminal_backspace_def emit_def s1_def)
  next
    case False
    then show ?thesis
      using key reprint_ok [OF ok, of s1 b a "length b" True] bs(2) tok by (simp add: s1_def)
  qed
qed

lemma key_delete:
  assumes ok: "mr_ok t s b a recs" and esc: "\<not> mr_escape s"
    and safe: "b @ a = [] \<or> a \<noteq> [] \<and> length b + length a + 1 < COMMAND_LINE_LEN"
  shows "\<exists>s'. microrl_insert_char cb s 4 = Some s' \<and> mr_ok t s' b (tl a) recs"
proof (cases a)
  case Nil
  then have "b = []" "microrl_delete s = Some s" "cursor s = int 0"
    using safe ok delete_empty [of s] by (auto simp: mr_ok_def ed_def)
  then show ?thesis
    using esc Nil ok reprint_ok [OF ok, of s b a 0 False] by (auto simp: microrl_insert_char_def mr_ok_def)
next
  case (Cons c a')
  have ed: "ed s b (c # a')" and tok: "text_ok (b @ a')"
    using ok Cons by (simp_all add: mr_ok_def)
  obtain line' where d: "microrl_delete s = Some (s\<lparr>cmdline := line', cmdlen := cmdlen s - 1\<rparr>)"
    "ed (s\<lparr>cmdline := line', cmdlen := cmdlen s - 1\<rparr>) b a'"
    using delete_ed [OF ed] safe Cons by auto
  have "cursor s = int (length b)"
    using ed by (auto simp: ed_def)
  then have "microrl_insert_char cb s 4 = terminal_print_line (s\<lparr>cmdline := line', cmdlen := cmdlen s - 1\<rparr>) (int (length b)) False"
    using esc d(1) by (simp add: microrl_insert_char_def)
  then show ?thesis
    using reprint_ok [OF ok d(2), of "length b" False] tok Cons by simp
qed

lemma key_clear:
  assumes ok: "mr_ok t s b a recs" and esc: "\<not> mr_escape s" and safe: "length b + length a + length b \<le> COMMAND_LINE_LEN"
  shows "\<exists>s'. microrl_insert_char cb s 21 = Some s' \<and> mr_ok t s' [] a recs"
proof -
  have ed: "ed s b a" and tok: "text_ok ([] @ a)"
    using ok by (simp_all add: mr_ok_def)
  have cur: "cursor s = int (length b)"
    using ed by (auto simp: ed_def)
  show ?thesis
  proof (cases "b = []")
    case True
    then show ?thesis
      using esc cur reprint_ok [OF ok, of s "[]" a 0 True] ed tok by (simp add: microrl_insert_char_def)
  next
    case False
    obtain line' where d: "microrl_backspace s (cursor s) = Some (s\<lparr>cmdline := line', cmdlen := cmdlen s - int (length b), cursor := cursor s - int (length b)\<rparr>)"
      "ed (s\<lparr>cmdline := line', cmdlen := cmdlen s - int (length b), cursor := cursor s - int (length b)\<rparr>) [] a"
      using backspace_ed [of s "[]" b a] ed safe False cur by auto
    then show ?thesis
      using esc cur False reprint_ok [OF ok d(2), of 0 True] tok by (simp add: microrl_insert_char_def)
  qed
qed

lemma key_kill:
  assumes ok: "mr_ok t s b a recs" and esc: "\<not> mr_escape s"
  shows "\<exists>s'. microrl_insert_char cb s 11 = Some s' \<and> mr_ok t s' b [] recs"
proof -
  define s' where "s' = (emit (Print [0x1B, 0x5B, 0x4B]) s)\<lparr>cmdlen := cursor s\<rparr>"
  obtain rest where "cmdline s = b @ a @ rest" "length (b @ a @ rest) = 800" "0 \<in> set rest" "cursor s = int (length b)"
    using ok by (auto simp: mr_ok_def ed_def)
  then have "ed s' b []"
    unfolding ed_def by (intro exI [of _ "a @ rest"]) (simp add: s'_def emit_def)
  moreover have "shows_line t s' b []"
  proof -
    have sh: "scr_shows (screen_of t s) (prompt_str s @ vis (b @ a)) (6 + length b)" and pr: "length (prompt_str s) = 6"
      using ok by (simp_all add: mr_ok_def shows_line_def prompt_ok_def)
    have "screen_of t s' = (screen_of t s)\<lparr>scr_row := (\<lambda>i. if i < scr_col (screen_of t s) then scr_row (screen_of t s) i else BLANK)\<rparr>"
      using sh print_erase [of "screen_of t s"] by (simp add: s'_def screen_of_def emit_def scr_shows_def)
    moreover have "(\<lambda>i. if i < scr_col (screen_of t s) then scr_row (screen_of t s) i else BLANK) = row_of (prompt_str s @ vis b)"
      using sh pr by (auto simp: scr_shows_def fun_eq_iff row_of_def nth_append)
    ultimately have "screen_of t s' = (screen_of t s)\<lparr>scr_row := row_of (prompt_str s @ vis b)\<rparr>"
      by (simp only:)
    then show ?thesis
      using sh by (simp add: shows_line_def scr_shows_def) (simp add: s'_def emit_def)
  qed
  ultimately have "mr_ok t s' b [] recs"
    using ok by (auto simp: mr_ok_def s'_def emit_def)
  then show ?thesis
    using esc by (simp add: microrl_insert_char_def s'_def)
qed

subsection \<open>Keys that bring a line back, redraw or execute it\<close>

lemma hist_shown:
  assumes ok: "mr_ok t s b a recs" and r: "hist_restore_line (ring_hist s) (cmdline s) dir = Some (int (length l), h', l @ r)"
    and len: "length (l @ r) = COMMAND_LINE_LEN" "length l < COMMAND_LINE_LEN" and l: "text_ok l" and h': "hist_rel h' recs"
  shows "\<exists>s'. hist_search s dir = Some s' \<and> mr_ok t s' l [] recs"
proof -
  obtain x xs where x: "r = x # xs"
    using len by (cases r) auto
  define s0 where "s0 = s\<lparr>ring_hist := h'\<rparr>"
  define s1 where "s1 = s0\<lparr>cmdline := l @ 0 # xs, cmdlen := int (length l), cursor := int (length l)\<rparr>"
  have s0: "mr_ok t s0 b a recs"
    using ok h' by (simp add: mr_ok_def ed_def shows_line_def screen_of_def s0_def)
  have "ed s1 l []"
    using len x unfolding ed_def by (intro exI [of _ "0 # xs"]) (simp add: s1_def)
  then obtain s' where "terminal_print_line s1 (int 0) True = Some s'" "mr_ok t s' l [] recs"
    using reprint_ok [OF s0, of s1 l "[]" 0 True] l by (auto simp: s1_def)
  moreover have "hist_search s dir = terminal_print_line s1 0 True"
    using r x by (simp add: hist_search_def wri_append s1_def s0_def)
  ultimately show ?thesis
    by auto
qed

lemma key_history:
  assumes ok: "mr_ok t s b a recs"
  shows "\<exists>s' b' a'. hist_search s dir = Some s' \<and> mr_ok t s' b' a' recs"
proof -
  have rel: "hist_rel (ring_hist s) recs" and line: "length (cmdline s) = COMMAND_LINE_LEN" and txts: "\<forall>l \<in> set recs. text_ok l"
    using ok by (auto simp: mr_ok_def ed_def)
  show ?thesis
  proof (cases dir)
    case HIST_UP
    show ?thesis
    proof (cases "rh_cur (ring_hist s) < length recs")
      case True
      define l where "l = recs ! (length recs - 1 - rh_cur (ring_hist s))"
      have "length l \<le> 254" "l \<in> set recs"
        using True hist_rel_line [OF rel] by (auto simp: l_def)
      then show ?thesis
        using hist_shown [OF ok, of dir l _ "replicate (COMMAND_LINE_LEN - length l) 0"] restore_up [OF rel line] True txts HIST_UP
          hist_rel_cur_le [OF rel, of "rh_cur (ring_hist s) + 1"]
        by (auto simp: l_def Let_def)
    next
      case False
      then have "hist_search s dir = Some s"
        using restore_up [OF rel line] HIST_UP by (simp add: hist_search_def)
      then show ?thesis
        using ok by blast
    qed
  next
    case HIST_DOWN
    show ?thesis
    proof (cases "rh_cur (ring_hist s) > 1")
      case True
      define l where "l = recs ! (length recs + 1 - rh_cur (ring_hist s))"
      have cur: "rh_cur (ring_hist s) \<le> length recs"
        using rel by (simp add: hist_rel_def)
      then have "length l \<le> 254" "l \<in> set recs"
        using True hist_rel_line [OF rel] by (auto simp: l_def)
      then show ?thesis
        using hist_shown [OF ok, of dir l _ "drop (length l) (cmdline s)"] restore_down [OF rel line] True txts HIST_DOWN line cur
          hist_rel_cur_le [OF rel, of "rh_cur (ring_hist s) - 1"]
        by (auto simp: l_def Let_def)
    next
      case False
      then show ?thesis
        using hist_shown [OF ok, of dir "[]" _ "cmdline s"] restore_down [OF rel line] HIST_DOWN line hist_rel_cur [OF rel]
        by auto
    qed
  qed
qed

text \<open>A fresh row, and the prompt on it.\<close>

definition fresh_row :: "screen \<Rightarrow> bool" where
  "fresh_row t \<longleftrightarrow> scr_esc t = Ground \<and> scr_row t = (\<lambda>_. BLANK) \<and> scr_col t = 0"

lemma fresh_newline: "scr_esc (screen_of t s) = Ground \<Longrightarrow> fresh_row (screen_of t (terminal_newline s))"
  by (simp add: terminal_newline_def fresh_row_def print_return print_newline)

lemma fresh_error_line:
  assumes "fresh_row T" "\<forall>c \<in> set bs. printable c"
  shows "fresh_row (scr_print (bs @ [0x0A]) T)"
  using assms print_printable [of T bs] by (simp add: fresh_row_def print_newline)

lemma prompt_on_fresh:
  assumes "fresh_row T" "prompt_ok p"
  shows "scr_shows (scr_print p T) p 6"
  using assms print_printable [of T p] by (auto simp: fresh_row_def scr_shows_def prompt_ok_def row_of_def fun_eq_iff)

lemma key_redraw:
  assumes ok: "mr_ok t s b a recs" and esc: "\<not> mr_escape s"
  shows "\<exists>s'. microrl_insert_char cb s 18 = Some s' \<and> mr_ok t s' b a recs"
proof -
  define s1 where "s1 = print_prompt (terminal_newline s)"
  have sh: "scr_shows (screen_of t s) (prompt_str s @ vis (b @ a)) (6 + length b)" and pr: "prompt_ok (prompt_str s)"
    using ok by (simp_all add: mr_ok_def shows_line_def)
  have same: "cmdline s1 = cmdline s" "cursor s1 = cursor s" "cmdlen s1 = cmdlen s" "ring_hist s1 = ring_hist s" "prompt_str s1 = prompt_str s"
    by (simp_all add: s1_def print_prompt_def terminal_newline_def emit_def)
  have s1: "ed s1 b a" "text_ok (b @ a)"
    using ok same by (simp_all add: mr_ok_def ed_def)
  have "screen_of t s1 = scr_print (prompt_str s) (screen_of t (terminal_newline s))"
    by (simp add: s1_def print_prompt_def) (simp add: terminal_newline_def emit_def)
  then have "scr_shows (screen_of t s1) (prompt_str s) 6"
    using prompt_on_fresh [OF fresh_newline pr] sh by (simp add: scr_shows_def)
  then obtain evs where "terminal_print_line s1 (int 0) False = Some (s1\<lparr>mr_out := mr_out s1 @ evs\<rparr>)"
    "shows_line t (s1\<lparr>mr_out := mr_out s1 @ evs\<rparr>) b a"
    using print_line_shows [OF s1, of 0 t False] pr same
    by (auto simp: scr_shows_def row_of_def nth_append prompt_ok_def)
  then show ?thesis
    using ok esc same s1 unfolding microrl_insert_char_def s1_def [symmetric] by (auto simp: mr_ok_def ed_def)
qed

lemma those_total: "\<forall>x \<in> set xs. f x \<noteq> None \<Longrightarrow> \<exists>ys. those (map f xs) = Some ys"
  by (induction xs) auto

lemma cstr_total: "0 \<in> set (drop limit line) \<Longrightarrow> i \<le> limit \<Longrightarrow> cstr line i \<noteq> None"
  using set_drop_subset_set_drop [of i limit line] by (auto simp: cstr_def)

lemma invalid_quoting_text: "\<exists>bs. INVALID_QUOTING = bs @ [0x0A] \<and> (\<forall>c \<in> set bs. printable c)"
proof -
  have "list_all printable (butlast INVALID_QUOTING)" "INVALID_QUOTING = butlast INVALID_QUOTING @ [0x0A]"
    by code_simp+
  then show ?thesis
    unfolding list_all_iff by blast
qed

text \<open>Enter: the line goes to the history, is split, and the command gets its arguments.\<close>

lemma new_line_result:
  assumes ok: "mr_ok t s b a recs" and malloc: "cb_malloc cb"
  shows "\<exists>st line' qs' tkn evs s' recs'.
     split_loop (cmdline s) (replicate QUOTED_TOKEN_NMB (None, None)) 0 [] 0 (length b + length a) = Some (st, line', qs', tkn) \<and>
     new_line_handler cb s = Some s' \<and> mr_ok t s' [] [] recs' \<and>
     recs' = (if b @ a = [] \<or> length b + length a > 254 then recs else trim recs (length b + length a) @ [b @ a]) \<and>
     (if st > 0 \<and> cb_execute cb
      then \<exists>argv. those (map (cstr line') tkn) = Some argv \<and> evs = [Execute argv]
      else evs = (if st = -1 then [ErrorPrint INVALID_QUOTING] else [])) \<and>
     mr_out s' = mr_out s @ [Print [0x0D, 0x0A]] @ evs @ [Print (prompt_str s)]"
proof -
  let ?n = "length b + length a"
  have ed: "ed s b a" and rel: "hist_rel (ring_hist s) recs" and txts: "\<forall>l \<in> set recs. text_ok l" and tok: "text_ok (b @ a)"
    and pr: "prompt_ok (prompt_str s)" and sh: "shows_line t s b a"
    using ok by (simp_all add: mr_ok_def)
  obtain rest where r: "cmdline s = b @ a @ rest" "length b + length a + length rest = 800" "0 \<in> set rest"
    "cmdlen s = int ?n" "?n < 800"
    using ed by (rule edE)
  define recs' where "recs' = (if b @ a = [] \<or> ?n > 254 then recs else trim recs ?n @ [b @ a])"
  have "\<exists>h. (if ?n > 0 then hist_save_line (ring_hist s) (cmdline s) ?n else Some (ring_hist s)) = Some h \<and> hist_rel (h\<lparr>rh_cur := 0\<rparr>) recs'"
  proof (cases "?n = 0 \<or> ?n > 254")
    case True
    then show ?thesis
      using hist_rel_cur [OF rel] by (auto simp: hist_save_line_def recs'_def)
  next
    case False
    have "take ?n (cmdline s) = b @ a"
      using r(1) by simp
    then show ?thesis
      using save_line [OF rel, of ?n "cmdline s"] False r hist_rel_cur by (fastforce simp: recs'_def)
  qed
  then obtain h where h: "(if ?n > 0 then hist_save_line (ring_hist s) (cmdline s) ?n else Some (ring_hist s)) = Some h"
    "hist_rel (h\<lparr>rh_cur := 0\<rparr>) recs'"
    by blast
  have txts': "\<forall>l \<in> set recs'. text_ok l"
    using txts tok trim_set [of recs ?n] by (auto simp: recs'_def)
  obtain st line' qs' tkn where sp: "split_loop (cmdline s) (replicate 10 (None, None)) 0 [] 0 ?n = Some (st, line', qs', tkn)"
    "split_post ?n (cmdline s) (st, line', qs', tkn)"
  proof -
    have "ensures (split_loop (cmdline s) (replicate 10 (None, None)) 0 [] 0 ?n) (split_post ?n (cmdline s))"
      using r by (intro split_loop_total) (auto simp: quotes_ok_def)
    then show ?thesis
      using that by (auto simp: ensures_def)
  qed
  have tail: "0 \<in> set (drop ?n line')"
    using sp(2) r by (simp add: split_post_def same_tail_def)
  obtain argv where argv: "st > 0 \<longrightarrow> those (map (cstr line') tkn) = Some argv"
  proof (cases "st > 0")
    case True
    then have "\<forall>i \<in> set tkn. cstr line' i \<noteq> None"
      using sp(2) cstr_total [OF tail] by (auto simp: split_post_def)
    then show ?thesis
      using those_total that by blast
  qed (use that in blast)
  define evs where "evs = (if st > 0 \<and> cb_execute cb then [Execute argv] else if st = -1 then [ErrorPrint INVALID_QUOTING] else [])"
  define s' where "s' = s\<lparr>cmdlen := 0, cursor := 0, cmdline := replicate 800 0, mr_quotes := qs',
     ring_hist := h\<lparr>rh_cur := 0\<rparr>, mr_out := mr_out s @ [Print [0x0D, 0x0A]] @ evs @ [Print (prompt_str s)]\<rparr>"
  have run: "new_line_handler cb s = Some s'"
  proof -
    define s1 where "s1 = terminal_newline s"
    define s2 where "s2 = s1\<lparr>ring_hist := h\<rparr>"
    define s3 where "s3 = s2\<lparr>cmdline := line', mr_quotes := qs'\<rparr>"
    have s1: "cmdlen s1 = int ?n" "cmdline s1 = cmdline s" "ring_hist s1 = ring_hist s"
      using r(4) by (simp_all add: s1_def terminal_newline_def emit_def)
    have save: "(if cmdlen s1 > 0 then do { h \<leftarrow> hist_save_line (ring_hist s1) (cmdline s1) (nat (cmdlen s1)); Some (s1\<lparr>ring_hist := h\<rparr>) }
        else Some s1) = Some s2"
    proof (cases "?n > 0")
      case True
      then have "cmdlen s1 > 0" "nat (cmdlen s1) = ?n"
        using s1(1) by linarith+
      then show ?thesis
        using h(1) True s1(2,3) by (simp add: s2_def)
    next
      case False
      then have "s2 = s1"
        using h(1) s1 by (intro microrl.equality) (simp_all add: s2_def)
      moreover have "\<not> cmdlen s1 > 0"
        using False s1(1) by simp
      ultimately show ?thesis
        by simp
    qed
    have "nat (cmdlen s1) = ?n"
      using s1(1) by linarith
    then have split: "split s2 (cmdlen s2) = Some (st, s3, tkn)"
      using sp(1) s1(2,3) unfolding split_def by (simp add: s2_def s3_def)
    have args: "argv_strings s4 tkn = those (map (cstr line') tkn)" if "cmdline s4 = line'" for s4
      using that by (simp add: argv_strings_def)
    have fin: "(print_prompt s5)\<lparr>cmdlen := 0, cursor := 0, cmdline := replicate COMMAND_LINE_LEN 0,
         ring_hist := (ring_hist (print_prompt s5))\<lparr>rh_cur := 0\<rparr>\<rparr> = s'"
      if "s5 = s3\<lparr>mr_out := mr_out s3 @ evs\<rparr>" for s5
      unfolding that by (rule microrl.equality)
        (simp_all add: s'_def s3_def s2_def s1_def terminal_newline_def print_prompt_def emit_def)
    consider "st > 0" "cb_execute cb" | "st > 0" "\<not> cb_execute cb" | "st = -1" | "\<not> st > 0" "st \<noteq> -1"
      by blast
    then show ?thesis
    proof cases
      case 1
      then have "evs = [Execute argv]" "those (map (cstr line') tkn) = Some argv"
        using argv by (simp_all add: evs_def)
      then show ?thesis
        using 1 malloc save split args [of s3] fin [of "emit (Execute argv) s3"]
        unfolding new_line_handler_def Let_def s1_def [symmetric] by (simp add: emit_def s3_def)
    next
      case 2
      then show ?thesis
        using malloc save split fin [of s3] unfolding new_line_handler_def Let_def s1_def [symmetric] by (simp add: evs_def)
    next
      case 3
      then show ?thesis
        using malloc save split fin [of "emit (ErrorPrint INVALID_QUOTING) s3"]
        unfolding new_line_handler_def Let_def s1_def [symmetric] by (simp add: evs_def emit_def)
    next
      case 4
      then show ?thesis
        using malloc save split fin [of s3] unfolding new_line_handler_def Let_def s1_def [symmetric] by (simp add: evs_def)
    qed
  qed
  have "shows_line t s' [] []"
  proof -
    have 1: "fresh_row (screen_of t (s\<lparr>mr_out := mr_out s @ [Print [0x0D, 0x0A]]\<rparr>))"
      using fresh_newline [of t s] sh by (simp add: terminal_newline_def emit_def shows_line_def scr_shows_def)
    then have "fresh_row (screen_of t (s\<lparr>mr_out := mr_out s @ [Print [0x0D, 0x0A]] @ evs\<rparr>))"
      using invalid_quoting_text fresh_error_line by (fastforce simp: evs_def screen_of_def)
    then have "scr_shows (screen_of t s') (prompt_str s) 6"
      using prompt_on_fresh [OF _ pr] by (simp add: s'_def screen_of_def)
    then show ?thesis
      by (simp add: shows_line_def s'_def)
  qed
  moreover have "ed s' [] []"
    by (simp add: ed_def s'_def)
  ultimately have "mr_ok t s' [] [] recs'"
    using h(2) txts' pr by (simp add: mr_ok_def s'_def)
  then show ?thesis
    using sp(1) run argv by (auto simp: evs_def s'_def recs'_def)
qed

subsection \<open>Keys that move the cursor\<close>

lemma mr_ok_pos: "mr_ok t s b a recs \<Longrightarrow> cursor s = int (length b) \<and> cmdlen s = int (length b + length a)"
  by (auto simp: mr_ok_def ed_def)

lemma nav_right:
  assumes "mr_ok t s b (c # a) recs"
  shows "mr_ok t ((terminal_move_cursor s 1)\<lparr>cursor := cursor s + 1\<rparr>) (b @ [c]) a recs"
  using move_ok [OF assms, of "b @ [c]" a 1] mr_ok_pos [OF assms] by (simp add: add.commute)

lemma nav_left:
  assumes "mr_ok t s (b @ [c]) a recs"
  shows "mr_ok t ((terminal_move_cursor s (-1))\<lparr>cursor := cursor s - 1\<rparr>) b (c # a) recs"
  using move_ok [OF assms, of b "c # a" "-1"] mr_ok_pos [OF assms] by simp

lemma nav_home:
  assumes "mr_ok t s b a recs"
  shows "mr_ok t ((terminal_move_cursor s (- cursor s))\<lparr>cursor := 0\<rparr>) [] (b @ a) recs"
  using move_ok [OF assms, of "[]" "b @ a" "- cursor s"] mr_ok_pos [OF assms] by simp

lemma nav_end:
  assumes "mr_ok t s b a recs"
  shows "mr_ok t ((terminal_move_cursor s (cmdlen s - cursor s))\<lparr>cursor := cmdlen s\<rparr>) (b @ a) [] recs"
  using move_ok [OF assms, of "b @ a" "[]" "cmdlen s - cursor s"] mr_ok_pos [OF assms] by simp

lemma escape_step:
  assumes ok: "mr_ok t s b a recs"
  shows "\<exists>fin s' b' a'. escape_process s c = Some (fin, s') \<and> mr_ok t s' b' a' recs"
proof -
  have pos: "cursor s < cmdlen s \<longleftrightarrow> a \<noteq> []" "cursor s > 0 \<longleftrightarrow> b \<noteq> []"
    using mr_ok_pos [OF ok] by auto
  define good where "good r \<longleftrightarrow> (\<exists>fin s' b' a'. r = Some (fin, s') \<and> mr_ok t s' b' a' recs)" for r :: "(bool \<times> microrl) option"
  have goodI: "mr_ok t x b' a' recs \<Longrightarrow> good (Some (f, x))" for x b' a' f
    by (auto simp: good_def)
  have if_good: "good (if p then x else y)" if "good x" "good y" for p x y
    using that by simp
  have "good (Some (True, if cursor s < cmdlen s then (terminal_move_cursor s 1)\<lparr>cursor := cursor s + 1\<rparr> else s))"
    using nav_right [of t s b "hd a" "tl a" recs] ok pos(1) by (cases a) (auto intro: goodI)
  moreover have "good (Some (True, if cursor s > 0 then (terminal_move_cursor s (-1))\<lparr>cursor := cursor s - 1\<rparr> else s))"
    using nav_left [of t s "butlast b" "last b" a recs] ok pos(2) by (cases b rule: rev_cases) (auto intro: goodI)
  moreover have "good (do { s' \<leftarrow> hist_search s dir; Some (True, s') })" for dir
    using key_history [OF ok, of dir] by (auto intro: goodI)
  moreover have "good (Some (False, s\<lparr>escape_seq := q\<rparr>))" "good (Some (True, s))" for q
    using ok by (auto intro: goodI)
  moreover note goodI [OF nav_home [OF ok], of True] goodI [OF nav_end [OF ok], of True]
  ultimately have "good (escape_process s c)"
    unfolding escape_process_def by (intro if_good)
  then show ?thesis
    by (simp add: good_def)
qed

text \<open>The line as a text with a cursor: what each editing key does to it.\<close>

definition gap_key :: "int \<Rightarrow> bytes \<Rightarrow> bytes \<Rightarrow> bytes \<times> bytes" where
  "gap_key ch b a =
     (if ch = 21 then ([], a)
      else if ch = 11 then (b, [])
      else if ch = 5 then (b @ a, [])
      else if ch = 1 then ([], b @ a)
      else if ch = 6 then (case a of [] \<Rightarrow> (b, []) | c # a' \<Rightarrow> (b @ [c], a'))
      else if ch = 2 then (if b = [] then (b, a) else (butlast b, last b # a))
      else if ch = 127 \<or> ch = 8 then (butlast b, a)
      else if ch = 4 then (b, tl a)
      else if ch < 32 \<or> ch = 32 \<and> b @ a = [] \<or> length b + length a + 1 \<ge> COMMAND_LINE_LEN then (b, a)
      else (b @ [if ch = 32 then 0 else word_of_int ch], a))"

text \<open>The conditions under which a key stays inside the buffers.\<close>

definition key_safe :: "callbacks \<Rightarrow> microrl \<Rightarrow> int \<Rightarrow> bool" where
  "key_safe cb s ch \<longleftrightarrow> 0 \<le> ch \<and> ch < 256 \<and> cb_malloc cb \<and>
     (mr_escape s \<or>
       (ch \<noteq> 9 \<or> cb_completion cb = None) \<and>
       (ch \<noteq> 4 \<or> cmdlen s = 0 \<or> cursor s < cmdlen s \<and> cmdlen s + 1 \<le> int COMMAND_LINE_LEN - 1) \<and>
       (ch \<noteq> 21 \<or> cursor s + cmdlen s \<le> int COMMAND_LINE_LEN))"

lemma edit_step:
  assumes ok: "mr_ok t s b a recs" and esc: "\<not> mr_escape s" and safe: "key_safe cb s ch" and ch: "ch \<notin> {10, 14, 16}"
  shows "\<exists>s'. microrl_insert_char cb s ch = Some s' \<and> mr_ok t s' (fst (gap_key ch b a)) (snd (gap_key ch b a)) recs"
proof -
  have pos: "cursor s = int (length b)" "cmdlen s = int (length b + length a)"
    using mr_ok_pos [OF ok] by simp_all
  consider "ch = 9" | "ch = 13" | "ch = 27" | "ch = 3" | "ch = 18" | (clear) "ch = 21" | (kill) "ch = 11" | "ch = 5" | "ch = 1"
    | (right) "ch = 6" | (left) "ch = 2" | (bs) "ch = 127 \<or> ch = 8" | (del) "ch = 4"
    | (other) "ch \<notin> {9, 13, 27, 3, 18, 21, 11, 5, 1, 6, 2, 127, 8, 4}"
    by blast
  then show ?thesis
  proof cases
    case 1
    then show ?thesis
      using ok esc safe by (simp add: microrl_insert_char_def microrl_get_complite_def key_safe_def gap_key_def)
  next
    case 2
    then show ?thesis
      using ok esc by (simp add: microrl_insert_char_def gap_key_def)
  next
    case 3
    then show ?thesis
      using ok esc by (simp add: microrl_insert_char_def gap_key_def)
  next
    case 4
    have "mr_ok t (emit Sigint s) b a recs"
      using ok by (simp add: mr_ok_def ed_def shows_line_def screen_of_def emit_def)
    then show ?thesis
      using 4 ok esc by (simp add: microrl_insert_char_def gap_key_def)
  next
    case 5
    then show ?thesis
      using key_redraw [OF ok esc] by (simp add: gap_key_def)
  next
    case clear
    then show ?thesis
      using key_clear [OF ok esc] safe pos esc by (simp add: gap_key_def key_safe_def)
  next
    case kill
    then show ?thesis
      using key_kill [OF ok esc] by (simp add: gap_key_def)
  next
    case 8
    then show ?thesis
      using nav_end [OF ok] esc by (simp add: microrl_insert_char_def gap_key_def)
  next
    case 9
    then show ?thesis
      using nav_home [OF ok] esc by (simp add: microrl_insert_char_def gap_key_def)
  next
    case right
    then show ?thesis
      using nav_right [of t s b "hd a" "tl a" recs] ok esc pos by (cases a) (simp_all add: microrl_insert_char_def gap_key_def)
  next
    case left
    then show ?thesis
      using nav_left [of t s "butlast b" "last b" a recs] ok esc pos
      by (cases b rule: rev_cases) (simp_all add: microrl_insert_char_def gap_key_def)
  next
    case bs
    show ?thesis
    proof (cases b rule: rev_cases)
      case Nil
      then show ?thesis
        using ok esc pos bs by (auto simp: microrl_insert_char_def gap_key_def)
    next
      case (snoc b' c)
      then show ?thesis
        using key_backspace [of t s b' c a recs ch cb] ok esc bs by (auto simp: gap_key_def)
    qed
  next
    case del
    have "cmdlen s = 0 \<longleftrightarrow> b @ a = []"
      unfolding pos(2) of_nat_eq_0_iff by simp
    moreover have "cursor s < cmdlen s \<longleftrightarrow> a \<noteq> []"
      using pos by auto
    moreover note del
    ultimately show ?thesis
      using key_delete [OF ok esc, of cb] safe pos esc by (auto simp: gap_key_def key_safe_def)
  next
    case other
    have key: "microrl_insert_char cb s ch = key_char s ch"
      using other ch esc by (simp add: microrl_insert_char_def)
    show ?thesis
    proof (cases "ch < 32")
      case True
      then show ?thesis
        using other ok key by (simp add: gap_key_def key_char_def)
    next
      case False
      then show ?thesis
        using other key key_printable [OF ok, of ch] safe by (auto simp: gap_key_def key_safe_def)
    qed
  qed
qed

lemma any_key_step:
  assumes ok: "mr_ok t s b a recs" and safe: "key_safe cb s ch"
  shows "\<exists>s' b' a' recs'. microrl_insert_char cb s ch = Some s' \<and> mr_ok t s' b' a' recs'"
proof (cases "mr_escape s")
  case True
  obtain fin s' b' a' where "escape_process s (word_of_int ch) = Some (fin, s')" "mr_ok t s' b' a' recs"
    using escape_step [OF ok] by blast
  then have "microrl_insert_char cb s ch = Some (if fin then s'\<lparr>mr_escape := False\<rparr> else s') \<and>
      mr_ok t (if fin then s'\<lparr>mr_escape := False\<rparr> else s') b' a' recs"
    using True by (simp add: microrl_insert_char_def)
  then show ?thesis
    by blast
next
  case False
  show ?thesis
  proof (cases "ch \<in> {10, 14, 16}")
    case True
    have "cb_malloc cb"
      using safe by (simp add: key_safe_def)
    then have "\<exists>s' recs'. new_line_handler cb s = Some s' \<and> mr_ok t s' [] [] recs'"
      using new_line_result [OF ok] by blast
    then show ?thesis
      using True False key_history [OF ok, of HIST_UP] key_history [OF ok, of HIST_DOWN]
      by (auto simp: microrl_insert_char_def)
  next
    case other: False
    then show ?thesis
      using edit_step [OF ok False safe] by blast
  qed
qed

primrec keys_safe :: "callbacks \<Rightarrow> microrl \<Rightarrow> int list \<Rightarrow> bool" where
  "keys_safe cb s [] = True"
| "keys_safe cb s (ch # chs) \<longleftrightarrow> key_safe cb s ch \<and>
     (case microrl_insert_char cb s ch of None \<Rightarrow> True | Some s' \<Rightarrow> keys_safe cb s' chs)"

lemma run_ok:
  "mr_ok t s b a recs \<Longrightarrow> keys_safe cb s chs \<Longrightarrow>
   \<exists>s' b' a' recs'. microrl_run cb s chs = Some s' \<and> mr_ok t s' b' a' recs'"
proof (induction chs arbitrary: s b a recs)
  case (Cons ch chs)
  then obtain s1 b1 a1 recs1 where "microrl_insert_char cb s ch = Some s1" "mr_ok t s1 b1 a1 recs1"
    using any_key_step [of t s b a recs cb ch] by auto
  then show ?case
    using Cons.IH [of s1 b1 a1 recs1] Cons.prems(2) by auto
qed auto

subsection \<open>Properties\<close>

definition ovms_prompt :: bytes where
  "ovms_prompt = map (\<lambda>c. word_of_nat (of_char c)) ''OVMS> ''"

definition blank_screen :: screen where
  "blank_screen = \<lparr>scr_row = (\<lambda>_. BLANK), scr_col = 0, scr_esc = Ground\<rparr>"

definition shell_callbacks :: callbacks where
  "shell_callbacks = \<lparr>cb_malloc = True, cb_execute = True, cb_sigint = True, cb_completion = None\<rparr>"

lemma ovms_prompt_ok: "prompt_ok ovms_prompt"
  by code_simp

lemma start_ok: "prompt_ok p \<Longrightarrow> mr_ok blank_screen (print_prompt (microrl_init p)) [] [] []"
proof -
  assume p: "prompt_ok p"
  have "fresh_row blank_screen"
    by (simp add: fresh_row_def blank_screen_def)
  then have "scr_shows (screen_of blank_screen (print_prompt (microrl_init p))) p 6"
    using prompt_on_fresh [OF _ p] by (simp add: screen_of_def print_prompt_def microrl_init_def emit_def)
  then show ?thesis
    using p hist_empty_rel
    by (simp add: mr_ok_def ed_def shows_line_def print_prompt_def microrl_init_def emit_def hist_empty_def)
qed

text \<open>C34. Every editing key acts on the line as on a text with a cursor: with \<open>b\<close> before and \<open>a\<close>
  after the cursor, a key leads to the line \<open>gap_key\<close> describes (insertion at the cursor, also when
  the buffer is full, backspace, delete, the kill keys, the four cursor keys, and keys that change
  nothing), leaves the history alone, and the screen shows the new line.\<close>

theorem editor_refines_text:
  assumes "mr_ok t s b a recs" "\<not> mr_escape s" "key_safe cb s ch" "ch \<notin> {10, 14, 16}"
  shows "\<exists>s'. microrl_insert_char cb s ch = Some s' \<and> mr_ok t s' (fst (gap_key ch b a)) (snd (gap_key ch b a)) recs"
  by (rule edit_step [OF assms])

theorem editor_refines_text_witness:
  "\<exists>s'. microrl_insert_char shell_callbacks (print_prompt (microrl_init ovms_prompt)) 97 = Some s' \<and>
     mr_ok blank_screen s' [97] [] []"
  using editor_refines_text [OF start_ok [OF ovms_prompt_ok], of shell_callbacks 97]
  by (simp add: gap_key_def key_safe_def shell_callbacks_def print_prompt_def microrl_init_def emit_def)

text \<open>C33. The screen shows the line: from a state with the prompt on the screen, any sequence of keys
  - editing, history, escape sequences, redraw, Enter - keeps the terminal's row equal to the prompt
  followed by the line buffer (blanks for its separators) and the terminal's cursor on the editor's
  cursor, and never leaves a buffer. The conditions on single keys are those of \<open>key_safe\<close>.\<close>

theorem screen_shows_line:
  assumes "mr_ok t s b a recs" and "keys_safe cb s chs"
  shows "\<exists>s'. microrl_run cb s chs = Some s' \<and> 0 \<le> cursor s' \<and> cursor s' \<le> cmdlen s' \<and> cmdlen s' < int COMMAND_LINE_LEN \<and>
     scr_shows (screen_of t s') (prompt_str s' @ vis (take (nat (cmdlen s')) (cmdline s'))) (6 + nat (cursor s'))"
proof -
  obtain s' b' a' recs' where s': "microrl_run cb s chs = Some s'" "mr_ok t s' b' a' recs'"
    using run_ok [OF assms] by blast
  then obtain rest where "cmdline s' = b' @ a' @ rest" "cursor s' = int (length b')" "cmdlen s' = int (length b' + length a')"
      "length b' + length a' < COMMAND_LINE_LEN"
    using edE [of s' b' a'] by (metis mr_ok_def)
  moreover from this have "nat (cmdlen s') = length b' + length a'"
    by linarith
  ultimately show ?thesis
    using s' by (auto simp: mr_ok_def shows_line_def)
qed

text \<open>A session: \<open>ls\<close>, cursor left by an arrow key, a character, Enter, and the line back from the
  history.\<close>

theorem screen_shows_line_witness:
  "\<exists>s'. microrl_run shell_callbacks (print_prompt (microrl_init ovms_prompt)) [108, 115, 27, 91, 68, 120, 10, 16] = Some s' \<and>
     0 \<le> cursor s' \<and> cursor s' \<le> cmdlen s' \<and> cmdlen s' < int COMMAND_LINE_LEN \<and>
     scr_shows (screen_of blank_screen s') (prompt_str s' @ vis (take (nat (cmdlen s')) (cmdline s'))) (6 + nat (cursor s'))"
proof (rule screen_shows_line [OF start_ok [OF ovms_prompt_ok]])
  show "keys_safe shell_callbacks (print_prompt (microrl_init ovms_prompt)) [108, 115, 27, 91, 68, 120, 10, 16]"
    by code_simp
qed

text \<open>Quoting round trip through the keyboard: when the line holds arguments separated by single
  blanks - plain words, or words in either kind of quotes, at most ten quoted and fewer than 128 in
  all - and is terminated, Enter starts the command with exactly these arguments, the blanks inside
  quotes kept, and then shows a fresh prompt.\<close>

theorem enter_executes_arguments:
  assumes ok: "mr_ok t s b a recs" and esc: "\<not> mr_escape s" and cb: "cb_malloc cb" "cb_execute cb"
    and line: "b @ a @ [0] = args_line args" and nul: "cmdline s ! (length b + length a) = 0"
    and args: "args \<noteq> []" "\<forall>x \<in> set args. arg_ok x" "n_quoted args \<le> 10" "length args < 128"
  shows "\<exists>s'. microrl_insert_char cb s 10 = Some s' \<and>
     mr_out s' = mr_out s @ [Print [0x0D, 0x0A], Execute (map arg_val args), Print (prompt_str s)] \<and>
     cmdlen s' = 0 \<and> cursor s' = 0"
proof -
  obtain rest where r: "cmdline s = b @ a @ rest" "0 \<in> set rest"
    using ok by (auto simp: mr_ok_def ed_def)
  obtain xs where "rest = 0 # xs"
    using r nul by (cases rest) (auto simp: nth_append)
  then have cl: "cmdline s = [] @ args_line args @ xs"
    using r(1) line by (metis append.assoc append_Cons append_Nil)
  have lim: "length b + length a + 1 = length ([] :: bytes) + length (args_line args)"
    using arg_cong [OF line, of length] by simp
  obtain qs' where sp: "split_loop (cmdline s) (replicate 10 (None, None)) 0 [] 0 (length b + length a) =
    Some (int (length args), args_done args @ xs, qs', arg_ptrs 0 args)"
    using split_loop_args [OF args(1,2) _ _ lim, of 0 "[]" xs "replicate 10 (None, None)"] args(3,4) cl by auto
  have argv: "those (map (cstr (args_done args @ xs)) (arg_ptrs 0 args)) = Some (map arg_val args)"
    using argv_args [OF args(2), of "[]" xs] by simp
  obtain evs s' recs' where s': "new_line_handler cb s = Some s'" "mr_ok t s' [] [] recs'" "evs = [Execute (map arg_val args)]"
    "mr_out s' = mr_out s @ [Print [0x0D, 0x0A]] @ evs @ [Print (prompt_str s)]"
    using new_line_result [OF ok cb(1)] sp argv cb(2) args(1) by auto
  then show ?thesis
    using esc mr_ok_pos [OF s'(2)] by (simp add: microrl_insert_char_def)
qed

text \<open>A line typed key by key: \<open>wifi "my net"\<close>.\<close>

theorem enter_executes_arguments_witness:
  "\<exists>s s'. microrl_run shell_callbacks (print_prompt (microrl_init ovms_prompt)) [119, 105, 102, 105, 32, 34, 109, 121, 32, 110, 101, 116, 34] = Some s \<and>
     microrl_insert_char shell_callbacks s 10 = Some s' \<and>
     mr_out s' = mr_out s @ [Print [0x0D, 0x0A], Execute [[119, 105, 102, 105], [109, 121, 32, 110, 101, 116]], Print (prompt_str s)]"
proof -
  define keys :: "int list" where "keys = [119, 105, 102, 105, 32, 34, 109, 121, 32, 110, 101, 116, 34]"
  define args where "args = [Plain [119, 105, 102, 105], Quoted 34 [109, 121, 0, 110, 101, 116]]"
  let ?s0 = "print_prompt (microrl_init ovms_prompt)"
  have "keys_safe shell_callbacks ?s0 keys"
    unfolding keys_def by code_simp
  then obtain s b a recs where s: "microrl_run shell_callbacks ?s0 keys = Some s" "mr_ok blank_screen s b a recs"
    using run_ok [OF start_ok [OF ovms_prompt_ok]] by blast
  have "map_option (\<lambda>s. (mr_escape s, take 14 (cmdline s), cmdlen s)) (microrl_run shell_callbacks ?s0 keys) = Some (False, args_line args, 13)"
    unfolding keys_def args_def by code_simp
  then have c: "\<not> mr_escape s" "take 14 (cmdline s) = args_line args" "cmdlen s = 13"
    using s(1) by simp_all
  obtain rest where r: "cmdline s = b @ a @ rest" "0 \<in> set rest" "cmdlen s = int (length b + length a)"
    using s(2) by (auto simp: mr_ok_def ed_def)
  have len: "length (b @ a) = 13"
    using r(3) c(3) by simp
  obtain x xs where rest: "rest = x # xs"
    using r(2) by (cases rest) auto
  have "take 14 (cmdline s) = b @ a @ [x]"
    using len by (simp add: r(1) rest)
  then have line: "b @ a @ [x] = args_line args"
    using c(2) by simp
  then have "x = 0"
    by (simp add: args_def)
  then have hyps: "b @ a @ [0] = args_line args" "cmdline s ! (length b + length a) = 0"
    using line r(1) rest by (simp_all add: nth_append)
  have "\<exists>s'. microrl_insert_char shell_callbacks s 10 = Some s' \<and>
     mr_out s' = mr_out s @ [Print [0x0D, 0x0A], Execute (map arg_val args), Print (prompt_str s)] \<and> cmdlen s' = 0 \<and> cursor s' = 0"
    by (rule enter_executes_arguments [OF s(2) c(1) _ _ hyps]) (simp_all add: shell_callbacks_def args_def is_quote_def)
  then show ?thesis
    using s(1) by (simp add: keys_def args_def) blast
qed

text \<open>Ctrl-K does not terminate the shortened line: with the cursor in the middle of a word, Enter
  after Ctrl-K still passes the killed characters to the command. Keys: \<open>abcdef\<close>, Ctrl-A, three times
  Ctrl-F, Ctrl-K, Enter.\<close>

theorem kill_then_enter:
  "map_option (\<lambda>s. (filter (\<lambda>ev. case ev of Execute argv \<Rightarrow> True | _ \<Rightarrow> False) (mr_out s)))
     (microrl_run shell_callbacks (print_prompt (microrl_init ovms_prompt)) [97, 98, 99, 100, 101, 102, 1, 6, 6, 6, 11, 10])
   = Some [Execute [[97, 98, 99, 100, 101, 102]]]"
  by code_simp


end
