(* ===== verification/EGolf.thy ===== *)
theory EGolf
  imports BatCtrl Float32
begin

unbundle bit_operations_syntax

section \<open>The vehicle module\<close>

text \<open>
  The class \<open>OvmsVehicleVWeGolf\<close> of \<open>vehicle_vwegolf/src/vehicle_vwegolf.h\<close> and
  \<open>vehicle_vwegolf.cpp\<close>: the decoders of the two CAN buses, the session that keeps the car's
  comfort bus awake, and the user commands.  The record \<open>egolf\<close> holds the member variables under
  their names, the battery controller \<open>m_batctrl\<close> (which also holds the three standard metrics
  both classes use), the other standard metrics the decoders set (a \<open>float\<close> is a \<open>rat\<close> rounded by
  \<open>fl\<close>), the frames handed to \<open>m_can3\<close> by this class, each with the tick count the call read, and
  the notifications raised.

  The tick count (\<open>xTaskGetTickCount\<close>), the CAN driver of the controller and the configured PIN
  are arguments.  A frame's data is its eight-byte buffer; every index used is a constant below
  eight.  The delays in \<open>WakeKcanBus\<close> and log output are left out.
\<close>

datatype can_out =
    Reset
  | WriteStandard u16 bytes
  | WriteExtended u32 bytes

record can_frame =
  MsgID :: u32
  DLC :: u8
  u8s :: bytes

record metrics =
  ms_v_env_gear :: int
  ms_v_env_drivemode :: int
  ms_v_env_awake :: bool
  ms_v_env_on :: bool
  ms_v_env_locked :: bool
  ms_v_env_parktime :: int
  ms_v_env_temp :: rat
  ms_v_env_cabintemp :: rat
  ms_v_vin :: bytes
  ms_v_pos_speed :: rat
  ms_v_pos_gpslock :: bool
  ms_v_pos_latitude :: rat
  ms_v_pos_longitude :: rat
  ms_v_pos_odometer :: rat
  ms_v_bat_soc :: rat
  ms_v_bat_current :: rat
  ms_v_bat_voltage :: rat
  ms_v_bat_power :: rat
  ms_v_bat_energy_recd :: rat
  ms_v_bat_energy_used :: rat
  ms_v_bat_temp :: rat
  ms_v_bat_capacity :: rat
  ms_v_bat_range_est :: rat
  ms_v_bat_range_ideal :: rat
  ms_v_door_fl :: bool
  ms_v_door_fr :: bool
  ms_v_door_rl :: bool
  ms_v_door_rr :: bool
  ms_v_door_trunk :: bool
  ms_v_door_hood :: bool
  ms_v_door_chargeport :: bool
  ms_v_charge_duration_full :: int
  ms_v_charge_timermode :: bool
  ms_v_charge_state :: string
  ms_v_charge_type :: string
  ms_v_charge_voltage :: rat
  m_recup_level :: int

datatype notice = NotifyChargeStart | NotifyChargeStopped

record egolf =
  m_kl15_on :: bool
  m_drivetrain_ready :: bool
  m_bus_idle_ticks :: u8
  m_oem_ocu_idle_ticks :: u8
  m_ocu_active :: bool
  m_last_heartbeat_tick :: u32
  m_ocu_session_secs :: u8
  m_ocu_grace_secs :: u8
  m_batctrl :: bctl
  m_mirror_fold_in_requested :: bool
  m_horn_requested :: bool
  m_indicators_requested :: bool
  m_panic_requested :: bool
  m_unlock_requested :: bool
  m_lock_requested :: bool
  m_vin_parts_received :: u8
  m_vin_buf :: bytes
  metrics :: metrics
  can3_tx :: "(u32 \<times> can_out) list"
  notices :: "notice list"

definition VWEGOLF_BUS_TIMEOUT_SECS :: u8 where "VWEGOLF_BUS_TIMEOUT_SECS = 10"
definition VWEGOLF_OCU_ACK_GRACE_SECS :: u8 where "VWEGOLF_OCU_ACK_GRACE_SECS = 5"
definition VWEGOLF_OCU_SESSION_CAP_SECS :: u8 where "VWEGOLF_OCU_SESSION_CAP_SECS = 30"

text \<open>The FreeRTOS tick is configured to 100 Hz.\<close>

definition portTICK_PERIOD_MS :: u32 where "portTICK_PERIOD_MS = 10"

definition set_metrics :: "(metrics \<Rightarrow> metrics) \<Rightarrow> egolf \<Rightarrow> egolf" where
  "set_metrics f s = s\<lparr>metrics := f (metrics s)\<rparr>"

subsection \<open>The powertrain bus\<close>

definition gear_of :: "u8 \<Rightarrow> int option" where
  "gear_of gear_nibble =
     (if gear_nibble = 2 then Some 0
      else if gear_nibble = 3 then Some (- 1)
      else if gear_nibble = 4 then Some 0
      else if gear_nibble = 5 then Some 1
      else if gear_nibble = 6 then Some 1
      else None)"

definition recup_of :: "u8 \<Rightarrow> u8 \<Rightarrow> int" where
  "recup_of gear_nibble rc =
     (if gear_nibble = 6 then 4
      else if gear_nibble = 5 then (if rc \<ge> 1 \<and> rc \<le> 3 then uint rc else 0)
      else - 1)"

definition frame_187 :: "bytes \<Rightarrow> egolf \<Rightarrow> egolf" where
  "frame_187 d s =
     (let gear_nibble = (d ! 2) AND 0x0F;
          rc = (drop_bit 4 (d ! 1)) AND 0x7;
          m = (case gear_of gear_nibble of None \<Rightarrow> metrics s | Some g \<Rightarrow> (metrics s)\<lparr>ms_v_env_gear := g\<rparr>)
      in s\<lparr>metrics := m\<lparr>m_recup_level := recup_of gear_nibble rc\<rparr>\<rparr>)"

definition vin_part :: "bytes \<Rightarrow> egolf \<Rightarrow> egolf" where
  "vin_part d s =
     (let frame_idx = d ! 0; buf = m_vin_buf s; got = m_vin_parts_received s
      in if frame_idx = 0
         then s\<lparr>m_vin_buf := buf[0 := d ! 5, 1 := d ! 6, 2 := d ! 7], m_vin_parts_received := got OR 0x01\<rparr>
         else if frame_idx = 1
         then s\<lparr>m_vin_buf := take 3 buf @ take 7 (drop 1 d) @ drop 10 buf, m_vin_parts_received := got OR 0x02\<rparr>
         else if frame_idx = 2
         then s\<lparr>m_vin_buf := take 10 buf @ take 7 (drop 1 d) @ drop 17 buf, m_vin_parts_received := got OR 0x04\<rparr>
         else s)"

text \<open>The metric takes the buffer as a C string.\<close>

definition c_string :: "bytes \<Rightarrow> bytes" where
  "c_string buf = takeWhile (\<lambda>c. c \<noteq> 0) buf"

definition frame_6B4 :: "bytes \<Rightarrow> egolf \<Rightarrow> egolf" where
  "frame_6B4 d s0 =
     (if m_vin_parts_received s0 = 0x07 then s0
      else let s1 = vin_part d s0
           in if m_vin_parts_received s1 = 0x07
              then let buf = (m_vin_buf s1)[17 := 0]
                   in s1\<lparr>m_vin_buf := buf, metrics := (metrics s1)\<lparr>ms_v_vin := c_string buf\<rparr>\<rparr>
              else s1)"

definition IncomingFrameCan2 :: "can_frame \<Rightarrow> egolf \<Rightarrow> egolf" where
  "IncomingFrameCan2 f s =
     (if MsgID f = 0x187 then frame_187 (u8s f) s
      else if MsgID f = 0x6B4 then frame_6B4 (u8s f) s
      else s)"

subsection \<open>The OCU heartbeat\<close>

text \<open>One pending request: its bit replaces the byte, and the flag is cleared.\<close>

definition take_request ::
  "(egolf \<Rightarrow> bool) \<Rightarrow> (egolf \<Rightarrow> egolf) \<Rightarrow> nat \<Rightarrow> u8 \<Rightarrow> bytes \<times> egolf \<Rightarrow> bytes \<times> egolf" where
  "take_request pending clear i v ds =
     (if pending (snd ds) then ((fst ds)[i := v], clear (snd ds)) else ds)"

definition take_requests :: "bytes \<times> egolf \<Rightarrow> bytes \<times> egolf" where
  "take_requests ds0 =
     (let ds1 = take_request m_mirror_fold_in_requested (m_mirror_fold_in_requested_update (\<lambda>_. False)) 5 (push_bit 7 1 AND 0x80) ds0;
          ds2 = take_request m_horn_requested (m_horn_requested_update (\<lambda>_. False)) 6 (drop_bit 0 1 AND 0x1) ds1;
          ds3 = take_request m_lock_requested (m_lock_requested_update (\<lambda>_. False)) 6 (push_bit 1 1 AND 0x2) ds2;
          ds4 = take_request m_unlock_requested (m_unlock_requested_update (\<lambda>_. False)) 6 (push_bit 2 1 AND 0x4) ds3;
          ds5 = take_request m_indicators_requested (m_indicators_requested_update (\<lambda>_. False)) 6 (push_bit 3 1 AND 0x8) ds4
      in take_request m_panic_requested (m_panic_requested_update (\<lambda>_. False)) 6 (push_bit 4 1 AND 0x10) ds5)"

definition SendOcuHeartbeat :: "u32 \<Rightarrow> egolf \<Rightarrow> egolf" where
  "SendOcuHeartbeat now s =
     (if m_oem_ocu_idle_ticks s < VWEGOLF_BUS_TIMEOUT_SECS then s
      else if (now - m_last_heartbeat_tick s) * portTICK_PERIOD_MS < 180 then s
      else let (data, s') = take_requests (replicate 8 0, s\<lparr>m_last_heartbeat_tick := now\<rparr>)
           in s'\<lparr>can3_tx := can3_tx s' @ [(now, WriteStandard 0x5A7 data)]\<rparr>)"

definition SendNmAlive :: "u32 \<Rightarrow> egolf \<Rightarrow> egolf" where
  "SendNmAlive now s =
     s\<lparr>can3_tx := can3_tx s @
        [(now, WriteExtended 0x1B000067 [0x67, 0x10, 0x41, 0x84, 0x14, 0x00, 0x00, 0x00])]\<rparr>"

subsection \<open>The comfort bus: decoders\<close>

text \<open>One definition per message; the \<open>if\<close> that skips a sentinel returns the state as it is.\<close>

abbreviation b16 :: "bytes \<Rightarrow> nat \<Rightarrow> u16" where "b16 d i \<equiv> ucast (d ! i)"
abbreviation b32 :: "bytes \<Rightarrow> nat \<Rightarrow> u32" where "b32 d i \<equiv> ucast (d ! i)"
definition flt :: "'a::len word \<Rightarrow> rat" where "flt w = fl (of_nat (unat w))"

definition frame_0FD :: "bytes \<Rightarrow> metrics \<Rightarrow> metrics" where
  "frame_0FD d m =
     (let tmp = b16 d 4 OR push_bit 8 (b16 d 5)
      in m\<lparr>ms_v_pos_speed := fl (flt tmp * fl (1 / 100))\<rparr>)"

definition frame_131 :: "bytes \<Rightarrow> metrics \<Rightarrow> metrics" where
  "frame_131 d m =
     (if d ! 3 = 0xFE then m else m\<lparr>ms_v_bat_soc := fl (flt (d ! 3) * (1 / 2))\<rparr>)"

definition frame_191 :: "bytes \<Rightarrow> metrics \<Rightarrow> metrics" where
  "frame_191 d m =
     (if d ! 2 = 0xFF then m
      else let cur = drop_bit 4 (b16 d 1 AND 0xF0) OR push_bit 4 (b16 d 2);
               m1 = m\<lparr>ms_v_bat_current := fl (2047 - flt cur)\<rparr>;
               vol = b16 d 3 OR push_bit 8 (b16 d 4 AND 0xF);
               m2 = m1\<lparr>ms_v_bat_voltage := fl (flt vol * (1 / 4))\<rparr>
           in m2\<lparr>ms_v_bat_power := fl (fl (ms_v_bat_voltage m2 * ms_v_bat_current m2) / 1000)\<rparr>)"

definition frame_2AF :: "bytes \<Rightarrow> metrics \<Rightarrow> metrics" where
  "frame_2AF d m =
     (let recd = b16 d 4 OR push_bit 8 (b16 d 5 AND 0x7F);
          used = b16 d 6 OR push_bit 8 (b16 d 7 AND 0x7F)
      in m\<lparr>ms_v_bat_energy_recd := fl (fl (flt recd * 10) / 3600000),
           ms_v_bat_energy_used := fl (fl (flt used * 10) / 3600000)\<rparr>)"

definition latitude_of :: "bytes \<Rightarrow> rat" where
  "latitude_of d =
     (let tmp = b32 d 0 OR push_bit 8 (b32 d 1) OR push_bit 16 (b32 d 2) OR push_bit 24 (b32 d 3 AND 0x7);
          lat = fl (flt tmp * fl (1 / 1000000))
      in if drop_bit 7 (d ! 6) AND 1 \<noteq> 0 then - lat else lat)"

definition longitude_of :: "bytes \<Rightarrow> rat" where
  "longitude_of d =
     (let tmp = drop_bit 3 (b32 d 3 AND 0xF8) OR push_bit 5 (b32 d 4) OR push_bit 13 (b32 d 5) OR
                push_bit 21 (b32 d 6 AND 0x7F);
          lon = fl (flt tmp * fl (1 / 1000000))
      in if drop_bit 0 (d ! 7) AND 1 \<noteq> 0 then - lon else lon)"

definition frame_486 :: "bytes \<Rightarrow> metrics \<Rightarrow> metrics" where
  "frame_486 d m =
     (let lat = latitude_of d; lon = longitude_of d;
          valid = (lat > - 91 \<and> lat < 91 \<and> lon > - 181 \<and> lon < 181);
          m1 = m\<lparr>ms_v_pos_gpslock := valid\<rparr>
      in if valid then m1\<lparr>ms_v_pos_latitude := lat, ms_v_pos_longitude := lon\<rparr> else m1)"

definition frame_386 :: "bytes \<Rightarrow> metrics \<Rightarrow> metrics" where
  "frame_386 d m =
     (if d ! 5 = 0x02 then m\<lparr>ms_v_env_drivemode := 1\<rparr>
      else if d ! 5 = 0x05 then m\<lparr>ms_v_env_drivemode := 2\<rparr>
      else if d ! 5 = 0x08 then m\<lparr>ms_v_env_drivemode := 3\<rparr>
      else m)"

definition frame_583 :: "bytes \<Rightarrow> metrics \<Rightarrow> metrics" where
  "frame_583 d m =
     m\<lparr>ms_v_env_locked := drop_bit 1 (d ! 2 AND 0x2) \<noteq> 0,
       ms_v_door_fl := drop_bit 0 (d ! 3 AND 0x1) \<noteq> 0,
       ms_v_door_fr := drop_bit 1 (d ! 3 AND 0x2) \<noteq> 0,
       ms_v_door_rl := drop_bit 2 (d ! 3 AND 0x4) \<noteq> 0,
       ms_v_door_rr := drop_bit 3 (d ! 3 AND 0x8) \<noteq> 0,
       ms_v_door_trunk := drop_bit 4 (d ! 3 AND 0x10) \<noteq> 0\<rparr>"

text \<open>The charge management message, in the order of the code.  Its remaining fields are read into
  temporaries that nothing uses.\<close>

definition charge_timing :: "bytes \<Rightarrow> metrics \<Rightarrow> metrics" where
  "charge_timing d m =
     (let tmp = drop_bit 4 (b16 d 1 AND 0xF0) OR push_bit 4 (b16 d 2 AND 0x1F);
          timer = drop_bit 5 (d ! 2 AND 0x60)
      in m\<lparr>ms_v_charge_duration_full := int (unat (tmp * 5)), ms_v_charge_timermode := timer = 0x1\<rparr>)"

definition charge_progress :: "bytes \<Rightarrow> egolf \<Rightarrow> egolf" where
  "charge_progress d s =
     (let was_charging = ms_v_charge_inprogress (m_batctrl s);
          is_charging = ((d ! 3) AND 0x20 \<noteq> 0);
          m1 = (metrics s)\<lparr>ms_v_charge_state := if is_charging then ''charging'' else ''stopped''\<rparr>;
          m2 = (if is_charging then m1\<lparr>ms_v_charge_voltage := ms_v_bat_voltage m1\<rparr> else m1)
      in s\<lparr>m_batctrl := (m_batctrl s)\<lparr>ms_v_charge_inprogress := is_charging\<rparr>, metrics := m2,
           notices := notices s @
             (if is_charging \<noteq> was_charging
              then [if is_charging then NotifyChargeStart else NotifyChargeStopped] else [])\<rparr>)"

definition charge_port :: "bytes \<Rightarrow> metrics \<Rightarrow> metrics" where
  "charge_port d m =
     (let tmp = drop_bit 2 (d ! 5 AND 0xC)
      in if tmp = 0x0 then m\<lparr>ms_v_door_chargeport := False\<rparr>
         else if tmp = 0x1 then m\<lparr>ms_v_charge_type := ''type2'', ms_v_door_chargeport := True\<rparr>
         else if tmp = 0x2 then m\<lparr>ms_v_charge_type := ''ccs'', ms_v_door_chargeport := True\<rparr>
         else if tmp = 0x3 then m\<lparr>ms_v_door_chargeport := True\<rparr>
         else m)"

text \<open>The setpoint, half degrees from 15.5 on, is exact; the controller's record holds tenths.\<close>

definition cabin_setpoint :: "bytes \<Rightarrow> bctl \<Rightarrow> bctl" where
  "cabin_setpoint d b = b\<lparr>ms_v_env_cabinsetpoint := 5 * int (unat (d ! 7 AND 0x1F)) + 155\<rparr>"

definition frame_594 :: "bytes \<Rightarrow> egolf \<Rightarrow> egolf" where
  "frame_594 d s =
     (let s1 = set_metrics (charge_timing d) s;
          s2 = charge_progress d s1;
          s3 = set_metrics (charge_port d) s2
      in s3\<lparr>m_batctrl := cabin_setpoint d (m_batctrl s3)\<rparr>)"

definition frame_59E :: "bytes \<Rightarrow> metrics \<Rightarrow> metrics" where
  "frame_59E d m =
     (if d ! 2 \<ge> 0xFE then m else m\<lparr>ms_v_bat_temp := fl (fl (flt (d ! 2) * (1 / 2)) - 40)\<rparr>)"

definition frame_5CA :: "bytes \<Rightarrow> metrics \<Rightarrow> metrics" where
  "frame_5CA d m =
     (if d ! 2 AND 0x7F = 0x7F then m
      else let tmp = drop_bit 4 (b16 d 1 AND 0xF0) OR push_bit 4 (b16 d 2 AND 0x7F)
           in m\<lparr>ms_v_bat_capacity := fl (fl (flt tmp * 50) / 1000)\<rparr>)"

definition clima_cabin :: "bytes \<Rightarrow> metrics \<Rightarrow> metrics" where
  "clima_cabin d m =
     (let tmp = drop_bit 2 (b16 d 6 AND 0xFC) OR push_bit 6 (b16 d 7 AND 0xF)
      in if tmp \<ge> 0x3FE then m
         else m\<lparr>ms_v_env_cabintemp := fl (fl (flt tmp * fl (1 / 10)) - 40)\<rparr>)"

definition frame_5EA :: "bytes \<Rightarrow> egolf \<Rightarrow> egolf option" where
  "frame_5EA d s = do {
     b \<leftarrow> IncomingClimaEcuStatus (m_batctrl s) d;
     Some (set_metrics (clima_cabin d) (s\<lparr>m_batctrl := b\<rparr>)) }"

definition frame_5F5 :: "bytes \<Rightarrow> metrics \<Rightarrow> metrics" where
  "frame_5F5 d m =
     (let est = drop_bit 5 (b16 d 3 AND 0xE0) OR push_bit 3 (b16 d 4);
          ideal = b16 d 0 OR push_bit 8 (b16 d 1 AND 0x7)
      in m\<lparr>ms_v_bat_range_est := flt est, ms_v_bat_range_ideal := flt ideal\<rparr>)"

definition frame_65A :: "bytes \<Rightarrow> metrics \<Rightarrow> metrics" where
  "frame_65A d m = m\<lparr>ms_v_door_hood := d ! 4 AND 0x1 \<noteq> 0\<rparr>"

definition frame_66E :: "bytes \<Rightarrow> metrics \<Rightarrow> metrics" where
  "frame_66E d m =
     (if d ! 4 = 0xFE then m else m\<lparr>ms_v_env_cabintemp := fl (fl (flt (d ! 4) * (1 / 2)) - 50)\<rparr>)"

definition frame_6B7 :: "bytes \<Rightarrow> metrics \<Rightarrow> metrics" where
  "frame_6B7 d m =
     (let odo = (b32 d 0 AND 0xFF) OR push_bit 8 (b32 d 1 AND 0xFF) OR push_bit 16 (b32 d 2 AND 0xF);
          m1 = m\<lparr>ms_v_pos_odometer := flt odo\<rparr>;
          park = drop_bit 4 (b32 d 2 AND 0xF0) OR push_bit 4 (b32 d 3) OR push_bit 12 (b32 d 4 AND 0x1F);
          m2 = (if park \<noteq> 0x1FFFF then m1\<lparr>ms_v_env_parktime := int (unat park)\<rparr> else m1)
      in m2\<lparr>ms_v_env_temp := fl (fl (flt (d ! 7 AND 0xFF) * (1 / 2)) - 50)\<rparr>)"

definition frame_391 :: "bytes \<Rightarrow> egolf \<Rightarrow> egolf" where
  "frame_391 d s0 =
     (let s = s0\<lparr>m_drivetrain_ready := (d ! 7) AND 0x20 \<noteq> 0\<rparr>
      in set_metrics (ms_v_env_on_update (\<lambda>_. m_kl15_on s \<and> m_drivetrain_ready s)) s)"

definition frame_3C0 :: "bytes \<Rightarrow> egolf \<Rightarrow> egolf" where
  "frame_3C0 d s0 =
     (let s = s0\<lparr>m_kl15_on := (d ! 2) AND 0x02 \<noteq> 0\<rparr>
      in set_metrics (\<lambda>m. m\<lparr>ms_v_env_awake := m_kl15_on s,
                            ms_v_env_on := m_kl15_on s \<and> m_drivetrain_ready s\<rparr>) s)"

text \<open>The messages whose decoding touches the standard metrics only.\<close>

definition decode_metrics :: "u32 \<Rightarrow> bytes \<Rightarrow> metrics \<Rightarrow> metrics" where
  "decode_metrics msg d =
     (if msg = 0xFD then frame_0FD d
      else if msg = 0x131 then frame_131 d
      else if msg = 0x191 then frame_191 d
      else if msg = 0x2AF then frame_2AF d
      else if msg = 0x486 then frame_486 d
      else if msg = 0x386 then frame_386 d
      else if msg = 0x583 then frame_583 d
      else if msg = 0x59E then frame_59E d
      else if msg = 0x5CA then frame_5CA d
      else if msg = 0x5F5 then frame_5F5 d
      else if msg = 0x65A then frame_65A d
      else if msg = 0x66E then frame_66E d
      else if msg = 0x6B7 then frame_6B7 d
      else (\<lambda>m. m))"

definition decode_can3 :: "driver \<Rightarrow> can_frame \<Rightarrow> egolf \<Rightarrow> egolf option" where
  "decode_can3 drv f s =
     (let d = u8s f
      in if MsgID f = 0x594 then Some (frame_594 d s)
         else if MsgID f = 0x5EA then frame_5EA d s
         else if MsgID f = 0x391 then Some (frame_391 d s)
         else if MsgID f = 0x3C0 then Some (frame_3C0 d s)
         else if MsgID f = 0x17332510
         then do { b \<leftarrow> IncomingBapStatus drv (m_batctrl s) (MsgID f) (DLC f) d;
                   Some (s\<lparr>m_batctrl := b\<rparr>) }
         else Some (set_metrics (decode_metrics (MsgID f) d) s))"

definition note_oem_ocu :: "can_frame \<Rightarrow> egolf \<Rightarrow> egolf" where
  "note_oem_ocu f s =
     (let d = u8s f
      in if MsgID f = 0x5A7 \<and>
            d ! 0 OR d ! 1 OR d ! 2 OR d ! 3 OR d ! 4 OR d ! 5 OR d ! 6 OR d ! 7 \<noteq> 0
         then s\<lparr>m_oem_ocu_idle_ticks := 0\<rparr> else s)"

definition IncomingFrameCan3 :: "driver \<Rightarrow> u32 \<Rightarrow> can_frame \<Rightarrow> egolf \<Rightarrow> egolf option" where
  "IncomingFrameCan3 drv now f s0 =
     (let s1 = s0\<lparr>m_bus_idle_ticks := 0\<rparr>;
          s2 = (if m_ocu_active s1 then SendOcuHeartbeat now s1 else s1)
      in decode_can3 drv f (note_oem_ocu f s2))"

subsection \<open>The one-second tick\<close>

definition count_idle :: "egolf \<Rightarrow> egolf" where
  "count_idle s0 =
     (let s1 = (if m_bus_idle_ticks s0 < 254 then s0\<lparr>m_bus_idle_ticks := m_bus_idle_ticks s0 + 1\<rparr> else s0)
      in if m_oem_ocu_idle_ticks s1 < 254 then s1\<lparr>m_oem_ocu_idle_ticks := m_oem_ocu_idle_ticks s1 + 1\<rparr> else s1)"

definition bus_went_silent :: "egolf \<Rightarrow> egolf" where
  "bus_went_silent s =
     set_metrics (\<lambda>m. m\<lparr>ms_v_env_awake := False, ms_v_env_on := False, m_recup_level := - 1\<rparr>)
       (s\<lparr>m_kl15_on := False, m_drivetrain_ready := False\<rparr>)"

definition count_session :: "egolf \<Rightarrow> egolf" where
  "count_session s0 =
     (if m_ocu_active s0
      then let s1 = (if m_ocu_session_secs s0 < 255 then s0\<lparr>m_ocu_session_secs := m_ocu_session_secs s0 + 1\<rparr> else s0)
           in if m_ocu_grace_secs s1 < 255 then s1\<lparr>m_ocu_grace_secs := m_ocu_grace_secs s1 + 1\<rparr> else s1
      else s0)"

definition session_over :: "egolf \<Rightarrow> bool" where
  "session_over s \<longleftrightarrow>
     m_bus_idle_ticks s = VWEGOLF_BUS_TIMEOUT_SECS \<or>
     m_oem_ocu_idle_ticks s < VWEGOLF_BUS_TIMEOUT_SECS \<or>
     m_ocu_grace_secs s < 255 \<and> m_ocu_grace_secs s \<ge> VWEGOLF_OCU_ACK_GRACE_SECS \<or>
     m_ocu_session_secs s \<ge> VWEGOLF_OCU_SESSION_CAP_SECS"

definition vehicle_Ticker1 :: "driver \<Rightarrow> u32 \<Rightarrow> egolf \<Rightarrow> egolf option" where
  "vehicle_Ticker1 drv now s0 =
     (let s1 = count_idle s0;
          bus_alive = (m_bus_idle_ticks s1 < VWEGOLF_BUS_TIMEOUT_SECS);
          s2 = (if \<not> bus_alive then bus_went_silent s1 else s1);
          s3 = count_session s2;
          s4 = (if m_ocu_active s3 \<and> session_over s3 then s3\<lparr>m_ocu_active := False\<rparr> else s3);
          s5 = (if m_ocu_active s4 \<and> bus_alive then SendOcuHeartbeat now (SendNmAlive now s4) else s4)
      in do { b \<leftarrow> Ticker1 drv (m_batctrl s5) bus_alive;
              Some (s5\<lparr>m_batctrl := b\<rparr>) })"

subsection \<open>The user's commands\<close>

datatype vehicle_command = Success | Fail

text \<open>The PIN check of \<open>vehicle/vehicle.cpp\<close>, with the configured PIN as an argument.\<close>

definition PinCheck :: "string option \<Rightarrow> string \<Rightarrow> bool" where
  "PinCheck vpin pin = (case vpin of None \<Rightarrow> False | Some p \<Rightarrow> p = pin)"

definition CommandLock :: "string option \<Rightarrow> string \<Rightarrow> egolf \<Rightarrow> vehicle_command \<times> egolf" where
  "CommandLock vpin pin s =
     (if \<not> PinCheck vpin pin then (Fail, s) else (Success, s\<lparr>m_lock_requested := True\<rparr>))"

definition CommandUnlock :: "string option \<Rightarrow> string \<Rightarrow> egolf \<Rightarrow> vehicle_command \<times> egolf" where
  "CommandUnlock vpin pin s =
     (if \<not> PinCheck vpin pin then (Fail, s) else (Success, s\<lparr>m_unlock_requested := True\<rparr>))"

definition CommandMirrorFoldIn :: "egolf \<Rightarrow> vehicle_command \<times> egolf" where
  "CommandMirrorFoldIn s = (Success, s\<lparr>m_mirror_fold_in_requested := True\<rparr>)"

definition CommandHorn :: "egolf \<Rightarrow> vehicle_command \<times> egolf" where
  "CommandHorn s = (Success, s\<lparr>m_horn_requested := True\<rparr>)"

definition CommandIndicators :: "egolf \<Rightarrow> vehicle_command \<times> egolf" where
  "CommandIndicators s = (Success, s\<lparr>m_indicators_requested := True\<rparr>)"

definition CommandPanic :: "egolf \<Rightarrow> vehicle_command \<times> egolf" where
  "CommandPanic s = (Success, s\<lparr>m_panic_requested := True\<rparr>)"

definition WakeKcanBus :: "u32 \<Rightarrow> egolf \<Rightarrow> egolf" where
  "WakeKcanBus now s =
     s\<lparr>can3_tx := can3_tx s @
         [(now, Reset),
          (now, WriteExtended 0x17330301 [0x40, 0x00, 0x01, 0x1F, 0x00, 0x00, 0x00, 0x00]),
          (now, WriteExtended 0x1B000067 [0x67, 0x10, 0x41, 0x84, 0x14, 0x00, 0x00, 0x00])],
       m_ocu_active := True, m_ocu_session_secs := 0, m_ocu_grace_secs := 255\<rparr>"

definition CommandWakeup :: "u32 \<Rightarrow> egolf \<Rightarrow> vehicle_command \<times> egolf" where
  "CommandWakeup now s =
     (if m_bus_idle_ticks s < VWEGOLF_BUS_TIMEOUT_SECS then (Success, s)
      else (Success, WakeKcanBus now s))"

text \<open>The shell command \<open>xvg offline\<close>.\<close>

definition offline :: "egolf \<Rightarrow> egolf" where
  "offline s = s\<lparr>m_ocu_active := False, m_batctrl := Abort (m_batctrl s)\<rparr>"

definition delegate :: "(bctl \<Rightarrow> bool \<times> bctl) \<Rightarrow> egolf \<Rightarrow> vehicle_command \<times> egolf" where
  "delegate f s =
     (let (ok, b) = f (m_batctrl s) in (if ok then Success else Fail, s\<lparr>m_batctrl := b\<rparr>))"

definition CommandClimateControl :: "bool \<Rightarrow> egolf \<Rightarrow> vehicle_command \<times> egolf" where
  "CommandClimateControl enable = delegate (\<lambda>b. Climate b enable)"

definition CommandSetChargeCurrent :: "u16 \<Rightarrow> egolf \<Rightarrow> vehicle_command \<times> egolf" where
  "CommandSetChargeCurrent limit = delegate (\<lambda>b. SetChargeCurrent b limit)"

definition CommandStartCharge :: "egolf \<Rightarrow> vehicle_command \<times> egolf" where
  "CommandStartCharge = delegate (\<lambda>b. Charge b True)"

definition CommandStopCharge :: "egolf \<Rightarrow> vehicle_command \<times> egolf" where
  "CommandStopCharge = delegate (\<lambda>b. Charge b False)"

subsection \<open>Events and runs\<close>

datatype ev =
    FrameCan2 can_frame | FrameCan3 can_frame | Tick
  | Lock string | Unlock string | MirrorFoldIn | Horn | Indicators | Panic | Wakeup
  | Offline | ClimateControl bool | SetCurrent u16 | StartCharge | StopCharge

fun vehicle_step :: "driver \<Rightarrow> string option \<Rightarrow> u32 \<Rightarrow> ev \<Rightarrow> egolf \<Rightarrow> egolf option" where
  "vehicle_step drv vpin now (FrameCan2 f) s = Some (IncomingFrameCan2 f s)"
| "vehicle_step drv vpin now (FrameCan3 f) s = IncomingFrameCan3 drv now f s"
| "vehicle_step drv vpin now Tick s = vehicle_Ticker1 drv now s"
| "vehicle_step drv vpin now (Lock pin) s = Some (snd (CommandLock vpin pin s))"
| "vehicle_step drv vpin now (Unlock pin) s = Some (snd (CommandUnlock vpin pin s))"
| "vehicle_step drv vpin now MirrorFoldIn s = Some (snd (CommandMirrorFoldIn s))"
| "vehicle_step drv vpin now Horn s = Some (snd (CommandHorn s))"
| "vehicle_step drv vpin now Indicators s = Some (snd (CommandIndicators s))"
| "vehicle_step drv vpin now Panic s = Some (snd (CommandPanic s))"
| "vehicle_step drv vpin now Wakeup s = Some (snd (CommandWakeup now s))"
| "vehicle_step drv vpin now Offline s = Some (offline s)"
| "vehicle_step drv vpin now (ClimateControl b) s = Some (snd (CommandClimateControl b s))"
| "vehicle_step drv vpin now (SetCurrent amps) s = Some (snd (CommandSetChargeCurrent amps s))"
| "vehicle_step drv vpin now StartCharge s = Some (snd (CommandStartCharge s))"
| "vehicle_step drv vpin now StopCharge s = Some (snd (CommandStopCharge s))"

definition metrics_init :: metrics where
  "metrics_init =
     \<lparr>ms_v_env_gear = 0, ms_v_env_drivemode = 0, ms_v_env_awake = False, ms_v_env_on = False,
      ms_v_env_locked = False, ms_v_env_parktime = 0, ms_v_env_temp = 0, ms_v_env_cabintemp = 0,
      ms_v_vin = [], ms_v_pos_speed = 0, ms_v_pos_gpslock = False, ms_v_pos_latitude = 0,
      ms_v_pos_longitude = 0, ms_v_pos_odometer = 0, ms_v_bat_soc = 0, ms_v_bat_current = 0,
      ms_v_bat_voltage = 0, ms_v_bat_power = 0, ms_v_bat_energy_recd = 0, ms_v_bat_energy_used = 0,
      ms_v_bat_temp = 0, ms_v_bat_capacity = 0, ms_v_bat_range_est = 0, ms_v_bat_range_ideal = 0,
      ms_v_door_fl = False, ms_v_door_fr = False, ms_v_door_rl = False, ms_v_door_rr = False,
      ms_v_door_trunk = False, ms_v_door_hood = False, ms_v_door_chargeport = False,
      ms_v_charge_duration_full = 0, ms_v_charge_timermode = False, ms_v_charge_state = [],
      ms_v_charge_type = [], ms_v_charge_voltage = 0, m_recup_level = - 1\<rparr>"

definition egolf_init :: "bctl \<Rightarrow> egolf" where
  "egolf_init b =
     \<lparr>m_kl15_on = False, m_drivetrain_ready = False, m_bus_idle_ticks = VWEGOLF_BUS_TIMEOUT_SECS,
      m_oem_ocu_idle_ticks = VWEGOLF_BUS_TIMEOUT_SECS, m_ocu_active = False, m_last_heartbeat_tick = 0,
      m_ocu_session_secs = 0, m_ocu_grace_secs = 255, m_batctrl = b,
      m_mirror_fold_in_requested = False, m_horn_requested = False, m_indicators_requested = False,
      m_panic_requested = False, m_unlock_requested = False, m_lock_requested = False,
      m_vin_parts_received = 0, m_vin_buf = replicate 18 0, metrics = metrics_init,
      can3_tx = [], notices = []\<rparr>"

subsection \<open>What each part of the module touches\<close>

text \<open>The fields of the heartbeat session, the pending requests and the ignition state.\<close>

definition ocu_view :: "egolf \<Rightarrow> u8 \<times> u8 \<times> bool \<times> u32 \<times> u8 \<times> u8 \<times> (u32 \<times> can_out) list" where
  "ocu_view s = (m_bus_idle_ticks s, m_oem_ocu_idle_ticks s, m_ocu_active s, m_last_heartbeat_tick s,
                 m_ocu_session_secs s, m_ocu_grace_secs s, can3_tx s)"

definition vin_view :: "egolf \<Rightarrow> u8 \<times> bytes \<times> bytes" where
  "vin_view s = (m_vin_parts_received s, m_vin_buf s, ms_v_vin (metrics s))"

definition ignition_view :: "egolf \<Rightarrow> bool \<times> bool \<times> bool \<times> bool" where
  "ignition_view s = (m_kl15_on s, m_drivetrain_ready s, ms_v_env_awake (metrics s), ms_v_env_on (metrics s))"

lemmas views = ocu_view_def vin_view_def ignition_view_def

lemma set_metrics_simps [simp]:
  "ocu_view (set_metrics f s) = ocu_view s" "m_batctrl (set_metrics f s) = m_batctrl s"
  "metrics (set_metrics f s) = f (metrics s)" "m_vin_buf (set_metrics f s) = m_vin_buf s"
  "m_vin_parts_received (set_metrics f s) = m_vin_parts_received s"
  "m_kl15_on (set_metrics f s) = m_kl15_on s" "m_drivetrain_ready (set_metrics f s) = m_drivetrain_ready s"
  by (simp_all add: set_metrics_def views)

definition plain_metrics :: "(metrics \<Rightarrow> metrics) \<Rightarrow> bool" where
  "plain_metrics f \<longleftrightarrow>
     (\<forall>m. ms_v_vin (f m) = ms_v_vin m \<and> ms_v_env_awake (f m) = ms_v_env_awake m \<and> ms_v_env_on (f m) = ms_v_env_on m)"

lemma plain_decoders:
  "plain_metrics (frame_0FD d)" "plain_metrics (frame_131 d)" "plain_metrics (frame_191 d)"
  "plain_metrics (frame_2AF d)" "plain_metrics (frame_486 d)" "plain_metrics (frame_386 d)"
  "plain_metrics (frame_583 d)" "plain_metrics (frame_59E d)" "plain_metrics (frame_5CA d)"
  "plain_metrics (frame_5F5 d)" "plain_metrics (frame_65A d)" "plain_metrics (frame_66E d)"
  "plain_metrics (frame_6B7 d)" "plain_metrics (clima_cabin d)" "plain_metrics (charge_timing d)"
  "plain_metrics (charge_port d)"
  by (simp_all add: plain_metrics_def frame_0FD_def frame_131_def frame_191_def frame_2AF_def frame_486_def
      frame_386_def frame_583_def frame_59E_def frame_5CA_def frame_5F5_def frame_65A_def frame_66E_def
      frame_6B7_def clima_cabin_def charge_timing_def charge_port_def Let_def)

lemma plain_decode_metrics: "plain_metrics (decode_metrics msg d)"
  unfolding decode_metrics_def by (auto simp: plain_decoders) (simp add: plain_metrics_def)

lemma plain_view:
  assumes "plain_metrics f"
  shows "vin_view (set_metrics f s) = vin_view s" "ignition_view (set_metrics f s) = ignition_view s"
  using assms by (simp_all add: views plain_metrics_def set_metrics_def)

lemma charge_progress_views [simp]:
  "ocu_view (charge_progress d s) = ocu_view s" "vin_view (charge_progress d s) = vin_view s"
  "ignition_view (charge_progress d s) = ignition_view s"
  by (simp_all add: charge_progress_def views Let_def)

lemma batctrl_views [simp]:
  "ocu_view (s\<lparr>m_batctrl := b\<rparr>) = ocu_view s" "vin_view (s\<lparr>m_batctrl := b\<rparr>) = vin_view s"
  "ignition_view (s\<lparr>m_batctrl := b\<rparr>) = ignition_view s"
  by (simp_all add: views)

lemma frame_594_views:
  "ocu_view (frame_594 d s) = ocu_view s" "vin_view (frame_594 d s) = vin_view s"
  "ignition_view (frame_594 d s) = ignition_view s"
  by (simp_all add: frame_594_def Let_def plain_view plain_decoders)

lemma terminal_views [simp]:
  "ocu_view (frame_391 d s) = ocu_view s" "vin_view (frame_391 d s) = vin_view s"
  "ocu_view (frame_3C0 d s) = ocu_view s" "vin_view (frame_3C0 d s) = vin_view s"
  by (simp_all add: frame_391_def frame_3C0_def views set_metrics_def Let_def)

definition ignition_ok :: "egolf \<Rightarrow> bool" where
  "ignition_ok s \<longleftrightarrow>
     ms_v_env_awake (metrics s) = m_kl15_on s \<and>
     ms_v_env_on (metrics s) = (m_kl15_on s \<and> m_drivetrain_ready s)"

lemma ignition_ok_view: "ignition_view s = ignition_view s' \<Longrightarrow> ignition_ok s = ignition_ok s'"
  by (simp add: ignition_ok_def ignition_view_def)

lemma terminal_ignition:
  "ignition_ok s \<Longrightarrow> ignition_ok (frame_391 d s)" "ignition_ok (frame_3C0 d s)"
  by (simp_all add: ignition_ok_def frame_391_def frame_3C0_def set_metrics_def Let_def)

text \<open>One frame of the comfort bus: the battery controller takes its step, the rest stays.\<close>

definition decode_rel :: "egolf \<Rightarrow> egolf \<Rightarrow> bool" where
  "decode_rel s s' \<longleftrightarrow>
     ocu_view s' = ocu_view s \<and> vin_view s' = vin_view s \<and> (ignition_ok s \<longrightarrow> ignition_ok s') \<and>
     bc_inv (m_batctrl s')"

lemma cabin_setpoint_inv: "bc_inv b \<Longrightarrow> bc_inv (cabin_setpoint d b)"
  by (simp add: cabin_setpoint_def bc_inv_def gate_def)

lemma charge_progress_inv: "bc_inv (m_batctrl s) \<Longrightarrow> bc_inv (m_batctrl (charge_progress d s))"
  by (simp add: charge_progress_def bc_inv_def gate_def Let_def)

lemma decode_can3_rel:
  assumes "length (u8s f) = 8" "bc_inv (m_batctrl s)"
  shows "ensures (decode_can3 drv f s) (decode_rel s)"
proof -
  have ig: "ignition_view s' = ignition_view s \<Longrightarrow> ignition_ok s \<longrightarrow> ignition_ok s'" for s'
    using ignition_ok_view [of s' s] by blast
  have clima: "ensures (IncomingClimaEcuStatus (m_batctrl s) (u8s f)) bc_inv"
    using bc_apply_inv [OF assms(2), of "EvClima (u8s f)" drv] assms(1) by simp
  have bap: "ensures (IncomingBapStatus drv (m_batctrl s) (MsgID f) (DLC f) (u8s f)) bc_inv"
    using bc_apply_inv [OF assms(2), of "EvBap (MsgID f) (DLC f) (u8s f)" drv] assms(1) by simp
  have "ensures (frame_5EA (u8s f) s) (decode_rel s)"
    unfolding frame_5EA_def ensures_bind_iff
    by (rule ensures_mono [OF clima]) (simp add: decode_rel_def plain_view plain_decoders ig)
  moreover have "ensures (do { b \<leftarrow> IncomingBapStatus drv (m_batctrl s) (MsgID f) (DLC f) (u8s f);
      Some (s\<lparr>m_batctrl := b\<rparr>) }) (decode_rel s)"
    unfolding ensures_bind_iff by (rule ensures_mono [OF bap]) (simp add: decode_rel_def ig)
  moreover have "decode_rel s (frame_594 (u8s f) s)"
    using assms(2) by (simp add: decode_rel_def frame_594_views ig)
      (simp add: frame_594_def Let_def cabin_setpoint_inv charge_progress_inv)
  moreover have "decode_rel s (frame_391 (u8s f) s)" "decode_rel s (frame_3C0 (u8s f) s)"
    using assms(2) by (simp_all add: decode_rel_def terminal_ignition)
      (simp_all add: frame_391_def frame_3C0_def Let_def)
  moreover have "decode_rel s (set_metrics (decode_metrics msg d) s)" for msg d
    using assms(2) by (simp add: decode_rel_def plain_view plain_decode_metrics ig)
  ultimately show ?thesis unfolding decode_can3_def Let_def by (intro ensures_if) (assumption | simp)+
qed

subsection \<open>The heartbeat session\<close>

definition heartbeats :: "(u32 \<times> can_out) list \<Rightarrow> u32 list" where
  "heartbeats tx = map fst (filter (\<lambda>e. case snd e of WriteStandard i d \<Rightarrow> i = 0x5A7 | _ \<Rightarrow> False) tx)"

definition spaced :: "u32 list \<Rightarrow> bool" where
  "spaced ts \<longleftrightarrow> successively (\<lambda>t u. 18 \<le> unat (u - t)) ts"

definition ocu_inv :: "egolf \<Rightarrow> bool" where
  "ocu_inv s \<longleftrightarrow>
     m_bus_idle_ticks s \<le> m_oem_ocu_idle_ticks s \<and> m_ocu_grace_secs s = 255 \<and>
     (m_ocu_active s \<longrightarrow> m_ocu_session_secs s < 30) \<and>
     (heartbeats (can3_tx s) \<noteq> [] \<longrightarrow> m_last_heartbeat_tick s = last (heartbeats (can3_tx s))) \<and>
     spaced (heartbeats (can3_tx s))"

lemma ocu_inv_view: "ocu_view s = ocu_view s' \<Longrightarrow> ocu_inv s = ocu_inv s'"
  by (simp add: ocu_inv_def ocu_view_def)

lemma ocu_view_fields:
  assumes "ocu_view s = ocu_view s'"
  shows "m_bus_idle_ticks s = m_bus_idle_ticks s'" "m_oem_ocu_idle_ticks s = m_oem_ocu_idle_ticks s'"
    "m_ocu_active s = m_ocu_active s'" "m_last_heartbeat_tick s = m_last_heartbeat_tick s'"
    "m_ocu_session_secs s = m_ocu_session_secs s'" "m_ocu_grace_secs s = m_ocu_grace_secs s'"
    "can3_tx s = can3_tx s'"
  using assms by (simp_all add: ocu_view_def)

lemma heartbeats_append [simp]: "heartbeats (xs @ ys) = heartbeats xs @ heartbeats ys"
  by (simp add: heartbeats_def)

lemma heartbeats_frames [simp]:
  "heartbeats [] = []" "heartbeats ((t, WriteStandard i d) # l) = (if i = 0x5A7 then [t] else []) @ heartbeats l"
  "heartbeats ((t, WriteExtended j d) # l) = heartbeats l" "heartbeats ((t, Reset) # l) = heartbeats l"
  by (simp_all add: heartbeats_def)

lemma spaced_1 [simp]: "spaced []" "spaced [t]"
  by (simp_all add: spaced_def)

lemma spaced_snoc: "spaced (ts @ [u]) \<longleftrightarrow> spaced ts \<and> (ts \<noteq> [] \<longrightarrow> 18 \<le> unat (u - last ts))"
  by (auto simp: spaced_def successively_append_iff)

lemma ticks_apart:
  assumes "\<not> (x :: u32) * 10 < 180"
  shows "18 \<le> unat x"
proof (rule ccontr)
  assume "\<not> 18 \<le> unat x"
  then have "unat (x * 10) = unat x * 10"
    by (simp add: unat_word_ariths(2))
  then show False using assms \<open>\<not> 18 \<le> unat x\<close> by (simp add: word_less_nat_alt)
qed

text \<open>Taking requests changes request flags only, and leaves none pending.\<close>

lemma take_request_rest:
  assumes "\<And>s. g (clear s) = g s"
  shows "g (snd (take_request p clear i v ds)) = g (snd ds)"
  using assms by (simp add: take_request_def)

lemma take_requests_snd:
  "snd (take_requests ds) =
     (snd ds)\<lparr>m_mirror_fold_in_requested := False, m_horn_requested := False, m_lock_requested := False,
              m_unlock_requested := False, m_indicators_requested := False, m_panic_requested := False\<rparr>"
proof -
  have take_False: "snd (take_request p clear i v ds) = (if p (snd ds) then clear (snd ds) else snd ds)" for p clear i v ds
    by (simp add: take_request_def)
  show ?thesis
    by (rule egolf.equality) (simp_all add: take_requests_def Let_def take_False)
qed

definition sent :: "u32 \<Rightarrow> egolf \<Rightarrow> egolf \<Rightarrow> bool" where
  "sent now s s' \<longleftrightarrow>
     (\<exists>data. can3_tx s' = can3_tx s @ [(now, WriteStandard 0x5A7 data)]) \<and> m_last_heartbeat_tick s' = now \<and>
     VWEGOLF_BUS_TIMEOUT_SECS \<le> m_oem_ocu_idle_ticks s \<and> 18 \<le> unat (now - m_last_heartbeat_tick s)"

lemma SendOcuHeartbeat_cases:
  "SendOcuHeartbeat now s = s \<or> sent now s (SendOcuHeartbeat now s)"
proof (cases "m_oem_ocu_idle_ticks s < VWEGOLF_BUS_TIMEOUT_SECS \<or>
              (now - m_last_heartbeat_tick s) * portTICK_PERIOD_MS < 180")
  case True
  then show ?thesis by (auto simp: SendOcuHeartbeat_def)
next
  case False
  then show ?thesis
    using ticks_apart [of "now - m_last_heartbeat_tick s"]
      take_requests_snd [of "(replicate 8 0, s\<lparr>m_last_heartbeat_tick := now\<rparr>)"]
    by (auto simp: SendOcuHeartbeat_def sent_def portTICK_PERIOD_MS_def not_less split: prod.split)
qed

lemma SendOcuHeartbeat_rest [simp]:
  "m_bus_idle_ticks (SendOcuHeartbeat now s) = m_bus_idle_ticks s"
  "m_oem_ocu_idle_ticks (SendOcuHeartbeat now s) = m_oem_ocu_idle_ticks s"
  "m_ocu_active (SendOcuHeartbeat now s) = m_ocu_active s"
  "m_ocu_session_secs (SendOcuHeartbeat now s) = m_ocu_session_secs s"
  "m_ocu_grace_secs (SendOcuHeartbeat now s) = m_ocu_grace_secs s"
  "m_batctrl (SendOcuHeartbeat now s) = m_batctrl s"
  "vin_view (SendOcuHeartbeat now s) = vin_view s"
  "ignition_view (SendOcuHeartbeat now s) = ignition_view s"
  using take_requests_snd [of "(replicate 8 0, s\<lparr>m_last_heartbeat_tick := now\<rparr>)"]
  by (auto simp: SendOcuHeartbeat_def views split: prod.split)

lemma SendOcuHeartbeat_inv: "ocu_inv s \<Longrightarrow> ocu_inv (SendOcuHeartbeat now s)"
  using SendOcuHeartbeat_cases [of now s]
  by (auto simp: ocu_inv_def sent_def spaced_snoc)

lemma SendNmAlive_rest [simp]:
  "m_bus_idle_ticks (SendNmAlive now s) = m_bus_idle_ticks s"
  "m_oem_ocu_idle_ticks (SendNmAlive now s) = m_oem_ocu_idle_ticks s"
  "m_ocu_active (SendNmAlive now s) = m_ocu_active s"
  "m_ocu_session_secs (SendNmAlive now s) = m_ocu_session_secs s"
  "m_batctrl (SendNmAlive now s) = m_batctrl s"
  "vin_view (SendNmAlive now s) = vin_view s"
  "ignition_view (SendNmAlive now s) = ignition_view s"
  by (simp_all add: SendNmAlive_def views)

lemma SendNmAlive_inv: "ocu_inv s \<Longrightarrow> ocu_inv (SendNmAlive now s)"
  by (simp add: SendNmAlive_def ocu_inv_def)

subsection \<open>The invariant of the module\<close>

definition vehicle_inv :: "egolf \<Rightarrow> bool" where
  "vehicle_inv s \<longleftrightarrow> ocu_inv s \<and> ignition_ok s \<and> bc_inv (m_batctrl s) \<and> length (m_vin_buf s) = 18"

fun ev_ok :: "ev \<Rightarrow> bool" where
  "ev_ok (FrameCan2 f) \<longleftrightarrow> length (u8s f) = 8"
| "ev_ok (FrameCan3 f) \<longleftrightarrow> length (u8s f) = 8"
| "ev_ok _ \<longleftrightarrow> True"

text \<open>A frame on the comfort bus: the counters, perhaps a heartbeat, then the decoder.\<close>

definition can3_head :: "u32 \<Rightarrow> can_frame \<Rightarrow> egolf \<Rightarrow> egolf" where
  "can3_head now f s =
     (let s1 = s\<lparr>m_bus_idle_ticks := 0\<rparr>
      in note_oem_ocu f (if m_ocu_active s1 then SendOcuHeartbeat now s1 else s1))"

lemma IncomingFrameCan3_head: "IncomingFrameCan3 drv now f s = decode_can3 drv f (can3_head now f s)"
  by (simp add: IncomingFrameCan3_def can3_head_def Let_def)

lemma note_oem_ocu_cases: "note_oem_ocu f s = s \<or> note_oem_ocu f s = s\<lparr>m_oem_ocu_idle_ticks := 0\<rparr>"
  by (simp add: note_oem_ocu_def Let_def)

lemma note_oem_ocu_inv: "ocu_inv s \<Longrightarrow> m_bus_idle_ticks s = 0 \<Longrightarrow> ocu_inv (note_oem_ocu f s)"
  using note_oem_ocu_cases [of f s] by (auto simp: ocu_inv_def)

lemma note_oem_ocu_rest [simp]:
  "m_ocu_active (note_oem_ocu f s) = m_ocu_active s"
  "m_ocu_session_secs (note_oem_ocu f s) = m_ocu_session_secs s"
  "can3_tx (note_oem_ocu f s) = can3_tx s" "m_batctrl (note_oem_ocu f s) = m_batctrl s"
  "vin_view (note_oem_ocu f s) = vin_view s" "ignition_view (note_oem_ocu f s) = ignition_view s"
  by (simp_all add: note_oem_ocu_def views Let_def)

lemma bus_idle_ocu_inv: "ocu_inv s \<Longrightarrow> ocu_inv (s\<lparr>m_bus_idle_ticks := 0\<rparr>)"
  by (simp add: ocu_inv_def)

lemma bus_idle_views [simp]:
  "vin_view (s\<lparr>m_bus_idle_ticks := n\<rparr>) = vin_view s" "ignition_view (s\<lparr>m_bus_idle_ticks := n\<rparr>) = ignition_view s"
  by (simp_all add: views)

lemma can3_head_rest [simp]:
  "m_ocu_active (can3_head now f s) = m_ocu_active s"
  "m_ocu_session_secs (can3_head now f s) = m_ocu_session_secs s"
  "m_batctrl (can3_head now f s) = m_batctrl s"
  "vin_view (can3_head now f s) = vin_view s" "ignition_view (can3_head now f s) = ignition_view s"
  by (simp_all add: can3_head_def Let_def)

lemma can3_head_inv: "ocu_inv s \<Longrightarrow> ocu_inv (can3_head now f s)"
  by (simp add: can3_head_def Let_def note_oem_ocu_inv SendOcuHeartbeat_inv bus_idle_ocu_inv)

lemma IncomingFrameCan3_rel:
  assumes "length (u8s f) = 8" "bc_inv (m_batctrl s)"
  shows "ensures (IncomingFrameCan3 drv now f s) (decode_rel (can3_head now f s))"
  unfolding IncomingFrameCan3_head using assms by (simp add: decode_can3_rel)

text \<open>The tick up to the controller's own tick.\<close>

definition tick_counts :: "egolf \<Rightarrow> egolf" where
  "tick_counts s0 =
     (let s1 = count_idle s0;
          s3 = count_session (if \<not> m_bus_idle_ticks s1 < VWEGOLF_BUS_TIMEOUT_SECS then bus_went_silent s1 else s1)
      in if m_ocu_active s3 \<and> session_over s3 then s3\<lparr>m_ocu_active := False\<rparr> else s3)"

definition tick_head :: "u32 \<Rightarrow> egolf \<Rightarrow> egolf" where
  "tick_head now s0 =
     (let s4 = tick_counts s0
      in if m_ocu_active s4 \<and> m_bus_idle_ticks s4 < VWEGOLF_BUS_TIMEOUT_SECS
         then SendOcuHeartbeat now (SendNmAlive now s4) else s4)"

lemma count_idle_rest [simp]:
  "m_ocu_active (count_idle s) = m_ocu_active s" "m_ocu_session_secs (count_idle s) = m_ocu_session_secs s"
  "m_ocu_grace_secs (count_idle s) = m_ocu_grace_secs s" "can3_tx (count_idle s) = can3_tx s"
  "m_last_heartbeat_tick (count_idle s) = m_last_heartbeat_tick s"
  "m_batctrl (count_idle s) = m_batctrl s" "vin_view (count_idle s) = vin_view s"
  "ignition_view (count_idle s) = ignition_view s"
  by (simp_all add: count_idle_def views Let_def)

lemma bus_went_silent_rest [simp]:
  "ocu_view (bus_went_silent s) = ocu_view s" "m_batctrl (bus_went_silent s) = m_batctrl s"
  "vin_view (bus_went_silent s) = vin_view s" "ignition_ok (bus_went_silent s)"
  by (simp_all add: bus_went_silent_def views set_metrics_def ignition_ok_def)

lemma count_session_rest [simp]:
  "m_bus_idle_ticks (count_session s) = m_bus_idle_ticks s"
  "m_oem_ocu_idle_ticks (count_session s) = m_oem_ocu_idle_ticks s"
  "m_ocu_active (count_session s) = m_ocu_active s" "can3_tx (count_session s) = can3_tx s"
  "m_last_heartbeat_tick (count_session s) = m_last_heartbeat_tick s"
  "m_batctrl (count_session s) = m_batctrl s" "vin_view (count_session s) = vin_view s"
  "ignition_view (count_session s) = ignition_view s"
  by (simp_all add: count_session_def views Let_def)

lemma unat_inc_u8: "x < 255 \<Longrightarrow> unat ((x :: u8) + 1) = Suc (unat x)"
  by (simp add: unat_word_ariths(1) word_less_nat_alt)

lemma below_255: "x < 254 \<Longrightarrow> (x :: u8) < 255" "x < 30 \<Longrightarrow> x < 255"
  by (simp_all add: word_less_nat_alt)

lemma idle_le_count:
  assumes "(a :: u8) \<le> b"
  shows "(if a < 254 then a + 1 else a) \<le> (if b < 254 then b + 1 else b)"
  using assms by (auto simp: word_le_nat_alt unat_inc_u8 below_255) (auto simp: word_less_nat_alt)

lemma count_idle_idle:
  "m_bus_idle_ticks (count_idle s) = (if m_bus_idle_ticks s < 254 then m_bus_idle_ticks s + 1 else m_bus_idle_ticks s)"
  "m_oem_ocu_idle_ticks (count_idle s) =
     (if m_oem_ocu_idle_ticks s < 254 then m_oem_ocu_idle_ticks s + 1 else m_oem_ocu_idle_ticks s)"
  by (simp_all add: count_idle_def Let_def)

lemma count_idle_inv: "ocu_inv s \<Longrightarrow> ocu_inv (count_idle s)"
  unfolding ocu_inv_def by (simp add: count_idle_idle(1) count_idle_idle(2) idle_le_count del: if_split)

lemma session_tick:
  assumes "ocu_inv s" "m_ocu_active s"
  shows "unat (m_ocu_session_secs (count_session s)) = Suc (unat (m_ocu_session_secs s))"
    "m_ocu_grace_secs (count_session s) = 255"
  using assms below_255(2) [of "m_ocu_session_secs s"]
  by (simp_all add: count_session_def ocu_inv_def unat_inc_u8)

lemma session_off [simp]: "\<not> m_ocu_active s \<Longrightarrow> count_session s = s"
  by (simp add: count_session_def)

lemma count_session_inv:
  assumes "ocu_inv s"
  shows "ocu_inv (let s3 = count_session s in if m_ocu_active s3 \<and> session_over s3 then s3\<lparr>m_ocu_active := False\<rparr> else s3)"
proof (cases "m_ocu_active s")
  case True
  then show ?thesis
    using assms session_tick(2) [OF assms True]
    by (auto simp: ocu_inv_def session_over_def VWEGOLF_OCU_SESSION_CAP_SECS_def not_le Let_def)
next
  case False
  then show ?thesis using assms by (simp add: Let_def)
qed

lemma tick_counts_inv: "ocu_inv s \<Longrightarrow> ocu_inv (tick_counts s)"
  using count_session_inv [of "if \<not> m_bus_idle_ticks (count_idle s) < VWEGOLF_BUS_TIMEOUT_SECS
      then bus_went_silent (count_idle s) else count_idle s"] count_idle_inv [of s]
    ocu_inv_view [OF bus_went_silent_rest(1), of "count_idle s"]
  unfolding tick_counts_def Let_def by (auto split: if_splits)

lemma deactivate_views [simp]:
  "vin_view (s\<lparr>m_ocu_active := b\<rparr>) = vin_view s" "ignition_view (s\<lparr>m_ocu_active := b\<rparr>) = ignition_view s"
  by (simp_all add: views)

lemma tick_counts_rest [simp]:
  "m_batctrl (tick_counts s) = m_batctrl s" "vin_view (tick_counts s) = vin_view s"
  "can3_tx (tick_counts s) = can3_tx s"
  using ocu_view_fields(7) [OF bus_went_silent_rest(1), of "count_idle s"]
  by (simp_all add: tick_counts_def Let_def)

lemma ignition_ok_views:
  "ignition_ok (count_session s) = ignition_ok s" "ignition_ok (count_idle s) = ignition_ok s"
  "ignition_ok (s\<lparr>m_ocu_active := b\<rparr>) = ignition_ok s" "ignition_ok (SendNmAlive now s) = ignition_ok s"
  "ignition_ok (SendOcuHeartbeat now s) = ignition_ok s" "ignition_ok (can3_head now f s) = ignition_ok s"
  by (rule ignition_ok_view; simp)+

lemma tick_counts_ignition: "ignition_ok s \<Longrightarrow> ignition_ok (tick_counts s)"
  by (simp add: tick_counts_def Let_def ignition_ok_views)

lemma tick_head_rest [simp]:
  "m_batctrl (tick_head now s) = m_batctrl s" "vin_view (tick_head now s) = vin_view s"
  "m_ocu_active (tick_head now s) = m_ocu_active (tick_counts s)"
  "m_ocu_session_secs (tick_head now s) = m_ocu_session_secs (tick_counts s)"
  by (simp_all add: tick_head_def Let_def)

lemma tick_head_inv: "ocu_inv s \<Longrightarrow> ocu_inv (tick_head now s)"
  by (simp add: tick_head_def Let_def SendOcuHeartbeat_inv SendNmAlive_inv tick_counts_inv)

lemma tick_head_ignition: "ignition_ok s \<Longrightarrow> ignition_ok (tick_head now s)"
  by (simp add: tick_head_def Let_def ignition_ok_views tick_counts_ignition)

lemma vehicle_Ticker1_head:
  "vehicle_Ticker1 drv now s =
     (let s5 = tick_head now s; alive = (m_bus_idle_ticks (tick_counts s) < VWEGOLF_BUS_TIMEOUT_SECS)
      in do { b \<leftarrow> Ticker1 drv (m_batctrl s5) alive; Some (s5\<lparr>m_batctrl := b\<rparr>) })"
proof -
  have "m_bus_idle_ticks (tick_counts s) = m_bus_idle_ticks (count_idle s)"
    using ocu_view_fields(1) [OF bus_went_silent_rest(1), of "count_idle s"]
    by (simp add: tick_counts_def Let_def)
  then show ?thesis unfolding vehicle_Ticker1_def tick_head_def tick_counts_def Let_def by simp
qed

definition vtick_rel :: "u32 \<Rightarrow> egolf \<Rightarrow> egolf \<Rightarrow> bool" where
  "vtick_rel now s s' \<longleftrightarrow>
     ocu_view s' = ocu_view (tick_head now s) \<and> vin_view s' = vin_view s \<and>
     ignition_view s' = ignition_view (tick_head now s) \<and> bc_inv (m_batctrl s')"

lemma vehicle_Ticker1_rel:
  assumes "bc_inv (m_batctrl s)"
  shows "ensures (vehicle_Ticker1 drv now s) (vtick_rel now s)"
proof -
  have "ensures (Ticker1 drv (m_batctrl s) alive) bc_inv" for alive
    using bc_apply_inv [OF assms, of "EvTick alive" drv] by simp
  then show ?thesis
    unfolding vehicle_Ticker1_head Let_def ensures_bind_iff
    by (auto intro: ensures_mono simp: vtick_rel_def)
qed

subsection \<open>Commands and the powertrain bus\<close>

lemma CommandWakeup_cases:
  "snd (CommandWakeup now s) = s \<or>
   VWEGOLF_BUS_TIMEOUT_SECS \<le> m_bus_idle_ticks s \<and> snd (CommandWakeup now s) = WakeKcanBus now s"
  by (auto simp: CommandWakeup_def)

lemma WakeKcanBus_views [simp]:
  "vin_view (WakeKcanBus now s) = vin_view s" "ignition_view (WakeKcanBus now s) = ignition_view s"
  "m_batctrl (WakeKcanBus now s) = m_batctrl s"
  by (simp_all add: WakeKcanBus_def views)

lemma WakeKcanBus_inv: "ocu_inv s \<Longrightarrow> ocu_inv (WakeKcanBus now s)"
  by (simp add: WakeKcanBus_def ocu_inv_def)

lemma frame_187_views [simp]:
  "ocu_view (frame_187 d s) = ocu_view s" "vin_view (frame_187 d s) = vin_view s"
  "ignition_view (frame_187 d s) = ignition_view s" "m_batctrl (frame_187 d s) = m_batctrl s"
  by (simp_all add: frame_187_def views Let_def split: option.split)

lemma frame_6B4_views [simp]:
  "ocu_view (frame_6B4 d s) = ocu_view s" "ignition_view (frame_6B4 d s) = ignition_view s"
  "m_batctrl (frame_6B4 d s) = m_batctrl s"
  by (simp_all add: frame_6B4_def vin_part_def views Let_def)

lemma IncomingFrameCan2_views [simp]:
  "ocu_view (IncomingFrameCan2 f s) = ocu_view s" "ignition_view (IncomingFrameCan2 f s) = ignition_view s"
  "m_batctrl (IncomingFrameCan2 f s) = m_batctrl s"
  by (simp_all add: IncomingFrameCan2_def)

lemma frame_6B4_length: "length (u8s f) = 8 \<Longrightarrow> length (m_vin_buf s) = 18 \<Longrightarrow> length (m_vin_buf (frame_6B4 (u8s f) s)) = 18"
  by (simp add: frame_6B4_def vin_part_def Let_def)

lemma frame_187_vin [simp]: "m_vin_buf (frame_187 d s) = m_vin_buf s"
  using frame_187_views(2) [of d s] by (simp add: vin_view_def)

text \<open>The commands that only set a request or go to the battery controller.\<close>

fun quiet :: "ev \<Rightarrow> bool" where
  "quiet (FrameCan3 f) \<longleftrightarrow> False" | "quiet Tick \<longleftrightarrow> False" | "quiet Wakeup \<longleftrightarrow> False" | "quiet Offline \<longleftrightarrow> False"
| "quiet _ \<longleftrightarrow> True"

lemma delegate_views [simp]:
  "ocu_view (snd (delegate f s)) = ocu_view s" "vin_view (snd (delegate f s)) = vin_view s"
  "ignition_view (snd (delegate f s)) = ignition_view s" "m_batctrl (snd (delegate f s)) = snd (f (m_batctrl s))"
  by (simp_all add: delegate_def split: prod.split)

lemma request_views [simp]:
  "ocu_view (snd (CommandLock v p s)) = ocu_view s" "ocu_view (snd (CommandUnlock v p s)) = ocu_view s"
  "ocu_view (snd (CommandMirrorFoldIn s)) = ocu_view s" "ocu_view (snd (CommandHorn s)) = ocu_view s"
  "ocu_view (snd (CommandIndicators s)) = ocu_view s" "ocu_view (snd (CommandPanic s)) = ocu_view s"
  "vin_view (snd (CommandLock v p s)) = vin_view s" "vin_view (snd (CommandUnlock v p s)) = vin_view s"
  "vin_view (snd (CommandMirrorFoldIn s)) = vin_view s" "vin_view (snd (CommandHorn s)) = vin_view s"
  "vin_view (snd (CommandIndicators s)) = vin_view s" "vin_view (snd (CommandPanic s)) = vin_view s"
  "ignition_view (snd (CommandLock v p s)) = ignition_view s" "ignition_view (snd (CommandUnlock v p s)) = ignition_view s"
  "ignition_view (snd (CommandMirrorFoldIn s)) = ignition_view s" "ignition_view (snd (CommandHorn s)) = ignition_view s"
  "ignition_view (snd (CommandIndicators s)) = ignition_view s" "ignition_view (snd (CommandPanic s)) = ignition_view s"
  "m_batctrl (snd (CommandLock v p s)) = m_batctrl s" "m_batctrl (snd (CommandUnlock v p s)) = m_batctrl s"
  "m_batctrl (snd (CommandMirrorFoldIn s)) = m_batctrl s" "m_batctrl (snd (CommandHorn s)) = m_batctrl s"
  "m_batctrl (snd (CommandIndicators s)) = m_batctrl s" "m_batctrl (snd (CommandPanic s)) = m_batctrl s"
  by (simp_all add: CommandLock_def CommandUnlock_def CommandMirrorFoldIn_def CommandHorn_def
      CommandIndicators_def CommandPanic_def views)

lemma controller_commands_inv:
  assumes "bc_inv b"
  shows "bc_inv (snd (Climate b e))" "bc_inv (snd (Charge b e))" "bc_inv (snd (SetChargeCurrent b amps))" "bc_inv (Abort b)"
  using bc_apply_inv [OF assms, of "EvClimate e"] bc_apply_inv [OF assms, of "EvCharge e"]
    bc_apply_inv [OF assms, of "EvSetCurrent amps"] bc_apply_inv [OF assms, of EvAbort] by simp_all

lemma quiet_step:
  assumes "quiet ev" "bc_inv (m_batctrl s)" "ev_ok ev"
  shows "\<exists>s'. vehicle_step drv vpin now ev s = Some s' \<and> ocu_view s' = ocu_view s \<and>
     ignition_view s' = ignition_view s \<and> bc_inv (m_batctrl s') \<and>
     (vin_view s' = vin_view s \<or> (\<exists>f. ev = FrameCan2 f))"
  using assms controller_commands_inv [OF assms(2)]
  by (cases ev) (simp_all add: CommandClimateControl_def CommandSetChargeCurrent_def
      CommandStartCharge_def CommandStopCharge_def)

text \<open>Every event keeps the invariant, and none leaves a buffer.\<close>

lemma vin_view_length: "vin_view s = vin_view s' \<Longrightarrow> length (m_vin_buf s) = length (m_vin_buf s')"
  by (simp add: vin_view_def)

lemma vehicle_step_inv:
  assumes "vehicle_inv s" "ev_ok ev"
  shows "ensures (vehicle_step drv vpin now ev s) vehicle_inv"
proof -
  have inv: "ocu_inv s" "ignition_ok s" "bc_inv (m_batctrl s)" "length (m_vin_buf s) = 18"
    using assms(1) by (simp_all add: vehicle_inv_def)
  consider (q) "quiet ev" | (c3) f where "ev = FrameCan3 f" | (t) "ev = Tick" | (w) "ev = Wakeup" | (o) "ev = Offline"
    by (cases ev) auto
  then show ?thesis
  proof cases
    case q
    obtain s' where s': "vehicle_step drv vpin now ev s = Some s'" "ocu_view s' = ocu_view s"
      "ignition_view s' = ignition_view s" "bc_inv (m_batctrl s')" "vin_view s' = vin_view s \<or> (\<exists>f. ev = FrameCan2 f)"
      using quiet_step [OF q inv(3) assms(2)] by blast
    have "length (m_vin_buf s') = 18"
      using s'(5)
    proof
      assume "vin_view s' = vin_view s"
      then show ?thesis using vin_view_length inv(4) by metis
    next
      assume "\<exists>f. ev = FrameCan2 f"
      then show ?thesis using s'(1) inv(4) assms(2) by (auto simp: IncomingFrameCan2_def frame_6B4_length)
    qed
    then show ?thesis
      using inv s' ocu_inv_view [OF s'(2)] ignition_ok_view [OF s'(3)] by (simp add: vehicle_inv_def)
  next
    case c3
    have "ensures (IncomingFrameCan3 drv now f s) (decode_rel (can3_head now f s))"
      using IncomingFrameCan3_rel inv(3) assms(2) c3 by simp
    then have "ensures (IncomingFrameCan3 drv now f s) vehicle_inv"
    proof (rule ensures_mono)
      fix x assume "decode_rel (can3_head now f s) x"
      then show "vehicle_inv x"
        using inv can3_head_inv [OF inv(1), of now f] ocu_inv_view [of x "can3_head now f s"] vin_view_length [of x s]
        by (simp add: vehicle_inv_def decode_rel_def ignition_ok_views)
    qed
    then show ?thesis by (simp add: c3)
  next
    case t
    have "ensures (vehicle_Ticker1 drv now s) (vtick_rel now s)"
      by (rule vehicle_Ticker1_rel [OF inv(3)])
    then have "ensures (vehicle_Ticker1 drv now s) vehicle_inv"
    proof (rule ensures_mono)
      fix x assume "vtick_rel now s x"
      then show "vehicle_inv x"
        using inv tick_head_inv [OF inv(1), of now] tick_head_ignition [OF inv(2), of now]
          ocu_inv_view [of x "tick_head now s"] ignition_ok_view [of x "tick_head now s"] vin_view_length [of x s]
        by (simp add: vehicle_inv_def vtick_rel_def)
    qed
    then show ?thesis by (simp add: t)
  next
    case w
    then show ?thesis
      using inv CommandWakeup_cases [of now s] WakeKcanBus_inv [OF inv(1)]
        ignition_ok_view [OF WakeKcanBus_views(2)] vin_view_length [OF WakeKcanBus_views(1)]
      by (auto simp: vehicle_inv_def)
  next
    case o
    then show ?thesis
      using inv controller_commands_inv(4) [OF inv(3)]
      by (simp add: offline_def vehicle_inv_def ocu_inv_def ignition_ok_def)
  qed
qed

inductive vehicle_reach :: "driver \<Rightarrow> string option \<Rightarrow> egolf \<Rightarrow> bool" for drv vpin where
  init: "aset_inv 224 asms \<Longrightarrow> vehicle_reach drv vpin (egolf_init (bc_init asms))"
| step: "\<lbrakk>vehicle_reach drv vpin s; ev_ok ev; vehicle_step drv vpin now ev s = Some s'\<rbrakk> \<Longrightarrow> vehicle_reach drv vpin s'"

lemma vehicle_init_inv: "aset_inv 224 asms \<Longrightarrow> vehicle_inv (egolf_init (bc_init asms))"
  by (simp add: vehicle_inv_def egolf_init_def ocu_inv_def ignition_ok_def metrics_init_def
      bc_reach_inv [OF bc_reach.init])

lemma vehicle_reach_inv: "vehicle_reach drv vpin s \<Longrightarrow> vehicle_inv s"
  by (induction rule: vehicle_reach.induct) (auto simp: vehicle_init_inv intro: ensuresD [OF vehicle_step_inv])

inductive_cases vehicle_reachE: "vehicle_reach drv vpin s"

primrec vehicle_run :: "driver \<Rightarrow> string option \<Rightarrow> egolf \<Rightarrow> (u32 \<times> ev) list \<Rightarrow> egolf option" where
  "vehicle_run drv vpin s [] = Some s"
| "vehicle_run drv vpin s (e # es) = do { s' \<leftarrow> vehicle_step drv vpin (fst e) (snd e) s; vehicle_run drv vpin s' es }"

lemma vehicle_run_total:
  "vehicle_inv s \<Longrightarrow> \<forall>e \<in> set es. ev_ok (snd e) \<Longrightarrow> ensures (vehicle_run drv vpin s es) vehicle_inv"
proof (induction es arbitrary: s)
  case Nil
  then show ?case by simp
next
  case (Cons e es)
  then show ?case
    unfolding vehicle_run.simps by (intro ensures_bindI [OF vehicle_step_inv]) simp_all
qed

subsection \<open>Sessions end, and nothing is sent outside them\<close>

lemma tick_counts_active:
  assumes "ocu_inv s"
  shows "m_ocu_active (tick_counts s) \<Longrightarrow> m_ocu_active s \<and> unat (m_ocu_session_secs (tick_counts s)) = Suc (unat (m_ocu_session_secs s))"
proof -
  let ?s2 = "if \<not> m_bus_idle_ticks (count_idle s) < VWEGOLF_BUS_TIMEOUT_SECS then bus_went_silent (count_idle s) else count_idle s"
  assume on: "m_ocu_active (tick_counts s)"
  have v: "ocu_view ?s2 = ocu_view (count_idle s)" by simp
  have "ocu_inv ?s2" using ocu_inv_view [OF v] count_idle_inv [OF assms] by simp
  moreover have act: "m_ocu_active ?s2 = m_ocu_active s" "m_ocu_session_secs ?s2 = m_ocu_session_secs s"
    using ocu_view_fields(3,5) [OF v] by simp_all
  moreover have "m_ocu_active ?s2" "tick_counts s = count_session ?s2"
    using on by (auto simp: tick_counts_def Let_def split: if_splits)
  ultimately show ?thesis using session_tick(1) [of ?s2] by simp
qed

lemma session_step:
  assumes "vehicle_inv s" "ev_ok ev" "ev \<noteq> Wakeup" "vehicle_step drv vpin now ev s = Some s'" "m_ocu_active s'"
  shows "m_ocu_active s \<and>
    unat (m_ocu_session_secs s') = unat (m_ocu_session_secs s) + (if ev = Tick then 1 else 0)"
proof -
  have inv: "ocu_inv s" "bc_inv (m_batctrl s)" using assms(1) by (simp_all add: vehicle_inv_def)
  consider (q) "quiet ev" | (c3) f where "ev = FrameCan3 f" | (t) "ev = Tick" | (o) "ev = Offline"
    using assms(3) by (cases ev) auto
  then show ?thesis
  proof cases
    case q
    then have v: "ocu_view s' = ocu_view s" and "ev \<noteq> Tick"
      using quiet_step [OF q inv(2) assms(2), of drv vpin now] assms(4) by auto
    then show ?thesis using assms(5) ocu_view_fields(3,5) [OF v] by simp
  next
    case c3
    have "ocu_view s' = ocu_view (can3_head now f s)"
      using ensuresD [OF IncomingFrameCan3_rel [of f s drv now]] assms(2,4) inv(2) c3
      by (simp add: decode_rel_def)
    from ocu_view_fields(3,5) [OF this] show ?thesis using assms(5) c3 by simp
  next
    case t
    have "ocu_view s' = ocu_view (tick_head now s)"
      using ensuresD [OF vehicle_Ticker1_rel [OF inv(2)], of drv now s'] assms(4) t by (simp add: vtick_rel_def)
    from ocu_view_fields(3,5) [OF this] show ?thesis
      using assms(5) t tick_counts_active [OF inv(1)] by simp
  next
    case o
    then show ?thesis using assms(4,5) by (auto simp: offline_def)
  qed
qed

lemma session_run:
  assumes "vehicle_inv s" "\<forall>e \<in> set es. ev_ok (snd e) \<and> snd e \<noteq> Wakeup"
    "vehicle_run drv vpin s es = Some s'" "m_ocu_active s'"
  shows "m_ocu_active s \<and>
    unat (m_ocu_session_secs s') = unat (m_ocu_session_secs s) + length (filter (\<lambda>e. snd e = Tick) es)"
  using assms
proof (induction es arbitrary: s)
  case Nil
  then show ?case by simp
next
  case (Cons e es)
  obtain s1 where s1: "vehicle_step drv vpin (fst e) (snd e) s = Some s1" "vehicle_run drv vpin s1 es = Some s'"
    using Cons.prems(3) by (auto simp: bind_eq_Some_conv)
  have i1: "vehicle_inv s1"
    using ensuresD [OF vehicle_step_inv s1(1)] Cons.prems(1,2) by simp
  show ?case
    using Cons.IH [OF i1 _ s1(2) Cons.prems(4)] session_step [OF Cons.prems(1) _ _ s1(1)] Cons.prems(2) by simp
qed

text \<open>What one event sends.\<close>

definition sends :: "u32 \<Rightarrow> egolf \<Rightarrow> (u32 \<times> can_out) list \<Rightarrow> u8 \<Rightarrow> bool" where
  "sends now s new oem \<longleftrightarrow>
     (new \<noteq> [] \<longrightarrow> m_ocu_active s) \<and>
     (heartbeats new \<noteq> [] \<longrightarrow> heartbeats new = [now] \<and> VWEGOLF_BUS_TIMEOUT_SECS \<le> oem)"

lemma heartbeat_sends:
  "\<exists>new. can3_tx (SendOcuHeartbeat now s) = can3_tx s @ new \<and>
     (heartbeats new \<noteq> [] \<longrightarrow> heartbeats new = [now] \<and> VWEGOLF_BUS_TIMEOUT_SECS \<le> m_oem_ocu_idle_ticks s)"
  using SendOcuHeartbeat_cases [of now s] by (auto simp: sent_def)

lemma can3_head_sends:
  "\<exists>new. can3_tx (can3_head now f s) = can3_tx s @ new \<and> sends now s new (m_oem_ocu_idle_ticks s)"
  using heartbeat_sends [of now "s\<lparr>m_bus_idle_ticks := 0\<rparr>"]
  by (auto simp: can3_head_def sends_def Let_def)

lemma tick_head_sends:
  assumes "ocu_inv s"
  shows "\<exists>new. can3_tx (tick_head now s) = can3_tx s @ new \<and> sends now s new (m_oem_ocu_idle_ticks (tick_head now s))"
proof (cases "m_ocu_active (tick_counts s) \<and> m_bus_idle_ticks (tick_counts s) < VWEGOLF_BUS_TIMEOUT_SECS")
  case True
  then have on: "m_ocu_active s" using tick_counts_active [OF assms] by blast
  obtain new where "can3_tx (SendOcuHeartbeat now (SendNmAlive now (tick_counts s))) = can3_tx (SendNmAlive now (tick_counts s)) @ new"
    "heartbeats new \<noteq> [] \<longrightarrow> heartbeats new = [now] \<and> VWEGOLF_BUS_TIMEOUT_SECS \<le> m_oem_ocu_idle_ticks (tick_counts s)"
    using heartbeat_sends [of now "SendNmAlive now (tick_counts s)"] by auto
  then show ?thesis
    using True on by (simp add: tick_head_def Let_def sends_def SendNmAlive_def)
next
  case False
  then show ?thesis by (auto simp: tick_head_def Let_def sends_def)
qed

lemma step_sends:
  assumes "vehicle_inv s" "ev_ok ev" "vehicle_step drv vpin now ev s = Some s'"
  shows "\<exists>new. can3_tx s' = can3_tx s @ new \<and>
    (if ev = Wakeup then heartbeats new = [] \<and> (new \<noteq> [] \<longrightarrow> VWEGOLF_BUS_TIMEOUT_SECS \<le> m_bus_idle_ticks s)
     else sends now s new (if ev = Tick then m_oem_ocu_idle_ticks s' else m_oem_ocu_idle_ticks s))"
proof -
  have inv: "ocu_inv s" "bc_inv (m_batctrl s)" using assms(1) by (simp_all add: vehicle_inv_def)
  consider (q) "quiet ev" | (c3) f where "ev = FrameCan3 f" | (t) "ev = Tick" | (w) "ev = Wakeup" | (o) "ev = Offline"
    by (cases ev) auto
  then show ?thesis
  proof cases
    case q
    then have v: "ocu_view s' = ocu_view s" and "ev \<noteq> Wakeup"
      using quiet_step [OF q inv(2) assms(2), of drv vpin now] assms(3) by auto
    then show ?thesis using ocu_view_fields(7) [OF v] by (simp add: sends_def)
  next
    case c3
    have "ocu_view s' = ocu_view (can3_head now f s)"
      using ensuresD [OF IncomingFrameCan3_rel [of f s drv now]] assms(2,3) inv(2) c3 by (simp add: decode_rel_def)
    from ocu_view_fields(7) [OF this] show ?thesis using c3 can3_head_sends [of now f s] by simp
  next
    case t
    have "ocu_view s' = ocu_view (tick_head now s)"
      using ensuresD [OF vehicle_Ticker1_rel [OF inv(2)], of drv now s'] assms(3) t by (simp add: vtick_rel_def)
    from ocu_view_fields(2,7) [OF this] show ?thesis using t tick_head_sends [OF inv(1), of now] by simp
  next
    case w
    then show ?thesis
      using assms(3) CommandWakeup_cases [of now s] by (auto simp: WakeKcanBus_def)
  next
    case o
    then show ?thesis using assms(3) by (auto simp: offline_def sends_def)
  qed
qed

lemma silent_run:
  assumes "vehicle_inv s" "\<forall>e \<in> set es. ev_ok (snd e) \<and> snd e \<noteq> Wakeup"
    "vehicle_run drv vpin s es = Some s'" "\<not> m_ocu_active s"
  shows "can3_tx s' = can3_tx s"
  using assms
proof (induction es arbitrary: s)
  case Nil
  then show ?case by simp
next
  case (Cons e es)
  obtain s1 where s1: "vehicle_step drv vpin (fst e) (snd e) s = Some s1" "vehicle_run drv vpin s1 es = Some s'"
    using Cons.prems(3) by (auto simp: bind_eq_Some_conv)
  have i1: "vehicle_inv s1" "\<not> m_ocu_active s1"
    using ensuresD [OF vehicle_step_inv s1(1)] session_step [OF Cons.prems(1) _ _ s1(1)] Cons.prems(1,2,4) by auto
  have "can3_tx s1 = can3_tx s"
    using step_sends [OF Cons.prems(1) _ s1(1)] Cons.prems(2,4) by (auto simp: sends_def)
  then show ?case using Cons.IH [OF i1(1) _ s1(2) i1(2)] Cons.prems(2) by simp
qed

lemma vehicle_run_append:
  "vehicle_run drv vpin s (es @ fs) = vehicle_run drv vpin s es \<bind> (\<lambda>s1. vehicle_run drv vpin s1 fs)"
  by (induction es arbitrary: s) simp_all

text \<open>C40. One event in any reachable state of the vehicle module: it returns without leaving a
  buffer, the awake metric is the ignition and the drivable metric is ignition and READY
  together, the comfort bus has never been silent longer than the car's own OCU, an active
  session is shorter than thirty seconds, and the acknowledgement grace counter still has its
  initial value.\<close>

theorem vehicle_consistent:
  assumes "vehicle_reach drv vpin s" "ev_ok ev"
  shows "\<exists>s'. vehicle_step drv vpin now ev s = Some s' \<and>
    ms_v_env_awake (metrics s') = m_kl15_on s' \<and>
    ms_v_env_on (metrics s') = (m_kl15_on s' \<and> m_drivetrain_ready s') \<and>
    m_bus_idle_ticks s' \<le> m_oem_ocu_idle_ticks s' \<and>
    (m_ocu_active s' \<longrightarrow> m_ocu_session_secs s' < VWEGOLF_OCU_SESSION_CAP_SECS) \<and>
    m_ocu_grace_secs s' = 255 \<and> length (m_vin_buf s') = 18"
  using vehicle_step_inv [OF vehicle_reach_inv [OF assms(1)] assms(2), of drv vpin now]
  by (auto simp: ensures_def vehicle_inv_def ignition_ok_def ocu_inv_def VWEGOLF_OCU_SESSION_CAP_SECS_def)



definition awake_state :: egolf where
  "awake_state = snd (CommandWakeup 100 (egolf_init (bc_init fresh_set)))"

definition ping :: can_frame where
  "ping = \<lparr>MsgID = 0x3C0, DLC = 8, u8s = [0, 0, 3, 0, 0, 0, 0, 0]\<rparr>"

lemma awake_state_reach: "vehicle_reach ok_driver None awake_state"
  unfolding awake_state_def
  by (rule vehicle_reach.step [OF vehicle_reach.init [OF fresh_set_inv], of Wakeup _ _ 100]) simp_all

lemma vehicle_consistent_witness:
  "\<exists>s'. vehicle_step ok_driver None 200 (FrameCan3 ping) awake_state = Some s' \<and>
     ms_v_env_awake (metrics s') = m_kl15_on s' \<and> m_bus_idle_ticks s' \<le> m_oem_ocu_idle_ticks s'"
  using vehicle_consistent [OF awake_state_reach, of "FrameCan3 ping" 200] by (auto simp: ping_def)

lemma ping_step: "map_option can3_tx (vehicle_step ok_driver None 200 (FrameCan3 ping) awake_state)
    = Some (can3_tx awake_state @ [(200, WriteStandard 0x5A7 [0, 0, 0, 0, 0, 0, 0, 0])])"
  by code_simp



subsection \<open>The vehicle identification number\<close>

text \<open>The frames that carry the parts of \<open>v\<close>; a frame with another index is ignored by the code.\<close>

definition vin_frame :: "bytes \<Rightarrow> can_frame \<Rightarrow> bool" where
  "vin_frame v f \<longleftrightarrow>
     (let d = u8s f
      in (d ! 0 = 0 \<longrightarrow> [d ! 5, d ! 6, d ! 7] = take 3 v) \<and>
         (d ! 0 = 1 \<longrightarrow> take 7 (drop 1 d) = take 7 (drop 3 v)) \<and>
         (d ! 0 = 2 \<longrightarrow> take 7 (drop 1 d) = take 7 (drop 10 v)))"

fun vin_part_of :: "ev \<Rightarrow> u8 option" where
  "vin_part_of (FrameCan2 f) = (if MsgID f = 0x6B4 then Some (u8s f ! 0) else None)"
| "vin_part_of _ = None"

fun vin_ev_ok :: "bytes \<Rightarrow> ev \<Rightarrow> bool" where
  "vin_ev_ok v (FrameCan2 f) \<longleftrightarrow> (MsgID f = 0x6B4 \<longrightarrow> vin_frame v f)"
| "vin_ev_ok v _ \<longleftrightarrow> True"

definition vin_state :: "bytes \<Rightarrow> (u8 \<Rightarrow> bool) \<Rightarrow> u8 \<times> bytes \<times> bytes \<Rightarrow> bool" where
  "vin_state v seen w \<longleftrightarrow>
     (case w of (parts, buf, vin) \<Rightarrow>
        parts = (if seen 0 then 1 else 0) OR (if seen 1 then 2 else 0) OR (if seen 2 then 4 else 0) \<and>
        length buf = 18 \<and>
        (seen 0 \<longrightarrow> take 3 buf = take 3 v) \<and>
        (seen 1 \<longrightarrow> take 7 (drop 3 buf) = take 7 (drop 3 v)) \<and>
        (seen 2 \<longrightarrow> take 7 (drop 10 buf) = take 7 (drop 10 v)) \<and>
        vin = (if seen 0 \<and> seen 1 \<and> seen 2 then v else []))"

definition see :: "(u8 \<Rightarrow> bool) \<Rightarrow> u8 option \<Rightarrow> u8 \<Rightarrow> bool" where
  "see seen p i \<longleftrightarrow> seen i \<or> p = Some i"

lemma list_update_3: "length buf = 18 \<Longrightarrow> buf[0 := a, 1 := b, 2 := c] = [a, b, c] @ drop 3 buf"
  by (simp add: list_eq_iff_nth_eq nth_append nth_list_update)

lemma vin_collect:
  assumes "length v = 17" "0 \<notin> set v" "length buf = 18"
    "take 3 buf = take 3 v" "take 7 (drop 3 buf) = take 7 (drop 3 v)" "take 7 (drop 10 buf) = take 7 (drop 10 v)"
  shows "c_string (buf[17 := 0]) = v"
proof -
  have "take 17 buf = take 3 buf @ take 7 (drop 3 buf) @ take 7 (drop 10 buf)"
    using take_add [of 3 14 buf] take_add [of 7 7 "drop 3 buf"] by simp
  also have "\<dots> = take 17 v"
    using assms(4-6) take_add [of 3 14 v] take_add [of 7 7 "drop 3 v"] by simp
  finally have t: "take 17 buf = v" using assms(1) by simp
  have "buf[17 := 0] = take 17 buf @ [0]"
    using assms(3) by (simp add: upd_conv_take_nth_drop)
  moreover have "takeWhile (\<lambda>c. c \<noteq> 0) (v @ [0]) = v"
    using assms(2) by (subst takeWhile_append2) auto
  ultimately show ?thesis by (simp add: c_string_def t)
qed

lemma vin_parts_full:
  "((if a then 1 else 0) OR (if b then 2 else 0) OR (if c then 4 else (0 :: u8)) = 7) \<longleftrightarrow> a \<and> b \<and> c"
  by (cases a; cases b; cases c) simp_all

lemma vin_part_state:
  assumes "vin_state v seen (vin_view s)" "vin_frame v f" "length (u8s f) = 8" "length v = 17"
    "s' = vin_part (u8s f) s"
  shows "vin_state v (see seen (Some (u8s f ! 0))) (m_vin_parts_received s', m_vin_buf s',
     if see seen (Some (u8s f ! 0)) 0 \<and> see seen (Some (u8s f ! 0)) 1 \<and> see seen (Some (u8s f ! 0)) 2 then v else [])"
proof -
  let ?i = "u8s f ! 0"
  have st: "m_vin_parts_received s = (if seen 0 then 1 else 0) OR (if seen 1 then 2 else 0) OR (if seen 2 then 4 else 0)"
    "length (m_vin_buf s) = 18" "seen 0 \<Longrightarrow> take 3 (m_vin_buf s) = take 3 v"
    "seen 1 \<Longrightarrow> take 7 (drop 3 (m_vin_buf s)) = take 7 (drop 3 v)"
    "seen 2 \<Longrightarrow> take 7 (drop 10 (m_vin_buf s)) = take 7 (drop 10 v)"
    using assms(1) by (simp_all add: vin_state_def vin_view_def)
  consider "?i = 0" | "?i = 1" | "?i = 2" | "?i \<noteq> 0" "?i \<noteq> 1" "?i \<noteq> 2" by blast
  then show ?thesis
  proof cases
    case 1
    then have s': "s' = s\<lparr>m_vin_buf := take 3 v @ drop 3 (m_vin_buf s), m_vin_parts_received := m_vin_parts_received s OR 1\<rparr>"
      using assms(2,5) list_update_3 [OF st(2)] by (simp add: vin_part_def vin_frame_def Let_def)
    show ?thesis
      using st assms(4) 1 unfolding s' vin_state_def
      by (cases "seen 0"; cases "seen 1"; cases "seen 2") (simp_all add: see_def)
  next
    case 2
    then have s': "s' = s\<lparr>m_vin_buf := take 3 (m_vin_buf s) @ take 7 (drop 3 v) @ drop 10 (m_vin_buf s),
        m_vin_parts_received := m_vin_parts_received s OR 2\<rparr>"
      using assms(2,5) by (simp add: vin_part_def vin_frame_def Let_def)
    show ?thesis
      using st assms(4) 2 unfolding s' vin_state_def
      by (cases "seen 0"; cases "seen 1"; cases "seen 2") (simp_all add: see_def)
  next
    case 3
    then have s': "s' = s\<lparr>m_vin_buf := take 10 (m_vin_buf s) @ take 7 (drop 10 v) @ drop 17 (m_vin_buf s),
        m_vin_parts_received := m_vin_parts_received s OR 4\<rparr>"
      using assms(2,5) by (simp add: vin_part_def vin_frame_def Let_def)
    show ?thesis
      using st assms(4) 3 unfolding s' vin_state_def
      by (cases "seen 0"; cases "seen 1"; cases "seen 2") (simp_all add: see_def drop_take)
  next
    case 4
    then have "s' = s" using assms(5) by (simp add: vin_part_def Let_def)
    then show ?thesis using st 4 unfolding vin_state_def by (simp add: see_def)
  qed
qed

lemma frame_6B4_state:
  assumes "vin_state v seen (vin_view s)" "vin_frame v f" "length (u8s f) = 8" "length v = 17" "0 \<notin> set v"
  shows "vin_state v (see seen (Some (u8s f ! 0))) (vin_view (frame_6B4 (u8s f) s))"
proof (cases "m_vin_parts_received s = 7")
  case True
  then have all: "seen 0" "seen 1" "seen 2"
    using assms(1) vin_parts_full [of "seen 0" "seen 1" "seen 2"] by (simp_all add: vin_state_def vin_view_def)
  have "vin_state v seen (vin_view s) = vin_state v (see seen p) (vin_view s)" for p
    using all by (simp add: vin_state_def see_def vin_view_def)
  then show ?thesis using assms(1) True by (simp add: frame_6B4_def)
next
  case False
  define s1 where "s1 = vin_part (u8s f) s"
  define seen' where "seen' = see seen (Some (u8s f ! 0))"
  have st: "vin_state v seen' (m_vin_parts_received s1, m_vin_buf s1, if seen' 0 \<and> seen' 1 \<and> seen' 2 then v else [])"
    using vin_part_state [OF assms(1-4), of s1] unfolding s1_def seen'_def by simp
  have full: "m_vin_parts_received s1 = 7 \<longleftrightarrow> seen' 0 \<and> seen' 1 \<and> seen' 2"
    using st vin_parts_full by (simp add: vin_state_def)
  show ?thesis
  proof (cases "m_vin_parts_received s1 = 7")
    case True
    have "c_string ((m_vin_buf s1)[17 := 0]) = v"
      using st full True by (intro vin_collect [OF assms(4,5)]) (simp_all add: vin_state_def)
    then show ?thesis
      using st full True False unfolding seen'_def [symmetric]
      by (simp add: frame_6B4_def s1_def [symmetric] Let_def vin_state_def vin_view_def
          take_update_cancel drop_update_swap)
  next
    case no: False
    have "\<not> (seen 0 \<and> seen 1 \<and> seen 2)" "ms_v_vin (metrics s1) = ms_v_vin (metrics s)"
      using assms(1) False vin_parts_full by (auto simp: vin_state_def vin_view_def s1_def vin_part_def Let_def)
    then have "ms_v_vin (metrics s1) = []"
      using assms(1) by (auto simp: vin_state_def vin_view_def)
    then show ?thesis
      using st full no False unfolding seen'_def [symmetric]
      by (auto simp: frame_6B4_def s1_def [symmetric] Let_def vin_state_def vin_view_def)
  qed
qed

lemma vin_step:
  assumes "vehicle_inv s" "ev_ok ev" "vin_ev_ok v ev" "vin_state v seen (vin_view s)"
    "length v = 17" "0 \<notin> set v" "vehicle_step drv vpin now ev s = Some s'"
  shows "vin_state v (see seen (vin_part_of ev)) (vin_view s')"
proof -
  have inv: "bc_inv (m_batctrl s)" using assms(1) by (simp add: vehicle_inv_def)
  have none: "see seen None = seen" by (simp add: see_def fun_eq_iff)
  consider (q) "quiet ev" "\<nexists>f. ev = FrameCan2 f" | (c2) f where "ev = FrameCan2 f" | (c3) f where "ev = FrameCan3 f"
    | (t) "ev = Tick" | (w) "ev = Wakeup" | (o) "ev = Offline"
    by (cases ev) auto
  then show ?thesis
  proof cases
    case q
    then have "vin_view s' = vin_view s" "vin_part_of ev = None"
      using quiet_step [OF q(1) inv assms(2), of drv vpin now] assms(7) by (cases ev; auto)+
    then show ?thesis using assms(4) none by simp
  next
    case c2
    then show ?thesis
      using assms frame_6B4_state [OF assms(4) _ _ assms(5,6), of f] none
      by (auto simp: IncomingFrameCan2_def)
  next
    case c3
    have "vin_view s' = vin_view s"
      using ensuresD [OF IncomingFrameCan3_rel [of f s drv now]] assms(2,7) inv c3 by (simp add: decode_rel_def)
    then show ?thesis using assms(4) none c3 by simp
  next
    case t
    have "vin_view s' = vin_view s"
      using ensuresD [OF vehicle_Ticker1_rel [OF inv], of drv now s'] assms(7) t by (simp add: vtick_rel_def)
    then show ?thesis using assms(4) none t by simp
  next
    case w
    then show ?thesis using assms(4,7) none CommandWakeup_cases [of now s] by auto
  next
    case o
    then show ?thesis using assms(4,7) none by (auto simp: offline_def vin_view_def)
  qed
qed

lemma vin_run:
  assumes "vehicle_inv s" "vin_state v seen (vin_view s)" "length v = 17" "0 \<notin> set v"
    "\<forall>e \<in> set es. ev_ok (snd e) \<and> vin_ev_ok v (snd e)" "vehicle_run drv vpin s es = Some s'"
  shows "vin_state v (\<lambda>i. seen i \<or> (\<exists>e \<in> set es. vin_part_of (snd e) = Some i)) (vin_view s')"
  using assms
proof (induction es arbitrary: s seen)
  case Nil
  then show ?case by simp
next
  case (Cons e es)
  obtain s1 where s1: "vehicle_step drv vpin (fst e) (snd e) s = Some s1" "vehicle_run drv vpin s1 es = Some s'"
    using Cons.prems(6) by (auto simp: bind_eq_Some_conv)
  have "vehicle_inv s1" "vin_state v (see seen (vin_part_of (snd e))) (vin_view s1)"
    using ensuresD [OF vehicle_step_inv s1(1)] vin_step [OF Cons.prems(1) _ _ Cons.prems(2-4) s1(1)] Cons.prems(1,5)
    by simp_all
  from Cons.IH [OF this Cons.prems(3,4) _ s1(2)] show ?case
    using Cons.prems(5) by (simp add: see_def disj_ac)
qed

text \<open>The identification number \<open>v\<close> arrives in three parts, in any order, repeated, and
  between any other events: the metric is empty until the last missing part has been received
  and is \<open>v\<close> from then on.\<close>

theorem vin_assembled:
  assumes "aset_inv 224 asms" "length v = 17" "0 \<notin> set v"
    "\<forall>e \<in> set es. ev_ok (snd e) \<and> vin_ev_ok v (snd e)"
  shows "\<exists>s. vehicle_run drv vpin (egolf_init (bc_init asms)) es = Some s \<and>
    ms_v_vin (metrics s) = (if \<forall>i \<in> {0, 1, 2}. \<exists>e \<in> set es. vin_part_of (snd e) = Some i then v else [])"
proof -
  note inv = vehicle_init_inv [OF assms(1)]
  obtain s where s: "vehicle_run drv vpin (egolf_init (bc_init asms)) es = Some s"
    using vehicle_run_total [OF inv, of es drv vpin] assms(4) unfolding ensures_def by auto
  have "vin_state v (\<lambda>_. False) (vin_view (egolf_init (bc_init asms)))"
    by (simp add: vin_state_def vin_view_def egolf_init_def metrics_init_def)
  from vin_run [OF inv this assms(2-4) s] show ?thesis
    using s by (simp add: vin_state_def vin_view_def)
qed

definition vin_sample :: bytes where
  "vin_sample = map (\<lambda>i. word_of_nat (65 + i)) [0..<17]"

definition vin_sample_frame :: "nat \<Rightarrow> u32 \<times> ev" where
  "vin_sample_frame i =
     (0, FrameCan2 \<lparr>MsgID = 0x6B4, DLC = 8,
        u8s = (if i = 0 then [0, 0, 0, 0, 0] @ take 3 vin_sample
               else if i = 1 then 1 # take 7 (drop 3 vin_sample)
               else 2 # take 7 (drop 10 vin_sample))\<rparr>)"

lemma vin_sample_frames:
  "\<forall>e \<in> set (map vin_sample_frame [2, 0, 2, 1]). ev_ok (snd e) \<and> vin_ev_ok vin_sample (snd e)"
  by code_simp

lemma vin_assembled_witness:
  "\<exists>s. vehicle_run ok_driver None (egolf_init (bc_init fresh_set)) (map vin_sample_frame [2, 0, 2, 1]) = Some s \<and>
     ms_v_vin (metrics s) = vin_sample"
proof -
  have "length vin_sample = 17" "0 \<notin> set vin_sample" by code_simp+
  moreover have "\<forall>i \<in> {0, 1, 2 :: u8}. \<exists>e \<in> set (map vin_sample_frame [2, 0, 2, 1]). vin_part_of (snd e) = Some i"
    by code_simp
  ultimately show ?thesis
    using vin_assembled [OF fresh_set_inv, of vin_sample "map vin_sample_frame [2, 0, 2, 1]" ok_driver None]
      vin_sample_frames by simp
qed

subsection \<open>Requests and the heartbeat\<close>

text \<open>What a heartbeat that is due carries: the mirror bit, and of the five requests in the
  sixth data byte only one, in the order panic, indicators, unlock, lock, horn.  It clears every
  request, so one that was pending together with a stronger one is never sent.\<close>

theorem heartbeat_payload:
  assumes "VWEGOLF_BUS_TIMEOUT_SECS \<le> m_oem_ocu_idle_ticks s"
    "180 \<le> (now - m_last_heartbeat_tick s) * portTICK_PERIOD_MS"
  shows "can3_tx (SendOcuHeartbeat now s) = can3_tx s @
      [(now, WriteStandard 0x5A7
         [0, 0, 0, 0, 0, if m_mirror_fold_in_requested s then 0x80 else 0,
          if m_panic_requested s then 0x10
          else if m_indicators_requested s then 0x08
          else if m_unlock_requested s then 0x04
          else if m_lock_requested s then 0x02
          else if m_horn_requested s then 0x01 else 0, 0])] \<and>
    \<not> m_mirror_fold_in_requested (SendOcuHeartbeat now s) \<and> \<not> m_panic_requested (SendOcuHeartbeat now s) \<and>
    \<not> m_indicators_requested (SendOcuHeartbeat now s) \<and> \<not> m_unlock_requested (SendOcuHeartbeat now s) \<and>
    \<not> m_lock_requested (SendOcuHeartbeat now s) \<and> \<not> m_horn_requested (SendOcuHeartbeat now s)"
proof -
  have r: "take_request p clear i v (data, t) = (if p t then (data[i := v], clear t) else (data, t))" for p clear i v data t
    by (simp add: take_request_def)
  have data: "fst (take_requests (replicate 8 0, t)) =
      [0, 0, 0, 0, 0, if m_mirror_fold_in_requested t then 0x80 else 0,
          if m_panic_requested t then 0x10
          else if m_indicators_requested t then 0x08
          else if m_unlock_requested t then 0x04
          else if m_lock_requested t then 0x02
          else if m_horn_requested t then 0x01 else 0, 0]" for t
    unfolding take_requests_def Let_def r
    by (cases "m_mirror_fold_in_requested t"; cases "m_horn_requested t"; cases "m_lock_requested t";
        cases "m_unlock_requested t"; cases "m_indicators_requested t"; cases "m_panic_requested t")
      (simp_all add: r numeral_eq_Suc)
  let ?t = "s\<lparr>m_last_heartbeat_tick := now\<rparr>"
  obtain d s' where ds: "take_requests (replicate 8 0, ?t) = (d, s')" by (rule prod.exhaust)
  then show ?thesis
    using assms data [of ?t] take_requests_snd [of "(replicate 8 0, ?t)"]
    by (simp add: SendOcuHeartbeat_def not_less [symmetric])
qed

lemma heartbeat_payload_witness:
  "(let s = snd (CommandLock (Some ''1'') ''1'' (snd (CommandHorn awake_state)))
    in can3_tx (SendOcuHeartbeat 200 s) = can3_tx s @ [(200, WriteStandard 0x5A7 [0, 0, 0, 0, 0, 0, 0x02, 0])] \<and>
       \<not> m_horn_requested (SendOcuHeartbeat 200 s))"
proof -
  let ?s = "snd (CommandLock (Some ''1'') ''1'' (snd (CommandHorn awake_state)))"
  have "VWEGOLF_BUS_TIMEOUT_SECS \<le> m_oem_ocu_idle_ticks ?s" "180 \<le> (200 - m_last_heartbeat_tick ?s) * portTICK_PERIOD_MS"
    "\<not> m_mirror_fold_in_requested ?s \<and> \<not> m_panic_requested ?s \<and> \<not> m_indicators_requested ?s \<and>
     \<not> m_unlock_requested ?s \<and> m_lock_requested ?s"
    by code_simp+
  then show ?thesis using heartbeat_payload [of ?s 200] by (simp add: Let_def)
qed

end
