(* ===== verification/EGolfSignals.thy ===== *)
theory EGolfSignals
  imports EGolf
begin

unbundle bit_operations_syntax

section \<open>The decoders against the signal database\<close>

text \<open>
  \<open>vehicle_vwegolf/docs/vwegolf.dbc\<close> describes each message by signals \<open>start|length@1+\<close> with a factor
  and an offset.  \<open>signal start len d\<close> is that reading of a frame: the bytes as one little-endian
  number, its bits from \<open>start\<close> on.  \<open>dbc_metrics\<close> is the reference decoder written from the
  database, and the theorems show that the decoders of \<open>vehicle_vwegolf.cpp\<close>, which assemble
  their values by masks and shifts, agree with it.
\<close>

definition payload :: "bytes \<Rightarrow> nat" where
  "payload d = foldr (\<lambda>b n. unat b + 256 * n) d 0"

definition signal :: "nat \<Rightarrow> nat \<Rightarrow> bytes \<Rightarrow> nat" where
  "signal start len d = payload d div 2 ^ start mod 2 ^ len"

lemma payload_Cons: "payload (b # d) = unat b + 256 * payload d"
  by (simp add: payload_def)

lemma bit_payload: "bit (payload d) n \<longleftrightarrow> n < 8 * length d \<and> bit (d ! (n div 8)) (n mod 8)"
proof (induction d arbitrary: n)
  case Nil
  then show ?case by (simp add: payload_def)
next
  case (Cons b d)
  have "payload (b # d) = unat b OR push_bit 8 (payload d)"
  proof -
    have "unat b OR push_bit 8 (payload d) = unat b + push_bit 8 (payload d)"
    proof (rule disjunctive_add [symmetric])
      fix k show "\<not> bit (unat b) k \<or> \<not> bit (push_bit 8 (payload d)) k"
        by (auto simp: bit_unsigned_iff bit_push_bit_iff dest: bit_imp_le_length)
    qed
    then show ?thesis by (simp add: payload_Cons push_bit_eq_mult mult.commute)
  qed
  moreover have "n div 8 = Suc ((n - 8) div 8)" "n mod 8 = (n - 8) mod 8" if "8 \<le> n"
    using that by (simp_all add: le_div_geq le_mod_geq)
  moreover have "n div 8 = 0" "n mod 8 = n" if "n < 8" using that by simp_all
  ultimately show ?case
    using Cons.IH [of "n - 8"]
    by (cases "n < 8") (auto simp: bit_or_iff bit_unsigned_iff bit_push_bit_iff not_less dest: bit_imp_le_length)
qed

lemma signal_bits: "signal start len d = take_bit len (drop_bit start (payload d))"
  by (simp add: signal_def take_bit_eq_mod drop_bit_eq_div)

lemma unat_signal:
  assumes "\<And>n. n < LENGTH('a) \<Longrightarrow> bit w n \<longleftrightarrow> n < len \<and> bit (d ! ((start + n) div 8)) ((start + n) mod 8)"
    "len \<le> LENGTH('a)" "start + len \<le> 8 * length d"
  shows "unat (w :: 'a::len word) = signal start len d"
proof (rule bit_eqI)
  fix n
  show "bit (unat w) n = bit (signal start len d) n"
    using assms(1) [of n] assms(2,3)
    by (cases "n < LENGTH('a)")
      (auto simp: signal_bits bit_unsigned_iff bit_take_bit_iff bit_drop_bit_eq bit_payload dest: bit_imp_le_length)
qed

lemma bit_u8_high [simp]: "8 \<le> n \<Longrightarrow> \<not> bit (b :: u8) n"
  using bit_imp_le_length by fastforce

text \<open>The bits of a word, one by one.\<close>

lemma less_8_cases:
  "n < 8 \<Longrightarrow> P 0 \<Longrightarrow> P 1 \<Longrightarrow> P 2 \<Longrightarrow> P 3 \<Longrightarrow> P 4
   \<Longrightarrow> P 5 \<Longrightarrow> P 6 \<Longrightarrow> P 7 \<Longrightarrow> P (n :: nat)"
  by (simp add: numeral_eq_Suc less_Suc_eq) blast

lemma less_16_cases:
  "n < 16 \<Longrightarrow> P 0 \<Longrightarrow> P 1 \<Longrightarrow> P 2 \<Longrightarrow> P 3 \<Longrightarrow> P 4
   \<Longrightarrow> P 5 \<Longrightarrow> P 6 \<Longrightarrow> P 7 \<Longrightarrow> P 8
   \<Longrightarrow> P 9 \<Longrightarrow> P 10 \<Longrightarrow> P 11 \<Longrightarrow> P 12
   \<Longrightarrow> P 13 \<Longrightarrow> P 14 \<Longrightarrow> P 15 \<Longrightarrow> P (n :: nat)"
  by (simp add: numeral_eq_Suc less_Suc_eq) blast

lemma less_32_cases:
  "n < 32 \<Longrightarrow> P 0 \<Longrightarrow> P 1 \<Longrightarrow> P 2 \<Longrightarrow> P 3 \<Longrightarrow> P 4
   \<Longrightarrow> P 5 \<Longrightarrow> P 6 \<Longrightarrow> P 7 \<Longrightarrow> P 8
   \<Longrightarrow> P 9 \<Longrightarrow> P 10 \<Longrightarrow> P 11 \<Longrightarrow> P 12
   \<Longrightarrow> P 13 \<Longrightarrow> P 14 \<Longrightarrow> P 15 \<Longrightarrow> P 16
   \<Longrightarrow> P 17 \<Longrightarrow> P 18 \<Longrightarrow> P 19 \<Longrightarrow> P 20
   \<Longrightarrow> P 21 \<Longrightarrow> P 22 \<Longrightarrow> P 23 \<Longrightarrow> P 24
   \<Longrightarrow> P 25 \<Longrightarrow> P 26 \<Longrightarrow> P 27 \<Longrightarrow> P 28
   \<Longrightarrow> P 29 \<Longrightarrow> P 30 \<Longrightarrow> P 31 \<Longrightarrow> P (n :: nat)"
  by (simp add: numeral_eq_Suc less_Suc_eq) blast

text \<open>What each decoder assembles is the documented signal.\<close>

lemma raw_0FD: "length d = 8 \<Longrightarrow> unat (b16 d 4 OR push_bit 8 (b16 d 5)) = signal 32 16 d"
  by (rule unat_signal, simp, erule less_16_cases) (simp_all add: bit_simps)

lemma raw_131: "length d = 8 \<Longrightarrow> unat (d ! 3) = signal 24 8 d"
  by (rule unat_signal, simp, erule less_8_cases) (simp_all add: bit_simps)

lemma raw_191_current: "length d = 8 \<Longrightarrow> unat (drop_bit 4 (b16 d 1 AND 0xF0) OR push_bit 4 (b16 d 2)) = signal 12 12 d"
  by (rule unat_signal, simp, erule less_16_cases) (simp_all add: bit_simps)

lemma raw_191_voltage: "length d = 8 \<Longrightarrow> unat (b16 d 3 OR push_bit 8 (b16 d 4 AND 0xF)) = signal 24 12 d"
  by (rule unat_signal, simp, erule less_16_cases) (simp_all add: bit_simps)

lemma raw_2AF_recd: "length d = 8 \<Longrightarrow> unat (b16 d 4 OR push_bit 8 (b16 d 5 AND 0x7F)) = signal 32 15 d"
  by (rule unat_signal, simp, erule less_16_cases) (simp_all add: bit_simps)

lemma raw_2AF_used: "length d = 8 \<Longrightarrow> unat (b16 d 6 OR push_bit 8 (b16 d 7 AND 0x7F)) = signal 48 15 d"
  by (rule unat_signal, simp, erule less_16_cases) (simp_all add: bit_simps)

lemma raw_486_lat: "length d = 8 \<Longrightarrow> unat (b32 d 0 OR push_bit 8 (b32 d 1)
     OR push_bit 16 (b32 d 2) OR push_bit 24 (b32 d 3 AND 0x7)) = signal 0 27 d"
  by (rule unat_signal, simp, erule less_32_cases) (simp_all add: bit_simps)

lemma raw_486_lon: "length d = 8 \<Longrightarrow> unat (drop_bit 3 (b32 d 3 AND 0xF8) OR push_bit 5 (b32 d 4)
     OR push_bit 13 (b32 d 5) OR push_bit 21 (b32 d 6 AND 0x7F)) = signal 27 28 d"
  by (rule unat_signal, simp, erule less_32_cases) (simp_all add: bit_simps)

lemma raw_386: "length d = 8 \<Longrightarrow> unat (d ! 5) = signal 40 8 d"
  by (rule unat_signal, simp, erule less_8_cases) (simp_all add: bit_simps)

lemma raw_594_duration: "length d = 8 \<Longrightarrow> unat (drop_bit 4 (b16 d 1 AND 0xF0) OR push_bit 4 (b16 d 2 AND 0x1F)) = signal 12 9 d"
  by (rule unat_signal, simp, erule less_16_cases) (simp_all add: bit_simps)

lemma raw_594_timer: "length d = 8 \<Longrightarrow> unat (drop_bit 5 (d ! 2 AND 0x60)) = signal 21 2 d"
  by (rule unat_signal, simp, erule less_8_cases) (simp_all add: bit_simps)

lemma raw_594_port: "length d = 8 \<Longrightarrow> unat (drop_bit 2 (d ! 5 AND 0xC)) = signal 42 2 d"
  by (rule unat_signal, simp, erule less_8_cases) (simp_all add: bit_simps)

lemma raw_594_setpoint: "length d = 8 \<Longrightarrow> unat (d ! 7 AND 0x1F) = signal 56 5 d"
  by (rule unat_signal, simp, erule less_8_cases) (simp_all add: bit_simps)

lemma raw_59E: "length d = 8 \<Longrightarrow> unat (d ! 2) = signal 16 8 d"
  by (rule unat_signal, simp, erule less_8_cases) (simp_all add: bit_simps)

lemma raw_5CA_limit: "length d = 8 \<Longrightarrow> unat (d ! 2 AND 0x7F) = signal 16 7 d"
  by (rule unat_signal, simp, erule less_8_cases) (simp_all add: bit_simps)

lemma raw_5CA: "length d = 8 \<Longrightarrow> unat (drop_bit 4 (b16 d 1 AND 0xF0) OR push_bit 4 (b16 d 2 AND 0x7F)) = signal 12 11 d"
  by (rule unat_signal, simp, erule less_16_cases) (simp_all add: bit_simps)

lemma raw_5EA: "length d = 8 \<Longrightarrow> unat (drop_bit 2 (b16 d 6 AND 0xFC) OR push_bit 6 (b16 d 7 AND 0xF)) = signal 50 10 d"
  by (rule unat_signal, simp, erule less_16_cases) (simp_all add: bit_simps)

lemma raw_5F5_est: "length d = 8 \<Longrightarrow> unat (drop_bit 5 (b16 d 3 AND 0xE0) OR push_bit 3 (b16 d 4)) = signal 29 11 d"
  by (rule unat_signal, simp, erule less_16_cases) (simp_all add: bit_simps)

lemma raw_5F5_ideal: "length d = 8 \<Longrightarrow> unat (b16 d 0 OR push_bit 8 (b16 d 1 AND 0x7)) = signal 0 11 d"
  by (rule unat_signal, simp, erule less_16_cases) (simp_all add: bit_simps)

lemma raw_66E: "length d = 8 \<Longrightarrow> unat (d ! 4) = signal 32 8 d"
  by (rule unat_signal, simp, erule less_8_cases) (simp_all add: bit_simps)

lemma raw_6B7_odo: "length d = 8 \<Longrightarrow> unat ((b32 d 0 AND 0xFF) OR push_bit 8 (b32 d 1 AND 0xFF)
     OR push_bit 16 (b32 d 2 AND 0xF)) = signal 0 20 d"
  by (rule unat_signal, simp, erule less_32_cases) (simp_all add: bit_simps)

lemma raw_6B7_park: "length d = 8 \<Longrightarrow> unat (drop_bit 4 (b32 d 2 AND 0xF0) OR push_bit 4 (b32 d 3)
     OR push_bit 12 (b32 d 4 AND 0x1F)) = signal 20 17 d"
  by (rule unat_signal, simp, erule less_32_cases) (simp_all add: bit_simps)

lemma raw_6B7_temp: "length d = 8 \<Longrightarrow> unat (d ! 7 AND 0xFF) = signal 56 8 d"
  by (rule unat_signal, simp, erule less_8_cases) (simp_all add: bit_simps)

lemma raw_187_gear: "length d = 8 \<Longrightarrow> unat ((d ! 2) AND 0x0F) = signal 16 4 d"
  by (rule unat_signal, simp, erule less_8_cases) (simp_all add: bit_simps)

lemma raw_187_recup: "length d = 8 \<Longrightarrow> unat ((drop_bit 4 (d ! 1)) AND 0x7) = signal 12 3 d"
  by (rule unat_signal, simp, erule less_8_cases) (simp_all add: bit_simps)

lemma signal_flag:
  assumes "length d = 8" "start < 64"
  shows "signal start 1 d = 1 \<longleftrightarrow> bit (d ! (start div 8)) (start mod 8)"
proof -
  have "signal start 1 d = of_bool (bit (payload d) start)"
    by (simp add: signal_bits take_bit_Suc bit_iff_odd_drop_bit mod_2_eq_odd del: take_bit_Suc_0)
  then show ?thesis using assms by (simp add: bit_payload)
qed

lemma flag_bits:
  "((b :: u8) AND 0x1 \<noteq> 0) = bit b 0" "(b AND 0x2 \<noteq> 0) = bit b 1" "(b AND 0x20 \<noteq> 0) = bit b 5"
  "(drop_bit 0 (b AND 0x1) \<noteq> 0) = bit b 0" "(drop_bit 1 (b AND 0x2) \<noteq> 0) = bit b 1"
  "(drop_bit 2 (b AND 0x4) \<noteq> 0) = bit b 2" "(drop_bit 3 (b AND 0x8) \<noteq> 0) = bit b 3"
  "(drop_bit 4 (b AND 0x10) \<noteq> 0) = bit b 4" "(drop_bit 7 b AND 1 \<noteq> 0) = bit b 7"
  "(drop_bit 0 b AND 1 \<noteq> 0) = bit b 0"
proof -
  have one: "(x AND 1 \<noteq> 0) = bit x 0" for x :: u8
    by (simp add: and_one_eq bit_0 even_iff_mod_2_eq_zero)
  have shift: "(drop_bit n (x AND 2 ^ n) \<noteq> 0) = bit x n" if "n < 8" for x :: u8 and n
  proof -
    have "drop_bit n (x AND 2 ^ n) = drop_bit n x AND 1"
      using that by (simp add: drop_bit_and drop_bit_exp_eq)
    then show ?thesis using one [of "drop_bit n x"] by (simp add: bit_drop_bit_eq)
  qed
  show "(b AND 0x1 \<noteq> 0) = bit b 0" "(drop_bit 0 (b AND 0x1) \<noteq> 0) = bit b 0" "(drop_bit 0 b AND 1 \<noteq> 0) = bit b 0"
    using one [of b] by simp_all
  show "(b AND 0x2 \<noteq> 0) = bit b 1" "(b AND 0x20 \<noteq> 0) = bit b 5"
    using and_exp_eq_0_iff_not_bit [of b 1] and_exp_eq_0_iff_not_bit [of b 5] by simp_all
  show "(drop_bit 1 (b AND 0x2) \<noteq> 0) = bit b 1" "(drop_bit 2 (b AND 0x4) \<noteq> 0) = bit b 2"
    "(drop_bit 3 (b AND 0x8) \<noteq> 0) = bit b 3" "(drop_bit 4 (b AND 0x10) \<noteq> 0) = bit b 4"
    using shift [of 1 b] shift [of 2 b] shift [of 3 b] shift [of 4 b] by simp_all
  show "(drop_bit 7 b AND 1 \<noteq> 0) = bit b 7" using one [of "drop_bit 7 b"] by (simp add: bit_drop_bit_eq)
qed

subsection \<open>The documented decoding\<close>

text \<open>The messages as the database describes them: where a value is a multiple of a half or a
  quarter it is that number exactly, elsewhere it is the rounded product.  The first row of each
  message is the value that means "not ready".\<close>

definition dbc_degrees :: "nat \<Rightarrow> nat \<Rightarrow> nat \<Rightarrow> bytes \<Rightarrow> rat" where
  "dbc_degrees start len sign d =
     (let x = fl (fl (of_nat (signal start len d)) * fl (1 / 1000000)) in if signal sign 1 d = 1 then - x else x)"

definition dbc_metrics :: "u32 \<Rightarrow> bytes \<Rightarrow> metrics \<Rightarrow> metrics" where
  "dbc_metrics msg d m =
     (if msg = 0xFD then m\<lparr>ms_v_pos_speed := fl (of_nat (signal 32 16 d) * fl (1 / 100))\<rparr>
      else if msg = 0x131 then
        if signal 24 8 d = 254 then m else m\<lparr>ms_v_bat_soc := of_nat (signal 24 8 d) / 2\<rparr>
      else if msg = 0x191 then
        if signal 16 8 d = 255 then m
        else let amps = 2047 - of_nat (signal 12 12 d); volts = of_nat (signal 24 12 d) / 4
             in m\<lparr>ms_v_bat_current := amps, ms_v_bat_voltage := volts, ms_v_bat_power := fl (volts * amps / 1000)\<rparr>
      else if msg = 0x2AF then
        m\<lparr>ms_v_bat_energy_recd := fl (of_nat (signal 32 15 d) * 10 / 3600000),
          ms_v_bat_energy_used := fl (of_nat (signal 48 15 d) * 10 / 3600000)\<rparr>
      else if msg = 0x486 then
        let lat = dbc_degrees 0 27 55 d; lon = dbc_degrees 27 28 56 d; valid = (\<bar>lat\<bar> < 91 \<and> \<bar>lon\<bar> < 181)
        in if valid then m\<lparr>ms_v_pos_gpslock := True, ms_v_pos_latitude := lat, ms_v_pos_longitude := lon\<rparr>
           else m\<lparr>ms_v_pos_gpslock := False\<rparr>
      else if msg = 0x386 then
        (case map_of [(2, 1), (5, 2), (8, 3)] (signal 40 8 d) of None \<Rightarrow> m | Some k \<Rightarrow> m\<lparr>ms_v_env_drivemode := k\<rparr>)
      else if msg = 0x583 then
        m\<lparr>ms_v_env_locked := signal 17 1 d = 1, ms_v_door_fl := signal 24 1 d = 1, ms_v_door_fr := signal 25 1 d = 1,
          ms_v_door_rl := signal 26 1 d = 1, ms_v_door_rr := signal 27 1 d = 1, ms_v_door_trunk := signal 28 1 d = 1\<rparr>
      else if msg = 0x59E then
        if 254 \<le> signal 16 8 d then m else m\<lparr>ms_v_bat_temp := of_nat (signal 16 8 d) / 2 - 40\<rparr>
      else if msg = 0x5CA then
        if signal 16 7 d = 127 then m else m\<lparr>ms_v_bat_capacity := fl (of_nat (signal 12 11 d) * 50 / 1000)\<rparr>
      else if msg = 0x5F5 then
        m\<lparr>ms_v_bat_range_est := of_nat (signal 29 11 d), ms_v_bat_range_ideal := of_nat (signal 0 11 d)\<rparr>
      else if msg = 0x65A then m\<lparr>ms_v_door_hood := signal 32 1 d = 1\<rparr>
      else if msg = 0x66E then
        if signal 32 8 d = 254 then m else m\<lparr>ms_v_env_cabintemp := of_nat (signal 32 8 d) / 2 - 50\<rparr>
      else if msg = 0x6B7 then
        let m1 = m\<lparr>ms_v_pos_odometer := of_nat (signal 0 20 d), ms_v_env_temp := of_nat (signal 56 8 d) / 2 - 50\<rparr>
        in if signal 20 17 d = 131071 then m1 else m1\<lparr>ms_v_env_parktime := int (signal 20 17 d)\<rparr>
      else m)"

lemma signal_less: "signal start len d < 2 ^ len"
  by (simp add: signal_def)

lemma fl_small: "n < 16777216 \<Longrightarrow> fl (rat_of_nat n) = rat_of_nat n"
  using fl_nat [of n] by simp

lemma fl_half_nat:
  assumes "n < 1000000"
  shows "fl (rat_of_nat n / 2) = rat_of_nat n / 2" "fl (rat_of_nat n / 2 - 40) = rat_of_nat n / 2 - 40"
    "fl (rat_of_nat n / 2 - 50) = rat_of_nat n / 2 - 50"
proof -
  have e: "rat_of_nat n / 2 - 40 = rat_of_int (int n - 80) / 2" "rat_of_nat n / 2 - 50 = rat_of_int (int n - 100) / 2"
    by simp_all
  show "fl (rat_of_nat n / 2 - 40) = rat_of_nat n / 2 - 40" "fl (rat_of_nat n / 2 - 50) = rat_of_nat n / 2 - 50"
    unfolding e by (rule fl_half; use assms in simp)+
  show "fl (rat_of_nat n / 2) = rat_of_nat n / 2" using fl_half [of "int n"] assms by simp
qed

lemma sentinels:
  "(w = 0xFE) = (unat (w :: u8) = 254)" "(w = 0xFF) = (unat w = 255)" "(w \<ge> 0xFE) = (254 \<le> unat w)"
  "(w = 0x7F) = (unat w = 127)" "(w = 2) = (unat w = 2)" "(w = 5) = (unat w = 5)" "(w = 8) = (unat w = 8)"
  "(w = 1) = (unat w = 1)"
  "(v = 0x1FFFF) = (unat (v :: u32) = 131071)" "(u \<ge> 0x3FE) = (1022 \<le> unat (u :: u16))"
  by (simp_all add: word_le_nat_alt word_unat_eq_iff)

lemmas dbc_defs = decode_metrics_def dbc_metrics_def Let_def flt_def

lemma dbc_speed: "length d = 8 \<Longrightarrow> decode_metrics 0xFD d m = dbc_metrics 0xFD d m"
  using signal_less [of 32 16 d] fl_small [of "signal 32 16 d"]
  by (simp add: dbc_defs frame_0FD_def raw_0FD del: of_nat_unat)

lemma dbc_soc: "length d = 8 \<Longrightarrow> decode_metrics 0x131 d m = dbc_metrics 0x131 d m"
  using signal_less [of 24 8 d] raw_131 [of d] fl_small [of "signal 24 8 d"]
  by (simp add: dbc_defs frame_131_def sentinels fl_half_nat(1) del: of_nat_unat)

lemma dbc_power:
  assumes "length d = 8"
  shows "decode_metrics 0x191 d m = dbc_metrics 0x191 d m"
proof -
  define c v where "c = signal 12 12 d" and "v = signal 24 12 d"
  have lt: "c < 4096" "v < 4096" using signal_less [of 12 12 d] signal_less [of 24 12 d] by (simp_all add: c_def v_def)
  have amps: "fl (2047 - rat_of_nat c) = 2047 - rat_of_nat c"
    using fl_int [of "2047 - int c"] lt by simp
  have volts: "fl (rat_of_nat v * (1 / 4)) = rat_of_nat v / 4"
    using fl_quarter [of "int v"] lt by simp
  have power: "fl (rat_of_nat v / 4 * (2047 - rat_of_nat c)) = rat_of_nat v / 4 * (2047 - rat_of_nat c)"
  proof -
    have e: "rat_of_nat v / 4 * (2047 - rat_of_nat c) = rat_of_int (int v * (2047 - int c)) / 4" by simp
    have "\<bar>int v * (2047 - int c)\<bar> \<le> 4095 * 2048"
      unfolding abs_mult using lt by (intro mult_mono) auto
    then show ?thesis unfolding e by (intro fl_quarter) simp
  qed
  have flt: "fl (rat_of_nat c) = rat_of_nat c" "fl (rat_of_nat v) = rat_of_nat v"
    using lt by (simp_all add: fl_small)
  have "frame_191 d m = (if unat (d ! 2) = 255 then m
      else m\<lparr>ms_v_bat_current := 2047 - rat_of_nat c, ms_v_bat_voltage := rat_of_nat v / 4,
             ms_v_bat_power := fl (rat_of_nat v / 4 * (2047 - rat_of_nat c) / 1000)\<rparr>)"
    unfolding frame_191_def Let_def flt_def raw_191_current [OF assms] raw_191_voltage [OF assms]
      c_def [symmetric] v_def [symmetric] sentinels flt amps volts
    using power by (simp del: times_divide_eq_left)
  then show ?thesis
    using raw_59E [OF assms] by (simp add: decode_metrics_def dbc_metrics_def c_def v_def Let_def)
qed

lemma dbc_energy:
  assumes "length d = 8"
  shows "decode_metrics 0x2AF d m = dbc_metrics 0x2AF d m"
  using signal_less [of 32 15 d] signal_less [of 48 15 d]
    fl_small [of "signal 32 15 d * 10"] fl_small [of "signal 48 15 d * 10"]
  unfolding dbc_defs frame_2AF_def raw_2AF_recd [OF assms] raw_2AF_used [OF assms]
  by (simp add: fl_small)

lemma gps_degrees:
  assumes "length d = 8"
  shows "latitude_of d = dbc_degrees 0 27 55 d" "longitude_of d = dbc_degrees 27 28 56 d"
  using signal_flag [OF assms, of 55] signal_flag [OF assms, of 56]
  unfolding latitude_of_def longitude_of_def dbc_degrees_def raw_486_lat [OF assms] raw_486_lon [OF assms]
    flag_bits Let_def flt_def
  by (simp_all add: bit_drop_bit_eq)

lemma dbc_gps: "length d = 8 \<Longrightarrow> decode_metrics 0x486 d m = dbc_metrics 0x486 d m"
  unfolding decode_metrics_def dbc_metrics_def frame_486_def Let_def gps_degrees abs_less_iff
  by (simp add: conj_ac gps_degrees minus_less_iff)

lemma dbc_profile: "length d = 8 \<Longrightarrow> decode_metrics 0x386 d m = dbc_metrics 0x386 d m"
  using raw_386 [of d] by (simp add: dbc_defs frame_386_def sentinels)

lemma dbc_doors:
  assumes "length d = 8"
  shows "decode_metrics 0x583 d m = dbc_metrics 0x583 d m"
  using signal_flag [OF assms, of 17] signal_flag [OF assms, of 24] signal_flag [OF assms, of 25]
    signal_flag [OF assms, of 26] signal_flag [OF assms, of 27] signal_flag [OF assms, of 28]
  unfolding dbc_defs frame_583_def flag_bits by simp

lemma dbc_bat_temp:
  assumes "length d = 8"
  shows "decode_metrics 0x59E d m = dbc_metrics 0x59E d m"
  using signal_less [of 16 8 d] fl_small [of "signal 16 8 d"]
  unfolding dbc_defs frame_59E_def sentinels raw_59E [OF assms] by (simp add: fl_half_nat)

lemma dbc_capacity:
  assumes "length d = 8"
  shows "decode_metrics 0x5CA d m = dbc_metrics 0x5CA d m"
  using signal_less [of 12 11 d] fl_small [of "signal 12 11 d * 50"]
  unfolding dbc_defs frame_5CA_def sentinels raw_5CA_limit [OF assms] raw_5CA [OF assms]
  by (simp add: fl_small)

lemma dbc_range:
  assumes "length d = 8"
  shows "decode_metrics 0x5F5 d m = dbc_metrics 0x5F5 d m"
  using signal_less [of 29 11 d] signal_less [of 0 11 d]
  unfolding dbc_defs frame_5F5_def raw_5F5_est [OF assms] raw_5F5_ideal [OF assms]
  by (simp add: fl_small)

lemma dbc_hood: "length d = 8 \<Longrightarrow> decode_metrics 0x65A d m = dbc_metrics 0x65A d m"
  using signal_flag [of d 32] by (simp add: dbc_defs frame_65A_def flag_bits)

lemma dbc_cabin:
  assumes "length d = 8"
  shows "decode_metrics 0x66E d m = dbc_metrics 0x66E d m"
  using signal_less [of 32 8 d] fl_small [of "signal 32 8 d"]
  unfolding dbc_defs frame_66E_def sentinels raw_66E [OF assms] by (simp add: fl_half_nat)

lemma dbc_odometer:
  assumes "length d = 8"
  shows "decode_metrics 0x6B7 d m = dbc_metrics 0x6B7 d m"
  using signal_less [of 56 8 d] fl_small [of "signal 56 8 d"]
    signal_less [of 0 20 d] fl_small [of "signal 0 20 d"]
  unfolding dbc_defs frame_6B7_def sentinels raw_6B7_odo [OF assms] raw_6B7_park [OF assms] raw_6B7_temp [OF assms]
  by (simp add: fl_half_nat)

lemmas dbc_messages = dbc_speed dbc_soc dbc_power dbc_energy dbc_gps dbc_profile dbc_doors dbc_bat_temp
  dbc_capacity dbc_range dbc_hood dbc_cabin dbc_odometer


lemma frame_594_fields:
  assumes "length d = 8"
  shows "ms_v_charge_duration_full (metrics (frame_594 d s)) = ms_v_charge_duration_full (charge_timing d (metrics s))"
  "ms_v_charge_timermode (metrics (frame_594 d s)) = ms_v_charge_timermode (charge_timing d (metrics s))"
  "ms_v_charge_inprogress (m_batctrl (frame_594 d s)) = (d ! 3 AND 0x20 \<noteq> 0)"
  "ms_v_env_cabinsetpoint (m_batctrl (frame_594 d s)) = 5 * int (unat (d ! 7 AND 0x1F)) + 155"
  "ms_v_door_chargeport (metrics (frame_594 d s)) = (drop_bit 2 (d ! 5 AND 0xC) \<noteq> 0)"
  "notices (frame_594 d s) = notices s @
     (if (d ! 3 AND 0x20 \<noteq> 0) = ms_v_charge_inprogress (m_batctrl s) then []
      else [if d ! 3 AND 0x20 \<noteq> 0 then NotifyChargeStart else NotifyChargeStopped])"
proof -
  have "drop_bit 2 (d ! 5 AND 0xC) = 0 \<or> drop_bit 2 (d ! 5 AND 0xC) = 1 \<or> drop_bit 2 (d ! 5 AND 0xC) = 2 \<or>
      drop_bit 2 (d ! 5 AND 0xC) = 3"
    using signal_less [of 42 2 d] unfolding word_unat_eq_iff raw_594_port [OF assms] by simp linarith
  then show "ms_v_door_chargeport (metrics (frame_594 d s)) = (drop_bit 2 (d ! 5 AND 0xC) \<noteq> 0)"
    unfolding frame_594_def charge_port_def Let_def by (auto simp: set_metrics_def)
qed (simp_all add: frame_594_def charge_timing_def charge_progress_def charge_port_def cabin_setpoint_def
      set_metrics_def Let_def)

text \<open>The messages that also steer the module follow the database as well: ignition and READY,
  the charge management message with its notifications at each change of the charging bit, the
  cabin temperature, and the gear selector with the regeneration level.\<close>

theorem state_messages_follow_database:
  assumes "length d = 8"
  shows
    "m_drivetrain_ready (frame_391 d s) = (signal 61 1 d = 1) \<and>
     m_kl15_on (frame_3C0 d s) = (signal 17 1 d = 1) \<and>
     ms_v_charge_duration_full (metrics (frame_594 d s)) = 5 * int (signal 12 9 d) \<and>
     ms_v_charge_timermode (metrics (frame_594 d s)) = (signal 21 2 d = 1) \<and>
     ms_v_charge_inprogress (m_batctrl (frame_594 d s)) = (signal 29 1 d = 1) \<and>
     ms_v_door_chargeport (metrics (frame_594 d s)) = (signal 42 2 d \<noteq> 0) \<and>
     ms_v_env_cabinsetpoint (m_batctrl (frame_594 d s)) = 155 + 5 * int (signal 56 5 d) \<and>
     notices (frame_594 d s) = notices s @
       (if (signal 29 1 d = 1) = ms_v_charge_inprogress (m_batctrl s) then []
        else [if signal 29 1 d = 1 then NotifyChargeStart else NotifyChargeStopped]) \<and>
     ms_v_env_cabintemp (clima_cabin d m) =
       (if 1022 \<le> signal 50 10 d then ms_v_env_cabintemp m
        else fl (fl (of_nat (signal 50 10 d) * fl (1 / 10)) - 40)) \<and>
     ms_v_env_gear (metrics (frame_187 d s)) =
       (case map_of [(2, 0), (3, - 1), (4, 0), (5, 1), (6, 1)] (signal 16 4 d) of
          None \<Rightarrow> ms_v_env_gear (metrics s) | Some g \<Rightarrow> g) \<and>
     m_recup_level (metrics (frame_187 d s)) =
       (if signal 16 4 d = 6 then 4
        else if signal 16 4 d = 5 then if signal 12 3 d \<in> {1, 2, 3} then int (signal 12 3 d) else 0
        else - 1)"
proof -
  have duration: "unat ((drop_bit 4 (b16 d 1 AND 0xF0) OR push_bit 4 (b16 d 2 AND 0x1F)) * 5) = 5 * signal 12 9 d"
    using signal_less [of 12 9 d] unfolding unat_word_ariths(2) raw_594_duration [OF assms] by simp
  have dur: "ms_v_charge_duration_full (charge_timing d (metrics s)) = 5 * int (signal 12 9 d)"
    unfolding charge_timing_def Let_def using duration by (simp only: metrics.simps duration) simp
  have gear: "ms_v_env_gear (metrics (frame_187 d s)) =
       (case map_of [(2, 0), (3, - 1), (4, 0), (5, 1), (6, 1)] (signal 16 4 d) of
          None \<Rightarrow> ms_v_env_gear (metrics s) | Some g \<Rightarrow> g)"
    unfolding frame_187_def gear_of_def Let_def word_unat_eq_iff raw_187_gear [OF assms] by (simp split: option.split)
  have recup: "m_recup_level (metrics (frame_187 d s)) =
       (if signal 16 4 d = 6 then 4
        else if signal 16 4 d = 5 then if signal 12 3 d \<in> {1, 2, 3} then int (signal 12 3 d) else 0
        else - 1)"
    unfolding frame_187_def recup_of_def Let_def word_unat_eq_iff word_le_nat_alt uint_nat
      raw_187_gear [OF assms] raw_187_recup [OF assms] by auto
  have cabin: "ms_v_env_cabintemp (clima_cabin d m) =
       (if 1022 \<le> signal 50 10 d then ms_v_env_cabintemp m
        else fl (fl (of_nat (signal 50 10 d) * fl (1 / 10)) - 40))"
    using fl_small [of "signal 50 10 d"] signal_less [of 50 10 d]
    unfolding clima_cabin_def Let_def sentinels flt_def raw_5EA [OF assms] by simp
  have terminals: "m_drivetrain_ready (frame_391 d s) = (signal 61 1 d = 1)" "m_kl15_on (frame_3C0 d s) = (signal 17 1 d = 1)"
    using signal_flag [OF assms, of 61] signal_flag [OF assms, of 17]
    unfolding frame_391_def frame_3C0_def Let_def flag_bits by simp_all
  have charging: "(d ! 3 AND 0x20 \<noteq> 0) = (signal 29 1 d = 1)"
    using signal_flag [OF assms, of 29] unfolding flag_bits by simp
  have rest: "ms_v_charge_timermode (charge_timing d (metrics s)) = (signal 21 2 d = 1)"
    "(drop_bit 2 (d ! 5 AND 0xC) \<noteq> 0) = (signal 42 2 d \<noteq> 0)"
    unfolding charge_timing_def Let_def word_unat_eq_iff
    using raw_594_timer [OF assms] raw_594_port [OF assms] by simp_all
  show ?thesis
    unfolding frame_594_fields [OF assms] charging gear recup cabin terminals rest raw_594_setpoint [OF assms]
    using dur by simp
qed

definition sample_frame :: bytes where "sample_frame = [0, 0x50, 0x38, 0x7F, 0x30, 0, 0xFF, 0x9F]"


lemma state_messages_follow_database_witness:
  "ms_v_charge_duration_full (metrics (frame_594 sample_frame (egolf_init (bc_init fresh_set)))) =
     5 * int (signal 12 9 sample_frame) \<and>
   ms_v_charge_inprogress (m_batctrl (frame_594 sample_frame (egolf_init (bc_init fresh_set)))) =
     (signal 29 1 sample_frame = 1)"
  using state_messages_follow_database [of sample_frame "egolf_init (bc_init fresh_set)" metrics_init]
  by (simp add: sample_frame_def)

end
