(* ===== verification/VerCmp.thy ===== *)
theory VerCmp
  imports Prelude
begin

section \<open>Version comparison\<close>

text \<open>
  \<open>strverscmp\<close> of \<open>components/strverscmp/src/strverscmp.c\<close>, with which the update and plugin
  components order version strings.  A string is a byte list, its terminator appended by
  \<open>cstr\<close>; a read behind it is \<open>None\<close>.  The two tables are lists, read with a bounds check, and the
  loops are recursions over the bytes that are left.
\<close>

definition S_N :: nat where "S_N = 0"
definition S_I :: nat where "S_I = 3"
definition S_F :: nat where "S_F = 6"
definition S_Z :: nat where "S_Z = 9"

definition next_state :: "nat list" where
  "next_state = [S_N, S_I, S_Z, S_N, S_I, S_I, S_N, S_F, S_F, S_N, S_F, S_Z]"

datatype result = CMP | LEN | Val int

definition result_type :: "result list" where
  "result_type =
     [CMP, CMP, CMP, CMP, LEN, CMP, CMP, CMP, CMP,
      CMP, Val (- 1), Val (- 1), Val 1, LEN, LEN, Val 1, LEN, LEN,
      CMP, CMP, CMP, CMP, CMP, CMP, CMP, CMP, CMP,
      CMP, Val 1, Val 1, Val (- 1), CMP, CMP, Val (- 1), CMP, CMP]"

definition isdigit :: "u8 \<Rightarrow> bool" where
  "isdigit c \<longleftrightarrow> 48 \<le> c \<and> c \<le> 57"

text \<open>The class of a character: 0 for a non-digit, 1 for a digit from 1 on, 2 for the digit zero.\<close>

definition char_class :: "u8 \<Rightarrow> nat" where
  "char_class c = of_bool (c = 48) + of_bool (isdigit c)"

text \<open>The final loop over the rest of two numbers.\<close>

fun len_cmp :: "bytes \<Rightarrow> bytes \<Rightarrow> int \<Rightarrow> int option" where
  "len_cmp [] p2 diff = None"
| "len_cmp (a # p1) p2 diff =
     (if isdigit a
      then (case p2 of [] \<Rightarrow> None | b # p2' \<Rightarrow> if \<not> isdigit b then Some 1 else len_cmp p1 p2' diff)
      else (case p2 of [] \<Rightarrow> None | b # _ \<Rightarrow> Some (if isdigit b then - 1 else diff)))"

definition verdict :: "nat \<Rightarrow> u8 \<Rightarrow> u8 \<Rightarrow> bytes \<Rightarrow> bytes \<Rightarrow> int option" where
  "verdict state c1 c2 p1 p2 = do {
     r \<leftarrow> rd result_type (state * 3 + char_class c2);
     (case r of CMP \<Rightarrow> Some (uint c1 - uint c2) | LEN \<Rightarrow> len_cmp p1 p2 (uint c1 - uint c2) | Val v \<Rightarrow> Some v) }"

fun scan :: "nat \<Rightarrow> bytes \<Rightarrow> bytes \<Rightarrow> int option" where
  "scan state (c1 # p1) (c2 # p2) =
     (if c1 = c2
      then if c1 = 0 then Some 0
           else do { q \<leftarrow> rd next_state state;
                     c \<leftarrow> rd p1 0;
                     scan (q + char_class c) p1 p2 }
      else verdict state c1 c2 p1 p2)"
| "scan state _ _ = None"

definition strverscmp :: "bool \<Rightarrow> bytes \<Rightarrow> bytes \<Rightarrow> int option" where
  "strverscmp same s1 s2 =
     (if same then Some 0 else do { c1 \<leftarrow> rd s1 0; scan (S_N + char_class c1) s1 s2 })"

definition cstr :: "bytes \<Rightarrow> bytes" where
  "cstr s = s @ [0]"

subsection \<open>The common part\<close>

lemma class_less [simp]: "char_class c < 3"
  by (simp add: char_class_def)

lemma isdigit_0 [simp]: "\<not> isdigit 0"
  by (simp add: isdigit_def)

definition base_step :: "nat \<Rightarrow> u8 \<Rightarrow> nat" where
  "base_step q c = next_state ! (q + char_class c)"

definition base :: "bytes \<Rightarrow> nat" where
  "base p = foldl base_step S_N p"

lemma base_step_range: "q \<in> {0, 3, 6, 9} \<Longrightarrow> base_step q c \<in> {0, 3, 6, 9}"
  using class_less [of c]
  by (auto simp: base_step_def next_state_def S_N_def S_I_def S_F_def S_Z_def less_Suc_eq numeral_3_eq_3)

lemma base_range: "base p \<in> {0, 3, 6, 9}"
proof -
  have "q \<in> {0, 3, 6, 9} \<Longrightarrow> foldl base_step q p \<in> {0, 3, 6, 9}" for q
    using base_step_range by (induction p arbitrary: q) (simp_all del: insert_iff)
  then show ?thesis by (simp add: base_def S_N_def)
qed

lemma scan_prefix:
  assumes "0 \<notin> set p" "q \<in> {0, 3, 6, 9}"
  shows "scan (q + char_class (hd (p @ c1 # p1))) (p @ c1 # p1) (p @ c2 # p2) =
    scan (foldl base_step q p + char_class c1) (c1 # p1) (c2 # p2)"
  using assms
proof (induction p arbitrary: q)
  case Nil
  then show ?case by simp
next
  case (Cons a p)
  have "length next_state = 12" by (simp add: next_state_def)
  then have lt: "q + char_class a < length next_state"
    using Cons.prems(2) class_less [of a] by (simp only: insert_iff empty_iff) (elim disjE FalseE; linarith)
  have "rd (p @ c1 # p1) 0 = Some (hd (p @ c1 # p1))" by (cases p) simp_all
  moreover have "rd next_state (q + char_class a) = Some (base_step q a)" using lt by (simp add: rd_def base_step_def)
  ultimately show ?case
    using Cons.IH [OF _ base_step_range [OF Cons.prems(2)], of a] Cons.prems by simp
qed

lemma strverscmp_split:
  assumes "0 \<notin> set p" "c1 \<noteq> c2"
  shows "strverscmp False (p @ c1 # p1) (p @ c2 # p2) = verdict (base p + char_class c1) c1 c2 p1 p2"
proof -
  have "rd (p @ c1 # p1) 0 = Some (hd (p @ c1 # p1))" by (cases p) simp_all
  then show ?thesis
    using scan_prefix [OF assms(1), of S_N c1 p1 c2 p2] assms(2)
    by (simp add: strverscmp_def base_def S_N_def)
qed

lemma scan_same: "0 \<notin> set p \<Longrightarrow> strverscmp False (cstr p) (cstr p) = Some 0"
proof -
  assume a: "0 \<notin> set p"
  have "rd (cstr p) 0 = Some (hd (p @ [0]))" by (cases p) (simp_all add: cstr_def)
  then show ?thesis
    using scan_prefix [OF a, of S_N 0 "[]" 0 "[]"] by (simp add: strverscmp_def cstr_def S_N_def)
qed

text \<open>Two different strings part at a character; at most one of the two is the terminator.\<close>

lemma strings_part:
  assumes "0 \<notin> set s" "0 \<notin> set t" "s \<noteq> t"
  shows "\<exists>p c1 c2 p1 p2. cstr s = p @ c1 # p1 \<and> cstr t = p @ c2 # p2 \<and> 0 \<notin> set p \<and> c1 \<noteq> c2 \<and>
    (c1 \<noteq> 0 \<longrightarrow> 0 \<in> set p1) \<and> (c2 \<noteq> 0 \<longrightarrow> 0 \<in> set p2)"
  using assms
proof (induction s arbitrary: t)
  case Nil
  then obtain b t' where "t = b # t'" by (cases t) auto
  then show ?case using Nil by (intro exI [of _ "[]"]) (auto simp: cstr_def)
next
  case (Cons a s)
  show ?case
  proof (cases t)
    case Nil
    then show ?thesis using Cons.prems by (intro exI [of _ "[]"]) (auto simp: cstr_def)
  next
    case t: (Cons b t')
    show ?thesis
    proof (cases "a = b")
      case True
      have "0 \<notin> set s" "0 \<notin> set t'" "s \<noteq> t'" using Cons.prems t True by simp_all
      from Cons.IH [OF this] obtain p c1 c2 p1 p2 where "cstr s = p @ c1 # p1" "cstr t' = p @ c2 # p2" "0 \<notin> set p" "c1 \<noteq> c2"
        "c1 \<noteq> 0 \<longrightarrow> 0 \<in> set p1" "c2 \<noteq> 0 \<longrightarrow> 0 \<in> set p2"
        by blast
      then show ?thesis
        using True Cons.prems(1) t by (intro exI [of _ "a # p"] exI [of _ c1] exI [of _ c2] exI [of _ p1] exI [of _ p2])
          (simp add: cstr_def)
    next
      case False
      then show ?thesis using t by (intro exI [of _ "[]"]) (auto simp: cstr_def)
    qed
  qed
qed

subsection \<open>The rest of two numbers\<close>

definition digits :: "bytes \<Rightarrow> nat" where
  "digits p = length (takeWhile isdigit p)"

lemma len_cmp_digits:
  assumes "0 \<in> set p1" "0 \<in> set p2"
  shows "len_cmp p1 p2 diff =
    Some (if digits p1 > digits p2 then 1 else if digits p1 < digits p2 then - 1 else diff)"
  using assms
proof (induction p1 arbitrary: p2)
  case Nil
  then show ?case by simp
next
  case (Cons a p1)
  then obtain b p2' where p2: "p2 = b # p2'" by (cases p2) auto
  have "isdigit a \<Longrightarrow> 0 \<in> set p1" "isdigit b \<Longrightarrow> 0 \<in> set p2'"
    using Cons.prems p2 by auto
  then show ?case
    using Cons.IH [of p2'] by (auto simp: p2 digits_def)
qed

subsection \<open>Equality and antisymmetry\<close>

lemma len_cmp_swap:
  assumes "0 \<in> set p1" "0 \<in> set p2" "len_cmp p1 p2 d = Some r"
  shows "len_cmp p2 p1 (- d) = Some (- r)"
  using assms by (auto simp: len_cmp_digits split: if_splits)

lemma digit_nonzero: "isdigit c \<Longrightarrow> c \<noteq> 0"
  by (auto simp: isdigit_def)

lemma class_digit: "char_class c \<noteq> 0 \<Longrightarrow> isdigit c"
  by (auto simp: char_class_def isdigit_def)

lemma both_zero: "char_class c = 2 \<Longrightarrow> c = 48"
  by (auto simp: char_class_def of_bool_def split: if_splits)

text \<open>The verdict of two different characters is a nonzero number, and the opposite one when the
  two strings change places.\<close>

lemma verdict_swap:
  assumes "c1 \<noteq> c2" "q \<in> {0, 3, 6, 9}" "c1 \<noteq> 0 \<longrightarrow> 0 \<in> set p1" "c2 \<noteq> 0 \<longrightarrow> 0 \<in> set p2"
  shows "\<exists>r. r \<noteq> 0 \<and> verdict (q + char_class c1) c1 c2 p1 p2 = Some r \<and>
    verdict (q + char_class c2) c2 c1 p2 p1 = Some (- r)"
proof -
  have d: "uint c1 - uint c2 \<noteq> 0" using assms(1) by (simp add: word_uint_eq_iff)
  have len: "\<exists>r. r \<noteq> 0 \<and> len_cmp p1 p2 (uint c1 - uint c2) = Some r \<and> len_cmp p2 p1 (uint c2 - uint c1) = Some (- r)"
    if "isdigit c1" "isdigit c2"
    using len_cmp_digits [of p1 p2 "uint c1 - uint c2"] len_cmp_swap [of p1 p2 "uint c1 - uint c2"]
      assms(3,4) digit_nonzero that d by (auto split: if_splits)
  have "char_class c1 = 0 \<or> char_class c1 = 1 \<or> char_class c1 = 2" using class_less [of c1] by linarith
  moreover have "char_class c2 = 0 \<or> char_class c2 = 1 \<or> char_class c2 = 2" using class_less [of c2] by linarith
  moreover have "\<not> (char_class c1 = 2 \<and> char_class c2 = 2)" using both_zero assms(1) by metis
  moreover have "q = 0 \<or> q = 3 \<or> q = 6 \<or> q = 9" using assms(2) by simp
  ultimately show ?thesis
    using d len class_digit [of c1] class_digit [of c2]
    by (elim disjE) (simp_all add: verdict_def rd_def result_type_def)
qed

lemma strverscmp_swap:
  assumes "0 \<notin> set s" "0 \<notin> set t"
  shows "\<exists>r. strverscmp False (cstr s) (cstr t) = Some r \<and> strverscmp False (cstr t) (cstr s) = Some (- r) \<and>
    (r = 0 \<longleftrightarrow> s = t)"
proof (cases "s = t")
  case True
  then show ?thesis using scan_same assms by simp
next
  case False
  obtain p c1 c2 p1 p2 where *: "cstr s = p @ c1 # p1" "cstr t = p @ c2 # p2" "0 \<notin> set p" "c1 \<noteq> c2"
    "c1 \<noteq> 0 \<longrightarrow> 0 \<in> set p1" "c2 \<noteq> 0 \<longrightarrow> 0 \<in> set p2"
    using strings_part [OF assms False] by blast
  obtain r where "r \<noteq> 0" "verdict (base p + char_class c1) c1 c2 p1 p2 = Some r"
    "verdict (base p + char_class c2) c2 c1 p2 p1 = Some (- r)"
    using verdict_swap [OF *(4) base_range *(5,6)] by blast
  then show ?thesis
    using strverscmp_split [OF *(3,4), of p1 p2] strverscmp_split [OF *(3), of c2 c1 p2 p1] *(1,2,4) False by auto
qed

text \<open>\<open>strverscmp\<close> returns on all strings without reading past a terminator, its result is zero
  exactly for equal strings, and exchanging the arguments negates it.\<close>

theorem strverscmp_antisym:
  assumes "0 \<notin> set s" "0 \<notin> set t"
  shows "\<exists>r. strverscmp False (cstr s) (cstr t) = Some r \<and> strverscmp False (cstr t) (cstr s) = Some (- r) \<and>
    (r = 0 \<longleftrightarrow> s = t)"
  by (rule strverscmp_swap [OF assms])

subsection \<open>Numbers inside version strings\<close>

fun dec :: "nat \<Rightarrow> bytes" where
  "dec n = (if n < 10 then [48 + of_nat n] else dec (n div 10) @ [48 + of_nat (n mod 10)])"

declare dec.simps [simp del]

definition digit_value :: "u8 \<Rightarrow> nat" where
  "digit_value c = unat c - 48"

definition dec_value :: "bytes \<Rightarrow> nat" where
  "dec_value ds = foldl (\<lambda>v c. 10 * v + digit_value c) 0 ds"

lemma dec_value_snoc [simp]: "dec_value (ds @ [c]) = 10 * dec_value ds + digit_value c"
  by (simp add: dec_value_def)

lemma dec_value_Nil [simp]: "dec_value [] = 0"
  by (simp add: dec_value_def)

lemma digit_char:
  assumes "n < 10"
  shows "isdigit (48 + of_nat n)" "digit_value (48 + of_nat n) = n" "48 + of_nat n = (48 :: u8) \<longleftrightarrow> n = 0"
proof -
  have u: "unat (48 + of_nat n :: u8) = 48 + n"
    using assms by (simp add: unat_word_ariths(1) unat_of_nat)
  show "isdigit (48 + of_nat n)" "digit_value (48 + of_nat n) = n"
    using assms by (simp_all add: isdigit_def digit_value_def word_le_nat_alt u)
  show "48 + of_nat n = (48 :: u8) \<longleftrightarrow> n = 0"
    using u by (simp add: word_unat_eq_iff)
qed

lemma isdigit_value: "isdigit c \<Longrightarrow> digit_value c < 10"
  by (simp add: isdigit_def digit_value_def word_le_nat_alt) arith

lemma dec_digits: "list_all isdigit (dec n)"
  by (induction n rule: dec.induct) (subst dec.simps, simp add: digit_char)

lemma dec_value_dec [simp]: "dec_value (dec n) = n"
proof (induction n rule: dec.induct)
  case (1 n)
  show ?case
  proof (cases "n < 10")
    case True
    then show ?thesis using digit_char(2) [of n] dec_value_snoc [of "[]"] by (subst dec.simps) simp
  next
    case False
    then show ?thesis using 1 digit_char(2) [of "n mod 10"] by (subst dec.simps) simp
  qed
qed

lemma dec_lead: "dec n \<noteq> [] \<and> (hd (dec n) = 48 \<longleftrightarrow> n = 0)"
proof (induction n rule: dec.induct)
  case (1 n)
  show ?case
  proof (cases "n < 10")
    case True
    then show ?thesis using digit_char(3) [of n] by (subst (1 2) dec.simps) simp
  next
    case False
    then have "dec n = dec (n div 10) @ [48 + of_nat (n mod 10)]" by (subst dec.simps) simp
    then show ?thesis using 1 False by simp
  qed
qed

lemma dec_value_append: "dec_value (us @ ds) = dec_value us * 10 ^ length ds + dec_value ds"
proof (induction ds rule: rev_induct)
  case Nil
  then show ?case by simp
next
  case (snoc c ds)
  then show ?case using dec_value_snoc [of "us @ ds" c] by (simp add: algebra_simps)
qed

lemma dec_value_less: "list_all isdigit ds \<Longrightarrow> dec_value ds < 10 ^ length ds"
proof (induction ds rule: rev_induct)
  case Nil
  then show ?case by simp
next
  case (snoc c ds)
  then show ?case using isdigit_value [of c] by simp
qed

lemma dec_value_lead:
  assumes "list_all isdigit (c # ds)" "c \<noteq> 48"
  shows "10 ^ length ds \<le> dec_value (c # ds)"
proof -
  have "1 \<le> digit_value c"
    using assms by (simp add: isdigit_def digit_value_def word_le_nat_alt word_unat_eq_iff) arith
  then have "1 * 10 ^ length ds \<le> digit_value c * 10 ^ length ds" by (intro mult_right_mono) simp_all
  moreover have "dec_value (c # ds) = digit_value c * 10 ^ length ds + dec_value ds"
    using dec_value_append [of "[c]" ds] dec_value_snoc [of "[]" c] by simp
  ultimately show ?thesis by linarith
qed

lemma dec_length_mono:
  assumes "n < m"
  shows "length (dec n) \<le> length (dec m)"
proof (cases "n = 0")
  case True
  then show ?thesis using dec_lead [of m] by (simp add: dec.simps [of 0] Suc_le_eq)
next
  case False
  obtain c ds where n: "dec n = c # ds" "c \<noteq> 48"
    using dec_lead [of n] False by (cases "dec n") auto
  have "10 ^ length ds \<le> n" using dec_value_lead [of c ds] n dec_digits [of n] dec_value_dec [of n] by simp
  moreover have "m < 10 ^ length (dec m)" using dec_value_less [OF dec_digits, of m] by simp
  ultimately have "(10 :: nat) ^ length ds < 10 ^ length (dec m)" using assms by linarith
  then show ?thesis using n by simp
qed

lemma dec_first_diff:
  assumes "dec n = u @ c1 # r1" "dec m = u @ c2 # r2" "length r1 = length r2" "n < m" "c1 \<noteq> c2"
  shows "c1 < c2"
proof (rule ccontr)
  assume "\<not> c1 < c2"
  have d: "list_all isdigit (c1 # r1)" "list_all isdigit (c2 # r2)"
    using dec_digits [of n] dec_digits [of m] assms(1,2) by simp_all
  have "digit_value c2 < digit_value c1"
    using \<open>\<not> c1 < c2\<close> assms(5) d by (simp add: isdigit_def digit_value_def word_le_nat_alt word_less_nat_alt word_unat_eq_iff) arith
  then have "Suc (digit_value c2) * 10 ^ length r1 \<le> digit_value c1 * 10 ^ length r1"
    by (intro mult_right_mono) simp_all
  moreover have "dec_value r2 < 10 ^ length r2" using dec_value_less [of r2] d(2) by simp
  moreover have "dec_value (u @ c # r) = dec_value u * 10 ^ Suc (length r) + (digit_value c * 10 ^ length r + dec_value r)" for c r
    using dec_value_append [of u "c # r"] dec_value_append [of "[c]" r] dec_value_snoc [of "[]" c] by simp
  ultimately have "dec_value (u @ c2 # r2) \<le> dec_value (u @ c1 # r1)" using assms(3) by simp
  then show False using assms(1,2,4) dec_value_dec [of n] dec_value_dec [of m] by simp
qed

text \<open>The state of the scan: normal behind a non-digit, the integral part behind digits that began
  with a nonzero one.\<close>

lemma class_values: "isdigit c \<Longrightarrow> c \<noteq> 48 \<Longrightarrow> char_class c = 1" "isdigit c \<Longrightarrow> c = 48 \<Longrightarrow> char_class c = 2"
  "\<not> isdigit c \<Longrightarrow> char_class c = 0"
  by (auto simp: char_class_def isdigit_def)

lemma base_normal: "p = [] \<or> \<not> isdigit (last p) \<Longrightarrow> base p = 0"
proof (cases p rule: rev_cases)
  case (snoc q c)
  moreover assume "p = [] \<or> \<not> isdigit (last p)"
  ultimately have c: "char_class c = 0" "base p = base_step (base q) c"
    by (simp_all add: class_values base_def)
  have "base q = 0 \<or> base q = 3 \<or> base q = 6 \<or> base q = 9" using base_range [of q] by simp
  then show ?thesis using c by (auto simp: base_step_def next_state_def S_N_def)
qed (simp add: base_def S_N_def)

lemma base_number:
  assumes "base p = 0" "list_all isdigit (c # ds)" "c \<noteq> 48"
  shows "base (p @ c # ds) = 3"
proof -
  have "list_all isdigit ds \<Longrightarrow> foldl base_step 3 ds = 3" for ds
  proof (induction ds)
    case (Cons a ds)
    have "char_class a = 1 \<or> char_class a = 2" using class_values [of a] Cons.prems by auto
    then have "base_step 3 a = 3" by (auto simp: base_step_def next_state_def S_I_def)
    then show ?case using Cons by simp
  qed simp
  moreover have "base_step 0 c = 3"
    using assms(2,3) class_values(1) [of c] by (simp add: base_step_def next_state_def S_I_def)
  ultimately show ?thesis using assms unfolding base_def by simp
qed

lemma digits_tail:
  assumes "list_all isdigit ds" "t = [] \<or> \<not> isdigit (hd t)"
  shows "digits (ds @ cstr t) = length ds"
proof -
  have "takeWhile isdigit (cstr t) = []" using assms(2) by (cases t) (auto simp: cstr_def)
  then show ?thesis
    using assms(1) by (simp add: digits_def takeWhile_append list_all_iff)
qed

lemma first_difference:
  "length xs \<le> length ys \<Longrightarrow> xs \<noteq> ys \<Longrightarrow>
   (\<exists>c r. ys = xs @ c # r) \<or> (\<exists>u a b r s. xs = u @ a # r \<and> ys = u @ b # s \<and> a \<noteq> b)"
proof (induction xs arbitrary: ys)
  case Nil
  then show ?case by (cases ys) auto
next
  case (Cons a xs)
  then obtain b ys' where ys: "ys = b # ys'" by (cases ys) auto
  show ?case
  proof (cases "a = b")
    case True
    from Cons.IH [of ys'] Cons.prems ys True
    have "(\<exists>c r. ys' = xs @ c # r) \<or> (\<exists>u a b r s. xs = u @ a # r \<and> ys' = u @ b # s \<and> a \<noteq> b)" by simp
    then show ?thesis unfolding ys True by (metis append_Cons)
  next
    case False
    then have "\<exists>u a' b' r s. a # xs = u @ a' # r \<and> ys = u @ b' # s \<and> a' \<noteq> b'"
      using ys by (intro exI [of _ "[]"]) simp
    then show ?thesis by blast
  qed
qed

lemma verdict_negative:
  assumes "q = 0 \<or> q = 3" "isdigit c2" "q = 0 \<longrightarrow> c2 \<noteq> 48 \<and> isdigit c1" "q = 3 \<and> c1 = 48 \<longrightarrow> c2 \<noteq> 48" "c1 \<noteq> c2"
    "0 \<in> set p1" "0 \<in> set p2" "isdigit c1 \<longrightarrow> digits p1 < digits p2 \<or> digits p1 = digits p2 \<and> c1 < c2"
    "q = 0 \<and> c1 = 48 \<longrightarrow> c1 < c2"
  shows "\<exists>r < 0. verdict (q + char_class c1) c1 c2 p1 p2 = Some r"
proof -
  have neg: "c1 < c2 \<Longrightarrow> uint c1 - uint c2 < 0" by (simp add: word_less_def)
  then have len: "isdigit c1 \<Longrightarrow> \<exists>r < 0. len_cmp p1 p2 (uint c1 - uint c2) = Some r"
    using len_cmp_digits [OF assms(6,7), of "uint c1 - uint c2"] assms(8) by (auto split: if_splits)
  have "char_class c2 = 1 \<or> char_class c2 = 2 \<and> c2 = 48" using class_values [of c2] assms(2) by (cases "c2 = 48") simp_all
  moreover have "char_class c1 = 0 \<and> \<not> isdigit c1 \<or> char_class c1 = 1 \<and> isdigit c1 \<or> char_class c1 = 2 \<and> isdigit c1 \<and> c1 = 48"
    using class_values [of c1] by (cases "isdigit c1"; cases "c1 = 48") simp_all
  ultimately show ?thesis
    using assms(1,3-5,9) len neg by (elim disjE conjE) (simp_all add: verdict_def rd_def result_type_def)
qed

text \<open>Where two version strings first differ in a number, the smaller number makes the smaller
  version: behind a common part \<open>p\<close> that does not end in a digit, \<open>n\<close> precedes \<open>m\<close> for all \<open>n < m\<close>
  written without leading zeros, whatever follows them.\<close>

theorem versions_numeric:
  assumes "n < m" "0 \<notin> set p" "p = [] \<or> \<not> isdigit (last p)"
    "t1 = [] \<or> \<not> isdigit (hd t1)" "t2 = [] \<or> \<not> isdigit (hd t2)"
  shows "\<exists>r < 0. strverscmp False (cstr (p @ dec n @ t1)) (cstr (p @ dec m @ t2)) = Some r"
proof -
  have dg: "list_all isdigit (dec n)" "list_all isdigit (dec m)" by (rule dec_digits)+
  have nz: "0 \<notin> set u" if "list_all isdigit u" for u
    using that digit_nonzero by (auto simp: list_all_iff)
  have ne: "dec n \<noteq> dec m"
  proof
    assume "dec n = dec m"
    then have "dec_value (dec n) = dec_value (dec m)" by simp
    then show False using assms(1) by simp
  qed
  have m48: "hd (dec m) \<noteq> 48" "dec m \<noteq> []" using dec_lead [of m] assms(1) by auto
  note fd = first_difference [OF dec_length_mono [OF assms(1)] ne]
  then show ?thesis
  proof (elim disjE exE conjE)
    fix c r assume m: "dec m = dec n @ c # r"
    obtain a ds where n: "dec n = a # ds" "a \<noteq> 48"
      using dec_lead [of n] m m48 by (cases "dec n") auto
    obtain x xs where x: "cstr t1 = x # xs" "\<not> isdigit x"
      using assms(4) by (cases t1) (auto simp: cstr_def)
    have b: "base (p @ dec n) = 3"
      using base_number [OF base_normal [OF assms(3)], of a ds] n dg(1) by simp
    have c: "isdigit c" using dg(2) m by simp
    have "verdict (3 + char_class x) x c xs (r @ cstr t2) = Some (- 1)"
      using x(2) c class_values(3) [of x] class_values(1,2) [of c]
      by (cases "c = 48") (simp_all add: verdict_def rd_def result_type_def)
    moreover have "strverscmp False ((p @ dec n) @ x # xs) ((p @ dec n) @ c # (r @ cstr t2)) =
        verdict (3 + char_class x) x c xs (r @ cstr t2)"
      using strverscmp_split [of "p @ dec n" x c xs "r @ cstr t2"] assms(2) nz [OF dg(1)] x(2) c b by auto
    ultimately show ?thesis using x(1) m by (simp add: cstr_def)
  next
    fix u c1 c2 r s assume n: "dec n = u @ c1 # r" and m: "dec m = u @ c2 # s" and ne: "c1 \<noteq> c2"
    have d: "isdigit c1" "isdigit c2" "list_all isdigit u" "list_all isdigit r" "list_all isdigit s"
      using dg n m by simp_all
    have len: "length r \<le> length s" using dec_length_mono [OF assms(1)] n m by simp
    have dr: "digits (r @ cstr t1) = length r" "digits (s @ cstr t2) = length s"
      using digits_tail d assms(4,5) by blast+
    have zero: "0 \<in> set (r @ cstr t1)" "0 \<in> set (s @ cstr t2)" by (simp_all add: cstr_def)
    have less: "digits (r @ cstr t1) < digits (s @ cstr t2) \<or> digits (r @ cstr t1) = digits (s @ cstr t2) \<and> c1 < c2"
      using len dr dec_first_diff [OF n m _ assms(1) ne] by auto
    have "\<exists>q. base (p @ u) = q \<and> (\<exists>r' < 0. verdict (q + char_class c1) c1 c2 (r @ cstr t1) (s @ cstr t2) = Some r')"
    proof (cases u)
      case Nil
      have "c2 \<noteq> 48" using m48 m Nil by simp
      moreover have "c1 = 48 \<Longrightarrow> c1 < c2"
        using d(2) \<open>c2 \<noteq> 48\<close> by (simp add: isdigit_def order.not_eq_order_implies_strict)
      ultimately show ?thesis
        using Nil base_normal [OF assms(3)] d ne zero less
        by (intro exI [of _ 0] conjI verdict_negative) simp_all
    next
      case (Cons a u')
      then have "base (p @ u) = 3"
        using base_number [OF base_normal [OF assms(3)], of a u'] d(3) m48 m by simp
      moreover have "c1 = 48 \<longrightarrow> c2 \<noteq> 48" using ne by auto
      ultimately show ?thesis
        using d ne zero less by (intro exI [of _ 3] conjI verdict_negative) simp_all
    qed
    moreover have "0 \<notin> set (p @ u)" using assms(2) nz [OF d(3)] by simp
    ultimately show ?thesis
      using strverscmp_split [of "p @ u" c1 c2 "r @ cstr t1" "s @ cstr t2"] ne n m by (simp add: cstr_def)
  qed
qed

lemma versions_numeric_witness:
  "\<exists>r < 0. strverscmp False (cstr ([51, 46] @ dec 9 @ [46, 50])) (cstr ([51, 46] @ dec 10 @ [])) = Some r"
  by (rule versions_numeric) (simp_all add: isdigit_def)

lemma strverscmp_antisym_witness:
  "\<exists>r. strverscmp False (cstr [51, 46, 49]) (cstr [51, 46, 48, 49]) = Some r \<and>
     strverscmp False (cstr [51, 46, 48, 49]) (cstr [51, 46, 49]) = Some (- r) \<and> r \<noteq> 0"
  using strverscmp_antisym [of "[51, 46, 49]" "[51, 46, 48, 49]"] by auto

subsection \<open>Build versions\<close>

text \<open>\<open>buildverscmp\<close> of \<open>components/ovms_ota/src/ovms_ota.cpp\<close>: the part of a version before
  \<open>-dirty\<close>, or else before the first slash, with the number of dirty versions.\<close>

fun find_sub :: "bytes \<Rightarrow> bytes \<Rightarrow> nat option" where
  "find_sub w [] = (if w = [] then Some 0 else None)"
| "find_sub w (c # v) = (if take (length w) (c # v) = w then Some 0 else map_option Suc (find_sub w v))"

definition dirty_mark :: bytes where
  "dirty_mark = [45, 100, 105, 114, 116, 121]"

definition canonicalize :: "bytes \<Rightarrow> nat \<Rightarrow> bytes \<times> nat" where
  "canonicalize v dirtycnt =
     (case find_sub dirty_mark v of
        Some p \<Rightarrow> (take p v, dirtycnt + 1)
      | None \<Rightarrow> (case find_sub [47] v of Some p \<Rightarrow> (take p v, dirtycnt) | None \<Rightarrow> (v, dirtycnt)))"

definition buildverscmp :: "bytes \<Rightarrow> bytes \<Rightarrow> int option" where
  "buildverscmp v1 v2 =
     (let (w1, d1) = canonicalize v1 0; (w2, d2) = canonicalize v2 d1
      in do { cmp \<leftarrow> strverscmp False (cstr w1) (cstr w2);
              Some (if cmp = 0 \<and> d2 = 1 then 1 else cmp) })"

lemma canonicalize_set: "set (fst (canonicalize v d)) \<subseteq> set v"
  by (auto simp: canonicalize_def split: option.splits dest: in_set_takeD)

lemma canonicalize_count: "snd (canonicalize v d) = d + snd (canonicalize v 0)" "fst (canonicalize v d) = fst (canonicalize v 0)"
  by (simp_all add: canonicalize_def split: option.split)

text \<open>The update check: two builds compare equal exactly when their canonical versions are the
  same and both or none is dirty; one dirty build of the same version always compares greater,
  on either side, so that an update is offered.\<close>

theorem buildverscmp_dirty:
  assumes "0 \<notin> set v1" "0 \<notin> set v2"
  shows "\<exists>r. buildverscmp v1 v2 = Some r \<and>
    (r = 0 \<longleftrightarrow> fst (canonicalize v1 0) = fst (canonicalize v2 0) \<and> snd (canonicalize v1 0) = snd (canonicalize v2 0)) \<and>
    (fst (canonicalize v1 0) = fst (canonicalize v2 0) \<and> snd (canonicalize v1 0) \<noteq> snd (canonicalize v2 0) \<longrightarrow> r = 1)"
proof -
  obtain r where r: "strverscmp False (cstr (fst (canonicalize v1 0))) (cstr (fst (canonicalize v2 0))) = Some r"
    "(r = 0) = (fst (canonicalize v1 0) = fst (canonicalize v2 0))"
    using strverscmp_swap [of "fst (canonicalize v1 0)" "fst (canonicalize v2 0)"] canonicalize_set [of v1 0] canonicalize_set [of v2 0] assms by blast
  have d: "snd (canonicalize v 0) = 0 \<or> snd (canonicalize v 0) = 1" for v
    by (simp add: canonicalize_def split: option.split)
  show ?thesis
    using r d [of v1] d [of v2] canonicalize_count [of v2 "snd (canonicalize v1 0)"]
    by (auto simp: buildverscmp_def Let_def split: prod.split)
qed

lemma buildverscmp_dirty_witness:
  "\<exists>r. buildverscmp ([51, 46, 50] @ dirty_mark) [51, 46, 50] = Some r \<and> r = 1"
proof -
  have "canonicalize ([51, 46, 50] @ dirty_mark) 0 = ([51, 46, 50], 1)" "canonicalize [51, 46, 50] 0 = ([51, 46, 50], 0)"
    by (simp_all add: canonicalize_def dirty_mark_def)
  then show ?thesis
    using buildverscmp_dirty [of "[51, 46, 50] @ dirty_mark" "[51, 46, 50]"] by (simp add: dirty_mark_def)
qed

end
