(* ===== verification/SplitArgv.thy ===== *)
theory SplitArgv
  imports Prelude
begin

section \<open>Splitting a command line into arguments\<close>

text \<open>
  \<open>esp_console_split_argv\<close> of \<open>components/console/split_argv.c\<close>: one pass over the line, which is
  rewritten in place (the unescaped arguments, each with a terminator) while \<open>argv\<close> collects the
  positions where the arguments begin.  The record \<open>splitter\<close> holds the local variables; accesses
  to both buffers are checked, \<open>None\<close> is an access outside of them.  An \<open>argv\<close> entry is \<open>Some\<close>
  position or \<open>None\<close> for a null pointer.  The bound \<open>argv_size - 1\<close> is computed at the width of
  \<open>size_t\<close>.
\<close>

datatype split_state = SS_SPACE | SS_ARG | SS_QUOTED_ARG | SS_ARG_ESCAPED | SS_QUOTED_ARG_ESCAPED

record splitter =
  state :: split_state
  argc :: nat
  next_arg_start :: nat
  out_ptr :: nat
  line :: bytes
  argv :: "nat option list"

definition QUOTE :: u8 where "QUOTE = 34"
definition ESCAPE :: u8 where "ESCAPE = 92"
definition SPACE :: u8 where "SPACE = 32"

definition end_arg :: "splitter \<Rightarrow> (u8 option \<times> splitter) option" where
  "end_arg s = do {
     argv' \<leftarrow> wr (argv s) (argc s) (Some (next_arg_start s));
     Some (Some 0, s\<lparr>argv := argv', argc := argc s + 1, state := SS_SPACE\<rparr>) }"

text \<open>The switch: the character to output, if any, and the new state.\<close>

definition split_char :: "u8 \<Rightarrow> splitter \<Rightarrow> (u8 option \<times> splitter) option" where
  "split_char char_in s =
     (case state s of
        SS_SPACE \<Rightarrow>
          Some (if char_in = SPACE then (None, s)
                else if char_in = QUOTE then (None, s\<lparr>next_arg_start := out_ptr s, state := SS_QUOTED_ARG\<rparr>)
                else if char_in = ESCAPE then (None, s\<lparr>next_arg_start := out_ptr s, state := SS_ARG_ESCAPED\<rparr>)
                else (Some char_in, s\<lparr>next_arg_start := out_ptr s, state := SS_ARG\<rparr>))
      | SS_QUOTED_ARG \<Rightarrow>
          if char_in = QUOTE then end_arg s
          else Some (if char_in = ESCAPE then (None, s\<lparr>state := SS_QUOTED_ARG_ESCAPED\<rparr>) else (Some char_in, s))
      | SS_ARG_ESCAPED \<Rightarrow>
          Some (if char_in = ESCAPE \<or> char_in = QUOTE \<or> char_in = SPACE then Some char_in else None, s\<lparr>state := SS_ARG\<rparr>)
      | SS_QUOTED_ARG_ESCAPED \<Rightarrow>
          Some (if char_in = ESCAPE \<or> char_in = QUOTE \<or> char_in = SPACE then Some char_in else None, s\<lparr>state := SS_QUOTED_ARG\<rparr>)
      | SS_ARG \<Rightarrow>
          if char_in = SPACE then end_arg s
          else Some (if char_in = ESCAPE then (None, s\<lparr>state := SS_ARG_ESCAPED\<rparr>) else (Some char_in, s)))"

definition put_char :: "u8 option \<Rightarrow> splitter \<Rightarrow> splitter option" where
  "put_char char_out s =
     (case char_out of
        None \<Rightarrow> Some s
      | Some c \<Rightarrow> do { l \<leftarrow> wr (line s) (out_ptr s) c; Some (s\<lparr>line := l, out_ptr := out_ptr s + 1\<rparr>) })"

definition split_step :: "u8 \<Rightarrow> splitter \<Rightarrow> splitter option" where
  "split_step c s = do { (char_out, s') \<leftarrow> split_char c s; put_char char_out s' }"

text \<open>The loop, with the number of characters it may still read: one more than the line holds ends
  in a read outside of it.\<close>

primrec split_loop :: "nat \<Rightarrow> u32 \<Rightarrow> nat \<Rightarrow> splitter \<Rightarrow> splitter option" where
  "split_loop 0 argv_size i s = None"
| "split_loop (Suc n) argv_size i s =
     (if of_nat (argc s) < argv_size - 1
      then do { c \<leftarrow> rd (line s) i;
                if c = 0 then Some s
                else do { s' \<leftarrow> split_step c s; split_loop n argv_size (i + 1) s' } }
      else Some s)"

definition split_end :: "u32 \<Rightarrow> splitter \<Rightarrow> (nat \<times> bytes \<times> nat option list) option" where
  "split_end argv_size s0 = do {
     l \<leftarrow> wr (line s0) (out_ptr s0) 0;
     let s = s0\<lparr>line := l\<rparr>;
     s' \<leftarrow> (if state s \<noteq> SS_SPACE \<and> of_nat (argc s) < argv_size - 1
            then do { a \<leftarrow> wr (argv s) (argc s) (Some (next_arg_start s)); Some (s\<lparr>argv := a, argc := argc s + 1\<rparr>) }
            else Some s);
     a \<leftarrow> wr (argv s') (argc s') None;
     Some (argc s', line s', a) }"

definition esp_console_split_argv ::
  "bytes \<Rightarrow> nat option list \<Rightarrow> u32 \<Rightarrow> (nat \<times> bytes \<times> nat option list) option" where
  "esp_console_split_argv l a argv_size = do {
     s \<leftarrow> split_loop (length l + 1) argv_size 0
       \<lparr>state = SS_SPACE, argc = 0, next_arg_start = 0, out_ptr = 0, line = l, argv = a\<rparr>;
     split_end argv_size s }"

subsection \<open>The arguments of a line\<close>

text \<open>The specification: a line of characters as a list of arguments.  \<open>toks st cur line\<close> reads on in
  state \<open>st\<close> with the characters \<open>cur\<close> of the open argument.\<close>

fun toks :: "split_state \<Rightarrow> bytes \<Rightarrow> bytes \<Rightarrow> bytes list" where
  "toks SS_SPACE cur [] = []"
| "toks st cur [] = [cur]"
| "toks SS_SPACE cur (c # cs) =
     (if c = SPACE then toks SS_SPACE [] cs
      else if c = QUOTE then toks SS_QUOTED_ARG [] cs
      else if c = ESCAPE then toks SS_ARG_ESCAPED [] cs
      else toks SS_ARG [c] cs)"
| "toks SS_QUOTED_ARG cur (c # cs) =
     (if c = QUOTE then cur # toks SS_SPACE [] cs
      else if c = ESCAPE then toks SS_QUOTED_ARG_ESCAPED cur cs
      else toks SS_QUOTED_ARG (cur @ [c]) cs)"
| "toks SS_ARG_ESCAPED cur (c # cs) =
     toks SS_ARG (if c = ESCAPE \<or> c = QUOTE \<or> c = SPACE then cur @ [c] else cur) cs"
| "toks SS_QUOTED_ARG_ESCAPED cur (c # cs) =
     toks SS_QUOTED_ARG (if c = ESCAPE \<or> c = QUOTE \<or> c = SPACE then cur @ [c] else cur) cs"
| "toks SS_ARG cur (c # cs) =
     (if c = SPACE then cur # toks SS_SPACE [] cs
      else if c = ESCAPE then toks SS_ARG_ESCAPED cur cs
      else toks SS_ARG (cur @ [c]) cs)"

definition arguments :: "bytes \<Rightarrow> bytes list" where
  "arguments l = toks SS_SPACE [] l"

subsection \<open>What the buffers hold while the line is split\<close>

text \<open>The rewritten part of the line is the finished arguments \<open>ts\<close> with their terminators and the
  characters \<open>cur\<close> of the open one.\<close>

definition packed :: "bytes list \<Rightarrow> bytes" where
  "packed ts = concat (map (\<lambda>t. t @ [0]) ts)"

definition offset :: "bytes list \<Rightarrow> nat \<Rightarrow> nat" where
  "offset ts k = length (packed (take k ts))"

lemma packed_simps [simp]: "packed [] = []" "packed (ts @ us) = packed ts @ packed us" "packed [t] = t @ [0]"
  by (simp_all add: packed_def)

lemma offset_append [simp]: "k \<le> length ts \<Longrightarrow> offset (ts @ us) k = offset ts k"
  by (simp add: offset_def)

lemma offset_all [simp]: "offset ts (length ts) = length (packed ts)"
  by (simp add: offset_def)

definition split_inv :: "bytes \<Rightarrow> nat \<Rightarrow> splitter \<Rightarrow> bytes list \<Rightarrow> bytes \<Rightarrow> nat \<Rightarrow> bool" where
  "split_inv l0 N s ts cur i \<longleftrightarrow>
     i \<le> length l0 \<and> length (line s) = length l0 \<and> drop i (line s) = drop i l0 \<and> out_ptr s \<le> i \<and>
     take (out_ptr s) (line s) = packed ts @ cur \<and> (state s = SS_SPACE \<longrightarrow> cur = []) \<and>
     (state s \<noteq> SS_SPACE \<longrightarrow> next_arg_start s = length (packed ts)) \<and>
     argc s = length ts \<and> length (argv s) = N \<and> (\<forall>k < length ts. argv s ! k = Some (offset ts k))"

lemma split_inv_out:
  assumes "split_inv l0 N s ts cur i"
  shows "out_ptr s = length (packed ts) + length cur"
proof -
  have "out_ptr s \<le> length (line s)" using assms unfolding split_inv_def by linarith
  then have "length (take (out_ptr s) (line s)) = out_ptr s" by simp
  moreover have "take (out_ptr s) (line s) = packed ts @ cur" using assms unfolding split_inv_def by blast
  ultimately show ?thesis by simp
qed

text \<open>A character put behind the rewritten part does not touch the input that is left.\<close>

lemma put_char_inv:
  assumes "split_inv l0 N s ts cur i" "i < length l0" "state s \<noteq> SS_SPACE"
  shows "\<exists>s'. put_char (Some c) s = Some s' \<and> split_inv l0 N s' ts (cur @ [c]) (i + 1) \<and> state s' = state s"
proof -
  have o: "out_ptr s \<le> i" "i < length (line s)" "drop i (line s) = drop i l0"
    using assms(1,2) by (simp_all add: split_inv_def)
  have "take (out_ptr s + 1) ((line s)[out_ptr s := c]) = take (out_ptr s) (line s) @ [c]"
    using o by (simp add: take_Suc_conv_app_nth)
  moreover have "drop (i + 1) ((line s)[out_ptr s := c]) = drop (i + 1) l0"
    using o drop_drop [of 1 i "line s"] drop_drop [of 1 i l0] by (simp add: drop_update_cancel)
  ultimately show ?thesis
    using assms o by (simp add: put_char_def wr_def split_inv_def)
qed

lemma skip_char_inv:
  assumes "split_inv l0 N s ts cur i" "i < length l0"
  shows "split_inv l0 N s ts cur (i + 1)"
proof -
  have "drop (i + 1) (line s) = drop (i + 1) l0"
    using assms(1) drop_drop [of 1 i "line s"] drop_drop [of 1 i l0] by (simp add: split_inv_def)
  then show ?thesis using assms by (simp add: split_inv_def)
qed

lemma state_inv:
  assumes "split_inv l0 N s ts cur i" "state s \<noteq> SS_SPACE" "st \<noteq> SS_SPACE"
  shows "split_inv l0 N (s\<lparr>state := st\<rparr>) ts cur i"
  using assms by (simp add: split_inv_def)

lemma open_inv:
  assumes "split_inv l0 N s ts cur i" "state s = SS_SPACE" "st \<noteq> SS_SPACE"
  shows "split_inv l0 N (s\<lparr>next_arg_start := out_ptr s, state := st\<rparr>) ts [] i"
proof -
  have "cur = []" "take (out_ptr s) (line s) = packed ts @ cur" using assms(1,2) by (simp_all add: split_inv_def)
  then show ?thesis
    using assms split_inv_out [OF assms(1)] unfolding split_inv_def by (simp del: take_all_iff)
qed

text \<open>Closing an argument: its position goes to \<open>argv\<close>, its terminator behind the text.\<close>

lemma end_arg_inv:
  assumes "split_inv l0 N s ts cur i" "i < length l0" "state s \<noteq> SS_SPACE" "length ts < N"
  shows "\<exists>s' s''. end_arg s = Some (Some 0, s') \<and> put_char (Some 0) s' = Some s'' \<and>
    split_inv l0 N s'' (ts @ [cur]) [] (i + 1) \<and> state s'' = SS_SPACE"
proof -
  obtain s1 where s1: "put_char (Some 0) s = Some s1" "split_inv l0 N s1 ts (cur @ [0]) (i + 1)"
    using put_char_inv [OF assms(1-3)] by blast
  have inv: "argc s = length ts" "length (argv s) = N" "next_arg_start s = length (packed ts)"
    "\<forall>k < length ts. argv s ! k = Some (offset ts k)"
    using assms(1,3) by (simp_all add: split_inv_def)
  let ?a = "(argv s)[length ts := Some (length (packed ts))]"
  have l: "line s1 = (line s)[out_ptr s := 0]" "out_ptr s1 = out_ptr s + 1" "out_ptr s < length (line s)"
    using s1(1) by (auto simp: put_char_def wr_def split: if_splits)
  have "\<forall>k < length (ts @ [cur]). ?a ! k = Some (offset (ts @ [cur]) k)"
    using inv(2,4) assms(4) by (auto simp: nth_list_update less_Suc_eq)
  then show ?thesis
    using inv assms(4) s1(2) l
    by (simp add: end_arg_def put_char_def wr_def split_inv_def)
qed

text \<open>One character, in the order of the code's cases.  \<open>step_ok\<close> relates the state after it to the
  specification.\<close>

definition step_ok :: "bytes \<Rightarrow> nat \<Rightarrow> splitter \<Rightarrow> bytes list \<Rightarrow> bytes \<Rightarrow> nat \<Rightarrow> u8 \<Rightarrow> bool" where
  "step_ok l0 N s ts cur i c \<longleftrightarrow>
     (\<exists>s' ts' cur'. split_step c s = Some s' \<and> split_inv l0 N s' ts' cur' (i + 1) \<and>
        (\<forall>cs. ts @ toks (state s) cur (c # cs) = ts' @ toks (state s') cur' cs) \<and>
        (ts' = ts \<or> state s' = SS_SPACE \<and> length ts' = length ts + 1))"

lemma step_okI:
  "split_step c s = Some s' \<Longrightarrow> split_inv l0 N s' ts' cur' (i + 1) \<Longrightarrow>
   (\<And>cs. ts @ toks (state s) cur (c # cs) = ts' @ toks (state s') cur' cs) \<Longrightarrow>
   ts' = ts \<or> state s' = SS_SPACE \<and> length ts' = length ts + 1 \<Longrightarrow> step_ok l0 N s ts cur i c"
  unfolding step_ok_def by blast

lemma put_None [simp]: "put_char None s = Some s"
  by (simp add: put_char_def)

lemma step_space:
  assumes "split_inv l0 N s ts cur i" "i < length l0" "state s = SS_SPACE"
  shows "step_ok l0 N s ts cur i c"
proof -
  have cur: "cur = []" using assms(1,3) by (simp add: split_inv_def)
  note skip = skip_char_inv [OF assms(1,2)]
  consider "c = SPACE" | "c = QUOTE" | "c = ESCAPE" | "c \<notin> {SPACE, QUOTE, ESCAPE}" by blast
  then show ?thesis
  proof cases
    case 1
    then show ?thesis using skip assms(3) cur
      by (intro step_okI [of _ _ s _ _ ts cur]) (simp_all add: split_step_def split_char_def)
  next
    case 2
    then show ?thesis using open_inv [OF skip assms(3), of SS_QUOTED_ARG] assms(3) cur
      by (intro step_okI [of _ _ "s\<lparr>next_arg_start := out_ptr s, state := SS_QUOTED_ARG\<rparr>" _ _ ts "[]"])
        (simp_all add: split_step_def split_char_def SPACE_def QUOTE_def)
  next
    case 3
    then show ?thesis using open_inv [OF skip assms(3), of SS_ARG_ESCAPED] assms(3) cur
      by (intro step_okI [of _ _ "s\<lparr>next_arg_start := out_ptr s, state := SS_ARG_ESCAPED\<rparr>" _ _ ts "[]"])
        (simp_all add: split_step_def split_char_def SPACE_def QUOTE_def ESCAPE_def)
  next
    case 4
    obtain s' where s': "put_char (Some c) (s\<lparr>next_arg_start := out_ptr s, state := SS_ARG\<rparr>) = Some s'"
      "split_inv l0 N s' ts ([] @ [c]) (i + 1)" "state s' = SS_ARG"
      using put_char_inv [OF open_inv [OF assms(1,3), of SS_ARG] assms(2), of c] by auto
    then show ?thesis using 4 assms(3) cur
      by (intro step_okI [of _ _ s' _ _ ts "[c]"]) (simp_all add: split_step_def split_char_def)
  qed
qed

lemma step_argument:
  assumes "split_inv l0 N s ts cur i" "i < length l0" "length ts < N"
    "state s = SS_ARG \<or> state s = SS_QUOTED_ARG"
  shows "step_ok l0 N s ts cur i c"
proof -
  have ns: "state s \<noteq> SS_SPACE" using assms(4) by auto
  consider "c = (if state s = SS_ARG then SPACE else QUOTE)"
    | "c \<noteq> (if state s = SS_ARG then SPACE else QUOTE)" "c = ESCAPE"
    | "c \<noteq> (if state s = SS_ARG then SPACE else QUOTE)" "c \<noteq> ESCAPE" by blast
  then show ?thesis
  proof cases
    case 1
    obtain t t' where "end_arg s = Some (Some 0, t)" "put_char (Some 0) t = Some t'"
      "split_inv l0 N t' (ts @ [cur]) [] (i + 1)" "state t' = SS_SPACE"
      using end_arg_inv [OF assms(1,2) ns assms(3)] by blast
    then show ?thesis using 1 assms(4)
      by (intro step_okI [of _ _ t' _ _ "ts @ [cur]" "[]"]) (auto simp: split_step_def split_char_def)
  next
    case 2
    let ?st = "if state s = SS_ARG then SS_ARG_ESCAPED else SS_QUOTED_ARG_ESCAPED"
    have "split_inv l0 N (s\<lparr>state := ?st\<rparr>) ts cur (i + 1)"
      by (rule state_inv [OF skip_char_inv [OF assms(1,2)] ns]) simp
    then show ?thesis using 2 assms(4)
      by (intro step_okI [of _ _ "s\<lparr>state := ?st\<rparr>" _ _ ts cur]) (auto simp: split_step_def split_char_def)
  next
    case 3
    obtain s' where "put_char (Some c) s = Some s'" "split_inv l0 N s' ts (cur @ [c]) (i + 1)" "state s' = state s"
      using put_char_inv [OF assms(1,2) ns] by blast
    then show ?thesis using 3 assms(4)
      by (intro step_okI [of _ _ s' _ _ ts "cur @ [c]"]) (auto simp: split_step_def split_char_def)
  qed
qed

lemma step_escaped:
  assumes "split_inv l0 N s ts cur i" "i < length l0"
    "state s = SS_ARG_ESCAPED \<and> st = SS_ARG \<or> state s = SS_QUOTED_ARG_ESCAPED \<and> st = SS_QUOTED_ARG"
  shows "step_ok l0 N s ts cur i c"
proof -
  let ?esc = "c = ESCAPE \<or> c = QUOTE \<or> c = SPACE"
  have st: "state s \<noteq> SS_SPACE" "st \<noteq> SS_SPACE" using assms(3) by auto
  have step: "split_step c s = put_char (if ?esc then Some c else None) (s\<lparr>state := st\<rparr>)"
    using assms(3) by (elim disjE conjE) (simp_all only: split_step_def split_char_def split_state.case bind.bind_lunit prod.case)
  have spec: "toks (state s) cur (c # cs) = toks st (if ?esc then cur @ [c] else cur) cs" for cs
    using assms(3) by (elim disjE conjE) (simp_all only: toks.simps)
  note t = state_inv [OF assms(1) st]
  show ?thesis
  proof (cases ?esc)
    case True
    obtain s' where "put_char (Some c) (s\<lparr>state := st\<rparr>) = Some s'" "split_inv l0 N s' ts (cur @ [c]) (i + 1)" "state s' = st"
      using put_char_inv [OF t assms(2), of c] st(2) by auto
    then show ?thesis
      by (intro step_okI [of _ _ s' _ _ ts "cur @ [c]"]) (simp_all only: step spec True if_True simp_thms)
  next
    case False
    have "split_inv l0 N (s\<lparr>state := st\<rparr>) ts cur (i + 1)" by (rule skip_char_inv [OF t assms(2)])
    moreover have "state (s\<lparr>state := st\<rparr>) = st" by simp
    ultimately show ?thesis
      by (intro step_okI [of _ _ "s\<lparr>state := st\<rparr>" _ _ ts cur])
        (simp_all only: step spec False if_False put_None simp_thms)
  qed
qed

lemma split_step_ok:
  assumes "split_inv l0 N s ts cur i" "i < length l0" "length ts < N"
  shows "step_ok l0 N s ts cur i c"
proof (cases "state s")
  case SS_SPACE
  then show ?thesis using step_space [OF assms(1,2)] by simp
next
  case SS_ARG_ESCAPED
  then show ?thesis using step_escaped [OF assms(1,2)] by simp
next
  case SS_QUOTED_ARG_ESCAPED
  then show ?thesis using step_escaped [OF assms(1,2)] by simp
qed (use step_argument [OF assms] in simp_all)

lemma drop_Cons_parts:
  assumes "drop i xs = a # ys"
  shows "i < length xs" "xs ! i = a" "drop (i + 1) xs = ys" "rd xs i = Some a"
proof -
  show i: "i < length xs" using assms by (metis drop_all list.distinct(1) not_le)
  show "xs ! i = a" using nth_via_drop [OF assms] .
  then show "rd xs i = Some a" using i by (simp add: rd_def)
  show "drop (i + 1) xs = ys" using assms by (simp add: drop_Suc flip: tl_drop)
qed

text \<open>The loop: it stops in front of the terminator or when \<open>argv\<close> is full.\<close>

lemma split_loop_ok:
  assumes "split_inv l0 N s ts cur i" "drop i l0 = cs @ 0 # junk" "0 \<notin> set cs" "length cs < n"
    "length ts \<le> M" "M < N" "unat argv_size = M + 1" "length ts = M \<longrightarrow> state s = SS_SPACE"
  shows "\<exists>s' ts' cur' i' cs'. split_loop n argv_size i s = Some s' \<and> split_inv l0 N s' ts' cur' i' \<and> i' < length l0 \<and>
    ts @ toks (state s) cur cs = ts' @ toks (state s') cur' cs' \<and> length ts' \<le> M \<and>
    (if length ts' = M then state s' = SS_SPACE else cs' = [])"
  using assms(1-5,8)
proof (induction n arbitrary: s ts cur i cs)
  case 0
  then show ?case by simp
next
  case (Suc n)
  obtain a rest where rest: "cs @ 0 # junk = a # rest" by (cases cs) auto
  then have i: "i < length l0" using drop_Cons_parts(1) [of i l0 a rest] Suc.prems(2) by simp
  have argc: "argc s = length ts" using Suc.prems(1) by (simp add: split_inv_def)
  have guard: "of_nat (argc s) < argv_size - 1 \<longleftrightarrow> length ts < M"
  proof -
    have "unat (argv_size - 1) = M" using assms(7) by (subst unat_minus_one) auto
    moreover have "unat (of_nat (length ts) :: u32) = length ts"
      using Suc.prems(5) assms(7) unsigned_less [of argv_size, where ?'a = nat]
      by (simp add: unat_of_nat)
    ultimately show ?thesis using argc by (simp add: word_less_nat_alt)
  qed
  show ?case
  proof (cases "length ts < M")
    case False
    then have "length ts = M" using Suc.prems(5) by simp
    then show ?thesis
      using Suc.prems guard i by (intro exI [of _ s] exI [of _ ts] exI [of _ cur] exI [of _ i] exI [of _ cs]) simp
  next
    case True
    have line: "drop i (line s) = cs @ 0 # junk" "i < length (line s)"
      using Suc.prems(1,2) i by (simp_all add: split_inv_def)
    show ?thesis
    proof (cases cs)
      case Nil
      have "rd (line s) i = Some 0"
        using drop_Cons_parts(4) [of i "line s" 0 junk] line(1) Nil by simp
      then show ?thesis
        using True guard Suc.prems i Nil
        by (intro exI [of _ s] exI [of _ ts] exI [of _ cur] exI [of _ i] exI [of _ "[]"]) simp
    next
      case (Cons c cs')
      have c: "rd (line s) i = Some c" "c \<noteq> 0" "drop (i + 1) l0 = cs' @ 0 # junk"
        using drop_Cons_parts [of i "line s" c "cs' @ 0 # junk"] drop_Cons_parts(3) [of i l0 c "cs' @ 0 # junk"]
          line(1) Suc.prems(2,3) Cons by simp_all
      obtain s' ts' cur' where s': "split_step c s = Some s'" "split_inv l0 N s' ts' cur' (i + 1)"
        "\<forall>cs. ts @ toks (state s) cur (c # cs) = ts' @ toks (state s') cur' cs"
        "ts' = ts \<or> state s' = SS_SPACE \<and> length ts' = length ts + 1"
        using split_step_ok [OF Suc.prems(1) i, of c] True assms(6) unfolding step_ok_def by auto
      have "length cs' < n" "0 \<notin> set cs'" "length ts' \<le> M" "length ts' = M \<longrightarrow> state s' = SS_SPACE"
        using Suc.prems(3,4) Cons s'(4) True by auto
      then show ?thesis
        using Suc.IH [OF s'(2) c(3)] True guard c s'(1,3) Cons by simp
    qed
  qed
qed

definition c_string_at :: "bytes \<Rightarrow> nat \<Rightarrow> bytes" where
  "c_string_at l p = takeWhile (\<lambda>c. c \<noteq> 0) (drop p l)"

lemma c_string_packed:
  assumes "take m l = packed ts" "k < length ts" "0 \<notin> set (ts ! k)"
  shows "c_string_at l (offset ts k) = ts ! k"
proof -
  have ts: "ts = take k ts @ [ts ! k] @ drop (Suc k) ts" using assms(2) by (simp add: Cons_nth_drop_Suc)
  define us where "us = drop (Suc k) ts"
  have "packed ts = packed (take k ts) @ ts ! k @ [0] @ packed us"
    unfolding us_def by (subst ts) (simp only: packed_simps append_assoc)
  then have "l = packed (take k ts) @ ts ! k @ [0] @ packed us @ drop m l"
    using append_take_drop_id [of m l] assms(1) by simp
  then have "drop (offset ts k) l = ts ! k @ 0 # packed us @ drop m l"
    unfolding offset_def by (metis append_Cons append_Nil append_eq_conv_conj)
  then show ?thesis
    using assms(3) by (simp add: c_string_at_def takeWhile_append)
qed

lemma toks_set: "t \<in> set (toks st cur cs) \<Longrightarrow> set t \<subseteq> set cur \<union> set cs"
  by (induction st cur cs rule: toks.induct) (auto split: if_splits)

lemma split_end_ok:
  assumes "split_inv l0 N s ts cur i" "i < length l0" "length ts \<le> M" "M < N" "unat argv_size = M + 1"
    "length ts = M \<longrightarrow> state s = SS_SPACE"
  shows "\<exists>l a. split_end argv_size s = Some (length (ts @ toks (state s) cur []), l, a) \<and> length l = length l0 \<and>
    length a = N \<and> (\<exists>m. take m l = packed (ts @ toks (state s) cur [])) \<and>
    (\<forall>k < length (ts @ toks (state s) cur []). a ! k = Some (offset (ts @ toks (state s) cur []) k)) \<and>
    a ! length (ts @ toks (state s) cur []) = None"
proof -
  have inv: "out_ptr s < length (line s)" "argc s = length ts" "length (argv s) = N" "length (line s) = length l0"
    "take (out_ptr s) (line s) = packed ts @ cur" "\<forall>k < length ts. argv s ! k = Some (offset ts k)"
    "state s = SS_SPACE \<longrightarrow> cur = []" "state s \<noteq> SS_SPACE \<longrightarrow> next_arg_start s = length (packed ts)"
    using assms(1,2) unfolding split_inv_def by (linarith | blast)+
  have guard: "of_nat (argc s) < argv_size - 1 \<longleftrightarrow> length ts < M"
  proof -
    have "unat (argv_size - 1) = M" using assms(5) by (subst unat_minus_one) auto
    moreover have "unat (of_nat (length ts) :: u32) = length ts"
      using assms(3,5) unsigned_less [of argv_size, where ?'a = nat] by (simp add: unat_of_nat)
    ultimately show ?thesis using inv(2) by (simp add: word_less_nat_alt)
  qed
  define l where "l = (line s)[out_ptr s := 0]"
  have l: "wr (line s) (out_ptr s) 0 = Some l" "length l = length l0" "take (out_ptr s + 1) l = packed ts @ cur @ [0]"
    "take (out_ptr s) l = packed ts @ cur"
    using inv(1,4,5) by (simp_all add: wr_def l_def take_Suc_conv_app_nth)
  show ?thesis
  proof (cases "state s = SS_SPACE")
    case True
    let ?a = "(argv s)[length ts := None]"
    have "split_end argv_size s = Some (length ts, l, ?a)"
      using True inv(2,3) assms(3,4) l(1) by (simp add: split_end_def wr_def)
    moreover have "\<forall>k < length ts. ?a ! k = Some (offset ts k)" "?a ! length ts = None"
      using inv(3,6) assms(3,4) by (simp_all add: nth_list_update)
    ultimately show ?thesis using True inv(3,7) l(2,4) by auto
  next
    case False
    have len: "length ts < M" using assms(3,6) False by auto
    have toks: "toks (state s) cur [] = [cur]" using False by (cases "state s") simp_all
    let ?a = "(argv s)[length ts := Some (length (packed ts)), length ts + 1 := None]"
    have "split_end argv_size s = Some (length ts + 1, l, ?a)"
      using False inv(2,3,8) assms(4) l(1) len guard by (simp add: split_end_def wr_def)
    moreover have "\<forall>k < length ts + 1. ?a ! k = Some (offset (ts @ [cur]) k)" "?a ! (length ts + 1) = None"
      using inv(3,6) assms(4) len by (auto simp: nth_list_update less_Suc_eq)
    moreover have "take (out_ptr s + 1) l = packed (ts @ [cur])" using l(3) by simp
    ultimately show ?thesis using l(2) inv(3) unfolding toks by auto
  qed
qed

lemma split_argv_ok:
  assumes "0 \<notin> set cs0" "l0 = cs0 @ 0 # junk" "0 < argv_size" "unat argv_size \<le> length argv0"
  shows "\<exists>n l a. esp_console_split_argv l0 argv0 argv_size = Some (n, l, a) \<and> length l = length l0 \<and>
    n = min (length (arguments cs0)) (unat argv_size - 1) \<and>
    (\<forall>k < n. \<exists>p. a ! k = Some p \<and> c_string_at l p = arguments cs0 ! k) \<and> a ! n = None"
proof -
  obtain M where M: "unat argv_size = M + 1" using assms(3) by (metis Suc_eq_plus1 gr0_implies_Suc unat_gt_0 word_gt_0)
  let ?s = "\<lparr>state = SS_SPACE, argc = 0, next_arg_start = 0, out_ptr = 0, line = l0, argv = argv0\<rparr>"
  have inv: "split_inv l0 (length argv0) ?s [] [] 0" by (simp add: split_inv_def)
  obtain s' ts' cur' i' cs' where s': "split_loop (length l0 + 1) argv_size 0 ?s = Some s'"
    "split_inv l0 (length argv0) s' ts' cur' i'" "i' < length l0"
    "toks SS_SPACE [] cs0 = ts' @ toks (state s') cur' cs'" "length ts' \<le> M"
    "if length ts' = M then state s' = SS_SPACE else cs' = []"
    using split_loop_ok [OF inv, of cs0 junk "length l0 + 1" M argv_size] assms M by auto
  define us where "us = ts' @ toks (state s') cur' []"
  have us: "length us \<le> M \<and> us = take M (arguments cs0) \<and> length us = min (length (arguments cs0)) M"
  proof (cases "length ts' = M")
    case True
    then have "state s' = SS_SPACE" using s'(6) by simp
    then have "us = ts'" using s'(2) by (simp add: us_def split_inv_def)
    then show ?thesis using True s'(4) by (simp add: arguments_def)
  next
    case False
    then have "length ts' < M" "cs' = []" using s'(5,6) by simp_all
    moreover have "length (toks (state s') cur' []) \<le> 1" by (cases "state s'") simp_all
    ultimately show ?thesis using s'(4) by (simp add: us_def arguments_def)
  qed
  obtain l a m where e: "split_end argv_size s' = Some (length us, l, a)" "length l = length l0"
    "take m l = packed us" "\<forall>k < length us. a ! k = Some (offset us k)" "a ! length us = None"
    using split_end_ok [OF s'(2,3,5) _ M] s'(6) assms(4) M unfolding us_def by auto
  have "c_string_at l (offset us k) = arguments cs0 ! k" if "k < length us" for k
  proof -
    have "us ! k \<in> set (arguments cs0)" "us ! k = arguments cs0 ! k"
      using us that by (metis nth_mem in_set_takeD, metis nth_take order_less_le_trans)
    then have "0 \<notin> set (us ! k)" using toks_set [of "us ! k" SS_SPACE "[]" cs0] assms(1) by (auto simp: arguments_def)
    then show ?thesis using c_string_packed [OF e(3) that] \<open>us ! k = arguments cs0 ! k\<close> by simp
  qed
  then show ?thesis using s'(1) e us M by (auto simp: esp_console_split_argv_def)
qed

text \<open>C11. Splitting a terminated line never leaves the line or \<open>argv\<close>, and what it leaves there is the
  specified argument list, cut off at \<open>argv_size - 1\<close> entries: the count, a pointer to each
  argument's terminated text, and a null pointer behind the last.\<close>

theorem split_argv_refines:
  assumes "0 \<notin> set cs0" "l0 = cs0 @ 0 # junk" "0 < argv_size" "unat argv_size \<le> length argv0"
  shows "\<exists>n l a. esp_console_split_argv l0 argv0 argv_size = Some (n, l, a) \<and> length l = length l0 \<and>
    n = min (length (arguments cs0)) (unat argv_size - 1) \<and>
    (\<forall>k < n. \<exists>p. a ! k = Some p \<and> c_string_at l p = arguments cs0 ! k) \<and> a ! n = None"
  by (rule split_argv_ok [OF assms])

subsection \<open>Quoting\<close>

definition escape_char :: "u8 \<Rightarrow> bytes" where
  "escape_char c = (if c = QUOTE \<or> c = ESCAPE then [ESCAPE, c] else [c])"

definition quoted :: "bytes \<Rightarrow> bytes" where
  "quoted arg = QUOTE # concat (map escape_char arg) @ [QUOTE]"

primrec command_line :: "bytes list \<Rightarrow> bytes" where
  "command_line [] = []"
| "command_line (a # as) = quoted a @ SPACE # command_line as"

lemma toks_quoted_char:
  "toks SS_QUOTED_ARG cur (escape_char c @ cs) = toks SS_QUOTED_ARG (cur @ [c]) cs"
  by (simp add: escape_char_def QUOTE_def ESCAPE_def)

lemma toks_quoted:
  "toks SS_QUOTED_ARG cur (concat (map escape_char a) @ QUOTE # cs) = (cur @ a) # toks SS_SPACE [] cs"
  by (induction a arbitrary: cur) (simp_all add: toks_quoted_char)

lemma arguments_command_line: "arguments (command_line as) = as"
proof (induction as)
  case Nil
  then show ?case by (simp add: arguments_def)
next
  case (Cons a as)
  have "toks SS_SPACE [] (QUOTE # cs) = toks SS_QUOTED_ARG [] cs" "toks SS_SPACE [] (SPACE # cs) = toks SS_SPACE [] cs" for cs
    by (simp_all add: QUOTE_def SPACE_def)
  then show ?case using Cons by (simp add: arguments_def quoted_def toks_quoted)
qed

text \<open>Arguments written in quotes, with quotes and backslashes escaped, arrive as they were.\<close>

theorem split_argv_quoted:
  assumes "\<forall>a \<in> set as. 0 \<notin> set a" "length as < unat argv_size" "unat argv_size \<le> length argv0"
  shows "\<exists>l a. esp_console_split_argv (command_line as @ 0 # junk) argv0 argv_size = Some (length as, l, a) \<and>
    (\<forall>k < length as. \<exists>p. a ! k = Some p \<and> c_string_at l p = as ! k) \<and> a ! length as = None"
proof -
  have "0 \<notin> set (escape_char c)" if "c \<noteq> 0" for c using that by (simp add: escape_char_def ESCAPE_def)
  then have "0 \<notin> set a \<Longrightarrow> 0 \<notin> set (quoted a)" for a
    by (auto simp: quoted_def QUOTE_def) (metis)
  then have "0 \<notin> set (command_line as)"
    using assms(1) by (induction as) (simp_all add: SPACE_def)
  moreover have "0 < argv_size" using assms(2) by (metis gr_zeroI less_nat_zero_code unat_0 word_gt_0)
  ultimately obtain n l a where "esp_console_split_argv (command_line as @ 0 # junk) argv0 argv_size = Some (n, l, a)"
    "n = min (length as) (unat argv_size - 1)" "\<forall>k < n. \<exists>p. a ! k = Some p \<and> c_string_at l p = as ! k" "a ! n = None"
    using split_argv_ok [OF _ refl _ assms(3), of "command_line as" junk] unfolding arguments_command_line by blast
  then show ?thesis using assms(2) by (simp add: min_def split: if_splits)
qed

definition two_args :: "bytes list" where
  "two_args = [[97, 32, 98], [34, 92]]"

lemma split_argv_quoted_witness:
  "\<exists>l a. esp_console_split_argv (command_line two_args @ [0]) (replicate 8 None) 8 = Some (2, l, a) \<and>
     (\<forall>k < length two_args. \<exists>p. a ! k = Some p \<and> c_string_at l p = two_args ! k) \<and> a ! 2 = None"
proof -
  have "\<forall>a \<in> set two_args. 0 \<notin> set a" "length two_args = 2" by (simp_all add: two_args_def)
  then show ?thesis using split_argv_quoted [of two_args 8 "replicate 8 None" "[]"] by simp
qed

lemma split_argv_refines_witness:
  "\<exists>n l a. esp_console_split_argv [97, 32, 98, 0] (replicate 2 None) 2 = Some (n, l, a) \<and> n = 1 \<and> a ! n = None"
  using split_argv_refines [of "[97, 32, 98]" "[97, 32, 98, 0]" "[]" 2 "replicate 2 None"]
  by (auto simp: arguments_def SPACE_def QUOTE_def ESCAPE_def)

end
