(* ===== verification/TelnetOptions.thy ===== *)
theory TelnetOptions
  imports Prelude
begin

unbundle bit_operations_syntax

section \<open>Telnet: the state tracker and option negotiation\<close>

text \<open>
  The data of \<open>components/libtelnet\<close> (\<open>include/libtelnet.h\<close>, \<open>src/libtelnet.c\<close>) and its option
  negotiation.  The record \<open>telnet_t\<close> holds the fields of the C struct of that name and, in
  place of the user's event handler, the list of the events handed to it; the handler is taken
  not to call back into the tracker.  \<open>HAVE_ZLIB\<close> is not defined in this build, so the
  compression branches are not part of the model.  Whether an allocation succeeds is the
  parameter \<open>alloc\<close>, any function of the events so far and the size.  A warning event holds the
  name of the function that raised it.
\<close>

type_synonym telnet_environ = "u8 \<times> bytes \<times> bytes"

datatype telnet_event =
    EvData bytes | EvSend bytes | EvIac u8
  | EvWill u8 | EvWont u8 | EvDo u8 | EvDont u8
  | EvSubnegotiation u8 bytes
  | EvZmp "bytes list"
  | EvTtype u8 "bytes option"
  | EvEnviron u8 "telnet_environ list"
  | EvMssp "(bytes \<times> bytes) option list"
  | EvWarning string

datatype telnet_state =
    TELNET_STATE_DATA | TELNET_STATE_EOL | TELNET_STATE_IAC | TELNET_STATE_WILL | TELNET_STATE_WONT
  | TELNET_STATE_DO | TELNET_STATE_DONT | TELNET_STATE_SB | TELNET_STATE_SB_DATA | TELNET_STATE_SB_DATA_IAC

record telnet_telopt =
  to_telopt :: int
  to_us :: u8
  to_him :: u8

record telnet_rfc1143 =
  rfc_telopt :: u8
  rfc_state :: u8

record telnet_t =
  telopts :: "telnet_telopt list option"
  q :: "telnet_rfc1143 list"
  sb_buffer :: bytes
  buffer_pos :: nat
  t_state :: telnet_state
  t_flags :: u8
  sb_telopt :: u8
  q_size :: u8
  events :: "telnet_event list"

type_synonym alloc = "telnet_event list \<Rightarrow> nat \<Rightarrow> bool"

abbreviation (input) TELNET_IAC :: u8 where "TELNET_IAC \<equiv> 255"
abbreviation (input) TELNET_DONT :: u8 where "TELNET_DONT \<equiv> 254"
abbreviation (input) TELNET_DO :: u8 where "TELNET_DO \<equiv> 253"
abbreviation (input) TELNET_WONT :: u8 where "TELNET_WONT \<equiv> 252"
abbreviation (input) TELNET_WILL :: u8 where "TELNET_WILL \<equiv> 251"
abbreviation (input) TELNET_SB :: u8 where "TELNET_SB \<equiv> 250"
abbreviation (input) TELNET_SE :: u8 where "TELNET_SE \<equiv> 240"

abbreviation (input) TELNET_TELOPT_BINARY :: u8 where "TELNET_TELOPT_BINARY \<equiv> 0"
abbreviation (input) TELNET_TELOPT_TTYPE :: u8 where "TELNET_TELOPT_TTYPE \<equiv> 24"
abbreviation (input) TELNET_TELOPT_ENVIRON :: u8 where "TELNET_TELOPT_ENVIRON \<equiv> 36"
abbreviation (input) TELNET_TELOPT_NEW_ENVIRON :: u8 where "TELNET_TELOPT_NEW_ENVIRON \<equiv> 39"
abbreviation (input) TELNET_TELOPT_MSSP :: u8 where "TELNET_TELOPT_MSSP \<equiv> 70"
abbreviation (input) TELNET_TELOPT_COMPRESS :: u8 where "TELNET_TELOPT_COMPRESS \<equiv> 85"
abbreviation (input) TELNET_TELOPT_ZMP :: u8 where "TELNET_TELOPT_ZMP \<equiv> 93"

abbreviation (input) TELNET_FLAG_PROXY :: u8 where "TELNET_FLAG_PROXY \<equiv> 1"
abbreviation (input) TELNET_FLAG_NVT_EOL :: u8 where "TELNET_FLAG_NVT_EOL \<equiv> 2"
abbreviation (input) TELNET_FLAG_TRANSMIT_BINARY :: u8 where "TELNET_FLAG_TRANSMIT_BINARY \<equiv> 32"
abbreviation (input) TELNET_FLAG_RECEIVE_BINARY :: u8 where "TELNET_FLAG_RECEIVE_BINARY \<equiv> 64"

definition has_flag :: "u8 \<Rightarrow> telnet_t \<Rightarrow> bool" where
  "has_flag f t \<longleftrightarrow> t_flags t AND f \<noteq> 0"

definition eh :: "telnet_event \<Rightarrow> telnet_t \<Rightarrow> telnet_t" where
  "eh ev t = t\<lparr>events := events t @ [ev]\<rparr>"

definition error :: "string \<Rightarrow> telnet_t \<Rightarrow> telnet_t" where
  "error func t = eh (EvWarning func) t"

definition send_bytes :: "bytes \<Rightarrow> telnet_t \<Rightarrow> telnet_t" where
  "send_bytes b t = eh (EvSend b) t"

definition telnet_init :: "telnet_telopt list option \<Rightarrow> u8 \<Rightarrow> telnet_t" where
  "telnet_init tbl flags =
     \<lparr>telopts = tbl, q = [], sb_buffer = [], buffer_pos = 0, t_state = TELNET_STATE_DATA,
      t_flags = flags, sb_telopt = 0, q_size = 0, events = []\<rparr>"

subsection \<open>The option table\<close>

text \<open>The caller's table up to its end marker.\<close>

fun check_table :: "telnet_telopt list \<Rightarrow> u8 \<Rightarrow> bool \<Rightarrow> bool" where
  "check_table [] telopt us = False"
| "check_table (e # es) telopt us =
     (if to_telopt e = uint telopt
      then if us \<and> to_us e = TELNET_WILL then True
           else if \<not> us \<and> to_him e = TELNET_DO then True else False
      else check_table es telopt us)"

definition check_telopt :: "telnet_t \<Rightarrow> u8 \<Rightarrow> bool \<Rightarrow> bool" where
  "check_telopt t telopt us = (case telopts t of None \<Rightarrow> False | Some es \<Rightarrow> check_table es telopt us)"

subsection \<open>The option states\<close>

abbreviation Q_NO :: u8 where "Q_NO \<equiv> 0"
abbreviation Q_YES :: u8 where "Q_YES \<equiv> 1"
abbreviation Q_WANTNO :: u8 where "Q_WANTNO \<equiv> 2"
abbreviation Q_WANTYES :: u8 where "Q_WANTYES \<equiv> 3"
abbreviation Q_WANTNO_OP :: u8 where "Q_WANTNO_OP \<equiv> 4"
abbreviation Q_WANTYES_OP :: u8 where "Q_WANTYES_OP \<equiv> 5"

definition Q_US :: "u8 \<Rightarrow> u8" where "Q_US s = s AND 0x0F"
definition Q_HIM :: "u8 \<Rightarrow> u8" where "Q_HIM s = drop_bit 4 (s AND 0xF0)"
definition Q_MAKE :: "u8 \<Rightarrow> u8 \<Rightarrow> u8" where "Q_MAKE us him = us OR push_bit 4 him"

fun find_entry :: "telnet_rfc1143 list \<Rightarrow> u8 \<Rightarrow> nat option" where
  "find_entry [] telopt = None"
| "find_entry (e # es) telopt = (if rfc_telopt e = telopt then Some 0 else map_option Suc (find_entry es telopt))"

definition entries :: "telnet_t \<Rightarrow> telnet_rfc1143 list" where
  "entries t = take (unat (q_size t)) (q t)"

definition get_rfc1143 :: "telnet_t \<Rightarrow> u8 \<Rightarrow> u8" where
  "get_rfc1143 t telopt =
     (case find_entry (entries t) telopt of Some i \<Rightarrow> rfc_state (entries t ! i) | None \<Rightarrow> 0)"

definition binary_flags :: "u8 \<Rightarrow> u8 \<Rightarrow> u8 \<Rightarrow> u8" where
  "binary_flags us him fl =
     (let f0 = fl AND NOT (TELNET_FLAG_TRANSMIT_BINARY OR TELNET_FLAG_RECEIVE_BINARY);
          f1 = (if us = Q_YES then f0 OR TELNET_FLAG_TRANSMIT_BINARY else f0)
      in if him = Q_YES then f1 OR TELNET_FLAG_RECEIVE_BINARY else f1)"

definition set_rfc1143 :: "alloc \<Rightarrow> u8 \<Rightarrow> u8 \<Rightarrow> u8 \<Rightarrow> telnet_t \<Rightarrow> telnet_t" where
  "set_rfc1143 alloc telopt us him t =
     (case find_entry (entries t) telopt of
        Some i \<Rightarrow>
          let t' = t\<lparr>q := (q t)[i := (q t ! i)\<lparr>rfc_state := Q_MAKE us him\<rparr>]\<rparr>
          in if telopt \<noteq> TELNET_TELOPT_BINARY then t' else t'\<lparr>t_flags := binary_flags us him (t_flags t')\<rparr>
      | None \<Rightarrow>
          if \<not> alloc (events t) (2 * (unat (q_size t) + 4)) then error ''_set_rfc1143'' t
          else t\<lparr>q := entries t @ [\<lparr>rfc_telopt = telopt, rfc_state = Q_MAKE us him\<rparr>,
                                   \<lparr>rfc_telopt = 0, rfc_state = 0\<rparr>, \<lparr>rfc_telopt = 0, rfc_state = 0\<rparr>,
                                   \<lparr>rfc_telopt = 0, rfc_state = 0\<rparr>],
                 q_size := q_size t + 4\<rparr>)"

definition send_negotiate :: "u8 \<Rightarrow> u8 \<Rightarrow> telnet_t \<Rightarrow> telnet_t" where
  "send_negotiate cmd telopt t = send_bytes [TELNET_IAC, cmd, telopt] t"

subsection \<open>Received negotiation commands\<close>

text \<open>Each handler gets the state \<open>us\<close> of the local and \<open>him\<close> of the remote end.\<close>

definition got_will :: "alloc \<Rightarrow> u8 \<Rightarrow> u8 \<Rightarrow> u8 \<Rightarrow> telnet_t \<Rightarrow> telnet_t" where
  "got_will alloc telopt us him t =
     (if him = Q_NO then
        if check_telopt t telopt False
        then eh (EvWill telopt) (send_negotiate TELNET_DO telopt (set_rfc1143 alloc telopt us Q_YES t))
        else send_negotiate TELNET_DONT telopt t
      else if him = Q_WANTNO then
        error ''_negotiate'' (eh (EvWont telopt) (set_rfc1143 alloc telopt us Q_NO t))
      else if him = Q_WANTNO_OP then
        error ''_negotiate'' (eh (EvWill telopt) (set_rfc1143 alloc telopt us Q_YES t))
      else if him = Q_WANTYES then eh (EvWill telopt) (set_rfc1143 alloc telopt us Q_YES t)
      else if him = Q_WANTYES_OP then
        eh (EvWill telopt) (send_negotiate TELNET_DONT telopt (set_rfc1143 alloc telopt us Q_WANTNO t))
      else t)"

definition got_wont :: "alloc \<Rightarrow> u8 \<Rightarrow> u8 \<Rightarrow> u8 \<Rightarrow> telnet_t \<Rightarrow> telnet_t" where
  "got_wont alloc telopt us him t =
     (if him = Q_YES then
        eh (EvWont telopt) (send_negotiate TELNET_DONT telopt (set_rfc1143 alloc telopt us Q_NO t))
      else if him = Q_WANTNO then eh (EvWont telopt) (set_rfc1143 alloc telopt us Q_NO t)
      else if him = Q_WANTNO_OP then eh (EvDo telopt) (set_rfc1143 alloc telopt us Q_WANTYES t)
      else if him = Q_WANTYES \<or> him = Q_WANTYES_OP then set_rfc1143 alloc telopt us Q_NO t
      else t)"

definition got_do :: "alloc \<Rightarrow> u8 \<Rightarrow> u8 \<Rightarrow> u8 \<Rightarrow> telnet_t \<Rightarrow> telnet_t" where
  "got_do alloc telopt us him t =
     (if us = Q_NO then
        if check_telopt t telopt True
        then eh (EvDo telopt) (send_negotiate TELNET_WILL telopt (set_rfc1143 alloc telopt Q_YES him t))
        else send_negotiate TELNET_WONT telopt t
      else if us = Q_WANTNO then
        error ''_negotiate'' (eh (EvDont telopt) (set_rfc1143 alloc telopt Q_NO him t))
      else if us = Q_WANTNO_OP then
        error ''_negotiate'' (eh (EvDo telopt) (set_rfc1143 alloc telopt Q_YES him t))
      else if us = Q_WANTYES then eh (EvDo telopt) (set_rfc1143 alloc telopt Q_YES him t)
      else if us = Q_WANTYES_OP then
        eh (EvDo telopt) (send_negotiate TELNET_WONT telopt (set_rfc1143 alloc telopt Q_WANTNO him t))
      else t)"

definition got_dont :: "alloc \<Rightarrow> u8 \<Rightarrow> u8 \<Rightarrow> u8 \<Rightarrow> telnet_t \<Rightarrow> telnet_t" where
  "got_dont alloc telopt us him t =
     (if us = Q_YES then
        eh (EvDont telopt) (send_negotiate TELNET_WONT telopt (set_rfc1143 alloc telopt Q_NO him t))
      else if us = Q_WANTNO then eh (EvWont telopt) (set_rfc1143 alloc telopt Q_NO him t)
      else if us = Q_WANTNO_OP then
        eh (EvWill telopt) (send_negotiate TELNET_WILL telopt (set_rfc1143 alloc telopt Q_WANTYES him t))
      else if us = Q_WANTYES \<or> us = Q_WANTYES_OP then set_rfc1143 alloc telopt Q_NO him t
      else t)"

definition negotiate :: "alloc \<Rightarrow> u8 \<Rightarrow> telnet_t \<Rightarrow> telnet_t" where
  "negotiate alloc telopt t =
     (if has_flag TELNET_FLAG_PROXY t then
        (case t_state t of
           TELNET_STATE_WILL \<Rightarrow> eh (EvWill telopt) t
         | TELNET_STATE_WONT \<Rightarrow> eh (EvWont telopt) t
         | TELNET_STATE_DO \<Rightarrow> eh (EvDo telopt) t
         | TELNET_STATE_DONT \<Rightarrow> eh (EvDont telopt) t
         | _ \<Rightarrow> t)
      else
        let s = get_rfc1143 t telopt in
        (case t_state t of
           TELNET_STATE_WILL \<Rightarrow> got_will alloc telopt (Q_US s) (Q_HIM s) t
         | TELNET_STATE_WONT \<Rightarrow> got_wont alloc telopt (Q_US s) (Q_HIM s) t
         | TELNET_STATE_DO \<Rightarrow> got_do alloc telopt (Q_US s) (Q_HIM s) t
         | TELNET_STATE_DONT \<Rightarrow> got_dont alloc telopt (Q_US s) (Q_HIM s) t
         | _ \<Rightarrow> t))"

subsection \<open>Requests of the application\<close>

definition telnet_negotiate :: "alloc \<Rightarrow> u8 \<Rightarrow> u8 \<Rightarrow> telnet_t \<Rightarrow> telnet_t" where
  "telnet_negotiate alloc cmd telopt t =
     (if has_flag TELNET_FLAG_PROXY t then send_bytes [TELNET_IAC, cmd, telopt] t
      else
        let s = get_rfc1143 t telopt; us = Q_US s; him = Q_HIM s in
        if cmd = TELNET_WILL then
          if us = Q_NO then send_negotiate TELNET_WILL telopt (set_rfc1143 alloc telopt Q_WANTYES him t)
          else if us = Q_WANTNO then set_rfc1143 alloc telopt Q_WANTNO_OP him t
          else if us = Q_WANTYES_OP then set_rfc1143 alloc telopt Q_WANTYES him t
          else t
        else if cmd = TELNET_WONT then
          if us = Q_YES then send_negotiate TELNET_WONT telopt (set_rfc1143 alloc telopt Q_WANTNO him t)
          else if us = Q_WANTYES then set_rfc1143 alloc telopt Q_WANTYES_OP him t
          else if us = Q_WANTNO_OP then set_rfc1143 alloc telopt Q_WANTNO him t
          else t
        else if cmd = TELNET_DO then
          if him = Q_NO then send_negotiate TELNET_DO telopt (set_rfc1143 alloc telopt us Q_WANTYES t)
          else if him = Q_WANTNO then set_rfc1143 alloc telopt us Q_WANTNO_OP t
          else if him = Q_WANTYES_OP then set_rfc1143 alloc telopt us Q_WANTYES t
          else t
        else if cmd = TELNET_DONT then
          if him = Q_YES then send_negotiate TELNET_DONT telopt (set_rfc1143 alloc telopt us Q_WANTNO t)
          else if him = Q_WANTYES then set_rfc1143 alloc telopt us Q_WANTYES_OP t
          else if him = Q_WANTNO_OP then set_rfc1143 alloc telopt us Q_WANTNO t
          else t
        else t)"

end
