(* ===== verification/TelnetSubneg.thy ===== *)
theory TelnetSubneg
  imports TelnetOptions
begin

section \<open>Telnet: subnegotiation bodies\<close>

text \<open>
  The parsers of \<open>libtelnet.c\<close> for the bodies of a subnegotiation: \<open>_environ_telnet\<close>, which
  unescapes names and values inside the buffer, \<open>_mssp_telnet\<close>, \<open>_zmp_telnet\<close> and \<open>_ttype_telnet\<close>.
  They work on the whole buffer of the tracker, of which the first \<open>sz\<close> bytes are the body;
  positions are indices, and an access outside the buffer, like a C string without an end, is
  \<open>None\<close>.  The strings of an event are read from the buffer when the event is raised.
\<close>

abbreviation (input) ENVIRON_VAR :: u8 where "ENVIRON_VAR \<equiv> 0"
abbreviation (input) ENVIRON_VALUE :: u8 where "ENVIRON_VALUE \<equiv> 1"
abbreviation (input) ENVIRON_ESC :: u8 where "ENVIRON_ESC \<equiv> 2"
abbreviation (input) ENVIRON_USERVAR :: u8 where "ENVIRON_USERVAR \<equiv> 3"
abbreviation (input) MSSP_VAR :: u8 where "MSSP_VAR \<equiv> 1"
abbreviation (input) MSSP_VAL :: u8 where "MSSP_VAL \<equiv> 2"

definition cstr_at :: "bytes \<Rightarrow> nat \<Rightarrow> bytes option" where
  "cstr_at b p = (if 0 \<in> set (drop p b) then Some (takeWhile (\<lambda>c. c \<noteq> 0) (drop p b)) else None)"

subsection \<open>ENVIRON\<close>

text \<open>The count of variables: an escape hides the byte behind it.\<close>

function env_count :: "bytes \<Rightarrow> nat \<Rightarrow> nat \<Rightarrow> nat option" where
  "env_count b sz c =
     (if c < sz
      then do { x \<leftarrow> rd b c;
                if x = ENVIRON_VAR \<or> x = ENVIRON_USERVAR
                then do { n \<leftarrow> env_count b sz (c + 1); Some (n + 1) }
                else env_count b sz (if x = ENVIRON_ESC then c + 2 else c + 1) }
      else Some 0)"
  by pat_completeness auto
termination by (relation "measure (\<lambda>(b, sz, c). sz - c)") (auto split: if_splits)

text \<open>The two inner loops: unescaped bytes move down to \<open>out\<close> until a byte of \<open>stops\<close>.\<close>

function env_copy :: "u8 set \<Rightarrow> nat \<Rightarrow> bytes \<Rightarrow> nat \<Rightarrow> nat \<Rightarrow> (bytes \<times> nat \<times> nat) option" where
  "env_copy stops sz b c out =
     (if c < sz
      then do { x \<leftarrow> rd b c;
                if x \<in> stops then Some (b, c, out)
                else let c' = (if x = ENVIRON_ESC then c + 1 else c) in
                  do { y \<leftarrow> rd b c';
                       b' \<leftarrow> wr b out y;
                       env_copy stops sz b' (c' + 1) (out + 1) } }
      else Some (b, c, out))"
  by pat_completeness auto
termination by (relation "measure (\<lambda>(stops, sz, b, c, out). sz - c)") (auto split: if_splits)

declare env_count.simps [simp del] env_copy.simps [simp del]

text \<open>One variable: its type, its name and, behind a VALUE byte, its value.\<close>

definition env_value :: "nat \<Rightarrow> bytes \<times> nat \<times> nat \<Rightarrow> (bytes \<times> nat \<times> nat \<times> nat option) option" where
  "env_value sz s =
     (case s of (b, c, out) \<Rightarrow> do {
        at_value \<leftarrow> (if c < sz then do { x \<leftarrow> rd b c; Some (x = ENVIRON_VALUE) } else Some False);
        if at_value
        then do { (b1, c1, out1) \<leftarrow> env_copy {ENVIRON_VAR, ENVIRON_USERVAR} sz b (c + 1) out;
                  b2 \<leftarrow> wr b1 out1 0;
                  Some (b2, c1, out1 + 1, Some out) }
        else Some (b, c, out, None) })"

definition env_variable ::
  "nat \<Rightarrow> bytes \<times> nat \<times> nat \<Rightarrow> ((bytes \<times> nat \<times> nat) \<times> u8 \<times> nat \<times> nat option) option" where
  "env_variable sz s =
     (case s of (b, c, out) \<Rightarrow> do {
        typ \<leftarrow> rd b c;
        (b1, c1, out1) \<leftarrow> env_copy {ENVIRON_VAR, ENVIRON_VALUE, ENVIRON_USERVAR} sz b (c + 1) out;
        b2 \<leftarrow> wr b1 out1 0;
        (b3, c3, out3, v) \<leftarrow> env_value sz (b2, c1, out1 + 1);
        Some ((b3, c3, out3), typ, out, v) })"

primrec env_variables ::
  "nat \<Rightarrow> nat \<Rightarrow> bytes \<times> nat \<times> nat \<Rightarrow> ((bytes \<times> nat \<times> nat) \<times> (u8 \<times> nat \<times> nat option) list) option" where
  "env_variables 0 sz s = Some (s, [])"
| "env_variables (Suc n) sz s = do {
     (s1, v) \<leftarrow> env_variable sz s;
     (s2, vs) \<leftarrow> env_variables n sz s1;
     Some (s2, v # vs) }"

definition env_strings :: "bytes \<Rightarrow> u8 \<times> nat \<times> nat option \<Rightarrow> telnet_environ option" where
  "env_strings b v =
     (case v of (typ, name, val) \<Rightarrow> do {
        n \<leftarrow> cstr_at b name;
        w \<leftarrow> (case val of None \<Rightarrow> Some [] | Some p \<Rightarrow> cstr_at b p);
        Some (typ, n, w) })"

primrec all_strings :: "('a \<Rightarrow> 'b option) \<Rightarrow> 'a list \<Rightarrow> 'b list option" where
  "all_strings f [] = Some []"
| "all_strings f (x # xs) = do { y \<leftarrow> f x; ys \<leftarrow> all_strings f xs; Some (y # ys) }"

definition environ_telnet :: "alloc \<Rightarrow> telnet_t \<Rightarrow> nat \<Rightarrow> (telnet_t \<times> int) option" where
  "environ_telnet alloc t sz =
     (if sz = 0 then Some (t, 0)
      else do {
        let b = sb_buffer t;
        cmd \<leftarrow> rd b 0;
        if cmd \<noteq> 1 \<and> cmd \<noteq> 0 \<and> cmd \<noteq> 2 then Some (error ''_environ_telnet'' t, 0)
        else if sz = 1 then Some (eh (EvEnviron cmd []) t, 1)
        else do {
          x \<leftarrow> rd b 1;
          z \<leftarrow> rd b (sz - 1);
          if x \<noteq> ENVIRON_VAR \<and> x \<noteq> ENVIRON_USERVAR then Some (error ''_environ_telnet'' t, 0)
          else if z = ENVIRON_ESC then Some (error ''_environ_telnet'' t, 0)
          else do {
            n \<leftarrow> env_count b sz 1;
            if \<not> alloc (events t) (n * 12) then Some (error ''_environ_telnet'' t, 0)
            else do {
              (s, vs) \<leftarrow> env_variables n sz (b, 1, 0);
              values \<leftarrow> all_strings (env_strings (fst s)) vs;
              Some (eh (EvEnviron cmd values) (t\<lparr>sb_buffer := fst s\<rparr>), 1) } } } })"

subsection \<open>MSSP\<close>

function mssp_copy :: "nat \<Rightarrow> bytes \<Rightarrow> nat \<Rightarrow> nat \<Rightarrow> (bytes \<times> nat \<times> nat) option" where
  "mssp_copy sz b c out =
     (if c < sz
      then do { x \<leftarrow> rd b c;
                if x = MSSP_VAR \<or> x = MSSP_VAL then Some (b, c, out)
                else do { b' \<leftarrow> wr b out x; mssp_copy sz b' (c + 1) (out + 1) } }
      else Some (b, c, out))"
  by pat_completeness auto
termination by (relation "measure (\<lambda>(sz, b, c, out). sz - c)") auto

declare mssp_copy.simps [simp del]

lemma mssp_copy_mono: "mssp_copy sz b c out = Some (b', c', out') \<Longrightarrow> c \<le> c'"
proof (induction sz b c out rule: mssp_copy.induct)
  case (1 sz b c out)
  from 1(2) show ?case
    by (subst (asm) mssp_copy.simps) (auto simp: bind_eq_Some_conv split: if_splits dest: 1(1))
qed

text \<open>The main loop, with the entries filled so far; \<open>None\<close> in its result is the error exit.\<close>

function mssp_loop ::
  "nat \<Rightarrow> bytes \<Rightarrow> nat \<Rightarrow> nat \<Rightarrow> nat \<Rightarrow> u8 \<Rightarrow> nat option \<Rightarrow> (nat \<times> nat) option list \<Rightarrow> nat \<Rightarrow>
   (bytes \<times> (nat \<times> nat) option list option) option" where
  "mssp_loop sz b c out lst next_type var vals i =
     (if c < sz
      then (case mssp_copy sz b c out of
              None \<Rightarrow> None
            | Some (b1, c1, out1) \<Rightarrow>
                (case wr b1 out1 0 of
                   None \<Rightarrow> None
                 | Some b2 \<Rightarrow>
                     if next_type = MSSP_VAR
                     then (case rd b2 c1 of None \<Rightarrow> None
                           | Some nt \<Rightarrow> mssp_loop sz b2 (c1 + 1) (out1 + 1) (out1 + 1) nt (Some lst) vals i)
                     else if next_type = MSSP_VAL \<and> var \<noteq> None
                     then (case wr vals i (Some (the var, lst)) of None \<Rightarrow> None
                           | Some vals' \<Rightarrow>
                               (case rd b2 c1 of None \<Rightarrow> None
                                | Some nt \<Rightarrow> mssp_loop sz b2 (c1 + 1) (out1 + 1) (out1 + 1) nt var vals' (i + 1)))
                     else Some (b2, None)))
      else Some (b, Some vals))"
  by pat_completeness auto
termination
  by (relation "measure (\<lambda>(sz, b, c, out, lst, next_type, var, vals, i). sz - c)")
    (auto dest!: mssp_copy_mono)

declare mssp_loop.simps [simp del]

definition mssp_strings :: "bytes \<Rightarrow> (nat \<times> nat) option \<Rightarrow> (bytes \<times> bytes) option option" where
  "mssp_strings b v =
     (case v of None \<Rightarrow> Some None
      | Some (name, val) \<Rightarrow> do { n \<leftarrow> cstr_at b name; w \<leftarrow> cstr_at b val; Some (Some (n, w)) })"

definition mssp_telnet :: "alloc \<Rightarrow> telnet_t \<Rightarrow> nat \<Rightarrow> (telnet_t \<times> int) option" where
  "mssp_telnet alloc t sz =
     (if sz = 0 then Some (t, 0)
      else do {
        let b = sb_buffer t;
        x \<leftarrow> rd b 0;
        if x \<noteq> MSSP_VAR then Some (error ''_mssp_telnet'' t, 0)
        else do {
          body \<leftarrow> rdn b 0 sz;
          let n = length (filter (\<lambda>x. x = MSSP_VAL) body);
          if \<not> alloc (events t) (n * 12) then Some (error ''_mssp_telnet'' t, 0)
          else do {
            (b', r) \<leftarrow> mssp_loop sz b 1 0 0 x None (replicate n None) 0;
            (case r of
               None \<Rightarrow> Some (error ''_mssp_telnet'' (t\<lparr>sb_buffer := b'\<rparr>), 0)
             | Some vals \<Rightarrow> do {
                 values \<leftarrow> all_strings (mssp_strings b') vals;
                 Some (eh (EvMssp values) (t\<lparr>sb_buffer := b'\<rparr>), 0) }) } } })"

subsection \<open>ZMP and TERMINAL-TYPE\<close>

text \<open>The arguments from \<open>c\<close> on; passing the end of the body without meeting it is \<open>None\<close>.\<close>

function zmp_args :: "bytes \<Rightarrow> nat \<Rightarrow> nat \<Rightarrow> bytes list option" where
  "zmp_args b sz c =
     (if c = sz then Some []
      else if c < sz
      then (case cstr_at b c of
              None \<Rightarrow> None
            | Some s \<Rightarrow> map_option ((#) s) (zmp_args b sz (c + length s + 1)))
      else None)"
  by pat_completeness auto
termination by (relation "measure (\<lambda>(b, sz, c). sz - c)") auto

declare zmp_args.simps [simp del]

definition zmp_telnet :: "alloc \<Rightarrow> telnet_t \<Rightarrow> nat \<Rightarrow> (telnet_t \<times> int) option" where
  "zmp_telnet alloc t sz =
     (if sz = 0 then Some (error ''_zmp_telnet'' t, 0)
      else do {
        let b = sb_buffer t;
        z \<leftarrow> rd b (sz - 1);
        if z \<noteq> 0 then Some (error ''_zmp_telnet'' t, 0)
        else do {
          args \<leftarrow> zmp_args b sz 0;
          Some (if \<not> alloc (events t) (length args * 4) then (error ''_zmp_telnet'' t, 0)
                else (eh (EvZmp args) t, 0)) } })"

definition ttype_telnet :: "alloc \<Rightarrow> telnet_t \<Rightarrow> nat \<Rightarrow> (telnet_t \<times> int) option" where
  "ttype_telnet alloc t sz =
     (if sz = 0 then Some (error ''_ttype_telnet'' t, 0)
      else do {
        let b = sb_buffer t;
        cmd \<leftarrow> rd b 0;
        if cmd \<noteq> 0 \<and> cmd \<noteq> 1 then Some (error ''_ttype_telnet'' t, 0)
        else if cmd = 0
        then if \<not> alloc (events t) sz then Some (error ''_ttype_telnet'' t, 0)
             else do {
               name \<leftarrow> rdn b 1 (sz - 1);
               Some (eh (EvTtype 0 (Some (takeWhile (\<lambda>c. c \<noteq> 0) name))) t, 0) }
        else Some (eh (EvTtype 1 None) t, 0) })"

definition subnegotiate :: "alloc \<Rightarrow> telnet_t \<Rightarrow> (telnet_t \<times> int) option" where
  "subnegotiate alloc t0 = do {
     body \<leftarrow> rdn (sb_buffer t0) 0 (buffer_pos t0);
     let t = eh (EvSubnegotiation (sb_telopt t0) body) t0;
     if sb_telopt t = TELNET_TELOPT_ZMP then zmp_telnet alloc t (buffer_pos t)
     else if sb_telopt t = TELNET_TELOPT_TTYPE then ttype_telnet alloc t (buffer_pos t)
     else if sb_telopt t = TELNET_TELOPT_ENVIRON \<or> sb_telopt t = TELNET_TELOPT_NEW_ENVIRON
     then environ_telnet alloc t (buffer_pos t)
     else if sb_telopt t = TELNET_TELOPT_MSSP then mssp_telnet alloc t (buffer_pos t)
     else Some (t, 0) }"

end
