(* ===== verification/Telnet.thy ===== *)
theory Telnet
  imports TelnetSubneg
begin

section \<open>Telnet: receiving and sending\<close>

text \<open>
  The byte loop \<open>_process\<close> of \<open>libtelnet.c\<close> and the sending functions.  \<open>run\<close> is the loop, with
  the index \<open>i\<close> and the begin \<open>start\<close> of the text not yet handed on; \<open>in_data\<close> to \<open>in_sb_iac\<close> are
  the cases of its switch.  The case of an unexpected byte behind IAC in a subnegotiation calls
  \<open>_process\<close> for that byte alone: the argument \<open>sub\<close> of \<open>run\<close> is that call, and \<open>telnet_recv\<close>
  nests two loops.  Where the code reinvokes \<open>telnet_recv\<close> on the rest of its input, the step is
  \<open>Again\<close>.  A negative length is \<open>None\<close>.  Bytes of a fresh allocation are zero.
\<close>

definition buffer_sizes :: "nat list" where
  "buffer_sizes = [0, 512, 2048, 8192, 16384]"

fun find_size :: "nat list \<Rightarrow> nat \<Rightarrow> nat" where
  "find_size [] n = 0"
| "find_size (s # ss) n = (if s = n then 0 else Suc (find_size ss n))"

definition buffer_byte :: "alloc \<Rightarrow> u8 \<Rightarrow> telnet_t \<Rightarrow> (bool \<times> telnet_t) option" where
  "buffer_byte alloc byte t = do {
     (ok, t1) \<leftarrow>
       (if buffer_pos t = length (sb_buffer t)
        then let i = find_size buffer_sizes (length (sb_buffer t)) in
          if i \<ge> length buffer_sizes - 1 then Some (False, error ''_buffer_byte'' t)
          else let new = buffer_sizes ! (i + 1) in
            if \<not> alloc (events t) new then Some (False, error ''_buffer_byte'' t)
            else Some (True, t\<lparr>sb_buffer := sb_buffer t @ replicate (new - length (sb_buffer t)) 0\<rparr>)
        else Some (True, t));
     if \<not> ok then Some (False, t1)
     else do { b \<leftarrow> wr (sb_buffer t1) (buffer_pos t1) byte;
               Some (True, t1\<lparr>sb_buffer := b, buffer_pos := buffer_pos t1 + 1\<rparr>) } }"

definition pass_on :: "bytes \<Rightarrow> nat \<Rightarrow> nat \<Rightarrow> telnet_t \<Rightarrow> telnet_t option" where
  "pass_on buf start i t =
     (if i = start then Some t
      else if start \<le> i then do { d \<leftarrow> rdn buf start (i - start); Some (eh (EvData d) t) }
      else None)"

datatype step = Next nat telnet_t | Again telnet_t

definition set_state :: "telnet_state \<Rightarrow> telnet_t \<Rightarrow> telnet_t" where
  "set_state st t = t\<lparr>t_state := st\<rparr>"

definition in_data :: "u8 \<Rightarrow> bytes \<Rightarrow> nat \<Rightarrow> nat \<Rightarrow> telnet_t \<Rightarrow> step option" where
  "in_data byte buf i start t =
     (if byte = TELNET_IAC
      then do { t1 \<leftarrow> pass_on buf start i t; Some (Next start (set_state TELNET_STATE_IAC t1)) }
      else if byte = 13 \<and> has_flag TELNET_FLAG_NVT_EOL t \<and> \<not> has_flag TELNET_FLAG_RECEIVE_BINARY t
      then do { t1 \<leftarrow> pass_on buf start i t; Some (Next start (set_state TELNET_STATE_EOL t1)) }
      else Some (Next start t))"

definition in_eol :: "u8 \<Rightarrow> nat \<Rightarrow> telnet_t \<Rightarrow> step option" where
  "in_eol byte i t =
     (let t1 = (if byte \<noteq> 10 then eh (EvData [13]) t else t);
          start = (if byte = 0 then i + 1 else i)
      in Some (Next start (set_state TELNET_STATE_DATA t1)))"

definition in_iac :: "u8 \<Rightarrow> nat \<Rightarrow> nat \<Rightarrow> telnet_t \<Rightarrow> step option" where
  "in_iac byte i start t =
     (if byte = TELNET_SB then Some (Next start (set_state TELNET_STATE_SB t))
      else if byte = TELNET_WILL then Some (Next start (set_state TELNET_STATE_WILL t))
      else if byte = TELNET_WONT then Some (Next start (set_state TELNET_STATE_WONT t))
      else if byte = TELNET_DO then Some (Next start (set_state TELNET_STATE_DO t))
      else if byte = TELNET_DONT then Some (Next start (set_state TELNET_STATE_DONT t))
      else if byte = TELNET_IAC
      then Some (Next (i + 1) (set_state TELNET_STATE_DATA (eh (EvData [byte]) t)))
      else Some (Next (i + 1) (set_state TELNET_STATE_DATA (eh (EvIac byte) t))))"

definition in_negotiation :: "alloc \<Rightarrow> u8 \<Rightarrow> nat \<Rightarrow> telnet_t \<Rightarrow> step option" where
  "in_negotiation alloc byte i t =
     Some (Next (i + 1) (set_state TELNET_STATE_DATA (negotiate alloc byte t)))"

definition in_sb :: "u8 \<Rightarrow> nat \<Rightarrow> telnet_t \<Rightarrow> step option" where
  "in_sb byte start t =
     Some (Next start (set_state TELNET_STATE_SB_DATA (t\<lparr>sb_telopt := byte, buffer_pos := 0\<rparr>)))"

definition in_sb_data :: "alloc \<Rightarrow> u8 \<Rightarrow> nat \<Rightarrow> nat \<Rightarrow> telnet_t \<Rightarrow> step option" where
  "in_sb_data alloc byte i start t =
     (if byte = TELNET_IAC then Some (Next start (set_state TELNET_STATE_SB_DATA_IAC t))
      else if sb_telopt t = TELNET_TELOPT_COMPRESS \<and> byte = TELNET_WILL
      then Some (Next (i + 2) (set_state TELNET_STATE_DATA t))
      else do {
        (ok, t1) \<leftarrow> buffer_byte alloc byte t;
        Some (if ok then Next start t1 else Next (i + 1) (set_state TELNET_STATE_DATA t1)) })"

definition in_sb_iac ::
  "(u8 \<Rightarrow> telnet_t \<Rightarrow> telnet_t option) \<Rightarrow> alloc \<Rightarrow> u8 \<Rightarrow> nat \<Rightarrow> nat \<Rightarrow> telnet_t \<Rightarrow> step option" where
  "in_sb_iac sub alloc byte i start t =
     (if byte = TELNET_SE
      then do {
        (t1, r) \<leftarrow> subnegotiate alloc (set_state TELNET_STATE_DATA t);
        Some (if r \<noteq> 0 then Again t1 else Next (i + 1) t1) }
      else if byte = TELNET_IAC
      then do {
        (ok, t1) \<leftarrow> buffer_byte alloc TELNET_IAC t;
        Some (if \<not> ok then Next (i + 1) (set_state TELNET_STATE_DATA t1)
              else Next start (set_state TELNET_STATE_SB_DATA t1)) }
      else do {
        (t1, r) \<leftarrow> subnegotiate alloc (set_state TELNET_STATE_IAC (error ''_process'' t));
        if r \<noteq> 0 then Some (Again t1)
        else do { t2 \<leftarrow> sub byte t1; Some (Next (i + 1) t2) } })"

definition process_byte ::
  "(u8 \<Rightarrow> telnet_t \<Rightarrow> telnet_t option) \<Rightarrow> alloc \<Rightarrow> bytes \<Rightarrow> nat \<Rightarrow> nat \<Rightarrow> telnet_t \<Rightarrow> step option" where
  "process_byte sub alloc buf i start t = do {
     byte \<leftarrow> rd buf i;
     (case t_state t of
        TELNET_STATE_DATA \<Rightarrow> in_data byte buf i start t
      | TELNET_STATE_EOL \<Rightarrow> in_eol byte i t
      | TELNET_STATE_IAC \<Rightarrow> in_iac byte i start t
      | TELNET_STATE_WILL \<Rightarrow> in_negotiation alloc byte i t
      | TELNET_STATE_WONT \<Rightarrow> in_negotiation alloc byte i t
      | TELNET_STATE_DO \<Rightarrow> in_negotiation alloc byte i t
      | TELNET_STATE_DONT \<Rightarrow> in_negotiation alloc byte i t
      | TELNET_STATE_SB \<Rightarrow> in_sb byte start t
      | TELNET_STATE_SB_DATA \<Rightarrow> in_sb_data alloc byte i start t
      | TELNET_STATE_SB_DATA_IAC \<Rightarrow> in_sb_iac sub alloc byte i start t) }"

definition pass_rest :: "bytes \<Rightarrow> nat \<Rightarrow> nat \<Rightarrow> telnet_t \<Rightarrow> telnet_t option" where
  "pass_rest buf i start t = (if t_state t = TELNET_STATE_DATA then pass_on buf start i t else Some t)"

function run ::
  "(u8 \<Rightarrow> telnet_t \<Rightarrow> telnet_t option) \<Rightarrow> alloc \<Rightarrow> bytes \<Rightarrow> nat \<Rightarrow> nat \<Rightarrow> telnet_t \<Rightarrow> telnet_t option" where
  "run sub alloc buf i start t =
     (if i < length buf
      then (case process_byte sub alloc buf i start t of
              None \<Rightarrow> None
            | Some (Next start' t') \<Rightarrow> run sub alloc buf (i + 1) start' t'
            | Some (Again t') \<Rightarrow> run sub alloc (drop (i + 1) buf) 0 0 t')
      else pass_rest buf i start t)"
  by pat_completeness auto
termination by (relation "measure (\<lambda>(sub, alloc, buf, i, start, t). length buf - i)") auto

declare run.simps [simp del]

definition process_one :: "alloc \<Rightarrow> u8 \<Rightarrow> telnet_t \<Rightarrow> telnet_t option" where
  "process_one alloc byte t = run (\<lambda>_ _. None) alloc [byte] 0 0 t"

definition telnet_recv :: "alloc \<Rightarrow> bytes \<Rightarrow> telnet_t \<Rightarrow> telnet_t option" where
  "telnet_recv alloc buf t = run (process_one alloc) alloc buf 0 0 t"

definition telnet_free :: "telnet_t \<Rightarrow> telnet_t" where
  "telnet_free t0 =
     (let t1 = (if sb_buffer t0 \<noteq> [] then t0\<lparr>sb_buffer := [], buffer_pos := 0\<rparr> else t0)
      in if q t1 \<noteq> [] then t1\<lparr>q := [], q_size := 0\<rparr> else t1)"

subsection \<open>Sending\<close>

definition telnet_iac :: "u8 \<Rightarrow> telnet_t \<Rightarrow> telnet_t" where
  "telnet_iac cmd t = send_bytes [TELNET_IAC, cmd] t"

definition CRLF :: bytes where "CRLF = [13, 10]"
definition CRNUL :: bytes where "CRNUL = [13, 0]"

text \<open>The common loop: the pending text goes out before each byte that \<open>special\<close> treats.\<close>

definition send_pending :: "bytes \<Rightarrow> telnet_t \<Rightarrow> telnet_t" where
  "send_pending pend t = (if pend = [] then t else send_bytes pend t)"

fun send_loop :: "(u8 \<Rightarrow> (telnet_t \<Rightarrow> telnet_t) option) \<Rightarrow> bytes \<Rightarrow> bytes \<Rightarrow> telnet_t \<Rightarrow> telnet_t" where
  "send_loop special pend [] t = send_pending pend t"
| "send_loop special pend (b # bs) t =
     (case special b of
        None \<Rightarrow> send_loop special (pend @ [b]) bs t
      | Some act \<Rightarrow> send_loop special [] bs (act (send_pending pend t)))"

definition raw_special :: "u8 \<Rightarrow> (telnet_t \<Rightarrow> telnet_t) option" where
  "raw_special b = (if b = TELNET_IAC then Some (telnet_iac TELNET_IAC) else None)"

definition text_special :: "bool \<Rightarrow> u8 \<Rightarrow> (telnet_t \<Rightarrow> telnet_t) option" where
  "text_special binary b =
     (if b = TELNET_IAC then Some (telnet_iac TELNET_IAC)
      else if \<not> binary \<and> (b = 13 \<or> b = 10)
      then Some (send_bytes (if b = 13 then CRNUL else CRLF))
      else None)"

definition telnet_send :: "bytes \<Rightarrow> telnet_t \<Rightarrow> telnet_t" where
  "telnet_send buf t = send_loop raw_special [] buf t"

definition telnet_send_text :: "bytes \<Rightarrow> telnet_t \<Rightarrow> telnet_t" where
  "telnet_send_text buf t = send_loop (text_special (has_flag TELNET_FLAG_TRANSMIT_BINARY t)) [] buf t"

definition telnet_begin_sb :: "u8 \<Rightarrow> telnet_t \<Rightarrow> telnet_t" where
  "telnet_begin_sb telopt t = send_bytes [TELNET_IAC, TELNET_SB, telopt] t"

definition telnet_finish_sb :: "telnet_t \<Rightarrow> telnet_t" where
  "telnet_finish_sb t = telnet_iac TELNET_SE t"

definition telnet_subnegotiation :: "u8 \<Rightarrow> bytes \<Rightarrow> telnet_t \<Rightarrow> telnet_t" where
  "telnet_subnegotiation telopt buf t =
     send_bytes [TELNET_IAC, TELNET_SE] (telnet_send buf (send_bytes [TELNET_IAC, TELNET_SB, telopt] t))"

text \<open>The \<open>printf\<close> family, from the formatted text on: a text of 1024 bytes or more needs memory.\<close>

definition telnet_vprintf :: "alloc \<Rightarrow> bytes \<Rightarrow> telnet_t \<Rightarrow> int \<times> telnet_t" where
  "telnet_vprintf alloc output t =
     (if length output \<ge> 1024 \<and> \<not> alloc (events t) (length output + 1) then (- 1, error ''telnet_vprintf'' t)
      else (int (length output), send_loop (text_special False) [] output t))"

definition telnet_raw_vprintf :: "alloc \<Rightarrow> bytes \<Rightarrow> telnet_t \<Rightarrow> int \<times> telnet_t" where
  "telnet_raw_vprintf alloc output t =
     (if length output \<ge> 1024 \<and> \<not> alloc (events t) (length output + 1) then (- 1, error ''telnet_raw_vprintf'' t)
      else (int (length output), telnet_send output t))"

definition telnet_begin_newenviron :: "u8 \<Rightarrow> telnet_t \<Rightarrow> telnet_t" where
  "telnet_begin_newenviron cmd t = telnet_send [cmd] (telnet_begin_sb TELNET_TELOPT_NEW_ENVIRON t)"

definition telnet_newenviron_value :: "u8 \<Rightarrow> bytes option \<Rightarrow> telnet_t \<Rightarrow> telnet_t" where
  "telnet_newenviron_value typ str t =
     (let t1 = telnet_send [typ] t in case str of None \<Rightarrow> t1 | Some s \<Rightarrow> telnet_send s t1)"

definition telnet_ttype_send :: "telnet_t \<Rightarrow> telnet_t" where
  "telnet_ttype_send t =
     send_bytes [TELNET_IAC, TELNET_SB, TELNET_TELOPT_TTYPE, 1, TELNET_IAC, TELNET_SE] t"

definition telnet_ttype_is :: "bytes \<Rightarrow> telnet_t \<Rightarrow> telnet_t" where
  "telnet_ttype_is ttype t =
     telnet_finish_sb (send_bytes ttype (send_bytes [TELNET_IAC, TELNET_SB, TELNET_TELOPT_TTYPE, 0] t))"

definition telnet_zmp_arg :: "bytes \<Rightarrow> telnet_t \<Rightarrow> telnet_t" where
  "telnet_zmp_arg arg t = telnet_send (arg @ [0]) t"

definition telnet_begin_zmp :: "bytes \<Rightarrow> telnet_t \<Rightarrow> telnet_t" where
  "telnet_begin_zmp cmd t = telnet_zmp_arg cmd (telnet_begin_sb TELNET_TELOPT_ZMP t)"

definition telnet_send_vzmpv :: "bytes list \<Rightarrow> telnet_t \<Rightarrow> telnet_t" where
  "telnet_send_vzmpv args t = telnet_finish_sb (fold telnet_zmp_arg args (telnet_begin_sb TELNET_TELOPT_ZMP t))"

text \<open>\<open>argc\<close> counts the command; with none, \<open>argv[0]\<close> is already outside.\<close>

definition telnet_send_zmp :: "bytes list \<Rightarrow> telnet_t \<Rightarrow> telnet_t option" where
  "telnet_send_zmp args t =
     (case args of [] \<Rightarrow> None
      | cmd # rest \<Rightarrow> Some (telnet_finish_sb (fold telnet_zmp_arg rest (telnet_begin_zmp cmd t))))"

end
