(* ===== verification/TelnetLink.thy ===== *)
theory TelnetLink
  imports Telnet
begin

section \<open>Telnet: two ends of a connection\<close>

text \<open>
  What one tracker sends and another receives.  \<open>wire\<close> is the byte stream of the send events,
  \<open>delivered\<close> the text of the data events.  The decoder of a text stream is stated once as a
  small machine over bytes (\<open>decode\<close>), which the byte loop is shown to follow for every split of
  the stream into received chunks.
\<close>

definition wire :: "telnet_event list \<Rightarrow> bytes" where
  "wire evs = concat (map (\<lambda>e. case e of EvSend b \<Rightarrow> b | _ \<Rightarrow> []) evs)"

definition delivered :: "telnet_event list \<Rightarrow> bytes" where
  "delivered evs = concat (map (\<lambda>e. case e of EvData b \<Rightarrow> b | _ \<Rightarrow> []) evs)"

lemma wire_simps [simp]: "wire [] = []" "wire (xs @ ys) = wire xs @ wire ys" "wire (EvSend b # l) = b @ wire l"
  "wire (EvData b # l) = wire l"
  by (simp_all add: wire_def)

lemma delivered_simps [simp]: "delivered [] = []" "delivered (xs @ ys) = delivered xs @ delivered ys"
  "delivered (EvData b # l) = b @ delivered l" "delivered (EvSend b # l) = delivered l"
  by (simp_all add: delivered_def)

subsection \<open>Sending\<close>

definition raw_code :: "u8 \<Rightarrow> bytes" where
  "raw_code b = (if b = 255 then [255, 255] else [b])"

definition text_code :: "u8 \<Rightarrow> bytes" where
  "text_code b = (if b = 255 then [255, 255] else if b = 13 then [13, 0] else if b = 10 then [13, 10] else [b])"

lemma send_bytes_fields: "events (send_bytes b t) = events t @ [EvSend b]" "t_flags (send_bytes b t) = t_flags t"
  "send_bytes b t = t\<lparr>events := events t @ [EvSend b]\<rparr>"
  by (simp_all add: send_bytes_def eh_def)

definition codes :: "(u8 \<Rightarrow> (telnet_t \<Rightarrow> telnet_t) option) \<Rightarrow> (u8 \<Rightarrow> bytes) \<Rightarrow> bool" where
  "codes special code \<longleftrightarrow>
     (\<forall>b. case special b of None \<Rightarrow> code b = [b] | Some act \<Rightarrow> act = send_bytes (code b))"

lemma codes_special: "codes raw_special raw_code" "codes (text_special False) text_code" "codes (text_special True) raw_code"
  by (auto simp: codes_def raw_special_def text_special_def raw_code_def text_code_def telnet_iac_def CRLF_def CRNUL_def)

lemma send_loop_wire:
  assumes "codes special code"
  shows "\<exists>l. send_loop special pend bs t = t\<lparr>events := events t @ l\<rparr> \<and> wire l = pend @ concat (map code bs)"
proof (induction bs arbitrary: pend t)
  case Nil
  then show ?case
    by (cases "pend = []") (auto simp: send_pending_def send_bytes_fields intro: exI [of _ "[]"])
next
  case (Cons b bs)
  have p: "\<exists>l. send_pending pend t = t\<lparr>events := events t @ l\<rparr> \<and> wire l = pend"
    by (cases "pend = []") (auto simp: send_pending_def send_bytes_fields intro: exI [of _ "[]"])
  show ?case
  proof (cases "special b")
    case None
    then have "code b = [b]" using assms by (auto simp: codes_def dest: spec [of _ b])
    then show ?thesis using Cons [of "pend @ [b]" t] None by simp
  next
    case (Some act)
    then have act: "act = send_bytes (code b)" using assms by (auto simp: codes_def dest: spec [of _ b])
    obtain l where l: "send_pending pend t = t\<lparr>events := events t @ l\<rparr>" "wire l = pend" using p by blast
    let ?t = "t\<lparr>events := events t @ l @ [EvSend (code b)]\<rparr>"
    obtain l' where "send_loop special [] bs ?t = ?t\<lparr>events := events ?t @ l'\<rparr>" "wire l' = [] @ concat (map code bs)"
      using Cons [of "[]" ?t] by blast
    then show ?thesis
      using Some act l by (intro exI [of _ "l @ [EvSend (code b)] @ l'"]) (simp add: send_bytes_fields)
  qed
qed

subsection \<open>Receiving text\<close>

text \<open>The decoder: \<open>nvt\<close> says whether line ends are translated.  A command is outside its domain.\<close>

fun decode :: "bool \<Rightarrow> telnet_state \<Rightarrow> bytes \<Rightarrow> (telnet_state \<times> bytes) option" where
  "decode nvt st [] = Some (st, [])"
| "decode nvt TELNET_STATE_DATA (b # bs) =
     (if b = 255 then decode nvt TELNET_STATE_IAC bs
      else if b = 13 \<and> nvt then decode nvt TELNET_STATE_EOL bs
      else map_option (\<lambda>(st, out). (st, b # out)) (decode nvt TELNET_STATE_DATA bs))"
| "decode nvt TELNET_STATE_EOL (b # bs) =
     map_option (\<lambda>(st, out). (st, (if b \<noteq> 10 then [13] else []) @ (if b = 0 then [] else [b]) @ out))
       (decode nvt TELNET_STATE_DATA bs)"
| "decode nvt TELNET_STATE_IAC (b # bs) =
     (if b = 255 then map_option (\<lambda>(st, out). (st, 255 # out)) (decode nvt TELNET_STATE_DATA bs) else None)"
| "decode nvt st (b # bs) = None"

lemma decode_append:
  "decode nvt st (xs @ ys) =
     (case decode nvt st xs of None \<Rightarrow> None
      | Some (st', out) \<Rightarrow> map_option (\<lambda>(st'', out'). (st'', out @ out')) (decode nvt st' ys))"
proof (induction nvt st xs rule: decode.induct)
  case (1 nvt st)
  then show ?case by (cases "decode nvt st ys") auto
next
  case (2 nvt b bs)
  show ?case
  proof (cases "b = 255 \<or> b = 13 \<and> nvt")
    case True
    then show ?thesis using 2 by auto
  next
    case False
    then have ih: "decode nvt TELNET_STATE_DATA (bs @ ys) =
      (case decode nvt TELNET_STATE_DATA bs of None \<Rightarrow> None
      | Some (st', out) \<Rightarrow> map_option (\<lambda>(st'', out'). (st'', out @ out')) (decode nvt st' ys))"
      using 2(3) by blast
    show ?thesis
      using False by (auto simp: ih option.map_comp o_def split_def split: option.splits)
  qed
next
  case (3 nvt b bs)
  show ?case by (auto simp: 3 option.map_comp o_def split_def split: option.splits)
next
  case (4 nvt b bs)
  show ?case
  proof (cases "b = 255")
    case True
    then show ?thesis by (auto simp: 4 option.map_comp o_def split_def split: option.splits)
  qed simp
qed simp_all

lemma decode_codes:
  "decode True TELNET_STATE_DATA (concat (map text_code bs)) = Some (TELNET_STATE_DATA, bs)"
  "decode False TELNET_STATE_DATA (concat (map raw_code bs)) = Some (TELNET_STATE_DATA, bs)"
  by (induction bs) (simp_all add: text_code_def raw_code_def)

definition nvt_on :: "telnet_t \<Rightarrow> bool" where
  "nvt_on t \<longleftrightarrow> has_flag TELNET_FLAG_NVT_EOL t \<and> \<not> has_flag TELNET_FLAG_RECEIVE_BINARY t"

text \<open>The text seen but not handed on yet.\<close>

definition pending :: "bytes \<Rightarrow> nat \<Rightarrow> nat \<Rightarrow> telnet_t \<Rightarrow> bytes" where
  "pending buf start i t = (if t_state t = TELNET_STATE_DATA then take (i - start) (drop start buf) else [])"

text \<open>The states of the text decoder, and what a step of it changes.\<close>

definition text_state :: "telnet_state \<Rightarrow> bool" where
  "text_state st \<longleftrightarrow> st = TELNET_STATE_DATA \<or> st = TELNET_STATE_EOL \<or> st = TELNET_STATE_IAC"

definition text_rel :: "telnet_t \<Rightarrow> telnet_t \<Rightarrow> bool" where
  "text_rel t t' \<longleftrightarrow> (\<exists>l st. t' = t\<lparr>events := events t @ l, t_state := st\<rparr>)"

lemma text_rel_refl [simp]: "text_rel t t"
  unfolding text_rel_def by (intro exI [of _ "[]"] exI [of _ "t_state t"]) simp

lemma text_rel_trans:
  assumes "text_rel t u" "text_rel u v"
  shows "text_rel t v"
proof -
  obtain l st where u: "u = t\<lparr>events := events t @ l, t_state := st\<rparr>" using assms(1) by (auto simp: text_rel_def)
  obtain l' st' where v: "v = u\<lparr>events := events u @ l', t_state := st'\<rparr>" using assms(2) by (auto simp: text_rel_def)
  show ?thesis
    unfolding text_rel_def by (intro exI [of _ "l @ l'"] exI [of _ st']) (simp add: u v)
qed

lemma text_rel_eh: "text_rel t (eh e t)"
  unfolding text_rel_def by (intro exI [of _ "[e]"] exI [of _ "t_state t"]) (simp add: eh_def)

lemma text_rel_state: "text_rel t (set_state st t)"
  unfolding text_rel_def by (intro exI [of _ "[]"] exI [of _ st]) (simp add: set_state_def)

lemmas text_rel_intros = text_rel_refl text_rel_eh text_rel_state

lemma text_rel_nvt: "text_rel t t' \<Longrightarrow> nvt_on t' = nvt_on t"
  by (auto simp: text_rel_def nvt_on_def has_flag_def)

lemma pass_on_text:
  assumes "start \<le> i" "i \<le> length buf" "t_state t = TELNET_STATE_DATA"
  shows "\<exists>t'. pass_on buf start i t = Some t' \<and> text_rel t t' \<and> t_state t' = t_state t \<and>
    delivered (events t') = delivered (events t) @ pending buf start i t"
proof (cases "i = start")
  case True
  then show ?thesis by (simp add: pass_on_def pending_def)
next
  case False
  have "rdn buf start (i - start) = Some (take (i - start) (drop start buf))"
    using assms by (simp add: rdn_def)
  then show ?thesis
    using assms False text_rel_eh by (simp add: pass_on_def pending_def eh_def)
qed

lemma set_state_text: "text_rel t t' \<Longrightarrow> text_rel t (set_state st t')"
  by (rule text_rel_trans [OF _ text_rel_state])

lemma pending_more:
  assumes "start \<le> i" "i < length buf"
  shows "take (i + 1 - start) (drop start buf) = take (i - start) (drop start buf) @ [buf ! i]"
proof -
  have "i + 1 - start = Suc (i - start)" using assms by simp
  then show ?thesis using assms by (simp add: take_Suc_conv_app_nth)
qed

lemma text_step:
  assumes "i < length buf" "text_state (t_state t)" "t_state t = TELNET_STATE_DATA \<longrightarrow> start \<le> i"
    "decode (nvt_on t) (t_state t) [buf ! i] = Some (st, out)"
  shows "\<exists>start' t'. process_byte sub alloc buf i start t = Some (Next start' t') \<and> text_rel t t' \<and> t_state t' = st \<and>
    text_state st \<and> (st = TELNET_STATE_DATA \<longrightarrow> start' \<le> i + 1) \<and>
    delivered (events t') @ pending buf start' (i + 1) t' = delivered (events t) @ pending buf start i t @ out"
proof -
  have byte: "rd buf i = Some (buf ! i)" using assms(1) by (simp add: rd_def)
  consider (d) "t_state t = TELNET_STATE_DATA" | (e) "t_state t = TELNET_STATE_EOL" | (i) "t_state t = TELNET_STATE_IAC"
    using assms(2) by (auto simp: text_state_def)
  then show ?thesis
  proof cases
    case d
    obtain t1 where t1: "pass_on buf start i t = Some t1" "text_rel t t1"
      "delivered (events t1) = delivered (events t) @ pending buf start i t"
      using pass_on_text [of start i buf t] assms(1,3) d by auto
    have set: "delivered (events (set_state s t1)) = delivered (events t1)" "t_state (set_state s t1) = s" for s
      by (simp_all add: set_state_def)
    show ?thesis
    proof (cases "buf ! i = 255 \<or> buf ! i = 13 \<and> nvt_on t")
      case True
      then show ?thesis
        using assms(4) d byte t1 set set_state_text [OF t1(2)]
        by (auto simp: process_byte_def in_data_def text_state_def pending_def nvt_on_def)
    next
      case False
      then show ?thesis
        using assms(1,3,4) d byte pending_more [of start i buf]
        by (auto simp: process_byte_def in_data_def text_state_def pending_def nvt_on_def)
    qed
  next
    case e
    have r: "text_rel t (set_state TELNET_STATE_DATA (if c then eh (EvData [13]) t else t))" for c
      unfolding text_rel_def
      by (intro exI [of _ "if c then [EvData [13]] else []"] exI [of _ TELNET_STATE_DATA]) (simp add: eh_def set_state_def)
    show ?thesis
      using assms(1,4) e byte r [of "buf ! i \<noteq> 10"]
      by (auto simp: process_byte_def in_eol_def text_state_def pending_def set_state_def eh_def take_Suc_conv_app_nth
          hd_drop_conv_nth take_Suc Let_def)
  next
    case i
    have "text_rel t (set_state TELNET_STATE_DATA (eh (EvData [255]) t))"
      unfolding text_rel_def
      by (intro exI [of _ "[EvData [255]]"] exI [of _ TELNET_STATE_DATA]) (simp add: eh_def set_state_def)
    then show ?thesis
      using assms(1,4) i byte
      by (auto simp: process_byte_def in_iac_def text_state_def pending_def set_state_def eh_def split: if_splits)
  qed
qed

lemma run_text:
  assumes "i \<le> length buf" "text_state (t_state t)" "t_state t = TELNET_STATE_DATA \<longrightarrow> start \<le> i"
    "decode (nvt_on t) (t_state t) (drop i buf) = Some (st, out)"
  shows "\<exists>t'. run sub alloc buf i start t = Some t' \<and> text_rel t t' \<and> t_state t' = st \<and> text_state st \<and>
    delivered (events t') = delivered (events t) @ pending buf start i t @ out"
  using assms
proof (induction "length buf - i" arbitrary: i start t out)
  case 0
  then have i: "i = length buf" and o: "st = t_state t" "out = []" by auto
  have r: "run sub alloc buf i start t = pass_rest buf i start t" using i by (simp add: run.simps)
  show ?case
  proof (cases "t_state t = TELNET_STATE_DATA")
    case True
    show ?thesis
      using pass_on_text [of start i buf t] True 0 i o unfolding r by (auto simp: pass_rest_def)
  next
    case False
    then show ?thesis using o 0(3) by (simp add: r pass_rest_def pending_def)
  qed
next
  case (Suc n)
  then have i: "i < length buf" by simp
  then have d: "drop i buf = [buf ! i] @ drop (i + 1) buf" by (simp add: Cons_nth_drop_Suc)
  obtain st1 out1 out2 where d1: "decode (nvt_on t) (t_state t) [buf ! i] = Some (st1, out1)"
    and d2: "decode (nvt_on t) st1 (drop (i + 1) buf) = Some (st, out2)" and out: "out = out1 @ out2"
    using Suc(6) unfolding d decode_append by (auto split: option.splits prod.splits)
  obtain start' t1 where s: "process_byte sub alloc buf i start t = Some (Next start' t1)" "text_rel t t1" "t_state t1 = st1"
    "text_state st1" "st1 = TELNET_STATE_DATA \<longrightarrow> start' \<le> i + 1"
    "delivered (events t1) @ pending buf start' (i + 1) t1 = delivered (events t) @ pending buf start i t @ out1"
    using text_step [OF i Suc(4,5) d1, of sub alloc] by blast
  have "\<exists>t'. run sub alloc buf (i + 1) start' t1 = Some t' \<and> text_rel t1 t' \<and> t_state t' = st \<and> text_state st \<and>
    delivered (events t') = delivered (events t1) @ pending buf start' (i + 1) t1 @ out2"
    using Suc(2) i s d2 text_rel_nvt [OF s(2)] by (intro Suc(1)) auto
  then obtain t' where t': "run sub alloc buf (i + 1) start' t1 = Some t'" "text_rel t1 t'" "t_state t' = st" "text_state st"
    "delivered (events t') = (delivered (events t1) @ pending buf start' (i + 1) t1) @ out2"
    by auto
  have "run sub alloc buf i start t = Some t'"
    using i s(1) t'(1) by (subst run.simps) simp
  moreover have "text_rel t t'" by (rule text_rel_trans [OF s(2) t'(2)])
  moreover have "delivered (events t') = delivered (events t) @ pending buf start i t @ out"
    unfolding t'(5) s(6) out by simp
  ultimately show ?case using t'(3,4) by blast
qed

lemma telnet_recv_text:
  assumes "text_state (t_state t)" "decode (nvt_on t) (t_state t) buf = Some (st, out)"
  shows "\<exists>t'. telnet_recv alloc buf t = Some t' \<and> text_rel t t' \<and> t_state t' = st \<and> text_state st \<and>
    delivered (events t') = delivered (events t) @ out"
  using run_text [of 0 buf t 0 st out "process_one alloc" alloc] assms
  by (auto simp: telnet_recv_def pending_def)

text \<open>A stream arrives in chunks, one call of \<open>telnet_recv\<close> each.\<close>

primrec recv_chunks :: "alloc \<Rightarrow> bytes list \<Rightarrow> telnet_t \<Rightarrow> telnet_t option" where
  "recv_chunks alloc [] t = Some t"
| "recv_chunks alloc (c # cs) t = do { t1 \<leftarrow> telnet_recv alloc c t; recv_chunks alloc cs t1 }"

lemma recv_chunks_text:
  assumes "text_state (t_state t)" "decode (nvt_on t) (t_state t) (concat cs) = Some (st, out)"
  shows "\<exists>t'. recv_chunks alloc cs t = Some t' \<and> text_rel t t' \<and> t_state t' = st \<and>
    delivered (events t') = delivered (events t) @ out"
  using assms
proof (induction cs arbitrary: t out)
  case (Cons c cs)
  obtain st1 out1 out2 where d1: "decode (nvt_on t) (t_state t) c = Some (st1, out1)"
    and d2: "decode (nvt_on t) st1 (concat cs) = Some (st, out2)" and out: "out = out1 @ out2"
    using Cons(3) by (auto simp: decode_append split: option.splits prod.splits)
  obtain t1 where t1: "telnet_recv alloc c t = Some t1" "text_rel t t1" "t_state t1 = st1" "text_state st1"
    "delivered (events t1) = delivered (events t) @ out1"
    using telnet_recv_text [OF Cons(2) d1] by blast
  obtain t' where t': "recv_chunks alloc cs t1 = Some t'" "text_rel t1 t'" "t_state t' = st"
    "delivered (events t') = delivered (events t1) @ out2"
    using Cons(1) [of t1 out2] t1(3,4) d2 text_rel_nvt [OF t1(2)] by auto
  show ?case
    using t1(1) t' text_rel_trans [OF t1(2) t'(2)] by (simp add: t1(5) out)
qed simp

definition sent :: "telnet_t \<Rightarrow> telnet_t \<Rightarrow> bytes" where
  "sent t t' = wire (drop (length (events t)) (events t'))"

lemma sent_text:
  "sent t (telnet_send_text bs t) =
     concat (map (if has_flag TELNET_FLAG_TRANSMIT_BINARY t then raw_code else text_code) bs)"
  "sent t (telnet_send bs t) = concat (map raw_code bs)"
  using send_loop_wire [OF codes_special(1), of "[]" bs t] send_loop_wire [OF codes_special(2), of "[]" bs t]
    send_loop_wire [OF codes_special(3), of "[]" bs t]
  by (auto simp: sent_def telnet_send_text_def telnet_send_def)

text \<open>Text sent with \<open>telnet_send_text\<close> arrives unchanged, whatever bytes it holds and however
  the transport cuts the stream into calls of \<open>telnet_recv\<close>: a receiver in the data state whose end
  of line translation is on exactly when the sender does not transmit in binary hands on that text in
  data events, and nothing of it changes but its list of events.\<close>

theorem text_round_trip:
  assumes "concat chunks = sent s (telnet_send_text bs s)"
    and "t_state r = TELNET_STATE_DATA"
    and "nvt_on r \<longleftrightarrow> \<not> has_flag TELNET_FLAG_TRANSMIT_BINARY s"
  shows "\<exists>l. recv_chunks alloc chunks r = Some (r\<lparr>events := events r @ l\<rparr>) \<and> delivered l = bs"
proof -
  have "decode (nvt_on r) (t_state r) (concat chunks) = Some (TELNET_STATE_DATA, bs)"
    using assms(2,3) decode_codes [of bs] by (simp add: assms(1) sent_text)
  then obtain t' where t': "recv_chunks alloc chunks r = Some t'" "text_rel r t'" "t_state t' = TELNET_STATE_DATA"
    "delivered (events t') = delivered (events r) @ bs"
    using recv_chunks_text [of r chunks TELNET_STATE_DATA bs alloc] assms(2) by (auto simp: text_state_def)
  obtain l st where l: "t' = r\<lparr>events := events r @ l, t_state := st\<rparr>" using t'(2) by (auto simp: text_rel_def)
  then have "t' = r\<lparr>events := events r @ l\<rparr>" "delivered l = bs" using t'(3,4) assms(2) by auto
  then show ?thesis using t'(1) by blast
qed

text \<open>The bytes \<open>a\<close>, IAC, CR, LF and NUL in NVT mode, the stream cut after its first IAC and
  after its first CR.\<close>

lemma text_round_trip_witness:
  "\<exists>l. recv_chunks (\<lambda>_ _. True) [[97, 255], [255, 13], [0, 13, 10, 0]] (telnet_init None 2) =
     Some ((telnet_init None 2)\<lparr>events := events (telnet_init None 2) @ l\<rparr>) \<and> delivered l = [97, 255, 13, 10, 0]"
  using text_round_trip [of "[[97, 255], [255, 13], [0, 13, 10, 0]]" "telnet_init None 0" "[97, 255, 13, 10, 0]"
      "telnet_init None 2" "\<lambda>_ _. True"]
  by (auto simp: sent_text text_code_def telnet_init_def nvt_on_def has_flag_def)

subsection \<open>Chunks do not matter\<close>

text \<open>\<open>squash\<close> joins adjacent texts of an event list and drops empty ones; \<open>sim\<close> relates trackers
  that differ in such splits only.\<close>

fun push :: "telnet_event \<Rightarrow> telnet_event list \<Rightarrow> telnet_event list" where
  "push (EvData []) acc = acc"
| "push (EvData b) (EvData a # acc) = EvData (a @ b) # acc"
| "push e acc = e # acc"

definition squash :: "telnet_event list \<Rightarrow> telnet_event list" where
  "squash evs = rev (fold push evs [])"

definition sim :: "telnet_t \<Rightarrow> telnet_t \<Rightarrow> bool" where
  "sim t u \<longleftrightarrow> squash (events t) = squash (events u) \<and> telopts u = telopts t \<and> q u = q t \<and>
     sb_buffer u = sb_buffer t \<and> buffer_pos u = buffer_pos t \<and> t_state u = t_state t \<and>
     t_flags u = t_flags t \<and> sb_telopt u = sb_telopt t \<and> q_size u = q_size t"

text \<open>Whether memory is left does not depend on how a text was split.\<close>

definition alloc_ok :: "alloc \<Rightarrow> bool" where
  "alloc_ok alloc \<longleftrightarrow> (\<forall>e e' n. squash e = squash e' \<longrightarrow> alloc e n = alloc e' n)"

lemma push_data: "push (EvData b) (push (EvData a) acc) = push (EvData (a @ b)) acc"
proof (cases b)
  case Nil
  then show ?thesis by simp
next
  case (Cons x xs)
  show ?thesis
  proof (cases a)
    case Nil
    then show ?thesis by simp
  next
    case (Cons y ys)
    have "push (EvData (a @ b)) acc = (case acc of EvData z # l \<Rightarrow> EvData (z @ a @ b) # l | _ \<Rightarrow> EvData (a @ b) # acc)"
      using Cons by (cases acc; cases "hd acc") auto
    moreover have "push (EvData a) acc = (case acc of EvData z # l \<Rightarrow> EvData (z @ a) # l | _ \<Rightarrow> EvData a # acc)"
      using Cons by (cases acc; cases "hd acc") auto
    ultimately show ?thesis
      using \<open>b = x # xs\<close> by (auto split: list.splits telnet_event.splits)
  qed
qed

lemma squash_snoc: "squash xs = squash ys \<Longrightarrow> squash (xs @ l) = squash (ys @ l)"
  by (simp add: squash_def)

lemma squash_empty [simp]: "squash (xs @ [EvData []]) = squash xs"
  by (simp add: squash_def)

lemma squash_data: "squash (xs @ [EvData a, EvData b]) = squash (xs @ [EvData (a @ b)])"
  by (simp add: squash_def push_data)

lemma sim_eq: "sim t u \<Longrightarrow> u = t\<lparr>events := events u\<rparr>"
  by (simp add: sim_def)

lemma sim_refl [simp]: "sim t t"
  by (simp add: sim_def)

lemma sim_fields:
  assumes "sim t u"
  shows "telopts u = telopts t" "q u = q t" "sb_buffer u = sb_buffer t" "buffer_pos u = buffer_pos t"
    "t_state u = t_state t" "t_flags u = t_flags t" "sb_telopt u = sb_telopt t" "q_size u = q_size t"
    "has_flag f u = has_flag f t" "entries u = entries t" "get_rfc1143 u = get_rfc1143 t" "check_telopt u = check_telopt t"
  proof -
  show e: "entries u = entries t" using assms by (simp add: sim_def entries_def)
  show "get_rfc1143 u = get_rfc1143 t" by (rule ext) (simp only: get_rfc1143_def e)
qed (use assms in \<open>simp_all add: sim_def has_flag_def fun_eq_iff check_telopt_def\<close>)

lemma alloc_okD: "alloc_ok alloc \<Longrightarrow> squash e = squash e' \<Longrightarrow> alloc e n = alloc e' n"
  unfolding alloc_ok_def by (drule spec, drule spec, drule spec, drule (1) mp)

lemma sim_alloc: "alloc_ok alloc \<Longrightarrow> sim t u \<Longrightarrow> alloc (events u) n = alloc (events t) n"
  unfolding sim_def by (elim conjE) (rule alloc_okD, assumption, erule sym)

lemma sim_eh: "sim t u \<Longrightarrow> sim (eh e t) (eh e u)"
  by (auto simp: sim_def eh_def intro: squash_snoc)

lemma sim_error: "sim t u \<Longrightarrow> sim (error s t) (error s u)"
  by (simp add: error_def sim_eh)

lemma sim_send: "sim t u \<Longrightarrow> sim (send_negotiate c o' t) (send_negotiate c o' u)"
  by (simp add: send_negotiate_def send_bytes_def sim_eh)

lemma sim_updates:
  assumes "sim t u"
  shows "sim (set_state st t) (set_state st u)" "sim (t\<lparr>sb_buffer := b\<rparr>) (u\<lparr>sb_buffer := b\<rparr>)"
    "sim (t\<lparr>sb_buffer := b, buffer_pos := n\<rparr>) (u\<lparr>sb_buffer := b, buffer_pos := n\<rparr>)"
    "sim (t\<lparr>sb_telopt := byte, buffer_pos := n\<rparr>) (u\<lparr>sb_telopt := byte, buffer_pos := n\<rparr>)"
    "sim (t\<lparr>q := qs\<rparr>) (u\<lparr>q := qs\<rparr>)" "sim (t\<lparr>q := qs, t_flags := fl\<rparr>) (u\<lparr>q := qs, t_flags := fl\<rparr>)"
    "sim (t\<lparr>q := qs, q_size := byte\<rparr>) (u\<lparr>q := qs, q_size := byte\<rparr>)"
  using assms by (simp_all add: sim_def set_state_def)

lemma sim_set_rfc1143:
  assumes "alloc_ok alloc" "sim t u"
  shows "sim (set_rfc1143 alloc o' us him t) (set_rfc1143 alloc o' us him u)"
  unfolding set_rfc1143_def sim_fields [OF assms(2)] sim_alloc [OF assms]
  using assms(2) by (auto simp: Let_def sim_error sim_updates sim_fields split: option.splits)

lemmas sim_intros = sim_eh sim_error sim_send sim_updates sim_set_rfc1143

lemma sim_negotiate:
  assumes "alloc_ok alloc" "sim t u"
  shows "sim (negotiate alloc o' t) (negotiate alloc o' u)"
  unfolding negotiate_def sim_fields [OF assms(2)] Let_def got_will_def got_wont_def got_do_def got_dont_def
  using assms by (auto split: telnet_state.split intro!: sim_intros)

definition sim_opt :: "telnet_t option \<Rightarrow> telnet_t option \<Rightarrow> bool" where
  "sim_opt x y \<longleftrightarrow> rel_option sim x y"

definition sim_res :: "(telnet_t \<times> 'a) option \<Rightarrow> (telnet_t \<times> 'a) option \<Rightarrow> bool" where
  "sim_res x y \<longleftrightarrow> rel_option (rel_prod sim (=)) x y"

lemma sim_res_simps [simp]: "sim_res None None" "sim_res (Some (t, r)) (Some (u, s)) \<longleftrightarrow> sim t u \<and> r = s"
  by (simp_all add: sim_res_def)

lemma sim_res_bind: "(\<And>x. sim_res (f x) (g x)) \<Longrightarrow> sim_res (m \<bind> f) (m \<bind> g)"
  by (cases m) simp_all

lemma sim_res_if: "(c \<Longrightarrow> sim_res a a') \<Longrightarrow> (\<not> c \<Longrightarrow> sim_res b b') \<Longrightarrow> sim_res (if c then a else b) (if c then a' else b')"
  by simp

lemma sim_res_prod: "(\<And>x y. p = (x, y) \<Longrightarrow> sim_res (f x y) (g x y)) \<Longrightarrow>
  sim_res (case p of (x, y) \<Rightarrow> f x y) (case p of (x, y) \<Rightarrow> g x y)"
  by (cases p) simp

lemma sim_res_option: "sim_res a a' \<Longrightarrow> (\<And>x. sim_res (f x) (g x)) \<Longrightarrow>
  sim_res (case p of None \<Rightarrow> a | Some x \<Rightarrow> f x) (case p of None \<Rightarrow> a' | Some x \<Rightarrow> g x)"
  by (cases p) simp_all

lemma sim_res_Some_if: "(c \<Longrightarrow> sim_res (Some a) (Some a')) \<Longrightarrow> (\<not> c \<Longrightarrow> sim_res (Some b) (Some b')) \<Longrightarrow>
  sim_res (Some (if c then a else b)) (Some (if c then a' else b'))"
  by simp

lemmas sim_res_intros = sim_res_Some_if sim_res_bind sim_res_if sim_res_prod sim_res_option

lemma sim_subneg_parts:
  assumes "alloc_ok alloc" "sim t u"
  shows "sim_res (environ_telnet alloc t sz) (environ_telnet alloc u sz)"
    "sim_res (mssp_telnet alloc t sz) (mssp_telnet alloc u sz)"
    "sim_res (zmp_telnet alloc t sz) (zmp_telnet alloc u sz)"
    "sim_res (ttype_telnet alloc t sz) (ttype_telnet alloc u sz)"
  unfolding environ_telnet_def mssp_telnet_def zmp_telnet_def ttype_telnet_def Let_def
    sim_fields [OF assms(2)] sim_alloc [OF assms]
  using assms by (auto intro!: sim_res_intros sim_intros split: if_split)

lemma sim_subnegotiate:
  assumes "alloc_ok alloc" "sim t u"
  shows "sim_res (subnegotiate alloc t) (subnegotiate alloc u)"
proof -
  have e: "sim (eh e t) (eh e u)" for e using assms(2) by (rule sim_eh)
  show ?thesis
    unfolding subnegotiate_def Let_def sim_fields [OF assms(2)] sim_fields [OF e]
    using assms(1) e by (auto intro!: sim_res_intros sim_subneg_parts)
qed

lemma sim_buffer_byte:
  assumes "alloc_ok alloc" "sim t u"
  shows "rel_option (rel_prod (=) sim) (buffer_byte alloc b t) (buffer_byte alloc b u)"
proof -
  have w: "rel_option (rel_prod (=) sim) (wr B n b \<bind> (\<lambda>b. Some (True, t'\<lparr>sb_buffer := b, buffer_pos := m\<rparr>)))
    (wr B n b \<bind> (\<lambda>b. Some (True, u'\<lparr>sb_buffer := b, buffer_pos := m\<rparr>)))" if "sim t' u'" for t' u' n m B
    using that by (cases "wr B n b") (auto intro: sim_updates)
  have g: "sim (t\<lparr>sb_buffer := c\<rparr>) (u\<lparr>sb_buffer := c\<rparr>)" for c using assms(2) by (rule sim_updates)
  show ?thesis
    unfolding buffer_byte_def Let_def sim_fields [OF assms(2)] sim_alloc [OF assms]
    using w [OF assms(2)] w [OF g] sim_error [OF assms(2)] by (simp add: sim_fields [OF assms(2)])
qed

definition sim_step :: "step option \<Rightarrow> step option \<Rightarrow> bool" where
  "sim_step x y \<longleftrightarrow>
     (case x of None \<Rightarrow> y = None
      | Some (Next s t) \<Rightarrow> (\<exists>u. y = Some (Next s u) \<and> sim t u)
      | Some (Again t) \<Rightarrow> (\<exists>u. y = Some (Again u) \<and> sim t u))"

text \<open>A byte outside the data and end of line states: the step is the same in two trackers that
  differ in splits only, wherever the byte stands, and \<open>start\<close> stays or becomes the next position.\<close>

definition same_step :: "nat \<Rightarrow> nat \<Rightarrow> nat \<Rightarrow> nat \<Rightarrow> step option \<Rightarrow> step option \<Rightarrow> bool" where
  "same_step i start j start' x y \<longleftrightarrow>
     (\<exists>t u. x = Some (Next start t) \<and> y = Some (Next start' u) \<and> sim t u \<and> t_state t \<noteq> TELNET_STATE_DATA) \<or>
     (\<exists>t u. x = Some (Next (i + 1) t) \<and> y = Some (Next (j + 1) u) \<and> sim t u) \<or>
     (\<exists>t u. x = Some (Next (i + 2) t) \<and> y = Some (Next (j + 2) u) \<and> sim t u \<and> t_state t = TELNET_STATE_DATA) \<or>
     (\<exists>t u. x = Some (Again t) \<and> y = Some (Again u) \<and> sim t u) \<or>
     x = None \<and> y = None"

lemma same_stepI:
  "sim t u \<Longrightarrow> t_state t \<noteq> TELNET_STATE_DATA \<Longrightarrow> same_step i start j start' (Some (Next start t)) (Some (Next start' u))"
  "sim t u \<Longrightarrow> same_step i start j start' (Some (Next (i + 1) t)) (Some (Next (j + 1) u))"
  "sim t u \<Longrightarrow> t_state t = TELNET_STATE_DATA \<Longrightarrow> same_step i start j start' (Some (Next (i + 2) t)) (Some (Next (j + 2) u))"
  "sim t u \<Longrightarrow> same_step i start j start' (Some (Again t)) (Some (Again u))"
  "same_step i start j start' None None"
  unfolding same_step_def by blast+

lemma state_of_set [simp]: "t_state (set_state st t) = st" "t_state (eh e t) = t_state t" "t_state (error s t) = t_state t"
  by (simp_all add: set_state_def eh_def error_def)

lemma same_in_iac: "sim t u \<Longrightarrow> same_step i start j start' (in_iac b i start t) (in_iac b j start' u)"
  unfolding in_iac_def by (auto simp del: One_nat_def add_Suc_right Suc_eq_plus1 intro!: same_stepI(1,2) sim_intros)

lemma same_in_negotiation: "alloc_ok alloc \<Longrightarrow> sim t u \<Longrightarrow>
  same_step i start j start' (in_negotiation alloc b i t) (in_negotiation alloc b j u)"
  unfolding in_negotiation_def by (intro same_stepI(2) sim_updates sim_negotiate)

lemma same_in_sb: "sim t u \<Longrightarrow> same_step i start j start' (in_sb b start t) (in_sb b start' u)"
  unfolding in_sb_def by (intro same_stepI(1) sim_updates) simp_all

lemma buffer_byte_state: "buffer_byte alloc b t = Some (ok, t') \<Longrightarrow> t_state t' = t_state t"
  by (auto simp: buffer_byte_def Let_def bind_eq_Some_conv split: if_splits)

lemma same_in_sb_data:
  assumes "alloc_ok alloc" "sim t u" "t_state t = TELNET_STATE_SB_DATA"
  shows "same_step i start j start' (in_sb_data alloc b i start t) (in_sb_data alloc b j start' u)"
proof -
  have bb: "same_step i start j start'
      (buffer_byte alloc b t \<bind> (\<lambda>(ok, t1). Some (if ok then Next start t1 else Next (i + 1) (set_state TELNET_STATE_DATA t1))))
      (buffer_byte alloc b u \<bind> (\<lambda>(ok, t1). Some (if ok then Next start' t1 else Next (j + 1) (set_state TELNET_STATE_DATA t1))))"
    using sim_buffer_byte [OF assms(1,2), of b]
  proof (cases rule: option.rel_cases)
    case (Some x y)
    then show ?thesis
      using buffer_byte_state [of alloc b t "fst x" "snd x"] assms(3)
      by (cases x; cases y) (auto simp del: One_nat_def add_Suc_right Suc_eq_plus1 intro!: same_stepI(1,2) sim_updates)
  qed (simp add: same_stepI)
  show ?thesis
    unfolding in_sb_data_def sim_fields [OF assms(2)]
    using bb assms(2) by (auto simp del: One_nat_def add_Suc_right Suc_eq_plus1 add_2_eq_Suc add_2_eq_Suc' intro!: same_stepI(1,3) sim_updates)
qed

lemma subneg_state:
  "environ_telnet alloc t sz = Some (t', r) \<Longrightarrow> t_state t' = t_state t"
  "mssp_telnet alloc t sz = Some (t', r) \<Longrightarrow> t_state t' = t_state t"
  "zmp_telnet alloc t sz = Some (t', r) \<Longrightarrow> t_state t' = t_state t"
  "ttype_telnet alloc t sz = Some (t', r) \<Longrightarrow> t_state t' = t_state t"
  by (auto simp: environ_telnet_def mssp_telnet_def zmp_telnet_def ttype_telnet_def Let_def bind_eq_Some_conv
      split: if_splits option.splits)

lemma subnegotiate_state: "subnegotiate alloc t = Some (t', r) \<Longrightarrow> t_state t' = t_state t"
  by (auto simp: subnegotiate_def Let_def bind_eq_Some_conv split: if_splits dest!: subneg_state)

text \<open>One byte behind an unexpected end of a subnegotiation, and one received byte.\<close>

definition after_step :: "bytes \<Rightarrow> nat \<Rightarrow> step option \<Rightarrow> telnet_t option" where
  "after_step buf i s =
     (case s of None \<Rightarrow> None | Some (Next st t) \<Rightarrow> pass_rest buf i st t | Some (Again t) \<Rightarrow> Some t)"

lemma pass_rest_end: "pass_rest buf i i t = Some t"
  by (simp add: pass_rest_def pass_on_def)

lemma run_end: "run sub alloc [] 0 0 t = Some t"
  by (simp add: run.simps pass_rest_end)

lemma run_one: "run sub alloc [b] 0 0 t = after_step [b] 1 (process_byte sub alloc [b] 0 0 t)"
  by (subst run.simps) (auto simp: after_step_def run_end run.simps [of _ _ "[b]" "Suc 0"] split: option.split step.split)

lemma process_one_iac:
  assumes "sim t u" "t_state t = TELNET_STATE_IAC"
  shows "\<exists>t' u'. process_one alloc b t = Some t' \<and> process_one alloc b u = Some u' \<and> sim t' u'"
proof -
  have s: "t_state u = TELNET_STATE_IAC" using assms by (simp add: sim_fields)
  have r: "process_one alloc b v = after_step [b] 1 (in_iac b 0 0 v)" if "t_state v = TELNET_STATE_IAC" for v
    using that by (simp add: process_one_def run_one process_byte_def)
  show ?thesis
    using assms(1) unfolding r [OF assms(2)] r [OF s] in_iac_def
    by (auto simp: after_step_def pass_rest_def pass_on_def intro!: sim_intros)
qed

lemma same_in_sb_iac:
  assumes "alloc_ok alloc" "sim t u"
  shows "same_step i start j start' (in_sb_iac (process_one alloc) alloc b i start t)
    (in_sb_iac (process_one alloc) alloc b j start' u)"
proof -
  have a: "same_step i start j start'
      (subnegotiate alloc t' \<bind> (\<lambda>(t1, r). Some (if r \<noteq> 0 then Again t1 else Next (i + 1) t1)))
      (subnegotiate alloc u' \<bind> (\<lambda>(t1, r). Some (if r \<noteq> 0 then Again t1 else Next (j + 1) t1)))"
    if "sim t' u'" for t' u'
    using sim_subnegotiate [OF assms(1) that] unfolding sim_res_def
    by (cases rule: option.rel_cases) (auto simp del: One_nat_def add_Suc_right Suc_eq_plus1 intro!: same_stepI(2,4,5))
  have b: "same_step i start j start'
      (subnegotiate alloc t' \<bind> (\<lambda>(t1, r). if r \<noteq> 0 then Some (Again t1)
         else do { t2 \<leftarrow> process_one alloc b t1; Some (Next (i + 1) t2) }))
      (subnegotiate alloc u' \<bind> (\<lambda>(t1, r). if r \<noteq> 0 then Some (Again t1)
         else do { t2 \<leftarrow> process_one alloc b t1; Some (Next (j + 1) t2) }))"
    if "sim t' u'" "t_state t' = TELNET_STATE_IAC" for t' u'
    using sim_subnegotiate [OF assms(1) that(1)] unfolding sim_res_def
  proof (cases rule: option.rel_cases)
    case (Some x y)
    obtain t1 r where x: "x = (t1, r)" by fastforce
    obtain u1 where y: "y = (u1, r)" "sim t1 u1" using Some(3) x by (cases y) auto
    have "t_state t1 = TELNET_STATE_IAC" using subnegotiate_state [of alloc t' t1 r] Some(1) x that(2) by simp
    then show ?thesis
      using process_one_iac [OF y(2), of alloc b] Some x y
      by (auto simp del: One_nat_def add_Suc_right Suc_eq_plus1 intro!: same_stepI(2,4))
  qed (simp add: same_stepI)
  have c: "same_step i start j start'
      (buffer_byte alloc 255 t \<bind> (\<lambda>(ok, t1). Some (if \<not> ok then Next (i + 1) (set_state TELNET_STATE_DATA t1)
              else Next start (set_state TELNET_STATE_SB_DATA t1))))
      (buffer_byte alloc 255 u \<bind> (\<lambda>(ok, t1). Some (if \<not> ok then Next (j + 1) (set_state TELNET_STATE_DATA t1)
              else Next start' (set_state TELNET_STATE_SB_DATA t1))))"
    using sim_buffer_byte [OF assms(1,2), of 255]
  proof (cases rule: option.rel_cases)
    case (Some x y)
    then show ?thesis
      by (cases x; cases y) (auto simp del: One_nat_def add_Suc_right Suc_eq_plus1 intro!: same_stepI(1,2) sim_updates)
  qed (simp add: same_stepI)
  have e: "sim (set_state TELNET_STATE_IAC (error ''_process'' t)) (set_state TELNET_STATE_IAC (error ''_process'' u))"
    "sim (set_state TELNET_STATE_DATA t) (set_state TELNET_STATE_DATA u)"
    using assms(2) by (simp_all add: sim_updates sim_error)
  show ?thesis
    unfolding in_sb_iac_def using a [OF e(2)] b [OF e(1)] c by simp
qed

lemma same_process_byte:
  assumes "alloc_ok alloc" "sim t u" "t_state t \<noteq> TELNET_STATE_DATA" "t_state t \<noteq> TELNET_STATE_EOL"
    "i < length buf" "j < length buf'" "buf ! i = buf' ! j"
  shows "same_step i start j start' (process_byte (process_one alloc) alloc buf i start t)
    (process_byte (process_one alloc) alloc buf' j start' u)"
  using assms same_in_iac same_in_negotiation same_in_sb same_in_sb_data same_in_sb_iac
  by (cases "t_state t") (simp_all add: process_byte_def sim_fields [OF assms(2)] rd_def)

text \<open>A tracker in the midst of a buffer and one that has handed on the text before it.\<close>

definition view :: "bytes \<Rightarrow> nat \<Rightarrow> nat \<Rightarrow> telnet_t \<Rightarrow> telnet_t \<Rightarrow> bool" where
  "view buf start i t v \<longleftrightarrow>
     (t_state t = TELNET_STATE_DATA \<longrightarrow> start \<le> i) \<and> sim (eh (EvData (pending buf start i t)) t) v"

lemma pending_empty [simp]: "pending buf i i t = []" "t_state t \<noteq> TELNET_STATE_DATA \<Longrightarrow> pending buf start i t = []"
  by (simp_all add: pending_def)

lemma eh_empty: "sim (eh (EvData []) t) v \<longleftrightarrow> sim t v"
  by (simp add: sim_def eh_def)

lemma view_sim: "sim t v \<Longrightarrow> start = i \<or> t_state t \<noteq> TELNET_STATE_DATA \<Longrightarrow> view buf start i t v"
  by (auto simp: view_def eh_empty)

lemma view_other: "view buf start i t v \<Longrightarrow> t_state t \<noteq> TELNET_STATE_DATA \<Longrightarrow> sim t v"
  by (simp add: view_def eh_empty)

lemma pass_on_view:
  assumes "start \<le> i" "i \<le> length buf" "t_state t = TELNET_STATE_DATA"
  shows "\<exists>t'. pass_on buf start i t = Some t' \<and> t_state t' = t_state t \<and> sim t' (eh (EvData (pending buf start i t)) t)"
proof (cases "i = start")
  case True
  then show ?thesis using eh_empty [of t t] by (simp add: pass_on_def) (simp add: sim_def eh_def)
next
  case False
  then show ?thesis using assms by (simp add: pass_on_def rdn_def pending_def)
qed

lemma sim_trans: "sim t u \<Longrightarrow> sim u v \<Longrightarrow> sim t v"
  by (simp add: sim_def)

lemma data_step:
  assumes "view buf start i t v" "t_state t = TELNET_STATE_DATA" "i < length buf"
    "after_step [buf ! i] 1 (process_byte sub' alloc [buf ! i] 0 0 v) = Some v1"
  shows "\<exists>start' t'. process_byte sub alloc buf i start t = Some (Next start' t') \<and> view buf start' (i + 1) t' v1"
proof -
  have le: "start \<le> i" and sv: "sim (eh (EvData (pending buf start i t)) t) v" using assms(1,2) by (auto simp: view_def)
  have v: "t_state v = TELNET_STATE_DATA" "has_flag f v = has_flag f t" for f
    using sim_fields [OF sv] assms(2) by (simp_all add: has_flag_def eh_def)
  obtain t1 where t1: "pass_on buf start i t = Some t1" "sim t1 (eh (EvData (pending buf start i t)) t)"
    using pass_on_view [OF le _ assms(2), of buf] assms(3) by auto
  have s1: "sim (set_state st t1) (set_state st v)" for st
    using sim_trans [OF t1(2) sv] by (rule sim_updates)
  let ?eol = "buf ! i = 13 \<and> has_flag TELNET_FLAG_NVT_EOL t \<and> \<not> has_flag TELNET_FLAG_RECEIVE_BINARY t"
  show ?thesis
  proof (cases "buf ! i = 255 \<or> ?eol")
    case True
    then have "v1 = set_state (if buf ! i = 255 then TELNET_STATE_IAC else TELNET_STATE_EOL) v"
      using assms(4) v by (auto simp: process_byte_def in_data_def after_step_def pass_rest_def pass_on_def)
    then show ?thesis
      using True assms(2,3) v t1(1) s1 by (auto simp: process_byte_def in_data_def rd_def intro!: view_sim)
  next
    case False
    then have "v1 = eh (EvData [buf ! i]) v"
      using assms(4) v by (auto simp: process_byte_def in_data_def after_step_def pass_rest_def pass_on_def rdn_def)
    moreover have "sim (eh (EvData (pending buf start (i + 1) t)) t) (eh (EvData [buf ! i]) (eh (EvData (pending buf start i t)) t))"
      using pending_more [OF le assms(3)] assms(2) by (simp add: sim_def eh_def pending_def squash_data)
    moreover have "sim (eh (EvData [buf ! i]) (eh (EvData (pending buf start i t)) t)) (eh (EvData [buf ! i]) v)"
      using sv by (rule sim_eh)
    ultimately have "view buf start (i + 1) t v1"
      using le sim_trans by (auto simp: view_def)
    moreover have "process_byte sub alloc buf i start t = Some (Next start t)"
      using False assms(2,3) by (auto simp: process_byte_def in_data_def rd_def)
    ultimately show ?thesis by blast
  qed
qed

lemma eol_step:
  assumes "view buf start i t v" "t_state t = TELNET_STATE_EOL" "i < length buf"
    "after_step [buf ! i] 1 (process_byte sub' alloc [buf ! i] 0 0 v) = Some v1"
  shows "\<exists>start' t'. process_byte sub alloc buf i start t = Some (Next start' t') \<and> view buf start' (i + 1) t' v1"
proof -
  have sv: "sim t v" using view_other [OF assms(1)] assms(2) by simp
  let ?t1 = "set_state TELNET_STATE_DATA (if buf ! i \<noteq> 10 then eh (EvData [13]) t else t)"
  let ?v1 = "set_state TELNET_STATE_DATA (if buf ! i \<noteq> 10 then eh (EvData [13]) v else v)"
  have s1: "sim ?t1 ?v1" using sv by (simp add: sim_updates sim_eh)
  have v: "t_state v = TELNET_STATE_EOL" using sv assms(2) by (simp add: sim_fields)
  have v1: "v1 = (if buf ! i = 0 then ?v1 else eh (EvData [buf ! i]) ?v1)"
  proof -
    have "process_byte sub' alloc [buf ! i] 0 0 v = Some (Next (if buf ! i = 0 then 1 else 0) ?v1)"
      using v by (simp add: process_byte_def in_eol_def Let_def)
    then have "pass_rest [buf ! i] 1 (if buf ! i = 0 then 1 else 0) ?v1 = Some v1"
      using assms(4) by (simp add: after_step_def)
    then show ?thesis
      by (cases "buf ! i = 0") (simp_all add: pass_rest_def pass_on_def rdn_def)
  qed
  have "process_byte sub alloc buf i start t = Some (Next (if buf ! i = 0 then i + 1 else i) ?t1)"
    using assms(2,3) by (simp add: process_byte_def in_eol_def rd_def Let_def)
  moreover have "view buf (if buf ! i = 0 then i + 1 else i) (i + 1) ?t1 v1"
  proof (cases "buf ! i = 0")
    case True
    then show ?thesis using s1 v1 by (simp add: view_sim)
  next
    case False
    have "pending buf i (i + 1) ?t1 = [buf ! i]"
      using pending_more [of i i buf] assms(3) by (simp add: pending_def)
    then show ?thesis using False v1 sim_eh [OF s1] by (simp add: view_def)
  qed
  ultimately show ?thesis by blast
qed

lemma other_step:
  assumes "alloc_ok alloc" "view buf start i t v" "t_state t \<noteq> TELNET_STATE_DATA" "t_state t \<noteq> TELNET_STATE_EOL"
    "i < length buf"
    "after_step [buf ! i] 1 (process_byte (process_one alloc) alloc [buf ! i] 0 0 v) = Some v1"
  shows "(\<exists>start' t'. process_byte (process_one alloc) alloc buf i start t = Some (Next start' t') \<and> view buf start' (i + 1) t' v1) \<or>
    (\<exists>t'. process_byte (process_one alloc) alloc buf i start t = Some (Again t') \<and> sim t' v1)"
proof -
  have sv: "sim t v" using view_other [OF assms(2,3)] .
  have "same_step i start 0 0 (process_byte (process_one alloc) alloc buf i start t)
      (process_byte (process_one alloc) alloc [buf ! i] 0 0 v)"
    by (rule same_process_byte) (use assms sv in auto)
  then show ?thesis
    unfolding same_step_def
  proof (elim disjE exE conjE)
    fix t' u assume h: "process_byte (process_one alloc) alloc buf i start t = Some (Next start t')"
      "process_byte (process_one alloc) alloc [buf ! i] 0 0 v = Some (Next 0 u)" "sim t' u" "t_state t' \<noteq> TELNET_STATE_DATA"
    then have "v1 = u" using assms(6) by (simp add: after_step_def pass_rest_def sim_fields [OF h(3)])
    then show ?thesis using h view_sim by blast
  next
    fix t' u assume h: "process_byte (process_one alloc) alloc buf i start t = Some (Next (i + 1) t')"
      "process_byte (process_one alloc) alloc [buf ! i] 0 0 v = Some (Next (0 + 1) u)" "sim t' u"
    then have "v1 = u" using assms(6) pass_rest_end [of "[buf ! i]" 1 u] by (simp add: after_step_def)
    then show ?thesis using h view_sim by blast
  next
    fix t' u assume h: "process_byte (process_one alloc) alloc [buf ! i] 0 0 v = Some (Next (0 + 2) u)" "sim t' u"
      "t_state t' = TELNET_STATE_DATA"
    then have False using assms(6) by (simp add: after_step_def pass_rest_def pass_on_def sim_fields [OF h(2)])
    then show ?thesis ..
  next
    fix t' u assume h: "process_byte (process_one alloc) alloc buf i start t = Some (Again t')"
      "process_byte (process_one alloc) alloc [buf ! i] 0 0 v = Some (Again u)" "sim t' u"
    then show ?thesis using assms(6) by (simp add: after_step_def)
  next
    assume "process_byte (process_one alloc) alloc [buf ! i] 0 0 v = None"
    then show ?thesis using assms(6) by (simp add: after_step_def)
  qed
qed

lemma any_step:
  assumes "alloc_ok alloc" "view buf start i t v" "i < length buf" "telnet_recv alloc [buf ! i] v = Some v1"
  shows "(\<exists>start' t'. process_byte (process_one alloc) alloc buf i start t = Some (Next start' t') \<and> view buf start' (i + 1) t' v1) \<or>
    (\<exists>t'. process_byte (process_one alloc) alloc buf i start t = Some (Again t') \<and> sim t' v1)"
proof -
  have s: "after_step [buf ! i] 1 (process_byte (process_one alloc) alloc [buf ! i] 0 0 v) = Some v1"
    using assms(4) by (simp add: telnet_recv_def run_one)
  consider "t_state t = TELNET_STATE_DATA" | "t_state t = TELNET_STATE_EOL"
    | "t_state t \<noteq> TELNET_STATE_DATA" "t_state t \<noteq> TELNET_STATE_EOL" by blast
  then show ?thesis
  proof cases
    case 1
    show ?thesis by (rule disjI1, rule data_step [OF assms(2) 1 assms(3) s])
  next
    case 2
    show ?thesis by (rule disjI1, rule eol_step [OF assms(2) 2 assms(3) s])
  next
    case 3
    show ?thesis by (rule other_step [OF assms(1,2) 3 assms(3) s])
  qed
qed

definition bytewise :: "alloc \<Rightarrow> bytes \<Rightarrow> telnet_t \<Rightarrow> telnet_t option" where
  "bytewise alloc buf t = recv_chunks alloc (map (\<lambda>b. [b]) buf) t"

lemma bytewise_simps [simp]:
  "bytewise alloc [] t = Some t"
  "bytewise alloc (b # bs) t = telnet_recv alloc [b] t \<bind> bytewise alloc bs"
  by (simp_all add: bytewise_def bytewise_def [abs_def])

lemma bytewise_append: "bytewise alloc (xs @ ys) t = bytewise alloc xs t \<bind> bytewise alloc ys"
proof (induction xs arbitrary: t)
  case (Cons x xs)
  then show ?case by (cases "telnet_recv alloc [x] t") simp_all
qed simp

lemma run_bytewise:
  assumes "alloc_ok alloc"
  shows "view buf start i t v \<Longrightarrow> i \<le> length buf \<Longrightarrow> bytewise alloc (drop i buf) v = Some v' \<Longrightarrow>
    \<exists>t'. run (process_one alloc) alloc buf i start t = Some t' \<and> sim t' v'"
proof (induction "length buf - i" arbitrary: buf i start t v rule: less_induct)
  case less
  show ?case
  proof (cases "i < length buf")
    case False
    then have i: "i = length buf" and v': "v' = v" using less(3,4) by auto
    have r: "run (process_one alloc) alloc buf i start t = pass_rest buf i start t" using False by (simp add: run.simps)
    show ?thesis
    proof (cases "t_state t = TELNET_STATE_DATA")
      case True
      then have "start \<le> i" "sim (eh (EvData (pending buf start i t)) t) v" using less(2) by (auto simp: view_def)
      then show ?thesis
        using pass_on_view [of start i buf t] True i v' sim_trans unfolding r by (auto simp: pass_rest_def)
    next
      case False
      then show ?thesis using view_other [OF less(2)] v' by (simp add: r pass_rest_def)
    qed
  next
    case True
    then have d: "drop i buf = buf ! i # drop (i + 1) buf" by (simp add: Cons_nth_drop_Suc)
    obtain v1 where v1: "telnet_recv alloc [buf ! i] v = Some v1" "bytewise alloc (drop (i + 1) buf) v1 = Some v'"
      using less(4) unfolding d by (auto simp: bind_eq_Some_conv)
    from any_step [OF assms less(2) True v1(1)] show ?thesis
    proof (elim disjE exE conjE)
      fix start' t' assume s: "process_byte (process_one alloc) alloc buf i start t = Some (Next start' t')" "view buf start' (i + 1) t' v1"
      have "\<exists>t''. run (process_one alloc) alloc buf (i + 1) start' t' = Some t'' \<and> sim t'' v'"
        using less(1) [OF _ s(2)] True v1(2) by simp
      then show ?thesis using True s(1) by (subst run.simps) simp
    next
      fix t' assume s: "process_byte (process_one alloc) alloc buf i start t = Some (Again t')" "sim t' v1"
      have "\<exists>t''. run (process_one alloc) alloc (drop (i + 1) buf) 0 0 t' = Some t'' \<and> sim t'' v'"
        using less(1) [of "drop (i + 1) buf" 0 0 t' v1] True v1(2) view_sim [OF s(2)] by simp
      then show ?thesis using True s(1) by (subst run.simps) simp
    qed
  qed
qed

lemma telnet_recv_bytewise:
  "alloc_ok alloc \<Longrightarrow> sim t v \<Longrightarrow> bytewise alloc buf v = Some v' \<Longrightarrow>
   \<exists>t'. telnet_recv alloc buf t = Some t' \<and> sim t' v'"
  using run_bytewise [of alloc buf 0 0 t v v'] view_sim [of t v 0 0 buf] by (simp add: telnet_recv_def)

lemma recv_chunks_bytewise:
  assumes "alloc_ok alloc"
  shows "sim t v \<Longrightarrow> bytewise alloc (concat cs) v = Some v' \<Longrightarrow> \<exists>t'. recv_chunks alloc cs t = Some t' \<and> sim t' v'"
proof (induction cs arbitrary: t v)
  case (Cons c cs)
  obtain v1 where v1: "bytewise alloc c v = Some v1" "bytewise alloc (concat cs) v1 = Some v'"
    using Cons(3) by (auto simp: bytewise_append bind_eq_Some_conv)
  obtain t1 where t1: "telnet_recv alloc c t = Some t1" "sim t1 v1"
    using telnet_recv_bytewise [OF assms Cons(2) v1(1)] by blast
  then show ?case using Cons(1) [OF t1(2) v1(2)] by simp
qed simp

text \<open>C12. Where the transport cuts the stream does not matter: if reception byte by byte goes well,
  every other division of the same stream into calls of \<open>telnet_recv\<close> ends in the same tracker state
  with the same events in the same order, up to texts split into several data events.  Memory may
  fail, as long as that does not depend on such splits.\<close>

theorem chunks_do_not_matter:
  assumes "alloc_ok alloc"
    and "recv_chunks alloc (map (\<lambda>b. [b]) (concat chunks)) t = Some t1"
  shows "\<exists>evs. recv_chunks alloc chunks t = Some (t1\<lparr>events := evs\<rparr>) \<and> squash evs = squash (events t1)"
proof -
  obtain t' where t': "recv_chunks alloc chunks t = Some t'" "sim t' t1"
    using recv_chunks_bytewise [OF assms(1) sim_refl] assms(2) unfolding bytewise_def by blast
  have "t' = t1\<lparr>events := events t'\<rparr>" "squash (events t') = squash (events t1)" using t'(2) by (simp_all add: sim_def)
  then show ?thesis using t'(1) by metis
qed

lemma alloc_ok_const: "alloc_ok (\<lambda>_ n. f n)"
  by (simp add: alloc_ok_def)

lemma chunks_do_not_matter_witness:
  "\<exists>evs. recv_chunks (\<lambda>_ _. True) [[97, 255], [251, 1, 98, 255, 250], [31, 9, 255], [], [240]] (telnet_init None 0) =
     Some ((telnet_init None 0)\<lparr>events := evs, sb_buffer := 9 # replicate 511 0, buffer_pos := 1, sb_telopt := 31\<rparr>) \<and>
   squash evs = squash [EvData [97], EvSend [255, 254, 1], EvData [98], EvSubnegotiation 31 [9]]"
proof -
  let ?t = "(telnet_init None 0)\<lparr>sb_buffer := 9 # replicate 511 0, buffer_pos := 1, sb_telopt := 31,
    events := [EvData [97], EvSend [255, 254, 1], EvData [98], EvSubnegotiation 31 [9]]\<rparr>"
  have "recv_chunks (\<lambda>_ _. True) (map (\<lambda>b. [b]) (concat [[97, 255], [251, 1, 98, 255, 250], [31, 9, 255], [], [240]]))
    (telnet_init None 0) = Some ?t"
    by code_simp
  from chunks_do_not_matter [OF alloc_ok_const [of "\<lambda>_. True"] this] show ?thesis
    by (simp add: telnet_init_def)
qed

end
