(* ===== verification/TelnetBody.thy ===== *)
theory TelnetBody
  imports TelnetLink
begin

section \<open>Telnet: subnegotiations\<close>

text \<open>
  Subnegotiations from end to end: the buffer of the tracker and its growth, the round trip of
  \<open>telnet_subnegotiation\<close> and the environment list.
\<close>

subsection \<open>The buffer\<close>

definition sb_ok :: "telnet_t \<Rightarrow> bool" where
  "sb_ok t \<longleftrightarrow> buffer_pos t \<le> length (sb_buffer t) \<and> length (sb_buffer t) \<in> set buffer_sizes"

definition body :: "telnet_t \<Rightarrow> bytes" where
  "body t = take (buffer_pos t) (sb_buffer t)"

lemma sizes_next:
  assumes "n \<in> set buffer_sizes" "n < 16384"
  shows "find_size buffer_sizes n < length buffer_sizes - 1" "n < buffer_sizes ! (find_size buffer_sizes n + 1)"
    "buffer_sizes ! (find_size buffer_sizes n + 1) \<in> set buffer_sizes"
  using assms by (auto simp: buffer_sizes_def)

lemma sizes_last: "find_size buffer_sizes 16384 = length buffer_sizes - 1" "n \<in> set buffer_sizes \<Longrightarrow> n \<le> 16384"
  by (auto simp: buffer_sizes_def)

lemma take_snoc_update: "n < length xs \<Longrightarrow> take (n + 1) (xs[n := x]) = take n xs @ [x]"
  by (simp add: take_Suc_conv_app_nth)

text \<open>A byte is appended to the body, the buffer is full, or there is no memory.\<close>

lemma buffer_byte_cases:
  assumes "sb_ok t"
  obtains (stored) b where "buffer_byte alloc x t = Some (True, t\<lparr>sb_buffer := b, buffer_pos := buffer_pos t + 1\<rparr>)"
      "sb_ok (t\<lparr>sb_buffer := b, buffer_pos := buffer_pos t + 1\<rparr>)" "take (buffer_pos t + 1) b = body t @ [x]"
  | (full) "buffer_byte alloc x t = Some (False, error ''_buffer_byte'' t)"
      "length (body t) = 16384 \<or> (\<exists>n. \<not> alloc (events t) n)"
proof -
  have le: "buffer_pos t \<le> length (sb_buffer t)" and sz: "length (sb_buffer t) \<in> set buffer_sizes"
    using assms by (auto simp: sb_ok_def)
  let ?new = "buffer_sizes ! (find_size buffer_sizes (length (sb_buffer t)) + 1)"
  show thesis
  proof (cases "buffer_pos t = length (sb_buffer t)")
    case False
    let ?b = "(sb_buffer t)[buffer_pos t := x]"
    have "buffer_byte alloc x t = Some (True, t\<lparr>sb_buffer := ?b, buffer_pos := buffer_pos t + 1\<rparr>)"
      using False le by (simp add: buffer_byte_def wr_def)
    then show thesis
      using le sz False take_snoc_update [of "buffer_pos t" "sb_buffer t" x]
      by (intro stored [of ?b]) (simp_all add: sb_ok_def body_def)
  next
    case True
    show thesis
    proof (cases "length (sb_buffer t) < 16384 \<and> alloc (events t) ?new")
      case ok: True
      let ?g = "sb_buffer t @ replicate (?new - length (sb_buffer t)) 0"
      let ?b = "?g[buffer_pos t := x]"
      have n: "find_size buffer_sizes (length (sb_buffer t)) < length buffer_sizes - 1"
        "length (sb_buffer t) < ?new" "?new \<in> set buffer_sizes"
        using sizes_next [OF sz] ok by auto
      have g: "length ?g = ?new" using n(2) by simp
      have "buffer_byte alloc x t = Some (True, t\<lparr>sb_buffer := ?b, buffer_pos := buffer_pos t + 1\<rparr>)"
        using True ok n by (simp add: buffer_byte_def wr_def)
      moreover have "take (buffer_pos t + 1) ?b = body t @ [x]"
        using take_snoc_update [of "buffer_pos t" ?g x] n(2) True by (simp add: body_def)
      ultimately show thesis
        using n g True by (intro stored [of ?b]) (simp_all add: sb_ok_def)
    next
      case full': False
      have "length (sb_buffer t) = 16384 \<or> \<not> alloc (events t) ?new" using full' sizes_last(2) [OF sz] by auto
      moreover have "buffer_byte alloc x t = Some (False, error ''_buffer_byte'' t)"
      proof (cases "length (sb_buffer t) < 16384")
        case False
        then have "length (sb_buffer t) = 16384" using sizes_last(2) [OF sz] by simp
        then show ?thesis using True sizes_last(1) by (simp add: buffer_byte_def)
      next
        case lt: True
        then show ?thesis using True full' sizes_next [OF sz] by (simp add: buffer_byte_def)
      qed
      ultimately show thesis
        using True by (intro full) (auto simp: body_def)
    qed
  qed
qed

subsection \<open>Received byte by byte\<close>

lemma telnet_recv_one:
  "telnet_recv alloc [b] t = after_step [b] 1 (process_byte (process_one alloc) alloc [b] 0 0 t)"
  by (simp add: telnet_recv_def run_one)

lemma recv_one_simps:
  "t_state t = TELNET_STATE_DATA \<Longrightarrow> telnet_recv alloc [255] t = Some (set_state TELNET_STATE_IAC t)"
  "t_state t = TELNET_STATE_IAC \<Longrightarrow> telnet_recv alloc [250] t = Some (set_state TELNET_STATE_SB t)"
  "t_state t = TELNET_STATE_SB \<Longrightarrow>
    telnet_recv alloc [b] t = Some (set_state TELNET_STATE_SB_DATA (t\<lparr>sb_telopt := b, buffer_pos := 0\<rparr>))"
  "t_state t = TELNET_STATE_SB_DATA \<Longrightarrow> telnet_recv alloc [255] t = Some (set_state TELNET_STATE_SB_DATA_IAC t)"
  "t_state t = TELNET_STATE_SB_DATA \<Longrightarrow> b \<noteq> 255 \<Longrightarrow> sb_telopt t \<noteq> 85 \<Longrightarrow>
    buffer_byte alloc b t = Some (True, t') \<Longrightarrow> telnet_recv alloc [b] t = Some t'"
  "t_state t = TELNET_STATE_SB_DATA_IAC \<Longrightarrow>
    buffer_byte alloc 255 t = Some (True, t') \<Longrightarrow> telnet_recv alloc [255] t = Some (set_state TELNET_STATE_SB_DATA t')"
  "t_state t = TELNET_STATE_SB_DATA_IAC \<Longrightarrow>
    subnegotiate alloc (set_state TELNET_STATE_DATA t) = Some (t', r) \<Longrightarrow> telnet_recv alloc [240] t = Some t'"
  using buffer_byte_state [of alloc b t True t']
  by (simp_all add: telnet_recv_one process_byte_def in_data_def in_iac_def in_sb_def in_sb_data_def in_sb_iac_def after_step_def
      pass_rest_def pass_on_def)

definition body_rel :: "telnet_t \<Rightarrow> bytes \<Rightarrow> telnet_t \<Rightarrow> bool" where
  "body_rel t bs t' \<longleftrightarrow>
     (\<exists>b. t' = t\<lparr>sb_buffer := b, buffer_pos := length bs\<rparr> \<and> sb_ok t' \<and> take (length bs) b = bs)"

lemma recv_body_byte:
  assumes "t_state t = TELNET_STATE_SB_DATA" "sb_ok t" "length (body t) < 16384" "sb_telopt t \<noteq> 85"
  shows "\<exists>t'. bytewise (\<lambda>_ _. True) (raw_code x) t = Some t' \<and> body_rel t (body t @ [x]) t'"
proof -
  have pos: "length (body t) = buffer_pos t" using assms(2) by (simp add: body_def sb_ok_def)
  show ?thesis
  proof (cases "x = 255")
    case False
    obtain b where b: "buffer_byte (\<lambda>_ _. True) x t = Some (True, t\<lparr>sb_buffer := b, buffer_pos := buffer_pos t + 1\<rparr>)"
      "sb_ok (t\<lparr>sb_buffer := b, buffer_pos := buffer_pos t + 1\<rparr>)" "take (buffer_pos t + 1) b = body t @ [x]"
      using assms(3) by (rule_tac buffer_byte_cases [OF assms(2), of "\<lambda>_ _. True" x]) auto
    show ?thesis
      using recv_one_simps(5) [OF assms(1) False assms(4) b(1)] b(2,3) False pos
      by (auto simp: raw_code_def body_rel_def)
  next
    case True
    let ?t = "set_state TELNET_STATE_SB_DATA_IAC t"
    have t: "sb_ok ?t" "t_state ?t = TELNET_STATE_SB_DATA_IAC" "body ?t = body t" "buffer_pos ?t = buffer_pos t"
      using assms(2) by (simp_all add: sb_ok_def set_state_def body_def)
    obtain b where b: "buffer_byte (\<lambda>_ _. True) 255 ?t = Some (True, ?t\<lparr>sb_buffer := b, buffer_pos := buffer_pos t + 1\<rparr>)"
      "sb_ok (?t\<lparr>sb_buffer := b, buffer_pos := buffer_pos t + 1\<rparr>)" "take (buffer_pos t + 1) b = body t @ [255]"
      using assms(3) t by (rule_tac buffer_byte_cases [OF t(1), of "\<lambda>_ _. True" 255]) auto
    have "set_state TELNET_STATE_SB_DATA (?t\<lparr>sb_buffer := b, buffer_pos := buffer_pos t + 1\<rparr>) =
      t\<lparr>sb_buffer := b, buffer_pos := buffer_pos t + 1\<rparr>"
      using assms(1) by (simp add: set_state_def)
    then show ?thesis
      using recv_one_simps(4) [OF assms(1), of "\<lambda>_ _. True"] recv_one_simps(6) [OF t(2) b(1)] b(2,3) True pos
      by (auto simp: raw_code_def body_rel_def set_state_def sb_ok_def)
  qed
qed

lemma recv_body:
  assumes "t_state t = TELNET_STATE_SB_DATA" "sb_ok t" "length (body t) + length bs \<le> 16384" "sb_telopt t \<noteq> 85"
  shows "\<exists>t'. bytewise (\<lambda>_ _. True) (concat (map raw_code bs)) t = Some t' \<and> body_rel t (body t @ bs) t'"
  using assms
proof (induction bs arbitrary: t)
  case Nil
  have "t = t\<lparr>sb_buffer := sb_buffer t, buffer_pos := length (body t)\<rparr>" using Nil(2) by (simp add: body_def sb_ok_def)
  then have "body_rel t (body t) t"
    unfolding body_rel_def using Nil(2) by (intro exI [of _ "sb_buffer t"]) (simp add: body_def sb_ok_def)
  then show ?case by simp
next
  case (Cons x bs)
  obtain t1 where t1: "bytewise (\<lambda>_ _. True) (raw_code x) t = Some t1" "body_rel t (body t @ [x]) t1"
    using recv_body_byte [of t x] Cons by auto
  obtain b where b: "t1 = t\<lparr>sb_buffer := b, buffer_pos := length (body t @ [x])\<rparr>" "sb_ok t1"
    "take (length (body t @ [x])) b = body t @ [x]"
    using t1(2) by (auto simp: body_rel_def)
  have bt1: "body t1 = body t @ [x]" "t_state t1 = t_state t" "sb_telopt t1 = sb_telopt t"
    using b by (simp_all add: body_def)
  obtain t2 where t2: "bytewise (\<lambda>_ _. True) (concat (map raw_code bs)) t1 = Some t2" "body_rel t1 ((body t @ [x]) @ bs) t2"
    using Cons(1) [of t1] Cons(2,4,5) b(2) bt1 by auto
  have "body_rel t (body t @ x # bs) t2"
    using t2(2) b(1) by (auto simp: body_rel_def)
  then show ?case using t1(1) t2(1) by (simp add: bytewise_append)
qed

text \<open>The sent form of a subnegotiation.\<close>

lemma telnet_send_events: "\<exists>l. telnet_send bs t = t\<lparr>events := events t @ l\<rparr> \<and> wire l = concat (map raw_code bs)"
  using send_loop_wire [OF codes_special(1), of "[]" bs t] by (simp add: telnet_send_def)

lemma sent_subnegotiation:
  "sent t (telnet_subnegotiation telopt bs t) = [255, 250, telopt] @ concat (map raw_code bs) @ [255, 240]"
proof -
  let ?t = "send_bytes [TELNET_IAC, TELNET_SB, telopt] t"
  obtain l where "telnet_send bs ?t = ?t\<lparr>events := events ?t @ l\<rparr>" "wire l = concat (map raw_code bs)"
    using telnet_send_events by blast
  then show ?thesis by (simp add: telnet_subnegotiation_def sent_def send_bytes_fields)
qed

definition plain_option :: "u8 \<Rightarrow> bool" where
  "plain_option telopt \<longleftrightarrow> telopt \<notin> {TELNET_TELOPT_TTYPE, TELNET_TELOPT_ENVIRON, TELNET_TELOPT_NEW_ENVIRON,
     TELNET_TELOPT_MSSP, TELNET_TELOPT_COMPRESS, TELNET_TELOPT_ZMP}"

lemma subnegotiate_plain:
  "sb_ok t \<Longrightarrow> plain_option (sb_telopt t) \<Longrightarrow>
   subnegotiate alloc t = Some (eh (EvSubnegotiation (sb_telopt t) (body t)) t, 0)"
  by (simp add: subnegotiate_def rdn_def sb_ok_def plain_option_def body_def eh_def)

lemma recv_subnegotiation:
  assumes "t_state r = TELNET_STATE_DATA" "sb_ok r" "length bs \<le> 16384" "telopt \<noteq> 85"
  shows "\<exists>b. bytewise (\<lambda>_ _. True) ([255, 250, telopt] @ concat (map raw_code bs) @ [255]) r =
      Some (r\<lparr>t_state := TELNET_STATE_SB_DATA_IAC, sb_telopt := telopt, sb_buffer := b, buffer_pos := length bs\<rparr>) \<and>
    sb_ok (r\<lparr>sb_buffer := b, buffer_pos := length bs\<rparr>) \<and> take (length bs) b = bs"
proof -
  let ?s = "set_state TELNET_STATE_SB_DATA
    ((set_state TELNET_STATE_SB (set_state TELNET_STATE_IAC r))\<lparr>sb_telopt := telopt, buffer_pos := 0\<rparr>)"
  have s: "t_state ?s = TELNET_STATE_SB_DATA" "sb_ok ?s" "body ?s = []" "sb_telopt ?s \<noteq> 85"
    using assms(2,4) by (simp_all add: sb_ok_def set_state_def body_def)
  obtain t1 where t1: "bytewise (\<lambda>_ _. True) (concat (map raw_code bs)) ?s = Some t1" "body_rel ?s bs t1"
    using recv_body [OF s(1,2) _ s(4), of bs] assms(3) s(3) by auto
  have p: "bytewise (\<lambda>_ _. True) [255, 250, telopt] r = Some ?s"
    using assms(1) recv_one_simps(1) [of r] recv_one_simps(2) [of "set_state TELNET_STATE_IAC r"]
      recv_one_simps(3) [of "set_state TELNET_STATE_SB (set_state TELNET_STATE_IAC r)"] by simp
  obtain b where b: "t1 = ?s\<lparr>sb_buffer := b, buffer_pos := length bs\<rparr>" "sb_ok t1" "take (length bs) b = bs"
    using t1(2) by (auto simp: body_rel_def)
  have "bytewise (\<lambda>_ _. True) ([255, 250, telopt] @ concat (map raw_code bs) @ [255]) r =
      bytewise (\<lambda>_ _. True) [255] t1"
    unfolding bytewise_append p using t1(1) by simp
  also have "\<dots> = Some (set_state TELNET_STATE_SB_DATA_IAC t1)"
    using recv_one_simps(4) [of t1 "\<lambda>_ _. True"] b(1) by (simp add: set_state_def)
  finally show ?thesis
    using b by (intro exI [of _ b]) (simp add: set_state_def sb_ok_def)
qed

text \<open>A subnegotiation of at most 16384 bytes, whatever they are, arrives as one event with exactly
  those bytes, for every division of the stream into received chunks: escaping, the growth of the
  buffer and the state machine fit together.  The options whose bodies are parsed further and the one
  that starts compression are apart.\<close>

theorem subnegotiation_round_trip:
  assumes "concat chunks = sent s (telnet_subnegotiation telopt bs s)"
    and "t_state r = TELNET_STATE_DATA" and "sb_ok r"
    and "length bs \<le> 16384" and "plain_option telopt"
  shows "\<exists>r'. recv_chunks (\<lambda>_ _. True) chunks r = Some r' \<and>
    squash (events r') = squash (events r @ [EvSubnegotiation telopt bs]) \<and>
    t_state r' = TELNET_STATE_DATA \<and> sb_ok r' \<and> q r' = q r \<and> t_flags r' = t_flags r"
proof -
  have "telopt \<noteq> 85" using assms(5) by (simp add: plain_option_def)
  from recv_subnegotiation [OF assms(2,3,4) this] obtain b where
    b: "bytewise (\<lambda>_ _. True) ([255, 250, telopt] @ concat (map raw_code bs) @ [255]) r =
      Some (r\<lparr>t_state := TELNET_STATE_SB_DATA_IAC, sb_telopt := telopt, sb_buffer := b, buffer_pos := length bs\<rparr>)"
      "sb_ok (r\<lparr>sb_buffer := b, buffer_pos := length bs\<rparr>)" "take (length bs) b = bs" by blast
  let ?t = "r\<lparr>t_state := TELNET_STATE_SB_DATA_IAC, sb_telopt := telopt, sb_buffer := b, buffer_pos := length bs\<rparr>"
  let ?u = "set_state TELNET_STATE_DATA ?t"
  have u: "sb_ok ?u" "body ?u = bs" "sb_telopt ?u = telopt"
    using b(2,3) by (simp_all add: sb_ok_def set_state_def body_def)
  let ?r = "eh (EvSubnegotiation telopt bs) ?u"
  have "telnet_recv (\<lambda>_ _. True) [240] ?t = Some ?r"
    using subnegotiate_plain [OF u(1), of "\<lambda>_ _. True"] u(2,3) assms(5) by (intro recv_one_simps(7)) simp_all
  moreover have "concat chunks = ([255, 250, telopt] @ concat (map raw_code bs) @ [255]) @ [240]"
    unfolding assms(1) sent_subnegotiation by simp
  ultimately have "bytewise (\<lambda>_ _. True) (concat chunks) r = Some ?r"
    using b(1) by (simp only: bytewise_append) simp
  then obtain evs where "recv_chunks (\<lambda>_ _. True) chunks r = Some (?r\<lparr>events := evs\<rparr>)" "squash evs = squash (events ?r)"
    using chunks_do_not_matter [OF alloc_ok_const, of "\<lambda>_. True" chunks r ?r] unfolding bytewise_def by blast
  then show ?thesis
    using u(1) by (intro exI [of _ "?r\<lparr>events := evs\<rparr>"]) (simp add: eh_def set_state_def sb_ok_def)
qed

text \<open>NAWS with an escaped byte, the stream cut inside the escape.\<close>

lemma subnegotiation_round_trip_witness:
  "\<exists>r'. recv_chunks (\<lambda>_ _. True) [[255, 250, 31, 0, 255], [255, 0, 24, 255], [240]] (telnet_init None 0) = Some r' \<and>
    squash (events r') = squash (events (telnet_init None 0) @ [EvSubnegotiation 31 [0, 255, 0, 24]]) \<and>
    t_state r' = TELNET_STATE_DATA \<and> sb_ok r' \<and> q r' = q (telnet_init None 0) \<and> t_flags r' = t_flags (telnet_init None 0)"
  by (rule subnegotiation_round_trip [of _ "telnet_init None 0" 31 "[0, 255, 0, 24]"])
    (simp_all add: sent_subnegotiation raw_code_def telnet_init_def sb_ok_def buffer_sizes_def plain_option_def)

end
