(* ===== verification/TelnetEnviron.thy ===== *)
theory TelnetEnviron
  imports TelnetBody
begin

section \<open>Telnet: the environment list\<close>

text \<open>
  What \<open>_environ_telnet\<close> computes: the in-place parser, which counts the variables, unescapes
  names and values downwards inside the receive buffer and ends each with NUL, against a parser of
  the body on lists (\<open>env_spec\<close>).  The comparison includes that no access leaves the buffer.
\<close>

subsection \<open>The specification\<close>

text \<open>The unescaped bytes up to a byte of \<open>stops\<close>, and the rest.\<close>

fun esc_split :: "u8 set \<Rightarrow> bytes \<Rightarrow> bytes \<times> bytes" where
  "esc_split stops [] = ([], [])"
| "esc_split stops [x] = (if x \<in> stops then ([], [x]) else ([x], []))"
| "esc_split stops (x # y # zs) =
     (if x \<in> stops then ([], x # y # zs)
      else if x = ENVIRON_ESC then (case esc_split stops zs of (d, r) \<Rightarrow> (y # d, r))
      else (case esc_split stops (y # zs) of (d, r) \<Rightarrow> (x # d, r)))"

lemma esc_split_length: "length (snd (esc_split stops xs)) \<le> length xs"
  by (induction stops xs rule: esc_split.induct) (auto split: prod.splits)

definition env_one :: "bytes \<Rightarrow> telnet_environ \<times> bytes" where
  "env_one xs =
     (let (n, r) = esc_split {ENVIRON_VAR, ENVIRON_VALUE, ENVIRON_USERVAR} (tl xs);
          (v, r') = (if r \<noteq> [] \<and> hd r = ENVIRON_VALUE then esc_split {ENVIRON_VAR, ENVIRON_USERVAR} (tl r) else ([], r))
      in ((hd xs, takeWhile (\<lambda>c. c \<noteq> 0) n, takeWhile (\<lambda>c. c \<noteq> 0) v), r'))"

lemma env_one_shorter: "xs \<noteq> [] \<Longrightarrow> length (snd (env_one xs)) < length xs"
  using esc_split_length [of "{ENVIRON_VAR, ENVIRON_VALUE, ENVIRON_USERVAR}" "tl xs"]
    esc_split_length [of "{ENVIRON_VAR, ENVIRON_USERVAR}" "tl (snd (esc_split {ENVIRON_VAR, ENVIRON_VALUE, ENVIRON_USERVAR} (tl xs)))"]
  by (cases xs) (auto simp: env_one_def Let_def split: prod.splits)

function env_spec :: "bytes \<Rightarrow> telnet_environ list" where
  "env_spec xs = (if xs = [] then [] else fst (env_one xs) # env_spec (snd (env_one xs)))"
  by pat_completeness auto
termination by (relation "measure length") (auto intro: env_one_shorter)

declare env_spec.simps [simp del]

subsection \<open>The copy loop\<close>

lemma esc_split_last:
  "xs \<noteq> [] \<Longrightarrow> last xs \<noteq> ENVIRON_ESC \<Longrightarrow> snd (esc_split stops xs) \<noteq> [] \<Longrightarrow> last (snd (esc_split stops xs)) = last xs"
  by (induction stops xs rule: esc_split.induct) (auto split: prod.splits if_splits)

lemma esc_split_stop: "snd (esc_split stops xs) \<noteq> [] \<Longrightarrow> hd (snd (esc_split stops xs)) \<in> stops"
  by (induction stops xs rule: esc_split.induct) (auto split: prod.splits if_splits)

lemma esc_split_data: "length (fst (esc_split stops xs)) + length (snd (esc_split stops xs)) \<le> length xs"
  by (induction stops xs rule: esc_split.induct) (auto split: prod.splits)

text \<open>The buffer while an item is unescaped: the copied bytes, the bytes in between, the rest.\<close>

lemma env_copy_spec:
  assumes "sz = length (w @ g @ xs)" "g \<noteq> []" "xs = [] \<or> last xs \<noteq> ENVIRON_ESC" "(d, r) = esc_split stops xs"
  shows "\<exists>g'. env_copy stops sz (w @ g @ xs @ tail) (length (w @ g)) (length w) =
      Some (w @ d @ g' @ r @ tail, sz - length r, length w + length d) \<and>
    length g \<le> length g' \<and> sz = length (w @ d @ g' @ r)"
  using assms
proof (induction stops xs arbitrary: w g d rule: esc_split.induct)
  case (1 stops)
  then show ?case by (subst env_copy.simps) (auto intro: exI [of _ g])
next
  case (2 stops x)
  show ?case
  proof (cases "x \<in> stops")
    case True
    then show ?thesis using 2 by (subst env_copy.simps) (auto simp: rd_def nth_append intro: exI [of _ g])
  next
    case False
    obtain a g0 where g: "g = a # g0" using 2(2) by (cases g) auto
    have "env_copy stops sz (w @ g @ [x] @ tail) (length (w @ g)) (length w) =
        env_copy stops sz (w @ x # g0 @ x # tail) (length (w @ g) + 1) (length w + 1)"
      using False 2 g by (subst env_copy.simps) (auto simp: rd_def wr_def nth_append list_update_append)
    also have "\<dots> = Some (w @ [x] @ (g0 @ [x]) @ tail, sz, length w + 1)"
      using 2(1) by (subst env_copy.simps) simp
    finally show ?thesis using False 2 g by (intro exI [of _ "g0 @ [x]"]) auto
  qed
next
  case (3 stops x y zs)
  show ?case
  proof (cases "x \<in> stops")
    case True
    then show ?thesis using 3(3-) by (subst env_copy.simps) (auto simp: rd_def nth_append intro: exI [of _ g])
  next
    case False
    obtain a g0 where g: "g = a # g0" using 3(4) by (cases g) auto
    show ?thesis
    proof (cases "x = ENVIRON_ESC")
      case True
      obtain d' where d: "d = y # d'" "(d', r) = esc_split stops zs"
        using 3(6) False True by (auto split: prod.splits)
      have s: "env_copy stops sz (w @ g @ (x # y # zs) @ tail) (length (w @ g)) (length w) =
          env_copy stops sz ((w @ [y]) @ (g0 @ [x, y]) @ zs @ tail) (length ((w @ [y]) @ (g0 @ [x, y]))) (length (w @ [y]))"
        using False True 3(3) g by (subst env_copy.simps) (auto simp: rd_def wr_def nth_append list_update_append Let_def)
      have "\<exists>g'. env_copy stops sz ((w @ [y]) @ (g0 @ [x, y]) @ zs @ tail) (length ((w @ [y]) @ (g0 @ [x, y]))) (length (w @ [y])) =
        Some ((w @ [y]) @ d' @ g' @ r @ tail, sz - length r, length (w @ [y]) + length d') \<and>
        length (g0 @ [x, y]) \<le> length g' \<and> sz = length ((w @ [y]) @ d' @ g' @ r)"
        by (rule 3(1)) (use False True 3(3-) g d in auto)
      then show ?thesis unfolding s using d g by auto
    next
      case esc: False
      obtain d' where d: "d = x # d'" "(d', r) = esc_split stops (y # zs)"
        using 3(6) False esc by (auto split: prod.splits)
      have s: "env_copy stops sz (w @ g @ (x # y # zs) @ tail) (length (w @ g)) (length w) =
          env_copy stops sz ((w @ [x]) @ (g0 @ [x]) @ (y # zs) @ tail) (length ((w @ [x]) @ (g0 @ [x]))) (length (w @ [x]))"
        using False esc 3(3) g by (subst env_copy.simps) (auto simp: rd_def wr_def nth_append list_update_append Let_def)
      have "\<exists>g'. env_copy stops sz ((w @ [x]) @ (g0 @ [x]) @ (y # zs) @ tail) (length ((w @ [x]) @ (g0 @ [x]))) (length (w @ [x])) =
        Some ((w @ [x]) @ d' @ g' @ r @ tail, sz - length r, length (w @ [x]) + length d') \<and>
        length (g0 @ [x]) \<le> length g' \<and> sz = length ((w @ [x]) @ d' @ g' @ r)"
        by (rule 3(2)) (use False esc 3(3-) g d in auto)
      then show ?thesis unfolding s using d g by auto
    qed
  qed
qed

subsection \<open>One variable\<close>

lemma cstr_at_prefix: "cstr_at (w @ n @ 0 # X) (length w) = Some (takeWhile (\<lambda>c. c \<noteq> 0) n)"
  by (simp add: cstr_at_def takeWhile_append takeWhile_eq_all_conv [THEN iffD2])

definition last_ok :: "bytes \<Rightarrow> bool" where
  "last_ok xs \<longleftrightarrow> xs = [] \<or> last xs \<noteq> ENVIRON_ESC"

lemma last_ok_tl: "last_ok xs \<Longrightarrow> last_ok (tl xs)"
  by (cases xs) (auto simp: last_ok_def split: if_splits)

lemma last_ok_split: "last_ok xs \<Longrightarrow> (d, r) = esc_split stops xs \<Longrightarrow> last_ok r"
  using esc_split_last [of xs stops] by (cases "xs = []") (auto simp: last_ok_def dest: arg_cong [of _ _ snd])

lemma env_value_spec:
  assumes "sz = length (w @ g @ r)" "length g \<ge> 1" "last_ok r"
    "(v, r') = (if r \<noteq> [] \<and> hd r = ENVIRON_VALUE then esc_split {ENVIRON_VAR, ENVIRON_USERVAR} (tl r) else ([], r))"
  shows "\<exists>W G p. env_value sz (w @ g @ r @ tail, length (w @ g), length w) =
      Some (w @ W @ G @ r' @ tail, sz - length r', length (w @ W), p) \<and> G \<noteq> [] \<and> sz = length (w @ W @ G @ r') \<and>
      last_ok r' \<and>
      (\<forall>X. (case p of None \<Rightarrow> Some [] | Some i \<Rightarrow> cstr_at (w @ W @ X) i) = Some (takeWhile (\<lambda>c. c \<noteq> 0) v))"
proof (cases "r \<noteq> [] \<and> hd r = ENVIRON_VALUE")
  case True
  then obtain r0 where r: "r = ENVIRON_VALUE # r0" by (cases r) auto
  have sp: "(v, r') = esc_split {ENVIRON_VAR, ENVIRON_USERVAR} r0" using assms(4) r by simp
  have l0: "last_ok r0" using last_ok_tl [OF assms(3)] r by simp
  obtain g' where g': "env_copy {ENVIRON_VAR, ENVIRON_USERVAR} sz (w @ (g @ [ENVIRON_VALUE]) @ r0 @ tail)
      (length (w @ g @ [ENVIRON_VALUE])) (length w) =
      Some (w @ v @ g' @ r' @ tail, sz - length r', length w + length v)"
    "length (g @ [ENVIRON_VALUE]) \<le> length g'" "sz = length (w @ v @ g' @ r')"
    using env_copy_spec [of sz w "g @ [ENVIRON_VALUE]" r0 v r' "{ENVIRON_VAR, ENVIRON_USERVAR}" tail] assms(1) l0 sp r
    by (auto simp: last_ok_def)
  obtain a G where G: "g' = a # G" "G \<noteq> []"
    using g'(2) assms(2) by (cases g'; cases "tl g'") auto
  have "env_value sz (w @ g @ r @ tail, length (w @ g), length w) =
    Some (w @ (v @ [0]) @ G @ r' @ tail, sz - length r', length (w @ v @ [0]), Some (length w))"
    using g'(1) G assms(1) r by (simp add: env_value_def rd_def wr_def nth_append list_update_append)
  moreover have "cstr_at (w @ (v @ [0]) @ X) (length w) = Some (takeWhile (\<lambda>c. c \<noteq> 0) v)" for X
    using cstr_at_prefix [of w v X] by simp
  ultimately show ?thesis
    using G g'(3) last_ok_split [OF l0 sp]
    by (intro exI [of _ "v @ [0]"] exI [of _ G] exI [of _ "Some (length w)"]) simp
next
  case False
  then have v: "v = []" "r' = r" using assms(4) by auto
  have "env_value sz (w @ g @ r @ tail, length (w @ g), length w) = Some (w @ g @ r @ tail, length (w @ g), length w, None)"
  proof (cases r)
    case Nil
    then show ?thesis using assms(1) by (simp add: env_value_def)
  next
    case (Cons x r0)
    then show ?thesis using assms(1) False by (simp add: env_value_def rd_def nth_append)
  qed
  then show ?thesis
    using v assms(1-3) by (intro exI [of _ "[]"] exI [of _ g] exI [of _ None]) auto
qed

lemma env_variable_spec:
  assumes "sz = length (w @ g @ xs)" "g \<noteq> []" "xs \<noteq> []" "last_ok xs"
  shows "\<exists>W G v. env_variable sz (w @ g @ xs @ tail, length (w @ g), length w) =
      Some ((w @ W @ G @ snd (env_one xs) @ tail, sz - length (snd (env_one xs)), length (w @ W)), v) \<and> G \<noteq> [] \<and>
      sz = length (w @ W @ G @ snd (env_one xs)) \<and> last_ok (snd (env_one xs)) \<and>
      (\<forall>X. env_strings (w @ W @ X) v = Some (fst (env_one xs)))"
proof -
  obtain x xs' where xs: "xs = x # xs'" using assms(3) by (cases xs) auto
  obtain n r where n: "(n, r) = esc_split {ENVIRON_VAR, ENVIRON_VALUE, ENVIRON_USERVAR} xs'"
    by (metis prod.exhaust)
  obtain v r' where v: "(v, r') = (if r \<noteq> [] \<and> hd r = ENVIRON_VALUE then esc_split {ENVIRON_VAR, ENVIRON_USERVAR} (tl r) else ([], r))"
    by (metis prod.exhaust)
  have one: "env_one xs = ((x, takeWhile (\<lambda>c. c \<noteq> 0) n, takeWhile (\<lambda>c. c \<noteq> 0) v), r')"
    unfolding env_one_def xs list.sel n [symmetric] v [symmetric] Let_def prod.case ..
  have l: "last_ok xs'" using last_ok_tl [OF assms(4)] xs by simp
  obtain g' where g': "env_copy {ENVIRON_VAR, ENVIRON_VALUE, ENVIRON_USERVAR} sz (w @ (g @ [x]) @ xs' @ tail)
      (length (w @ g @ [x])) (length w) = Some (w @ n @ g' @ r @ tail, sz - length r, length w + length n)"
    "length (g @ [x]) \<le> length g'" "sz = length (w @ n @ g' @ r)"
    using env_copy_spec [of sz w "g @ [x]" xs' n r "{ENVIRON_VAR, ENVIRON_VALUE, ENVIRON_USERVAR}" tail] assms(1) l n xs
    by (auto simp: last_ok_def)
  obtain a G0 where G0: "g' = a # G0" "length G0 \<ge> 1"
    using g'(2) assms(2) by (cases g'; cases g) auto
  obtain W G p where W: "env_value sz ((w @ n @ [0]) @ G0 @ r @ tail, length ((w @ n @ [0]) @ G0), length (w @ n @ [0])) =
      Some ((w @ n @ [0]) @ W @ G @ r' @ tail, sz - length r', length ((w @ n @ [0]) @ W), p)" "G \<noteq> []"
      "sz = length ((w @ n @ [0]) @ W @ G @ r')" "last_ok r'"
      "\<And>X. (case p of None \<Rightarrow> Some [] | Some i \<Rightarrow> cstr_at ((w @ n @ [0]) @ W @ X) i) = Some (takeWhile (\<lambda>c. c \<noteq> 0) v)"
    using env_value_spec [of sz "w @ n @ [0]" G0 r v r' tail] g'(3) G0 last_ok_split [OF l n] v by auto
  have c: "sz - length r = length ((w @ n @ [0]) @ G0)" using g'(3) G0 by simp
  have "env_variable sz (w @ g @ xs @ tail, length (w @ g), length w) =
      Some ((w @ (n @ [0] @ W) @ G @ r' @ tail, sz - length r', length (w @ n @ [0] @ W)), x, length w, p)"
    using g'(1) W(1) G0(1) xs c by (simp add: env_variable_def rd_def wr_def nth_append list_update_append)
  moreover have "env_strings (w @ (n @ [0] @ W) @ X) (x, length w, p) =
      Some (x, takeWhile (\<lambda>c. c \<noteq> 0) n, takeWhile (\<lambda>c. c \<noteq> 0) v)" for X
    using cstr_at_prefix [of w n "W @ X"] W(5) [of X] by (cases p) (simp_all add: env_strings_def)
  ultimately show ?thesis
    using W(2,3,4) unfolding one
    by (intro exI [of _ "n @ [0] @ W"] exI [of _ G] exI [of _ "(x, length w, p)"]) simp
qed

subsection \<open>All variables\<close>

fun var_count :: "bytes \<Rightarrow> nat" where
  "var_count [] = 0"
| "var_count [x] = (if x = ENVIRON_VAR \<or> x = ENVIRON_USERVAR then 1 else 0)"
| "var_count (x # y # zs) =
     (if x = ENVIRON_VAR \<or> x = ENVIRON_USERVAR then Suc (var_count (y # zs))
      else if x = ENVIRON_ESC then var_count zs else var_count (y # zs))"

lemma env_count_beyond: "sz \<le> c \<Longrightarrow> env_count b sz c = Some 0"
  by (subst env_count.simps) simp

lemma env_count_spec: "env_count (p @ xs @ tail) (length p + length xs) (length p) = Some (var_count xs)"
proof (induction xs arbitrary: p rule: var_count.induct)
  case 1
  then show ?case by (simp add: env_count_beyond)
next
  case (2 x)
  then show ?case by (subst env_count.simps) (simp add: rd_def nth_append env_count_beyond)
next
  case (3 x y zs)
  have n: "rd (p @ (x # y # zs) @ tail) (length p) = Some x" by (simp add: rd_def nth_append)
  have one: "env_count (p @ (x # y # zs) @ tail) (length p + length (x # y # zs)) (length p + 1) = Some (var_count (y # zs))"
    if "(x = 0 \<or> x = 3) \<or> x \<noteq> 2"
    using that 3(1) [of "p @ [x]"] 3(3) [of "p @ [x]"] by (cases "x = 0 \<or> x = 3") auto
  have two: "env_count (p @ (x # y # zs) @ tail) (length p + length (x # y # zs)) (length p + 2) = Some (var_count zs)"
    if "x = 2" using that 3(2) [of "p @ [x, y]"] by simp
  show ?case
    using one two n by (subst env_count.simps) auto
qed

lemma var_count_split:
  "ENVIRON_VAR \<in> stops \<Longrightarrow> ENVIRON_USERVAR \<in> stops \<Longrightarrow> var_count (snd (esc_split stops xs)) = var_count xs"
  by (induction stops xs rule: esc_split.induct) (auto split: prod.splits)

definition at_var :: "bytes \<Rightarrow> bool" where
  "at_var xs \<longleftrightarrow> xs = [] \<or> hd xs = ENVIRON_VAR \<or> hd xs = ENVIRON_USERVAR"

lemma var_count_Cons: "at_var (x # xs) \<Longrightarrow> var_count (x # xs) = Suc (var_count xs)"
  by (cases xs) (auto simp: at_var_def)

lemma env_one_rest:
  assumes "at_var xs" "xs \<noteq> []"
  shows "at_var (snd (env_one xs))" "var_count xs = Suc (var_count (snd (env_one xs)))"
proof -
  obtain x xs' where xs: "xs = x # xs'" using assms(2) by (cases xs) auto
  let ?s1 = "{ENVIRON_VAR, ENVIRON_VALUE, ENVIRON_USERVAR}" and ?s2 = "{ENVIRON_VAR, ENVIRON_USERVAR}"
  obtain n r where n: "(n, r) = esc_split ?s1 xs'" by (metis prod.exhaust)
  have rest: "snd (env_one xs) = (if r \<noteq> [] \<and> hd r = ENVIRON_VALUE then snd (esc_split ?s2 (tl r)) else r)"
    unfolding env_one_def xs list.sel n [symmetric] Let_def by (simp split: prod.splits)
  have r: "r \<noteq> [] \<Longrightarrow> hd r \<in> ?s1" "var_count r = var_count xs'"
    using esc_split_stop [of ?s1 xs'] var_count_split [of ?s1 xs'] by (simp_all add: n [symmetric])
  have c: "var_count xs = Suc (var_count xs')" using var_count_Cons assms(1) xs by simp
  have v: "var_count (tl r) = var_count r" if "r \<noteq> []" "hd r = ENVIRON_VALUE"
    using that by (cases r; cases "tl r") auto
  show "at_var (snd (env_one xs))" "var_count xs = Suc (var_count (snd (env_one xs)))"
    using r c v esc_split_stop [of ?s2 "tl r"] var_count_split [of ?s2 "tl r"] unfolding rest at_var_def by auto
qed

lemma env_variables_spec:
  assumes "sz = length (w @ g @ xs)" "g \<noteq> []" "last_ok xs" "at_var xs"
  shows "\<exists>W G vs. env_variables (var_count xs) sz (w @ g @ xs @ tail, length (w @ g), length w) =
      Some ((w @ W @ G @ tail, sz, length (w @ W)), vs) \<and> sz = length (w @ W @ G) \<and>
      (\<forall>X. all_strings (env_strings (w @ W @ X)) vs = Some (env_spec xs))"
  using assms
proof (induction "length xs" arbitrary: xs w g rule: less_induct)
  case less
  show ?case
  proof (cases "xs = []")
    case True
    then show ?thesis using less(2) by (intro exI [of _ "[]"] exI [of _ g] exI [of _ "[]"]) (simp add: env_spec.simps)
  next
    case False
    let ?r = "snd (env_one xs)"
    obtain W G v where W: "env_variable sz (w @ g @ xs @ tail, length (w @ g), length w) =
      Some ((w @ W @ G @ ?r @ tail, sz - length ?r, length (w @ W)), v)" "G \<noteq> []"
      "sz = length (w @ W @ G @ ?r)" "last_ok ?r" "\<And>X. env_strings (w @ W @ X) v = Some (fst (env_one xs))"
      using env_variable_spec [OF less(2,3) False less(4), of tail] by blast
    obtain W' G' vs where W': "env_variables (var_count ?r) sz ((w @ W) @ G @ ?r @ tail, length ((w @ W) @ G), length (w @ W)) =
      Some (((w @ W) @ W' @ G' @ tail, sz, length ((w @ W) @ W')), vs)" "sz = length ((w @ W) @ W' @ G')"
      "\<And>X. all_strings (env_strings ((w @ W) @ W' @ X)) vs = Some (env_spec ?r)"
      using less(1) [of ?r "w @ W" G] env_one_shorter [OF False] W(2-4) env_one_rest(1) [OF less(5) False] by auto
    have c: "sz - length ?r = length ((w @ W) @ G)" using W(3) by simp
    have "env_variables (var_count xs) sz (w @ g @ xs @ tail, length (w @ g), length w) =
      Some ((w @ (W @ W') @ G' @ tail, sz, length (w @ W @ W')), v # vs)"
      using W(1) W'(1) c env_one_rest(2) [OF less(5) False] by simp
    moreover have "all_strings (env_strings (w @ (W @ W') @ X)) (v # vs) = Some (env_spec xs)" for X
      using W(5) [of "W' @ X"] W'(3) [of X] False by (subst env_spec.simps) simp
    ultimately show ?thesis
      using W'(2) by (intro exI [of _ "W @ W'"] exI [of _ G'] exI [of _ "v # vs"]) simp
  qed
qed

lemma environ_result:
  assumes "sb_ok t" and "body t = cmd # vars"
  shows "\<exists>b. environ_telnet alloc t (buffer_pos t) =
    Some (if cmd \<in> {0, 1, 2} \<and> last_ok vars \<and> at_var vars \<and> (vars = [] \<or> alloc (events t) (var_count vars * 12))
          then (eh (EvEnviron cmd (env_spec vars)) (t\<lparr>sb_buffer := b\<rparr>), 1)
          else (error ''_environ_telnet'' t, 0)) \<and> length b = length (sb_buffer t)"
proof -
  let ?tail = "drop (buffer_pos t) (sb_buffer t)"
  have sb: "sb_buffer t = cmd # vars @ ?tail" and pos: "buffer_pos t = Suc (length vars)"
    using assms(1,2) append_take_drop_id [of "buffer_pos t" "sb_buffer t"]
    by (auto simp: body_def sb_ok_def dest: arg_cong [of _ _ length] simp del: append_take_drop_id)
  have r0: "rd (sb_buffer t) 0 = Some cmd" by (subst sb) simp
  show ?thesis
  proof (cases vars)
    case Nil
    then show ?thesis
      using r0 pos by (intro exI [of _ "sb_buffer t"]) (simp add: environ_telnet_def last_ok_def at_var_def env_spec.simps)
  next
    case (Cons x xs)
    have r1: "rd (sb_buffer t) 1 = Some x" by (subst sb) (simp add: Cons rd_def)
    have r2: "rd (sb_buffer t) (buffer_pos t - 1) = Some (last vars)"
      by (subst sb) (simp add: pos rd_def nth_append last_conv_nth Cons nth_Cons')
    have p1: "buffer_pos t \<noteq> 0" "buffer_pos t \<noteq> 1" using pos Cons by auto
    have cnt: "env_count (sb_buffer t) (buffer_pos t) 1 = Some (var_count vars)"
      using env_count_spec [of "[cmd]" vars ?tail] sb pos by simp
    show ?thesis
    proof (cases "cmd \<in> {0, 1, 2} \<and> last_ok vars \<and> at_var vars \<and> alloc (events t) (var_count vars * 12)")
      case True
      obtain W G vs where W: "env_variables (var_count vars) (buffer_pos t) ([] @ [cmd] @ vars @ ?tail, length ([] @ [cmd]), length []) =
          Some (([] @ W @ G @ ?tail, buffer_pos t, length ([] @ W)), vs)" "buffer_pos t = length ([] @ W @ G)"
          "\<And>X. all_strings (env_strings ([] @ W @ X)) vs = Some (env_spec vars)"
        using env_variables_spec [of "buffer_pos t" "[]" "[cmd]" vars ?tail] pos True by auto
      have "env_variables (var_count vars) (buffer_pos t) (sb_buffer t, 1, 0) = Some ((W @ G @ ?tail, buffer_pos t, length W), vs)"
        using W(1) sb by simp
      moreover have "length (W @ G @ ?tail) = length (sb_buffer t)" using W(2) assms(1) by (simp add: sb_ok_def)
      ultimately show ?thesis
        using True r0 r1 r2 cnt W(3) [of "G @ ?tail"] Cons p1
        by (intro exI [of _ "W @ G @ ?tail"]) (auto simp: environ_telnet_def Let_def last_ok_def at_var_def)
    next
      case False
      then show ?thesis
        using r0 r1 r2 p1 cnt Cons by (intro exI [of _ "sb_buffer t"]) (auto simp: environ_telnet_def Let_def last_ok_def at_var_def)
    qed
  qed
qed

text \<open>The in-place parser of ENVIRON bodies refines the parser on lists and never leaves the
  buffer: for a body with a known command that begins with a variable and does not end with an
  escape, the event holds the variables of \<open>env_spec\<close>, all of them, in order, whatever lies behind
  the body in the buffer; anything else is refused with a warning or skipped.\<close>

theorem environ_refines:
  assumes "sb_ok t" and "body t = cmd # vars" and "\<And>e n. alloc e n"
  shows "\<exists>b. environ_telnet alloc t (buffer_pos t) =
    Some (if cmd \<in> {0, 1, 2} \<and> last_ok vars \<and> at_var vars
          then (eh (EvEnviron cmd (env_spec vars)) (t\<lparr>sb_buffer := b\<rparr>), 1)
          else (error ''_environ_telnet'' t, 0)) \<and> length b = length (sb_buffer t)"
  using environ_result [OF assms(1,2), of alloc] assms(3) by simp

text \<open>USERVAR \<open>A\<close> with the escaped bytes 2 and 0 in its value, behind it a VAR \<open>B\<close> without value.\<close>

lemma environ_refines_witness:
  "\<exists>b. environ_telnet (\<lambda>_ _. True)
      ((telnet_init None 0)\<lparr>sb_buffer := [0, 3, 65, 1, 66, 2, 2, 67, 0, 66] @ replicate 502 7, buffer_pos := 10\<rparr>) 10 =
    Some (eh (EvEnviron 0 [(3, [65], [66, 2, 67]), (0, [66], [])]) ((telnet_init None 0)\<lparr>sb_buffer := b, buffer_pos := 10\<rparr>), 1) \<and>
    length b = 512"
proof -
  let ?t = "(telnet_init None 0)\<lparr>sb_buffer := [0, 3, 65, 1, 66, 2, 2, 67, 0, 66] @ replicate 502 7, buffer_pos := 10\<rparr>"
  have t: "sb_ok ?t" "body ?t = 0 # [3, 65, 1, 66, 2, 2, 67, 0, 66]"
    by (simp_all add: sb_ok_def body_def buffer_sizes_def telnet_init_def)
  have e: "env_spec [3, 65, 1, 66, 2, 2, 67, 0, 66] = [(3, [65], [66, 2, 67]), (0, [66], [])]"
    by (simp add: env_spec.simps env_one_def)
  show ?thesis
    using environ_refines [OF t, of "\<lambda>_ _. True"] unfolding e by (simp add: last_ok_def at_var_def telnet_init_def)
qed

subsection \<open>Sent and received\<close>

text \<open>A list of variables the way \<open>telnet_newenviron_value\<close> is meant to be called.\<close>

definition send_environ :: "u8 \<Rightarrow> telnet_environ list \<Rightarrow> telnet_t \<Rightarrow> telnet_t" where
  "send_environ cmd vars t =
     telnet_finish_sb
       (fold (\<lambda>(typ, n, v) u. telnet_newenviron_value ENVIRON_VALUE (Some v) (telnet_newenviron_value typ (Some n) u)) vars
         (telnet_begin_newenviron cmd t))"

definition env_encode :: "telnet_environ list \<Rightarrow> bytes" where
  "env_encode vars = concat (map (\<lambda>(typ, n, v). typ # n @ ENVIRON_VALUE # v) vars)"

text \<open>No escaping is done when sending: names and values have no byte below 4.\<close>

definition env_plain :: "telnet_environ \<Rightarrow> bool" where
  "env_plain e = (case e of (typ, n, v) \<Rightarrow> (typ = ENVIRON_VAR \<or> typ = ENVIRON_USERVAR) \<and> (\<forall>c \<in> set (n @ v). 3 < c))"

lemma esc_split_plain:
  "(\<forall>c \<in> set p. 3 < c) \<Longrightarrow> r = [] \<or> hd r \<in> stops \<Longrightarrow> stops \<subseteq> {0, 1, 3} \<Longrightarrow> esc_split stops (p @ r) = (p, r)"
proof (induction p)
  case Nil
  then show ?case by (cases r; cases "tl r") auto
next
  case (Cons x p)
  have x: "x \<notin> stops" "x \<noteq> 2" using Cons(2,4) by auto
  have ih: "esc_split stops (p @ r) = (p, r)" using Cons by simp
  show ?case
  proof (cases "p @ r")
    case Nil
    then show ?thesis using x by simp
  next
    case (Cons y zs)
    then show ?thesis using x ih by simp
  qed
qed

lemma takeWhile_plain: "(\<forall>c \<in> set p. (3::u8) < c) \<Longrightarrow> takeWhile (\<lambda>c. c \<noteq> 0) p = p"
  by (auto simp: takeWhile_eq_all_conv)

lemma env_spec_encode: "(\<forall>e \<in> set vars. env_plain e) \<Longrightarrow> env_spec (env_encode vars) = vars"
proof (induction vars)
  case Nil
  then show ?case by (simp add: env_encode_def env_spec.simps)
next
  case (Cons e vars)
  obtain ty n v where e: "e = (ty, n, v)" by (rule prod_cases3)
  let ?r = "env_encode vars"
  have pl: "\<forall>c \<in> set n. 3 < c" "\<forall>c \<in> set v. 3 < c" "ty = 0 \<or> ty = 3" using Cons(2) e by (auto simp: env_plain_def)
  have r: "?r = [] \<or> hd ?r \<in> {0, 3}"
    using Cons(2) by (cases vars) (auto simp: env_encode_def env_plain_def)
  have x: "env_encode (e # vars) = ty # n @ 1 # v @ ?r" by (simp add: env_encode_def e)
  have s1: "esc_split {0, 1, 3} (n @ 1 # v @ ?r) = (n, 1 # v @ ?r)" by (rule esc_split_plain) (use pl in auto)
  have s2: "esc_split {0, 3} (v @ ?r) = (v, ?r)" by (rule esc_split_plain) (use pl r in auto)
  have "env_one (env_encode (e # vars)) = (e, ?r)"
    unfolding x env_one_def list.sel s1 by (simp add: s2 e takeWhile_plain pl)
  then show ?case
    using Cons by (subst env_spec.simps) (simp add: x)
qed

lemma sent_append:
  assumes "f t = t\<lparr>events := events t @ l\<rparr>" "wire l = w"
  shows "sent t (f t) = w"
  using assms by (simp add: sent_def)

lemma raw_codes_append: "concat (map raw_code (xs @ ys)) = concat (map raw_code xs) @ concat (map raw_code ys)"
  by simp

lemma send_value_events:
  "\<exists>l. telnet_newenviron_value ty (Some n) t = t\<lparr>events := events t @ l\<rparr> \<and> wire l = concat (map raw_code (ty # n))"
proof -
  obtain l where l: "telnet_send [ty] t = t\<lparr>events := events t @ l\<rparr>" "wire l = concat (map raw_code [ty])"
    using telnet_send_events by blast
  obtain l' where l': "telnet_send n (t\<lparr>events := events t @ l\<rparr>) = t\<lparr>events := events t @ l @ l'\<rparr>" "wire l' = concat (map raw_code n)"
    using telnet_send_events [of n "t\<lparr>events := events t @ l\<rparr>"] by auto
  show ?thesis
    using l l' by (intro exI [of _ "l @ l'"]) (simp add: telnet_newenviron_value_def)
qed

lemma send_values_events:
  "\<exists>l. fold (\<lambda>(ty, n, v) u. telnet_newenviron_value ENVIRON_VALUE (Some v) (telnet_newenviron_value ty (Some n) u)) vars t =
     t\<lparr>events := events t @ l\<rparr> \<and> wire l = concat (map raw_code (env_encode vars))"
proof (induction vars arbitrary: t)
  case Nil
  then show ?case by (intro exI [of _ "[]"]) (simp add: env_encode_def)
next
  case (Cons e vars)
  obtain ty n v where e: "e = (ty, n, v)" by (rule prod_cases3)
  obtain l1 where l1: "telnet_newenviron_value ty (Some n) t = t\<lparr>events := events t @ l1\<rparr>"
    "wire l1 = concat (map raw_code (ty # n))" using send_value_events by blast
  obtain l2 where l2: "telnet_newenviron_value 1 (Some v) (t\<lparr>events := events t @ l1\<rparr>) = t\<lparr>events := events t @ l1 @ l2\<rparr>"
    "wire l2 = concat (map raw_code (1 # v))" using send_value_events [of 1 v "t\<lparr>events := events t @ l1\<rparr>"] by auto
  let ?t = "t\<lparr>events := events t @ l1 @ l2\<rparr>"
  obtain l3 where "fold (\<lambda>(ty, n, v) u. telnet_newenviron_value ENVIRON_VALUE (Some v) (telnet_newenviron_value ty (Some n) u)) vars ?t =
     ?t\<lparr>events := events ?t @ l3\<rparr>" "wire l3 = concat (map raw_code (env_encode vars))" using Cons by blast
  then show ?case
    using l1 l2 by (intro exI [of _ "l1 @ l2 @ l3"]) (simp add: e env_encode_def)
qed

lemma sent_environ:
  "sent s (send_environ cmd vars s) = [255, 250, 39] @ concat (map raw_code (cmd # env_encode vars)) @ [255, 240]"
proof -
  let ?s1 = "telnet_begin_sb TELNET_TELOPT_NEW_ENVIRON s"
  obtain l where l: "telnet_send [cmd] ?s1 = ?s1\<lparr>events := events ?s1 @ l\<rparr>" "wire l = concat (map raw_code [cmd])"
    using telnet_send_events by blast
  let ?s2 = "?s1\<lparr>events := events ?s1 @ l\<rparr>"
  obtain l' where l': "fold (\<lambda>(ty, n, v) u. telnet_newenviron_value ENVIRON_VALUE (Some v) (telnet_newenviron_value ty (Some n) u)) vars ?s2 =
     ?s2\<lparr>events := events ?s2 @ l'\<rparr>" "wire l' = concat (map raw_code (env_encode vars))" using send_values_events by blast
  have e: "send_environ cmd vars s = telnet_iac TELNET_SE (?s2\<lparr>events := events ?s2 @ l'\<rparr>)"
    unfolding send_environ_def telnet_begin_newenviron_def l(1) l'(1) telnet_finish_sb_def ..
  show ?thesis
    unfolding e sent_def telnet_iac_def telnet_begin_sb_def using l(2) l'(2) by (simp add: send_bytes_fields)
qed

text \<open>A NEW-ENVIRON list sent variable by variable is received as that list, byte values below 4
  in names and values apart (which the sender does not escape) and within the buffer of 16384 bytes,
  for every division of the stream into chunks: the generic event, then the parsed one.\<close>

theorem environ_round_trip:
  assumes "concat chunks = sent s (send_environ cmd vars s)" and "cmd \<in> {0, 1, 2}"
    and "t_state r = TELNET_STATE_DATA" and "sb_ok r"
    and "length (env_encode vars) < 16384" and "\<forall>e \<in> set vars. env_plain e"
  shows "\<exists>r'. recv_chunks (\<lambda>_ _. True) chunks r = Some r' \<and>
    squash (events r') = squash (events r @
      [EvSubnegotiation TELNET_TELOPT_NEW_ENVIRON (cmd # env_encode vars), EvEnviron cmd vars]) \<and>
    t_state r' = TELNET_STATE_DATA"
proof -
  let ?bs = "cmd # env_encode vars"
  have "length ?bs \<le> 16384" "(39::u8) \<noteq> 85" using assms(5) by simp_all
  from recv_subnegotiation [OF assms(3,4) this] obtain b where
    b: "bytewise (\<lambda>_ _. True) ([255, 250, 39] @ concat (map raw_code ?bs) @ [255]) r =
      Some (r\<lparr>t_state := TELNET_STATE_SB_DATA_IAC, sb_telopt := 39, sb_buffer := b, buffer_pos := length ?bs\<rparr>)"
      "sb_ok (r\<lparr>sb_buffer := b, buffer_pos := length ?bs\<rparr>)" "take (length ?bs) b = ?bs" by blast
  let ?t = "r\<lparr>t_state := TELNET_STATE_SB_DATA_IAC, sb_telopt := 39, sb_buffer := b, buffer_pos := length ?bs\<rparr>"
  let ?u = "set_state TELNET_STATE_DATA ?t"
  let ?v = "eh (EvSubnegotiation 39 ?bs) ?u"
  have v: "sb_ok ?v" "body ?v = ?bs" "buffer_pos ?v = length ?bs"
    using b(2,3) by (simp_all add: sb_ok_def set_state_def body_def eh_def)
  have enc: "last_ok (env_encode vars)" "at_var (env_encode vars)"
  proof -
    show "at_var (env_encode vars)"
      using assms(6) by (cases vars) (auto simp: env_encode_def at_var_def env_plain_def)
    show "last_ok (env_encode vars)"
    proof (cases vars rule: rev_cases)
      case (snoc vs e)
      obtain ty n w where "e = (ty, n, w)" by (rule prod_cases3)
      then show ?thesis using assms(6) snoc by (cases w rule: rev_cases) (auto simp: env_encode_def last_ok_def env_plain_def)
    qed (simp add: env_encode_def last_ok_def)
  qed
  obtain c where c: "environ_telnet (\<lambda>_ _. True) ?v (buffer_pos ?v) =
      Some (eh (EvEnviron cmd vars) (?v\<lparr>sb_buffer := c\<rparr>), 1)"
    using environ_result [OF v(1,2), of "\<lambda>_ _. True"] enc assms(2) env_spec_encode [OF assms(6)] by auto
  let ?r = "eh (EvEnviron cmd vars) (?v\<lparr>sb_buffer := c\<rparr>)"
  have "rdn (sb_buffer ?u) 0 (buffer_pos ?u) = Some ?bs"
    using b(2,3) by (simp add: rdn_def set_state_def sb_ok_def)
  then have "subnegotiate (\<lambda>_ _. True) ?u = Some (?r, 1)"
    using c by (simp add: subnegotiate_def set_state_def eh_def)
  then have "telnet_recv (\<lambda>_ _. True) [240] ?t = Some ?r" by (intro recv_one_simps(7)) simp_all
  moreover have "concat chunks = ([255, 250, 39] @ concat (map raw_code ?bs) @ [255]) @ [240]"
    unfolding assms(1) sent_environ by simp
  ultimately have "bytewise (\<lambda>_ _. True) (concat chunks) r = Some ?r"
    using b(1) by (simp only: bytewise_append) simp
  then obtain t' where "recv_chunks (\<lambda>_ _. True) chunks r = Some t'" "sim t' ?r"
    using recv_chunks_bytewise [OF alloc_ok_const sim_refl, of "\<lambda>_. True" chunks r ?r] by blast
  then show ?thesis by (intro exI [of _ t']) (simp add: sim_def eh_def set_state_def)
qed

lemma environ_round_trip_witness:
  "\<exists>r'. recv_chunks (\<lambda>_ _. True) [[255, 250, 39, 0, 3, 65], [255, 255, 1, 66, 255], [240]] (telnet_init None 0) = Some r' \<and>
    squash (events r') = squash (events (telnet_init None 0) @
      [EvSubnegotiation TELNET_TELOPT_NEW_ENVIRON (0 # env_encode [(3, [65, 255], [66])]), EvEnviron 0 [(3, [65, 255], [66])]]) \<and>
    t_state r' = TELNET_STATE_DATA"
  by (rule environ_round_trip [of _ "telnet_init None 0"])
    (simp_all add: sent_environ raw_code_def telnet_init_def sb_ok_def buffer_sizes_def env_plain_def env_encode_def)

end
