(* ===== verification/TelnetSafety.thy ===== *)
theory TelnetSafety
  imports TelnetEnviron
begin

section \<open>Telnet: no stream leaves the buffers\<close>

text \<open>
  Memory safety of \<open>telnet_recv\<close> for arbitrary input and any outcome of the allocations, apart from
  two places inside subnegotiations where the code does leave its input: the begin marker of
  compression, and the MSSP parser.
\<close>

lemma takeWhile_stop: "i < length xs \<Longrightarrow> xs ! i = 0 \<Longrightarrow> length (takeWhile (\<lambda>c. c \<noteq> (0::u8)) xs) \<le> i"
  by (metis (mono_tags, lifting) not_le nth_mem set_takeWhileD takeWhile_nth)

lemma zmp_args_total:
  assumes "c \<le> sz" "sz \<le> length b" "0 < sz" "b ! (sz - 1) = 0"
  shows "\<exists>args. zmp_args b sz c = Some args"
  using assms
proof (induction b sz c rule: zmp_args.induct)
  case (1 b sz c)
  show ?case
  proof (cases "c = sz")
    case True
    then show ?thesis by (subst zmp_args.simps) simp
  next
    case False
    let ?s = "takeWhile (\<lambda>c. c \<noteq> 0) (drop c b)"
    have i: "sz - 1 - c < length (drop c b)" "drop c b ! (sz - 1 - c) = 0" using False 1(2-) by simp_all
    have z: "0 \<in> set (drop c b)" using i nth_mem by metis
    have le: "length ?s \<le> sz - 1 - c" by (rule takeWhile_stop [OF i])
    have s: "cstr_at b c = Some ?s" using z by (simp add: cstr_at_def)
    have "\<exists>args. zmp_args b sz (c + length ?s + 1) = Some args"
      by (rule 1(1) [OF False _ s]) (use False 1(2-) le in auto)
    then show ?thesis using False 1(2) s by (subst zmp_args.simps) auto
  qed
qed

text \<open>What the parsers leave alone.\<close>

definition same_buffer :: "telnet_t \<Rightarrow> telnet_t \<Rightarrow> bool" where
  "same_buffer t t' \<longleftrightarrow> length (sb_buffer t') = length (sb_buffer t) \<and> buffer_pos t' = buffer_pos t \<and>
     sb_telopt t' = sb_telopt t"

lemma same_buffer_ok: "same_buffer t t' \<Longrightarrow> sb_ok t \<Longrightarrow> sb_ok t'"
  by (simp add: same_buffer_def sb_ok_def)

lemma same_buffer_simps [simp]:
  "same_buffer t t" "same_buffer t (eh e t') \<longleftrightarrow> same_buffer t t'" "same_buffer t (error s t') \<longleftrightarrow> same_buffer t t'"
  "same_buffer t (set_state st t') \<longleftrightarrow> same_buffer t t'" "same_buffer t (send_negotiate c o' t') \<longleftrightarrow> same_buffer t t'"
  "same_buffer (eh e t) t' \<longleftrightarrow> same_buffer t t'" "same_buffer (error s t) t' \<longleftrightarrow> same_buffer t t'"
  "same_buffer (set_state st t) t' \<longleftrightarrow> same_buffer t t'"
  by (simp_all add: same_buffer_def eh_def error_def set_state_def send_negotiate_def send_bytes_def)

lemma same_buffer_set_rfc1143: "same_buffer t (set_rfc1143 alloc o' us him t)"
  by (auto simp: set_rfc1143_def same_buffer_def error_def eh_def Let_def split: option.split)

lemma same_buffer_negotiate: "same_buffer t (negotiate alloc o' t)"
  unfolding negotiate_def Let_def got_will_def got_wont_def got_do_def got_dont_def
  by (auto split: telnet_state.split intro: same_buffer_set_rfc1143)

lemma subneg_parts_total:
  assumes "sb_ok t"
  shows "\<exists>t' r. zmp_telnet alloc t (buffer_pos t) = Some (t', r) \<and> same_buffer t t'"
    "\<exists>t' r. ttype_telnet alloc t (buffer_pos t) = Some (t', r) \<and> same_buffer t t'"
    "\<exists>t' r. environ_telnet alloc t (buffer_pos t) = Some (t', r) \<and> same_buffer t t'"
proof -
  have le: "buffer_pos t \<le> length (sb_buffer t)" using assms by (simp add: sb_ok_def)
  show "\<exists>t' r. zmp_telnet alloc t (buffer_pos t) = Some (t', r) \<and> same_buffer t t'"
  proof (cases "buffer_pos t = 0 \<or> sb_buffer t ! (buffer_pos t - 1) \<noteq> 0")
    case True
    then show ?thesis using le by (auto simp: zmp_telnet_def rd_def Let_def)
  next
    case False
    then obtain args where "zmp_args (sb_buffer t) (buffer_pos t) 0 = Some args"
      using zmp_args_total [of 0 "buffer_pos t" "sb_buffer t"] le by auto
    then show ?thesis using False le by (auto simp: zmp_telnet_def rd_def Let_def)
  qed
  show "\<exists>t' r. ttype_telnet alloc t (buffer_pos t) = Some (t', r) \<and> same_buffer t t'"
    using le by (cases "buffer_pos t = 0") (auto simp: ttype_telnet_def rd_def rdn_def Let_def)
  show "\<exists>t' r. environ_telnet alloc t (buffer_pos t) = Some (t', r) \<and> same_buffer t t'"
  proof (cases "buffer_pos t = 0")
    case True
    then show ?thesis by (simp add: environ_telnet_def)
  next
    case False
    then obtain cmd vars where "body t = cmd # vars" using le by (cases "body t") (auto simp: body_def)
    then show ?thesis
      using environ_result [OF assms, of cmd vars alloc] by (auto simp: same_buffer_def eh_def error_def)
  qed
qed

lemma subnegotiate_total:
  assumes "sb_ok t" "sb_telopt t \<noteq> TELNET_TELOPT_MSSP"
  shows "\<exists>t' r. subnegotiate alloc t = Some (t', r) \<and> same_buffer t t' \<and> t_state t' = t_state t"
proof -
  let ?t = "eh (EvSubnegotiation (sb_telopt t) (body t)) t"
  have ok: "sb_ok ?t" using same_buffer_ok [of t ?t] assms(1) by simp
  have b: "rdn (sb_buffer t) 0 (buffer_pos t) = Some (body t)" using assms(1) by (simp add: rdn_def sb_ok_def body_def)
  have f: "sb_telopt ?t = sb_telopt t" "buffer_pos ?t = buffer_pos t" by (simp_all add: eh_def)
  have "\<exists>t' r. subnegotiate alloc t = Some (t', r) \<and> same_buffer t t'"
    using subneg_parts_total [OF ok, of alloc] assms(2) b f
    unfolding subnegotiate_def Let_def by auto
  then show ?thesis using subnegotiate_state by blast
qed

lemma buffer_byte_total:
  assumes "sb_ok t"
  shows "\<exists>ok t'. buffer_byte alloc b t = Some (ok, t') \<and> sb_ok t' \<and> sb_telopt t' = sb_telopt t"
  by (rule buffer_byte_cases [OF assms, of alloc b]) (use assms in \<open>auto simp: sb_ok_def error_def eh_def\<close>)

definition in_body :: "u8 set \<Rightarrow> telnet_t \<Rightarrow> bool" where
  "in_body opts t \<longleftrightarrow> (t_state t = TELNET_STATE_SB_DATA \<or> t_state t = TELNET_STATE_SB_DATA_IAC) \<and> sb_telopt t \<in> opts"

lemma process_one_total:
  assumes "t_state t = TELNET_STATE_IAC" "sb_ok t"
  shows "\<exists>t'. process_one alloc b t = Some t' \<and> sb_ok t'"
proof -
  have s: "sb_ok (set_state st t)" "sb_ok (set_state st (eh e t))" for st e
    using assms(2) by (auto intro: same_buffer_ok [rotated])
  show ?thesis
    using s assms(1) by (simp add: process_one_def run_one process_byte_def in_iac_def after_step_def pass_rest_def pass_on_def)
qed

lemma recv_one_total:
  assumes "sb_ok t" "\<not> in_body {TELNET_TELOPT_MSSP, TELNET_TELOPT_COMPRESS} t"
  shows "\<exists>t'. telnet_recv alloc [b] t = Some t' \<and> sb_ok t'"
proof -
  have s: "sb_ok (set_state st t)" "sb_ok (set_state st (eh e t))" "sb_ok (eh e t)" "sb_ok (set_state st (error x t))"
    "sb_ok (eh e' (set_state st (eh e t)))" "sb_ok (eh e' (set_state st t))"
    "sb_ok (set_state st (negotiate alloc o' t))" for st e e' x o'
    using assms(1) same_buffer_negotiate by (auto intro: same_buffer_ok [rotated])
  note defs = telnet_recv_one process_byte_def after_step_def pass_rest_def pass_on_def rdn_def
  show ?thesis
  proof (cases "t_state t")
    case TELNET_STATE_SB
    then show ?thesis by (simp add: defs in_sb_def sb_ok_def) (use assms(1) in \<open>auto simp: sb_ok_def set_state_def\<close>)
  next
    case TELNET_STATE_SB_DATA
    obtain ok t' where t': "buffer_byte alloc b t = Some (ok, t')" "sb_ok t'"
      using buffer_byte_total [OF assms(1)] by blast
    have "sb_ok (set_state TELNET_STATE_DATA t')" using t'(2) by (auto intro: same_buffer_ok [rotated])
    then show ?thesis
      using TELNET_STATE_SB_DATA s t' assms(2) buffer_byte_state [OF t'(1)]
      by (auto simp: defs in_sb_data_def in_body_def)
  next
    case TELNET_STATE_SB_DATA_IAC
    obtain ok t' where t': "buffer_byte alloc 255 t = Some (ok, t')" "sb_ok t'"
      using buffer_byte_total [OF assms(1)] by blast
    have sd: "sb_ok (set_state st t')" for st using t'(2) by (auto intro: same_buffer_ok [rotated])
    have n70: "sb_telopt (set_state st t) \<noteq> 70" "sb_telopt (set_state st (error x t)) \<noteq> 70" for st x
      using assms(2) TELNET_STATE_SB_DATA_IAC by (auto simp: in_body_def set_state_def error_def eh_def)
    obtain t1 r where t1: "subnegotiate alloc (set_state TELNET_STATE_DATA t) = Some (t1, r)" "sb_ok t1"
      using subnegotiate_total [OF s(1) n70(1)] same_buffer_ok s(1) by blast
    obtain t2 r2 where t2: "subnegotiate alloc (set_state TELNET_STATE_IAC (error ''_process'' t)) = Some (t2, r2)" "sb_ok t2"
      "t_state t2 = TELNET_STATE_IAC"
      using subnegotiate_total [OF s(4) n70(2), of alloc TELNET_STATE_IAC "''_process''"] same_buffer_ok [OF _ assms(1)] by auto
    obtain t3 where t3: "process_one alloc b t2 = Some t3" "sb_ok t3" using process_one_total [OF t2(3,2)] by blast
    show ?thesis
      using TELNET_STATE_SB_DATA_IAC t' sd t1 t2 t3 by (auto simp: defs in_sb_iac_def)
  qed (use s assms(1) in \<open>auto simp: defs in_data_def in_eol_def in_iac_def in_negotiation_def Let_def\<close>)
qed

lemma bytewise_total:
  assumes "sb_ok t"
  shows "(\<exists>t'. bytewise alloc bs t = Some t' \<and> sb_ok t') \<or>
    (\<exists>pre rest u. bs = pre @ rest \<and> bytewise alloc pre t = Some u \<and> in_body {TELNET_TELOPT_MSSP, TELNET_TELOPT_COMPRESS} u)"
  using assms
proof (induction bs arbitrary: t)
  case Nil
  then show ?case by simp
next
  case (Cons b bs)
  show ?case
  proof (cases "in_body {TELNET_TELOPT_MSSP, TELNET_TELOPT_COMPRESS} t")
    case True
    then show ?thesis by (intro disjI2 exI [of _ "[]"] exI [of _ "b # bs"] exI [of _ t]) simp
  next
    case False
    obtain t1 where t1: "telnet_recv alloc [b] t = Some t1" "sb_ok t1" using recv_one_total [OF Cons(2) False] by blast
    from Cons(1) [OF t1(2)] show ?thesis
    proof (elim disjE exE conjE)
      fix pre rest u assume h: "bs = pre @ rest" "bytewise alloc pre t1 = Some u"
        "in_body {TELNET_TELOPT_MSSP, TELNET_TELOPT_COMPRESS} u"
      show ?thesis
        by (intro disjI2 exI [of _ "b # pre"] exI [of _ rest] exI [of _ u]) (simp add: h t1)
    qed (simp add: t1)
  qed
qed

text \<open>C13. Whatever bytes arrive, in whatever chunks, and whichever allocations fail, \<open>telnet_recv\<close>
  returns without an access outside its input or its subnegotiation buffer, and the buffer keeps one
  of the five sizes with the fill position inside; unless some prefix of the stream leads into the
  body of an MSSP or COMPRESS subnegotiation.\<close>

theorem telnet_recv_safe:
  assumes "alloc_ok alloc" and "sb_ok t"
  shows "(\<exists>t'. recv_chunks alloc chunks t = Some t' \<and> sb_ok t') \<or>
    (\<exists>pre rest u. concat chunks = pre @ rest \<and> recv_chunks alloc (map (\<lambda>b. [b]) pre) t = Some u \<and>
      in_body {TELNET_TELOPT_MSSP, TELNET_TELOPT_COMPRESS} u)"
  using bytewise_total [OF assms(2), of alloc "concat chunks"]
proof (elim disjE exE conjE)
  fix t' assume h: "bytewise alloc (concat chunks) t = Some t'" "sb_ok t'"
  obtain t1 where "recv_chunks alloc chunks t = Some t1" "sim t1 t'"
    using recv_chunks_bytewise [OF assms(1) sim_refl h(1)] by blast
  then show ?thesis using h(2) by (auto simp: sim_def sb_ok_def)
qed (auto simp: bytewise_def)

text \<open>With memory for buffers up to 2048 bytes only.\<close>

lemma telnet_recv_safe_witness:
  "(\<exists>t'. recv_chunks (\<lambda>_ n. n \<le> 2048) [[255, 250, 39], [0, 2, 2, 255, 240]] (telnet_init None 0) = Some t' \<and> sb_ok t') \<or>
    (\<exists>pre rest u. concat [[255, 250, 39], [0, 2, 2, 255, 240]] = pre @ rest \<and>
      recv_chunks (\<lambda>_ n. n \<le> 2048) (map (\<lambda>b. [b]) pre) (telnet_init None 0) = Some u \<and>
      in_body {TELNET_TELOPT_MSSP, TELNET_TELOPT_COMPRESS} u)"
  by (rule telnet_recv_safe [OF alloc_ok_const]) (simp add: sb_ok_def telnet_init_def buffer_sizes_def)

lemma mssp_copy_all:
  assumes "\<forall>x \<in> set (drop c b). x \<noteq> 1 \<and> x \<noteq> 2" "out \<le> c" "c \<le> length b"
  shows "\<exists>b' out'. mssp_copy (length b) b c out = Some (b', length b, out') \<and> length b' = length b"
  using assms
proof (induction "length b" b c out rule: mssp_copy.induct)
  case (1 b c out)
  show ?case
  proof (cases "c < length b")
    case True
    have x: "b ! c \<noteq> 1" "b ! c \<noteq> 2" using 1(2) True by (metis Cons_nth_drop_Suc list.set_intros(1))+
    have d: "drop (c + 1) (b[out := b ! c]) = drop (c + 1) b" using 1(3) by (simp add: drop_update_cancel)
    have s: "set (drop (c + 1) b) \<subseteq> set (drop c b)" by (rule set_drop_subset_set_drop) simp
    have "\<exists>b' out'. mssp_copy (length (b[out := b ! c])) (b[out := b ! c]) (c + 1) (out + 1) =
        Some (b', length (b[out := b ! c]), out') \<and> length b' = length (b[out := b ! c])"
      by (rule 1(1) [of "b ! c"]) (use True x 1(2-) d s in \<open>auto simp: rd_def wr_def\<close>)
    then show ?thesis
      using True x 1(3) by (subst mssp_copy.simps) (simp add: rd_def wr_def)
  next
    case False
    then show ?thesis using 1(4) by (subst mssp_copy.simps) simp
  qed
qed

lemma mssp_over_read:
  assumes "sb_buffer t = 1 # name" "\<forall>x \<in> set name. x \<noteq> 1 \<and> x \<noteq> 2" "name \<noteq> []" "alloc (events t) 0"
  shows "mssp_telnet alloc t (length (sb_buffer t)) = None"
proof -
  let ?b = "1 # name"
  obtain b' out' where c: "mssp_copy (length ?b) ?b 1 0 = Some (b', length ?b, out')" "length b' = length ?b"
    using mssp_copy_all [of 1 ?b 0] assms(2) by auto
  have "mssp_loop (length ?b) ?b 1 0 0 1 None [] 0 = None"
    using c assms(3) by (subst mssp_loop.simps) (auto simp: wr_def rd_def split: option.split)
  moreover have "filter (\<lambda>x. x = 2) name = []" using assms(2) by (simp add: filter_empty_conv)
  ultimately show ?thesis
    using assms(1,4) by (simp add: mssp_telnet_def rdn_def Let_def)
qed

lemma full_name:
  assumes "length name = 16383" "\<forall>x \<in> set name. x \<noteq> 1 \<and> x \<noteq> 2"
  shows "\<exists>u. bytewise (\<lambda>_ _. True) ([255, 250, 70] @ concat (map raw_code (1 # name)) @ [255]) (telnet_init None 0) = Some u \<and>
     telnet_recv (\<lambda>_ _. True) [240] u = None"
proof -
  let ?r = "telnet_init None 0" and ?bs = "1 # name"
  have r: "t_state ?r = TELNET_STATE_DATA" "sb_ok ?r" "length ?bs \<le> 16384" "(70::u8) \<noteq> 85"
    using assms(1) by (simp_all add: telnet_init_def sb_ok_def buffer_sizes_def)
  obtain b where b: "bytewise (\<lambda>_ _. True) ([255, 250, 70] @ concat (map raw_code ?bs) @ [255]) ?r =
      Some (?r\<lparr>t_state := TELNET_STATE_SB_DATA_IAC, sb_telopt := 70, sb_buffer := b, buffer_pos := length ?bs\<rparr>)"
    "sb_ok (?r\<lparr>sb_buffer := b, buffer_pos := length ?bs\<rparr>)" "take (length ?bs) b = ?bs"
    using recv_subnegotiation [OF r] by blast
  have "length b = length ?bs" using b(2) assms(1) sizes_last(2) [of "length b"] by (simp add: sb_ok_def)
  then have bb: "b = ?bs" using b(3) by simp
  let ?u = "?r\<lparr>t_state := TELNET_STATE_SB_DATA_IAC, sb_telopt := 70, sb_buffer := b, buffer_pos := length ?bs\<rparr>"
  let ?v = "eh (EvSubnegotiation 70 ?bs) (set_state TELNET_STATE_DATA ?u)"
  have "name \<noteq> []" using assms(1) by auto
  then have "mssp_telnet (\<lambda>_ _. True) ?v (length (sb_buffer ?v)) = None"
    using assms(2) bb by (intro mssp_over_read [of _ name]) (simp_all add: eh_def set_state_def)
  then have "subnegotiate (\<lambda>_ _. True) (set_state TELNET_STATE_DATA ?u) = None"
    using bb by (simp add: subnegotiate_def rdn_def eh_def set_state_def)
  then have "telnet_recv (\<lambda>_ _. True) [240] ?u = None"
    by (simp add: telnet_recv_one process_byte_def in_sb_iac_def after_step_def)
  then show ?thesis using b(1) by blast
qed

text \<open>C15. The two exceptions are real.  Where the compression marker \<open>IAC SB COMPRESS WILL\<close> ends the
  received chunk, the text behind it is given a length of minus one; and an MSSP variable name that
  fills the buffer makes its parser read the byte behind the buffer.  A received byte is also lost when
  an ENVIRON list is ended by another command than SE: the WILL of \<open>IAC WILL 1\<close> here.\<close>

theorem telnet_recv_unsafe:
  "telnet_recv (\<lambda>_ _. True) [255, 250, 85, 251] (telnet_init None 0) = None \<and>
   (\<exists>name u. length name = 16383 \<and>
     bytewise (\<lambda>_ _. True) ([255, 250, 70] @ concat (map raw_code (1 # name)) @ [255]) (telnet_init None 0) = Some u \<and>
     telnet_recv (\<lambda>_ _. True) [240] u = None) \<and>
   telnet_recv (\<lambda>_ _. True) [255, 250, 39, 0, 255, 251, 1] (telnet_init None 0) =
     Some ((telnet_init None 0)\<lparr>sb_telopt := 39, buffer_pos := 1, sb_buffer := replicate 512 0, t_state := TELNET_STATE_DATA,
       events := [EvWarning ''_process'', EvSubnegotiation 39 [0], EvEnviron 0 [], EvIac 1]\<rparr>)"
proof (intro conjI)
  obtain name :: bytes where name: "length name = 16383" "\<forall>x \<in> set name. x \<noteq> 1 \<and> x \<noteq> 2"
  proof
    show "length (replicate 16383 (65::u8)) = 16383" by (rule length_replicate)
    show "\<forall>x \<in> set (replicate 16383 (65::u8)). x \<noteq> 1 \<and> x \<noteq> 2" by (auto dest: in_set_replicate [THEN iffD1])
  qed
  show "\<exists>name u. length name = 16383 \<and>
     bytewise (\<lambda>_ _. True) ([255, 250, 70] @ concat (map raw_code (1 # name)) @ [255]) (telnet_init None 0) = Some u \<and>
     telnet_recv (\<lambda>_ _. True) [240] u = None"
    using full_name [OF name] name(1) by blast
qed (code_simp)+

end
