(* ===== verification/TelnetNegotiation.thy ===== *)
theory TelnetNegotiation
  imports TelnetSafety
begin

section \<open>Telnet: negotiation follows the Q method\<close>

text \<open>
  The option negotiation against the state machine of RFC 1143, stated once for a side of the
  connection: \<open>rfc_recv\<close> for a received command, \<open>rfc_ask\<close> for a request of the application.  The
  abstract state gives the two sides of every option; the tracker's table of entries implements it.
\<close>

datatype side = SNo | SYes | SWantNo | SWantYes | SWantNoOp | SWantYesOp

primrec code :: "side \<Rightarrow> u8" where
  "code SNo = Q_NO"
| "code SYes = Q_YES"
| "code SWantNo = Q_WANTNO"
| "code SWantYes = Q_WANTYES"
| "code SWantNoOp = Q_WANTNO_OP"
| "code SWantYesOp = Q_WANTYES_OP"

text \<open>The new state and, if one is sent, whether the answer accepts.\<close>

fun rfc_recv :: "bool \<Rightarrow> bool \<Rightarrow> side \<Rightarrow> side \<times> bool option" where
  "rfc_recv True agree SNo = (if agree then (SYes, Some True) else (SNo, Some False))"
| "rfc_recv True agree SYes = (SYes, None)"
| "rfc_recv True agree SWantNo = (SNo, None)"
| "rfc_recv True agree SWantNoOp = (SYes, None)"
| "rfc_recv True agree SWantYes = (SYes, None)"
| "rfc_recv True agree SWantYesOp = (SWantNo, Some False)"
| "rfc_recv False agree SNo = (SNo, None)"
| "rfc_recv False agree SYes = (SNo, Some False)"
| "rfc_recv False agree SWantNo = (SNo, None)"
| "rfc_recv False agree SWantNoOp = (SWantYes, Some True)"
| "rfc_recv False agree SWantYes = (SNo, None)"
| "rfc_recv False agree SWantYesOp = (SNo, None)"

fun rfc_ask :: "bool \<Rightarrow> side \<Rightarrow> side \<times> bool option" where
  "rfc_ask True SNo = (SWantYes, Some True)"
| "rfc_ask True SWantNo = (SWantNoOp, None)"
| "rfc_ask True SWantYesOp = (SWantYes, None)"
| "rfc_ask False SYes = (SWantNo, Some False)"
| "rfc_ask False SWantNoOp = (SWantNo, None)"
| "rfc_ask False SWantYes = (SWantYesOp, None)"
| "rfc_ask e s = (s, None)"

definition our_command :: "bool \<Rightarrow> u8" where
  "our_command b = (if b then TELNET_WILL else TELNET_WONT)"

definition his_command :: "bool \<Rightarrow> u8" where
  "his_command b = (if b then TELNET_DO else TELNET_DONT)"

definition rfc_step :: "telnet_state \<Rightarrow> bool \<Rightarrow> side \<times> side \<Rightarrow> (side \<times> side) \<times> u8 option" where
  "rfc_step st agree s =
     (case s of (us, him) \<Rightarrow>
        case st of
          TELNET_STATE_WILL \<Rightarrow> (case rfc_recv True agree him of (h, a) \<Rightarrow> ((us, h), map_option his_command a))
        | TELNET_STATE_WONT \<Rightarrow> (case rfc_recv False agree him of (h, a) \<Rightarrow> ((us, h), map_option his_command a))
        | TELNET_STATE_DO \<Rightarrow> (case rfc_recv True agree us of (u, a) \<Rightarrow> ((u, him), map_option our_command a))
        | TELNET_STATE_DONT \<Rightarrow> (case rfc_recv False agree us of (u, a) \<Rightarrow> ((u, him), map_option our_command a))
        | _ \<Rightarrow> (s, None))"

definition rfc_request :: "u8 \<Rightarrow> side \<times> side \<Rightarrow> (side \<times> side) \<times> u8 option" where
  "rfc_request cmd s =
     (case s of (us, him) \<Rightarrow>
        if cmd = TELNET_WILL then (case rfc_ask True us of (u, a) \<Rightarrow> ((u, him), map_option our_command a))
        else if cmd = TELNET_WONT then (case rfc_ask False us of (u, a) \<Rightarrow> ((u, him), map_option our_command a))
        else if cmd = TELNET_DO then (case rfc_ask True him of (h, a) \<Rightarrow> ((us, h), map_option his_command a))
        else if cmd = TELNET_DONT then (case rfc_ask False him of (h, a) \<Rightarrow> ((us, h), map_option his_command a))
        else (s, None))"

definition command_bytes :: "u8 option \<Rightarrow> u8 \<Rightarrow> bytes" where
  "command_bytes c telopt = (case c of None \<Rightarrow> [] | Some x \<Rightarrow> [TELNET_IAC, x, telopt])"

subsection \<open>The table of entries\<close>

definition pack :: "side \<times> side \<Rightarrow> u8" where
  "pack s = Q_MAKE (code (fst s)) (code (snd s))"

lemma Q_pack: "Q_US (pack (us, him)) = code us" "Q_HIM (pack (us, him)) = code him"
  unfolding pack_def Q_US_def Q_HIM_def Q_MAKE_def by (cases us; cases him; simp)+

lemma pack_no: "pack (SNo, SNo) = 0"
  by (simp add: pack_def Q_MAKE_def)

lemma code_eq [simp]:
  "code s = Q_NO \<longleftrightarrow> s = SNo" "code s = Q_YES \<longleftrightarrow> s = SYes" "code s = Q_WANTNO \<longleftrightarrow> s = SWantNo"
  "code s = Q_WANTYES \<longleftrightarrow> s = SWantYes" "code s = Q_WANTNO_OP \<longleftrightarrow> s = SWantNoOp" "code s = Q_WANTYES_OP \<longleftrightarrow> s = SWantYesOp"
  by (cases s; simp)+

definition tracks :: "telnet_t \<Rightarrow> (u8 \<Rightarrow> side \<times> side) \<Rightarrow> bool" where
  "tracks t f \<longleftrightarrow> (\<forall>x. get_rfc1143 t x = pack (f x))"

text \<open>Room for one more entry group: the entry count is a byte.\<close>

definition room :: "telnet_t \<Rightarrow> bool" where
  "room t \<longleftrightarrow> unat (q_size t) \<le> length (q t) \<and> unat (q_size t) + 4 < 256"

lemma tracks_init: "tracks (telnet_init tbl flags) (\<lambda>_. (SNo, SNo))" "room (telnet_init tbl flags)"
  by (simp_all add: tracks_def get_rfc1143_def entries_def telnet_init_def pack_no room_def)

definition state_in :: "telnet_rfc1143 list \<Rightarrow> u8 \<Rightarrow> u8" where
  "state_in es x = (case find_entry es x of Some i \<Rightarrow> rfc_state (es ! i) | None \<Rightarrow> 0)"

lemma find_entry_Some: "find_entry es x = Some i \<Longrightarrow> i < length es \<and> rfc_telopt (es ! i) = x"
  by (induction es arbitrary: i) (auto split: if_splits)

lemma state_in_Cons: "state_in (e # es) x = (if rfc_telopt e = x then rfc_state e else state_in es x)"
  by (simp add: state_in_def split: option.split)

lemma state_in_append:
  "state_in (es @ es') x = (if find_entry es x = None then state_in es' x else state_in es x)"
  by (induction es) (auto simp: state_in_Cons)

lemma state_in_update:
  "find_entry es x = Some i \<Longrightarrow> state_in (es[i := (es ! i)\<lparr>rfc_state := s\<rparr>]) y = (if y = x then s else state_in es y)"
proof (induction es arbitrary: i)
  case (Cons e es)
  then show ?case by (auto simp: state_in_Cons split: if_splits)
qed simp

lemma get_state_in: "get_rfc1143 t x = state_in (entries t) x"
  by (simp add: get_rfc1143_def state_in_def)

lemma state_in_new:
  assumes "find_entry es x = None"
  shows "state_in (es @ [\<lparr>rfc_telopt = x, rfc_state = s\<rparr>, \<lparr>rfc_telopt = 0, rfc_state = 0\<rparr>,
      \<lparr>rfc_telopt = 0, rfc_state = 0\<rparr>, \<lparr>rfc_telopt = 0, rfc_state = 0\<rparr>]) y = (if y = x then s else state_in es y)"
  using assms by (auto simp: state_in_append state_in_Cons) (auto simp: state_in_def)

lemma get_set:
  assumes "room t"
  shows "get_rfc1143 (set_rfc1143 (\<lambda>_ _. True) x us him t) y = (if y = x then Q_MAKE us him else get_rfc1143 t y)"
proof -
  have le: "unat (q_size t) \<le> length (q t)" "unat (q_size t) + 4 < 256" using assms by (auto simp: room_def)
  show ?thesis
  proof (cases "find_entry (entries t) x")
    case None
    have "unat (q_size t + 4) = unat (q_size t) + 4" using le(2) by (simp add: unat_word_ariths)
    then have "entries (set_rfc1143 (\<lambda>_ _. True) x us him t) = entries t @ [\<lparr>rfc_telopt = x, rfc_state = Q_MAKE us him\<rparr>,
        \<lparr>rfc_telopt = 0, rfc_state = 0\<rparr>, \<lparr>rfc_telopt = 0, rfc_state = 0\<rparr>, \<lparr>rfc_telopt = 0, rfc_state = 0\<rparr>]"
      using None le(1) by (simp add: set_rfc1143_def) (simp add: entries_def)
    then show ?thesis unfolding get_state_in using state_in_new [OF None] by simp
  next
    case (Some i)
    have i: "i < length (entries t)" "i < unat (q_size t)" using find_entry_Some [OF Some] by (auto simp: entries_def)
    have n: "entries t ! i = q t ! i" using i by (simp add: entries_def)
    have "entries (set_rfc1143 (\<lambda>_ _. True) x us him t) = (entries t)[i := (entries t ! i)\<lparr>rfc_state := Q_MAKE us him\<rparr>]"
      unfolding n using Some by (simp add: set_rfc1143_def Let_def) (simp add: entries_def take_update_swap)
    then show ?thesis unfolding get_state_in using state_in_update [OF Some] by simp
  qed
qed

lemma tracks_set:
  assumes "room t" "tracks t f" "us = code a" "him = code b"
  shows "tracks (set_rfc1143 (\<lambda>_ _. True) x us him t) (f(x := (a, b)))"
  using assms get_set [OF assms(1)] by (auto simp: tracks_def pack_def)

lemma get_same [simp]: "get_rfc1143 (eh e t) = get_rfc1143 t" "get_rfc1143 (send_negotiate c x t) = get_rfc1143 t"
  "get_rfc1143 (error s t) = get_rfc1143 t"
  by (simp_all add: get_state_in entries_def eh_def send_negotiate_def send_bytes_def error_def fun_eq_iff)

lemma tracks_same [simp]: "tracks (eh e t) f = tracks t f" "tracks (send_negotiate c x t) f = tracks t f"
  "tracks (error s t) f = tracks t f"
  by (simp_all add: tracks_def)

lemma events_set: "events (set_rfc1143 (\<lambda>_ _. True) x us him t) = events t"
  by (simp add: set_rfc1143_def Let_def split: option.split)

lemma wire_silent: "wire (EvWill x # l) = wire l" "wire (EvWont x # l) = wire l" "wire (EvDo x # l) = wire l"
  "wire (EvDont x # l) = wire l" "wire (EvWarning s # l) = wire l"
  by (simp_all add: wire_def)

lemmas sent_defs = wire_silent sent_def eh_def error_def send_negotiate_def send_bytes_def events_set

subsection \<open>Received commands\<close>

abbreviation set_all :: "u8 \<Rightarrow> u8 \<Rightarrow> u8 \<Rightarrow> telnet_t \<Rightarrow> telnet_t" where
  "set_all \<equiv> set_rfc1143 (\<lambda>_ _. True)"

lemma tracks_sets:
  assumes "room t" "tracks t f"
  shows "tracks (set_all x (code us) Q_NO t) (f(x := (us, SNo)))"
    "tracks (set_all x (code us) Q_YES t) (f(x := (us, SYes)))"
    "tracks (set_all x (code us) Q_WANTNO t) (f(x := (us, SWantNo)))"
    "tracks (set_all x (code us) Q_WANTYES t) (f(x := (us, SWantYes)))"
    "tracks (set_all x (code us) Q_WANTNO_OP t) (f(x := (us, SWantNoOp)))"
    "tracks (set_all x (code us) Q_WANTYES_OP t) (f(x := (us, SWantYesOp)))"
    "tracks (set_all x Q_NO (code him) t) (f(x := (SNo, him)))"
    "tracks (set_all x Q_YES (code him) t) (f(x := (SYes, him)))"
    "tracks (set_all x Q_WANTNO (code him) t) (f(x := (SWantNo, him)))"
    "tracks (set_all x Q_WANTYES (code him) t) (f(x := (SWantYes, him)))"
    "tracks (set_all x Q_WANTNO_OP (code him) t) (f(x := (SWantNoOp, him)))"
    "tracks (set_all x Q_WANTYES_OP (code him) t) (f(x := (SWantYesOp, him)))"
  by (rule tracks_set [OF assms]; simp)+

lemma tracks_keep: "tracks t f \<Longrightarrow> f x = (us, him) \<Longrightarrow> tracks t (f(x := (us, him)))"
  by (simp add: fun_upd_idem)

lemma got_will_refines:
  assumes "room t" "tracks t f" "f x = (us, him)" "(h, a) = rfc_recv True (check_telopt t x False) him"
  shows "tracks (got_will (\<lambda>_ _. True) x (code us) (code him) t) (f(x := (us, h)))" (is ?thesis1)
    and "sent t (got_will (\<lambda>_ _. True) x (code us) (code him) t) = command_bytes (map_option his_command a) x" (is ?thesis2)
proof -
  note k = tracks_keep [OF assms(2,3)]
  show ?thesis1 using assms(4) k by (cases him) (simp_all add: got_will_def tracks_sets [OF assms(1,2)] split: if_splits)
  show ?thesis2 using assms(4) by (cases him) (simp_all add: got_will_def sent_defs command_bytes_def his_command_def split: if_splits)
qed

lemma got_wont_refines:
  assumes "room t" "tracks t f" "f x = (us, him)" "(h, a) = rfc_recv False agree him"
  shows "tracks (got_wont (\<lambda>_ _. True) x (code us) (code him) t) (f(x := (us, h)))" (is ?thesis1)
    and "sent t (got_wont (\<lambda>_ _. True) x (code us) (code him) t) =
       (if him = SWantNoOp then [] else command_bytes (map_option his_command a) x)" (is ?thesis2)
proof -
  note k = tracks_keep [OF assms(2,3)]
  show ?thesis1 using assms(4) k by (cases him) (simp_all add: got_wont_def tracks_sets [OF assms(1,2)] split: if_splits)
  show ?thesis2 using assms(4) by (cases him) (simp_all add: got_wont_def sent_defs command_bytes_def his_command_def split: if_splits)
qed

lemma got_do_refines:
  assumes "room t" "tracks t f" "f x = (us, him)" "(u, a) = rfc_recv True (check_telopt t x True) us"
  shows "tracks (got_do (\<lambda>_ _. True) x (code us) (code him) t) (f(x := (u, him)))" (is ?thesis1)
    and "sent t (got_do (\<lambda>_ _. True) x (code us) (code him) t) = command_bytes (map_option our_command a) x" (is ?thesis2)
proof -
  note k = tracks_keep [OF assms(2,3)]
  show ?thesis1 using assms(4) k by (cases us) (simp_all add: got_do_def tracks_sets [OF assms(1,2)] split: if_splits)
  show ?thesis2 using assms(4) by (cases us) (simp_all add: got_do_def sent_defs command_bytes_def our_command_def split: if_splits)
qed

lemma got_dont_refines:
  assumes "room t" "tracks t f" "f x = (us, him)" "(u, a) = rfc_recv False agree us"
  shows "tracks (got_dont (\<lambda>_ _. True) x (code us) (code him) t) (f(x := (u, him)))" (is ?thesis1)
    and "sent t (got_dont (\<lambda>_ _. True) x (code us) (code him) t) = command_bytes (map_option our_command a) x" (is ?thesis2)
proof -
  note k = tracks_keep [OF assms(2,3)]
  show ?thesis1 using assms(4) k by (cases us) (simp_all add: got_dont_def tracks_sets [OF assms(1,2)] split: if_splits)
  show ?thesis2 using assms(4) by (cases us) (simp_all add: got_dont_def sent_defs command_bytes_def our_command_def split: if_splits)
qed

text \<open>C14. Received WILL, WONT, DO and DONT drive every option through the state machine of RFC 1143, in
  the tracker's table as in the answers on the wire, and leave the other options alone; with one
  exception: a WONT that answers our DONT while the opposite request is queued moves to WANTYES but does
  not send the DO that RFC 1143 asks for, so that the request is never made.\<close>

theorem negotiation_follows_rfc1143:
  assumes "room t" and "tracks t f" and "\<not> has_flag TELNET_FLAG_PROXY t"
    and "t_state t \<in> {TELNET_STATE_WILL, TELNET_STATE_WONT, TELNET_STATE_DO, TELNET_STATE_DONT}"
    and "rfc_step (t_state t) (check_telopt t x (t_state t = TELNET_STATE_DO)) (f x) = (s', cmd)"
  shows "tracks (negotiate (\<lambda>_ _. True) x t) (f(x := s')) \<and>
    sent t (negotiate (\<lambda>_ _. True) x t) =
      (if t_state t = TELNET_STATE_WONT \<and> snd (f x) = SWantNoOp then [] else command_bytes cmd x)"
proof -
  obtain us him where f: "f x = (us, him)" by (rule prod.exhaust)
  have g: "Q_US (get_rfc1143 t x) = code us" "Q_HIM (get_rfc1143 t x) = code him"
    using assms(2) f Q_pack by (simp_all add: tracks_def)
  have step: "rfc_step (t_state t) (check_telopt t x (t_state t = TELNET_STATE_DO)) (us, him) = (s', cmd)"
    using assms(5) f by simp
  show ?thesis
    using assms(4)
  proof (elim insertE emptyE)
    assume st: "t_state t = TELNET_STATE_WILL"
    obtain h a where r: "(h, a) = rfc_recv True (check_telopt t x False) him" by (metis prod.exhaust)
    show ?thesis
      using got_will_refines [OF assms(1,2) f r] step g assms(3) st r [symmetric] f
      by (simp add: negotiate_def Let_def rfc_step_def)
  next
    assume st: "t_state t = TELNET_STATE_WONT"
    obtain h a where r: "(h, a) = rfc_recv False (check_telopt t x False) him" by (metis prod.exhaust)
    show ?thesis
      using got_wont_refines [OF assms(1,2) f r] step g assms(3) st r [symmetric] f
      by (simp add: negotiate_def Let_def rfc_step_def)
  next
    assume st: "t_state t = TELNET_STATE_DO"
    obtain h a where r: "(h, a) = rfc_recv True (check_telopt t x True) us" by (metis prod.exhaust)
    show ?thesis
      using got_do_refines [OF assms(1,2) f r] step g assms(3) st r [symmetric] f
      by (simp add: negotiate_def Let_def rfc_step_def)
  next
    assume st: "t_state t = TELNET_STATE_DONT"
    obtain h a where r: "(h, a) = rfc_recv False (check_telopt t x False) us" by (metis prod.exhaust)
    show ?thesis
      using got_dont_refines [OF assms(1,2) f r] step g assms(3) st r [symmetric] f
      by (simp add: negotiate_def Let_def rfc_step_def)
  qed
qed

text \<open>DO ECHO from the remote end, with ECHO in the table of the options we support.\<close>

lemma negotiation_follows_rfc1143_witness:
  "tracks (negotiate (\<lambda>_ _. True) 1 (set_state TELNET_STATE_DO
      (telnet_init (Some [\<lparr>to_telopt = 1, to_us = 251, to_him = 254\<rparr>]) 0))) ((\<lambda>_. (SNo, SNo))(1 := (SYes, SNo))) \<and>
   sent (set_state TELNET_STATE_DO (telnet_init (Some [\<lparr>to_telopt = 1, to_us = 251, to_him = 254\<rparr>]) 0))
      (negotiate (\<lambda>_ _. True) 1 (set_state TELNET_STATE_DO
        (telnet_init (Some [\<lparr>to_telopt = 1, to_us = 251, to_him = 254\<rparr>]) 0))) = [255, 251, 1]"
proof -
  let ?t = "set_state TELNET_STATE_DO (telnet_init (Some [\<lparr>to_telopt = 1, to_us = 251, to_him = 254\<rparr>]) 0)"
  have "room ?t" "tracks ?t (\<lambda>_. (SNo, SNo))" "\<not> has_flag TELNET_FLAG_PROXY ?t"
    "t_state ?t \<in> {TELNET_STATE_WILL, TELNET_STATE_WONT, TELNET_STATE_DO, TELNET_STATE_DONT}"
    "rfc_step (t_state ?t) (check_telopt ?t 1 (t_state ?t = TELNET_STATE_DO)) (SNo, SNo) = ((SYes, SNo), Some 251)"
    by (simp_all add: room_def tracks_def get_rfc1143_def entries_def pack_no set_state_def telnet_init_def has_flag_def
        rfc_step_def check_telopt_def our_command_def)
  from negotiation_follows_rfc1143 [OF this] show ?thesis
    by (simp add: command_bytes_def)
qed

subsection \<open>Requests\<close>

text \<open>Requests of the application follow RFC 1143 as well: a request in a settled state sends its
  command, one during a pending change is queued or cancels the queued one, and a repeated one does
  nothing.\<close>

theorem requests_follow_rfc1143:
  assumes "room t" and "tracks t f" and "\<not> has_flag TELNET_FLAG_PROXY t" and "rfc_request cmd (f x) = (s', c)"
  shows "tracks (telnet_negotiate (\<lambda>_ _. True) cmd x t) (f(x := s')) \<and>
    sent t (telnet_negotiate (\<lambda>_ _. True) cmd x t) = command_bytes c x"
proof -
  obtain us him where f: "f x = (us, him)" by (rule prod.exhaust)
  have g: "Q_US (get_rfc1143 t x) = code us" "Q_HIM (get_rfc1143 t x) = code him"
    using assms(2) f Q_pack by (simp_all add: tracks_def)
  note k = tracks_keep [OF assms(2) f]
  consider (ours) "cmd = 251 \<or> cmd = 252" | (his) "cmd = 253 \<or> cmd = 254"
    | (other) "cmd \<noteq> 251" "cmd \<noteq> 252" "cmd \<noteq> 253" "cmd \<noteq> 254" by blast
  then show ?thesis
  proof cases
    case ours
    then show ?thesis
      using assms(3,4) k unfolding f telnet_negotiate_def g Let_def rfc_request_def
      by (elim disjE; cases us)
        (simp_all, auto simp: tracks_sets [OF assms(1,2)] sent_defs command_bytes_def our_command_def)
  next
    case his
    then show ?thesis
      using assms(3,4) k unfolding f telnet_negotiate_def g Let_def rfc_request_def
      by (elim disjE; cases him)
        (simp_all, auto simp: tracks_sets [OF assms(1,2)] sent_defs command_bytes_def his_command_def)
  next
    case other
    then show ?thesis
      using assms(3,4) k unfolding f telnet_negotiate_def g Let_def rfc_request_def
      by (simp add: sent_defs command_bytes_def)
  qed
qed

lemma requests_follow_rfc1143_witness:
  "tracks (telnet_negotiate (\<lambda>_ _. True) 253 31 (telnet_init None 0)) ((\<lambda>_. (SNo, SNo))(31 := (SNo, SWantYes))) \<and>
   sent (telnet_init None 0) (telnet_negotiate (\<lambda>_ _. True) 253 31 (telnet_init None 0)) = [255, 253, 31]"
proof -
  have "rfc_request 253 (SNo, SNo) = ((SNo, SWantYes), Some 253)" by (simp add: rfc_request_def his_command_def)
  moreover have "\<not> has_flag TELNET_FLAG_PROXY (telnet_init None 0)" by (simp add: has_flag_def telnet_init_def)
  ultimately show ?thesis
    using requests_follow_rfc1143 [OF tracks_init(2,1), where x=31]
    by (simp add: command_bytes_def)
qed

end
