(* ===== verification/IsoTp.thy ===== *)
theory IsoTp
  imports Prelude
begin

unbundle bit_operations_syntax

section \<open>ISO-TP poller: requests and responses of diagnostic polls\<close>

text \<open>
  The ISO-TP half of \<open>OvmsPoller\<close> (\<open>components/poller/src/vehicle_poller_isotp.cpp\<close>, the fields
  and waiting times from \<open>vehicle_poller.h\<close>), with the entry point \<open>Incoming\<close> of
  \<open>vehicle_poller.cpp\<close> for polls that are not VWTP.  The record \<open>poller\<close> holds the fields of
  \<open>m_poll\<close> and the transmit state; the list \<open>outs\<close> stands for the calls the code makes: frames
  written, packets and errors forwarded to the poll series, sleeps, the queued start of the next poll.

  Arguments stand for what other parts answer: whether a poll list exists (\<open>polls\<close>), whether the
  poll limiter lets another poll go (\<open>can_poll\<close>), and the uptime in milliseconds when a call begins
  (\<open>now\<close>) and at its end (\<open>now'\<close>).  A frame has eight data bytes; the frame number of a log line,
  mutexes and log output are left out.  \<open>None\<close> is an access outside a buffer.
\<close>

abbreviation (input) ISOTP_STD :: u32 where "ISOTP_STD \<equiv> 0"
abbreviation (input) ISOTP_EXTADR :: u32 where "ISOTP_EXTADR \<equiv> 1"
abbreviation (input) ISOTP_EXTFRAME :: u32 where "ISOTP_EXTFRAME \<equiv> 2"
abbreviation (input) ISOTP_FT_SINGLE :: u8 where "ISOTP_FT_SINGLE \<equiv> 0"
abbreviation (input) ISOTP_FT_FIRST :: u8 where "ISOTP_FT_FIRST \<equiv> 1"
abbreviation (input) ISOTP_FT_CONSECUTIVE :: u8 where "ISOTP_FT_CONSECUTIVE \<equiv> 2"
abbreviation (input) ISOTP_FT_FLOWCTRL :: u8 where "ISOTP_FT_FLOWCTRL \<equiv> 3"
abbreviation (input) UDS_RESP_TYPE_NRC :: u8 where "UDS_RESP_TYPE_NRC \<equiv> 0x7F"
abbreviation (input) UDS_RESP_NRC_RCRRP :: u8 where "UDS_RESP_NRC_RCRRP \<equiv> 0x78"

text \<open>The service types with a two-byte PID and without one; all others have a one-byte PID.\<close>

definition has_16bit_pid :: "int \<Rightarrow> bool" where
  "has_16bit_pid typ \<longleftrightarrow> typ \<in> {0x22, 0x24, 0x2E, 0x2F, 0x05, 0x2A}"

definition has_no_pid :: "int \<Rightarrow> bool" where
  "has_no_pid typ \<longleftrightarrow> typ \<in> {0x14, 0x23, 0x03, 0x04, 0x07, 0x0A, 0x18}"

definition has_8bit_pid :: "int \<Rightarrow> bool" where
  "has_8bit_pid typ \<longleftrightarrow> \<not> has_no_pid typ \<and> \<not> has_16bit_pid typ"

record poll_frame =
  pf_origin :: nat
  pf_ext :: bool
  pf_id :: u32
  pf_data :: bytes

record packet =
  pk_module :: u32
  pk_frame :: u16
  pk_offset :: u16
  pk_remain :: u16
  pk_raw :: "nat \<times> u8"
  pk_data :: bytes

datatype out = Write poll_frame | Packet packet | PollError u32 int | TxReply bool | Sleep nat | QueueSend

text \<open>The payload of a request: up to six bytes in the entry, or a pointer to up to 4095.\<close>

datatype poll_args = Args u8 bytes | XArgs u16 bytes

record poller =
  m_bus :: nat
  p_protocol :: u32
  p_type :: u16
  p_pid :: u16
  moduleid_sent :: u32
  moduleid_low :: u32
  moduleid_high :: u32
  moduleid_rec :: u32
  mlframe :: u16
  mloffset :: u16
  mlremain :: u16
  raw_data :: "nat \<times> u8"
  e_txmoduleid :: u32
  e_rxmoduleid :: u32
  e_type :: u16
  e_args :: poll_args
  tx_data :: bytes
  tx_remain :: u16
  tx_offset :: u16
  tx_frame :: u16
  wait_timeout :: u32
  txmsgid :: u32
  fc_septime :: u8
  outs :: "out list"

definition emit :: "out \<Rightarrow> poller \<Rightarrow> poller" where
  "emit e s = s\<lparr>outs := outs s @ [e]\<rparr>"

definition GetPollWaiting :: "u32 \<Rightarrow> poller \<Rightarrow> bool" where
  "GetPollWaiting now s \<longleftrightarrow> wait_timeout s \<noteq> 0 \<and> now < wait_timeout s"

definition ResetPollWaiting :: "poller \<Rightarrow> poller" where
  "ResetPollWaiting s = s\<lparr>wait_timeout := 0\<rparr>"

definition SetPollWaiting :: "u32 \<Rightarrow> u32 \<Rightarrow> poller \<Rightarrow> poller" where
  "SetPollWaiting now ms s = s\<lparr>wait_timeout := ms + now\<rparr>"

definition AddPollWaiting :: "u32 \<Rightarrow> u32 \<Rightarrow> poller \<Rightarrow> poller" where
  "AddPollWaiting now ms s =
     (if \<not> GetPollWaiting now s then SetPollWaiting now ms s else s\<lparr>wait_timeout := wait_timeout s + ms\<rparr>)"

text \<open>With extended addressing the first data byte belongs to the address.\<close>

definition fr_start :: "poller \<Rightarrow> nat" where
  "fr_start s = (if p_protocol s = ISOTP_EXTADR then 1 else 0)"

definition fr_maxlen :: "poller \<Rightarrow> nat" where
  "fr_maxlen s = (if p_protocol s = ISOTP_EXTADR then 7 else 8)"

definition tx_msgid :: "poller \<Rightarrow> u32 \<Rightarrow> u32" where
  "tx_msgid s txid = (if p_protocol s = ISOTP_EXTADR then drop_bit 8 txid else txid)"

text \<open>A frame to the module: address byte, then the protocol data.\<close>

definition frame_to :: "poller \<Rightarrow> nat \<Rightarrow> u32 \<Rightarrow> bytes \<Rightarrow> poll_frame" where
  "frame_to s origin txid fr_data =
     \<lparr>pf_origin = origin, pf_ext = (p_protocol s = ISOTP_EXTFRAME), pf_id = tx_msgid s txid,
      pf_data = (if p_protocol s = ISOTP_EXTADR then ucast (txid AND 0xff) # fr_data else fr_data)\<rparr>"

subsection \<open>PollerISOTPStart\<close>

definition args_len :: "poll_args \<Rightarrow> u16" where
  "args_len a = (case a of Args n _ \<Rightarrow> ucast n | XArgs n _ \<Rightarrow> n)"

definition args_data :: "poll_args \<Rightarrow> bytes" where
  "args_data a = (case a of Args _ d \<Rightarrow> d | XArgs _ d \<Rightarrow> d)"

text \<open>The service type and PID in front of the payload.\<close>

definition request_head :: "poller \<Rightarrow> bytes" where
  "request_head s =
     (if has_16bit_pid (uint (e_type s)) then [ucast (p_type s), ucast (drop_bit 8 (p_pid s)), ucast (p_pid s AND 0xff)]
      else if has_8bit_pid (uint (e_type s)) then [ucast (p_type s), ucast (p_pid s)]
      else [ucast (p_type s)])"

definition request_modules :: "poller \<Rightarrow> poller" where
  "request_modules s =
     (if e_rxmoduleid s \<noteq> 0
      then s\<lparr>moduleid_sent := e_txmoduleid s, moduleid_low := e_rxmoduleid s, moduleid_high := e_rxmoduleid s\<rparr>
      else s\<lparr>moduleid_sent := 0x7df, moduleid_low := 0x7e8, moduleid_high := 0x7ef\<rparr>)"

definition pad_to :: "nat \<Rightarrow> bytes \<Rightarrow> bytes" where
  "pad_to n d = d @ replicate (n - length d) 0x55"

definition PollerISOTPStart :: "u32 \<Rightarrow> poller \<Rightarrow> poller option" where
  "PollerISOTPStart now s0 = do {
     let s = request_modules s0;
     let n = args_len (e_args s);
     let hd = request_head s;
     let tp_len = of_nat (length hd) + n;
     let single = (unat tp_len \<le> fr_maxlen s - 1);
     let fc = (if single then [push_bit 4 ISOTP_FT_SINGLE + ucast tp_len]
               else [push_bit 4 ISOTP_FT_FIRST + ucast (drop_bit 8 (tp_len AND 0x0f00)), ucast (tp_len AND 0xff)]);
     let room = fr_maxlen s - length fc - length hd;
     let sent = min (unat n) room;
     d \<leftarrow> rdn (args_data (e_args s)) 0 sent;
     let fr = frame_to s (m_bus s) (moduleid_sent s) (pad_to (fr_maxlen s) (fc @ hd @ d));
     let s1 = s\<lparr>txmsgid := pf_id fr, tx_frame := 0, tx_data := args_data (e_args s), tx_offset := of_nat sent,
                tx_remain := n - of_nat sent, mlframe := 0, mloffset := 0, mlremain := 0\<rparr>;
     Some (emit (Write fr) (SetPollWaiting now 1000 s1)) }"

subsection \<open>PollerISOTPReceive: flow control\<close>

text \<open>A broadcast request has no module id of its own: the sender's is used.\<close>

definition reply_id :: "poller \<Rightarrow> poll_frame \<Rightarrow> u32" where
  "reply_id s f = (if moduleid_sent s = 0x7df then pf_id f - 8 else moduleid_sent s)"

definition separation :: "u8 \<Rightarrow> poller \<Rightarrow> poller" where
  "separation st s =
     (if st > 0 then if st \<le> 127 then emit (Sleep (unat st * 1000)) s
                     else if st > 240 then emit (Sleep ((unat st - 240) * 100)) s else s
      else s)"

lemma chunk_less:
  assumes "r \<noteq> (0::u16)" "0 < m"
  shows "unat (r - of_nat (min (unat r) m)) < unat r"
proof -
  have "unat (of_nat (min (unat r) m) :: u16) = min (unat r) m"
    by (rule unat_word_of_nat_u16) (use unat_u16_less [of r] in linarith)
  moreover have "0 < unat r" using assms(1) by (simp add: unat_gt_0)
  ultimately show ?thesis
    using assms(2) by (subst unat_sub) (auto simp: word_le_nat_alt)
qed

function send_frames :: "nat \<Rightarrow> u32 \<Rightarrow> u8 \<Rightarrow> u8 \<Rightarrow> poller \<Rightarrow> poller option" where
  "send_frames origin txid cnt st s =
     (if tx_remain s = 0 then Some s
      else
        let datalen = fr_maxlen s - 1; n = min (unat (tx_remain s)) datalen; k = tx_frame s + 1 in
        (case rdn (tx_data s) (unat (tx_offset s)) n of
           None \<Rightarrow> None
         | Some d \<Rightarrow>
             let fr = frame_to s origin txid (pad_to (fr_maxlen s) ((push_bit 4 ISOTP_FT_CONSECUTIVE + ucast (k AND 0x0f)) # d));
                 s1 = emit (Write fr) (s\<lparr>tx_frame := k, tx_offset := tx_offset s + of_nat n, tx_remain := tx_remain s - of_nat n\<rparr>)
             in if tx_remain s1 = 0 then Some s1
                else if cnt > 0 \<and> cnt - 1 = 0 then Some s1
                else send_frames origin txid (if cnt > 0 then cnt - 1 else cnt) st (separation st s1)))"
  by pat_completeness auto
termination
  by (relation "measure (\<lambda>(origin, txid, cnt, st, s). unat (tx_remain s))")
    (auto simp: separation_def emit_def fr_maxlen_def intro!: chunk_less)

declare send_frames.simps [simp del]

definition recv_flow_control :: "u32 \<Rightarrow> poll_frame \<Rightarrow> poller \<Rightarrow> (bool \<times> poller) option" where
  "recv_flow_control now' f s =
     (let fr = drop (fr_start s) (pf_data f); cmd = fr ! 0 AND 0x0f; cnt = fr ! 1; st = fr ! 2 in
      if cmd > 2 \<or> tx_remain s = 0 then Some (False, s)
      else if cmd = 1 then Some (True, AddPollWaiting now' 500 s)
      else if cmd = 2 then Some (True, s\<lparr>tx_remain := 0\<rparr>)
      else do { s1 \<leftarrow> send_frames (pf_origin f) (reply_id s f) cnt st s;
                Some (True, if tx_remain s1 > 0 then SetPollWaiting now' 1000 s1 else s1) })"

subsection \<open>PollerISOTPReceive: responses\<close>

record tp_meta =
  tp_index :: u8
  tp_len :: u16
  tp_pos :: nat
  tp_datalen :: u8

definition limit_len :: "u16 \<Rightarrow> nat \<Rightarrow> u8" where
  "limit_len n lim = (if unat n > lim then of_nat lim else ucast n)"

definition tp_header :: "u8 \<Rightarrow> poll_frame \<Rightarrow> poller \<Rightarrow> tp_meta" where
  "tp_header ft f s =
     (let fr = drop (fr_start s) (pf_data f) in
      if ft = ISOTP_FT_SINGLE
      then let n = fr ! 0 AND 0x0f in
        \<lparr>tp_index = 0, tp_len = ucast n, tp_pos = fr_start s + 1, tp_datalen = n\<rparr>
      else if ft = ISOTP_FT_FIRST
      then let n = push_bit 8 (ucast (fr ! 0 AND 0x0f)) OR ucast (fr ! 1) in
        \<lparr>tp_index = 0, tp_len = n, tp_pos = fr_start s + 2, tp_datalen = limit_len n (fr_maxlen s - 2)\<rparr>
      else
        \<lparr>tp_index = fr ! 0 AND 0x0f, tp_len = mlremain s, tp_pos = fr_start s + 1,
         tp_datalen = limit_len (mlremain s) (fr_maxlen s - 1)\<rparr>)"

record uds_meta =
  u_type :: u8
  u_pid :: u16
  u_pos :: nat
  u_datalen :: u16
  u_error_type :: u8
  u_error_code :: u8

definition uds_header :: "u8 \<Rightarrow> tp_meta \<Rightarrow> poll_frame \<Rightarrow> poller \<Rightarrow> uds_meta" where
  "uds_header ft tp f s =
     (let p = tp_pos tp; d = pf_data f; n = ucast (tp_datalen tp) :: u16 in
      if ft = ISOTP_FT_CONSECUTIVE
      then \<lparr>u_type = ucast (0x40 + p_type s), u_pid = p_pid s, u_pos = p, u_datalen = n, u_error_type = 0, u_error_code = 0\<rparr>
      else
        let rt = d ! p in
        if rt = UDS_RESP_TYPE_NRC
        then \<lparr>u_type = rt, u_pid = 0, u_pos = 0, u_datalen = 0, u_error_type = d ! (p + 1), u_error_code = d ! (p + 2)\<rparr>
        else if has_16bit_pid (uint rt - 0x40)
        then \<lparr>u_type = rt, u_pid = push_bit 8 (ucast (d ! (p + 1))) OR ucast (d ! (p + 2)), u_pos = p + 3, u_datalen = n - 3,
              u_error_type = 0, u_error_code = 0\<rparr>
        else if has_8bit_pid (uint rt - 0x40)
        then \<lparr>u_type = rt, u_pid = ucast (d ! (p + 1)), u_pos = p + 2, u_datalen = n - 2, u_error_type = 0, u_error_code = 0\<rparr>
        else \<lparr>u_type = rt, u_pid = p_pid s, u_pos = p + 1, u_datalen = n - 1, u_error_type = 0, u_error_code = 0\<rparr>)"

definition PollerSucceededPollNext :: "bool \<Rightarrow> u32 \<Rightarrow> poller \<Rightarrow> poller" where
  "PollerSucceededPollNext can_poll now s =
     (let s1 = s\<lparr>p_type := 0\<rparr> in if \<not> GetPollWaiting now s1 \<and> can_poll then emit QueueSend s1 else s1)"

text \<open>The flow control frame that asks for all remaining frames.\<close>

definition flow_control :: "poll_frame \<Rightarrow> poller \<Rightarrow> poll_frame" where
  "flow_control f s =
     frame_to s (pf_origin f) (reply_id s f)
       ([0x30, 0x00, fc_septime s] @ replicate (fr_maxlen s - 3) 0)"

definition finish_receive :: "bool \<Rightarrow> u32 \<Rightarrow> u8 \<Rightarrow> poll_frame \<Rightarrow> u16 \<Rightarrow> poller \<Rightarrow> poller" where
  "finish_receive can_poll now' ft f datalen s =
     (let s1 = (if mlremain s \<noteq> 0
                then let s0 = (if ft = ISOTP_FT_FIRST then emit (Write (flow_control f s)) (s\<lparr>mlframe := 1\<rparr>)
                               else s\<lparr>mlframe := mlframe s + 1\<rparr>)
                     in SetPollWaiting now' 1000 (s0\<lparr>mloffset := mloffset s0 + datalen\<rparr>)
                else ResetPollWaiting s)
      in if mlremain s1 = 0 \<and> moduleid_sent s1 \<noteq> 0x7df then PollerSucceededPollNext can_poll now' s1 else s1)"

definition recv_response :: "bool \<Rightarrow> u32 \<Rightarrow> u8 \<Rightarrow> poll_frame \<Rightarrow> u32 \<Rightarrow> poller \<Rightarrow> (bool \<times> poller) option" where
  "recv_response can_poll now' ft f msgid s0 =
     (let tp = tp_header ft f s0; s = s0\<lparr>raw_data := (tp_pos tp, tp_datalen tp)\<rparr> in
      if ft = ISOTP_FT_CONSECUTIVE \<and> (mlremain s = 0 \<or> ucast (tp_index tp) > mlframe s AND 0x0f)
      then Some (True, SetPollWaiting now' 1000 (s\<lparr>moduleid_low := 0, moduleid_high := 0\<rparr>))
      else
        let u = uds_header ft tp f s in
        if u_type u = UDS_RESP_TYPE_NRC \<and> uint (u_error_type u) = uint (p_type s)
        then if u_error_code u = UDS_RESP_NRC_RCRRP
             then Some (True, AddPollWaiting now' 500 s)
             else Some (True, finish_receive can_poll now' ft f (u_datalen u)
                    (emit (PollError msgid (uint (u_error_code u))) (s\<lparr>moduleid_rec := msgid, mlframe := 0, mloffset := 0, mlremain := 0\<rparr>)))
        else if uint (u_type u) = 0x40 + uint (p_type s) \<and> u_pid u = p_pid s
        then do {
          let s1 = s\<lparr>mlremain := tp_len tp - ucast (tp_datalen tp), moduleid_rec := msgid\<rparr>;
          d \<leftarrow> rdn (pf_data f) (u_pos u) (unat (ucast (u_datalen u) :: u8));
          let pk = \<lparr>pk_module = msgid, pk_frame = mlframe s1, pk_offset = mloffset s1, pk_remain = mlremain s1,
                    pk_raw = raw_data s1, pk_data = d\<rparr>;
          Some (True, finish_receive can_poll now' ft f (u_datalen u) (emit (Packet pk) s1)) }
        else Some (False, s))"

definition PollerISOTPReceive ::
  "bool \<Rightarrow> bool \<Rightarrow> u32 \<Rightarrow> u32 \<Rightarrow> poll_frame \<Rightarrow> u32 \<Rightarrow> poller \<Rightarrow> (bool \<times> poller) option" where
  "PollerISOTPReceive polls can_poll now now' f msgid s =
     (if \<not> GetPollWaiting now s \<or> \<not> polls \<or> pf_origin f \<noteq> m_bus s then Some (False, s)
      else if msgid < moduleid_low s \<or> msgid > moduleid_high s then Some (False, s)
      else
        let ft = drop_bit 4 (drop (fr_start s) (pf_data f) ! 0) in
        if ft = ISOTP_FT_FLOWCTRL then recv_flow_control now' f s
        else if ft = ISOTP_FT_SINGLE \<or> ft = ISOTP_FT_FIRST \<or> ft = ISOTP_FT_CONSECUTIVE
        then recv_response can_poll now' ft f msgid s
        else Some (False, s))"

definition Incoming :: "bool \<Rightarrow> bool \<Rightarrow> u32 \<Rightarrow> u32 \<Rightarrow> poll_frame \<Rightarrow> poller \<Rightarrow> (bool \<times> poller) option" where
  "Incoming polls can_poll now now' f s =
     (if p_type s = 0 then Some (False, s)
      else if pf_origin f \<noteq> m_bus s then Some (False, s)
      else if e_txmoduleid s = 0 then Some (False, s)
      else if \<not> GetPollWaiting now s then Some (False, s)
      else
        let msgid = (if p_protocol s = ISOTP_EXTADR then push_bit 8 (pf_id f) OR ucast (pf_data f ! 0) else pf_id f) in
        if msgid \<ge> moduleid_low s \<and> msgid \<le> moduleid_high s
        then do { (ret, s1) \<leftarrow> PollerISOTPReceive polls can_poll now now' f msgid (s\<lparr>raw_data := (0, 8)\<rparr>);
                  Some (ret, s1\<lparr>raw_data := (0, 0)\<rparr>) }
        else Some (False, s))"

subsection \<open>A poll series that collects packets\<close>

text \<open>\<open>StandardPacketPollSeries\<close>: a first frame empties the buffer, the last one delivers it.  The
  variant that collects the raw bytes of the frames (\<open>m_pack_raw_data\<close>) is left out.\<close>

record packet_series =
  ps_data :: bytes
  ps_success :: "bytes list"
  ps_fail :: "int list"

definition series_packet :: "packet \<Rightarrow> packet_series \<Rightarrow> packet_series" where
  "series_packet pk p =
     (let p1 = (if pk_frame pk = 0 then p\<lparr>ps_data := []\<rparr> else p);
          p2 = p1\<lparr>ps_data := ps_data p1 @ pk_data pk\<rparr>
      in if pk_remain pk = 0 then p2\<lparr>ps_success := ps_success p2 @ [ps_data p2], ps_data := []\<rparr> else p2)"

definition series_out :: "out \<Rightarrow> packet_series \<Rightarrow> packet_series" where
  "series_out e p =
     (case e of Packet pk \<Rightarrow> series_packet pk p
      | PollError _ code \<Rightarrow> if code = 0 then p\<lparr>ps_data := [], ps_success := ps_success p @ [[]]\<rparr>
                            else p\<lparr>ps_fail := ps_fail p @ [code]\<rparr>
      | _ \<Rightarrow> p)"

end
