(* ===== verification/IsoTpResponse.thy ===== *)
theory IsoTpResponse
  imports IsoTp
begin

section \<open>ISO-TP: responses are delivered whole\<close>

text \<open>
  The segmentation of ISO 15765-2 as a function on byte lists (\<open>isotp_frames\<close>), and what the poller
  makes of the frames of a response: the packets it forwards, put together by a packet series.
\<close>

subsection \<open>The specification\<close>

definition padded :: "nat \<Rightarrow> u8 \<Rightarrow> bytes \<Rightarrow> bytes" where
  "padded n p d = d @ replicate (n - length d) p"

text \<open>Consecutive frames from number \<open>k\<close> on, \<open>n\<close> protocol bytes each, filled up with \<open>p\<close>.\<close>

function cf_frames :: "nat \<Rightarrow> u8 \<Rightarrow> nat \<Rightarrow> bytes \<Rightarrow> bytes list" where
  "cf_frames n p k d =
     (if d = [] \<or> n \<le> 1 then []
      else padded n p ((0x20 + of_nat (k mod 16)) # take (n - 1) d) # cf_frames n p (k + 1) (drop (n - 1) d))"
  by pat_completeness auto
termination by (relation "measure (\<lambda>(n, p, k, d). length d)") (auto simp flip: length_greater_0_conv)

declare cf_frames.simps [simp del]

definition isotp_frames :: "nat \<Rightarrow> u8 \<Rightarrow> bytes \<Rightarrow> bytes list" where
  "isotp_frames n p msg =
     (if length msg \<le> n - 1 then [padded n p (of_nat (length msg) # msg)]
      else padded n p ((0x10 + of_nat (length msg div 256)) # of_nat (length msg mod 256) # take (n - 2) msg) #
        cf_frames n p 1 (drop (n - 2) msg))"

definition response_head :: "u16 \<Rightarrow> u16 \<Rightarrow> bytes" where
  "response_head typ pid =
     ucast (0x40 + typ) #
     (if has_16bit_pid (uint typ) then [ucast (drop_bit 8 pid), ucast pid]
      else if has_8bit_pid (uint typ) then [ucast pid] else [])"

text \<open>A service type and PID whose response can be recognised.\<close>

definition answerable :: "u16 \<Rightarrow> u16 \<Rightarrow> bool" where
  "answerable typ pid \<longleftrightarrow> typ \<noteq> 0 \<and> typ < 0xC0 \<and> typ \<noteq> 0x3F \<and> (has_8bit_pid (uint typ) \<longrightarrow> pid < 256)"

definition msgid_of :: "u32 \<Rightarrow> poll_frame \<Rightarrow> u32" where
  "msgid_of proto f = (if proto = ISOTP_EXTADR then push_bit 8 (pf_id f) OR ucast (pf_data f ! 0) else pf_id f)"

text \<open>The poll in progress, and a received frame with the protocol bytes \<open>fr\<close> that belongs to it.\<close>

record poll_id =
  i_proto :: u32
  i_bus :: nat
  i_low :: u32
  i_high :: u32
  i_sent :: u32
  i_type :: u16
  i_pid :: u16

definition expects :: "poll_id \<Rightarrow> poller \<Rightarrow> bool" where
  "expects i s \<longleftrightarrow> p_protocol s = i_proto i \<and> m_bus s = i_bus i \<and> moduleid_low s = i_low i \<and> moduleid_high s = i_high i \<and>
     moduleid_sent s = i_sent i \<and> p_type s = i_type i \<and> p_pid s = i_pid i \<and> e_txmoduleid s \<noteq> 0"

definition i_start :: "poll_id \<Rightarrow> nat" where "i_start i = (if i_proto i = ISOTP_EXTADR then 1 else 0)"
definition i_maxlen :: "poll_id \<Rightarrow> nat" where "i_maxlen i = (if i_proto i = ISOTP_EXTADR then 7 else 8)"

definition on_wire :: "poll_id \<Rightarrow> poll_frame \<Rightarrow> bytes \<Rightarrow> bool" where
  "on_wire i f fr \<longleftrightarrow> pf_origin f = i_bus i \<and> length fr = i_maxlen i \<and> length (pf_data f) = 8 \<and> drop (i_start i) (pf_data f) = fr \<and>
     i_low i \<le> msgid_of (i_proto i) f \<and> msgid_of (i_proto i) f \<le> i_high i"

lemma start_maxlen: "i_start i + i_maxlen i = 8"
  by (simp add: i_start_def i_maxlen_def)

lemma expects_start: "expects i s \<Longrightarrow> fr_start s = i_start i" "expects i s \<Longrightarrow> fr_maxlen s = i_maxlen i"
  by (simp_all add: expects_def fr_start_def fr_maxlen_def i_start_def i_maxlen_def)

lemma on_wire_rdn:
  assumes "on_wire i f fr" "k + n \<le> i_maxlen i"
  shows "rdn (pf_data f) (i_start i + k) n = Some (take n (drop k fr))"
proof -
  have "drop (i_start i + k) (pf_data f) = drop k fr" using assms(1) by (auto simp: on_wire_def add.commute)
  then show ?thesis using assms start_maxlen [of i] by (simp add: rdn_def on_wire_def)
qed

lemma on_wire_nth:
  assumes "on_wire i f fr" "k < i_maxlen i"
  shows "pf_data f ! (i_start i + k) = fr ! k"
proof -
  have "fr ! k = drop (i_start i) (pf_data f) ! k" using assms(1) by (simp add: on_wire_def)
  also have "\<dots> = pf_data f ! (i_start i + k)"
    using assms start_maxlen [of i] by (intro nth_drop) (simp add: on_wire_def)
  finally show ?thesis by simp
qed

text \<open>Every frame arrives before the waiting time runs out.\<close>

fun timely :: "u32 \<Rightarrow> (u32 \<times> u32 \<times> poll_frame) list \<Rightarrow> bool" where
  "timely deadline [] = True"
| "timely deadline ((now, now', f) # fs) \<longleftrightarrow> now < deadline \<and> timely (1000 + now') fs"

fun recv_frames :: "bool \<Rightarrow> (u32 \<times> u32 \<times> poll_frame) list \<Rightarrow> poller \<Rightarrow> poller option" where
  "recv_frames can_poll [] s = Some s"
| "recv_frames can_poll ((now, now', f) # fs) s = do {
     (ret, s1) \<leftarrow> Incoming True can_poll now now' f s;
     recv_frames can_poll fs s1 }"

definition carries :: "poll_id \<Rightarrow> (u32 \<times> u32 \<times> poll_frame) list \<Rightarrow> bytes list \<Rightarrow> bool" where
  "carries i tfs frs \<longleftrightarrow> list_all2 (\<lambda>(now, now', f) fr. on_wire i f fr) tfs frs"

definition writes :: "out list \<Rightarrow> poll_frame list" where
  "writes l = concat (map (\<lambda>e. case e of Write f \<Rightarrow> [f] | _ \<Rightarrow> []) l)"

lemma writes_simps [simp]: "writes [] = []" "writes (Write f # l) = f # writes l" "writes (Packet p # l) = writes l"
  "writes (QueueSend # l) = writes l" "writes (xs @ ys) = writes xs @ writes ys"
  by (simp_all add: writes_def)

subsection \<open>One frame\<close>

lemma incoming_receive:
  assumes "expects i s" "on_wire i f fr" "now < wait_timeout s" "i_type i \<noteq> 0"
  shows "Incoming True cp now now' f s =
    (case (let ft = drop_bit 4 (fr ! 0); s0 = s\<lparr>raw_data := (0, 8)\<rparr> in
           if ft = ISOTP_FT_FLOWCTRL then recv_flow_control now' f s0
           else if ft = ISOTP_FT_SINGLE \<or> ft = ISOTP_FT_FIRST \<or> ft = ISOTP_FT_CONSECUTIVE
           then recv_response cp now' ft f (msgid_of (i_proto i) f) s0
           else Some (False, s0)) of
       None \<Rightarrow> None | Some (ret, s1) \<Rightarrow> Some (ret, s1\<lparr>raw_data := (0, 0)\<rparr>))"
proof -
  have w: "wait_timeout s \<noteq> 0" using assms(3) by (metis word_not_simps(1))
  have g: "GetPollWaiting now s" "GetPollWaiting now (s\<lparr>raw_data := (0, 8)\<rparr>)" using w assms(3) by (simp_all add: GetPollWaiting_def)
  have m: "(if p_protocol s = ISOTP_EXTADR then push_bit 8 (pf_id f) OR ucast (pf_data f ! 0) else pf_id f) = msgid_of (i_proto i) f"
    using assms(1) by (simp add: expects_def msgid_of_def)
  have d: "drop (fr_start s) (pf_data f) = fr" using assms(1,2) expects_start(1) by (auto simp: on_wire_def)
  have d': "fr_start (s\<lparr>raw_data := (0, 8)\<rparr>) = fr_start s" by (simp add: fr_start_def)
  have r: "moduleid_low s \<le> msgid_of (i_proto i) f" "msgid_of (i_proto i) f \<le> moduleid_high s" "pf_origin f = m_bus s"
    "e_txmoduleid s \<noteq> 0" "p_type s \<noteq> 0"
    using assms(1,2,4) by (auto simp: expects_def on_wire_def)
  have nr: "\<not> msgid_of (i_proto i) f < moduleid_low s" "\<not> moduleid_high s < msgid_of (i_proto i) f"
    using r(1,2) by (simp_all add: not_less)
  have "Incoming True cp now now' f s =
    (case PollerISOTPReceive True cp now now' f (msgid_of (i_proto i) f) (s\<lparr>raw_data := (0, 8)\<rparr>) of
       None \<Rightarrow> None | Some (ret, s1) \<Rightarrow> Some (ret, s1\<lparr>raw_data := (0, 0)\<rparr>))"
    unfolding Incoming_def m Let_def using r g by (auto split: option.split)
  also have "PollerISOTPReceive True cp now now' f (msgid_of (i_proto i) f) (s\<lparr>raw_data := (0, 8)\<rparr>) =
    (let ft = drop_bit 4 (fr ! 0); s0 = s\<lparr>raw_data := (0, 8)\<rparr> in
           if ft = ISOTP_FT_FLOWCTRL then recv_flow_control now' f s0
           else if ft = ISOTP_FT_SINGLE \<or> ft = ISOTP_FT_FIRST \<or> ft = ISOTP_FT_CONSECUTIVE
           then recv_response cp now' ft f (msgid_of (i_proto i) f) s0
           else Some (False, s0))"
    unfolding PollerISOTPReceive_def d d' Let_def using r g nr by simp
  finally show ?thesis .
qed

lemma finish_more:
  assumes "expects i s" "mlremain s \<noteq> 0"
  shows "expects i (finish_receive cp now' ft f n s)" "mlremain (finish_receive cp now' ft f n s) = mlremain s"
    "mlframe (finish_receive cp now' ft f n s) = (if ft = ISOTP_FT_FIRST then 1 else mlframe s + 1)"
    "wait_timeout (finish_receive cp now' ft f n s) = 1000 + now'"
    "outs (finish_receive cp now' ft f n s) = outs s @ (if ft = ISOTP_FT_FIRST then [Write (flow_control f s)] else [])"
  using assms by (simp_all add: finish_receive_def Let_def expects_def SetPollWaiting_def emit_def)

lemma finish_done:
  assumes "mlremain s = 0"
  shows "mlremain (finish_receive cp now' ft f n s) = 0" "wait_timeout (finish_receive cp now' ft f n s) = 0"
    "outs (finish_receive cp now' ft f n s) = outs s \<or> outs (finish_receive cp now' ft f n s) = outs s @ [QueueSend]"
  using assms
  by (simp_all add: finish_receive_def Let_def ResetPollWaiting_def emit_def PollerSucceededPollNext_def)

lemma answer_type:
  assumes "typ < 0xC0"
  shows "uint (ucast (0x40 + typ :: u16) :: u8) = 0x40 + uint typ"
proof -
  have t: "uint typ < 0xC0" using assms by (simp add: word_less_alt)
  then have "uint (0x40 + typ) = 0x40 + uint typ" by (simp add: uint_word_ariths)
  then show ?thesis using t by (simp add: unsigned_ucast_eq take_bit_eq_mod)
qed

lemma cf_pci:
  "drop_bit 4 (0x20 + of_nat (k mod 16) :: u8) = 2" "(0x20 + of_nat (k mod 16) :: u8) AND 0x0f = of_nat (k mod 16)"
proof -
  have "\<forall>m < 16. drop_bit 4 (0x20 + of_nat m :: u8) = 2 \<and> (0x20 + of_nat m :: u8) AND 0x0f = of_nat m"
    by (simp add: all_less_16 all_less_8)
  then show "drop_bit 4 (0x20 + of_nat (k mod 16) :: u8) = 2" "(0x20 + of_nat (k mod 16) :: u8) AND 0x0f = of_nat (k mod 16)"
    by simp_all
qed

lemma frame_index: "(of_nat k :: u16) AND 0x0f = ucast (of_nat (k mod 16) :: u8)"
proof -
  have "(of_nat k :: u16) AND 0x0f = of_nat (k mod 16)"
  proof -
    have "take_bit 4 (of_nat k :: u16) = of_nat (take_bit 4 k)" by (rule take_bit_of_nat)
    moreover have "take_bit 4 k = k mod 16" by (simp add: take_bit_eq_mod)
    ultimately show ?thesis by (simp only: word_and_15)
  qed
  moreover have "ucast (of_nat (k mod 16) :: u8) = (of_nat (k mod 16) :: u16)"
    by (rule word_unat_eq_iff [THEN iffD2]) (simp add: unat_word_of_nat_u8 unat_word_of_nat_u16)
  ultimately show ?thesis by simp
qed

lemma limit_len_unat: "lim < 256 \<Longrightarrow> unat (limit_len n lim) = min (unat n) lim"
proof (cases "unat n > lim")
  case True
  assume "lim < 256"
  then show ?thesis using True by (simp add: limit_len_def unat_word_of_nat_u8)
next
  case False
  assume "lim < 256"
  then have "unat n < 256" using False by simp
  then have "unat (ucast n :: u8) = unat n" by (simp add: unsigned_ucast_eq take_bit_eq_mod)
  then show ?thesis using False by (simp add: limit_len_def)
qed

lemma remain_after:
  assumes "unat (r :: u16) = a + b" "unat (n :: u8) = a"
  shows "unat (r - ucast n) = b"
proof -
  have "unat (ucast n :: u16) = a" using assms(2) by simp
  then show ?thesis using assms(1) by (subst unat_sub) (auto simp: word_le_nat_alt)
qed

lemma padded_nth: "k < length d \<Longrightarrow> padded n p d ! k = d ! k"
  by (simp add: padded_def nth_append)

lemma padded_take: "k + m \<le> length d \<Longrightarrow> take m (drop k (padded n p d)) = take m (drop k d)"
  by (simp add: padded_def)

lemma cf_step:
  assumes e: "expects i s" and w: "on_wire i f fr" and now: "now < wait_timeout s" and a: "answerable (i_type i) (i_pid i)"
    and fr: "fr = padded (i_maxlen i) p ((0x20 + of_nat j) # take (i_maxlen i - 1) rest)"
    and rem: "unat (mlremain s) = length rest" "rest \<noteq> []" and k: "mlframe s = of_nat k" and j: "j \<le> k mod 16"
  shows "\<exists>pk s'. Incoming True cp now now' f s = Some (True, s') \<and> pk_data pk = take (i_maxlen i - 1) rest \<and>
    pk_frame pk = mlframe s \<and> unat (pk_remain pk) = length (drop (i_maxlen i - 1) rest) \<and>
    (if drop (i_maxlen i - 1) rest = []
     then (outs s' = outs s @ [Packet pk] \<or> outs s' = outs s @ [Packet pk, QueueSend]) \<and> wait_timeout s' = 0 \<and> mlremain s' = 0
     else outs s' = outs s @ [Packet pk] \<and> expects i s' \<and> unat (mlremain s') = length (drop (i_maxlen i - 1) rest) \<and>
       mlframe s' = mlframe s + 1 \<and> wait_timeout s' = 1000 + now')"
proof -
  let ?L = "i_maxlen i" and ?m = "msgid_of (i_proto i) f"
  let ?n = "min (length rest) (?L - 1)"
  have L: "?L = 7 \<or> ?L = 8" by (auto simp: i_maxlen_def)
  let ?s0 = "s\<lparr>raw_data := (0, 8)\<rparr>"
  have j16: "j mod 16 = j" using j by (simp add: order_le_less_trans)
  have f0: "fr ! 0 = 0x20 + of_nat (j mod 16)" by (simp add: fr padded_nth j16)
  have Lb: "?L - 1 < 256" using L by auto
  have d: "drop (i_start i) (pf_data f) = fr" using w by (simp add: on_wire_def)
  have st: "fr_start ?s0 = i_start i" "fr_maxlen ?s0 = ?L" using e expects_start by (auto simp: fr_start_def fr_maxlen_def)
  let ?tp = "tp_header ISOTP_FT_CONSECUTIVE f ?s0"
  have tp: "tp_index ?tp = of_nat (j mod 16)" "tp_len ?tp = mlremain s" "tp_pos ?tp = i_start i + 1"
    "unat (tp_datalen ?tp) = ?n"
    using Lb unfolding tp_header_def Let_def st d f0 by (simp_all add: cf_pci limit_len_unat rem(1))
  let ?s1 = "?s0\<lparr>raw_data := (tp_pos ?tp, tp_datalen ?tp)\<rparr>"
  let ?u = "uds_header ISOTP_FT_CONSECUTIVE ?tp f ?s1"
  have ty: "i_type i \<noteq> 0" "i_type i < 0xC0" using a by (auto simp: answerable_def)
  have pt: "p_type s = i_type i" "p_pid s = i_pid i" using e by (simp_all add: expects_def)
  have u: "u_type ?u = ucast (0x40 + i_type i)" "u_pid ?u = i_pid i" "u_pos ?u = i_start i + 1"
    "u_datalen ?u = ucast (tp_datalen ?tp)" "u_error_type ?u = 0"
    by (simp_all add: uds_header_def Let_def pt tp)
  have dl: "(ucast (u_datalen ?u) :: u8) = tp_datalen ?tp"
    unfolding u(4) by (rule word_unat_eq_iff [THEN iffD2]) (simp add: unsigned_ucast_eq take_bit_eq_mod)
  have data: "rdn (pf_data f) (u_pos ?u) (unat (ucast (u_datalen ?u) :: u8)) = Some (take (?L - 1) rest)"
  proof -
    have "rdn (pf_data f) (i_start i + 1) ?n = Some (take ?n (drop 1 fr))" using L by (intro on_wire_rdn [OF w]) auto
    also have "take ?n (drop 1 fr) = take (?L - 1) rest" by (simp add: fr padded_def min_def)
    finally show ?thesis unfolding dl u(3) tp(4) .
  qed
  let ?r = "tp_len ?tp - ucast (tp_datalen ?tp)"
  let ?s2 = "?s1\<lparr>mlremain := ?r, moduleid_rec := ?m\<rparr>"
  let ?pk = "\<lparr>pk_module = ?m, pk_frame = mlframe s, pk_offset = mloffset s, pk_remain = ?r, pk_raw = raw_data ?s2,
    pk_data = take (?L - 1) rest\<rparr>"
  have r: "unat ?r = length (drop (?L - 1) rest)"
    using remain_after [of "mlremain s" ?n "length (drop (?L - 1) rest)" "tp_datalen ?tp"] tp(4) rem(1) tp(2) by simp
  have idx: "\<not> (mlremain s = 0 \<or> ucast (tp_index ?tp) > mlframe s AND 0x0f)"
  proof -
    have "unat (ucast (of_nat (j mod 16) :: u8) :: u16) \<le> unat (ucast (of_nat (k mod 16) :: u8) :: u16)"
      using j by (simp add: unat_word_of_nat_u8 j16)
    then have "ucast (tp_index ?tp) \<le> mlframe s AND 0x0f" unfolding tp(1) k frame_index by (simp only: word_le_nat_alt)
    then show ?thesis using rem by (auto simp: not_less)
  qed
  let ?s3 = "emit (Packet ?pk) ?s2"
  have "uint (u_error_type ?u) \<noteq> uint (p_type s)" using ty(1) unfolding u(5) pt by (simp add: uint_0_iff)
  moreover have "uint (u_type ?u) = 0x40 + uint (p_type s)" "u_pid ?u = p_pid s" using u pt answer_type [OF ty(2)] by simp_all
  ultimately have resp: "recv_response cp now' ISOTP_FT_CONSECUTIVE f ?m ?s0 =
      Some (True, finish_receive cp now' ISOTP_FT_CONSECUTIVE f (u_datalen ?u) ?s3)"
    using idx data unfolding recv_response_def Let_def by simp
  have inc: "Incoming True cp now now' f s = Some (True, (finish_receive cp now' ISOTP_FT_CONSECUTIVE f (u_datalen ?u) ?s3)\<lparr>raw_data := (0, 0)\<rparr>)"
    unfolding incoming_receive [OF e w now ty(1)] f0 Let_def using resp by (simp add: cf_pci)
  have ex: "expects i ?s3" using e by (simp add: expects_def emit_def)
  let ?s4 = "(finish_receive cp now' ISOTP_FT_CONSECUTIVE f (u_datalen ?u) ?s3)\<lparr>raw_data := (0, 0)\<rparr>"
  have o3: "outs ?s3 = outs s @ [Packet ?pk]" "mlremain ?s3 = ?r" "mlframe ?s3 = mlframe s" by (simp_all add: emit_def)
  show ?thesis
  proof (cases "drop (?L - 1) rest = []")
    case True
    then have z: "mlremain ?s3 = 0" using r o3(2) by (simp add: unat_eq_zero)
    show ?thesis
      using inc True r finish_done [OF z, of cp now' 2 f "u_datalen ?u"] o3(1)
      by (intro exI [of _ ?pk] exI [of _ ?s4]) auto
  next
    case False
    then have z: "mlremain ?s3 \<noteq> 0" using r o3(2) by auto
    show ?thesis
      using inc False r finish_more [OF ex z, of cp now' 2 f "u_datalen ?u"] o3
      by (intro exI [of _ ?pk] exI [of _ ?s4]) (simp add: expects_def)
  qed
qed

lemma head_length: "length (response_head ty pid) = (if has_16bit_pid (uint ty) then 3 else if has_8bit_pid (uint ty) then 2 else 1)"
  by (simp add: response_head_def)

lemma pid_bytes: "push_bit 8 (ucast (ucast (drop_bit 8 pid) :: u8)) OR ucast (ucast pid :: u8) = (pid :: u16)"
  by (auto simp: u16_eq_iff bit_simps all_less_16 all_less_8)

lemma pid_byte: "(pid :: u16) < 256 \<Longrightarrow> ucast (ucast pid :: u8) = pid"
proof -
  assume "pid < 256"
  then have "unat pid < 256" by (simp add: word_less_nat_alt)
  then have "unat (ucast (ucast pid :: u8) :: u16) = unat pid"
    by (simp only: unsigned_ucast_eq take_bit_eq_mod) (simp add: unat_mod_distrib)
  then show ?thesis by (rule word_unat_eq_iff [THEN iffD2])
qed

text \<open>What a single or first frame is taken for when its protocol bytes begin with the head of the
  expected response.\<close>

lemma uds_header_head:
  assumes "on_wire i f fr" "answerable (i_type i) (i_pid i)" "p_type s = i_type i" "p_pid s = i_pid i"
    and "ft \<noteq> ISOTP_FT_CONSECUTIVE" "tp_pos tp = i_start i + h"
    and "take (length (response_head (i_type i) (i_pid i))) (drop h fr) = response_head (i_type i) (i_pid i)"
    and "h + length (response_head (i_type i) (i_pid i)) \<le> i_maxlen i"
  shows "uint (u_type (uds_header ft tp f s)) = 0x40 + uint (i_type i)" "u_type (uds_header ft tp f s) \<noteq> UDS_RESP_TYPE_NRC"
    "u_pid (uds_header ft tp f s) = i_pid i"
    "u_pos (uds_header ft tp f s) = tp_pos tp + length (response_head (i_type i) (i_pid i))"
    "u_datalen (uds_header ft tp f s) = ucast (tp_datalen tp) - of_nat (length (response_head (i_type i) (i_pid i)))"
proof -
  let ?hd = "response_head (i_type i) (i_pid i)" and ?p = "tp_pos tp"
  have nth: "pf_data f ! (?p + k) = ?hd ! k" if "k < length ?hd" for k
  proof -
    have "pf_data f ! (i_start i + (h + k)) = fr ! (h + k)" using that assms(8) by (intro on_wire_nth [OF assms(1)]) simp
    also have "\<dots> = take (length ?hd) (drop h fr) ! k" using that assms(1,8) by (simp add: on_wire_def)
    finally show ?thesis unfolding assms(7) by (simp add: assms(6) add.assoc)
  qed
  have ty: "i_type i < 0xC0" "i_type i \<noteq> 0x3F" using assms(2) by (auto simp: answerable_def)
  have t0: "pf_data f ! ?p = ucast (0x40 + i_type i)" using nth [of 0] by (simp add: response_head_def)
  have ut: "uint (pf_data f ! ?p) = 0x40 + uint (i_type i)" unfolding t0 by (rule answer_type [OF ty(1)])
  have n: "pf_data f ! ?p \<noteq> UDS_RESP_TYPE_NRC"
  proof
    assume "pf_data f ! ?p = UDS_RESP_TYPE_NRC"
    then have "uint (i_type i) = 0x3F" using ut by simp
    then have "i_type i = 0x3F" by (simp add: word_uint_eq_iff)
    then show False using ty(2) by simp
  qed
  have st: "uint (pf_data f ! ?p) - 0x40 = uint (i_type i)" using ut by simp
  consider (b16) "has_16bit_pid (uint (i_type i))" | (b8) "has_8bit_pid (uint (i_type i))" "\<not> has_16bit_pid (uint (i_type i))"
    | (b0) "\<not> has_16bit_pid (uint (i_type i))" "\<not> has_8bit_pid (uint (i_type i))" by blast
  then have "uint (u_type (uds_header ft tp f s)) = 0x40 + uint (i_type i) \<and> u_type (uds_header ft tp f s) \<noteq> UDS_RESP_TYPE_NRC \<and>
    u_pid (uds_header ft tp f s) = i_pid i \<and> u_pos (uds_header ft tp f s) = ?p + length ?hd \<and>
    u_datalen (uds_header ft tp f s) = ucast (tp_datalen tp) - of_nat (length ?hd)"
  proof cases
    case b16
    then have hd: "?hd = [ucast (0x40 + i_type i), ucast (drop_bit 8 (i_pid i)), ucast (i_pid i)]" by (simp add: response_head_def)
    have "pf_data f ! (?p + 1) = ucast (drop_bit 8 (i_pid i))" "pf_data f ! (?p + 2) = ucast (i_pid i)"
      using nth [of 1] nth [of 2] by (simp_all add: hd)
    then show ?thesis
      using b16 n ut assms(5) pid_bytes [of "i_pid i"] unfolding hd by (simp add: uds_header_def Let_def st)
  next
    case b8
    then have hd: "?hd = [ucast (0x40 + i_type i), ucast (i_pid i)]" by (simp add: response_head_def)
    have "pf_data f ! (?p + 1) = ucast (i_pid i)" using nth [of 1] by (simp add: hd)
    moreover have "i_pid i < 256" using b8 assms(2) by (simp add: answerable_def)
    ultimately show ?thesis
      using b8 n ut assms(5) pid_byte [of "i_pid i"] unfolding hd by (simp add: uds_header_def Let_def st)
  next
    case b0
    then have hd: "?hd = [ucast (0x40 + i_type i)]" by (simp add: response_head_def)
    show ?thesis using b0 n ut assms(4,5) unfolding hd by (simp add: uds_header_def Let_def st)
  qed
  then show "uint (u_type (uds_header ft tp f s)) = 0x40 + uint (i_type i)" "u_type (uds_header ft tp f s) \<noteq> UDS_RESP_TYPE_NRC"
    "u_pid (uds_header ft tp f s) = i_pid i" "u_pos (uds_header ft tp f s) = ?p + length ?hd"
    "u_datalen (uds_header ft tp f s) = ucast (tp_datalen tp) - of_nat (length ?hd)"
    by simp_all
qed

lemma uds_header_first:
  assumes "on_wire i f fr" "answerable (i_type i) (i_pid i)" "p_type s = i_type i" "p_pid s = i_pid i"
    and "ft \<noteq> ISOTP_FT_CONSECUTIVE" "tp_pos tp = i_start i + h" "unat (tp_datalen tp) = length (response_head (i_type i) (i_pid i) @ d)"
    and "take (length (response_head (i_type i) (i_pid i) @ d)) (drop h fr) = response_head (i_type i) (i_pid i) @ d"
    and "h + length (response_head (i_type i) (i_pid i) @ d) \<le> i_maxlen i"
  shows "uint (u_type (uds_header ft tp f s)) = 0x40 + uint (i_type i)" "u_type (uds_header ft tp f s) \<noteq> UDS_RESP_TYPE_NRC"
    "u_pid (uds_header ft tp f s) = i_pid i"
    "rdn (pf_data f) (u_pos (uds_header ft tp f s)) (unat (ucast (u_datalen (uds_header ft tp f s)) :: u8)) = Some d"
proof -
  let ?hd = "response_head (i_type i) (i_pid i)" and ?p = "tp_pos tp"
  have "take (length ?hd) (drop h fr) = take (length ?hd) (take (length (?hd @ d)) (drop h fr))" by simp
  then have front: "take (length ?hd) (drop h fr) = ?hd" unfolding assms(8) by simp
  have room: "h + length ?hd \<le> i_maxlen i" using assms(9) by simp
  note u = uds_header_head [OF assms(1-6) front room]
  have len: "length (?hd @ d) < 256" using assms(9) by (auto simp: i_maxlen_def split: if_splits)
  have dl: "unat (ucast (ucast (tp_datalen tp) - of_nat (length ?hd) :: u16) :: u8) = length d"
  proof -
    have hl: "unat (of_nat (length ?hd) :: u16) = length ?hd" using len by (intro unat_word_of_nat_u16) simp
    have "unat (ucast (tp_datalen tp) - of_nat (length ?hd) :: u16) = length d"
      using assms(7) hl by (subst unat_sub) (simp_all add: word_le_nat_alt)
    then show ?thesis using len by (simp add: unsigned_ucast_eq take_bit_eq_mod)
  qed
  have rd: "rdn (pf_data f) (?p + length ?hd) (length d) = Some d"
  proof -
    have "rdn (pf_data f) (i_start i + (h + length ?hd)) (length d) = Some (take (length d) (drop (h + length ?hd) fr))"
      using assms(9) by (intro on_wire_rdn [OF assms(1)]) simp
    also have "take (length d) (drop (h + length ?hd) fr) = drop (length ?hd) (take (length (?hd @ d)) (drop h fr))"
      by (simp add: drop_take add.commute)
    finally show ?thesis unfolding assms(8) by (simp add: assms(6) add.assoc)
  qed
  show "uint (u_type (uds_header ft tp f s)) = 0x40 + uint (i_type i)" "u_type (uds_header ft tp f s) \<noteq> UDS_RESP_TYPE_NRC"
    "u_pid (uds_header ft tp f s) = i_pid i" by (rule u(1) u(2) u(3))+
  show "rdn (pf_data f) (u_pos (uds_header ft tp f s)) (unat (ucast (u_datalen (uds_header ft tp f s)) :: u8)) = Some d"
    unfolding u(4,5) dl by (rule rd)
qed

lemma first_recv:
  assumes e: "expects i s" and w: "on_wire i f fr" and a: "answerable (i_type i) (i_pid i)"
    and ft: "ft \<noteq> ISOTP_FT_CONSECUTIVE" and pos: "tp_pos (tp_header ft f s) = i_start i + h"
    and n: "unat (tp_datalen (tp_header ft f s)) = length (response_head (i_type i) (i_pid i) @ d)"
    and fr: "take (length (response_head (i_type i) (i_pid i) @ d)) (drop h fr) = response_head (i_type i) (i_pid i) @ d"
    and room: "h + length (response_head (i_type i) (i_pid i) @ d) \<le> i_maxlen i"
    and total: "unat (tp_len (tp_header ft f s)) = length (response_head (i_type i) (i_pid i) @ d) + rest"
  shows "\<exists>pk u. recv_response cp now' ft f m s =
      Some (True, finish_receive cp now' ft f u (emit (Packet pk) (s\<lparr>raw_data := pk_raw pk, mlremain := pk_remain pk, moduleid_rec := m\<rparr>))) \<and>
    pk_data pk = d \<and> pk_frame pk = mlframe s \<and> unat (pk_remain pk) = rest"
proof -
  let ?tp = "tp_header ft f s"
  let ?s1 = "s\<lparr>raw_data := (tp_pos ?tp, tp_datalen ?tp)\<rparr>"
  let ?u = "uds_header ft ?tp f ?s1" and ?r = "tp_len ?tp - ucast (tp_datalen ?tp)"
  let ?pk = "\<lparr>pk_module = m, pk_frame = mlframe s, pk_offset = mloffset s, pk_remain = ?r, pk_raw = (tp_pos ?tp, tp_datalen ?tp), pk_data = d\<rparr>"
  have pt: "p_type ?s1 = i_type i" "p_pid ?s1 = i_pid i" using e by (simp_all add: expects_def)
  note u = uds_header_first [OF w a pt ft pos n fr room]
  have r: "unat ?r = rest" by (rule remain_after [OF total n])
  have "recv_response cp now' ft f m s =
      Some (True, finish_receive cp now' ft f (u_datalen ?u) (emit (Packet ?pk) (s\<lparr>raw_data := pk_raw ?pk, mlremain := pk_remain ?pk, moduleid_rec := m\<rparr>)))"
    using ft u pt unfolding recv_response_def Let_def by simp
  then show ?thesis using r by (intro exI [of _ ?pk] exI [of _ "u_datalen ?u"]) simp
qed

lemma single_pci: "n \<le> 7 \<Longrightarrow> drop_bit 4 (of_nat n :: u8) = 0 \<and> (of_nat n :: u8) AND 0x0f = of_nat n"
proof -
  have "\<forall>n < 8. drop_bit 4 (of_nat n :: u8) = 0 \<and> (of_nat n :: u8) AND 0x0f = of_nat n"
    by (simp add: all_less_8)
  then show "n \<le> 7 \<Longrightarrow> drop_bit 4 (of_nat n :: u8) = 0 \<and> (of_nat n :: u8) AND 0x0f = of_nat n" by simp
qed

lemma first_pci:
  assumes "n \<le> 4095"
  shows "drop_bit 4 (0x10 + of_nat (n div 256) :: u8) = 1"
    "push_bit 8 (ucast ((0x10 + of_nat (n div 256) :: u8) AND 0x0f)) OR ucast (of_nat (n mod 256) :: u8) = (of_nat n :: u16)"
proof -
  have all: "\<forall>q < 16. drop_bit 4 (0x10 + of_nat q :: u8) = 1 \<and> (0x10 + of_nat q :: u8) AND 0x0f = of_nat q"
    by (simp add: all_less_16 all_less_8)
  have q: "n div 256 < 16" using assms by simp
  show "drop_bit 4 (0x10 + of_nat (n div 256) :: u8) = 1" using all q by blast
  have hi: "ucast ((0x10 + of_nat (n div 256) :: u8) AND 0x0f) = (of_nat (n div 256) :: u16)"
    using all q by (intro word_unat_eq_iff [THEN iffD2]) (simp add: unat_word_of_nat_u8 unat_word_of_nat_u16)
  have lo: "ucast (of_nat (n mod 256) :: u8) = (of_nat (n mod 256) :: u16)"
    by (intro word_unat_eq_iff [THEN iffD2]) (simp add: unat_word_of_nat_u8 unat_word_of_nat_u16)
  have "push_bit 8 (of_nat (n div 256) :: u16) OR of_nat (n mod 256) = of_nat (push_bit 8 (n div 256) OR n mod 256)"
    by (simp add: of_nat_or_eq of_nat_push_bit)
  also have "push_bit 8 (n div 256) OR n mod 256 = n"
  proof -
    have "push_bit 8 (drop_bit 8 n) OR take_bit 8 n = n"
      by (rule bit_eqI) (auto simp: bit_simps)
    then show ?thesis by (simp add: drop_bit_eq_div take_bit_eq_mod)
  qed
  finally show "push_bit 8 (ucast ((0x10 + of_nat (n div 256) :: u8) AND 0x0f)) OR ucast (of_nat (n mod 256) :: u8) = (of_nat n :: u16)"
    unfolding hi lo .
qed

lemma header_length: "0 < length (response_head ty pid)" "length (response_head ty pid) \<le> 3"
  by (simp_all add: head_length)

lemma single_step:
  assumes e: "expects i s" and w: "on_wire i f fr" and now: "now < wait_timeout s" and a: "answerable (i_type i) (i_pid i)"
    and msg: "msg = response_head (i_type i) (i_pid i) @ d" "length msg \<le> i_maxlen i - 1"
    and fr: "fr = padded (i_maxlen i) p (of_nat (length msg) # msg)"
  shows "\<exists>pk s'. Incoming True cp now now' f s = Some (True, s') \<and> pk_data pk = d \<and> pk_frame pk = mlframe s \<and> pk_remain pk = 0 \<and>
    (outs s' = outs s @ [Packet pk] \<or> outs s' = outs s @ [Packet pk, QueueSend]) \<and> wait_timeout s' = 0 \<and> mlremain s' = 0"
proof -
  let ?L = "i_maxlen i" and ?m = "msgid_of (i_proto i) f" and ?s0 = "s\<lparr>raw_data := (0, 8)\<rparr>"
  let ?hd = "response_head (i_type i) (i_pid i)"
  have L: "?L = 7 \<or> ?L = 8" by (auto simp: i_maxlen_def)
  have len: "length msg \<le> 7" using L msg(2) by auto
  have pci: "drop_bit 4 (fr ! 0) = 0" "fr ! 0 AND 0x0f = of_nat (length msg)"
    using single_pci [OF len] by (simp_all add: fr padded_nth)
  have drop: "drop (i_start i) (pf_data f) = fr" using w by (simp add: on_wire_def)
  have e0: "expects i ?s0" using e by (simp add: expects_def)
  note st = expects_start [OF e0]
  let ?tp = "tp_header ISOTP_FT_SINGLE f ?s0"
  have tp: "tp_pos ?tp = i_start i + 1" "unat (tp_datalen ?tp) = length (?hd @ d)" "unat (tp_len ?tp) = length (?hd @ d) + 0"
    using len unfolding tp_header_def Let_def st drop pci msg(1) [symmetric]
    by (simp_all add: unat_word_of_nat_u8)
  have tk: "take (length (?hd @ d)) (drop 1 fr) = ?hd @ d" by (simp add: fr padded_def msg(1))
  have room: "1 + length (?hd @ d) \<le> ?L" using msg L by auto
  obtain pk u where r: "recv_response cp now' 0 f ?m ?s0 =
      Some (True, finish_receive cp now' 0 f u (emit (Packet pk) (?s0\<lparr>raw_data := pk_raw pk, mlremain := pk_remain pk, moduleid_rec := ?m\<rparr>)))"
    and pk: "pk_data pk = d" "pk_frame pk = mlframe s" "pk_remain pk = 0"
    using first_recv [OF e0 w a _ tp(1,2) tk room tp(3), of cp now' ?m] by (auto simp: unat_eq_zero)
  let ?s2 = "emit (Packet pk) (?s0\<lparr>raw_data := pk_raw pk, mlremain := pk_remain pk, moduleid_rec := ?m\<rparr>)"
  let ?s3 = "finish_receive cp now' 0 f u ?s2"
  have "Incoming True cp now now' f s = Some (True, ?s3\<lparr>raw_data := (0, 0)\<rparr>)"
    using a unfolding incoming_receive [OF e w now answerable_def [THEN iffD1, OF a, THEN conjunct1]] pci(1) Let_def using r by simp
  moreover have "mlremain ?s2 = 0" "outs ?s2 = outs s @ [Packet pk]" using pk(3) by (simp_all add: emit_def)
  ultimately show ?thesis
    using pk finish_done [of ?s2 cp now' 0 f u]
    by (intro exI [of _ pk] exI [of _ "?s3\<lparr>raw_data := (0, 0)\<rparr>"]) auto
qed

lemma first_step:
  assumes e: "expects i s" and w: "on_wire i f fr" and now: "now < wait_timeout s" and a: "answerable (i_type i) (i_pid i)"
    and msg: "msg = response_head (i_type i) (i_pid i) @ payload" "i_maxlen i - 1 < length msg" "length msg \<le> 4095"
    and fr: "fr = padded (i_maxlen i) p ((0x10 + of_nat (length msg div 256)) # of_nat (length msg mod 256) # take (i_maxlen i - 2) msg)"
  shows "\<exists>pk s'. Incoming True cp now now' f s = Some (True, s') \<and> pk_data pk = take (i_maxlen i - 2 - length (response_head (i_type i) (i_pid i))) payload \<and>
    pk_frame pk = mlframe s \<and> unat (pk_remain pk) = length (drop (i_maxlen i - 2) msg) \<and>
    outs s' = outs s @ [Packet pk, Write (flow_control f s)] \<and> expects i s' \<and> unat (mlremain s') = length (drop (i_maxlen i - 2) msg) \<and>
    mlframe s' = 1 \<and> wait_timeout s' = 1000 + now'"
proof -
  let ?L = "i_maxlen i" and ?m = "msgid_of (i_proto i) f" and ?s0 = "s\<lparr>raw_data := (0, 8)\<rparr>"
  let ?hd = "response_head (i_type i) (i_pid i)" and ?d = "take (i_maxlen i - 2 - length (response_head (i_type i) (i_pid i))) payload"
  have L: "?L = 7 \<or> ?L = 8" by (auto simp: i_maxlen_def)
  have cut: "take (?L - 2) msg = ?hd @ ?d" using L header_length [of "i_type i" "i_pid i"] by (auto simp: msg(1))
  have lend: "length (?hd @ ?d) = ?L - 2" using arg_cong [OF cut, of length] msg(2) by simp
  have f0: "fr ! 0 = 0x10 + of_nat (length msg div 256)" "fr ! 1 = of_nat (length msg mod 256)" by (simp_all add: fr padded_nth)
  note pci = first_pci [OF msg(3)]
  have drop: "drop (i_start i) (pf_data f) = fr" using w by (simp add: on_wire_def)
  have e0: "expects i ?s0" using e by (simp add: expects_def)
  note st = expects_start [OF e0]
  let ?tp = "tp_header ISOTP_FT_FIRST f ?s0"
  have tl: "tp_len ?tp = of_nat (length msg)" "tp_pos ?tp = i_start i + 2" "tp_datalen ?tp = limit_len (of_nat (length msg)) (?L - 2)"
    unfolding tp_header_def Let_def st drop f0 pci by simp_all
  have ul: "unat (of_nat (length msg) :: u16) = length msg" using msg(3) by (intro unat_word_of_nat_u16) simp
  have Lb: "?L - 2 < 256" using L by auto
  have dl: "unat (tp_datalen ?tp) = length (?hd @ ?d)"
    unfolding tl(3) limit_len_unat [OF Lb] ul lend using msg(2) by simp
  have tot: "unat (tp_len ?tp) = length (?hd @ ?d) + length (drop (?L - 2) msg)"
    unfolding tl(1) ul lend using msg(2) by simp
  have tk: "take (length (?hd @ ?d)) (drop 2 fr) = ?hd @ ?d"
    unfolding lend cut [symmetric] using msg(2) by (simp add: fr padded_def)
  have room: "2 + length (?hd @ ?d) \<le> ?L" unfolding lend using L by auto
  obtain pk u where r: "recv_response cp now' 1 f ?m ?s0 =
      Some (True, finish_receive cp now' 1 f u (emit (Packet pk) (?s0\<lparr>raw_data := pk_raw pk, mlremain := pk_remain pk, moduleid_rec := ?m\<rparr>)))"
    and pk: "pk_data pk = ?d" "pk_frame pk = mlframe s" "unat (pk_remain pk) = length (drop (?L - 2) msg)"
    using first_recv [OF e0 w a _ tl(2) dl tk room tot, of cp now' ?m] by auto
  let ?s2 = "emit (Packet pk) (?s0\<lparr>raw_data := pk_raw pk, mlremain := pk_remain pk, moduleid_rec := ?m\<rparr>)"
  let ?s3 = "finish_receive cp now' 1 f u ?s2"
  have "Incoming True cp now now' f s = Some (True, ?s3\<lparr>raw_data := (0, 0)\<rparr>)"
    unfolding incoming_receive [OF e w now answerable_def [THEN iffD1, OF a, THEN conjunct1]] f0(1) pci(1) Let_def using r by simp
  moreover have "mlremain ?s2 = pk_remain pk" "outs ?s2 = outs s @ [Packet pk]" "flow_control f ?s2 = flow_control f s" "expects i ?s2"
    using e by (simp_all add: emit_def flow_control_def frame_to_def tx_msgid_def reply_id_def fr_maxlen_def expects_def)
  moreover have "pk_remain pk \<noteq> 0" using pk(3) msg(2) L by auto
  ultimately show ?thesis
    using pk finish_more [of i ?s2 cp now' 1 f u]
    by (intro exI [of _ pk] exI [of _ "?s3\<lparr>raw_data := (0, 0)\<rparr>"]) (simp add: expects_def)
qed

lemma cf_frames_step:
  "d \<noteq> [] \<Longrightarrow> 1 < n \<Longrightarrow> cf_frames n p k d = padded n p ((0x20 + of_nat (k mod 16)) # take (n - 1) d) # cf_frames n p (k + 1) (drop (n - 1) d)"
  by (subst cf_frames.simps) simp

lemma cf_frames_nil [simp]: "cf_frames n p k [] = []"
  by (subst cf_frames.simps) simp

lemma series_more:
  assumes "pk_frame pk \<noteq> 0" "pk_remain pk \<noteq> 0"
  shows "series_packet pk q = q\<lparr>ps_data := ps_data q @ pk_data pk\<rparr>"
  using assms by (simp add: series_packet_def)

lemma series_last:
  assumes "pk_frame pk \<noteq> 0" "pk_remain pk = 0"
  shows "series_packet pk q = q\<lparr>ps_success := ps_success q @ [ps_data q @ pk_data pk], ps_data := []\<rparr>"
  using assms by (simp add: series_packet_def)

lemma series_quiet [simp]: "series_out QueueSend q = q" "series_out (Write f) q = q" "series_out (Packet pk) q = series_packet pk q"
  by (simp_all add: series_out_def)

lemma cfs_received:
  assumes "expects i s" "answerable (i_type i) (i_pid i)" "mlframe s = of_nat k" "0 < k" "k + length rest < 65536"
    and "unat (mlremain s) = length rest" "rest \<noteq> []" "timely (wait_timeout s) tfs" "carries i tfs (cf_frames (i_maxlen i) p k rest)"
  shows "\<exists>s' l. recv_frames cp tfs s = Some s' \<and> outs s' = outs s @ l \<and> writes l = [] \<and>
    fold series_out l q = q\<lparr>ps_data := [], ps_success := ps_success q @ [ps_data q @ rest]\<rparr> \<and>
    wait_timeout s' = 0 \<and> mlremain s' = 0"
  using assms
proof (induction tfs arbitrary: s k rest q)
  case Nil
  have "1 < i_maxlen i" by (simp add: i_maxlen_def)
  then show ?case using Nil.prems(7,9) by (simp add: carries_def cf_frames_step)
next
  case (Cons tf tfs)
  let ?L = "i_maxlen i" and ?rest = "drop (i_maxlen i - 1) rest"
  have L: "1 < ?L" by (simp add: i_maxlen_def)
  obtain now now' f where tf: "tf = (now, now', f)" by (cases tf)
  let ?fr = "padded ?L p ((0x20 + of_nat (k mod 16)) # take (?L - 1) rest)"
  have w: "on_wire i f ?fr" "carries i tfs (cf_frames ?L p (k + 1) ?rest)"
    using Cons.prems(9) unfolding cf_frames_step [OF Cons.prems(7) L] by (simp_all add: carries_def tf)
  have t: "now < wait_timeout s" "timely (1000 + now') tfs" using Cons.prems(8) by (simp_all add: tf)
  obtain pk s1 where inc: "Incoming True cp now now' f s = Some (True, s1)"
    and pk: "pk_data pk = take (?L - 1) rest" "pk_frame pk = mlframe s" "unat (pk_remain pk) = length ?rest"
    and s1: "if ?rest = [] then (outs s1 = outs s @ [Packet pk] \<or> outs s1 = outs s @ [Packet pk, QueueSend]) \<and> wait_timeout s1 = 0 \<and> mlremain s1 = 0
     else outs s1 = outs s @ [Packet pk] \<and> expects i s1 \<and> unat (mlremain s1) = length ?rest \<and>
       mlframe s1 = mlframe s + 1 \<and> wait_timeout s1 = 1000 + now'"
    using cf_step [OF Cons.prems(1) w(1) t(1) Cons.prems(2) refl Cons.prems(6,7,3) order_refl] by blast
  have "unat (of_nat k :: u16) = k" using Cons.prems(5) by (intro unat_word_of_nat_u16) simp
  then have nz: "pk_frame pk \<noteq> 0" using pk(2) Cons.prems(3,4) by auto
  show ?case
  proof (cases "?rest = []")
    case True
    then have tfs: "tfs = []" using w(2) by (simp add: carries_def)
    have r0: "pk_remain pk = 0" "take (?L - 1) rest = rest" using True pk(3) by (simp_all add: unat_eq_zero)
    from s1 True have "(outs s1 = outs s @ [Packet pk] \<or> outs s1 = outs s @ [Packet pk, QueueSend])" "wait_timeout s1 = 0" "mlremain s1 = 0"
      by simp_all
    then show ?thesis using inc pk r0 nz by (auto simp: tf tfs series_last)
  next
    case False
    then have s1': "outs s1 = outs s @ [Packet pk]" "expects i s1" "unat (mlremain s1) = length ?rest"
       "mlframe s1 = mlframe s + 1" "wait_timeout s1 = 1000 + now'" using s1 by simp_all
    have k1: "mlframe s1 = of_nat (k + 1)" using s1'(4) Cons.prems(3) by simp
    have b: "k + 1 + length ?rest < 65536" using Cons.prems(5) False L by simp
    have r0: "pk_remain pk \<noteq> 0" using pk(3) False by auto
    obtain s' l where ih: "recv_frames cp tfs s1 = Some s'" "outs s' = outs s1 @ l" "writes l = []"
      "fold series_out l (series_packet pk q) = (series_packet pk q)\<lparr>ps_data := [], ps_success := ps_success (series_packet pk q) @ [ps_data (series_packet pk q) @ ?rest]\<rparr>"
      "wait_timeout s' = 0" "mlremain s' = 0"
      using Cons.IH [OF s1'(2) Cons.prems(2) k1 _ b s1'(3) False _ w(2), of "series_packet pk q"] t(2) s1'(5) by auto
    have "fold series_out (Packet pk # l) q = q\<lparr>ps_data := [], ps_success := ps_success q @ [ps_data q @ rest]\<rparr>"
      using ih(4) by (simp add: series_more [OF nz r0] pk(1))
    then show ?thesis using inc ih s1'(1) by (intro exI [of _ s'] exI [of _ "Packet pk # l"]) (simp add: tf)
  qed
qed

text \<open>A poller on bus 1 with nothing in progress, for examples.\<close>

definition idle_poller :: poller where
  "idle_poller = \<lparr>m_bus = 1, p_protocol = ISOTP_STD, p_type = 0, p_pid = 0, moduleid_sent = 0, moduleid_low = 0, moduleid_high = 0, moduleid_rec = 0,
     mlframe = 0, mloffset = 0, mlremain = 0, raw_data = (0, 0), e_txmoduleid = 0, e_rxmoduleid = 0, e_type = 0, e_args = Args 0 [],
     tx_data = [], tx_remain = 0, tx_offset = 0, tx_frame = 0, wait_timeout = 0, txmsgid = 0, fc_septime = 25, outs = []\<rparr>"

lemma response_in_one_frame:
  assumes "expects i s" "answerable (i_type i) (i_pid i)" "mlframe s = 0" "timely (wait_timeout s) tfs"
    and "length (response_head (i_type i) (i_pid i) @ payload) \<le> 4095"
    and "carries i tfs (isotp_frames (i_maxlen i) p (response_head (i_type i) (i_pid i) @ payload))"
    and short: "length (response_head (i_type i) (i_pid i) @ payload) \<le> i_maxlen i - 1"
  shows "\<exists>s' l. recv_frames cp tfs s = Some s' \<and> outs s' = outs s @ l \<and>
    fold series_out l q = q\<lparr>ps_data := [], ps_success := ps_success q @ [payload]\<rparr> \<and>
    writes l = (if length tfs = 1 then [] else [flow_control (snd (snd (hd tfs))) s]) \<and>
    wait_timeout s' = 0 \<and> mlremain s' = 0"
proof -
  let ?L = "i_maxlen i" and ?hd = "response_head (i_type i) (i_pid i)"
  let ?msg = "?hd @ payload"
  have L: "?L = 7 \<or> ?L = 8" by (auto simp: i_maxlen_def)
  from short obtain now now' f where tfs: "tfs = [(now, now', f)]" and w: "on_wire i f (padded ?L p (of_nat (length ?msg) # ?msg))"
    using assms(6) by (auto simp: isotp_frames_def carries_def list_all2_Cons2)
  have t: "now < wait_timeout s" using assms(4) by (simp add: tfs)
  obtain pk s1 where inc: "Incoming True cp now now' f s = Some (True, s1)"
    and pk: "pk_data pk = payload" "pk_frame pk = mlframe s" "pk_remain pk = 0"
    and s1: "outs s1 = outs s @ [Packet pk] \<or> outs s1 = outs s @ [Packet pk, QueueSend]" "wait_timeout s1 = 0" "mlremain s1 = 0"
    using single_step [OF assms(1) w t assms(2) refl short refl] by blast
  have "series_packet pk q = q\<lparr>ps_data := [], ps_success := ps_success q @ [payload]\<rparr>"
    using pk assms(3) by (simp add: series_packet_def)
  then show ?thesis using inc s1 by (auto simp: tfs)
qed

lemma response_in_frames:
  assumes "expects i s" "answerable (i_type i) (i_pid i)" "mlframe s = 0" "timely (wait_timeout s) tfs"
    and "length (response_head (i_type i) (i_pid i) @ payload) \<le> 4095"
    and "carries i tfs (isotp_frames (i_maxlen i) p (response_head (i_type i) (i_pid i) @ payload))"
    and long: "\<not> length (response_head (i_type i) (i_pid i) @ payload) \<le> i_maxlen i - 1"
  shows "\<exists>s' l. recv_frames cp tfs s = Some s' \<and> outs s' = outs s @ l \<and>
    fold series_out l q = q\<lparr>ps_data := [], ps_success := ps_success q @ [payload]\<rparr> \<and>
    writes l = (if length tfs = 1 then [] else [flow_control (snd (snd (hd tfs))) s]) \<and>
    wait_timeout s' = 0 \<and> mlremain s' = 0"
proof -
  let ?L = "i_maxlen i" and ?hd = "response_head (i_type i) (i_pid i)"
  let ?msg = "?hd @ payload"
  have L: "?L = 7 \<or> ?L = 8" by (auto simp: i_maxlen_def)
  have many: "?L - 1 < length ?msg" using long by simp
  let ?f1 = "padded ?L p ((0x10 + of_nat (length ?msg div 256)) # of_nat (length ?msg mod 256) # take (?L - 2) ?msg)"
  let ?rest = "drop (?L - 2) ?msg"
  have fs: "isotp_frames ?L p ?msg = ?f1 # cf_frames ?L p 1 ?rest" using long by (simp add: isotp_frames_def)
  obtain now now' f tfs' where tfs: "tfs = (now, now', f) # tfs'" and w: "on_wire i f ?f1" "carries i tfs' (cf_frames ?L p 1 ?rest)"
    using assms(6) unfolding fs by (auto simp: carries_def list_all2_Cons2)
  have t: "now < wait_timeout s" "timely (1000 + now') tfs'" using assms(4) by (simp_all add: tfs)
  obtain pk s1 where inc: "Incoming True cp now now' f s = Some (True, s1)"
    and pk: "pk_data pk = take (?L - 2 - length ?hd) payload" "pk_frame pk = mlframe s" "unat (pk_remain pk) = length ?rest"
    and s1: "outs s1 = outs s @ [Packet pk, Write (flow_control f s)]" "expects i s1" "unat (mlremain s1) = length ?rest"
      "mlframe s1 = 1" "wait_timeout s1 = 1000 + now'"
    using first_step [OF assms(1) w(1) t(1) assms(2) refl many assms(5) refl] by blast
  have ne: "?rest \<noteq> []" using many by (simp del: drop_append)
  have r0: "pk_remain pk \<noteq> 0" using pk(3) ne by auto
  have hd: "?rest = drop (?L - 2 - length ?hd) payload" using L header_length(2) [of "i_type i" "i_pid i"] by auto
  let ?q = "series_packet pk q"
  have q: "?q = q\<lparr>ps_data := pk_data pk\<rparr>" using r0 pk(2) assms(3) by (simp add: series_packet_def)
  have k: "mlframe s1 = of_nat 1" "0 < (1::nat)" "1 + length ?rest < 65536" using s1(4) assms(5) by simp_all
  obtain s' l where r: "recv_frames cp tfs' s1 = Some s'" "outs s' = outs s1 @ l" "writes l = []"
    "fold series_out l ?q = ?q\<lparr>ps_data := [], ps_success := ps_success ?q @ [ps_data ?q @ ?rest]\<rparr>"
    "wait_timeout s' = 0" "mlremain s' = 0"
    using cfs_received [OF s1(2) assms(2) k s1(3) ne _ w(2), of cp ?q] t(2) s1(5) by auto
  have whole: "pk_data pk @ ?rest = payload" by (simp only: hd pk(1) append_take_drop_id)
  have "fold series_out (Packet pk # Write (flow_control f s) # l) q = q\<lparr>ps_data := [], ps_success := ps_success q @ [payload]\<rparr>"
    using r(4) whole by (simp add: q del: drop_append)
  moreover have "tfs' \<noteq> []" using w(2) ne L by (auto simp: carries_def cf_frames_step)
  ultimately show ?thesis
    using inc r s1(1) by (intro exI [of _ s'] exI [of _ "Packet pk # Write (flow_control f s) # l"]) (simp add: tfs)
qed

text \<open>C20. A diagnostic response split into ISO-TP frames is delivered whole: a response to the poll in
  progress of at most 4095 bytes, head included, arrives as a single frame or as a first and
  consecutive frames, with any fill byte, each before the waiting time of the previous one runs
  out.  Then no access leaves a buffer, the series gets exactly the payload as its next
  packet, the poller writes one flow control frame if there are several frames and none
  otherwise, and it waits for nothing more.\<close>

theorem response_delivered:
  assumes "expects i s" "answerable (i_type i) (i_pid i)" "mlframe s = 0" "timely (wait_timeout s) tfs"
    and "length (response_head (i_type i) (i_pid i) @ payload) \<le> 4095"
    and "carries i tfs (isotp_frames (i_maxlen i) p (response_head (i_type i) (i_pid i) @ payload))"
  shows "\<exists>s' l. recv_frames cp tfs s = Some s' \<and> outs s' = outs s @ l \<and>
    fold series_out l q = q\<lparr>ps_data := [], ps_success := ps_success q @ [payload]\<rparr> \<and>
    writes l = (if length tfs = 1 then [] else [flow_control (snd (snd (hd tfs))) s]) \<and>
    wait_timeout s' = 0 \<and> mlremain s' = 0"
  using response_in_one_frame [OF assms] response_in_frames [OF assms] by blast

theorem response_delivered_witness:
  "\<exists>s' l. recv_frames True
      [(100, 105, \<lparr>pf_origin = 1, pf_ext = False, pf_id = 0x77A, pf_data = [0x10, 13, 0x62, 0x12, 0x34, 1, 2, 3]\<rparr>),
       (110, 115, \<lparr>pf_origin = 1, pf_ext = False, pf_id = 0x77A, pf_data = [0x21, 4, 5, 6, 7, 8, 9, 10]\<rparr>)]
      (idle_poller\<lparr>p_type := 0x22, p_pid := 0x1234, moduleid_sent := 0x710, moduleid_low := 0x77A, moduleid_high := 0x77A,
        e_txmoduleid := 0x710, wait_timeout := 1000\<rparr>) = Some s' \<and> outs s' = [] @ l \<and>
    fold series_out l \<lparr>ps_data = [], ps_success = [], ps_fail = []\<rparr> =
      \<lparr>ps_data = [], ps_success = [[1, 2, 3, 4, 5, 6, 7, 8, 9, 10]], ps_fail = []\<rparr>"
proof -
  let ?i = "\<lparr>i_proto = 0, i_bus = 1, i_low = 0x77A, i_high = 0x77A, i_sent = 0x710, i_type = 0x22, i_pid = 0x1234\<rparr>"
  let ?s = "idle_poller\<lparr>p_type := 0x22, p_pid := 0x1234, moduleid_sent := 0x710, moduleid_low := 0x77A, moduleid_high := 0x77A,
        e_txmoduleid := 0x710, wait_timeout := 1000\<rparr>"
  let ?f = "\<lparr>pf_origin = 1, pf_ext = False, pf_id = 0x77A, pf_data = [0x10, 13, 0x62, 0x12, 0x34, 1, 2, 3]\<rparr>"
  let ?g = "\<lparr>pf_origin = 1, pf_ext = False, pf_id = 0x77A, pf_data = [0x21, 4, 5, 6, 7, 8, 9, 10]\<rparr>"
  have e: "expects ?i ?s" "answerable (i_type ?i) (i_pid ?i)" "mlframe ?s = 0" "timely (wait_timeout ?s) [(100, 105, ?f), (110, 115, ?g)]"
    by (simp_all add: expects_def idle_poller_def answerable_def has_8bit_pid_def has_no_pid_def has_16bit_pid_def)
  have h: "response_head (i_type ?i) (i_pid ?i) = [0x62, 0x12, 0x34]"
    by (simp add: response_head_def has_16bit_pid_def)
  have fs: "isotp_frames (i_maxlen ?i) 0xAA ([0x62, 0x12, 0x34] @ [1, 2, 3, 4, 5, 6, 7, 8, 9, 10]) =
    [[0x10, 13, 0x62, 0x12, 0x34, 1, 2, 3], [0x21, 4, 5, 6, 7, 8, 9, 10]]"
    by (simp add: isotp_frames_def i_maxlen_def cf_frames.simps padded_def)
  have c: "carries ?i [(100, 105, ?f), (110, 115, ?g)] (isotp_frames (i_maxlen ?i) 0xAA (response_head (i_type ?i) (i_pid ?i) @ [1, 2, 3, 4, 5, 6, 7, 8, 9, 10]))"
    unfolding h fs by (simp add: carries_def on_wire_def i_maxlen_def i_start_def msgid_of_def)
  have l: "length (response_head (i_type ?i) (i_pid ?i) @ [1, 2, 3, 4, 5, 6, 7, 8, 9, 10 :: u8]) \<le> 4095" unfolding h by simp
  show ?thesis
    using response_delivered [OF e l c, of True "\<lparr>ps_data = [], ps_success = [], ps_fail = []\<rparr>"]
    by (auto simp: idle_poller_def)
qed

subsection \<open>Frames out of sequence, frames cut short\<close>

lemma high_index_aborts:
  assumes e: "expects i s" and w: "on_wire i f fr" and now: "now < wait_timeout s" and ty: "i_type i \<noteq> 0"
    and fr: "fr ! 0 = 0x20 + of_nat j" and k: "mlframe s = of_nat k" and j: "k mod 16 < j" "j < 16"
  shows "\<exists>s'. Incoming True cp now now' f s = Some (True, s') \<and> outs s' = outs s \<and> moduleid_low s' = 0 \<and> moduleid_high s' = 0 \<and>
    p_protocol s' = p_protocol s"
proof -
  let ?s0 = "s\<lparr>raw_data := (0, 8)\<rparr>"
  have j16: "j mod 16 = j" using j by simp
  have f0: "fr ! 0 = 0x20 + of_nat (j mod 16)" by (simp add: fr j16)
  have d: "drop (i_start i) (pf_data f) = fr" using w by (simp add: on_wire_def)
  have st: "fr_start ?s0 = i_start i" "fr_maxlen ?s0 = i_maxlen i" using e expects_start by (auto simp: fr_start_def fr_maxlen_def)
  let ?tp = "tp_header ISOTP_FT_CONSECUTIVE f ?s0"
  have tp: "tp_index ?tp = of_nat (j mod 16)" unfolding tp_header_def Let_def st d f0 by (simp add: cf_pci)
  have "unat (ucast (of_nat (k mod 16) :: u8) :: u16) < unat (ucast (of_nat (j mod 16) :: u8) :: u16)"
    using j by (simp add: unat_word_of_nat_u8 j16)
  then have "ucast (tp_index ?tp) > mlframe s AND 0x0f" unfolding tp k frame_index by (simp only: word_less_nat_alt)
  then have "recv_response cp now' ISOTP_FT_CONSECUTIVE f (msgid_of (i_proto i) f) ?s0 =
    Some (True, SetPollWaiting now' 1000 (?s0\<lparr>raw_data := (tp_pos ?tp, tp_datalen ?tp), moduleid_low := 0, moduleid_high := 0\<rparr>))"
    unfolding recv_response_def Let_def by simp
  then show ?thesis unfolding incoming_receive [OF e w now ty] f0 Let_def by (simp add: cf_pci SetPollWaiting_def)
qed

lemma aborted_ignores:
  assumes "moduleid_low s = 0" "moduleid_high s = 0" "msgid_of (p_protocol s) f \<noteq> 0"
  shows "Incoming True cp now now' f s = Some (False, s)"
proof -
  have "0 < msgid_of (p_protocol s) f" using assms(3) by (simp add: word_neq_0_conv)
  then have "\<not> msgid_of (p_protocol s) f \<le> 0" by simp
  then show ?thesis using assms(1,2) unfolding Incoming_def Let_def by (simp add: msgid_of_def)
qed

lemma aborted_ignores_all:
  assumes "moduleid_low s = 0" "moduleid_high s = 0" "\<And>n n' f. (n, n', f) \<in> set tfs \<Longrightarrow> msgid_of (p_protocol s) f \<noteq> 0"
  shows "recv_frames cp tfs s = Some s"
  using assms(3)
proof (induction tfs)
  case (Cons tf tfs)
  obtain n n' f where tf: "tf = (n, n', f)" by (cases tf)
  have "recv_frames cp tfs s = Some s" by (rule Cons.IH) (use Cons.prems in auto)
  moreover have "msgid_of (p_protocol s) f \<noteq> 0" using Cons.prems [of n n' f] tf by simp
  ultimately show ?case by (simp add: tf aborted_ignores [OF assms(1,2)])
qed simp

text \<open>A consecutive frame whose index is above the expected one, as after a lost frame, ends
  the response: nothing is delivered, now or by any later frame from a module with a
  non-zero id.\<close>

theorem lost_frame_aborts:
  assumes "expects i s" "on_wire i f fr" "now < wait_timeout s" "i_type i \<noteq> 0"
    and "fr ! 0 = 0x20 + of_nat j" "mlframe s = of_nat k" "k mod 16 < j" "j < 16"
    and "\<forall>(n, n', g) \<in> set tfs. msgid_of (i_proto i) g \<noteq> 0"
  shows "\<exists>s'. recv_frames cp ((now, now', f) # tfs) s = Some s' \<and> outs s' = outs s"
proof -
  obtain s' where s': "Incoming True cp now now' f s = Some (True, s')" "outs s' = outs s" "moduleid_low s' = 0" "moduleid_high s' = 0"
    "p_protocol s' = p_protocol s"
    using high_index_aborts [OF assms(1-8)] by blast
  have "p_protocol s' = i_proto i"
    using s'(5) assms(1) by (simp add: expects_def)
  then have "recv_frames cp tfs s' = Some s'"
    using aborted_ignores_all [OF s'(3,4), of tfs cp] assms(9) by fastforce
  then show ?thesis using s' by simp
qed

theorem lost_frame_aborts_witness:
  "\<exists>s'. recv_frames True
      [(100, 105, \<lparr>pf_origin = 1, pf_ext = False, pf_id = 0x77A, pf_data = [0x22, 11, 12, 13, 14, 15, 16, 17]\<rparr>), (110, 115, \<lparr>pf_origin = 1, pf_ext = False, pf_id = 0x77A, pf_data = [0x23, 18, 19, 20, 21, 22, 23, 24]\<rparr>)]
      (idle_poller\<lparr>p_type := 0x22, p_pid := 0x1234, moduleid_sent := 0x710, moduleid_low := 0x77A, moduleid_high := 0x77A,
        e_txmoduleid := 0x710, wait_timeout := 1000, mlframe := 1, mlremain := 20\<rparr>) = Some s' \<and> outs s' = []"
proof -
  have "\<exists>s'. recv_frames True [(100, 105, \<lparr>pf_origin = 1, pf_ext = False, pf_id = 0x77A, pf_data = [0x22, 11, 12, 13, 14, 15, 16, 17]\<rparr>), (110, 115, \<lparr>pf_origin = 1, pf_ext = False, pf_id = 0x77A, pf_data = [0x23, 18, 19, 20, 21, 22, 23, 24]\<rparr>)]
      (idle_poller\<lparr>p_type := 0x22, p_pid := 0x1234, moduleid_sent := 0x710, moduleid_low := 0x77A, moduleid_high := 0x77A,
        e_txmoduleid := 0x710, wait_timeout := 1000, mlframe := 1, mlremain := 20\<rparr>) = Some s' \<and> outs s' = outs (idle_poller\<lparr>p_type := 0x22, p_pid := 0x1234, moduleid_sent := 0x710, moduleid_low := 0x77A, moduleid_high := 0x77A,
        e_txmoduleid := 0x710, wait_timeout := 1000, mlframe := 1, mlremain := 20\<rparr>)"
    by (rule lost_frame_aborts [where i = "\<lparr>i_proto = 0, i_bus = 1, i_low = 0x77A, i_high = 0x77A, i_sent = 0x710, i_type = 0x22, i_pid = 0x1234\<rparr>" and j = 2 and k = 1 and fr = "[0x22, 11, 12, 13, 14, 15, 16, 17]"])
      (simp_all add: expects_def idle_poller_def answerable_def has_8bit_pid_def has_no_pid_def has_16bit_pid_def on_wire_def i_maxlen_def i_start_def msgid_of_def padded_def response_head_def)
  then show ?thesis by (simp add: idle_poller_def)
qed

text \<open>A consecutive frame with the expected index or any lower one is taken as the next one: a
  frame received twice is delivered twice, and after a lost frame number 15 of every 16 the rest of
  the response is put together without it.\<close>

theorem stale_frame_accepted:
  assumes "expects i s" "on_wire i f (padded (i_maxlen i) p ((0x20 + of_nat j) # chunk))" "now < wait_timeout s"
    and "answerable (i_type i) (i_pid i)" "mlframe s = of_nat k" "j \<le> k mod 16"
    and "length chunk = min (i_maxlen i - 1) (unat (mlremain s))" "mlremain s \<noteq> 0"
  shows "\<exists>pk s'. Incoming True cp now now' f s = Some (True, s') \<and> pk_data pk = chunk \<and> pk_frame pk = mlframe s \<and>
    (outs s' = outs s @ [Packet pk] \<or> outs s' = outs s @ [Packet pk, QueueSend]) \<and>
    unat (mlremain s') = unat (mlremain s) - length chunk"
proof -
  let ?rest = "chunk @ replicate (unat (mlremain s) - length chunk) 0"
  have "i_maxlen i = 7 \<or> i_maxlen i = 8" by (auto simp: i_maxlen_def)
  then have tk: "take (i_maxlen i - 1) ?rest = chunk" using assms(7) by auto
  have rem: "unat (mlremain s) = length ?rest" "?rest \<noteq> []" using assms(7,8) by (auto simp: unat_eq_zero)
  have fr: "padded (i_maxlen i) p ((0x20 + of_nat j) # chunk) =
    padded (i_maxlen i) p ((0x20 + of_nat j) # take (i_maxlen i - 1) ?rest)" unfolding tk ..
  have len: "length (drop (i_maxlen i - 1) ?rest) = unat (mlremain s) - length chunk"
    using assms(7) rem(1) by (auto simp: min_def)
  obtain pk s' where "Incoming True cp now now' f s = Some (True, s')" "pk_data pk = chunk" "pk_frame pk = mlframe s"
    and out: "if drop (i_maxlen i - 1) ?rest = []
     then (outs s' = outs s @ [Packet pk] \<or> outs s' = outs s @ [Packet pk, QueueSend]) \<and> wait_timeout s' = 0 \<and> mlremain s' = 0
     else outs s' = outs s @ [Packet pk] \<and> expects i s' \<and> unat (mlremain s') = length (drop (i_maxlen i - 1) ?rest) \<and>
       mlframe s' = mlframe s + 1 \<and> wait_timeout s' = 1000 + now'"
    using cf_step [OF assms(1,2,3,4) fr rem assms(5,6)] unfolding tk by blast
  moreover have "(outs s' = outs s @ [Packet pk] \<or> outs s' = outs s @ [Packet pk, QueueSend]) \<and> unat (mlremain s') = unat (mlremain s) - length chunk"
  proof (cases "drop (i_maxlen i - 1) ?rest = []")
    case True
    then have "unat (mlremain s) - length chunk = 0" using len by (metis list.size(3))
    then show ?thesis using out True by simp
  next
    case False
    then show ?thesis using out unfolding if_not_P [OF False] len by blast
  qed
  ultimately show ?thesis by blast
qed

theorem stale_frame_accepted_witness:
  "\<exists>(pk :: packet) s'. Incoming True True 100 105 \<lparr>pf_origin = 1, pf_ext = False, pf_id = 0x77A, pf_data = [0x20, 11, 12, 13, 14, 15, 16, 17]\<rparr> (idle_poller\<lparr>p_type := 0x22, p_pid := 0x1234, moduleid_sent := 0x710, moduleid_low := 0x77A, moduleid_high := 0x77A,
        e_txmoduleid := 0x710, wait_timeout := 1000, mlframe := 15, mlremain := 20\<rparr>) = Some (True, s') \<and>
    pk_data pk = [11, 12, 13, 14, 15, 16, 17] \<and> unat (mlremain s') = 13"
proof -
  let ?s = "idle_poller\<lparr>p_type := 0x22, p_pid := 0x1234, moduleid_sent := 0x710, moduleid_low := 0x77A, moduleid_high := 0x77A,
        e_txmoduleid := 0x710, wait_timeout := 1000, mlframe := 15, mlremain := 20\<rparr>" and ?i = "\<lparr>i_proto = 0, i_bus = 1, i_low = 0x77A, i_high = 0x77A, i_sent = 0x710, i_type = 0x22, i_pid = 0x1234\<rparr>"
  let ?c = "[11, 12, 13, 14, 15, 16, 17] :: bytes"
  have "expects ?i ?s" "on_wire ?i \<lparr>pf_origin = 1, pf_ext = False, pf_id = 0x77A, pf_data = [0x20, 11, 12, 13, 14, 15, 16, 17]\<rparr> (padded (i_maxlen ?i) 0 ((0x20 + of_nat 0) # ?c))" "100 < wait_timeout ?s"
    "answerable (i_type ?i) (i_pid ?i)" "mlframe ?s = of_nat 15" "0 \<le> (15::nat) mod 16"
    "length ?c = min (i_maxlen ?i - 1) (unat (mlremain ?s))" "mlremain ?s \<noteq> 0"
    by (simp_all add: expects_def idle_poller_def answerable_def has_8bit_pid_def has_no_pid_def has_16bit_pid_def on_wire_def i_maxlen_def i_start_def msgid_of_def padded_def response_head_def)
  from stale_frame_accepted [OF this, of True 105] obtain pk :: packet and s' where "Incoming True True 100 105 \<lparr>pf_origin = 1, pf_ext = False, pf_id = 0x77A, pf_data = [0x20, 11, 12, 13, 14, 15, 16, 17]\<rparr> ?s = Some (True, s')"
    "pk_data pk = ?c" "unat (mlremain s') = unat (mlremain ?s) - length ?c"
    by blast
  then show ?thesis by (intro exI [of _ pk] exI [of _ s']) (simp add: idle_poller_def)
qed

lemma wrapped_len: "\<forall>n \<in> {0, 1, 2::nat}. \<forall>h \<in> {1, 2, 3::nat}. n < h \<longrightarrow> unat (ucast (ucast (of_nat n :: u8) - of_nat h :: u16) :: u8) > 8"
proof -
  have "unat (ucast (w :: u16) :: u8) > 8 \<longleftrightarrow> uint w mod 256 > 8" for w
  proof -
    have "uint (ucast w :: u8) = uint w mod 256" by (simp add: unsigned_ucast_eq take_bit_eq_mod)
    moreover have "int (unat (ucast w :: u8)) = uint (ucast w :: u8)" by simp
    ultimately show ?thesis by linarith
  qed
  then show ?thesis by (simp add: uint_word_ariths)
qed

text \<open>A single frame that announces fewer bytes than the head of the response it carries makes the
  payload length wrap around, and the poller reads outside the frame.\<close>

theorem short_response_overreads:
  assumes "expects i s" "on_wire i f fr" "now < wait_timeout s" "answerable (i_type i) (i_pid i)"
    and "fr ! 0 = of_nat n" "n < length (response_head (i_type i) (i_pid i))"
    and "take (length (response_head (i_type i) (i_pid i))) (drop 1 fr) = response_head (i_type i) (i_pid i)"
  shows "Incoming True cp now now' f s = None"
proof -
  let ?hd = "response_head (i_type i) (i_pid i)" and ?m = "msgid_of (i_proto i) f" and ?s0 = "s\<lparr>raw_data := (0, 8)\<rparr>"
  have L: "i_maxlen i = 7 \<or> i_maxlen i = 8" by (auto simp: i_maxlen_def)
  have n: "n < 3" "length ?hd \<le> 3" using assms(6) header_length(2) [of "i_type i" "i_pid i"] by simp_all
  have pci: "drop_bit 4 (fr ! 0) = 0" "fr ! 0 AND 0x0f = of_nat n" using single_pci [of n] n(1) by (simp_all add: assms(5))
  have drop: "drop (i_start i) (pf_data f) = fr" using assms(2) by (simp add: on_wire_def)
  have e0: "expects i ?s0" using assms(1) by (simp add: expects_def)
  note st = expects_start [OF e0]
  let ?tp = "tp_header ISOTP_FT_SINGLE f ?s0"
  have tp: "tp_pos ?tp = i_start i + 1" "tp_datalen ?tp = of_nat n"
    unfolding tp_header_def Let_def st drop pci by simp_all
  let ?s1 = "?s0\<lparr>raw_data := (tp_pos ?tp, tp_datalen ?tp)\<rparr>"
  let ?u = "uds_header ISOTP_FT_SINGLE ?tp f ?s1"
  have pt: "p_type ?s1 = i_type i" "p_pid ?s1 = i_pid i" using assms(1) by (simp_all add: expects_def)
  have room: "1 + length ?hd \<le> i_maxlen i" using L n by auto
  have ft: "ISOTP_FT_SINGLE \<noteq> ISOTP_FT_CONSECUTIVE" by simp
  note u = uds_header_head [OF assms(2,4) pt ft tp(1) assms(7) room]
  have "unat (ucast (u_datalen ?u) :: u8) > 8"
  proof -
    have h: "length ?hd \<in> {1, 2, 3}" by (simp add: head_length)
    have k: "n \<in> {0, 1, 2}" using n(1) by auto
    note wrapped_len [THEN bspec, THEN bspec, THEN mp, OF k h assms(6)]
    moreover have "u_datalen ?u = ucast (of_nat n :: u8) - of_nat (length ?hd)" using u(5) tp(2) by simp
    ultimately show ?thesis by simp
  qed
  then have "rdn (pf_data f) (u_pos ?u) (unat (ucast (u_datalen ?u) :: u8)) = None"
    using assms(2) by (simp add: rdn_def on_wire_def)
  then have "recv_response cp now' ISOTP_FT_SINGLE f ?m ?s0 = None"
    using u(1-3) pt unfolding recv_response_def Let_def by simp
  then show ?thesis
    unfolding incoming_receive [OF assms(1-3) answerable_def [THEN iffD1, OF assms(4), THEN conjunct1]] pci(1) Let_def by simp
qed

theorem short_response_overreads_witness:
  "Incoming True True 100 105 \<lparr>pf_origin = 1, pf_ext = False, pf_id = 0x77A, pf_data = [2, 0x62, 0x12, 0x34, 0, 0, 0, 0]\<rparr> (idle_poller\<lparr>p_type := 0x22, p_pid := 0x1234, moduleid_sent := 0x710, moduleid_low := 0x77A, moduleid_high := 0x77A,
        e_txmoduleid := 0x710, wait_timeout := 1000\<rparr>) = None"
  by (rule short_response_overreads [where i = "\<lparr>i_proto = 0, i_bus = 1, i_low = 0x77A, i_high = 0x77A, i_sent = 0x710, i_type = 0x22, i_pid = 0x1234\<rparr>" and n = 2 and fr = "[2, 0x62, 0x12, 0x34, 0, 0, 0, 0]"])
    (simp_all add: expects_def idle_poller_def answerable_def has_8bit_pid_def has_no_pid_def has_16bit_pid_def on_wire_def i_maxlen_def i_start_def msgid_of_def padded_def response_head_def)

end
