(* ===== verification/IsoTpRequest.thy ===== *)
theory IsoTpRequest
  imports IsoTpResponse
begin

section \<open>ISO-TP: requests are sent whole\<close>

text \<open>
  The frames \<open>PollerISOTPStart\<close> and the answers to flow control frames write are the segmentation
  of the request (\<open>isotp_frames\<close> with fill byte 0x55), as far as the module has asked for it.
\<close>

subsection \<open>Consecutive frames\<close>

definition sending :: "nat \<Rightarrow> bytes \<Rightarrow> poller \<Rightarrow> bool" where
  "sending k rest s \<longleftrightarrow> tx_frame s = of_nat k \<and> unat (tx_remain s) = length rest \<and>
     unat (tx_offset s) + length rest \<le> length (tx_data s) \<and> unat (tx_offset s) + length rest < 65536 \<and>
     take (length rest) (drop (unat (tx_offset s)) (tx_data s)) = rest"

text \<open>How many of \<open>N\<close> consecutive frames a flow control frame with block size \<open>c\<close> asks for.\<close>

definition block :: "u8 \<Rightarrow> nat \<Rightarrow> nat" where
  "block c N = (if c = 0 then N else min (unat c) N)"

lemma sending_step:
  assumes "sending k rest s" "0 < m"
  defines "n \<equiv> min (length rest) m"
  shows "rdn (tx_data s) (unat (tx_offset s)) n = Some (take m rest)"
    "sending (k + 1) (drop m rest) (s\<lparr>tx_frame := tx_frame s + 1, tx_offset := tx_offset s + of_nat n, tx_remain := tx_remain s - of_nat n\<rparr>)"
proof -
  have r: "unat (tx_remain s) = length rest" "unat (tx_offset s) + length rest \<le> length (tx_data s)"
    "unat (tx_offset s) + length rest < 65536" "take (length rest) (drop (unat (tx_offset s)) (tx_data s)) = rest"
    "tx_frame s = of_nat k"
    using assms(1) by (simp_all add: sending_def)
  have "take n (drop (unat (tx_offset s)) (tx_data s)) = take m (take (length rest) (drop (unat (tx_offset s)) (tx_data s)))"
    by (simp add: n_def min.commute)
  then show "rdn (tx_data s) (unat (tx_offset s)) n = Some (take m rest)"
    using r by (simp add: rdn_def n_def)
  have un: "unat (of_nat n :: u16) = n" using r(3) by (intro unat_word_of_nat_u16) (simp add: n_def)
  have off: "unat (tx_offset s + of_nat n) = unat (tx_offset s) + n"
    using r(3) un by (subst unat_add_lem [THEN iffD1]) (simp_all add: n_def)
  have rem: "unat (tx_remain s - of_nat n) = length rest - n"
    using r(1) un by (subst unat_sub) (simp_all add: word_le_nat_alt n_def)
  have "drop (unat (tx_offset s) + n) (tx_data s) = drop n (drop (unat (tx_offset s)) (tx_data s))" by (simp add: add.commute)
  moreover have "take (length rest - n) (drop n (drop (unat (tx_offset s)) (tx_data s))) = drop n rest"
    using r(4) by (metis drop_take)
  moreover have "drop n rest = drop m rest" by (simp add: n_def min_def)
  moreover have "length rest - n = length (drop m rest)" by (simp add: n_def)
  ultimately show "sending (k + 1) (drop m rest) (s\<lparr>tx_frame := tx_frame s + 1, tx_offset := tx_offset s + of_nat n, tx_remain := tx_remain s - of_nat n\<rparr>)"
    using r unfolding sending_def by (simp add: off rem) (auto simp: n_def min_def)
qed

lemma sending_same:
  "tx_frame t = tx_frame s \<Longrightarrow> tx_remain t = tx_remain s \<Longrightarrow> tx_offset t = tx_offset s \<Longrightarrow> tx_data t = tx_data s \<Longrightarrow>
   sending k rest t = sending k rest s"
  by (simp add: sending_def)

lemma frame_to_cong: "p_protocol t = p_protocol s \<Longrightarrow> frame_to t = frame_to s"
  by (simp add: frame_to_def tx_msgid_def fun_eq_iff)

text \<open>What sending leaves alone.\<close>

definition same_poll :: "poller \<Rightarrow> poller \<Rightarrow> bool" where
  "same_poll s t \<longleftrightarrow> p_protocol t = p_protocol s \<and> m_bus t = m_bus s \<and> moduleid_sent t = moduleid_sent s \<and>
     moduleid_low t = moduleid_low s \<and> moduleid_high t = moduleid_high s \<and> p_type t = p_type s \<and> p_pid t = p_pid s \<and>
     e_txmoduleid t = e_txmoduleid s \<and> wait_timeout t = wait_timeout s"

lemma writes_sleep [simp]: "writes (Sleep n # l) = writes l"
  by (simp add: writes_def)

lemma separation_outs:
  "writes (outs (separation st s)) = writes (outs s)" "same_poll s (separation st s)"
  "sending k rest (separation st s) = sending k rest s"
  by (auto simp: separation_def emit_def same_poll_def sending_def)

lemma same_poll_trans: "same_poll s t \<Longrightarrow> same_poll t u \<Longrightarrow> same_poll s u"
  by (simp add: same_poll_def)

lemma cf_frames_drop:
  "1 < n \<Longrightarrow> drop j (cf_frames n p k d) = cf_frames n p (k + j) (drop (j * (n - 1)) d)"
proof (induction j arbitrary: k d)
  case (Suc j)
  show ?case
  proof (cases "d = []")
    case False
    have "drop (Suc j) (cf_frames n p k d) = drop j (cf_frames n p (k + 1) (drop (n - 1) d))"
      by (simp add: cf_frames_step [OF False Suc.prems])
    also have "\<dots> = cf_frames n p (k + 1 + j) (drop (j * (n - 1)) (drop (n - 1) d))" by (rule Suc.IH [OF Suc.prems])
    finally show ?thesis by (simp add: add.commute)
  qed simp
qed simp

lemma block_step:
  "block c (Suc N) = (if c = 1 \<or> N = 0 then 1 else Suc (block (if c > 0 then c - 1 else c) N))"
proof (cases "c = 0")
  case False
  then have "unat (c - 1) = unat c - 1" "0 < unat c" by (simp_all add: unat_minus_one unat_gt_0)
  moreover have "c = 1 \<longleftrightarrow> unat c = 1" by (simp add: word_unat_eq_iff)
  moreover have "c - 1 = 0 \<longleftrightarrow> c = 1" by simp
  ultimately show ?thesis using False by (auto simp: block_def word_neq_0_conv)
qed (simp add: block_def)

lemma cf_pci_bytes:
  assumes "n = (of_nat k :: u16)"
  shows "(push_bit 4 ISOTP_FT_CONSECUTIVE + ucast ((n + 1) AND 0x0f) :: u8) = 0x20 + of_nat ((k + 1) mod 16)"
proof -
  have "(n + 1) AND 0x0f = ucast (of_nat ((k + 1) mod 16) :: u8)" using frame_index [of "k + 1"] assms by (simp add: add.commute)
  moreover have "ucast (ucast (of_nat ((k + 1) mod 16) :: u8) :: u16) = (of_nat ((k + 1) mod 16) :: u8)"
    by (intro word_unat_eq_iff [THEN iffD2]) (simp add: unat_word_of_nat_u8 unsigned_ucast_eq take_bit_eq_mod)
  ultimately show ?thesis by simp
qed

lemma send_step:
  assumes "sending k rest s" "rest \<noteq> []"
  defines "fr \<equiv> padded (fr_maxlen s) 0x55 ((0x20 + of_nat ((k + 1) mod 16)) # take (fr_maxlen s - 1) rest)"
  shows "\<exists>s1. send_frames origin txid cnt st s =
      (if drop (fr_maxlen s - 1) rest = [] \<or> cnt = 1 then Some s1
       else send_frames origin txid (if cnt > 0 then cnt - 1 else cnt) st (separation st s1)) \<and>
    sending (k + 1) (drop (fr_maxlen s - 1) rest) s1 \<and> same_poll s s1 \<and> writes (outs s1) = writes (outs s) @ [frame_to s origin txid fr]"
proof -
  let ?m = "fr_maxlen s - 1" and ?n = "min (unat (tx_remain s)) (fr_maxlen s - 1)"
  have r: "unat (tx_remain s) = length rest" "tx_frame s = of_nat k" using assms(1) by (simp_all add: sending_def)
  then have nz: "tx_remain s \<noteq> 0" using assms(2) by auto
  have m: "0 < ?m" by (simp add: fr_maxlen_def)
  note step = sending_step [OF assms(1) m, folded r(1)]
  let ?s1 = "emit (Write (frame_to s origin txid fr))
    (s\<lparr>tx_frame := tx_frame s + 1, tx_offset := tx_offset s + of_nat ?n, tx_remain := tx_remain s - of_nat ?n\<rparr>)"
  have s1: "sending (k + 1) (drop ?m rest) ?s1" using step(2) by (simp add: sending_def emit_def)
  have "unat (tx_remain ?s1) = length (drop ?m rest)" using s1 by (simp only: sending_def)
  then have z: "tx_remain ?s1 = 0 \<longleftrightarrow> drop ?m rest = []" by (metis length_0_conv unat_eq_zero)
  have c: "(cnt > 0 \<and> cnt - 1 = 0) \<longleftrightarrow> cnt = 1" by (auto simp: word_neq_0_conv)
  have w: "pad_to (fr_maxlen s) ((push_bit 4 ISOTP_FT_CONSECUTIVE + ucast ((tx_frame s + 1) AND 0x0f)) # take ?m rest) = fr"
    unfolding cf_pci_bytes [OF r(2)] fr_def by (simp add: pad_to_def padded_def)
  have "send_frames origin txid cnt st s =
    (if tx_remain ?s1 = 0 then Some ?s1 else if cnt > 0 \<and> cnt - 1 = 0 then Some ?s1
     else send_frames origin txid (if cnt > 0 then cnt - 1 else cnt) st (separation st ?s1))"
    using nz by (subst send_frames.simps) (simp only: Let_def step(1) option.case w nz if_False)
  then have "send_frames origin txid cnt st s =
      (if drop ?m rest = [] \<or> cnt = 1 then Some ?s1
       else send_frames origin txid (if cnt > 0 then cnt - 1 else cnt) st (separation st ?s1))"
    unfolding z c by simp
  moreover have "same_poll s ?s1" "writes (outs ?s1) = writes (outs s) @ [frame_to s origin txid fr]"
    by (simp_all add: same_poll_def emit_def)
  ultimately show ?thesis using s1 by blast
qed

lemma same_poll_frames: "same_poll s t \<Longrightarrow> fr_maxlen t = fr_maxlen s \<and> frame_to t = frame_to s"
  by (auto simp: same_poll_def fr_maxlen_def intro!: frame_to_cong)

lemma frames_sent:
  assumes "sending k rest s" "rest \<noteq> []"
  shows "\<exists>s' j. send_frames origin txid cnt st s = Some s' \<and> same_poll s s' \<and>
    j = block cnt (length (cf_frames (fr_maxlen s) 0x55 (k + 1) rest)) \<and>
    writes (outs s') = writes (outs s) @ map (frame_to s origin txid) (take j (cf_frames (fr_maxlen s) 0x55 (k + 1) rest)) \<and>
    sending (k + j) (drop (j * (fr_maxlen s - 1)) rest) s'"
  using assms
proof (induction "length rest" arbitrary: k rest s cnt rule: less_induct)
  case less
  let ?L = "fr_maxlen s"
  let ?rest = "drop (?L - 1) rest" and ?fr = "padded ?L 0x55 ((0x20 + of_nat ((k + 1) mod 16)) # take (?L - 1) rest)"
  have L: "1 < ?L" by (simp add: fr_maxlen_def)
  let ?F = "cf_frames ?L 0x55 (k + 2) ?rest"
  have fs: "cf_frames ?L 0x55 (k + 1) rest = ?fr # ?F"
    using cf_frames_step [OF less.prems(2) L, of "0x55" "k + 1"] by (simp add: numeral_2_eq_2)
  obtain s1 where go: "send_frames origin txid cnt st s =
      (if ?rest = [] \<or> cnt = 1 then Some s1 else send_frames origin txid (if cnt > 0 then cnt - 1 else cnt) st (separation st s1))"
    and s1: "sending (k + 1) ?rest s1" "same_poll s s1" "writes (outs s1) = writes (outs s) @ [frame_to s origin txid ?fr]"
    using send_step [OF less.prems, of origin txid cnt st] by blast
  have N: "?rest = [] \<longleftrightarrow> length ?F = 0" using cf_frames_step [of ?rest ?L "0x55" "k + 2"] L by (cases "?rest = []") auto
  show ?case
  proof (cases "?rest = [] \<or> cnt = 1")
    case True
    then have "block cnt (Suc (length ?F)) = 1" unfolding N by (auto simp: block_step)
    then show ?thesis using go True s1 unfolding fs by (intro exI [of _ s1] exI [of _ 1]) simp
  next
    case False
    let ?c = "if cnt > 0 then cnt - 1 else cnt" and ?s2 = "separation st s1"
    have s2: "sending (k + 1) ?rest ?s2" "same_poll s ?s2" "writes (outs ?s2) = writes (outs s) @ [frame_to s origin txid ?fr]"
      using s1 same_poll_trans [OF s1(2) separation_outs(2)] by (simp_all add: separation_outs)
    have L2: "fr_maxlen ?s2 = ?L" "frame_to ?s2 = frame_to s" using same_poll_frames [OF s2(2)] by simp_all
    have short: "length ?rest < length rest" using less.prems(2) L by (cases rest) auto
    have ne: "?rest \<noteq> []" using False by simp
    have k2: "k + 1 + 1 = k + 2" by simp
    obtain s' j where ih: "send_frames origin txid ?c st ?s2 = Some s'" "same_poll ?s2 s'" "j = block ?c (length ?F)"
      "writes (outs s') = writes (outs ?s2) @ map (frame_to s origin txid) (take j ?F)"
      "sending (k + 1 + j) (drop (j * (?L - 1)) ?rest) s'"
      using less.hyps [OF short s2(1) ne, of ?c] unfolding L2 k2 by blast
    have b: "block cnt (Suc (length ?F)) = Suc j" using False ih(3) unfolding N by (simp add: block_step)
    have "sending (k + Suc j) (drop (Suc j * (?L - 1)) rest) s'" using ih(5) by (simp add: add.commute)
    moreover have "send_frames origin txid cnt st s = Some s'" using go False ih(1) by simp
    moreover have "same_poll s s'" by (rule same_poll_trans [OF s2(2) ih(2)])
    ultimately show ?thesis
      using ih(4) s2(3) b unfolding fs by (intro exI [of _ s'] exI [of _ "Suc j"]) simp
  qed
qed

subsection \<open>The request and its flow control\<close>

definition request_id :: "poller \<Rightarrow> poll_id" where
  "request_id s = \<lparr>i_proto = p_protocol s, i_bus = m_bus s, i_low = e_rxmoduleid s, i_high = e_rxmoduleid s, i_sent = e_txmoduleid s,
     i_type = p_type s, i_pid = p_pid s\<rparr>"

definition request_bytes :: "poller \<Rightarrow> bytes" where
  "request_bytes s = request_head s @ take (unat (args_len (e_args s))) (args_data (e_args s))"

lemma request_head_length: "0 < length (request_head s)" "length (request_head s) \<le> 3"
  by (simp_all add: request_head_def)

lemma single_byte: "unat (n :: u16) \<le> 7 \<Longrightarrow> (push_bit 4 ISOTP_FT_SINGLE + ucast n :: u8) = of_nat (unat n)"
  by (intro word_unat_eq_iff [THEN iffD2]) (simp add: unat_word_of_nat_u8 unsigned_ucast_eq take_bit_eq_mod)

lemma first_bytes:
  assumes "unat (n :: u16) \<le> 4095"
  shows "(push_bit 4 ISOTP_FT_FIRST + ucast (drop_bit 8 (n AND 0x0f00)) :: u8) = 0x10 + of_nat (unat n div 256)"
    "(ucast (n AND 0xff) :: u8) = of_nat (unat n mod 256)"
proof -
  have "drop_bit 8 (n AND 0x0f00) = take_bit 4 (drop_bit 8 n)"
    by (simp add: u16_eq_iff bit_simps all_less_16 all_less_8)
  moreover have "unat (take_bit 4 (drop_bit 8 n)) = unat n div 256"
    using assms by (simp only: unsigned_take_bit_eq unsigned_drop_bit_eq) (simp add: take_bit_eq_mod drop_bit_eq_div)
  ultimately have "unat (drop_bit 8 (n AND 0x0f00)) = unat n div 256" by simp
  moreover have "unat n div 256 < 256" using assms by simp
  ultimately have "(ucast (drop_bit 8 (n AND 0x0f00)) :: u8) = of_nat (unat n div 256)"
    by (intro word_unat_eq_iff [THEN iffD2]) (simp add: unat_word_of_nat_u8 unsigned_ucast_eq take_bit_eq_mod)
  then show "(push_bit 4 ISOTP_FT_FIRST + ucast (drop_bit 8 (n AND 0x0f00)) :: u8) = 0x10 + of_nat (unat n div 256)" by simp
  have "n AND 0xff = take_bit 8 n" by (simp add: u16_eq_iff bit_simps all_less_16 all_less_8)
  then have "unat (n AND 0xff) = unat n mod 256" by (simp only: unsigned_take_bit_eq) (simp add: take_bit_eq_mod)
  then show "(ucast (n AND 0xff) :: u8) = of_nat (unat n mod 256)"
    by (intro word_unat_eq_iff [THEN iffD2]) (simp add: unat_word_of_nat_u8 unsigned_ucast_eq take_bit_eq_mod)
qed

lemma start_sent:
  assumes "e_rxmoduleid s \<noteq> 0" "e_txmoduleid s \<noteq> 0" "unat (args_len (e_args s)) \<le> length (args_data (e_args s))"
    and "length (request_bytes s) \<le> 4095"
  defines "L \<equiv> fr_maxlen s"
  shows "\<exists>s1 fr rest. PollerISOTPStart now s = Some s1 \<and> isotp_frames L 0x55 (request_bytes s) = fr # cf_frames L 0x55 1 rest \<and>
    sending 0 rest s1 \<and> expects (request_id s) s1 \<and> wait_timeout s1 = 1000 + now \<and>
    writes (outs s1) = writes (outs s) @ [frame_to s (m_bus s) (e_txmoduleid s) fr]"
proof -
  let ?hd = "request_head s" and ?n = "args_len (e_args s)" and ?data = "args_data (e_args s)"
  let ?msg = "request_bytes s"
  have L: "L = 7 \<or> L = 8" by (simp add: L_def fr_maxlen_def)
  have len: "length ?msg = length ?hd + unat ?n" using assms(3) by (simp add: request_bytes_def)
  have hl: "length ?hd \<le> 3" by (rule request_head_length)
  let ?tp = "of_nat (length ?hd) + ?n"
  have uh: "unat (of_nat (length ?hd) :: u16) = length ?hd" using hl by (intro unat_word_of_nat_u16) simp
  have tp: "unat ?tp = length ?msg"
    using assms(4) uh len by (subst unat_add_lem [THEN iffD1]) simp_all
  let ?s = "s\<lparr>moduleid_sent := e_txmoduleid s, moduleid_low := e_rxmoduleid s, moduleid_high := e_rxmoduleid s\<rparr>"
  have mods: "request_modules s = ?s" using assms(1) by (simp add: request_modules_def)
  have inv: "fr_maxlen ?s = L" "request_head ?s = ?hd" "frame_to ?s = frame_to s"
    "e_args ?s = e_args s" "m_bus ?s = m_bus s" "moduleid_sent ?s = e_txmoduleid s"
    by (simp_all add: L_def fr_maxlen_def request_head_def) (rule frame_to_cong, simp)
  have pad: "pad_to L (fc @ ?hd @ d) = padded L 0x55 (fc @ ?hd @ d)" for fc d
    by (simp add: pad_to_def padded_def)
  define single where "single \<longleftrightarrow> length ?msg \<le> L - 1"
  define fc where "fc = (if single then [of_nat (length ?msg)] else [0x10 + of_nat (length ?msg div 256), of_nat (length ?msg mod 256)] :: bytes)"
  define sent where "sent = min (unat ?n) (L - length fc - length ?hd)"
  let ?fr = "padded L 0x55 (fc @ ?hd @ take sent ?data)"
  let ?rest = "take (unat ?n - sent) (drop sent ?data)"
  have rd: "rdn ?data 0 sent = Some (take sent ?data)" using assms(3) by (simp add: rdn_def sent_def)
  have single7: "unat ?tp \<le> 7" if single using that L tp by (auto simp: single_def)
  have fcd: "(if unat ?tp \<le> L - 1 then [push_bit 4 ISOTP_FT_SINGLE + ucast ?tp]
     else [push_bit 4 ISOTP_FT_FIRST + ucast (drop_bit 8 (?tp AND 0x0f00)), ucast (?tp AND 0xff)]) = fc"
  proof (cases single)
    case True
    then show ?thesis using single_byte [OF single7] unfolding fc_def tp single_def by simp
  next
    case False
    then show ?thesis using first_bytes [of ?tp] assms(4) unfolding fc_def tp single_def by simp
  qed
  let ?s1 = "emit (Write (frame_to s (m_bus s) (e_txmoduleid s) ?fr)) (SetPollWaiting now 1000
    (?s\<lparr>txmsgid := pf_id (frame_to s (m_bus s) (e_txmoduleid s) ?fr), tx_frame := 0, tx_data := ?data, tx_offset := of_nat sent,
        tx_remain := ?n - of_nat sent, mlframe := 0, mloffset := 0, mlremain := 0\<rparr>))"
  have go: "PollerISOTPStart now s = Some ?s1"
    unfolding PollerISOTPStart_def Let_def mods inv fcd sent_def [symmetric] rd Option.bind.bind_lunit pad
    by (simp only: poller.simps)
  have sn: "sent \<le> unat ?n" by (simp add: sent_def)
  have frames: "isotp_frames L 0x55 ?msg = ?fr # cf_frames L 0x55 1 ?rest"
  proof (cases single)
    case True
    then have "sent = unat ?n" using len by (auto simp: sent_def fc_def single_def)
    then show ?thesis
      unfolding isotp_frames_def if_P [OF True [unfolded single_def]] using True by (simp add: fc_def request_bytes_def)
  next
    case False
    then have s: "sent = L - 2 - length ?hd" using len L by (auto simp: sent_def fc_def single_def)
    have "take (L - 2) ?msg = ?hd @ take sent ?data" "drop (L - 2) ?msg = ?rest"
      using hl L sn unfolding s by (auto simp: request_bytes_def drop_take min_def)
    then show ?thesis unfolding isotp_frames_def if_not_P [OF False [unfolded single_def]] using False by (simp add: fc_def)
  qed
  have us: "unat (of_nat sent :: u16) = sent" using sn unat_u16_less [of ?n] by (intro unat_word_of_nat_u16) linarith
  have "unat (?n - of_nat sent) = unat ?n - sent" using sn us by (subst unat_sub) (simp_all add: word_le_nat_alt)
  then have "sending 0 ?rest ?s1"
    using us sn assms(3) unat_u16_less [of ?n] unfolding sending_def by (simp add: emit_def SetPollWaiting_def)
  moreover have "expects (request_id s) ?s1" using assms(2) by (simp add: expects_def request_id_def emit_def SetPollWaiting_def)
  moreover have "wait_timeout ?s1 = 1000 + now" "writes (outs ?s1) = writes (outs s) @ [frame_to s (m_bus s) (e_txmoduleid s) ?fr]"
    by (simp_all add: emit_def SetPollWaiting_def)
  ultimately show ?thesis using go frames by blast
qed

definition flow_bytes :: "u8 \<Rightarrow> u8 \<Rightarrow> bytes \<Rightarrow> bytes" where
  "flow_bytes cnt st fill = 0x30 # cnt # st # fill"

lemma flow_received:
  assumes "expects i s" "on_wire i f (flow_bytes cnt st fill)" "now < wait_timeout s" "i_type i \<noteq> 0"
  shows "Incoming True cp now now' f s =
    (case recv_flow_control now' f (s\<lparr>raw_data := (0, 8)\<rparr>) of
       None \<Rightarrow> None | Some (ret, s1) \<Rightarrow> Some (ret, s1\<lparr>raw_data := (0, 0)\<rparr>))"
proof -
  have "drop_bit 4 (flow_bytes cnt st fill ! 0) = 3" by (simp add: flow_bytes_def)
  then show ?thesis unfolding incoming_receive [OF assms] Let_def by simp
qed

lemma flow_step:
  assumes e: "expects i s" and w: "on_wire i f (flow_bytes cnt st fill)" and now: "now < wait_timeout s" and ty: "i_type i \<noteq> 0"
    and sent: "i_sent i \<noteq> 0x7df" and s: "sending k rest s" "rest \<noteq> []"
  defines "F \<equiv> cf_frames (i_maxlen i) 0x55 (k + 1) rest"
  shows "\<exists>s' j. Incoming True cp now now' f s = Some (True, s') \<and> j = block cnt (length F) \<and> expects i s' \<and>
    writes (outs s') = writes (outs s) @ map (frame_to s (i_bus i) (i_sent i)) (take j F) \<and>
    sending (k + j) (drop (j * (i_maxlen i - 1)) rest) s' \<and>
    (drop (j * (i_maxlen i - 1)) rest \<noteq> [] \<longrightarrow> wait_timeout s' = 1000 + now')"
proof -
  let ?s0 = "s\<lparr>raw_data := (0, 8)\<rparr>"
  have s0: "sending k rest ?s0" using s(1) by (simp add: sending_def)
  have e0: "expects i ?s0" using e by (simp add: expects_def)
  have L: "fr_maxlen ?s0 = i_maxlen i" "fr_start ?s0 = i_start i" using expects_start [OF e0] by simp_all
  have d: "drop (i_start i) (pf_data f) = flow_bytes cnt st fill" using w by (simp add: on_wire_def)
  have rid: "reply_id ?s0 f = i_sent i" "pf_origin f = i_bus i" using e w sent by (simp_all add: reply_id_def expects_def on_wire_def)
  have nz: "tx_remain ?s0 \<noteq> 0" using s by (auto simp: sending_def)
  have fz: "frame_to ?s0 = frame_to s" by (rule frame_to_cong) simp
  note fs = frames_sent [OF s0 s(2), of "i_bus i" "i_sent i" cnt st, unfolded L(1) fz, folded F_def]
  obtain s1 j where s1: "send_frames (i_bus i) (i_sent i) cnt st ?s0 = Some s1" "same_poll ?s0 s1" "j = block cnt (length F)"
      "writes (outs s1) = writes (outs ?s0) @ map (frame_to s (i_bus i) (i_sent i)) (take j F)"
      "sending (k + j) (drop (j * (i_maxlen i - 1)) rest) s1"
    using fs by blast
  let ?rest = "drop (j * (i_maxlen i - 1)) rest"
  let ?s2 = "if tx_remain s1 > 0 then SetPollWaiting now' 1000 s1 else s1"
  have "recv_flow_control now' f ?s0 = Some (True, ?s2)"
    unfolding recv_flow_control_def Let_def L(2) d rid using nz s1(1) by (simp add: flow_bytes_def)
  then have "Incoming True cp now now' f s = Some (True, ?s2\<lparr>raw_data := (0, 0)\<rparr>)"
    unfolding flow_received [OF e w now ty] by simp
  moreover have "expects i (?s2\<lparr>raw_data := (0, 0)\<rparr>)"
    using e s1(2) by (simp add: expects_def same_poll_def SetPollWaiting_def)
  moreover have "writes (outs (?s2\<lparr>raw_data := (0, 0)\<rparr>)) = writes (outs s1)" by (simp add: SetPollWaiting_def)
  moreover have "sending (k + j) ?rest (?s2\<lparr>raw_data := (0, 0)\<rparr>)"
    using s1(5) by (simp add: sending_def SetPollWaiting_def)
  moreover have "?rest \<noteq> [] \<longrightarrow> wait_timeout (?s2\<lparr>raw_data := (0, 0)\<rparr>) = 1000 + now'"
  proof
    assume ne: "?rest \<noteq> []"
    have "unat (tx_remain s1) = length ?rest" using s1(5) by (simp only: sending_def)
    then have "tx_remain s1 \<noteq> 0" using ne by auto
    then show "wait_timeout (?s2\<lparr>raw_data := (0, 0)\<rparr>) = 1000 + now'" by (simp add: SetPollWaiting_def word_neq_0_conv)
  qed
  moreover have "outs ?s0 = outs s" by simp
  ultimately show ?thesis using s1(3,4) by (intro exI [of _ "?s2\<lparr>raw_data := (0, 0)\<rparr>"] exI [of _ j]) (simp only: simp_thms)
qed

lemma flow_idle:
  assumes e: "expects i s" and w: "on_wire i f (flow_bytes cnt st fill)" and ty: "i_type i \<noteq> 0" and s: "tx_remain s = 0"
  shows "\<exists>ret s'. Incoming True cp now now' f s = Some (ret, s') \<and> expects i s' \<and> outs s' = outs s \<and> tx_remain s' = 0"
proof (cases "now < wait_timeout s")
  case True
  have "recv_flow_control now' f (s\<lparr>raw_data := (0, 8)\<rparr>) = Some (False, s\<lparr>raw_data := (0, 8)\<rparr>)"
    using s by (simp add: recv_flow_control_def Let_def)
  with flow_received [OF e w True ty, of cp now'] have "Incoming True cp now now' f s = Some (False, s\<lparr>raw_data := (0, 0)\<rparr>)"
    by simp
  then show ?thesis using e s by (intro exI [of _ False] exI [of _ "s\<lparr>raw_data := (0, 0)\<rparr>"]) (simp add: expects_def)
next
  case False
  then have "\<not> GetPollWaiting now s" by (simp add: GetPollWaiting_def)
  then have "Incoming True cp now now' f s = Some (False, s)" by (simp add: Incoming_def)
  then show ?thesis using e s by (intro exI [of _ False] exI [of _ s]) simp
qed

text \<open>The flow control frames of the module: block size and separation time of each.\<close>

definition grants :: "poll_id \<Rightarrow> (u32 \<times> u32 \<times> poll_frame) list \<Rightarrow> (u8 \<times> u8) list \<Rightarrow> bool" where
  "grants i tfs fcs \<longleftrightarrow> list_all2 (\<lambda>(now, now', f) (cnt, st). \<exists>fill. on_wire i f (flow_bytes cnt st fill)) tfs fcs"

fun granted :: "(u8 \<times> u8) list \<Rightarrow> nat \<Rightarrow> nat" where
  "granted [] N = 0"
| "granted ((cnt, st) # fcs) N = block cnt N + granted fcs (N - block cnt N)"

lemma granted_0 [simp]: "granted fcs 0 = 0"
  by (induction fcs) (auto simp: block_def)

lemma flows_idle:
  assumes "expects i s" "grants i tfs fcs" "i_type i \<noteq> 0" "tx_remain s = 0"
  shows "\<exists>s'. recv_frames cp tfs s = Some s' \<and> outs s' = outs s"
  using assms
proof (induction tfs arbitrary: s fcs)
  case (Cons tf tfs)
  obtain now now' f cnt st fill fcs' where tf: "tf = (now, now', f)" "on_wire i f (flow_bytes cnt st fill)" "grants i tfs fcs'"
    using Cons.prems(2) by (auto simp: grants_def list_all2_Cons1)
  obtain ret s1 where s1: "Incoming True cp now now' f s = Some (ret, s1)" "expects i s1" "outs s1 = outs s" "tx_remain s1 = 0"
    using flow_idle [OF Cons.prems(1) tf(2) Cons.prems(3,4)] by blast
  then show ?case using Cons.IH [OF s1(2) tf(3) Cons.prems(3) s1(4)] by (simp add: tf(1))
qed simp

lemma flows_received:
  assumes "expects i s" "grants i tfs fcs" "i_type i \<noteq> 0" "i_sent i \<noteq> 0x7df" "sending k rest s" "timely (wait_timeout s) tfs"
  defines "F \<equiv> cf_frames (i_maxlen i) 0x55 (k + 1) rest"
  shows "\<exists>s'. recv_frames cp tfs s = Some s' \<and>
    writes (outs s') = writes (outs s) @ map (frame_to s (i_bus i) (i_sent i)) (take (granted fcs (length F)) F)"
  using assms(1,2,5,6) unfolding F_def
proof (induction tfs arbitrary: s fcs k rest)
  case Nil
  then show ?case by (simp add: grants_def)
next
  case (Cons tf tfs)
  let ?F = "cf_frames (i_maxlen i) 0x55 (k + 1) rest"
  obtain now now' f cnt st fill fcs' where tf: "tf = (now, now', f)" "on_wire i f (flow_bytes cnt st fill)" "fcs = (cnt, st) # fcs'"
    "grants i tfs fcs'"
    using Cons.prems(2) by (auto simp: grants_def list_all2_Cons1)
  show ?case
  proof (cases "rest = []")
    case True
    then have "tx_remain s = 0" using Cons.prems(3) by (simp add: sending_def unat_eq_zero)
    then show ?thesis using flows_idle [OF Cons.prems(1,2) assms(3), of cp] True by auto
  next
    case False
    have t: "now < wait_timeout s" "timely (1000 + now') tfs" using Cons.prems(4) by (simp_all add: tf(1))
    let ?j = "block cnt (length ?F)"
    let ?rest = "drop (?j * (i_maxlen i - 1)) rest"
    obtain s1 where s1: "Incoming True cp now now' f s = Some (True, s1)" "expects i s1"
        "writes (outs s1) = writes (outs s) @ map (frame_to s (i_bus i) (i_sent i)) (take ?j ?F)"
        "sending (k + ?j) ?rest s1" "?rest \<noteq> [] \<longrightarrow> wait_timeout s1 = 1000 + now'"
      using flow_step [OF Cons.prems(1) tf(2) t(1) assms(3,4) Cons.prems(3) False] by blast
    have L: "1 < i_maxlen i" by (simp add: i_maxlen_def)
    have F: "cf_frames (i_maxlen i) 0x55 (k + ?j + 1) ?rest = drop ?j ?F"
      using cf_frames_drop [OF L, of ?j "0x55" "k + 1" rest] by (simp add: ac_simps)
    have fe: "frame_to s1 = frame_to s" using s1(2) Cons.prems(1) by (intro frame_to_cong) (simp add: expects_def)
    obtain s' where s': "recv_frames cp tfs s1 = Some s'"
      "writes (outs s') = writes (outs s1) @ map (frame_to s (i_bus i) (i_sent i)) (take (granted fcs' (length ?F - ?j)) (drop ?j ?F))"
    proof (cases "?rest = []")
      case True
      then have "tx_remain s1 = 0" using s1(4) by (simp add: sending_def unat_eq_zero)
      moreover have "drop ?j ?F = []" using F True by simp
      ultimately show ?thesis using flows_idle [OF s1(2) tf(4) assms(3), of cp] that by auto
    next
      case False
      then have "timely (wait_timeout s1) tfs" using s1(5) t(2) by simp
      from Cons.IH [OF s1(2) tf(4) s1(4) this] show ?thesis unfolding F fe length_drop using that by blast
    qed
    have "take ?j ?F @ take (granted fcs' (length ?F - ?j)) (drop ?j ?F) = take (granted fcs (length ?F)) ?F"
      by (simp add: tf(3) take_add)
    then show ?thesis using s1(1,3) s' by (simp add: tf(1) flip: map_append)
  qed
qed

text \<open>C21. A diagnostic request is sent whole.  For a poll of one module with a payload of the announced
  length, of at most 4095 bytes with its head, the poller writes the first frame of the request's
  segmentation at once; the flow control frames it receives in time, with any block sizes and
  separation times, let it write as many of the remaining frames as their block sizes
  grant (0 grants all), in order and without gaps, and further ones change nothing.\<close>

theorem request_sent:
  assumes "e_rxmoduleid s \<noteq> 0" "e_txmoduleid s \<noteq> 0" "e_txmoduleid s \<noteq> 0x7df" "p_type s \<noteq> 0"
    and "unat (args_len (e_args s)) \<le> length (args_data (e_args s))" "length (request_bytes s) \<le> 4095"
    and "grants (request_id s) tfs fcs" "timely (1000 + now) tfs"
  defines "F \<equiv> isotp_frames (fr_maxlen s) 0x55 (request_bytes s)"
  shows "\<exists>s1 s2. PollerISOTPStart now s = Some s1 \<and> recv_frames cp tfs s1 = Some s2 \<and>
    writes (outs s2) = writes (outs s) @ map (frame_to s (m_bus s) (e_txmoduleid s)) (take (Suc (granted fcs (length F - 1))) F)"
proof -
  let ?i = "request_id s"
  obtain s1 fr rest where s1: "PollerISOTPStart now s = Some s1" "F = fr # cf_frames (fr_maxlen s) 0x55 1 rest" "sending 0 rest s1"
    "expects ?i s1" "wait_timeout s1 = 1000 + now" "writes (outs s1) = writes (outs s) @ [frame_to s (m_bus s) (e_txmoduleid s) fr]"
    using start_sent [OF assms(1,2,5,6), of now] unfolding F_def by blast
  have i: "i_type ?i \<noteq> 0" "i_sent ?i \<noteq> 0x7df" "i_maxlen ?i = fr_maxlen s" "i_bus ?i = m_bus s" "i_sent ?i = e_txmoduleid s"
    using assms(3,4) by (simp_all add: request_id_def i_maxlen_def fr_maxlen_def)
  have "frame_to s1 = frame_to s" using s1(4) by (intro frame_to_cong) (simp add: expects_def request_id_def)
  moreover obtain s2 where "recv_frames cp tfs s1 = Some s2" "writes (outs s2) = writes (outs s1) @
      map (frame_to s1 (i_bus ?i) (i_sent ?i)) (take (granted fcs (length (cf_frames (i_maxlen ?i) 0x55 (0 + 1) rest))) (cf_frames (i_maxlen ?i) 0x55 (0 + 1) rest))"
    using flows_received [OF s1(4) assms(7) i(1,2) s1(3), of cp] assms(8) s1(5) by auto
  ultimately show ?thesis using s1(1,6) unfolding s1(2) i by simp
qed

theorem request_sent_witness:
  "\<exists>s1 s2. PollerISOTPStart 100 (idle_poller\<lparr>p_type := 0x2E, p_pid := 0x1234, e_type := 0x2E, e_txmoduleid := 0x710, e_rxmoduleid := 0x77A,
        e_args := XArgs 10 [1, 2, 3, 4, 5, 6, 7, 8, 9, 10]\<rparr>) = Some s1 \<and>
    recv_frames True [(110, 115, \<lparr>pf_origin = 1, pf_ext = False, pf_id = 0x77A, pf_data = [0x30, 0, 0, 0xAA, 0xAA, 0xAA, 0xAA, 0xAA]\<rparr>)] s1 = Some s2 \<and>
    writes (outs s2) = [\<lparr>pf_origin = 1, pf_ext = False, pf_id = 0x710, pf_data = [0x10, 13, 0x2E, 0x12, 0x34, 1, 2, 3]\<rparr>,
      \<lparr>pf_origin = 1, pf_ext = False, pf_id = 0x710, pf_data = [0x21, 4, 5, 6, 7, 8, 9, 10]\<rparr>]"
proof -
  let ?s = "idle_poller\<lparr>p_type := 0x2E, p_pid := 0x1234, e_type := 0x2E, e_txmoduleid := 0x710, e_rxmoduleid := 0x77A,
        e_args := XArgs 10 [1, 2, 3, 4, 5, 6, 7, 8, 9, 10]\<rparr>"
  have h: "request_bytes ?s = [0x2E, 0x12, 0x34, 1, 2, 3, 4, 5, 6, 7, 8, 9, 10]"
    by (simp add: request_bytes_def request_head_def has_16bit_pid_def args_len_def args_data_def)
  have "on_wire (request_id ?s) \<lparr>pf_origin = 1, pf_ext = False, pf_id = 0x77A, pf_data = [0x30, 0, 0, 0xAA, 0xAA, 0xAA, 0xAA, 0xAA]\<rparr> (flow_bytes 0 0 [0xAA, 0xAA, 0xAA, 0xAA, 0xAA])"
    by (simp add: on_wire_def i_maxlen_def i_start_def msgid_of_def request_id_def idle_poller_def flow_bytes_def)
  then have g: "grants (request_id ?s) [(110, 115, \<lparr>pf_origin = 1, pf_ext = False, pf_id = 0x77A, pf_data = [0x30, 0, 0, 0xAA, 0xAA, 0xAA, 0xAA, 0xAA]\<rparr>)] [(0, 0)]" unfolding grants_def list.rel_inject prod.case by (intro conjI exI) simp_all
  have F: "isotp_frames (fr_maxlen ?s) 0x55 (request_bytes ?s) =
    [[0x10, 13, 0x2E, 0x12, 0x34, 1, 2, 3], [0x21, 4, 5, 6, 7, 8, 9, 10]]"
    unfolding h by (simp add: isotp_frames_def fr_maxlen_def idle_poller_def cf_frames.simps padded_def)
  have "e_rxmoduleid ?s \<noteq> 0" "e_txmoduleid ?s \<noteq> 0" "e_txmoduleid ?s \<noteq> 0x7df" "p_type ?s \<noteq> 0"
    "unat (args_len (e_args ?s)) \<le> length (args_data (e_args ?s))" "length (request_bytes ?s) \<le> 4095"
    unfolding h by (simp_all add: args_len_def args_data_def)
  from request_sent [OF this g, of 100 True, unfolded F]
  obtain s1 s2 where "PollerISOTPStart 100 ?s = Some s1" "recv_frames True [(110, 115, \<lparr>pf_origin = 1, pf_ext = False, pf_id = 0x77A, pf_data = [0x30, 0, 0, 0xAA, 0xAA, 0xAA, 0xAA, 0xAA]\<rparr>)] s1 = Some s2"
    "writes (outs s2) = writes (outs ?s) @ map (frame_to ?s (m_bus ?s) (e_txmoduleid ?s))
      (take (Suc (granted [(0, 0)] 1)) [[0x10, 13, 0x2E, 0x12, 0x34, 1, 2, 3], [0x21, 4, 5, 6, 7, 8, 9, 10]])"
    by auto
  then show ?thesis by (intro exI [of _ s1] exI [of _ s2]) (simp add: idle_poller_def block_def frame_to_def tx_msgid_def)
qed

end
