(* ===== verification/Vwtp.thy ===== *)
theory Vwtp
  imports IsoTp
begin

unbundle bit_operations_syntax

section \<open>VW transport protocol 2.0: the channel of the poller\<close>

text \<open>
  The second transport of \<open>OvmsPoller\<close>, \<open>components/poller/src/vehicle_poller_vwtp.cpp\<close>, with the
  states and the channel struct of \<open>vehicle_poller.h\<close> and the entry points \<open>Incoming\<close> and
  \<open>Outgoing\<close> of \<open>vehicle_poller.cpp\<close>.  The record \<open>vwtp\<close> adds the channel \<open>m_poll_vwtp\<close> to the poller of
  IsoTp.  A written frame has the DLC as the length of its data; a received frame has eight data
  bytes, its DLC is an argument.  Bus 0 is the null pointer: writing to it, like an access outside a
  buffer, is \<open>None\<close>.

  The arguments \<open>now\<close> and \<open>now'\<close> are the uptime when a call begins and when it ends (between them lie
  the sleeps), \<open>can_poll\<close> and \<open>locked\<close> what the poll limiter and the mutex answer.
\<close>

abbreviation (input) VWTP_20 :: u32 where "VWTP_20 \<equiv> 20"

datatype vwtp_channelstate =
  VWTP_Closed | VWTP_ChannelClose | VWTP_ChannelSetup | VWTP_ChannelParams | VWTP_Idle
  | VWTP_StartPoll | VWTP_Transmit | VWTP_Receive | VWTP_AbortXfer

text \<open>The enum values, and the order the code compares them in.\<close>

primrec state_number :: "vwtp_channelstate \<Rightarrow> nat" where
  "state_number VWTP_Closed = 0"
| "state_number VWTP_ChannelClose = 1"
| "state_number VWTP_ChannelSetup = 2"
| "state_number VWTP_ChannelParams = 3"
| "state_number VWTP_Idle = 4"
| "state_number VWTP_StartPoll = 5"
| "state_number VWTP_Transmit = 6"
| "state_number VWTP_Receive = 7"
| "state_number VWTP_AbortXfer = 8"

instantiation vwtp_channelstate :: linorder
begin

definition less_eq_vwtp_channelstate :: "vwtp_channelstate \<Rightarrow> vwtp_channelstate \<Rightarrow> bool" where
  "less_eq_vwtp_channelstate s t \<longleftrightarrow> state_number s \<le> state_number t"

definition less_vwtp_channelstate :: "vwtp_channelstate \<Rightarrow> vwtp_channelstate \<Rightarrow> bool" where
  "less_vwtp_channelstate s t \<longleftrightarrow> state_number s < state_number t"

instance
proof
  fix x y :: vwtp_channelstate
  assume "x \<le> y" "y \<le> x"
  then have "state_number x = state_number y" by (simp add: less_eq_vwtp_channelstate_def)
  then show "x = y" by (cases x; cases y) simp_all
qed (auto simp: less_eq_vwtp_channelstate_def less_vwtp_channelstate_def)

end

record vwtp_channel =
  ch_state :: vwtp_channelstate
  ch_bus :: nat
  ch_baseid :: u16
  ch_moduleid :: u8
  ch_txid :: u16
  ch_rxid :: u16
  ch_blocksize :: u8
  ch_acktime :: u32
  ch_septime :: u32
  ch_txseqnr :: u32
  ch_rxseqnr :: u32
  ch_lastused :: u32

text \<open>\<open>e_pid\<close> is the PID of the poll entry, \<open>keepalive\<close> is \<open>m_poll_ch_keepalive\<close>.\<close>

record vwtp =
  v_poll :: poller
  e_pid :: u16
  ch :: vwtp_channel
  keepalive :: u16

definition closed_channel :: vwtp_channel where
  "closed_channel = \<lparr>ch_state = VWTP_Closed, ch_bus = 0, ch_baseid = 0, ch_moduleid = 0, ch_txid = 0, ch_rxid = 0,
     ch_blocksize = 0, ch_acktime = 0, ch_septime = 0, ch_txseqnr = 0, ch_rxseqnr = 0, ch_lastused = 0\<rparr>"

abbreviation vstate :: "vwtp \<Rightarrow> vwtp_channelstate" where "vstate v \<equiv> ch_state (ch v)"

definition on_poll :: "(poller \<Rightarrow> poller) \<Rightarrow> vwtp \<Rightarrow> vwtp" where
  "on_poll f v = v\<lparr>v_poll := f (v_poll v)\<rparr>"

definition on_ch :: "(vwtp_channel \<Rightarrow> vwtp_channel) \<Rightarrow> vwtp \<Rightarrow> vwtp" where
  "on_ch f v = v\<lparr>ch := f (ch v)\<rparr>"

lemma on_poll_fields [simp]:
  "v_poll (on_poll f v) = f (v_poll v)" "ch (on_poll f v) = ch v" "e_pid (on_poll f v) = e_pid v"
  "keepalive (on_poll f v) = keepalive v"
  by (simp_all add: on_poll_def)

lemma on_ch_fields [simp]:
  "v_poll (on_ch f v) = v_poll v" "ch (on_ch f v) = f (ch v)" "e_pid (on_ch f v) = e_pid v"
  "keepalive (on_ch f v) = keepalive v"
  by (simp_all add: on_ch_def)

definition set_state :: "vwtp_channelstate \<Rightarrow> vwtp \<Rightarrow> vwtp" where
  "set_state st = on_ch (\<lambda>c. c\<lparr>ch_state := st\<rparr>)"

definition touch :: "u32 \<Rightarrow> vwtp \<Rightarrow> vwtp" where
  "touch now = on_ch (\<lambda>c. c\<lparr>ch_lastused := now\<rparr>)"

text \<open>A frame on the channel: \<open>m_poll_vwtp.bus->Write(&txframe)\<close>.\<close>

definition channel_frame :: "vwtp_channel \<Rightarrow> bytes \<Rightarrow> poll_frame" where
  "channel_frame c d = \<lparr>pf_origin = ch_bus c, pf_ext = False, pf_id = ucast (ch_txid c), pf_data = d\<rparr>"

definition vw_write :: "bytes \<Rightarrow> vwtp \<Rightarrow> vwtp option" where
  "vw_write d v = (if ch_bus (ch v) = 0 then None else Some (on_poll (emit (Write (channel_frame (ch v) d))) v))"

text \<open>The ids an answer to the frame just prepared has.\<close>

definition expect_answer :: "vwtp \<Rightarrow> vwtp" where
  "expect_answer v =
     (let tx = ucast (ch_txid (ch v)); rx = ucast (ch_rxid (ch v)) in
      on_poll (\<lambda>p. p\<lparr>txmsgid := tx, moduleid_sent := tx, moduleid_low := rx, moduleid_high := rx\<rparr>) v)"

definition wait_2s :: "u32 \<Rightarrow> vwtp \<Rightarrow> vwtp" where
  "wait_2s now = on_poll (SetPollWaiting now 2000)"

subsection \<open>PollerVWTPEnter\<close>

definition enter_setup :: "u32 \<Rightarrow> vwtp \<Rightarrow> vwtp option" where
  "enter_setup now v =
     (let p = v_poll v in
      if p_protocol p \<noteq> VWTP_20 then Some v
      else
        let base = ucast (e_txmoduleid p) :: u16; m = ucast (e_rxmoduleid p) :: u8; offer = base + 0x100;
            v1 = on_ch (\<lambda>c. c\<lparr>ch_bus := m_bus p, ch_baseid := base, ch_moduleid := m,
                              ch_txid := base, ch_rxid := base + ucast m\<rparr>) v
        in vw_write [m, 0xC0, 0x00, 0x10, ucast (offer AND 0xff), ucast (drop_bit 8 offer), 0x01]
             (touch now (set_state VWTP_ChannelSetup (wait_2s now (expect_answer v1)))))"

definition enter_params :: "u32 \<Rightarrow> vwtp \<Rightarrow> vwtp option" where
  "enter_params now v =
     vw_write [0xA0, 0x0F, 0x8A, 0xFF, 0x0A, 0xFF] (set_state VWTP_ChannelParams (wait_2s now (expect_answer v)))"

definition enter_close :: "u32 \<Rightarrow> vwtp \<Rightarrow> vwtp option" where
  "enter_close now v = vw_write [0xA8] (set_state VWTP_ChannelClose (wait_2s now (expect_answer v)))"

definition enter_closed :: "vwtp \<Rightarrow> vwtp" where
  "enter_closed v = on_poll ResetPollWaiting (v\<lparr>ch := closed_channel\<rparr>)"

definition enter_idle :: "u32 \<Rightarrow> vwtp \<Rightarrow> vwtp" where
  "enter_idle now v = on_poll ResetPollWaiting (touch now (set_state VWTP_Idle v))"

text \<open>The head of the first frame behind its opcode: length, service type and PID.\<close>

definition pid_bytes :: "u16 \<Rightarrow> u16 \<Rightarrow> bytes" where
  "pid_bytes typ pid =
     (if has_16bit_pid (uint typ) then [ucast (drop_bit 8 pid), ucast (pid AND 0xff)]
      else if has_8bit_pid (uint typ) then [ucast (pid AND 0xff)] else [])"

definition first_head :: "vwtp \<Rightarrow> bytes" where
  "first_head v =
     (let p = v_poll v; pid = pid_bytes (e_type p) (e_pid v); txlen = tx_remain p + 1 + of_nat (length pid)
      in [ucast (drop_bit 8 txlen), ucast (txlen AND 0xff), ucast (e_type p)] @ pid)"

text \<open>The frames of a block; the argument counts the frames the block still has room for.\<close>

primrec send_block :: "nat \<Rightarrow> vwtp \<Rightarrow> vwtp option" where
  "send_block 0 v = Some v"
| "send_block (Suc n) v = do {
     let p = v_poll v;
     let hd = (if tx_frame p = 0 then first_head v else []);
     let k = min (unat (tx_remain p)) (7 - length hd);
     d \<leftarrow> rdn (tx_data p) (unat (tx_offset p)) k;
     let remain = tx_remain p - of_nat k;
     let opcode = (if remain = 0 then 0x10 else if n > 0 then 0x20 else 0x00 :: u8);
     let nr = ch_txseqnr (ch v);
     let v1 = on_poll (\<lambda>p. p\<lparr>tx_offset := tx_offset p + of_nat k, tx_remain := remain\<rparr>) v;
     let v2 = (if nr > 0 then on_poll (emit (Sleep (unat (ch_septime (ch v))))) v1 else v1);
     let v3 = on_poll (\<lambda>p. p\<lparr>tx_frame := tx_frame p + 1\<rparr>) (on_ch (\<lambda>c. c\<lparr>ch_txseqnr := nr + 1\<rparr>) v2);
     v4 \<leftarrow> vw_write ((opcode OR ucast (nr AND 0x0f)) # hd @ d) v3;
     if remain = 0 then Some v4 else send_block n v4 }"

definition enter_transmit :: "u32 \<Rightarrow> vwtp \<Rightarrow> vwtp option" where
  "enter_transmit now v = do {
     v1 \<leftarrow> send_block (unat (ch_blocksize (ch v))) v;
     Some (touch now (set_state VWTP_Transmit (wait_2s now (expect_answer v1)))) }"

definition start_poll :: "vwtp \<Rightarrow> vwtp" where
  "start_poll = on_poll (\<lambda>p. p\<lparr>tx_data := args_data (e_args p), tx_remain := args_len (e_args p), tx_frame := 0,
     tx_offset := 0, mlframe := 0, mloffset := 0, mlremain := 0\<rparr>)"

definition enter_receive :: "u32 \<Rightarrow> vwtp \<Rightarrow> vwtp" where
  "enter_receive now v = wait_2s now (touch now (set_state VWTP_Receive v))"

definition enter_abort :: "u32 \<Rightarrow> vwtp \<Rightarrow> vwtp option" where
  "enter_abort now v =
     (let c = ch v;
          (d, v1) = (if ch_state c = VWTP_Receive then (0x90 OR ucast (ch_rxseqnr c AND 0x0f), v)
                     else (0x30 OR ucast (ch_txseqnr c AND 0x0f), on_ch (\<lambda>c. c\<lparr>ch_txseqnr := ch_txseqnr c + 1\<rparr>) v));
          v2 = on_poll (\<lambda>p. p\<lparr>tx_remain := 0, mlremain := 0\<rparr>) (expect_answer v1)
      in vw_write [d :: u8] (on_poll ResetPollWaiting (touch now (set_state VWTP_Idle v2))))"

definition PollerVWTPEnter :: "u32 \<Rightarrow> vwtp_channelstate \<Rightarrow> vwtp \<Rightarrow> vwtp option" where
  "PollerVWTPEnter now st v =
     (if vstate v = st then Some v
      else case st of
        VWTP_ChannelSetup \<Rightarrow> enter_setup now v
      | VWTP_ChannelParams \<Rightarrow> enter_params now v
      | VWTP_ChannelClose \<Rightarrow> enter_close now v
      | VWTP_Closed \<Rightarrow> Some (enter_closed v)
      | VWTP_Idle \<Rightarrow> Some (enter_idle now v)
      | VWTP_StartPoll \<Rightarrow> enter_transmit now (start_poll v)
      | VWTP_Transmit \<Rightarrow> enter_transmit now v
      | VWTP_Receive \<Rightarrow> Some (enter_receive now v)
      | VWTP_AbortXfer \<Rightarrow> enter_abort now v)"

subsection \<open>PollerVWTPStart\<close>

definition channel_fits :: "vwtp \<Rightarrow> bool" where
  "channel_fits v \<longleftrightarrow> ch_bus (ch v) = m_bus (v_poll v) \<and> ucast (ch_baseid (ch v)) = e_txmoduleid (v_poll v) \<and>
     ucast (ch_moduleid (ch v)) = e_rxmoduleid (v_poll v)"

definition report :: "int \<Rightarrow> poller \<Rightarrow> poller" where
  "report code p = emit (PollError (moduleid_rec p) code) p"

definition PollerVWTPStart :: "u32 \<Rightarrow> u32 \<Rightarrow> vwtp \<Rightarrow> vwtp option" where
  "PollerVWTPStart now now' v0 =
     (let v = touch now v0 in
      if \<not> channel_fits v
      then if vstate v \<noteq> VWTP_Closed then PollerVWTPEnter now' VWTP_ChannelClose v
           else if e_rxmoduleid (v_poll v) \<noteq> 0 then PollerVWTPEnter now' VWTP_ChannelSetup v
           else Some (on_poll (report 0) v)
      else if vstate v < VWTP_Idle then PollerVWTPEnter now' VWTP_ChannelSetup v
      else do {
        v1 \<leftarrow> (if vstate v = VWTP_Transmit then PollerVWTPEnter now' VWTP_AbortXfer v
              else if vstate v = VWTP_Receive
              then map_option (on_poll (emit (Sleep (unat (ch_septime (ch v) * ucast (ch_blocksize (ch v)))))))
                     (PollerVWTPEnter now' VWTP_AbortXfer v)
              else Some v);
        PollerVWTPEnter now' VWTP_StartPoll v1 })"

definition PollerVWTPTxCallback :: "u32 \<Rightarrow> bool \<Rightarrow> vwtp \<Rightarrow> vwtp option" where
  "PollerVWTPTxCallback now success v = (if \<not> success then PollerVWTPEnter now VWTP_Closed v else Some v)"

text \<open>A due entry of the poll list is started by the handler of its protocol (\<open>PollerSend\<close>).\<close>

record poll_entry =
  en_tx :: u32
  en_rx :: u32
  en_type :: u16
  en_pid :: u16
  en_args :: poll_args
  en_protocol :: u8

definition load_entry :: "poll_entry \<Rightarrow> vwtp \<Rightarrow> vwtp" where
  "load_entry e v =
     on_poll (\<lambda>p. p\<lparr>e_txmoduleid := en_tx e, e_rxmoduleid := en_rx e, e_type := en_type e, e_args := en_args e,
       p_protocol := ucast (en_protocol e), p_type := en_type e, p_pid := en_pid e\<rparr>) (v\<lparr>e_pid := en_pid e\<rparr>)"

definition dispatch :: "u32 \<Rightarrow> u32 \<Rightarrow> poll_entry \<Rightarrow> vwtp \<Rightarrow> vwtp option" where
  "dispatch now now' e v0 =
     (let v = load_entry e v0 in
      if p_protocol (v_poll v) = VWTP_20 then PollerVWTPStart now now' v
      else map_option (\<lambda>p. v\<lparr>v_poll := p\<rparr>) (PollerISOTPStart now (v_poll v)))"

subsection \<open>PollerVWTPReceive\<close>

text \<open>A branch of the receiver returns (\<open>Return\<close>) or leaves the \<open>switch\<close> (\<open>Break\<close>).\<close>

datatype rx = Return bool vwtp | Break vwtp

definition sendPong :: "vwtp \<Rightarrow> vwtp option" where
  "sendPong = vw_write [0xA1, 0x0F, 0x8A, 0xFF, 0x0A, 0xFF]"

definition sendAck :: "vwtp \<Rightarrow> vwtp option" where
  "sendAck v = vw_write [0xB0 OR ucast (ch_rxseqnr (ch v) AND 0x0f)] v"

definition close_and_closed :: "u32 \<Rightarrow> vwtp \<Rightarrow> vwtp option" where
  "close_and_closed now v = PollerVWTPEnter now VWTP_ChannelClose v \<bind> PollerVWTPEnter now VWTP_Closed"

definition recv_setup :: "u32 \<Rightarrow> nat \<Rightarrow> bytes \<Rightarrow> vwtp \<Rightarrow> rx option" where
  "recv_setup now dlc d v =
     (let opcode = d ! 1 in
      if dlc \<noteq> 7 \<or> opcode < 0xD0 \<or> opcode > 0xD8 then Some (Return False v)
      else if opcode \<noteq> 0xD0
      then Some (Break (on_poll ResetPollWaiting (on_ch (\<lambda>c. c\<lparr>ch_bus := 0, ch_state := VWTP_Closed\<rparr>) v)))
      else map_option Break (PollerVWTPEnter now VWTP_ChannelParams
             (on_ch (\<lambda>c. c\<lparr>ch_rxid := push_bit 8 (ucast (d ! 3)) OR ucast (d ! 2),
                          ch_txid := push_bit 8 (ucast (d ! 5)) OR ucast (d ! 4)\<rparr>) v)))"

text \<open>A time of the channel parameters: two bits of unit, six bits of count.\<close>

definition param_time :: "u8 \<Rightarrow> u32" where
  "param_time b = ucast (b AND 0x3f) * ([100, 1000, 10000, 100000] ! unat (drop_bit 6 (b AND 0xc0)))"

definition recv_params :: "u32 \<Rightarrow> nat \<Rightarrow> bytes \<Rightarrow> vwtp \<Rightarrow> rx option" where
  "recv_params now dlc d v =
     (let opcode = (if dlc > 0 then d ! 0 else 0) in
      if opcode = 0xA1
      then map_option Break (PollerVWTPEnter now VWTP_StartPoll
             (on_ch (\<lambda>c. c\<lparr>ch_blocksize := d ! 1, ch_acktime := param_time (d ! 2), ch_septime := param_time (d ! 4)\<rparr>) v))
      else if opcode = 0xA8 then map_option Break (close_and_closed now v)
      else Some (Return False v))"

definition recv_close :: "u32 \<Rightarrow> nat \<Rightarrow> bytes \<Rightarrow> vwtp \<Rightarrow> rx option" where
  "recv_close now dlc d v =
     (if dlc = 1 \<and> d ! 0 = 0xA8
      then do {
        v1 \<leftarrow> PollerVWTPEnter now VWTP_Closed v;
        map_option Break
          (if p_protocol (v_poll v1) = VWTP_20 \<and> e_rxmoduleid (v_poll v1) \<noteq> 0
           then PollerVWTPEnter now VWTP_ChannelSetup v1 else Some (on_poll (report 0) v1)) }
      else Some (Return False v))"

definition recv_idle :: "u32 \<Rightarrow> bytes \<Rightarrow> vwtp \<Rightarrow> rx option" where
  "recv_idle now d v =
     (let opcode = d ! 0 in
      if opcode = 0xA3 then map_option Break (sendPong v)
      else if opcode = 0xA8 then map_option Break (close_and_closed now v)
      else if opcode AND 0xf0 \<le> 0x30
      then let v1 = on_ch (\<lambda>c. c\<lparr>ch_rxseqnr := ch_rxseqnr c + 1\<rparr>) v
           in map_option Break (vw_write [0x90 OR ucast (ch_rxseqnr (ch v1) AND 0x0f)] v1)
      else Some (Break v))"

definition recv_transmit :: "u32 \<Rightarrow> nat \<Rightarrow> bytes \<Rightarrow> vwtp \<Rightarrow> rx option" where
  "recv_transmit now dlc d v =
     (let opcode = (if dlc = 1 then d ! 0 else 0) in
      if opcode AND 0xf0 = 0xB0
      then map_option Break
             (PollerVWTPEnter now (if tx_remain (v_poll v) > 0 then VWTP_Transmit else VWTP_Receive) v)
      else if opcode AND 0xf0 = 0x90
      then map_option Break (PollerVWTPEnter now VWTP_Idle (on_poll (\<lambda>p. p\<lparr>tx_remain := 0\<rparr>) v))
      else if opcode = 0xA3 then map_option Break (sendPong v)
      else if opcode = 0xA8 then map_option Break (close_and_closed now v)
      else Some (Break v))"

text \<open>The service header of a data frame: where its payload lies and what it answers.\<close>

definition vw_header :: "nat \<Rightarrow> bytes \<Rightarrow> poller \<Rightarrow> u8 \<times> uds_meta" where
  "vw_header dlc d p =
     (if mlframe p = 0
      then
        let n = of_nat dlc - 3 :: u8; rt = d ! 3; len = ucast n :: u16 in
        (n,
         if rt = UDS_RESP_TYPE_NRC
         then \<lparr>u_type = rt, u_pid = 0, u_pos = 0, u_datalen = 0, u_error_type = d ! 4, u_error_code = d ! 5\<rparr>
         else if has_16bit_pid (uint rt - 0x40)
         then \<lparr>u_type = rt, u_pid = push_bit 8 (ucast (d ! 4)) OR ucast (d ! 5), u_pos = 6, u_datalen = len - 3,
               u_error_type = 0, u_error_code = 0\<rparr>
         else if has_8bit_pid (uint rt - 0x40)
         then \<lparr>u_type = rt, u_pid = ucast (d ! 4), u_pos = 5, u_datalen = len - 2, u_error_type = 0, u_error_code = 0\<rparr>
         else \<lparr>u_type = rt, u_pid = p_pid p, u_pos = 4, u_datalen = len - 1, u_error_type = 0, u_error_code = 0\<rparr>)
      else
        let n = of_nat dlc - 1 :: u8 in
        (n, \<lparr>u_type = ucast (0x40 + p_type p), u_pid = p_pid p, u_pos = 1, u_datalen = ucast n, u_error_type = 0, u_error_code = 0\<rparr>))"

definition ack_if :: "u8 \<Rightarrow> vwtp \<Rightarrow> vwtp option" where
  "ack_if opcode v = (if opcode AND 0xf0 \<le> 0x10 then sendAck v else Some v)"

definition more_or_idle :: "u32 \<Rightarrow> u16 \<Rightarrow> vwtp \<Rightarrow> vwtp option" where
  "more_or_idle now datalen v =
     (if mlremain (v_poll v) \<noteq> 0
      then Some (wait_2s now (on_poll (\<lambda>p. p\<lparr>mlframe := mlframe p + 1, mloffset := mloffset p + datalen\<rparr>) v))
      else PollerVWTPEnter now VWTP_Idle v)"

definition recv_data :: "u32 \<Rightarrow> nat \<Rightarrow> bytes \<Rightarrow> u32 \<Rightarrow> vwtp \<Rightarrow> rx option" where
  "recv_data now dlc d msgid v0 =
     (let p0 = v_poll v0; (tp_datalen, u) = vw_header dlc d p0; opcode = d ! 0;
          v = (if mlframe p0 = 0
               then on_poll (\<lambda>p. p\<lparr>mlremain := push_bit 8 (ucast (d ! 1 AND 0x0f)) OR ucast (d ! 2)\<rparr>) v0 else v0);
          p = v_poll v
      in
      if u_type u = UDS_RESP_TYPE_NRC \<and> uint (u_error_type u) = uint (p_type p)
      then do {
        v1 \<leftarrow> ack_if opcode v;
        if u_error_code u = UDS_RESP_NRC_RCRRP then Some (Return True (wait_2s now v1))
        else do {
          let v2 = on_poll (\<lambda>p. let q = p\<lparr>moduleid_rec := moduleid_sent p\<rparr> in
                     (report (uint (u_error_code u)) q)\<lparr>mlremain := 0\<rparr>) v1;
          v3 \<leftarrow> PollerVWTPEnter now VWTP_Idle v2;
          map_option Break (more_or_idle now (u_datalen u) v3) } }
      else if uint (u_type u) = 0x40 + uint (p_type p) \<and> u_pid u = p_pid p
      then do {
        v1 \<leftarrow> ack_if opcode v;
        data \<leftarrow> rdn d (u_pos u) (unat (ucast (u_datalen u) :: u8));
        let v2 = on_poll (\<lambda>p. p\<lparr>mlremain := mlremain p - ucast tp_datalen, moduleid_rec := msgid\<rparr>) v1;
        let p2 = v_poll v2;
        let pk = \<lparr>pk_module = msgid, pk_frame = mlframe p2, pk_offset = mloffset p2, pk_remain = mlremain p2,
                  pk_raw = raw_data p2, pk_data = data\<rparr>;
        map_option Break (more_or_idle now (u_datalen u) (on_poll (emit (Packet pk)) v2)) }
      else map_option (Return False) (PollerVWTPEnter now VWTP_AbortXfer v))"

definition recv_receive :: "u32 \<Rightarrow> u32 \<Rightarrow> nat \<Rightarrow> bytes \<Rightarrow> u32 \<Rightarrow> vwtp \<Rightarrow> rx option" where
  "recv_receive now now' dlc d msgid v =
     (let opcode = d ! 0 in
      if opcode = 0xA3 then map_option Break (sendPong v)
      else if opcode = 0xA8 then map_option Break (close_and_closed now' v)
      else if opcode < 0x40
      then let nr = ch_rxseqnr (ch v); v1 = on_ch (\<lambda>c. c\<lparr>ch_rxseqnr := nr + 1\<rparr>) (touch now v) in
        if ucast (opcode AND 0x0f) \<noteq> nr AND 0x0f
        then map_option (Return True) (PollerVWTPEnter now' VWTP_AbortXfer v1)
        else recv_data now' dlc d msgid v1
      else Some (Break v))"

definition PollerVWTPReceive ::
  "bool \<Rightarrow> u32 \<Rightarrow> u32 \<Rightarrow> nat \<Rightarrow> bytes \<Rightarrow> u32 \<Rightarrow> vwtp \<Rightarrow> (bool \<times> vwtp) option" where
  "PollerVWTPReceive can_poll now now' dlc d msgid v =
     (if vstate v = VWTP_Closed \<or> ch_bus (ch v) = 0 \<or> msgid \<noteq> ucast (ch_rxid (ch v)) then Some (False, v)
      else do {
        r \<leftarrow> (case vstate v of
               VWTP_ChannelSetup \<Rightarrow> recv_setup now' dlc d v
             | VWTP_ChannelParams \<Rightarrow> recv_params now' dlc d v
             | VWTP_ChannelClose \<Rightarrow> recv_close now' dlc d v
             | VWTP_Idle \<Rightarrow> recv_idle now' d v
             | VWTP_Transmit \<Rightarrow> recv_transmit now' dlc d v
             | VWTP_Receive \<Rightarrow> recv_receive now now' dlc d msgid v
             | _ \<Rightarrow> Some (Break v));
        Some (case r of
               Return b v1 \<Rightarrow> (b, v1)
             | Break v1 \<Rightarrow> (True, if \<not> GetPollWaiting now' (v_poll v1)
                                 then on_poll (PollerSucceededPollNext can_poll now') v1 else v1)) })"

text \<open>\<open>OvmsPoller::Incoming\<close>: a frame of the channel goes to the VW protocol, any other to ISO-TP.\<close>

definition Incoming_frame ::
  "bool \<Rightarrow> bool \<Rightarrow> u32 \<Rightarrow> u32 \<Rightarrow> nat \<Rightarrow> poll_frame \<Rightarrow> vwtp \<Rightarrow> (bool \<times> vwtp) option" where
  "Incoming_frame polls can_poll now now' dlc f v =
     (if pf_origin f = ch_bus (ch v) \<and> pf_id f = ucast (ch_rxid (ch v)) \<and> vstate v \<noteq> VWTP_Closed
      then do {
        (ret, v1) \<leftarrow> PollerVWTPReceive can_poll now now' dlc (pf_data f) (pf_id f)
                       (on_poll (\<lambda>p. p\<lparr>raw_data := (0, 8)\<rparr>) v);
        Some (ret, on_poll (\<lambda>p. p\<lparr>raw_data := (0, 0)\<rparr>) v1) }
      else do {
        (ret, p1) \<leftarrow> Incoming polls can_poll now now' f (v_poll v);
        Some (ret, v\<lparr>v_poll := p1\<rparr>) })"

text \<open>\<open>OvmsPoller::Outgoing\<close>: the result of a transmission.\<close>

definition Outgoing :: "bool \<Rightarrow> u32 \<Rightarrow> poll_frame \<Rightarrow> bool \<Rightarrow> vwtp \<Rightarrow> vwtp option" where
  "Outgoing locked now f success v =
     (let p = v_poll v in
      if \<not> GetPollWaiting now p \<or> e_txmoduleid p = 0 \<or> pf_origin f \<noteq> m_bus p \<or> pf_id f \<noteq> txmsgid p then Some v
      else do {
        v1 \<leftarrow> (if p_protocol p = VWTP_20 then PollerVWTPTxCallback now success v else Some v);
        let v2 = (if \<not> success
                  then on_poll (\<lambda>q. let r = ResetPollWaiting q in if locked then report (- 2) r else r) v1 else v1);
        Some (on_poll (\<lambda>q. emit (TxReply success) (q\<lparr>moduleid_rec := 0\<rparr>)) v2) })"

subsection \<open>PollerVWTPTicker\<close>

definition PollerVWTPTicker :: "u32 \<Rightarrow> u32 \<Rightarrow> vwtp \<Rightarrow> vwtp option" where
  "PollerVWTPTicker now now' v =
     (let timediff = now - ch_lastused (ch v);
          keep = (\<lambda>v. if vstate v = VWTP_Idle \<and> keepalive v > 0 \<and> timediff > ucast (keepalive v) * 1000
                      then PollerVWTPEnter now' VWTP_ChannelClose v else Some v)
      in
      if GetPollWaiting now (v_poll v)
      then if timediff < 200 then Some (wait_2s now v)
           else if vstate v = VWTP_ChannelSetup \<or> vstate v = VWTP_ChannelParams
           then PollerVWTPEnter now' VWTP_Closed v \<bind> keep
           else if vstate v = VWTP_ChannelClose
           then do {
             v1 \<leftarrow> PollerVWTPEnter now' VWTP_Closed v;
             v2 \<leftarrow> (if p_protocol (v_poll v1) = VWTP_20 then PollerVWTPStart now now' v1 else Some v1);
             keep v2 }
           else keep v
      else if vstate v \<noteq> VWTP_Closed \<and> vstate v \<noteq> VWTP_Idle
      then PollerVWTPEnter now' VWTP_ChannelClose v \<bind> keep
      else keep v)"

end
