(* ===== verification/VwtpTransfer.thy ===== *)
theory VwtpTransfer
  imports Vwtp IsoTpRequest
begin

section \<open>VW transport protocol 2.0: transfers\<close>

text \<open>
  Requests and responses as messages cut into frames of seven bytes behind an opcode with a sequence
  number (\<open>chunks\<close>, \<open>block_frames\<close>), and what the poller makes of a channel from its setup to the end
  of a response.
\<close>

unbundle bit_operations_syntax

subsection \<open>The specification\<close>

function chunks :: "nat \<Rightarrow> 'a list \<Rightarrow> 'a list list" where
  "chunks n xs = (if xs = [] \<or> n = 0 then [] else take n xs # chunks n (drop n xs))"
  by pat_completeness auto
termination by (relation "measure (\<lambda>(n, xs). length xs)") (auto simp flip: length_greater_0_conv)

declare chunks.simps [simp del]

lemma chunks_Nil [simp]: "chunks n [] = []"
  by (subst chunks.simps) simp

lemma chunks_step: "xs \<noteq> [] \<Longrightarrow> 0 < n \<Longrightarrow> chunks n xs = take n xs # chunks n (drop n xs)"
  by (subst chunks.simps) simp

text \<open>A message travels behind its length.\<close>

definition with_length :: "bytes \<Rightarrow> bytes" where
  "with_length msg = of_nat (length msg div 256) # of_nat (length msg mod 256) # msg"

text \<open>The frames of a block with room for \<open>n\<close> of the chunks, from sequence number \<open>nr\<close> on: the last
  chunk of the message and the last frame of the block ask for an acknowledgement.\<close>

fun block_frames :: "nat \<Rightarrow> u32 \<Rightarrow> bytes list \<Rightarrow> bytes list" where
  "block_frames (Suc n) nr (c # cs) =
     (((if cs = [] then 0x10 else if n > 0 then 0x20 else 0x00) OR ucast (nr AND 0x0f)) # c) # block_frames n (nr + 1) cs"
| "block_frames _ _ _ = []"

definition vw_request :: "vwtp \<Rightarrow> bytes" where
  "vw_request v =
     (let p = v_poll v; a = e_args p in
      ucast (e_type p) # pid_bytes (e_type p) (e_pid v) @ take (unat (args_len a)) (args_data a))"

subsection \<open>Requests\<close>

definition only_tx :: "poller \<Rightarrow> poller \<Rightarrow> bool" where
  "only_tx p q \<longleftrightarrow> q = p\<lparr>tx_frame := tx_frame q, tx_offset := tx_offset q, tx_remain := tx_remain q, outs := outs q\<rparr>"

lemma only_tx_trans: "only_tx p q \<Longrightarrow> only_tx q r \<Longrightarrow> only_tx p r"
  by (cases p; cases q; cases r) (simp add: only_tx_def)

lemma pid_bytes_length: "length (pid_bytes typ pid) \<le> 2"
  by (simp add: pid_bytes_def)

lemma first_head_length: "length (first_head v) \<le> 5" "0 < length (first_head v)"
  using pid_bytes_length [of "e_type (v_poll v)" "e_pid v"] by (simp_all add: first_head_def Let_def)

lemma channel_frame_seq [simp]: "channel_frame (c\<lparr>ch_txseqnr := n\<rparr>) = channel_frame c"
  by (simp add: channel_frame_def fun_eq_iff)

definition send_head :: "vwtp \<Rightarrow> bytes" where
  "send_head v = (if tx_frame (v_poll v) = 0 then first_head v else [])"

text \<open>A step that writes the frames \<open>fs\<close> and reports nothing.\<close>

definition sends :: "poll_frame list \<Rightarrow> vwtp \<Rightarrow> vwtp \<Rightarrow> bool" where
  "sends fs v v' \<longleftrightarrow> (\<exists>l. outs (v_poll v') = outs (v_poll v) @ l \<and> set l \<subseteq> range Write \<union> range Sleep \<and> writes l = fs)"

lemma sends_trans: "sends fs u v \<Longrightarrow> sends gs v w \<Longrightarrow> sends (fs @ gs) u w"
proof -
  assume "sends fs u v" "sends gs v w"
  then obtain l m where "outs (v_poll v) = outs (v_poll u) @ l" "set l \<subseteq> range Write \<union> range Sleep" "writes l = fs"
    "outs (v_poll w) = outs (v_poll v) @ m" "set m \<subseteq> range Write \<union> range Sleep" "writes m = gs"
    unfolding sends_def by (elim exE conjE)
  then show ?thesis unfolding sends_def by (intro exI [of _ "l @ m"]) simp
qed

lemma sends_none: "outs (v_poll v') = outs (v_poll v) \<Longrightarrow> sends [] v v'"
  by (simp add: sends_def)

lemma sends_one: "outs (v_poll v') = outs (v_poll v) @ [Write f] \<Longrightarrow> sends [f] v v'"
  by (auto simp: sends_def)

lemma sends_quiet:
  assumes "sends fs v v'"
  obtains l where "outs (v_poll v') = outs (v_poll v) @ l" "writes l = fs" "fold series_out l q = q"
proof -
  obtain l where l: "outs (v_poll v') = outs (v_poll v) @ l" "set l \<subseteq> range Write \<union> range Sleep" "writes l = fs"
    using assms by (auto simp: sends_def)
  have "fold series_out l q = q" using l(2) by (induction l) (auto simp: series_out_def)
  then show thesis using that l(1,3) by blast
qed

lemma block_step_sent:
  fixes n :: nat
  assumes s: "sending k rest (v_poll v)" and bus: "ch_bus (ch v) \<noteq> 0"
  defines "full \<equiv> send_head v @ rest" and "nr \<equiv> ch_txseqnr (ch v)"
  defines "fr \<equiv> ((if drop 7 full = [] then 0x10 else if n > 0 then 0x20 else 0x00) OR ucast (nr AND 0x0f)) # take 7 full"
  shows "\<exists>v'. send_block (Suc n) v = (if drop 7 full = [] then Some v' else send_block n v') \<and>
    sending (k + 1) (drop 7 full) (v_poll v') \<and> only_tx (v_poll v) (v_poll v') \<and>
    v' = v\<lparr>v_poll := v_poll v', ch := (ch v)\<lparr>ch_txseqnr := nr + 1\<rparr>\<rparr> \<and>
    sends [channel_frame (ch v) fr] v v'"
proof -
  let ?p = "v_poll v" and ?hd = "send_head v"
  let ?m = "7 - length ?hd"
  let ?k = "min (unat (tx_remain ?p)) ?m"
  have m: "0 < ?m" "length ?hd \<le> 7" using first_head_length [of v] by (auto simp: send_head_def)
  have r: "unat (tx_remain ?p) = length rest" using s by (simp add: sending_def)
  note step = sending_step [OF s m(1), folded r]
  have cut: "take 7 full = ?hd @ take ?m rest" "drop 7 full = drop ?m rest" using m(2) by (simp_all add: full_def)
  let ?remain = "tx_remain ?p - of_nat ?k"
  have "unat ?remain = length (drop ?m rest)" using step(2) by (simp add: sending_def)
  then have z: "?remain = 0 \<longleftrightarrow> drop 7 full = []" unfolding cut by (metis length_0_conv unat_eq_zero)
  let ?v1 = "on_poll (\<lambda>p. p\<lparr>tx_offset := tx_offset p + of_nat ?k, tx_remain := ?remain\<rparr>) v"
  let ?v2 = "if nr > 0 then on_poll (emit (Sleep (unat (ch_septime (ch v))))) ?v1 else ?v1"
  let ?v3 = "on_poll (\<lambda>p. p\<lparr>tx_frame := tx_frame p + 1\<rparr>) (on_ch (\<lambda>c. c\<lparr>ch_txseqnr := nr + 1\<rparr>) ?v2)"
  let ?v' = "on_poll (emit (Write (channel_frame (ch v) fr))) ?v3"
  have w: "vw_write fr ?v3 = Some ?v'" using bus by (simp add: vw_write_def)
  have "send_block (Suc n) v = (if ?remain = 0 then Some ?v' else send_block n ?v')"
    using w unfolding send_block.simps(2) Let_def send_head_def [symmetric] step(1) nr_def [symmetric] fr_def z cut
    by (simp only: Option.bind.bind_lunit)
  moreover have "sending (k + 1) (drop 7 full) (v_poll ?v')"
    using step(2) unfolding cut by (simp add: sending_def emit_def)
  moreover have "only_tx ?p (v_poll ?v')" by (simp add: only_tx_def emit_def)
  moreover have "sends [channel_frame (ch v) fr] v ?v'" by (auto simp: sends_def emit_def)
  moreover have "?v' = v\<lparr>v_poll := v_poll ?v', ch := (ch v)\<lparr>ch_txseqnr := nr + 1\<rparr>\<rparr>" by (simp add: on_poll_def on_ch_def)
  ultimately show ?thesis unfolding z by blast
qed

lemma send_head_later: "tx_frame (v_poll v) \<noteq> 0 \<Longrightarrow> send_head v = []"
  by (simp add: send_head_def)

lemma block_sent:
  assumes "sending k rest (v_poll v)" "ch_bus (ch v) \<noteq> 0" "k + n < 65536" "0 < n \<or> tx_frame (v_poll v) \<noteq> 0"
    and "send_head v @ rest \<noteq> []"
  defines "full \<equiv> send_head v @ rest" and "nr \<equiv> ch_txseqnr (ch v)"
  defines "F \<equiv> block_frames n nr (chunks 7 full)"
  shows "\<exists>v' j. send_block n v = Some v' \<and> sending j (drop (7 * n) full) (v_poll v') \<and> only_tx (v_poll v) (v_poll v') \<and>
    v' = v\<lparr>v_poll := v_poll v', ch := (ch v)\<lparr>ch_txseqnr := nr + of_nat (length F)\<rparr>\<rparr> \<and>
    sends (map (channel_frame (ch v)) F) v v'"
  using assms(1-5) unfolding full_def nr_def F_def
proof (induction n arbitrary: k rest v)
  case 0
  then show ?case
    by (intro exI [of _ v] exI [of _ k]) (simp add: send_head_later only_tx_def sends_none)
next
  case (Suc n)
  let ?full = "send_head v @ rest"
  let ?nr = "ch_txseqnr (ch v)"
  have cs: "chunks 7 ?full = take 7 ?full # chunks 7 (drop 7 ?full)" by (rule chunks_step [OF Suc.prems(5)]) simp
  have nil: "chunks 7 (drop 7 ?full) = [] \<longleftrightarrow> drop 7 ?full = []"
    by (cases "drop 7 ?full = []") (simp_all add: chunks_step)
  let ?F = "block_frames n (?nr + 1) (chunks 7 (drop 7 ?full))"
  let ?fr = "((if drop 7 ?full = [] then 0x10 else if n > 0 then 0x20 else 0x00) OR ucast (?nr AND 0x0f)) # take 7 ?full"
  have F: "block_frames (Suc n) ?nr (chunks 7 ?full) = ?fr # ?F" unfolding cs block_frames.simps(1) nil ..
  obtain v1 where v1: "send_block (Suc n) v = (if drop 7 ?full = [] then Some v1 else send_block n v1)"
    "sending (k + 1) (drop 7 ?full) (v_poll v1)" "only_tx (v_poll v) (v_poll v1)"
    "v1 = v\<lparr>v_poll := v_poll v1, ch := (ch v)\<lparr>ch_txseqnr := ?nr + 1\<rparr>\<rparr>"
    "sends [channel_frame (ch v) ?fr] v v1"
    using block_step_sent [OF Suc.prems(1,2), of n] by blast
  have chv1: "ch v1 = (ch v)\<lparr>ch_txseqnr := ?nr + 1\<rparr>" by (subst v1(4)) simp
  have k1: "k + 1 < 65536" "k + 1 + n < 65536" using Suc.prems(3) by simp_all
  have "tx_frame (v_poll v1) = of_nat (k + 1)" using v1(2) by (simp only: sending_def)
  moreover have "unat (of_nat (k + 1) :: u16) = k + 1" by (rule unat_word_of_nat_u16 [OF k1(1)])
  ultimately have nz: "tx_frame (v_poll v1) \<noteq> 0" by (metis Suc_eq_plus1 nat.distinct(1) unsigned_0)
  note hd1 = send_head_later [OF nz]
  show ?case
  proof (cases "drop 7 ?full = []")
    case True
    then have "drop (7 * Suc n) ?full = []" unfolding drop_eq_Nil by (rule order_trans) simp
    then show ?thesis
      using v1 True F by (intro exI [of _ v1] exI [of _ "k + 1"]) (simp del: send_block.simps)
  next
    case False
    obtain v' j where ih: "send_block n v1 = Some v'" "sending j (drop (7 * n) (drop 7 ?full)) (v_poll v')" "only_tx (v_poll v1) (v_poll v')"
      "v' = v1\<lparr>v_poll := v_poll v', ch := (ch v1)\<lparr>ch_txseqnr := ?nr + 1 + of_nat (length ?F)\<rparr>\<rparr>"
      "sends (map (channel_frame (ch v1)) ?F) v1 v'"
      using Suc.IH [of "k + 1" "drop 7 ?full" v1] v1(2) Suc.prems(2) k1(2) nz False unfolding hd1 chv1 by auto
    have "v' = v\<lparr>v_poll := v_poll v', ch := (ch v)\<lparr>ch_txseqnr := ?nr + of_nat (length (?fr # ?F))\<rparr>\<rparr>"
      by (subst ih(4), subst v1(4)) (simp add: chv1 add.commute add.left_commute)
    moreover have "sends (map (channel_frame (ch v)) (?fr # ?F)) v v'"
      using sends_trans [OF v1(5) ih(5)] unfolding chv1 by simp
    moreover have "drop (7 * n) (drop 7 ?full) = drop (7 * Suc n) ?full"
      by (simp only: drop_drop mult_Suc_right add.commute)
    moreover have "send_block (Suc n) v = Some v'" unfolding v1(1) ih(1) if_not_P [OF False] ..
    moreover note ih(2) only_tx_trans [OF v1(3) ih(3)]
    ultimately show ?thesis unfolding F by (intro exI [of _ v'] exI [of _ j]) (simp del: send_block.simps)
  qed
qed

lemma vw_eqI:
  fixes v v' :: vwtp
  shows "e_pid v' = e_pid v \<Longrightarrow> keepalive v' = keepalive v \<Longrightarrow> ch v' = c \<Longrightarrow> v' = v\<lparr>v_poll := v_poll v', ch := c\<rparr>"
  by (cases v; cases v') simp

text \<open>A request as \<open>StartPoll\<close> writes it: the first block of the chunks of the message.\<close>

definition same_job :: "poller \<Rightarrow> poller \<Rightarrow> bool" where
  "same_job p q \<longleftrightarrow> m_bus q = m_bus p \<and> p_protocol q = p_protocol p \<and> p_type q = p_type p \<and> p_pid q = p_pid p \<and>
     e_txmoduleid q = e_txmoduleid p \<and> e_rxmoduleid q = e_rxmoduleid p \<and> e_type q = e_type p \<and> e_args q = e_args p"

lemma only_tx_job: "only_tx p q \<Longrightarrow> same_job p q \<and> mlframe q = mlframe p \<and> mlremain q = mlremain p"
  by (cases p; cases q) (simp add: only_tx_def same_job_def)

lemma length_bytes:
  assumes "unat (n :: u16) = m"
  shows "(ucast (drop_bit 8 n) :: u8) = of_nat (m div 256)" "(ucast (n AND 0xff) :: u8) = of_nat (m mod 256)"
proof -
  have m: "m < 65536" using assms unat_u16_less [of n] by simp
  have "unat (drop_bit 8 n) = m div 256"
    using assms m by (simp only: unsigned_drop_bit_eq) (simp add: drop_bit_eq_div take_bit_eq_mod)
  moreover have "m div 256 < 256" using m by simp
  ultimately show "(ucast (drop_bit 8 n) :: u8) = of_nat (m div 256)"
    by (intro word_unat_eq_iff [THEN iffD2]) (simp add: unat_word_of_nat_u8 unsigned_ucast_eq take_bit_eq_mod)
  have "n AND 0xff = take_bit 8 n" by (simp add: u16_eq_iff bit_simps all_less_16 all_less_8)
  then have "unat (n AND 0xff) = m mod 256" using assms by (simp only: unsigned_take_bit_eq) (simp add: take_bit_eq_mod)
  then show "(ucast (n AND 0xff) :: u8) = of_nat (m mod 256)"
    by (intro word_unat_eq_iff [THEN iffD2]) (simp add: unat_word_of_nat_u8 unsigned_ucast_eq take_bit_eq_mod)
qed

definition args_ok :: "poll_args \<Rightarrow> bool" where
  "args_ok a \<longleftrightarrow> unat (args_len a) \<le> length (args_data a) \<and> unat (args_len a) < 4093"

lemma request_telegram:
  assumes "args_ok (e_args (v_poll v))"
  defines "n \<equiv> args_len (e_args (v_poll v))"
  shows "send_head (start_poll v) @ take (unat n) (args_data (e_args (v_poll v))) = with_length (vw_request v)"
    "length (vw_request v) < 4096"
proof -
  let ?p = "v_poll v"
  let ?pid = "pid_bytes (e_type ?p) (e_pid v)"
  have len: "length (vw_request v) = unat n + 1 + length ?pid"
    using assms(1) by (simp add: vw_request_def Let_def n_def args_ok_def)
  then show small: "length (vw_request v) < 4096"
    using assms(1) pid_bytes_length [of "e_type ?p" "e_pid v"] by (simp add: n_def args_ok_def)
  have "unat (of_nat (length ?pid) :: u16) = length ?pid"
    using pid_bytes_length [of "e_type ?p" "e_pid v"] by (intro unat_word_of_nat_u16) simp
  moreover have "unat (n + 1) = unat n + 1" using small len by (subst unat_add_u16) simp_all
  ultimately have "unat (n + 1 + of_nat (length ?pid)) = length (vw_request v)"
    using small len by (subst unat_add_u16) simp_all
  note lb = length_bytes [OF this]
  have e: "e_type (v_poll (start_poll v)) = e_type ?p" "e_pid (start_poll v) = e_pid v" "tx_remain (v_poll (start_poll v)) = n"
    "tx_frame (v_poll (start_poll v)) = 0"
    by (simp_all add: start_poll_def n_def)
  show "send_head (start_poll v) @ take (unat n) (args_data (e_args ?p)) = with_length (vw_request v)"
    unfolding send_head_def first_head_def Let_def e lb with_length_def by (simp add: vw_request_def Let_def n_def)
qed

lemma request_started:
  assumes a: "args_ok (e_args (v_poll v))" and bus: "ch_bus (ch v) \<noteq> 0" and b: "ch_blocksize (ch v) \<noteq> 0"
    and st: "vstate v \<noteq> VWTP_StartPoll"
  defines "msg \<equiv> with_length (vw_request v)" and "n \<equiv> unat (ch_blocksize (ch v))" and "nr \<equiv> ch_txseqnr (ch v)"
  defines "F \<equiv> block_frames n nr (chunks 7 msg)"
  shows "\<exists>v'. PollerVWTPEnter now VWTP_StartPoll v = Some v' \<and>
    v' = v\<lparr>v_poll := v_poll v', ch := (ch v)\<lparr>ch_state := VWTP_Transmit, ch_txseqnr := nr + of_nat (length F), ch_lastused := now\<rparr>\<rparr> \<and>
    same_job (v_poll v) (v_poll v') \<and> mlframe (v_poll v') = 0 \<and> mlremain (v_poll v') = 0 \<and>
    unat (tx_remain (v_poll v')) = length (drop (7 * n) msg) \<and> wait_timeout (v_poll v') = 2000 + now \<and>
    moduleid_low (v_poll v') = ucast (ch_rxid (ch v)) \<and> moduleid_high (v_poll v') = ucast (ch_rxid (ch v)) \<and>
    sends (map (channel_frame (ch v)) F) v v'"
proof -
  let ?v = "start_poll v" and ?d = "take (unat (args_len (e_args (v_poll v)))) (args_data (e_args (v_poll v)))"
  note tel = request_telegram [OF a]
  have s: "sending 0 ?d (v_poll ?v)" using a by (simp add: sending_def start_poll_def args_ok_def min_def)
  have n: "0 < n" "0 + n < 65536"
    using b order_le_less_trans [OF unat_u8_le [of "ch_blocksize (ch v)"], of 65536] by (simp_all add: n_def unat_gt_0)
  have c: "ch ?v = ch v" by (simp add: start_poll_def)
  have j: "same_job (v_poll v) (v_poll ?v)" "mlframe (v_poll ?v) = 0" "mlremain (v_poll ?v) = 0" "outs (v_poll ?v) = outs (v_poll v)"
    by (simp_all add: start_poll_def same_job_def)
  obtain v1 i where v1: "send_block n ?v = Some v1" "sending i (drop (7 * n) msg) (v_poll v1)" "only_tx (v_poll ?v) (v_poll v1)"
    "v1 = ?v\<lparr>v_poll := v_poll v1, ch := (ch v)\<lparr>ch_txseqnr := nr + of_nat (length F)\<rparr>\<rparr>"
    "sends (map (channel_frame (ch v)) F) ?v v1"
    using block_sent [OF s _ n(2)] n(1) bus unfolding tel(1) c j(4) F_def nr_def msg_def by (auto simp: with_length_def)
  let ?v' = "touch now (set_state VWTP_Transmit (wait_2s now (expect_answer v1)))"
  have "PollerVWTPEnter now VWTP_StartPoll v = Some ?v'"
    using st v1(1) by (simp add: PollerVWTPEnter_def enter_transmit_def c n_def)
  moreover have "unat (tx_remain (v_poll ?v')) = length (drop (7 * n) msg)"
    using v1(2) by (simp add: touch_def set_state_def wait_2s_def expect_answer_def Let_def SetPollWaiting_def sending_def)
  moreover have "?v' = v\<lparr>v_poll := v_poll ?v', ch := (ch v)\<lparr>ch_state := VWTP_Transmit, ch_txseqnr := nr + of_nat (length F), ch_lastused := now\<rparr>\<rparr>"
  proof (rule vw_eqI)
    have v1f: "e_pid v1 = e_pid v" "keepalive v1 = keepalive v" "ch v1 = (ch v)\<lparr>ch_txseqnr := nr + of_nat (length F)\<rparr>"
      by (subst v1(4), simp add: start_poll_def)+
    then show "e_pid ?v' = e_pid v" "keepalive ?v' = keepalive v"
      "ch ?v' = (ch v)\<lparr>ch_state := VWTP_Transmit, ch_txseqnr := nr + of_nat (length F), ch_lastused := now\<rparr>"
      by (simp_all add: touch_def set_state_def wait_2s_def expect_answer_def Let_def)
  qed
  moreover have "same_job (v_poll v) (v_poll ?v') \<and> mlframe (v_poll ?v') = 0 \<and> mlremain (v_poll ?v') = 0"
    using only_tx_job [OF v1(3)] j
    by (simp add: touch_def set_state_def wait_2s_def expect_answer_def Let_def SetPollWaiting_def same_job_def)
  moreover have "ch v1 = (ch v)\<lparr>ch_txseqnr := nr + of_nat (length F)\<rparr>" by (subst v1(4)) simp
  then have "wait_timeout (v_poll ?v') = 2000 + now" "moduleid_low (v_poll ?v') = ucast (ch_rxid (ch v))"
    "moduleid_high (v_poll ?v') = ucast (ch_rxid (ch v))" and o: "outs (v_poll ?v') = outs (v_poll v1)"
    by (simp_all add: touch_def set_state_def wait_2s_def expect_answer_def Let_def SetPollWaiting_def)
  moreover have "sends (map (channel_frame (ch v)) F) v ?v'" using v1(5) o j(4) by (simp add: sends_def)
  ultimately show ?thesis by (intro exI [of _ ?v'] conjI) simp_all
qed

end
