(* ===== verification/VwtpResponse.thy ===== *)
theory VwtpResponse
  imports VwtpTransfer
begin

section \<open>VW transport protocol 2.0: responses\<close>

text \<open>
  The frames of a response in a channel that waits for one: each passes the sequence check, is
  acknowledged when its opcode asks for it, and hands its part of the payload to the poll series.
\<close>

unbundle bit_operations_syntax

subsection \<open>One data frame\<close>

text \<open>The opcodes of data frames: an acknowledgement is expected for the first two.\<close>

definition data_ops :: "u8 set" where "data_ops = {0x00, 0x10, 0x20, 0x30}"

definition with_nr :: "u8 \<Rightarrow> u32 \<Rightarrow> u8" where "with_nr x nr = x OR ucast (nr AND 0x0f)"

lemma with_nr_parts:
  assumes "x \<in> data_ops"
  shows "with_nr x nr AND 0xf0 = x" "ucast (with_nr x nr AND 0x0f) = nr AND 0x0f" "with_nr x nr < 0x40"
    "with_nr x nr \<noteq> 0xA3" "with_nr x nr \<noteq> 0xA8"
proof -
  show hi: "with_nr x nr AND 0xf0 = x"
    using assms by (auto simp: data_ops_def with_nr_def u8_eq_iff all_less_8 bit_simps)
  have "bit (nr AND 0x0f) m \<longleftrightarrow> m < 4 \<and> bit nr m" for m
    unfolding word_and_15 by (simp add: bit_simps)
  moreover have "bit (with_nr x nr AND 0x0f) m \<longleftrightarrow> m < 4 \<and> bit nr m" for m
    using assms unfolding word_and_15 with_nr_def
    by (auto simp: data_ops_def bit_simps less_Suc_eq numeral_eq_Suc)
  ultimately show "ucast (with_nr x nr AND 0x0f) = nr AND 0x0f"
    by (intro bit_word_eqI) (auto simp: bit_simps)
  have "with_nr x nr = take_bit 6 (with_nr x nr)"
    using assms by (auto simp: data_ops_def with_nr_def u8_eq_iff all_less_8 bit_simps)
  then have "unat (with_nr x nr) = take_bit 6 (unat (with_nr x nr))" by (metis unsigned_take_bit_eq)
  then have "unat (with_nr x nr) < 64" using take_bit_nat_less_exp [of 6 "unat (with_nr x nr)"] by simp
  then show lt: "with_nr x nr < 0x40" by (simp add: word_less_nat_alt)
  then show "with_nr x nr \<noteq> 0xA3" "with_nr x nr \<noteq> 0xA8" by (auto simp: word_less_nat_alt)
qed

text \<open>A received frame with the DLC bytes \<open>d\<close> on the channel \<open>c\<close>.\<close>

definition unit_frame :: "vwtp_channel \<Rightarrow> poll_frame \<Rightarrow> bytes \<Rightarrow> bool" where
  "unit_frame c f d \<longleftrightarrow> pf_origin f = ch_bus c \<and> pf_id f = ucast (ch_rxid c) \<and> length (pf_data f) = 8 \<and>
     length d \<le> 8 \<and> take (length d) (pf_data f) = d"

lemma unit_nth: "unit_frame c f d \<Longrightarrow> k < length d \<Longrightarrow> pf_data f ! k = d ! k"
  by (metis nth_take unit_frame_def)

lemma unit_rdn:
  assumes "unit_frame c f d" "k + n = length d"
  shows "rdn (pf_data f) k n = Some (drop k d)"
proof -
  have "take n (drop k (pf_data f)) = drop k (take (length d) (pf_data f))"
    using assms(2) [symmetric] by (simp add: drop_take)
  then show ?thesis using assms by (simp add: unit_frame_def rdn_def)
qed

definition same_channel :: "vwtp_channel \<Rightarrow> vwtp_channel \<Rightarrow> bool" where
  "same_channel c c' \<longleftrightarrow> ch_bus c' = ch_bus c \<and> ch_txid c' = ch_txid c \<and> ch_rxid c' = ch_rxid c"

lemma same_channel_frames: "same_channel c c' \<Longrightarrow> channel_frame c' = channel_frame c \<and> unit_frame c' = unit_frame c"
  by (simp add: same_channel_def channel_frame_def unit_frame_def fun_eq_iff)

definition acks :: "vwtp_channel \<Rightarrow> u8 \<Rightarrow> u32 \<Rightarrow> poll_frame list" where
  "acks c x nr = (if x \<le> 0x10 then [channel_frame c [with_nr 0xB0 nr]] else [])"

definition listening :: "u16 \<Rightarrow> u16 \<Rightarrow> u32 \<Rightarrow> vwtp \<Rightarrow> bool" where
  "listening typ pid nr v \<longleftrightarrow> vstate v = VWTP_Receive \<and> ch_bus (ch v) \<noteq> 0 \<and> p_type (v_poll v) = typ \<and>
     p_pid (v_poll v) = pid \<and> ch_rxseqnr (ch v) = nr"

text \<open>The uptime counter does not wrap around within the next two seconds.\<close>

definition clock_ok :: "u32 \<Rightarrow> bool" where "clock_ok now \<longleftrightarrow> now < 4294965296"

lemma clock_waiting: "clock_ok now \<Longrightarrow> GetPollWaiting now (SetPollWaiting now 2000 p)"
proof -
  assume "clock_ok now"
  then have n: "unat now < 4294965296" by (simp add: clock_ok_def word_less_nat_alt)
  then have u: "unat (2000 + now) = 2000 + unat now"
    by (subst unat_add_lem [THEN iffD1]) simp_all
  then have "2000 + now \<noteq> 0" by (metis add_is_0 unat_0 zero_neq_numeral)
  moreover have "now < 2000 + now" using u by (simp add: word_less_nat_alt)
  ultimately show ?thesis by (simp add: GetPollWaiting_def SetPollWaiting_def)
qed

lemma ack_if_outs:
  assumes "ch_bus (ch v) \<noteq> 0" "opcode AND 0xf0 = x"
  shows "\<exists>w. ack_if opcode v = Some w \<and> ch w = ch v \<and>
    v_poll w = (v_poll v)\<lparr>outs := outs (v_poll v) @ map Write (acks (ch v) x (ch_rxseqnr (ch v)))\<rparr>"
  using assms by (auto simp: ack_if_def sendAck_def vw_write_def acks_def with_nr_def emit_def)

lemma data_taken:
  assumes l: "listening typ pid nr v" and h: "vw_header dlc d (v_poll v) = (n, u)"
    and u: "\<not> (u_type u = UDS_RESP_TYPE_NRC \<and> uint (u_error_type u) = uint typ)" "uint (u_type u) = 0x40 + uint typ" "u_pid u = pid"
    and data: "rdn d (u_pos u) (unat (ucast (u_datalen u) :: u8)) = Some data"
    and x: "d ! 0 AND 0xf0 = x"
  defines "len \<equiv> if mlframe (v_poll v) = 0 then push_bit 8 (ucast (d ! 1 AND 0x0f)) OR ucast (d ! 2) else mlremain (v_poll v)"
  shows "\<exists>w pk. recv_data now dlc d msgid v = map_option Break (more_or_idle now (u_datalen u) w) \<and> ch w = ch v \<and>
    p_type (v_poll w) = typ \<and> p_pid (v_poll w) = pid \<and> mlremain (v_poll w) = len - ucast n \<and> mlframe (v_poll w) = mlframe (v_poll v) \<and>
    outs (v_poll w) = outs (v_poll v) @ map Write (acks (ch v) x nr) @ [Packet pk] \<and>
    pk_data pk = data \<and> pk_frame pk = mlframe (v_poll v) \<and> pk_remain pk = len - ucast n"
proof -
  define first where "first = (push_bit 8 (ucast (d ! 1 AND 0x0f)) OR ucast (d ! 2) :: u16)"
  define v0 where "v0 = (if mlframe (v_poll v) = 0 then on_poll (\<lambda>p. p\<lparr>mlremain := first\<rparr>) v else v)"
  have v0: "ch v0 = ch v" "p_type (v_poll v0) = typ" "p_pid (v_poll v0) = pid" "mlremain (v_poll v0) = len"
    "mlframe (v_poll v0) = mlframe (v_poll v)" "outs (v_poll v0) = outs (v_poll v)"
    using l unfolding len_def first_def [symmetric] by (simp_all add: v0_def listening_def)
  have bus: "ch_bus (ch v0) \<noteq> 0" "ch_rxseqnr (ch v) = nr" using l v0(1) by (simp_all add: listening_def)
  obtain v1 where v1: "ack_if (d ! 0) v0 = Some v1" "ch v1 = ch v"
    "v_poll v1 = (v_poll v0)\<lparr>outs := outs (v_poll v0) @ map Write (acks (ch v) x nr)\<rparr>"
    using ack_if_outs [OF bus(1) x] unfolding v0(1) bus(2) by (elim exE conjE)
  let ?v2 = "on_poll (\<lambda>p. p\<lparr>mlremain := mlremain p - ucast n, moduleid_rec := msgid\<rparr>) v1"
  let ?pk = "\<lparr>pk_module = msgid, pk_frame = mlframe (v_poll ?v2), pk_offset = mloffset (v_poll ?v2), pk_remain = mlremain (v_poll ?v2),
    pk_raw = raw_data (v_poll ?v2), pk_data = data\<rparr>"
  let ?w = "on_poll (emit (Packet ?pk)) ?v2"
  have "recv_data now dlc d msgid v = map_option Break (more_or_idle now (u_datalen u) ?w)"
    unfolding recv_data_def h Let_def prod.case first_def [symmetric] v0_def [symmetric] v0(2,3) if_not_P [OF u(1)] v1(1) data
      Option.bind.bind_lunit
    by (simp only: u(2,3) simp_thms if_True)
  moreover have "mlremain (v_poll ?w) = len - ucast n" "mlframe (v_poll ?w) = mlframe (v_poll v)" "p_type (v_poll ?w) = typ"
    "p_pid (v_poll ?w) = pid" "ch ?w = ch v" "outs (v_poll ?w) = outs (v_poll v) @ map Write (acks (ch v) x nr) @ [Packet ?pk]"
    using v0 v1 by (simp_all add: emit_def)
  moreover have "pk_data ?pk = data" "pk_frame ?pk = mlframe (v_poll v)" "pk_remain ?pk = len - ucast n" using v0 v1 by simp_all
  ultimately show ?thesis by (intro exI conjI)
qed

lemma vw_header_cong:
  "mlframe p = mlframe q \<Longrightarrow> p_type p = p_type q \<Longrightarrow> p_pid p = p_pid q \<Longrightarrow> vw_header dlc d p = vw_header dlc d q"
  by (simp add: vw_header_def Let_def)

lemma next_poll:
  "outs (PollerSucceededPollNext cp now p) = outs p @ q \<Longrightarrow> set q \<subseteq> {QueueSend}"
  by (auto simp: PollerSucceededPollNext_def Let_def emit_def split: if_splits)

lemma next_poll_outs: "\<exists>q. outs (PollerSucceededPollNext cp now p) = outs p @ q"
  by (auto simp: PollerSucceededPollNext_def Let_def emit_def)

text \<open>A data frame in sequence, from the bus to the next state.\<close>

definition took :: "u32 \<Rightarrow> u16 \<Rightarrow> u16 \<Rightarrow> u32 \<Rightarrow> u16 \<Rightarrow> vwtp \<Rightarrow> vwtp \<Rightarrow> bool" where
  "took now' typ pid nr r v v' \<longleftrightarrow> same_channel (ch v) (ch v') \<and>
     (if r = 0 then vstate v' = VWTP_Idle \<and> wait_timeout (v_poll v') = 0
      else listening typ pid (nr + 1) v' \<and> mlremain (v_poll v') = r \<and> mlframe (v_poll v') = mlframe (v_poll v) + 1 \<and>
        wait_timeout (v_poll v') = 2000 + now')"

lemma frame_taken:
  assumes l: "listening typ pid nr v" and f: "unit_frame (ch v) f d" and x: "x \<in> data_ops" and d0: "d \<noteq> []" "d ! 0 = with_nr x nr"
    and clock: "clock_ok now'"
    and h: "vw_header (length d) (pf_data f) (v_poll v) = (n, u)"
    and u: "\<not> (u_type u = UDS_RESP_TYPE_NRC \<and> uint (u_error_type u) = uint typ)" "uint (u_type u) = 0x40 + uint typ" "u_pid u = pid"
    and data: "rdn (pf_data f) (u_pos u) (unat (ucast (u_datalen u) :: u8)) = Some data"
  defines "len \<equiv> if mlframe (v_poll v) = 0 then push_bit 8 (ucast (pf_data f ! 1 AND 0x0f)) OR ucast (pf_data f ! 2) else mlremain (v_poll v)"
  shows "\<exists>v' pk q. Incoming_frame polls can_poll now now' (length d) f v = Some (True, v') \<and> took now' typ pid nr (len - ucast n) v v' \<and>
    outs (v_poll v') = outs (v_poll v) @ map Write (acks (ch v) x (nr + 1)) @ [Packet pk] @ q \<and> set q \<subseteq> {QueueSend} \<and>
    pk_data pk = data \<and> pk_frame pk = mlframe (v_poll v) \<and> pk_remain pk = len - ucast n"
proof -
  let ?v0 = "on_poll (\<lambda>p. p\<lparr>raw_data := (0, 8)\<rparr>) v" and ?D = "pf_data f"
  let ?v1 = "on_ch (\<lambda>c. c\<lparr>ch_rxseqnr := nr + 1\<rparr>) (touch now ?v0)"
  have vs: "vstate v = VWTP_Receive" "ch_bus (ch v) \<noteq> 0" "ch_rxseqnr (ch v) = nr" using l by (simp_all add: listening_def)
  have f0: "?D ! 0 = with_nr x nr" using unit_nth [OF f, of 0] d0 by simp
  have id: "pf_origin f = ch_bus (ch v)" "pf_id f = ucast (ch_rxid (ch v))" using f by (simp_all add: unit_frame_def)
  note parts = with_nr_parts [OF x, of nr]
  have l1: "listening typ pid (nr + 1) ?v1" using l by (simp add: listening_def touch_def)
  have h1: "vw_header (length d) ?D (v_poll ?v1) = (n, u)" unfolding h [symmetric] by (rule vw_header_cong) (simp_all add: touch_def)
  have p1: "mlframe (v_poll ?v1) = mlframe (v_poll v)" "mlremain (v_poll ?v1) = mlremain (v_poll v)" "outs (v_poll ?v1) = outs (v_poll v)"
    "acks (ch ?v1) = acks (ch v)" "same_channel (ch v) (ch ?v1)" "vstate ?v1 = VWTP_Receive"
    using vs by (simp_all add: touch_def acks_def channel_frame_def fun_eq_iff same_channel_def)
  have x0: "?D ! 0 AND 0xf0 = x" using parts(1) f0 by simp
  obtain w pk where w: "recv_data now' (length d) ?D (pf_id f) ?v1 = map_option Break (more_or_idle now' (u_datalen u) w)" "ch w = ch ?v1"
    "p_type (v_poll w) = typ" "p_pid (v_poll w) = pid" "mlremain (v_poll w) = len - ucast n" "mlframe (v_poll w) = mlframe (v_poll v)"
    "outs (v_poll w) = outs (v_poll v) @ map Write (acks (ch v) x (nr + 1)) @ [Packet pk]"
    and pk: "pk_data pk = data" "pk_frame pk = mlframe (v_poll v)" "pk_remain pk = len - ucast n"
    using data_taken [OF l1 h1 u data x0, where now = now' and msgid = "pf_id f"] unfolding p1 len_def by (elim exE conjE)
  have "recv_receive now now' (length d) ?D (pf_id f) ?v0 = recv_data now' (length d) ?D (pf_id f) ?v1"
    unfolding recv_receive_def Let_def f0 using parts vs by (simp add: touch_def)
  then have rr: "recv_receive now now' (length d) ?D (pf_id f) ?v0 = map_option Break (more_or_idle now' (u_datalen u) w)"
    using w(1) by simp
  let ?r = "len - ucast n"
  let ?w = "if ?r \<noteq> 0 then wait_2s now' (on_poll (\<lambda>p. p\<lparr>mlframe := mlframe p + 1, mloffset := mloffset p + u_datalen u\<rparr>) w)
    else enter_idle now' w"
  have sw: "vstate w = VWTP_Receive" "same_channel (ch v) (ch w)" "ch_rxseqnr (ch w) = nr + 1" "ch_bus (ch w) \<noteq> 0"
    using w(2) p1(5,6) vs(2) by (simp_all add: touch_def same_channel_def)
  have m: "more_or_idle now' (u_datalen u) w = Some ?w"
    unfolding more_or_idle_def w(5) PollerVWTPEnter_def sw(1) by simp
  have "outs (v_poll ?w) = outs (v_poll w)"
    by (simp add: wait_2s_def SetPollWaiting_def enter_idle_def ResetPollWaiting_def set_state_def touch_def)
  note ow = this [unfolded w(7)]
  have wait: "GetPollWaiting now' (v_poll ?w) \<longleftrightarrow> ?r \<noteq> 0"
    using clock_waiting [OF clock]
    by (simp add: wait_2s_def enter_idle_def GetPollWaiting_def ResetPollWaiting_def)
  let ?u = "if \<not> GetPollWaiting now' (v_poll ?w) then on_poll (PollerSucceededPollNext can_poll now') ?w else ?w"
  let ?v' = "on_poll (\<lambda>p. p\<lparr>raw_data := (0, 0)\<rparr>) ?u"
  have "PollerVWTPReceive can_poll now now' (length d) ?D (pf_id f) ?v0 = Some (True, ?u)"
    unfolding PollerVWTPReceive_def using vs rr m id by simp
  then have inc: "Incoming_frame polls can_poll now now' (length d) f v = Some (True, ?v')"
    unfolding Incoming_frame_def using vs(1) id by simp
  have took: "took now' typ pid nr ?r v ?v'"
  proof (cases "?r = 0")
    case True
    then show ?thesis
      using sw wait by (simp add: took_def enter_idle_def PollerSucceededPollNext_def Let_def emit_def set_state_def touch_def
        same_channel_def ResetPollWaiting_def)
  next
    case False
    then show ?thesis
      using sw wait w(3-6) by (simp add: took_def wait_2s_def same_channel_def SetPollWaiting_def listening_def)
  qed
  obtain q where q: "outs (PollerSucceededPollNext can_poll now' (v_poll ?w)) = outs (v_poll ?w) @ q" using next_poll_outs by blast
  have "\<exists>q. outs (v_poll ?v') = outs (v_poll v) @ map Write (acks (ch v) x (nr + 1)) @ [Packet pk] @ q \<and> set q \<subseteq> {QueueSend}"
  proof (cases "?r = 0")
    case True
    then show ?thesis using wait q next_poll [OF q] ow by (intro exI [of _ q]) simp
  next
    case False
    then show ?thesis using wait ow by (intro exI [of _ "[]"]) simp
  qed
  then show ?thesis using inc took pk by (elim exE conjE) (intro exI conjI; assumption)
qed

text \<open>The frames of a response: the parts of the message behind opcodes with running numbers.\<close>

definition delivers ::
  "bool \<Rightarrow> bool \<Rightarrow> u32 \<Rightarrow> u32 \<Rightarrow> u16 \<Rightarrow> u16 \<Rightarrow> u32 \<Rightarrow> u8 \<Rightarrow> poll_frame \<Rightarrow> bytes \<Rightarrow> bytes \<Rightarrow> nat \<Rightarrow> vwtp \<Rightarrow> bool" where
  "delivers polls can_poll now now' typ pid nr x f d part left v \<longleftrightarrow>
     (\<exists>v' pk q. Incoming_frame polls can_poll now now' (length d) f v = Some (True, v') \<and>
       took now' typ pid nr (pk_remain pk) v v' \<and>
       outs (v_poll v') = outs (v_poll v) @ map Write (acks (ch v) x (nr + 1)) @ [Packet pk] @ q \<and> set q \<subseteq> {QueueSend} \<and>
       pk_data pk = part \<and> pk_frame pk = mlframe (v_poll v) \<and> unat (pk_remain pk) = left)"

lemma frame_delivers:
  assumes "listening typ pid nr v" "unit_frame (ch v) f d" "x \<in> data_ops" "d \<noteq> []" "d ! 0 = with_nr x nr" "clock_ok now'"
    and "vw_header (length d) (pf_data f) (v_poll v) = (n, u)"
    and "\<not> (u_type u = UDS_RESP_TYPE_NRC \<and> uint (u_error_type u) = uint typ)" "uint (u_type u) = 0x40 + uint typ" "u_pid u = pid"
    and "rdn (pf_data f) (u_pos u) (unat (ucast (u_datalen u) :: u8)) = Some part"
    and len: "(if mlframe (v_poll v) = 0 then push_bit 8 (ucast (pf_data f ! 1 AND 0x0f)) OR ucast (pf_data f ! 2) else mlremain (v_poll v)) = len"
    and left: "unat (len - ucast n) = left"
  shows "delivers polls can_poll now now' typ pid nr x f d part left v"
proof -
  obtain v' pk q where "Incoming_frame polls can_poll now now' (length d) f v = Some (True, v')" "took now' typ pid nr (len - ucast n) v v'"
    "outs (v_poll v') = outs (v_poll v) @ map Write (acks (ch v) x (nr + 1)) @ [Packet pk] @ q" "set q \<subseteq> {QueueSend}"
    "pk_data pk = part" "pk_frame pk = mlframe (v_poll v)" "pk_remain pk = len - ucast n"
    using frame_taken [OF assms(1-11), of polls can_poll now] unfolding len by (elim exE conjE)
  then show ?thesis using left unfolding delivers_def by (intro exI [of _ v'] exI [of _ pk] exI [of _ q] conjI) simp_all
qed

lemma next_delivers:
  assumes l: "listening typ pid nr v" and fr: "mlframe (v_poll v) \<noteq> 0" and r: "unat (mlremain (v_poll v)) = length rest" "rest \<noteq> []"
    and ty: "typ \<noteq> 0" "typ < 0xC0" and x: "x \<in> data_ops" and clock: "clock_ok now'"
    and d: "d = with_nr x nr # take 7 rest" and f: "unit_frame (ch v) f d"
  shows "delivers polls can_poll now now' typ pid nr x f d (take 7 rest) (length (drop 7 rest)) v"
proof -
  let ?n = "of_nat (length d) - 1 :: u8"
  have pt: "p_type (v_poll v) = typ" "p_pid (v_poll v) = pid" using l by (simp_all add: listening_def)
  have n: "?n = of_nat (length (take 7 rest))" unfolding d by simp
  have un: "unat ?n = length (take 7 rest)" unfolding n by (rule unat_word_of_nat_u8) simp
  let ?u = "\<lparr>u_type = ucast (0x40 + typ), u_pid = pid, u_pos = 1, u_datalen = ucast ?n, u_error_type = 0, u_error_code = 0\<rparr>"
  have h: "vw_header (length d) (pf_data f) (v_poll v) = (?n, ?u)" using fr by (simp add: vw_header_def Let_def pt)
  have u: "\<not> (u_type ?u = UDS_RESP_TYPE_NRC \<and> uint (u_error_type ?u) = uint typ)" "uint (u_type ?u) = 0x40 + uint typ" "u_pid ?u = pid"
    using ty answer_type [OF ty(2)] by (simp_all add: uint_0_iff)
  have len: "unat (ucast (u_datalen ?u) :: u8) = length (take 7 rest)" using un by simp
  have "rdn (pf_data f) 1 (length (take 7 rest)) = Some (drop 1 d)" by (rule unit_rdn [OF f]) (simp add: d)
  then have data: "rdn (pf_data f) (u_pos ?u) (unat (ucast (u_datalen ?u) :: u8)) = Some (take 7 rest)" unfolding len by (simp add: d)
  have "unat (mlremain (v_poll v) - ucast ?n) = length (drop 7 rest)"
    by (rule remain_after [OF _ un]) (simp add: r(1))
  note left = this
  show ?thesis by (rule frame_delivers [OF l f x _ _ clock h u data _ left]) (simp_all add: d fr)
qed

text \<open>The head of a first frame is read like that of an ISO-TP frame whose message begins at byte 3.\<close>

lemma vw_header_uds:
  "mlframe p = 0 \<Longrightarrow> vw_header dlc (pf_data f) p =
     (of_nat dlc - 3, uds_header ISOTP_FT_FIRST \<lparr>tp_index = 0, tp_len = 0, tp_pos = 3, tp_datalen = of_nat dlc - 3\<rparr> f p)"
  by (simp add: vw_header_def uds_header_def Let_def)

lemma first_delivers:
  assumes l: "listening typ pid nr v" and fr: "mlframe (v_poll v) = 0" and a: "answerable typ pid" and x: "x \<in> data_ops" and clock: "clock_ok now'"
    and msg: "msg = response_head typ pid @ payload" "length msg < 4096"
    and d: "d = with_nr x nr # take 7 (with_length msg)" and f: "unit_frame (ch v) f d"
  shows "delivers polls can_poll now now' typ pid nr x f d (take (5 - length (response_head typ pid)) payload) (length (drop 7 (with_length msg))) v"
proof -
  let ?hd = "response_head typ pid" and ?n = "of_nat (length d) - 3 :: u8"
  let ?part = "take (5 - length ?hd) payload"
  have pt: "p_type (v_poll v) = typ" "p_pid (v_poll v) = pid" using l by (simp_all add: listening_def)
  have hl: "length ?hd \<le> 3" "0 < length ?hd" by (rule header_length)+
  have cut: "take 5 msg = ?hd @ ?part" using hl by (simp add: msg(1))
  have d': "d = with_nr x nr # of_nat (length msg div 256) # of_nat (length msg mod 256) # ?hd @ ?part"
    unfolding d with_length_def cut [symmetric] by simp
  have ld: "length d = 3 + length (?hd @ ?part)" by (simp add: d')
  have n: "?n = of_nat (length (?hd @ ?part))" unfolding ld by simp
  have un: "unat ?n = length (?hd @ ?part)" unfolding n by (rule unat_word_of_nat_u8) (use hl in simp)
  let ?i = "\<lparr>i_proto = 0, i_bus = pf_origin f, i_low = pf_id f, i_high = pf_id f, i_sent = 0, i_type = typ, i_pid = pid\<rparr>"
  let ?tp = "\<lparr>tp_index = 0, tp_len = 0, tp_pos = 3, tp_datalen = ?n\<rparr>"
  let ?u = "uds_header ISOTP_FT_FIRST ?tp f (v_poll v)"
  have i: "i_start ?i = 0" "i_maxlen ?i = 8" by (simp_all add: i_start_def i_maxlen_def)
  have w: "on_wire ?i f (pf_data f)" using f by (simp add: on_wire_def unit_frame_def i_start_def i_maxlen_def msgid_of_def)
  have "take (length (?hd @ ?part)) (drop 3 (pf_data f)) = drop 3 (take (length d) (pf_data f))" unfolding ld by (simp add: drop_take)
  also have "\<dots> = drop 3 d" using f by (simp add: unit_frame_def)
  also have "\<dots> = ?hd @ ?part" by (simp add: d')
  finally have fit: "take (length (?hd @ ?part)) (drop 3 (pf_data f)) = ?hd @ ?part" .
  have room: "3 + length (?hd @ ?part) \<le> 8" using hl by simp
  have u: "uint (u_type ?u) = 0x40 + uint typ" "u_type ?u \<noteq> UDS_RESP_TYPE_NRC" "u_pid ?u = pid"
    "rdn (pf_data f) (u_pos ?u) (unat (ucast (u_datalen ?u) :: u8)) = Some ?part"
    using uds_header_first [OF w, of "v_poll v" ISOTP_FT_FIRST ?tp 3 ?part] a pt un fit room unfolding i by simp_all
  have len: "(if mlframe (v_poll v) = 0 then push_bit 8 (ucast (pf_data f ! 1 AND 0x0f)) OR ucast (pf_data f ! 2) else mlremain (v_poll v)) = of_nat (length msg)"
  proof -
    have "pf_data f ! 1 = of_nat (length msg div 256)" "pf_data f ! 2 = of_nat (length msg mod 256)"
      using unit_nth [OF f, of 1] unit_nth [OF f, of 2] by (simp_all add: d')
    moreover have "\<forall>q < 16. (of_nat q :: u8) AND 0x0f = (0x10 + of_nat q) AND 0x0f" by (simp add: all_less_16 all_less_8)
    moreover have "length msg div 256 < 16" using msg(2) by simp
    ultimately show ?thesis using first_pci(2) [of "length msg"] msg(2) fr by simp
  qed
  have lm: "unat (of_nat (length msg) :: u16) = length msg" using msg(2) by (intro unat_word_of_nat_u16) simp
  have "length msg = length (?hd @ ?part) + length (drop 7 (with_length msg))"
    unfolding cut [symmetric] by (simp add: with_length_def)
  then have left: "unat (of_nat (length msg) - ucast ?n :: u16) = length (drop 7 (with_length msg))"
    by (rule remain_after [OF trans [OF lm] un])
  show ?thesis
    by (rule frame_delivers [OF l f x _ _ clock vw_header_uds [OF fr] _ u(1,3,4) len left]) (use u(2) in \<open>simp_all add: d'\<close>)
qed

subsection \<open>A whole response\<close>

fun response_frames :: "u32 \<Rightarrow> u8 list \<Rightarrow> bytes list \<Rightarrow> bytes list" where
  "response_frames nr (x # xs) (c # cs) = (with_nr x nr # c) # response_frames (nr + 1) xs cs"
| "response_frames _ _ _ = []"

fun response_acks :: "vwtp_channel \<Rightarrow> u32 \<Rightarrow> u8 list \<Rightarrow> poll_frame list" where
  "response_acks c nr [] = []"
| "response_acks c nr (x # xs) = acks c x (nr + 1) @ response_acks c (nr + 1) xs"

text \<open>A sequence of frames of the channel with their times and DLC.\<close>

fun recv_stream :: "bool \<Rightarrow> bool \<Rightarrow> (u32 \<times> u32 \<times> nat \<times> poll_frame) list \<Rightarrow> vwtp \<Rightarrow> vwtp option" where
  "recv_stream polls can_poll [] v = Some v"
| "recv_stream polls can_poll ((now, now', dlc, f) # fs) v = do {
     (ret, v1) \<leftarrow> Incoming_frame polls can_poll now now' dlc f v;
     recv_stream polls can_poll fs v1 }"

definition sent_by_unit :: "vwtp_channel \<Rightarrow> (u32 \<times> u32 \<times> nat \<times> poll_frame) list \<Rightarrow> bytes list \<Rightarrow> bool" where
  "sent_by_unit c tfs ds \<longleftrightarrow>
     list_all2 (\<lambda>(now, now', dlc, f) d. clock_ok now' \<and> dlc = length d \<and> unit_frame c f d) tfs ds"

lemma sent_by_unit_Cons:
  assumes "sent_by_unit c tfs (d # ds)"
  obtains now now' f tfs' where "tfs = (now, now', length d, f) # tfs'" "clock_ok now'" "unit_frame c f d" "sent_by_unit c tfs' ds"
  using assms by (auto simp: sent_by_unit_def list_all2_Cons2)

lemma sent_by_unit_channel: "same_channel c c' \<Longrightarrow> sent_by_unit c' = sent_by_unit c"
  using same_channel_frames [of c c'] by (simp add: sent_by_unit_def fun_eq_iff)

lemma response_acks_channel: "same_channel c c' \<Longrightarrow> response_acks c' nr xs = response_acks c nr xs"
  using same_channel_frames [of c c'] by (induction xs arbitrary: nr) (simp_all add: acks_def)

lemma writes_acks [simp]: "writes (map Write fs) = fs"
  by (induction fs) simp_all

lemma quiet_nexts: "set q \<subseteq> {QueueSend} \<Longrightarrow> writes q = [] \<and> fold series_out q s = s"
  by (induction q arbitrary: s) auto

lemma series_writes: "fold series_out (map Write fs) s = s"
  by (induction fs) simp_all

definition finished :: "vwtp \<Rightarrow> out list \<Rightarrow> poll_frame list \<Rightarrow> packet_series \<Rightarrow> bytes \<Rightarrow> vwtp \<Rightarrow> bool" where
  "finished v l w q msg v' \<longleftrightarrow> vstate v' = VWTP_Idle \<and> same_channel (ch v) (ch v') \<and> wait_timeout (v_poll v') = 0 \<and>
     outs (v_poll v') = outs (v_poll v) @ l \<and> writes l = w \<and>
     fold series_out l q = q\<lparr>ps_data := [], ps_success := ps_success q @ [msg]\<rparr>"

lemma finished_prepend:
  assumes "outs (v_poll v1) = outs (v_poll v) @ l1" "same_channel (ch v) (ch v1)" "fold series_out l1 q = q\<lparr>ps_data := d\<rparr>"
    and "finished v1 l2 (response_acks (ch v1) nr xs) (q\<lparr>ps_data := d\<rparr>) msg v'"
  shows "finished v (l1 @ l2) (writes l1 @ response_acks (ch v) nr xs) q msg v'"
  using assms response_acks_channel [OF assms(2)] by (simp add: finished_def same_channel_def)

lemma rest_delivered:
  assumes "listening typ pid nr v" "typ \<noteq> 0" "typ < 0xC0" "mlframe (v_poll v) = of_nat k" "0 < k" "k + length rest < 65536"
    and "unat (mlremain (v_poll v)) = length rest" "rest \<noteq> []" "set xs \<subseteq> data_ops" "length xs = length (chunks 7 rest)"
    and "sent_by_unit (ch v) tfs (response_frames nr xs (chunks 7 rest))"
  shows "\<exists>v' l. recv_stream polls can_poll tfs v = Some v' \<and> finished v l (response_acks (ch v) nr xs) q (ps_data q @ rest) v'"
  using assms
proof (induction xs arbitrary: tfs v nr k rest q)
  case Nil
  then show ?case by (simp add: chunks_step)
next
  case (Cons x xs)
  have cs: "chunks 7 rest = take 7 rest # chunks 7 (drop 7 rest)" using Cons.prems(8) by (simp add: chunks_step)
  let ?d = "with_nr x nr # take 7 rest" and ?rest = "drop 7 rest"
  obtain now now' f tfs' where tfs: "tfs = (now, now', length ?d, f) # tfs'" "clock_ok now'" "unit_frame (ch v) f ?d"
    "sent_by_unit (ch v) tfs' (response_frames (nr + 1) xs (chunks 7 ?rest))"
    using Cons.prems(11) unfolding cs response_frames.simps(1) by (rule sent_by_unit_Cons)
  have uk: "unat (of_nat k :: u16) = k" using Cons.prems(6) by (intro unat_word_of_nat_u16) simp
  then have nz: "mlframe (v_poll v) \<noteq> 0" using Cons.prems(4,5) by auto
  have x: "x \<in> data_ops" "set xs \<subseteq> data_ops" using Cons.prems(9) by simp_all
  obtain v1 pk q1 where inc: "Incoming_frame polls can_poll now now' (length ?d) f v = Some (True, v1)"
    and t: "took now' typ pid nr (pk_remain pk) v v1"
    and o: "outs (v_poll v1) = outs (v_poll v) @ map Write (acks (ch v) x (nr + 1)) @ [Packet pk] @ q1" "set q1 \<subseteq> {QueueSend}"
    and pk: "pk_data pk = take 7 rest" "pk_frame pk = mlframe (v_poll v)" "unat (pk_remain pk) = length ?rest"
    using next_delivers [OF Cons.prems(1) nz Cons.prems(7,8,2,3) x(1) tfs(2) refl tfs(3), of polls can_poll now] unfolding delivers_def by (elim exE conjE)
  have sc: "same_channel (ch v) (ch v1)" using t by (simp add: took_def)
  have z: "pk_remain pk = 0 \<longleftrightarrow> ?rest = []" using pk(3) by (metis length_0_conv unat_eq_zero)
  let ?l = "map Write (acks (ch v) x (nr + 1)) @ [Packet pk] @ q1"
  have step: "recv_stream polls can_poll tfs v = recv_stream polls can_poll tfs' v1" unfolding tfs(1) using inc by simp
  show ?case
  proof (cases "?rest = []")
    case True
    then have "xs = []" "tfs' = []" using Cons.prems(10) tfs(4) cs by (simp_all add: sent_by_unit_def)
    moreover have "take 7 rest = rest" "pk_remain pk = 0" using True z by simp_all
    moreover have "vstate v1 = VWTP_Idle" "wait_timeout (v_poll v1) = 0" using t \<open>pk_remain pk = 0\<close> by (simp_all add: took_def)
    moreover have "writes ?l = acks (ch v) x (nr + 1)" "fold series_out ?l q = series_packet pk q"
      using quiet_nexts [OF o(2)] by (simp_all add: series_writes)
    moreover have "pk_frame pk \<noteq> 0" using pk(2) nz by simp
    ultimately show ?thesis
      using step o(1) sc pk(1) by (intro exI [of _ v1] exI [of _ ?l]) (simp add: finished_def series_last)
  next
    case False
    then have r0: "pk_remain pk \<noteq> 0" using z by simp
    then have l1: "listening typ pid (nr + 1) v1" "mlremain (v_poll v1) = pk_remain pk" "mlframe (v_poll v1) = of_nat (k + 1)"
      using t Cons.prems(4) by (simp_all add: took_def)
    have k1: "k + 1 + length ?rest < 65536" using Cons.prems(6) False by simp
    have lx: "length xs = length (chunks 7 ?rest)" using Cons.prems(10) cs by simp
    have un: "unat (mlremain (v_poll v1)) = length ?rest" using l1(2) pk(3) by simp
    let ?q = "q\<lparr>ps_data := ps_data q @ take 7 rest\<rparr>"
    have q: "fold series_out ?l q = ?q" using series_more [OF _ r0] pk(1,2) nz quiet_nexts [OF o(2)] by (simp add: series_writes)
    obtain v' l where ih: "recv_stream polls can_poll tfs' v1 = Some v'"
      "finished v1 l (response_acks (ch v1) (nr + 1) xs) ?q (ps_data q @ rest) v'"
      using Cons.IH [OF l1(1) Cons.prems(2,3) l1(3) _ k1 un False x(2) lx, of tfs' ?q] tfs(4) sent_by_unit_channel [OF sc] by auto
    have "writes ?l = acks (ch v) x (nr + 1)" using quiet_nexts [OF o(2)] by simp
    then show ?thesis
      using finished_prepend [OF o(1) sc q ih(2)] ih(1) step by (intro exI [of _ v'] exI [of _ "?l @ l"]) simp
  qed
qed

text \<open>A response over the VW protocol is delivered whole: the message (head and payload, behind its
  length) arrives in frames of up to seven bytes with running sequence numbers, under any choice of
  the opcodes 0x00 to 0x30, on a channel that waits for a response.  Then no access leaves a
  buffer, the poll series gets exactly the payload, the poller writes one acknowledgement, with the number of the next
  frame, for each frame that asks for one and nothing else, and the channel is idle with nothing waited for.\<close>

lemma response_received:
  assumes "listening typ pid nr v" "mlframe (v_poll v) = 0" "answerable typ pid"
    and "length (response_head typ pid @ payload) < 4096"
    and "set xs \<subseteq> data_ops" "length xs = length (chunks 7 (with_length (response_head typ pid @ payload)))"
    and "sent_by_unit (ch v) tfs (response_frames nr xs (chunks 7 (with_length (response_head typ pid @ payload))))"
  shows "\<exists>v' l. recv_stream polls can_poll tfs v = Some v' \<and> finished v l (response_acks (ch v) nr xs) q payload v'"
proof -
  let ?hd = "response_head typ pid"
  let ?msg = "?hd @ payload"
  let ?tel = "with_length ?msg" and ?rest = "drop 7 (with_length (?hd @ payload))"
  have cs: "chunks 7 ?tel = take 7 ?tel # chunks 7 ?rest" by (rule chunks_step) (simp_all add: with_length_def)
  have ty: "typ \<noteq> 0" "typ < 0xC0" using assms(3) by (auto simp: answerable_def)
  obtain x xs' where xs: "xs = x # xs'" using assms(6) cs by (cases xs) simp_all
  let ?d = "with_nr x nr # take 7 ?tel"
  obtain now now' f tfs' where tfs: "tfs = (now, now', length ?d, f) # tfs'" "clock_ok now'" "unit_frame (ch v) f ?d"
    "sent_by_unit (ch v) tfs' (response_frames (nr + 1) xs' (chunks 7 ?rest))"
    using assms(7) unfolding cs xs response_frames.simps(1) by (rule sent_by_unit_Cons)
  have x: "x \<in> data_ops" "set xs' \<subseteq> data_ops" using assms(5) xs by simp_all
  obtain v1 pk q1 where inc: "Incoming_frame polls can_poll now now' (length ?d) f v = Some (True, v1)"
    and t: "took now' typ pid nr (pk_remain pk) v v1"
    and o: "outs (v_poll v1) = outs (v_poll v) @ map Write (acks (ch v) x (nr + 1)) @ [Packet pk] @ q1" "set q1 \<subseteq> {QueueSend}"
    and pk: "pk_data pk = take (5 - length ?hd) payload" "pk_frame pk = mlframe (v_poll v)" "unat (pk_remain pk) = length ?rest"
    using first_delivers [OF assms(1-3) x(1) tfs(2) refl assms(4) refl tfs(3), of polls can_poll now] unfolding delivers_def by (elim exE conjE)
  have hl: "length ?hd \<le> 3" by (rule header_length)
  have rest: "?rest = drop (5 - length ?hd) payload" using hl by (simp add: with_length_def)
  have sc: "same_channel (ch v) (ch v1)" using t by (simp add: took_def)
  have z: "pk_remain pk = 0 \<longleftrightarrow> ?rest = []" using pk(3) by (metis length_0_conv unat_eq_zero)
  let ?l = "map Write (acks (ch v) x (nr + 1)) @ [Packet pk] @ q1"
  have step: "recv_stream polls can_poll tfs v = recv_stream polls can_poll tfs' v1" unfolding tfs(1) using inc by simp
  note ql = quiet_nexts [OF o(2)] series_writes
  show ?thesis
  proof (cases "?rest = []")
    case True
    then have "xs' = []" "tfs' = []" using assms(6) tfs(4) cs xs by (simp_all add: sent_by_unit_def)
    moreover have "take (5 - length ?hd) payload = payload" using True unfolding rest by simp
    moreover have "pk_remain pk = 0" using True z by simp
    moreover have "vstate v1 = VWTP_Idle" "wait_timeout (v_poll v1) = 0" using t \<open>pk_remain pk = 0\<close> by (simp_all add: took_def)
    moreover have "fold series_out ?l q = series_packet pk q" "writes ?l = acks (ch v) x (nr + 1)" using ql by simp_all
    ultimately show ?thesis
      using step o(1) sc pk(1,2) assms(2) xs by (intro exI [of _ v1] exI [of _ ?l]) (simp add: finished_def series_packet_def)
  next
    case False
    then have r0: "pk_remain pk \<noteq> 0" using z by simp
    then have l1: "listening typ pid (nr + 1) v1" "mlremain (v_poll v1) = pk_remain pk" "mlframe (v_poll v1) = of_nat 1"
      using t assms(2) by (simp_all add: took_def)
    have k1: "1 + length ?rest < 65536" using assms(4) by (simp add: rest)
    have lx: "length xs' = length (chunks 7 ?rest)" using assms(6) cs xs by simp
    have un: "unat (mlremain (v_poll v1)) = length ?rest" using l1(2) pk(3) by simp
    let ?q = "q\<lparr>ps_data := take (5 - length ?hd) payload\<rparr>"
    have q: "fold series_out ?l q = ?q" using r0 pk(1,2) assms(2) ql by (simp add: series_packet_def)
    have whole: "take (5 - length ?hd) payload @ ?rest = payload" unfolding rest by simp
    obtain v' l where ih: "recv_stream polls can_poll tfs' v1 = Some v'"
      "finished v1 l (response_acks (ch v1) (nr + 1) xs') ?q payload v'"
      using rest_delivered [OF l1(1) ty l1(3) _ k1 un False x(2) lx, of tfs' polls can_poll ?q]
        tfs(4) sent_by_unit_channel [OF sc] by (auto simp: whole)
    show ?thesis
      using finished_prepend [OF o(1) sc q ih(2)] ih(1) step ql by (intro exI [of _ v'] exI [of _ "?l @ l"]) (simp add: xs)
  qed
qed

end
