(* ===== verification/VwtpPoll.thy ===== *)
theory VwtpPoll
  imports VwtpResponse
begin

section \<open>VW transport protocol 2.0: a poll from the closed channel to the response\<close>

text \<open>
  The four frames that open a channel and send a request, one after the other, and the whole
  poll.  The unit assigns the ids and the parameters of the channel; any of its answers will do.
\<close>

unbundle bit_operations_syntax

text \<open>The channel follows the poll entry \<open>e\<close>, with \<open>w\<close> written so far and no packet yet.\<close>

definition polling :: "poll_entry \<Rightarrow> nat \<Rightarrow> vwtp \<Rightarrow> bool" where
  "polling e b v \<longleftrightarrow> p_type (v_poll v) = en_type e \<and> p_pid (v_poll v) = en_pid e \<and> e_type (v_poll v) = en_type e \<and>
     e_pid v = en_pid e \<and> e_args (v_poll v) = en_args e \<and> ch_bus (ch v) = b \<and> b \<noteq> 0 \<and> ch_rxseqnr (ch v) = 0"

definition fresh :: "vwtp \<Rightarrow> bool" where
  "fresh v \<longleftrightarrow> ch_txseqnr (ch v) = 0"

definition setup_frame :: "poll_entry \<Rightarrow> nat \<Rightarrow> poll_frame" where
  "setup_frame e b =
     (let base = ucast (en_tx e) :: u16; m = ucast (en_rx e); offer = base + 0x100 in
      \<lparr>pf_origin = b, pf_ext = False, pf_id = ucast base,
       pf_data = [m, 0xC0, 0x00, 0x10, ucast (offer AND 0xff), ucast (drop_bit 8 offer), 0x01]\<rparr>)"

lemma setup_sent:
  assumes "ch v = closed_channel" "m_bus (v_poll v) = b" "b \<noteq> 0" "en_protocol e = 20" "en_rx e \<noteq> 0"
  shows "\<exists>v'. dispatch now now' e v = Some v' \<and> vstate v' = VWTP_ChannelSetup \<and> polling e b v' \<and> fresh v' \<and>
    ch_rxid (ch v') = ucast (en_tx e) + ucast (ucast (en_rx e) :: u8) \<and>
    outs (v_poll v') = outs (v_poll v) @ [Write (setup_frame e b)]"
  using assms
  by (simp add: dispatch_def load_entry_def PollerVWTPStart_def channel_fits_def touch_def closed_channel_def
    PollerVWTPEnter_def enter_setup_def vw_write_def Let_def wait_2s_def set_state_def expect_answer_def
    SetPollWaiting_def polling_def fresh_def emit_def setup_frame_def channel_frame_def)

definition word_le :: "u8 \<times> u8 \<Rightarrow> u16" where
  "word_le b = push_bit 8 (ucast (snd b)) OR ucast (fst b)"

text \<open>The unit accepts with status 0xD0 and assigns the two ids.\<close>

lemma setup_accepted:
  assumes v: "vstate v = VWTP_ChannelSetup" "polling e b v" "fresh v" and clock: "clock_ok now'"
    and f: "unit_frame (ch v) f [x0, 0xD0, fst rx, snd rx, fst tx, snd tx, x6]"
  defines "c \<equiv> (ch v)\<lparr>ch_rxid := word_le rx, ch_txid := word_le tx\<rparr>"
  shows "\<exists>v'. Incoming_frame polls can_poll now now' 7 f v = Some (True, v') \<and> vstate v' = VWTP_ChannelParams \<and>
    polling e b v' \<and> fresh v' \<and> same_channel c (ch v') \<and>
    outs (v_poll v') = outs (v_poll v) @ [Write (channel_frame c [0xA0, 0x0F, 0x8A, 0xFF, 0x0A, 0xFF])]"
proof -
  let ?D = "pf_data f"
  have D: "?D ! 1 = 0xD0" "?D ! 2 = fst rx" "?D ! 3 = snd rx" "?D ! 4 = fst tx" "?D ! 5 = snd tx"
    using unit_nth [OF f, of 1] unit_nth [OF f, of 2] unit_nth [OF f, of 3] unit_nth [OF f, of 4] unit_nth [OF f, of 5] by simp_all
  have id: "pf_origin f = ch_bus (ch v)" "pf_id f = ucast (ch_rxid (ch v))" using f by (simp_all add: unit_frame_def)
  have bus: "ch_bus (ch v) \<noteq> 0" using v(2) by (simp add: polling_def)
  let ?v0 = "on_poll (\<lambda>p. p\<lparr>raw_data := (0, 8)\<rparr>) v"
  let ?v1 = "on_ch (\<lambda>_. c) ?v0"
  let ?v2 = "on_poll (emit (Write (channel_frame c [0xA0, 0x0F, 0x8A, 0xFF, 0x0A, 0xFF])))
    (set_state VWTP_ChannelParams (wait_2s now' (expect_answer ?v1)))"
  have "recv_setup now' 7 ?D ?v0 = Some (Break ?v2)"
    unfolding recv_setup_def Let_def D PollerVWTPEnter_def
    using v(1) bus by (simp add: enter_params_def vw_write_def c_def word_le_def on_ch_def on_poll_def set_state_def wait_2s_def expect_answer_def
      channel_frame_def Let_def)
  moreover have "GetPollWaiting now' (v_poll ?v2)"
    using clock_waiting [OF clock] by (simp add: wait_2s_def set_state_def emit_def GetPollWaiting_def)
  ultimately have "Incoming_frame polls can_poll now now' 7 f v = Some (True, on_poll (\<lambda>p. p\<lparr>raw_data := (0, 0)\<rparr>) ?v2)"
    unfolding Incoming_frame_def PollerVWTPReceive_def using id bus v(1) by simp
  moreover have "vstate ?v2 = VWTP_ChannelParams \<and> polling e b ?v2 \<and> fresh ?v2 \<and> same_channel c (ch ?v2)"
    using v(2,3) by (simp add: wait_2s_def set_state_def expect_answer_def SetPollWaiting_def polling_def fresh_def same_channel_def c_def emit_def Let_def)
  ultimately show ?thesis
    by (intro exI [of _ "on_poll (\<lambda>p. p\<lparr>raw_data := (0, 0)\<rparr>) ?v2"])
      (simp add: polling_def fresh_def wait_2s_def set_state_def expect_answer_def SetPollWaiting_def emit_def Let_def)
qed

text \<open>The parameters of the unit: block size and times.  The request follows at once, in the limits of the
  block.\<close>

definition poll_message :: "poll_entry \<Rightarrow> bytes" where
  "poll_message e = ucast (en_type e) # pid_bytes (en_type e) (en_pid e) @
     take (unat (args_len (en_args e))) (args_data (en_args e))"

lemma params_accepted:
  assumes v: "vstate v = VWTP_ChannelParams" "polling e b v" "fresh v" and clock: "clock_ok now'"
    and f: "unit_frame (ch v) f [0xA1, bs, t1, y3, t2, y5]" and bs: "bs \<noteq> 0" and a: "args_ok (en_args e)"
  defines "F \<equiv> block_frames (unat bs) 0 (chunks 7 (with_length (poll_message e)))"
  shows "\<exists>v'. Incoming_frame polls can_poll now now' 6 f v = Some (True, v') \<and> vstate v' = VWTP_Transmit \<and>
    polling e b v' \<and> same_channel (ch v) (ch v') \<and> mlframe (v_poll v') = 0 \<and>
    unat (tx_remain (v_poll v')) = length (drop (7 * unat bs) (with_length (poll_message e))) \<and>
    sends (map (channel_frame (ch v)) F) v v'"
proof -
  let ?D = "pf_data f"
  have D: "?D ! 0 = 0xA1" "?D ! 1 = bs" using unit_nth [OF f, of 0] unit_nth [OF f, of 1] by simp_all
  have id: "pf_origin f = ch_bus (ch v)" "pf_id f = ucast (ch_rxid (ch v))" using f by (simp_all add: unit_frame_def)
  have bus: "ch_bus (ch v) \<noteq> 0" using v(2) by (simp add: polling_def)
  let ?v0 = "on_poll (\<lambda>p. p\<lparr>raw_data := (0, 8)\<rparr>) v"
  define v1 where "v1 = on_ch (\<lambda>c. c\<lparr>ch_blocksize := bs, ch_acktime := param_time (?D ! 2), ch_septime := param_time (?D ! 4)\<rparr>) ?v0"
  have v1: "e_args (v_poll v1) = en_args e" "ch_bus (ch v1) \<noteq> 0" "ch_blocksize (ch v1) = bs" "vstate v1 = VWTP_ChannelParams"
    "ch_txseqnr (ch v1) = 0" "outs (v_poll v1) = outs (v_poll v)" "vw_request v1 = poll_message e" "polling e b v1"
    "same_channel (ch v) (ch v1)"
    using v by (simp_all add: v1_def polling_def fresh_def vw_request_def Let_def poll_message_def same_channel_def)
  have cf: "channel_frame (ch v1) = channel_frame (ch v)" using same_channel_frames [OF v1(9)] by simp
  obtain v2 where v2: "PollerVWTPEnter now' VWTP_StartPoll v1 = Some v2"
    "v2 = v1\<lparr>v_poll := v_poll v2, ch := (ch v1)\<lparr>ch_state := VWTP_Transmit, ch_txseqnr := 0 + of_nat (length F), ch_lastused := now'\<rparr>\<rparr>"
    "same_job (v_poll v1) (v_poll v2)" "mlframe (v_poll v2) = 0"
    "unat (tx_remain (v_poll v2)) = length (drop (7 * unat bs) (with_length (poll_message e)))" "wait_timeout (v_poll v2) = 2000 + now'"
    "sends (map (channel_frame (ch v)) F) v1 v2"
    using request_started [of v1 now'] a bs v1(1-4) unfolding v1(3,5-7) F_def cf by auto
  have "recv_params now' 6 ?D ?v0 = map_option Break (PollerVWTPEnter now' VWTP_StartPoll v1)"
    unfolding recv_params_def D Let_def v1_def by simp
  moreover have "GetPollWaiting now' (v_poll v2)"
    using clock_waiting [OF clock, of "v_poll v2"] by (simp add: v2(6) GetPollWaiting_def SetPollWaiting_def)
  ultimately have "Incoming_frame polls can_poll now now' 6 f v = Some (True, on_poll (\<lambda>p. p\<lparr>raw_data := (0, 0)\<rparr>) v2)"
    unfolding Incoming_frame_def PollerVWTPReceive_def using id bus v(1) v2(1) by simp
  moreover have c: "ch v2 = (ch v1)\<lparr>ch_state := VWTP_Transmit, ch_txseqnr := 0 + of_nat (length F), ch_lastused := now'\<rparr>"
    "e_pid v2 = e_pid v1"
    by (subst v2(2), simp)+
  moreover have "polling e b v2 \<and> same_channel (ch v) (ch v2)"
    using v1(8,9) v2(3) c by (simp add: polling_def same_job_def same_channel_def)
  moreover have "sends (map (channel_frame (ch v)) F) v (on_poll (\<lambda>p. p\<lparr>raw_data := (0, 0)\<rparr>) v2)"
    using v2(7) v1(6) by (simp add: sends_def)
  ultimately show ?thesis using v2(4,5)
    by (intro exI [of _ "on_poll (\<lambda>p. p\<lparr>raw_data := (0, 0)\<rparr>) v2"]) (simp add: polling_def)
qed

text \<open>The acknowledgement of a request sent whole.\<close>

lemma request_acknowledged:
  assumes v: "vstate v = VWTP_Transmit" "polling e b v" and clock: "clock_ok now'" and rem: "tx_remain (v_poll v) = 0"
    and f: "unit_frame (ch v) f [with_nr 0xB0 k]"
  shows "\<exists>v'. Incoming_frame polls can_poll now now' 1 f v = Some (True, v') \<and> listening (en_type e) (en_pid e) 0 v' \<and>
    same_channel (ch v) (ch v') \<and> mlframe (v_poll v') = mlframe (v_poll v) \<and> outs (v_poll v') = outs (v_poll v)"
proof -
  have D: "pf_data f ! 0 = with_nr 0xB0 k" using unit_nth [OF f, of 0] by simp
  have op: "with_nr 0xB0 k AND 0xf0 = 0xB0" by (simp add: with_nr_def u8_eq_iff all_less_8 bit_simps)
  have id: "pf_origin f = ch_bus (ch v)" "pf_id f = ucast (ch_rxid (ch v))" using f by (simp_all add: unit_frame_def)
  have bus: "ch_bus (ch v) \<noteq> 0" using v(2) by (simp add: polling_def)
  let ?v0 = "on_poll (\<lambda>p. p\<lparr>raw_data := (0, 8)\<rparr>) v"
  let ?v1 = "enter_receive now' ?v0"
  have "recv_transmit now' 1 (pf_data f) ?v0 = Some (Break ?v1)"
    unfolding recv_transmit_def Let_def D using op rem v(1) by (simp add: PollerVWTPEnter_def)
  moreover have "GetPollWaiting now' (v_poll ?v1)"
    using clock_waiting [OF clock] by (simp add: enter_receive_def wait_2s_def)
  ultimately have "Incoming_frame polls can_poll now now' 1 f v = Some (True, on_poll (\<lambda>p. p\<lparr>raw_data := (0, 0)\<rparr>) ?v1)"
    unfolding Incoming_frame_def PollerVWTPReceive_def using id bus v(1) by simp
  then show ?thesis using v(2)
    by (intro exI [of _ "on_poll (\<lambda>p. p\<lparr>raw_data := (0, 0)\<rparr>) ?v1"])
      (simp add: enter_receive_def wait_2s_def set_state_def touch_def listening_def polling_def same_channel_def SetPollWaiting_def)
qed

subsection \<open>The whole poll\<close>

text \<open>What the unit answers: ids, block size and times of the channel, and the opcodes of its response.\<close>

record unit_answers =
  a_tx :: "u8 \<times> u8"
  a_rx :: "u8 \<times> u8"
  a_blocksize :: u8
  a_times :: "u8 \<times> u8"
  a_ack :: u32
  a_ops :: "u8 list"
  a_payload :: bytes

text \<open>The channel before the setup is answered, and with the assigned ids.\<close>

definition setup_channel :: "poll_entry \<Rightarrow> nat \<Rightarrow> vwtp_channel" where
  "setup_channel e b = closed_channel\<lparr>ch_bus := b, ch_rxid := ucast (en_tx e) + ucast (ucast (en_rx e) :: u8)\<rparr>"

definition assigned :: "unit_answers \<Rightarrow> nat \<Rightarrow> vwtp_channel" where
  "assigned a b = closed_channel\<lparr>ch_bus := b, ch_txid := word_le (a_tx a), ch_rxid := word_le (a_rx a)\<rparr>"

definition response_message :: "poll_entry \<Rightarrow> unit_answers \<Rightarrow> bytes" where
  "response_message e a = response_head (en_type e) (en_pid e) @ a_payload a"

text \<open>The frames the unit sends on the assigned channel, and those the poller should write.\<close>

definition unit_frames :: "poll_entry \<Rightarrow> unit_answers \<Rightarrow> bytes list" where
  "unit_frames e a =
     [[0xA1, a_blocksize a, fst (a_times a), 0xFF, snd (a_times a), 0xFF], [with_nr 0xB0 (a_ack a)]] @
     response_frames 0 (a_ops a) (chunks 7 (with_length (response_message e a)))"

definition poll_frames :: "poll_entry \<Rightarrow> unit_answers \<Rightarrow> nat \<Rightarrow> poll_frame list" where
  "poll_frames e a b =
     [setup_frame e b, channel_frame (assigned a b) [0xA0, 0x0F, 0x8A, 0xFF, 0x0A, 0xFF]] @
     map (channel_frame (assigned a b))
       (block_frames (unat (a_blocksize a)) 0 (chunks 7 (with_length (poll_message e)))) @
     response_acks (assigned a b) 0 (a_ops a)"

definition answers_fit :: "poll_entry \<Rightarrow> unit_answers \<Rightarrow> bool" where
  "answers_fit e a \<longleftrightarrow> a_blocksize a \<noteq> 0 \<and> length (with_length (poll_message e)) \<le> 7 * unat (a_blocksize a) \<and>
     length (response_message e a) < 4096 \<and> set (a_ops a) \<subseteq> data_ops \<and>
     length (a_ops a) = length (chunks 7 (with_length (response_message e a)))"

text \<open>Up to the acknowledged request.\<close>

lemma request_delivered:
  assumes "ch v = closed_channel" "m_bus (v_poll v) = b" "b \<noteq> 0" "en_protocol e = 20" "en_rx e \<noteq> 0"
    and "args_ok (en_args e)" "answerable (en_type e) (en_pid e)" "answers_fit e a"
    and "unit_frame (setup_channel e b) f [x0, 0xD0, fst (a_rx a), snd (a_rx a), fst (a_tx a), snd (a_tx a), x6]" "clock_ok n1'"
    and "sent_by_unit (assigned a b) tfs (unit_frames e a)"
  defines "F \<equiv> [setup_frame e b, channel_frame (assigned a b) [0xA0, 0x0F, 0x8A, 0xFF, 0x0A, 0xFF]] @
     map (channel_frame (assigned a b)) (block_frames (unat (a_blocksize a)) 0 (chunks 7 (with_length (poll_message e))))"
  shows "\<exists>v1 v4 tfs4. dispatch n0 n0' e v = Some v1 \<and>
    recv_stream polls cp ((n1, n1', 7, f) # tfs) v1 = recv_stream polls cp tfs4 v4 \<and>
    listening (en_type e) (en_pid e) 0 v4 \<and> mlframe (v_poll v4) = 0 \<and> same_channel (assigned a b) (ch v4) \<and> sends F v v4 \<and>
    sent_by_unit (assigned a b) tfs4 (response_frames 0 (a_ops a) (chunks 7 (with_length (response_message e a))))"
proof -
  note fit = assms(8) [unfolded answers_fit_def]
  obtain v1 where v1: "dispatch n0 n0' e v = Some v1" "vstate v1 = VWTP_ChannelSetup" "polling e b v1" "fresh v1"
    "ch_rxid (ch v1) = ucast (en_tx e) + ucast (ucast (en_rx e) :: u8)" "sends [setup_frame e b] v v1"
    using setup_sent [OF assms(1-5), of n0 n0'] sends_one by blast
  have f: "unit_frame (ch v1) f [x0, 0xD0, fst (a_rx a), snd (a_rx a), fst (a_tx a), snd (a_tx a), x6]"
    using assms(9) v1(3,5) by (simp add: unit_frame_def setup_channel_def polling_def)
  let ?c = "(ch v1)\<lparr>ch_rxid := word_le (a_rx a), ch_txid := word_le (a_tx a)\<rparr>"
  have same: "same_channel (assigned a b) ?c" using v1(3) by (simp add: same_channel_def assigned_def polling_def)
  obtain v2 where v2: "Incoming_frame polls cp n1 n1' 7 f v1 = Some (True, v2)" "vstate v2 = VWTP_ChannelParams" "polling e b v2" "fresh v2"
    "same_channel ?c (ch v2)" and o2: "outs (v_poll v2) = outs (v_poll v1) @ [Write (channel_frame ?c [0xA0, 0x0F, 0x8A, 0xFF, 0x0A, 0xFF])]"
    using setup_accepted [OF v1(2-4) assms(10) f, of polls cp n1] by (elim exE conjE)
  have c2: "same_channel (assigned a b) (ch v2)" using same v2(5) by (simp add: same_channel_def)
  have s2: "sends [channel_frame (assigned a b) [0xA0, 0x0F, 0x8A, 0xFF, 0x0A, 0xFF]] v1 v2"
    using sends_one [OF o2] same_channel_frames [OF same] by simp
  obtain n2 n2' f2 tfs2 where t2: "tfs = (n2, n2', 6, f2) # tfs2" "clock_ok n2'"
    "unit_frame (ch v2) f2 [0xA1, a_blocksize a, fst (a_times a), 0xFF, snd (a_times a), 0xFF]"
    "sent_by_unit (assigned a b) tfs2 ([with_nr 0xB0 (a_ack a)] # response_frames 0 (a_ops a) (chunks 7 (with_length (response_message e a))))"
    using assms(11) unfolding unit_frames_def append_Cons append_Nil
    by (rule sent_by_unit_Cons) (use same_channel_frames [OF c2] in auto)
  obtain v3 where v3: "Incoming_frame polls cp n2 n2' 6 f2 v2 = Some (True, v3)" "vstate v3 = VWTP_Transmit" "polling e b v3"
    "same_channel (ch v2) (ch v3)" "mlframe (v_poll v3) = 0"
    "unat (tx_remain (v_poll v3)) = length (drop (7 * unat (a_blocksize a)) (with_length (poll_message e)))"
    "sends (map (channel_frame (ch v2)) (block_frames (unat (a_blocksize a)) 0 (chunks 7 (with_length (poll_message e))))) v2 v3"
    using params_accepted [OF v2(2-4) t2(2,3) _ assms(6), of polls cp n2] fit by blast
  have rem: "tx_remain (v_poll v3) = 0" using v3(6) fit by (simp add: unat_eq_zero)
  have c3: "same_channel (assigned a b) (ch v3)" using c2 v3(4) by (simp add: same_channel_def)
  obtain n3 n3' f3 tfs3 where t3: "tfs2 = (n3, n3', 1, f3) # tfs3" "clock_ok n3'" "unit_frame (ch v3) f3 [with_nr 0xB0 (a_ack a)]"
    "sent_by_unit (assigned a b) tfs3 (response_frames 0 (a_ops a) (chunks 7 (with_length (response_message e a))))"
    using t2(4) by (rule sent_by_unit_Cons) (use same_channel_frames [OF c3] in auto)
  obtain v4 where v4: "Incoming_frame polls cp n3 n3' 1 f3 v3 = Some (True, v4)" "listening (en_type e) (en_pid e) 0 v4"
    "same_channel (ch v3) (ch v4)" "mlframe (v_poll v4) = mlframe (v_poll v3)" "outs (v_poll v4) = outs (v_poll v3)"
    using request_acknowledged [OF v3(2,3) t3(2) rem t3(3), of polls cp n3] by blast
  have c4: "same_channel (assigned a b) (ch v4)" using c3 v4(3) by (simp add: same_channel_def)
  have run: "recv_stream polls cp ((n1, n1', 7, f) # tfs) v1 = recv_stream polls cp tfs3 v4"
    unfolding t2(1) t3(1) recv_stream.simps(2) using v2(1) v3(1) v4(1) by simp
  have "sends (([setup_frame e b] @ [channel_frame (assigned a b) [0xA0, 0x0F, 0x8A, 0xFF, 0x0A, 0xFF]]) @
     map (channel_frame (assigned a b)) (block_frames (unat (a_blocksize a)) 0 (chunks 7 (with_length (poll_message e)))) @ []) v v4"
    by (rule sends_trans [OF sends_trans [OF v1(6) s2] sends_trans [OF v3(7) [unfolded same_channel_frames [OF c2, THEN conjunct1]] sends_none [OF v4(5)]]])
  then have "sends F v v4" by (simp add: F_def)
  then show ?thesis using v1(1) run v4(2,4) v3(5) c4 t3(4) by (intro exI [of _ v1] exI [of _ v4] exI [of _ tfs3]) simp
qed

text \<open>C22. A poll over a closed channel gets its response: the poller offers a channel to the unit, and if
  the unit assigns ids, sends its parameters, acknowledges a request that fits one block and
  responds, then the frames the poller writes are the setup, the parameters, the frames of the request and
  the acknowledgements the response asks for, in this order and all on the ids the unit assigned; the poll series
  gets exactly the payload of the response, and the channel is idle again.\<close>

theorem poll_gets_response:
  assumes "ch v = closed_channel" "m_bus (v_poll v) = b" "b \<noteq> 0" "en_protocol e = 20" "en_rx e \<noteq> 0"
    and "args_ok (en_args e)" "answerable (en_type e) (en_pid e)" "answers_fit e a"
    and "unit_frame (setup_channel e b) f [x0, 0xD0, fst (a_rx a), snd (a_rx a), fst (a_tx a), snd (a_tx a), x6]" "clock_ok n1'"
    and "sent_by_unit (assigned a b) tfs (unit_frames e a)"
  shows "\<exists>v1 v' l. dispatch n0 n0' e v = Some v1 \<and> recv_stream polls cp ((n1, n1', 7, f) # tfs) v1 = Some v' \<and>
    vstate v' = VWTP_Idle \<and> wait_timeout (v_poll v') = 0 \<and> outs (v_poll v') = outs (v_poll v) @ l \<and> writes l = poll_frames e a b \<and>
    fold series_out l q = q\<lparr>ps_data := [], ps_success := ps_success q @ [a_payload a]\<rparr>"
proof -
  let ?F = "[setup_frame e b, channel_frame (assigned a b) [0xA0, 0x0F, 0x8A, 0xFF, 0x0A, 0xFF]] @
     map (channel_frame (assigned a b)) (block_frames (unat (a_blocksize a)) 0 (chunks 7 (with_length (poll_message e))))"
  obtain v1 v4 tfs4 where v1: "dispatch n0 n0' e v = Some v1"
    "recv_stream polls cp ((n1, n1', 7, f) # tfs) v1 = recv_stream polls cp tfs4 v4"
    and v4: "listening (en_type e) (en_pid e) 0 v4" "mlframe (v_poll v4) = 0" "same_channel (assigned a b) (ch v4)" "sends ?F v v4"
    "sent_by_unit (assigned a b) tfs4 (response_frames 0 (a_ops a) (chunks 7 (with_length (response_message e a))))"
    using request_delivered [OF assms, of n0 n0' polls cp n1] by (elim exE conjE)
  note fit = assms(8) [unfolded answers_fit_def response_message_def]
  obtain v' l where fin: "recv_stream polls cp tfs4 v4 = Some v'" "finished v4 l (response_acks (ch v4) 0 (a_ops a)) q (a_payload a) v'"
    using response_received [OF v4(1,2) assms(7), of "a_payload a" "a_ops a" tfs4 polls cp q] fit v4(5)
      sent_by_unit_channel [OF v4(3)] unfolding response_message_def by auto
  obtain l0 where l0: "outs (v_poll v4) = outs (v_poll v) @ l0" "writes l0 = ?F" "fold series_out l0 q = q"
    using v4(4) by (rule sends_quiet)
  have "writes (l0 @ l) = poll_frames e a b"
    using l0(2) fin(2) response_acks_channel [OF v4(3)] unfolding poll_frames_def by (simp add: finished_def)
  moreover have "fold series_out (l0 @ l) q = q\<lparr>ps_data := [], ps_success := ps_success q @ [a_payload a]\<rparr>"
    using l0(3) fin(2) by (simp add: finished_def)
  moreover have "outs (v_poll v') = outs (v_poll v) @ l0 @ l" "vstate v' = VWTP_Idle" "wait_timeout (v_poll v') = 0"
    using l0(1) fin(2) by (simp_all add: finished_def)
  moreover have "recv_stream polls cp ((n1, n1', 7, f) # tfs) v1 = Some v'" by (rule trans [OF v1(2) fin(1)])
  ultimately show ?thesis using v1(1) by (intro exI conjI)
qed

text \<open>A channel on bus 1 with nothing in progress, and a poll of PID 0x1234 answered in two frames.\<close>

definition idle_vwtp :: vwtp where
  "idle_vwtp = \<lparr>v_poll = idle_poller, e_pid = 0, ch = closed_channel, keepalive = 60\<rparr>"

definition sample_entry :: poll_entry where
  "sample_entry = \<lparr>en_tx = 0x200, en_rx = 0x1F, en_type = 0x22, en_pid = 0x1234, en_args = Args 0 [], en_protocol = 20\<rparr>"

definition sample_answers :: unit_answers where
  "sample_answers = \<lparr>a_tx = (0x40, 0x07), a_rx = (0x00, 0x03), a_blocksize = 15, a_times = (0x8A, 0x4A), a_ack = 1,
     a_ops = [0x20, 0x10], a_payload = [1, 2, 3, 4, 5, 6]\<rparr>"

definition sample_frames :: "(u32 \<times> u32 \<times> nat \<times> poll_frame) list" where
  "sample_frames = map (\<lambda>d. (100, 100, length d, \<lparr>pf_origin = 1, pf_ext = False, pf_id = 0x300, pf_data = d @ replicate (8 - length d) 0\<rparr>))
     (unit_frames sample_entry sample_answers)"

lemma sample_unit_frames:
  "unit_frames sample_entry sample_answers =
     [[0xA1, 15, 0x8A, 0xFF, 0x4A, 0xFF], [0xB1], [0x20, 0, 9, 0x62, 0x12, 0x34, 1, 2], [0x11, 3, 4, 5, 6]]"
  by (simp add: unit_frames_def sample_entry_def sample_answers_def response_message_def response_head_def has_16bit_pid_def
    with_length_def with_nr_def chunks_step)

theorem poll_gets_response_witness:
  "\<exists>v1 v' l. dispatch 0 0 sample_entry idle_vwtp = Some v1 \<and>
     recv_stream True True ((50, 50, 7, \<lparr>pf_origin = 1, pf_ext = False, pf_id = 0x21F, pf_data = [0, 0xD0, 0x00, 0x03, 0x40, 0x07, 1, 0]\<rparr>) # sample_frames) v1 = Some v' \<and>
     vstate v' = VWTP_Idle \<and> wait_timeout (v_poll v') = 0 \<and> outs (v_poll v') = outs (v_poll idle_vwtp) @ l \<and>
     writes l = poll_frames sample_entry sample_answers 1 \<and>
     fold series_out l \<lparr>ps_data = [], ps_success = [], ps_fail = []\<rparr> = \<lparr>ps_data = [], ps_success = [[1, 2, 3, 4, 5, 6]], ps_fail = []\<rparr>"
proof -
  let ?e = sample_entry and ?a = sample_answers
  let ?f = "\<lparr>pf_origin = 1, pf_ext = False, pf_id = 0x21F, pf_data = [0, 0xD0, 0x00, 0x03, 0x40, 0x07, 1, 0]\<rparr>"
  have e: "ch idle_vwtp = closed_channel" "m_bus (v_poll idle_vwtp) = 1" "(1::nat) \<noteq> 0" "en_protocol ?e = 20" "en_rx ?e \<noteq> 0"
    "args_ok (en_args ?e)" "answerable (en_type ?e) (en_pid ?e)"
    by (simp_all add: idle_vwtp_def idle_poller_def sample_entry_def args_ok_def args_len_def args_data_def answerable_def has_8bit_pid_def has_16bit_pid_def)
  have a: "answers_fit ?e ?a"
    by (simp add: answers_fit_def sample_entry_def sample_answers_def response_message_def response_head_def has_16bit_pid_def
      poll_message_def pid_bytes_def args_len_def with_length_def data_ops_def chunks_step)
  have f: "unit_frame (setup_channel ?e 1) ?f [0, 0xD0, fst (a_rx ?a), snd (a_rx ?a), fst (a_tx ?a), snd (a_tx ?a), 1]"
    by (simp add: unit_frame_def setup_channel_def sample_entry_def sample_answers_def closed_channel_def)
  have s: "sent_by_unit (assigned ?a 1) sample_frames (unit_frames ?e ?a)"
    unfolding sample_frames_def sample_unit_frames
    by (simp add: sent_by_unit_def unit_frame_def assigned_def sample_answers_def word_le_def clock_ok_def closed_channel_def)
  have "clock_ok 50" "a_payload ?a = [1, 2, 3, 4, 5, 6]" by (simp_all add: clock_ok_def sample_answers_def)
  then show ?thesis
    using poll_gets_response [OF e a f _ s, of 50 0 0 True True 50 "\<lparr>ps_data = [], ps_success = [], ps_fail = []\<rparr>"] by simp
qed

end
