(* ===== verification/VwtpChannel.thy ===== *)
theory VwtpChannel
  imports VwtpPoll
begin

section \<open>VW transport protocol 2.0: the channel in every state\<close>

text \<open>
  The life of a channel as a transition system: polls, received frames, results of
  transmissions and ticks in any order.  A well-formedness invariant holds in every reachable state; with it
  no event makes the poller write through a null bus pointer or leave a buffer.
\<close>

unbundle bit_operations_syntax

subsection \<open>Well-formed channels\<close>

text \<open>Between two events the channel is never in one of the two transit states; while it is open it is a
  channel of the bus of the poller, and the ids expected of an answer are those of the channel.\<close>

definition on_bus :: "nat \<Rightarrow> vwtp \<Rightarrow> bool" where
  "on_bus b v \<longleftrightarrow> b \<noteq> 0 \<and> m_bus (v_poll v) = b \<and> args_ok (e_args (v_poll v)) \<and> vstate v \<noteq> VWTP_StartPoll \<and> vstate v \<noteq> VWTP_AbortXfer"

definition opened :: "nat \<Rightarrow> vwtp \<Rightarrow> bool" where
  "opened b v \<longleftrightarrow> ch_bus (ch v) = b \<and> p_protocol (v_poll v) = VWTP_20"

definition answered_to :: "vwtp \<Rightarrow> bool" where
  "answered_to v \<longleftrightarrow> moduleid_low (v_poll v) = ucast (ch_rxid (ch v)) \<and> moduleid_high (v_poll v) = ucast (ch_rxid (ch v))"

definition channel_wf :: "nat \<Rightarrow> vwtp \<Rightarrow> bool" where
  "channel_wf b v \<longleftrightarrow> on_bus b v \<and>
     (if vstate v = VWTP_Closed then wait_timeout (v_poll v) = 0 else opened b v \<and> answered_to v)"

lemmas channel_defs = channel_wf_def on_bus_def opened_def answered_to_def

lemmas vw_field_defs = set_state_def touch_def wait_2s_def SetPollWaiting_def ResetPollWaiting_def expect_answer_def Let_def emit_def

text \<open>What the steps inside a transition keep.\<close>

lemma vw_write_ok:
  assumes "ch_bus (ch v) \<noteq> 0"
  shows "ensures (vw_write d v) (\<lambda>w. ch w = ch v \<and> e_pid w = e_pid v \<and> keepalive w = keepalive v \<and>
    v_poll w = (v_poll v)\<lparr>outs := outs (v_poll w)\<rparr>)"
  using assms by (simp add: vw_write_def emit_def)

lemma wf_write: "channel_wf b v \<Longrightarrow> vstate v \<noteq> VWTP_Closed \<Longrightarrow> ensures (vw_write d v) (\<lambda>w. channel_wf b w \<and> ch w = ch v)"
  by (simp add: vw_write_def channel_defs emit_def)

lemma wf_touch [simp]: "channel_wf b (touch now v) = channel_wf b v"
  by (cases "vstate v = VWTP_Closed") (simp_all add: channel_defs touch_def)

lemma wf_emit [simp]: "channel_wf b (on_poll (emit e) v) = channel_wf b v"
  by (cases "vstate v = VWTP_Closed") (simp_all add: channel_defs emit_def)

lemma wf_report [simp]: "channel_wf b (on_poll (report n) v) = channel_wf b v"
  by (cases "vstate v = VWTP_Closed") (simp_all add: channel_defs report_def emit_def)

lemma enter_setup_ok:
  assumes "on_bus b v" "p_protocol (v_poll v) = VWTP_20"
  shows "ensures (enter_setup now v) (channel_wf b)"
  using assms by (simp add: enter_setup_def vw_write_def channel_defs vw_field_defs)

lemma enter_params_ok:
  assumes "on_bus b v" "opened b v"
  shows "ensures (enter_params now v) (channel_wf b)"
  using assms by (simp add: enter_params_def vw_write_def channel_defs vw_field_defs)

lemma enter_close_ok:
  assumes "on_bus b v" "opened b v"
  shows "ensures (enter_close now v) (\<lambda>w. channel_wf b w \<and> vstate w = VWTP_ChannelClose)"
  using assms by (simp add: enter_close_def vw_write_def channel_defs vw_field_defs)

lemma enter_closed_ok: "on_bus b v \<Longrightarrow> channel_wf b (enter_closed v) \<and> v_poll (enter_closed v) = ResetPollWaiting (v_poll v)
    \<and> vstate (enter_closed v) = VWTP_Closed"
  by (simp add: enter_closed_def channel_defs closed_channel_def vw_field_defs)

lemma enter_idle_ok: "channel_wf b v \<Longrightarrow> vstate v \<noteq> VWTP_Closed \<Longrightarrow> channel_wf b (enter_idle now v)"
  by (simp add: enter_idle_def channel_defs vw_field_defs)

lemma enter_receive_ok: "channel_wf b v \<Longrightarrow> vstate v \<noteq> VWTP_Closed \<Longrightarrow> channel_wf b (enter_receive now v)"
  by (simp add: enter_receive_def channel_defs vw_field_defs)

lemma enter_abort_ok:
  assumes "channel_wf b v" "vstate v \<noteq> VWTP_Closed"
  shows "ensures (enter_abort now v) (\<lambda>w. channel_wf b w \<and> vstate w = VWTP_Idle)"
  using assms by (simp add: enter_abort_def vw_write_def channel_defs vw_field_defs split: prod.split)

lemma channel_start_ok:
  assumes "on_bus b v" "opened b v"
  shows "ensures (PollerVWTPEnter now VWTP_StartPoll v) (channel_wf b)"
proof (cases "ch_blocksize (ch v) = 0")
  case True
  then show ?thesis
    using assms by (simp add: PollerVWTPEnter_def enter_transmit_def start_poll_def channel_defs vw_field_defs)
next
  case False
  have "args_ok (e_args (v_poll v))" "ch_bus (ch v) \<noteq> 0" "vstate v \<noteq> VWTP_StartPoll" using assms by (simp_all add: channel_defs)
  from request_started [OF this(1,2) False this(3), of now]
  obtain v' n where v': "PollerVWTPEnter now VWTP_StartPoll v = Some v'"
    "v' = v\<lparr>v_poll := v_poll v', ch := (ch v)\<lparr>ch_state := VWTP_Transmit, ch_txseqnr := n, ch_lastused := now\<rparr>\<rparr>"
    "same_job (v_poll v) (v_poll v')" "moduleid_low (v_poll v') = ucast (ch_rxid (ch v))"
    "moduleid_high (v_poll v') = ucast (ch_rxid (ch v))" by blast
  have "ch v' = (ch v)\<lparr>ch_state := VWTP_Transmit, ch_txseqnr := n, ch_lastused := now\<rparr>" by (subst v'(2)) simp
  then show ?thesis using assms v'(1,3-5) by (simp add: channel_defs same_job_def)
qed

lemma close_then_closed:
  assumes "channel_wf b v" "vstate v \<noteq> VWTP_Closed" "vstate v \<noteq> VWTP_ChannelClose"
  shows "ensures (close_and_closed now v) (\<lambda>w. channel_wf b w)"
proof -
  have "on_bus b v" "opened b v" using assms by (simp_all add: channel_wf_def)
  then have "ensures (enter_close now v) (\<lambda>w. channel_wf b w \<and> vstate w = VWTP_ChannelClose)" by (rule enter_close_ok)
  then show ?thesis
    unfolding close_and_closed_def PollerVWTPEnter_def using assms(3)
    by (auto simp: ensures_bind_iff channel_wf_def dest: enter_closed_ok elim!: ensures_mono)
qed

subsection \<open>Starting a poll\<close>

lemma enter_close_wf:
  assumes "channel_wf b v" "vstate v \<noteq> VWTP_Closed"
  shows "ensures (PollerVWTPEnter now VWTP_ChannelClose v) (\<lambda>w. channel_wf b w \<and> vstate w = VWTP_ChannelClose)"
  using assms enter_close_ok [of b v now] by (simp add: PollerVWTPEnter_def channel_wf_def)

lemma enter_setup_wf:
  assumes "channel_wf b v" "p_protocol (v_poll v) = VWTP_20"
  shows "ensures (PollerVWTPEnter now VWTP_ChannelSetup v) (channel_wf b)"
  using assms enter_setup_ok [of b v now] by (simp add: PollerVWTPEnter_def channel_wf_def)

lemma enter_start_wf:
  assumes "channel_wf b v" "vstate v \<noteq> VWTP_Closed"
  shows "ensures (PollerVWTPEnter now VWTP_StartPoll v) (channel_wf b)"
  using assms channel_start_ok by (simp add: channel_wf_def)

lemma enter_abort_wf:
  assumes "channel_wf b v" "vstate v \<noteq> VWTP_Closed"
  shows "ensures (PollerVWTPEnter now VWTP_AbortXfer v) (\<lambda>w. channel_wf b w \<and> vstate w = VWTP_Idle)"
  using assms enter_abort_ok [OF assms, of now] by (simp add: PollerVWTPEnter_def channel_defs)

lemma enter_idle_wf:
  assumes "channel_wf b v" "vstate v \<noteq> VWTP_Closed"
  shows "ensures (PollerVWTPEnter now VWTP_Idle v) (\<lambda>w. channel_wf b w \<and> vstate w = VWTP_Idle)"
  using assms enter_idle_ok [OF assms, of now] by (simp add: PollerVWTPEnter_def) (simp add: enter_idle_def vw_field_defs)

lemmas enter_idle_wf' = ensures_mono [OF enter_idle_wf conjunct1]

lemma not_below_idle: "\<not> st < VWTP_Idle \<Longrightarrow> st \<noteq> VWTP_Closed"
  by (auto simp: less_vwtp_channelstate_def)

lemma PollerVWTPStart_ok:
  assumes "channel_wf b v0" "p_protocol (v_poll v0) = VWTP_20"
  shows "ensures (PollerVWTPStart now now' v0) (channel_wf b)"
proof -
  let ?v = "touch now v0"
  let ?abort = "PollerVWTPEnter now' VWTP_AbortXfer ?v"
  have v: "channel_wf b ?v" "p_protocol (v_poll ?v) = VWTP_20" using assms by (simp_all, simp add: touch_def)
  have go: "ensures (if vstate ?v = VWTP_Transmit then ?abort
        else if vstate ?v = VWTP_Receive
        then map_option (on_poll (emit (Sleep (unat (ch_septime (ch ?v) * ucast (ch_blocksize (ch ?v))))))) ?abort
        else Some ?v) (\<lambda>w. channel_wf b w \<and> vstate w \<noteq> VWTP_Closed)" (is "ensures ?m _")
    if nc: "vstate ?v \<noteq> VWTP_Closed"
  proof -
    obtain w where w: "?abort = Some w" "channel_wf b w" "vstate w = VWTP_Idle"
      using enter_abort_wf [OF v(1) nc] unfolding ensures_def by blast
    show ?thesis unfolding w(1) using v(1) w(2,3) nc by simp
  qed
  have start: "ensures (?m \<bind> PollerVWTPEnter now' VWTP_StartPoll) (channel_wf b)" if "vstate ?v \<noteq> VWTP_Closed"
    by (rule ensures_bindI [OF go [OF that]]) (auto intro: enter_start_wf)
  show ?thesis
    unfolding PollerVWTPStart_def Let_def
    by (intro ensures_if)
      (use v start not_below_idle in \<open>auto intro: enter_setup_wf ensures_mono [OF enter_close_wf [OF v(1)]]\<close>)
qed

definition vw_entry :: "poll_entry \<Rightarrow> bool" where
  "vw_entry e \<longleftrightarrow> en_protocol e = 20 \<and> args_ok (en_args e)"

lemma dispatch_ok:
  assumes "channel_wf b v" "vw_entry e"
  shows "ensures (dispatch now now' e v) (channel_wf b)"
proof -
  let ?v = "load_entry e v"
  have "channel_wf b ?v"
    using assms by (cases "vstate v = VWTP_Closed") (simp_all add: load_entry_def channel_defs vw_entry_def)
  moreover have p: "p_protocol (v_poll ?v) = VWTP_20" using assms(2) by (simp add: load_entry_def vw_entry_def)
  ultimately show ?thesis unfolding dispatch_def Let_def by (simp add: p PollerVWTPStart_ok)
qed

subsection \<open>Receiving\<close>

text \<open>A frame of at most eight bytes; a data frame is long enough for the head of a response.\<close>

definition min_dlc :: "poller \<Rightarrow> bytes \<Rightarrow> nat" where
  "min_dlc p d =
     (if mlframe p \<noteq> 0 then 1
      else let t = uint (d ! 3) - 0x40 in 3 + (if has_16bit_pid t then 3 else if has_8bit_pid t then 2 else 1))"

definition proper_frame :: "nat \<Rightarrow> bytes \<Rightarrow> vwtp \<Rightarrow> bool" where
  "proper_frame dlc d v \<longleftrightarrow> length d = 8 \<and> dlc \<le> 8 \<and>
     (vstate v = VWTP_Receive \<and> d ! 0 < 0x40 \<longrightarrow> min_dlc (v_poll v) d \<le> dlc)"

definition rx_wf :: "nat \<Rightarrow> rx \<Rightarrow> bool" where
  "rx_wf b r = (case r of Return _ v \<Rightarrow> channel_wf b v | Break v \<Rightarrow> channel_wf b v)"

lemma rx_wf_simps [simp]: "rx_wf b (Return c v) = channel_wf b v" "rx_wf b (Break v) = channel_wf b v"
  by (simp_all add: rx_wf_def)

lemma ensures_Break: "ensures m (channel_wf b) \<Longrightarrow> ensures (map_option Break m) (rx_wf b)"
  "ensures m (channel_wf b) \<Longrightarrow> ensures (map_option (Return c) m) (rx_wf b)"
  by (cases m; simp)+

lemma wf_on_poll:
  assumes "channel_wf b v" "let p = v_poll v in m_bus (f p) = m_bus p \<and> p_protocol (f p) = p_protocol p \<and> e_args (f p) = e_args p \<and>
      moduleid_low (f p) = moduleid_low p \<and> moduleid_high (f p) = moduleid_high p \<and>
      (wait_timeout (f p) = wait_timeout p \<or> vstate v \<noteq> VWTP_Closed)"
  shows "channel_wf b (on_poll f v)"
  using assms by (cases "vstate v = VWTP_Closed") (simp_all add: channel_defs Let_def)

lemma wf_on_ch:
  assumes "channel_wf b v" "let c = ch v in ch_state (f c) = ch_state c \<and> ch_bus (f c) = ch_bus c \<and> ch_rxid (f c) = ch_rxid c"
  shows "channel_wf b (on_ch f v)"
  using assms by (cases "vstate v = VWTP_Closed") (simp_all add: channel_defs Let_def)

lemma wf_write': "channel_wf b v \<Longrightarrow> vstate v \<noteq> VWTP_Closed \<Longrightarrow> ensures (vw_write d v) (channel_wf b)"
  using wf_write [of b v d] by (auto simp: ensures_def)

lemma recv_setup_ok:
  assumes "channel_wf b v" "vstate v = VWTP_ChannelSetup"
  shows "ensures (recv_setup now dlc d v) (rx_wf b)"
proof -
  let ?v1 = "on_ch (\<lambda>c. c\<lparr>ch_rxid := push_bit 8 (ucast (d ! 3)) OR ucast (d ! 2), ch_txid := push_bit 8 (ucast (d ! 5)) OR ucast (d ! 4)\<rparr>) v"
  have "on_bus b ?v1" "opened b ?v1" using assms by (simp_all add: channel_defs)
  then have "ensures (PollerVWTPEnter now VWTP_ChannelParams ?v1) (channel_wf b)"
    using enter_params_ok assms(2) by (simp add: PollerVWTPEnter_def)
  moreover have "channel_wf b (on_poll ResetPollWaiting (on_ch (\<lambda>c. c\<lparr>ch_bus := 0, ch_state := VWTP_Closed\<rparr>) v))"
    using assms by (simp add: channel_defs ResetPollWaiting_def)
  ultimately show ?thesis using assms(1) by (simp add: recv_setup_def Let_def ensures_Break)
qed

lemma recv_params_ok:
  assumes "channel_wf b v" "vstate v = VWTP_ChannelParams"
  shows "ensures (recv_params now dlc d v) (rx_wf b)"
proof -
  have "ensures (PollerVWTPEnter now VWTP_StartPoll (on_ch (\<lambda>c. c\<lparr>ch_blocksize := x, ch_acktime := y, ch_septime := z\<rparr>) v)) (channel_wf b)" for x y z
    using assms by (intro enter_start_wf wf_on_ch) simp_all
  moreover have "ensures (close_and_closed now v) (channel_wf b)" using assms by (intro close_then_closed) simp_all
  ultimately show ?thesis using assms(1) by (simp add: recv_params_def Let_def ensures_Break)
qed

lemma enter_closed_wf:
  assumes "channel_wf b v" "vstate v \<noteq> VWTP_Closed"
  shows "ensures (PollerVWTPEnter now VWTP_Closed v) (\<lambda>w. channel_wf b w \<and> vstate w = VWTP_Closed \<and> p_protocol (v_poll w) = VWTP_20)"
  using assms enter_closed_ok [of b v] by (simp add: PollerVWTPEnter_def channel_wf_def opened_def ResetPollWaiting_def)

lemma recv_close_ok:
  assumes "channel_wf b v" "vstate v = VWTP_ChannelClose"
  shows "ensures (recv_close now dlc d v) (rx_wf b)"
  using assms enter_closed_wf [OF assms(1), of now] enter_setup_wf
  by (auto simp: recv_close_def ensures_bind_iff ensures_Break elim!: ensures_mono)

lemma recv_idle_ok:
  assumes "channel_wf b v" "vstate v = VWTP_Idle"
  shows "ensures (recv_idle now d v) (rx_wf b)"
proof -
  let ?v1 = "on_ch (\<lambda>c. c\<lparr>ch_rxseqnr := ch_rxseqnr c + 1\<rparr>) v"
  have "channel_wf b ?v1" "vstate ?v1 \<noteq> VWTP_Closed" using assms by (simp_all add: wf_on_ch)
  moreover have "ensures (close_and_closed now v) (channel_wf b)" using assms by (intro close_then_closed) simp_all
  ultimately show ?thesis
    using assms unfolding recv_idle_def Let_def sendPong_def by (intro ensures_if ensures_Break wf_write') simp_all
qed

lemma recv_transmit_ok:
  assumes "channel_wf b v" "vstate v = VWTP_Transmit"
  shows "ensures (recv_transmit now dlc d v) (rx_wf b)"
proof -
  let ?v1 = "on_poll (\<lambda>p. p\<lparr>tx_remain := 0\<rparr>) v"
  have "channel_wf b ?v1" "vstate ?v1 \<noteq> VWTP_Closed" using assms by (simp_all add: wf_on_poll)
  then have "ensures (PollerVWTPEnter now VWTP_Idle ?v1) (channel_wf b)" by (rule enter_idle_wf')
  moreover have "ensures (close_and_closed now v) (channel_wf b)" using assms by (intro close_then_closed) simp_all
  moreover have "ensures (PollerVWTPEnter now VWTP_Transmit v) (channel_wf b)" using assms by (simp add: PollerVWTPEnter_def)
  moreover have "ensures (PollerVWTPEnter now VWTP_Receive v) (channel_wf b)"
    using assms by (simp add: PollerVWTPEnter_def enter_receive_ok)
  ultimately show ?thesis
    using assms unfolding recv_transmit_def Let_def sendPong_def by (intro ensures_if ensures_Break wf_write') simp_all
qed

lemma more_or_idle_ok:
  assumes "channel_wf b v" "vstate v \<noteq> VWTP_Closed"
  shows "ensures (more_or_idle now n v) (channel_wf b)"
proof -
  have "channel_wf b (wait_2s now (on_poll (\<lambda>p. p\<lparr>mlframe := mlframe p + 1, mloffset := mloffset p + n\<rparr>) v))"
    unfolding wait_2s_def using assms by (intro wf_on_poll) (simp_all add: SetPollWaiting_def)
  then show ?thesis using assms by (simp add: more_or_idle_def enter_idle_wf')
qed

lemma ack_if_ok:
  assumes "channel_wf b v" "vstate v \<noteq> VWTP_Closed"
  shows "ensures (ack_if x v) (\<lambda>w. channel_wf b w \<and> ch w = ch v)"
  using assms wf_write [OF assms] by (simp add: ack_if_def sendAck_def)

text \<open>Where the payload of a data frame lies.\<close>

lemma header_in_frame:
  assumes "vw_header dlc d p = (n, u)" "min_dlc p d \<le> dlc" "dlc \<le> 8"
  shows "u_pos u + unat (ucast (u_datalen u) :: u8) \<le> 8"
proof (cases "mlframe p = 0")
  case False
  then have u: "u_pos u = 1" "u_datalen u = ucast (of_nat dlc - 1 :: u8)" "1 \<le> dlc"
    using assms(1,2) by (auto simp: vw_header_def Let_def min_dlc_def)
  have "(of_nat dlc - 1 :: u8) = of_nat (dlc - 1)" using u(3) by (simp add: of_nat_diff)
  then have "unat (ucast (u_datalen u) :: u8) = dlc - 1" using u(2) assms(3) by (simp add: unat_word_of_nat_u8)
  then show ?thesis using u assms(3) by simp
next
  case True
  define h :: nat where "h = (if has_16bit_pid (uint (d ! 3) - 0x40) then 3 else if has_8bit_pid (uint (d ! 3) - 0x40) then 2 else 1)"
  consider "d ! 3 = UDS_RESP_TYPE_NRC" | (data) "d ! 3 \<noteq> UDS_RESP_TYPE_NRC" by blast
  then show ?thesis
  proof cases
    case 1
    then show ?thesis using assms(1) True by (auto simp: vw_header_def Let_def)
  next
    case data
    have u: "u_pos u = 3 + h" "u_datalen u = ucast (of_nat dlc - 3 :: u8) - of_nat h"
      using assms(1) True data by (auto simp: vw_header_def Let_def h_def)
    have h: "3 + h \<le> dlc" "0 < h" using assms(2) True by (simp_all add: min_dlc_def h_def Let_def)
    have "(of_nat dlc - 3 :: u8) = of_nat (dlc - 3)" using h by (simp add: of_nat_diff)
    then have n: "unat (ucast (of_nat dlc - 3 :: u8) :: u16) = dlc - 3" using assms(3) by (simp add: unat_word_of_nat_u8)
    have "unat (of_nat h :: u16) = h" using h assms(3) by (intro unat_word_of_nat_u16) simp
    then have "unat (u_datalen u) = dlc - 3 - h" unfolding u(2) using n h by (subst unat_sub) (simp_all add: word_le_nat_alt)
    then have "unat (ucast (u_datalen u) :: u8) = dlc - 3 - h" using assms(3) by (simp add: unsigned_ucast_eq take_bit_eq_mod)
    then show ?thesis using u(1) h assms(3) by simp
  qed
qed

lemma recv_data_ok:
  assumes wf: "channel_wf b v0" "vstate v0 = VWTP_Receive" and d: "length d = 8" "dlc \<le> 8" "min_dlc (v_poll v0) d \<le> dlc"
  shows "ensures (recv_data now dlc d m v0) (rx_wf b)"
proof -
  obtain n u where h: "vw_header dlc d (v_poll v0) = (n, u)" by (cases "vw_header dlc d (v_poll v0)")
  define v where "v = (if mlframe (v_poll v0) = 0
    then on_poll (\<lambda>p. p\<lparr>mlremain := push_bit 8 (ucast (d ! 1 AND 0x0f)) OR ucast (d ! 2)\<rparr>) v0 else v0)"
  have v: "channel_wf b v" "vstate v = VWTP_Receive" using wf by (simp_all add: v_def wf_on_poll)
  then obtain v1 where v1: "ack_if (d ! 0) v = Some v1" "channel_wf b v1" "vstate v1 = VWTP_Receive"
    using ack_if_ok [OF v(1), of "d ! 0"] by (auto simp: ensures_def)
  let ?v2 = "on_poll (\<lambda>p. let q = p\<lparr>moduleid_rec := moduleid_sent p\<rparr> in (report (uint (u_error_code u)) q)\<lparr>mlremain := 0\<rparr>) v1"
  have v2: "channel_wf b ?v2" "vstate ?v2 \<noteq> VWTP_Closed" using v1 by (simp_all add: wf_on_poll report_def emit_def Let_def)
  have err: "ensures (PollerVWTPEnter now VWTP_Idle ?v2 \<bind> (\<lambda>v3. map_option Break (more_or_idle now (u_datalen u) v3))) (rx_wf b)"
    by (rule ensures_bindI [OF enter_idle_wf [OF v2]]) (elim conjE, intro ensures_Break(1) more_or_idle_ok, simp_all)
  have pend: "channel_wf b (wait_2s now v1)" unfolding wait_2s_def using v1 by (intro wf_on_poll) (simp_all add: SetPollWaiting_def)
  have data: "ensures (more_or_idle now (u_datalen u) (on_poll (emit (Packet pk)) (on_poll (\<lambda>p. p\<lparr>mlremain := mlremain p - ucast n, moduleid_rec := m\<rparr>) v1))) (channel_wf b)" for pk
    using v1 by (intro more_or_idle_ok) (simp_all add: wf_on_poll)
  have ab: "ensures (PollerVWTPEnter now VWTP_AbortXfer v) (channel_wf b)"
    using enter_abort_wf [OF v(1), of now] v(2) by (auto simp: ensures_def)
  show ?thesis
  proof (cases "u_type u = UDS_RESP_TYPE_NRC \<and> uint (u_error_type u) = uint (p_type (v_poll v))")
    case True
    then show ?thesis
      unfolding recv_data_def h Let_def prod.case v_def [symmetric] if_P [OF True] v1(1) Option.bind.bind_lunit
      using pend err by (intro ensures_if) (simp_all add: Let_def)
  next
    case False
    have "rdn d (u_pos u) (unat (ucast (u_datalen u) :: u8)) = Some (take (unat (ucast (u_datalen u) :: u8)) (drop (u_pos u) d))"
      using header_in_frame [OF h d(3,2)] d(1) by (simp add: rdn_def)
    then show ?thesis
      unfolding recv_data_def h Let_def prod.case v_def [symmetric] if_not_P [OF False] v1(1) Option.bind.bind_lunit
      using data ab by (intro ensures_if) (simp_all add: ensures_Break)
  qed
qed

lemma recv_receive_ok:
  assumes "channel_wf b v" "vstate v = VWTP_Receive" "proper_frame dlc d v"
  shows "ensures (recv_receive now now' dlc d m v) (rx_wf b)"
proof -
  let ?v1 = "on_ch (\<lambda>c. c\<lparr>ch_rxseqnr := ch_rxseqnr (ch v) + 1\<rparr>) (touch now v)"
  have v1: "channel_wf b ?v1" "vstate ?v1 = VWTP_Receive" using assms by (simp_all add: wf_on_ch) (simp add: touch_def)
  have "ensures (PollerVWTPEnter now' VWTP_AbortXfer ?v1) (channel_wf b)"
    using enter_abort_wf [OF v1(1), of now'] v1(2) by (auto simp: ensures_def)
  moreover have "ensures (recv_data now' dlc d m ?v1) (rx_wf b)" if "d ! 0 < 0x40"
    using that assms(2,3) v1 by (intro recv_data_ok) (simp_all add: proper_frame_def touch_def)
  moreover have "ensures (close_and_closed now' v) (channel_wf b)" using assms by (intro close_then_closed) simp_all
  ultimately show ?thesis
    using assms(1,2) unfolding recv_receive_def Let_def sendPong_def by (intro ensures_if ensures_Break wf_write') simp_all
qed

lemma PollerVWTPReceive_ok:
  assumes "channel_wf b v" "proper_frame dlc d v"
  shows "ensures (PollerVWTPReceive cp now now' dlc d m v) (\<lambda>(ret, w). channel_wf b w)"
proof -
  have nxt: "channel_wf b (on_poll (PollerSucceededPollNext cp now') w)"
    if "channel_wf b w" for w
    using that by (auto simp: PollerSucceededPollNext_def Let_def emit_def intro!: wf_on_poll)
  have body: "ensures (case vstate v of
               VWTP_ChannelSetup \<Rightarrow> recv_setup now' dlc d v
             | VWTP_ChannelParams \<Rightarrow> recv_params now' dlc d v
             | VWTP_ChannelClose \<Rightarrow> recv_close now' dlc d v
             | VWTP_Idle \<Rightarrow> recv_idle now' d v
             | VWTP_Transmit \<Rightarrow> recv_transmit now' dlc d v
             | VWTP_Receive \<Rightarrow> recv_receive now now' dlc d m v
             | _ \<Rightarrow> Some (Break v)) (rx_wf b)"
    using assms by (cases "vstate v")
      (simp_all add: recv_setup_ok recv_params_ok recv_close_ok recv_idle_ok recv_transmit_ok recv_receive_ok)
  show ?thesis
    unfolding PollerVWTPReceive_def
  proof (rule ensures_if)
    show "ensures (Some (False, v)) (\<lambda>(ret, w). channel_wf b w)" using assms(1) by simp
  qed (rule ensures_bindI [OF body], use nxt in \<open>auto simp: rx_wf_def split: rx.splits\<close>)
qed

text \<open>A frame that is not one of the channel is not one of the poll either.\<close>

lemma iso_untouched:
  assumes "channel_wf b v" "\<not> (pf_origin f = ch_bus (ch v) \<and> pf_id f = ucast (ch_rxid (ch v)) \<and> vstate v \<noteq> VWTP_Closed)"
  shows "Incoming polls cp now now' f (v_poll v) = Some (False, v_poll v)"
proof (cases "vstate v = VWTP_Closed")
  case True
  then have "\<not> GetPollWaiting now (v_poll v)" using assms(1) by (simp add: channel_wf_def GetPollWaiting_def)
  then show ?thesis by (simp add: Incoming_def)
next
  case False
  then have v: "p_protocol (v_poll v) = VWTP_20" "m_bus (v_poll v) = ch_bus (ch v)"
    "moduleid_low (v_poll v) = ucast (ch_rxid (ch v))" "moduleid_high (v_poll v) = ucast (ch_rxid (ch v))"
    using assms(1) by (simp_all add: channel_defs)
  then show ?thesis using assms(2) False by (auto simp: Incoming_def Let_def)
qed

lemma Incoming_frame_ok:
  assumes "channel_wf b v" "proper_frame dlc (pf_data f) v"
  shows "ensures (Incoming_frame polls cp now now' dlc f v) (\<lambda>(ret, w). channel_wf b w)"
proof (cases "pf_origin f = ch_bus (ch v) \<and> pf_id f = ucast (ch_rxid (ch v)) \<and> vstate v \<noteq> VWTP_Closed")
  case True
  let ?v = "on_poll (\<lambda>p. p\<lparr>raw_data := (0, 8)\<rparr>) v"
  have "channel_wf b ?v" "proper_frame dlc (pf_data f) ?v"
    using assms by (simp_all add: wf_on_poll) (simp add: proper_frame_def min_dlc_def)
  note r = PollerVWTPReceive_ok [OF this, of cp now now' "pf_id f"]
  show ?thesis
    unfolding Incoming_frame_def if_P [OF True]
    by (rule ensures_bindI [OF r]) (auto simp: wf_on_poll)
next
  case False
  then show ?thesis
    using assms(1) unfolding Incoming_frame_def if_not_P [OF False] iso_untouched [OF assms(1) False] by simp
qed

subsection \<open>Transmissions and ticks\<close>

lemma Outgoing_ok:
  assumes "channel_wf b v"
  shows "ensures (Outgoing locked now f success v) (channel_wf b)"
proof (cases "GetPollWaiting now (v_poll v)")
  case False
  then show ?thesis using assms by (simp add: Outgoing_def)
next
  case True
  then have nc: "vstate v \<noteq> VWTP_Closed" using assms by (auto simp: channel_wf_def GetPollWaiting_def)
  then have p: "p_protocol (v_poll v) = VWTP_20" using assms by (simp add: channel_defs)
  have tell: "channel_wf b (on_poll (\<lambda>q. emit (TxReply success) (q\<lparr>moduleid_rec := 0\<rparr>)) w)" if "channel_wf b w" for w
    using that by (simp add: wf_on_poll emit_def)
  have fail: "channel_wf b (on_poll (\<lambda>q. let r = ResetPollWaiting q in if locked then report (- 2) r else r) w)"
    if "channel_wf b w" "vstate w = VWTP_Closed" for w
    using that by (simp add: channel_defs ResetPollWaiting_def report_def emit_def Let_def)
  have "ensures (PollerVWTPTxCallback now success v) (\<lambda>w. channel_wf b w \<and> (\<not> success \<longrightarrow> vstate w = VWTP_Closed))"
    using enter_closed_wf [OF assms nc, of now] assms by (auto simp: PollerVWTPTxCallback_def elim!: ensures_mono)
  then show ?thesis
    unfolding Outgoing_def Let_def using assms p tell fail
    by (intro ensures_if) (auto simp: ensures_bind_iff Let_def elim!: ensures_mono)
qed

lemma PollerVWTPTicker_ok:
  assumes "channel_wf b v"
  shows "ensures (PollerVWTPTicker now now' v) (channel_wf b)"
proof -
  define keep where "keep = (\<lambda>w. if vstate w = VWTP_Idle \<and> keepalive w > 0 \<and> now - ch_lastused (ch v) > ucast (keepalive w) * 1000
                      then PollerVWTPEnter now' VWTP_ChannelClose w else Some w)"
  have keep: "ensures (keep w) (channel_wf b)" if "channel_wf b w" for w
    using that ensures_mono [OF enter_close_wf [OF that] conjunct1] by (simp add: keep_def)
  have closed: "ensures (PollerVWTPEnter now' VWTP_Closed v) (\<lambda>w. channel_wf b w \<and> p_protocol (v_poll w) = VWTP_20)"
    if "vstate v \<noteq> VWTP_Closed"
    by (rule ensures_mono [OF enter_closed_wf [OF assms that]]) simp
  have again: "ensures (if p_protocol (v_poll w) = VWTP_20 then PollerVWTPStart now now' w else Some w) (channel_wf b)"
    if "channel_wf b w" for w
    using that by (simp add: PollerVWTPStart_ok)
  have reopen: "ensures (PollerVWTPEnter now' VWTP_Closed v \<bind>
      (\<lambda>v1. (if p_protocol (v_poll v1) = VWTP_20 then PollerVWTPStart now now' v1 else Some v1) \<bind> keep)) (channel_wf b)"
    if "vstate v \<noteq> VWTP_Closed"
    by (rule ensures_bindI [OF closed [OF that]]) (elim conjE, rule ensures_bindI [OF again keep])
  have close: "ensures (PollerVWTPEnter now' VWTP_ChannelClose v \<bind> keep) (channel_wf b)" if "vstate v \<noteq> VWTP_Closed"
    by (rule ensures_bindI [OF enter_close_wf [OF assms that]]) (elim conjE, rule keep)
  have shut: "ensures (PollerVWTPEnter now' VWTP_Closed v \<bind> keep) (channel_wf b)" if "vstate v \<noteq> VWTP_Closed"
    by (rule ensures_bindI [OF closed [OF that]]) (elim conjE, rule keep)
  have "channel_wf b (wait_2s now v)" if "GetPollWaiting now (v_poll v)"
  proof -
    have "vstate v \<noteq> VWTP_Closed" using that assms by (auto simp: channel_wf_def GetPollWaiting_def)
    then show ?thesis unfolding wait_2s_def using assms by (intro wf_on_poll) (simp_all add: SetPollWaiting_def)
  qed
  moreover have "PollerVWTPTicker now now' v =
    (if GetPollWaiting now (v_poll v)
     then if now - ch_lastused (ch v) < 200 then Some (wait_2s now v)
          else if vstate v = VWTP_ChannelSetup \<or> vstate v = VWTP_ChannelParams then PollerVWTPEnter now' VWTP_Closed v \<bind> keep
          else if vstate v = VWTP_ChannelClose
          then PollerVWTPEnter now' VWTP_Closed v \<bind>
            (\<lambda>v1. (if p_protocol (v_poll v1) = VWTP_20 then PollerVWTPStart now now' v1 else Some v1) \<bind> keep)
          else keep v
     else if vstate v \<noteq> VWTP_Closed \<and> vstate v \<noteq> VWTP_Idle then PollerVWTPEnter now' VWTP_ChannelClose v \<bind> keep
     else keep v)"
    unfolding PollerVWTPTicker_def Let_def keep_def by (rule refl)
  ultimately show ?thesis
    using keep [OF assms] reopen close shut by (auto intro!: ensures_if)
qed

subsection \<open>Every reachable state\<close>

datatype vw_event =
    Poll u32 u32 poll_entry
  | Received bool bool u32 u32 nat poll_frame
  | Sent bool u32 poll_frame bool
  | Tick u32 u32

fun vw_do :: "vw_event \<Rightarrow> vwtp \<Rightarrow> vwtp option" where
  "vw_do (Poll now now' e) v = dispatch now now' e v"
| "vw_do (Received polls cp now now' dlc f) v = map_option snd (Incoming_frame polls cp now now' dlc f v)"
| "vw_do (Sent locked now f success) v = Outgoing locked now f success v"
| "vw_do (Tick now now') v = PollerVWTPTicker now now' v"

text \<open>Polls are VW polls with a payload that is there; frames are \<open>proper_frame\<close>s.\<close>

fun event_ok :: "vw_event \<Rightarrow> vwtp \<Rightarrow> bool" where
  "event_ok (Poll now now' e) v \<longleftrightarrow> vw_entry e"
| "event_ok (Received polls cp now now' dlc f) v \<longleftrightarrow> proper_frame dlc (pf_data f) v"
| "event_ok _ v \<longleftrightarrow> True"

inductive vw_reach :: "nat \<Rightarrow> vwtp \<Rightarrow> bool" for b where
  reach_init: "b \<noteq> 0 \<Longrightarrow> ch v = closed_channel \<Longrightarrow> m_bus (v_poll v) = b \<Longrightarrow> wait_timeout (v_poll v) = 0 \<Longrightarrow>
    args_ok (e_args (v_poll v)) \<Longrightarrow> vw_reach b v"
| reach_step: "vw_reach b v \<Longrightarrow> event_ok e v \<Longrightarrow> vw_do e v = Some v' \<Longrightarrow> vw_reach b v'"

lemma event_keeps:
  assumes "channel_wf b v" "event_ok e v"
  shows "ensures (vw_do e v) (channel_wf b)"
proof (cases e)
  case (Received polls cp now now' dlc f)
  then show ?thesis using Incoming_frame_ok [OF assms(1), of dlc f polls cp now now'] assms(2) by (auto simp: ensures_def)
qed (use assms in \<open>simp_all add: dispatch_ok Outgoing_ok PollerVWTPTicker_ok\<close>)

lemma reach_wf: "vw_reach b v \<Longrightarrow> channel_wf b v"
proof (induction rule: vw_reach.induct)
  case (reach_init v)
  then show ?case by (simp add: channel_wf_def on_bus_def closed_channel_def)
next
  case (reach_step v e v')
  show ?case by (rule ensuresD [OF event_keeps [OF reach_step.IH reach_step.hyps(2)] reach_step.hyps(3)])
qed



subsection \<open>A request longer than a block\<close>

lemma close_written:
  assumes "ch_bus (ch v) \<noteq> 0"
  shows "\<exists>w. enter_close now v = Some w \<and> vstate w = VWTP_ChannelClose \<and> outs (v_poll w) = outs (v_poll v) @ [Write (channel_frame (ch v) [0xA8])]"
  using assms by (simp add: enter_close_def vw_write_def channel_frame_def vw_field_defs)

lemma ack_ignored:
  assumes "vstate v = VWTP_Transmit" "ch_bus (ch v) \<noteq> 0" "tx_remain (v_poll v) \<noteq> 0" "GetPollWaiting now' (v_poll v)"
    and f: "unit_frame (ch v) f [with_nr 0xB0 k]"
  shows "Incoming_frame polls cp now now' 1 f v = Some (True, on_poll (\<lambda>p. p\<lparr>raw_data := (0, 0)\<rparr>) v)"
proof -
  have D: "pf_data f ! 0 = with_nr 0xB0 k" using unit_nth [OF f, of 0] by simp
  have op: "with_nr 0xB0 k AND 0xf0 = 0xB0" by (simp add: with_nr_def u8_eq_iff all_less_8 bit_simps)
  have id: "pf_origin f = ch_bus (ch v)" "pf_id f = ucast (ch_rxid (ch v))" using f by (simp_all add: unit_frame_def)
  let ?v0 = "on_poll (\<lambda>p. p\<lparr>raw_data := (0, 8)\<rparr>) v"
  have "0 < tx_remain (v_poll v)" using assms(3) by (simp add: word_gt_0)
  then have "recv_transmit now' 1 (pf_data f) ?v0 = Some (Break ?v0)"
    unfolding recv_transmit_def Let_def D using op assms(1) by (simp add: PollerVWTPEnter_def)
  moreover have "GetPollWaiting now' (v_poll ?v0)" using assms(4) by (simp add: GetPollWaiting_def)
  ultimately show ?thesis
    unfolding Incoming_frame_def PollerVWTPReceive_def using id assms(1,2) by (simp add: on_poll_def)
qed

text \<open>The unit acknowledges every frame of the block, each before the waiting time is over.\<close>

definition acknowledged :: "vwtp_channel \<Rightarrow> u32 \<Rightarrow> (u32 \<times> u32 \<times> nat \<times> poll_frame) list \<Rightarrow> bool" where
  "acknowledged c deadline tfs \<longleftrightarrow>
     (\<forall>(now, now', dlc, f) \<in> set tfs. now' < deadline \<and> dlc = 1 \<and> (\<exists>k. unit_frame c f [with_nr 0xB0 k]))"

lemma acks_ignored:
  assumes "vstate v = VWTP_Transmit" "ch_bus (ch v) \<noteq> 0" "tx_remain (v_poll v) \<noteq> 0" "wait_timeout (v_poll v) = d" "d \<noteq> 0"
    and "acknowledged (ch v) d tfs"
  shows "\<exists>r. recv_stream polls cp tfs v = Some (on_poll (\<lambda>p. p\<lparr>raw_data := r\<rparr>) v)"
  using assms
proof (induction tfs arbitrary: v)
  case Nil
  then show ?case by (intro exI [of _ "raw_data (v_poll v)"]) (simp add: on_poll_def)
next
  case (Cons tf tfs)
  obtain now now' dlc f where tf: "tf = (now, now', dlc, f)" by (cases tf)
  then obtain k where k: "dlc = 1" "now' < d" "unit_frame (ch v) f [with_nr 0xB0 k]" "acknowledged (ch v) d tfs"
    using Cons.prems(6) by (auto simp: acknowledged_def)
  let ?v = "on_poll (\<lambda>p. p\<lparr>raw_data := (0, 0)\<rparr>) v"
  have "GetPollWaiting now' (v_poll v)" using Cons.prems(4,5) k(2) by (simp add: GetPollWaiting_def)
  note step = ack_ignored [OF Cons.prems(1-3) this k(3), of polls cp now]
  obtain r where "recv_stream polls cp tfs ?v = Some (on_poll (\<lambda>p. p\<lparr>raw_data := r\<rparr>) ?v)"
    using Cons.IH [of ?v] Cons.prems(1-5) k(4) by auto
  then show ?case using step by (intro exI [of _ r]) (simp add: tf k(1) on_poll_def)
qed

text \<open>C24. A request longer than one block is never finished: the first block of its frames is written, but
  acknowledgements, however many come in time, bring no further frame, because the transition to the state
  the channel is already in does nothing.  The rest stays unsent until a tick after the waiting time
  closes the channel.\<close>

theorem long_request_stalls:
  assumes "vstate v \<noteq> VWTP_StartPoll" "args_ok (e_args (v_poll v))" "ch_bus (ch v) \<noteq> 0" "ch_blocksize (ch v) \<noteq> 0"
    and "7 * unat (ch_blocksize (ch v)) < length (with_length (vw_request v))" "clock_ok now"
    and "acknowledged (ch v) (2000 + now) tfs" "2000 + now \<le> n"
  shows "\<exists>v1 v2 v3. PollerVWTPEnter now VWTP_StartPoll v = Some v1 \<and> recv_stream polls cp tfs v1 = Some v2 \<and>
    sends (map (channel_frame (ch v))
      (block_frames (unat (ch_blocksize (ch v))) (ch_txseqnr (ch v)) (chunks 7 (with_length (vw_request v))))) v v2 \<and>
    vstate v2 = VWTP_Transmit \<and> tx_remain (v_poll v2) \<noteq> 0 \<and>
    PollerVWTPTicker n n' v2 = Some v3 \<and> vstate v3 = VWTP_ChannelClose \<and> sends [channel_frame (ch v) [0xA8]] v2 v3"
proof -
  obtain v1 m where v1: "PollerVWTPEnter now VWTP_StartPoll v = Some v1"
    "v1 = v\<lparr>v_poll := v_poll v1, ch := (ch v)\<lparr>ch_state := VWTP_Transmit, ch_txseqnr := m, ch_lastused := now\<rparr>\<rparr>"
    "unat (tx_remain (v_poll v1)) = length (drop (7 * unat (ch_blocksize (ch v))) (with_length (vw_request v)))"
    "wait_timeout (v_poll v1) = 2000 + now"
    "sends (map (channel_frame (ch v)) (block_frames (unat (ch_blocksize (ch v))) (ch_txseqnr (ch v)) (chunks 7 (with_length (vw_request v))))) v v1"
    using request_started [OF assms(2-4,1), of now] by blast
  have c1: "ch v1 = (ch v)\<lparr>ch_state := VWTP_Transmit, ch_txseqnr := m, ch_lastused := now\<rparr>" by (subst v1(2)) simp
  have rem: "tx_remain (v_poll v1) \<noteq> 0" using v1(3) assms(5) by auto
  have d: "2000 + now \<noteq> 0" using clock_waiting [OF assms(6), of "v_poll v"] by (simp add: GetPollWaiting_def SetPollWaiting_def)
  have ack: "acknowledged (ch v1) (2000 + now) tfs" using assms(7) by (simp add: acknowledged_def unit_frame_def c1)
  obtain r where r: "recv_stream polls cp tfs v1 = Some (on_poll (\<lambda>p. p\<lparr>raw_data := r\<rparr>) v1)"
    using acks_ignored [OF _ _ rem v1(4) d ack, of polls cp] c1 assms(3) by auto
  let ?v2 = "on_poll (\<lambda>p. p\<lparr>raw_data := r\<rparr>) v1"
  have late: "\<not> GetPollWaiting n (v_poll ?v2)" using v1(4) assms(8) by (simp add: GetPollWaiting_def not_less)
  have cf: "channel_frame (ch ?v2) = channel_frame (ch v)" by (simp add: channel_frame_def c1 fun_eq_iff)
  obtain v3 where v3: "enter_close n' ?v2 = Some v3" "vstate v3 = VWTP_ChannelClose" "sends [channel_frame (ch v) [0xA8]] ?v2 v3"
    using close_written [of ?v2 n'] sends_one assms(3) c1 unfolding cf by auto
  have "PollerVWTPTicker n n' ?v2 = Some v3" using late c1 v3 by (simp add: PollerVWTPTicker_def Let_def PollerVWTPEnter_def)
  moreover have "sends (map (channel_frame (ch v)) (block_frames (unat (ch_blocksize (ch v))) (ch_txseqnr (ch v)) (chunks 7 (with_length (vw_request v))))) v ?v2"
    using v1(5) by (simp add: sends_def)
  ultimately show ?thesis using v1(1) r rem c1 v3
    by (intro exI [of _ v1] exI [of _ ?v2] exI [of _ v3]) simp
qed

definition sample_channel :: vwtp where
  "sample_channel = idle_vwtp\<lparr>v_poll := idle_poller\<lparr>e_type := 0x22, e_args := Args 6 [1, 2, 3, 4, 5, 6]\<rparr>,
     ch := closed_channel\<lparr>ch_state := VWTP_Idle, ch_bus := 1, ch_txid := 0x740, ch_rxid := 0x300, ch_blocksize := 1\<rparr>\<rparr>"

theorem long_request_stalls_witness:
  "\<exists>v1 v2 v3. PollerVWTPEnter 0 VWTP_StartPoll sample_channel = Some v1 \<and>
     recv_stream True True [(50, 50, 1, \<lparr>pf_origin = 1, pf_ext = False, pf_id = 0x300, pf_data = [0xB1, 0, 0, 0, 0, 0, 0, 0]\<rparr>)] v1 = Some v2 \<and>
     sends [channel_frame (ch sample_channel) [0x00, 0, 9, 0x22, 0, 0, 1, 2]] sample_channel v2 \<and>
     vstate v2 = VWTP_Transmit \<and> tx_remain (v_poll v2) \<noteq> 0 \<and>
     PollerVWTPTicker 2000 2000 v2 = Some v3 \<and> vstate v3 = VWTP_ChannelClose \<and> sends [channel_frame (ch sample_channel) [0xA8]] v2 v3"
proof -
  let ?v = sample_channel
  let ?tfs = "[(50, 50, 1, \<lparr>pf_origin = 1, pf_ext = False, pf_id = 0x300, pf_data = [0xB1, 0, 0, 0, 0, 0, 0, 0]\<rparr>)]
    :: (u32 \<times> u32 \<times> nat \<times> poll_frame) list"
  have msg: "vw_request ?v = [0x22, 0, 0, 1, 2, 3, 4, 5, 6]"
    by (simp add: sample_channel_def idle_vwtp_def idle_poller_def vw_request_def pid_bytes_def has_16bit_pid_def args_len_def args_data_def Let_def)
  have v: "vstate ?v \<noteq> VWTP_StartPoll" "args_ok (e_args (v_poll ?v))" "ch_bus (ch ?v) \<noteq> 0" "ch_blocksize (ch ?v) \<noteq> 0"
    "7 * unat (ch_blocksize (ch ?v)) < length (with_length (vw_request ?v))"
    unfolding msg by (simp_all add: sample_channel_def args_ok_def args_len_def args_data_def with_length_def)
  have "with_nr 0xB0 1 = 0xB1" by (simp add: with_nr_def)
  then have ack: "acknowledged (ch ?v) (2000 + 0) ?tfs"
    by (auto simp: acknowledged_def unit_frame_def sample_channel_def intro!: exI [of _ 1])
  have F: "block_frames (unat (ch_blocksize (ch ?v))) (ch_txseqnr (ch ?v)) (chunks 7 (with_length (vw_request ?v))) = [[0x00, 0, 9, 0x22, 0, 0, 1, 2]]"
    unfolding msg by (simp add: sample_channel_def closed_channel_def with_length_def chunks_step)
  show ?thesis
    using long_request_stalls [OF v _ ack, of 2000 True True 2000] unfolding F by (simp add: clock_ok_def del: recv_stream.simps)
qed

end
