(* ===== verification/OvmsBuffer.thy ===== *)
theory OvmsBuffer
  imports Prelude
begin

section \<open>The byte ring buffer\<close>

text \<open>
  \<open>OvmsBuffer\<close> (\<open>components/ovms_buffer/src/ovms_buffer.cpp\<close>): a ring buffer of bytes that modem,
  GSM multiplexer and socket code use, with the search for complete lines.  The record has the
  fields of the class; \<open>None\<close> is an access outside \<open>m_buffer\<close>.  The bytes \<open>new uint8_t[size]\<close> finds are
  an argument of the constructor, and what a socket answers is an argument of \<open>PollSocket\<close>.

  \<open>byte_queue\<close> states the contract of such a queue, \<open>contents\<close> is the abstraction of the ring buffer,
  and the interpretation \<open>ob\<close> shows that the ring buffer implements the contract.
\<close>

subsection \<open>The operations\<close>

record ovms_buffer =
  m_buffer :: bytes
  m_head :: nat
  m_tail :: nat
  m_size :: nat
  m_used :: nat

definition OvmsBuffer :: "bytes \<Rightarrow> ovms_buffer" where
  "OvmsBuffer mem = \<lparr>m_buffer = mem, m_head = 0, m_tail = 0, m_size = length mem, m_used = 0\<rparr>"

definition FreeSpace :: "ovms_buffer \<Rightarrow> nat" where
  "FreeSpace s = m_size s - m_used s"

definition UsedSpace :: "ovms_buffer \<Rightarrow> nat" where
  "UsedSpace s = m_used s"

definition EmptyAll :: "ovms_buffer \<Rightarrow> ovms_buffer" where
  "EmptyAll s = s\<lparr>m_head := 0, m_tail := 0, m_used := 0\<rparr>"

definition next_pos :: "ovms_buffer \<Rightarrow> nat \<Rightarrow> nat" where
  "next_pos s i = (if i + 1 \<ge> m_size s then 0 else i + 1)"

definition put_head :: "u8 \<Rightarrow> ovms_buffer \<Rightarrow> ovms_buffer option" where
  "put_head b s =
     map_option (\<lambda>mem. s\<lparr>m_buffer := mem, m_head := next_pos s (m_head s)\<rparr>) (wr (m_buffer s) (m_head s) b)"

definition Push :: "u8 \<Rightarrow> ovms_buffer \<Rightarrow> (bool \<times> ovms_buffer) option" where
  "Push b s =
     (if m_used s = m_size s then Some (False, s)
      else do { s1 \<leftarrow> put_head b (s\<lparr>m_used := m_used s + 1\<rparr>); Some (True, s1) })"

fun put_all :: "bytes \<Rightarrow> ovms_buffer \<Rightarrow> ovms_buffer option" where
  "put_all [] s = Some s"
| "put_all (b # bs) s = do { s1 \<leftarrow> put_head b s; put_all bs s1 }"

definition Push_block :: "bytes \<Rightarrow> ovms_buffer \<Rightarrow> (bool \<times> ovms_buffer) option" where
  "Push_block bs s =
     (if m_size s - m_used s < length bs then Some (False, s)
      else do { s1 \<leftarrow> put_all bs (s\<lparr>m_used := m_used s + length bs\<rparr>); Some (True, s1) })"

definition take_tail :: "ovms_buffer \<Rightarrow> (u8 \<times> ovms_buffer) option" where
  "take_tail s = do {
     b \<leftarrow> rd (m_buffer s) (m_tail s);
     Some (b, s\<lparr>m_used := m_used s - 1, m_tail := next_pos s (m_tail s)\<rparr>) }"

definition Pop :: "ovms_buffer \<Rightarrow> (u8 \<times> ovms_buffer) option" where
  "Pop s = (if m_used s = 0 then Some (0, s) else take_tail s)"

fun Pop_block :: "nat \<Rightarrow> ovms_buffer \<Rightarrow> (bytes \<times> ovms_buffer) option" where
  "Pop_block 0 s = Some ([], s)"
| "Pop_block (Suc count) s =
     (if m_used s > 0
      then do { (b, s1) \<leftarrow> take_tail s; (bs, s2) \<leftarrow> Pop_block count s1; Some (b # bs, s2) }
      else Some ([], s))"

definition Peek :: "ovms_buffer \<Rightarrow> u8 option" where
  "Peek s = (if m_used s = 0 then Some 0 else rd (m_buffer s) (m_tail s))"

fun peek_loop :: "nat \<Rightarrow> nat \<Rightarrow> ovms_buffer \<Rightarrow> bytes option" where
  "peek_loop 0 tail s = Some []"
| "peek_loop (Suc n) tail s = do { b \<leftarrow> rd (m_buffer s) tail; bs \<leftarrow> peek_loop n (next_pos s tail) s; Some (b # bs) }"

definition Peek_block :: "nat \<Rightarrow> ovms_buffer \<Rightarrow> bytes option" where
  "Peek_block count s = peek_loop (min (m_used s) count) (m_tail s) s"

definition is_eol :: "u8 \<Rightarrow> bool" where
  "is_eol b \<longleftrightarrow> b = 13 \<or> b = 10"

fun line_loop :: "nat \<Rightarrow> nat \<Rightarrow> nat \<Rightarrow> ovms_buffer \<Rightarrow> int option" where
  "line_loop 0 done' tail s = Some (- 1)"
| "line_loop (Suc n) done' tail s = do {
     b \<leftarrow> rd (m_buffer s) tail;
     if is_eol b then Some (int done') else line_loop n (done' + 1) (next_pos s tail) s }"

definition HasLine :: "ovms_buffer \<Rightarrow> int option" where
  "HasLine s = (if m_used s = 0 then Some (- 1) else line_loop (m_used s) 0 (m_tail s) s)"

definition pop_if :: "u8 \<Rightarrow> ovms_buffer \<Rightarrow> ovms_buffer option" where
  "pop_if c s = do { b \<leftarrow> Peek s; if b = c then map_option snd (Pop s) else Some s }"

definition ReadLine :: "ovms_buffer \<Rightarrow> (bytes \<times> ovms_buffer) option" where
  "ReadLine s = do {
     hl \<leftarrow> HasLine s;
     if hl < 0 then Some ([], s)
     else do {
       (line, s1) \<leftarrow> Pop_block (nat hl) s;
       s2 \<leftarrow> pop_if 13 s1;
       s3 \<leftarrow> pop_if 10 s2;
       Some (line, s3) } }"

definition ReadAll :: "ovms_buffer \<Rightarrow> (bytes \<times> ovms_buffer) option" where
  "ReadAll s = Pop_block (m_used s) s"

text \<open>\<open>ready\<close> is the result of \<open>select\<close>, \<open>recv\<close> what \<open>read\<close> returns for a number of bytes: a negative
  result, or the bytes read.\<close>

definition PollSocket :: "int \<Rightarrow> int \<Rightarrow> (nat \<Rightarrow> int \<times> bytes) \<Rightarrow> ovms_buffer \<Rightarrow> (int \<times> ovms_buffer) option" where
  "PollSocket sock ready recv s =
     (if sock < 0 then Some (- 1, s)
      else if ready \<le> 0 then Some (- 1, s)
      else if FreeSpace s = 0 then Some (0, s)
      else let (n, buf) = recv (FreeSpace s) in
        if n > 0 then do { (ok, s1) \<leftarrow> Push_block (take (nat n) buf) s; Some (n, s1) } else Some (n, s))"

subsection \<open>The contract of a byte queue\<close>

text \<open>A loop that pushes bytes one by one and does not look at the results.\<close>

fun push_each :: "(u8 \<Rightarrow> 'q \<Rightarrow> (bool \<times> 'q) option) \<Rightarrow> bytes \<Rightarrow> 'q \<Rightarrow> 'q option" where
  "push_each push [] q = Some q"
| "push_each push (b # bs) q = do { (ok, q1) \<leftarrow> push b q; push_each push bs q1 }"

locale byte_queue =
  fixes wf :: "'q \<Rightarrow> bool" and cont :: "'q \<Rightarrow> bytes" and cap :: "'q \<Rightarrow> nat"
    and push :: "u8 \<Rightarrow> 'q \<Rightarrow> (bool \<times> 'q) option" and pop :: "'q \<Rightarrow> (u8 \<times> 'q) option"
  assumes bound: "wf q \<Longrightarrow> length (cont q) \<le> cap q"
    and push_room: "wf q \<Longrightarrow> length (cont q) < cap q \<Longrightarrow>
      \<exists>q'. push b q = Some (True, q') \<and> wf q' \<and> cont q' = cont q @ [b] \<and> cap q' = cap q"
    and push_full: "wf q \<Longrightarrow> length (cont q) = cap q \<Longrightarrow> push b q = Some (False, q)"
    and pop_first: "wf q \<Longrightarrow> cont q = b # bs \<Longrightarrow> \<exists>q'. pop q = Some (b, q') \<and> wf q' \<and> cont q' = bs \<and> cap q' = cap q"
    and pop_empty: "wf q \<Longrightarrow> cont q = [] \<Longrightarrow> pop q = Some (0, q)"
begin

lemma push_each_keeps:
  assumes "wf q"
  shows "\<exists>q'. push_each push bs q = Some q' \<and> wf q' \<and> cont q' = take (cap q) (cont q @ bs) \<and> cap q' = cap q"
  using assms
proof (induction bs arbitrary: q)
  case Nil
  then show ?case using bound [OF Nil] by simp
next
  case (Cons b bs)
  show ?case
  proof (cases "length (cont q) < cap q")
    case True
    obtain q1 where q1: "push b q = Some (True, q1)" "wf q1" "cont q1 = cont q @ [b]" "cap q1 = cap q"
      using push_room [OF Cons.prems True] by blast
    then show ?thesis using Cons.IH [OF q1(2)] by simp
  next
    case False
    then have full: "length (cont q) = cap q" using bound [OF Cons.prems] by simp
    then show ?thesis using Cons.IH [OF Cons.prems] push_full [OF Cons.prems full] by simp
  qed
qed

end

subsection \<open>The ring buffer implements it\<close>

definition wf_buffer :: "ovms_buffer \<Rightarrow> bool" where
  "wf_buffer s \<longleftrightarrow> length (m_buffer s) = m_size s \<and> m_used s \<le> m_size s \<and>
     (if m_size s = 0 then m_head s = 0 \<and> m_tail s = 0
      else m_tail s < m_size s \<and> m_head s = (m_tail s + m_used s) mod m_size s)"

definition contents :: "ovms_buffer \<Rightarrow> bytes" where
  "contents s = map (\<lambda>k. m_buffer s ! ((m_tail s + k) mod m_size s)) [0..<m_used s]"

lemma contents_length [simp]: "length (contents s) = m_used s"
  by (simp add: contents_def)

lemma wf_new: "wf_buffer (OvmsBuffer mem)" "contents (OvmsBuffer mem) = []"
  by (simp_all add: wf_buffer_def contents_def OvmsBuffer_def)

lemma EmptyAll_ok: "wf_buffer s \<Longrightarrow> wf_buffer (EmptyAll s)" "contents (EmptyAll s) = []"
  by (auto simp: wf_buffer_def contents_def EmptyAll_def split: if_splits)

lemma empty_size: "m_size (EmptyAll s) = m_size s"
  by (simp add: EmptyAll_def)

lemma next_pos_mod: "i < m_size s \<Longrightarrow> next_pos s i = (i + 1) mod m_size s"
  by (simp add: next_pos_def mod_Suc)

lemma mod_inj:
  assumes "(t + k) mod n = (t + m) mod n" "k \<le> m" "m < k + n"
  shows "k = (m :: nat)"
proof -
  have "(t + m) - (t + k) = m - k" using assms(2) by simp
  moreover have "n dvd (t + m) - (t + k)" using assms(1,2) by (metis add_le_cancel_left mod_eq_dvd_iff_nat)
  ultimately have "n dvd m - k" by simp
  then show ?thesis using assms(2,3) by (metis diff_is_0_eq' dvd_imp_le le_antisym less_diff_conv2 linorder_not_le neq0_conv not_less zero_less_diff add.commute)
qed

text \<open>A write at the head behind \<open>n\<close> bytes: the abstraction of every push.\<close>

lemma put_head_ok:
  assumes "length (m_buffer s) = m_size s" "m_tail s < m_size s" "m_head s = (m_tail s + n) mod m_size s" "n < m_size s"
  shows "\<exists>s'. put_head b s = Some s' \<and> length (m_buffer s') = m_size s \<and> m_size s' = m_size s \<and> m_tail s' = m_tail s \<and>
    m_used s' = m_used s \<and> m_head s' = (m_tail s + (n + 1)) mod m_size s \<and>
    map (\<lambda>k. m_buffer s' ! ((m_tail s + k) mod m_size s)) [0..<n + 1] =
      map (\<lambda>k. m_buffer s ! ((m_tail s + k) mod m_size s)) [0..<n] @ [b]"
proof -
  let ?s' = "s\<lparr>m_buffer := (m_buffer s)[m_head s := b], m_head := next_pos s (m_head s)\<rparr>"
  have h: "m_head s < m_size s" using assms by simp
  have "put_head b s = Some ?s'" using h assms(1) by (simp add: put_head_def wr_def)
  moreover have "next_pos s (m_head s) = (m_tail s + (n + 1)) mod m_size s"
    unfolding next_pos_mod [OF h] unfolding assms(3) by (simp add: mod_simps)
  moreover have "m_buffer ?s' ! ((m_tail s + k) mod m_size s) = m_buffer s ! ((m_tail s + k) mod m_size s)" if "k < n" for k
  proof -
    have "(m_tail s + k) mod m_size s \<noteq> m_head s" using mod_inj [of "m_tail s" k "m_size s" n] that assms(3,4) by auto
    then show ?thesis by simp
  qed
  moreover have "m_buffer ?s' ! ((m_tail s + n) mod m_size s) = b" using h assms(1,3) by simp
  ultimately show ?thesis using assms(1) by (intro exI [of _ ?s']) simp
qed

lemma take_tail_ok:
  assumes "wf_buffer s" "contents s = b # bs"
  shows "\<exists>s'. take_tail s = Some (b, s') \<and> wf_buffer s' \<and> contents s' = bs \<and> m_size s' = m_size s"
proof -
  let ?s' = "s\<lparr>m_used := m_used s - 1, m_tail := next_pos s (m_tail s)\<rparr>"
  have u: "m_used s = Suc (length bs)" using assms(2) contents_length [of s] by simp
  then have t: "m_tail s < m_size s" "0 < m_size s" using assms(1) by (auto simp: wf_buffer_def split: if_splits)
  have c: "b # bs = m_buffer s ! m_tail s # map (\<lambda>k. m_buffer s ! ((m_tail s + Suc k) mod m_size s)) [0..<length bs]"
    using assms(2) t(1) unfolding contents_def u
    by (simp add: upt_conv_Cons map_Suc_upt [symmetric] comp_def del: upt_Suc)
  have "take_tail s = Some (b, ?s')" using c t assms(1) by (simp add: take_tail_def rd_def wf_buffer_def)
  moreover have "contents ?s' = bs"
    using c unfolding contents_def by (simp add: u next_pos_mod [OF t(1)] mod_simps)
  moreover have "wf_buffer ?s'"
    using assms(1) t unfolding wf_buffer_def by (simp add: u next_pos_mod [OF t(1)] mod_simps)
  ultimately show ?thesis by (intro exI [of _ ?s']) simp
qed

lemma Push_room:
  assumes "wf_buffer s" "m_used s < m_size s"
  shows "\<exists>s'. Push b s = Some (True, s') \<and> wf_buffer s' \<and> contents s' = contents s @ [b] \<and> m_size s' = m_size s"
proof -
  let ?s = "s\<lparr>m_used := m_used s + 1\<rparr>"
  have "length (m_buffer ?s) = m_size ?s" "m_tail ?s < m_size ?s" "m_head ?s = (m_tail ?s + m_used s) mod m_size ?s" "m_used s < m_size ?s"
    using assms by (auto simp: wf_buffer_def split: if_splits)
  from put_head_ok [OF this, of b] obtain s' where s': "put_head b ?s = Some s'" "length (m_buffer s') = m_size s"
    "m_size s' = m_size s" "m_tail s' = m_tail s" "m_used s' = m_used s + 1" "m_head s' = (m_tail s + (m_used s + 1)) mod m_size s"
    "map (\<lambda>k. m_buffer s' ! ((m_tail s + k) mod m_size s)) [0..<m_used s + 1] =
      map (\<lambda>k. m_buffer s ! ((m_tail s + k) mod m_size s)) [0..<m_used s] @ [b]" by auto
  have "contents s' = contents s @ [b]" unfolding contents_def s'(3,4,5) by (rule s'(7))
  moreover have "wf_buffer s'" using s' assms by (auto simp: wf_buffer_def)
  moreover have "Push b s = Some (True, s')" using s'(1) assms(2) by (simp add: Push_def)
  ultimately show ?thesis using s'(3) by blast
qed

interpretation ob: byte_queue wf_buffer contents m_size Push Pop
proof
  fix s b assume s: "wf_buffer s"
  show "length (contents s) \<le> m_size s" using s by (simp add: wf_buffer_def)
  show "length (contents s) < m_size s \<Longrightarrow> \<exists>q'. Push b s = Some (True, q') \<and> wf_buffer q' \<and> contents q' = contents s @ [b] \<and> m_size q' = m_size s"
    using Push_room [OF s] by simp
  show "length (contents s) = m_size s \<Longrightarrow> Push b s = Some (False, s)" by (simp add: Push_def)
  show "contents s = b # bs \<Longrightarrow> \<exists>q'. Pop s = Some (b, q') \<and> wf_buffer q' \<and> contents q' = bs \<and> m_size q' = m_size s" for bs
    using take_tail_ok [OF s, of b bs] contents_length [of s] by (auto simp: Pop_def)
  show "contents s = [] \<Longrightarrow> Pop s = Some (0, s)" using contents_length [of s] by (simp add: Pop_def)
qed

subsection \<open>Blocks and lines\<close>

lemma put_all_ok:
  assumes "length (m_buffer s) = m_size s" "m_tail s < m_size s" "m_head s = (m_tail s + n) mod m_size s" "n + length bs \<le> m_size s"
  shows "\<exists>s'. put_all bs s = Some s' \<and> length (m_buffer s') = m_size s \<and> m_size s' = m_size s \<and> m_tail s' = m_tail s \<and>
    m_used s' = m_used s \<and> m_head s' = (m_tail s + (n + length bs)) mod m_size s \<and>
    map (\<lambda>k. m_buffer s' ! ((m_tail s + k) mod m_size s)) [0..<n + length bs] =
      map (\<lambda>k. m_buffer s ! ((m_tail s + k) mod m_size s)) [0..<n] @ bs"
  using assms
proof (induction bs arbitrary: s n)
  case (Cons b bs)
  have "n < m_size s" using Cons.prems(4) by simp
  from put_head_ok [OF Cons.prems(1-3) this, of b]
  obtain s1 where s1: "put_head b s = Some s1" "length (m_buffer s1) = m_size s"
    "m_size s1 = m_size s" "m_tail s1 = m_tail s" "m_used s1 = m_used s" "m_head s1 = (m_tail s + (n + 1)) mod m_size s"
    "map (\<lambda>k. m_buffer s1 ! ((m_tail s + k) mod m_size s)) [0..<n + 1] =
      map (\<lambda>k. m_buffer s ! ((m_tail s + k) mod m_size s)) [0..<n] @ [b]" by auto
  have "length (m_buffer s1) = m_size s1" "m_tail s1 < m_size s1" "m_head s1 = (m_tail s1 + (n + 1)) mod m_size s1"
    "n + 1 + length bs \<le> m_size s1"
    using s1(2-6) Cons.prems(2,4) by simp_all
  from Cons.IH [OF this] obtain s2 where "put_all bs s1 = Some s2" "length (m_buffer s2) = m_size s" "m_size s2 = m_size s"
    "m_tail s2 = m_tail s" "m_used s2 = m_used s" "m_head s2 = (m_tail s + (n + 1 + length bs)) mod m_size s"
    "map (\<lambda>k. m_buffer s2 ! ((m_tail s + k) mod m_size s)) [0..<n + 1 + length bs] =
      map (\<lambda>k. m_buffer s1 ! ((m_tail s + k) mod m_size s)) [0..<n + 1] @ bs"
    unfolding s1(3-5) by blast
  moreover have "n + 1 + length bs = n + length (b # bs)" by simp
  ultimately show ?case using s1(1) s1(7) by (intro exI [of _ s2]) (simp del: upt_Suc)
qed simp

lemma Push_block_ok:
  assumes "wf_buffer s"
  shows "\<exists>s'. Push_block bs s = Some (m_used s + length bs \<le> m_size s, s') \<and> wf_buffer s' \<and> m_size s' = m_size s \<and>
    contents s' = (if m_used s + length bs \<le> m_size s then contents s @ bs else contents s)"
proof (cases "m_used s + length bs \<le> m_size s")
  case True
  have u: "m_used s \<le> m_size s" using assms by (simp add: wf_buffer_def)
  show ?thesis
  proof (cases "m_size s = 0")
    case True
    then have "m_used s = 0" "bs = []" using \<open>m_used s + length bs \<le> m_size s\<close> by simp_all
    then show ?thesis using assms by (simp add: Push_block_def wf_buffer_def contents_def)
  next
    case False
    let ?s = "s\<lparr>m_used := m_used s + length bs\<rparr>"
    have "length (m_buffer ?s) = m_size ?s" "m_tail ?s < m_size ?s" "m_head ?s = (m_tail ?s + m_used s) mod m_size ?s"
      "m_used s + length bs \<le> m_size ?s"
      using assms True False by (auto simp: wf_buffer_def)
    from put_all_ok [OF this] obtain s' where s': "put_all bs ?s = Some s'" "length (m_buffer s') = m_size s" "m_size s' = m_size s"
      "m_tail s' = m_tail s" "m_used s' = m_used s + length bs" "m_head s' = (m_tail s + (m_used s + length bs)) mod m_size s"
      "map (\<lambda>k. m_buffer s' ! ((m_tail s + k) mod m_size s)) [0..<m_used s + length bs] =
        map (\<lambda>k. m_buffer s ! ((m_tail s + k) mod m_size s)) [0..<m_used s] @ bs" by auto
    have "contents s' = contents s @ bs" unfolding contents_def s'(3,4,5) by (rule s'(7))
    moreover have "wf_buffer s'" using s' assms True False by (auto simp: wf_buffer_def)
    moreover have "Push_block bs s = Some (True, s')" using s'(1) True u by (simp add: Push_block_def)
    ultimately show ?thesis using s'(3) True by simp
  qed
next
  case False
  then have "m_size s - m_used s < length bs" using assms by (auto simp: wf_buffer_def)
  then show ?thesis using assms False by (simp add: Push_block_def)
qed

lemma Pop_block_ok:
  assumes "wf_buffer s"
  shows "\<exists>s'. Pop_block n s = Some (take n (contents s), s') \<and> wf_buffer s' \<and> contents s' = drop n (contents s) \<and> m_size s' = m_size s"
  using assms
proof (induction n arbitrary: s)
  case (Suc n)
  show ?case
  proof (cases "contents s")
    case Nil
    then have "m_used s = 0" using contents_length [of s] by simp
    then show ?thesis using Suc.prems Nil by simp
  next
    case (Cons b bs)
    then have u: "m_used s > 0" using contents_length [of s] by simp
    obtain s1 where s1: "take_tail s = Some (b, s1)" "wf_buffer s1" "contents s1 = bs" "m_size s1 = m_size s"
      using take_tail_ok [OF Suc.prems Cons] by blast
    show ?thesis using Suc.IH [OF s1(2)] s1 u Cons by auto
  qed
qed simp

lemma Peek_ok: "wf_buffer s \<Longrightarrow> Peek s = Some (if contents s = [] then 0 else hd (contents s))"
  using take_tail_ok [of s "hd (contents s)" "tl (contents s)"] contents_length [of s]
  by (cases "contents s") (auto simp: Peek_def take_tail_def split: Option.bind_splits)

text \<open>Reading positions from the tail on, without removing anything.\<close>

lemma tail_positions:
  assumes "wf_buffer s" "k < m_used s"
  shows "(m_tail s + k) mod m_size s < m_size s" "rd (m_buffer s) ((m_tail s + k) mod m_size s) = Some (contents s ! k)"
    "next_pos s ((m_tail s + k) mod m_size s) = (m_tail s + Suc k) mod m_size s"
proof -
  have "0 < m_size s" "length (m_buffer s) = m_size s" using assms by (auto simp: wf_buffer_def split: if_splits)
  then show l: "(m_tail s + k) mod m_size s < m_size s" by simp
  show "rd (m_buffer s) ((m_tail s + k) mod m_size s) = Some (contents s ! k)"
    using l assms \<open>length (m_buffer s) = m_size s\<close> by (simp add: rd_def contents_def)
  show "next_pos s ((m_tail s + k) mod m_size s) = (m_tail s + Suc k) mod m_size s"
    unfolding next_pos_mod [OF l] by (simp add: mod_simps)
qed

lemma tail_start: "wf_buffer s \<Longrightarrow> m_used s > 0 \<Longrightarrow> m_tail s = (m_tail s + 0) mod m_size s"
  by (auto simp: wf_buffer_def split: if_splits)

lemma peek_loop_ok:
  assumes "wf_buffer s" "k + n \<le> m_used s"
  shows "peek_loop n ((m_tail s + k) mod m_size s) s = Some (take n (drop k (contents s)))"
  using assms
proof (induction n arbitrary: k)
  case (Suc n)
  then have k: "k < m_used s" by simp
  have "drop k (contents s) = contents s ! k # drop (Suc k) (contents s)" using k by (simp add: Cons_nth_drop_Suc)
  then show ?case using Suc.IH [of "Suc k"] Suc.prems tail_positions(2,3) [OF Suc.prems(1) k] by simp
qed simp

lemma Peek_block_ok:
  assumes "wf_buffer s"
  shows "Peek_block n s = Some (take n (contents s))"
proof (cases "m_used s = 0")
  case True
  then show ?thesis by (simp add: Peek_block_def contents_def)
next
  case False
  then have "m_tail s = (m_tail s + 0) mod m_size s" using tail_start [OF assms] by simp
  moreover have "peek_loop (min (m_used s) n) ((m_tail s + 0) mod m_size s) s = Some (take (min (m_used s) n) (drop 0 (contents s)))"
    by (rule peek_loop_ok [OF assms]) simp
  ultimately have "peek_loop (min (m_used s) n) (m_tail s) s = Some (take (min (m_used s) n) (contents s))" by simp
  moreover have "take (min (m_used s) n) (contents s) = take n (contents s)"
    by (metis contents_length take_all_iff min.cobounded1 min_def take_take)
  ultimately show ?thesis by (simp add: Peek_block_def)
qed

definition line_length :: "bytes \<Rightarrow> int" where
  "line_length c = (if \<exists>b \<in> set c. is_eol b then int (length (takeWhile (\<lambda>b. \<not> is_eol b) c)) else - 1)"

lemma line_loop_ok:
  assumes "wf_buffer s" "k + n = m_used s"
  shows "line_loop n d ((m_tail s + k) mod m_size s) s =
    Some (if \<exists>b \<in> set (drop k (contents s)). is_eol b then int (d + length (takeWhile (\<lambda>b. \<not> is_eol b) (drop k (contents s)))) else - 1)"
  using assms
proof (induction n arbitrary: k d)
  case 0
  then show ?case by simp
next
  case (Suc n)
  then have k: "k < m_used s" by simp
  have "drop k (contents s) = contents s ! k # drop (Suc k) (contents s)" using k by (simp add: Cons_nth_drop_Suc)
  then show ?case using Suc.IH [of "Suc k" "Suc d"] Suc.prems tail_positions(2,3) [OF Suc.prems(1) k] by simp
qed

lemma HasLine_ok:
  assumes "wf_buffer s"
  shows "HasLine s = Some (line_length (contents s))"
proof (cases "m_used s = 0")
  case True
  then have "contents s = []" by (simp add: contents_def)
  then show ?thesis using True by (simp add: HasLine_def line_length_def)
next
  case False
  then have "m_tail s = (m_tail s + 0) mod m_size s" using tail_start [OF assms] by simp
  then have "line_loop (m_used s) 0 (m_tail s) s = Some (line_length (contents s))"
    using line_loop_ok [OF assms, of 0 "m_used s" 0] by (simp add: line_length_def)
  then show ?thesis using False by (simp add: HasLine_def)
qed

definition drop_if :: "u8 \<Rightarrow> bytes \<Rightarrow> bytes" where
  "drop_if c bs = (case bs of [] \<Rightarrow> [] | b # r \<Rightarrow> if b = c then r else bs)"

lemma pop_if_ok:
  assumes "wf_buffer s" "c \<noteq> 0"
  shows "\<exists>s'. pop_if c s = Some s' \<and> wf_buffer s' \<and> contents s' = drop_if c (contents s) \<and> m_size s' = m_size s"
proof (cases "contents s")
  case Nil
  then show ?thesis using assms by (simp add: pop_if_def Peek_ok drop_if_def)
next
  case (Cons b bs)
  obtain s1 where "Pop s = Some (b, s1)" "wf_buffer s1" "contents s1 = bs" "m_size s1 = m_size s"
    using ob.pop_first [OF assms(1) Cons] by blast
  then show ?thesis using assms Cons by (simp add: pop_if_def Peek_ok drop_if_def)
qed

text \<open>What \<open>ReadLine\<close> takes off the front: the bytes before the first CR or LF, then one CR, then one LF.\<close>

definition read_line :: "bytes \<Rightarrow> bytes \<times> bytes" where
  "read_line c =
     (if \<exists>b \<in> set c. is_eol b
      then (takeWhile (\<lambda>b. \<not> is_eol b) c, drop_if 10 (drop_if 13 (dropWhile (\<lambda>b. \<not> is_eol b) c)))
      else ([], c))"

lemma ReadLine_ok:
  assumes "wf_buffer s"
  shows "\<exists>s'. ReadLine s = Some (fst (read_line (contents s)), s') \<and> wf_buffer s' \<and> contents s' = snd (read_line (contents s)) \<and>
    m_size s' = m_size s"
proof (cases "\<exists>b \<in> set (contents s). is_eol b")
  case False
  then show ?thesis using assms by (simp add: ReadLine_def HasLine_ok line_length_def read_line_def)
next
  case True
  let ?P = "\<lambda>b. \<not> is_eol b"
  let ?n = "length (takeWhile ?P (contents s))"
  obtain s1 where s1: "Pop_block ?n s = Some (take ?n (contents s), s1)" "wf_buffer s1" "contents s1 = drop ?n (contents s)" "m_size s1 = m_size s"
    using Pop_block_ok [OF assms] by blast
  obtain s2 where s2: "pop_if 13 s1 = Some s2" "wf_buffer s2" "contents s2 = drop_if 13 (contents s1)" "m_size s2 = m_size s1"
    using pop_if_ok [OF s1(2), of 13] by auto
  obtain s3 where s3: "pop_if 10 s2 = Some s3" "wf_buffer s3" "contents s3 = drop_if 10 (contents s2)" "m_size s3 = m_size s2"
    using pop_if_ok [OF s2(2), of 10] by auto
  have "take ?n (contents s) = takeWhile ?P (contents s)" "drop ?n (contents s) = dropWhile ?P (contents s)"
    by (metis takeWhile_eq_take) (metis dropWhile_eq_drop)
  then show ?thesis
    using True s1 s2 s3 by (simp add: ReadLine_def HasLine_ok [OF assms] line_length_def read_line_def)
qed

subsection \<open>The properties\<close>

text \<open>A queue of at most \<open>n\<close> bytes as a list, and sequences of calls on it and on the ring buffer.\<close>

datatype call = CPush u8 | CPushBlock bytes | CPop | CPopBlock nat | CPeek | CPeekBlock nat | CHasLine | CReadLine | CReadAll |
  CEmptyAll | CFreeSpace | CUsedSpace

datatype answer = ABool bool | AByte u8 | ABytes bytes | AInt int | ASize nat | AUnit

fun ideal_call :: "nat \<Rightarrow> call \<Rightarrow> bytes \<Rightarrow> answer \<times> bytes" where
  "ideal_call n (CPush b) c = (if length c < n then (ABool True, c @ [b]) else (ABool False, c))"
| "ideal_call n (CPushBlock bs) c = (if length c + length bs \<le> n then (ABool True, c @ bs) else (ABool False, c))"
| "ideal_call n CPop c = (case c of [] \<Rightarrow> (AByte 0, []) | b # r \<Rightarrow> (AByte b, r))"
| "ideal_call n (CPopBlock k) c = (ABytes (take k c), drop k c)"
| "ideal_call n CPeek c = (AByte (case c of [] \<Rightarrow> 0 | b # r \<Rightarrow> b), c)"
| "ideal_call n (CPeekBlock k) c = (ABytes (take k c), c)"
| "ideal_call n CHasLine c = (AInt (line_length c), c)"
| "ideal_call n CReadLine c = (ABytes (fst (read_line c)), snd (read_line c))"
| "ideal_call n CReadAll c = (ABytes c, [])"
| "ideal_call n CEmptyAll c = (AUnit, [])"
| "ideal_call n CFreeSpace c = (ASize (n - length c), c)"
| "ideal_call n CUsedSpace c = (ASize (length c), c)"

fun buffer_call :: "call \<Rightarrow> ovms_buffer \<Rightarrow> (answer \<times> ovms_buffer) option" where
  "buffer_call (CPush b) s = map_option (apfst ABool) (Push b s)"
| "buffer_call (CPushBlock bs) s = map_option (apfst ABool) (Push_block bs s)"
| "buffer_call CPop s = map_option (apfst AByte) (Pop s)"
| "buffer_call (CPopBlock k) s = map_option (apfst ABytes) (Pop_block k s)"
| "buffer_call CPeek s = map_option (\<lambda>b. (AByte b, s)) (Peek s)"
| "buffer_call (CPeekBlock k) s = map_option (\<lambda>bs. (ABytes bs, s)) (Peek_block k s)"
| "buffer_call CHasLine s = map_option (\<lambda>i. (AInt i, s)) (HasLine s)"
| "buffer_call CReadLine s = map_option (apfst ABytes) (ReadLine s)"
| "buffer_call CReadAll s = map_option (apfst ABytes) (ReadAll s)"
| "buffer_call CEmptyAll s = Some (AUnit, EmptyAll s)"
| "buffer_call CFreeSpace s = Some (ASize (FreeSpace s), s)"
| "buffer_call CUsedSpace s = Some (ASize (UsedSpace s), s)"

fun ideal_calls :: "nat \<Rightarrow> call list \<Rightarrow> bytes \<Rightarrow> answer list \<times> bytes" where
  "ideal_calls n [] c = ([], c)"
| "ideal_calls n (x # xs) c = (let (a, c1) = ideal_call n x c; (as, c2) = ideal_calls n xs c1 in (a # as, c2))"

fun buffer_calls :: "call list \<Rightarrow> ovms_buffer \<Rightarrow> (answer list \<times> ovms_buffer) option" where
  "buffer_calls [] s = Some ([], s)"
| "buffer_calls (x # xs) s = do { (a, s1) \<leftarrow> buffer_call x s; (as, s2) \<leftarrow> buffer_calls xs s1; Some (a # as, s2) }"

lemma buffer_call_ok:
  assumes "wf_buffer s"
  shows "\<exists>s'. buffer_call x s = Some (fst (ideal_call (m_size s) x (contents s)), s') \<and> wf_buffer s' \<and>
    contents s' = snd (ideal_call (m_size s) x (contents s)) \<and> m_size s' = m_size s"
proof (cases x)
  case (CPush b)
  then show ?thesis using ob.push_room [OF assms, of b] ob.push_full [OF assms, of b] ob.bound [OF assms] assms
    by (cases "m_used s < m_size s") auto
next
  case (CPushBlock bs)
  then show ?thesis using Push_block_ok [OF assms, of bs] assms by auto
next
  case CPop
  then show ?thesis using ob.pop_first [OF assms] ob.pop_empty [OF assms] assms by (cases "contents s") auto
next
  case (CPopBlock k)
  then show ?thesis using Pop_block_ok [OF assms, of k] by auto
next
  case CReadLine
  then show ?thesis using ReadLine_ok [OF assms] by auto
next
  case CReadAll
  then show ?thesis using Pop_block_ok [OF assms, of "m_used s"] by (auto simp: ReadAll_def)
qed (use assms in \<open>auto simp: Peek_ok Peek_block_ok HasLine_ok EmptyAll_ok FreeSpace_def UsedSpace_def empty_size hd_def split: list.split\<close>)

lemma buffer_calls_ok:
  "wf_buffer s \<Longrightarrow> \<exists>s'. buffer_calls xs s = Some (fst (ideal_calls (m_size s) xs (contents s)), s') \<and> wf_buffer s' \<and>
    contents s' = snd (ideal_calls (m_size s) xs (contents s))"
proof (induction xs arbitrary: s)
  case (Cons x xs)
  obtain s1 where s1: "buffer_call x s = Some (fst (ideal_call (m_size s) x (contents s)), s1)" "wf_buffer s1"
    "contents s1 = snd (ideal_call (m_size s) x (contents s))" "m_size s1 = m_size s"
    using buffer_call_ok [OF Cons.prems] by blast
  then show ?case using Cons.IH [OF s1(2)] by (auto simp: split_beta Let_def)
qed simp

lemma new_buffer_calls:
  "\<exists>s. buffer_calls xs (OvmsBuffer mem) = Some (fst (ideal_calls (length mem) xs []), s) \<and>
     wf_buffer s \<and> contents s = snd (ideal_calls (length mem) xs [])"
  using buffer_calls_ok [OF wf_new(1), of xs mem] unfolding wf_new(2) by (simp add: OvmsBuffer_def)

text \<open>C19. The ring buffer is a bounded first-in first-out queue: whatever the calls on a new buffer, and
  whatever the memory it was given contains, every access stays inside the memory and every answer is that of
  a list of at most its size, from whose front bytes and lines are taken.\<close>

theorem ring_buffer_refines:
  "\<exists>s. buffer_calls xs (OvmsBuffer mem) = Some (fst (ideal_calls (length mem) xs []), s) \<and>
     wf_buffer s \<and> contents s = snd (ideal_calls (length mem) xs [])"
  by (rule new_buffer_calls)

text \<open>Lines with their ends: CR and LF, or LF alone.\<close>

definition lines_text :: "(bytes \<times> bool) list \<Rightarrow> bytes" where
  "lines_text ls = concat (map (\<lambda>(l, crlf). l @ (if crlf then [13, 10] else [10])) ls)"

lemma read_line_front:
  assumes "\<forall>b \<in> set l. \<not> is_eol b"
  shows "read_line (l @ (if crlf then [13, 10] else [10]) @ r) = (l, r)"
  using assms by (simp add: read_line_def is_eol_def drop_if_def takeWhile_tail dropWhile_append)

lemma ideal_lines:
  assumes "\<forall>(l, crlf) \<in> set ls. \<forall>b \<in> set l. \<not> is_eol b"
  shows "ideal_calls n (replicate (length ls) CReadLine) (lines_text ls) = (map (ABytes \<circ> fst) ls, [])"
  using assms
proof (induction ls)
  case (Cons x ls)
  obtain l crlf where x: "x = (l, crlf)" by (cases x)
  have "read_line (lines_text (x # ls)) = (l, lines_text ls)"
    using read_line_front [of l crlf "lines_text ls"] Cons.prems by (simp add: x lines_text_def)
  then show ?case using Cons by (simp add: x)
qed (simp add: lines_text_def)

text \<open>Lines come out as they went in: text made of lines without CR and LF, each ended by CR LF or by LF, that
  fits into a new buffer is read back line by line by \<open>ReadLine\<close>, and the buffer is empty
  afterwards.\<close>

theorem lines_round_trip:
  assumes "\<forall>(l, crlf) \<in> set ls. \<forall>b \<in> set l. \<not> is_eol b" "length (lines_text ls) \<le> length mem"
  shows "\<exists>s. buffer_calls (CPushBlock (lines_text ls) # replicate (length ls) CReadLine) (OvmsBuffer mem) =
    Some (ABool True # map (ABytes \<circ> fst) ls, s) \<and> contents s = []"
proof -
  let ?xs = "CPushBlock (lines_text ls) # replicate (length ls) CReadLine"
  have "ideal_calls (length mem) ?xs [] = (ABool True # map (ABytes \<circ> fst) ls, [])"
    using assms(2) by (simp add: ideal_lines [OF assms(1)])
  with new_buffer_calls [of ?xs mem] show ?thesis by auto
qed

theorem lines_round_trip_witness:
  "\<exists>s. buffer_calls [CPushBlock [65, 84, 13, 10, 79, 75, 10], CReadLine, CReadLine] (OvmsBuffer [0, 0, 0, 0, 0, 0, 0]) =
    Some ([ABool True, ABytes [65, 84], ABytes [79, 75]], s) \<and> contents s = []"
  using lines_round_trip [of "[([65, 84], True), ([79, 75], False)]" "[0, 0, 0, 0, 0, 0, 0]"]
  by (simp add: lines_text_def is_eol_def)

text \<open>When CR and LF arrive in different blocks, reading in between makes the LF an empty line of its
  own.\<close>

lemma split_line_end:
  assumes "\<forall>b \<in> set l. \<not> is_eol b" "length l < length mem"
  shows "\<exists>s. buffer_calls [CPushBlock (l @ [13]), CReadLine, CPushBlock [10], CHasLine, CReadLine] (OvmsBuffer mem) =
    Some ([ABool True, ABytes l, ABool True, AInt 0, ABytes []], s)"
proof -
  have "read_line (l @ [13]) = (l, [])"
    using assms(1) by (simp add: read_line_def is_eol_def drop_if_def takeWhile_tail dropWhile_append)
  then show ?thesis
    using new_buffer_calls [of "[CPushBlock (l @ [13]), CReadLine, CPushBlock [10], CHasLine, CReadLine]" mem] assms(2)
    by (auto simp: line_length_def is_eol_def read_line_def)
qed

end
