(* ===== verification/GsmMux.thy ===== *)
theory GsmMux
  imports OvmsBuffer
begin

unbundle bit_operations_syntax

section \<open>The GSM 07.10 multiplexer of the modem\<close>

text \<open>
  \<open>GsmMux\<close> and \<open>GsmMuxChannel\<close> (\<open>components/ovms_cellular/src/gsmmux.cpp\<close>): the frames of the basic
  option of GSM 07.10, the receiver, the opening of the channels and the transmitter.  The records have
  the fields of the classes; the number of a channel is its position in \<open>channels\<close>.  \<open>sent\<close> collects
  the arguments of \<open>modem::tx\<close>, \<open>incoming\<close> the calls of \<open>modem::IncomingMuxData\<close> with the bytes the
  channel holds at that moment.

  \<open>h\<close> stands for the modem: what it leaves in the buffer of a channel.  \<open>now\<close> is \<open>monotonictime\<close>.
  \<open>None\<close> is an access outside a buffer or outside the vector of channels, or a loop that does not end.
\<close>

abbreviation (input) GSM_CR :: nat where "GSM_CR \<equiv> 2"
abbreviation (input) GSM_EA :: u8 where "GSM_EA \<equiv> 1"
abbreviation (input) GSM_PF :: u8 where "GSM_PF \<equiv> 0x10"
abbreviation (input) GSM_SABM :: u8 where "GSM_SABM \<equiv> 0x2F"
abbreviation (input) GSM_UA :: u8 where "GSM_UA \<equiv> 0x63"
abbreviation (input) GSM_UIH :: u8 where "GSM_UIH \<equiv> 0xEF"
abbreviation (input) GSM0_SOF :: u8 where "GSM0_SOF \<equiv> 0xF9"
abbreviation (input) FCS_INIT :: u8 where "FCS_INIT \<equiv> 0xFF"

subsection \<open>The frame check sequence\<close>

definition gsm_fcs8 :: bytes where
  "gsm_fcs8 =
  [0x00, 0x91, 0xE3, 0x72, 0x07, 0x96, 0xE4, 0x75,
   0x0E, 0x9F, 0xED, 0x7C, 0x09, 0x98, 0xEA, 0x7B,
   0x1C, 0x8D, 0xFF, 0x6E, 0x1B, 0x8A, 0xF8, 0x69,
   0x12, 0x83, 0xF1, 0x60, 0x15, 0x84, 0xF6, 0x67,
   0x38, 0xA9, 0xDB, 0x4A, 0x3F, 0xAE, 0xDC, 0x4D,
   0x36, 0xA7, 0xD5, 0x44, 0x31, 0xA0, 0xD2, 0x43,
   0x24, 0xB5, 0xC7, 0x56, 0x23, 0xB2, 0xC0, 0x51,
   0x2A, 0xBB, 0xC9, 0x58, 0x2D, 0xBC, 0xCE, 0x5F,
   0x70, 0xE1, 0x93, 0x02, 0x77, 0xE6, 0x94, 0x05,
   0x7E, 0xEF, 0x9D, 0x0C, 0x79, 0xE8, 0x9A, 0x0B,
   0x6C, 0xFD, 0x8F, 0x1E, 0x6B, 0xFA, 0x88, 0x19,
   0x62, 0xF3, 0x81, 0x10, 0x65, 0xF4, 0x86, 0x17,
   0x48, 0xD9, 0xAB, 0x3A, 0x4F, 0xDE, 0xAC, 0x3D,
   0x46, 0xD7, 0xA5, 0x34, 0x41, 0xD0, 0xA2, 0x33,
   0x54, 0xC5, 0xB7, 0x26, 0x53, 0xC2, 0xB0, 0x21,
   0x5A, 0xCB, 0xB9, 0x28, 0x5D, 0xCC, 0xBE, 0x2F,
   0xE0, 0x71, 0x03, 0x92, 0xE7, 0x76, 0x04, 0x95,
   0xEE, 0x7F, 0x0D, 0x9C, 0xE9, 0x78, 0x0A, 0x9B,
   0xFC, 0x6D, 0x1F, 0x8E, 0xFB, 0x6A, 0x18, 0x89,
   0xF2, 0x63, 0x11, 0x80, 0xF5, 0x64, 0x16, 0x87,
   0xD8, 0x49, 0x3B, 0xAA, 0xDF, 0x4E, 0x3C, 0xAD,
   0xD6, 0x47, 0x35, 0xA4, 0xD1, 0x40, 0x32, 0xA3,
   0xC4, 0x55, 0x27, 0xB6, 0xC3, 0x52, 0x20, 0xB1,
   0xCA, 0x5B, 0x29, 0xB8, 0xCD, 0x5C, 0x2E, 0xBF,
   0x90, 0x01, 0x73, 0xE2, 0x97, 0x06, 0x74, 0xE5,
   0x9E, 0x0F, 0x7D, 0xEC, 0x99, 0x08, 0x7A, 0xEB,
   0x8C, 0x1D, 0x6F, 0xFE, 0x8B, 0x1A, 0x68, 0xF9,
   0x82, 0x13, 0x61, 0xF0, 0x85, 0x14, 0x66, 0xF7,
   0xA8, 0x39, 0x4B, 0xDA, 0xAF, 0x3E, 0x4C, 0xDD,
   0xA6, 0x37, 0x45, 0xD4, 0xA1, 0x30, 0x42, 0xD3,
   0xB4, 0x25, 0x57, 0xC6, 0xB3, 0x22, 0x50, 0xC1,
   0xBA, 0x2B, 0x59, 0xC8, 0xBD, 0x2C, 0x5E, 0xCF]"

definition gsm_fcs_add :: "u8 \<Rightarrow> u8 \<Rightarrow> u8" where
  "gsm_fcs_add fcs c = gsm_fcs8 ! unat (fcs XOR c)"

definition gsm_fcs_add_block :: "u8 \<Rightarrow> bytes \<Rightarrow> u8" where
  "gsm_fcs_add_block fcs bs = fold (\<lambda>c fcs. gsm_fcs_add fcs c) bs fcs"

subsection \<open>State\<close>

datatype chan_state = ChanClosed | ChanOpening | ChanOpen | ChanClosing

record gsm_channel =
  c_state :: chan_state
  c_buffer :: ovms_buffer

datatype mux_state = DlciClosed | DlciOpening | DlciOpen | DlciClosing

record gsm_mux =
  x_state :: mux_state
  channelcount :: nat
  openchannels :: nat
  framingerrors :: u32
  lastgoodrxframe :: u32
  rxframecount :: u32
  txframecount :: u32
  m_frame :: bytes
  framesize :: nat
  framepos :: nat
  frameipos :: nat
  framelen :: nat
  framemorelen :: bool
  channels :: "gsm_channel list"
  sent :: "bytes list"
  incoming :: "(nat \<times> bytes) list"

definition GsmMux :: "nat \<Rightarrow> bytes \<Rightarrow> gsm_mux" where
  "GsmMux n mem = \<lparr>x_state = DlciClosed, channelcount = n, openchannels = 0, framingerrors = 0, lastgoodrxframe = 0,
     rxframecount = 0, txframecount = 0, m_frame = mem, framesize = length mem, framepos = 0, frameipos = 0, framelen = 0,
     framemorelen = False, channels = [], sent = [], incoming = []\<rparr>"

definition new_channel :: "bytes \<Rightarrow> gsm_channel" where
  "new_channel mem = \<lparr>c_state = ChanClosed, c_buffer = OvmsBuffer mem\<rparr>"

definition IsChannelOpen :: "nat \<Rightarrow> gsm_mux \<Rightarrow> bool option" where
  "IsChannelOpen k m = map_option (\<lambda>c. c_state c = ChanOpen) (rd (channels m) k)"

definition IsMuxUp :: "gsm_mux \<Rightarrow> bool" where
  "IsMuxUp m \<longleftrightarrow> openchannels m = channelcount m"

definition GoodFrameAge :: "u32 \<Rightarrow> gsm_mux \<Rightarrow> u32" where
  "GoodFrameAge now m =
     (if openchannels m \<noteq> channelcount m then 0
      else if lastgoodrxframe m > 0 then now - lastgoodrxframe m else 0)"

subsection \<open>Transmitting\<close>

definition txfcs :: "bytes \<Rightarrow> nat \<Rightarrow> gsm_mux \<Rightarrow> gsm_mux option" where
  "txfcs data ipos m = do {
     hd \<leftarrow> rdn data 1 (ipos - 1);
     data1 \<leftarrow> wr data (length data - 2) (0xFF - gsm_fcs_add_block FCS_INIT hd);
     Some (m\<lparr>sent := sent m @ [data1], txframecount := txframecount m + 1\<rparr>) }"

definition set_chan_state :: "nat \<Rightarrow> chan_state \<Rightarrow> gsm_mux \<Rightarrow> gsm_mux option" where
  "set_chan_state k st m = do {
     c \<leftarrow> rd (channels m) k;
     Some (m\<lparr>channels := (channels m)[k := c\<lparr>c_state := st\<rparr>]\<rparr>) }"

definition StartChannel :: "nat \<Rightarrow> gsm_mux \<Rightarrow> gsm_mux option" where
  "StartChannel k m = do {
     let cn = of_nat (push_bit 2 k + 1 + GSM_CR);
     m1 \<leftarrow> txfcs [GSM0_SOF, cn, GSM_SABM + GSM_PF, GSM_EA + 0, 0, GSM0_SOF] 4 m;
     set_chan_state k ChanOpening m1 }"

text \<open>The memory of the buffers comes as a list: one of the control channel, one for each other.\<close>

definition Startup :: "bytes \<Rightarrow> (nat \<Rightarrow> bytes) \<Rightarrow> gsm_mux \<Rightarrow> gsm_mux option" where
  "Startup mem0 mem m = do {
     let m1 = m\<lparr>framingerrors := 0, lastgoodrxframe := 0, rxframecount := 0, txframecount := 0,
                channels := channels m @ new_channel mem0 # map (\<lambda>k. new_channel (mem k)) [1..<channelcount m + 1]\<rparr>;
     m2 \<leftarrow> StartChannel 0 m1;
     Some (m2\<lparr>x_state := DlciOpening\<rparr>) }"

definition Shutdown :: "gsm_mux \<Rightarrow> gsm_mux" where
  "Shutdown m = m\<lparr>channels := [], x_state := DlciClosed, framepos := 0, frameipos := 0, framelen := 0, framemorelen := False,
     openchannels := 0, framingerrors := 0, lastgoodrxframe := 0, rxframecount := 0, txframecount := 0\<rparr>"

definition tx_frame :: "nat \<Rightarrow> bytes \<Rightarrow> bytes \<times> nat" where
  "tx_frame k data =
     (let cn = of_nat (push_bit 2 k + 1); n = length data;
          lens = (if n < 128 then [of_nat (push_bit 1 n + 1)] else [of_nat (push_bit 1 (n mod 128)), of_nat (n div 128)])
      in ([GSM0_SOF, cn, GSM_UIH + GSM_PF] @ lens @ data @ [0, GSM0_SOF], 3 + length lens))"

definition tx :: "nat \<Rightarrow> bytes \<Rightarrow> gsm_mux \<Rightarrow> gsm_mux option" where
  "tx k data m = (let (buf, ipos) = tx_frame k data in txfcs buf ipos m)"

subsection \<open>Receiving\<close>

text \<open>A frame without its start byte, checksum and stop byte, for one channel.\<close>

definition chan_data :: "(nat \<Rightarrow> ovms_buffer \<Rightarrow> ovms_buffer) \<Rightarrow> nat \<Rightarrow> bytes \<Rightarrow> nat \<Rightarrow> gsm_mux \<Rightarrow> gsm_mux option" where
  "chan_data h k frame iframepos m = do {
     ctrl \<leftarrow> rd frame 1;
     if ctrl = GSM_UIH + GSM_PF \<or> ctrl = GSM_UIH
     then do {
       c \<leftarrow> rd (channels m) k;
       b \<leftarrow> push_each Push (drop iframepos frame) (c_buffer c);
       Some (m\<lparr>incoming := incoming m @ [(k, contents b)], channels := (channels m)[k := c\<lparr>c_buffer := h k b\<rparr>]\<rparr>) }
     else Some m }"

definition chan_opened :: "nat \<Rightarrow> gsm_mux \<Rightarrow> gsm_mux option" where
  "chan_opened k m = do {
     m1 \<leftarrow> set_chan_state k ChanOpen m;
     let m2 = (if k \<noteq> 0 then m1\<lparr>openchannels := openchannels m1 + 1\<rparr> else m1\<lparr>x_state := DlciOpen\<rparr>);
     if k < channelcount m2 then StartChannel (k + 1) m2 else Some m2 }"

definition chan_ProcessFrame :: "(nat \<Rightarrow> ovms_buffer \<Rightarrow> ovms_buffer) \<Rightarrow> nat \<Rightarrow> bytes \<Rightarrow> nat \<Rightarrow> gsm_mux \<Rightarrow> gsm_mux option" where
  "chan_ProcessFrame h k frame iframepos m = do {
     c \<leftarrow> rd (channels m) k;
     case c_state c of
       ChanClosed \<Rightarrow> Some m
     | ChanOpening \<Rightarrow> do {
         ctrl \<leftarrow> rd frame 1;
         m1 \<leftarrow> (if ctrl = GSM_UA + GSM_PF then chan_opened k m else Some m);
         chan_data h k frame iframepos m1 }
     | ChanOpen \<Rightarrow> chan_data h k frame iframepos m
     | ChanClosing \<Rightarrow> Some m }"

definition frame_reset :: "gsm_mux \<Rightarrow> gsm_mux" where
  "frame_reset m = m\<lparr>framepos := 0, framelen := 0, framemorelen := False\<rparr>"

definition mux_ProcessFrame :: "(nat \<Rightarrow> ovms_buffer \<Rightarrow> ovms_buffer) \<Rightarrow> u32 \<Rightarrow> gsm_mux \<Rightarrow> gsm_mux option" where
  "mux_ProcessFrame h now m = do {
     adr \<leftarrow> rd (m_frame m) 1;
     hd \<leftarrow> rdn (m_frame m) 1 (frameipos m - 1);
     chk \<leftarrow> rd (m_frame m) (framelen m - 2);
     if 0xFF - gsm_fcs_add_block FCS_INIT hd \<noteq> chk
     then Some (frame_reset (m\<lparr>frameipos := 0, framingerrors := framingerrors m + 1\<rparr>))
     else do {
       let k = unat (drop_bit 2 adr);
       c \<leftarrow> rd (channels m) k;
       frame \<leftarrow> rdn (m_frame m) 1 (framelen m - 3);
       m1 \<leftarrow> chan_ProcessFrame h k frame (frameipos m - 1) (m\<lparr>lastgoodrxframe := now, rxframecount := rxframecount m + 1\<rparr>);
       Some (frame_reset (m1\<lparr>frameipos := 0\<rparr>)) } }"

definition overflow :: "gsm_mux \<Rightarrow> gsm_mux" where
  "overflow m = frame_reset (m\<lparr>framingerrors := framingerrors m + 1\<rparr>)"

definition length_field :: "u8 \<Rightarrow> gsm_mux \<Rightarrow> gsm_mux" where
  "length_field b m =
     (let m1 = (if framepos m = 4
                then let more = (b AND GSM_EA = 0); n = unat (drop_bit 1 b) in
                  if more then m\<lparr>framemorelen := more, framelen := n + (framepos m + 3), frameipos := framepos m + 1\<rparr>
                  else m\<lparr>framemorelen := more, framelen := n + (framepos m + 2), frameipos := framepos m\<rparr>
                else m)
      in if framepos m1 = 5 \<and> framemorelen m1
         then m1\<lparr>framelen := framelen m1 + push_bit 7 (unat b), framemorelen := False\<rparr> else m1)"

definition mux_byte :: "(nat \<Rightarrow> ovms_buffer \<Rightarrow> ovms_buffer) \<Rightarrow> u32 \<Rightarrow> u8 \<Rightarrow> gsm_mux \<Rightarrow> gsm_mux option" where
  "mux_byte h now b m =
     (if framepos m = 0 \<and> b \<noteq> GSM0_SOF then Some m
      else if framepos m = 1 \<and> b = GSM0_SOF then Some m
      else do {
        mem \<leftarrow> wr (m_frame m) (framepos m) b;
        let m1 = length_field b (m\<lparr>m_frame := mem, framepos := framepos m + 1\<rparr>);
        if framepos m1 = framelen m1
        then if b = GSM0_SOF then mux_ProcessFrame h now m1
             else Some (frame_reset (m1\<lparr>framingerrors := framingerrors m1 + 1\<rparr>))
        else Some m1 })"

partial_function (option) Process ::
  "(nat \<Rightarrow> ovms_buffer \<Rightarrow> ovms_buffer) \<Rightarrow> u32 \<Rightarrow> ovms_buffer \<Rightarrow> gsm_mux \<Rightarrow> (ovms_buffer \<times> gsm_mux) option" where
  "Process h now buf m =
     (if UsedSpace buf > 0
      then if framepos m = framesize m then Process h now buf (overflow m)
           else Option.bind (Pop buf) (\<lambda>p. Option.bind (mux_byte h now (fst p) m) (\<lambda>m1. Process h now (snd p) m1))
      else Some (buf, m))"

end
