(* ===== verification/GsmMuxFrames.thy ===== *)
theory GsmMuxFrames
  imports GsmMux
begin

section \<open>The multiplexer: frames\<close>

text \<open>
  The checksum table is a CRC, the receiver takes frames apart the way the transmitter puts them
  together, and no sequence of bytes makes it leave its buffer.
\<close>

unbundle bit_operations_syntax

subsection \<open>The checksum table\<close>

text \<open>The table against the definition: division by the reversed polynomial, bit by bit.\<close>

definition crc_shift :: "u8 \<Rightarrow> u8" where
  "crc_shift c = (if c AND 1 = 1 then drop_bit 1 c XOR 0xE0 else drop_bit 1 c)"

definition crc_byte :: "u8 \<Rightarrow> u8" where
  "crc_byte c = crc_shift (crc_shift (crc_shift (crc_shift (crc_shift (crc_shift (crc_shift (crc_shift c)))))))"

lemma fcs_table: "map crc_byte
    [0, 1, 2, 3, 4, 5, 6, 7, 8, 9, 10, 11, 12, 13, 14, 15, 16, 17, 18, 19, 20, 21, 22, 23, 24, 25, 26, 27, 28, 29, 30, 31,
     32, 33, 34, 35, 36, 37, 38, 39, 40, 41, 42, 43, 44, 45, 46, 47, 48, 49, 50, 51, 52, 53, 54, 55, 56, 57, 58, 59, 60, 61, 62, 63,
     64, 65, 66, 67, 68, 69, 70, 71, 72, 73, 74, 75, 76, 77, 78, 79, 80, 81, 82, 83, 84, 85, 86, 87, 88, 89, 90, 91, 92, 93, 94, 95,
     96, 97, 98, 99, 100, 101, 102, 103, 104, 105, 106, 107, 108, 109, 110, 111, 112, 113, 114, 115, 116, 117, 118, 119, 120, 121, 122, 123, 124, 125, 126, 127,
     128, 129, 130, 131, 132, 133, 134, 135, 136, 137, 138, 139, 140, 141, 142, 143, 144, 145, 146, 147, 148, 149, 150, 151, 152, 153, 154, 155, 156, 157, 158, 159,
     160, 161, 162, 163, 164, 165, 166, 167, 168, 169, 170, 171, 172, 173, 174, 175, 176, 177, 178, 179, 180, 181, 182, 183, 184, 185, 186, 187, 188, 189, 190, 191,
     192, 193, 194, 195, 196, 197, 198, 199, 200, 201, 202, 203, 204, 205, 206, 207, 208, 209, 210, 211, 212, 213, 214, 215, 216, 217, 218, 219, 220, 221, 222, 223,
     224, 225, 226, 227, 228, 229, 230, 231, 232, 233, 234, 235, 236, 237, 238, 239, 240, 241, 242, 243, 244, 245, 246, 247, 248, 249, 250, 251, 252, 253, 254, 255] = gsm_fcs8"
  by (simp add: crc_byte_def crc_shift_def gsm_fcs8_def)

lemma bytes_upt: "map of_nat [0..<256] =
    ([0, 1, 2, 3, 4, 5, 6, 7, 8, 9, 10, 11, 12, 13, 14, 15, 16, 17, 18, 19, 20, 21, 22, 23, 24, 25, 26, 27, 28, 29, 30, 31,
     32, 33, 34, 35, 36, 37, 38, 39, 40, 41, 42, 43, 44, 45, 46, 47, 48, 49, 50, 51, 52, 53, 54, 55, 56, 57, 58, 59, 60, 61, 62, 63,
     64, 65, 66, 67, 68, 69, 70, 71, 72, 73, 74, 75, 76, 77, 78, 79, 80, 81, 82, 83, 84, 85, 86, 87, 88, 89, 90, 91, 92, 93, 94, 95,
     96, 97, 98, 99, 100, 101, 102, 103, 104, 105, 106, 107, 108, 109, 110, 111, 112, 113, 114, 115, 116, 117, 118, 119, 120, 121, 122, 123, 124, 125, 126, 127,
     128, 129, 130, 131, 132, 133, 134, 135, 136, 137, 138, 139, 140, 141, 142, 143, 144, 145, 146, 147, 148, 149, 150, 151, 152, 153, 154, 155, 156, 157, 158, 159,
     160, 161, 162, 163, 164, 165, 166, 167, 168, 169, 170, 171, 172, 173, 174, 175, 176, 177, 178, 179, 180, 181, 182, 183, 184, 185, 186, 187, 188, 189, 190, 191,
     192, 193, 194, 195, 196, 197, 198, 199, 200, 201, 202, 203, 204, 205, 206, 207, 208, 209, 210, 211, 212, 213, 214, 215, 216, 217, 218, 219, 220, 221, 222, 223,
     224, 225, 226, 227, 228, 229, 230, 231, 232, 233, 234, 235, 236, 237, 238, 239, 240, 241, 242, 243, 244, 245, 246, 247, 248, 249, 250, 251, 252, 253, 254, 255] :: bytes)"
  by (simp add: upt_conv_Cons)

lemma gsm_fcs8_nth: "gsm_fcs8 ! unat c = crc_byte c"
proof -
  have "gsm_fcs8 = map crc_byte (map of_nat [0..<256])" unfolding bytes_upt fcs_table ..
  then have "gsm_fcs8 ! unat c = map crc_byte (map of_nat [0..<256]) ! unat c" by simp
  also have "\<dots> = crc_byte (of_nat (unat c))" using unat_u8_less [of c] by (simp add: nth_map del: map_map)
  finally show ?thesis by simp
qed

lemma crc_shift_bit:
  assumes "n < 8"
  shows "bit (crc_shift c) n \<longleftrightarrow> bit c (Suc n) \<noteq> (bit c 0 \<and> bit (0xE0 :: u8) n)"
proof -
  have "c AND 1 = 1 \<longleftrightarrow> bit c 0" by (simp add: and_one_eq odd_iff_mod_2_eq_one bit_0)
  then show ?thesis using assms by (simp add: crc_shift_def bit_simps)
qed

lemma crc_shift_inj:
  assumes "crc_shift x = crc_shift y"
  shows "x = y"
proof (rule bit_word_eqI)
  have b: "bit x (Suc n) \<noteq> (bit x 0 \<and> bit (0xE0 :: u8) n) \<longleftrightarrow> bit y (Suc n) \<noteq> (bit y 0 \<and> bit (0xE0 :: u8) n)" if "n < 8" for n
    using crc_shift_bit [OF that, of x] crc_shift_bit [OF that, of y] unfolding assms by simp
  have z: "bit x 0 \<longleftrightarrow> bit y 0"
    using b [of 7] bit_imp_le_length [of x 8] bit_imp_le_length [of y 8] by (auto simp: numeral_eq_Suc)
  fix n assume "n < LENGTH(8)"
  then show "bit x n \<longleftrightarrow> bit y n" using b [of "n - 1"] z by (cases n) (auto simp: word_size)
qed

lemma crc_byte_inj: "crc_byte c = crc_byte d \<longleftrightarrow> c = d"
  by (auto simp: crc_byte_def dest!: crc_shift_inj)

lemma gsm_fcs_add_crc: "gsm_fcs_add fcs c = crc_byte (fcs XOR c)"
  by (simp add: gsm_fcs_add_def gsm_fcs8_nth)

lemma xor_cancel_u8: "x XOR c = x XOR d \<longleftrightarrow> c = (d :: u8)" "c XOR x = d XOR x \<longleftrightarrow> c = d"
  by (metis (no_types) xor.assoc xor_self_eq xor.left_neutral xor.commute)+

lemma fcs_block_inj: "gsm_fcs_add_block x bs = gsm_fcs_add_block y bs \<longleftrightarrow> x = y"
  by (induction bs arbitrary: x y) (simp_all add: gsm_fcs_add_block_def gsm_fcs_add_crc crc_byte_inj xor_cancel_u8)

lemma fcs_one_byte:
  "gsm_fcs_add_block x (as @ c # bs) = gsm_fcs_add_block x (as @ d # bs) \<longleftrightarrow> c = d"
  using fcs_block_inj [of "gsm_fcs_add (gsm_fcs_add_block x as) c" bs "gsm_fcs_add (gsm_fcs_add_block x as) d"]
  by (simp add: gsm_fcs_add_block_def gsm_fcs_add_crc crc_byte_inj xor_cancel_u8)

subsection \<open>The receiver, byte by byte\<close>

fun feed :: "(nat \<Rightarrow> ovms_buffer \<Rightarrow> ovms_buffer) \<Rightarrow> u32 \<Rightarrow> bytes \<Rightarrow> gsm_mux \<Rightarrow> gsm_mux option" where
  "feed h now [] m = Some m"
| "feed h now (b # bs) m = do { m1 \<leftarrow> mux_byte h now b (if framepos m = framesize m then overflow m else m); feed h now bs m1 }"

lemma feed_append: "feed h now (xs @ ys) m = Option.bind (feed h now xs m) (feed h now ys)"
  by (induction xs arbitrary: m) (auto split: Option.bind_splits)

text \<open>The frame of the multiplexer as a list of bytes.\<close>

definition length_bytes :: "nat \<Rightarrow> bytes" where
  "length_bytes n = (if n < 128 then [of_nat (2 * n + 1)] else [of_nat (2 * (n mod 128)), of_nat (n div 128)])"

definition header :: "u8 \<Rightarrow> u8 \<Rightarrow> nat \<Rightarrow> bytes" where
  "header adr ctrl n = adr # ctrl # length_bytes n"

definition check_byte :: "u8 \<Rightarrow> u8 \<Rightarrow> nat \<Rightarrow> u8" where
  "check_byte adr ctrl n = 0xFF - gsm_fcs_add_block FCS_INIT (header adr ctrl n)"

definition mux_frame :: "u8 \<Rightarrow> u8 \<Rightarrow> bytes \<Rightarrow> u8 \<Rightarrow> bytes" where
  "mux_frame adr ctrl data chk = GSM0_SOF # header adr ctrl (length data) @ data @ [chk, GSM0_SOF]"

definition idle :: "gsm_mux \<Rightarrow> bool" where
  "idle m \<longleftrightarrow> framepos m = 0 \<and> framelen m = 0 \<and> \<not> framemorelen m \<and> length (m_frame m) = framesize m"

lemma mux_header_length: "length (header adr ctrl n) = (if n < 128 then 3 else 4)"
  by (simp add: header_def length_bytes_def)

text \<open>Bytes that neither start nor complete a frame and are not part of the length are stored.\<close>

definition store :: "bytes \<Rightarrow> gsm_mux \<Rightarrow> gsm_mux" where
  "store bs m = m\<lparr>m_frame := take (framepos m) (m_frame m) @ bs @ drop (framepos m + length bs) (m_frame m), framepos := framepos m + length bs\<rparr>"

lemma wr_store: "p < length xs \<Longrightarrow> wr xs p b = Some (take p xs @ b # drop (Suc p) xs)"
  by (simp add: wr_def upd_conv_take_nth_drop)

lemma store_step:
  assumes "framepos m < framesize m" "length (m_frame m) = framesize m"
    and "framepos m \<noteq> 0 \<or> b = GSM0_SOF" "framepos m \<noteq> 1 \<or> b \<noteq> GSM0_SOF"
  shows "mux_byte h now b m =
    (let m1 = length_field b (store [b] m) in
     if framepos m1 = framelen m1 then if b = GSM0_SOF then mux_ProcessFrame h now m1 else Some (frame_reset (m1\<lparr>framingerrors := framingerrors m1 + 1\<rparr>))
     else Some m1)"
proof -
  have n: "\<not> (framepos m = 0 \<and> b \<noteq> GSM0_SOF)" "\<not> (framepos m = 1 \<and> b = GSM0_SOF)" using assms(3,4) by auto
  show ?thesis using assms(1,2) unfolding mux_byte_def if_not_P [OF n(1)] if_not_P [OF n(2)]
    by (simp add: wr_store store_def Let_def)
qed

lemma store_plain:
  assumes "framepos m < framesize m" "length (m_frame m) = framesize m"
    and "framepos m \<noteq> 0 \<or> b = GSM0_SOF" "framepos m \<noteq> 1 \<or> b \<noteq> GSM0_SOF"
    and "framepos m + 1 \<noteq> 4" "framepos m + 1 \<noteq> 5 \<or> \<not> framemorelen m" "framepos m + 1 \<noteq> framelen m"
  shows "mux_byte h now b m = Some (store [b] m)"
proof -
  have "length_field b (store [b] m) = store [b] m" using assms(5,6) by (auto simp: length_field_def store_def Let_def)
  then show ?thesis using assms(7) unfolding store_step [OF assms(1-4)] by (simp add: store_def)
qed

lemma store_store:
  "length (m_frame m) = framesize m \<Longrightarrow> framepos m + length as + length bs \<le> framesize m \<Longrightarrow> store bs (store as m) = store (as @ bs) m"
  by (cases "as = []") (auto simp: store_def min_def ac_simps neq_Nil_conv)

lemma store_fields [simp]:
  "framepos (store bs m) = framepos m + length bs" "framesize (store bs m) = framesize m" "framelen (store bs m) = framelen m"
  "framemorelen (store bs m) = framemorelen m" "frameipos (store bs m) = frameipos m" "channels (store bs m) = channels m"
  by (simp_all add: store_def)

lemma store_update:
  "store bs (m\<lparr>framelen := a, frameipos := b\<rparr>) = (store bs m)\<lparr>framelen := a, frameipos := b\<rparr>"
  by (simp add: store_def)

lemma store_length:
  "length (m_frame m) = framesize m \<Longrightarrow> framepos m + length bs \<le> framesize m \<Longrightarrow> length (m_frame (store bs m)) = framesize m"
  by (simp add: store_def)

lemma feed_body:
  assumes "length (m_frame m) = framesize m" "4 \<le> framepos m" "framepos m = 4 \<longrightarrow> \<not> framemorelen m"
    "framepos m + length bs < framelen m" "framelen m \<le> framesize m"
  shows "feed h now bs m = Some (store bs m)"
  using assms
proof (induction bs arbitrary: m)
  case Nil
  then show ?case by (simp add: store_def)
next
  case (Cons b bs)
  have "mux_byte h now b m = Some (store [b] m)"
    using Cons.prems by (intro store_plain) auto
  moreover have "feed h now bs (store [b] m) = Some (store bs (store [b] m))"
    using Cons.prems by (intro Cons.IH) (auto simp: store_length)
  moreover have "store bs (store [b] m) = store (b # bs) m"
    using Cons.prems by (subst store_store) simp_all
  ultimately show ?case using Cons.prems by simp
qed

lemma feed_one: "framepos m < framesize m \<Longrightarrow> feed h now (b # bs) m = Option.bind (mux_byte h now b m) (feed h now bs)"
  by simp

lemma feed_last: "framepos m < framesize m \<Longrightarrow> feed h now [b] m = mux_byte h now b m"
  by (cases "mux_byte h now b m") simp_all

lemma short_length_byte:
  assumes "n < 128"
  shows "(of_nat (2 * n + 1) :: u8) AND 1 \<noteq> 0" "unat (drop_bit 1 (of_nat (2 * n + 1) :: u8)) = n"
proof -
  have u: "unat (of_nat (2 * n + 1) :: u8) = 2 * n + 1" using assms by (intro unat_word_of_nat_u8) simp
  have "odd (of_nat (2 * n + 1) :: u8)" by simp
  then show "(of_nat (2 * n + 1) :: u8) AND 1 \<noteq> 0"
    by (metis and_one_eq odd_iff_mod_2_eq_one zero_neq_one)
  show "unat (drop_bit 1 (of_nat (2 * n + 1) :: u8)) = n" using assms by (simp only: unsigned_drop_bit_eq u) (simp add: drop_bit_eq_div take_bit_eq_mod)
qed

lemma long_length_byte:
  assumes "n < 128"
  shows "(of_nat (2 * n) :: u8) AND 1 = 0" "unat (drop_bit 1 (of_nat (2 * n) :: u8)) = n"
proof -
  have u: "unat (of_nat (2 * n) :: u8) = 2 * n" using assms by (intro unat_word_of_nat_u8) simp
  have "even (of_nat (2 * n) :: u8)" by simp
  then show "(of_nat (2 * n) :: u8) AND 1 = 0"
    by (metis and_one_eq even_iff_mod_2_eq_zero)
  show "unat (drop_bit 1 (of_nat (2 * n) :: u8)) = n" using assms by (simp only: unsigned_drop_bit_eq u) (simp add: drop_bit_eq_div take_bit_eq_mod)
qed

definition frame_total :: "nat \<Rightarrow> nat" where
  "frame_total n = (if n < 128 then n + 6 else n + 7)"

lemma feed_front:
  assumes "idle m" "adr \<noteq> GSM0_SOF" "3 < framesize m"
  shows "feed h now (GSM0_SOF # adr # ctrl # bs) m = feed h now bs (store [GSM0_SOF, adr, ctrl] m)"
proof -
  let ?m1 = "store [GSM0_SOF] m" and ?m2 = "store [GSM0_SOF, adr] m"
  have i: "framepos m = 0" "framelen m = 0" "\<not> framemorelen m" "length (m_frame m) = framesize m" using assms(1) by (simp_all add: idle_def)
  have "mux_byte h now GSM0_SOF m = Some ?m1" using i assms(3) by (intro store_plain) auto
  moreover have "mux_byte h now adr ?m1 = Some (store [adr] ?m1)" using i assms(2,3) by (intro store_plain) (auto simp: store_length)
  moreover have s2: "store [adr] ?m1 = ?m2" using i assms(3) by (simp add: store_store)
  moreover have "mux_byte h now ctrl ?m2 = Some (store [ctrl] ?m2)" using i assms(3) by (intro store_plain) (auto simp: store_length)
  moreover have "store [ctrl] ?m2 = store [GSM0_SOF, adr, ctrl] m" using i assms(3) by (simp add: store_store)
  ultimately show ?thesis using i assms(3) by (simp add: feed_one)
qed

lemma feed_length:
  fixes adr ctrl :: u8
  assumes "idle m" "frame_total n \<le> framesize m" "n < 32768"
  defines "m3 \<equiv> store [GSM0_SOF, adr, ctrl] m"
  shows "feed h now (length_bytes n @ bs) m3 =
    feed h now bs ((store (GSM0_SOF # header adr ctrl n) m)\<lparr>framelen := frame_total n, frameipos := Suc (length (header adr ctrl n))\<rparr>)"
proof -
  have i: "framepos m = 0" "framelen m = 0" "\<not> framemorelen m" "length (m_frame m) = framesize m" using assms(1) by (simp_all add: idle_def)
  have sz: "6 \<le> framesize m" using assms(2) by (simp_all add: frame_total_def split: if_splits)
  have l3: "length (m_frame m3) = framesize m3" "framepos m3 = 3" "framesize m3 = framesize m" "\<not> framemorelen m3" "framelen m3 = 0"
    using i sz unfolding m3_def by (simp_all add: store_length)
  show ?thesis
  proof (cases "n < 128")
    case True
    let ?b = "of_nat (2 * n + 1) :: u8"
    note sb = short_length_byte [OF True]
    have st: "store [?b] m3 = store [GSM0_SOF, adr, ctrl, ?b] m" using i sz unfolding m3_def by (subst store_store) simp_all
    have "length_field ?b (store [?b] m3) = (store [?b] m3)\<lparr>framelen := n + 6, frameipos := 4\<rparr>"
      using l3 sb by (simp add: length_field_def Let_def)
    then have "mux_byte h now ?b m3 = Some ((store [?b] m3)\<lparr>framelen := n + 6, frameipos := 4\<rparr>)"
      using l3 sz by (subst store_step) (simp_all add: Let_def)
    moreover have lb: "length_bytes n = [?b]" using True by (simp add: length_bytes_def)
    moreover have "GSM0_SOF # header adr ctrl n = [GSM0_SOF, adr, ctrl, ?b]" by (simp only: header_def lb)
    ultimately show ?thesis
      using True l3 sz by (simp only: st append.simps feed_one mux_header_length frame_total_def Option.bind.bind_lunit) simp
  next
    case False
    let ?b = "of_nat (2 * (n mod 128)) :: u8" and ?c = "of_nat (n div 128) :: u8"
    have "n mod 128 < 128" by simp
    note lb = long_length_byte [OF this]
    let ?m4 = "(store [?b] m3)\<lparr>framemorelen := True, framelen := n mod 128 + 7, frameipos := 5\<rparr>"
    have "length_field ?b (store [?b] m3) = ?m4" using l3 lb by (simp add: length_field_def Let_def)
    then have s4: "mux_byte h now ?b m3 = Some ?m4"
      using l3 sz by (subst store_step) (simp_all add: Let_def)
    have l4: "length (m_frame ?m4) = framesize ?m4" "framepos ?m4 = 4" "framesize ?m4 = framesize m"
      using l3 sz by (simp_all add: store_length)
    have uc: "unat ?c = n div 128" using assms(3) by (intro unat_word_of_nat_u8) simp
    let ?m5 = "(store [?c] ?m4)\<lparr>framelen := n + 7, framemorelen := False\<rparr>"
    have "n mod 128 + 7 + push_bit 7 (unat ?c) = n + 7" unfolding uc by (simp add: push_bit_eq_mult mult.commute)
    then have "length_field ?c (store [?c] ?m4) = ?m5" using l4 by (simp add: length_field_def Let_def)
    then have s5: "mux_byte h now ?c ?m4 = Some ?m5"
      using l4 sz by (subst store_step) (simp_all add: Let_def)
    have st: "?m5 = (store [GSM0_SOF, adr, ctrl, ?b, ?c] m)\<lparr>framelen := n + 7, frameipos := 5\<rparr>"
      using i sz unfolding m3_def by (simp add: store_def)
    have lb: "length_bytes n = [?b, ?c]" using False by (simp add: length_bytes_def)
    moreover have "GSM0_SOF # header adr ctrl n = [GSM0_SOF, adr, ctrl, ?b, ?c]" by (simp only: header_def lb)
    moreover have "feed h now (?b # ?c # bs) m3 = feed h now bs ?m5"
      using l3 l4 sz s4 s5 by simp
    ultimately show ?thesis
      using False unfolding st by (simp only: append.simps mux_header_length frame_total_def) simp
  qed
qed

text \<open>A complete frame is handed on with its check byte; the state holds exactly its bytes.\<close>

definition holds_frame :: "gsm_mux \<Rightarrow> bytes \<Rightarrow> nat \<Rightarrow> gsm_mux" where
  "holds_frame m fr ip = m\<lparr>m_frame := fr @ drop (length fr) (m_frame m), framepos := length fr, framelen := length fr, frameipos := ip\<rparr>"

lemma frame_length: "length (mux_frame adr ctrl data chk) = frame_total (length data)"
  by (simp add: mux_frame_def mux_header_length frame_total_def)

lemma feed_frame:
  assumes "idle m" "adr \<noteq> GSM0_SOF" "frame_total (length data) \<le> framesize m" "length data < 32768"
  shows "feed h now (mux_frame adr ctrl data chk) m =
    mux_ProcessFrame h now (holds_frame m (mux_frame adr ctrl data chk) (Suc (length (header adr ctrl (length data)))))"
proof -
  let ?H = "GSM0_SOF # header adr ctrl (length data)" and ?n = "length data"
  let ?T = "frame_total ?n" and ?ip = "Suc (length (header adr ctrl (length data)))"
  have i: "framepos m = 0" "framelen m = 0" "\<not> framemorelen m" "length (m_frame m) = framesize m" using assms(1) by (simp_all add: idle_def)
  let ?m1 = "(store ?H m)\<lparr>framelen := ?T, frameipos := ?ip\<rparr>"
  have len: "length ?H + ?n + 2 = ?T" by (simp add: mux_header_length frame_total_def)
  have sz: "3 < framesize m" using assms(3) by (simp add: frame_total_def split: if_splits)
  have "mux_frame adr ctrl data chk = GSM0_SOF # adr # ctrl # (length_bytes ?n @ data @ [chk] @ [GSM0_SOF])"
    by (simp add: mux_frame_def header_def)
  then have "feed h now (mux_frame adr ctrl data chk) m = feed h now ((data @ [chk]) @ [GSM0_SOF]) ?m1"
    using feed_front [OF assms(1,2) sz] feed_length [OF assms(1,3,4)] by simp
  also have "\<dots> = feed h now [GSM0_SOF] (store (data @ [chk]) ?m1)"
  proof -
    have "feed h now (data @ [chk]) ?m1 = Some (store (data @ [chk]) ?m1)"
      using i len assms(3) by (intro feed_body) (auto simp: store_length mux_header_length frame_total_def split: if_splits)
    then show ?thesis unfolding feed_append [of h now "data @ [chk]" "[GSM0_SOF]"] by (simp only: Option.bind.bind_lunit)
  qed
  also have "\<dots> = mux_ProcessFrame h now (store [GSM0_SOF] (store (data @ [chk]) ?m1))"
  proof -
    let ?m2 = "store (data @ [chk]) ?m1"
    have p: "framepos ?m2 = ?T - 1" "framelen ?m2 = ?T" "framesize ?m2 = framesize m" using len i by simp_all
    have T: "6 \<le> ?T" by (simp add: frame_total_def)
    have l1: "length (m_frame ?m1) = framesize ?m1"
      using i len assms(3) by (simp add: store_length)
    have l2: "length (m_frame ?m2) = framesize ?m2"
      using i len assms(3) by (intro store_length [OF l1, THEN trans]) simp_all
    have "length_field GSM0_SOF (store [GSM0_SOF] ?m2) = store [GSM0_SOF] ?m2"
      using p T by (simp add: length_field_def Let_def)
    then have eq: "mux_byte h now GSM0_SOF ?m2 = mux_ProcessFrame h now (store [GSM0_SOF] ?m2)"
      using p T l2 assms(3) by (subst store_step) (simp_all add: Let_def)
    have lt: "framepos ?m2 < framesize ?m2" using p(1,3) T assms(3) by linarith
    show ?thesis unfolding feed_last [OF lt] by (rule eq)
  qed
  also have "store [GSM0_SOF] (store (data @ [chk]) ?m1) = holds_frame m (mux_frame adr ctrl data chk) ?ip"
  proof -
    have "store [GSM0_SOF] (store (data @ [chk]) ?m1) = (store [GSM0_SOF] (store (data @ [chk]) (store ?H m)))\<lparr>framelen := ?T, frameipos := ?ip\<rparr>"
      by (simp only: store_update)
    also have "store [GSM0_SOF] (store (data @ [chk]) (store ?H m)) = store (mux_frame adr ctrl data chk) m"
      using i len assms(3) by (simp add: store_store store_length mux_frame_def)
    finally show ?thesis using i(1) by (simp add: store_def holds_frame_def frame_length)
  qed
  finally show ?thesis .
qed

text \<open>What the multiplexer makes of it.\<close>

lemma holds_frame_reads:
  fixes adr ctrl chk :: u8
  assumes "m' = holds_frame m (mux_frame adr ctrl data chk) (Suc (length (header adr ctrl (length data))))"
  shows "rd (m_frame m') 1 = Some adr" "rdn (m_frame m') 1 (frameipos m' - 1) = Some (header adr ctrl (length data))"
    "rd (m_frame m') (framelen m' - 2) = Some chk" "rdn (m_frame m') 1 (framelen m' - 3) = Some (header adr ctrl (length data) @ data)"
proof -
  let ?H = "header adr ctrl (length data)"
  have f: "m_frame m' = GSM0_SOF # ?H @ data @ chk # GSM0_SOF # drop (length (mux_frame adr ctrl data chk)) (m_frame m)"
    "framelen m' = length ?H + length data + 3" "frameipos m' = Suc (length ?H)"
    by (simp_all add: assms holds_frame_def mux_frame_def)
  show "rd (m_frame m') 1 = Some adr" by (simp add: f rd_def header_def)
  show "rdn (m_frame m') 1 (frameipos m' - 1) = Some ?H" by (simp add: f rdn_def)
  show "rdn (m_frame m') 1 (framelen m' - 3) = Some (?H @ data)" by (simp add: f rdn_def)
  show "rd (m_frame m') (framelen m' - 2) = Some chk"
    by (simp add: f rd_def nth_append)
qed

lemma frame_received:
  fixes adr ctrl chk :: u8
  assumes "idle m" "adr \<noteq> GSM0_SOF" "frame_total (length data) \<le> framesize m" "length data < 32768"
  defines "M \<equiv> holds_frame m (mux_frame adr ctrl data chk) (Suc (length (header adr ctrl (length data))))"
  shows "feed h now (mux_frame adr ctrl data chk) m =
    (if chk \<noteq> check_byte adr ctrl (length data)
     then Some (frame_reset (M\<lparr>frameipos := 0, framingerrors := framingerrors M + 1\<rparr>))
     else do {
       c \<leftarrow> rd (channels m) (unat (drop_bit 2 adr));
       m1 \<leftarrow> chan_ProcessFrame h (unat (drop_bit 2 adr)) (header adr ctrl (length data) @ data) (length (header adr ctrl (length data)))
         (M\<lparr>lastgoodrxframe := now, rxframecount := rxframecount M + 1\<rparr>);
       Some (frame_reset (m1\<lparr>frameipos := 0\<rparr>)) })"
proof -
  have c: "channels M = channels m" "frameipos M - 1 = length (header adr ctrl (length data))" by (simp_all add: M_def holds_frame_def)
  note r = holds_frame_reads [OF refl, of m adr ctrl data chk, folded M_def, unfolded c(2)]
  have "feed h now (mux_frame adr ctrl data chk) m = mux_ProcessFrame h now M"
    unfolding M_def by (rule feed_frame [OF assms(1-4)])
  also have "\<dots> = (if chk \<noteq> check_byte adr ctrl (length data)
     then Some (frame_reset (M\<lparr>frameipos := 0, framingerrors := framingerrors M + 1\<rparr>))
     else do {
       c \<leftarrow> rd (channels m) (unat (drop_bit 2 adr));
       m1 \<leftarrow> chan_ProcessFrame h (unat (drop_bit 2 adr)) (header adr ctrl (length data) @ data) (length (header adr ctrl (length data)))
         (M\<lparr>lastgoodrxframe := now, rxframecount := rxframecount M + 1\<rparr>);
       Some (frame_reset (m1\<lparr>frameipos := 0\<rparr>)) })"
    unfolding mux_ProcessFrame_def r Option.bind.bind_lunit Let_def c check_byte_def [symmetric]
    by (simp add: eq_commute)
  finally show ?thesis .
qed

lemma tx_is_frame:
  assumes "length data < 32768"
  shows "tx k data m = Some (m\<lparr>sent := sent m @ [mux_frame (of_nat (4 * k + 1)) 0xFF data (check_byte (of_nat (4 * k + 1)) 0xFF (length data))],
    txframecount := txframecount m + 1\<rparr>)"
proof -
  let ?n = "length data" and ?a = "of_nat (4 * k + 1) :: u8"
  let ?H = "header ?a 0xFF ?n"
  have H: "[GSM0_SOF, of_nat (push_bit 2 k + 1), GSM_UIH + GSM_PF] @
      (if ?n < 128 then [of_nat (push_bit 1 ?n + 1)] else [of_nat (push_bit 1 (?n mod 128)), of_nat (?n div 128)]) = GSM0_SOF # ?H"
    by (simp add: header_def length_bytes_def push_bit_eq_mult ac_simps)
  have ip: "3 + length (if ?n < 128 then [of_nat (push_bit 1 ?n + 1)] else [of_nat (push_bit 1 (?n mod 128)), of_nat (?n div 128)] :: bytes) =
      Suc (length ?H)" by (simp add: mux_header_length)
  have buf: "tx_frame k data = (GSM0_SOF # ?H @ data @ [0, GSM0_SOF], Suc (length ?H))"
    unfolding tx_frame_def Let_def append_assoc [symmetric] H ip by simp
  have "rdn (GSM0_SOF # ?H @ data @ [0, GSM0_SOF]) 1 (length ?H) = Some ?H" by (simp add: rdn_def)
  moreover have "wr (GSM0_SOF # ?H @ data @ [0, GSM0_SOF]) (length ?H + ?n + 1) c = Some (mux_frame ?a 0xFF data c)" for c
    by (simp add: wr_def mux_frame_def list_update_append)
  ultimately show ?thesis
    unfolding tx_def buf by (simp add: txfcs_def check_byte_def)
qed

subsection \<open>From the ring buffer to the frames\<close>

lemmas mux_update_defs = frame_reset_def overflow_def length_field_def Let_def

lemma set_chan_state_keeps:
  "set_chan_state k st m = Some m' \<Longrightarrow> framesize m' = framesize m \<and> m_frame m' = m_frame m \<and> framepos m' = framepos m \<and>
    framelen m' = framelen m \<and> framemorelen m' = framemorelen m"
  by (auto simp: set_chan_state_def split: Option.bind_splits)

lemma StartChannel_keeps:
  "StartChannel k m = Some m' \<Longrightarrow> framesize m' = framesize m \<and> m_frame m' = m_frame m"
  by (auto simp: StartChannel_def txfcs_def Let_def dest!: set_chan_state_keeps split: Option.bind_splits)

lemma chan_data_keeps:
  "chan_data h k fr ip m = Some m' \<Longrightarrow> framesize m' = framesize m \<and> m_frame m' = m_frame m"
  by (auto simp: chan_data_def split: Option.bind_splits if_splits)

lemma chan_opened_keeps:
  "chan_opened k m = Some m' \<Longrightarrow> framesize m' = framesize m \<and> m_frame m' = m_frame m"
  by (auto simp: chan_opened_def Let_def dest!: set_chan_state_keeps StartChannel_keeps split: Option.bind_splits if_splits)

lemma chan_ProcessFrame_keeps:
  "chan_ProcessFrame h k fr ip m = Some m' \<Longrightarrow> framesize m' = framesize m \<and> m_frame m' = m_frame m"
  by (auto simp: chan_ProcessFrame_def dest!: chan_data_keeps chan_opened_keeps split: Option.bind_splits if_splits chan_state.splits)

lemma mux_ProcessFrame_keeps:
  "mux_ProcessFrame h now m = Some m' \<Longrightarrow> framesize m' = framesize m \<and> m_frame m' = m_frame m"
  by (auto simp: mux_ProcessFrame_def frame_reset_def Let_def dest!: chan_ProcessFrame_keeps split: Option.bind_splits if_splits)

lemma length_field_keeps [simp]:
  "framesize (length_field b m) = framesize m" "m_frame (length_field b m) = m_frame m" "framepos (length_field b m) = framepos m"
  "channels (length_field b m) = channels m" "framingerrors (length_field b m) = framingerrors m"
  by (simp_all add: length_field_def Let_def)

lemma mux_byte_keeps:
  assumes "mux_byte h now b m = Some m'"
  shows "framesize m' = framesize m" "length (m_frame m') = length (m_frame m)"
  using assms
  by (auto simp: mux_byte_def Let_def frame_reset_def wr_def dest!: mux_ProcessFrame_keeps split: Option.bind_splits if_splits)

lemma overflow_keeps [simp]: "framesize (overflow m) = framesize m" "framepos (overflow m) = 0" "m_frame (overflow m) = m_frame m"
  "channels (overflow m) = channels m"
  by (simp_all add: overflow_def frame_reset_def)

text \<open>The loop of \<open>Process\<close> feeds the contents of the buffer, byte by byte, and ends.\<close>

lemma Process_feed:
  assumes "wf_buffer buf" "0 < framesize m"
  shows "\<exists>buf'. wf_buffer buf' \<and> contents buf' = [] \<and> m_size buf' = m_size buf \<and>
    Process h now buf m = map_option (Pair buf') (feed h now (contents buf) m)"
  using assms
proof (induction "contents buf" arbitrary: buf m)
  case Nil
  then have "UsedSpace buf = 0" using contents_length [of buf] by (simp add: UsedSpace_def)
  then have "Process h now buf m = Some (buf, m)" by (subst Process.simps) simp
  then show ?case using Nil by (intro exI [of _ buf]) simp
next
  case (Cons b bs)
  have u: "UsedSpace buf > 0" using arg_cong [OF Cons.hyps(2), of length] by (simp add: UsedSpace_def)
  obtain buf1 where b1: "Pop buf = Some (b, buf1)" "wf_buffer buf1" "contents buf1 = bs" "m_size buf1 = m_size buf"
    using ob.pop_first [OF Cons.prems(1) Cons.hyps(2) [symmetric]] by blast
  let ?m = "if framepos m = framesize m then overflow m else m"
  have ne: "framepos ?m \<noteq> framesize ?m" "framesize ?m = framesize m" using Cons.prems(2) by auto
  have go: "Process h now buf ?m = Option.bind (mux_byte h now b ?m) (Process h now buf1)"
    using u ne(1) b1(1) by (subst Process.simps) (simp del: overflow_keeps)
  have "Process h now buf m = Process h now buf ?m"
    using u by (cases "framepos m = framesize m") (simp_all add: Process.simps [of h now buf m])
  then have eq: "Process h now buf m = Option.bind (mux_byte h now b ?m) (Process h now buf1)" using go by simp
  show ?case
  proof (cases "mux_byte h now b ?m")
    case None
    have "contents (EmptyAll buf) = []" "wf_buffer (EmptyAll buf)" "m_size (EmptyAll buf) = m_size buf"
      using EmptyAll_ok Cons.prems(1) by (simp_all add: empty_size)
    then show ?thesis using eq None by (intro exI [of _ "EmptyAll buf"]) (simp flip: Cons.hyps(2))
  next
    case (Some m1)
    have f: "0 < framesize m1" using mux_byte_keeps(1) [OF Some] ne(2) Cons.prems(2) by simp
    obtain buf' where "wf_buffer buf'" "contents buf' = []" "m_size buf' = m_size buf1"
      "Process h now buf1 m1 = map_option (Pair buf') (feed h now (contents buf1) m1)"
      using Cons.hyps(1) [OF b1(3) [symmetric] b1(2) f] by blast
    then show ?thesis using eq Some b1 by (intro exI [of _ buf']) (simp flip: Cons.hyps(2))
  qed
qed

text \<open>Chunks that arrive one after the other in the input buffer of the modem.\<close>

fun receive :: "(nat \<Rightarrow> ovms_buffer \<Rightarrow> ovms_buffer) \<Rightarrow> u32 \<Rightarrow> bytes list \<Rightarrow> ovms_buffer \<Rightarrow> gsm_mux \<Rightarrow> (ovms_buffer \<times> gsm_mux) option" where
  "receive h now [] buf m = Some (buf, m)"
| "receive h now (c # cs) buf m = do {
     (ok, buf1) \<leftarrow> Push_block c buf;
     (buf2, m1) \<leftarrow> Process h now buf1 m;
     receive h now cs buf2 m1 }"

lemma feed_keeps: "feed h now bs m = Some m' \<Longrightarrow> framesize m' = framesize m"
  by (induction bs arbitrary: m) (auto dest!: mux_byte_keeps(1) split: Option.bind_splits if_splits)

lemma receive_feed:
  assumes "wf_buffer buf" "contents buf = []" "0 < framesize m" "\<forall>c \<in> set cs. length c \<le> m_size buf"
  shows "\<exists>buf'. wf_buffer buf' \<and> contents buf' = [] \<and> receive h now cs buf m = map_option (Pair buf') (feed h now (concat cs) m)"
  using assms
proof (induction cs arbitrary: buf m)
  case Nil
  then show ?case by auto
next
  case (Cons c cs)
  have "m_used buf = 0" using Cons.prems(2) contents_length [of buf] by simp
  then obtain buf1 where b1: "Push_block c buf = Some (True, buf1)" "wf_buffer buf1" "m_size buf1 = m_size buf" "contents buf1 = c"
    using Push_block_ok [OF Cons.prems(1), of c] Cons.prems(2,4) by auto
  obtain buf2 where b2: "wf_buffer buf2" "contents buf2 = []" "m_size buf2 = m_size buf1"
    "Process h now buf1 m = map_option (Pair buf2) (feed h now c m)"
    using Process_feed [OF b1(2) Cons.prems(3)] b1(4) by metis
  show ?case
  proof (cases "feed h now c m")
    case None
    then show ?thesis using b1 b2 by (intro exI [of _ buf2]) (simp add: feed_append)
  next
    case (Some m1)
    then have "0 < framesize m1" using feed_keeps [OF Some] Cons.prems(3) by simp
    then show ?thesis using Cons.IH [OF b2(1,2), of m1] Cons.prems(4) b1 b2 Some by (auto simp: feed_append)
  qed
qed

subsection \<open>Data to open channels\<close>

lemma address_byte:
  assumes "k < 62" "e < 4"
  shows "(of_nat (4 * k + e) :: u8) \<noteq> GSM0_SOF" "unat (drop_bit 2 (of_nat (4 * k + e) :: u8)) = k"
proof -
  have u: "unat (of_nat (4 * k + e) :: u8) = 4 * k + e" using assms by (intro unat_word_of_nat_u8) simp
  show "(of_nat (4 * k + e) :: u8) \<noteq> GSM0_SOF"
  proof
    assume "(of_nat (4 * k + e) :: u8) = GSM0_SOF"
    then have "4 * k + e = unat (GSM0_SOF :: u8)" using u by argo
    then show False using assms by simp
  qed
  have "(4 * k + e) mod 256 = 4 * k + e" using assms by simp
  then show "unat (drop_bit 2 (of_nat (4 * k + e) :: u8)) = k"
    using assms by (simp only: unsigned_drop_bit_eq u) (simp add: drop_bit_eq_div take_bit_eq_mod)
qed

lemma holds_frame_fields [simp]:
  "channels (holds_frame m fr ip) = channels m" "incoming (holds_frame m fr ip) = incoming m" "sent (holds_frame m fr ip) = sent m"
  "framesize (holds_frame m fr ip) = framesize m" "framingerrors (holds_frame m fr ip) = framingerrors m"
  "channelcount (holds_frame m fr ip) = channelcount m" "openchannels (holds_frame m fr ip) = openchannels m"
  "x_state (holds_frame m fr ip) = x_state m" "m_frame (holds_frame m fr ip) = fr @ drop (length fr) (m_frame m)"
  "framemorelen (holds_frame m fr ip) = framemorelen m"
  by (simp_all add: holds_frame_def)

lemma frame_reset_fields [simp]:
  "channels (frame_reset m) = channels m" "incoming (frame_reset m) = incoming m" "sent (frame_reset m) = sent m"
  "framesize (frame_reset m) = framesize m" "framingerrors (frame_reset m) = framingerrors m"
  "channelcount (frame_reset m) = channelcount m" "openchannels (frame_reset m) = openchannels m"
  "x_state (frame_reset m) = x_state m" "m_frame (frame_reset m) = m_frame m"
  by (simp_all add: frame_reset_def)

lemma idle_frame_reset: "length (m_frame m) = framesize m \<Longrightarrow> idle (frame_reset m)"
  by (simp add: idle_def frame_reset_def)

lemma data_frame:
  assumes "idle m" "k < 62" "rd (channels m) k = Some c" "c_state c = ChanOpen" "wf_buffer (c_buffer c)"
    and "frame_total (length data) \<le> framesize m" "length data < 32768"
  shows "\<exists>b m'. feed h now (mux_frame (of_nat (4 * k + 1)) 0xFF data (check_byte (of_nat (4 * k + 1)) 0xFF (length data))) m = Some m' \<and>
    idle m' \<and> wf_buffer b \<and> contents b = take (m_size (c_buffer c)) (contents (c_buffer c) @ data) \<and> m_size b = m_size (c_buffer c) \<and>
    incoming m' = incoming m @ [(k, contents b)] \<and> channels m' = (channels m)[k := c\<lparr>c_buffer := h k b\<rparr>] \<and>
    framesize m' = framesize m \<and> framingerrors m' = framingerrors m"
proof -
  let ?a = "of_nat (4 * k + 1) :: u8"
  let ?H = "header ?a 0xFF (length data)" and ?fr = "mux_frame ?a 0xFF data (check_byte ?a 0xFF (length data))"
  have e: "(1::nat) < 4" by simp
  note adr = address_byte [OF assms(2) e]
  let ?M = "(holds_frame m ?fr (Suc (length ?H)))\<lparr>lastgoodrxframe := now, rxframecount := rxframecount (holds_frame m ?fr (Suc (length ?H))) + 1\<rparr>"
  obtain b where b: "push_each Push data (c_buffer c) = Some b" "wf_buffer b" "m_size b = m_size (c_buffer c)"
    "contents b = take (m_size (c_buffer c)) (contents (c_buffer c) @ data)"
    using ob.push_each_keeps [OF assms(5), of data] by blast
  let ?m1 = "?M\<lparr>incoming := incoming m @ [(k, contents b)], channels := (channels m)[k := c\<lparr>c_buffer := h k b\<rparr>]\<rparr>"
  have "rd (?H @ data) 1 = Some 0xFF" by (simp add: rd_def header_def)
  then have "chan_data h k (?H @ data) (length ?H) ?M = Some ?m1"
    using assms(3) b(1) by (simp add: chan_data_def)
  then have "chan_ProcessFrame h k (?H @ data) (length ?H) ?M = Some ?m1"
    using assms(3,4) by (simp add: chan_ProcessFrame_def)
  then have "feed h now ?fr m = Some (frame_reset (?m1\<lparr>frameipos := 0\<rparr>))"
    unfolding frame_received [OF assms(1) adr(1) assms(6,7)] adr(2) assms(3) by simp
  moreover have "idle (frame_reset (?m1\<lparr>frameipos := 0\<rparr>))"
    using assms(1,6) by (intro idle_frame_reset) (simp add: idle_def frame_length)
  ultimately show ?thesis using b by (intro exI [of _ b] exI [of _ "frame_reset (?m1\<lparr>frameipos := 0\<rparr>)"]) simp
qed

fun tx_all :: "(nat \<times> bytes) list \<Rightarrow> gsm_mux \<Rightarrow> gsm_mux option" where
  "tx_all [] m = Some m"
| "tx_all ((k, d) # msgs) m = do { m1 \<leftarrow> tx k d m; tx_all msgs m1 }"

text \<open>Channels ready for the messages: open, empty, and with room for each.\<close>

definition ready :: "gsm_mux \<Rightarrow> nat \<Rightarrow> bytes \<Rightarrow> bool" where
  "ready m k d \<longleftrightarrow> k < 62 \<and> k < length (channels m) \<and> c_state (channels m ! k) = ChanOpen \<and> wf_buffer (c_buffer (channels m ! k)) \<and>
     contents (c_buffer (channels m ! k)) = [] \<and> length d \<le> m_size (c_buffer (channels m ! k)) \<and>
     frame_total (length d) \<le> framesize m \<and> length d < 32768"

text \<open>A modem that takes all bytes out of a channel when it is called.\<close>

definition draining :: "(nat \<Rightarrow> ovms_buffer \<Rightarrow> ovms_buffer) \<Rightarrow> bool" where
  "draining h \<longleftrightarrow> (\<forall>k b. wf_buffer b \<longrightarrow> wf_buffer (h k b) \<and> contents (h k b) = [] \<and> m_size (h k b) = m_size b)"

definition data_bytes :: "nat \<times> bytes \<Rightarrow> bytes" where
  "data_bytes = (\<lambda>(k, d). mux_frame (of_nat (4 * k + 1)) 0xFF d (check_byte (of_nat (4 * k + 1)) 0xFF (length d)))"

lemma tx_all_sent:
  assumes "\<forall>(k, d) \<in> set msgs. length d < 32768"
  shows "\<exists>m'. tx_all msgs m = Some m' \<and> sent m' = sent m @ map data_bytes msgs"
  using assms
proof (induction msgs arbitrary: m)
  case (Cons x msgs)
  obtain k d where x: "x = (k, d)" by (cases x)
  have "length d < 32768" using Cons.prems x by simp
  from tx_is_frame [OF this, of k m] obtain m1 where m1: "tx k d m = Some m1" "sent m1 = sent m @ [data_bytes x]"
    by (auto simp: x data_bytes_def)
  show ?case using Cons.IH [of m1] Cons.prems m1 by (auto simp: x)
qed simp

lemma data_frames:
  assumes "idle m" "draining h" "\<forall>(k, d) \<in> set msgs. ready m k d"
  shows "\<exists>m'. feed h now (concat (map data_bytes msgs)) m = Some m' \<and> idle m' \<and> incoming m' = incoming m @ msgs \<and>
    framingerrors m' = framingerrors m"
  using assms
proof (induction msgs arbitrary: m)
  case (Cons x msgs)
  obtain k d where x: "x = (k, d)" by (cases x)
  let ?c = "channels m ! k"
  have r: "k < 62" "k < length (channels m)" "c_state ?c = ChanOpen" "wf_buffer (c_buffer ?c)"
     "contents (c_buffer ?c) = []" "length d \<le> m_size (c_buffer ?c)" "frame_total (length d) \<le> framesize m" "length d < 32768"
    using Cons.prems(3) by (simp_all add: x ready_def)
  have c: "rd (channels m) k = Some ?c" using r(2) by (simp add: rd_def)
  obtain b m1 where m1: "feed h now (data_bytes x) m = Some m1" "idle m1" "wf_buffer b" "contents b = d" "m_size b = m_size (c_buffer ?c)"
    "incoming m1 = incoming m @ [(k, d)]" "channels m1 = (channels m)[k := ?c\<lparr>c_buffer := h k b\<rparr>]" "framesize m1 = framesize m"
    "framingerrors m1 = framingerrors m"
    using data_frame [OF Cons.prems(1) r(1) c r(3,4,7,8), of h now] r(5,6) by (auto simp: x data_bytes_def)
  have hb: "wf_buffer (h k b)" "contents (h k b) = []" "m_size (h k b) = m_size (c_buffer ?c)"
    using Cons.prems(2) m1(3,5) by (auto simp: draining_def)
  have "ready m1 k' d'" if "(k', d') \<in> set msgs" for k' d'
  proof -
    have "ready m k' d'" using Cons.prems(3) that by auto
    then show ?thesis using r(2,3) hb m1(7,8) by (cases "k' = k") (auto simp: ready_def)
  qed
  then obtain m2 where "feed h now (concat (map data_bytes msgs)) m1 = Some m2" "idle m2" "incoming m2 = incoming m1 @ msgs"
    "framingerrors m2 = framingerrors m1"
    using Cons.IH [OF m1(2) Cons.prems(2)] by blast
  then show ?case using m1 by (simp add: x feed_append)
qed simp

text \<open>C16. Messages sent by one multiplexer arrive at the other: whatever chunks the line cuts the transmitted
  bytes into, the receiver, reading them through the ring buffer of the modem, hands the modem exactly the messages,
  each on its channel and in order, provided that the channels are open and their buffers have room.\<close>

theorem messages_round_trip:
  assumes "idle m" "draining h" "\<forall>(k, d) \<in> set msgs. ready m k d" "msgs \<noteq> []"
  shows "\<exists>t'. tx_all msgs t = Some t' \<and>
    (\<forall>chunks mem. concat chunks = concat (drop (length (sent t)) (sent t')) \<and> (\<forall>c \<in> set chunks. length c \<le> length mem) \<longrightarrow>
      (\<exists>buf m'. receive h now chunks (OvmsBuffer mem) m = Some (buf, m') \<and> incoming m' = incoming m @ msgs \<and>
        framingerrors m' = framingerrors m))"
proof -
  have len: "\<forall>(k, d) \<in> set msgs. length d < 32768" using assms(3) by (auto simp: ready_def)
  obtain t' where t': "tx_all msgs t = Some t'" "sent t' = sent t @ map data_bytes msgs" using tx_all_sent [OF len] by blast
  obtain k d where "(k, d) \<in> set msgs" using assms(4) by (cases msgs) auto
  then have f: "0 < framesize m" using assms(3) by (fastforce simp: ready_def frame_total_def split: if_splits)
  obtain m' where m': "feed h now (concat (map data_bytes msgs)) m = Some m'" "incoming m' = incoming m @ msgs" "framingerrors m' = framingerrors m"
    using data_frames [OF assms(1-3)] by blast
  have "\<exists>buf m'. receive h now chunks (OvmsBuffer mem) m = Some (buf, m') \<and> incoming m' = incoming m @ msgs \<and> framingerrors m' = framingerrors m"
    if c: "concat chunks = concat (drop (length (sent t)) (sent t'))" "\<forall>c \<in> set chunks. length c \<le> length mem" for chunks mem
  proof -
    have "\<forall>c \<in> set chunks. length c \<le> m_size (OvmsBuffer mem)" using c(2) by (simp add: OvmsBuffer_def)
    from receive_feed [OF wf_new f this, of h now] show ?thesis using m' c(1) t'(2) by auto
  qed
  then show ?thesis using t'(1) by blast
qed

theorem messages_round_trip_witness:
  "\<exists>t'. tx_all [(1, [65, 84]), (0, [66])] (GsmMux 1 []) = Some t' \<and>
    (\<forall>chunks mem. concat chunks = concat (drop 0 (sent t')) \<and> (\<forall>c \<in> set chunks. length c \<le> length mem) \<longrightarrow>
      (\<exists>buf m'. receive (\<lambda>k. EmptyAll) 7 chunks (OvmsBuffer mem)
          ((GsmMux 1 [0, 0, 0, 0, 0, 0, 0, 0, 0])\<lparr>channels := [(new_channel [0, 0])\<lparr>c_state := ChanOpen\<rparr>, (new_channel [0, 0])\<lparr>c_state := ChanOpen\<rparr>]\<rparr>) =
          Some (buf, m') \<and> incoming m' = [(1, [65, 84]), (0, [66])] \<and> framingerrors m' = 0))"
proof -
  let ?m = "(GsmMux 1 [0, 0, 0, 0, 0, 0, 0, 0, 0])\<lparr>channels := [(new_channel [0, 0])\<lparr>c_state := ChanOpen\<rparr>, (new_channel [0, 0])\<lparr>c_state := ChanOpen\<rparr>]\<rparr>"
  let ?msgs = "[(1, [65, 84]), (0, [66])] :: (nat \<times> bytes) list"
  have "idle ?m" by (simp add: idle_def GsmMux_def)
  moreover have "draining (\<lambda>k. EmptyAll)" by (simp add: draining_def EmptyAll_ok empty_size)
  moreover have "\<forall>(k, d) \<in> set ?msgs. ready ?m k d"
    by (simp add: ready_def new_channel_def wf_new) (simp add: GsmMux_def OvmsBuffer_def frame_total_def)
  moreover have "?msgs \<noteq> []" by simp
  ultimately show ?thesis
    using messages_round_trip [of ?m "\<lambda>k. EmptyAll" ?msgs "GsmMux 1 []" 7] by (simp add: GsmMux_def)
qed

text \<open>A frame whose address or control byte was changed on the line is rejected by its check byte: it counts
  as one framing error and reaches no channel, and the receiver waits for the next frame.\<close>

theorem corrupt_header_rejected:
  fixes adr ctrl adr' ctrl' :: u8
  assumes "idle m" "adr' \<noteq> GSM0_SOF" "frame_total (length data) \<le> framesize m" "length data < 32768"
    and "adr' = adr \<longleftrightarrow> ctrl' \<noteq> ctrl"
  shows "\<exists>m'. feed h now (mux_frame adr' ctrl' data (check_byte adr ctrl (length data))) m = Some m' \<and> idle m' \<and>
    framingerrors m' = framingerrors m + 1 \<and> channels m' = channels m \<and> incoming m' = incoming m \<and> sent m' = sent m"
proof -
  have "check_byte adr' ctrl' (length data) \<noteq> check_byte adr ctrl (length data)"
  proof (cases "adr' = adr")
    case True
    then have "ctrl' \<noteq> ctrl" using assms(5) by simp
    then show ?thesis using fcs_one_byte [of FCS_INIT "[adr]" ctrl' "length_bytes (length data)" ctrl] True
      by (simp add: check_byte_def header_def)
  next
    case False
    then have "ctrl' = ctrl" using assms(5) by simp
    then show ?thesis using fcs_one_byte [of FCS_INIT "[]" adr' "ctrl # length_bytes (length data)" adr] False
      by (simp add: check_byte_def header_def)
  qed
  then have "check_byte adr ctrl (length data) \<noteq> check_byte adr' ctrl' (length data)" by simp
  note rejected = if_P [OF this]
  let ?M = "holds_frame m (mux_frame adr' ctrl' data (check_byte adr ctrl (length data))) (Suc (length (header adr' ctrl' (length data))))"
  have "idle (frame_reset (?M\<lparr>frameipos := 0, framingerrors := framingerrors ?M + 1\<rparr>))"
    using assms(1,3) by (intro idle_frame_reset) (simp add: idle_def frame_length)
  then show ?thesis unfolding frame_received [OF assms(1-4)] rejected by simp
qed

theorem corrupt_header_rejected_witness:
  "\<exists>m'. feed (\<lambda>k. EmptyAll) 7 (mux_frame 9 0xFF [65] (check_byte 5 0xFF 1)) (GsmMux 1 [0, 0, 0, 0, 0, 0, 0]) = Some m' \<and> idle m' \<and>
    framingerrors m' = 1 \<and> channels m' = [] \<and> incoming m' = [] \<and> sent m' = []"
  using corrupt_header_rejected [where m = "GsmMux 1 [0, 0, 0, 0, 0, 0, 0]" and adr' = 9 and data = "[65]" and adr = 5 and ctrl = "0xFF"
    and ctrl' = "0xFF" and h = "\<lambda>k. EmptyAll" and now = 7]
  by (simp add: idle_def GsmMux_def frame_total_def)

subsection \<open>Safety\<close>

definition chans_ok :: "gsm_mux \<Rightarrow> bool" where
  "chans_ok m \<longleftrightarrow> (\<forall>c \<in> set (channels m). wf_buffer (c_buffer c)) \<and> (channels m = [] \<or> length (channels m) = Suc (channelcount m))"

definition receiver_ok :: "gsm_mux \<Rightarrow> bool" where
  "receiver_ok m \<longleftrightarrow> 0 < framesize m \<and> length (m_frame m) = framesize m \<and> framepos m \<le> framesize m \<and>
     (if framepos m < 4 then framelen m = 0 \<and> \<not> framemorelen m
      else framepos m < framelen m \<and> 6 \<le> framelen m \<and> (framemorelen m \<longrightarrow> framepos m = 4 \<and> 7 \<le> framelen m) \<and>
        1 \<le> frameipos m \<and> frameipos m + 2 \<le> framelen m) \<and> chans_ok m"

definition keeps_wf :: "(nat \<Rightarrow> ovms_buffer \<Rightarrow> ovms_buffer) \<Rightarrow> bool" where
  "keeps_wf h \<longleftrightarrow> (\<forall>k b. wf_buffer b \<longrightarrow> wf_buffer (h k b))"

text \<open>The byte completes a frame with the right check byte for a channel that does not exist.\<close>

definition stray :: "u8 \<Rightarrow> gsm_mux \<Rightarrow> bool" where
  "stray b m \<longleftrightarrow> b = GSM0_SOF \<and> framepos m + 1 = framelen m \<and>
     0xFF - gsm_fcs_add_block FCS_INIT (take (frameipos m - 1) (drop 1 (m_frame (store [b] m)))) = m_frame (store [b] m) ! (framelen m - 2) \<and>
     length (channels m) \<le> unat (drop_bit 2 (m_frame (store [b] m) ! 1))"

lemma rd_channel: "k < length (channels m) \<Longrightarrow> rd (channels m) k = Some (channels m ! k)"
  by (simp add: rd_def)

lemma chans_ok_state:
  assumes "chans_ok m" "k < length (channels m)"
  shows "\<exists>m'. set_chan_state k st m = Some m' \<and> chans_ok m' \<and> length (channels m') = length (channels m) \<and> channelcount m' = channelcount m"
proof -
  have "wf_buffer (c_buffer (channels m ! k))" using assms by (simp add: chans_ok_def)
  then show ?thesis
    using assms by (auto simp: set_chan_state_def rd_channel chans_ok_def dest!: set_update_subset_insert [THEN subsetD])
qed

lemma StartChannel_some:
  assumes "chans_ok m" "k < length (channels m)"
  shows "\<exists>m'. StartChannel k m = Some m' \<and> chans_ok m' \<and> length (channels m') = length (channels m) \<and> channelcount m' = channelcount m"
proof -
  let ?d = "[GSM0_SOF, of_nat (push_bit 2 k + 1 + GSM_CR), GSM_SABM + GSM_PF, GSM_EA + 0, 0, GSM0_SOF]"
  obtain m1 where m1: "txfcs ?d 4 m = Some m1" "channels m1 = channels m" "channelcount m1 = channelcount m"
    by (auto simp: txfcs_def rdn_def wr_def)
  then have "chans_ok m1" using assms(1) by (simp add: chans_ok_def)
  from chans_ok_state [OF this, of k ChanOpening] show ?thesis
    using m1 assms(2) by (auto simp: StartChannel_def)
qed

lemma chan_data_some:
  assumes "chans_ok m" "keeps_wf h" "k < length (channels m)" "2 \<le> length fr"
  shows "\<exists>m'. chan_data h k fr ip m = Some m' \<and> chans_ok m'"
proof -
  let ?c = "channels m ! k"
  have wf: "wf_buffer (c_buffer ?c)" using assms(1,3) by (simp add: chans_ok_def)
  obtain b where b: "push_each Push (drop ip fr) (c_buffer ?c) = Some b" "wf_buffer b"
    using ob.push_each_keeps [OF wf] by blast
  then have "wf_buffer (h k b)" using assms(2) by (simp add: keeps_wf_def)
  then show ?thesis
    using assms b by (auto simp: chan_data_def rd_channel rd_def [of fr] chans_ok_def dest!: set_update_subset_insert [THEN subsetD])
qed

lemma chan_opened_some:
  assumes "chans_ok m" "k < length (channels m)"
  shows "\<exists>m'. chan_opened k m = Some m' \<and> chans_ok m' \<and> length (channels m') = length (channels m)"
proof -
  obtain m1 where m1: "set_chan_state k ChanOpen m = Some m1" "chans_ok m1" "length (channels m1) = length (channels m)"
    "channelcount m1 = channelcount m"
    using chans_ok_state [OF assms] by blast
  let ?m2 = "if k \<noteq> 0 then m1\<lparr>openchannels := openchannels m1 + 1\<rparr> else m1\<lparr>x_state := DlciOpen\<rparr>"
  have ok: "chans_ok ?m2" "length (channels ?m2) = length (channels m)" "channelcount ?m2 = channelcount m"
    using m1 by (auto simp: chans_ok_def)
  have "channels m \<noteq> []" using assms(2) by auto
  then have "length (channels m) = Suc (channelcount m)" using assms(1) by (simp add: chans_ok_def)
  then have "k < channelcount ?m2 \<Longrightarrow> k + 1 < length (channels ?m2)" using ok(2,3) by simp
  from StartChannel_some [OF ok(1) this] show ?thesis
    using m1(1) ok unfolding chan_opened_def Let_def by (cases "k < channelcount ?m2") auto
qed

lemma chan_ProcessFrame_some:
  assumes "chans_ok m" "keeps_wf h" "k < length (channels m)" "2 \<le> length fr"
  shows "\<exists>m'. chan_ProcessFrame h k fr ip m = Some m' \<and> chans_ok m'"
proof -
  obtain m1 where "chan_opened k m = Some m1" "chans_ok m1" "length (channels m1) = length (channels m)"
    using chan_opened_some [OF assms(1,3)] by blast
  then show ?thesis
    using chan_data_some [OF assms, of ip] chan_data_some [of m1 h k fr ip] assms
    by (auto simp: chan_ProcessFrame_def rd_channel rd_def [of fr] split: chan_state.split)
qed

lemma receiver_ok_reset:
  "0 < framesize m \<Longrightarrow> length (m_frame m) = framesize m \<Longrightarrow> chans_ok m \<Longrightarrow> receiver_ok (frame_reset m)"
  by (simp add: receiver_ok_def frame_reset_def chans_ok_def)

lemma chans_ok_cong: "channels m' = channels m \<Longrightarrow> channelcount m' = channelcount m \<Longrightarrow> chans_ok m' = chans_ok m"
  by (simp add: chans_ok_def)

lemma complete_frame:
  assumes "0 < framesize m" "length (m_frame m) = framesize m" "chans_ok m" "keeps_wf h"
    and "6 \<le> framelen m" "framelen m \<le> framesize m" "1 \<le> frameipos m" "frameipos m + 2 \<le> framelen m"
  shows "(\<exists>m'. mux_ProcessFrame h now m = Some m' \<and> receiver_ok m') \<or>
    (0xFF - gsm_fcs_add_block FCS_INIT (take (frameipos m - 1) (drop 1 (m_frame m))) = m_frame m ! (framelen m - 2) \<and>
     length (channels m) \<le> unat (drop_bit 2 (m_frame m ! 1)))"
proof -
  let ?hd = "take (frameipos m - 1) (drop 1 (m_frame m))" and ?k = "unat (drop_bit 2 (m_frame m ! 1))"
  let ?fr = "take (framelen m - 3) (drop 1 (m_frame m))" and ?m = "m\<lparr>lastgoodrxframe := now, rxframecount := rxframecount m + 1\<rparr>"
  have r: "rd (m_frame m) 1 = Some (m_frame m ! 1)" "rdn (m_frame m) 1 (frameipos m - 1) = Some ?hd"
    "rd (m_frame m) (framelen m - 2) = Some (m_frame m ! (framelen m - 2))" "rdn (m_frame m) 1 (framelen m - 3) = Some ?fr"
    using assms by (simp_all add: rd_def rdn_def)
  show ?thesis
  proof (cases "0xFF - gsm_fcs_add_block FCS_INIT ?hd = m_frame m ! (framelen m - 2)")
    case False
    let ?m' = "m\<lparr>frameipos := 0, framingerrors := framingerrors m + 1\<rparr>"
    have "mux_ProcessFrame h now m = Some (frame_reset ?m')" using r False by (simp add: mux_ProcessFrame_def)
    moreover have "receiver_ok (frame_reset ?m')" using assms(1-3) by (intro receiver_ok_reset) (simp_all add: chans_ok_def)
    ultimately show ?thesis by blast
  next
    case True
    show ?thesis
    proof (cases "?k < length (channels m)")
      case False
      then show ?thesis using True by simp
    next
      case k: True
      have "chans_ok ?m" "?k < length (channels ?m)" "2 \<le> length ?fr" using assms k by (simp_all add: chans_ok_def)
      from chan_ProcessFrame_some [OF this(1) assms(4) this(2,3), of "frameipos m - 1"]
      obtain m1 where m1: "chan_ProcessFrame h ?k ?fr (frameipos m - 1) ?m = Some m1" "chans_ok m1" by blast
      have "mux_ProcessFrame h now m = Some (frame_reset (m1\<lparr>frameipos := 0\<rparr>))"
        using r True k m1(1) by (simp add: mux_ProcessFrame_def rd_channel)
      moreover have "receiver_ok (frame_reset (m1\<lparr>frameipos := 0\<rparr>))"
        using assms(1,2) m1(2) chan_ProcessFrame_keeps [OF m1(1)] by (intro receiver_ok_reset) (simp_all add: chans_ok_def)
      ultimately show ?thesis by blast
    qed
  qed
qed

lemma store_chans: "channelcount (store bs m) = channelcount m"
  by (simp add: store_def)

lemma byte_safe:
  assumes ok: "receiver_ok m" and room: "framepos m \<noteq> framesize m" and h: "keeps_wf h"
  shows "(\<exists>m'. mux_byte h now b m = Some m' \<and> receiver_ok m') \<or> stray b m"
proof -
  have base: "0 < framesize m" "length (m_frame m) = framesize m" "framepos m < framesize m" "chans_ok m"
    using ok room by (simp_all add: receiver_ok_def)
  show ?thesis
  proof (cases "framepos m = 0 \<and> b \<noteq> GSM0_SOF \<or> framepos m = 1 \<and> b = GSM0_SOF")
    case True
    then have "mux_byte h now b m = Some m" by (auto simp: mux_byte_def)
    then show ?thesis using ok by blast
  next
    case False
    then have s: "framepos m \<noteq> 0 \<or> b = GSM0_SOF" "framepos m \<noteq> 1 \<or> b \<noteq> GSM0_SOF" by auto
    let ?s = "store [b] m"
    have c: "chans_ok ?s" using base(4) by (simp add: chans_ok_def store_chans)
    have l: "length (m_frame ?s) = framesize m" using base by (simp add: store_length)
    note step = store_step [OF base(3,2) s, of h now]
    have more: "framemorelen m \<Longrightarrow> framepos m = 4" using ok by (auto simp: receiver_ok_def split: if_splits)
    consider "framepos m < 3" | "framepos m = 3" | "framepos m = 4" "framemorelen m" | "framepos m \<ge> 4" "\<not> framemorelen m"
      using more by (cases "framemorelen m") (blast, linarith)
    then show ?thesis
    proof cases
      case 1
      then have z: "framelen m = 0" "\<not> framemorelen m" using ok by (simp_all add: receiver_ok_def)
      then have "mux_byte h now b m = Some ?s" using 1 by (intro store_plain [OF base(3,2) s]) auto
      moreover have "receiver_ok ?s" using 1 z base l c by (simp add: receiver_ok_def)
      ultimately show ?thesis by blast
    next
      case 2
      have f: "framelen (length_field b ?s) \<ge> 6 \<and> framepos (length_field b ?s) = 4 \<and> framelen (length_field b ?s) \<noteq> 4 \<and>
        (framemorelen (length_field b ?s) \<longrightarrow> 7 \<le> framelen (length_field b ?s)) \<and>
        1 \<le> frameipos (length_field b ?s) \<and> frameipos (length_field b ?s) + 2 \<le> framelen (length_field b ?s)"
        using 2 by (simp add: length_field_def Let_def)
      then have "mux_byte h now b m = Some (length_field b ?s)" unfolding step Let_def by simp
      moreover have "receiver_ok (length_field b ?s)"
        using f base l c 2 by (simp add: receiver_ok_def chans_ok_def length_field_def Let_def store_chans)
      ultimately show ?thesis by blast
    next
      case 3
      then have z: "7 \<le> framelen m" "1 \<le> frameipos m" "frameipos m + 2 \<le> framelen m" using ok by (simp_all add: receiver_ok_def)
      have f: "length_field b ?s = ?s\<lparr>framelen := framelen m + push_bit 7 (unat b), framemorelen := False\<rparr>"
        using 3 by (simp add: length_field_def Let_def)
      have "mux_byte h now b m = Some (length_field b ?s)" using 3 z(1) unfolding step Let_def by (simp add: f)
      moreover have "receiver_ok (length_field b ?s)"
        unfolding f using z base l c 3 by (simp add: receiver_ok_def chans_ok_def store_chans)
      ultimately show ?thesis by blast
    next
      case 4
      then have z: "framepos m < framelen m" "6 \<le> framelen m" "1 \<le> frameipos m" "frameipos m + 2 \<le> framelen m"
        using ok by (simp_all add: receiver_ok_def)
      have f: "length_field b ?s = ?s" using 4 by (simp add: length_field_def Let_def)
      show ?thesis
      proof (cases "framepos m + 1 = framelen m")
        case False
        have "mux_byte h now b m = Some ?s" using False unfolding step Let_def f by simp
        moreover have "receiver_ok ?s" using False 4 z base l c by (simp add: receiver_ok_def)
        ultimately show ?thesis by blast
      next
        case end': True
        show ?thesis
        proof (cases "b = GSM0_SOF")
          case True
          have "mux_byte h now b m = mux_ProcessFrame h now ?s" using end' True unfolding step Let_def f by simp
          moreover have "0 < framesize ?s" "length (m_frame ?s) = framesize ?s" "6 \<le> framelen ?s" "framelen ?s \<le> framesize ?s"
            "1 \<le> frameipos ?s" "frameipos ?s + 2 \<le> framelen ?s"
            using base l z end' by simp_all
          ultimately show ?thesis using complete_frame [of ?s h now] c h True end' by (auto simp: stray_def)
        next
          case False
          have "mux_byte h now b m = Some (frame_reset (?s\<lparr>framingerrors := framingerrors ?s + 1\<rparr>))"
            using end' False unfolding step Let_def f by simp
          moreover have "receiver_ok (frame_reset (?s\<lparr>framingerrors := framingerrors ?s + 1\<rparr>))"
            using base l c by (intro receiver_ok_reset) (simp_all add: chans_ok_def)
          ultimately show ?thesis by blast
        qed
      qed
    qed
  qed
qed

definition guarded :: "gsm_mux \<Rightarrow> gsm_mux" where
  "guarded m = (if framepos m = framesize m then overflow m else m)"

lemma guarded_ok: "receiver_ok m \<Longrightarrow> receiver_ok (guarded m) \<and> framepos (guarded m) \<noteq> framesize (guarded m)"
  by (auto simp: guarded_def receiver_ok_def overflow_def frame_reset_def chans_ok_def)

text \<open>C17. Whatever bytes arrive, in whatever state of reception, the multiplexer stays inside its frame buffer and
  its channel buffers and keeps its state consistent, up to the first complete frame with a right
  check byte for a channel that does not exist.\<close>

theorem receiver_safe:
  assumes "receiver_ok m" "keeps_wf h"
  shows "(\<exists>m'. feed h now bs m = Some m' \<and> receiver_ok m') \<or>
    (\<exists>xs b ys m1. bs = xs @ b # ys \<and> feed h now xs m = Some m1 \<and> receiver_ok m1 \<and> stray b (guarded m1))"
  using assms(1)
proof (induction bs arbitrary: m)
  case (Cons b bs)
  note g = guarded_ok [OF Cons.prems]
  show ?case
  proof (cases "stray b (guarded m)")
    case True
    then show ?thesis using Cons.prems by (intro disjI2 exI [of _ "[]"] exI [of _ b] exI [of _ bs] exI [of _ m]) simp
  next
    case False
    then obtain m1 where m1: "mux_byte h now b (guarded m) = Some m1" "receiver_ok m1"
      using byte_safe [of "guarded m" h now b] g assms(2) by blast
    have f: "feed h now (b # ys) m = feed h now ys m1" for ys using m1(1) by (simp add: guarded_def)
    from Cons.IH [OF m1(2)] show ?thesis
    proof
      assume "\<exists>m'. feed h now bs m1 = Some m' \<and> receiver_ok m'"
      then show ?thesis unfolding f by blast
    next
      assume "\<exists>xs b' ys m'. bs = xs @ b' # ys \<and> feed h now xs m1 = Some m' \<and> receiver_ok m' \<and> stray b' (guarded m')"
      then obtain xs b' ys m' where "bs = xs @ b' # ys" "feed h now xs m1 = Some m'" "receiver_ok m'" "stray b' (guarded m')" by blast
      then show ?thesis by (intro disjI2 exI [of _ "b # xs"] exI [of _ b'] exI [of _ ys] exI [of _ m']) (simp add: f del: feed.simps(2))
    qed
  qed
qed simp

theorem receiver_safe_witness:
  "(\<exists>m'. feed (\<lambda>k. EmptyAll) 7 [1, 0xF9, 0xF9, 3] (GsmMux 1 [0, 0, 0, 0, 0, 0, 0]) = Some m' \<and> receiver_ok m') \<or>
    (\<exists>xs b ys m1. [1, 0xF9, 0xF9, 3] = xs @ b # ys \<and> feed (\<lambda>k. EmptyAll) 7 xs (GsmMux 1 [0, 0, 0, 0, 0, 0, 0]) = Some m1 \<and>
      receiver_ok m1 \<and> stray b (guarded m1))"
  by (rule receiver_safe) (simp_all add: receiver_ok_def chans_ok_def GsmMux_def keeps_wf_def EmptyAll_ok)

text \<open>A frame with a right check byte for a channel beyond the last one makes the multiplexer read outside its
  vector of channels.\<close>

theorem unknown_channel_overreads:
  assumes "idle m" "k < 62" "length (channels m) \<le> k" "frame_total (length data) \<le> framesize m" "length data < 32768"
  shows "feed h now (mux_frame (of_nat (4 * k + 1)) ctrl data (check_byte (of_nat (4 * k + 1)) ctrl (length data))) m = None"
proof -
  have e: "(1::nat) < 4" by simp
  note adr = address_byte [OF assms(2) e]
  show ?thesis unfolding frame_received [OF assms(1) adr(1) assms(4,5)] adr(2) using assms(3) by (simp add: rd_def)
qed

theorem unknown_channel_overreads_witness:
  "feed (\<lambda>k. EmptyAll) 7 (mux_frame 21 0xFF [] (check_byte 21 0xFF 0)) (GsmMux 1 [0, 0, 0, 0, 0, 0, 0]) = None"
  using unknown_channel_overreads [of "GsmMux 1 [0, 0, 0, 0, 0, 0, 0]" 5 "[]" "\<lambda>k. EmptyAll" 7 "0xFF"]
  by (simp add: idle_def GsmMux_def frame_total_def)

end
