(* ===== verification/GsmMuxOpening.thy ===== *)
theory GsmMuxOpening
  imports GsmMuxFrames
begin

unbundle bit_operations_syntax

section \<open>The multiplexer: opening the channels\<close>

text \<open>
  After \<open>Startup\<close> the channels open one after the other: the answer of the modem to the request for
  channel \<open>k\<close> sends the request for channel \<open>k + 1\<close>.  \<open>opened_upto n j\<close> describes the state with the first
  \<open>j\<close> channels open.
\<close>

definition opened_upto :: "nat \<Rightarrow> nat \<Rightarrow> gsm_mux \<Rightarrow> bool" where
  "opened_upto n j m \<longleftrightarrow> channelcount m = n \<and> length (channels m) = Suc n \<and>
     (\<forall>k \<le> n. c_state (channels m ! k) = (if k < j then ChanOpen else if k = j then ChanOpening else ChanClosed)) \<and>
     openchannels m = j - 1 \<and> x_state m = (if j = 0 then DlciOpening else DlciOpen)"

definition sabm :: "nat \<Rightarrow> bytes" where
  "sabm k = mux_frame (of_nat (4 * k + 3)) 0x3F [] (check_byte (of_nat (4 * k + 3)) 0x3F 0)"

definition ua :: "nat \<Rightarrow> bytes" where
  "ua k = mux_frame (of_nat (4 * k + 3)) 0x73 [] (check_byte (of_nat (4 * k + 3)) 0x73 0)"

lemma StartChannel_eq:
  assumes "k < length (channels m)"
  shows "StartChannel k m = Some (m\<lparr>sent := sent m @ [sabm k], txframecount := txframecount m + 1,
    channels := (channels m)[k := (channels m ! k)\<lparr>c_state := ChanOpening\<rparr>]\<rparr>)"
proof -
  let ?a = "of_nat (4 * k + 3) :: u8"
  let ?d = "[GSM0_SOF, ?a, GSM_SABM + GSM_PF, GSM_EA + 0, 0, GSM0_SOF]"
  have adr: "of_nat (push_bit 2 k + 1 + GSM_CR) = ?a" by (simp add: push_bit_eq_mult ac_simps)
  have "header ?a 0x3F 0 = [?a, 0x3F, 1]" by (simp add: header_def length_bytes_def)
  then have "txfcs ?d 4 m = Some (m\<lparr>sent := sent m @ [sabm k], txframecount := txframecount m + 1\<rparr>)"
    by (simp add: txfcs_def rdn_def wr_def sabm_def mux_frame_def check_byte_def numeral_eq_Suc)
  then show ?thesis
    unfolding StartChannel_def Let_def adr using assms by (simp add: set_chan_state_def rd_def)
qed

lemma chan_opened_eq:
  assumes "opened_upto n j m" "j \<le> n"
  shows "\<exists>m'. chan_opened j m = Some m' \<and> opened_upto n (Suc j) m' \<and> incoming m' = incoming m \<and>
    sent m' = sent m @ (if j < n then [sabm (Suc j)] else [])"
proof -
  have o: "channelcount m = n" "length (channels m) = Suc n" "openchannels m = j - 1"
    "\<And>k. k \<le> n \<Longrightarrow> c_state (channels m ! k) = (if k < j then ChanOpen else if k = j then ChanOpening else ChanClosed)"
    "x_state m = (if j = 0 then DlciOpening else DlciOpen)"
    using assms(1) by (simp_all add: opened_upto_def)
  let ?c = "(channels m)[j := (channels m ! j)\<lparr>c_state := ChanOpen\<rparr>]"
  let ?m1 = "m\<lparr>channels := ?c\<rparr>"
  let ?m2 = "if j \<noteq> 0 then ?m1\<lparr>openchannels := openchannels ?m1 + 1\<rparr> else ?m1\<lparr>x_state := DlciOpen\<rparr>"
  have s1: "set_chan_state j ChanOpen m = Some ?m1" using o(2) assms(2) by (simp add: set_chan_state_def rd_def)
  have m2: "channels ?m2 = ?c" "channelcount ?m2 = n" "openchannels ?m2 = j" "x_state ?m2 = DlciOpen" "incoming ?m2 = incoming m" "sent ?m2 = sent m"
    using o by auto
  have go: "chan_opened j m = (if j < n then StartChannel (j + 1) ?m2 else Some ?m2)"
    unfolding chan_opened_def s1 Let_def using m2(2) by simp
  show ?thesis
  proof (cases "j < n")
    case True
    then have len: "j + 1 < length (channels ?m2)" using m2(1) o(2) by simp
    let ?m3 = "?m2\<lparr>sent := sent ?m2 @ [sabm (j + 1)], txframecount := txframecount ?m2 + 1,
      channels := (channels ?m2)[j + 1 := (channels ?m2 ! (j + 1))\<lparr>c_state := ChanOpening\<rparr>]\<rparr>"
    have "chan_opened j m = Some ?m3" using go True StartChannel_eq [OF len] by simp
    moreover have "opened_upto n (Suc j) ?m3"
      using o(2,4) m2 assms(2) True unfolding opened_upto_def by (auto simp: nth_list_update)
    ultimately show ?thesis using m2 True by (intro exI [of _ ?m3]) simp
  next
    case False
    then have "j = n" using assms(2) by simp
    moreover have "opened_upto n (Suc j) ?m2"
      using o(2,4) m2 \<open>j = n\<close> unfolding opened_upto_def by (auto simp: nth_list_update)
    ultimately show ?thesis using go m2 by (intro exI [of _ ?m2]) simp
  qed
qed

lemma opening_cong:
  assumes "opened_upto n j m" "channelcount m' = channelcount m" "length (channels m') = length (channels m)"
    "\<And>k. k < length (channels m) \<Longrightarrow> c_state (channels m' ! k) = c_state (channels m ! k)"
    "openchannels m' = openchannels m" "x_state m' = x_state m"
  shows "opened_upto n j m'"
  using assms by (simp add: opened_upto_def)

lemma chan_data_opening:
  assumes "opened_upto n j m" "chan_data h k fr ip m = Some m'"
  shows "opened_upto n j m'"
proof (rule opening_cong [OF assms(1)])
  show "c_state (channels m' ! i) = c_state (channels m ! i)" if "i < length (channels m)" for i
    using assms(2) that by (auto simp: chan_data_def rd_def nth_list_update split: Option.bind_splits if_splits)
qed (use assms(2) in \<open>auto simp: chan_data_def split: Option.bind_splits if_splits\<close>)

lemma chan_ProcessFrame_opening:
  assumes "opened_upto n j m" "j \<le> Suc n" "chan_ProcessFrame h k fr ip m = Some m'"
  shows "opened_upto n j m' \<or> j \<le> n \<and> opened_upto n (Suc j) m'"
proof -
  obtain c where c: "rd (channels m) k = Some c" using assms(3) by (auto simp: chan_ProcessFrame_def split: Option.bind_splits)
  then have k: "k < length (channels m)" "channels m ! k = c" by (simp_all add: rd_eq_Some_iff)
  then have kn: "k \<le> n" using assms(1) by (simp add: opened_upto_def)
  have st: "c_state c = (if k < j then ChanOpen else if k = j then ChanOpening else ChanClosed)"
    using assms(1) kn k(2) by (auto simp: opened_upto_def)
  show ?thesis
  proof (cases "c_state c")
    case ChanOpening
    then have kj: "k = j" using st by (auto split: if_splits)
    obtain ctrl m1 where m1: "(if ctrl = GSM_UA + GSM_PF then chan_opened k m else Some m) = Some m1" "chan_data h k fr ip m1 = Some m'"
      using assms(3) c ChanOpening by (auto simp: chan_ProcessFrame_def split: Option.bind_splits)
    have "opened_upto n j m1 \<or> opened_upto n (Suc j) m1"
      using m1(1) chan_opened_eq [OF assms(1)] kn kj assms(1) by (auto split: if_splits)
    then show ?thesis using chan_data_opening [OF _ m1(2)] kn kj by blast
  qed (use assms c chan_data_opening [OF assms(1)] in \<open>auto simp: chan_ProcessFrame_def\<close>)
qed

lemma reset_opening: "opened_upto n j (frame_reset m) = opened_upto n j m"
  by (simp add: opened_upto_def)

lemma mux_ProcessFrame_opening:
  assumes "opened_upto n j m" "j \<le> Suc n" "mux_ProcessFrame h now m = Some m'"
  shows "opened_upto n j m' \<or> j \<le> n \<and> opened_upto n (Suc j) m'"
proof -
  have c: "opened_upto n j (m\<lparr>lastgoodrxframe := a, rxframecount := b\<rparr>)" "opened_upto n j (m\<lparr>frameipos := c, framingerrors := d\<rparr>)" for a b c d
    using assms(1) by (simp_all add: opened_upto_def)
  have f: "opened_upto n i (m1\<lparr>frameipos := e\<rparr>) = opened_upto n i m1" for i m1 e by (simp add: opened_upto_def)
  show ?thesis
    using assms(3) c(2)
    by (auto simp: mux_ProcessFrame_def Let_def reset_opening f split: Option.bind_splits if_splits
        dest!: chan_ProcessFrame_opening [OF c(1) assms(2)])
qed

lemma mux_byte_opening:
  assumes "opened_upto n j m" "j \<le> Suc n" "mux_byte h now b m = Some m'"
  shows "opened_upto n j m' \<or> j \<le> n \<and> opened_upto n (Suc j) m'"
proof (cases "framepos m = 0 \<and> b \<noteq> GSM0_SOF \<or> framepos m = 1 \<and> b = GSM0_SOF")
  case True
  then show ?thesis using assms by (auto simp: mux_byte_def)
next
  case False
  then have n: "\<not> (framepos m = 0 \<and> b \<noteq> GSM0_SOF)" "\<not> (framepos m = 1 \<and> b = GSM0_SOF)" by auto
  obtain mem where mem: "wr (m_frame m) (framepos m) b = Some mem"
    using assms(3) unfolding mux_byte_def if_not_P [OF n(1)] if_not_P [OF n(2)] by (auto split: Option.bind_splits)
  define m1 where "m1 = length_field b (m\<lparr>m_frame := mem, framepos := framepos m + 1\<rparr>)"
  have m1: "(if framepos m1 = framelen m1 then if b = GSM0_SOF then mux_ProcessFrame h now m1
      else Some (frame_reset (m1\<lparr>framingerrors := framingerrors m1 + 1\<rparr>)) else Some m1) = Some m'"
    using assms(3) unfolding mux_byte_def if_not_P [OF n(1)] if_not_P [OF n(2)] mem Option.bind.bind_lunit Let_def m1_def .
  have o: "opened_upto n j m1" using assms(1) unfolding m1_def by (simp add: opened_upto_def length_field_def Let_def)
  then have "opened_upto n j (frame_reset (m1\<lparr>framingerrors := framingerrors m1 + 1\<rparr>))" by (simp add: opened_upto_def)
  then show ?thesis using m1 o mux_ProcessFrame_opening [OF o assms(2)] by (auto split: if_splits)
qed

lemma guarded_opening: "opened_upto n j m \<Longrightarrow> opened_upto n j (guarded m)"
  by (simp add: guarded_def overflow_def opened_upto_def)

lemma feed_opening:
  assumes "opened_upto n j m" "j \<le> Suc n" "feed h now bs m = Some m'"
  shows "\<exists>j'. j \<le> j' \<and> j' \<le> Suc n \<and> opened_upto n j' m'"
  using assms
proof (induction bs arbitrary: j m)
  case (Cons b bs)
  obtain m1 where m1: "mux_byte h now b (guarded m) = Some m1" "feed h now bs m1 = Some m'"
    using Cons.prems(3) by (auto simp: guarded_def split: Option.bind_splits)
  then have "opened_upto n j m1 \<or> j \<le> n \<and> opened_upto n (Suc j) m1"
    using mux_byte_opening [OF guarded_opening [OF Cons.prems(1)] Cons.prems(2)] by blast
  then show ?case
  proof
    assume "opened_upto n j m1"
    then show ?thesis using Cons.IH [of j m1] Cons.prems(2) m1(2) by blast
  next
    assume "j \<le> n \<and> opened_upto n (Suc j) m1"
    then show ?thesis using Cons.IH [of "Suc j" m1] m1(2) Suc_leD by blast
  qed
qed auto

text \<open>Whatever the modem sends, the channels open one after the other and never close: from a state with the first
  \<open>j\<close> of the channels open and the next one waiting, the receiver reaches such a state with at
  least as many open, and the multiplexer counts as up exactly when every channel is open.\<close>

theorem channels_open_in_order:
  assumes "opened_upto n j m" "j \<le> Suc n" "0 < n" "feed h now bs m = Some m'"
  shows "\<exists>j'. j \<le> j' \<and> j' \<le> Suc n \<and> opened_upto n j' m' \<and> (IsMuxUp m' \<longleftrightarrow> (\<forall>k \<le> n. IsChannelOpen k m' = Some True))"
proof -
  obtain j' where j': "j \<le> j'" "j' \<le> Suc n" "opened_upto n j' m'" using feed_opening [OF assms(1,2,4)] by blast
  have "IsChannelOpen k m' = Some True \<longleftrightarrow> k < j'" if "k \<le> n" for k
    using that j'(3) by (auto simp: IsChannelOpen_def opened_upto_def rd_def)
  moreover have "IsMuxUp m' \<longleftrightarrow> j' = Suc n" using j'(2,3) assms(3) by (auto simp: IsMuxUp_def opened_upto_def)
  ultimately have "IsMuxUp m' \<longleftrightarrow> (\<forall>k \<le> n. IsChannelOpen k m' = Some True)"
    using j'(2) by (auto simp: le_Suc_eq)
  then show ?thesis using j' by blast
qed

lemma ua_opens:
  assumes "opened_upto n j m" "j \<le> n" "idle m" "j < 62" "6 \<le> framesize m"
  shows "\<exists>m'. feed h now (ua j) m = Some m' \<and> opened_upto n (Suc j) m' \<and> idle m' \<and> framesize m' = framesize m \<and>
    sent m' = sent m @ (if j < n then [sabm (Suc j)] else [])"
proof -
  let ?a = "of_nat (4 * j + 3) :: u8"
  let ?H = "header ?a 0x73 0" and ?fr = "mux_frame ?a 0x73 [] (check_byte ?a 0x73 0)"
  have e: "(3::nat) < 4" by simp
  note adr = address_byte [OF assms(4) e]
  have sz: "frame_total (length ([] :: bytes)) \<le> framesize m" "length ([] :: bytes) < 32768" using assms(5) by (simp_all add: frame_total_def)
  let ?M = "(holds_frame m ?fr (Suc (length ?H)))\<lparr>lastgoodrxframe := now, rxframecount := rxframecount (holds_frame m ?fr (Suc (length ?H))) + 1\<rparr>"
  have oM: "opened_upto n j ?M" using assms(1) by (simp add: opened_upto_def)
  obtain m1 where m1: "chan_opened j ?M = Some m1" "opened_upto n (Suc j) m1" "sent m1 = sent m @ (if j < n then [sabm (Suc j)] else [])"
    using chan_opened_eq [OF oM assms(2)] by auto
  have c: "rd (channels m) j = Some (channels m ! j)" "c_state (channels m ! j) = ChanOpening"
    using assms(1,2) by (auto simp: opened_upto_def rd_def)
  have ctrl: "rd (?H @ []) 1 = Some 0x73" by (simp add: rd_def header_def)
  have "chan_data h j (?H @ []) (length ?H) m1 = Some m1" using ctrl by (simp add: chan_data_def)
  then have "chan_ProcessFrame h j (?H @ []) (length ?H) ?M = Some m1"
    using c ctrl m1(1) by (simp add: chan_ProcessFrame_def)
  then have "feed h now ?fr m = Some (frame_reset (m1\<lparr>frameipos := 0\<rparr>))"
    unfolding frame_received [OF assms(3) adr(1) sz] adr(2) c(1) by simp
  moreover have k: "framesize m1 = framesize m" "m_frame m1 = m_frame ?M" using chan_opened_keeps [OF m1(1)] by simp_all
  have "opened_upto n (Suc j) (frame_reset (m1\<lparr>frameipos := 0\<rparr>))" using m1(2) by (simp add: opened_upto_def)
  moreover have "idle (frame_reset (m1\<lparr>frameipos := 0\<rparr>))"
    using assms(3,5) k by (intro idle_frame_reset) (simp add: idle_def frame_length frame_total_def)
  ultimately show ?thesis using m1(3) k(1) by (simp add: ua_def)
qed

lemma Startup_opening:
  assumes "6 \<le> length fmem"
  shows "\<exists>m0. Startup mem0 mem (GsmMux n fmem) = Some m0 \<and> opened_upto n 0 m0 \<and> idle m0 \<and> framesize m0 = length fmem \<and> sent m0 = [sabm 0]"
proof -
  let ?ch = "new_channel mem0 # map (\<lambda>k. new_channel (mem k)) [1..<n + 1]"
  let ?m1 = "(GsmMux n fmem)\<lparr>framingerrors := 0, lastgoodrxframe := 0, rxframecount := 0, txframecount := 0, channels := ?ch\<rparr>"
  let ?m0 = "?m1\<lparr>sent := [sabm 0], txframecount := 1, channels := ?ch[0 := (?ch ! 0)\<lparr>c_state := ChanOpening\<rparr>], x_state := DlciOpening\<rparr>"
  have "0 < length (channels ?m1)" by simp
  from StartChannel_eq [OF this] have "Startup mem0 mem (GsmMux n fmem) = Some ?m0"
    by (simp add: Startup_def GsmMux_def)
  moreover have "c_state (channels ?m0 ! k) = (if k < 0 then ChanOpen else if k = 0 then ChanOpening else ChanClosed)" if "k \<le> n" for k
    using that by (cases k) (auto simp: new_channel_def nth_append simp del: upt_Suc)
  then have "opened_upto n 0 ?m0" by (simp add: opened_upto_def GsmMux_def)
  moreover have "idle ?m0" by (simp add: idle_def GsmMux_def)
  ultimately show ?thesis by (intro exI [of _ ?m0]) (simp add: GsmMux_def)
qed

theorem channels_open_in_order_witness:
  "\<exists>m0 m1. Startup [0, 0] (\<lambda>k. [0, 0]) (GsmMux 2 [0, 0, 0, 0, 0, 0]) = Some m0 \<and> feed (\<lambda>k. EmptyAll) 7 (ua 0) m0 = Some m1 \<and>
    (\<exists>j'. 0 \<le> j' \<and> j' \<le> Suc 2 \<and> opened_upto 2 j' m1 \<and> (IsMuxUp m1 \<longleftrightarrow> (\<forall>k \<le> 2. IsChannelOpen k m1 = Some True)))"
proof -
  obtain m0 where m0: "Startup [0, 0] (\<lambda>k. [0, 0]) (GsmMux 2 [0, 0, 0, 0, 0, 0]) = Some m0" "opened_upto 2 0 m0" "idle m0" "framesize m0 = 6"
    using Startup_opening [of "[0, 0, 0, 0, 0, 0]" "[0, 0]" "\<lambda>k. [0, 0]" 2] by auto
  obtain m1 where m1: "feed (\<lambda>k. EmptyAll) 7 (ua 0) m0 = Some m1"
    using ua_opens [OF m0(2) _ m0(3), of "\<lambda>k. EmptyAll" 7] m0(4) by auto
  from channels_open_in_order [OF m0(2) _ _ m1] m0(1) m1 show ?thesis by auto
qed

text \<open>C18. The multiplexer comes up: started with up to 61 data channels, and answered by the modem for one channel after
  the other, it requests every channel once, in order, and all of them are open afterwards.\<close>

theorem mux_comes_up:
  assumes "n < 62" "6 \<le> length fmem"
  shows "\<exists>m0 m'. Startup mem0 mem (GsmMux n fmem) = Some m0 \<and> feed h now (concat (map ua [0..<Suc n])) m0 = Some m' \<and>
    sent m' = map sabm [0..<Suc n] \<and> IsMuxUp m' \<and> x_state m' = DlciOpen \<and> (\<forall>k \<le> n. IsChannelOpen k m' = Some True)"
proof -
  obtain m0 where m0: "Startup mem0 mem (GsmMux n fmem) = Some m0" "opened_upto n 0 m0" "idle m0" "framesize m0 = length fmem" "sent m0 = [sabm 0]"
    using Startup_opening [OF assms(2)] by blast
  have "\<exists>m'. feed h now (concat (map ua [0..<j])) m0 = Some m' \<and> opened_upto n j m' \<and> idle m' \<and> framesize m' = length fmem \<and>
    sent m' = map sabm [0..<min (Suc j) (Suc n)]" if "j \<le> Suc n" for j
    using that
  proof (induction j)
    case 0
    then show ?case using m0 by simp
  next
    case (Suc j)
    then obtain m1 where m1: "feed h now (concat (map ua [0..<j])) m0 = Some m1" "opened_upto n j m1" "idle m1" "framesize m1 = length fmem"
      "sent m1 = map sabm [0..<Suc j]" by auto
    have j: "j \<le> n" "j < 62" "6 \<le> framesize m1" using Suc.prems assms m1(4) by simp_all
    obtain m2 where "feed h now (ua j) m1 = Some m2" "opened_upto n (Suc j) m2" "idle m2" "framesize m2 = framesize m1"
      "sent m2 = sent m1 @ (if j < n then [sabm (Suc j)] else [])"
      using ua_opens [OF m1(2) j(1) m1(3) j(2,3)] by blast
    then show ?case using m1 j(1) by (cases "j = n") (auto simp: feed_append)
  qed
  from this [of "Suc n"] obtain m' where m': "feed h now (concat (map ua [0..<Suc n])) m0 = Some m'" "opened_upto n (Suc n) m'"
    "sent m' = map sabm [0..<Suc n]" by auto
  have "IsMuxUp m'" "x_state m' = DlciOpen" "\<forall>k \<le> n. IsChannelOpen k m' = Some True"
    using m'(2) by (auto simp: IsMuxUp_def IsChannelOpen_def opened_upto_def rd_def)
  then show ?thesis using m0(1) m' by blast
qed

theorem mux_comes_up_witness:
  "\<exists>m0 m'. Startup [0, 0] (\<lambda>k. [0, 0]) (GsmMux 2 [0, 0, 0, 0, 0, 0]) = Some m0 \<and>
    feed (\<lambda>k. EmptyAll) 7 (concat (map ua [0..<Suc 2])) m0 = Some m' \<and>
    sent m' = map sabm [0..<Suc 2] \<and> IsMuxUp m' \<and> x_state m' = DlciOpen \<and> (\<forall>k \<le> 2. IsChannelOpen k m' = Some True)"
  by (rule mux_comes_up) simp_all

end
