(* ===== verification/Base64.thy ===== *)
theory Base64
  imports Prelude
begin

unbundle bit_operations_syntax

section \<open>Base64\<close>

text \<open>
  \<open>components/crypto/crypt_base64.cpp\<close>: the two tables, the coding of a block, and both variants of encoder
  and decoder.  The variants for \<open>char*\<close> read a C string (\<open>None\<close> if it has no end) and write into a buffer;
  those for \<open>std::string\<close> read to the end of the string.  The argument \<open>str\<close> tells the two
  decoders apart.  The local arrays \<open>in\<close> keep their contents from block to block; what they hold at
  the beginning is an argument.
\<close>

definition cb64 :: bytes where
  "cb64 = map of_char ''ABCDEFGHIJKLMNOPQRSTUVWXYZabcdefghijklmnopqrstuvwxyz0123456789+/''"

definition cd64 :: bytes where
  "cd64 = map of_char (''|$$$}rstuvwxyz{$$$$$$$>?@ABCDEFGHIJKLMNOPQRSTUVW$$$$$$XYZ['' @ [CHR 0x5C] @ '']^_`abcdefghijklmnopq'')"

definition encodeblock :: "bytes \<Rightarrow> nat \<Rightarrow> bytes" where
  "encodeblock b len =
     [cb64 ! unat (drop_bit 2 (b ! 0)),
      cb64 ! unat (push_bit 4 (b ! 0 AND 0x03) OR drop_bit 4 (b ! 1 AND 0xf0)),
      (if len > 1 then cb64 ! unat (push_bit 2 (b ! 1 AND 0x0f) OR drop_bit 6 (b ! 2 AND 0xc0)) else 61),
      (if len > 2 then cb64 ! unat (b ! 2 AND 0x3f) else 61)]"

text \<open>The loop over the input: \<open>b\<close> is the array \<open>in\<close>, of which \<open>len\<close> bytes are filled.\<close>

fun encode_loop :: "bytes \<Rightarrow> nat \<Rightarrow> bytes \<Rightarrow> bytes" where
  "encode_loop b len [] =
     (if len > 0 then encodeblock (take len b @ replicate (3 - len) 0 @ drop 3 b) len else [])"
| "encode_loop b len (c # cs) =
     (let b' = b[len := c] in
      if len + 1 = 3 then encodeblock b' 3 @ encode_loop b' 0 cs else encode_loop b' (len + 1) cs)"

definition base64encode :: "bytes \<Rightarrow> bytes \<Rightarrow> bytes" where
  "base64encode b d = encode_loop b 0 d"

text \<open>The variant that writes a C string to a buffer and returns where it ends.\<close>

definition base64encode_at :: "bytes \<Rightarrow> bytes \<Rightarrow> nat \<Rightarrow> bytes \<Rightarrow> (bytes \<times> nat) option" where
  "base64encode_at b buf off d = do {
     let t = base64encode b d;
     buf' \<leftarrow> memcpy_at buf off (t @ [0]);
     Some (buf', off + length t) }"

definition decodeblock :: "bytes \<Rightarrow> bytes" where
  "decodeblock b =
     [push_bit 2 (b ! 0) OR drop_bit 4 (b ! 1), push_bit 4 (b ! 1) OR drop_bit 2 (b ! 2),
      (push_bit 6 (b ! 2) AND 0xc0) OR b ! 3]"

definition code_value :: "u8 \<Rightarrow> u8 option" where
  "code_value c =
     (if c < 43 \<or> c > 122 then Some 0
      else do { v \<leftarrow> rd cd64 (unat c - 43); Some (if v \<noteq> 0 then if v = 36 then 0 else v - 61 else v) })"

text \<open>The inner loop: the next character with a value, \<open>c\<close> and its value, or \<open>c = 0\<close>.\<close>

fun next_code :: "bool \<Rightarrow> bytes \<Rightarrow> (u8 \<times> u8 \<times> bytes) option" where
  "next_code str [] = (if str then Some (0, 0, []) else None)"
| "next_code str (c # cs) =
     (if c = 0 then Some (0, 0, if str then cs else c # cs)
      else do { v \<leftarrow> code_value c; if v = 0 then next_code str cs else Some (c, v, cs) })"

text \<open>Up to \<open>n\<close> more characters of a block, from position \<open>i\<close> on.\<close>

primrec read_block :: "nat \<Rightarrow> bool \<Rightarrow> nat \<Rightarrow> nat \<Rightarrow> u8 \<Rightarrow> bytes \<Rightarrow> bytes \<Rightarrow> (nat \<times> u8 \<times> bytes \<times> bytes) option" where
  "read_block 0 str i len c b p = Some (len, c, b, p)"
| "read_block (Suc n) str i len c b p =
     (if c = 0 then Some (len, c, b, p)
      else case next_code str p of
        None \<Rightarrow> None
      | Some (c', v, p') \<Rightarrow>
          if c' \<noteq> 0 then read_block n str (i + 1) (len + 1) c' (if v \<noteq> 0 then b[i := v - 1] else b) p'
          else read_block n str (i + 1) len c' (b[i := 0]) p')"

lemma next_code_shorter: "next_code str p = Some (c, v, p') \<Longrightarrow> c \<noteq> 0 \<Longrightarrow> length p' < length p"
proof (induction str p rule: next_code.induct)
  case (2 str c cs)
  then show ?case by (auto split: if_splits Option.bind_splits)
qed (simp split: if_splits)

lemma read_block_shorter:
  "read_block n str i len c b p = Some (len', c', b', p') \<Longrightarrow> c' \<noteq> 0 \<Longrightarrow> 0 < n \<Longrightarrow> length p' < length p"
proof (induction n arbitrary: i len c b p)
  case (Suc n)
  from Suc.prems(1,2) have "c \<noteq> 0" by (auto split: if_splits)
  then obtain d v q where q: "next_code str p = Some (d, v, q)"
    using Suc.prems(1) by (auto split: option.splits)
  show ?case
  proof (cases "d = 0")
    case True
    then show ?thesis using Suc.prems \<open>c \<noteq> 0\<close> q by (cases n) auto
  next
    case False
    then have "length q < length p" by (rule next_code_shorter [OF q])
    moreover from False have r: "read_block n str (i + 1) (len + 1) d (if v \<noteq> 0 then b[i := v - 1] else b) q = Some (len', c', b', p')"
      using Suc.prems(1) \<open>c \<noteq> 0\<close> q by simp
    ultimately show ?thesis using Suc.IH [OF r Suc.prems(2)] r by (cases "n = 0") simp_all
  qed
qed simp

function decode_loop :: "bool \<Rightarrow> u8 \<Rightarrow> bytes \<Rightarrow> bytes \<Rightarrow> bytes \<Rightarrow> bytes option" where
  "decode_loop str c b p out =
     (if c = 0 then Some out
      else case read_block 4 str 0 0 c b p of
        None \<Rightarrow> None
      | Some (len, c', b', p') \<Rightarrow>
          decode_loop str c' b' p' (if len > 0 then out @ take (len - 1) (decodeblock b') else out))"
  by pat_completeness auto
termination
proof (relation "measure (\<lambda>(str, c, b, p, out). if c = 0 then 0 else Suc (length p))", goal_cases)
  case (2 str c b p out r len x c' y b' p')
  then show ?case using read_block_shorter [of 4 str 0 0 c b p] by auto
qed simp

declare decode_loop.simps [simp del]

definition base64decode :: "bool \<Rightarrow> bytes \<Rightarrow> bytes \<Rightarrow> bytes option" where
  "base64decode str b p = decode_loop str 1 b p []"

text \<open>The variant that writes to a buffer and returns the number of bytes.\<close>

definition base64decode_at :: "bytes \<Rightarrow> bytes \<Rightarrow> bytes \<Rightarrow> nat \<Rightarrow> (bytes \<times> nat) option" where
  "base64decode_at b p buf off = do {
     d \<leftarrow> base64decode False b p;
     buf' \<leftarrow> memcpy_at buf off (d @ [0]);
     Some (buf', length d) }"

subsection \<open>The decoder reads the codes\<close>

text \<open>The values of the characters that have one, up to the end of the string.\<close>

fun codes :: "bytes \<Rightarrow> bytes" where
  "codes [] = []"
| "codes (c # cs) =
     (if c = 0 then [] else case code_value c of Some v \<Rightarrow> if v = 0 then codes cs else (v - 1) # codes cs | None \<Rightarrow> [])"

function decode_codes :: "bytes \<Rightarrow> bytes" where
  "decode_codes vs =
     (if vs = [] then []
      else take (min 4 (length vs) - 1) (decodeblock (take 4 vs @ replicate 4 0)) @ decode_codes (drop 4 vs))"
  by pat_completeness auto
termination by (relation "measure length") (auto simp flip: length_greater_0_conv)

declare decode_codes.simps [simp del]

lemma decode_codes_Nil [simp]: "decode_codes [] = []"
  by (subst decode_codes.simps) simp

lemma cd64_length: "length cd64 = 80"
  by (simp add: cd64_def)

lemma code_value_total: "\<exists>v. code_value c = Some v"
proof -
  have "unat c - 43 < length cd64" if "\<not> c > 122"
  proof -
    have "unat c \<le> 122" using that by (simp add: not_less word_le_nat_alt)
    then show ?thesis by (simp add: cd64_length)
  qed
  then show ?thesis by (simp add: code_value_def rd_def)
qed

definition terminated :: "bool \<Rightarrow> bytes \<Rightarrow> bool" where
  "terminated str p \<longleftrightarrow> str \<or> 0 \<in> set p"

lemma next_code_codes:
  assumes "terminated str p"
  shows "\<exists>c v p'. next_code str p = Some (c, v, p') \<and>
    (if codes p = [] then c = 0 else c \<noteq> 0 \<and> v \<noteq> 0 \<and> codes p = (v - 1) # codes p' \<and> terminated str p')"
  using assms
proof (induction p)
  case Nil
  then show ?case by (simp add: terminated_def)
next
  case (Cons c cs)
  obtain v where v: "code_value c = Some v" using code_value_total by blast
  consider "c = 0" | (skip) "c \<noteq> 0" "v = 0" | "c \<noteq> 0" "v \<noteq> 0" by blast
  then show ?case
  proof cases
    case skip
    then have eqs: "next_code str (c # cs) = next_code str cs" "codes (c # cs) = codes cs" and t: "terminated str cs"
      using v Cons.prems by (auto simp: terminated_def)
    show ?thesis unfolding eqs by (rule Cons.IH [OF t])
  qed (use v Cons.prems in \<open>auto simp: terminated_def\<close>)
qed

lemma read_block_codes:
  assumes "terminated str p" "length b = 4" "i + n = 4" "c \<noteq> 0"
  shows "\<exists>c' b' p'. read_block n str i len c b p = Some (len + min n (length (codes p)), c', b', p') \<and> length b' = 4 \<and>
    take (i + min n (length (codes p))) b' = take i b @ take n (codes p) \<and> (c' = 0 \<longleftrightarrow> length (codes p) < n) \<and>
    (c' \<noteq> 0 \<longrightarrow> codes p' = drop n (codes p) \<and> terminated str p')"
  using assms
proof (induction n arbitrary: i len c b p)
  case 0
  then show ?case by simp
next
  case (Suc n)
  obtain d v q where q: "next_code str p = Some (d, v, q)"
    "if codes p = [] then d = 0 else d \<noteq> 0 \<and> v \<noteq> 0 \<and> codes p = (v - 1) # codes q \<and> terminated str q"
    using next_code_codes [OF Suc.prems(1)] by blast
  show ?case
  proof (cases "codes p = []")
    case True
    then have "read_block (Suc n) str i len c b p = Some (len, 0, b[i := 0], q)"
      using q Suc.prems(4) by (cases n) simp_all
    then show ?thesis using True Suc.prems(2) by simp
  next
    case False
    let ?b = "b[i := v - 1]"
    have i: "i < length b" using Suc.prems(2,3) by simp
    have tk: "take (Suc i) ?b = take i b @ [v - 1]" using i by (simp add: take_Suc_conv_app_nth)
    have f: "d \<noteq> 0" "v \<noteq> 0" "codes p = (v - 1) # codes q" "terminated str q" using False q(2) by simp_all
    have "length ?b = 4" "Suc i + n = 4" using Suc.prems(2,3) by simp_all
    from Suc.IH [OF f(4) this f(1), of "Suc len"]
    obtain c' b' p' where r: "read_block n str (Suc i) (Suc len) d ?b q = Some (Suc len + min n (length (codes q)), c', b', p')"
      "length b' = 4" "take (Suc i + min n (length (codes q))) b' = take (Suc i) ?b @ take n (codes q)"
      "c' = 0 \<longleftrightarrow> length (codes q) < n" "c' \<noteq> 0 \<longrightarrow> codes p' = drop n (codes q) \<and> terminated str p'"
      by blast
    have "read_block (Suc n) str i len c b p = Some (len + min (Suc n) (length (codes p)), c', b', p')"
      using q(1) f r(1) Suc.prems(4) by simp
    then show ?thesis using r(2-5) f(3) tk by (intro exI [of _ c'] exI [of _ b'] exI [of _ p']) simp
  qed
qed

lemma decodeblock_prefix:
  assumes "take n b = take n b'" "n \<le> 4" "4 \<le> length b" "4 \<le> length b'"
  shows "take (n - 1) (decodeblock b) = take (n - 1) (decodeblock b')"
proof -
  have nth: "b ! j = b' ! j" if "j < n" for j using that assms(1) by (metis nth_take)
  consider "n \<le> 1" | "n = 2" | "n = 3" | "n = 4" using assms(2) by linarith
  then show ?thesis by cases (use nth in \<open>simp_all add: decodeblock_def numeral_2_eq_2\<close>)
qed

lemma decode_loop_codes:
  assumes "terminated str p" "length b = 4" "c \<noteq> 0"
  shows "decode_loop str c b p out = Some (out @ decode_codes (codes p))"
  using assms
proof (induction "length (codes p)" arbitrary: p c b out rule: less_induct)
  case less
  let ?vs = "codes p" and ?k = "min 4 (length (codes p))"
  obtain c' b' p' where r: "read_block 4 str 0 0 c b p = Some (?k, c', b', p')" "length b' = 4"
    "take ?k b' = take ?k ?vs" "c' = 0 \<longleftrightarrow> length ?vs < 4" "c' \<noteq> 0 \<longrightarrow> codes p' = drop 4 ?vs \<and> terminated str p'"
    using read_block_codes [OF less.prems(1,2) _ less.prems(3), of 0 4 0] by auto
  let ?out = "if ?k > 0 then out @ take (?k - 1) (decodeblock b') else out"
  have step: "decode_loop str c b p out = decode_loop str c' b' p' ?out"
    using r(1) less.prems(3) by (subst decode_loop.simps) simp
  have "take (?k - 1) (decodeblock b') = take (?k - 1) (decodeblock (take 4 ?vs @ replicate 4 0))"
    using r(2,3) by (intro decodeblock_prefix) simp_all
  then have out: "?out @ decode_codes (drop 4 ?vs) = out @ decode_codes ?vs"
    by (subst (2) decode_codes.simps) simp
  show ?case
  proof (cases "c' = 0")
    case True
    then have "drop 4 ?vs = []" using r(4) by simp
    then show ?thesis using out True unfolding step by (subst decode_loop.simps) simp
  next
    case False
    then have p': "codes p' = drop 4 ?vs" "terminated str p'" "4 \<le> length ?vs" using r(4,5) by auto
    then have "length (codes p') < length ?vs" by simp
    from less.hyps [OF this p'(2) r(2) False, of ?out] show ?thesis using step p'(1) out by simp
  qed
qed

subsection \<open>The encoder writes the codes\<close>

fun sextets :: "bytes \<Rightarrow> bytes" where
  "sextets (a # b # c # ds) =
     [drop_bit 2 a, push_bit 4 (a AND 0x03) OR drop_bit 4 (b AND 0xf0),
      push_bit 2 (b AND 0x0f) OR drop_bit 6 (c AND 0xc0), c AND 0x3f] @ sextets ds"
| "sextets [a, b] = [drop_bit 2 a, push_bit 4 (a AND 0x03) OR drop_bit 4 (b AND 0xf0), push_bit 2 (b AND 0x0f)]"
| "sextets [a] = [drop_bit 2 a, push_bit 4 (a AND 0x03)]"
| "sextets [] = []"

lemma sextet_bits:
  "push_bit 2 (drop_bit 2 a) OR drop_bit 4 (push_bit 4 (a AND 0x03) OR drop_bit 4 (b AND 0xf0)) = (a :: u8)"
  "push_bit 4 (push_bit 4 (a AND 0x03) OR drop_bit 4 (b AND 0xf0)) OR
     drop_bit 2 (push_bit 2 (b AND 0x0f) OR drop_bit 6 (c AND 0xc0)) = (b :: u8)"
  "(push_bit 6 (push_bit 2 (b AND 0x0f) OR drop_bit 6 (c AND 0xc0)) AND 0xc0) OR (c AND 0x3f) = (c :: u8)"
  "push_bit 2 (drop_bit 2 a) OR drop_bit 4 (push_bit 4 (a AND 0x03)) = (a :: u8)"
  "push_bit 4 (push_bit 4 (a AND 0x03) OR drop_bit 4 (b AND 0xf0)) OR drop_bit 2 (push_bit 2 (b AND 0x0f)) = (b :: u8)"
  by (simp_all add: u8_eq_iff all_less_8 bit_simps) (simp_all add: numeral_2_eq_2 numeral_3_eq_3)

lemma decodeblock_Cons:
  "decodeblock (x # y # z # w # r) =
     [push_bit 2 x OR drop_bit 4 y, push_bit 4 y OR drop_bit 2 z, (push_bit 6 z AND 0xc0) OR w]"
  by (simp add: decodeblock_def)

lemma take_drop_4: "take 4 (x # y # z # w # r) = [x, y, z, w]" "drop 4 (x # y # z # w # r) = r"
  by simp_all

lemma replicate_2: "replicate 2 x = [x, x]"
  by (simp add: numeral_eq_Suc)

lemma replicate_4: "replicate 4 x = [x, x, x, x]"
  by (simp add: numeral_eq_Suc)

lemma decode_codes_4: "decode_codes (x # y # z # w # r) = decodeblock [x, y, z, w] @ decode_codes r"
  by (subst decode_codes.simps) (simp add: decodeblock_Cons replicate_4)

lemma decode_codes_3: "decode_codes [x, y, z] = [push_bit 2 x OR drop_bit 4 y, push_bit 4 y OR drop_bit 2 z]"
  by (subst decode_codes.simps) (simp add: decodeblock_Cons replicate_4)

lemma decode_codes_2: "decode_codes [x, y] = [push_bit 2 x OR drop_bit 4 y]"
  by (subst decode_codes.simps) (simp add: decodeblock_Cons replicate_4)

lemma decode_sextets: "decode_codes (sextets d) = d"
proof (induction d rule: sextets.induct)
  case (1 a b c ds)
  show ?case
    unfolding sextets.simps append_Cons append_Nil decode_codes_4 decodeblock_Cons sextet_bits 1 by (rule refl)
next
  case (2 a b)
  show ?case unfolding sextets.simps decode_codes_3 sextet_bits by (rule refl)
next
  case (3 a)
  show ?case unfolding sextets.simps decode_codes_2 sextet_bits by (rule refl)
qed simp

text \<open>The text of RFC 4648: the characters of the sextets, padded with \<open>=\<close> to blocks of four.\<close>

definition base64_text :: "bytes \<Rightarrow> bytes" where
  "base64_text d = map (\<lambda>v. cb64 ! unat v) (sextets d) @ replicate ((3 - length d mod 3) mod 3) 61"

lemma u8_less_64: "\<not> bit (v :: u8) 6 \<Longrightarrow> \<not> bit v 7 \<Longrightarrow> v < 64"
proof -
  assume "\<not> bit v 6" "\<not> bit v 7"
  then have "take_bit 6 v = v" by (simp add: u8_eq_iff all_less_8 bit_take_bit_iff)
  then have "unat v = take_bit 6 (unat v)" by (metis unsigned_take_bit_eq)
  also have "\<dots> < 64" by (simp add: take_bit_eq_mod)
  finally show ?thesis by (simp add: word_less_nat_alt)
qed

lemma sextet_less:
  "drop_bit 2 (a :: u8) < 64" "push_bit 4 (a AND 0x03) OR drop_bit 4 (b AND 0xf0) < (64 :: u8)"
  "push_bit 2 (b AND 0x0f) OR drop_bit 6 (c AND 0xc0) < (64 :: u8)" "(c AND 0x3f :: u8) < 64"
  "push_bit 4 (a AND 0x03) < (64 :: u8)" "push_bit 2 (b AND 0x0f) < (64 :: u8)"
  by (rule u8_less_64; simp add: bit_simps; simp add: numeral_2_eq_2 numeral_3_eq_3)+

lemma sextets_less: "list_all (\<lambda>v. v < 64) (sextets d)"
  by (induction d rule: sextets.induct) (simp_all only: sextets.simps append_Cons append_Nil list.pred_inject sextet_less simp_thms)

lemma encodeblock_0: "encodeblock (a # b # c # r) 3 =
  map (\<lambda>v. cb64 ! unat v) [drop_bit 2 a, push_bit 4 (a AND 0x03) OR drop_bit 4 (b AND 0xf0),
      push_bit 2 (b AND 0x0f) OR drop_bit 6 (c AND 0xc0), c AND 0x3f]"
  by (simp add: encodeblock_def)

lemma base64encode_text:
  assumes "length b = 4"
  shows "base64encode b d = base64_text d"
  using assms unfolding base64encode_def
proof (induction d arbitrary: b rule: sextets.induct)
  case (1 x y z ds)
  obtain p q r s where b: "b = [p, q, r, s]" using 1(2) by (rule length_4_cases)
  have "encode_loop [x, y, z, s] 0 ds = base64_text ds" by (rule 1) simp
  then show ?case unfolding b by (simp add: encodeblock_0 base64_text_def Let_def)
next
  case (2 x y)
  then obtain p q r s where b: "b = [p, q, r, s]" by (rule length_4_cases)
  show ?case unfolding b by (simp add: base64_text_def encodeblock_def numeral_2_eq_2)
next
  case (3 x)
  then obtain p q r s where b: "b = [p, q, r, s]" by (rule length_4_cases)
  show ?case unfolding b by (simp add: base64_text_def encodeblock_def numeral_2_eq_2)
qed (simp add: base64_text_def)

lemma cb64_list: "cb64 = [65, 66, 67, 68, 69, 70, 71, 72, 73, 74, 75, 76, 77, 78, 79, 80, 81, 82, 83, 84, 85, 86, 87, 88, 89, 90, 97, 98, 99, 100, 101, 102, 103, 104, 105, 106, 107, 108, 109, 110, 111, 112, 113, 114, 115, 116, 117, 118, 119, 120, 121, 122, 48, 49, 50, 51, 52, 53, 54, 55, 56, 57, 43, 47]"
  by (simp add: cb64_def)

lemma cd64_list: "cd64 = [124, 36, 36, 36, 125, 114, 115, 116, 117, 118, 119, 120, 121, 122, 123, 36, 36, 36, 36, 36, 36, 36, 62, 63, 64, 65, 66, 67, 68, 69, 70, 71, 72, 73, 74, 75, 76, 77, 78, 79, 80, 81, 82, 83, 84, 85, 86, 87, 36, 36, 36, 36, 36, 36, 88, 89, 90, 91, 92, 93, 94, 95, 96, 97, 98, 99, 100, 101, 102, 103, 104, 105, 106, 107, 108, 109, 110, 111, 112, 113]"
  by (simp add: cd64_def)

lemma code_of_cb64_table: "map code_value cb64 = map (\<lambda>n. Some (of_nat n + 1)) [0..<64]" "0 \<notin> set cb64" "length cb64 = 64"
  by (simp_all add: cb64_list code_value_def cd64_list rd_def upt_rec)

lemma code_of_cb64:
  assumes "v < 64"
  shows "cb64 ! unat v \<noteq> 0" "code_value (cb64 ! unat v) = Some (v + 1)"
proof -
  have v: "unat v < 64" using assms by (simp add: word_less_nat_alt)
  then show "cb64 ! unat v \<noteq> 0" using code_of_cb64_table(2,3) by (metis nth_mem)
  have "map code_value cb64 ! unat v = map (\<lambda>n. Some (of_nat n + 1)) [0..<64] ! unat v"
    by (simp only: code_of_cb64_table(1))
  then show "code_value (cb64 ! unat v) = Some (v + 1)" using v code_of_cb64_table(3) by simp
qed

lemma code_of_pad: "code_value 61 = Some 0"
  by (simp add: code_value_def cd64_def rd_def)

lemma less_64_Suc: "(a :: u8) < 64 \<Longrightarrow> a + 1 \<noteq> 0"
  by (auto simp flip: eq_neg_iff_add_eq_0)

lemma codes_map_cb64: "list_all (\<lambda>v. v < 64) vs \<Longrightarrow> codes (map (\<lambda>v. cb64 ! unat v) vs @ p) = vs @ codes p"
  by (induction vs) (simp_all add: code_of_cb64 less_64_Suc)

lemma codes_replicate_pad: "codes (replicate n 61 @ p) = codes p"
  by (induction n) (simp_all add: code_of_pad)

lemma codes_base64_text: "codes (base64_text d @ p) = sextets d @ codes p"
  by (simp add: base64_text_def codes_map_cb64 sextets_less codes_replicate_pad)

text \<open>Characters that carry no code, such as line breaks, may stand anywhere in the text.\<close>

lemma codes_filter:
  assumes "0 \<notin> set p"
  shows "codes (filter (\<lambda>c. code_value c \<noteq> Some 0) p @ q) = codes (p @ q)"
  using assms
proof (induction p)
  case (Cons c p)
  obtain v where "code_value c = Some v" using code_value_total by blast
  then show ?case using Cons by auto
qed simp

lemma length_sextets: "length (sextets d) + (3 - length d mod 3) mod 3 = 4 * ((length d + 2) div 3)"
proof (induction d rule: sextets.induct)
  case (1 a b c ds)
  have "length (a # b # c # ds) mod 3 = length ds mod 3" "(length (a # b # c # ds) + 2) div 3 = Suc ((length ds + 2) div 3)"
    by simp_all
  with 1 show ?case by simp
qed simp_all

lemma length_base64encode: "length b = 4 \<Longrightarrow> length (base64encode b d) = 4 * ((length d + 2) div 3)"
  by (simp add: base64encode_text base64_text_def length_sextets)

lemma base64decode_codes:
  assumes "length b = 4" "0 \<notin> set t"
  shows "base64decode str b (if str then t else t @ 0 # rest) = Some (decode_codes (codes t))"
proof -
  have c: "codes (t @ q) = codes t @ codes q" for q using assms(2)
  proof (induction t)
    case (Cons a t)
    obtain v where "code_value a = Some v" using code_value_total by blast
    then show ?case using Cons by auto
  qed simp
  have "terminated str (if str then t else t @ 0 # rest)" by (simp add: terminated_def)
  from decode_loop_codes [OF this assms(1), of 1 "[]"] show ?thesis by (simp add: base64decode_def c)
qed

text \<open>C30. base64 coding is RFC 4648's: the encoder writes the sextets of the data in the alphabet, padded to blocks
  of four characters, whatever the block array held before; and both decoders return the data from
  the text, also when characters outside the alphabet (line breaks, padding, the CR LF of a
  protocol line) have been added or removed anywhere in it.
\<close>

theorem base64_round_trip:
  assumes "length b = 4" "length b' = 4" "0 \<notin> set t"
    and "filter (\<lambda>c. code_value c \<noteq> Some 0) t = filter (\<lambda>c. code_value c \<noteq> Some 0) (base64encode b d)"
  shows "base64encode b d = base64_text d \<and> length (base64encode b d) = 4 * ((length d + 2) div 3) \<and>
    base64decode str b' (if str then t else t @ 0 # rest) = Some d"
proof -
  have e: "base64encode b d = base64_text d" using assms(1) by (rule base64encode_text)
  have "0 \<notin> set (base64_text d)"
    using sextets_less [of d] code_of_cb64(1) by (auto simp: base64_text_def list_all_iff)
  then have "codes t = codes (base64_text d)"
    using assms(3,4) codes_filter [of t "[]"] codes_filter [of "base64_text d" "[]"] e by simp
  then have "codes t = sextets d" using codes_base64_text [of d "[]"] by simp
  then show ?thesis
    using e length_base64encode [OF assms(1), of d] base64decode_codes [OF assms(2,3)] by (simp only: decode_sextets simp_thms)
qed

theorem base64_round_trip_witness:
  "base64encode [0, 0, 0, 0] [1, 2, 3, 4] = [65, 81, 73, 68, 66, 65, 61, 61] \<and>
   base64decode False [9, 9, 9, 9] [65, 81, 73, 10, 68, 66, 65, 0, 66] = Some [1, 2, 3, 4]"
proof -
  have e: "base64encode [0, 0, 0, 0] [1, 2, 3, 4] = [65, 81, 73, 68, 66, 65, 61, 61]"
    by (simp add: base64encode_def encodeblock_def cb64_list replicate_2)
  then show ?thesis
    using base64_round_trip [of "[0, 0, 0, 0]" "[9, 9, 9, 9]" "[65, 81, 73, 10, 68, 66, 65]" "[1, 2, 3, 4]" False "[66]"]
    by (simp add: code_value_def cd64_list rd_def)
qed

end
