(* ===== verification/Rc4.thy ===== *)
theory Rc4
  imports Prelude "HOL-Library.Multiset"
begin

unbundle bit_operations_syntax

section \<open>The stream cipher RC4\<close>

text \<open>
  \<open>components/crypto/crypt_rc4.cpp\<close>.  The two context structures are always used together and
  are one record here.  The array \<open>m\<close> has 256 elements and its indices are bytes, so its accesses
  need no check; the key is read at the positions the code computes, and \<open>None\<close> is a read
  behind the key.

  The locale \<open>stream_cipher\<close> is what the users of the cipher rely on; \<open>rc4\<close> interprets it.  The textbook
  algorithm, over numbers and with the remainders written out, is the reference the code is compared with.
\<close>

record rc4_ctx =
  rc4_x :: u8
  rc4_y :: u8
  rc4_m :: bytes

text \<open>The loop of \<open>RC4_setup\<close>: \<open>n\<close> rounds are left, \<open>i\<close>, \<open>j\<close> and \<open>k\<close> are the variables.\<close>

primrec setup_loop :: "nat \<Rightarrow> bytes \<Rightarrow> nat \<Rightarrow> nat \<Rightarrow> u8 \<Rightarrow> nat \<Rightarrow> bytes \<Rightarrow> bytes option" where
  "setup_loop 0 key len i j k m = Some m"
| "setup_loop (Suc n) key len i j k m = do {
     let a = m ! i;
     c \<leftarrow> rd key k;
     let j' = j + a + c;
     let m' = m[i := m ! unat j'];
     setup_loop n key len (i + 1) j' (if k + 1 \<ge> len then 0 else k + 1) (m'[unat j' := a]) }"

definition RC4_setup :: "bytes \<Rightarrow> nat \<Rightarrow> rc4_ctx option" where
  "RC4_setup key len = do {
     m \<leftarrow> setup_loop 256 key len 0 0 0 (map word_of_nat [0..<256]);
     Some \<lparr>rc4_x = 0, rc4_y = 0, rc4_m = m\<rparr> }"

text \<open>One pass through the loop of \<open>RC4_crypt\<close>: the byte to combine with the message, and the new context.\<close>

definition rc4_next :: "rc4_ctx \<Rightarrow> u8 \<times> rc4_ctx" where
  "rc4_next s =
     (let x = rc4_x s + 1; a = rc4_m s ! unat x; y = rc4_y s + a; b = rc4_m s ! unat y;
          m = (rc4_m s)[unat x := b, unat y := a] in
      (m ! unat (a + b), \<lparr>rc4_x = x, rc4_y = y, rc4_m = m\<rparr>))"

fun RC4_crypt :: "rc4_ctx \<Rightarrow> bytes \<Rightarrow> rc4_ctx \<times> bytes" where
  "RC4_crypt s [] = (s, [])"
| "RC4_crypt s (c # cs) =
     (let (k, s') = rc4_next s; (s'', r) = RC4_crypt s' cs in (s'', (c XOR k) # r))"

subsection \<open>The contract of a stream cipher\<close>

text \<open>
  What a user needs: the pieces of a message can be given to the cipher one after the other, the result has the
  length of the message, and a context with the same state undoes what another one did and
  ends in the same state.
\<close>

locale stream_cipher =
  fixes crypt :: "'s \<Rightarrow> bytes \<Rightarrow> 's \<times> bytes"
  assumes crypt_Nil: "crypt s [] = (s, [])"
    and crypt_append: "crypt s (a @ b) = (let (s1, c) = crypt s a; (s2, d) = crypt s1 b in (s2, c @ d))"
    and crypt_undo: "crypt s m = (s', c) \<Longrightarrow> crypt s c = (s', m)"
    and crypt_length: "crypt s m = (s', c) \<Longrightarrow> length c = length m"
begin

text \<open>Messages one after the other, each given to the cipher as a whole.\<close>

fun crypt_all :: "'s \<Rightarrow> bytes list \<Rightarrow> 's \<times> bytes list" where
  "crypt_all s [] = (s, [])"
| "crypt_all s (m # ms) = (let (s1, c) = crypt s m; (s2, cs) = crypt_all s1 ms in (s2, c # cs))"

lemma crypt_all_undo: "crypt_all s ms = (s', cs) \<Longrightarrow> crypt_all s cs = (s', ms)"
proof (induction ms arbitrary: s s' cs)
  case (Cons m ms)
  obtain s1 c where 1: "crypt s m = (s1, c)" by fastforce
  obtain s2 ds where 2: "crypt_all s1 ms = (s2, ds)" by fastforce
  from Cons.IH [OF 2] crypt_undo [OF 1] show ?case using Cons.prems 1 2 by auto
qed simp

lemma crypt_all_concat: "crypt s (concat ms) = (let (s', cs) = crypt_all s ms in (s', concat cs))"
  by (induction ms arbitrary: s) (simp_all add: crypt_Nil crypt_append split: prod.splits)

lemma crypt_take: "snd (crypt s (take n m)) = take n (snd (crypt s m))"
proof -
  obtain s1 c where 1: "crypt s (take n m) = (s1, c)" by fastforce
  obtain s2 d where 2: "crypt s1 (drop n m) = (s2, d)" by fastforce
  have "crypt s m = (s2, c @ d)" using crypt_append [of s "take n m" "drop n m"] 1 2 by simp
  moreover have "take n (c @ d) = c" using crypt_length [OF 1] crypt_length [OF 2] by (cases "n \<le> length m") simp_all
  ultimately show ?thesis using 1 by simp
qed

lemma crypt_inj: "snd (crypt s a) = snd (crypt s b) \<Longrightarrow> a = b"
proof -
  assume e: "snd (crypt s a) = snd (crypt s b)"
  obtain s1 c where 1: "crypt s a = (s1, c)" by fastforce
  obtain s2 d where 2: "crypt s b = (s2, d)" by fastforce
  show "a = b" using crypt_undo [OF 1] crypt_undo [OF 2] e 1 2 by simp
qed

end

lemma RC4_crypt_append:
  "RC4_crypt s (a @ b) = (let (s1, c) = RC4_crypt s a; (s2, d) = RC4_crypt s1 b in (s2, c @ d))"
proof (induction a arbitrary: s)
  case (Cons x a)
  obtain k s0 where 0: "rc4_next s = (k, s0)" by fastforce
  obtain s1 c where 1: "RC4_crypt s0 a = (s1, c)" by fastforce
  obtain s2 d where 2: "RC4_crypt s1 b = (s2, d)" by fastforce
  show ?case using Cons.IH [of s0] 0 1 2 by simp
qed simp

lemma RC4_crypt_undo: "RC4_crypt s m = (s', c) \<Longrightarrow> RC4_crypt s c = (s', m)"
proof (induction m arbitrary: s s' c)
  case (Cons a m)
  obtain k s1 where 1: "rc4_next s = (k, s1)" by fastforce
  obtain s2 d where 2: "RC4_crypt s1 m = (s2, d)" by fastforce
  from Cons.IH [OF 2] show ?case using Cons.prems 1 2 by (auto simp: xor.assoc)
qed simp

lemma RC4_crypt_length: "RC4_crypt s m = (s', c) \<Longrightarrow> length c = length m"
proof (induction m arbitrary: s s' c)
  case (Cons a m)
  obtain k s1 where 1: "rc4_next s = (k, s1)" by fastforce
  obtain s2 d where 2: "RC4_crypt s1 m = (s2, d)" by fastforce
  from Cons.IH [OF 2] show ?case using Cons.prems 1 2 by auto
qed simp

interpretation rc4: stream_cipher RC4_crypt
  by unfold_locales (simp, rule RC4_crypt_append, erule RC4_crypt_undo, erule RC4_crypt_length)

subsection \<open>The textbook algorithm\<close>

definition swap_at :: "'a list \<Rightarrow> nat \<Rightarrow> nat \<Rightarrow> 'a list" where
  "swap_at s i j = s[i := s ! j, j := s ! i]"

primrec ksa :: "nat list \<Rightarrow> nat \<Rightarrow> nat \<times> nat list" where
  "ksa key 0 = (0, [0..<256])"
| "ksa key (Suc i) =
     (let (j, s) = ksa key i; j' = (j + s ! i + key ! (i mod length key)) mod 256 in (j', swap_at s i j'))"

primrec prga :: "nat list \<Rightarrow> nat \<Rightarrow> nat \<times> nat \<times> nat list" where
  "prga s 0 = (0, 0, s)"
| "prga s (Suc n) =
     (let (i, j, s') = prga s n; i' = (i + 1) mod 256; j' = (j + s' ! i') mod 256 in (i', j', swap_at s' i' j'))"

definition rc4_stream :: "nat list \<Rightarrow> nat \<Rightarrow> nat" where
  "rc4_stream key n =
     (let (i, j, s) = prga (snd (ksa key 256)) (Suc n) in s ! ((s ! i + s ! j) mod 256))"

lemma unat_sum_u8: "unat (a + b :: u8) = (unat a + unat b) mod 256"
  by (simp add: unat_word_ariths)

lemma map_unat_swap:
  "i < length m \<Longrightarrow> unat (j :: u8) < length m \<Longrightarrow> map unat (m[i := m ! unat j, unat j := m ! i]) = swap_at (map unat m) i (unat j)"
  by (simp add: swap_at_def map_update)

lemma mset_swap_at: "i < length s \<Longrightarrow> j < length s \<Longrightarrow> mset (swap_at s i j) = mset s"
  by (simp add: swap_at_def mset_swap)

lemma length_swap_at [simp]: "length (swap_at s i j) = length s"
  by (simp add: swap_at_def)

lemma mset_ksa: "length key > 0 \<Longrightarrow> n \<le> 256 \<Longrightarrow> mset (snd (ksa key n)) = mset [0..<256] \<and> length (snd (ksa key n)) = 256"
proof (induction n)
  case (Suc n)
  obtain j s where "ksa key n = (j, s)" by fastforce
  then show ?case using Suc by (simp add: mset_swap_at Let_def)
qed simp

lemma setup_loop_ksa:
  assumes "0 < length key" "i + n \<le> 256" "ksa (map unat key) i = (unat j, map unat m)" "k = i mod length key"
  shows "\<exists>m'. setup_loop n key (length key) i j k m = Some m' \<and> map unat m' = snd (ksa (map unat key) (i + n))"
  using assms
proof (induction n arbitrary: i j k m)
  case (Suc n)
  let ?c = "key ! k" and ?j = "j + m ! i + key ! k"
  have len: "length m = 256" using mset_ksa [of "map unat key" i] Suc.prems by simp
  have k: "k < length key" using Suc.prems(1,4) by simp
  have j: "unat ?j = (unat j + unat (m ! i) + unat ?c) mod 256" by (simp only: unat_sum_u8 mod_add_left_eq)
  have i: "i < length m" and uj: "unat ?j < length m" using len Suc.prems(2) by simp_all
  let ?m = "m[i := m ! unat ?j, unat ?j := m ! i]"
  have ksa: "ksa (map unat key) (Suc i) = (unat ?j, map unat ?m)"
    using i k uj by (simp only: ksa.simps Suc.prems(3) prod.case Let_def length_map flip: Suc.prems(4))
      (simp only: nth_map j [symmetric] map_unat_swap)
  have k': "(if k + 1 \<ge> length key then 0 else k + 1) = Suc i mod length key"
    using k unfolding Suc.prems(4) by (auto simp: mod_Suc)
  have "Suc i + n \<le> 256" using Suc.prems(2) by simp
  from Suc.IH [OF Suc.prems(1) this ksa k'] show ?case using k by (simp add: rd_def Let_def)
qed simp

lemma RC4_setup_ksa:
  assumes "0 < length key"
  obtains m where "RC4_setup key (length key) = Some \<lparr>rc4_x = 0, rc4_y = 0, rc4_m = m\<rparr>"
    "map unat m = snd (ksa (map unat key) 256)" "length m = 256"
proof -
  have "map unat (map word_of_nat [0..<256] :: bytes) = [0..<256]"
    by (intro nth_equalityI) (simp_all add: unat_word_of_nat_u8)
  then have "ksa (map unat key) 0 = (unat (0 :: u8), map unat (map word_of_nat [0..<256] :: bytes))" by simp
  from setup_loop_ksa [OF assms _ this, of 256 0] obtain m where
    m: "setup_loop 256 key (length key) 0 0 0 (map word_of_nat [0..<256]) = Some m"
      "map unat m = snd (ksa (map unat key) 256)" by auto
  moreover have "length (map unat m) = 256" using mset_ksa [of "map unat key" 256] assms m(2) by simp
  ultimately show ?thesis using that [of m] by (simp add: RC4_setup_def flip: length_map [of unat m])
qed

lemma rc4_next_prga:
  assumes "prga s0 n = (unat (rc4_x s), unat (rc4_y s), map unat (rc4_m s))" "length (rc4_m s) = 256"
    and "rc4_next s = (k, s')"
  shows "prga s0 (Suc n) = (unat (rc4_x s'), unat (rc4_y s'), map unat (rc4_m s'))" "length (rc4_m s') = 256"
    "unat k = map unat (rc4_m s') ! ((unat (rc4_m s' ! unat (rc4_x s')) + unat (rc4_m s' ! unat (rc4_y s'))) mod 256)"
proof -
  let ?x = "rc4_x s + 1"
  let ?y = "rc4_y s + rc4_m s ! unat ?x"
  let ?m = "(rc4_m s)[unat ?x := rc4_m s ! unat ?y, unat ?y := rc4_m s ! unat ?x]"
  have s': "s' = \<lparr>rc4_x = ?x, rc4_y = ?y, rc4_m = ?m\<rparr>" "k = ?m ! unat (rc4_m s ! unat ?x + rc4_m s ! unat ?y)"
    using assms(3) by (simp_all add: rc4_next_def Let_def)
  have x: "unat ?x = (unat (rc4_x s) + 1) mod 256" and y: "unat ?y = (unat (rc4_y s) + unat (rc4_m s ! unat ?x)) mod 256"
    by (simp_all only: unat_sum_u8 unsigned_1)
  have lt: "unat ?x < length (rc4_m s)" "unat ?y < length (rc4_m s)" using assms(2) by simp_all
  show "length (rc4_m s') = 256" using s' assms(2) by simp
  show "prga s0 (Suc n) = (unat (rc4_x s'), unat (rc4_y s'), map unat (rc4_m s'))"
    using assms(1) lt by (simp only: prga.simps prod.case Let_def s' x [symmetric] nth_map y [symmetric] map_unat_swap rc4_ctx.simps)
  have at: "?m ! unat ?x = rc4_m s ! unat ?y" "?m ! unat ?y = rc4_m s ! unat ?x"
    using lt by (cases "unat ?x = unat ?y"; simp)+
  show "unat k = map unat (rc4_m s') ! ((unat (rc4_m s' ! unat (rc4_x s')) + unat (rc4_m s' ! unat (rc4_y s'))) mod 256)"
    using assms(2) at by (simp add: s' unat_sum_u8 add.commute del: nth_list_update)
qed

lemma RC4_crypt_prga:
  assumes "prga s0 n = (unat (rc4_x s), unat (rc4_y s), map unat (rc4_m s))" "length (rc4_m s) = 256"
    and "RC4_crypt s msg = (s', c)" "t < length msg"
  shows "unat (c ! t XOR msg ! t) = (let (i, j, s) = prga s0 (Suc (n + t)) in s ! ((s ! i + s ! j) mod 256))"
  using assms
proof (induction msg arbitrary: n s c t)
  case (Cons a msg)
  obtain k s1 where 1: "rc4_next s = (k, s1)" by fastforce
  obtain s2 d where 2: "RC4_crypt s1 msg = (s2, d)" by fastforce
  have c: "c = (a XOR k) # d" "s' = s2" using Cons.prems(3) 1 2 by auto
  note nx = rc4_next_prga [OF Cons.prems(1,2) 1]
  show ?case
  proof (cases t)
    case 0
    have "(a XOR k) XOR a = k" by (simp add: xor.commute xor.left_commute)
    then show ?thesis using nx by (simp add: 0 c del: prga.simps)
  next
    case (Suc t')
    then show ?thesis using Cons.IH [OF nx(1,2), of d t'] 2 c Cons.prems(4) by simp
  qed
qed simp

text \<open>C29. \<open>RC4_setup\<close> and \<open>RC4_crypt\<close> are RC4: with a key that is not empty the set-up stays within the key
  and its table is a permutation of the bytes; each byte of a message is combined with the byte the textbook
  algorithm gives for its position; and a second context set up with the key turns the result back into
  the message and follows the first one's state, in whatever pieces the two are fed.
\<close>

theorem rc4_is_textbook:
  assumes "key \<noteq> []"
  shows "\<exists>s. RC4_setup key (length key) = Some s \<and> mset (map unat (rc4_m s)) = mset [0..<256] \<and>
    (\<forall>msg t. t < length msg \<longrightarrow> unat (snd (RC4_crypt s msg) ! t XOR msg ! t) = rc4_stream (map unat key) t) \<and>
    (\<forall>ms. RC4_crypt s (concat (snd (rc4.crypt_all s ms))) = (fst (RC4_crypt s (concat ms)), concat ms))"
proof -
  from assms have "0 < length key" by simp
  then obtain m where m: "RC4_setup key (length key) = Some \<lparr>rc4_x = 0, rc4_y = 0, rc4_m = m\<rparr>" (is "_ = Some ?s")
    "map unat m = snd (ksa (map unat key) 256)" "length m = 256"
    by (rule RC4_setup_ksa)
  show ?thesis
  proof (intro exI [of _ ?s] conjI allI impI)
    show "RC4_setup key (length key) = Some ?s" by (rule m(1))
    show "mset (map unat (rc4_m ?s)) = mset [0..<256]"
      using mset_ksa [of "map unat key" 256] assms by (simp only: m(2) rc4_ctx.simps length_map length_greater_0_conv order.refl simp_thms)
    show "unat (snd (RC4_crypt ?s msg) ! t XOR msg ! t) = rc4_stream (map unat key) t" if "t < length msg" for msg t
    proof -
      have "prga (map unat m) 0 = (unat (rc4_x ?s), unat (rc4_y ?s), map unat (rc4_m ?s))" "length (rc4_m ?s) = 256"
        using m(3) by simp_all
      from RC4_crypt_prga [OF this, of msg "fst (RC4_crypt ?s msg)" "snd (RC4_crypt ?s msg)" t] that
      show ?thesis by (simp only: prod.collapse m(2) rc4_stream_def add_0)
    qed
    show "RC4_crypt ?s (concat (snd (rc4.crypt_all ?s ms))) = (fst (RC4_crypt ?s (concat ms)), concat ms)" for ms
    proof -
      obtain s' cs where c: "rc4.crypt_all ?s ms = (s', cs)" by fastforce
      have e: "RC4_crypt ?s (concat ms) = (s', concat cs)" using rc4.crypt_all_concat [of ?s ms] by (simp only: c Let_def prod.case)
      show ?thesis unfolding c e fst_conv snd_conv by (rule RC4_crypt_undo [OF e])
    qed
  qed
qed

theorem rc4_is_textbook_witness:
  "\<exists>s. RC4_setup [1, 2] 2 = Some s \<and> unat (snd (RC4_crypt s [0]) ! 0) = rc4_stream [1, 2] 0"
proof -
  have "length [1, 2 :: u8] = 2" "map unat [1, 2 :: u8] = [1, 2]" "[1, 2 :: u8] \<noteq> []" "0 < length [0 :: u8]" "[0 :: u8] ! 0 = 0"
    by simp_all
  then show ?thesis using rc4_is_textbook [of "[1, 2]"] by (metis xor.right_neutral)
qed

end
