(* ===== verification/Md5.thy ===== *)
theory Md5
  imports Prelude
begin

unbundle bit_operations_syntax

section \<open>The digest MD5\<close>

text \<open>
  \<open>components/crypto/crypt_md5.cpp\<close>.  The 64 lines of the transformation are the rows of four tables (function,
  registers by their place in \<open>a, b, c, d\<close>, input word, rotation, constant), and a row does what its macro does.
  The scratch array \<open>t_x\<close> is a local value here; in the program it is one array for all tasks.  \<open>None\<close> is a
  copy outside the context's buffer.  The reference is the padded and rotating form in which RFC 1321 is usually
  stated; that the code's incremental interface computes it is what the lemmas show.
\<close>

subsection \<open>The transformation\<close>

datatype md5_fn = FF | GG | HH | II

definition md5_F :: "u32 \<Rightarrow> u32 \<Rightarrow> u32 \<Rightarrow> u32" where
  "md5_F x y z = (x AND y) OR (NOT x AND z)"

definition md5_G :: "u32 \<Rightarrow> u32 \<Rightarrow> u32 \<Rightarrow> u32" where
  "md5_G x y z = (x AND z) OR (y AND NOT z)"

definition md5_H :: "u32 \<Rightarrow> u32 \<Rightarrow> u32 \<Rightarrow> u32" where
  "md5_H x y z = (x XOR y) XOR z"

definition md5_I :: "u32 \<Rightarrow> u32 \<Rightarrow> u32 \<Rightarrow> u32" where
  "md5_I x y z = y XOR (x OR NOT z)"

definition ROTATE_LEFT :: "u32 \<Rightarrow> nat \<Rightarrow> u32" where
  "ROTATE_LEFT x n = push_bit n x OR drop_bit (32 - n) x"

primrec md5_mix :: "md5_fn \<Rightarrow> u32 \<Rightarrow> u32 \<Rightarrow> u32 \<Rightarrow> u32" where
  "md5_mix FF = md5_F"
| "md5_mix GG = md5_G"
| "md5_mix HH = md5_H"
| "md5_mix II = md5_I"

text \<open>What the macros \<open>FF\<close>, \<open>GG\<close>, \<open>HH\<close> and \<open>II\<close> assign to their first argument.\<close>

definition md5_op :: "md5_fn \<Rightarrow> u32 \<Rightarrow> u32 \<Rightarrow> u32 \<Rightarrow> u32 \<Rightarrow> u32 \<Rightarrow> nat \<Rightarrow> u32 \<Rightarrow> u32" where
  "md5_op f a b c d x s ac = ROTATE_LEFT (a + (md5_mix f b c d + x + ac)) s + b"

type_synonym md5_row = "md5_fn \<times> nat \<times> nat \<times> nat \<times> nat \<times> nat \<times> nat \<times> u32"

fun md5_line :: "u32 list \<Rightarrow> md5_row \<Rightarrow> u32 list \<Rightarrow> u32 list" where
  "md5_line t_x (f, a, b, c, d, k, s, ac) r = r[a := md5_op f (r ! a) (r ! b) (r ! c) (r ! d) (t_x ! k) s ac]"

definition md5_round1 :: "md5_row list" where
  "md5_round1 =
    [(FF, 0, 1, 2, 3, 0, 7, 0xd76aa478), (FF, 3, 0, 1, 2, 1, 12, 0xe8c7b756),
     (FF, 2, 3, 0, 1, 2, 17, 0x242070db), (FF, 1, 2, 3, 0, 3, 22, 0xc1bdceee),
     (FF, 0, 1, 2, 3, 4, 7, 0xf57c0faf), (FF, 3, 0, 1, 2, 5, 12, 0x4787c62a),
     (FF, 2, 3, 0, 1, 6, 17, 0xa8304613), (FF, 1, 2, 3, 0, 7, 22, 0xfd469501),
     (FF, 0, 1, 2, 3, 8, 7, 0x698098d8), (FF, 3, 0, 1, 2, 9, 12, 0x8b44f7af),
     (FF, 2, 3, 0, 1, 10, 17, 0xffff5bb1), (FF, 1, 2, 3, 0, 11, 22, 0x895cd7be),
     (FF, 0, 1, 2, 3, 12, 7, 0x6b901122), (FF, 3, 0, 1, 2, 13, 12, 0xfd987193),
     (FF, 2, 3, 0, 1, 14, 17, 0xa679438e), (FF, 1, 2, 3, 0, 15, 22, 0x49b40821)]"

definition md5_round2 :: "md5_row list" where
  "md5_round2 =
    [(GG, 0, 1, 2, 3, 1, 5, 0xf61e2562), (GG, 3, 0, 1, 2, 6, 9, 0xc040b340),
     (GG, 2, 3, 0, 1, 11, 14, 0x265e5a51), (GG, 1, 2, 3, 0, 0, 20, 0xe9b6c7aa),
     (GG, 0, 1, 2, 3, 5, 5, 0xd62f105d), (GG, 3, 0, 1, 2, 10, 9, 0x2441453),
     (GG, 2, 3, 0, 1, 15, 14, 0xd8a1e681), (GG, 1, 2, 3, 0, 4, 20, 0xe7d3fbc8),
     (GG, 0, 1, 2, 3, 9, 5, 0x21e1cde6), (GG, 3, 0, 1, 2, 14, 9, 0xc33707d6),
     (GG, 2, 3, 0, 1, 3, 14, 0xf4d50d87), (GG, 1, 2, 3, 0, 8, 20, 0x455a14ed),
     (GG, 0, 1, 2, 3, 13, 5, 0xa9e3e905), (GG, 3, 0, 1, 2, 2, 9, 0xfcefa3f8),
     (GG, 2, 3, 0, 1, 7, 14, 0x676f02d9), (GG, 1, 2, 3, 0, 12, 20, 0x8d2a4c8a)]"

definition md5_round3 :: "md5_row list" where
  "md5_round3 =
    [(HH, 0, 1, 2, 3, 5, 4, 0xfffa3942), (HH, 3, 0, 1, 2, 8, 11, 0x8771f681),
     (HH, 2, 3, 0, 1, 11, 16, 0x6d9d6122), (HH, 1, 2, 3, 0, 14, 23, 0xfde5380c),
     (HH, 0, 1, 2, 3, 1, 4, 0xa4beea44), (HH, 3, 0, 1, 2, 4, 11, 0x4bdecfa9),
     (HH, 2, 3, 0, 1, 7, 16, 0xf6bb4b60), (HH, 1, 2, 3, 0, 10, 23, 0xbebfbc70),
     (HH, 0, 1, 2, 3, 13, 4, 0x289b7ec6), (HH, 3, 0, 1, 2, 0, 11, 0xeaa127fa),
     (HH, 2, 3, 0, 1, 3, 16, 0xd4ef3085), (HH, 1, 2, 3, 0, 6, 23, 0x4881d05),
     (HH, 0, 1, 2, 3, 9, 4, 0xd9d4d039), (HH, 3, 0, 1, 2, 12, 11, 0xe6db99e5),
     (HH, 2, 3, 0, 1, 15, 16, 0x1fa27cf8), (HH, 1, 2, 3, 0, 2, 23, 0xc4ac5665)]"

definition md5_round4 :: "md5_row list" where
  "md5_round4 =
    [(II, 0, 1, 2, 3, 0, 6, 0xf4292244), (II, 3, 0, 1, 2, 7, 10, 0x432aff97),
     (II, 2, 3, 0, 1, 14, 15, 0xab9423a7), (II, 1, 2, 3, 0, 5, 21, 0xfc93a039),
     (II, 0, 1, 2, 3, 12, 6, 0x655b59c3), (II, 3, 0, 1, 2, 3, 10, 0x8f0ccc92),
     (II, 2, 3, 0, 1, 10, 15, 0xffeff47d), (II, 1, 2, 3, 0, 1, 21, 0x85845dd1),
     (II, 0, 1, 2, 3, 8, 6, 0x6fa87e4f), (II, 3, 0, 1, 2, 15, 10, 0xfe2ce6e0),
     (II, 2, 3, 0, 1, 6, 15, 0xa3014314), (II, 1, 2, 3, 0, 13, 21, 0x4e0811a1),
     (II, 0, 1, 2, 3, 4, 6, 0xf7537e82), (II, 3, 0, 1, 2, 11, 10, 0xbd3af235),
     (II, 2, 3, 0, 1, 2, 15, 0x2ad7d2bb), (II, 1, 2, 3, 0, 9, 21, 0xeb86d391)]"

fun OVMS_Decode :: "bytes \<Rightarrow> u32 list" where
  "OVMS_Decode (p # q # r # s # bs) =
     (((ucast p OR push_bit 8 (ucast q)) OR push_bit 16 (ucast r)) OR
      push_bit 24 (ucast s)) # OVMS_Decode bs"
| "OVMS_Decode bs = []"

fun OVMS_Encode :: "u32 list \<Rightarrow> bytes" where
  "OVMS_Encode [] = []"
| "OVMS_Encode (w # ws) =
     [ucast (w AND 0xff), ucast (drop_bit 8 w AND 0xff), ucast (drop_bit 16 w AND 0xff),
      ucast (drop_bit 24 w AND 0xff)] @ OVMS_Encode ws"

definition OVMS_MD5Transform :: "u32 list \<Rightarrow> bytes \<Rightarrow> u32 list" where
  "OVMS_MD5Transform state block =
     (let t_x = OVMS_Decode block;
          r = fold (md5_line t_x) (md5_round1 @ md5_round2 @ md5_round3 @ md5_round4) state in
      map2 (+) state r)"

subsection \<open>The incremental interface\<close>

record md5_ctx =
  md_state :: "u32 list"
  md_count0 :: u32
  md_count1 :: u32
  md_buffer :: bytes

definition OVMS_MD5_Init :: "md5_ctx \<Rightarrow> md5_ctx" where
  "OVMS_MD5_Init ctx =
     ctx\<lparr>md_count0 := 0, md_count1 := 0, md_state := [0x67452301, 0xefcdab89, 0x98badcfe, 0x10325476]\<rparr>"

text \<open>The loop over whole blocks: the state it ends with and the bytes that are left.\<close>

function transform_all :: "u32 list \<Rightarrow> bytes \<Rightarrow> u32 list \<times> bytes" where
  "transform_all state msg =
     (if 64 \<le> length msg then transform_all (OVMS_MD5Transform state (take 64 msg)) (drop 64 msg) else (state, msg))"
  by pat_completeness auto
termination by (relation "measure (\<lambda>(state, msg). length msg)") auto

declare transform_all.simps [simp del]

definition count_bits :: "nat \<Rightarrow> md5_ctx \<Rightarrow> md5_ctx" where
  "count_bits len ctx =
     (let n = word_of_nat len; c0 = md_count0 ctx + push_bit 3 n;
          c1 = if c0 < push_bit 3 n then md_count1 ctx + 1 else md_count1 ctx in
      ctx\<lparr>md_count0 := c0, md_count1 := c1 + drop_bit 29 n\<rparr>)"

definition OVMS_MD5_Update :: "md5_ctx \<Rightarrow> bytes \<Rightarrow> md5_ctx option" where
  "OVMS_MD5_Update ctx msg =
     (let x = unat (drop_bit 3 (md_count0 ctx) AND 0x3F); ctx1 = count_bits (length msg) ctx; partLen = 64 - x in
      if partLen \<le> length msg then do {
        buf \<leftarrow> memcpy_at (md_buffer ctx1) x (take partLen msg);
        let (state, rest) = transform_all (OVMS_MD5Transform (md_state ctx1) buf) (drop partLen msg);
        buf' \<leftarrow> memcpy_at buf 0 rest;
        Some (ctx1\<lparr>md_state := state, md_buffer := buf'\<rparr>) }
      else do {
        buf \<leftarrow> memcpy_at (md_buffer ctx1) x msg;
        Some (ctx1\<lparr>md_buffer := buf\<rparr>) })"

primrec pad_loop :: "nat \<Rightarrow> md5_ctx \<Rightarrow> md5_ctx option" where
  "pad_loop 0 ctx = Some ctx"
| "pad_loop (Suc n) ctx = do { ctx1 \<leftarrow> OVMS_MD5_Update ctx [0x00]; pad_loop n ctx1 }"

definition OVMS_MD5_Final :: "md5_ctx \<Rightarrow> (bytes \<times> md5_ctx) option" where
  "OVMS_MD5_Final ctx =
     (let bits = OVMS_Encode [md_count0 ctx, md_count1 ctx];
          x = unat (drop_bit 3 (md_count0 ctx) AND 0x3f);
          padLen = (if x < 56 then 56 - x else 120 - x) in
      do {
        ctx1 \<leftarrow> (if padLen > 0 then OVMS_MD5_Update ctx [0x80] else Some ctx);
        ctx2 \<leftarrow> pad_loop (padLen - 1) ctx1;
        ctx3 \<leftarrow> OVMS_MD5_Update ctx2 bits;
        Some (OVMS_Encode (md_state ctx3), ctx3) })"

subsection \<open>The reference\<close>

definition md5_K :: "u32 list" where
  "md5_K =
   [0xd76aa478, 0xe8c7b756, 0x242070db, 0xc1bdceee, 0xf57c0faf, 0x4787c62a, 0xa8304613, 0xfd469501,
    0x698098d8, 0x8b44f7af, 0xffff5bb1, 0x895cd7be, 0x6b901122, 0xfd987193, 0xa679438e, 0x49b40821,
    0xf61e2562, 0xc040b340, 0x265e5a51, 0xe9b6c7aa, 0xd62f105d, 0x2441453, 0xd8a1e681, 0xe7d3fbc8,
    0x21e1cde6, 0xc33707d6, 0xf4d50d87, 0x455a14ed, 0xa9e3e905, 0xfcefa3f8, 0x676f02d9, 0x8d2a4c8a,
    0xfffa3942, 0x8771f681, 0x6d9d6122, 0xfde5380c, 0xa4beea44, 0x4bdecfa9, 0xf6bb4b60, 0xbebfbc70,
    0x289b7ec6, 0xeaa127fa, 0xd4ef3085, 0x4881d05, 0xd9d4d039, 0xe6db99e5, 0x1fa27cf8, 0xc4ac5665,
    0xf4292244, 0x432aff97, 0xab9423a7, 0xfc93a039, 0x655b59c3, 0x8f0ccc92, 0xffeff47d, 0x85845dd1,
    0x6fa87e4f, 0xfe2ce6e0, 0xa3014314, 0x4e0811a1, 0xf7537e82, 0xbd3af235, 0x2ad7d2bb, 0xeb86d391]"

definition md5_shift :: "nat \<Rightarrow> nat" where
  "md5_shift i = [[7, 12, 17, 22], [5, 9, 14, 20], [4, 11, 16, 23], [6, 10, 15, 21]] ! (i div 16) ! (i mod 4)"

definition md5_index :: "nat \<Rightarrow> nat" where
  "md5_index i =
     (if i < 16 then i else if i < 32 then (5 * i + 1) mod 16 else if i < 48 then (3 * i + 5) mod 16 else (7 * i) mod 16)"

definition md5_function :: "nat \<Rightarrow> md5_fn" where
  "md5_function i = (if i < 16 then FF else if i < 32 then GG else if i < 48 then HH else II)"

text \<open>Round \<open>i\<close> changes \<open>a\<close> and the registers move on by one place.\<close>

primrec md5_rotating :: "u32 list \<Rightarrow> nat \<Rightarrow> u32 \<times> u32 \<times> u32 \<times> u32 \<Rightarrow> u32 \<times> u32 \<times> u32 \<times> u32" where
  "md5_rotating t_x 0 r = r"
| "md5_rotating t_x (Suc i) r =
     (let (a, b, c, d) = md5_rotating t_x i r in
      (d, md5_op (md5_function i) a b c d (t_x ! md5_index i) (md5_shift i) (md5_K ! i), b, c))"

fun md5_compress :: "u32 \<times> u32 \<times> u32 \<times> u32 \<Rightarrow> bytes \<Rightarrow> u32 \<times> u32 \<times> u32 \<times> u32" where
  "md5_compress (p, q, r, s) block =
     (let (a, b, c, d) = md5_rotating (OVMS_Decode block) 64 (p, q, r, s) in (p + a, q + b, r + c, s + d))"

function md5_blocks :: "u32 \<times> u32 \<times> u32 \<times> u32 \<Rightarrow> bytes \<Rightarrow> u32 \<times> u32 \<times> u32 \<times> u32" where
  "md5_blocks h m = (if m = [] then h else md5_blocks (md5_compress h (take 64 m)) (drop 64 m))"
  by pat_completeness auto
termination by (relation "measure (\<lambda>(h, m). length m)") auto

declare md5_blocks.simps [simp del]

definition le64 :: "nat \<Rightarrow> bytes" where
  "le64 n = map (\<lambda>i. word_of_nat (n div 256 ^ i)) [0..<8]"

text \<open>The padding: a bit 1, zeros up to 56 bytes in the last block, and the length in bits, low byte first.\<close>

definition md5_padded :: "bytes \<Rightarrow> bytes" where
  "md5_padded m = m @ [0x80] @ replicate ((119 - length m mod 64) mod 64) 0 @ le64 (8 * length m)"

definition md5_digest :: "bytes \<Rightarrow> bytes" where
  "md5_digest m =
     (let (a, b, c, d) = md5_blocks (0x67452301, 0xefcdab89, 0x98badcfe, 0x10325476) (md5_padded m) in
      OVMS_Encode [a, b, c, d])"

subsection \<open>The transformation is the reference's\<close>

abbreviation words4 :: "'a \<times> 'a \<times> 'a \<times> 'a \<Rightarrow> 'a list" where
  "words4 h \<equiv> (case h of (a, b, c, d) \<Rightarrow> [a, b, c, d])"

definition md5_row_of :: "nat \<Rightarrow> md5_row" where
  "md5_row_of i =
     (let p = (4 - i mod 4) mod 4 in
      (md5_function i, p, (p + 1) mod 4, (p + 2) mod 4, (p + 3) mod 4, md5_index i, md5_shift i, md5_K ! i))"

lemma md5_rows: "md5_round1 @ md5_round2 @ md5_round3 @ md5_round4 = map md5_row_of [0..<64]"
proof -
  have up: "[0..<64] = [0..<16] @ [16..<32] @ [32..<48] @ [48..<64]" by (simp add: upt_add_eq_append [of 0, symmetric] upt_rec)
  have K: "length md5_K = 64" by (simp add: md5_K_def)
  have "md5_round1 = map md5_row_of [0..<16]"
    by (simp add: md5_round1_def md5_row_of_def md5_function_def md5_index_def md5_shift_def md5_K_def upt_rec)
  moreover have "md5_round2 = map md5_row_of [16..<32]"
    by (simp add: md5_round2_def md5_row_of_def md5_function_def md5_index_def md5_shift_def md5_K_def upt_rec)
  moreover have "md5_round3 = map md5_row_of [32..<48]"
    by (simp add: md5_round3_def md5_row_of_def md5_function_def md5_index_def md5_shift_def md5_K_def upt_rec)
  moreover have "md5_round4 = map md5_row_of [48..<64]"
    by (simp add: md5_round4_def md5_row_of_def md5_function_def md5_index_def md5_shift_def md5_K_def upt_rec)
  ultimately show ?thesis by (simp only: up map_append)
qed

text \<open>Where the reference's registers stand in the code's after \<open>i\<close> lines.\<close>

definition md5_view :: "nat \<Rightarrow> u32 list \<Rightarrow> u32 \<times> u32 \<times> u32 \<times> u32" where
  "md5_view i r = (let p = (4 - i mod 4) mod 4 in (r ! p, r ! ((p + 1) mod 4), r ! ((p + 2) mod 4), r ! ((p + 3) mod 4)))"

lemma length_md5_line [simp]: "length (md5_line t row r) = length r"
  by (cases "(t, row, r)" rule: md5_line.cases) simp

lemma length_fold_md5_line [simp]: "length (fold (md5_line t) rows r) = length r"
  by (induction rows arbitrary: r) simp_all

lemma md5_view_line:
  assumes "length r = 4"
  shows "md5_view (Suc i) (md5_line t (md5_row_of i) r) =
    (case md5_view i r of (a, b, c, d) \<Rightarrow> (d, md5_op (md5_function i) a b c d (t ! md5_index i) (md5_shift i) (md5_K ! i), b, c))"
proof -
  obtain p q s u where r: "r = [p, q, s, u]"
    using assms by (rule length_4_cases)
  consider "i mod 4 = 0" | "i mod 4 = 1" | "i mod 4 = 2" | "i mod 4 = 3" by linarith
  then show ?thesis by cases (simp_all add: md5_view_def md5_row_of_def r mod_Suc Let_def)
qed

lemma md5_rotating_view:
  "length r = 4 \<Longrightarrow> md5_rotating t i (md5_view 0 r) = md5_view i (fold (md5_line t) (map md5_row_of [0..<i]) r)"
  by (induction i) (simp_all add: md5_view_line split: prod.splits)

lemma transform_compress: "OVMS_MD5Transform (words4 h) block = words4 (md5_compress h block)"
proof -
  obtain a b c d where h: "h = (a, b, c, d)" by (cases h)
  let ?r = "fold (md5_line (OVMS_Decode block)) (map md5_row_of [0..<64]) [a, b, c, d]"
  have "length ?r = 4" by simp
  then obtain p q r s where r: "?r = [p, q, r, s]" by (rule length_4_cases)
  have "md5_rotating (OVMS_Decode block) 64 (md5_view 0 [a, b, c, d]) = md5_view 64 ?r"
    by (rule md5_rotating_view) simp
  moreover have "md5_view 0 [a, b, c, d] = (a, b, c, d)" "md5_view 64 [p, q, r, s] = (p, q, r, s)"
    by (simp_all add: md5_view_def Let_def)
  ultimately have "md5_rotating (OVMS_Decode block) 64 (a, b, c, d) = (p, q, r, s)"
    by (simp only: r)
  then show ?thesis
    by (simp only: h prod.case OVMS_MD5Transform_def md5_rows Let_def r md5_compress.simps) simp
qed

declare md5_compress.simps [simp del]

subsection \<open>Whole blocks\<close>

lemma md5_blocks_Nil [simp]: "md5_blocks h [] = h"
  by (subst md5_blocks.simps) simp

lemma md5_blocks_append:
  assumes "64 dvd length a"
  shows "md5_blocks h (a @ b) = md5_blocks (md5_blocks h a) b"
  using assms
proof (induction h a rule: md5_blocks.induct)
  case (1 h a)
  show ?case
  proof (cases "a = []")
    case False
    then have len: "64 \<le> length a" using 1 by (simp add: dvd_imp_le)
    then have "md5_blocks (md5_compress h (take 64 a)) (drop 64 a @ b) = md5_blocks (md5_blocks (md5_compress h (take 64 a)) (drop 64 a)) b"
      using 1 False by (simp add: dvd_minus_self)
    moreover have "md5_blocks h (a @ b) = md5_blocks (md5_compress h (take 64 a)) (drop 64 a @ b)"
      using False len by (subst md5_blocks.simps) simp
    moreover have "md5_blocks h a = md5_blocks (md5_compress h (take 64 a)) (drop 64 a)"
      using False by (subst md5_blocks.simps) simp
    ultimately show ?thesis by simp
  qed simp
qed

lemma md5_blocks_block: "length b = 64 \<Longrightarrow> md5_blocks h b = md5_compress h b"
  by (subst md5_blocks.simps) auto

lemma transform_all_blocks:
  "\<exists>full rest. transform_all (words4 h) msg = (words4 (md5_blocks h full), rest) \<and> msg = full @ rest \<and>
     64 dvd length full \<and> length rest < 64"
proof (induction "length msg" arbitrary: h msg rule: less_induct)
  case less
  show ?case
  proof (cases "64 \<le> length msg")
    case True
    then have "length (drop 64 msg) < length msg" unfolding length_drop by linarith
    from less.hyps [OF this, of "md5_compress h (take 64 msg)"]
    obtain full rest where *: "transform_all (words4 (md5_compress h (take 64 msg))) (drop 64 msg) =
        (words4 (md5_blocks (md5_compress h (take 64 msg)) full), rest)"
      "drop 64 msg = full @ rest" "64 dvd length full" "length rest < 64"
      by (elim exE conjE)
    have "transform_all (words4 h) msg = (words4 (md5_blocks h (take 64 msg @ full)), rest)"
      using True *(1) by (subst transform_all.simps) (simp add: transform_compress md5_blocks_append md5_blocks_block)
    moreover have "msg = (take 64 msg @ full) @ rest" using *(2) append_take_drop_id [of 64 msg] by (simp only: append.assoc)
    ultimately show ?thesis
      using *(3,4) True by (intro exI [of _ "take 64 msg @ full"] exI [of _ rest] conjI) (assumption | simp)+
  next
    case False
    then show ?thesis by (subst transform_all.simps) (intro exI [of _ "[]"] exI [of _ msg], simp)
  qed
qed

subsection \<open>The counter\<close>

definition counts :: "md5_ctx \<Rightarrow> nat \<Rightarrow> bool" where
  "counts ctx n \<longleftrightarrow> unat (md_count0 ctx) = 8 * n mod 2 ^ 32 \<and> unat (md_count1 ctx) = 8 * n div 2 ^ 32 mod 2 ^ 32"

lemma carry_iff: "a < w \<Longrightarrow> b < w \<Longrightarrow> (a + b) mod w < b \<longleftrightarrow> w \<le> (a + b :: nat)"
  by (cases "a + b < w") (auto simp: mod_if)

lemma carry_div: "a < w \<Longrightarrow> b < w \<Longrightarrow> (a + b :: nat) div w = (if w \<le> a + b then 1 else 0)"
  by (auto simp: div_if)

lemma unat_add_u32: "unat (a + b :: u32) = (unat a + unat b) mod 4294967296"
  by (simp add: unat_word_ariths)

lemma count_bits_counts:
  assumes "counts ctx n" "len < 2 ^ 32"
  shows "counts (count_bits len ctx) (n + len)"
proof -
  let ?W = "4294967296 :: nat"
  let ?N = "word_of_nat len :: u32"
  let ?c0 = "md_count0 ctx + push_bit 3 ?N"
  let ?a = "8 * n mod ?W" and ?b = "8 * len mod ?W"
  have p: "unat (push_bit 3 ?N) = ?b"
    by (simp add: push_bit_eq_mult unat_word_ariths unat_of_nat take_bit_eq_mod mod_simps mult.commute)
  have d: "unat (drop_bit 29 ?N) = 8 * len div ?W"
    using assms(2) unfolding unat_drop_bit_eq by (simp add: drop_bit_eq_div unat_of_nat take_bit_eq_mod)
  have c: "unat (md_count0 ctx) = ?a" "unat (md_count1 ctx) = 8 * n div ?W mod ?W" using assms(1) by (simp_all add: counts_def)
  have c0: "unat ?c0 = (?a + ?b) mod ?W" by (simp only: unat_word_ariths p c) simp
  have lt: "?a < ?W" "?b < ?W" by simp_all
  have carry: "?c0 < push_bit 3 ?N \<longleftrightarrow> ?W \<le> ?a + ?b"
    unfolding word_less_nat_alt c0 p by (rule carry_iff) simp_all
  have sum: "8 * (n + len) div ?W = 8 * n div ?W + 8 * len div ?W + (if ?W \<le> ?a + ?b then 1 else 0)"
    unfolding distrib_left div_add1_eq [of "8 * n" "8 * len"] carry_div [OF lt] by (rule refl)
  have c1: "unat ((if ?c0 < push_bit 3 ?N then md_count1 ctx + 1 else md_count1 ctx) + drop_bit 29 ?N) =
      (8 * n div ?W + 8 * len div ?W + (if ?W \<le> ?a + ?b then 1 else 0)) mod ?W"
    unfolding carry by (cases "?W \<le> ?a + ?b") (simp_all only: unat_add_u32 c d unsigned_1 if_True if_False mod_add_left_eq mod_add_right_eq add_0_left add_0_right add.assoc add.commute add.left_commute)
  show ?thesis
    unfolding counts_def count_bits_def Let_def using c0 c1 sum by (simp add: mod_simps distrib_left)
qed

lemma counts_mod_64:
  assumes "counts ctx n"
  shows "unat (drop_bit 3 (md_count0 ctx) AND 0x3F) = n mod 64"
proof -
  have "unat (drop_bit 3 (md_count0 ctx) AND 0x3F) = 8 * n mod 2 ^ 32 div 8 mod 64"
    using assms unfolding word_and_63 unsigned_take_bit_eq unat_drop_bit_eq by (simp add: take_bit_eq_mod drop_bit_eq_div counts_def)
  also have "\<dots> = n mod 64"
    by (simp add: mod_mult2_eq [of "8 * n" 8 "2 ^ 29", simplified] mod_mod_cancel)
  finally show ?thesis .
qed

subsection \<open>What a context holds\<close>

definition md5_start :: "u32 \<times> u32 \<times> u32 \<times> u32" where
  "md5_start = (0x67452301, 0xefcdab89, 0x98badcfe, 0x10325476)"

text \<open>The context has seen the message \<open>m\<close>.\<close>

definition md5_seen :: "md5_ctx \<Rightarrow> bytes \<Rightarrow> bool" where
  "md5_seen ctx m \<longleftrightarrow> counts ctx (length m) \<and> length (md_buffer ctx) = 64 \<and>
     (\<exists>full rest. m = full @ rest \<and> 64 dvd length full \<and> length rest < 64 \<and>
        md_state ctx = words4 (md5_blocks md5_start full) \<and> take (length rest) (md_buffer ctx) = rest)"

lemma md5_seen_Init: "length (md_buffer ctx) = 64 \<Longrightarrow> md5_seen (OVMS_MD5_Init ctx) []"
  by (simp add: md5_seen_def OVMS_MD5_Init_def counts_def md5_start_def)

lemma md5_seen_Update:
  assumes "md5_seen ctx m" "length msg < 2 ^ 32"
  shows "\<exists>ctx'. OVMS_MD5_Update ctx msg = Some ctx' \<and> md5_seen ctx' (m @ msg)"
proof -
  obtain full rest where m: "m = full @ rest" "64 dvd length full" "length rest < 64"
    and st: "md_state ctx = words4 (md5_blocks md5_start full)" "take (length rest) (md_buffer ctx) = rest"
    and cnt: "counts ctx (length m)" and buf: "length (md_buffer ctx) = 64"
    using assms(1) unfolding md5_seen_def by (elim exE conjE)
  let ?x = "length rest" and ?c = "count_bits (length msg) ctx"
  have x: "unat (drop_bit 3 (md_count0 ctx) AND 0x3F) = ?x"
    using counts_mod_64 [OF cnt] m by (auto simp: mod_add_eq elim!: dvdE)
  have c: "md_state ?c = md_state ctx" "md_buffer ?c = md_buffer ctx" by (simp_all add: count_bits_def Let_def)
  have cnt': "counts (?c\<lparr>md_buffer := b\<rparr>) (length (m @ msg))" "counts (?c\<lparr>md_state := s, md_buffer := b\<rparr>) (length (m @ msg))" for s b
    using count_bits_counts [OF cnt assms(2)] by (simp_all add: counts_def)
  show ?thesis
  proof (cases "64 - ?x \<le> length msg")
    case False
    define b where "b = rest @ msg @ drop (?x + length msg) (md_buffer ctx)"
    have "OVMS_MD5_Update ctx msg = Some (?c\<lparr>md_buffer := b\<rparr>)"
      unfolding OVMS_MD5_Update_def Let_def x using False buf st(2) by (simp add: c memcpy_at_def b_def)
    moreover have "md5_seen (?c\<lparr>md_buffer := b\<rparr>) (m @ msg)"
      unfolding md5_seen_def
    proof (intro conjI exI)
      show "m @ msg = full @ (rest @ msg)" using m by simp
    qed (use cnt' m False buf st in \<open>simp_all add: c b_def\<close>)
    ultimately show ?thesis by blast
  next
    case True
    let ?head = "rest @ take (64 - ?x) msg"
    have h64: "length ?head = 64" using True m(3) by simp
    obtain full' rest' where t: "transform_all (words4 (md5_compress (md5_blocks md5_start full) ?head)) (drop (64 - ?x) msg) =
        (words4 (md5_blocks (md5_compress (md5_blocks md5_start full) ?head) full'), rest')"
      "drop (64 - ?x) msg = full' @ rest'" "64 dvd length full'" "length rest' < 64"
      using transform_all_blocks by metis
    define s where "s = words4 (md5_blocks (md5_compress (md5_blocks md5_start full) ?head) full')"
    have e: "words4 (md5_blocks md5_start (full @ ?head @ full')) = s"
      using h64 by (simp only: s_def md5_blocks_append [OF m(2)] md5_blocks_append [of ?head] dvd_refl md5_blocks_block)
    define b where "b = rest' @ drop (length rest') ?head"
    have "OVMS_MD5_Update ctx msg = Some (?c\<lparr>md_state := s, md_buffer := b\<rparr>)"
      unfolding OVMS_MD5_Update_def Let_def x using True buf st m(3) t(4) h64
      by (simp add: c memcpy_at_def b_def s_def transform_compress t(1))
    moreover have "md5_seen (?c\<lparr>md_state := s, md_buffer := b\<rparr>) (m @ msg)"
      unfolding md5_seen_def
    proof (intro conjI exI)
      show "m @ msg = (full @ ?head @ full') @ rest'"
        using m(1) t(2) append_take_drop_id [of "64 - ?x" msg] by (metis append.assoc)
      show "md_state (?c\<lparr>md_state := s, md_buffer := b\<rparr>) = words4 (md5_blocks md5_start (full @ ?head @ full'))"
        using e by simp
    qed (use cnt' m t h64 in \<open>simp_all add: b_def\<close>)
    ultimately show ?thesis by blast
  qed
qed

lemma md5_seen_pad:
  "md5_seen ctx m \<Longrightarrow> \<exists>ctx'. pad_loop n ctx = Some ctx' \<and> md5_seen ctx' (m @ replicate n 0)"
proof (induction n arbitrary: ctx m)
  case (Suc n)
  have "length [0 :: u8] < 2 ^ 32" by simp
  from md5_seen_Update [OF Suc.prems this] obtain ctx1
    where 1: "OVMS_MD5_Update ctx [0] = Some ctx1" "md5_seen ctx1 (m @ [0])" by blast
  from Suc.IH [OF 1(2)] 1(1) show ?case by simp
qed simp

lemma byte_of_word: "ucast (drop_bit n (w :: u32) AND 0xff) = (word_of_nat (unat w div 2 ^ n) :: u8)"
proof -
  have "ucast (drop_bit n w AND 0xff) = (word_of_nat (unat (take_bit 8 (drop_bit n w))) :: u8)"
    by (simp only: word_and_255 of_nat_unat)
  also have "unat (take_bit 8 (drop_bit n w)) = take_bit 8 (unat w div 2 ^ n)"
    unfolding unsigned_take_bit_eq unat_drop_bit_eq by (simp only: drop_bit_eq_div)
  also have "word_of_nat \<dots> = (word_of_nat (unat w div 2 ^ n) :: u8)"
    by (simp add: word_of_nat_eq_iff)
  finally show ?thesis .
qed

lemma byte_of_mod: "i + 8 \<le> j \<Longrightarrow> (word_of_nat (k mod 2 ^ j div 2 ^ i) :: u8) = word_of_nat (k div 2 ^ i)"
proof -
  assume "i + 8 \<le> j"
  then have m: "min 8 (j - i) = 8" by simp
  show ?thesis
    unfolding word_of_nat_eq_iff take_bit_eq_mod [of j k, symmetric] drop_bit_eq_div [symmetric]
    by (simp add: drop_bit_take_bit m)
qed

lemma length_le64 [simp]: "length (le64 n) = 8"
  by (simp add: le64_def)

lemma Encode_words:
  assumes "unat c0 = n mod 2 ^ 32" "unat c1 = n div 2 ^ 32 mod 2 ^ 32"
  shows "OVMS_Encode [c0, c1] = le64 n"
proof -
  have mods: "word_of_nat (k mod 2 ^ 32 div 2 ^ 0) = (word_of_nat (k div 2 ^ 0) :: u8)"
    "word_of_nat (k mod 2 ^ 32 div 2 ^ 8) = (word_of_nat (k div 2 ^ 8) :: u8)"
    "word_of_nat (k mod 2 ^ 32 div 2 ^ 16) = (word_of_nat (k div 2 ^ 16) :: u8)"
    "word_of_nat (k mod 2 ^ 32 div 2 ^ 24) = (word_of_nat (k div 2 ^ 24) :: u8)" for k
    by (rule byte_of_mod; simp)+
  have low: "ucast (w AND 0xff) = (word_of_nat (unat w div 2 ^ 0) :: u8)" for w :: u32
    using byte_of_word [of 0 w] by simp
  have shift: "k div 2 ^ 32 div 2 ^ i = k div 2 ^ (32 + i)" for k i :: nat
    by (simp only: power_add div_mult2_eq)
  have sums: "(32 :: nat) + 0 = 32" "(32 :: nat) + 8 = 40" "(32 :: nat) + 16 = 48" "(32 :: nat) + 24 = 56" by simp_all
  have "le64 n = map word_of_nat [n div 2 ^ 0, n div 2 ^ 8, n div 2 ^ 16, n div 2 ^ 24, n div 2 ^ 32, n div 2 ^ 40, n div 2 ^ 48, n div 2 ^ 56]"
    by (simp add: le64_def upt_rec)
  then show ?thesis
    by (simp only: OVMS_Encode.simps byte_of_word) (simp only: low assms mods shift sums append_Cons append_Nil list.map)
qed

lemma Encode_counts: "counts ctx n \<Longrightarrow> OVMS_Encode [md_count0 ctx, md_count1 ctx] = le64 (8 * n)"
  unfolding counts_def by (elim conjE) (rule Encode_words)

lemma pad_zeros: "x < 64 \<Longrightarrow> (if x < 56 then 56 - x else 120 - x) - 1 = (119 - x :: nat) mod 64"
  by (auto simp: mod_if)

lemma md5_seen_Final:
  assumes "md5_seen ctx m"
  shows "\<exists>ctx'. OVMS_MD5_Final ctx = Some (md5_digest m, ctx') \<and> length (md_buffer ctx') = 64"
proof -
  have cnt: "counts ctx (length m)" using assms by (simp add: md5_seen_def)
  let ?x = "length m mod 64"
  let ?pad = "if ?x < 56 then 56 - ?x else 120 - ?x"
  let ?bits = "le64 (8 * length m)"
  have x: "unat (drop_bit 3 (md_count0 ctx) AND 0x3f) = ?x" by (rule counts_mod_64 [OF cnt])
  have xl: "?x < 64" by simp
  have p: "(0 < ?pad) = True" using xl by (cases "?x < 56") simp_all
  have pad: "?pad - 1 = (119 - ?x) mod 64" by (rule pad_zeros [OF xl])
  have "length [0x80 :: u8] < 2 ^ 32" "length ?bits < 2 ^ 32" by simp_all
  from md5_seen_Update [OF assms this(1)] obtain ctx1 where
    1: "OVMS_MD5_Update ctx [0x80] = Some ctx1" "md5_seen ctx1 (m @ [0x80])" by blast
  from md5_seen_pad [OF 1(2), of "?pad - 1"] obtain ctx2 where
    2: "pad_loop (?pad - 1) ctx1 = Some ctx2" "md5_seen ctx2 ((m @ [0x80]) @ replicate (?pad - 1) 0)" by blast
  from md5_seen_Update [OF 2(2) \<open>length ?bits < 2 ^ 32\<close>] obtain ctx3 where
    3: "OVMS_MD5_Update ctx2 ?bits = Some ctx3" "md5_seen ctx3 (md5_padded m)"
    unfolding md5_padded_def pad append.assoc by blast
  have "OVMS_MD5_Final ctx = Some (OVMS_Encode (md_state ctx3), ctx3)"
    unfolding OVMS_MD5_Final_def Let_def x Encode_counts [OF cnt] by (simp only: p if_True 1(1) 2(1) 3(1) bind.bind_lunit)
  moreover have "OVMS_Encode (md_state ctx3) = md5_digest m"
  proof -
    obtain full rest where f: "md5_padded m = full @ rest" "64 dvd length full" "length rest < 64"
      "md_state ctx3 = words4 (md5_blocks md5_start full)"
      using 3(2) unfolding md5_seen_def by blast
    have "length (md5_padded m) = length m + 9 + (119 - ?x) mod 64" by (simp add: md5_padded_def)
    also have "\<dots> = 64 * (length m div 64) + (?x + 9 + (?pad - 1))" by (simp only: pad) simp
    finally have "64 dvd length (md5_padded m)" using xl by (cases "?x < 56") simp_all
    then have "rest = []" using f(1-3) by (auto simp: dvd_add_right_iff dest: dvd_imp_le)
    then show ?thesis using f(1,4) by (simp add: md5_digest_def md5_start_def split: prod.splits)
  qed
  moreover have "length (md_buffer ctx3) = 64" using 3(2) by (simp add: md5_seen_def)
  ultimately show ?thesis by simp
qed

end
