(* ===== verification/Hmac.thy ===== *)
theory Hmac
  imports Md5
begin

unbundle bit_operations_syntax

section \<open>HMAC-MD5\<close>

text \<open>
  \<open>components/crypto/crypt_hmac.cpp\<close>.  What the local variable \<open>context\<close> holds at the beginning is an argument;
  \<open>None\<close> is a write behind \<open>k_ipad\<close> or \<open>k_opad\<close>.  The reference is RFC 2104 for keys of up to a block.
\<close>

definition hmac_md5 :: "md5_ctx \<Rightarrow> bytes \<Rightarrow> bytes \<Rightarrow> bytes option" where
  "hmac_md5 context msg key = do {
     k_ipad \<leftarrow> memcpy_at (replicate 64 0) 0 key;
     k_opad \<leftarrow> memcpy_at (replicate 64 0) 0 key;
     let k_ipad = map (\<lambda>b. b XOR 0x36) k_ipad;
     let k_opad = map (\<lambda>b. b XOR 0x5c) k_opad;
     c1 \<leftarrow> OVMS_MD5_Update (OVMS_MD5_Init context) k_ipad;
     c2 \<leftarrow> OVMS_MD5_Update c1 msg;
     (digest, c3) \<leftarrow> OVMS_MD5_Final c2;
     c4 \<leftarrow> OVMS_MD5_Update (OVMS_MD5_Init c3) k_opad;
     c5 \<leftarrow> OVMS_MD5_Update c4 digest;
     (digest', c6) \<leftarrow> OVMS_MD5_Final c5;
     Some digest' }"

definition rfc2104 :: "bytes \<Rightarrow> bytes \<Rightarrow> bytes" where
  "rfc2104 key text =
     (let k = key @ replicate (64 - length key) 0 in
      md5_digest (map (\<lambda>b. b XOR 0x5c) k @ md5_digest (map (\<lambda>b. b XOR 0x36) k @ text)))"

lemma length_OVMS_Encode: "length (OVMS_Encode ws) = 4 * length ws"
  by (induction ws) simp_all

lemma length_md5_digest [simp]: "length (md5_digest m) = 16"
  by (simp add: md5_digest_def length_OVMS_Encode split: prod.splits)

text \<open>One pass of the incremental interface: two pieces and the digest.\<close>

lemma md5_two_pieces:
  assumes "length (md_buffer ctx) = 64" "length a < 2 ^ 32" "length b < 2 ^ 32"
  obtains c1 c2 c3 where "OVMS_MD5_Update (OVMS_MD5_Init ctx) a = Some c1" "OVMS_MD5_Update c1 b = Some c2"
    "OVMS_MD5_Final c2 = Some (md5_digest (a @ b), c3)" "length (md_buffer c3) = 64"
proof -
  from md5_seen_Update [OF md5_seen_Init [OF assms(1)] assms(2)] obtain c1
    where 1: "OVMS_MD5_Update (OVMS_MD5_Init ctx) a = Some c1" "md5_seen c1 a" by auto
  from md5_seen_Update [OF 1(2) assms(3)] obtain c2
    where 2: "OVMS_MD5_Update c1 b = Some c2" "md5_seen c2 (a @ b)" by auto
  from md5_seen_Final [OF 2(2)] show ?thesis using that 1(1) 2(1) by blast
qed

lemma hmac_md5_short:
  assumes "length (md_buffer context) = 64" "length msg < 2 ^ 31" and True: "length key \<le> 64"
  shows "hmac_md5 context msg key = Some (rfc2104 key msg)"
proof -
  let ?k = "key @ replicate (64 - length key) 0"
  let ?i = "map (\<lambda>b. b XOR 0x36) ?k" and ?o = "map (\<lambda>b. b XOR 0x5c) ?k"
  have k: "memcpy_at (replicate 64 0) 0 key = Some ?k" using True by (simp add: memcpy_at_def)
  have len: "length ?i < 2 ^ 32" "length ?o < 2 ^ 32" "length msg < 2 ^ 32" "length (md5_digest (?i @ msg)) < 2 ^ 32"
    using True assms(2) by simp_all
  obtain c1 c2 c3 where 1: "OVMS_MD5_Update (OVMS_MD5_Init context) ?i = Some c1" "OVMS_MD5_Update c1 msg = Some c2"
    "OVMS_MD5_Final c2 = Some (md5_digest (?i @ msg), c3)" "length (md_buffer c3) = 64"
    by (rule md5_two_pieces [OF assms(1) len(1,3)])
  obtain c4 c5 c6 where 2: "OVMS_MD5_Update (OVMS_MD5_Init c3) ?o = Some c4"
    "OVMS_MD5_Update c4 (md5_digest (?i @ msg)) = Some c5"
    "OVMS_MD5_Final c5 = Some (md5_digest (?o @ md5_digest (?i @ msg)), c6)"
    by (rule md5_two_pieces [OF 1(4) len(2,4)])
  show ?thesis
    unfolding hmac_md5_def rfc2104_def Let_def k by (simp only: bind.bind_lunit 1 2 prod.case)
qed



end
