(* ===== verification/ServerV2.thy ===== *)
theory ServerV2
  imports OvmsBuffer Base64 Rc4 Hmac
begin

unbundle bit_operations_syntax

section \<open>The connection to a V2 server\<close>

text \<open>
  \<open>OvmsServerV2\<close> (\<open>components/ovms_server_v2/src/ovms_server_v2.cpp\<close>): login, the encrypted line protocol, and
  the states of the connection.  The record has the fields of the class that this part uses; what the functions do to
  the outside is a list: bytes given to \<open>mg_send\<close>, the closing flag of a connection, the event a change of
  state signals, and the payloads handed to \<open>ProcessCommand\<close> and \<open>HandleNotifyDataAck\<close>.  \<open>None\<close> is an
  access outside a buffer, a read of a byte nobody has written, or an exception nobody catches
  (\<open>std::string::at\<close>).

  The environment holds what the functions find: uninitialised local memory, the random numbers, the clock, the
  module's password, and the messages \<open>ProcessCommand\<close> transmits for a payload.  The Mongoose
  lock is always granted.
\<close>

subsection \<open>The state\<close>

datatype v2_state =
  Undefined | WaitNetwork | ConnectWait | Connecting | Authenticating | Connected | Disconnected | WaitReconnect

datatype v2_out =
  MgSend nat bytes | CloseConn nat | StateEvent v2_state | AppEvent bool | Command bytes | DataAck int | RestartNetwork | AuthAlert

record v2 =
  v_state :: v2_state
  v_mgconn :: "nat option"
  v_connretry :: int
  v_buffer :: ovms_buffer
  v_vehicleid :: bytes
  v_server :: bytes
  v_password :: bytes
  v_port :: bytes
  v_tls :: bool
  v_paranoid :: bool
  v_token :: bytes
  v_rx :: rc4_ctx
  v_tx :: rc4_ctx
  v_pdigest :: bytes
  v_ptoken :: bytes
  v_ptoken_ready :: bool
  v_lastrx :: u32
  v_ping :: int
  v_lasttx :: u32
  v_peers :: int
  v_ms_connected :: bool
  v_ms_peers :: int
  v_pending_info :: bool
  v_pending_error :: bool
  v_pending_alert :: bool
  v_pending_data :: bool
  v_pending_last :: u32
  v_pending_retransmit :: int
  v_out :: "v2_out list"

record v2_env =
  e_ctx :: md5_ctx
  e_in :: bytes
  e_d0 :: u8
  e_random :: "u32 list"
  e_now :: u32
  e_modpass :: bytes
  e_answer :: "bytes \<Rightarrow> bytes list"

definition emit :: "v2_out \<Rightarrow> v2 \<Rightarrow> v2" where
  "emit e v = v\<lparr>v_out := v_out v @ [e]\<rparr>"

definition str :: "string \<Rightarrow> bytes" where
  "str = map of_char"

text \<open>The C string at the start of an array.\<close>

definition c_str :: "bytes \<Rightarrow> bytes option" where
  "c_str m = (if 0 \<in> set m then Some (takeWhile (\<lambda>b. b \<noteq> 0) m) else None)"

definition SetStatus :: "v2_state \<Rightarrow> v2 \<Rightarrow> v2" where
  "SetStatus newstate v =
     (if newstate \<noteq> Undefined \<and> newstate \<noteq> v_state v then emit (StateEvent newstate) (v\<lparr>v_state := newstate\<rparr>) else v)"

definition close_conn :: "v2 \<Rightarrow> v2" where
  "close_conn v = (case v_mgconn v of None \<Rightarrow> v | Some c \<Rightarrow> emit (CloseConn c) (v\<lparr>v_mgconn := None\<rparr>))"

definition Disconnect :: "v2 \<Rightarrow> v2" where
  "Disconnect v =
     (close_conn v)\<lparr>v_buffer := EmptyAll (v_buffer v), v_connretry := 0, v_ms_connected := False, v_ms_peers := 0\<rparr>"

definition Reconnect :: "int \<Rightarrow> v2 \<Rightarrow> v2" where
  "Reconnect connretry v =
     (close_conn v)\<lparr>v_buffer := EmptyAll (v_buffer v), v_connretry := connretry, v_ms_connected := False, v_ms_peers := 0\<rparr>"

text \<open>What most errors do.\<close>

definition fail_retry :: "int \<Rightarrow> v2 \<Rightarrow> v2" where
  "fail_retry n v = Reconnect n (SetStatus WaitReconnect v)"

subsection \<open>Keys\<close>

definition random_token :: "u32 list \<Rightarrow> bytes" where
  "random_token rs = map (\<lambda>r. cb64 ! (unat r mod 64)) (take 22 rs)"

text \<open>\<open>RC4_setup\<close> with a digest and the 1024 discarded bytes, each from a message of one zero.\<close>

definition discard_1024 :: "rc4_ctx \<Rightarrow> rc4_ctx" where
  "discard_1024 c = ((\<lambda>c. fst (RC4_crypt c [0])) ^^ 1024) c"

definition crypto_setup :: "bytes \<Rightarrow> rc4_ctx option" where
  "crypto_setup digest = map_option discard_1024 (RC4_setup digest 16)"

text \<open>A digest in base64, as the C string in a local array of \<open>n\<close> bytes.\<close>

definition digest_text :: "v2_env \<Rightarrow> nat \<Rightarrow> bytes \<Rightarrow> bytes option" where
  "digest_text e n digest = do {
     (m, k) \<leftarrow> base64encode_at (e_in e) (replicate n 0) 0 digest;
     c_str m }"

subsection \<open>Sending\<close>

text \<open>The codes whose messages stay as they are in paranoid mode.\<close>

definition plain_codes :: bytes where
  "plain_codes = str ''EAagP''"

text \<open>The paranoid form: the array \<open>s\<close> after the branch.\<close>

definition paranoid_form :: "v2_env \<Rightarrow> v2 \<Rightarrow> bytes \<Rightarrow> bytes \<Rightarrow> bytes option" where
  "paranoid_form e v message s = do {
     let d = drop 6 message;
     c \<leftarrow> crypto_setup (v_pdigest v);
     let d' = snd (RC4_crypt c d);
     s1 \<leftarrow> memcpy_at s 0 (str ''MP-0 EM'' @ [0]);
     s2 \<leftarrow> memcpy_at s1 7 [message ! 5, 0];
     map_option fst (base64encode_at (e_in e) s2 8 d') }"

text \<open>What goes out for a message, and the cipher after it.\<close>

definition wire_line :: "v2_env \<Rightarrow> v2 \<Rightarrow> bytes \<Rightarrow> (rc4_ctx \<times> bytes) option" where
  "wire_line e v message = do {
     let len = length message;
     let s = message @ replicate (len + 4) 0;
     s' \<leftarrow> (if v_ptoken_ready v
           then do { code \<leftarrow> rd message 5; if code \<notin> set plain_codes then paranoid_form e v message s else Some s }
           else Some s);
     let (tx, t) = RC4_crypt (v_tx v) (take len s');
     (buf, k) \<leftarrow> base64encode_at (e_in e) (replicate (len * 2 + 4) 0) 0 t;
     buf' \<leftarrow> memcpy_at buf k (str [CHR 0x0D, CHR 0x0A] @ [0]);
     line \<leftarrow> c_str buf';
     Some (tx, line) }"

definition Transmit :: "v2_env \<Rightarrow> bytes \<Rightarrow> v2 \<Rightarrow> (bool \<times> v2) option" where
  "Transmit e message v =
     (case v_mgconn v of
        None \<Rightarrow> Some (False, v)
      | Some conn \<Rightarrow> do { (tx, line) \<leftarrow> wire_line e v message; Some (True, emit (MgSend conn line) (v\<lparr>v_tx := tx\<rparr>)) })"

primrec transmit_all :: "v2_env \<Rightarrow> bytes list \<Rightarrow> v2 \<Rightarrow> v2 option" where
  "transmit_all e [] v = Some v"
| "transmit_all e (m # ms) v = do { (ok, v1) \<leftarrow> Transmit e m v; transmit_all e ms v1 }"

definition SendLogin :: "v2_env \<Rightarrow> nat \<Rightarrow> v2 \<Rightarrow> v2 option" where
  "SendLogin e nc v0 = do {
     let v = SetStatus Authenticating v0;
     let token = random_token (e_random e);
     digest \<leftarrow> hmac_md5 (e_ctx e) token (v_password v);
     let head = str ''MP-C 0 '' @ token @ str '' '';
     hello \<leftarrow> memcpy_at (replicate 256 0) 0 (head @ [0]);
     (hello1, k) \<leftarrow> base64encode_at (e_in e) hello (length head) digest;
     hello2 \<leftarrow> memcpy_at hello1 k (str '' '' @ v_vehicleid v @ str [CHR 0x0D, CHR 0x0A] @ [0]);
     line \<leftarrow> c_str hello2;
     Some (emit (MgSend nc line) (v\<lparr>v_token := token, v_ptoken := [], v_ptoken_ready := False, v_connretry := 60\<rparr>)) }"

subsection \<open>Receiving\<close>

text \<open>\<open>atoi\<close>: white space, a sign, digits; out of range it saturates like \<open>strtol\<close>.\<close>

definition is_space :: "u8 \<Rightarrow> bool" where
  "is_space c \<longleftrightarrow> c = 32 \<or> (9 \<le> c \<and> c \<le> 13)"

definition is_digit :: "u8 \<Rightarrow> bool" where
  "is_digit c \<longleftrightarrow> 48 \<le> c \<and> c \<le> 57"

definition digits_value :: "bytes \<Rightarrow> int" where
  "digits_value cs = fold (\<lambda>c n. 10 * n + (uint c - 48)) (takeWhile is_digit cs) 0"

definition atoi :: "bytes \<Rightarrow> int" where
  "atoi cs =
     (let t = dropWhile is_space cs;
          n = (case t of [] \<Rightarrow> 0 | c # r \<Rightarrow> if c = 45 then - digits_value r else if c = 43 then digits_value r else digits_value t) in
      max (- (2 ^ 31)) (min (2 ^ 31 - 1) n))"

text \<open>The welcome of the server: the digest is checked, the ciphers are keyed, the paranoid token is sent.\<close>

definition paranoid_welcome :: "v2_env \<Rightarrow> v2 \<Rightarrow> v2 option" where
  "paranoid_welcome e v = do {
     let token = random_token (e_random e);
     (ok, v1) \<leftarrow> Transmit e (str ''MP-0 ET'' @ token) (v\<lparr>v_ptoken := token, v_ptoken_ready := False\<rparr>);
     digest \<leftarrow> hmac_md5 (e_ctx e) token (e_modpass e);
     Some (v1\<lparr>v_ptoken_ready := True, v_pdigest := digest\<rparr>) }"

definition server_welcome :: "v2_env \<Rightarrow> bytes \<Rightarrow> v2 \<Rightarrow> v2 option" where
  "server_welcome e line v =
     (let rest = drop 7 line in
      if 32 \<notin> set rest then Some (fail_retry 60 v)
      else let token = takeWhile (\<lambda>c. c \<noteq> 32) rest; digest = tl (dropWhile (\<lambda>c. c \<noteq> 32) rest) in
        if v_token v = token then Some (fail_retry 60 v)
        else do {
          sdigest \<leftarrow> hmac_md5 (e_ctx e) token (v_password v);
          sdb \<leftarrow> digest_text e 32 sdigest;
          if digest \<noteq> sdb then Some (fail_retry 60 v)
          else do {
            key \<leftarrow> hmac_md5 (e_ctx e) (token @ v_token v) (v_password v);
            rx \<leftarrow> crypto_setup key;
            tx \<leftarrow> crypto_setup key;
            v1 \<leftarrow> (let v1 = v\<lparr>v_rx := rx, v_tx := tx\<rparr> in if v_paranoid v then paranoid_welcome e v1 else Some v1);
            Some (SetStatus Connected (v1\<lparr>v_pending_info := True, v_pending_error := True, v_pending_alert := True,
              v_pending_data := True, v_pending_last := 0, v_pending_retransmit := 0, v_connretry := 0, v_ping := 0,
              v_ms_connected := True\<rparr>)) } })"

text \<open>A message \<open>MP-0 EM\<close>: \<open>d\<close> is decoded from its second byte on.\<close>

definition paranoid_decode :: "v2_env \<Rightarrow> v2 \<Rightarrow> bytes \<Rightarrow> bytes option" where
  "paranoid_decode e v line = do {
     code \<leftarrow> rd line 7;
     (d, len) \<leftarrow> base64decode_at (e_in e) (drop 7 line @ [0]) (e_d0 e # replicate (length line - 7) 0) 1;
     c \<leftarrow> crypto_setup (v_pdigest v);
     d' \<leftarrow> c_str (snd (RC4_crypt c (take len d)) @ drop len d);
     Some (str ''MP-0 '' @ [code] @ d') }"

definition server_code :: "v2_env \<Rightarrow> u8 \<Rightarrow> bytes \<Rightarrow> v2 \<Rightarrow> v2 option" where
  "server_code e code payload v =
     (if code = of_char CHR ''A'' then map_option snd (Transmit e (str ''MP-0 a'') v)
      else if code = of_char CHR ''Z'' then
        (let nc = atoi payload;
             v1 = v\<lparr>v_ms_peers := nc\<rparr>;
             v2 = (if nc > v_peers v1 then v1\<lparr>v_lasttx := 0\<rparr> else v1);
             v3 = (if nc = 0 \<and> v_peers v2 \<noteq> 0 then emit (AppEvent False) v2 else if nc > 0 then emit (AppEvent True) v2 else v2) in
         Some (v3\<lparr>v_peers := nc\<rparr>))
      else if code = of_char CHR ''h'' then Some (emit (DataAck (atoi payload)) v)
      else if code = of_char CHR ''C'' then transmit_all e (e_answer e payload) (emit (Command payload) v)
      else Some v)"

definition server_line :: "v2_env \<Rightarrow> bytes \<Rightarrow> v2 \<Rightarrow> v2 option" where
  "server_line e line v =
     (if take 7 line = str ''MP-S 0 '' then server_welcome e line v
      else do {
        (b, len) \<leftarrow> base64decode_at (e_in e) (line @ [0]) (replicate (length line + 1) 0) 0;
        let (rx, t) = RC4_crypt (v_rx v) (take len b);
        let v1 = v\<lparr>v_rx := rx\<rparr>;
        msg \<leftarrow> c_str (t @ [0]);
        if take 5 msg \<noteq> str ''MP-0 '' then Some (fail_retry 60 v1)
        else do {
          c5 \<leftarrow> rd msg 5;
          msg' \<leftarrow> (if c5 = of_char CHR ''E'' then do {
                    c6 \<leftarrow> rd msg 6;
                    if c6 = of_char CHR ''M'' then paranoid_decode e v1 msg else Some msg }
                  else Some msg);
          server_code e (msg' ! 5) (drop 6 msg') v1 } })"

definition ProcessServerMsg :: "v2_env \<Rightarrow> v2 \<Rightarrow> v2 option" where
  "ProcessServerMsg e v = do {
     (line, buf) \<leftarrow> ReadLine (v_buffer v);
     server_line e line (v\<lparr>v_lastrx := e_now e, v_buffer := buf\<rparr>) }"

text \<open>
  The loop of \<open>IncomingData\<close>: every pass takes at least the end of a line from the buffer, so the bytes in it bound
  the passes.  The \<open>i\<close>-th pass finds the environment \<open>es i\<close>.
\<close>

primrec line_passes :: "nat \<Rightarrow> (nat \<Rightarrow> v2_env) \<Rightarrow> nat \<Rightarrow> v2 \<Rightarrow> v2 option" where
  "line_passes 0 es i v = Some v"
| "line_passes (Suc n) es i v = do {
     hl \<leftarrow> HasLine (v_buffer v);
     if hl \<ge> 0 \<and> v_mgconn v \<noteq> None then do { v1 \<leftarrow> ProcessServerMsg (es i) v; line_passes n es (i + 1) v1 } else Some v }"

definition IncomingData :: "(nat \<Rightarrow> v2_env) \<Rightarrow> bytes \<Rightarrow> v2 \<Rightarrow> (nat \<times> v2) option" where
  "IncomingData es data v = do {
     (ok, buf) \<leftarrow> Push_block data (v_buffer v);
     if ok then do { v1 \<leftarrow> line_passes (m_used buf) es 0 (v\<lparr>v_buffer := buf\<rparr>); Some (length data, v1) }
     else Some (0, v) }"

subsection \<open>The connection\<close>

text \<open>What the configuration says, and what the network answers to \<open>mg_connect_opt\<close>.\<close>

record v2_conf =
  c_vehicleid :: bytes
  c_server :: bytes
  c_password :: bytes
  c_port :: bytes
  c_tls :: bool
  c_paranoid :: bool
  c_timeout_rx :: int
  c_idle :: int
  c_connected :: int

record v2_net =
  n_up :: bool
  n_running :: bool
  n_ssl :: bool
  n_conn :: "nat option"

definition Connect :: "v2_conf \<Rightarrow> v2_net \<Rightarrow> v2 \<Rightarrow> v2" where
  "Connect cf net v0 =
     (let v = v0\<lparr>v_vehicleid := c_vehicleid cf, v_server := c_server cf, v_password := c_password cf,
            v_port := if c_port cf = [] then if c_tls cf then str ''6870'' else str ''6867'' else c_port cf,
            v_tls := c_tls cf, v_paranoid := c_paranoid cf\<rparr> in
      if v_vehicleid v = [] \<or> v_server v = [] \<or> v_password v = [] then (SetStatus WaitReconnect v)\<lparr>v_connretry := 20\<rparr>
      else let v = SetStatus Connecting v in
        if \<not> n_running net then (SetStatus WaitReconnect v)\<lparr>v_connretry := 20\<rparr>
        else if v_tls v \<and> \<not> n_ssl net then SetStatus Undefined v
        else case n_conn net of
            None \<Rightarrow> (SetStatus WaitReconnect (v\<lparr>v_mgconn := None\<rparr>))\<lparr>v_connretry := 60\<rparr>
          | Some c \<Rightarrow> v\<lparr>v_mgconn := Some c\<rparr>)"

text \<open>The events of Mongoose, and what is left in the connection's receive buffer after \<open>MG_EV_RECV\<close>.\<close>

definition on_connect :: "v2_env \<Rightarrow> nat \<Rightarrow> bool \<Rightarrow> v2 \<Rightarrow> v2 option" where
  "on_connect e nc success v =
     (if success then SendLogin e nc v
      else Some ((SetStatus WaitReconnect (v\<lparr>v_mgconn := None\<rparr>))\<lparr>v_connretry := 60\<rparr>))"

definition on_close :: "nat \<Rightarrow> v2 \<Rightarrow> v2" where
  "on_close nc v =
     (if v_state v = Authenticating then emit AuthAlert (Reconnect (- 1) (SetStatus Disconnected v))
      else if v_state v \<noteq> WaitReconnect then Reconnect 10 (SetStatus WaitReconnect v)
      else v)"

definition on_recv :: "(nat \<Rightarrow> v2_env) \<Rightarrow> bytes \<Rightarrow> v2 \<Rightarrow> (bytes \<times> v2) option" where
  "on_recv es mbuf v = do { (n, v1) \<leftarrow> IncomingData es mbuf v; Some (drop n mbuf, v1) }"

definition NetUp :: "v2_net \<Rightarrow> v2 \<Rightarrow> v2" where
  "NetUp net v =
     (if v_mgconn v = None \<and> n_running net \<and> v_connretry v \<ge> 0 then (SetStatus ConnectWait v)\<lparr>v_connretry := 2\<rparr> else v)"

definition NetReconfigured :: "v2 \<Rightarrow> v2" where
  "NetReconfigured v = (if v_connretry v \<ge> 0 then Reconnect 3 (SetStatus ConnectWait v) else v)"

definition NetmanInit :: "v2_net \<Rightarrow> v2 \<Rightarrow> v2" where
  "NetmanInit net v =
     (if v_mgconn v = None \<and> n_up net \<and> v_connretry v \<ge> 0 then (SetStatus ConnectWait v)\<lparr>v_connretry := 2\<rparr> else v)"

definition NetmanStop :: "v2 \<Rightarrow> v2" where
  "NetmanStop v = (if v_mgconn v \<noteq> None then Disconnect (SetStatus WaitNetwork v) else v)"

text \<open>\<open>changed\<close>: a parameter the connection was made with has a new value.\<close>

definition ConfigChanged :: "bool \<Rightarrow> v2 \<Rightarrow> v2" where
  "ConfigChanged changed v =
     (if changed \<and> (v_mgconn v \<noteq> None \<or> v_connretry v < 0) then SetStatus WaitReconnect (Reconnect 2 v) else v)"

definition tick_connect :: "v2_conf \<Rightarrow> v2_net \<Rightarrow> v2 \<Rightarrow> v2" where
  "tick_connect cf net v =
     (if v_connretry v > 0 \<and> n_up net
      then let v1 = v\<lparr>v_connretry := v_connretry v - 1\<rparr> in
        if v_connretry v1 = 0 then Connect cf net (if v_mgconn v1 \<noteq> None then Disconnect v1 else v1) else v1
      else v)"

definition tick_network :: "v2_net \<Rightarrow> v2 \<Rightarrow> v2" where
  "tick_network net v =
     (if \<not> n_up net \<and> v_state v \<noteq> WaitNetwork \<and> v_connretry v \<ge> 0 then SetStatus WaitNetwork (v\<lparr>v_connretry := 0\<rparr>) else v)"

text \<open>The ping and the check for a silent connection; the flag is the early return.\<close>

definition tick_ping :: "v2_env \<Rightarrow> v2_conf \<Rightarrow> v2 \<Rightarrow> (bool \<times> v2) option" where
  "tick_ping e cf v =
     (if c_timeout_rx cf = 0 then Some (False, v)
      else let rxtimeout = max 120 (c_timeout_rx cf); v1 = v\<lparr>v_ping := v_ping v + 1\<rparr> in
        if v_ping v1 \<ge> rxtimeout - 60 then do { (ok, v2) \<leftarrow> Transmit e (str ''MP-0 A'') v1; Some (False, v2\<lparr>v_ping := 0\<rparr>) }
        else if e_now e \<ge> v_lastrx v1 + word_of_int rxtimeout
          then Some (True, emit RestartNetwork (Disconnect (SetStatus WaitNetwork v1)))
        else Some (False, v1))"

text \<open>One second.  \<open>due\<close> are the messages with metrics, \<open>others\<close> those the flags ask for, and the notifications.\<close>

definition Ticker1 :: "v2_env \<Rightarrow> v2_conf \<Rightarrow> v2_net \<Rightarrow> bytes list \<Rightarrow> bytes list \<Rightarrow> v2 \<Rightarrow> v2 option" where
  "Ticker1 e cf net due others v0 =
     (let v = tick_network net (tick_connect cf net v0) in
      if \<not> v_ms_connected v then Some v
      else do {
        (stop, v1) \<leftarrow> tick_ping e cf v;
        if stop then Some v1
        else let wait = word_of_int (if v_peers v1 = 0 then c_idle cf else c_connected cf) in
          if v_lasttx v1 = 0 \<or> e_now e > v_lasttx v1 + wait
          then do { v2 \<leftarrow> transmit_all e due v1; transmit_all e others (v2\<lparr>v_lasttx := e_now e\<rparr>) }
          else transmit_all e others v1 })"

text \<open>The constructor: the members it does not initialise are those of \<open>mem\<close>.\<close>

definition OvmsServerV2 :: "bytes \<Rightarrow> v2_conf \<Rightarrow> v2_net \<Rightarrow> v2 \<Rightarrow> v2" where
  "OvmsServerV2 fresh cf net mem =
     (let v = SetStatus WaitNetwork (mem\<lparr>v_buffer := OvmsBuffer fresh\<rparr>);
          v1 = v\<lparr>v_lasttx := 0, v_peers := 0, v_connretry := 0, v_mgconn := None, v_pending_info := False,
            v_pending_error := False, v_pending_alert := False, v_pending_data := False, v_pending_last := 0,
            v_pending_retransmit := 0, v_lastrx := 0, v_ping := 0\<rparr> in
      if n_up net then Connect cf net v1 else v1)"

end
