(* ===== verification/ServerV2Session.thy ===== *)
theory ServerV2Session
  imports ServerV2
begin

unbundle bit_operations_syntax

section \<open>A session with the V2 server\<close>

text \<open>
  The peer is written from \<open>docs/source/protocol_v2/encryption_scheme_0x30.rst\<close> and \<open>startup.rst\<close>: what it accepts as a
  login, how it answers, how both sides derive the ciphers, and how a line is read.  The lemmas
  evaluate the client's functions on well-formed input, and the properties put the two together.
\<close>

subsection \<open>Text and memory\<close>

definition env_ok :: "v2_env \<Rightarrow> bool" where
  "env_ok e \<longleftrightarrow> length (md_buffer (e_ctx e)) = 64 \<and> length (e_in e) = 4 \<and> length (e_random e) = 22"

text \<open>A client that waits for its connection, and its surroundings; the properties are tried out on it.\<close>

definition example_env :: v2_env where
  "example_env = \<lparr>e_ctx = \<lparr>md_state = [], md_count0 = 3, md_count1 = 0, md_buffer = replicate 64 1\<rparr>, e_in = [1, 2, 3, 4], e_d0 = 7,
     e_random = replicate 22 9, e_now = 100, e_modpass = [], e_answer = (\<lambda>_. [])\<rparr>"

definition example_client :: v2 where
  "example_client = \<lparr>v_state = Connecting, v_mgconn = Some 1, v_connretry = 0, v_buffer = OvmsBuffer (replicate 1024 0),
     v_vehicleid = str ''car'', v_server = str ''host'', v_password = str ''secret'', v_port = str ''6867'', v_tls = False,
     v_paranoid = False, v_token = [], v_rx = \<lparr>rc4_x = 0, rc4_y = 0, rc4_m = replicate 256 0\<rparr>,
     v_tx = \<lparr>rc4_x = 0, rc4_y = 0, rc4_m = replicate 256 0\<rparr>, v_pdigest = replicate 16 5, v_ptoken = [], v_ptoken_ready = False,
     v_lastrx = 0, v_ping = 0, v_lasttx = 0, v_peers = 0, v_ms_connected = False, v_ms_peers = 0, v_pending_info = False,
     v_pending_error = False, v_pending_alert = False, v_pending_data = False, v_pending_last = 0, v_pending_retransmit = 0,
     v_out = []\<rparr>"

lemma example_env_ok: "env_ok example_env"
  by (simp add: env_ok_def example_env_def)

lemma example_buffer: "wf_buffer (v_buffer example_client)" "contents (v_buffer example_client) = []" "m_size (v_buffer example_client) = 1024"
  using wf_new [of "replicate 1024 0"] by (simp_all add: example_client_def) (simp add: OvmsBuffer_def)

lemma c_str_append: "0 \<notin> set t \<Longrightarrow> c_str (t @ 0 # r) = Some t"
  by (induction t) (auto simp: c_str_def)

lemma c_str_end: "c_str (t @ [0]) = Some (takeWhile (\<lambda>b. b \<noteq> 0) t)"
  by (induction t) (auto simp: c_str_def)

lemma base64_text_chars: "c \<in> set (base64_text d) \<Longrightarrow> c \<in> set cb64 \<or> c = 61"
proof -
  assume "c \<in> set (base64_text d)"
  then consider v where "v \<in> set (sextets d)" "c = cb64 ! unat v" | "c = 61" by (auto simp: base64_text_def)
  then show ?thesis
  proof cases
    case (1 v)
    then have "v < 64" using sextets_less [of d] by (simp add: list_all_iff)
    then have "unat v < length cb64" by (simp add: word_less_nat_alt code_of_cb64_table(3))
    then show ?thesis using 1 by simp
  qed simp
qed

lemma base64_text_without: "c \<notin> set cb64 \<Longrightarrow> c \<noteq> 61 \<Longrightarrow> c \<notin> set (base64_text d)"
  using base64_text_chars by blast

lemma base64_text_clean: "0 \<notin> set (base64_text d)" "13 \<notin> set (base64_text d)" "10 \<notin> set (base64_text d)" "32 \<notin> set (base64_text d)"
  by (rule base64_text_without; simp add: cb64_list)+

lemma length_base64_text: "length (base64_text d) = 4 * ((length d + 2) div 3)"
  by (simp add: base64_text_def length_sextets)

lemma base64encode_at_text:
  assumes "length b = 4" "off + 4 * ((length d + 2) div 3) + 1 \<le> length buf"
  shows "base64encode_at b buf off d =
    Some (take off buf @ base64_text d @ 0 # drop (off + length (base64_text d) + 1) buf, off + length (base64_text d))"
  using assms by (simp add: base64encode_at_def base64encode_text memcpy_at_def length_base64_text)

lemma digest_text_ok: "env_ok e \<Longrightarrow> length d = 16 \<Longrightarrow> digest_text e 32 d = Some (base64_text d)"
  by (simp add: env_ok_def digest_text_def base64encode_at_text c_str_append base64_text_clean)

lemma base64decode_text:
  assumes "length b = 4" shows "base64decode False b (base64_text d @ [0]) = Some d"
  using base64decode_codes [OF assms base64_text_clean(1), where str = False and rest = "[]"] codes_base64_text [of d "[]"]
  by (simp add: decode_sextets)

lemma base64decode_at_text:
  assumes "length b = 4" "off + length d + 1 \<le> length buf"
  shows "base64decode_at b (base64_text d @ [0]) buf off = Some (take off buf @ d @ 0 # drop (off + length d + 1) buf, length d)"
  using assms by (simp add: base64decode_at_def base64decode_text memcpy_at_def)

subsection \<open>Ciphers\<close>

lemma RC4_crypt_fst: "fst (RC4_crypt s (a @ b)) = fst (RC4_crypt (fst (RC4_crypt s a)) b)"
  by (simp add: RC4_crypt_append split: prod.splits)

lemma discard_1024_crypt: "discard_1024 c = fst (RC4_crypt c (replicate 1024 0))"
proof -
  have "((\<lambda>c. fst (RC4_crypt c [0])) ^^ n) c = fst (RC4_crypt c (replicate n 0))" for n
  proof (induction n)
    case (Suc n)
    show ?case
      by (simp only: funpow.simps comp_def Suc RC4_crypt_fst [symmetric] replicate_append_same replicate.simps)
  qed simp
  then show ?thesis by (simp add: discard_1024_def)
qed

text \<open>The cipher both sides use: keyed with a digest, 1024 bytes of cipher text discarded.\<close>

definition keyed :: "bytes \<Rightarrow> rc4_ctx option" where
  "keyed digest = do { c \<leftarrow> RC4_setup digest (length digest); Some (fst (RC4_crypt c (replicate 1024 0))) }"

lemma crypto_setup_keyed: "length d = 16 \<Longrightarrow> crypto_setup d = keyed d"
  by (cases "RC4_setup d 16") (simp_all add: crypto_setup_def keyed_def discard_1024_crypt)

lemma keyed_Some: "length d = 16 \<Longrightarrow> \<exists>c. keyed d = Some c"
  using RC4_setup_ksa [of d] by (fastforce simp: keyed_def)

lemma hmac_ok: "env_ok e \<Longrightarrow> length msg < 2 ^ 31 \<Longrightarrow> length key \<le> 64 \<Longrightarrow> hmac_md5 (e_ctx e) msg key = Some (rfc2104 key msg)"
  by (simp add: env_ok_def hmac_md5_short)

lemma length_rfc2104 [simp]: "length (rfc2104 key msg) = 16"
  by (simp add: rfc2104_def Let_def)

text \<open>A table of zeros leaves the message as it is.\<close>

lemma RC4_zero_table:
  "RC4_crypt \<lparr>rc4_x = x, rc4_y = 0, rc4_m = replicate 256 0\<rparr> m =
     (\<lparr>rc4_x = x + word_of_nat (length m), rc4_y = 0, rc4_m = replicate 256 0\<rparr>, m)"
proof (induction m arbitrary: x)
  case (Cons a m)
  have z: "replicate 256 (0 :: u8) ! unat (i :: u8) = 0" "(replicate 256 (0 :: u8))[unat i := 0] = replicate 256 0" for i
    by (simp_all add: list_update_same_conv)
  have "rc4_next \<lparr>rc4_x = x, rc4_y = 0, rc4_m = replicate 256 0\<rparr> = (0, \<lparr>rc4_x = x + 1, rc4_y = 0, rc4_m = replicate 256 0\<rparr>)"
    using z [of "x + 1"] z [of 0] by (simp add: rc4_next_def Let_def)
  then show ?case using Cons.IH [of "x + 1"] by simp
qed simp

subsection \<open>Sending a line\<close>

lemma line_room: "n \<noteq> 1 \<Longrightarrow> 4 * ((n + 2) div 3) + 3 \<le> n * 2 + (4 :: nat)"
  by presburger

lemma line_tail:
  assumes "env_ok e" "length t = n" "n \<noteq> 1"
  shows "do { (buf, k) \<leftarrow> base64encode_at (e_in e) (replicate (n * 2 + 4) 0) 0 t;
      buf' \<leftarrow> memcpy_at buf k (str [CHR 0x0D, CHR 0x0A] @ [0]); line \<leftarrow> c_str buf'; Some (tx, line) } =
    Some (tx :: rc4_ctx, base64_text t @ [13, 10])"
proof -
  have "length (base64_text t) + 3 \<le> n * 2 + 4" using line_room [OF assms(3)] by (simp add: length_base64_text assms(2))
  moreover have "c_str (base64_text t @ [13, 10] @ 0 # r) = Some (base64_text t @ [13, 10])" for r
    using c_str_append [of "base64_text t @ [13, 10]" r] by (simp add: base64_text_clean)
  ultimately show ?thesis
    using assms line_room [OF assms(3)]
    by (simp add: base64encode_at_text env_ok_def memcpy_at_def length_base64_text str_def)
qed

lemma Transmit_line:
  assumes "env_ok e" "v_mgconn v = Some conn" "\<not> v_ptoken_ready v" "length m \<noteq> 1" "RC4_crypt (v_tx v) m = (tx, t)"
  shows "Transmit e m v = Some (True, emit (MgSend conn (base64_text t @ [13, 10])) (v\<lparr>v_tx := tx\<rparr>))"
  using assms(2,3,5) line_tail [OF assms(1) RC4_crypt_length [OF assms(5)] assms(4), of tx]
  by (simp add: Transmit_def wire_line_def)

text \<open>Lines over a stream cipher: each message is encrypted and written as text with CR and LF.\<close>

locale line_cipher = stream_cipher +
  fixes enc :: "bytes \<Rightarrow> bytes" and dec :: "bytes \<Rightarrow> bytes"
  assumes dec_line: "dec (enc d @ [13, 10]) = d"
begin

fun lines :: "'a \<Rightarrow> bytes list \<Rightarrow> 'a \<times> bytes list" where
  "lines s [] = (s, [])"
| "lines s (m # ms) = (let (s1, c) = crypt s m; (s2, ls) = lines s1 ms in (s2, (enc c @ [13, 10]) # ls))"

fun read_lines :: "'a \<Rightarrow> bytes list \<Rightarrow> 'a \<times> bytes list" where
  "read_lines s [] = (s, [])"
| "read_lines s (l # ls) = (let (s1, m) = crypt s (dec l); (s2, ms) = read_lines s1 ls in (s2, m # ms))"

lemma lines_length: "lines s ms = (s', ls) \<Longrightarrow> length ms \<le> length (concat ls)"
proof (induction ms arbitrary: s s' ls)
  case (Cons m ms)
  obtain s1 c where 1: "crypt s m = (s1, c)" by fastforce
  obtain s2 ls' where 2: "lines s1 ms = (s2, ls')" by fastforce
  show ?case using Cons.prems Cons.IH [OF 2] 1 2 by auto
qed simp

lemma read_lines_lines: "lines s ms = (s', ls) \<Longrightarrow> read_lines s ls = (s', ms)"
proof (induction ms arbitrary: s s' ls)
  case (Cons m ms)
  obtain s1 c where 1: "crypt s m = (s1, c)" by fastforce
  obtain s2 ls' where 2: "lines s1 ms = (s2, ls')" by fastforce
  show ?case using Cons.prems Cons.IH [OF 2] crypt_undo [OF 1] 1 2 by (auto simp: dec_line)
qed simp

end

lemma decode_base64_line: "decode_codes (codes (base64_text d @ [13, 10])) = d"
proof -
  have "codes [13, 10] = []" by (simp add: code_value_def)
  then show ?thesis by (simp add: codes_base64_text decode_sextets)
qed

interpretation v2l: line_cipher RC4_crypt base64_text "\<lambda>l. decode_codes (codes l)"
  by unfold_locales (rule decode_base64_line)

lemma transmit_all_lines:
  assumes "env_ok e" "v_mgconn v = Some conn" "\<not> v_ptoken_ready v" "\<forall>m \<in> set ms. length m \<noteq> 1" "v2l.lines (v_tx v) ms = (tx, ls)"
  shows "transmit_all e ms v = Some (v\<lparr>v_tx := tx, v_out := v_out v @ map (MgSend conn) ls\<rparr>)"
  using assms(2-5)
proof (induction ms arbitrary: v tx ls)
  case (Cons m ms)
  obtain tx1 c where 1: "RC4_crypt (v_tx v) m = (tx1, c)" by fastforce
  obtain tx2 ls' where 2: "v2l.lines tx1 ms = (tx2, ls')" by fastforce
  let ?v = "emit (MgSend conn (base64_text c @ [13, 10])) (v\<lparr>v_tx := tx1\<rparr>)"
  have t: "Transmit e m v = Some (True, ?v)"
    by (rule Transmit_line [OF assms(1) Cons.prems(1,2) _ 1]) (use Cons.prems(3) in simp)
  have "transmit_all e ms ?v = Some (?v\<lparr>v_tx := tx2, v_out := v_out ?v @ map (MgSend conn) ls'\<rparr>)"
    by (rule Cons.IH) (use Cons.prems 2 in \<open>simp_all add: emit_def\<close>)
  then show ?case using t Cons.prems(4) 1 2 by (auto simp: emit_def)
qed simp

subsection \<open>Login\<close>

definition server_accepts :: "bytes \<Rightarrow> bytes \<Rightarrow> (bytes \<times> bytes) option" where
  "server_accepts pw line =
     (let rest = drop 7 line; token = takeWhile (\<lambda>c. c \<noteq> 32) rest; r = tl (dropWhile (\<lambda>c. c \<noteq> 32) rest);
          digest = takeWhile (\<lambda>c. c \<noteq> 32) r in
      if take 7 line = str ''MP-C 0 '' \<and> digest = base64_text (rfc2104 pw token)
      then Some (token, tl (dropWhile (\<lambda>c. c \<noteq> 32) r)) else None)"

definition server_hello :: "bytes \<Rightarrow> bytes \<Rightarrow> bytes" where
  "server_hello pw stoken = str ''MP-S 0 '' @ stoken @ [32] @ base64_text (rfc2104 pw stoken)"

definition session_cipher :: "bytes \<Rightarrow> bytes \<Rightarrow> bytes \<Rightarrow> rc4_ctx option" where
  "session_cipher pw stoken ctoken = keyed (rfc2104 pw (stoken @ ctoken))"

lemma takeWhile_space: "32 \<notin> set t \<Longrightarrow> takeWhile (\<lambda>c. c \<noteq> 32) (t @ 32 # r) = t" "32 \<notin> set t \<Longrightarrow> dropWhile (\<lambda>c. c \<noteq> 32) (t @ 32 # r) = 32 # r"
  for t :: bytes
  by (induction t) auto

lemma random_token_chars:
  "c \<in> set (random_token rs) \<Longrightarrow> c \<in> set cb64"
proof -
  assume "c \<in> set (random_token rs)"
  then have "\<exists>r :: u32. c = cb64 ! (unat r mod 64)" unfolding random_token_def set_map by blast
  moreover have "unat r mod 64 < length cb64" for r :: u32 by (simp add: code_of_cb64_table(3))
  ultimately show ?thesis by (metis nth_mem)
qed

lemma random_token_clean: "0 \<notin> set (random_token rs)" "32 \<notin> set (random_token rs)"
proof -
  have "0 \<notin> set cb64" "32 \<notin> set cb64" by (simp_all add: cb64_list)
  then show "0 \<notin> set (random_token rs)" "32 \<notin> set (random_token rs)" using random_token_chars by blast+
qed

lemma length_random_token: "env_ok e \<Longrightarrow> length (random_token (e_random e)) = 22"
  by (simp add: random_token_def env_ok_def)

definition login_line :: "bytes \<Rightarrow> bytes \<Rightarrow> bytes \<Rightarrow> bytes" where
  "login_line pw token vid = str ''MP-C 0 '' @ token @ [32] @ base64_text (rfc2104 pw token) @ [32] @ vid"

lemma SendLogin_line:
  assumes "env_ok e" "length (v_password v) \<le> 64" "length (v_vehicleid v) \<le> 198" "0 \<notin> set (v_vehicleid v)"
  shows "SendLogin e nc v = Some (emit (MgSend nc (login_line (v_password v) (random_token (e_random e)) (v_vehicleid v) @ [13, 10]))
    ((SetStatus Authenticating v)\<lparr>v_token := random_token (e_random e), v_ptoken := [], v_ptoken_ready := False, v_connretry := 60\<rparr>))"
proof -
  let ?t = "random_token (e_random e)"
  have v: "v_password (SetStatus Authenticating v) = v_password v" "v_vehicleid (SetStatus Authenticating v) = v_vehicleid v"
    by (simp_all add: SetStatus_def emit_def)
  have h: "hmac_md5 (e_ctx e) ?t (v_password v) = Some (rfc2104 (v_password v) ?t)"
    by (rule hmac_ok [OF assms(1) _ assms(2)]) (simp add: length_random_token [OF assms(1)])
  have clean: "0 \<notin> set (login_line (v_password v) ?t (v_vehicleid v) @ [13, 10])"
    using assms(4) by (auto simp: login_line_def str_def random_token_clean base64_text_clean)
  show ?thesis
    using assms h v length_random_token [OF assms(1)] c_str_append [OF clean]
    by (simp add: SendLogin_def Let_def memcpy_at_def base64encode_at_text env_ok_def length_base64_text login_line_def str_def)
qed

lemma server_accepts_login:
  "32 \<notin> set token \<Longrightarrow> server_accepts pw (login_line pw token vid) = Some (token, vid)"
  using takeWhile_space [of token "base64_text (rfc2104 pw token) @ 32 # vid"]
    takeWhile_space [of "base64_text (rfc2104 pw token)" vid]
  by (simp add: server_accepts_def login_line_def str_def base64_text_clean Let_def)

text \<open>The welcome of a server that knows the password.\<close>

lemma server_line_welcome:
  assumes "env_ok e" "length (v_password v) \<le> 64" "\<not> v_paranoid v" "32 \<notin> set stoken" "stoken \<noteq> v_token v"
    and "length (stoken @ v_token v) < 2 ^ 31"
  shows "\<exists>c v1. session_cipher (v_password v) stoken (v_token v) = Some c \<and>
    server_line e (server_hello (v_password v) stoken) v = Some v1 \<and> v_state v1 = Connected \<and> v_rx v1 = c \<and> v_tx v1 = c \<and>
    v_mgconn v1 = v_mgconn v \<and> v_ptoken_ready v1 = v_ptoken_ready v \<and> v_connretry v1 = 0 \<and> v_ms_connected v1"
proof -
  let ?pw = "v_password v"
  obtain c where c: "session_cipher ?pw stoken (v_token v) = Some c"
    using keyed_Some [of "rfc2104 ?pw (stoken @ v_token v)"] by (auto simp: session_cipher_def)
  have h: "hmac_md5 (e_ctx e) stoken ?pw = Some (rfc2104 ?pw stoken)"
    "hmac_md5 (e_ctx e) (stoken @ v_token v) ?pw = Some (rfc2104 ?pw (stoken @ v_token v))"
    using assms(6) by (auto intro!: hmac_ok assms(1,2))
  have k: "crypto_setup (rfc2104 ?pw (stoken @ v_token v)) = Some c"
    using c by (simp add: crypto_setup_keyed session_cipher_def)
  have d: "digest_text e 32 (rfc2104 ?pw stoken) = Some (base64_text (rfc2104 ?pw stoken))"
    by (rule digest_text_ok [OF assms(1)]) simp
  show ?thesis
    using assms(3,4,5) c h k d takeWhile_space [OF assms(4), of "base64_text (rfc2104 ?pw stoken)"]
    by (simp add: server_line_def server_hello_def str_def server_welcome_def Let_def SetStatus_def emit_def)
qed

text \<open>C25. The client logs in to a server of the documented protocol and both end up with the same ciphers: what
  \<open>SendLogin\<close> sends is accepted as the login of the vehicle with the client's token; the server's
  welcome, for any token without a space that is not the client's, makes the client connected and keys its ciphers
  with the session's; and from then on every sequence of messages is sent as lines from which the server reads
  these messages in order.
\<close>

theorem login_establishes_session:
  assumes "env_ok e" "v_mgconn v = Some nc" "length (v_password v) \<le> 64" "length (v_vehicleid v) \<le> 198" "0 \<notin> set (v_vehicleid v)"
    and "\<not> v_paranoid v" "32 \<notin> set stoken" "stoken \<noteq> random_token (e_random e)" "length stoken < 1024"
    and "\<forall>m \<in> set ms. length m \<noteq> 1"
  shows "\<exists>hello v1 c v2 v3 ls. SendLogin e nc v = Some v1 \<and> v_out v1 = v_out (SetStatus Authenticating v) @ [MgSend nc (hello @ [13, 10])] \<and>
    server_accepts (v_password v) hello = Some (v_token v1, v_vehicleid v) \<and>
    session_cipher (v_password v) stoken (v_token v1) = Some c \<and>
    server_line e (server_hello (v_password v) stoken) v1 = Some v2 \<and> v_state v2 = Connected \<and> v_rx v2 = c \<and>
    transmit_all e ms v2 = Some v3 \<and> v_out v3 = v_out v2 @ map (MgSend nc) ls \<and>
    v2l.read_lines c ls = (v_tx v3, ms)"
proof -
  let ?t = "random_token (e_random e)"
  let ?hello = "login_line (v_password v) ?t (v_vehicleid v)"
  let ?v1 = "emit (MgSend nc (?hello @ [13, 10])) ((SetStatus Authenticating v)\<lparr>v_token := ?t, v_ptoken := [],
    v_ptoken_ready := False, v_connretry := 60\<rparr>)"
  have s: "SendLogin e nc v = Some ?v1" by (rule SendLogin_line [OF assms(1,3-5)])
  have f: "v_password ?v1 = v_password v" "v_paranoid ?v1 = v_paranoid v" "v_mgconn ?v1 = v_mgconn v" "v_token ?v1 = ?t"
    by (simp_all add: emit_def SetStatus_def)
  have acc: "server_accepts (v_password v) ?hello = Some (?t, v_vehicleid v)"
    by (rule server_accepts_login [OF random_token_clean(2)])
  have "length (v_password ?v1) \<le> 64" "\<not> v_paranoid ?v1" "stoken \<noteq> v_token ?v1" "length (stoken @ v_token ?v1) < 2 ^ 31"
    using assms(3,6,8,9) length_random_token [OF assms(1)] by (simp_all add: f)
  from server_line_welcome [OF assms(1) this(1,2) assms(7) this(3,4)]
  obtain c v2 where w: "session_cipher (v_password v) stoken ?t = Some c"
    "server_line e (server_hello (v_password v) stoken) ?v1 = Some v2" "v_state v2 = Connected" "v_rx v2 = c" "v_tx v2 = c"
    "v_mgconn v2 = Some nc" "\<not> v_ptoken_ready v2"
    unfolding f using assms(2) by (auto simp: emit_def)
  obtain tx ls where l: "v2l.lines c ms = (tx, ls)" by fastforce
  have t: "transmit_all e ms v2 = Some (v2\<lparr>v_tx := tx, v_out := v_out v2 @ map (MgSend nc) ls\<rparr>)"
    by (rule transmit_all_lines [OF assms(1) w(6,7) assms(10)]) (simp add: w(5) l)
  show ?thesis
    using s acc w t v2l.read_lines_lines [OF l]
    by (intro exI [of _ ?hello] exI [of _ ?v1] exI [of _ c] exI [of _ v2] exI [of _ ls]
        exI [of _ "v2\<lparr>v_tx := tx, v_out := v_out v2 @ map (MgSend nc) ls\<rparr>"]) (simp add: emit_def)
qed

theorem login_establishes_session_witness:
  "\<exists>v1 c v2 v3 ls. SendLogin example_env 1 example_client = Some v1 \<and>
     server_line example_env (server_hello (str ''secret'') (str ''tok'')) v1 = Some v2 \<and> v_state v2 = Connected \<and>
     transmit_all example_env [str ''MP-0 a''] v2 = Some v3 \<and> v2l.read_lines c ls = (v_tx v3, [str ''MP-0 a''])"
proof -
  have "v_mgconn example_client = Some 1" "length (v_password example_client) \<le> 64" "length (v_vehicleid example_client) \<le> 198"
    "0 \<notin> set (v_vehicleid example_client)" "\<not> v_paranoid example_client" "32 \<notin> set (str ''tok'')" "length (str ''tok'') < 1024"
    "\<forall>m \<in> set [str ''MP-0 a'']. length m \<noteq> 1" "v_password example_client = str ''secret''"
    by (simp_all add: example_client_def str_def)
  moreover have "str ''tok'' \<noteq> random_token (e_random example_env)"
  proof
    assume "str ''tok'' = random_token (e_random example_env)"
    then have "length (str ''tok'') = 22" using length_random_token [OF example_env_ok] by simp
    then show False by (simp add: str_def)
  qed
  ultimately show ?thesis
    using login_establishes_session [OF example_env_ok, of example_client 1 "str ''tok''" "[str ''MP-0 a'']"] by (metis (no_types))
qed

subsection \<open>Only the server's welcome connects\<close>

text \<open>What no received line changes, and what only the welcome does.\<close>

definition same_login :: "v2 \<Rightarrow> v2 \<Rightarrow> bool" where
  "same_login v v1 \<longleftrightarrow> v_password v1 = v_password v \<and> v_token v1 = v_token v"

lemma SetStatus_fields [simp]:
  "v_password (SetStatus s v) = v_password v" "v_token (SetStatus s v) = v_token v" "v_mgconn (SetStatus s v) = v_mgconn v"
  "v_buffer (SetStatus s v) = v_buffer v" "v_connretry (SetStatus s v) = v_connretry v" "v_rx (SetStatus s v) = v_rx v"
  "s \<noteq> Undefined \<Longrightarrow> v_state (SetStatus s v) = s"
  by (simp_all add: SetStatus_def emit_def)

lemma emit_fields [simp]:
  "v_password (emit x v) = v_password v" "v_token (emit x v) = v_token v" "v_mgconn (emit x v) = v_mgconn v"
  "v_buffer (emit x v) = v_buffer v" "v_state (emit x v) = v_state v" "v_rx (emit x v) = v_rx v" "v_out (emit x v) = v_out v @ [x]"
  "v_connretry (emit x v) = v_connretry v" "v_lastrx (emit x v) = v_lastrx v"
  by (simp_all add: emit_def)

lemma Reconnect_fields [simp]:
  "v_password (Reconnect n v) = v_password v" "v_token (Reconnect n v) = v_token v" "v_mgconn (Reconnect n v) = None"
  "v_buffer (Reconnect n v) = EmptyAll (v_buffer v)" "v_state (Reconnect n v) = v_state v" "v_connretry (Reconnect n v) = n"
  by (simp_all add: Reconnect_def close_conn_def split: option.splits)

lemma fail_retry_fields [simp]:
  "v_password (fail_retry n v) = v_password v" "v_token (fail_retry n v) = v_token v" "v_mgconn (fail_retry n v) = None"
  "v_state (fail_retry n v) = WaitReconnect" "v_buffer (fail_retry n v) = EmptyAll (v_buffer v)" "v_connretry (fail_retry n v) = n"
  by (simp_all add: fail_retry_def)

lemma Transmit_keeps:
  "Transmit e m v = Some (ok, v1) \<Longrightarrow> \<exists>tx out. v1 = v\<lparr>v_tx := tx, v_out := out\<rparr>"
  by (auto simp: Transmit_def emit_def Let_def split: option.splits prod.splits Option.bind_splits if_splits)
    (metis v2.surjective v2.update_convs(13) v2.update_convs(29))+

lemma transmit_all_keeps:
  "transmit_all e ms v = Some v1 \<Longrightarrow> \<exists>tx out. v1 = v\<lparr>v_tx := tx, v_out := out\<rparr>"
proof (induction ms arbitrary: v)
  case Nil
  then show ?case by (intro exI [of _ "v_tx v"] exI [of _ "v_out v"]) simp
next
  case (Cons m ms)
  from Cons.prems obtain ok w where "Transmit e m v = Some (ok, w)" "transmit_all e ms w = Some v1"
    by (auto split: Option.bind_splits)
  then obtain a b c d where "w = v\<lparr>v_tx := a, v_out := b\<rparr>" "v1 = w\<lparr>v_tx := c, v_out := d\<rparr>"
    using Transmit_keeps [of e m v ok w] Cons.IH [of w] by blast
  then have "v1 = v\<lparr>v_tx := c, v_out := d\<rparr>" by simp
  then show ?case by blast
qed

lemma server_code_keeps:
  assumes "server_code e c p v = Some v1"
  shows "v_password v1 = v_password v \<and> v_token v1 = v_token v \<and> v_mgconn v1 = v_mgconn v \<and> v_buffer v1 = v_buffer v \<and>
    v_state v1 = v_state v \<and> v_rx v1 = v_rx v"
proof -
  have tx: "Transmit e m v = Some (ok, v1) \<Longrightarrow> ?thesis" for m ok
    by (drule Transmit_keeps) auto
  have ta: "transmit_all e ms (emit x v) = Some v1 \<Longrightarrow> ?thesis" for ms x
    by (drule transmit_all_keeps) auto
  show ?thesis
    using assms tx ta by (auto simp: server_code_def Let_def split: if_splits)
qed

lemma hmac_Some_key: "hmac_md5 ctx msg key = Some d \<Longrightarrow> length key \<le> 64"
  by (auto simp: hmac_md5_def memcpy_at_def split: if_splits)

lemma paranoid_welcome_keeps:
  assumes "paranoid_welcome e v = Some v1"
  shows "v_password v1 = v_password v \<and> v_token v1 = v_token v \<and> v_mgconn v1 = v_mgconn v \<and> v_buffer v1 = v_buffer v"
proof -
  obtain ok w m v0 d where "Transmit e m v0 = Some (ok, w)" "v1 = w\<lparr>v_ptoken_ready := True, v_pdigest := d\<rparr>"
    "v0 = v\<lparr>v_ptoken := random_token (e_random e), v_ptoken_ready := False\<rparr>"
    using assms by (auto simp: paranoid_welcome_def Let_def split: Option.bind_splits)
  with Transmit_keeps [OF this(1)] show ?thesis by auto
qed

lemma space_split:
  "32 \<in> set r \<Longrightarrow> r = takeWhile (\<lambda>c. c \<noteq> 32) r @ [32] @ tl (dropWhile (\<lambda>c. c \<noteq> 32) r)" for r :: bytes
proof -
  assume "32 \<in> set r"
  then have "dropWhile (\<lambda>c. c \<noteq> 32) r \<noteq> []" by (simp add: dropWhile_eq_Nil_conv)
  then have "dropWhile (\<lambda>c. c \<noteq> 32) r = 32 # tl (dropWhile (\<lambda>c. c \<noteq> 32) r)"
    using hd_dropWhile [of "\<lambda>c. c \<noteq> 32" r] by (cases "dropWhile (\<lambda>c. c \<noteq> 32) r") auto
  then show ?thesis by (metis append_Cons append_Nil takeWhile_dropWhile_id)
qed

definition welcome_ok :: "bytes \<Rightarrow> v2 \<Rightarrow> bool" where
  "welcome_ok line v \<longleftrightarrow>
     (\<exists>stoken. 32 \<notin> set stoken \<and> stoken \<noteq> v_token v \<and> length (v_password v) \<le> 64 \<and> line = server_hello (v_password v) stoken)"

lemma server_welcome_cases:
  assumes "server_welcome e line v = Some v1" "env_ok e" "length line < 2 ^ 31" "take 7 line = str ''MP-S 0 ''"
  shows "v_password v1 = v_password v \<and> v_token v1 = v_token v \<and>
    (v_state v1 = WaitReconnect \<and> v_mgconn v1 = None \<and> v_buffer v1 = EmptyAll (v_buffer v) \<or>
     v_state v1 = Connected \<and> v_buffer v1 = v_buffer v \<and> v_mgconn v1 = v_mgconn v \<and> welcome_ok line v)"
proof -
  let ?r = "drop 7 line"
  let ?t = "takeWhile (\<lambda>c. c \<noteq> 32) ?r" and ?d = "tl (dropWhile (\<lambda>c. c \<noteq> 32) ?r)"
  show ?thesis
  proof (cases "32 \<notin> set ?r \<or> v_token v = ?t")
    case True
    then have "v1 = fail_retry 60 v" using assms(1) by (auto simp: server_welcome_def Let_def split: if_splits)
    then show ?thesis by simp
  next
    case False
    then obtain sd where sd: "hmac_md5 (e_ctx e) ?t (v_password v) = Some sd" using assms(1)
      by (auto simp: server_welcome_def Let_def split: Option.bind_splits)
    have pw: "length (v_password v) \<le> 64" by (rule hmac_Some_key [OF sd])
    have "length ?t \<le> length line" using length_takeWhile_le [of "\<lambda>c. c \<noteq> 32" ?r] by simp
    then have rfc: "sd = rfc2104 (v_password v) ?t" using hmac_ok [OF assms(2) _ pw, of ?t] sd assms(3) by simp
    have dt: "digest_text e 32 sd = Some (base64_text (rfc2104 (v_password v) ?t))"
      unfolding rfc by (rule digest_text_ok [OF assms(2)]) simp
    show ?thesis
    proof (cases "?d = base64_text (rfc2104 (v_password v) ?t)")
      case neq: False
      then have "v1 = fail_retry 60 v" using assms(1) False sd dt by (simp add: server_welcome_def Let_def)
      then show ?thesis by simp
    next
      case True
      have "line = server_hello (v_password v) ?t"
        using assms(4) False True space_split [of ?r] append_take_drop_id [of 7 line] unfolding server_hello_def by metis
      moreover have "32 \<notin> set ?t" by (auto dest: set_takeWhileD)
      ultimately have ok: "welcome_ok line v" using False pw unfolding welcome_ok_def by (intro exI [of _ ?t]) auto
      from assms(1) False True sd dt obtain w rx tx where
        "(if v_paranoid v then paranoid_welcome e (v\<lparr>v_rx := rx, v_tx := tx\<rparr>) else Some (v\<lparr>v_rx := rx, v_tx := tx\<rparr>)) = Some w"
        "v1 = SetStatus Connected (w\<lparr>v_pending_info := True, v_pending_error := True, v_pending_alert := True,
              v_pending_data := True, v_pending_last := 0, v_pending_retransmit := 0, v_connretry := 0, v_ping := 0,
              v_ms_connected := True\<rparr>)"
        by (auto simp: server_welcome_def Let_def split: Option.bind_splits)
      then show ?thesis using paranoid_welcome_keeps [of e "v\<lparr>v_rx := rx, v_tx := tx\<rparr>" w] ok by (auto split: if_splits)
    qed
  qed
qed

lemma server_line_cases:
  assumes "server_line e line v = Some v1" "env_ok e" "length line < 2 ^ 31"
  shows "v_password v1 = v_password v \<and> v_token v1 = v_token v \<and>
    (v_state v1 = WaitReconnect \<and> v_mgconn v1 = None \<and> v_buffer v1 = EmptyAll (v_buffer v) \<or>
     v_buffer v1 = v_buffer v \<and> (v_state v1 = v_state v \<or> v_state v1 = Connected \<and> welcome_ok line v))"
proof (cases "take 7 line = str ''MP-S 0 ''")
  case True
  then show ?thesis using server_welcome_cases [of e line v v1] assms by (auto simp: server_line_def)
next
  case False
  then obtain rx c p where "v1 = fail_retry 60 (v\<lparr>v_rx := rx\<rparr>) \<or> server_code e c p (v\<lparr>v_rx := rx\<rparr>) = Some v1"
    using assms(1) by (auto simp: server_line_def Let_def split: prod.splits Option.bind_splits if_splits)
  then show ?thesis
  proof
    assume "v1 = fail_retry 60 (v\<lparr>v_rx := rx\<rparr>)"
    then show ?thesis by simp
  next
    assume "server_code e c p (v\<lparr>v_rx := rx\<rparr>) = Some v1"
    from server_code_keeps [OF this] show ?thesis by simp
  qed
qed

text \<open>The lines a buffer's contents consist of, each with its end.\<close>

function lines_of :: "bytes \<Rightarrow> bytes list" where
  "lines_of c = (if \<exists>b \<in> set c. is_eol b then fst (read_line c) # lines_of (snd (read_line c)) else [])"
  by pat_completeness auto

lemma read_line_shorter: "\<exists>b \<in> set c. is_eol b \<Longrightarrow> length (snd (read_line c)) < length c"
proof -
  assume e: "\<exists>b \<in> set c. is_eol b"
  let ?d = "dropWhile (\<lambda>b. \<not> is_eol b) c"
  have "?d \<noteq> []" using e by (auto simp: dropWhile_eq_Nil_conv)
  then obtain x r where d: "?d = x # r" "is_eol x" by (metis hd_dropWhile list.exhaust_sel)
  have "length (drop_if 10 (drop_if 13 ?d)) \<le> length r"
    using d by (auto simp: drop_if_def is_eol_def split: list.splits)
  moreover have "length ?d \<le> length c" by (rule length_dropWhile_le)
  ultimately show ?thesis using e d by (simp add: read_line_def)
qed

termination lines_of
  by (relation "measure length") (simp_all add: read_line_shorter)

declare lines_of.simps [simp del]

text \<open>One pass of the loop: the next line of the contents, and what is left.\<close>

lemma pass_line:
  assumes "wf_buffer (v_buffer v)"
  shows "HasLine (v_buffer v) = Some (line_length (contents (v_buffer v)))"
    "\<exists>b. ProcessServerMsg e v = server_line e (fst (read_line (contents (v_buffer v)))) (v\<lparr>v_lastrx := e_now e, v_buffer := b\<rparr>) \<and>
       wf_buffer b \<and> contents b = snd (read_line (contents (v_buffer v))) \<and> m_size b = m_size (v_buffer v)"
proof -
  show "HasLine (v_buffer v) = Some (line_length (contents (v_buffer v)))" by (rule HasLine_ok [OF assms])
  obtain b where "ReadLine (v_buffer v) = Some (fst (read_line (contents (v_buffer v))), b)" "wf_buffer b"
    "contents b = snd (read_line (contents (v_buffer v)))" "m_size b = m_size (v_buffer v)"
    using ReadLine_ok [OF assms] by blast
  then show "\<exists>b. ProcessServerMsg e v = server_line e (fst (read_line (contents (v_buffer v)))) (v\<lparr>v_lastrx := e_now e, v_buffer := b\<rparr>) \<and>
       wf_buffer b \<and> contents b = snd (read_line (contents (v_buffer v))) \<and> m_size b = m_size (v_buffer v)"
    by (intro exI [of _ b]) (simp add: ProcessServerMsg_def)
qed

text \<open>The bound on the passes is enough: more passes than the buffer holds bytes change nothing.\<close>

lemma passes_stop:
  "HasLine (v_buffer v) = Some h \<Longrightarrow> \<not> (h \<ge> 0 \<and> v_mgconn v \<noteq> None) \<Longrightarrow> line_passes n es i v = Some v"
  by (cases n) auto

lemma passes_step:
  "HasLine (v_buffer v) = Some h \<Longrightarrow> h \<ge> 0 \<and> v_mgconn v \<noteq> None \<Longrightarrow>
   line_passes (Suc n) es i v = Option.bind (ProcessServerMsg (es i) v) (line_passes n es (i + 1))"
  by simp

lemma no_conn_stops: "wf_buffer (v_buffer w) \<Longrightarrow> v_mgconn w = None \<Longrightarrow> line_passes n es i w = Some w"
  by (cases n) (auto simp: HasLine_ok)

lemma line_passes_Suc:
  assumes "\<forall>i. env_ok (es i)" "wf_buffer (v_buffer v)" "m_size (v_buffer v) < 2 ^ 31" "m_used (v_buffer v) \<le> n"
  shows "line_passes (Suc n) es i v = line_passes n es i v"
  using assms(2-)
proof (induction n arbitrary: i v)
  case 0
  then have "contents (v_buffer v) = []" by (simp add: contents_def)
  then show ?case using HasLine_ok [OF 0(1)] by (simp add: line_length_def)
next
  case (Suc n)
  let ?c = "contents (v_buffer v)"
  have hl: "HasLine (v_buffer v) = Some (line_length ?c)" by (rule HasLine_ok [OF Suc.prems(1)])
  show ?case
  proof (cases "line_length ?c \<ge> 0 \<and> v_mgconn v \<noteq> None")
    case False
    show ?thesis by (simp only: passes_stop [OF hl False])
  next
    case True
    have eol: "\<exists>b \<in> set ?c. is_eol b" using True by (auto simp: line_length_def split: if_splits)
    show ?thesis
    proof (cases "ProcessServerMsg (es i) v")
      case None
      then show ?thesis by (simp only: passes_step [OF hl True] Option.bind.simps)
    next
      case (Some w)
      obtain b where b: "server_line (es i) (fst (read_line ?c)) (v\<lparr>v_lastrx := e_now (es i), v_buffer := b\<rparr>) = Some w"
        "wf_buffer b" "contents b = snd (read_line ?c)" "m_size b = m_size (v_buffer v)"
        using pass_line(2) [OF Suc.prems(1), of "es i"] Some by auto
      have "length (fst (read_line ?c)) \<le> length ?c" using eol length_takeWhile_le [of _ ?c] by (simp add: read_line_def)
      also have "length ?c \<le> m_size (v_buffer v)" using Suc.prems(1) by (simp add: wf_buffer_def)
      finally have "length (fst (read_line ?c)) < 2 ^ 31" using Suc.prems(2) by linarith
      from server_line_cases [OF b(1) _ this] assms(1)
      have cs: "v_mgconn w = None \<and> v_buffer w = EmptyAll b \<or> v_buffer w = b" by auto
      have "m_used b < m_used (v_buffer v)" using read_line_shorter [OF eol] b(3) by (metis contents_length)
      then have "line_passes (Suc n) es (i + 1) w = line_passes n es (i + 1) w" if "v_buffer w = b"
        using that b(2,4) Suc.prems(2,3) by (intro Suc.IH) simp_all
      moreover have "line_passes (Suc n) es (i + 1) w = line_passes n es (i + 1) w" if "v_buffer w \<noteq> b"
        using that cs no_conn_stops [of w] EmptyAll_ok(1) [OF b(2)] by auto
      ultimately have "line_passes (Suc n) es (i + 1) w = line_passes n es (i + 1) w" by blast
      then show ?thesis by (simp only: passes_step [OF hl True] Some Option.bind.simps)
    qed
  qed
qed

lemma line_passes_enough:
  assumes "\<forall>i. env_ok (es i)" "wf_buffer (v_buffer v)" "m_size (v_buffer v) < 2 ^ 31" "m_used (v_buffer v) \<le> n"
  shows "line_passes n es i v = line_passes (m_used (v_buffer v)) es i v"
  using assms(4)
proof (induction n)
  case (Suc n)
  then show ?case
    using line_passes_Suc [OF assms(1-3), of n i] by (cases "m_used (v_buffer v) \<le> n") (auto simp: le_Suc_eq simp del: line_passes.simps)
qed simp

lemma line_passes_state:
  assumes "line_passes n es i v = Some v1" "\<forall>i. env_ok (es i)" "wf_buffer (v_buffer v)" "m_size (v_buffer v) < 2 ^ 31"
    and "v_state v \<noteq> Connected" "v_state v1 = Connected"
  shows "\<exists>line \<in> set (lines_of (contents (v_buffer v))). welcome_ok line v"
  using assms(1,3-6)
proof (induction n arbitrary: i v)
  case (Suc n)
  let ?c = "contents (v_buffer v)"
  from Suc.prems obtain w where more: "line_length ?c \<ge> 0" "v_mgconn v \<noteq> None"
    and w: "ProcessServerMsg (es i) v = Some w" "line_passes n es (i + 1) w = Some v1"
    using pass_line(1) [OF Suc.prems(2)] by (auto split: Option.bind_splits if_splits)
  obtain b where b: "server_line (es i) (fst (read_line ?c)) (v\<lparr>v_lastrx := e_now (es i), v_buffer := b\<rparr>) = Some w"
    "wf_buffer b" "contents b = snd (read_line ?c)" "m_size b = m_size (v_buffer v)"
    using pass_line(2) [OF Suc.prems(2), of "es i"] w(1) by auto
  have eol: "\<exists>b \<in> set ?c. is_eol b" using more(1) by (auto simp: line_length_def split: if_splits)
  have lo: "lines_of ?c = fst (read_line ?c) # lines_of (contents b)" using eol b(3) by (subst lines_of.simps) simp
  have "length (fst (read_line ?c)) \<le> length ?c" using eol length_takeWhile_le [of _ ?c] by (simp add: read_line_def)
  also have "length ?c \<le> m_size (v_buffer v)" using Suc.prems(2) by (simp add: wf_buffer_def)
  finally have "length (fst (read_line ?c)) < 2 ^ 31" using Suc.prems(3) by linarith
  from server_line_cases [OF b(1) _ this] assms(2)
  have cs: "v_password w = v_password v \<and> v_token w = v_token v \<and>
    (v_state w = WaitReconnect \<and> v_mgconn w = None \<or>
     v_buffer w = b \<and> (v_state w = v_state v \<or> v_state w = Connected \<and> welcome_ok (fst (read_line ?c)) v))"
    by (auto simp: welcome_ok_def)
  consider "v_mgconn w = None" "v_state w = WaitReconnect" | "v_buffer w = b" "v_state w = v_state v"
    | "welcome_ok (fst (read_line ?c)) v" using cs by (elim conjE disjE) simp_all
  then show ?case
  proof cases
    case 1
    then have "v1 = w" using w(2) by (cases n) (auto split: Option.bind_splits)
    then show ?thesis using 1 Suc.prems(5) by simp
  next
    case 2
    then have "\<exists>line \<in> set (lines_of (contents (v_buffer w))). welcome_ok line w"
      using w(2) b(2,4) Suc.prems(3-5) by (intro Suc.IH) simp_all
    then show ?thesis using 2 cs lo by (auto simp: welcome_ok_def)
  next
    case 3
    then show ?thesis using lo by simp
  qed
qed simp

text \<open>C26. A client becomes connected only by the welcome of a server that knows the password: when the data
  received turn its state to \<open>Connected\<close>, one of the lines in the buffer is the welcome message with the digest of a
  token under the client's password, and this token is not the client's own.
\<close>

theorem connected_needs_welcome:
  assumes "IncomingData es data v = Some (n, v1)" "v_state v \<noteq> Connected" "v_state v1 = Connected"
    and "\<forall>i. env_ok (es i)" "wf_buffer (v_buffer v)" "m_size (v_buffer v) = 1024"
  shows "\<exists>stoken. server_hello (v_password v) stoken \<in> set (lines_of (contents (v_buffer v) @ data)) \<and>
    32 \<notin> set stoken \<and> stoken \<noteq> v_token v \<and> length (v_password v) \<le> 64"
proof -
  obtain b where b: "Push_block data (v_buffer v) = Some (m_used (v_buffer v) + length data \<le> m_size (v_buffer v), b)"
    "wf_buffer b" "m_size b = m_size (v_buffer v)"
    "contents b = (if m_used (v_buffer v) + length data \<le> m_size (v_buffer v) then contents (v_buffer v) @ data else contents (v_buffer v))"
    using Push_block_ok [OF assms(5), of data] by blast
  have fits: "m_used (v_buffer v) + length data \<le> m_size (v_buffer v)"
    using assms(1,2,3) b(1) by (auto simp: IncomingData_def split: if_splits)
  then have "line_passes (m_used b) es 0 (v\<lparr>v_buffer := b\<rparr>) = Some v1"
    using assms(1) b(1) by (auto simp: IncomingData_def split: Option.bind_splits)
  from line_passes_state [OF this assms(4)] obtain line where
    "line \<in> set (lines_of (contents b))" "welcome_ok line (v\<lparr>v_buffer := b\<rparr>)"
    using b(2,3) assms(2,3,6) by auto
  then show ?thesis using b(4) fits by (auto simp: welcome_ok_def)
qed

text \<open>The welcome, received as a line.\<close>

lemma welcome_received:
  assumes "env_ok (es 0)" "length (v_password v) \<le> 64" "\<not> v_paranoid v" "\<forall>c \<in> set stoken. c \<noteq> 32 \<and> \<not> is_eol c" "stoken \<noteq> v_token v"
    and "length (server_hello (v_password v) stoken) + length (v_token v) < 2 ^ 31" "v_mgconn v \<noteq> None" "wf_buffer (v_buffer v)" "contents (v_buffer v) = []"
    and "length (server_hello (v_password v) stoken) + 2 \<le> m_size (v_buffer v)"
  shows "\<exists>n v1. IncomingData es (server_hello (v_password v) stoken @ [13, 10]) v = Some (n, v1) \<and> v_state v1 = Connected"
proof -
  let ?l = "server_hello (v_password v) stoken"
  have "m_used (v_buffer v) = 0" using assms(9) contents_length [of "v_buffer v"] by simp
  then obtain b where b: "Push_block (?l @ [13, 10]) (v_buffer v) = Some (True, b)" "wf_buffer b" "contents b = ?l @ [13, 10]"
    using Push_block_ok [OF assms(8), of "?l @ [13, 10]"] assms(9,10) by auto
  have plain: "\<not> is_eol c" if "c \<in> set ?l" for c
    using that assms(4) base64_text_clean(2,3) by (auto simp: server_hello_def str_def is_eol_def)
  then have rl: "read_line (contents b) = (?l, [])"
    unfolding b(3) by (simp add: read_line_def takeWhile_append2 dropWhile_append2 drop_if_def is_eol_def)
  have ll: "line_length (contents b) \<ge> 0" unfolding b(3) by (simp add: line_length_def is_eol_def)
  let ?v = "v\<lparr>v_buffer := b\<rparr>"
  obtain b' where p: "ProcessServerMsg (es 0) ?v = server_line (es 0) ?l (?v\<lparr>v_lastrx := e_now (es 0), v_buffer := b'\<rparr>)"
    "wf_buffer b'" "contents b' = []"
    using pass_line(2) [of ?v "es 0"] b(2) rl by auto
  let ?w = "?v\<lparr>v_lastrx := e_now (es 0), v_buffer := b'\<rparr>"
  have wp: "v_password ?w = v_password v" "v_token ?w = v_token v" by simp_all
  have "32 \<notin> set stoken" "length (stoken @ v_token v) < 2 ^ 31" using assms(4,6) by (auto simp: server_hello_def)
  from server_line_welcome [OF assms(1), of ?w, unfolded wp, OF assms(2) _ this(1) assms(5) this(2)] assms(3)
  obtain v1 where v1: "server_line (es 0) ?l ?w = Some v1" "v_state v1 = Connected" by auto
  have k: "m_used b = Suc (Suc (length ?l))" using contents_length [of b] b(3) by simp
  have "length ?l < 2 ^ 31" using assms(6) by simp
  from server_line_cases [OF v1(1) assms(1) this] v1(2) have buf: "v_buffer v1 = b'" by auto
  have "line_passes (Suc (length ?l)) es 1 v1 = Some v1"
    using HasLine_ok [OF p(2)] p(3) by (simp add: buf line_length_def)
  then have "line_passes (m_used b) es 0 ?v = Some v1"
    using HasLine_ok [OF b(2)] ll assms(7) p(1) v1(1) unfolding k by simp
  then show ?thesis using b(1) v1(2) by (auto simp: IncomingData_def)
qed

theorem connected_needs_welcome_witness:
  "\<exists>n v1 stoken. IncomingData (\<lambda>_. example_env) (server_hello (str ''secret'') (str ''tok'') @ [13, 10]) example_client = Some (n, v1) \<and>
     v_state v1 = Connected \<and>
     server_hello (str ''secret'') stoken \<in> set (lines_of (server_hello (str ''secret'') (str ''tok'') @ [13, 10]))"
proof -
  have pw: "v_password example_client = str ''secret''" by (simp add: example_client_def)
  obtain n v1 where r: "IncomingData (\<lambda>_. example_env) (server_hello (str ''secret'') (str ''tok'') @ [13, 10]) example_client = Some (n, v1)"
    "v_state v1 = Connected"
    using welcome_received [of "\<lambda>_. example_env" example_client "str ''tok''"] example_env_ok example_buffer
    by (auto simp: example_client_def str_def is_eol_def server_hello_def length_base64_text)
  have "v_state example_client \<noteq> Connected" "\<forall>i :: nat. env_ok example_env" using example_env_ok by (simp_all add: example_client_def)
  from connected_needs_welcome [OF r(1) this(1) r(2) this(2) example_buffer(1,3)] r
  show ?thesis unfolding pw example_buffer(2) append_Nil by blast
qed

subsection \<open>Received messages\<close>

definition message_ok :: "bytes \<Rightarrow> bool" where
  "message_ok m \<longleftrightarrow> take 5 m = str ''MP-0 '' \<and> 6 \<le> length m \<and> 0 \<notin> set m \<and> m ! 5 \<noteq> of_char CHR ''E''"

lemma server_line_message:
  assumes "env_ok e" "message_ok m" "RC4_crypt (v_rx v) m = (rx, c)"
  shows "server_line e (base64_text c) v = server_code e (m ! 5) (drop 6 m) (v\<lparr>v_rx := rx\<rparr>)"
proof -
  have "take 7 (base64_text c) \<noteq> str ''MP-S 0 ''"
  proof
    assume "take 7 (base64_text c) = str ''MP-S 0 ''"
    then have "32 \<in> set (take 7 (base64_text c))" by (simp add: str_def)
    then show False using base64_text_clean(4) by (meson in_set_takeD)
  qed
  moreover have "length c + 1 \<le> length (base64_text c) + 1" by (simp add: length_base64_text)
  moreover have "c_str (m @ [0]) = Some m" using assms(2) c_str_append [of m "[]"] by (simp add: message_ok_def)
  ultimately show ?thesis
    using assms(1,2) RC4_crypt_undo [OF assms(3)]
    by (simp add: server_line_def base64decode_at_text env_ok_def message_ok_def rd_def)
qed

text \<open>The receiving side of the state does not matter to what a message does.\<close>

definition with_rx :: "rc4_ctx \<Rightarrow> ovms_buffer \<Rightarrow> v2 \<Rightarrow> v2" where
  "with_rx r b v = v\<lparr>v_rx := r, v_buffer := b\<rparr>"

lemma Transmit_with_rx: "Transmit e m (with_rx r b v) = map_option (map_prod id (with_rx r b)) (Transmit e m v)"
proof -
  have p: "paranoid_form e (with_rx r b v) m s = paranoid_form e v m s" for s by (simp add: paranoid_form_def with_rx_def)
  have "wire_line e (with_rx r b v) m = wire_line e v m"
    unfolding wire_line_def p by (simp add: with_rx_def)
  then show ?thesis by (cases "v_mgconn v"; cases "wire_line e v m") (auto simp: Transmit_def with_rx_def emit_def)
qed

lemma transmit_all_with_rx: "transmit_all e ms (with_rx r b v) = map_option (with_rx r b) (transmit_all e ms v)"
proof (induction ms arbitrary: v)
  case (Cons m ms)
  then show ?case by (cases "Transmit e m v") (auto simp: Transmit_with_rx)
qed simp

lemma server_code_with_rx: "server_code e c p (with_rx r b v) = map_option (with_rx r b) (server_code e c p v)"
proof -
  have "emit x (with_rx r b v) = with_rx r b (emit x v)" for x by (simp add: emit_def with_rx_def)
  then show ?thesis
    by (simp add: server_code_def transmit_all_with_rx Transmit_with_rx option.map_comp comp_def)
      (simp add: with_rx_def emit_def Let_def)
qed

text \<open>What the messages do, one after the other.\<close>

primrec handle_all :: "(nat \<Rightarrow> v2_env) \<Rightarrow> nat \<Rightarrow> bytes list \<Rightarrow> v2 \<Rightarrow> v2 option" where
  "handle_all es i [] v = Some v"
| "handle_all es i (m # ms) v = do {
     v1 \<leftarrow> server_code (es i) (m ! 5) (drop 6 m) (v\<lparr>v_lastrx := e_now (es i)\<rparr>);
     handle_all es (i + 1) ms v1 }"

lemma read_line_text: "read_line (base64_text c @ [13, 10] @ r) = (base64_text c, r)"
proof -
  have n: "\<not> is_eol b" if "b \<in> set (base64_text c)" for b using that base64_text_clean(2,3) [of c] by (auto simp: is_eol_def)
  then have "takeWhile (\<lambda>b. \<not> is_eol b) (base64_text c @ [13, 10] @ r) = base64_text c"
    "dropWhile (\<lambda>b. \<not> is_eol b) (base64_text c @ [13, 10] @ r) = [13, 10] @ r"
    by (simp_all add: takeWhile_append2 dropWhile_append2 is_eol_def)
  then show ?thesis by (simp add: read_line_def drop_if_def is_eol_def)
qed

lemma line_passes_messages:
  assumes "\<forall>i. env_ok (es i)" "\<forall>m \<in> set ms. message_ok m" "v2l.lines c ms = (c', ls)" "wf_buffer buf" "contents buf = concat ls"
    and "length ms \<le> n"
  shows "\<exists>b. wf_buffer b \<and> contents b = [] \<and> m_size b = m_size buf \<and> (\<forall>v. v_mgconn v \<noteq> None \<longrightarrow>
    line_passes n es i (with_rx c buf v) = map_option (with_rx c' b) (handle_all es i ms v))"
  using assms(2-)
proof (induction ms arbitrary: n i c c' ls buf)
  case Nil
  have "HasLine buf = Some (- 1)" using HasLine_ok [OF Nil.prems(3)] Nil.prems(2,4) by (auto simp: line_length_def)
  then have "line_passes n es i (with_rx c buf v) = Some (with_rx c buf v)" for v
    by (cases n) (simp_all add: with_rx_def)
  then show ?case using Nil.prems by (intro exI [of _ buf]) auto
next
  case (Cons m ms)
  obtain k where n: "n = Suc k" using Cons.prems(5) by (cases n) auto
  obtain c1 x where 1: "RC4_crypt c m = (c1, x)" by fastforce
  obtain c2 ls' where 2: "v2l.lines c1 ms = (c2, ls')" by fastforce
  have ls: "ls = (base64_text x @ [13, 10]) # ls'" "c' = c2" using Cons.prems(2) 1 2 by simp_all
  have cont: "contents buf = base64_text x @ [13, 10] @ concat ls'" using Cons.prems(4) ls by simp
  obtain b1 where b1: "ReadLine buf = Some (base64_text x, b1)" "wf_buffer b1" "contents b1 = concat ls'" "m_size b1 = m_size buf"
    using ReadLine_ok [OF Cons.prems(3)] unfolding cont read_line_text by auto
  have hl: "HasLine buf = Some (line_length (contents buf))" by (rule HasLine_ok [OF Cons.prems(3)])
  have "line_length (contents buf) \<ge> 0" unfolding cont by (simp add: line_length_def is_eol_def)
  note more = hl this
  have "\<forall>m \<in> set ms. message_ok m" "length ms \<le> k" using Cons.prems(1,5) n by simp_all
  from Cons.IH [OF this(1) 2 b1(2,3) this(2), of "i + 1"] obtain b where
    b: "wf_buffer b" "contents b = []" "m_size b = m_size b1"
      "\<And>v. v_mgconn v \<noteq> None \<Longrightarrow> line_passes k es (i + 1) (with_rx c1 b1 v) = map_option (with_rx c2 b) (handle_all es (i + 1) ms v)"
    by blast
  have "line_passes n es i (with_rx c buf v) = map_option (with_rx c' b) (handle_all es i (m # ms) v)" if conn: "v_mgconn v \<noteq> None" for v
  proof -
    let ?v = "v\<lparr>v_lastrx := e_now (es i)\<rparr>"
    have "ProcessServerMsg (es i) (with_rx c buf v) = server_line (es i) (base64_text x) (with_rx c b1 ?v)"
      using b1(1) by (cases v) (simp add: ProcessServerMsg_def with_rx_def)
    also have "\<dots> = server_code (es i) (m ! 5) (drop 6 m) ((with_rx c b1 ?v)\<lparr>v_rx := c1\<rparr>)"
      by (rule server_line_message) (use assms(1) Cons.prems(1) 1 in \<open>simp_all add: with_rx_def\<close>)
    also have "(with_rx c b1 ?v)\<lparr>v_rx := c1\<rparr> = with_rx c1 b1 ?v" by (simp add: with_rx_def)
    finally have p: "ProcessServerMsg (es i) (with_rx c buf v) = map_option (with_rx c1 b1) (server_code (es i) (m ! 5) (drop 6 m) ?v)"
      by (simp add: server_code_with_rx)
    have w: "v_buffer (with_rx c buf v) = buf" "v_mgconn (with_rx c buf v) = v_mgconn v" by (simp_all add: with_rx_def)
    show ?thesis
    proof (cases "server_code (es i) (m ! 5) (drop 6 m) ?v")
      case None
      then show ?thesis using p conn more by (simp add: n w)
    next
      case (Some v1)
      then have "v_mgconn v1 \<noteq> None" using server_code_keeps [OF Some] conn by simp
      then show ?thesis using p conn more b(4) [of v1] Some by (simp add: n w ls)
    qed
  qed
  then show ?case using b(1-3) b1(4) by (intro exI [of _ b]) simp
qed

text \<open>C27. The messages of the server arrive one after the other: when the lines of any sequence of messages, encrypted with the
  cipher the client receives with, come in as one block that fits into the buffer, the client acts on exactly
  these messages in their order, consumes the block, and its cipher is where the server's is.
\<close>

theorem messages_arrive_in_order:
  assumes "\<forall>i. env_ok (es i)" "\<forall>m \<in> set ms. message_ok m" "v2l.lines (v_rx v) ms = (c', ls)"
    and "wf_buffer (v_buffer v)" "contents (v_buffer v) = []" "length (concat ls) \<le> m_size (v_buffer v)" "v_mgconn v \<noteq> None"
  shows "\<exists>b. wf_buffer b \<and> contents b = [] \<and>
    IncomingData es (concat ls) v =
      map_option (\<lambda>w. (length (concat ls), w\<lparr>v_rx := c', v_buffer := b\<rparr>)) (handle_all es 0 ms v)"
proof -
  have u: "m_used (v_buffer v) = 0" using assms(5) contents_length [of "v_buffer v"] by simp
  then obtain b0 where b0: "Push_block (concat ls) (v_buffer v) = Some (True, b0)" "wf_buffer b0" "contents b0 = concat ls"
    using Push_block_ok [OF assms(4), of "concat ls"] assms(5,6) by auto
  have used: "m_used b0 = length (concat ls)" using b0(3) contents_length [of b0] by simp
  from line_passes_messages [OF assms(1-3) b0(2,3), of "m_used b0" 0] v2l.lines_length [OF assms(3)] obtain b where
    b: "wf_buffer b" "contents b = []" "line_passes (m_used b0) es 0 (with_rx (v_rx v) b0 v) = map_option (with_rx c' b) (handle_all es 0 ms v)"
    using used assms(7) by auto
  have "with_rx (v_rx v) b0 v = v\<lparr>v_buffer := b0\<rparr>" by (simp add: with_rx_def)
  then have "IncomingData es (concat ls) v = map_option (\<lambda>w. (length (concat ls), with_rx c' b w)) (handle_all es 0 ms v)"
    using b0(1) b(3) by (cases "handle_all es 0 ms v") (simp_all add: IncomingData_def)
  then show ?thesis using b(1,2) by (intro exI [of _ b]) (simp add: with_rx_def)
qed

theorem messages_arrive_in_order_witness:
  "\<exists>c w. v2l.lines (v_rx example_client) [str ''MP-0 Z2''] = (c, [base64_text (str ''MP-0 Z2'') @ [13, 10]]) \<and>
     IncomingData (\<lambda>_. example_env) (base64_text (str ''MP-0 Z2'') @ [13, 10]) example_client = Some (14, w) \<and> v_peers w = 2"
proof -
  obtain c where "RC4_crypt (v_rx example_client) (str ''MP-0 Z2'') = (c, str ''MP-0 Z2'')"
    by (simp add: example_client_def RC4_zero_table)
  then have l: "v2l.lines (v_rx example_client) [str ''MP-0 Z2''] = (c, [base64_text (str ''MP-0 Z2'') @ [13, 10]])" by simp
  have n: "length (concat [base64_text (str ''MP-0 Z2'') @ [13, 10]]) = 14" by (simp add: length_base64_text str_def)
  have "\<forall>m \<in> set [str ''MP-0 Z2'']. message_ok m" "v_mgconn example_client \<noteq> None" "\<forall>i :: nat. env_ok example_env"
    using example_env_ok by (simp_all add: message_ok_def str_def example_client_def)
  from messages_arrive_in_order [OF this(3,1) l example_buffer(1,2) _ this(2)]
  obtain b where b: "IncomingData (\<lambda>_. example_env) (concat [base64_text (str ''MP-0 Z2'') @ [13, 10]]) example_client =
    map_option (\<lambda>w. (14, w\<lparr>v_rx := c, v_buffer := b\<rparr>)) (handle_all (\<lambda>_. example_env) 0 [str ''MP-0 Z2''] example_client)"
    unfolding n example_buffer(3) by auto
  obtain w where "handle_all (\<lambda>_. example_env) 0 [str ''MP-0 Z2''] example_client = Some w" "v_peers w = 2"
    by (simp add: server_code_def str_def atoi_def is_space_def digits_value_def is_digit_def Let_def)
  then show ?thesis using l b by simp
qed

end
