(* ===== verification/ServerV2Limits.thy ===== *)
theory ServerV2Limits
  imports ServerV2Session
begin

unbundle bit_operations_syntax

section \<open>Where the V2 connection does not do what it means to\<close>

text \<open>
  Behaviour of \<open>ovms_server_v2.cpp\<close> that its functions have and a user would not expect: lines are acted upon before
  the server has shown that it knows the password, paranoid messages are cut off, a block
  larger than the buffer is never consumed, and the late end of one connection closes the one that
  replaced it.
\<close>

subsection \<open>Before the login\<close>

lemma Transmit_out: "Transmit e m v = Some (ok, w) \<Longrightarrow> \<exists>xs. v_out w = v_out v @ xs"
  by (auto simp: Transmit_def split: option.splits Option.bind_splits)

lemma transmit_all_out: "transmit_all e ms v = Some w \<Longrightarrow> \<exists>xs. v_out w = v_out v @ xs"
proof (induction ms arbitrary: v)
  case (Cons m ms)
  from Cons.prems obtain ok u where "Transmit e m v = Some (ok, u)" "transmit_all e ms u = Some w"
    by (auto split: Option.bind_splits)
  with Transmit_out [OF this(1)] Cons.IH [OF this(2)] show ?case by auto
qed simp

lemma SendLogin_keeps: "SendLogin e nc v = Some v1 \<Longrightarrow> v_rx v1 = v_rx v \<and> v_state v1 = Authenticating"
  by (auto simp: SendLogin_def Let_def split: Option.bind_splits)

text \<open>C31. The client executes commands before the login is complete: after \<open>SendLogin\<close>, in the state \<open>Authenticating\<close> and before any
  welcome, a line that the receiving cipher turns into a command message is handed to \<open>ProcessCommand\<close>.
  The cipher is the one the last session left behind; if its memory is zero, as before the first session it may be, the line is the
  plain message in base64 and no secret is needed.
\<close>

theorem command_before_login:
  assumes "SendLogin e nc v = Some v1" "env_ok e" "0 \<notin> set payload"
    and "RC4_crypt (v_rx v) (str ''MP-0 C'' @ payload) = (rx, c)" "server_line e (base64_text c) v1 = Some w"
  shows "v_state v1 = Authenticating \<and> v_state w = Authenticating \<and> Command payload \<in> set (v_out w) \<and>
    transmit_all e (e_answer e payload) (emit (Command payload) (v1\<lparr>v_rx := rx\<rparr>)) = Some w \<and>
    (v_rx v = \<lparr>rc4_x = 0, rc4_y = 0, rc4_m = replicate 256 0\<rparr> \<longrightarrow> c = str ''MP-0 C'' @ payload)"
proof -
  let ?m = "str ''MP-0 C'' @ payload"
  have v1: "v_rx v1 = v_rx v" "v_state v1 = Authenticating" using SendLogin_keeps [OF assms(1)] by simp_all
  have ok: "message_ok ?m" using assms(3) by (simp add: message_ok_def str_def)
  have "server_line e (base64_text c) v1 = server_code e (?m ! 5) (drop 6 ?m) (v1\<lparr>v_rx := rx\<rparr>)"
    by (rule server_line_message [OF assms(2) ok]) (simp add: v1 assms(4))
  also have "\<dots> = transmit_all e (e_answer e payload) (emit (Command payload) (v1\<lparr>v_rx := rx\<rparr>))"
    by (simp add: str_def server_code_def)
  finally have w: "transmit_all e (e_answer e payload) (emit (Command payload) (v1\<lparr>v_rx := rx\<rparr>)) = Some w"
    using assms(5) by simp
  moreover have "v_state w = Authenticating" using transmit_all_keeps [OF w] v1 by auto
  moreover have "Command payload \<in> set (v_out w)" using transmit_all_out [OF w] by auto
  moreover have "c = ?m" if "v_rx v = \<lparr>rc4_x = 0, rc4_y = 0, rc4_m = replicate 256 0\<rparr>"
    using assms(4) RC4_zero_table [of 0 ?m] that by simp
  ultimately show ?thesis using v1 by simp
qed

theorem command_before_login_witness:
  "\<exists>v1 w. SendLogin example_env 1 example_client = Some v1 \<and> v_state v1 = Authenticating \<and>
     server_line example_env (base64_text (str ''MP-0 C5'')) v1 = Some w \<and> Command (str ''5'') \<in> set (v_out w)"
proof -
  have five: "str ''MP-0 C'' @ str ''5'' = str ''MP-0 C5''" by (simp add: str_def)
  obtain rx where c: "RC4_crypt (v_rx example_client) (str ''MP-0 C'' @ str ''5'') = (rx, str ''MP-0 C5'')"
    unfolding five by (simp add: example_client_def RC4_zero_table)
  have "length (v_password example_client) \<le> 64" "length (v_vehicleid example_client) \<le> 198" "0 \<notin> set (v_vehicleid example_client)"
    by (simp_all add: example_client_def str_def)
  from SendLogin_line [OF example_env_ok this, of 1]
  obtain v1 where v1: "SendLogin example_env 1 example_client = Some v1" by blast
  have "message_ok (str ''MP-0 C5'')" by (simp add: message_ok_def str_def)
  from server_line_message [OF example_env_ok this, of v1] c SendLogin_keeps [OF v1] five
  obtain w where w: "server_line example_env (base64_text (str ''MP-0 C5'')) v1 = Some w"
    by (simp add: str_def server_code_def example_env_def)
  show ?thesis
    using command_before_login [OF v1 example_env_ok _ c w] v1 w by (auto simp: str_def)
qed

subsection \<open>Paranoid mode\<close>

lemma decode_codes_1: "decode_codes [x] = []"
  by (subst decode_codes.simps) simp

lemma take_small: "take 0 xs = []" "take 1 (x # r) = [x]" "take 2 (x # y # r) = [x, y]" "take 3 (x # y # z # r) = [x, y, z]"
  by (simp_all add: numeral_eq_Suc)

lemma take_3_add: "take (3 + n) (x # y # z # r) = x # y # z # take n r"
  by (simp add: numeral_eq_Suc)

lemma div_small: "3 * 0 div 4 = (0 :: nat)" "3 * 1 div 4 = (0 :: nat)" "3 * 2 div 4 = (1 :: nat)" "3 * 3 div 4 = (2 :: nat)"
  by simp_all

lemma small_cases: obtains "k = 0" | "k = 1" | "k = 2" | "k = 3" | j where "k = 4 + (j :: nat)"
proof -
  have "k < 4 \<or> (\<exists>j. k = 4 + j)" using le_Suc_ex [of 4 k] by (cases "k < 4") auto
  then show thesis
  proof
    assume "k < 4"
    then consider "k = 0" | "k = 1" | "k = 2" | "k = 3" by linarith
    then show thesis by cases (use that in blast)+
  qed (use that in blast)
qed

lemmas decode_small = take_small div_small decode_codes_Nil decode_codes_1 decode_codes_2 decode_codes_3 sextet_bits

lemma decode_take_sextets:
  "k \<le> length (sextets d) \<Longrightarrow> decode_codes (take k (sextets d)) = take (3 * k div 4) d"
proof (induction d arbitrary: k rule: sextets.induct)
  case (1 a b c ds)
  show ?case
  proof (cases k rule: small_cases)
    case (5 j)
    then have j: "j \<le> length (sextets ds)" using 1(2) by simp
    have "3 * k div 4 = 3 + 3 * j div 4" using 5 by simp
    then have t: "take (3 * k div 4) (a # b # c # ds) = a # b # c # take (3 * j div 4) ds" by (simp only: take_3_add)
    show ?thesis
      unfolding t by (simp only: 5 sextets.simps append_Cons append_Nil take_4_Cons decode_codes_4 decodeblock_Cons sextet_bits 1(1) [OF j])
  qed (simp_all only: sextets.simps append_Cons append_Nil decode_small)
next
  case (2 a b)
  then have "k \<le> 3" by simp
  then consider "k = 0" | "k = 1" | "k = 2" | "k = 3" by linarith
  then show ?case by cases (simp_all only: sextets.simps decode_small)
next
  case (3 a)
  then have "k \<le> 2" by simp
  then consider "k = 0" | "k = 1" | "k = 2" by linarith
  then show ?case by cases (simp_all only: sextets.simps decode_small)
qed simp

lemma take_8_of_9: "take 9 s = xs @ [c, d] \<Longrightarrow> length xs = 7 \<Longrightarrow> take 8 s = xs @ [c]"
  using take_take [of 8 9 s] by (simp add: min_def)

lemma paranoid_form_full:
  assumes "env_ok e" "length (v_pdigest v) = 16" "keyed (v_pdigest v) = Some k"
  shows "m = str ''MP-0 '' @ code # payload \<Longrightarrow>
    \<exists>r. paranoid_form e v m (m @ replicate (length m + 4) 0) =
      Some ((str ''MP-0 EM'' @ code # base64_text (snd (RC4_crypt k payload))) @ r)"
proof -
  assume m: "m = str ''MP-0 '' @ code # payload"
  let ?d = "snd (RC4_crypt k payload)"
  have c: "crypto_setup (v_pdigest v) = Some k" using assms(2,3) by (simp add: crypto_setup_keyed)
  have d: "length ?d = length payload" using RC4_crypt_length [of k payload] by (metis prod.collapse)
  let ?s = "m @ replicate (length m + 4) 0"
  let ?s1 = "str ''MP-0 EM'' @ [0] @ drop 8 ?s"
  have s: "memcpy_at ?s 0 (str ''MP-0 EM'' @ [0]) = Some ?s1"
    by (simp add: memcpy_at_def m str_def) (simp only: numeral_2_eq_2)
  have "\<exists>s2. memcpy_at ?s1 7 [code, 0] = Some s2" by (simp add: memcpy_at_def m str_def)
  then obtain s2 where s2: "memcpy_at ?s1 7 [code, 0] = Some s2" by blast
  have "take 9 s2 = str ''MP-0 EM'' @ [code, 0]" using memcpy_at_take [OF s2] by (simp add: str_def)
  then have t8: "take 8 s2 = str ''MP-0 EM'' @ [code]" by (rule take_8_of_9) (simp add: str_def)
  have "4 * ((n + 2) div 3) \<le> 2 * n + (7 :: nat)" for n by presburger
  from this [of "length ?d"] have room: "8 + 4 * ((length ?d + 2) div 3) + 1 \<le> length s2"
    using d memcpy_at_length [OF s2] by (simp add: m str_def)
  have "m ! 5 = code" "drop 6 m = payload" by (simp_all add: m str_def)
  then show ?thesis
    unfolding paranoid_form_def Let_def
    using c s s2 t8 base64encode_at_text [OF _ room, of "e_in e"] assms(1) by (simp add: env_ok_def)
qed

lemma length_cipher_text: "length payload \<le> length (base64_text (snd (RC4_crypt k payload)))"
proof -
  have "length (snd (RC4_crypt k payload)) = length payload" using RC4_crypt_length [of k payload] by (metis prod.collapse)
  then show ?thesis by (simp add: length_base64_text)
qed

lemma codes_take_text: "k \<le> length (sextets d) \<Longrightarrow> codes (take k (base64_text d)) = take k (sextets d)"
proof -
  assume k: "k \<le> length (sextets d)"
  have "list_all (\<lambda>v. v < 64) (take k (sextets d))"
    using sextets_less [of d] by (auto simp: list_all_iff dest: in_set_takeD)
  then show ?thesis using k codes_map_cb64 [of "take k (sextets d)" "[]"] by (simp add: base64_text_def take_map)
qed

lemma recovered:
  "snd (RC4_crypt k (decode_codes (codes (take (length payload - 2) (base64_text (snd (RC4_crypt k payload))))))) =
    take (3 * (length payload - 2) div 4) payload"
proof -
  obtain k' d where d: "RC4_crypt k payload = (k', d)" by fastforce
  have len: "length d = length payload" by (rule RC4_crypt_length [OF d])
  have "length payload - 2 \<le> length (sextets d)" using length_sextets [of d] len by linarith
  then have "decode_codes (codes (take (length payload - 2) (base64_text d))) = take (3 * (length payload - 2) div 4) d"
    by (simp only: codes_take_text decode_take_sextets)
  then show ?thesis using rc4.crypt_take [of k _ d] RC4_crypt_undo [OF d] by (simp add: d)
qed

text \<open>C32. In paranoid mode messages are cut off: \<open>Transmit\<close> encrypts the payload and writes the longer message \<open>MP-0 EM\<close> over the
  original one, but sends as many bytes as the original had.  What the server reads is this prefix, and an app with the
  module's password recovers no more than the first three quarters of the payload, less two bytes.
\<close>

theorem paranoid_message_cut_off:
  assumes "env_ok e" "v_mgconn v = Some conn" "v_ptoken_ready v" "length (v_pdigest v) = 16" "keyed (v_pdigest v) = Some k"
    and "code \<notin> set plain_codes"
  shows "\<exists>v1 line msg. Transmit e (str ''MP-0 '' @ code # payload) v = Some (True, v1) \<and> v_out v1 = v_out v @ [MgSend conn line] \<and>
    v2l.read_lines (v_tx v) [line] = (v_tx v1, [msg]) \<and>
    msg = take (length payload + 6) (str ''MP-0 EM'' @ code # base64_text (snd (RC4_crypt k payload))) \<and>
    snd (RC4_crypt k (decode_codes (codes (drop 8 msg)))) = take (3 * (length payload - 2) div 4) payload"
proof -
  let ?m = "str ''MP-0 '' @ code # payload" and ?d = "snd (RC4_crypt k payload)"
  let ?n = "length payload" and ?full = "str ''MP-0 EM'' @ code # base64_text (snd (RC4_crypt k payload))"
  let ?msg = "take (?n + 6) ?full"
  obtain r where pf: "paranoid_form e v ?m (?m @ replicate (length ?m + 4) 0) = Some (?full @ r)"
    using paranoid_form_full [OF assms(1,4,5) refl] by blast
  have len: "length ?m = ?n + 6" "length ?msg = ?n + 6"
    using length_cipher_text [of payload k] by (simp_all add: str_def)
  obtain tx t where t: "RC4_crypt (v_tx v) ?msg = (tx, t)" by fastforce
  have lt: "length t = length ?m" using RC4_crypt_length [OF t] len by simp
  have tail: "do { (buf, k) \<leftarrow> base64encode_at (e_in e) (replicate (length ?m * 2 + 4) 0) 0 t;
      buf' \<leftarrow> memcpy_at buf k (str [CHR 0x0D, CHR 0x0A] @ [0]); line \<leftarrow> c_str buf'; Some (tx, line) } =
    Some (tx, base64_text t @ [13, 10])"
    by (rule line_tail [OF assms(1) lt]) (simp add: str_def)
  have "rd ?m 5 = Some code" by (simp add: rd_def str_def)
  moreover have "length payload + 6 - length ?full = 0"
    using length_cipher_text [of payload k] by (simp add: str_def)
  then have "take (length ?m) (?full @ r) = ?msg" by (simp only: len(1) take_append take_0 append_Nil2)
  ultimately have wl: "wire_line e v ?m = Some (tx, base64_text t @ [13, 10])"
    by (simp only: wire_line_def Let_def assms(3,6) if_True not_False_eq_True bind.bind_lunit pf t prod.case tail)
  have tr: "Transmit e ?m v = Some (True, emit (MgSend conn (base64_text t @ [13, 10])) (v\<lparr>v_tx := tx\<rparr>))"
    using wl assms(2) by (simp add: Transmit_def)
  have rl: "v2l.read_lines (v_tx v) [base64_text t @ [13, 10]] = (tx, [?msg])"
    using RC4_crypt_undo [OF t] v2l.dec_line [of t] by simp
  have "drop 8 ?msg = take (?n - 2) (base64_text ?d)" by (simp add: str_def drop_take)
  then have "snd (RC4_crypt k (decode_codes (codes (drop 8 ?msg)))) = take (3 * (?n - 2) div 4) payload"
    by (simp only: recovered)
  then show ?thesis using tr rl by (intro exI [of _ ?msg] exI [of _ "base64_text t @ [13, 10]"]
    exI [of _ "emit (MgSend conn (base64_text t @ [13, 10])) (v\<lparr>v_tx := tx\<rparr>)"]) (simp add: emit_def)
qed

theorem paranoid_message_cut_off_witness:
  "\<exists>k v1 line msg. keyed (replicate 16 5) = Some k \<and>
     Transmit example_env (str ''MP-0 '' @ 83 # str ''100,K'') (example_client\<lparr>v_ptoken_ready := True\<rparr>) = Some (True, v1) \<and>
     v2l.read_lines (v_tx example_client) [line] = (v_tx v1, [msg]) \<and>
     snd (RC4_crypt k (decode_codes (codes (drop 8 msg)))) = str ''10''"
proof -
  let ?v = "example_client\<lparr>v_ptoken_ready := True\<rparr>"
  obtain k where k: "keyed (replicate 16 5) = Some k" using keyed_Some [of "replicate 16 5"] by auto
  have "v_mgconn ?v = Some 1" "v_ptoken_ready ?v" "length (v_pdigest ?v) = 16" "keyed (v_pdigest ?v) = Some k" "83 \<notin> set plain_codes"
    "v_tx ?v = v_tx example_client"
    using k by (simp_all add: example_client_def plain_codes_def str_def)
  moreover have "take (3 * (length (str ''100,K'') - 2) div 4) (str ''100,K'') = str ''10''" by (simp add: str_def)
  ultimately show ?thesis
    using paranoid_message_cut_off [OF example_env_ok, of ?v 1 k 83 "str ''100,K''"] k by metis
qed

subsection \<open>Blocks that do not fit\<close>

lemma large_block_stalls:
  assumes "FreeSpace (v_buffer v) < length mbuf"
  shows "on_recv es (mbuf @ later) v = Some (mbuf @ later, v)"
  using assms by (simp add: on_recv_def IncomingData_def Push_block_def FreeSpace_def)

subsection \<open>The end of an old connection\<close>

lemma late_close_ends_new_connection:
  assumes "v_mgconn v = Some old" "v_connretry v = 1" "n_up net" "n_running net" "n_ssl net" "n_conn net = Some new"
    and "c_vehicleid cf \<noteq> []" "c_server cf \<noteq> []" "c_password cf \<noteq> []"
  shows "v_mgconn (tick_connect cf net v) = Some new \<and> CloseConn old \<in> set (v_out (tick_connect cf net v)) \<and>
    (let w = on_close old (tick_connect cf net v) in
      v_mgconn w = None \<and> CloseConn new \<in> set (v_out w) \<and> v_state w = WaitReconnect \<and> v_connretry w = 10)"
  using assms by (simp add: tick_connect_def Connect_def Disconnect_def close_conn_def SetStatus_def emit_def on_close_def Reconnect_def Let_def)

end
