(* ===== verification/Spec2Isabelle.thy ===== *)
theory Spec2Isabelle
  imports Prelude Float32 Bap BapAssembler BatteryControl BatCtrl MicrorlHistory Microrl MicrorlScreen EGolf EGolfSignals VerCmp SplitArgv TelnetSafety TelnetNegotiation IsoTpRequest VwtpChannel GsmMuxOpening ServerV2Limits
begin

text \<open>
  Verification of parts of the Open Vehicle Monitoring System, version 3, VW e-Golf edition.  All paths
  are relative to \<open>src/vehicle/OVMS.V3/\<close>.

  \<^bold>\<open>The program.\<close>  The firmware of a telematics module: CAN buses on one side, a modem, wifi
  and shells on the other, and a vehicle module in between that decodes traffic into metrics and turns
  user commands into frames.  The development follows the data of the e-Golf module and of the
  subsystems it stands on:

  \<^item> A CAN frame reaches \<open>OvmsVehicleVWeGolf\<close> (EGolf).  Its decoders set metrics; frames of the battery
    control unit go on to \<open>VWeGolfBatteryControl\<close> (BatCtrl), which reassembles them with
    \<open>AssemblerSetT\<close> (BapAssembler) into elements of the BAP protocol (Bap), whose bodies are the
    records of BatteryControl.  Commands travel the same way back, through \<open>sendElementFn\<close>.
  \<^item> Diagnostic polls go through \<open>OvmsPoller\<close> over ISO-TP (IsoTp and its two proof theories) or over the
    VW transport protocol 2.0 (Vwtp and its proof theories), which share the state of the poller.
  \<^item> A user types into the line editor \<open>microrl\<close> (MicrorlHistory, Microrl, MicrorlScreen), or into a
    telnet session (the Telnet theories); a finished line is taken apart by
    \<open>esp_console_split_argv\<close> (SplitArgv).
  \<^item> The modem's serial line carries the channels of a GSM 07.10 multiplexer (the GsmMux theories), which
    keep their bytes in ring buffers (OvmsBuffer).
  \<^item> Messages travel to and from the V2 server as encrypted lines (ServerV2 and its two proof theories),
    over the ciphers, digests and codings of \<open>components/crypto\<close> (Base64, Rc4, Md5, Hmac) and a ring buffer
    for the lines received.  The update orders versions with \<open>strverscmp\<close> (VerCmp).

  \<^bold>\<open>How code becomes definitions.\<close>  A struct or class is a record with the fields under their
  names, an enum a \<open>datatype\<close> or the numbers of the code, a w-bit integer a word of that width, a buffer
  a byte list.  A function that changes its object takes the record and returns it changed.  An access
  outside a buffer is the value \<open>None\<close> of the whole call (\<open>rd\<close>, \<open>rdn\<close>, \<open>wr\<close> and the like in
  Prelude), so that a theorem that a call returns \<open>Some\<close> includes that it stays in its memory.  What
  a part tells its surroundings (frames written, events, characters printed, notifications) is a list
  in its record; what the surroundings answer (the CAN driver, the allocator, the modem, the clock, the
  completion callback) is an argument, without assumptions unless a theorem states them.

  \<^bold>\<open>The theories.\<close>

  \<^item> Prelude: machine words, checked buffers, and the collections of simplification rules for both.
    Float32: the rounding of the C++ \<open>float\<close> as a function on rationals.
  \<^item> Bap (\<open>components/vehicle_vwegolf/src/bap/bap.h\<close>, \<open>bap.cpp\<close>): header and control bytes, body Reader
    and Writer, \<open>sendElementFn\<close>.  The frames offered to the sink are the segmentation of the telegram.
    The locale \<open>element_transport\<close> is the contract of a receiver of such frames; BapAssembler
    interprets it with the assembler (\<open>bap\<close>), which gives the round trip.
  \<^item> BapAssembler (\<open>bap.h\<close>): the slots of interleaved messages, an invariant under which no frame leaves
    a buffer, and the refinement to one reassembly per CAN id.
  \<^item> BatteryControl (\<open>egolf/battery_control.h\<close>, \<open>.cpp\<close>): profiles, timers, arrays, commands, each with
    its round trip; the locale \<open>record_codec\<close> holds what fixed-size records share, interpreted for
    timers and windows.
  \<^item> BatCtrl (\<open>vehicle_vwegolf_bat_ctrl.h\<close>, \<open>.cpp\<close>): the command state machine.  \<open>bc_reach\<close> is
    reachability under any sequence of frames, ticks and commands; its invariants give the safety
    properties (the current limit on the wire, no trigger before the read), the liveness property runs
    the machine against a cooperative unit.
  \<^item> EGolf (\<open>vehicle_vwegolf.h\<close>, \<open>.cpp\<close>): decoders, heartbeat session, commands; \<open>vehicle_reach\<close> and its
    invariants.  EGolfSignals: a reference decoder from \<open>docs/vwegolf.dbc\<close>, equal to the code's.
  \<^item> IsoTp (\<open>components/poller/src/vehicle_poller_isotp.cpp\<close>, parts of \<open>vehicle_poller.h\<close> and
    \<open>vehicle_poller.cpp\<close>): requests, flow control, responses.  IsoTpResponse and IsoTpRequest compare
    both directions with the segmentation of ISO 15765-2 (\<open>isotp_frames\<close>).
  \<^item> Vwtp (\<open>vehicle_poller_vwtp.cpp\<close>): the channel of VW TP 2.0, its states, both directions and the
    ticker, over the poller of IsoTp.
  \<^item> MicrorlHistory, Microrl, MicrorlScreen (\<open>components/microrl/microrl.c\<close>): the history ring
    implements a list of lines (locale \<open>line_history\<close>, interpretation \<open>ring\<close>), the editor a text with
    a cursor, and an abstract terminal shows the line after every key.
  \<^item> SplitArgv (\<open>components/console/split_argv.c\<close>): the splitter in place refines one on lists.
  \<^item> TelnetOptions, TelnetSubneg, Telnet (\<open>components/libtelnet/src/libtelnet.c\<close>): negotiation,
    subnegotiation bodies, the byte loop and the sending functions.  TelnetLink: two ends of a
    connection, independence of the chunks.  TelnetBody, TelnetEnviron: subnegotiations and the
    environment list.  TelnetSafety: memory safety.  TelnetNegotiation: the state machine of RFC 1143.
  \<^item> OvmsBuffer (\<open>components/ovms_buffer/src/ovms_buffer.cpp\<close>): the ring buffer; locale \<open>byte_queue\<close>,
    interpretation \<open>ob\<close>.  GsmMux, GsmMuxFrames, GsmMuxOpening
    (\<open>components/ovms_cellular/src/gsmmux.cpp\<close>): the multiplexer, its frames and checksums, the
    opening of the channels.
  \<^item> VerCmp (\<open>components/strverscmp/src/strverscmp.c\<close>, \<open>buildverscmp\<close> of
    \<open>components/ovms_ota/src/ovms_ota.cpp\<close>): the order on versions.
  \<^item> Base64, Rc4, Md5, Hmac (\<open>components/crypto/crypt_base64.cpp\<close>, \<open>crypt_rc4.cpp\<close>, \<open>crypt_md5.cpp\<close>,
    \<open>crypt_hmac.cpp\<close>): each compared with its reference (RFC 4648, the textbook RC4, RFC 1321 in its rotating
    form, RFC 2104); the locale \<open>stream_cipher\<close> and its interpretation \<open>rc4\<close>.
  \<^item> ServerV2 (\<open>components/ovms_server_v2/src/ovms_server_v2.cpp\<close>): the connection, its login and line protocol.
    ServerV2Session: the peer of \<open>docs/source/protocol_v2\<close>, the locale \<open>line_cipher\<close> over
    \<open>stream_cipher\<close> with its interpretation \<open>v2l\<close>, login, authenticity of the welcome, messages in both
    directions.  ServerV2Limits: what happens before the login, in paranoid mode, with blocks that do not
    fit, and when an old connection ends late.

  \<^bold>\<open>Bounds and termination.\<close>  Loops are structural recursions, counted as the code counts them,
  or functions with a measure.  Two loops carry a bound that the code does not write down.  The loop of
  \<open>OvmsServerV2::IncomingData\<close> (\<open>line_passes\<close>) may make as many passes as the buffer holds bytes, and
  \<open>line_passes_enough\<close> shows that more passes change nothing.  \<open>split_loop\<close> may read one character more
  than the line holds; out of passes it is \<open>None\<close>, as the read behind the line is, and the theorem on
  \<open>esp_console_split_argv\<close> states its result as \<open>Some\<close>.  Three kinds of loop need not end on an arbitrary state and are \<open>partial_function (option)\<close>:
  the searches of the history ring and \<open>GsmMux::Process\<close>; that they end is part of the theorems that
  state their result as \<open>Some\<close>.  The byte loop of the telnet tracker calls itself for one byte inside
  a subnegotiation; \<open>telnet_recv\<close> nests it twice, and no path of the code nests deeper.  Sizes that are
  template parameters or constructor arguments of the code (\<open>MaxBody\<close>, slots, ring sizes) stay
  arguments; constants of the code keep their value.

  \<^bold>\<open>Deviations.\<close>  Where the code leaves its memory or does not do what it means to, a theorem
  states the deviation (a key of the editor outside its buffer, a stale frame taken for the next one, a
  channel that does not exist), and the findings of the manifest name its code lines.

  \<^bold>\<open>Not modelled.\<close>  Inside the modelled parts: log output; mutexes and the interleaving of tasks (each
  call runs to its end); the delays of \<open>WakeKcanBus\<close>; the zlib branches of libtelnet, which are not
  compiled; callbacks that call back into the library; the two conversions between temperatures and
  floats in \<open>battery_control.h\<close>; the raw-data variant of the packet poll series.  Of the poller,
  the scheduling around the protocols (lists of series, tickers and limiter, command queue) is callback
  dispatch over shared pointers and FreeRTOS queues; the protocols take its answers as arguments.  Left
  out as a whole: duktape, mongoose, wolfssl, libzip, argtable3, linenoise, umm_malloc and other
  third-party code; generated parsers and ECU definition tables; register-level drivers (CAN
  controllers, SPI, ADC, SD card, wifi, bluetooth, modem power); the registries of the framework
  (metrics, configuration, commands, events, notifications), of which the models record the calls;
  web pages and the text of the messages that carry metrics and notifications to the servers; the vehicle modules of other cars, which are
  tables of decoding cases without a counterpart to compare them with.
\<close>

end
